(* ===== verification/Fino_Prelude.thy ===== *)
theory Fino_Prelude
  imports Main "HOL-Library.Word"
begin

text \<open>
  Shared vocabulary of the development.

  \<^item> \<open>byte\<close> is an element of a \<open>Uint8Array\<close>, \<open>code_unit\<close> one UTF-16 code unit of a
    JavaScript string, \<open>u32\<close> the operand of JavaScript's 32-bit bitwise operators.
  \<^item> A call that may throw is a value of \<open>'e + 'a\<close>; \<open>bindR\<close> sequences two such calls, the
    first error winning, as an exception does.
  \<^item> The collection \<open>bit_arith\<close> holds the rewrites that turn the shifts and masks of the wire
    formats into \<open>div\<close> and \<open>mod\<close>, where linear arithmetic finishes; \<open>result_simps\<close>
    the rewrites for \<open>bindR\<close>.
\<close>

unbundle bit_operations_syntax

named_theorems bit_arith
named_theorems result_simps

type_synonym byte = "8 word"
type_synonym code_unit = "16 word"
type_synonym u32 = "32 word"
type_synonym u64 = "64 word"
type_synonym text_string = "code_unit list"

subsection \<open>Calls that may throw\<close>

definition bindR :: "'e + 'a \<Rightarrow> ('a \<Rightarrow> 'e + 'b) \<Rightarrow> 'e + 'b" where
  "bindR r f = (case r of Inl e \<Rightarrow> Inl e | Inr x \<Rightarrow> f x)"

lemma bindR_simps [simp, result_simps]:
  "bindR (Inl e) f = Inl e"
  "bindR (Inr x) f = f x"
  by (simp_all add: bindR_def)

lemma bindR_eq_Inr [result_simps]:
  "bindR r f = Inr y \<longleftrightarrow> (\<exists>x. r = Inr x \<and> f x = Inr y)"
  by (cases r) simp_all

lemma bindR_eq_Inl [result_simps]:
  "bindR r f = Inl e \<longleftrightarrow> r = Inl e \<or> (\<exists>x. r = Inr x \<and> f x = Inl e)"
  by (cases r) simp_all

lemma bindR_assoc: "bindR (bindR r f) g = bindR r (\<lambda>x. bindR (f x) g)"
  by (cases r) simp_all

lemma bindR_cong [fundef_cong]:
  "r = r' \<Longrightarrow> (\<And>x. r' = Inr x \<Longrightarrow> f x = g x) \<Longrightarrow> bindR r f = bindR r' g"
  by (cases r') simp_all

subsection \<open>Loops over an array\<close>

fun mapR :: "('a \<Rightarrow> 'e + 'b) \<Rightarrow> 'a list \<Rightarrow> 'e + 'b list" where
  "mapR f [] = Inr []"
| "mapR f (x # xs) = bindR (f x) (\<lambda>y. bindR (mapR f xs) (\<lambda>ys. Inr (y # ys)))"

lemma mapR_cong [fundef_cong]:
  "xs = ys \<Longrightarrow> (\<And>x. x \<in> set ys \<Longrightarrow> f x = g x) \<Longrightarrow> mapR f xs = mapR g ys"
proof (induction ys arbitrary: xs)
  case (Cons y ys)
  then show ?case by (auto intro!: bindR_cong)
qed simp

lemma mapR_Inr: "(\<And>x. x \<in> set xs \<Longrightarrow> f x = Inr (g x)) \<Longrightarrow> mapR f xs = Inr (map g xs)"
  by (induction xs) auto

lemma mapR_map: "mapR f (map g xs) = mapR (\<lambda>x. f (g x)) xs"
  by (induction xs) simp_all

lemma mapR_nth: "mapR f xs = Inr ys \<longleftrightarrow> length ys = length xs \<and> (\<forall>i < length xs. f (xs ! i) = Inr (ys ! i))"
proof (induction xs arbitrary: ys)
  case (Cons x xs)
  show ?case
  proof (cases ys)
    case (Cons y ys')
    have "(\<forall>i < length (x # xs). f ((x # xs) ! i) = Inr ((y # ys') ! i)) \<longleftrightarrow> f x = Inr y \<and> (\<forall>i < length xs. f (xs ! i) = Inr (ys' ! i))"
      by (auto simp: less_Suc_eq_0_disj)
    then show ?thesis using Cons.IH [of ys'] by (auto simp: Cons bindR_eq_Inr)
  qed (auto simp: bindR_eq_Inr)
qed auto

lemma mapR_ex:
  assumes "\<And>x. x \<in> set xs \<Longrightarrow> \<exists>y. f x = Inr y \<and> P x y"
  shows "\<exists>ys. mapR f xs = Inr ys \<and> list_all2 P xs ys"
  using assms
proof (induction xs)
  case (Cons x xs)
  then obtain y ys where "f x = Inr y" "P x y" "mapR f xs = Inr ys" "list_all2 P xs ys" by (metis list.set_intros)
  then show ?case by auto
qed simp

lemma mapR_pointwise:
  "length xs = length ys \<Longrightarrow> (\<And>i. i < length xs \<Longrightarrow> f (xs ! i) = g (ys ! i)) \<Longrightarrow> mapR f xs = mapR g ys"
proof (induction xs ys rule: list_induct2)
  case (Cons x xs y ys)
  have "f x = g y" using Cons.prems [of 0] by simp
  moreover have "mapR f xs = mapR g ys" using Cons.prems [of "Suc _"] by (intro Cons.IH) auto
  ultimately show ?case by simp
qed simp

subsection \<open>Bits as arithmetic\<close>

lemma nat_and_exp_minus_1: "(x::nat) AND (2 ^ n - 1) = x mod 2 ^ n"
  by (metis mask_eq_exp_minus_1 take_bit_eq_mask take_bit_eq_mod)

lemmas nat_and_mask [bit_arith] =
  nat_and_exp_minus_1 [where n = 2, simplified]
  nat_and_exp_minus_1 [where n = 3, simplified]
  nat_and_exp_minus_1 [where n = 4, simplified]
  nat_and_exp_minus_1 [where n = 5, simplified]
  nat_and_exp_minus_1 [where n = 6, simplified]
  nat_and_exp_minus_1 [where n = 7, simplified]
  nat_and_exp_minus_1 [where n = 8, simplified]
  nat_and_exp_minus_1 [where n = 10, simplified]

text \<open>Filling the low bits of a multiple of \<open>2 ^ k\<close> adds.\<close>

lemma nat_or_low_bits:
  assumes "(x::nat) < 2 ^ k"
  shows "(y * 2 ^ k) OR x = y * 2 ^ k + x"
proof -
  have x: "take_bit k x = x"
    using assms by (simp add: take_bit_nat_eq_self)
  have "push_bit k y AND take_bit k x = 0"
    by (auto simp: bit_eq_iff bit_simps)
  then have "push_bit k y OR x = push_bit k y + x"
    by (simp add: disjunctive_add_eq_or x)
  then show ?thesis by (simp add: push_bit_eq_mult)
qed

lemma nat_and_push_bit: "(b::nat) AND push_bit k m = push_bit k (drop_bit k b AND m)"
  by (auto simp: bit_eq_iff bit_simps)

lemma nat_and_high_mask:
  assumes "(b::nat) < 2 ^ (k + n)"
  shows "b AND ((2 ^ n - 1) * 2 ^ k) = b div 2 ^ k * 2 ^ k"
proof -
  have "b div 2 ^ k < 2 ^ n"
    using assms by (simp add: less_mult_imp_div_less power_add mult.commute)
  then have "drop_bit k b AND (2 ^ n - 1) = b div 2 ^ k"
    unfolding nat_and_exp_minus_1 by (simp add: drop_bit_eq_div)
  then show ?thesis
    using nat_and_push_bit [of b k "2 ^ n - 1"] by (simp add: push_bit_eq_mult)
qed

lemma div_mult_eq_iff:
  "0 < m \<Longrightarrow> (b::nat) div m * m = c * m \<longleftrightarrow> c * m \<le> b \<and> b < c * m + m"
  using less_eq_div_iff_mult_less_eq [of m c b] div_less_iff_less_mult [of m b "Suc c"]
  by (auto simp: algebra_simps)

lemma digit_mod: "x < m \<Longrightarrow> (c * m + x) mod m = (x::nat)"
  by simp

subsection \<open>Elements of typed arrays\<close>

lemma unat_byte_less [simp]: "unat (b::byte) < 256"
  using unsigned_less [of b] by simp

lemma unat_unit_less [simp]: "unat (u::code_unit) < 65536"
  using unsigned_less [of u] by simp

lemma unat_of_nat_byte [simp]: "n < 256 \<Longrightarrow> unat (of_nat n :: byte) = n"
  by (simp add: unat_of_nat)

lemma unat_of_nat_unit [simp]: "n < 65536 \<Longrightarrow> unat (of_nat n :: code_unit) = n"
  by (simp add: unat_of_nat)

lemma map_unat_inject: "map unat xs = map unat ys \<longleftrightarrow> xs = (ys :: byte list)"
  by (rule inj_map_eq_map) (auto intro: injI)

subsection \<open>Signed shifts\<close>

text \<open>\<open>n >> k\<close> of a number that is a natural: it is cut to a signed 32-bit integer first.\<close>

definition shr32 :: "nat \<Rightarrow> nat \<Rightarrow> int" where
  "shr32 n k = drop_bit k (signed_take_bit 31 (int n))"

lemma shr32_small: "n < 2 ^ 31 \<Longrightarrow> shr32 n k = int (n div 2 ^ k)"
proof -
  assume "n < 2 ^ 31"
  then have "signed_take_bit 31 (int n) = int n" by (intro signed_take_bit_int_eq_self) simp_all
  then show ?thesis by (simp add: shr32_def drop_bit_eq_div zdiv_int)
qed

lemma shr32_negative: "2 ^ 31 \<le> n \<Longrightarrow> n < 2 ^ 32 \<Longrightarrow> shr32 n k < 0"
proof -
  assume n: "2 ^ 31 \<le> n" "n < 2 ^ 32"
  then have "(int n + 2 ^ 31) mod 2 ^ 32 = int n - 2 ^ 31"
    using mod_pos_pos_trivial [of "int n - 2 ^ 31" "2 ^ 32"] mod_add_self2 [of "int n - 2 ^ 31" "2 ^ 32 :: int"] by (simp add: add.commute)
  then have "signed_take_bit 31 (int n) = int n - 2 ^ 32"
    by (simp add: signed_take_bit_eq_take_bit_shift take_bit_eq_mod)
  with n show ?thesis by (simp add: shr32_def)
qed

end
