(* ===== verification/Arrow_Types.thy ===== *)
theory Arrow_Types
  imports Fino_Prelude
begin

text \<open>
  \<open>data/arrow/type.ts\<close> and the fields of \<open>data/arrow/schema.ts\<close>: the Arrow types, their widths, buffer layouts and
  child fields, and structural equality.

  \<open>bitWidth / 8\<close> is exact for the widths that the factories build.
\<close>

subsection \<open>Arrow types\<close>

datatype data_type =
    NullType
  | BoolType
  | IntType nat bool
  | FloatType nat
  | DecimalType int int nat
  | DateType nat
  | TimeType nat nat
  | TimestampType nat "text_string option"
  | IntervalType nat
  | DurationType nat
  | Utf8Type
  | LargeUtf8Type
  | BinaryType
  | LargeBinaryType
  | Utf8ViewType
  | BinaryViewType
  | FixedSizeBinaryType int
  | ListType field
  | LargeListType field
  | ListViewType field
  | LargeListViewType field
  | FixedSizeListType nat field
  | StructType "field list"
  | MapType bool field
  | UnionType nat "nat list" "field list"
  | DictionaryType nat data_type data_type bool
  | RunEndEncodedType field field
and field = Field (fd_name: text_string) (fd_type: data_type) (fd_nullable: bool) (fd_metadata: "(text_string \<times> text_string) list option")

abbreviation (input) SECOND :: nat where "SECOND \<equiv> 0"
abbreviation (input) MILLISECOND :: nat where "MILLISECOND \<equiv> 1"
abbreviation (input) MICROSECOND :: nat where "MICROSECOND \<equiv> 2"
abbreviation (input) NANOSECOND :: nat where "NANOSECOND \<equiv> 3"

subsection \<open>Layouts\<close>

definition fixedWidthBytes :: "data_type \<Rightarrow> int" where
  "fixedWidthBytes type = (case type of
     IntType bitWidth isSigned \<Rightarrow> int (bitWidth div 8)
   | FloatType precision \<Rightarrow> if precision = 0 then 2 else if precision = 1 then 4 else 8
   | DecimalType precision scale bitWidth \<Rightarrow> int (bitWidth div 8)
   | DateType unit \<Rightarrow> if unit = 0 then 4 else 8
   | TimeType unit bitWidth \<Rightarrow> int (bitWidth div 8)
   | TimestampType unit timezone \<Rightarrow> 8
   | DurationType unit \<Rightarrow> 8
   | IntervalType unit \<Rightarrow> if unit = 0 then 4 else if unit = 1 then 8 else 16
   | FixedSizeBinaryType byteWidth \<Rightarrow> byteWidth
   | _ \<Rightarrow> 0)"

datatype BufferKind = Validity | Offset32 | Offset64 | Size32 | Size64 | Data | TypeIds | Views

fun bufferLayout :: "data_type \<Rightarrow> BufferKind list" where
  "bufferLayout type = (case type of
     NullType \<Rightarrow> []
   | Utf8Type \<Rightarrow> [Validity, Offset32, Data] | BinaryType \<Rightarrow> [Validity, Offset32, Data]
   | LargeUtf8Type \<Rightarrow> [Validity, Offset64, Data] | LargeBinaryType \<Rightarrow> [Validity, Offset64, Data]
   | Utf8ViewType \<Rightarrow> [Validity, Views] | BinaryViewType \<Rightarrow> [Validity, Views]
   | ListType c \<Rightarrow> [Validity, Offset32] | MapType keysSorted c \<Rightarrow> [Validity, Offset32]
   | LargeListType c \<Rightarrow> [Validity, Offset64]
   | ListViewType c \<Rightarrow> [Validity, Offset32, Size32]
   | LargeListViewType c \<Rightarrow> [Validity, Offset64, Size64]
   | FixedSizeListType n c \<Rightarrow> [Validity] | StructType fs \<Rightarrow> [Validity]
   | UnionType mode ids fs \<Rightarrow> if mode = 1 then [TypeIds, Offset32] else [TypeIds]
   | DictionaryType i indexType valueType isOrdered \<Rightarrow> bufferLayout indexType
   | RunEndEncodedType runEnds vals \<Rightarrow> []
   | _ \<Rightarrow> [Validity, Data])"

definition childFields :: "data_type \<Rightarrow> field list" where
  "childFields type = (case type of
     ListType c \<Rightarrow> [c] | LargeListType c \<Rightarrow> [c] | ListViewType c \<Rightarrow> [c] | LargeListViewType c \<Rightarrow> [c]
   | FixedSizeListType n c \<Rightarrow> [c] | MapType keysSorted c \<Rightarrow> [c]
   | StructType fs \<Rightarrow> fs | UnionType mode ids fs \<Rightarrow> fs
   | RunEndEncodedType runEnds vals \<Rightarrow> [runEnds, vals]
   | _ \<Rightarrow> [])"

definition hasVariadicBuffers :: "data_type \<Rightarrow> bool" where
  "hasVariadicBuffers type \<longleftrightarrow> type = Utf8ViewType \<or> type = BinaryViewType"

subsection \<open>Structural equality\<close>

text \<open>The own parameters of a type: what \<open>JSON.stringify\<close> writes of it without its children. The index type of a
  dictionary is an integer type, which its JSON text determines.\<close>

definition no_field :: field where "no_field = Field [] NullType False None"

definition stripChildren :: "data_type \<Rightarrow> data_type" where
  "stripChildren type = (case type of
     ListType c \<Rightarrow> ListType no_field | LargeListType c \<Rightarrow> LargeListType no_field
   | ListViewType c \<Rightarrow> ListViewType no_field | LargeListViewType c \<Rightarrow> LargeListViewType no_field
   | FixedSizeListType n c \<Rightarrow> FixedSizeListType n no_field | MapType keysSorted c \<Rightarrow> MapType keysSorted no_field
   | StructType fs \<Rightarrow> StructType [] | UnionType mode ids fs \<Rightarrow> UnionType mode ids []
   | RunEndEncodedType runEnds vals \<Rightarrow> RunEndEncodedType no_field no_field
   | DictionaryType i indexType valueType isOrdered \<Rightarrow> DictionaryType i indexType NullType isOrdered
   | _ \<Rightarrow> type)"

fun dictionary_types :: "data_type \<Rightarrow> data_type list" where
  "dictionary_types (DictionaryType i indexType valueType isOrdered) = [valueType, indexType]"
| "dictionary_types type = []"

lemma child_type_size: "f \<in> set (childFields type) \<Longrightarrow> size (fd_type f) < size type"
proof -
  assume f: "f \<in> set (childFields type)"
  have "size (fd_type f) < size f" by (cases f) simp
  moreover have "size f < size type"
    using f by (cases type) (auto simp: childFields_def less_Suc_eq_le intro: size_list_estimation' trans_le_add1 le_SucI)
  ultimately show ?thesis by linarith
qed

lemma dictionary_type_size: "t \<in> set (dictionary_types type) \<Longrightarrow> size t < size type"
  by (cases type) auto

function typeEquals :: "data_type \<Rightarrow> data_type \<Rightarrow> bool" where
  "typeEquals a b \<longleftrightarrow> stripChildren a = stripChildren b \<and> length (childFields a) = length (childFields b) \<and>
     (\<forall>(f, g) \<in> set (zip (childFields a) (childFields b)). fd_name f = fd_name g \<and> fd_nullable f = fd_nullable g \<and> typeEquals (fd_type f) (fd_type g)) \<and>
     (\<forall>(s, t) \<in> set (zip (dictionary_types a) (dictionary_types b)). typeEquals s t)"
  by pat_completeness auto
termination
  by (relation "measure (\<lambda>(a, b). size a)") (auto dest!: set_zip_leftD intro: child_type_size dictionary_type_size)

declare typeEquals.simps [simp del]

text \<open>The type without the metadata of its fields.\<close>

function forget :: "data_type \<Rightarrow> data_type" and forget_field :: "field \<Rightarrow> field" where
  "forget type = (case type of
     ListType c \<Rightarrow> ListType (forget_field c) | LargeListType c \<Rightarrow> LargeListType (forget_field c)
   | ListViewType c \<Rightarrow> ListViewType (forget_field c) | LargeListViewType c \<Rightarrow> LargeListViewType (forget_field c)
   | FixedSizeListType n c \<Rightarrow> FixedSizeListType n (forget_field c) | MapType keysSorted c \<Rightarrow> MapType keysSorted (forget_field c)
   | StructType fs \<Rightarrow> StructType (map forget_field fs) | UnionType mode ids fs \<Rightarrow> UnionType mode ids (map forget_field fs)
   | RunEndEncodedType runEnds vals \<Rightarrow> RunEndEncodedType (forget_field runEnds) (forget_field vals)
   | DictionaryType i indexType valueType isOrdered \<Rightarrow> DictionaryType i indexType (forget valueType) isOrdered
   | _ \<Rightarrow> type)"
| "forget_field (Field name type nullable metadata) = Field name (forget type) nullable None"
  by pat_completeness auto
termination
  by (relation "measure (\<lambda>x. case x of Inl t \<Rightarrow> size t | Inr f \<Rightarrow> size f)")
    (auto simp: less_Suc_eq_le intro: size_list_estimation' trans_le_add1 le_SucI)

declare forget.simps [simp del]

lemma forget_iff:
  "forget a = forget b \<longleftrightarrow> stripChildren a = stripChildren b \<and>
     map forget_field (childFields a) = map forget_field (childFields b) \<and>
     map forget (take 1 (dictionary_types a)) = map forget (take 1 (dictionary_types b))"
  by (cases a; cases b) (auto simp: forget.simps [of a for a] forget.simps stripChildren_def childFields_def)

lemma map_eq_zip: "map h xs = map h ys \<longleftrightarrow> length xs = length ys \<and> (\<forall>(x, y) \<in> set (zip xs ys). h x = h y)"
proof -
  have "map h xs = map h ys \<longleftrightarrow> list_all2 (\<lambda>x y. h x = h y) xs ys"
    by (auto simp: list_eq_iff_nth_eq list_all2_conv_all_nth)
  then show ?thesis by (simp add: list_all2_iff)
qed

lemma typeEquals_forget: "typeEquals a b \<longleftrightarrow> forget a = forget b"
proof (induction a arbitrary: b rule: measure_induct_rule [where f = size])
  case (less a)
  have fields: "fd_name f = fd_name g \<and> fd_nullable f = fd_nullable g \<and> typeEquals (fd_type f) (fd_type g) \<longleftrightarrow> forget_field f = forget_field g"
    if "f \<in> set (childFields a)" for f g
    using less [OF child_type_size [OF that], of "fd_type g"] by (cases f; cases g) auto
  have "(\<forall>(f, g) \<in> set (zip (childFields a) (childFields b)). fd_name f = fd_name g \<and> fd_nullable f = fd_nullable g \<and> typeEquals (fd_type f) (fd_type g)) \<longleftrightarrow>
      (\<forall>(f, g) \<in> set (zip (childFields a) (childFields b)). forget_field f = forget_field g)"
    using fields by (fastforce dest: set_zip_leftD)
  moreover have "(\<forall>(s, t) \<in> set (zip (dictionary_types a) (dictionary_types b)). typeEquals s t) \<longleftrightarrow>
      map forget (take 1 (dictionary_types a)) = map forget (take 1 (dictionary_types b))"
    if "stripChildren a = stripChildren b"
    using that less dictionary_type_size [of _ a]
    by (cases a; cases b) (auto simp: stripChildren_def)
  ultimately show ?case unfolding typeEquals.simps [of a b] forget_iff map_eq_zip [of forget_field] by blast
qed

text \<open>C28: type equality. \<open>typeEquals\<close> holds exactly of types that differ at most in the metadata of the fields at any
  depth, and so is an equivalence.\<close>

theorem typeEquals_structural:
  "(typeEquals a b \<longleftrightarrow> forget a = forget b) \<and> typeEquals a a \<and> (typeEquals a b \<longleftrightarrow> typeEquals b a)"
  by (auto simp: typeEquals_forget)

end
