(* ===== verification/Utf8.thy ===== *)
theory Utf8
  imports Fino_Prelude
begin

text \<open>
  \<open>internal/encoding.ts\<close>: \<open>encodeUtf8\<close> and \<open>decodeUtf8\<close>, the UTF-8 primitives under
  \<open>TextEncoder\<close> and \<open>TextDecoder\<close>. A JavaScript string is its list of UTF-16 code units, a
  \<open>Uint8Array\<close> a list of bytes. The loops over an index \<open>i\<close> recurse on the part of the input
  from \<open>i\<close> on; the decoder keeps \<open>i\<close> as well, because the thrown errors report it.
\<close>

subsection \<open>Encoding\<close>

text \<open>The four branches that store the bytes of one code point. Storing into a \<open>Uint8Array\<close>
  keeps the low eight bits, which is what \<open>of_nat\<close> into \<open>byte\<close> does.\<close>

definition encode_cp :: "nat \<Rightarrow> byte list" where
  "encode_cp cp =
     (if cp < 128 then [of_nat cp]
      else if cp < 2048 then
        [of_nat (192 OR drop_bit 6 cp), of_nat (128 OR (cp AND 63))]
      else if cp < 65536 then
        [of_nat (224 OR drop_bit 12 cp), of_nat (128 OR (drop_bit 6 cp AND 63)),
         of_nat (128 OR (cp AND 63))]
      else
        [of_nat (240 OR drop_bit 18 cp), of_nat (128 OR (drop_bit 12 cp AND 63)),
         of_nat (128 OR (drop_bit 6 cp AND 63)), of_nat (128 OR (cp AND 63))])"

definition surrogate_pair :: "nat \<Rightarrow> nat \<Rightarrow> nat" where
  "surrogate_pair cp lo = 65536 + push_bit 10 (cp - 55296) + (lo - 56320)"

text \<open>The surrogate logic at one loop iteration: the code point to emit and the units left.
  \<open>charCodeAt\<close> past the end is \<open>NaN\<close>, which fails both comparisons.\<close>

definition next_cp :: "code_unit \<Rightarrow> code_unit list \<Rightarrow> nat \<times> code_unit list" where
  "next_cp c rest =
     (let cp = unat c in
      if 55296 \<le> cp \<and> cp \<le> 56319 then
        (case rest of
           [] \<Rightarrow> (65533, rest)
         | u # rest' \<Rightarrow>
             let lo = unat u in
             if 56320 \<le> lo \<and> lo \<le> 57343
             then (surrogate_pair cp lo, rest')
             else (65533, rest))
      else if 56320 \<le> cp \<and> cp \<le> 57343 then (65533, rest)
      else (cp, rest))"

lemma next_cp_length [termination_simp]:
  "(cp, rest') = next_cp c rest \<Longrightarrow> length rest' < Suc (length rest)"
  by (auto simp: next_cp_def Let_def split: if_splits list.splits)

fun code_points :: "code_unit list \<Rightarrow> nat list" where
  "code_points [] = []"
| "code_points (c # rest) = (let (cp, rest') = next_cp c rest in cp # code_points rest')"

definition encode_loop :: "code_unit list \<Rightarrow> byte list" where
  "encode_loop s = concat (map encode_cp (code_points s))"

definition encodeUtf8 :: "code_unit list \<Rightarrow> byte list" where
  "encodeUtf8 str =
     (if list_all (\<lambda>u. unat u < 128) str then map (\<lambda>u. of_nat (unat u)) str
      else encode_loop str)"

subsection \<open>Decoding\<close>

datatype utf8_error = InvalidByte nat nat | IncompleteSequence nat | InvalidCodePoint nat nat

definition lead_byte :: "nat \<Rightarrow> (nat \<times> nat) option" where
  "lead_byte b0 =
     (if b0 < 128 then Some (b0, 1)
      else if b0 AND 224 = 192 then Some (b0 AND 31, 2)
      else if b0 AND 240 = 224 then Some (b0 AND 15, 3)
      else if b0 AND 248 = 240 then Some (b0 AND 7, 4)
      else None)"

definition invalid_second :: "nat \<Rightarrow> nat \<Rightarrow> bool" where
  "invalid_second b0 b1 \<longleftrightarrow>
     b1 AND 192 = 128 \<and>
     (b0 = 224 \<and> b1 < 160 \<or> b0 = 237 \<and> b1 > 159 \<or> b0 = 240 \<and> b1 < 144 \<or> b0 = 244 \<and> b1 > 143)"

datatype continuation = Complete nat | MissingContinuation | InvalidContinuation nat

text \<open>The \<open>for\<close> loop over \<open>j = 1 .. seqLen - 1\<close>: iterations left, \<open>j\<close>, the bytes from
  \<open>i + j\<close> on, and \<open>cp\<close>.\<close>

fun continuation_loop :: "nat \<Rightarrow> nat \<Rightarrow> byte list \<Rightarrow> nat \<Rightarrow> continuation" where
  "continuation_loop 0 j bs cp = Complete cp"
| "continuation_loop (Suc n) j [] cp = MissingContinuation"
| "continuation_loop (Suc n) j (b # bs) cp =
     (if unat b AND 192 \<noteq> 128 then InvalidContinuation j
      else continuation_loop n (Suc j) bs (push_bit 6 cp OR (unat b AND 63)))"

definition rejected_cp :: "nat \<Rightarrow> nat \<Rightarrow> bool" where
  "rejected_cp seqLen cp \<longleftrightarrow>
     seqLen = 2 \<and> cp < 128 \<or> seqLen = 3 \<and> cp < 2048 \<or> seqLen = 4 \<and> cp < 65536 \<or>
     cp > 1114111 \<or> 55296 \<le> cp \<and> cp \<le> 57343"

text \<open>One iteration of the \<open>while\<close> loop: emit U+FFFD and skip \<open>n\<close> bytes, or accept a code
  point of \<open>n\<close> bytes, or throw.\<close>

datatype decode_action = Replace nat | Accept nat nat

definition decode_step :: "bool \<Rightarrow> nat \<Rightarrow> byte \<Rightarrow> byte list \<Rightarrow> utf8_error + decode_action" where
  "decode_step fatal i b rest =
     (let b0 = unat b in
      case lead_byte b0 of
        None \<Rightarrow> if fatal then Inl (InvalidByte b0 i) else Inr (Replace 1)
      | Some (cp, seqLen) \<Rightarrow>
          if 3 \<le> seqLen \<and> rest \<noteq> [] \<and> invalid_second b0 (unat (hd rest)) then
            (if fatal then Inl (InvalidByte (unat (hd rest)) (i + 1)) else Inr (Replace 1))
          else
            (case continuation_loop (seqLen - 1) 1 rest cp of
               MissingContinuation \<Rightarrow>
                 if fatal then Inl (IncompleteSequence i) else Inr (Replace (Suc (length rest)))
             | InvalidContinuation off \<Rightarrow>
                 if fatal then Inl (IncompleteSequence i) else Inr (Replace off)
             | Complete cp' \<Rightarrow>
                 if rejected_cp seqLen cp' then
                   (if fatal then Inl (InvalidCodePoint cp' i) else Inr (Replace seqLen))
                 else Inr (Accept cp' seqLen)))"

definition units_of_cp :: "nat \<Rightarrow> code_unit list" where
  "units_of_cp cp =
     (if cp < 65536 then [of_nat cp]
      else let c = cp - 65536 in [of_nat (55296 + drop_bit 10 c), of_nat (56320 + (c AND 1023))])"

lemma continuation_loop_invalid:
  "continuation_loop n j bs cp = InvalidContinuation off \<Longrightarrow> j \<le> off"
  by (induction n j bs cp rule: continuation_loop.induct) (auto split: if_splits)

lemma decode_step_progress:
  "decode_step fatal i b rest = Inr (Replace n) \<Longrightarrow> 0 < n"
  "decode_step fatal i b rest = Inr (Accept cp n) \<Longrightarrow> 0 < n"
  by (auto simp: decode_step_def lead_byte_def Let_def
      split: option.splits if_splits continuation.splits dest!: continuation_loop_invalid)

function decode_loop :: "bool \<Rightarrow> bool \<Rightarrow> bool \<Rightarrow> nat \<Rightarrow> byte list \<Rightarrow> utf8_error + code_unit list" where
  "decode_loop fatal skipBom first i [] = Inr []"
| "decode_loop fatal skipBom first i (b # rest) =
     bindR (decode_step fatal i b rest) (\<lambda>a. case a of
       Replace n \<Rightarrow>
         bindR (decode_loop fatal skipBom first (i + n) (drop n (b # rest)))
           (\<lambda>s. Inr (65533 # s))
     | Accept cp n \<Rightarrow>
         if first \<and> skipBom \<and> cp = 65279
         then decode_loop fatal skipBom False (i + n) (drop n (b # rest))
         else bindR (decode_loop fatal skipBom False (i + n) (drop n (b # rest)))
                (\<lambda>s. Inr (units_of_cp cp @ s)))"
  by pat_completeness auto
termination
  by (relation "measure (\<lambda>(fatal, skipBom, first, i, bs). length bs)")
    (auto dest: decode_step_progress)

text \<open>The ASCII shortcut converts the input in chunks of 65536 bytes.\<close>

function from_char_codes_chunked :: "byte list \<Rightarrow> code_unit list" where
  "from_char_codes_chunked bs =
     (if bs = [] then []
      else map (\<lambda>b. of_nat (unat b)) (take 65536 bs) @ from_char_codes_chunked (drop 65536 bs))"
  by pat_completeness auto
termination
  by (relation "measure length") auto

declare from_char_codes_chunked.simps [simp del]

definition decodeUtf8 :: "byte list \<Rightarrow> bool \<Rightarrow> bool \<Rightarrow> utf8_error + code_unit list" where
  "decodeUtf8 bytes fatal skipBom =
     (if \<not> fatal \<and> skipBom \<and> list_all (\<lambda>b. unat b < 128) bytes then
        Inr (if length bytes \<le> 65536 then map (\<lambda>b. of_nat (unat b)) bytes
             else from_char_codes_chunked bytes)
      else decode_loop fatal skipBom True 0 bytes)"

subsection \<open>What the codec promises\<close>

text \<open>A Unicode scalar value: a code point that is not a surrogate.\<close>

definition scalar_value :: "nat \<Rightarrow> bool" where
  "scalar_value cp \<longleftrightarrow> cp \<le> 1114111 \<and> \<not> (55296 \<le> cp \<and> cp \<le> 57343)"



text \<open>What \<open>String.prototype.toWellFormed\<close> specifies: a surrogate outside a pair becomes
  U+FFFD.\<close>

abbreviation high_surrogate :: "code_unit \<Rightarrow> bool" where
  "high_surrogate u \<equiv> 55296 \<le> unat u \<and> unat u \<le> 56319"

abbreviation low_surrogate :: "code_unit \<Rightarrow> bool" where
  "low_surrogate u \<equiv> 56320 \<le> unat u \<and> unat u \<le> 57343"

fun toWellFormed :: "code_unit list \<Rightarrow> code_unit list" where
  "toWellFormed [] = []"
| "toWellFormed [u] = [if high_surrogate u \<or> low_surrogate u then 65533 else u]"
| "toWellFormed (u # v # s) =
     (if high_surrogate u \<and> low_surrogate v then u # v # toWellFormed s
      else (if high_surrogate u \<or> low_surrogate u then 65533 else u) # toWellFormed (v # s))"

text \<open>What dropping an initial byte order mark leaves.\<close>

definition strip_bom :: "code_unit list \<Rightarrow> code_unit list" where
  "strip_bom s = (if take 1 s = [65279] then drop 1 s else s)"

subsection \<open>Arithmetic of the headers\<close>

lemma or_header [bit_arith]:
  "x < 32 \<Longrightarrow> 192 OR (x::nat) = 192 + x"
  "x < 16 \<Longrightarrow> 224 OR (x::nat) = 224 + x"
  "x < 8 \<Longrightarrow> 240 OR (x::nat) = 240 + x"
  "x < 64 \<Longrightarrow> 128 OR (x::nat) = 128 + x"
  "x < 64 \<Longrightarrow> push_bit 6 y OR (x::nat) = y * 64 + x"
  using nat_or_low_bits [of x 5 6] nat_or_low_bits [of x 4 14] nat_or_low_bits [of x 3 30]
    nat_or_low_bits [of x 6 2] nat_or_low_bits [of x 6 y]
  by (simp_all add: push_bit_eq_mult)

lemma header_masks:
  assumes "b < 256"
  shows "b AND 224 = 192 \<longleftrightarrow> 192 \<le> b \<and> b < (224::nat)"
    and "b AND 240 = 224 \<longleftrightarrow> 224 \<le> b \<and> b < (240::nat)"
    and "b AND 248 = 240 \<longleftrightarrow> 240 \<le> b \<and> b < (248::nat)"
    and "b AND 192 = 128 \<longleftrightarrow> 128 \<le> b \<and> b < (192::nat)"
proof -
  show "b AND 224 = 192 \<longleftrightarrow> 192 \<le> b \<and> b < (224::nat)"
    using nat_and_high_mask [of b 5 3] div_mult_eq_iff [of 32 b 6] assms by simp
  show "b AND 240 = 224 \<longleftrightarrow> 224 \<le> b \<and> b < (240::nat)"
    using nat_and_high_mask [of b 4 4] div_mult_eq_iff [of 16 b 14] assms by simp
  show "b AND 248 = 240 \<longleftrightarrow> 240 \<le> b \<and> b < (248::nat)"
    using nat_and_high_mask [of b 3 5] div_mult_eq_iff [of 8 b 30] assms by simp
  show "b AND 192 = 128 \<longleftrightarrow> 128 \<le> b \<and> b < (192::nat)"
    using nat_and_high_mask [of b 6 2] div_mult_eq_iff [of 64 b 2] assms by simp
qed

lemma digit64:
  assumes "cp = p * 64 + z" "z < (64::nat)"
  shows "cp div 64 = p" "cp mod 64 = z" "cp div 4096 = p div 64" "cp div 262144 = p div 4096"
proof -
  show *: "cp div 64 = p" "cp mod 64 = z" using assms by simp_all
  have "cp div 4096 = cp div 64 div 64" "cp div 262144 = cp div 64 div 4096"
    by (simp_all flip: div_mult2_eq)
  then show "cp div 4096 = p div 64" "cp div 262144 = p div 4096" by (simp_all add: *)
qed

lemmas lead_digits = digit_mod [of _ 32 6, simplified] digit_mod [of _ 16 14, simplified]
  digit_mod [of _ 8 30, simplified] digit_mod [of _ 64 2, simplified]

lemmas byte_masks [simp] = header_masks [OF unat_byte_less]

lemma lead_byte_arith:
  "b < 256 \<Longrightarrow> lead_byte b =
     (if b < 128 then Some (b, 1) else if b < 192 then None
      else if b < 224 then Some (b mod 32, 2) else if b < 240 then Some (b mod 16, 3)
      else if b < 248 then Some (b mod 8, 4) else None)"
  by (auto simp: lead_byte_def header_masks nat_and_mask)

text \<open>The bytes of a code point, from its base-64 digits.\<close>

lemma encode_cp_1: "x < 128 \<Longrightarrow> map unat (encode_cp x) = [x]"
  by (simp add: encode_cp_def)

lemma encode_cp_2:
  assumes "cp = x * 64 + y" "2 \<le> x" "x < 32" "y < 64"
  shows "map unat (encode_cp cp) = [192 + x, 128 + y]"
  using assms by (simp add: encode_cp_def drop_bit_eq_div nat_and_mask or_header del: of_nat_add)

lemma encode_cp_3:
  assumes "cp = p * 64 + z" "p = x * 64 + y" "x < 16" "y < 64" "z < 64" "32 \<le> p"
  shows "map unat (encode_cp cp) = [224 + x, 128 + y, 128 + z]"
proof -
  have "2048 \<le> cp" "cp < 65536" using assms(1) assms(2-6) by linarith+
  then show ?thesis
    using assms(3-5) digit64 [OF assms(1,5)] digit64 [OF assms(2,4)]
    by (simp add: encode_cp_def drop_bit_eq_div nat_and_mask or_header del: of_nat_add)
qed

lemma encode_cp_4:
  assumes "cp = q * 64 + w" "q = p * 64 + z" "p = x * 64 + y"
    and "x < 8" "y < 64" "z < 64" "w < 64" "16 \<le> p"
  shows "map unat (encode_cp cp) = [240 + x, 128 + y, 128 + z, 128 + w]"
proof -
  have "65536 \<le> cp" using assms(1,2,8) by linarith
  moreover have "cp div 262144 = x" "cp div 4096 mod 64 = y" "cp div 64 mod 64 = z" "cp mod 64 = w"
    by (simp_all only: digit64 [OF assms(1,7)] digit64 [OF assms(2,6)] digit64 [OF assms(3,5)])
  ultimately show ?thesis
    using assms(4-7)
    by (simp add: encode_cp_def drop_bit_eq_div nat_and_mask or_header del: of_nat_add)
qed

lemmas decode_step_simps = decode_step_def lead_byte_arith Let_def lead_digits or_header nat_and_mask
  header_masks

lemma decode_step_1:
  assumes "unat b < 128"
  shows "decode_step fatal i b rest = Inr (Accept (unat b) 1)"
  using assms by (simp add: decode_step_simps rejected_cp_def)

lemma decode_step_2:
  assumes "unat b = 192 + x" "2 \<le> x" "x < 32" and "unat b1 = 128 + y" "y < 64"
  shows "decode_step fatal i b (b1 # rest) = Inr (Accept (x * 64 + y) 2)"
  using assms by (simp add: decode_step_simps rejected_cp_def)

lemma decode_step_3:
  assumes "unat b = 224 + x" "x < 16"
    and "unat b1 = 128 + y" "y < 64" "unat b2 = 128 + z" "z < 64"
    and cp: "cp = (x * 64 + y) * 64 + z" and "scalar_value cp" "32 \<le> x * 64 + y"
  shows "decode_step fatal i b (b1 # b2 # rest) = Inr (Accept cp 3)"
proof -
  have "\<not> invalid_second (224 + x) (128 + y)"
    using assms by (auto simp: invalid_second_def scalar_value_def)
  moreover have "\<not> rejected_cp 3 cp"
    using assms unfolding rejected_cp_def scalar_value_def by simp
  ultimately show ?thesis using assms 
    by (simp add: decode_step_simps numeral_2_eq_2)
qed

lemma decode_step_4:
  assumes "unat b = 240 + x" "x < 8"
    and "unat b1 = 128 + y" "y < 64" "unat b2 = 128 + z" "z < 64" "unat b3 = 128 + w" "w < 64"
    and cp: "cp = ((x * 64 + y) * 64 + z) * 64 + w" and "scalar_value cp" "16 \<le> x * 64 + y"
  shows "decode_step fatal i b (b1 # b2 # b3 # rest) = Inr (Accept cp 4)"
proof -
  have "\<not> invalid_second (240 + x) (128 + y)"
    using assms by (auto simp: invalid_second_def scalar_value_def)
  moreover have "\<not> rejected_cp 4 cp"
    using assms unfolding rejected_cp_def scalar_value_def by simp
  ultimately show ?thesis using assms 
    by (simp add: decode_step_simps numeral_3_eq_3)
qed


text \<open>Every code point the encoder emits is read back in one step.\<close>

lemma decode_step_encode_cp:
  assumes sv: "scalar_value cp" and enc: "encode_cp cp = b # bs"
  shows "decode_step fatal i b (bs @ rest) = Inr (Accept cp (Suc (length bs)))"
proof -
  define y where "y = cp mod 64"
  define p where "p = cp div 64"
  define z where "z = p mod 64"
  define q where "q = p div 64"
  have cp: "cp = p * 64 + y" "y < 64" and p: "p = q * 64 + z" "z < 64"
    by (simp_all add: p_def y_def z_def q_def)
  have q: "q = q div 64 * 64 + q mod 64" "q mod 64 < 64" by simp_all
  have le: "cp \<le> 1114111" using sv by (simp add: scalar_value_def)
  consider "cp < 128" | "2 \<le> p" "p < 32" | "32 \<le> p" "q < 16" | "16 \<le> q"
    using cp p by linarith
  then show ?thesis
  proof cases
    case 1
    then show ?thesis using enc encode_cp_1 [of cp] by (auto simp: decode_step_1)
  next
    case 2
    then obtain b1 where "bs = [b1]" "unat b = 192 + p" "unat b1 = 128 + y"
      using enc encode_cp_2 [OF cp(1) _ _ cp(2)] by auto
    then show ?thesis using decode_step_2 2 cp by simp
  next
    case 3
    then obtain b1 b2 where "bs = [b1, b2]" "unat b = 224 + q" "unat b1 = 128 + z"
        "unat b2 = 128 + y"
      using enc encode_cp_3 [OF cp(1) p(1) _ p(2) cp(2)] by auto
    then show ?thesis using decode_step_3 [OF _ _ _ p(2) _ cp(2)] 3 cp p sv by simp
  next
    case 4
    have lt: "q div 64 < 8" using le cp p by linarith
    then obtain b1 b2 b3 where bs: "bs = [b1, b2, b3]" "unat b = 240 + q div 64"
        "unat b1 = 128 + q mod 64" "unat b2 = 128 + z" "unat b3 = 128 + y"
      using enc encode_cp_4 [OF cp(1) p(1) q(1) _ q(2) p(2) cp(2)] 4 by auto
    have "decode_step fatal i b (b1 # b2 # b3 # rest) = Inr (Accept cp 4)"
      by (rule decode_step_4 [OF bs(2) lt bs(3) q(2) bs(4) p(2) bs(5) cp(2) _ sv])
        (use cp p q 4 in simp_all)
    then show ?thesis using bs by simp
  qed
qed

lemma continuation_loop_Complete:
  assumes "continuation_loop (Suc n) j bs cp = Complete cp'"
  obtains b bs' y where "bs = b # bs'" "unat b = 128 + y" "y < 64"
    "continuation_loop n (Suc j) bs' (cp * 64 + y) = Complete cp'"
proof (cases bs)
  case Nil
  with assms show ?thesis by simp
next
  case (Cons b bs')
  with assms have "128 \<le> unat b" "unat b < 192" by (auto split: if_splits)
  then obtain y where y: "unat b = 128 + y" "y < 64"
    using le_Suc_ex by fastforce
  show ?thesis
    by (rule that [OF Cons y]) (use assms Cons y in \<open>simp add: or_header nat_and_mask lead_digits header_masks\<close>)
qed

text \<open>Only canonical encodings of scalar values are accepted.\<close>

lemma decode_step_accept_cases:
  assumes "decode_step fatal i b rest = Inr (Accept cp n)"
  obtains "n = 1" "unat b < 128" "cp = unat b"
  | x where "n = 2" "unat b = 192 + x" "x < 32" "continuation_loop 1 1 rest x = Complete cp"
      "\<not> rejected_cp 2 cp"
  | x where "n = 3" "unat b = 224 + x" "x < 16" "continuation_loop 2 1 rest x = Complete cp"
      "\<not> rejected_cp 3 cp"
  | x where "n = 4" "unat b = 240 + x" "x < 8" "continuation_loop 3 1 rest x = Complete cp"
      "\<not> rejected_cp 4 cp"
proof -
  have "lead_byte (unat b) \<noteq> None"
    using assms by (cases "lead_byte (unat b)") (auto simp: decode_step_def Let_def split: if_splits)
  then consider "unat b < 128" | "192 \<le> unat b" "unat b < 224" | "224 \<le> unat b" "unat b < 240"
    | "240 \<le> unat b" "unat b < 248"
    unfolding lead_byte_arith [OF unat_byte_less] by (auto split: if_splits)
  then show ?thesis
  proof cases
    case 1
    from assms have "n = 1" "cp = unat b" unfolding decode_step_1 [OF 1] by simp_all
    with 1 show ?thesis using that(1) by blast
  next
    case 2
    then obtain x where "unat b = 192 + x" "x < 32" using le_Suc_ex by fastforce
    then show ?thesis using assms that(2)
      by (auto simp: decode_step_simps split: if_splits continuation.splits)
  next
    case 3
    then obtain x where "unat b = 224 + x" "x < 16" using le_Suc_ex by fastforce
    then show ?thesis using assms that(3)
      by (auto simp: decode_step_simps split: if_splits continuation.splits)
  next
    case 4
    then obtain x where "unat b = 240 + x" "x < 8" using le_Suc_ex by fastforce
    then show ?thesis using assms that(4)
      by (auto simp: decode_step_simps split: if_splits continuation.splits)
  qed
qed

lemma decode_step_accept:
  assumes acc: "decode_step fatal i b rest = Inr (Accept cp n)"
  shows "scalar_value cp \<and> map unat (take n (b # rest)) = map unat (encode_cp cp)"
  using acc
proof (cases rule: decode_step_accept_cases)
  case 1
  then show ?thesis by (simp add: encode_cp_1 scalar_value_def)
next
  case (2 x)
  from 2(4) obtain b1 bs y where *: "rest = b1 # bs" "unat b1 = 128 + y" "y < 64" "cp = x * 64 + y"
    by (auto elim!: continuation_loop_Complete)
  with 2 have "2 \<le> x" "scalar_value cp" by (auto simp: rejected_cp_def scalar_value_def)
  then show ?thesis using 2 * encode_cp_2 [OF *(4) _ _ *(3)] by (simp add: numeral_2_eq_2)
next
  case (3 x)
  from 3(4) obtain b1 b2 bs y z where *: "rest = b1 # b2 # bs" "unat b1 = 128 + y" "y < 64"
      "unat b2 = 128 + z" "z < 64" "cp = (x * 64 + y) * 64 + z"
    unfolding numeral_2_eq_2 by (auto elim!: continuation_loop_Complete)
  with 3(5) have "32 \<le> x * 64 + y" "scalar_value cp" by (auto simp: rejected_cp_def scalar_value_def)
  then show ?thesis using 3 * encode_cp_3 [OF *(6) refl _ *(3) *(5)] by (simp add: numeral_3_eq_3)
next
  case (4 x)
  from 4(4) obtain b1 b2 b3 bs y z w where *: "rest = b1 # b2 # b3 # bs" "unat b1 = 128 + y" "y < 64"
      "unat b2 = 128 + z" "z < 64" "unat b3 = 128 + w" "w < 64"
      "cp = ((x * 64 + y) * 64 + z) * 64 + w"
    unfolding numeral_3_eq_3 by (auto elim!: continuation_loop_Complete)
  with 4(5) have "16 \<le> x * 64 + y" "scalar_value cp" by (auto simp: rejected_cp_def scalar_value_def)
  then show ?thesis using 4 * encode_cp_4 [OF *(8) refl refl _ *(3) *(5) *(7)] by simp
qed


lemmas decode_step_accepted =
  decode_step_accept [THEN conjunct1] decode_step_accept [THEN conjunct2, unfolded map_unat_inject]

lemma decode_step_fatal:
  assumes "decode_step True i b rest = Inr a"
  obtains cp n where "a = Accept cp n" "decode_step False i b rest = Inr a"
  using assms
  by (auto simp: decode_step_def Let_def split: option.splits if_splits continuation.splits)

lemma decode_step_lossy: "\<exists>a. decode_step False i b rest = Inr a"
  by (auto simp: decode_step_def Let_def split: option.splits if_splits continuation.splits)

subsection \<open>Strings as sequences of code points\<close>

lemma surrogate_pair_units:
  assumes "high_surrogate u" "low_surrogate v"
  shows "units_of_cp (surrogate_pair (unat u) (unat v)) = [u, v]"
proof -
  define h where "h = unat u - 55296"
  define l where "l = unat v - 56320"
  have h: "unat u = 55296 + h" and l: "unat v = 56320 + l" "l < 1024"
    using assms by (auto simp: h_def l_def)
  have "(h * 1024 + l) div 1024 = h" "(h * 1024 + l) mod 1024 = l" using l by simp_all
  then have "units_of_cp (65536 + push_bit 10 h + l) = [of_nat (unat u), of_nat (unat v)]"
    unfolding h l
    by (simp add: units_of_cp_def Let_def push_bit_eq_mult drop_bit_eq_div nat_and_mask del: of_nat_add)
  then show ?thesis by (simp add: h_def l_def surrogate_pair_def)
qed

lemma units_of_code_points: "concat (map units_of_cp (code_points s)) = toWellFormed s"
proof (induction s rule: toWellFormed.induct)
  case 1
  show ?case by simp
next
  case (2 u)
  show ?case by (auto simp: next_cp_def Let_def units_of_cp_def)
next
  case (3 u v s)
  then show ?case
    by (auto simp: next_cp_def Let_def surrogate_pair_units) (auto simp: units_of_cp_def)
qed

lemma next_cp_scalar: "next_cp u s = (cp, s') \<Longrightarrow> scalar_value cp"
  unfolding next_cp_def Let_def
  by (auto simp: scalar_value_def surrogate_pair_def push_bit_eq_mult split: if_splits list.splits)
    (use unat_unit_less [of u] in linarith)+

lemma code_points_scalar: "cp \<in> set (code_points s) \<Longrightarrow> scalar_value cp"
  by (induction s rule: code_points.induct) (auto simp: Let_def split: prod.splits dest: next_cp_scalar [OF sym])

lemma code_points_units:
  assumes "scalar_value cp"
  shows "code_points (units_of_cp cp @ s) = cp # code_points s"
proof (cases "cp < 65536")
  case True
  then show ?thesis using assms
    by (auto simp: units_of_cp_def next_cp_def Let_def scalar_value_def)
next
  case False
  define h where "h = (cp - 65536) div 1024"
  define l where "l = (cp - 65536) mod 1024"
  have "cp = 65536 + (h * 1024 + l)" "l < 1024"
    using False by (simp_all add: h_def l_def)
  moreover have "h < 1024" using assms \<open>cp = _\<close> by (simp add: scalar_value_def)
  ultimately show ?thesis using False
    by (simp add: units_of_cp_def next_cp_def Let_def surrogate_pair_def push_bit_eq_mult drop_bit_eq_div nat_and_mask
        del: of_nat_add flip: h_def l_def)
qed

lemma code_points_concat_units:
  "(\<And>cp. cp \<in> set cps \<Longrightarrow> scalar_value cp) \<Longrightarrow> code_points (concat (map units_of_cp cps)) = cps"
  by (induction cps) (simp_all add: code_points_units)


subsection \<open>The shortcuts agree with the loops\<close>

lemma code_points_ascii: "list_all (\<lambda>u. unat u < 128) s \<Longrightarrow> code_points s = map unat s"
  by (induction s rule: code_points.induct) (auto simp: next_cp_def Let_def)

lemma encodeUtf8_loop: "encodeUtf8 s = encode_loop s"
proof (cases "list_all (\<lambda>u. unat u < 128) s")
  case True
  then have "encode_loop s = map (\<lambda>u. of_nat (unat u)) s"
    unfolding encode_loop_def code_points_ascii [OF True]
    by (induction s) (simp_all add: encode_cp_def)
  with True show ?thesis by (simp add: encodeUtf8_def)
qed (auto simp: encodeUtf8_def)

lemma from_char_codes_chunked_map: "from_char_codes_chunked bs = map (\<lambda>b. of_nat (unat b)) bs"
proof (induction bs rule: from_char_codes_chunked.induct)
  case (1 bs)
  show ?case
  proof (cases "bs = []")
    case True
    then show ?thesis by (simp add: from_char_codes_chunked.simps)
  next
    case False
    with 1 show ?thesis by (simp add: from_char_codes_chunked.simps [of bs] flip: map_append)
  qed
qed

lemma decode_loop_ascii:
  "list_all (\<lambda>b. unat b < 128) bs \<Longrightarrow>
     decode_loop fatal skipBom first i bs = Inr (map (\<lambda>b. of_nat (unat b)) bs)"
  by (induction bs arbitrary: first i) (simp_all add: decode_step_1 units_of_cp_def)

lemma decodeUtf8_loop: "decodeUtf8 bs fatal skipBom = decode_loop fatal skipBom True 0 bs"
  by (simp add: decodeUtf8_def from_char_codes_chunked_map decode_loop_ascii)

subsection \<open>The decoding loop on encoder output, and back\<close>

lemma encode_cp_nonempty: "encode_cp cp \<noteq> []"
  by (simp add: encode_cp_def)

lemma decode_loop_encode_cp:
  assumes "scalar_value cp"
  shows "decode_loop fatal skipBom first i (encode_cp cp @ rest) =
    bindR (decode_loop fatal skipBom False (i + length (encode_cp cp)) rest)
      (\<lambda>s. Inr ((if first \<and> skipBom \<and> cp = 65279 then [] else units_of_cp cp) @ s))"
proof -
  obtain b bs where enc: "encode_cp cp = b # bs"
    using encode_cp_nonempty by (cases "encode_cp cp") auto
  show ?thesis
    using decode_step_encode_cp [OF assms enc] by (auto simp: enc bindR_def split: sum.splits)
qed

lemma decode_loop_encoded:
  assumes "\<And>cp. cp \<in> set cps \<Longrightarrow> scalar_value cp"
  shows "decode_loop fatal skipBom False i (concat (map encode_cp cps)) =
    Inr (concat (map units_of_cp cps))"
  using assms by (induction cps arbitrary: i) (simp_all add: decode_loop_encode_cp)

lemma decode_loop_encode_loop:
  "decode_loop fatal skipBom False i (encode_loop s) = Inr (toWellFormed s)"
  using decode_loop_encoded [OF code_points_scalar]
  by (simp add: encode_loop_def units_of_code_points)

lemma decode_loop_no_bom:
  "decode_loop fatal False first i bs = decode_loop fatal False False i bs"
  by (induction fatal False first i bs rule: decode_loop.induct)
    (auto simp: bindR_def split: sum.splits decode_action.splits)

lemma decode_loop_fatal:
  "decode_loop True False first i bs = Inr s \<Longrightarrow>
     \<exists>cps. (\<forall>cp \<in> set cps. scalar_value cp) \<and> bs = concat (map encode_cp cps) \<and>
       s = concat (map units_of_cp cps)"
proof (induction True False first i bs arbitrary: s rule: decode_loop.induct)
  case (1 first i)
  then show ?case by (intro exI [of _ "[]"]) simp
next
  case (2 first i b rest)
  then obtain a where "decode_step True i b rest = Inr a" by (auto simp: result_simps)
  then obtain cp n where step: "decode_step True i b rest = Inr (Accept cp n)"
    using decode_step_fatal by blast
  with 2 obtain s' where s: "decode_loop True False False (i + n) (drop n (b # rest)) = Inr s'"
      "s = units_of_cp cp @ s'"
    by (auto simp: result_simps)
  from "2.hyps"(3) [OF step refl _ s(1)] obtain cps where cps: "\<forall>cp \<in> set cps. scalar_value cp"
      "drop n (b # rest) = concat (map encode_cp cps)" "s' = concat (map units_of_cp cps)"
    by auto
  have "b # rest = encode_cp cp @ drop n (b # rest)"
    using decode_step_accepted(2) [OF step] by (metis append_take_drop_id)
  then show ?case
    using cps s decode_step_accepted(1) [OF step] by (intro exI [of _ "cp # cps"]) simp
qed

lemma decode_loop_lossy: "\<exists>s. decode_loop False skipBom first i bs = Inr s"
proof (induction False skipBom first i bs rule: decode_loop.induct)
  case (2 skipBom first i b rest)
  then show ?case
    using decode_step_lossy [of i b rest] by (fastforce split: decode_action.splits)
qed simp

lemma decode_loop_fatal_lossy:
  "decode_loop True skipBom first i bs = Inr s \<Longrightarrow> decode_loop False skipBom first i bs = Inr s"
proof (induction True skipBom first i bs arbitrary: s rule: decode_loop.induct)
  case (2 skipBom first i b rest)
  then obtain a where a: "decode_step True i b rest = Inr a" by (auto simp: result_simps)
  then obtain cp n where "a = Accept cp n" "decode_step False i b rest = Inr a"
    using decode_step_fatal by blast
  with a "2.hyps"(2,3) [OF a] "2.prems" show ?case by (auto simp: result_simps split: if_splits)
qed simp

lemma decodeUtf8_encodeUtf8: "decodeUtf8 (encodeUtf8 s) fatal False = Inr (toWellFormed s)"
  unfolding decodeUtf8_loop encodeUtf8_loop
  by (subst decode_loop_no_bom) (rule decode_loop_encode_loop)

lemma units_of_cp_bom: "scalar_value cp \<Longrightarrow> take 1 (units_of_cp cp @ s) = [65279] \<longleftrightarrow> cp = 65279"
proof -
  assume sv: "scalar_value cp"
  show ?thesis
  proof (cases "cp < 65536")
    case True
    then have "of_nat cp = (65279 :: code_unit) \<longleftrightarrow> cp = 65279"
      by (auto simp: word_unat_eq_iff)
    with True show ?thesis by (simp add: units_of_cp_def)
  next
    case False
    have "(cp - 65536) div 1024 < 1024" using sv by (auto simp: scalar_value_def)
    then have "unat (of_nat (55296 + (cp - 65536) div 1024) :: code_unit) \<noteq> 65279"
      by (simp del: of_nat_add)
    with False show ?thesis
      by (auto simp: units_of_cp_def Let_def drop_bit_eq_div simp del: of_nat_add)
  qed
qed

text \<open>A string comes back with its unpaired surrogates replaced and without a leading byte order
  mark.\<close>

lemma decodeUtf8_skip_bom: "decodeUtf8 (encodeUtf8 s) fatal True = Inr (strip_bom (toWellFormed s))"
proof (cases "code_points s")
  case Nil
  then have "toWellFormed s = []" using units_of_code_points [of s] by simp
  with Nil show ?thesis
    by (simp add: decodeUtf8_loop encodeUtf8_loop encode_loop_def strip_bom_def)
next
  case (Cons cp cps)
  then have sv: "scalar_value cp" "\<And>cp. cp \<in> set cps \<Longrightarrow> scalar_value cp"
    using code_points_scalar [of _ s] by auto
  have wf: "toWellFormed s = units_of_cp cp @ concat (map units_of_cp cps)"
    using Cons units_of_code_points [of s] by simp
  have bom: "drop 1 (units_of_cp 65279 @ t) = t" for t
    by (simp add: units_of_cp_def)
  show ?thesis
    using Cons units_of_cp_bom [OF sv(1)] bom
    by (simp add: decodeUtf8_loop encodeUtf8_loop encode_loop_def wf strip_bom_def
        decode_loop_encode_cp [OF sv(1)] decode_loop_encoded [OF sv(2)])
qed

lemma encode_cp_length: "length (encode_cp cp) \<le> (if cp < 65536 then 3 else 4)"
  by (simp add: encode_cp_def)

subsection \<open>Properties\<close>

text \<open>C33: decoding what \<open>encodeUtf8\<close> produced gives the string back with every unpaired
  surrogate replaced by U+FFFD, in fatal and in replacement mode. With \<open>skipBom\<close>, the default
  mode and the one with the ASCII shortcut, an initial byte order mark of the string is dropped;
  without it the mark is kept. For a well-formed string with no initial mark the result is the
  string itself in all four modes.\<close>

theorem utf8_roundtrip:
  "decodeUtf8 (encodeUtf8 s) fatal skipBom =
     Inr (if skipBom then strip_bom (toWellFormed s) else toWellFormed s)"
  by (cases skipBom) (simp_all add: decodeUtf8_encodeUtf8 decodeUtf8_skip_bom)

text \<open>Fatal decoding accepts exactly the canonical encodings. It returns \<open>s\<close> if and only if
  the bytes are what \<open>encodeUtf8\<close> writes for \<open>s\<close> and \<open>s\<close> is well-formed, so overlong forms,
  encoded surrogates, code points past U+10FFFF and truncated sequences all throw.\<close>

theorem utf8_fatal_iff_canonical:
  "decodeUtf8 bs True False = Inr s \<longleftrightarrow> encodeUtf8 s = bs \<and> toWellFormed s = s"
proof
  assume "decodeUtf8 bs True False = Inr s"
  then obtain cps where cps: "\<forall>cp \<in> set cps. scalar_value cp" "bs = concat (map encode_cp cps)"
      "s = concat (map units_of_cp cps)"
    unfolding decodeUtf8_loop by (blast dest: decode_loop_fatal)
  then have "code_points s = cps" by (simp add: code_points_concat_units)
  with cps show "encodeUtf8 s = bs \<and> toWellFormed s = s"
    by (simp add: encodeUtf8_loop encode_loop_def flip: units_of_code_points)
next
  assume "encodeUtf8 s = bs \<and> toWellFormed s = s"
  then show "decodeUtf8 bs True False = Inr s"
    using decodeUtf8_encodeUtf8 [of s True] by auto
qed

text \<open>Replacement decoding returns a string for every input, and where fatal decoding does not
  throw the two modes return the same string.\<close>

theorem utf8_lossy_total:
  "\<exists>s. decodeUtf8 bs False skipBom = Inr s \<and>
     (isl (decodeUtf8 bs True skipBom) \<or> decodeUtf8 bs True skipBom = Inr s)"
  unfolding decodeUtf8_loop
  using decode_loop_lossy [of skipBom True 0 bs] decode_loop_fatal_lossy [of skipBom True 0 bs]
  by (cases "decode_loop True skipBom True 0 bs") auto

text \<open>C40: the encoder never writes past the \<open>4 * str.length\<close> bytes it allocates (a store past the
  end of a \<open>Uint8Array\<close> would be dropped silently): three bytes per code unit are enough.\<close>

theorem utf8_buffer_bound: "length (encodeUtf8 s) \<le> 3 * length s"
proof -
  have "length (encode_loop s) \<le> 3 * length s"
  proof (induction s rule: code_points.induct)
    case (2 c rest)
    obtain cp rest' where n: "next_cp c rest = (cp, rest')" by (cases "next_cp c rest")
    then have "length (encode_cp cp) + 3 * length rest' \<le> 3 * Suc (length rest)"
      using encode_cp_length [of cp] unat_unit_less [of c]
      by (auto simp: next_cp_def Let_def split: if_splits list.splits)
    with "2.IH" [OF n [symmetric] refl] n show ?case by (simp add: encode_loop_def)
  qed (simp add: encode_loop_def)
  then show ?thesis by (simp add: encodeUtf8_loop)
qed

text \<open>With \<open>skipBom\<close> the decoder drops a byte order mark that is not initial: a malformed byte
  emits U+FFFD without clearing \<open>first\<close>, so the mark that follows it is dropped as well. The
  function's comment promises to omit an initial mark only.\<close>

theorem utf8_bom_after_replacement:
  "decodeUtf8 (255 # 239 # 187 # 191 # encodeUtf8 s) False True = Inr (65533 # toWellFormed s)"
proof -
  have bom: "encode_cp 65279 = [239, 187, 191]"
    by (simp add: encode_cp_def)
  have "decode_step False 0 255 (239 # 187 # 191 # encode_loop s) = Inr (Replace 1)"
    by (simp add: decode_step_def lead_byte_arith)
  moreover have "decode_loop False True True 1 (encode_cp 65279 @ encode_loop s) = Inr (toWellFormed s)"
    by (subst decode_loop_encode_cp) (simp_all add: scalar_value_def decode_loop_encode_loop)
  ultimately show ?thesis
    by (simp add: decodeUtf8_loop encodeUtf8_loop bom)
qed

end
