(* ===== verification/Thrift_Io.thy ===== *)
theory Thrift_Io
  imports Utf8
begin

text \<open>
  \<open>internal/format/thrift/io.ts\<close>: the bounds-checked cursor \<open>ByteReader\<close> and the growable
  \<open>ByteWriter\<close> under the Thrift protocols and the Parquet codecs.

  A reader is the record of the two fields \<open>#bytes\<close> and \<open>#pos\<close>; every method returns its value
  with the advanced reader, or the \<open>ThriftError\<close> it throws. A writer is the record of the backing
  buffer and \<open>#len\<close>. Growing doubles the capacity with the 32-bit shift \<open>size <<= 1\<close>, a loop that
  need not end, so the writer's methods return an option: \<open>None\<close> is a call that never returns.
  A double is its 64-bit IEEE-754 pattern.

  \<open>js_error\<close> is every exception the modelled code throws: the \<open>ThriftError\<close>s of \<open>_fail\<close>, which carry
  the offset instead of the message text, the \<open>RangeError\<close> of typed arrays and data views, the
  \<open>TypeError\<close> of a property of \<open>undefined\<close>, \<open>ParquetError\<close>, \<open>ArrowError\<close> and \<open>ProtobufError\<close>.
\<close>

datatype js_error =
    UnexpectedEnd nat int nat
  | NegativeLength nat int
  | VarintOverflow nat
  | NegativeVarint
  | NoCompactEncoding nat
  | UnknownCompactNibble nat
  | BadProtocolId nat nat
  | UnsupportedVersion nat nat
  | CannotReadType nat
  | CannotSkipType nat
  | UndefinedProperty
  | RangeError
  | ParquetError string
  | ArrowError string
  | ProtobufError string
  | OutOfFuel

subsection \<open>ByteReader\<close>

record reader =
  rd_bytes :: "byte list"
  rd_pos :: nat

type_synonym 'a read = "reader \<Rightarrow> js_error + 'a \<times> reader"

definition new_reader :: "byte list \<Rightarrow> reader" where
  "new_reader bytes = \<lparr>rd_bytes = bytes, rd_pos = 0\<rparr>"

definition rd_remaining :: "reader \<Rightarrow> nat" where
  "rd_remaining r = length (rd_bytes r) - rd_pos r"

definition rd_done :: "reader \<Rightarrow> bool" where
  "rd_done r \<longleftrightarrow> length (rd_bytes r) \<le> rd_pos r"

definition rd_ensure :: "nat \<Rightarrow> reader \<Rightarrow> js_error + unit" where
  "rd_ensure n r =
     (if rd_pos r + n > length (rd_bytes r)
      then Inl (UnexpectedEnd (rd_pos r) (int n) (rd_remaining r)) else Inr ())"

definition rd_slice :: "nat \<Rightarrow> reader \<Rightarrow> byte list" where
  "rd_slice n r = take n (drop (rd_pos r) (rd_bytes r))"

definition rd_advance :: "nat \<Rightarrow> reader \<Rightarrow> reader" where
  "rd_advance n r = r\<lparr>rd_pos := rd_pos r + n\<rparr>"

definition readU8 :: "nat read" where
  "readU8 r = bindR (rd_ensure 1 r) (\<lambda>_. Inr (unat (rd_bytes r ! rd_pos r), rd_advance 1 r))"

definition readI8 :: "int read" where
  "readI8 r = bindR (rd_ensure 1 r) (\<lambda>_. Inr (sint (rd_bytes r ! rd_pos r), rd_advance 1 r))"

definition readBytes :: "int \<Rightarrow> byte list read" where
  "readBytes n r =
     (if n < 0 then Inl (NegativeLength (rd_pos r) n)
      else bindR (rd_ensure (nat n) r) (\<lambda>_. Inr (rd_slice (nat n) r, rd_advance (nat n) r)))"

text \<open>\<open>new TextDecoder().decode(bytes)\<close>: not fatal, and a leading byte order mark is dropped.\<close>

definition text_decode :: "byte list \<Rightarrow> code_unit list" where
  "text_decode bs = (case decodeUtf8 bs False True of Inl _ \<Rightarrow> [] | Inr s \<Rightarrow> s)"

definition readString :: "int \<Rightarrow> code_unit list read" where
  "readString n r = bindR (readBytes n r) (\<lambda>(bs, r'). Inr (text_decode bs, r'))"

text \<open>The big-endian \<open>DataView\<close> accessors.\<close>

definition be_uint :: "byte list \<Rightarrow> nat" where
  "be_uint bs = foldl (\<lambda>a b. a * 256 + unat b) 0 bs"

fun be_bytes :: "nat \<Rightarrow> nat \<Rightarrow> byte list" where
  "be_bytes 0 n = []"
| "be_bytes (Suc k) n = be_bytes k (n div 256) @ [of_nat n]"

definition readI16BE :: "int read" where
  "readI16BE r = bindR (rd_ensure 2 r)
     (\<lambda>_. Inr (sint (of_nat (be_uint (rd_slice 2 r)) :: 16 word), rd_advance 2 r))"

definition readI32BE :: "int read" where
  "readI32BE r = bindR (rd_ensure 4 r)
     (\<lambda>_. Inr (sint (of_nat (be_uint (rd_slice 4 r)) :: 32 word), rd_advance 4 r))"

definition readI64BE :: "int read" where
  "readI64BE r = bindR (rd_ensure 8 r)
     (\<lambda>_. Inr (sint (of_nat (be_uint (rd_slice 8 r)) :: 64 word), rd_advance 8 r))"

definition readF64BE :: "u64 read" where
  "readF64BE r = bindR (rd_ensure 8 r)
     (\<lambda>_. Inr (of_nat (be_uint (rd_slice 8 r)), rd_advance 8 r))"

definition readF64LE :: "u64 read" where
  "readF64LE r = bindR (rd_ensure 8 r)
     (\<lambda>_. Inr (of_nat (be_uint (rev (rd_slice 8 r))), rd_advance 8 r))"

text \<open>The \<open>for (;;)\<close> loop of \<open>readVarint\<close>, over \<open>result\<close> and \<open>shift\<close>.\<close>

function varint_loop :: "nat \<Rightarrow> nat \<Rightarrow> nat read" where
  "varint_loop result shift r =
     bindR (readU8 r) (\<lambda>(b, r').
       let result' = result OR push_bit shift (b AND 127) in
       if b AND 128 = 0 then Inr (result', r')
       else if shift + 7 > 63 then Inl (VarintOverflow (rd_pos r'))
       else varint_loop result' (shift + 7) r')"
  by pat_completeness auto
termination
  by (relation "measure (\<lambda>(result, shift, r). 64 - shift)") auto

declare varint_loop.simps [simp del]

definition readVarint :: "nat read" where
  "readVarint r = bindR (varint_loop 0 0 r) (\<lambda>(v, r'). Inr (take_bit 64 v, r'))"

definition readVarint32 :: "nat read" where
  "readVarint32 r = bindR (readVarint r) (\<lambda>(v, r'). Inr (take_bit 32 v, r'))"

definition unzigzag32 :: "u32 \<Rightarrow> int" where
  "unzigzag32 v = sint (drop_bit 1 v XOR - (v AND 1))"

definition readZigzag32 :: "int read" where
  "readZigzag32 r = bindR (readVarint32 r) (\<lambda>(v, r'). Inr (unzigzag32 (of_nat v), r'))"

definition unzigzag64 :: "int \<Rightarrow> int" where
  "unzigzag64 v = drop_bit 1 v XOR - (v AND 1)"

definition readZigzag64 :: "int read" where
  "readZigzag64 r = bindR (readVarint r) (\<lambda>(v, r'). Inr (unzigzag64 (int v), r'))"

subsection \<open>The bytes the write methods append\<close>

definition i16_bytes :: "int \<Rightarrow> byte list" where
  "i16_bytes v = be_bytes 2 (unat (word_of_int v :: 16 word))"

definition i32_bytes :: "int \<Rightarrow> byte list" where
  "i32_bytes v = be_bytes 4 (unat (word_of_int v :: 32 word))"

definition i64_bytes :: "int \<Rightarrow> byte list" where
  "i64_bytes v = be_bytes 8 (unat (word_of_int v :: 64 word))"

definition f64be_bytes :: "u64 \<Rightarrow> byte list" where
  "f64be_bytes v = be_bytes 8 (unat v)"

definition f64le_bytes :: "u64 \<Rightarrow> byte list" where
  "f64le_bytes v = rev (be_bytes 8 (unat v))"

function varint_groups :: "nat \<Rightarrow> byte list" where
  "varint_groups v =
     (if v \<ge> 128 then of_nat ((v AND 127) OR 128) # varint_groups (drop_bit 7 v) else [of_nat v])"
  by pat_completeness auto
termination
  by (relation "measure id") (auto simp: drop_bit_eq_div)

declare varint_groups.simps [simp del]

definition varint_bytes :: "int \<Rightarrow> js_error + byte list" where
  "varint_bytes v = (if v < 0 then Inl NegativeVarint else Inr (varint_groups (take_bit 64 (nat v))))"

definition zigzag32 :: "int \<Rightarrow> u32" where
  "zigzag32 v = (let w = word_of_int v in push_bit 1 w XOR signed_drop_bit 31 w)"

definition zigzag32_bytes :: "int \<Rightarrow> byte list" where
  "zigzag32_bytes v = varint_groups (unat (zigzag32 v))"

definition zigzag64 :: "int \<Rightarrow> nat" where
  "zigzag64 v = nat (take_bit 64 (push_bit 1 v XOR drop_bit 63 v))"

definition zigzag64_bytes :: "int \<Rightarrow> byte list" where
  "zigzag64_bytes v = varint_groups (zigzag64 v)"

subsection \<open>ByteWriter\<close>

record writer =
  wr_buf :: "byte list"
  wr_len :: nat

definition new_writer :: "nat \<Rightarrow> writer" where
  "new_writer initialSize = \<lparr>wr_buf = replicate (max 16 initialSize) 0, wr_len = 0\<rparr>"

definition js_shl1 :: "int \<Rightarrow> int" where
  "js_shl1 sz = sint (push_bit 1 (word_of_int sz :: 32 word))"

partial_function (option) grow :: "int \<Rightarrow> int \<Rightarrow> int option" where
  "grow sz needed = (if sz < needed then grow (js_shl1 sz) needed else Some sz)"

definition wr_ensure :: "nat \<Rightarrow> writer \<Rightarrow> writer option" where
  "wr_ensure n w =
     (if wr_len w + n \<le> length (wr_buf w) then Some w
      else case grow (int (length (wr_buf w))) (int (wr_len w + n)) of
        None \<Rightarrow> None
      | Some sz \<Rightarrow>
          Some (w\<lparr>wr_buf := take (wr_len w) (wr_buf w) @ replicate (nat sz - wr_len w) 0\<rparr>))"

definition writeU8 :: "nat \<Rightarrow> writer \<Rightarrow> writer option" where
  "writeU8 v w = map_option
     (\<lambda>w. w\<lparr>wr_buf := (wr_buf w)[wr_len w := of_nat (v AND 255)], wr_len := wr_len w + 1\<rparr>)
     (wr_ensure 1 w)"

definition buf_set :: "byte list \<Rightarrow> nat \<Rightarrow> byte list \<Rightarrow> byte list" where
  "buf_set buf at bs = take at buf @ bs @ drop (at + length bs) buf"

definition writeBytes :: "byte list \<Rightarrow> writer \<Rightarrow> writer option" where
  "writeBytes bs w = map_option
     (\<lambda>w. w\<lparr>wr_buf := buf_set (wr_buf w) (wr_len w) bs, wr_len := wr_len w + length bs\<rparr>)
     (wr_ensure (length bs) w)"

definition wr_bytes :: "writer \<Rightarrow> byte list" where
  "wr_bytes w = take (wr_len w) (wr_buf w)"

subsection \<open>Cursors\<close>

text \<open>The reader positioned between \<open>pre\<close> and the rest of its input.\<close>

definition reader_at :: "byte list \<Rightarrow> byte list \<Rightarrow> reader" where
  "reader_at pre rest = \<lparr>rd_bytes = pre @ rest, rd_pos = length pre\<rparr>"

lemma new_reader_at: "new_reader bs = reader_at [] bs"
  by (simp add: new_reader_def reader_at_def)

lemma rd_at_simps [simp]:
  "n \<le> length rest \<Longrightarrow> rd_ensure n (reader_at pre rest) = Inr ()"
  "length rest < n \<Longrightarrow> rd_ensure n (reader_at pre rest) =
     Inl (UnexpectedEnd (length pre) (int n) (length rest))"
  "rd_slice n (reader_at pre rest) = take n rest"
  "rd_pos (reader_at pre rest) = length pre"
  "rd_bytes (reader_at pre rest) = pre @ rest"
  by (simp_all add: rd_ensure_def rd_slice_def rd_remaining_def reader_at_def)

lemma rd_advance_at [simp]:
  "length bs = n \<Longrightarrow> rd_advance n (reader_at pre (bs @ rest)) = reader_at (pre @ bs) rest"
  "rd_advance (Suc 0) (reader_at pre (b # rest)) = reader_at (pre @ [b]) rest"
  by (simp_all add: rd_advance_def reader_at_def)

lemma readU8_at [simp]:
  "readU8 (reader_at pre (b # rest)) = Inr (unat b, reader_at (pre @ [b]) rest)"
  "readU8 (reader_at pre []) = Inl (UnexpectedEnd (length pre) 1 0)"
  by (simp_all add: readU8_def)

lemma readI8_at [simp]:
  "readI8 (reader_at pre (b # rest)) = Inr (sint b, reader_at (pre @ [b]) rest)"
  by (simp add: readI8_def)

lemma readBytes_at [simp]:
  "readBytes (int (length bs)) (reader_at pre (bs @ rest)) = Inr (bs, reader_at (pre @ bs) rest)"
  by (simp add: readBytes_def)

lemma readBytes_short:
  "length rest < n \<Longrightarrow>
     readBytes (int n) (reader_at pre rest) = Inl (UnexpectedEnd (length pre) (int n) (length rest))"
  by (simp add: readBytes_def)

text \<open>A codec on the cursor: what \<open>enc\<close> appends, \<open>dec\<close> reads back and stops right after.\<close>

definition decodes_as :: "'a read \<Rightarrow> byte list \<Rightarrow> 'a \<Rightarrow> bool" where
  "decodes_as dec bs x \<longleftrightarrow>
     (\<forall>pre rest. dec (reader_at pre (bs @ rest)) = Inr (x, reader_at (pre @ bs) rest))"

lemma decodes_asD:
  "decodes_as dec bs x \<Longrightarrow> dec (reader_at pre (bs @ rest)) = Inr (x, reader_at (pre @ bs) rest)"
  by (simp add: decodes_as_def)

fun read_times :: "'a read \<Rightarrow> nat \<Rightarrow> 'a list read" where
  "read_times dec 0 r = Inr ([], r)"
| "read_times dec (Suc n) r =
     bindR (dec r) (\<lambda>(x, r'). bindR (read_times dec n r') (\<lambda>(xs, r''). Inr (x # xs, r'')))"

locale byte_codec =
  fixes enc :: "'a \<Rightarrow> byte list"
    and dec :: "'a read"
    and valid :: "'a \<Rightarrow> bool"
  assumes decodes: "valid x \<Longrightarrow> decodes_as dec (enc x) x"
begin

lemma read_encoded [simp]:
  "valid x \<Longrightarrow> dec (reader_at pre (enc x @ rest)) = Inr (x, reader_at (pre @ enc x) rest)"
  using decodes by (rule decodes_asD)

lemma read_encoded_end [simp]:
  "valid x \<Longrightarrow> dec (reader_at pre (enc x)) = Inr (x, reader_at (pre @ enc x) [])"
  using read_encoded [of x pre "[]"] by simp

text \<open>A sequence of values written one after the other is read back in order.\<close>

lemma read_sequence:
  "list_all valid xs \<Longrightarrow> decodes_as (read_times dec (length xs)) (concat (map enc xs)) xs"
proof (induction xs)
  case Nil
  show ?case by (simp add: decodes_as_def)
next
  case (Cons x xs)
  then have "decodes_as (read_times dec (length xs)) (concat (map enc xs)) xs" by simp
  with Cons.prems show ?case by (simp add: decodes_as_def)
qed

text \<open>The encoding is injective, and no encoding is a proper prefix of another.\<close>

lemma encodings_prefix_free:
  assumes "valid x" "valid y" "enc x @ rest = enc y @ rest'"
  shows "x = y \<and> rest = rest'"
  using read_encoded [OF assms(1), of "[]" rest] read_encoded [OF assms(2), of "[]" rest'] assms(3)
  by auto

end

subsection \<open>Fixed-width integers\<close>

lemma length_be_bytes [simp]: "length (be_bytes k n) = k"
  by (induction k n rule: be_bytes.induct) simp_all

lemma be_uint_snoc [simp]: "be_uint (bs @ [b]) = be_uint bs * 256 + unat b"
  by (simp add: be_uint_def)

lemma be_uint_be_bytes: "n < 256 ^ k \<Longrightarrow> be_uint (be_bytes k n) = n"
proof (induction k arbitrary: n)
  case 0
  then show ?case by (simp add: be_uint_def)
next
  case (Suc k)
  have "n div 256 < 256 ^ k" using Suc.prems by (simp add: less_mult_imp_div_less mult.commute)
  with Suc.IH show ?case by (simp add: unat_of_nat)
qed

lemma be_uint_be_bytes_word [simp]:
  "be_uint (be_bytes 2 (unat (w2 :: 16 word))) = unat w2"
  "be_uint (be_bytes 4 (unat (w4 :: 32 word))) = unat w4"
  "be_uint (be_bytes 8 (unat (w8 :: 64 word))) = unat w8"
proof -
  have "unat w2 < 256 ^ 2" "unat w4 < 256 ^ 4" "unat w8 < 256 ^ 8"
    using unsigned_less [where ?'a = nat, of w2] unsigned_less [where ?'a = nat, of w4]
      unsigned_less [where ?'a = nat, of w8]
    by simp_all
  then show "be_uint (be_bytes 2 (unat w2)) = unat w2" "be_uint (be_bytes 4 (unat w4)) = unat w4"
      "be_uint (be_bytes 8 (unat w8)) = unat w8"
    by (simp_all only: be_uint_be_bytes)
qed

definition int_range :: "nat \<Rightarrow> int \<Rightarrow> bool" where
  "int_range n v \<longleftrightarrow> - (2 ^ (n - 1)) \<le> v \<and> v < 2 ^ (n - 1)"

lemma sint_word_of_int [simp]:
  "int_range 8 v \<Longrightarrow> sint (word_of_int v :: 8 word) = v"
  "int_range 16 v \<Longrightarrow> sint (word_of_int v :: 16 word) = v"
  "int_range 32 v \<Longrightarrow> sint (word_of_int v :: 32 word) = v"
  "int_range 64 v \<Longrightarrow> sint (word_of_int v :: 64 word) = v"
  by (simp_all add: int_range_def signed_take_bit_int_eq_self signed_of_int)

lemma int_range_mono:
  assumes "int_range m i" "m \<le> n"
  shows "int_range n i"
proof -
  have "(2::int) ^ (m - 1) \<le> 2 ^ (n - 1)" using assms(2) by (intro power_increasing) auto
  with assms(1) show ?thesis unfolding int_range_def by linarith
qed

interpretation i16be: byte_codec i16_bytes readI16BE "int_range 16"
  by unfold_locales (simp add: decodes_as_def i16_bytes_def readI16BE_def)

interpretation i32be: byte_codec i32_bytes readI32BE "int_range 32"
  by unfold_locales (simp add: decodes_as_def i32_bytes_def readI32BE_def)

interpretation i64be: byte_codec i64_bytes readI64BE "int_range 64"
  by unfold_locales (simp add: decodes_as_def i64_bytes_def readI64BE_def)

interpretation f64be: byte_codec f64be_bytes readF64BE "\<lambda>_. True"
  by unfold_locales (simp add: decodes_as_def f64be_bytes_def readF64BE_def)

interpretation f64le: byte_codec f64le_bytes readF64LE "\<lambda>_. True"
  by unfold_locales (simp add: decodes_as_def f64le_bytes_def readF64LE_def)


subsection \<open>Varints\<close>

lemma or_128_group: "x < 128 \<Longrightarrow> x OR 128 = (128::nat) + x"
  using nat_or_low_bits [of x 7 1] by (simp add: or.commute)

lemma varint_group_byte:
  assumes "x < (128::nat)"
  shows "unat (of_nat (x OR 128) :: byte) AND 127 = x"
    and "unat (of_nat (x OR 128) :: byte) AND 128 \<noteq> 0"
proof -
  have "unat (of_nat (x OR 128) :: byte) = 128 + x"
    using assms by (simp only: or_128_group) (simp add: unat_of_nat del: of_nat_add)
  moreover have "(128 + x) AND 128 = 128"
    using assms nat_and_high_mask [of "128 + x" 7 1] by simp
  ultimately show "unat (of_nat (x OR 128) :: byte) AND 127 = x"
    and "unat (of_nat (x OR 128) :: byte) AND 128 \<noteq> 0"
    using assms by (simp_all add: nat_and_mask)
qed

lemma varint_last_byte:
  assumes "x < (128::nat)"
  shows "unat (of_nat x :: byte) AND 127 = x" "unat (of_nat x :: byte) AND 128 = 0"
  using assms nat_and_high_mask [of x 7 1] by (simp_all add: nat_and_mask)

lemma nat_or_shifted:
  "a < 2 ^ k \<Longrightarrow> a OR push_bit k b = a + b * (2 ^ k :: nat)"
  using nat_or_low_bits [of a k b] by (simp add: push_bit_eq_mult or.commute add.commute)

text \<open>Reading the groups of \<open>v\<close> from bit \<open>shift\<close> on, with the lower bits already in
  \<open>acc\<close>.\<close>

lemma varint_loop_groups:
  assumes "shift \<le> 63" "v < 2 ^ (64 - shift)" "acc < 2 ^ shift"
  shows "decodes_as (varint_loop acc shift) (varint_groups v) (acc + v * 2 ^ shift)"
  using assms
proof (induction v arbitrary: acc shift rule: varint_groups.induct)
  case (1 v)
  show ?case
  proof (cases "v < 128")
    case True
    then show ?thesis
      using "1.prems" varint_last_byte [OF True]
      by (simp add: decodes_as_def varint_groups.simps [of v] varint_loop.simps [of acc] Let_def
          nat_or_shifted nat_and_mask)
  next
    case False
    define x where "x = v mod 128"
    define y where "y = v div 128"
    have v: "v = x + y * 128" "x < 128" by (simp_all add: x_def y_def)
    have "7 < 64 - shift"
    proof (rule ccontr)
      assume "\<not> 7 < 64 - shift"
      then have "2 ^ (64 - shift) \<le> (2::nat) ^ 7" by (intro power_increasing) auto
      with "1.prems"(2) False show False by simp
    qed
    then have shift: "shift + 7 \<le> 63" and "64 - shift = 64 - (shift + 7) + 7" by simp_all
    then have pow: "(2::nat) ^ (64 - shift) = 2 ^ (64 - (shift + 7)) * 128"
      by (simp only: power_add) simp
    have y: "y < 2 ^ (64 - (shift + 7))"
      using "1.prems"(2) unfolding y_def pow by (simp add: less_mult_imp_div_less)
    have acc: "acc + x * 2 ^ shift < 2 ^ (shift + 7)"
    proof -
      have "x * 2 ^ shift \<le> 127 * 2 ^ shift" using v(2) by (intro mult_le_mono1) simp
      with "1.prems"(3) have "acc + x * 2 ^ shift < 2 ^ shift + 127 * 2 ^ shift" by linarith
      then show ?thesis by (simp add: power_add)
    qed
    have "decodes_as (varint_loop (acc + x * 2 ^ shift) (shift + 7)) (varint_groups y)
        (acc + x * 2 ^ shift + y * 2 ^ (shift + 7))"
      using "1.IH" [OF _ shift _ acc] False y by (simp add: drop_bit_eq_div y_def)
    moreover have "acc + x * 2 ^ shift + y * 2 ^ (shift + 7) = acc + v * 2 ^ shift"
      by (simp add: v(1) power_add algebra_simps)
    ultimately show ?thesis
      using False shift varint_group_byte [OF v(2)] "1.prems"(3)
      by (simp add: decodes_as_def varint_groups.simps [of v] varint_loop.simps [of acc] Let_def
          nat_or_shifted nat_and_mask drop_bit_eq_div flip: x_def y_def)
  qed
qed

lemma readVarint_groups: "v < 2 ^ 64 \<Longrightarrow> decodes_as readVarint (varint_groups v) v"
  using varint_loop_groups [of 0 v 0]
  by (simp add: decodes_as_def readVarint_def take_bit_nat_eq_self)

interpretation varint: byte_codec varint_groups readVarint "\<lambda>v. v < 2 ^ 64"
  by unfold_locales (rule readVarint_groups)

interpretation varint32: byte_codec varint_groups readVarint32 "\<lambda>v. v < 2 ^ 32"
  by unfold_locales
    (simp add: decodes_as_def readVarint32_def decodes_asD [OF readVarint_groups] take_bit_nat_eq_self)


lemma varint_groups_nonempty [simp]: "varint_groups v \<noteq> []"
  by (subst varint_groups.simps) simp

lemma length_varint_groups: "v < 2 ^ (7 * n) \<Longrightarrow> 0 < n \<Longrightarrow> length (varint_groups v) \<le> n"
proof (induction n arbitrary: v)
  case (Suc n)
  show ?case
  proof (cases "v < 128")
    case True
    then show ?thesis by (simp add: varint_groups.simps [of v])
  next
    case False
    have n: "0 < n" using Suc.prems False by (cases n) auto
    have "v div 128 < 2 ^ (7 * n)"
      using Suc.prems by (simp add: power_add less_mult_imp_div_less mult.commute)
    with Suc.IH [of "v div 128"] n False show ?thesis
      by (simp add: varint_groups.simps [of v] drop_bit_eq_div)
  qed
qed simp

subsection \<open>Zig-zag\<close>

lemma unzigzag32_zigzag32:
  assumes "int_range 32 v"
  shows "unzigzag32 (zigzag32 v) = v"
proof -
  define w where "w = (word_of_int v :: 32 word)"
  have sdb: "signed_drop_bit 31 w = (if bit w 31 then - 1 else 0)"
    by (rule bit_word_eqI) (auto simp: bit_simps Suc_le_eq)
  have "drop_bit 1 (zigzag32 v) XOR - (zigzag32 v AND 1) = w"
  proof (cases "bit w 31")
    case True
    then have z: "zigzag32 v = NOT (push_bit 1 w)"
      by (simp add: zigzag32_def Let_def sdb flip: w_def)
    have "odd (NOT (push_bit 1 w))" by (simp add: even_not_iff push_bit_eq_mult)
    then have "NOT (push_bit 1 w) AND 1 = 1" by (simp only: and_one_eq mod_2_eq_odd) simp
    then have "drop_bit 1 (zigzag32 v) XOR - (zigzag32 v AND 1) = drop_bit 1 (NOT (push_bit 1 w)) XOR - 1"
      by (simp only: z)
    also have "\<dots> = w"
    proof (rule bit_word_eqI)
      fix n assume "n < LENGTH(32)"
      then show "bit (drop_bit 1 (NOT (push_bit 1 w)) XOR - 1) n = bit w n"
        using True by (cases "n = 31") (auto simp: bit_simps simp del: push_bit_Suc)
    qed
    finally show ?thesis .
  next
    case False
    then have z: "zigzag32 v = push_bit 1 w"
      by (simp add: zigzag32_def Let_def sdb flip: w_def)
    have "push_bit 1 w AND 1 = 0" by (simp only: and_one_eq mod_2_eq_odd) (simp add: push_bit_eq_mult)
    then have "drop_bit 1 (zigzag32 v) XOR - (zigzag32 v AND 1) = drop_bit 1 (push_bit 1 w)"
      by (simp add: z)
    also have "\<dots> = w"
    proof (rule bit_word_eqI)
      fix n assume "n < LENGTH(32)"
      then show "bit (drop_bit 1 (push_bit 1 w)) n = bit w n"
        using False by (cases "n = 31") (auto simp: bit_simps simp del: push_bit_Suc)
    qed
    finally show ?thesis .
  qed
  then show ?thesis
    using assms by (simp add: unzigzag32_def w_def)
qed

lemma zigzag64_nonneg: "0 \<le> v \<Longrightarrow> v < 2 ^ 63 \<Longrightarrow> int (zigzag64 v) = 2 * v"
  by (simp add: zigzag64_def push_bit_eq_mult drop_bit_eq_div take_bit_int_eq_self)

lemma zigzag64_neg: "v < 0 \<Longrightarrow> - (2 ^ 63) \<le> v \<Longrightarrow> int (zigzag64 v) = - 2 * v - 1"
proof -
  assume v: "v < 0" "- (2 ^ 63) \<le> v"
  then have "(v + 2 ^ 63) div 2 ^ 63 = 0" by (intro div_pos_pos_trivial) auto
  then have "v div 2 ^ 63 = - 1" by simp
  then have "push_bit 1 v XOR drop_bit 63 v = NOT (2 * v)"
    by (simp add: push_bit_eq_mult drop_bit_eq_div)
  then show ?thesis
    using v by (simp add: zigzag64_def take_bit_int_eq_self not_int_def)
qed

lemma unzigzag64_zigzag64:
  assumes "int_range 64 v"
  shows "unzigzag64 (int (zigzag64 v)) = v"
proof (cases "0 \<le> v")
  case True
  then show ?thesis
    using assms by (simp add: int_range_def zigzag64_nonneg unzigzag64_def drop_bit_eq_div and_one_eq)
next
  case False
  define u where "u = - v - 1"
  have "int (zigzag64 v) = 2 * u + 1"
    using False assms by (simp add: int_range_def zigzag64_neg u_def)
  then have "unzigzag64 (int (zigzag64 v)) = NOT u"
    by (simp add: unzigzag64_def drop_bit_eq_div and_one_eq)
  then show ?thesis by (simp add: u_def not_int_def)
qed


lemma zigzag64_less: "zigzag64 v < 2 ^ 64"
proof -
  have "take_bit 64 (push_bit 1 v XOR drop_bit 63 v) < 2 ^ 64" by (rule take_bit_int_less_exp)
  then have "nat (take_bit 64 (push_bit 1 v XOR drop_bit 63 v)) < nat (2 ^ 64)"
    by (simp only: nat_mono_iff zero_less_power zero_less_numeral)
  then show ?thesis unfolding zigzag64_def by (simp only: nat_power_eq zero_le_numeral nat_numeral)
qed

lemma unat_zigzag32_less: "unat (zigzag32 v) < 2 ^ 32"
  using unsigned_less [where ?'a = nat, of "zigzag32 v"] by simp

interpretation zigzag32: byte_codec zigzag32_bytes readZigzag32 "int_range 32"
proof unfold_locales
  fix v assume "int_range 32 v"
  then show "decodes_as readZigzag32 (zigzag32_bytes v) v"
    using varint32.read_encoded [OF unat_zigzag32_less [of v]]
    by (simp add: decodes_as_def readZigzag32_def zigzag32_bytes_def unzigzag32_zigzag32)
qed

interpretation zigzag64: byte_codec zigzag64_bytes readZigzag64 "int_range 64"
proof unfold_locales
  fix v assume "int_range 64 v"
  then show "decodes_as readZigzag64 (zigzag64_bytes v) v"
    using varint.read_encoded [OF zigzag64_less [of v]]
    by (simp add: decodes_as_def readZigzag64_def zigzag64_bytes_def unzigzag64_zigzag64)
qed

subsection \<open>Strings\<close>

lemma text_decode_encode: "text_decode (encodeUtf8 s) = strip_bom (toWellFormed s)"
  by (simp add: text_decode_def decodeUtf8_skip_bom)

definition storable_string :: "code_unit list \<Rightarrow> bool" where
  "storable_string s \<longleftrightarrow> toWellFormed s = s \<and> take 1 s \<noteq> [65279]"

lemma text_decode_storable: "storable_string s \<Longrightarrow> text_decode (encodeUtf8 s) = s"
  by (simp add: text_decode_encode storable_string_def strip_bom_def)

lemma decodes_U8: "b < 256 \<Longrightarrow> decodes_as readU8 [of_nat b] b"
  by (simp add: decodes_as_def)

lemma decodes_I8: "int_range 8 i \<Longrightarrow> decodes_as readI8 [word_of_int i] i"
  by (simp add: decodes_as_def)

lemma decodes_bytes: "decodes_as (readBytes (int (length bs))) bs bs"
  by (simp add: decodes_as_def)

lemma decodes_text: "storable_string s \<Longrightarrow> decodes_as (readString (int (length (encodeUtf8 s)))) (encodeUtf8 s) s"
  by (simp add: decodes_as_def readString_def text_decode_storable)

subsection \<open>The growing buffer\<close>

definition wr_inv :: "writer \<Rightarrow> bool" where
  "wr_inv w \<longleftrightarrow> wr_len w \<le> length (wr_buf w) \<and> 16 \<le> length (wr_buf w)"

lemma new_writer_inv: "wr_inv (new_writer n)" "wr_bytes (new_writer n) = []"
  by (simp_all add: wr_inv_def new_writer_def wr_bytes_def)

lemma length_wr_bytes: "wr_inv w \<Longrightarrow> length (wr_bytes w) = wr_len w"
  by (simp add: wr_inv_def wr_bytes_def)

lemma js_shl1_double: "0 \<le> sz \<Longrightarrow> sz < 2 ^ 30 \<Longrightarrow> js_shl1 sz = 2 * sz"
proof -
  assume "0 \<le> sz" "sz < 2 ^ 30"
  then have "int_range 32 (2 * sz)" by (simp add: int_range_def)
  moreover have "push_bit 1 (word_of_int sz :: 32 word) = word_of_int (2 * sz)"
    by (simp add: push_bit_eq_mult mult.commute)
  ultimately show "js_shl1 sz = 2 * sz" by (simp only: js_shl1_def sint_word_of_int)
qed

lemma grow_enough:
  assumes "0 < sz" "needed \<le> 2 ^ 30"
  shows "\<exists>sz'. grow sz needed = Some sz' \<and> needed \<le> sz' \<and> sz \<le> sz'"
  using assms
proof (induction "nat (needed - sz)" arbitrary: sz rule: less_induct)
  case less
  show ?case
  proof (cases "sz < needed")
    case True
    with less.prems have dbl: "js_shl1 sz = 2 * sz" by (intro js_shl1_double) linarith+
    have "nat (needed - 2 * sz) < nat (needed - sz)" using True less.prems(1) by linarith
    then obtain sz' where sz': "grow (2 * sz) needed = Some sz'" "needed \<le> sz'" "2 * sz \<le> sz'"
      using less.hyps [OF _ _ less.prems(2), of "2 * sz"] less.prems(1) by auto
    then have "grow sz needed = Some sz'" using True by (simp add: grow.simps [of sz] dbl)
    with sz' less.prems(1) show ?thesis by (intro exI [of _ sz']) simp
  next
    case False
    then show ?thesis by (simp add: grow.simps [of sz])
  qed
qed

lemma wr_ensure_ok:
  assumes "wr_inv w" "wr_len w + n \<le> 2 ^ 30"
  obtains w' where "wr_ensure n w = Some w'" "wr_inv w'" "wr_bytes w' = wr_bytes w"
    "wr_len w' = wr_len w" "wr_len w + n \<le> length (wr_buf w')"
proof (cases "wr_len w + n \<le> length (wr_buf w)")
  case True
  then show ?thesis using assms that by (simp add: wr_ensure_def)
next
  case False
  have "int (wr_len w + n) \<le> 2 ^ 30" using assms(2) by simp
  moreover have "0 < int (length (wr_buf w))" using assms(1) by (simp add: wr_inv_def del: length_greater_0_conv)
  ultimately obtain sz where "grow (int (length (wr_buf w))) (int (wr_len w + n)) = Some sz"
      "int (wr_len w + n) \<le> sz" "int (length (wr_buf w)) \<le> sz"
    using grow_enough by blast
  with False assms(1) show ?thesis
    by (intro that [of "w\<lparr>wr_buf := take (wr_len w) (wr_buf w) @ replicate (nat sz - wr_len w) 0\<rparr>"])
      (auto simp: wr_ensure_def wr_inv_def wr_bytes_def)
qed

lemma writeBytes_appends:
  assumes "wr_inv w" "wr_len w + length bs \<le> 2 ^ 30"
  shows "\<exists>w'. writeBytes bs w = Some w' \<and> wr_inv w' \<and> wr_bytes w' = wr_bytes w @ bs"
proof -
  obtain w' where "wr_ensure (length bs) w = Some w'" "wr_inv w'" "wr_bytes w' = wr_bytes w"
      "wr_len w' = wr_len w" "wr_len w + length bs \<le> length (wr_buf w')"
    by (rule wr_ensure_ok [OF assms])
  with assms(1) show ?thesis
    by (auto simp: writeBytes_def wr_inv_def wr_bytes_def buf_set_def)
qed

lemma writeU8_appends:
  assumes "wr_inv w" "wr_len w < 2 ^ 30"
  shows "\<exists>w'. writeU8 v w = Some w' \<and> wr_inv w' \<and> wr_bytes w' = wr_bytes w @ [of_nat v]"
proof -
  obtain w' where "wr_ensure 1 w = Some w'" "wr_inv w'" "wr_bytes w' = wr_bytes w"
      "wr_len w' = wr_len w" "wr_len w + 1 \<le> length (wr_buf w')"
    by (rule wr_ensure_ok [of w 1]) (use assms in simp_all)
  moreover have "of_nat (v AND 255) = (of_nat v :: byte)"
    by (simp add: nat_and_mask word_unat_eq_iff unat_of_nat)
  ultimately show ?thesis
    by (auto simp: writeU8_def wr_inv_def wr_bytes_def take_Suc_conv_app_nth)
qed

text \<open>Past \<open>2 ^ 30\<close> bytes the doubled size turns negative and then zero, and stays there.\<close>

definition grow_stuck :: "int \<Rightarrow> bool" where
  "grow_stuck sz \<longleftrightarrow> (\<exists>k \<le> 30. sz = 2 ^ k) \<or> sz = - (2 ^ 31) \<or> sz = 0"

lemma grow_stuck_shl:
  assumes "grow_stuck sz"
  shows "grow_stuck (js_shl1 sz)"
  using assms unfolding grow_stuck_def
proof (elim disjE exE conjE)
  fix k :: nat assume k: "k \<le> 30" "sz = 2 ^ k"
  show "(\<exists>k\<le>30. js_shl1 sz = 2 ^ k) \<or> js_shl1 sz = - (2 ^ 31) \<or> js_shl1 sz = 0"
  proof (cases "k = 30")
    case True
    with k show ?thesis by (simp add: js_shl1_def push_bit_eq_mult)
  next
    case False
    with k have "sz < 2 ^ 30" by (simp only:) (intro power_strict_increasing, auto)
    with k have "js_shl1 sz = 2 ^ Suc k" by (subst js_shl1_double) auto
    with k False show ?thesis by (intro disjI1 exI [of _ "Suc k"]) auto
  qed
qed (simp_all add: js_shl1_def push_bit_eq_mult)

lemma grow_diverges:
  assumes "grow_stuck sz" "2 ^ 30 < needed"
  shows "grow sz needed = None"
proof (rule ccontr)
  assume "grow sz needed \<noteq> None"
  then obtain r where "grow sz needed = Some r" by blast
  then have "grow_stuck sz \<and> 2 ^ 30 < needed \<longrightarrow> False"
  proof (rule grow.raw_induct [rotated])
    fix f sz needed r
    assume IH: "\<And>sz needed r. f sz needed = Some r \<Longrightarrow> grow_stuck sz \<and> 2 ^ 30 < needed \<longrightarrow> False"
      and eq: "(if sz < needed then f (js_shl1 sz) needed else Some sz) = Some r"
    show "grow_stuck sz \<and> 2 ^ 30 < needed \<longrightarrow> False"
    proof
      assume *: "grow_stuck sz \<and> 2 ^ 30 < needed"
      moreover have "k \<le> 30 \<Longrightarrow> (2::int) ^ k \<le> 2 ^ 30" for k :: nat
        by (intro power_increasing) auto
      ultimately have "sz \<le> 2 ^ 30" by (auto simp: grow_stuck_def)
      with * eq have "f (js_shl1 sz) needed = Some r" by (auto split: if_splits)
      with IH * grow_stuck_shl show False by blast
    qed
  qed
  with assms show False by blast
qed

text \<open>A run of \<open>writeBytes\<close> calls on one writer.\<close>

fun write_all :: "byte list list \<Rightarrow> writer \<Rightarrow> writer option" where
  "write_all [] w = Some w"
| "write_all (bs # bss) w = Option.bind (writeBytes bs w) (write_all bss)"

lemma write_all_appends:
  assumes "wr_inv w" "wr_len w + length (concat bss) \<le> 2 ^ 30"
  shows "\<exists>w'. write_all bss w = Some w' \<and> wr_inv w' \<and> wr_bytes w' = wr_bytes w @ concat bss"
  using assms
proof (induction bss arbitrary: w)
  case (Cons bs bss)
  then obtain w1 where w1: "writeBytes bs w = Some w1" "wr_inv w1" "wr_bytes w1 = wr_bytes w @ bs"
    using writeBytes_appends [of w bs] by auto
  then have "wr_len w1 = wr_len w + length bs"
    using length_wr_bytes [OF w1(2)] length_wr_bytes [OF Cons.prems(1)] by simp
  with Cons.IH [OF w1(2)] Cons.prems(2) w1 show ?case by auto
qed simp

text \<open>What a successful \<open>readVarint\<close> consumes.\<close>

lemma readU8_cases:
  assumes "readU8 r = Inr (b, r')"
  shows "rd_pos r' = Suc (rd_pos r)" "rd_bytes r' = rd_bytes r" "rd_pos r' \<le> length (rd_bytes r)"
  using assms by (auto simp: readU8_def rd_ensure_def rd_advance_def split: if_splits)

lemma varint_loop_consumes:
  "varint_loop acc shift r = Inr (v, r') \<Longrightarrow>
     rd_bytes r' = rd_bytes r \<and> rd_pos r < rd_pos r' \<and> rd_pos r' \<le> length (rd_bytes r) \<and>
     rd_pos r' \<le> Suc (rd_pos r + (63 - shift) div 7)"
proof (induction acc shift r arbitrary: v r' rule: varint_loop.induct)
  case (1 acc shift r)
  from "1.prems" obtain b r1 where b: "readU8 r = Inr (b, r1)"
    by (auto simp: varint_loop.simps [of acc] result_simps)
  show ?case
  proof (cases "b AND 128 = 0")
    case True
    with "1.prems" b readU8_cases [OF b] show ?thesis
      by (auto simp: varint_loop.simps [of acc] Let_def)
  next
    case False
    with "1.prems" b have le: "\<not> shift + 7 > 63"
      and rec: "varint_loop (acc OR push_bit shift (b AND 127)) (shift + 7) r1 = Inr (v, r')"
      by (auto simp: varint_loop.simps [of acc] Let_def split: if_splits)
    have "(63 - shift) div 7 = Suc ((63 - (shift + 7)) div 7)"
      using le by (subst div_if) auto
    with "1.IH" [OF b refl refl False le rec] readU8_cases [OF b] show ?thesis by auto
  qed
qed

subsection \<open>Properties\<close>

text \<open>C39: a \<open>ByteWriter\<close> is an append-only byte sequence: as long as at most \<open>2 ^ 30\<close> bytes are
  written in all, every \<open>writeBytes\<close> returns, whatever the initial capacity, and \<open>bytes()\<close> is the
  concatenation of what was written.\<close>

theorem writer_is_append:
  assumes "length (concat bss) \<le> 2 ^ 30"
  shows "\<exists>w. write_all bss (new_writer initialSize) = Some w \<and> wr_bytes w = concat bss"
proof -
  have "wr_len (new_writer initialSize) = 0" by (simp add: new_writer_def)
  then show ?thesis
    using write_all_appends [OF new_writer_inv(1), of initialSize bss] assms new_writer_inv(2)
    by auto
qed

theorem writer_is_append_witness:
  "\<exists>w. write_all [[1, 2], replicate 20 3, []] (new_writer 16) = Some w \<and>
     wr_bytes w = [1, 2] @ replicate 20 (3 :: byte)"
  using writer_is_append [of "[[1, 2], replicate 20 3, []]" 16] by simp

text \<open>Past \<open>2 ^ 30\<close> bytes the growth loop never ends. The size is doubled with the 32-bit
  operator \<open>size <<= 1\<close>: from \<open>2 ^ 30\<close> it becomes negative, then zero, and zero stays below
  the size needed, so a writer of the default capacity hangs instead of growing or throwing.\<close>

theorem writer_hangs_past_gibibyte:
  assumes "2 ^ 30 < length bs"
  shows "writeBytes bs (new_writer 256) = None"
proof -
  have "grow_stuck 256" unfolding grow_stuck_def by (rule disjI1, rule exI [of _ 8]) simp
  then have "grow 256 (int (length bs)) = None"
    using assms by (intro grow_diverges) auto
  with assms show ?thesis by (simp add: writeBytes_def wr_ensure_def new_writer_def)
qed

theorem writer_hangs_past_gibibyte_witness:
  "writeBytes (replicate (2 ^ 30 + 1) 0) (new_writer 256) = None"
  by (rule writer_hangs_past_gibibyte) (simp only: length_replicate less_add_one)

text \<open>Every unsigned 64-bit value written by \<open>writeVarint\<close> takes at most ten bytes, and
  \<open>readVarint\<close> at that position returns it and stops right after those bytes.\<close>

theorem varint_roundtrip:
  assumes "0 \<le> v" "v < 2 ^ 64"
  shows "\<exists>bs. varint_bytes v = Inr bs \<and> length bs \<le> 10 \<and>
    readVarint (reader_at pre (bs @ rest)) = Inr (nat v, reader_at (pre @ bs) rest)"
proof -
  have lt: "nat v < 2 ^ 64" using assms by (simp add: nat_less_iff)
  then have "varint_bytes v = Inr (varint_groups (nat v))"
    using assms by (simp add: varint_bytes_def take_bit_nat_eq_self)
  moreover have "length (varint_groups (nat v)) \<le> 10"
    by (rule length_varint_groups) (use lt in auto)
  ultimately show ?thesis using lt by simp
qed

theorem varint_roundtrip_witness:
  "\<exists>bs. varint_bytes 300 = Inr bs \<and> length bs \<le> 10 \<and>
    readVarint (reader_at [7] (bs @ [9])) = Inr (300, reader_at ([7] @ bs) [9])"
  using varint_roundtrip [of 300 "[7]" "[9]"] by simp

text \<open>Whatever the bytes, a \<open>readVarint\<close> that returns has consumed at least one and at most
  ten bytes, stays inside the input, and its value fits 64 bits.\<close>

theorem varint_read_bounds:
  assumes "readVarint r = Inr (v, r')"
  shows "v < 2 ^ 64 \<and> rd_pos r < rd_pos r' \<and> rd_pos r' \<le> rd_pos r + 10 \<and>
    rd_pos r' \<le> length (rd_bytes r)"
proof -
  from assms obtain u where "varint_loop 0 0 r = Inr (u, r')" "v = take_bit 64 u"
    by (auto simp: readVarint_def result_simps)
  then show ?thesis
    using varint_loop_consumes [of 0 0 r u r'] take_bit_nat_less_exp [of 64 u] by auto
qed

theorem varint_read_bounds_witness:
  "(172::nat) < 2 ^ 64 \<and> rd_pos (reader_at [] [172, 1]) < rd_pos (reader_at [172, 1] []) \<and>
    rd_pos (reader_at [172, 1] []) \<le> rd_pos (reader_at [] [172, 1]) + 10 \<and>
    rd_pos (reader_at [172, 1] []) \<le> length (rd_bytes (reader_at [] [172, 1]))"
proof -
  have "readVarint (reader_at [] [172, 1]) = Inr (172, reader_at [172, 1] [])"
    using varint.read_encoded [of 172 "[]" "[]"] 
    by (simp add: varint_groups.simps nat_and_mask drop_bit_eq_div or_128_group)
  from varint_read_bounds [OF this] show ?thesis .
qed

text \<open>Signed integers survive both wire forms: any 64-bit value written with
  \<open>writeZigzag64\<close> or \<open>writeI64BE\<close>, and any 32-bit value written with \<open>writeZigzag32\<close> or
  \<open>writeI32BE\<close>, is read back by the matching method wherever it stands in the input.\<close>

theorem signed_roundtrip:
  assumes "int_range 64 v" "int_range 32 u"
  shows "decodes_as readZigzag64 (zigzag64_bytes v) v \<and> decodes_as readI64BE (i64_bytes v) v \<and>
    decodes_as readZigzag32 (zigzag32_bytes u) u \<and> decodes_as readI32BE (i32_bytes u) u"
  using assms zigzag64.decodes i64be.decodes zigzag32.decodes i32be.decodes by blast

theorem signed_roundtrip_witness:
  "decodes_as readZigzag64 (zigzag64_bytes (- 5)) (- 5) \<and> decodes_as readI64BE (i64_bytes (- 5)) (- 5) \<and>
    decodes_as readZigzag32 (zigzag32_bytes 7) 7 \<and> decodes_as readI32BE (i32_bytes 7) 7"
  by (rule signed_roundtrip) (simp_all add: int_range_def)

end
