(* ===== verification/Thrift_Types.thy ===== *)
theory Thrift_Types
  imports Thrift_Io
begin

text \<open>
  \<open>internal/format/thrift/types.ts\<close>: the logical type codes \<open>TType\<close>, the message kinds
  \<open>TMessageType\<close>, the four-bit \<open>CType\<close> codes of the compact protocol, and the two translations
  between them.
\<close>

abbreviation (input) T_STOP :: nat where "T_STOP \<equiv> 0"
abbreviation (input) T_BOOL :: nat where "T_BOOL \<equiv> 2"
abbreviation (input) T_BYTE :: nat where "T_BYTE \<equiv> 3"
abbreviation (input) T_DOUBLE :: nat where "T_DOUBLE \<equiv> 4"
abbreviation (input) T_I16 :: nat where "T_I16 \<equiv> 6"
abbreviation (input) T_I32 :: nat where "T_I32 \<equiv> 8"
abbreviation (input) T_I64 :: nat where "T_I64 \<equiv> 10"
abbreviation (input) T_STRING :: nat where "T_STRING \<equiv> 11"
abbreviation (input) T_STRUCT :: nat where "T_STRUCT \<equiv> 12"
abbreviation (input) T_MAP :: nat where "T_MAP \<equiv> 13"
abbreviation (input) T_SET :: nat where "T_SET \<equiv> 14"
abbreviation (input) T_LIST :: nat where "T_LIST \<equiv> 15"

abbreviation (input) C_STOP :: nat where "C_STOP \<equiv> 0"
abbreviation (input) C_TRUE :: nat where "C_TRUE \<equiv> 1"
abbreviation (input) C_FALSE :: nat where "C_FALSE \<equiv> 2"
abbreviation (input) C_BYTE :: nat where "C_BYTE \<equiv> 3"
abbreviation (input) C_I16 :: nat where "C_I16 \<equiv> 4"
abbreviation (input) C_I32 :: nat where "C_I32 \<equiv> 5"
abbreviation (input) C_I64 :: nat where "C_I64 \<equiv> 6"
abbreviation (input) C_DOUBLE :: nat where "C_DOUBLE \<equiv> 7"
abbreviation (input) C_BINARY :: nat where "C_BINARY \<equiv> 8"
abbreviation (input) C_LIST :: nat where "C_LIST \<equiv> 9"
abbreviation (input) C_SET :: nat where "C_SET \<equiv> 10"
abbreviation (input) C_MAP :: nat where "C_MAP \<equiv> 11"
abbreviation (input) C_STRUCT :: nat where "C_STRUCT \<equiv> 12"

definition ttypeToCompact :: "nat \<Rightarrow> js_error + nat" where
  "ttypeToCompact t =
     (if t = T_BOOL then Inr C_TRUE
      else if t = T_BYTE then Inr C_BYTE
      else if t = T_I16 then Inr C_I16
      else if t = T_I32 then Inr C_I32
      else if t = T_I64 then Inr C_I64
      else if t = T_DOUBLE then Inr C_DOUBLE
      else if t = T_STRING then Inr C_BINARY
      else if t = T_LIST then Inr C_LIST
      else if t = T_SET then Inr C_SET
      else if t = T_MAP then Inr C_MAP
      else if t = T_STRUCT then Inr C_STRUCT
      else Inl (NoCompactEncoding t))"

definition compactToTtype :: "nat \<Rightarrow> js_error + nat" where
  "compactToTtype nibble =
     (let c = nibble AND 15 in
      if c = C_STOP then Inr T_STOP
      else if c = C_TRUE then Inr T_BOOL
      else if c = C_FALSE then Inr T_BOOL
      else if c = C_BYTE then Inr T_BYTE
      else if c = C_I16 then Inr T_I16
      else if c = C_I32 then Inr T_I32
      else if c = C_I64 then Inr T_I64
      else if c = C_DOUBLE then Inr T_DOUBLE
      else if c = C_BINARY then Inr T_STRING
      else if c = C_LIST then Inr T_LIST
      else if c = C_SET then Inr T_SET
      else if c = C_MAP then Inr T_MAP
      else if c = C_STRUCT then Inr T_STRUCT
      else Inl (UnknownCompactNibble c))"

text \<open>The types of values: every code but \<open>STOP\<close> and \<open>VOID\<close>.\<close>

definition value_types :: "nat set" where
  "value_types = {T_BOOL, T_BYTE, T_DOUBLE, T_I16, T_I32, T_I64, T_STRING, T_STRUCT, T_MAP, T_SET, T_LIST}"

text \<open>The translation is total on the value types and the reverse one undoes it.\<close>

lemma ttypeToCompact_value_type:
  assumes "t \<in> value_types"
  obtains c where "ttypeToCompact t = Inr c" "0 < c" "c < 13" "compactToTtype c = Inr t"
  using assms unfolding value_types_def
  by (elim insertE emptyE) (simp_all add: ttypeToCompact_def compactToTtype_def nat_and_mask)

lemma ttypeToCompact_not_bool:
  assumes "t \<in> value_types" "t \<noteq> T_BOOL"
  obtains c where "ttypeToCompact t = Inr c" "2 < c" "c < 13" "compactToTtype c = Inr t"
  using assms unfolding value_types_def
  by (elim insertE emptyE) (simp_all add: ttypeToCompact_def compactToTtype_def nat_and_mask)

end
