(* ===== verification/Thrift_Protocol.thy ===== *)
theory Thrift_Protocol
  imports Thrift_Types
begin

text \<open>
  \<open>internal/format/thrift/protocol.ts\<close> and \<open>internal/format/thrift/value.ts\<close>: the \<open>Protocol\<close>
  interface and its client, the dynamic values that are written, read and skipped through it.

  The interface is the record of its methods over a writer state \<open>'w\<close> and a reader state \<open>'r\<close>;
  the locale \<open>thrift_protocol\<close> states what the methods promise of each other, and the
  properties of \<open>writeValue\<close>, \<open>readValue\<close> and \<open>skip\<close> are proved once inside it. The compact and the
  binary protocol interpret it in their own theories.

  \<open>readValue\<close> and \<open>skip\<close> recurse as deep as the input nests, so their models carry fuel; the
  lemmas say how much fuel a value needs.
\<close>

datatype tvalue =
    TBool bool
  | TByte int
  | TI16 int
  | TI32 int
  | TI64 int
  | TDouble u64
  | TString "code_unit list"
  | TStruct "(int \<times> tvalue) list"
  | TList nat "tvalue list"
  | TSet nat "tvalue list"
  | TMap nat nat "(tvalue \<times> tvalue) list"

fun tv_type :: "tvalue \<Rightarrow> nat" where
  "tv_type (TBool _) = T_BOOL"
| "tv_type (TByte _) = T_BYTE"
| "tv_type (TI16 _) = T_I16"
| "tv_type (TI32 _) = T_I32"
| "tv_type (TI64 _) = T_I64"
| "tv_type (TDouble _) = T_DOUBLE"
| "tv_type (TString _) = T_STRING"
| "tv_type (TStruct _) = T_STRUCT"
| "tv_type (TList _ _) = T_LIST"
| "tv_type (TSet _ _) = T_SET"
| "tv_type (TMap _ _ _) = T_MAP"

record message_header =
  mh_name :: "code_unit list"
  mh_type :: nat
  mh_seqid :: int

record field_header =
  fh_type :: nat
  fh_id :: int

record map_header =
  map_keyType :: nat
  map_valueType :: nat
  map_size :: int

record list_header =
  lh_elemType :: nat
  lh_size :: int

type_synonym 'w put = "'w \<Rightarrow> js_error + 'w"
type_synonym ('a, 'r) get = "'r \<Rightarrow> js_error + 'a \<times> 'r"

record ('w, 'r) protocol =
  writeMessageBegin :: "code_unit list \<Rightarrow> nat \<Rightarrow> int \<Rightarrow> 'w put"
  writeMessageEnd :: "'w put"
  writeStructBegin :: "'w put"
  writeStructEnd :: "'w put"
  writeFieldBegin :: "nat \<Rightarrow> int \<Rightarrow> 'w put"
  writeFieldEnd :: "'w put"
  writeFieldStop :: "'w put"
  writeMapBegin :: "nat \<Rightarrow> nat \<Rightarrow> int \<Rightarrow> 'w put"
  writeMapEnd :: "'w put"
  writeListBegin :: "nat \<Rightarrow> int \<Rightarrow> 'w put"
  writeListEnd :: "'w put"
  writeSetBegin :: "nat \<Rightarrow> int \<Rightarrow> 'w put"
  writeSetEnd :: "'w put"
  writeBool :: "bool \<Rightarrow> 'w put"
  writeByte :: "int \<Rightarrow> 'w put"
  writeI16 :: "int \<Rightarrow> 'w put"
  writeI32 :: "int \<Rightarrow> 'w put"
  writeI64 :: "int \<Rightarrow> 'w put"
  writeDouble :: "u64 \<Rightarrow> 'w put"
  writeString :: "code_unit list \<Rightarrow> 'w put"
  writeBinary :: "byte list \<Rightarrow> 'w put"
  readMessageBegin :: "(message_header, 'r) get"
  readMessageEnd :: "(unit, 'r) get"
  readStructBegin :: "(unit, 'r) get"
  readStructEnd :: "(unit, 'r) get"
  readFieldBegin :: "(field_header, 'r) get"
  readFieldEnd :: "(unit, 'r) get"
  readMapBegin :: "(map_header, 'r) get"
  readMapEnd :: "(unit, 'r) get"
  readListBegin :: "(list_header, 'r) get"
  readListEnd :: "(unit, 'r) get"
  readSetBegin :: "(list_header, 'r) get"
  readSetEnd :: "(unit, 'r) get"
  readBool :: "(bool, 'r) get"
  readByte :: "(int, 'r) get"
  readI16 :: "(int, 'r) get"
  readI32 :: "(int, 'r) get"
  readI64 :: "(int, 'r) get"
  readDouble :: "(u64, 'r) get"
  readStr :: "(code_unit list, 'r) get"
  readBinary :: "(byte list, 'r) get"

subsection \<open>Writing values\<close>

function (sequential) writeValue :: "('w, 'r) protocol \<Rightarrow> tvalue \<Rightarrow> 'w put"
  and writeItems :: "('w, 'r) protocol \<Rightarrow> tvalue list \<Rightarrow> 'w put"
  and writeFields :: "('w, 'r) protocol \<Rightarrow> (int \<times> tvalue) list \<Rightarrow> 'w put"
  and writeEntries :: "('w, 'r) protocol \<Rightarrow> (tvalue \<times> tvalue) list \<Rightarrow> 'w put" where
  "writeValue p (TBool b) w = writeBool p b w"
| "writeValue p (TByte v) w = writeByte p v w"
| "writeValue p (TI16 v) w = writeI16 p v w"
| "writeValue p (TI32 v) w = writeI32 p v w"
| "writeValue p (TI64 v) w = writeI64 p v w"
| "writeValue p (TDouble v) w = writeDouble p v w"
| "writeValue p (TString s) w = writeString p s w"
| "writeValue p (TStruct fs) w =
     bindR (writeStructBegin p w) (\<lambda>w.
     bindR (writeFields p fs w) (\<lambda>w.
     bindR (writeFieldStop p w) (writeStructEnd p)))"
| "writeValue p (TList elemType vs) w =
     bindR (writeListBegin p elemType (int (length vs)) w) (\<lambda>w.
     bindR (writeItems p vs w) (writeListEnd p))"
| "writeValue p (TSet elemType vs) w =
     bindR (writeSetBegin p elemType (int (length vs)) w) (\<lambda>w.
     bindR (writeItems p vs w) (writeSetEnd p))"
| "writeValue p (TMap keyType valueType entries) w =
     bindR (writeMapBegin p keyType valueType (int (length entries)) w) (\<lambda>w.
     bindR (writeEntries p entries w) (writeMapEnd p))"
| "writeItems p [] w = Inr w"
| "writeItems p (v # vs) w = bindR (writeValue p v w) (writeItems p vs)"
| "writeFields p [] w = Inr w"
| "writeFields p ((i, v) # fs) w =
     bindR (writeFieldBegin p (tv_type v) i w) (\<lambda>w.
     bindR (writeValue p v w) (\<lambda>w.
     bindR (writeFieldEnd p w) (writeFields p fs)))"
| "writeEntries p [] w = Inr w"
| "writeEntries p ((k, v) # entries) w =
     bindR (writeValue p k w) (\<lambda>w. bindR (writeValue p v w) (writeEntries p entries))"
  by pat_completeness auto
termination
  by (relation "measure (case_sum
      (case_sum (\<lambda>(p, v, w). size v) (\<lambda>(p, vs, w). size_list size vs))
      (case_sum (\<lambda>(p, fs, w). size_list (size_prod (\<lambda>_. 0) size) fs)
        (\<lambda>(p, es, w). size_list (size_prod size size) es)))") simp_all

definition writeStruct :: "('w, 'r) protocol \<Rightarrow> (int \<times> tvalue) list \<Rightarrow> 'w put" where
  "writeStruct p fs w =
     bindR (writeStructBegin p w) (\<lambda>w.
     bindR (writeFields p fs w) (\<lambda>w.
     bindR (writeFieldStop p w) (writeStructEnd p)))"

subsection \<open>Reading and skipping values\<close>

text \<open>\<open>Map.prototype.set\<close>: an existing key keeps its place.\<close>

fun map_set :: "'k \<Rightarrow> 'v \<Rightarrow> ('k \<times> 'v) list \<Rightarrow> ('k \<times> 'v) list" where
  "map_set k v [] = [(k, v)]"
| "map_set k v ((k', v') # m) = (if k' = k then (k, v) # m else (k', v') # map_set k v m)"

function (sequential) readValue :: "('w, 'r) protocol \<Rightarrow> nat \<Rightarrow> nat \<Rightarrow> (tvalue, 'r) get"
  and readItems :: "('w, 'r) protocol \<Rightarrow> nat \<Rightarrow> nat \<Rightarrow> nat \<Rightarrow> (tvalue list, 'r) get"
  and readFields :: "('w, 'r) protocol \<Rightarrow> nat \<Rightarrow> (int \<times> tvalue) list \<Rightarrow> ((int \<times> tvalue) list, 'r) get"
  and readEntries :: "('w, 'r) protocol \<Rightarrow> nat \<Rightarrow> nat \<Rightarrow> nat \<Rightarrow> nat \<Rightarrow>
    ((tvalue \<times> tvalue) list, 'r) get" where
  "readValue p 0 t r = Inl OutOfFuel"
| "readValue p (Suc n) t r =
     (if t = T_BOOL then bindR (readBool p r) (\<lambda>(v, r). Inr (TBool v, r))
      else if t = T_BYTE then bindR (readByte p r) (\<lambda>(v, r). Inr (TByte v, r))
      else if t = T_I16 then bindR (readI16 p r) (\<lambda>(v, r). Inr (TI16 v, r))
      else if t = T_I32 then bindR (readI32 p r) (\<lambda>(v, r). Inr (TI32 v, r))
      else if t = T_I64 then bindR (readI64 p r) (\<lambda>(v, r). Inr (TI64 v, r))
      else if t = T_DOUBLE then bindR (readDouble p r) (\<lambda>(v, r). Inr (TDouble v, r))
      else if t = T_STRING then bindR (readStr p r) (\<lambda>(v, r). Inr (TString v, r))
      else if t = T_STRUCT then
        bindR (readStructBegin p r) (\<lambda>(_, r).
        bindR (readFields p n [] r) (\<lambda>(fs, r).
        bindR (readStructEnd p r) (\<lambda>(_, r). Inr (TStruct fs, r))))
      else if t = T_LIST then
        bindR (readListBegin p r) (\<lambda>(h, r).
        bindR (readItems p n (nat (lh_size h)) (lh_elemType h) r) (\<lambda>(vs, r).
        bindR (readListEnd p r) (\<lambda>(_, r). Inr (TList (lh_elemType h) vs, r))))
      else if t = T_SET then
        bindR (readSetBegin p r) (\<lambda>(h, r).
        bindR (readItems p n (nat (lh_size h)) (lh_elemType h) r) (\<lambda>(vs, r).
        bindR (readSetEnd p r) (\<lambda>(_, r). Inr (TSet (lh_elemType h) vs, r))))
      else if t = T_MAP then
        bindR (readMapBegin p r) (\<lambda>(h, r).
        bindR (readEntries p n (nat (map_size h)) (map_keyType h) (map_valueType h) r) (\<lambda>(es, r).
        bindR (readMapEnd p r) (\<lambda>(_, r). Inr (TMap (map_keyType h) (map_valueType h) es, r))))
      else Inl (CannotReadType t))"
| "readItems p 0 k t r = Inl OutOfFuel"
| "readItems p (Suc n) k t r =
     (if k = 0 then Inr ([], r)
      else bindR (readValue p n t r) (\<lambda>(v, r).
           bindR (readItems p n (k - 1) t r) (\<lambda>(vs, r). Inr (v # vs, r))))"
| "readFields p 0 fs r = Inl OutOfFuel"
| "readFields p (Suc n) fs r =
     bindR (readFieldBegin p r) (\<lambda>(f, r).
     if fh_type f = T_STOP then Inr (fs, r)
     else bindR (readValue p n (fh_type f) r) (\<lambda>(v, r).
          bindR (readFieldEnd p r) (\<lambda>(_, r). readFields p n (map_set (fh_id f) v fs) r)))"
| "readEntries p 0 k kt vt r = Inl OutOfFuel"
| "readEntries p (Suc n) k kt vt r =
     (if k = 0 then Inr ([], r)
      else bindR (readValue p n kt r) (\<lambda>(key, r).
           bindR (readValue p n vt r) (\<lambda>(v, r).
           bindR (readEntries p n (k - 1) kt vt r) (\<lambda>(es, r). Inr ((key, v) # es, r)))))"
  by pat_completeness auto
termination
  by (relation "measure (case_sum
      (case_sum (\<lambda>(p, n, t, r). n) (\<lambda>(p, n, k, t, r). n))
      (case_sum (\<lambda>(p, n, fs, r). n) (\<lambda>(p, n, k, kt, vt, r). n)))") simp_all

definition readStruct :: "('w, 'r) protocol \<Rightarrow> nat \<Rightarrow> ((int \<times> tvalue) list, 'r) get" where
  "readStruct p fuel r =
     bindR (readStructBegin p r) (\<lambda>(_, r).
     bindR (readFields p fuel [] r) (\<lambda>(fs, r).
     bindR (readStructEnd p r) (\<lambda>(_, r). Inr (fs, r))))"

function (sequential) skip :: "('w, 'r) protocol \<Rightarrow> nat \<Rightarrow> nat \<Rightarrow> (unit, 'r) get"
  and skipItems :: "('w, 'r) protocol \<Rightarrow> nat \<Rightarrow> nat \<Rightarrow> nat \<Rightarrow> (unit, 'r) get"
  and skipFields :: "('w, 'r) protocol \<Rightarrow> nat \<Rightarrow> (unit, 'r) get"
  and skipEntries :: "('w, 'r) protocol \<Rightarrow> nat \<Rightarrow> nat \<Rightarrow> nat \<Rightarrow> nat \<Rightarrow> (unit, 'r) get" where
  "skip p 0 t r = Inl OutOfFuel"
| "skip p (Suc n) t r =
     (if t = T_BOOL then bindR (readBool p r) (\<lambda>(_, r). Inr ((), r))
      else if t = T_BYTE then bindR (readByte p r) (\<lambda>(_, r). Inr ((), r))
      else if t = T_I16 then bindR (readI16 p r) (\<lambda>(_, r). Inr ((), r))
      else if t = T_I32 then bindR (readI32 p r) (\<lambda>(_, r). Inr ((), r))
      else if t = T_I64 then bindR (readI64 p r) (\<lambda>(_, r). Inr ((), r))
      else if t = T_DOUBLE then bindR (readDouble p r) (\<lambda>(_, r). Inr ((), r))
      else if t = T_STRING then bindR (readBinary p r) (\<lambda>(_, r). Inr ((), r))
      else if t = T_STRUCT then
        bindR (readStructBegin p r) (\<lambda>(_, r).
        bindR (skipFields p n r) (\<lambda>(_, r). readStructEnd p r))
      else if t = T_MAP then
        bindR (readMapBegin p r) (\<lambda>(h, r).
        bindR (skipEntries p n (nat (map_size h)) (map_keyType h) (map_valueType h) r) (\<lambda>(_, r).
          readMapEnd p r))
      else if t = T_SET then
        bindR (readSetBegin p r) (\<lambda>(h, r).
        bindR (skipItems p n (nat (lh_size h)) (lh_elemType h) r) (\<lambda>(_, r). readSetEnd p r))
      else if t = T_LIST then
        bindR (readListBegin p r) (\<lambda>(h, r).
        bindR (skipItems p n (nat (lh_size h)) (lh_elemType h) r) (\<lambda>(_, r). readListEnd p r))
      else Inl (CannotSkipType t))"
| "skipItems p 0 k t r = Inl OutOfFuel"
| "skipItems p (Suc n) k t r =
     (if k = 0 then Inr ((), r)
      else bindR (skip p n t r) (\<lambda>(_, r). skipItems p n (k - 1) t r))"
| "skipFields p 0 r = Inl OutOfFuel"
| "skipFields p (Suc n) r =
     bindR (readFieldBegin p r) (\<lambda>(f, r).
     if fh_type f = T_STOP then Inr ((), r)
     else bindR (skip p n (fh_type f) r) (\<lambda>(_, r).
          bindR (readFieldEnd p r) (\<lambda>(_, r). skipFields p n r)))"
| "skipEntries p 0 k kt vt r = Inl OutOfFuel"
| "skipEntries p (Suc n) k kt vt r =
     (if k = 0 then Inr ((), r)
      else bindR (skip p n kt r) (\<lambda>(_, r).
           bindR (skip p n vt r) (\<lambda>(_, r). skipEntries p n (k - 1) kt vt r)))"
  by pat_completeness auto
termination
  by (relation "measure (case_sum
      (case_sum (\<lambda>(p, n, t, r). n) (\<lambda>(p, n, k, t, r). n))
      (case_sum (\<lambda>(p, n, r). n) (\<lambda>(p, n, k, kt, vt, r). n)))") simp_all


text \<open>The calls a message exchange makes: the envelope around one value.\<close>

definition writeMessage :: "('w, 'r) protocol \<Rightarrow> code_unit list \<Rightarrow> nat \<Rightarrow> int \<Rightarrow> tvalue \<Rightarrow> 'w put" where
  "writeMessage p name type seqid v w =
     bindR (writeMessageBegin p name type seqid w) (\<lambda>w. bindR (writeValue p v w) (writeMessageEnd p))"

definition readMessage :: "('w, 'r) protocol \<Rightarrow> nat \<Rightarrow> nat \<Rightarrow> (message_header \<times> tvalue, 'r) get" where
  "readMessage p fuel t r =
     bindR (readMessageBegin p r) (\<lambda>(h, r). bindR (readValue p fuel t r) (\<lambda>(v, r).
     bindR (readMessageEnd p r) (\<lambda>(_, r). Inr ((h, v), r))))"

subsection \<open>The values that can be stored\<close>

text \<open>
  The invariant of a \<open>ThriftValue\<close> that the wire can carry: integers of their width, strings of
  well-formed UTF-16 with no leading byte order mark, distinct 16-bit field ids, containers whose
  elements have the declared types and whose size is a 31-bit integer. \<open>mapok\<close> is what the
  protocol asks of a map header.
\<close>

definition stored_text :: "code_unit list \<Rightarrow> bool" where
  "stored_text s \<longleftrightarrow> storable_string s \<and> length (encodeUtf8 s) < 2 ^ 31"

fun storable :: "(nat \<Rightarrow> nat \<Rightarrow> nat \<Rightarrow> bool) \<Rightarrow> tvalue \<Rightarrow> bool" where
  "storable mapok (TBool b) = True"
| "storable mapok (TByte v) = int_range 8 v"
| "storable mapok (TI16 v) = int_range 16 v"
| "storable mapok (TI32 v) = int_range 32 v"
| "storable mapok (TI64 v) = int_range 64 v"
| "storable mapok (TDouble v) = True"
| "storable mapok (TString s) = stored_text s"
| "storable mapok (TStruct fs) =
     (distinct (map fst fs) \<and> (\<forall>(i, v) \<in> set fs. int_range 16 i \<and> storable mapok v))"
| "storable mapok (TList t vs) =
     (t \<in> value_types \<and> length vs < 2 ^ 31 \<and> (\<forall>v \<in> set vs. tv_type v = t \<and> storable mapok v))"
| "storable mapok (TSet t vs) =
     (t \<in> value_types \<and> length vs < 2 ^ 31 \<and> (\<forall>v \<in> set vs. tv_type v = t \<and> storable mapok v))"
| "storable mapok (TMap kt vt es) =
     (mapok kt vt (length es) \<and> length es < 2 ^ 31 \<and>
      (\<forall>(k, v) \<in> set es. tv_type k = kt \<and> storable mapok k \<and> tv_type v = vt \<and> storable mapok v))"

text \<open>The fuel that reading or skipping a value takes.\<close>

function (sequential) value_fuel :: "tvalue \<Rightarrow> nat"
  and items_fuel :: "tvalue list \<Rightarrow> nat"
  and fields_fuel :: "(int \<times> tvalue) list \<Rightarrow> nat"
  and entries_fuel :: "(tvalue \<times> tvalue) list \<Rightarrow> nat" where
  "value_fuel (TStruct fs) = Suc (fields_fuel fs)"
| "value_fuel (TList t vs) = Suc (items_fuel vs)"
| "value_fuel (TSet t vs) = Suc (items_fuel vs)"
| "value_fuel (TMap kt vt es) = Suc (entries_fuel es)"
| "value_fuel _ = 1"
| "items_fuel [] = 1"
| "items_fuel (v # vs) = Suc (max (value_fuel v) (items_fuel vs))"
| "fields_fuel [] = 1"
| "fields_fuel ((i, v) # fs) = Suc (max (value_fuel v) (fields_fuel fs))"
| "entries_fuel [] = 1"
| "entries_fuel ((k, v) # es) = Suc (max (max (value_fuel k) (value_fuel v)) (entries_fuel es))"
  by pat_completeness auto
termination
  by (relation "measure (case_sum (case_sum size (size_list size))
      (case_sum (size_list (size_prod (\<lambda>_. 0) size)) (size_list (size_prod size size))))") simp_all

lemma tv_type_value_types [simp]: "tv_type v \<in> value_types"
  by (cases v) (simp_all add: value_types_def)

lemma stored_text_ascii:
  assumes "list_all (\<lambda>u. unat u < 128) s" "length s < 2 ^ 31"
  shows "stored_text s"
proof -
  have "concat (map (units_of_cp \<circ> unat) s) = s" using assms(1)
    by (induction s) (simp_all add: units_of_cp_def)
  then have "toWellFormed s = s"
    using units_of_code_points [of s] code_points_ascii [OF assms(1)] by simp
  moreover have "take 1 s \<noteq> [65279]" using assms(1) by (cases s) auto
  moreover have "length (encodeUtf8 s) = length s" using assms(1) by (simp add: encodeUtf8_def)
  ultimately show ?thesis using assms(2) by (simp add: stored_text_def storable_string_def)
qed

text \<open>A value with every kind of header, for the examples.\<close>

definition sample_value :: tvalue where
  "sample_value = TStruct [(1, TBool True), (20, TList 8 [TI32 (- 5), TI32 7]),
     (2, TStruct [(3, TBool False), (4, TMap 11 10 [(TString [97], TI64 7)])])]"

subsection \<open>The contract of a protocol\<close>

text \<open>
  \<open>at w rest\<close> is the reader in step with the writer \<open>w\<close>: it has consumed the bytes \<open>out w\<close> and
  \<open>rest\<close> is still to come. \<open>idle w\<close> says that no header is waiting to be written.
  \<open>sends w wr rd x\<close>: the write \<open>wr\<close> from \<open>w\<close> succeeds and appends bytes from which \<open>rd\<close> reads \<open>x\<close>,
  leaving the reader in step with the new writer.
\<close>

definition sends_on :: "('w \<Rightarrow> byte list) \<Rightarrow> ('w \<Rightarrow> byte list \<Rightarrow> 'r) \<Rightarrow> ('w \<Rightarrow> bool) \<Rightarrow>
    'w \<Rightarrow> js_error + 'w \<Rightarrow> ('x, 'r) get \<Rightarrow> 'x \<Rightarrow> bool" where
  "sends_on out at idle w wr rd x \<longleftrightarrow>
     (\<exists>w' bs. wr = Inr w' \<and> idle w' \<and> out w' = out w @ bs \<and>
       (\<forall>rest. rd (at w (bs @ rest)) = Inr (x, at w' rest)))"

lemma sends_on_bind:
  assumes "sends_on out at idle w wr rd x"
    and "\<And>w1. wr = Inr w1 \<Longrightarrow> idle w1 \<Longrightarrow> sends_on out at idle w1 (k w1) (\<lambda>r. j (x, r)) y"
  shows "sends_on out at idle w (bindR wr k) (\<lambda>r. bindR (rd r) j) y"
proof -
  from assms(1) obtain w1 bs1 where 1: "wr = Inr w1" "idle w1" "out w1 = out w @ bs1"
      "\<And>rest. rd (at w (bs1 @ rest)) = Inr (x, at w1 rest)"
    by (auto simp: sends_on_def)
  from assms(2) [OF 1(1,2)] obtain w2 bs2 where 2: "k w1 = Inr w2" "idle w2"
      "out w2 = out w1 @ bs2" "\<And>rest. j (x, at w1 (bs2 @ rest)) = Inr (y, at w2 rest)"
    by (auto simp: sends_on_def)
  show ?thesis
    unfolding sends_on_def using 1 2 by (intro exI [of _ w2] exI [of _ "bs1 @ bs2"]) simp
qed

lemma sends_on_return: "idle w \<Longrightarrow> sends_on out at idle w (Inr w) (\<lambda>r. Inr (x, r)) x"
  by (auto simp: sends_on_def)

lemma sends_on_result:
  assumes "sends_on out at idle w wr rd x" "\<And>r. j (x, r) = Inr (y, r)"
  shows "sends_on out at idle w wr (\<lambda>r. bindR (rd r) j) y"
  using assms unfolding sends_on_def by auto

lemma sends_on_map:
  "sends_on out at idle w wr rd x \<Longrightarrow>
     sends_on out at idle w wr (\<lambda>r. bindR (rd r) (\<lambda>(v, r). Inr (f v, r))) (f x)"
  by (rule sends_on_result) auto

lemma sends_on_unique:
  assumes "sends_on out at idle w wr rd x" "sends_on out at idle w wr rd' x'" "wr = Inr w'"
  obtains bs where "out w' = out w @ bs" "idle w'" "\<And>rest. rd (at w (bs @ rest)) = Inr (x, at w' rest)"
     "\<And>rest. rd' (at w (bs @ rest)) = Inr (x', at w' rest)"
  using assms unfolding sends_on_def by auto

text \<open>The readers as functions of the reader alone, one equation per type.\<close>

lemma readValue_fun:
  "readValue p (Suc n) T_BOOL = (\<lambda>r. bindR (readBool p r) (\<lambda>(v, r). Inr (TBool v, r)))"
  "readValue p (Suc n) T_BYTE = (\<lambda>r. bindR (readByte p r) (\<lambda>(v, r). Inr (TByte v, r)))"
  "readValue p (Suc n) T_I16 = (\<lambda>r. bindR (readI16 p r) (\<lambda>(v, r). Inr (TI16 v, r)))"
  "readValue p (Suc n) T_I32 = (\<lambda>r. bindR (readI32 p r) (\<lambda>(v, r). Inr (TI32 v, r)))"
  "readValue p (Suc n) T_I64 = (\<lambda>r. bindR (readI64 p r) (\<lambda>(v, r). Inr (TI64 v, r)))"
  "readValue p (Suc n) T_DOUBLE = (\<lambda>r. bindR (readDouble p r) (\<lambda>(v, r). Inr (TDouble v, r)))"
  "readValue p (Suc n) T_STRING = (\<lambda>r. bindR (readStr p r) (\<lambda>(v, r). Inr (TString v, r)))"
  "readValue p (Suc n) T_STRUCT = (\<lambda>r. bindR (readStructBegin p r) (\<lambda>(_, r).
     bindR (readFields p n [] r) (\<lambda>(fs, r).
     bindR (readStructEnd p r) (\<lambda>(_, r). Inr (TStruct fs, r)))))"
  "readValue p (Suc n) T_LIST = (\<lambda>r. bindR (readListBegin p r) (\<lambda>(h, r).
     bindR (readItems p n (nat (lh_size h)) (lh_elemType h) r) (\<lambda>(vs, r).
     bindR (readListEnd p r) (\<lambda>(_, r). Inr (TList (lh_elemType h) vs, r)))))"
  "readValue p (Suc n) T_SET = (\<lambda>r. bindR (readSetBegin p r) (\<lambda>(h, r).
     bindR (readItems p n (nat (lh_size h)) (lh_elemType h) r) (\<lambda>(vs, r).
     bindR (readSetEnd p r) (\<lambda>(_, r). Inr (TSet (lh_elemType h) vs, r)))))"
  "readValue p (Suc n) T_MAP = (\<lambda>r. bindR (readMapBegin p r) (\<lambda>(h, r).
     bindR (readEntries p n (nat (map_size h)) (map_keyType h) (map_valueType h) r) (\<lambda>(es, r).
     bindR (readMapEnd p r) (\<lambda>(_, r). Inr (TMap (map_keyType h) (map_valueType h) es, r)))))"
  "readItems p (Suc n) (Suc k) t = (\<lambda>r. bindR (readValue p n t r) (\<lambda>(v, r).
     bindR (readItems p n k t r) (\<lambda>(vs, r). Inr (v # vs, r))))"
  "readItems p (Suc n) 0 t = (\<lambda>r. Inr ([], r))"
  "readFields p (Suc n) fs = (\<lambda>r. bindR (readFieldBegin p r) (\<lambda>(h, r).
     if fh_type h = T_STOP then Inr (fs, r) else bindR (readValue p n (fh_type h) r) (\<lambda>(v, r).
     bindR (readFieldEnd p r) (\<lambda>(_, r). readFields p n (map_set (fh_id h) v fs) r))))"
  "readEntries p (Suc n) (Suc k) kt vt = (\<lambda>r. bindR (readValue p n kt r) (\<lambda>(key, r).
     bindR (readValue p n vt r) (\<lambda>(v, r).
     bindR (readEntries p n k kt vt r) (\<lambda>(es, r). Inr ((key, v) # es, r)))))"
  "readEntries p (Suc n) 0 kt vt = (\<lambda>r. Inr ([], r))"
  by (rule ext, simp)+

lemma map_set_fresh: "k \<notin> fst ` set m \<Longrightarrow> map_set k v m = m @ [(k, v)]"
  by (induction m) auto

text \<open>Where a read leaves the reader, if it returns.\<close>

definition stops_at :: "js_error + 'a \<times> 'r \<Rightarrow> 'r option" where
  "stops_at x = (case x of Inl _ \<Rightarrow> None | Inr (_, r) \<Rightarrow> Some r)"

lemma stops_at_simps [simp]: "stops_at (Inl e) = None" "stops_at (Inr (x, r)) = Some r"
  by (simp_all add: stops_at_def)

lemma stops_at_eq_Some:
  "stops_at (x :: js_error + unit \<times> 'r) = Some r \<longleftrightarrow> x = Inr ((), r)"
  by (cases x) auto

lemma stops_at_bind:
  assumes "stops_at x = stops_at y" "\<And>u v r. x = Inr (u, r) \<Longrightarrow> y = Inr (v, r) \<Longrightarrow> stops_at (f (u, r)) = stops_at (g (v, r))"
  shows "stops_at (bindR x f) = stops_at (bindR y g)"
  using assms by (cases x; cases y) auto

lemma stops_at_bind_same:
  assumes "\<And>u r. x = Inr (u, r) \<Longrightarrow> stops_at (f (u, r)) = stops_at (g (u, r))"
  shows "stops_at (bindR x f) = stops_at (bindR x g)"
  using assms by (cases x) auto

lemma stops_at_unit: "stops_at (bindR x (\<lambda>(u, r). Inr (h u, r))) = stops_at x"
  by (cases x) auto

text \<open>All that \<open>skip\<close> needs of a protocol: a string ends where its bytes end.\<close>

locale thrift_reader =
  fixes P :: "('w, 'r) protocol"
  assumes string_view: "stops_at (readStr P r) = stops_at (readBinary P r)"
begin

lemma skip_stops_with_read:
  "stops_at (skip P n t r) = stops_at (readValue P n t r)"
  "stops_at (skipItems P n k t r) = stops_at (readItems P n k t r)"
  "stops_at (skipFields P n r) = stops_at (readFields P n fs r)"
  "stops_at (skipEntries P n k kt vt r) = stops_at (readEntries P n k kt vt r)"
proof (induction n arbitrary: t r k fs kt vt)
  case (Suc n)
  {
    case 1
    show ?case by (auto simp: stops_at_unit string_view intro!: stops_at_bind_same stops_at_bind Suc.IH)
  next
    case 2
    show ?case by (auto intro!: stops_at_bind Suc.IH simp: stops_at_unit)
  next
    case 3
    show ?case by (auto intro!: stops_at_bind_same stops_at_bind Suc.IH)
  next
    case 4
    show ?case by (auto intro!: stops_at_bind Suc.IH simp: stops_at_unit)
  }
qed simp_all

end

text \<open>
  Reading ends on every input. \<open>rem\<close> measures what the reader has left; every value, field header
  and container header consumes some of it, so the number of bytes bounds the fuel.
\<close>

definition ends :: "('r \<Rightarrow> nat) \<Rightarrow> nat \<Rightarrow> 'r \<Rightarrow> js_error + 'x \<times> 'r \<Rightarrow> bool" where
  "ends rem d r x = (case x of Inl e \<Rightarrow> e \<noteq> OutOfFuel | Inr (_, r') \<Rightarrow> rem r' + d \<le> rem r)"

lemma ends_simps [simp]:
  "ends rem d r (Inl e) \<longleftrightarrow> e \<noteq> OutOfFuel"
  "ends rem d r (Inr (x, r')) \<longleftrightarrow> rem r' + d \<le> rem r"
  by (simp_all add: ends_def)

lemma ends_bind:
  assumes "ends rem d r x" "d' \<le> d + e"
    and "\<And>u r'. x = Inr (u, r') \<Longrightarrow> rem r' + d \<le> rem r \<Longrightarrow> ends rem e r' (f (u, r'))"
  shows "ends rem d' r (bindR x f)"
proof (cases x)
  case (Inr p)
  obtain u r' where p: "p = (u, r')" by (cases p)
  with assms(1) Inr have "rem r' + d \<le> rem r" by simp
  with assms(2) assms(3) [of u r'] Inr p show ?thesis by (cases "f (u, r')") auto
qed (use assms in simp)

lemma ends_weaken: "ends rem 1 r x \<Longrightarrow> ends rem 0 r x"
  by (cases x) auto

text \<open>A read of the cursor that returns has consumed at least one byte and fails only with an
  error of its own.\<close>

definition consumes :: "'a read \<Rightarrow> bool" where
  "consumes rd \<longleftrightarrow> (\<forall>r. ends rd_remaining 1 r (rd r))"

lemma consumes_fixed:
  assumes "0 < n" "\<And>r. rd r = bindR (rd_ensure n r) (\<lambda>_. Inr (f r, rd_advance n r))"
  shows "consumes rd"
  using assms by (auto simp: consumes_def rd_ensure_def rd_advance_def rd_remaining_def)

lemma consumes_basic [simp]:
  "consumes readU8" "consumes readI8" "consumes readI16BE" "consumes readI32BE" "consumes readI64BE"
  "consumes readF64BE" "consumes readF64LE"
  by (rule consumes_fixed; simp add: readU8_def readI8_def readI16BE_def readI32BE_def readI64BE_def
      readF64BE_def readF64LE_def; fail)+

lemma ends_readU8: "ends rd_remaining 1 r (readU8 r)"
  using consumes_basic(1) by (simp add: consumes_def)

lemma ends_varint_loop: "ends rd_remaining 1 r (varint_loop acc shift r)"
proof (induction acc shift r rule: varint_loop.induct)
  case (1 acc shift r)
  show ?case
    unfolding varint_loop.simps [of acc shift r]
  proof (rule ends_bind [OF ends_readU8, where e = 0])
    fix u r' assume "readU8 r = Inr (u, r')"
    from "1" [OF this refl refl] show "ends rd_remaining 0 r' (case (u, r') of (b, r') \<Rightarrow>
        let result' = acc OR push_bit shift (b AND 127) in
        if b AND 128 = 0 then Inr (result', r')
        else if shift + 7 > 63 then Inl (VarintOverflow (rd_pos r'))
        else varint_loop result' (shift + 7) r')"
      by (auto simp: Let_def intro: ends_weaken)
  qed simp
qed

lemma consumes_bind:
  assumes "consumes rd" "\<And>u r. ends rd_remaining 0 r (f (u, r))"
  shows "consumes (\<lambda>r. bindR (rd r) f)"
  using assms unfolding consumes_def by (auto intro!: ends_bind [where d = 1 and e = 0])

lemma consumes_varints [simp]:
  "consumes readVarint" "consumes readVarint32" "consumes readZigzag32" "consumes readZigzag64"
proof -
  have "consumes (varint_loop 0 0)" by (simp add: consumes_def ends_varint_loop del: One_nat_def)
  then show 1: "consumes readVarint" by (auto simp: readVarint_def [abs_def] intro: consumes_bind)
  then show 2: "consumes readVarint32" by (auto simp: readVarint32_def [abs_def] intro: consumes_bind)
  show "consumes readZigzag32" using 2 by (auto simp: readZigzag32_def [abs_def] intro: consumes_bind)
  show "consumes readZigzag64" using 1 by (auto simp: readZigzag64_def [abs_def] intro: consumes_bind)
qed

lemma ends_readBytes: "ends rd_remaining 0 r (readBytes n r)"
  by (auto simp: readBytes_def rd_ensure_def rd_advance_def rd_remaining_def)

lemma ends_readString: "ends rd_remaining 0 r (readString n r)"
  unfolding readString_def by (rule ends_bind [OF ends_readBytes, where e = 0]) auto

locale thrift_reader_progress = thrift_reader P
  for P :: "('w, 'r) protocol" +
  fixes rem :: "'r \<Rightarrow> nat"
  assumes ends_scalar:
      "ends rem 1 r (readBool P r)" "ends rem 1 r (readByte P r)" "ends rem 1 r (readI16 P r)"
      "ends rem 1 r (readI32 P r)" "ends rem 1 r (readI64 P r)" "ends rem 1 r (readDouble P r)"
      "ends rem 1 r (readStr P r)"
    and ends_header:
      "ends rem 1 r (readFieldBegin P r)" "ends rem 1 r (readListBegin P r)"
      "ends rem 1 r (readSetBegin P r)" "ends rem 1 r (readMapBegin P r)"
    and ends_marker:
      "ends rem 0 r (readStructBegin P r)" "ends rem 0 r (readStructEnd P r)"
      "ends rem 0 r (readFieldEnd P r)" "ends rem 0 r (readListEnd P r)"
      "ends rem 0 r (readSetEnd P r)" "ends rem 0 r (readMapEnd P r)"
begin

lemma read_ends:
  "2 * rem r + 2 \<le> n \<Longrightarrow> ends rem 1 r (readValue P n t r)"
  "2 * rem r + 3 \<le> n \<Longrightarrow> ends rem 0 r (readItems P n k t r)"
  "2 * rem r + 1 \<le> n \<Longrightarrow> ends rem 1 r (readFields P n fs r)"
  "2 * rem r + 3 \<le> n \<Longrightarrow> ends rem 0 r (readEntries P n k kt vt r)"
proof (induction n arbitrary: t r k fs kt vt)
  case (Suc n)
  {
    case 1
    then show ?case
      by (auto intro!: ends_bind [OF ends_scalar(1)] ends_bind [OF ends_scalar(2)]
        ends_bind [OF ends_scalar(3)] ends_bind [OF ends_scalar(4)] ends_bind [OF ends_scalar(5)]
        ends_bind [OF ends_scalar(6)] ends_bind [OF ends_scalar(7)]
        ends_bind [OF ends_header(2)] ends_bind [OF ends_header(3)] ends_bind [OF ends_header(4)]
        ends_bind [OF ends_marker(1)] ends_bind [OF ends_marker(2)] ends_bind [OF ends_marker(4)]
        ends_bind [OF ends_marker(5)] ends_bind [OF ends_marker(6)]
        ends_bind [OF Suc.IH(2)] ends_bind [OF Suc.IH(3)] ends_bind [OF Suc.IH(4)])
  next
    case 2
    then show ?case by (auto intro!: ends_bind [OF Suc.IH(1)] ends_bind [OF Suc.IH(2)])
  next
    case 3
    then show ?case 
      by (auto intro!: ends_bind [OF ends_header(1), where e = 0] ends_bind [OF Suc.IH(1), where e = 0]
        ends_bind [OF ends_marker(3), where e = 0] ends_weaken [OF Suc.IH(3)])
  next
    case 4
    then show ?case by (auto intro!: ends_bind [OF Suc.IH(1)] ends_bind [OF Suc.IH(4)])
  }
qed simp_all

end

locale thrift_protocol = thrift_reader P
  for P :: "('w, 'r) protocol" +
  fixes out :: "'w \<Rightarrow> byte list"
    and at :: "'w \<Rightarrow> byte list \<Rightarrow> 'r"
    and idle :: "'w \<Rightarrow> bool"
    and mapok :: "nat \<Rightarrow> nat \<Rightarrow> nat \<Rightarrow> bool"
  assumes bool: "idle w \<Longrightarrow> sends_on out at idle w (writeBool P b w) (readBool P) b"
    and byte: "idle w \<Longrightarrow> int_range 8 i \<Longrightarrow> sends_on out at idle w (writeByte P i w) (readByte P) i"
    and i16: "idle w \<Longrightarrow> int_range 16 i \<Longrightarrow> sends_on out at idle w (writeI16 P i w) (readI16 P) i"
    and i32: "idle w \<Longrightarrow> int_range 32 i \<Longrightarrow> sends_on out at idle w (writeI32 P i w) (readI32 P) i"
    and i64: "idle w \<Longrightarrow> int_range 64 i \<Longrightarrow> sends_on out at idle w (writeI64 P i w) (readI64 P) i"
    and double: "idle w \<Longrightarrow> sends_on out at idle w (writeDouble P d w) (readDouble P) d"
    and string: "idle w \<Longrightarrow> stored_text s \<Longrightarrow> sends_on out at idle w (writeString P s w) (readStr P) s"
    and binary: "idle w \<Longrightarrow> length bs < 2 ^ 31 \<Longrightarrow>
      sends_on out at idle w (writeBinary P bs w) (readBinary P) bs"
    and struct_begin: "idle w \<Longrightarrow> sends_on out at idle w (writeStructBegin P w) (readStructBegin P) ()"
    and struct_end: "idle w \<Longrightarrow> sends_on out at idle w (writeStructEnd P w) (readStructEnd P) ()"
    and field_begin: "idle w \<Longrightarrow> t \<in> value_types \<Longrightarrow> t \<noteq> T_BOOL \<Longrightarrow> int_range 16 i \<Longrightarrow>
      sends_on out at idle w (writeFieldBegin P t i w) (readFieldBegin P) \<lparr>fh_type = t, fh_id = i\<rparr>"
    and bool_field: "idle w \<Longrightarrow> int_range 16 i \<Longrightarrow>
      sends_on out at idle w (bindR (writeFieldBegin P T_BOOL i w) (writeBool P b))
        (\<lambda>r. bindR (readFieldBegin P r) (\<lambda>(f, r). bindR (readBool P r) (\<lambda>(v, r). Inr ((f, v), r))))
        (\<lparr>fh_type = T_BOOL, fh_id = i\<rparr>, b)"
    and field_end: "idle w \<Longrightarrow> sends_on out at idle w (writeFieldEnd P w) (readFieldEnd P) ()"
    and field_stop: "idle w \<Longrightarrow>
      sends_on out at idle w (writeFieldStop P w) (readFieldBegin P) \<lparr>fh_type = T_STOP, fh_id = 0\<rparr>"
    and list_begin: "idle w \<Longrightarrow> t \<in> value_types \<Longrightarrow> n < 2 ^ 31 \<Longrightarrow>
      sends_on out at idle w (writeListBegin P t (int n) w) (readListBegin P)
        \<lparr>lh_elemType = t, lh_size = int n\<rparr>"
    and list_end: "idle w \<Longrightarrow> sends_on out at idle w (writeListEnd P w) (readListEnd P) ()"
    and set_begin: "idle w \<Longrightarrow> t \<in> value_types \<Longrightarrow> n < 2 ^ 31 \<Longrightarrow>
      sends_on out at idle w (writeSetBegin P t (int n) w) (readSetBegin P)
        \<lparr>lh_elemType = t, lh_size = int n\<rparr>"
    and set_end: "idle w \<Longrightarrow> sends_on out at idle w (writeSetEnd P w) (readSetEnd P) ()"
    and map_begin: "idle w \<Longrightarrow> mapok kt vt n \<Longrightarrow> n < 2 ^ 31 \<Longrightarrow>
      sends_on out at idle w (writeMapBegin P kt vt (int n) w) (readMapBegin P)
        \<lparr>map_keyType = kt, map_valueType = vt, map_size = int n\<rparr>"
    and map_end: "idle w \<Longrightarrow> sends_on out at idle w (writeMapEnd P w) (readMapEnd P) ()"
    and message_begin: "idle w \<Longrightarrow> stored_text s \<Longrightarrow> m < 8 \<Longrightarrow> int_range 32 q \<Longrightarrow>
      sends_on out at idle w (writeMessageBegin P s m q w) (readMessageBegin P)
        \<lparr>mh_name = s, mh_type = m, mh_seqid = q\<rparr>"
    and message_end: "idle w \<Longrightarrow> sends_on out at idle w (writeMessageEnd P w) (readMessageEnd P) ()"
begin

abbreviation sends :: "'w \<Rightarrow> js_error + 'w \<Rightarrow> ('x, 'r) get \<Rightarrow> 'x \<Rightarrow> bool" where
  "sends \<equiv> sends_on out at idle"

text \<open>One turn of a loop over fields, for any way to read the value and to go on. A boolean is apart:
  its header is written with its value, so the reader passes through a state of its own.\<close>

lemma after_field:
  assumes "\<And>w. idle w \<Longrightarrow> sends w (wr w) (k x) y" "idle w"
  shows "sends w (bindR (writeFieldEnd P w) wr) (\<lambda>r. bindR (readFieldEnd P r) (\<lambda>(_, r). k x r)) y"
  by (rule sends_on_bind [OF field_end]) (auto intro: assms)

lemma other_field:
  assumes "idle w" "t \<in> value_types" "t \<noteq> T_BOOL" "int_range 16 i"
    and h: "h = \<lparr>fh_type = t, fh_id = i\<rparr>"
    and val: "\<And>w. idle w \<Longrightarrow> sends w (body w) (rd h) x"
    and more: "\<And>w. idle w \<Longrightarrow> sends w (wr w) (k h x) y"
  shows "sends w (bindR (writeFieldBegin P t i w) (\<lambda>w. bindR (body w) (\<lambda>w. bindR (writeFieldEnd P w) wr)))
     (\<lambda>r. bindR (readFieldBegin P r) (\<lambda>(h, r).
       if fh_type h = T_STOP then stop r else bindR (rd h r) (\<lambda>(x, r).
       bindR (readFieldEnd P r) (\<lambda>(_, r). k h x r)))) y"
proof -
  have "fh_type h \<noteq> T_STOP" using assms(2) by (auto simp: value_types_def h)
  then show ?thesis
    by (intro sends_on_bind [OF field_begin [OF assms(1-4)]])
      (auto simp: h [symmetric] intro!: sends_on_bind [OF val] after_field [of wr "k h"] more)
qed

lemma folded_field:
  assumes "idle w" "int_range 16 i"
    and h: "h = \<lparr>fh_type = T_BOOL, fh_id = i\<rparr>"
    and rd: "rd h = (\<lambda>r. bindR (readBool P r) (\<lambda>(v, r). Inr (f v, r)))"
    and more: "\<And>w. idle w \<Longrightarrow> sends w (wr w) (k h (f b)) y"
  shows "sends w (bindR (writeFieldBegin P T_BOOL i w) (\<lambda>w. bindR (writeBool P b w) (\<lambda>w.
       bindR (writeFieldEnd P w) wr)))
     (\<lambda>r. bindR (readFieldBegin P r) (\<lambda>(h, r).
       if fh_type h = T_STOP then stop r else bindR (rd h r) (\<lambda>(x, r).
       bindR (readFieldEnd P r) (\<lambda>(_, r). k h x r)))) y"
proof -
  from bool_field [OF assms(1,2), of b] obtain w1 bs1 where 1: "idle w1" "out w1 = out w @ bs1"
      "bindR (writeFieldBegin P T_BOOL i w) (writeBool P b) = Inr w1"
      "\<And>rest. \<exists>r. readFieldBegin P (at w (bs1 @ rest)) = Inr (h, r) \<and> readBool P r = Inr (b, at w1 rest)"
    unfolding sends_on_def h by (auto simp: result_simps split: prod.splits)
  from after_field [of wr "k h" "f b", OF more 1(1)] obtain w2 bs2 where 2: "idle w2"
      "out w2 = out w1 @ bs2" "bindR (writeFieldEnd P w1) wr = Inr w2"
      "\<And>rest. bindR (readFieldEnd P (at w1 (bs2 @ rest))) (\<lambda>(_, r). k h (f b) r) = Inr (y, at w2 rest)"
    by (auto simp: sends_on_def)
  show ?thesis
    unfolding sends_on_def
  proof (intro exI [of _ w2] exI [of _ "bs1 @ bs2"] conjI allI)
    show "bindR (writeFieldBegin P T_BOOL i w) (\<lambda>w. bindR (writeBool P b w) (\<lambda>w.
       bindR (writeFieldEnd P w) wr)) = Inr w2"
      using 1(3) 2(3) by (auto simp: result_simps)
    fix rest
    from 1(4) [of "bs2 @ rest"] obtain r where "readFieldBegin P (at w (bs1 @ bs2 @ rest)) = Inr (h, r)"
      "readBool P r = Inr (b, at w1 (bs2 @ rest))" by blast
    then show "bindR (readFieldBegin P (at w ((bs1 @ bs2) @ rest))) (\<lambda>(h, r).
       if fh_type h = T_STOP then stop r else bindR (rd h r) (\<lambda>(x, r).
       bindR (readFieldEnd P r) (\<lambda>(_, r). k h x r))) = Inr (y, at w2 rest)"
      using rd 2(4) h by simp
  qed (use 1 2 in simp_all)
qed

lemma scalar_sends:
  assumes "idle w" "storable mapok v" "1 \<le> n"
    and "\<And>fs. v \<noteq> TStruct fs" "\<And>t vs. v \<noteq> TList t vs" "\<And>t vs. v \<noteq> TSet t vs" "\<And>kt vt es. v \<noteq> TMap kt vt es"
  shows "sends w (writeValue P v w) (readValue P n (tv_type v)) v"
  using assms
  by (cases n; cases v; auto simp: readValue_fun simp del: readValue.simps
      intro!: sends_on_result bool byte i16 i32 i64 double string)

lemma container_sends:
  assumes "sends w wr rd h"
    and "\<And>w. idle w \<Longrightarrow> sends w (body w) (rdb h) x"
    and "\<And>w. idle w \<Longrightarrow> sends w (wend w) (\<lambda>r. fin h (x, r)) y"
  shows "sends w (bindR wr (\<lambda>w. bindR (body w) wend)) (\<lambda>r. bindR (rd r) (\<lambda>(h, r). bindR (rdb h r) (fin h))) y"
  by (rule sends_on_bind [OF assms(1)]) (auto intro!: sends_on_bind [OF assms(2)] assms(3))

lemma struct_sends:
  assumes "idle w" "\<And>w. idle w \<Longrightarrow> sends w (bindR (writeFields P fs w) (writeFieldStop P)) rd x"
    and "\<And>w. idle w \<Longrightarrow> sends w (writeStructEnd P w) (\<lambda>r. fin (x, r)) y"
  shows "sends w (writeValue P (TStruct fs) w)
    (\<lambda>r. bindR (readStructBegin P r) (\<lambda>(_, r). bindR (rd r) fin)) y"
  using container_sends [OF struct_begin [OF assms(1)] assms(2), of "writeStructEnd P" "\<lambda>_. fin"]
    assms(3)
  by (simp add: bindR_assoc)

lemma end_sends:
  assumes "\<And>w. idle w \<Longrightarrow> sends w (wr w) rd ()" "idle w"
  shows "sends w (wr w) (\<lambda>r. bindR (rd r) (\<lambda>(_, r). Inr (x, r))) x"
  by (rule sends_on_result [OF assms(1) [OF assms(2)]]) simp

lemma value_sends:
  "storable mapok v \<Longrightarrow> idle w \<Longrightarrow> value_fuel v \<le> n \<Longrightarrow>
     sends w (writeValue P v w) (readValue P n (tv_type v)) v"
  "(\<forall>v \<in> set vs. tv_type v = t \<and> storable mapok v) \<Longrightarrow> idle w \<Longrightarrow> items_fuel vs \<le> n \<Longrightarrow>
     sends w (writeItems P vs w) (readItems P n (length vs) t) vs"
  "(\<forall>(i, v) \<in> set fs. int_range 16 i \<and> storable mapok v) \<Longrightarrow> distinct (map fst (acc @ fs)) \<Longrightarrow>
     idle w \<Longrightarrow> fields_fuel fs \<le> n \<Longrightarrow>
     sends w (bindR (writeFields P fs w) (writeFieldStop P)) (readFields P n acc) (acc @ fs)"
  "(\<forall>(k, v) \<in> set es. tv_type k = kt \<and> storable mapok k \<and> tv_type v = vt \<and> storable mapok v) \<Longrightarrow>
     idle w \<Longrightarrow> entries_fuel es \<le> n \<Longrightarrow>
     sends w (writeEntries P es w) (readEntries P n (length es) kt vt) es"
proof (induction v and vs and fs and es arbitrary: w n and t w n and w n acc and kt vt w n
    rule: value_fuel_items_fuel_fields_fuel_entries_fuel.induct)
  case (1 fs)
  then obtain m where n: "n = Suc m" "fields_fuel fs \<le> m" by (cases n) auto
  have "sends w (bindR (writeFields P fs w) (writeFieldStop P)) (readFields P m []) fs" if "idle w" for w
    using "1.IH" [of "[]" w m] "1.prems" n that by simp
  then show ?case
    unfolding n(1) tv_type.simps readValue_fun
    by (rule struct_sends [OF "1.prems"(2)]) (simp_all add: end_sends struct_end)
next
  case (2 t vs)
  then obtain m where n: "n = Suc m" "items_fuel vs \<le> m" by (cases n) auto
  have "sends w (writeItems P vs w) (readItems P m (length vs) t) vs" if "idle w" for w
    using "2.IH" [of t w m] "2.prems" n that by simp
  then show ?case
    unfolding n(1) tv_type.simps readValue_fun writeValue.simps
    by (intro container_sends [OF list_begin, where x = vs])
      (use "2.prems" in \<open>simp_all add: end_sends list_end\<close>)
next
  case (3 t vs)
  then obtain m where n: "n = Suc m" "items_fuel vs \<le> m" by (cases n) auto
  have "sends w (writeItems P vs w) (readItems P m (length vs) t) vs" if "idle w" for w
    using "3.IH" [of t w m] "3.prems" n that by simp
  then show ?case
    unfolding n(1) tv_type.simps readValue_fun writeValue.simps
    by (intro container_sends [OF set_begin, where x = vs])
      (use "3.prems" in \<open>simp_all add: end_sends set_end\<close>)
next
  case (4 kt vt es)
  then obtain m where n: "n = Suc m" "entries_fuel es \<le> m" by (cases n) auto
  have "sends w (writeEntries P es w) (readEntries P m (length es) kt vt) es" if "idle w" for w
    using "4.IH" [of kt vt w m] "4.prems" n that by simp
  then show ?case
    unfolding n(1) tv_type.simps readValue_fun writeValue.simps
    by (intro container_sends [OF map_begin, where x = es])
      (use "4.prems" in \<open>simp_all add: end_sends map_end\<close>)
next
  case 6
  then obtain m where n: "n = Suc m" by (cases n) auto
  with 6 show ?case by (simp add: n readValue_fun sends_on_return)
next
  case (7 v vs)
  then obtain m where n: "n = Suc m" "value_fuel v \<le> m" "items_fuel vs \<le> m" by (cases n) auto
  have val: "sends w (writeValue P v w) (readValue P m t) v"
    using "7.IH"(1) [of w m] "7.prems" n by simp
  have "sends w (writeItems P vs w) (readItems P m (length vs) t) vs" if "idle w" for w
    using "7.IH"(2) [of t w m] "7.prems" n that by simp
  then show ?case
    unfolding n(1) list.size add_Suc_right add_0_right readValue_fun writeItems.simps
    by (intro sends_on_bind [OF val]) (auto intro!: sends_on_map)
next
  case 8
  then obtain m where n: "n = Suc m" by (cases n) auto
  have "sends w (writeFieldStop P w) (readFields P n acc) acc"
    unfolding n readValue_fun by (rule sends_on_result [OF field_stop]) (use 8 in simp_all)
  then show ?case by simp
next
  case (9 i v fs)
  then obtain m where n: "n = Suc m" "value_fuel v \<le> m" "fields_fuel fs \<le> m" by (cases n) auto
  have val: "sends w (writeValue P v w) (readValue P m (tv_type v)) v" if "idle w" for w
    using "9.IH"(1) "9.prems" n that by simp
  have rest: "sends w (bindR (writeFields P fs w) (writeFieldStop P))
      (readFields P m (map_set i v acc)) (acc @ (i, v) # fs)" if "idle w" for w
    using "9.IH"(2) [of "acc @ [(i, v)]" w m] "9.prems" n that by (auto simp: map_set_fresh)
  have i: "int_range 16 i" using "9.prems" by simp
  let ?h = "\<lparr>fh_type = tv_type v, fh_id = i\<rparr>" and ?rd = "\<lambda>h. readValue P m (fh_type h)"
    and ?k = "\<lambda>h v. readFields P m (map_set (fh_id h) v acc)"
  show ?case
  proof (cases "\<exists>b. v = TBool b")
    case True
    then obtain b m' where b: "v = TBool b" "m = Suc m'" using n(2) by (cases m) auto
    then have rd: "?rd ?h = (\<lambda>r. bindR (readBool P r) (\<lambda>(v, r). Inr (TBool v, r)))"
      by (simp add: readValue_fun)
    show ?thesis
      using folded_field [of w i ?h ?rd TBool _ ?k b, OF "9.prems"(3) i _ rd] rest b
      unfolding n(1) readValue_fun writeFields.simps bindR_assoc by simp
  next
    case False
    then have "tv_type v \<noteq> T_BOOL" by (cases v) auto
    from other_field [of w _ i ?h _ ?rd v _ ?k, OF "9.prems"(3) _ this i refl] val rest show ?thesis
      unfolding n(1) readValue_fun writeFields.simps bindR_assoc by simp
  qed
next
  case 10
  then obtain m where n: "n = Suc m" by (cases n) auto
  with 10 show ?case by (simp add: n readValue_fun sends_on_return)
next
  case (11 k v es)
  then obtain m where n: "n = Suc m" "value_fuel k \<le> m" "value_fuel v \<le> m" "entries_fuel es \<le> m"
    by (cases n) auto
  have key: "sends w (writeValue P k w) (readValue P m kt) k"
    using "11.IH"(1) [of w m] "11.prems" n by simp
  have val: "sends w (writeValue P v w) (readValue P m vt) v" if "idle w" for w
    using "11.IH"(2) [of w m] "11.prems" n that by simp
  have "sends w (writeEntries P es w) (readEntries P m (length es) kt vt) es" if "idle w" for w
    using "11.IH"(3) [of kt vt w m] "11.prems" n that by simp
  then show ?case
    unfolding n(1) list.size add_Suc_right add_0_right readValue_fun writeEntries.simps
    by (intro sends_on_bind [OF key])
      (auto intro!: sends_on_bind [OF val] intro!: sends_on_map)
qed (rule scalar_sends; simp)+

text \<open>What the contract gives a client: a value written from an idle writer is read back, and skipped,
  by a reader in step with it.\<close>

lemma written_value:
  assumes "storable mapok v" "idle w" "value_fuel v \<le> n"
  obtains w' bs where "writeValue P v w = Inr w'" "idle w'" "out w' = out w @ bs"
    "\<And>rest. readValue P n (tv_type v) (at w (bs @ rest)) = Inr (v, at w' rest)"
    "\<And>rest. skip P n (tv_type v) (at w (bs @ rest)) = Inr ((), at w' rest)"
proof -
  from value_sends(1) [OF assms] obtain w' bs where 1: "writeValue P v w = Inr w'" "idle w'"
      "out w' = out w @ bs"
      "\<And>rest. readValue P n (tv_type v) (at w (bs @ rest)) = Inr (v, at w' rest)"
    by (auto simp: sends_on_def)
  have "skip P n (tv_type v) (at w (bs @ rest)) = Inr ((), at w' rest)" for rest
    using skip_stops_with_read(1) [of n "tv_type v" "at w (bs @ rest)"] 1(4) [of rest]
    by (simp add: stops_at_eq_Some)
  with 1 that show thesis by blast
qed

text \<open>A whole message: the envelope, one value and the end marker.\<close>

lemma written_message:
  assumes "idle w" "stored_text s" "m < 8" "int_range 32 q" "storable mapok v" "value_fuel v \<le> n"
  shows "sends w (writeMessage P s m q v w) (readMessage P n (tv_type v))
    (\<lparr>mh_name = s, mh_type = m, mh_seqid = q\<rparr>, v)"
  unfolding writeMessage_def readMessage_def
  by (rule container_sends [OF message_begin, where x = v])
    (simp_all add: assms value_sends end_sends message_end)

end

end
