(* ===== verification/Thrift_Struct.thy ===== *)
theory Thrift_Struct
  imports Thrift_Protocol
begin

text \<open>
  Hand-written struct codecs over the \<open>Protocol\<close> interface, the way \<open>data/parquet/metadata.ts\<close>
  has them: a writer is a sequence of calls, a reader is a loop over field headers with a handler
  that assigns a property or declines the field, which is then skipped.
\<close>

subsection \<open>Sequences of calls\<close>

fun seqW :: "'w put list \<Rightarrow> 'w put" where
  "seqW [] w = Inr w"
| "seqW (f # fs) w = bindR (f w) (seqW fs)"

definition writeField :: "('w, 'r) protocol \<Rightarrow> nat \<Rightarrow> int \<Rightarrow> 'w put \<Rightarrow> 'w put" where
  "writeField p type i body = seqW [writeFieldBegin p type i, body, writeFieldEnd p]"

definition writeOptField :: "('w, 'r) protocol \<Rightarrow> nat \<Rightarrow> int \<Rightarrow> ('a \<Rightarrow> 'w put) \<Rightarrow> 'a option \<Rightarrow> 'w put" where
  "writeOptField p type i body x =
     (case x of None \<Rightarrow> Inr | Some v \<Rightarrow> writeField p type i (body v))"

definition writeListOf :: "('w, 'r) protocol \<Rightarrow> nat \<Rightarrow> ('a \<Rightarrow> 'w put) \<Rightarrow> 'a list \<Rightarrow> 'w put" where
  "writeListOf p elemType body xs =
     seqW [writeListBegin p elemType (int (length xs)), seqW (map body xs), writeListEnd p]"

subsection \<open>Field loops\<close>

text \<open>A handler maps a field id to what it does to the object under construction; \<open>None\<close> is the
  answer \<open>false\<close>. \<open>assign\<close> reads a value and sets a property, \<open>assignOpt\<close> an optional one.\<close>

type_synonym ('s, 'r) handler = "int \<Rightarrow> ('s \<Rightarrow> ('s, 'r) get) option"

definition assign :: "('a, 'r) get \<Rightarrow> ('a \<Rightarrow> 's \<Rightarrow> 's) \<Rightarrow> ('s \<Rightarrow> ('s, 'r) get) option" where
  "assign rd upd = Some (\<lambda>s r. bindR (rd r) (\<lambda>(v, r). Inr (upd v s, r)))"

definition assignOpt :: "('a, 'r) get \<Rightarrow> ('a option \<Rightarrow> 's \<Rightarrow> 's) \<Rightarrow> ('s \<Rightarrow> ('s, 'r) get) option" where
  "assignOpt rd upd = assign rd (\<lambda>v. upd (Some v))"

fun fieldLoop :: "('w, 'r) protocol \<Rightarrow> nat \<Rightarrow> nat \<Rightarrow> ('s, 'r) handler \<Rightarrow> 's \<Rightarrow> ('s, 'r) get" where
  "fieldLoop p k 0 handler s r = Inl OutOfFuel"
| "fieldLoop p k (Suc n) handler s r =
     bindR (readFieldBegin p r) (\<lambda>(h, r).
     if fh_type h = T_STOP then Inr (s, r)
     else bindR (case handler (fh_id h) of
            Some f \<Rightarrow> f s r
          | None \<Rightarrow> bindR (skip p k (fh_type h) r) (\<lambda>(_, r). Inr (s, r))) (\<lambda>(s, r).
       bindR (readFieldEnd p r) (\<lambda>(_, r). fieldLoop p k n handler s r)))"

definition readFieldsWith :: "('w, 'r) protocol \<Rightarrow> nat \<Rightarrow> ('s, 'r) handler \<Rightarrow> 's \<Rightarrow> ('s, 'r) get" where
  "readFieldsWith p n handler s r =
     bindR (readStructBegin p r) (\<lambda>(_, r).
     bindR (fieldLoop p n n handler s r) (\<lambda>(s, r).
     bindR (readStructEnd p r) (\<lambda>(_, r). Inr (s, r))))"

fun repeatR :: "('a, 'r) get \<Rightarrow> nat \<Rightarrow> ('a list, 'r) get" where
  "repeatR rd 0 r = Inr ([], r)"
| "repeatR rd (Suc k) r =
     bindR (rd r) (\<lambda>(x, r). bindR (repeatR rd k r) (\<lambda>(xs, r). Inr (x # xs, r)))"

definition readListOf :: "('w, 'r) protocol \<Rightarrow> ('a, 'r) get \<Rightarrow> ('a list, 'r) get" where
  "readListOf p rd r =
     bindR (readListBegin p r) (\<lambda>(h, r).
     bindR (repeatR rd (nat (lh_size h)) r) (\<lambda>(xs, r).
     bindR (readListEnd p r) (\<lambda>(_, r). Inr (xs, r))))"

subsection \<open>Round trips of structs\<close>

context thrift_protocol
begin

text \<open>\<open>carried wr rd x\<close>: whatever the writer holds, \<open>wr\<close> sends \<open>x\<close> to \<open>rd\<close>.\<close>

definition carried :: "'w put \<Rightarrow> ('a, 'r) get \<Rightarrow> 'a \<Rightarrow> bool" where
  "carried wr rd x \<longleftrightarrow> (\<forall>w. idle w \<longrightarrow> sends w (wr w) rd x)"

lemma carriedI: "(\<And>w. idle w \<Longrightarrow> sends w (wr w) rd x) \<Longrightarrow> carried wr rd x"
  by (simp add: carried_def)

lemma carriedD: "carried wr rd x \<Longrightarrow> idle w \<Longrightarrow> sends w (wr w) rd x"
  by (simp add: carried_def)

text \<open>What is left of a struct: fields, stop and end on one side, the rest of the loop on the other.\<close>

definition endStruct :: "'s \<times> 'r \<Rightarrow> js_error + 's \<times> 'r" where
  "endStruct = (\<lambda>(s, r). bindR (readStructEnd P r) (\<lambda>(_, r). Inr (s, r)))"

definition fields_as :: "nat \<Rightarrow> 'w put list \<Rightarrow> ('s, 'r) handler \<Rightarrow> 's \<Rightarrow> 's \<Rightarrow> bool" where
  "fields_as m fs handler s y \<longleftrightarrow>
     (\<forall>k n. m + length fs \<le> n \<longrightarrow> m \<le> k \<longrightarrow> carried (seqW fs) (\<lambda>r. bindR (fieldLoop P k n handler s r) endStruct) y)"

definition handled :: "nat \<Rightarrow> ('s, 'r) handler \<Rightarrow> 's \<Rightarrow> field_header \<Rightarrow> ('s, 'r) get" where
  "handled k handler s h r = (case handler (fh_id h) of
       Some f \<Rightarrow> f s r
     | None \<Rightarrow> bindR (skip P k (fh_type h) r) (\<lambda>(_, r). Inr (s, r)))"

lemma fieldLoop_turn:
  "(\<lambda>r. bindR (fieldLoop P k (Suc n) handler s r) endStruct) =
   (\<lambda>r. bindR (readFieldBegin P r) (\<lambda>(h, r).
      if fh_type h = T_STOP then endStruct (s, r) else bindR (handled k handler s h r) (\<lambda>(s, r).
      bindR (readFieldEnd P r) (\<lambda>(_, r). bindR (fieldLoop P k n handler s r) endStruct))))"
  by (rule ext) (auto simp: bindR_def handled_def split: sum.splits prod.splits option.splits)

lemma fields_stop: "s = y \<Longrightarrow> fields_as m [writeFieldStop P, writeStructEnd P] handler s y"
  unfolding fields_as_def
proof (intro allI impI carriedI)
  fix k n w assume *: "s = y" "m + length [writeFieldStop P, writeStructEnd P] \<le> n" "idle w"
  then obtain n' where n: "n = Suc n'" by (cases n) auto
  show "sends w (seqW [writeFieldStop P, writeStructEnd P] w)
      (\<lambda>r. bindR (fieldLoop P k n handler s r) endStruct) y"
    unfolding n fieldLoop_turn seqW.simps
    by (rule sends_on_bind [OF field_stop [OF *(3)]])
      (use *(1) in \<open>auto simp: endStruct_def bindR_def sends_on_def split: sum.splits
        dest!: struct_end\<close>)
qed

lemma fields_turn:
  assumes "int_range 16 i" "t \<in> value_types" "t \<noteq> T_BOOL"
    and "\<And>k. m \<le> k \<Longrightarrow> carried body (handled k handler s \<lparr>fh_type = t, fh_id = i\<rparr>) s'"
    and "fields_as m fs handler s' y"
  shows "fields_as m (writeField P t i body # fs) handler s y"
  unfolding fields_as_def
proof (intro allI impI carriedI)
  fix k n w assume *: "m + length (writeField P t i body # fs) \<le> n" "m \<le> k" "idle w"
  then obtain n' where n: "n = Suc n'" "m + length fs \<le> n'" by (cases n) auto
  let ?h = "\<lparr>fh_type = t, fh_id = i\<rparr>"
  have wr: "seqW (writeField P t i body # fs) w = bindR (writeFieldBegin P t i w)
      (\<lambda>w. bindR (body w) (\<lambda>w. bindR (writeFieldEnd P w) (seqW fs)))"
    by (auto simp: writeField_def bindR_def split: sum.splits)
  show "sends w (seqW (writeField P t i body # fs) w)
      (\<lambda>r. bindR (fieldLoop P k n handler s r) endStruct) y"
    unfolding n fieldLoop_turn wr
    by (rule other_field [of w t i ?h body "handled k handler s" s' "seqW fs"
        "\<lambda>_ s r. bindR (fieldLoop P k n' handler s r) endStruct"])
      (use assms * n in \<open>auto simp: fields_as_def carried_def\<close>)
qed

lemma fields_field:
  assumes "handler i = assign rd upd" "carried body rd v" "int_range 16 i" "t \<in> value_types" "t \<noteq> T_BOOL"
    and "fields_as m fs handler (upd v s) y"
  shows "fields_as m (writeField P t i body # fs) handler s y"
  by (rule fields_turn [OF assms(3-5) _ assms(6)])
    (use assms(1,2) in \<open>auto simp: carried_def handled_def [abs_def] assign_def intro!: sends_on_result\<close>)

lemma fields_unknown:
  assumes "handler i = None" "storable mapok v" "int_range 16 i" "tv_type v \<noteq> T_BOOL" "value_fuel v \<le> m"
    and "fields_as m fs handler s y"
  shows "fields_as m (writeField P (tv_type v) i (writeValue P v) # fs) handler s y"
proof (rule fields_turn [OF assms(3) _ assms(4) _ assms(6)])
  fix k assume "m \<le> k"
  then have "sends w (writeValue P v w) (skip P k (tv_type v)) ()" if "idle w" for w
    using written_value [OF assms(2) that, of k] assms(5) unfolding sends_on_def by (metis le_trans)
  then show "carried (writeValue P v) (handled k handler s \<lparr>fh_type = tv_type v, fh_id = i\<rparr>) s"
    using assms(1) by (auto simp: carried_def handled_def [abs_def] intro!: sends_on_result)
qed simp

lemma fields_bool:
  assumes "handler i = assign (readBool P) upd" "int_range 16 i"
    and "fields_as m fs handler (upd v s) y"
  shows "fields_as m (writeField P T_BOOL i (writeBool P v) # fs) handler s y"
  unfolding fields_as_def
proof (intro allI impI carriedI)
  fix k n w assume *: "m + length (writeField P T_BOOL i (writeBool P v) # fs) \<le> n" "m \<le> k" "idle w"
  then obtain n' where n: "n = Suc n'" "m + length fs \<le> n'" by (cases n) auto
  let ?h = "\<lparr>fh_type = T_BOOL, fh_id = i\<rparr>"
  have wr: "seqW (writeField P T_BOOL i (writeBool P v) # fs) w = bindR (writeFieldBegin P T_BOOL i w)
      (\<lambda>w. bindR (writeBool P v w) (\<lambda>w. bindR (writeFieldEnd P w) (seqW fs)))"
    by (auto simp: writeField_def bindR_def split: sum.splits)
  show "sends w (seqW (writeField P T_BOOL i (writeBool P v) # fs) w)
      (\<lambda>r. bindR (fieldLoop P k n handler s r) endStruct) y"
    unfolding n fieldLoop_turn wr
    by (rule folded_field [of w i ?h "handled k handler s" "\<lambda>v. upd v s" "seqW fs"
        "\<lambda>_ s r. bindR (fieldLoop P k n' handler s r) endStruct"])
      (use assms * n in \<open>auto simp: fields_as_def carried_def handled_def [abs_def] assign_def\<close>)
qed

text \<open>Fields of ids the reader does not know, anywhere before the stop byte, change nothing.\<close>

definition extra :: "int \<times> tvalue \<Rightarrow> 'w put" where
  "extra = (\<lambda>(i, v). writeField P (tv_type v) i (writeValue P v))"

lemma fields_extras:
  assumes "\<forall>(i, v) \<in> set xs. handler i = None \<and> storable mapok v \<and> int_range 16 i \<and> tv_type v \<noteq> T_BOOL \<and> value_fuel v \<le> m"
    and "fields_as m fs handler s y"
  shows "fields_as m (map extra xs @ fs) handler s y"
  using assms by (induction xs) (auto simp: extra_def intro!: fields_unknown)

text \<open>An optional property: absent, the loop sees nothing; present, it is a field like any other.\<close>

lemma fields_absent:
  assumes "fields_as m fs handler s y"
  shows "fields_as m (Inr # fs) handler s y"
  using assms by (auto simp: fields_as_def carried_def)

lemma fields_opt:
  assumes "handler i = assignOpt rd upd" "\<And>v. x = Some v \<Longrightarrow> carried (body v) rd v"
    and "int_range 16 i" "t \<in> value_types" "t \<noteq> T_BOOL" "upd None s = s"
    and "fields_as m fs handler (upd x s) y"
  shows "fields_as m (writeOptField P t i body x # fs) handler s y"
proof (cases x)
  case None
  with assms(6,7) show ?thesis by (simp add: writeOptField_def fields_absent)
next
  case (Some v)
  with assms show ?thesis
    by (simp add: writeOptField_def) (rule fields_field [of handler i rd "\<lambda>v. upd (Some v)"], simp_all add: assignOpt_def)
qed

lemma fields_opt_bool:
  assumes "handler i = assignOpt (readBool P) upd" "int_range 16 i" "upd None s = s"
    and "fields_as m fs handler (upd x s) y"
  shows "fields_as m (writeOptField P T_BOOL i (writeBool P) x # fs) handler s y"
proof (cases x)
  case None
  with assms(3,4) show ?thesis by (simp add: writeOptField_def fields_absent)
next
  case (Some v)
  with assms show ?thesis
    by (simp add: writeOptField_def) (rule fields_bool [of handler i "\<lambda>v. upd (Some v)"], simp_all add: assignOpt_def)
qed

text \<open>A whole struct, once its fields are accounted for.\<close>

lemma struct_carried:
  assumes "fields_as m fs handler s y" "m + length fs \<le> n"
  shows "carried (seqW (writeStructBegin P # fs)) (readFieldsWith P n handler s) y"
proof (rule carriedI)
  fix w assume "idle w"
  have "readFieldsWith P n handler s =
      (\<lambda>r. bindR (readStructBegin P r) (\<lambda>(_, r). bindR (fieldLoop P n n handler s r) endStruct))"
    by (rule ext) (simp add: readFieldsWith_def endStruct_def)
  with assms show "sends w (seqW (writeStructBegin P # fs) w) (readFieldsWith P n handler s) y"
    by (auto simp: fields_as_def carried_def intro!: sends_on_bind [OF struct_begin [OF \<open>idle w\<close>]])
qed

lemma carried_map: "carried wr rd x \<Longrightarrow> carried wr (\<lambda>r. bindR (rd r) (\<lambda>(v, r). Inr (f v, r))) (f x)"
  by (auto simp: carried_def intro: sends_on_map)

lemma repeat_carried:
  "(\<And>x. x \<in> set xs \<Longrightarrow> carried (body x) rd x) \<Longrightarrow> carried (seqW (map body xs)) (repeatR rd (length xs)) xs"
proof (induction xs)
  case Nil
  show ?case by (auto simp: carried_def sends_on_return repeatR.simps [abs_def])
next
  case (Cons x xs)
  then have 1: "carried (body x) rd x" "carried (seqW (map body xs)) (repeatR rd (length xs)) xs" by auto
  have "repeatR rd (length (x # xs)) =
      (\<lambda>r. bindR (rd r) (\<lambda>(x, r). bindR (repeatR rd (length xs) r) (\<lambda>(xs, r). Inr (x # xs, r))))"
    by (rule ext) simp
  with 1 show ?case
    by (auto simp: carried_def intro!: sends_on_bind [where x = x] sends_on_map)
qed

lemma list_carried:
  assumes "\<And>x. x \<in> set xs \<Longrightarrow> carried (body x) rd x" "t \<in> value_types" "length xs < 2 ^ 31"
  shows "carried (writeListOf P t body xs) (readListOf P rd) xs"
proof (rule carriedI)
  fix w assume w: "idle w"
  have *: "sends w (seqW (map body xs) w) (repeatR rd (nat (lh_size \<lparr>lh_elemType = t, lh_size = int (length xs)\<rparr>))) xs"
      if "idle w" for w
    using repeat_carried [of xs body rd, OF assms(1)] that by (simp add: carried_def)
  have wr: "writeListOf P t body xs w = bindR (writeListBegin P t (int (length xs)) w)
      (\<lambda>w. bindR (seqW (map body xs) w) (writeListEnd P))"
    by (auto simp: writeListOf_def bindR_def split: sum.splits)
  have rd: "readListOf P rd = (\<lambda>r. bindR (readListBegin P r) (\<lambda>(h, r).
      bindR (repeatR rd (nat (lh_size h)) r) (\<lambda>(xs, r). bindR (readListEnd P r) (\<lambda>(_, r). Inr (xs, r)))))"
    by (rule ext) (simp add: readListOf_def)
  show "sends w (writeListOf P t body xs w) (readListOf P rd) xs"
    unfolding wr rd
    by (rule container_sends [OF list_begin [OF w assms(2,3)], where x = xs])
      (use * in \<open>simp_all add: end_sends list_end\<close>)
qed

text \<open>The scalars.\<close>

lemma scalars_carried:
  "int_range 8 i \<Longrightarrow> carried (writeByte P i) (readByte P) i"
  "int_range 16 i \<Longrightarrow> carried (writeI16 P i) (readI16 P) i"
  "int_range 32 i \<Longrightarrow> carried (writeI32 P i) (readI32 P) i"
  "int_range 64 i \<Longrightarrow> carried (writeI64 P i) (readI64 P) i"
  "stored_text s \<Longrightarrow> carried (writeString P s) (readStr P) s"
  "length bs < 2 ^ 31 \<Longrightarrow> carried (writeBinary P bs) (readBinary P) bs"
  by (simp_all add: carried_def byte i16 i32 i64 string binary)

lemmas field_rules = fields_stop fields_field fields_bool fields_opt fields_opt_bool

end

end
