(* ===== verification/Bit_Stream.thy ===== *)
theory Bit_Stream
  imports Thrift_Struct
begin

text \<open>
  Streams of fixed-width values packed least significant bit first, seen as numbers: the bytes of a
  stream are the base-256 digits of a number whose base-\<open>2 ^ w\<close> digits are the values.
\<close>

fun le_nat :: "byte list \<Rightarrow> nat" where
  "le_nat [] = 0"
| "le_nat (b # bs) = unat b + 256 * le_nat bs"

lemma le_nat_append: "le_nat (a @ b) = le_nat a + 256 ^ length a * le_nat b"
  by (induction a) (simp_all add: algebra_simps)

lemma le_nat_less: "le_nat bs < 256 ^ length bs"
proof (induction bs)
  case (Cons b bs)
  have "unat b + 256 * le_nat bs < 256 + 256 * le_nat bs" by simp
  also have "\<dots> = 256 * Suc (le_nat bs)" by simp
  also have "\<dots> \<le> 256 * 256 ^ length bs" using Cons by (intro mult_le_mono2) simp
  finally show ?case by simp
qed simp

fun pack_sum :: "nat \<Rightarrow> nat list \<Rightarrow> nat" where
  "pack_sum w [] = 0"
| "pack_sum w (v # vs) = v mod 2 ^ w + 2 ^ w * pack_sum w vs"

fun digits :: "nat \<Rightarrow> nat \<Rightarrow> nat \<Rightarrow> nat list" where
  "digits w 0 r = []"
| "digits w (Suc n) r = r mod 2 ^ w # digits w n (r div 2 ^ w)"

lemma pack_sum_less: "pack_sum w vs < 2 ^ (w * length vs)"
proof (induction vs)
  case (Cons v vs)
  have "v mod 2 ^ w + 2 ^ w * pack_sum w vs < 2 ^ w * Suc (pack_sum w vs)" by simp
  also have "\<dots> \<le> 2 ^ w * 2 ^ (w * length vs)" using Cons by (intro mult_le_mono2) simp
  finally show ?case by (simp add: power_add)
qed simp

lemma digits_pack_sum:
  "\<forall>v \<in> set vs. v < 2 ^ w \<Longrightarrow> digits w (length vs) (pack_sum w vs + 2 ^ (w * length vs) * r) = vs"
proof (induction vs)
  case (Cons v vs)
  define x where "x = pack_sum w vs + 2 ^ (w * length vs) * r"
  have eq: "pack_sum w (v # vs) + 2 ^ (w * length (v # vs)) * r = v + 2 ^ w * x"
    using Cons.prems by (simp add: x_def power_add algebra_simps)
  have "digits w (length vs) x = vs" using Cons by (simp add: x_def)
  then have "digits w (length (v # vs)) (v + 2 ^ w * x) = v # vs" using Cons.prems by simp
  then show ?case by (simp only: eq)
qed simp

lemma split_low_bits:
  fixes v :: nat
  assumes "t \<le> b"
  shows "v mod 2 ^ b = v mod 2 ^ t + 2 ^ t * (v div 2 ^ t mod 2 ^ (b - t))"
proof -
  have "(2::nat) ^ b = 2 ^ t * 2 ^ (b - t)" using assms by (simp flip: power_add)
  then show ?thesis by (simp add: mod_mult2_eq)
qed

lemma low_bits_of_sum:
  fixes c r :: nat
  assumes "t \<le> b" "c < 2 ^ b"
  shows "(c + 2 ^ b * r) mod 2 ^ t = c mod 2 ^ t" "(c + 2 ^ b * r) div 2 ^ t = c div 2 ^ t + 2 ^ (b - t) * r"
proof -
  have *: "(2::nat) ^ b * r = 2 ^ t * (2 ^ (b - t) * r)" using assms by (simp flip: power_add mult.assoc)
  show "(c + 2 ^ b * r) mod 2 ^ t = c mod 2 ^ t" unfolding * by simp
  show "(c + 2 ^ b * r) div 2 ^ t = c div 2 ^ t + 2 ^ (b - t) * r" unfolding * by simp
qed

end
