(* ===== verification/Parquet_Levels.thy ===== *)
theory Parquet_Levels
  imports Bit_Stream
begin

text \<open>
  \<open>data/parquet/levels.ts\<close>: the RLE and bit-packed hybrid of Parquet, for definition and repetition
  levels and for dictionary indices.

  The writer side is given by the bytes it appends; \<open>runLen << 1\<close> is the 32-bit shift, so a run too
  long for it reaches \<open>writeVarint\<close> as a negative number, which throws. Values are unsigned 32-bit
  numbers.
\<close>

definition clz32 :: "nat \<Rightarrow> nat" where
  "clz32 x = length (takeWhile Not (map (bit (of_nat x :: u32)) (rev [0..<32])))"

definition bitWidthForMax :: "nat \<Rightarrow> nat" where
  "bitWidthForMax maxValue = (if maxValue = 0 then 0 else 32 - clz32 maxValue)"

definition writeIntLE :: "nat \<Rightarrow> nat \<Rightarrow> byte list" where
  "writeIntLE v byteLength = map (\<lambda>i. of_nat (drop_bit (i * 8 mod 32) (take_bit 32 v) AND 255)) [0..<byteLength]"

fun readIntLE_loop :: "nat \<Rightarrow> nat \<Rightarrow> u32 \<Rightarrow> u32 read" where
  "readIntLE_loop 0 i v r = Inr (v, r)"
| "readIntLE_loop (Suc n) i v r =
     bindR (readU8 r) (\<lambda>(b, r). readIntLE_loop n (i + 1) (v OR push_bit (i * 8 mod 32) (of_nat b)) r)"

definition readIntLE :: "nat \<Rightarrow> nat read" where
  "readIntLE byteLength r = bindR (readIntLE_loop byteLength 0 0 r) (\<lambda>(v, r). Inr (unat v, r))"

subsection \<open>Bit packing\<close>

text \<open>The \<open>while (valBits > 0)\<close> loop, over the bytes written, \<open>cur\<close> and \<open>curBits\<close>.\<close>

function pack_value :: "byte list \<times> nat \<times> nat \<Rightarrow> nat \<Rightarrow> nat \<Rightarrow> byte list \<times> nat \<times> nat" where
  "pack_value (out, cur, curBits) val valBits =
     (if valBits > 0 \<and> curBits < 8 then
        let tk = min (8 - curBits) valBits;
            cur' = cur OR push_bit curBits (val AND (2 ^ tk - 1));
            curBits' = curBits + tk in
        pack_value (if curBits' = 8 then (out @ [of_nat cur'], 0, 0) else (out, cur', curBits'))
          (drop_bit tk val) (valBits - tk)
      else (out, cur, curBits))"
  by pat_completeness auto
termination
  by (relation "measure (\<lambda>(s, val, valBits). valBits)") auto

declare pack_value.simps [simp del]

definition packBits :: "nat list \<Rightarrow> nat \<Rightarrow> byte list" where
  "packBits values bitWidth =
     (let (out, cur, curBits) = foldl (\<lambda>s v. pack_value s (take_bit 32 v) bitWidth) ([], 0, 0) values in
      if curBits > 0 then out @ [of_nat cur] else out)"

text \<open>The \<open>while (gotBits < bitWidth)\<close> loop, over \<open>val\<close>, \<open>cur\<close> and \<open>curBits\<close>.\<close>

function unpack_value :: "nat \<Rightarrow> nat \<Rightarrow> u32 \<Rightarrow> nat \<times> nat \<Rightarrow> (u32 \<times> nat \<times> nat) read" where
  "unpack_value bitWidth gotBits val (cur, curBits) r =
     (if gotBits < bitWidth then
        bindR (if curBits = 0 then bindR (readU8 r) (\<lambda>(b, r). Inr ((b, 8), r)) else Inr ((cur, curBits), r))
          (\<lambda>((cur, curBits), r).
            let tk = min curBits (bitWidth - gotBits) in
            unpack_value bitWidth (gotBits + tk)
              (val OR push_bit (gotBits mod 32) (of_nat (cur AND (2 ^ tk - 1))))
              (drop_bit tk cur, curBits - tk) r)
      else Inr ((val, cur, curBits), r))"
  by pat_completeness auto
termination
  by (relation "measure (\<lambda>(bitWidth, gotBits, val, s, r). bitWidth - gotBits)")
    (auto simp: result_simps split: if_splits prod.splits)

declare unpack_value.simps [simp del]

fun unpack_loop :: "nat \<Rightarrow> nat \<Rightarrow> nat \<times> nat \<Rightarrow> nat list \<Rightarrow> nat \<Rightarrow> nat list read" where
  "unpack_loop bitWidth 0 s out count r = Inr (out, r)"
| "unpack_loop bitWidth (Suc n) s out count r =
     bindR (unpack_value bitWidth 0 0 s r) (\<lambda>((val, s), r).
       unpack_loop bitWidth n s (if length out < count then out @ [unat val] else out) count r)"

definition unpackBits :: "nat \<Rightarrow> nat \<Rightarrow> nat list \<Rightarrow> nat \<Rightarrow> nat list read" where
  "unpackBits bitWidth numValues out count = unpack_loop bitWidth numValues (0, 0) out count"

subsection \<open>Encoding\<close>

fun run_length :: "'a list \<Rightarrow> nat" where
  "run_length [] = 0"
| "run_length (v # vs) = Suc (length (takeWhile (\<lambda>x. x = v) vs))"

text \<open>The inner loop: the values up to the next run of eight, and what is left.\<close>

fun mixed_group :: "'a list \<Rightarrow> 'a list \<times> 'a list" where
  "mixed_group [] = ([], [])"
| "mixed_group (v # vs) =
     (if run_length (v # vs) \<ge> 8 then ([], v # vs)
      else let (g, rest) = mixed_group vs in (v # g, rest))"

definition num_groups :: "'a list \<Rightarrow> nat" where
  "num_groups g = (length g + 7) div 8"

definition pad_group :: "nat list \<Rightarrow> nat list" where
  "pad_group g = g @ replicate (num_groups g * 8 - length g) 0"

definition value_bytes :: "nat \<Rightarrow> nat" where
  "value_bytes bitWidth = (bitWidth + 7) div 8"

definition rle_run :: "nat \<Rightarrow> nat \<Rightarrow> nat \<Rightarrow> js_error + byte list" where
  "rle_run runLen v bitWidth =
     bindR (varint_bytes (js_shl1 (int runLen))) (\<lambda>h. Inr (h @ writeIntLE v (value_bytes bitWidth)))"

definition packed_run :: "nat list \<Rightarrow> nat \<Rightarrow> js_error + byte list" where
  "packed_run g bitWidth =
     bindR (varint_bytes (js_shl1 (int (num_groups g)) OR 1)) (\<lambda>h. Inr (h @ packBits (pad_group g) bitWidth))"

lemma mixed_group_append: "fst (mixed_group vs) @ snd (mixed_group vs) = vs"
  by (induction vs) (auto split: prod.splits)

lemma mixed_group_shorter:
  assumes "run_length (v # vs) < 8"
  shows "length (snd (mixed_group (v # vs))) \<le> length vs"
proof -
  have "length (fst (mixed_group vs) @ snd (mixed_group vs)) = length vs" by (simp only: mixed_group_append)
  with assms show ?thesis by (auto split: prod.splits)
qed

function rle_loop :: "nat \<Rightarrow> nat list \<Rightarrow> js_error + byte list" where
  "rle_loop bitWidth [] = Inr []"
| "rle_loop bitWidth (v # vs) =
     (let runLen = run_length (v # vs) in
      if runLen \<ge> 8
      then bindR (rle_run runLen v bitWidth) (\<lambda>bs.
           bindR (rle_loop bitWidth (drop runLen (v # vs))) (\<lambda>more. Inr (bs @ more)))
      else bindR (packed_run (fst (mixed_group (v # vs))) bitWidth) (\<lambda>bs.
           bindR (rle_loop bitWidth (snd (mixed_group (v # vs)))) (\<lambda>more. Inr (bs @ more))))"
  by pat_completeness auto
termination
proof (relation "measure (\<lambda>(bitWidth, vs). length vs)")
  fix bitWidth :: nat and v vs x y
  assume "x = run_length (v # vs)" "\<not> 8 \<le> x"
  then show "((bitWidth, snd (mixed_group (v # vs))), bitWidth, v # vs) \<in> measure (\<lambda>(bitWidth, vs). length vs)"
    using mixed_group_shorter [of v vs] by simp
qed auto

declare rle_loop.simps [simp del]

definition encodeRleHybrid :: "nat list \<Rightarrow> nat \<Rightarrow> js_error + byte list" where
  "encodeRleHybrid values bitWidth =
     (if bitWidth = 0 then
        (if values \<noteq> [] then varint_bytes (js_shl1 (int (length values))) else Inr [])
      else rle_loop bitWidth values)"

subsection \<open>Decoding\<close>

lemma ends_readIntLE_loop: "ends rd_remaining 0 r (readIntLE_loop n i v r)"
  by (induction n i v r rule: readIntLE_loop.induct)
    (auto intro!: ends_bind [OF ends_readU8, where e = 0])

lemma ends_readIntLE: "ends rd_remaining 0 r (readIntLE n r)"
  unfolding readIntLE_def by (rule ends_bind [OF ends_readIntLE_loop, where e = 0]) auto

lemma ends_unpack_value: "ends rd_remaining 0 r (unpack_value bitWidth gotBits val s r)"
proof (induction bitWidth gotBits val s r rule: unpack_value.induct)
  case (1 bitWidth gotBits val cur curBits r)
  let ?x = "if curBits = 0 then bindR (readU8 r) (\<lambda>(b, r). Inr ((b, 8), r)) else Inr ((cur, curBits), r)"
  have x: "ends rd_remaining 0 r ?x"
    using ends_weaken [OF ends_readU8, of r] by (cases "readU8 r") auto
  show ?case
  proof (cases "gotBits < bitWidth")
    case True
    show ?thesis
      unfolding unpack_value.simps [of bitWidth gotBits val cur curBits r] if_P [OF True]
    proof (rule ends_bind [OF x, where e = 0], goal_cases bound step)
      case (step u r')
      obtain c b where u: "u = (c, b)" by (cases u)
      show ?case using "1" [OF True step(1)] u by (simp add: Let_def)
    qed simp
  next
    case False
    then show ?thesis by (simp add: unpack_value.simps)
  qed
qed

lemma ends_unpack_loop: "ends rd_remaining 0 r (unpack_loop bitWidth n s out count r)"
  by (induction bitWidth n s out count r rule: unpack_loop.induct)
    (auto intro!: ends_bind [OF ends_unpack_value, where e = 0])

lemma readVarint32_less: "readVarint32 r = Inr (h, r') \<Longrightarrow> rd_remaining r' < rd_remaining r"
  using consumes_varints(2) unfolding consumes_def by (metis ends_simps(2) Suc_eq_plus1 Suc_le_lessD)

lemma ends_le: "ends rd_remaining 0 r x \<Longrightarrow> x = Inr (v, r') \<Longrightarrow> rd_remaining r' \<le> rd_remaining r"
  by simp

function rle_decode :: "nat \<Rightarrow> nat list \<Rightarrow> nat \<Rightarrow> nat list read" where
  "rle_decode bitWidth out count r =
     (if length out < count then
        bindR (readVarint32 r) (\<lambda>(header, r).
        if header AND 1 = 0 then
          let runLen = drop_bit 1 header in
          bindR (readIntLE (value_bytes bitWidth) r) (\<lambda>(v, r).
            rle_decode bitWidth (out @ replicate (min runLen (count - length out)) v) count r)
        else
          let numValues = drop_bit 1 header * 8 in
          bindR (unpackBits bitWidth numValues out count r) (\<lambda>(out, r). rle_decode bitWidth out count r))
      else Inr (out, r))"
  by pat_completeness auto
termination
proof (relation "measure (\<lambda>(bitWidth, out, count, r). rd_remaining r)")
qed (auto dest!: readVarint32_less ends_le [OF ends_readIntLE] ends_le [OF ends_unpack_loop] simp: unpackBits_def)

declare rle_decode.simps [simp del]

definition decodeRleHybrid :: "nat \<Rightarrow> nat \<Rightarrow> nat list read" where
  "decodeRleHybrid bitWidth count r =
     (if bitWidth = 0 then Inr (replicate count 0, r) else rle_decode bitWidth [] count r)"

definition encodeDefinitionLevels :: "nat list \<Rightarrow> nat \<Rightarrow> js_error + byte list" where
  "encodeDefinitionLevels levels maxLevel =
     (if maxLevel = 0 then Inr []
      else bindR (encodeRleHybrid levels (bitWidthForMax maxLevel)) (\<lambda>body.
        Inr (rev (be_bytes 4 (length body)) @ body)))"

subsection \<open>Packing and unpacking\<close>

definition packed_num :: "byte list \<times> nat \<times> nat \<Rightarrow> nat" where
  "packed_num = (\<lambda>(out, cur, curBits). le_nat out + 2 ^ (8 * length out) * cur)"

definition packed_bits :: "byte list \<times> nat \<times> nat \<Rightarrow> nat" where
  "packed_bits = (\<lambda>(out, cur, curBits). 8 * length out + curBits)"

definition packed_ok :: "byte list \<times> nat \<times> nat \<Rightarrow> bool" where
  "packed_ok = (\<lambda>(out, cur, curBits). curBits < 8 \<and> cur < 2 ^ curBits)"

lemma pow256: "(256::nat) ^ n = 2 ^ (8 * n)"
  by (simp add: power_mult)

definition packed_after :: "byte list \<times> nat \<times> nat \<Rightarrow> byte list \<times> nat \<times> nat \<Rightarrow> nat \<Rightarrow> nat \<Rightarrow> bool" where
  "packed_after s s' val valBits \<longleftrightarrow> packed_ok s' \<and> packed_bits s' = packed_bits s + valBits \<and>
     packed_num s' = packed_num s + 2 ^ packed_bits s * (val mod 2 ^ valBits)"

lemma packed_after_trans:
  assumes "packed_after s s1 val t" "packed_after s1 s2 (val div 2 ^ t) (b - t)" "t \<le> b"
  shows "packed_after s s2 val b"
  using assms split_low_bits [of t b val]
  by (simp add: packed_after_def power_add algebra_simps)

lemma pack_step:
  fixes val :: nat
  assumes "packed_ok (out, cur, curBits)" "t \<le> 8 - curBits" "t \<le> valBits"
  defines "cur' \<equiv> cur OR push_bit curBits (val AND (2 ^ t - 1))"
  shows "packed_after (out, cur, curBits)
    (if curBits + t = 8 then (out @ [of_nat cur'], 0, 0) else (out, cur', curBits + t)) val t"
proof -
  have c: "cur < 2 ^ curBits" "curBits < 8" using assms(1) by (simp_all add: packed_ok_def)
  have cur': "cur' = cur + val mod 2 ^ t * 2 ^ curBits"
    unfolding cur'_def nat_and_exp_minus_1 by (rule nat_or_shifted [OF c(1)])
  have "cur' < 2 ^ curBits * Suc (val mod 2 ^ t)" using c(1) by (simp add: cur')
  also have "\<dots> \<le> 2 ^ curBits * 2 ^ t" by (intro mult_le_mono2) (simp add: Suc_le_eq)
  finally have less: "cur' < 2 ^ (curBits + t)" by (simp add: power_add)
  then have byte: "curBits + t = 8 \<Longrightarrow> unat (of_nat cur' :: byte) = cur'" by simp
  show ?thesis
    using c less byte assms(2)
    by (auto simp: packed_after_def packed_ok_def packed_bits_def packed_num_def le_nat_append pow256
        cur' power_add algebra_simps)
qed

lemma pack_value_num: "packed_ok s \<Longrightarrow> packed_after s (pack_value s val valBits) val valBits"
proof (induction s val valBits rule: pack_value.induct)
  case (1 out cur curBits val valBits)
  show ?case
  proof (cases "valBits > 0 \<and> curBits < 8")
    case True
    define t where "t = min (8 - curBits) valBits"
    define c where "c = cur OR push_bit curBits (val AND (2 ^ t - 1))"
    define s1 where "s1 = (if curBits + t = 8 then (out @ [of_nat c], 0, 0) else (out, c, curBits + t))"
    have eq: "pack_value (out, cur, curBits) val valBits = pack_value s1 (drop_bit t val) (valBits - t)"
      using True by (simp add: pack_value.simps [of out] s1_def c_def Let_def flip: t_def)
    have "t \<le> 8 - curBits" "t \<le> valBits" by (simp_all add: t_def)
    then have step: "packed_after (out, cur, curBits) s1 val t"
      unfolding s1_def c_def by (rule pack_step [OF "1.prems"])
    have "packed_after s1 (pack_value s1 (drop_bit t val) (valBits - t)) (drop_bit t val) (valBits - t)"
      using "1.IH" [OF True t_def c_def refl] step by (simp only: s1_def packed_after_def)
    then show ?thesis
      unfolding eq using step by (intro packed_after_trans [OF step]) (simp_all add: drop_bit_eq_div t_def)
  next
    case False
    with "1.prems" have "valBits = 0" by (simp add: packed_ok_def)
    with "1.prems" show ?thesis by (simp add: pack_value.simps packed_after_def)
  qed
qed

lemma pack_fold_num:
  assumes "packed_ok s" "\<forall>v \<in> set vs. v < 2 ^ w" "w \<le> 32"
  shows "packed_ok (foldl (\<lambda>s v. pack_value s (take_bit 32 v) w) s vs) \<and>
    packed_bits (foldl (\<lambda>s v. pack_value s (take_bit 32 v) w) s vs) = packed_bits s + w * length vs \<and>
    packed_num (foldl (\<lambda>s v. pack_value s (take_bit 32 v) w) s vs) = packed_num s + 2 ^ packed_bits s * pack_sum w vs"
  using assms
proof (induction vs arbitrary: s)
  case (Cons v vs)
  have "(2::nat) ^ w \<le> 2 ^ 32" using Cons.prems(3) by (rule power_increasing) simp
  then have v: "take_bit 32 v = v" using Cons.prems(2) by (intro take_bit_nat_eq_self) auto
  have "packed_after s (pack_value s v w) v w" by (rule pack_value_num [OF Cons.prems(1)])
  with Cons.IH [of "pack_value s v w"] Cons.prems v show ?case
    by (simp add: packed_after_def power_add algebra_simps)
qed simp

lemma packBits_num:
  assumes "\<forall>v \<in> set vs. v < 2 ^ w" "w \<le> 32" "8 dvd length vs"
  shows "le_nat (packBits vs w) = pack_sum w vs" "8 * length (packBits vs w) = w * length vs"
proof -
  obtain out cur cb where s: "foldl (\<lambda>s v. pack_value s (take_bit 32 v) w) ([], 0, 0) vs = (out, cur, cb)"
    by (metis prod_cases3)
  have ok: "packed_ok ([], 0, 0)" by (simp add: packed_ok_def)
  have *: "cb < 8" "cur < 2 ^ cb" "8 * length out + cb = w * length vs"
      "le_nat out + 2 ^ (8 * length out) * cur = pack_sum w vs"
    using pack_fold_num [OF ok assms(1,2)] s by (simp_all add: packed_ok_def packed_bits_def packed_num_def)
  have "8 dvd 8 * length out + cb" using *(3) assms(3) by simp
  then have "8 dvd cb" by (simp add: dvd_add_right_iff)
  with *(1) have "cb = 0" by (auto dest: dvd_imp_le)
  with * s show "le_nat (packBits vs w) = pack_sum w vs" "8 * length (packBits vs w) = w * length vs"
    by (simp_all add: packBits_def)
qed

text \<open>The stream still to be unpacked, as a number and in bits.\<close>

definition stream_num :: "nat \<times> nat \<Rightarrow> byte list \<Rightarrow> nat" where
  "stream_num = (\<lambda>(cur, curBits) rest. cur + 2 ^ curBits * le_nat rest)"

definition stream_bits :: "nat \<times> nat \<Rightarrow> byte list \<Rightarrow> nat" where
  "stream_bits = (\<lambda>(cur, curBits) rest. curBits + 8 * length rest)"

definition stream_ok :: "nat \<times> nat \<Rightarrow> bool" where
  "stream_ok = (\<lambda>(cur, curBits). curBits < 8 \<and> cur < 2 ^ curBits)"

lemma or_shifted_u32:
  assumes "unat val < 2 ^ g" "x < 2 ^ t" "g + t \<le> 32"
  shows "unat (val OR push_bit g (of_nat x) :: u32) = unat val + 2 ^ g * x"
proof -
  have "x < 2 ^ 32" using assms(2,3) power_increasing [of t 32 "2::nat"] by simp
  then have x: "unat (of_nat x :: u32) = x" by (simp add: unat_of_nat)
  have "x * 2 ^ g < 2 ^ t * 2 ^ g" using assms(2) by simp
  also have "\<dots> \<le> 2 ^ 32" using assms(3) power_increasing [of "t + g" 32 "2::nat"] by (simp add: power_add)
  finally have "take_bit 32 (push_bit g x) = push_bit g x"
    by (intro take_bit_nat_eq_self) (simp add: push_bit_eq_mult)
  then have "unat (val OR push_bit g (of_nat x) :: u32) = unat val OR push_bit g x"
    using x by (simp add: unsigned_or_eq unsigned_push_bit_eq)
  also have "\<dots> = unat val + x * 2 ^ g" by (rule nat_or_shifted [OF assms(1)])
  finally show ?thesis by (simp add: mult.commute)
qed

lemma unpack_step:
  assumes c: "cur < 2 ^ cb" and "t \<le> cb"
  shows "drop_bit t cur < 2 ^ (cb - t)"
    "stream_num (cur, cb) rest mod 2 ^ t = cur mod 2 ^ t"
    "stream_num (drop_bit t cur, cb - t) rest = stream_num (cur, cb) rest div 2 ^ t"
    "stream_bits (drop_bit t cur, cb - t) rest + t = stream_bits (cur, cb) rest"
proof -
  show "stream_num (cur, cb) rest mod 2 ^ t = cur mod 2 ^ t"
    "stream_num (drop_bit t cur, cb - t) rest = stream_num (cur, cb) rest div 2 ^ t"
    using low_bits_of_sum [OF assms(2) c, of "le_nat rest"] by (simp_all add: stream_num_def drop_bit_eq_div)
  show "drop_bit t cur < 2 ^ (cb - t)"
    using assms by (simp add: drop_bit_eq_div less_mult_imp_div_less flip: power_add)
qed (use assms(2) in \<open>simp add: stream_bits_def\<close>)

text \<open>Fetching a byte when the current one is used up leaves the stream as it is.\<close>

lemma unpack_refill:
  assumes "stream_ok (cur, cb)" "0 < stream_bits (cur, cb) rest"
  obtains used rest' cur' cb' where "rest = used @ rest'" "0 < cb'" "cb' \<le> 8" "cur' < 2 ^ cb'"
    "(if cb = 0 then bindR (readU8 (reader_at pre rest)) (\<lambda>(b, r). Inr ((b, 8), r))
      else Inr ((cur, cb), reader_at pre rest)) = Inr ((cur', cb'), reader_at (pre @ used) rest')"
    "stream_num (cur', cb') rest' = stream_num (cur, cb) rest"
    "stream_bits (cur', cb') rest' = stream_bits (cur, cb) rest"
proof (cases "cb = 0")
  case True
  then obtain b bs where "rest = b # bs" using assms(2) by (cases rest) (auto simp: stream_bits_def)
  then show ?thesis
    using True assms(1) that [of "[b]" bs 8 "unat b"]
    by (simp add: stream_ok_def stream_num_def stream_bits_def)
next
  case False
  then show ?thesis using assms(1) that [of "[]" rest cb cur] by (simp add: stream_ok_def)
qed

definition unpacks :: "nat \<Rightarrow> nat \<Rightarrow> u32 \<Rightarrow> nat \<times> nat \<Rightarrow> byte list \<Rightarrow> byte list \<Rightarrow> bool" where
  "unpacks w got val s pre rest \<longleftrightarrow> (\<exists>used rest' s' val'. rest = used @ rest' \<and> stream_ok s' \<and>
    unpack_value w got val s (reader_at pre rest) = Inr ((val', s'), reader_at (pre @ used) rest') \<and>
    stream_num s' rest' = stream_num s rest div 2 ^ (w - got) \<and>
    stream_bits s' rest' + (w - got) = stream_bits s rest \<and>
    unat val' = unat val + 2 ^ got * (stream_num s rest mod 2 ^ (w - got)))"

lemma unpack_value_num:
  assumes "stream_ok s" "unat val < 2 ^ got" "got \<le> w" "w \<le> 32" "w - got \<le> stream_bits s rest"
  shows "unpacks w got val s pre rest"
  using assms
proof (induction "w - got" arbitrary: got val s pre rest rule: less_induct)
  case less
  obtain cur cb where s: "s = (cur, cb)" by (cases s)
  show ?case
  proof (cases "got < w")
    case False
    with less.prems show ?thesis
      unfolding unpacks_def s
      by (intro exI [of _ "[]"] exI [of _ rest] exI [of _ "(cur, cb)"] exI [of _ val])
        (auto simp: unpack_value.simps s)
  next
    case True
    then have "0 < stream_bits (cur, cb) rest" using less.prems(5) by (simp add: s)
    from unpack_refill [OF less.prems(1) [unfolded s] this, of pre] obtain used rest1 cur1 cb1 where
      1: "rest = used @ rest1" "0 < cb1" "cb1 \<le> 8" "cur1 < 2 ^ cb1"
      and fill: "(if cb = 0 then bindR (readU8 (reader_at pre rest)) (\<lambda>(b, r). Inr ((b, 8), r))
        else Inr ((cur, cb), reader_at pre rest)) = Inr ((cur1, cb1), reader_at (pre @ used) rest1)"
      and same: "stream_num (cur1, cb1) rest1 = stream_num s rest" "stream_bits (cur1, cb1) rest1 = stream_bits s rest"
      by (metis s)
    define t where "t = min cb1 (w - got)"
    have t: "0 < t" "t \<le> cb1" "t \<le> w - got" using True 1(2) by (simp_all add: t_def)
    note step = unpack_step(1) [OF 1(4) t(2)] unpack_step(2-4) [OF 1(4) t(2), of rest1, unfolded same]
    define val1 where "val1 = val OR push_bit (got mod 32) (of_nat (cur1 AND (2 ^ t - 1)))"
    have val1: "unat val1 = unat val + 2 ^ got * (cur1 mod 2 ^ t)"
      unfolding val1_def nat_and_exp_minus_1
      using or_shifted_u32 [OF less.prems(2), of "cur1 mod 2 ^ t" t] t True less.prems(4) by simp
    have "unat val1 < 2 ^ got * Suc (cur1 mod 2 ^ t)" using val1 less.prems(2) by simp
    also have "\<dots> \<le> 2 ^ got * 2 ^ t" by (intro mult_le_mono2) (simp add: Suc_le_eq)
    finally have "unat val1 < 2 ^ (got + t)" by (simp add: power_add)
    moreover have "stream_ok (drop_bit t cur1, cb1 - t)" using step(1) 1(3) t(1) by (simp add: stream_ok_def)
    moreover have "w - (got + t) \<le> stream_bits (drop_bit t cur1, cb1 - t) rest1"
      using step(4) less.prems(5) t by simp
    ultimately have IH: "unpacks w (got + t) val1 (drop_bit t cur1, cb1 - t) (pre @ used) rest1"
      using less.hyps [of "got + t"] t less.prems(3,4) True by simp
    have "unpack_value w got val s (reader_at pre rest) =
        unpack_value w (got + t) val1 (drop_bit t cur1, cb1 - t) (reader_at (pre @ used) rest1)"
      using True fill by (simp add: s unpack_value.simps [of w got] val1_def t_def Let_def)
    moreover have "stream_num s rest div 2 ^ t div 2 ^ (w - (got + t)) = stream_num s rest div 2 ^ (w - got)"
    proof -
      have "t + (w - (got + t)) = w - got" using t(3) by simp
      then show ?thesis by (simp flip: div_mult2_eq power_add)
    qed
    moreover have "2 ^ got * (stream_num s rest mod 2 ^ (w - got)) = 2 ^ got * (cur1 mod 2 ^ t) +
        2 ^ (got + t) * (stream_num s rest div 2 ^ t mod 2 ^ (w - (got + t)))"
      using split_low_bits [OF t(3), of "stream_num s rest"] step(2) by (simp add: power_add algebra_simps)
    moreover from IH obtain used2 rest2 s2 val2 where 2: "rest1 = used2 @ rest2" "stream_ok s2"
      "unpack_value w (got + t) val1 (drop_bit t cur1, cb1 - t) (reader_at (pre @ used) rest1) =
        Inr ((val2, s2), reader_at ((pre @ used) @ used2) rest2)"
      "stream_num s2 rest2 = stream_num s rest div 2 ^ t div 2 ^ (w - (got + t))"
      "stream_bits s2 rest2 + (w - (got + t)) = stream_bits (drop_bit t cur1, cb1 - t) rest1"
      "unat val2 = unat val1 + 2 ^ (got + t) * (stream_num s rest div 2 ^ t mod 2 ^ (w - (got + t)))"
      unfolding unpacks_def step(3) by blast
    moreover have "stream_bits s2 rest2 + (w - got) = stream_bits s rest"
      using 2(5) step(4) t(3) by linarith
    ultimately show ?thesis
      unfolding unpacks_def using 1(1) val1
      by (intro exI [of _ "used @ used2"] exI [of _ rest2] exI [of _ s2] exI [of _ val2]) simp
  qed
qed

text \<open>A packed segment of a multiple of eight values.\<close>

lemma unpack_loop_num:
  assumes "stream_ok s" "w \<le> 32" "w * n \<le> stream_bits s rest" "length out \<le> count"
  shows "\<exists>used rest' s'. rest = used @ rest' \<and> stream_ok s' \<and>
    unpack_loop w n s out count (reader_at pre rest) =
      Inr (take count (out @ digits w n (stream_num s rest)), reader_at (pre @ used) rest') \<and>
    stream_bits s' rest' + w * n = stream_bits s rest"
  using assms
proof (induction n arbitrary: s pre rest out)
  case 0
  then show ?case by (intro exI [of _ "[]"] exI [of _ rest] exI [of _ s]) simp
next
  case (Suc n)
  have "unpacks w 0 0 s pre rest"
    using Suc.prems by (intro unpack_value_num) simp_all
  then obtain used rest1 s1 val where 1: "rest = used @ rest1" "stream_ok s1"
      "unpack_value w 0 0 s (reader_at pre rest) = Inr ((val, s1), reader_at (pre @ used) rest1)"
      "stream_num s1 rest1 = stream_num s rest div 2 ^ w" "stream_bits s1 rest1 + w = stream_bits s rest"
      "unat val = stream_num s rest mod 2 ^ w"
    by (auto simp: unpacks_def)
  define out1 where "out1 = (if length out < count then out @ [unat val] else out)"
  have "w * n \<le> stream_bits s1 rest1" "length out1 \<le> count"
    using Suc.prems 1(5) by (simp_all add: out1_def)
  from Suc.IH [OF 1(2) Suc.prems(2) this, of "pre @ used"] obtain used2 rest2 s2 where 2:
      "rest1 = used2 @ rest2" "stream_ok s2"
      "unpack_loop w n s1 out1 count (reader_at (pre @ used) rest1) =
        Inr (take count (out1 @ digits w n (stream_num s1 rest1)), reader_at ((pre @ used) @ used2) rest2)"
      "stream_bits s2 rest2 + w * n = stream_bits s1 rest1" by blast
  have "take count (out1 @ digits w n (stream_num s1 rest1)) =
      take count (out @ digits w (Suc n) (stream_num s rest))"
    using Suc.prems(4) 1(4,6) by (auto simp: out1_def take_Cons')
  with 1 2 show ?case
    by (intro exI [of _ "used @ used2"] exI [of _ rest2] exI [of _ s2]) (simp add: out1_def)
qed

lemma unpackBits_packBits:
  assumes "\<forall>v \<in> set vs. v < 2 ^ w" "w \<le> 32" "8 dvd length vs" "length out \<le> count"
  shows "unpackBits w (length vs) out count (reader_at pre (packBits vs w @ rest)) =
    Inr (take count (out @ vs), reader_at (pre @ packBits vs w) rest)"
proof -
  note num = packBits_num [OF assms(1-3)]
  have R: "stream_num (0, 0) (packBits vs w @ rest) = pack_sum w vs + 2 ^ (w * length vs) * le_nat rest"
    using num by (simp add: stream_num_def le_nat_append pow256)
  have "w * length vs \<le> stream_bits (0, 0) (packBits vs w @ rest)" using num by (simp add: stream_bits_def)
  moreover have "stream_ok (0, 0)" by (simp add: stream_ok_def)
  ultimately obtain used rest' s' where 1: "packBits vs w @ rest = used @ rest'" "stream_ok s'"
      "unpack_loop w (length vs) (0, 0) out count (reader_at pre (packBits vs w @ rest)) =
        Inr (take count (out @ digits w (length vs) (stream_num (0, 0) (packBits vs w @ rest))), reader_at (pre @ used) rest')"
      "stream_bits s' rest' + w * length vs = stream_bits (0, 0) (packBits vs w @ rest)"
    using unpack_loop_num [OF _ assms(2) _ assms(4)] by blast
  obtain c b where s': "s' = (c, b)" by (cases s')
  have "b + 8 * length rest' = 8 * length rest" "b < 8"
    using 1(2,4) num(2) by (simp_all add: s' stream_bits_def stream_ok_def)
  then have "length rest' = length rest" by presburger
  with 1(1) have "used = packBits vs w" "rest' = rest" by simp_all
  with 1(3) show ?thesis by (simp add: unpackBits_def R digits_pack_sum [OF assms(1)])
qed

text \<open>The value of an RLE run.\<close>

lemma le_nat_writeIntLE: "v < 2 ^ 32 \<Longrightarrow> n \<le> 4 \<Longrightarrow> le_nat (writeIntLE v n) = v mod 256 ^ n"
proof (induction n)
  case (Suc n)
  have "take_bit 32 v = v" using Suc.prems(1) by (rule take_bit_nat_eq_self)
  then have "drop_bit (n * 8 mod 32) (take_bit 32 v) AND 255 = v div 256 ^ n mod 256"
    using Suc.prems(2) by (simp add: nat_and_mask drop_bit_eq_div pow256 mult.commute)
  then have "writeIntLE v (Suc n) = writeIntLE v n @ [of_nat (v div 256 ^ n mod 256)]"
    by (simp add: writeIntLE_def)
  then have "le_nat (writeIntLE v (Suc n)) = v mod 256 ^ n + 256 ^ n * (v div 256 ^ n mod 256)"
    using Suc.IH Suc.prems by (simp add: le_nat_append writeIntLE_def)
  also have "\<dots> = v mod (256 ^ n * 256)" by (simp add: mod_mult2_eq)
  finally show ?case by (simp add: mult.commute)
qed (simp add: writeIntLE_def)

lemma length_writeIntLE [simp]: "length (writeIntLE v n) = n"
  by (simp add: writeIntLE_def)

lemma readIntLE_loop_bytes:
  assumes "unat v < 256 ^ i" "i + length bs \<le> 4"
  shows "\<exists>v'. readIntLE_loop (length bs) i v (reader_at pre (bs @ rest)) = Inr (v', reader_at (pre @ bs) rest) \<and>
    unat v' = unat v + 256 ^ i * le_nat bs"
  using assms
proof (induction bs arbitrary: i v pre)
  case (Cons b bs)
  define v1 where "v1 = v OR push_bit (i * 8 mod 32) (of_nat (unat b))"
  have "unat (v OR push_bit (i * 8) (of_nat (unat b)) :: u32) = unat v + 2 ^ (i * 8) * unat b"
    by (rule or_shifted_u32 [where t = 8]) (use Cons.prems in \<open>simp_all add: pow256 mult.commute\<close>)
  then have v1: "unat v1 = unat v + 256 ^ i * unat b"
    using Cons.prems(2) by (simp add: v1_def pow256 mult.commute)
  have "unat v1 < 256 ^ i * Suc (unat b)" using v1 Cons.prems(1) by simp
  also have "\<dots> \<le> 256 ^ i * 256" by (intro mult_le_mono2) (simp add: Suc_le_eq)
  finally have "unat v1 < 256 ^ (i + 1)" by (simp add: mult.commute)
  from Cons.IH [OF this, of "pre @ [b]"] Cons.prems(2) v1 show ?case
    by (simp add: v1_def algebra_simps)
qed simp

lemma readIntLE_writeIntLE:
  assumes "v < 2 ^ w" "w \<le> 32"
  shows "decodes_as (readIntLE (value_bytes w)) (writeIntLE v (value_bytes w)) v"
  unfolding decodes_as_def
proof (intro allI)
  fix pre rest
  have n: "value_bytes w \<le> 4" "w \<le> 8 * value_bytes w" using assms(2) by (simp_all add: value_bytes_def)
  have "(2::nat) ^ w \<le> 256 ^ value_bytes w" unfolding pow256 using n(2) by (rule power_increasing) simp
  then have "v mod 256 ^ value_bytes w = v" using assms(1) by simp
  moreover have "v < 2 ^ 32" using assms less_le_trans [OF assms(1) power_increasing [OF assms(2), of 2]] by simp
  ultimately show "readIntLE (value_bytes w) (reader_at pre (writeIntLE v (value_bytes w) @ rest)) =
      Inr (v, reader_at (pre @ writeIntLE v (value_bytes w)) rest)"
    using readIntLE_loop_bytes [of 0 0 "writeIntLE v (value_bytes w)" pre rest] n(1)
    by (auto simp: readIntLE_def le_nat_writeIntLE)
qed

subsection \<open>What is decoded\<close>

text \<open>The values the decoder sees: every mixed group is followed by the zeros that pad it.\<close>

function padded :: "nat list \<Rightarrow> nat list" where
  "padded [] = []"
| "padded (v # vs) =
     (if run_length (v # vs) \<ge> 8
      then replicate (run_length (v # vs)) v @ padded (drop (run_length (v # vs)) (v # vs))
      else pad_group (fst (mixed_group (v # vs))) @ padded (snd (mixed_group (v # vs))))"
  by pat_completeness auto
termination
proof (relation "measure length")
  fix v :: nat and vs
  assume "\<not> 8 \<le> run_length (v # vs)"
  then show "(snd (mixed_group (v # vs)), v # vs) \<in> measure length"
    using mixed_group_shorter [of v vs] by simp
qed auto

declare padded.simps [simp del]

lemma run_length_le: "run_length vs \<le> length vs"
  by (cases vs) (simp_all add: length_takeWhile_le)

lemma length_pad_group: "length (pad_group g) = num_groups g * 8" "8 dvd length (pad_group g)" "length g \<le> length (pad_group g)"
proof -
  have "length g \<le> num_groups g * 8" unfolding num_groups_def by presburger
  then show "length (pad_group g) = num_groups g * 8" by (simp add: pad_group_def)
  then show "8 dvd length (pad_group g)" by simp
  show "length g \<le> length (pad_group g)" by (simp add: pad_group_def)
qed

lemma padded_longer: "length vs \<le> length (padded vs)"
proof (induction vs rule: padded.induct)
  case (2 v vs)
  show ?case
  proof (cases "run_length (v # vs) \<ge> 8")
    case True
    with 2(1) run_length_le [of "v # vs"] show ?thesis by (simp add: padded.simps(2) [of v] del: run_length.simps)
  next
    case False
    have "length (fst (mixed_group (v # vs)) @ snd (mixed_group (v # vs))) = length (v # vs)"
      by (simp only: mixed_group_append)
    with 2(2) [OF False] length_pad_group(3) [of "fst (mixed_group (v # vs))"] False show ?thesis
      by (simp add: padded.simps(2) [of v] del: run_length.simps mixed_group.simps)
  qed
qed simp

lemma take_take_append: "take n (take n a @ b) = take n (a @ b)"
  by (cases "length a \<le> n") simp_all

lemma run_header:
  assumes "n < 2 ^ 30"
  shows "varint_bytes (js_shl1 (int n)) = Inr (varint_groups (2 * n))"
    "varint_bytes (js_shl1 (int n) OR 1) = Inr (varint_groups (2 * n + 1))"
proof -
  have dbl: "js_shl1 (int n) = int (2 * n)" using assms by (subst js_shl1_double) simp_all
  have "take_bit 64 (2 * n) = 2 * n" "take_bit 64 (2 * n + 1) = 2 * n + 1"
    using assms by (intro take_bit_nat_eq_self; simp)+
  moreover have "int (2 * n) OR 1 = int (2 * n + 1)" by (simp add: or_one_eq)
  ultimately show "varint_bytes (js_shl1 (int n)) = Inr (varint_groups (2 * n))"
    "varint_bytes (js_shl1 (int n) OR 1) = Inr (varint_groups (2 * n + 1))"
    unfolding dbl by (simp_all only: varint_bytes_def nat_int if_False) simp_all
qed

lemma readVarint32_header:
  assumes "n < 2 ^ 30"
  shows "readVarint32 (reader_at pre (varint_groups (2 * n) @ rest)) = Inr (2 * n, reader_at (pre @ varint_groups (2 * n)) rest)"
    "readVarint32 (reader_at pre (varint_groups (2 * n + 1) @ rest)) = Inr (2 * n + 1, reader_at (pre @ varint_groups (2 * n + 1)) rest)"
  using assms by (intro varint32.read_encoded; simp)+

text \<open>A run of the stream adds the values \<open>seg\<close> to whatever has been decoded before it.\<close>

definition decodes_run :: "nat \<Rightarrow> (js_error + byte list) \<Rightarrow> nat list \<Rightarrow> bool" where
  "decodes_run w x seg \<longleftrightarrow> (\<exists>bs. x = Inr bs \<and> (\<forall>out count pre rest. length out < count \<longrightarrow>
      rle_decode w out count (reader_at pre (bs @ rest)) =
        rle_decode w (take count (out @ seg)) count (reader_at (pre @ bs) rest)))"

lemma decode_rle_run:
  assumes "0 < w" "w \<le> 32" "v < 2 ^ w" "n < 2 ^ 30"
  shows "decodes_run w (rle_run n v w) (replicate n v)"
proof -
  define bs where "bs = varint_groups (2 * n) @ writeIntLE v (value_bytes w)"
  have rep: "out @ replicate (min n (count - length out)) v = take count (out @ replicate n v)"
    if "length out < count" for out count using that by (simp add: min.commute)
  have "rle_run n v w = Inr bs" using run_header [OF assms(4)] by (simp add: rle_run_def bs_def)
  moreover have "rle_decode w out count (reader_at pre (bs @ rest)) =
      rle_decode w (take count (out @ replicate n v)) count (reader_at (pre @ bs) rest)"
    if "length out < count" for out count pre rest
    using that rep [OF that] readVarint32_header(1) [OF assms(4)] decodes_asD [OF readIntLE_writeIntLE [OF assms(3,2)]]
    by (simp add: rle_decode.simps [of w out] bs_def and_one_eq drop_bit_eq_div del: take_append)
  ultimately show ?thesis by (simp add: decodes_run_def)
qed

lemma decode_packed_run:
  assumes "0 < w" "w \<le> 32" "\<forall>v \<in> set g. v < 2 ^ w" "length g < 2 ^ 30"
  shows "decodes_run w (packed_run g w) (pad_group g)"
proof -
  define n where "n = num_groups g"
  have n: "n < 2 ^ 30" using assms(4) by (simp add: n_def num_groups_def)
  define bs where "bs = varint_groups (2 * n + 1) @ packBits (pad_group g) w"
  have g: "\<forall>v \<in> set (pad_group g). v < 2 ^ w" using assms(3) by (auto simp: pad_group_def)
  have "packed_run g w = Inr bs" using run_header [OF n] by (simp add: packed_run_def bs_def flip: n_def)
  moreover have "rle_decode w out count (reader_at pre (bs @ rest)) =
      rle_decode w (take count (out @ pad_group g)) count (reader_at (pre @ bs) rest)"
    if "length out < count" for out count pre rest
    using that readVarint32_header(2) [OF n]
      unpackBits_packBits [OF g assms(2) length_pad_group(2) less_imp_le [OF that]]
    by (simp add: rle_decode.simps [of w out] bs_def and_one_eq drop_bit_eq_div length_pad_group(1)
        del: take_append flip: n_def)
  ultimately show ?thesis by (simp add: decodes_run_def del: take_append)
qed

text \<open>The whole stream, decoded after any output.\<close>

definition decodes_stream :: "nat \<Rightarrow> (js_error + byte list) \<Rightarrow> nat list \<Rightarrow> bool" where
  "decodes_stream w x vs \<longleftrightarrow> (\<exists>bs. x = Inr bs \<and>
    (\<forall>out count pre rest. length out \<le> count \<longrightarrow> count \<le> length out + length vs \<longrightarrow>
      (\<exists>r. rle_decode w out count (reader_at pre (bs @ rest)) = Inr (take count (out @ vs), r))))"

lemma decodes_stream_run:
  assumes "decodes_run w x seg" "decodes_stream w y vs"
  shows "decodes_stream w (bindR x (\<lambda>bs. bindR y (\<lambda>cs. Inr (bs @ cs)))) (seg @ vs)"
proof -
  from assms(1) obtain hs where hs: "x = Inr hs" "\<And>out count pre rest. length out < count \<Longrightarrow>
      rle_decode w out count (reader_at pre (hs @ rest)) =
        rle_decode w (take count (out @ seg)) count (reader_at (pre @ hs) rest)"
    unfolding decodes_run_def by blast
  from assms(2) obtain ts where ts: "y = Inr ts" "\<And>out count pre rest. length out \<le> count \<Longrightarrow>
      count \<le> length out + length vs \<Longrightarrow>
      \<exists>r. rle_decode w out count (reader_at pre (ts @ rest)) = Inr (take count (out @ vs), r)"
    unfolding decodes_stream_def by blast
  have "\<exists>r. rle_decode w out count (reader_at pre ((hs @ ts) @ rest)) = Inr (take count (out @ seg @ vs), r)"
    if len: "length out \<le> count" "count \<le> length out + length (seg @ vs)" for out count pre rest
  proof (cases "length out < count")
    case True
    let ?out = "take count (out @ seg)"
    have "length ?out \<le> count" "count \<le> length ?out + length vs" using len by auto
    from ts(2) [OF this, of "pre @ hs" rest] show ?thesis
      unfolding append_assoc hs(2) [OF True] take_take_append .
  qed (use len in \<open>simp add: rle_decode.simps\<close>)
  with hs(1) ts(1) show ?thesis by (simp add: decodes_stream_def)
qed

lemma rle_loop_decode:
  assumes "0 < w" "w \<le> 32" "\<forall>v \<in> set vs. v < 2 ^ w" "length vs < 2 ^ 30"
  shows "decodes_stream w (rle_loop w vs) (padded vs)"
  using assms
proof (induction vs rule: padded.induct)
  case 1
  show ?case by (simp add: decodes_stream_def rle_loop.simps padded.simps rle_decode.simps)
next
  case (2 v vs)
  let ?all = "v # vs"
  note loop = rle_loop.simps(2) [of w v vs] padded.simps(2) [of v vs] Let_def
  show ?case
  proof (cases "run_length ?all \<ge> 8")
    case True
    have "decodes_run w (rle_run (run_length ?all) v w) (replicate (run_length ?all) v)"
      using 2(3-6) run_length_le [of ?all] by (intro decode_rle_run) (simp_all del: run_length.simps)
    moreover have "decodes_stream w (rle_loop w (drop (run_length ?all) ?all)) (padded (drop (run_length ?all) ?all))"
      using 2(3-6) set_drop_subset [of "run_length ?all" ?all] by (intro 2(1) [OF True]) (auto simp del: run_length.simps)
    ultimately show ?thesis using True by (simp only: loop if_True decodes_stream_run)
  next
    case False
    have split: "fst (mixed_group ?all) @ snd (mixed_group ?all) = ?all" by (rule mixed_group_append)
    have "decodes_run w (packed_run (fst (mixed_group ?all)) w) (pad_group (fst (mixed_group ?all)))"
      using 2(3-6) arg_cong [OF split, of length] arg_cong [OF split, of set]
      by (intro decode_packed_run) (auto simp del: mixed_group.simps)
    moreover have "decodes_stream w (rle_loop w (snd (mixed_group ?all))) (padded (snd (mixed_group ?all)))"
      using 2(3-6) arg_cong [OF split, of length] arg_cong [OF split, of set]
      by (intro 2(2) [OF False]) (auto simp del: mixed_group.simps)
    ultimately show ?thesis using False by (simp only: loop if_False decodes_stream_run)
  qed
qed

lemma decodes_streamD:
  assumes "decodes_stream w x vs" "n \<le> length vs"
  shows "\<exists>bs r. x = Inr bs \<and> rle_decode w [] n (reader_at pre (bs @ rest)) = Inr (take n vs, r)"
  using assms unfolding decodes_stream_def by (metis append_Nil add_0 le0 list.size(3))

subsection \<open>When padding is harmless\<close>

text \<open>Padding inside the stream is harmless when every mixed group before a run fills its groups of eight.\<close>

function aligned :: "nat list \<Rightarrow> bool" where
  "aligned [] = True"
| "aligned (v # vs) =
     (if run_length (v # vs) \<ge> 8
      then aligned (drop (run_length (v # vs)) (v # vs))
      else snd (mixed_group (v # vs)) = [] \<or>
        (8 dvd length (fst (mixed_group (v # vs))) \<and> aligned (snd (mixed_group (v # vs)))))"
  by pat_completeness auto
termination
proof (relation "measure length")
  fix v :: nat and vs
  assume "\<not> 8 \<le> run_length (v # vs)"
  then show "(snd (mixed_group (v # vs)), v # vs) \<in> measure length"
    using mixed_group_shorter [of v vs] by simp
qed auto

declare aligned.simps [simp del]

lemma run_length_replicate: "replicate (run_length (v # vs)) v @ drop (run_length (v # vs)) (v # vs) = v # vs"
proof -
  have "takeWhile (\<lambda>x. x = v) vs = replicate (length (takeWhile (\<lambda>x. x = v) vs)) v"
    by (induction vs) auto
  then show ?thesis using takeWhile_dropWhile_id [of "\<lambda>x. x = v" vs] by (simp add: dropWhile_eq_drop)
qed

lemma pad_group_full: "8 dvd length g \<Longrightarrow> pad_group g = g"
proof -
  assume "8 dvd length g"
  then have "num_groups g * 8 = length g" unfolding num_groups_def by presburger
  then show ?thesis by (simp add: pad_group_def)
qed

lemma aligned_padded: "aligned vs \<Longrightarrow> take (length vs) (padded vs) = vs"
proof (induction vs rule: aligned.induct)
  case (2 v vs)
  let ?all = "v # vs" and ?n = "run_length (v # vs)"
  show ?case
  proof (cases "?n \<ge> 8")
    case True
    have "take (length (drop ?n ?all)) (padded (drop ?n ?all)) = drop ?n ?all"
      using 2(1) [OF True] 2(3) True by (simp only: aligned.simps(2) [of v vs] if_True)
    moreover have "length ?all = ?n + length (drop ?n ?all)" using run_length_le [of ?all] by simp
    ultimately have "take (length ?all) (padded ?all) = replicate ?n v @ drop ?n ?all"
      using True by (simp only: padded.simps(2) [of v vs] if_True take_append length_replicate take_replicate
          diff_add_inverse min_add_distrib_left) simp
    then show ?thesis by (simp only: run_length_replicate)
  next
    case False
    obtain g tl where g: "mixed_group ?all = (g, tl)" by (cases "mixed_group ?all")
    have all: "?all = g @ tl" using mixed_group_append [of ?all] g by simp
    have pad: "padded ?all = pad_group g @ padded tl"
      using False g by (simp add: padded.simps(2) [of v vs] del: run_length.simps mixed_group.simps)
    show ?thesis
    proof (cases "tl = []")
      case True
      then show ?thesis unfolding pad by (simp add: all pad_group_def)
    next
      case nonempty: False
      then have "8 dvd length g" "aligned tl"
        using 2(3) False g by (simp_all add: aligned.simps(2) [of v vs] del: run_length.simps mixed_group.simps)
      moreover from this have "take (length tl) (padded tl) = tl" using 2(2) [OF False] nonempty g by simp
      ultimately show ?thesis unfolding pad by (simp add: all pad_group_full)
    qed
  qed
qed simp

lemma mixed_group_no_run: "\<forall>i. run_length (drop i vs) < 8 \<Longrightarrow> mixed_group vs = (vs, [])"
proof (induction vs)
  case (Cons v vs)
  have "run_length (drop i vs) < 8" for i using Cons.prems [rule_format, of "Suc i"] by simp
  moreover have "run_length (v # vs) < 8" using Cons.prems [rule_format, of 0] by simp
  ultimately show ?case using Cons.IH by (simp del: run_length.simps)
qed simp

lemma aligned_no_run: "\<forall>i. run_length (drop i vs) < 8 \<Longrightarrow> aligned vs"
proof (cases vs)
  case (Cons v vs')
  assume *: "\<forall>i. run_length (drop i vs) < 8"
  have "run_length (v # vs') < 8" using * [rule_format, of 0] Cons by simp
  with mixed_group_no_run [OF *] show ?thesis by (simp add: Cons aligned.simps(2) [of v] del: run_length.simps)
qed (simp add: aligned.simps)

lemma run_length_replicate_append: "run_length (replicate (Suc k) 0 @ replicate n (1::nat)) = Suc k"
  by (induction k) (auto simp: takeWhile_append)

lemma mixed_group_short_run:
  assumes "k < 8" "8 \<le> n"
  shows "mixed_group (replicate k 0 @ replicate n (1::nat)) = (replicate k 0, replicate n 1)"
  using assms
proof (induction k)
  case 0
  then obtain m where n: "n = Suc m" by (cases n) auto
  then show ?case using 0 by simp
next
  case (Suc k)
  have "mixed_group (0 # replicate k 0 @ replicate n (1::nat)) =
    (let (g, rest) = mixed_group (replicate k 0 @ replicate n 1) in (0 # g, rest))"
    using Suc.prems run_length_replicate_append [of k n] by (simp del: run_length.simps)
  with Suc show ?case by simp
qed

lemma padded_short_run:
  assumes "0 < k" "k < 8" "8 \<le> n"
  shows "padded (replicate k 0 @ replicate n (1::nat)) = replicate 8 0 @ replicate n 1"
proof -
  obtain j m where k: "k = Suc j" and n: "n = Suc m" using assms by (metis gr0_conv_Suc less_le_trans zero_less_numeral)
  have run: "run_length (1 # replicate m 1) = n" by (simp add: n)
  have "padded (1 # replicate m 1) = replicate n 1"
    unfolding padded.simps(2) run using assms(3) by (simp add: n padded.simps)
  moreover have "pad_group (replicate k 0) = replicate 8 0"
    using assms by (simp add: pad_group_def num_groups_def flip: replicate_add)
  ultimately show ?thesis
    using assms run_length_replicate_append [of j n] mixed_group_short_run [OF assms(2,3)]
    by (simp add: k n padded.simps(2) [of 0] del: run_length.simps mixed_group.simps)
qed

lemma leading_zeros:
  "(x::nat) < 2 ^ n \<Longrightarrow> x < 2 ^ w \<longleftrightarrow> n - length (takeWhile Not (map (bit x) (rev [0..<n]))) \<le> w"
proof (induction n)
  case (Suc n)
  show ?case
  proof (cases "bit x n")
    case True
    then have "2 ^ n \<le> x" by (metis bit_iff_odd div_less even_zero not_le)
    then have "x < 2 ^ w \<Longrightarrow> n < w" by (metis le_less_trans nat_power_less_imp_less zero_less_numeral)
    moreover have "Suc n \<le> w \<Longrightarrow> x < 2 ^ w"
      using Suc.prems less_le_trans [OF _ power_increasing [of "Suc n" w "2::nat"]] by simp
    ultimately show ?thesis using True by auto
  next
    case False
    have "x div 2 ^ n < 2" using Suc.prems by (simp add: less_mult_imp_div_less)
    then have "x < 2 ^ n" using False by (auto simp: bit_iff_odd less_2_cases_iff div_eq_0_iff)
    with Suc.IH False show ?thesis by simp
  qed
qed simp

lemma clz32_bits:
  assumes "x < 2 ^ 32"
  shows "x < 2 ^ w \<longleftrightarrow> 32 - clz32 x \<le> w"
proof -
  have "map (bit (of_nat x :: u32)) (rev [0..<32]) = map (bit x) (rev [0..<32])"
    by (rule map_cong) (auto simp: bit_simps)
  with leading_zeros [OF assms, of w] show ?thesis by (simp only: clz32_def)
qed

lemma aligned_stream:
  assumes "bitWidth \<le> 32" "\<forall>v \<in> set values. v < 2 ^ bitWidth" "length values < 2 ^ 30"
    and "aligned values \<or> (\<forall>i. run_length (drop i values) < 8)"
  shows "\<exists>bs r. encodeRleHybrid values bitWidth = Inr bs \<and>
    decodeRleHybrid bitWidth (length values) (reader_at pre (bs @ rest)) = Inr (values, r)"
proof (cases "bitWidth = 0")
  case True
  then have "values = replicate (length values) 0" using assms(2) by (simp add: map_replicate_const map_idI flip: map_replicate_const)
  moreover have "\<exists>bs. encodeRleHybrid values bitWidth = Inr bs"
    using True run_header(1) [OF assms(3)] by (simp add: encodeRleHybrid_def)
  ultimately show ?thesis using True by (auto simp: decodeRleHybrid_def)
next
  case False
  have "take (length values) (padded values) = values" using assms(4) aligned_no_run aligned_padded by blast
  with False decodes_streamD [OF rle_loop_decode [OF _ assms(1-3)] padded_longer] show ?thesis
    by (simp add: encodeRleHybrid_def decodeRleHybrid_def)
qed

text \<open>An aligned stream is consumed to its last byte.\<close>

definition decodes_exactly :: "nat \<Rightarrow> (js_error + byte list) \<Rightarrow> nat list \<Rightarrow> bool" where
  "decodes_exactly w x vs \<longleftrightarrow> (\<exists>bs. x = Inr bs \<and> (\<forall>out pre rest.
      rle_decode w out (length out + length vs) (reader_at pre (bs @ rest)) = Inr (out @ vs, reader_at (pre @ bs) rest)))"

lemma decodes_exactly_run:
  assumes "decodes_run w x seg" "decodes_exactly w y vs" "seg \<noteq> []"
  shows "decodes_exactly w (bindR x (\<lambda>bs. bindR y (\<lambda>cs. Inr (bs @ cs)))) (seg @ vs)"
proof -
  from assms(1) obtain hs where hs: "x = Inr hs" "\<And>out count pre rest. length out < count \<Longrightarrow>
      rle_decode w out count (reader_at pre (hs @ rest)) =
        rle_decode w (take count (out @ seg)) count (reader_at (pre @ hs) rest)"
    unfolding decodes_run_def by blast
  from assms(2) obtain cs where cs: "y = Inr cs" "\<And>out pre rest.
      rle_decode w out (length out + length vs) (reader_at pre (cs @ rest)) = Inr (out @ vs, reader_at (pre @ cs) rest)"
    unfolding decodes_exactly_def by blast
  have "rle_decode w out (length out + length (seg @ vs)) (reader_at pre ((hs @ cs) @ rest)) =
      Inr (out @ seg @ vs, reader_at (pre @ hs @ cs) rest)" for out pre rest
    using hs(2) [of out "length out + length (seg @ vs)" pre "cs @ rest"] cs(2) [of "out @ seg" "pre @ hs" rest] assms(3)
    by (simp add: add.assoc)
  then show ?thesis using hs(1) cs(1) unfolding decodes_exactly_def by auto
qed

lemma decodes_exactly_Nil: "decodes_exactly w (Inr []) []"
  by (simp add: decodes_exactly_def rle_decode.simps)

text \<open>The last group may be padded: what is read past the count is dropped.\<close>

lemma decodes_exactly_last:
  assumes "decodes_run w x seg" "take (length vs) seg = vs" "vs \<noteq> []"
  shows "decodes_exactly w (bindR x (\<lambda>bs. Inr bs)) vs"
proof -
  from assms(1) obtain hs where hs: "x = Inr hs" "\<And>out count pre rest. length out < count \<Longrightarrow>
      rle_decode w out count (reader_at pre (hs @ rest)) =
        rle_decode w (take count (out @ seg)) count (reader_at (pre @ hs) rest)"
    unfolding decodes_run_def by blast
  have "rle_decode w out (length out + length vs) (reader_at pre (hs @ rest)) = Inr (out @ vs, reader_at (pre @ hs) rest)"
    for out pre rest
    using hs(2) [of out "length out + length vs" pre rest] assms(2,3) by (simp add: rle_decode.simps [of w "out @ vs"])
  then show ?thesis using hs(1) unfolding decodes_exactly_def by auto
qed

lemma rle_loop_exactly:
  assumes "0 < w" "w \<le> 32" "\<forall>v \<in> set vs. v < 2 ^ w" "length vs < 2 ^ 30" "aligned vs"
  shows "decodes_exactly w (rle_loop w vs) vs"
  using assms
proof (induction vs rule: aligned.induct)
  case 1
  show ?case by (simp add: rle_loop.simps decodes_exactly_Nil)
next
  case (2 v vs)
  let ?all = "v # vs" and ?n = "run_length (v # vs)"
  note loop = rle_loop.simps(2) [of w v vs] Let_def
  show ?case
  proof (cases "?n \<ge> 8")
    case True
    have "decodes_run w (rle_run ?n v w) (replicate ?n v)"
      using 2(3-6) run_length_le [of ?all] by (intro decode_rle_run) (simp_all del: run_length.simps)
    moreover have "aligned (drop ?n ?all)" using 2(7) True by (simp only: aligned.simps(2) [of v vs] if_True)
    then have "decodes_exactly w (rle_loop w (drop ?n ?all)) (drop ?n ?all)"
      using 2(3-6) set_drop_subset [of ?n ?all] by (intro 2(1) [OF True]) (auto simp del: run_length.simps)
    moreover have "replicate ?n v \<noteq> []" using True by (simp only: replicate_empty)
    ultimately have "decodes_exactly w (rle_loop w ?all) (replicate ?n v @ drop ?n ?all)"
      using True by (simp only: loop if_True decodes_exactly_run not_False_eq_True)
    then show ?thesis by (simp only: run_length_replicate)
  next
    case False
    obtain g more where g: "mixed_group ?all = (g, more)" by (cases "mixed_group ?all")
    have all: "?all = g @ more" using mixed_group_append [of ?all] g by simp
    have "g \<noteq> []" using False g by (auto split: prod.splits)
    have loop: "rle_loop w ?all = bindR (packed_run g w) (\<lambda>bs. bindR (rle_loop w more) (\<lambda>cs. Inr (bs @ cs)))"
      using False by (simp only: loop if_False g fst_conv snd_conv)
    have run: "decodes_run w (packed_run g w) (pad_group g)"
      using 2(3-6) arg_cong [OF all, of length] arg_cong [OF all, of set] by (intro decode_packed_run) auto
    have al: "more = [] \<or> 8 dvd length g \<and> aligned more"
      using 2(7) False g by (simp only: aligned.simps(2) [of v vs] if_False fst_conv snd_conv)
    show ?thesis
    proof (cases "more = []")
      case True
      have "take (length g) (pad_group g) = g" by (simp add: pad_group_def)
      from decodes_exactly_last [OF run this \<open>g \<noteq> []\<close>] show ?thesis
        unfolding loop by (simp add: True all rle_loop.simps)
    next
      case nonempty: False
      then have "8 dvd length g" "aligned more" using al by auto
      have "length more \<le> length ?all" by (simp add: all)
      moreover have "\<forall>x \<in> set more. x < 2 ^ w" using 2(5) unfolding all by simp
      ultimately have "decodes_exactly w (rle_loop w more) more"
        using 2(3,4,6) \<open>aligned more\<close> 2(2) [OF False] nonempty \<open>8 dvd length g\<close> unfolding g by simp
      from decodes_exactly_run [OF run this] \<open>8 dvd length g\<close> \<open>g \<noteq> []\<close>
      have "decodes_exactly w (rle_loop w ?all) (g @ more)" by (simp only: loop pad_group_full not_False_eq_True)
      then show ?thesis by (simp only: all)
    qed
  qed
qed

lemma exact_levels:
  assumes "0 < w" "w \<le> 32" "\<forall>v \<in> set vs. v < 2 ^ w" "length vs < 2 ^ 30" "aligned vs"
  shows "\<exists>bs. encodeRleHybrid vs w = Inr bs \<and>
    (\<forall>pre rest. decodeRleHybrid w (length vs) (reader_at pre (bs @ rest)) = Inr (vs, reader_at (pre @ bs) rest))"
proof -
  obtain bs where "rle_loop w vs = Inr bs"
    "\<And>out pre rest. rle_decode w out (length out + length vs) (reader_at pre (bs @ rest)) = Inr (out @ vs, reader_at (pre @ bs) rest)"
    using rle_loop_exactly [OF assms] unfolding decodes_exactly_def by blast
  from this(1) this(2) [of "[]"] assms(1) show ?thesis by (simp add: encodeRleHybrid_def decodeRleHybrid_def)
qed

lemma width_fits: "n < 2 ^ 32 \<Longrightarrow> n < 2 ^ bitWidthForMax n \<and> bitWidthForMax n \<le> 32"
  using clz32_bits [of n "32 - clz32 n"] by (auto simp: bitWidthForMax_def)

lemma width_pos: "n < 2 ^ 32 \<Longrightarrow> 0 < n \<Longrightarrow> 0 < bitWidthForMax n"
  using width_fits [of n] by (cases "bitWidthForMax n = 0") auto


subsection \<open>Properties\<close>

text \<open>A sequence of values of at most \<open>bitWidth\<close> bits, encoded by \<open>encodeRleHybrid\<close> and decoded
  with its own length as the count, comes back unchanged whenever every bit-packed segment that is
  followed by a run holds a multiple of eight values (in particular when there is no run of eight);
  whatever precedes and follows the stream.\<close>

theorem rle_hybrid_roundtrip:
  assumes "bitWidth \<le> 32" "\<forall>v \<in> set values. v < 2 ^ bitWidth" "length values < 2 ^ 30"
    and "aligned values \<or> (\<forall>i. run_length (drop i values) < 8)"
  shows "\<exists>bs r. encodeRleHybrid values bitWidth = Inr bs \<and>
    decodeRleHybrid bitWidth (length values) (reader_at pre (bs @ rest)) = Inr (values, r)"
  using assms by (rule aligned_stream)

theorem rle_hybrid_roundtrip_witness:
  "\<exists>bs r. encodeRleHybrid (0 # 1 # replicate 6 2 @ replicate 9 3) 2 = Inr bs \<and>
    decodeRleHybrid 2 17 (reader_at [7] (bs @ [8])) = Inr (0 # 1 # replicate 6 2 @ replicate 9 3, r)"
proof -
  have "aligned (0 # 1 # replicate 6 2 @ replicate 9 3)" by code_simp
  then show ?thesis using rle_hybrid_roundtrip [of 2 "0 # 1 # replicate 6 2 @ replicate 9 3" "[7]" "[8]"] by simp
qed

text \<open>In general the decoder returns the values with every bit-packed segment padded with zeros to a
  multiple of eight, cut at the count: the padding of a segment in the middle of the stream is not
  discarded.\<close>

theorem rle_hybrid_decodes_padded:
  assumes "0 < bitWidth" "bitWidth \<le> 32" "\<forall>v \<in> set values. v < 2 ^ bitWidth" "length values < 2 ^ 30"
    and "count \<le> length (padded values)"
  shows "\<exists>bs r. encodeRleHybrid values bitWidth = Inr bs \<and>
    decodeRleHybrid bitWidth count (reader_at pre (bs @ rest)) = Inr (take count (padded values), r)"
  using assms(1) decodes_streamD [OF rle_loop_decode [OF assms(1-4)] assms(5), of pre rest]
  by (simp add: encodeRleHybrid_def decodeRleHybrid_def)

theorem rle_hybrid_decodes_padded_witness:
  "\<exists>bs r. encodeRleHybrid (0 # replicate 8 1) 1 = Inr bs \<and>
    decodeRleHybrid 1 9 (reader_at [] (bs @ [])) = Inr (take 9 (padded (0 # replicate 8 1)), r)"
proof -
  have "9 \<le> length (padded (0 # replicate 8 1))" by code_simp
  then show ?thesis using rle_hybrid_decodes_padded [of 1 "0 # replicate 8 1" 9 "[]" "[]"] by simp
qed

text \<open>Definition levels that start with one to seven nulls followed by at least eight values are not
  read back: the decoder returns eight nulls, and as many values less.\<close>

theorem rle_hybrid_loses_levels:
  assumes "0 < k" "k < 8" "8 \<le> n" "k + n < 2 ^ 30"
  shows "\<exists>bs r. encodeRleHybrid (replicate k 0 @ replicate n 1) 1 = Inr bs \<and>
    decodeRleHybrid 1 (k + n) (reader_at pre (bs @ rest)) = Inr (replicate 8 0 @ replicate (k + n - 8) 1, r)"
proof -
  have pad: "padded (replicate k 0 @ replicate n 1) = replicate 8 0 @ replicate n 1"
    using assms by (intro padded_short_run) auto
  have "take (k + n) (replicate 8 0 @ replicate n 1) = replicate 8 (0::nat) @ replicate (k + n - 8) 1"
    using assms by (simp add: min_def)
  with decodes_streamD [OF rle_loop_decode [of 1 "replicate k 0 @ replicate n 1"], of "k + n" pre rest] assms
  show ?thesis by (simp add: encodeRleHybrid_def decodeRleHybrid_def pad [unfolded One_nat_def] set_replicate_conv_if)
qed

theorem rle_hybrid_loses_levels_witness:
  "\<exists>bs r. encodeRleHybrid (replicate 1 0 @ replicate 8 1) 1 = Inr bs \<and>
    decodeRleHybrid 1 (1 + 8) (reader_at [] (bs @ [])) = Inr (replicate 8 0 @ replicate (1 + 8 - 8) 1, r)"
  by (rule rle_hybrid_loses_levels) simp_all

text \<open>\<open>bitWidthForMax\<close> is the least number of bits that holds every value up to the maximum.\<close>

theorem bitWidthForMax_least:
  assumes "maxValue < 2 ^ 32"
  shows "maxValue < 2 ^ w \<longleftrightarrow> bitWidthForMax maxValue \<le> w"
proof (cases "maxValue = 0")
  case False
  have "maxValue < 2 ^ w \<longleftrightarrow> 32 - clz32 maxValue \<le> w" if "maxValue \<noteq> 0"
    using clz32_bits [OF assms] .
  with False show ?thesis by (simp add: bitWidthForMax_def)
qed (simp add: bitWidthForMax_def)

theorem bitWidthForMax_least_witness: "4 < (2::nat) ^ 3 \<longleftrightarrow> bitWidthForMax 4 \<le> 3"
  by (rule bitWidthForMax_least) simp

end
