(* ===== verification/Parquet_Delta.thy ===== *)
theory Parquet_Delta
  imports Parquet_Levels
begin

text \<open>
  \<open>data/parquet/delta.ts\<close>: DELTA_BINARY_PACKED, DELTA_LENGTH_BYTE_ARRAY and DELTA_BYTE_ARRAY.

  \<open>bigint\<close> values are \<open>int\<close>; the counts in the stream headers, which the code narrows with \<open>Number()\<close>,
  are exact. What a \<open>BitWriter\<close> has written so far is part of its state. A \<open>for\<close> loop up to the
  fraction \<open>blockSize / miniblocks\<close> runs as often as the next whole number.
\<close>

definition BLOCK_SIZE :: nat where "BLOCK_SIZE = 128"
definition MINIBLOCKS :: nat where "MINIBLOCKS = 4"
definition VALUES_PER_MINIBLOCK :: nat where "VALUES_PER_MINIBLOCK = BLOCK_SIZE div MINIBLOCKS"

subsection \<open>BitReader and BitWriter\<close>

record bit_reader =
  br_cur :: nat
  br_bits :: nat

function bit_fill :: "nat \<Rightarrow> bit_reader \<Rightarrow> bit_reader read" where
  "bit_fill bitWidth b r =
     (if br_bits b < bitWidth then
        bindR (readU8 r) (\<lambda>(x, r).
          bit_fill bitWidth \<lparr>br_cur = br_cur b OR push_bit (br_bits b) x, br_bits = br_bits b + 8\<rparr> r)
      else Inr (b, r))"
  by pat_completeness auto
termination
  by (relation "measure (\<lambda>(bitWidth, b, r). bitWidth - br_bits b)") auto

declare bit_fill.simps [simp del]

definition bit_read :: "nat \<Rightarrow> bit_reader \<Rightarrow> (nat \<times> bit_reader) read" where
  "bit_read bitWidth b r = bindR (bit_fill bitWidth b r) (\<lambda>(b, r).
     Inr ((br_cur b AND (2 ^ bitWidth - 1),
           \<lparr>br_cur = drop_bit bitWidth (br_cur b), br_bits = br_bits b - bitWidth\<rparr>), r))"

definition new_bit_reader :: bit_reader where
  "new_bit_reader = \<lparr>br_cur = 0, br_bits = 0\<rparr>"

record bit_writer =
  bw_out :: "byte list"
  bw_cur :: nat
  bw_bits :: nat

function bit_drain :: "bit_writer \<Rightarrow> bit_writer" where
  "bit_drain b =
     (if bw_bits b \<ge> 8 then
        bit_drain \<lparr>bw_out = bw_out b @ [of_nat (bw_cur b AND 255)],
          bw_cur = drop_bit 8 (bw_cur b), bw_bits = bw_bits b - 8\<rparr>
      else b)"
  by pat_completeness auto
termination
  by (relation "measure bw_bits") auto

declare bit_drain.simps [simp del]

definition bit_write :: "int \<Rightarrow> nat \<Rightarrow> bit_writer \<Rightarrow> bit_writer" where
  "bit_write val bitWidth b =
     bit_drain (b\<lparr>bw_cur := bw_cur b OR push_bit (bw_bits b) (nat (val AND (2 ^ bitWidth - 1))),
                  bw_bits := bw_bits b + bitWidth\<rparr>)"

definition bit_flush :: "bit_writer \<Rightarrow> bit_writer" where
  "bit_flush b =
     (if bw_bits b > 0
      then \<lparr>bw_out = bw_out b @ [of_nat (bw_cur b AND 255)], bw_cur = 0, bw_bits = 0\<rparr> else b)"

definition new_bit_writer :: "byte list \<Rightarrow> bit_writer" where
  "new_bit_writer out = \<lparr>bw_out = out, bw_cur = 0, bw_bits = 0\<rparr>"

fun bits_loop :: "nat \<Rightarrow> nat \<Rightarrow> nat" where
  "bits_loop n bits = (if n > 0 then bits_loop (n div 2) (bits + 1) else bits)"

declare bits_loop.simps [simp del]

definition bitsFor :: "int \<Rightarrow> nat" where
  "bitsFor v = bits_loop (nat (if v < 0 then - v else v)) 0"

subsection \<open>DELTA\_BINARY\_PACKED\<close>

text \<open>The values decoded so far, the last value, and the bit reader of the block.\<close>

record delta_state =
  ds_out :: "int list"
  ds_value :: int
  ds_bits :: bit_reader

fun miniblock :: "nat \<Rightarrow> nat \<Rightarrow> int \<Rightarrow> nat \<Rightarrow> delta_state \<Rightarrow> delta_state read" where
  "miniblock 0 width minDelta totalCount s r = Inr (s, r)"
| "miniblock (Suc n) width minDelta totalCount s r =
     bindR (if width = 0 then Inr ((0, ds_bits s), r) else bit_read width (ds_bits s) r) (\<lambda>((rel, b), r).
       let v = ds_value s + (minDelta + int rel) in
       miniblock n width minDelta totalCount
         \<lparr>ds_out = (if length (ds_out s) < totalCount then ds_out s @ [v] else ds_out s),
          ds_value = v, ds_bits = b\<rparr> r)"

fun miniblocks_loop :: "nat list \<Rightarrow> nat \<Rightarrow> int \<Rightarrow> nat \<Rightarrow> delta_state \<Rightarrow> delta_state read" where
  "miniblocks_loop [] n minDelta totalCount s r = Inr (s, r)"
| "miniblocks_loop (width # widths) n minDelta totalCount s r =
     (if length (ds_out s) < totalCount then
        bindR (miniblock n width minDelta totalCount s r) (\<lambda>(s, r).
          miniblocks_loop widths n minDelta totalCount s r)
      else Inr (s, r))"

lemma bit_fill_rd: "ends rd_remaining 0 r (bit_fill w b r)"
proof (induction w b r rule: bit_fill.induct)
  case (1 w b r)
  show ?case
    unfolding bit_fill.simps [of w b r]
    by (auto intro!: ends_bind [OF ends_readU8, where e = 0] "1.IH")
qed

lemma ends_bit_read: "ends rd_remaining 0 r (bit_read w b r)"
  unfolding bit_read_def by (rule ends_bind [OF bit_fill_rd, where e = 0]) auto

lemma ends_miniblock: "ends rd_remaining 0 r (miniblock n width minDelta totalCount s r)"
proof (induction n width minDelta totalCount s r rule: miniblock.induct)
  case (2 n width minDelta totalCount s r)
  have "ends rd_remaining 0 r (if width = 0 then Inr ((0, ds_bits s), r) else bit_read width (ds_bits s) r)"
    using ends_bit_read by simp
  then show ?case
    unfolding miniblock.simps
    by (rule ends_bind [where e = 0]) (use 2 in \<open>auto simp: Let_def split: prod.splits\<close>)
qed simp

lemma ends_miniblocks_loop: "ends rd_remaining 0 r (miniblocks_loop widths n minDelta totalCount s r)"
  by (induction widths n minDelta totalCount s r rule: miniblocks_loop.induct)
    (auto intro!: ends_bind [OF ends_miniblock, where e = 0])

lemma ends_read_widths: "ends rd_remaining 0 r (read_times readU8 n r)"
proof (induction n arbitrary: r)
  case (Suc n)
  have "ends rd_remaining 0 r' (bindR (read_times readU8 n r') (\<lambda>(xs, r''). Inr (u # xs, r'')))" for r' u
    by (rule ends_bind [OF Suc.IH, where e = 0]) auto
  then show ?case by (auto intro!: ends_bind [OF ends_weaken [OF ends_readU8], where e = 0])
qed simp

lemma readZigzag64_less: "readZigzag64 r = Inr (h, r') \<Longrightarrow> rd_remaining r' < rd_remaining r"
  using consumes_varints unfolding consumes_def by (metis ends_simps(2) Suc_eq_plus1 Suc_le_lessD)

text \<open>The \<open>while\<close> loop, up to \<open>limit\<close> values.\<close>

function delta_blocks :: "nat \<Rightarrow> nat \<Rightarrow> nat \<Rightarrow> nat \<Rightarrow> delta_state \<Rightarrow> delta_state read" where
  "delta_blocks limit miniblocks valuesPerMiniblock totalCount s r =
     (if length (ds_out s) < totalCount \<and> length (ds_out s) < limit then
        bindR (readZigzag64 r) (\<lambda>(minDelta, r).
        bindR (read_times readU8 miniblocks r) (\<lambda>(widths, r).
        bindR (miniblocks_loop widths valuesPerMiniblock minDelta totalCount (s\<lparr>ds_bits := new_bit_reader\<rparr>) r)
          (\<lambda>(s, r). delta_blocks limit miniblocks valuesPerMiniblock totalCount s r)))
      else Inr (s, r))"
  by pat_completeness auto
termination
proof (relation "measure (\<lambda>(limit, miniblocks, n, totalCount, s, r). rd_remaining r)")
qed (auto dest!: readZigzag64_less ends_le [OF ends_read_widths] ends_le [OF ends_miniblocks_loop])

declare delta_blocks.simps [simp del]

text \<open>The header and the blocks; \<open>bound totalCount\<close> is where the loop stops.\<close>

definition delta_stream :: "(nat \<Rightarrow> nat) \<Rightarrow> (int list \<times> nat) read" where
  "delta_stream bound r =
     bindR (readVarint r) (\<lambda>(blockSize, r).
     bindR (readVarint r) (\<lambda>(miniblocks, r).
     bindR (readVarint r) (\<lambda>(totalCount, r).
     let valuesPerMiniblock = (blockSize + miniblocks - 1) div miniblocks in
     if totalCount = 0 then Inr (([], totalCount), r)
     else bindR (readZigzag64 r) (\<lambda>(v, r).
       bindR (delta_blocks (bound totalCount) miniblocks valuesPerMiniblock totalCount
           \<lparr>ds_out = [v], ds_value = v, ds_bits = new_bit_reader\<rparr> r)
         (\<lambda>(s, r). Inr ((ds_out s, totalCount), r))))))"

definition decodeDeltaBinaryPacked :: "byte list \<Rightarrow> nat \<Rightarrow> js_error + int list" where
  "decodeDeltaBinaryPacked bytes count =
     bindR (delta_stream (\<lambda>_. count) (new_reader bytes)) (\<lambda>((out, totalCount), r).
       Inr (take (min count totalCount) out))"

definition decodeDeltaHeaderInline :: "int list read" where
  "decodeDeltaHeaderInline r =
     bindR (delta_stream (\<lambda>totalCount. totalCount) r) (\<lambda>((out, totalCount), r). Inr (out, r))"

definition deltas_of :: "int list \<Rightarrow> int list" where
  "deltas_of vals = map (\<lambda>i. vals ! i - vals ! (i - 1)) [1..<length vals]"

definition min_delta :: "int list \<Rightarrow> int" where
  "min_delta block = foldl (\<lambda>minDelta d. if d < minDelta then d else minDelta) (block ! 0) block"

definition miniblock_width :: "int list \<Rightarrow> nat \<Rightarrow> nat" where
  "miniblock_width rels m =
     foldl (\<lambda>maxBits i. let idx = m * VALUES_PER_MINIBLOCK + i in
       if idx < length rels then max maxBits (bitsFor (rels ! idx)) else maxBits)
       0 [0..<VALUES_PER_MINIBLOCK]"

definition write_miniblock :: "int list \<Rightarrow> nat list \<Rightarrow> bit_writer \<Rightarrow> nat \<Rightarrow> bit_writer" where
  "write_miniblock rels widths b m =
     (if widths ! m = 0 then b
      else bit_flush (foldl (\<lambda>b i. let idx = m * VALUES_PER_MINIBLOCK + i in
        bit_write (if idx < length rels then rels ! idx else 0) (widths ! m) b) b [0..<VALUES_PER_MINIBLOCK]))"

definition delta_block :: "int list \<Rightarrow> byte list" where
  "delta_block block =
     (let minDelta = min_delta block;
          rels = map (\<lambda>d. d - minDelta) block;
          widths = map (miniblock_width rels) [0..<MINIBLOCKS] in
      bw_out (foldl (write_miniblock rels widths)
        (new_bit_writer (zigzag64_bytes minDelta @ map of_nat widths)) [0..<MINIBLOCKS]))"

function blocks_loop :: "int list \<Rightarrow> byte list" where
  "blocks_loop deltas =
     (if deltas = [] then []
      else delta_block (take BLOCK_SIZE deltas) @ blocks_loop (drop BLOCK_SIZE deltas))"
  by pat_completeness auto
termination
  by (relation "measure length") (auto simp: BLOCK_SIZE_def)

declare blocks_loop.simps [simp del]

definition count_bytes :: "nat \<Rightarrow> byte list" where
  "count_bytes n = varint_groups (take_bit 64 n)"

definition encodeDeltaBinaryPacked :: "int list \<Rightarrow> byte list" where
  "encodeDeltaBinaryPacked vals =
     count_bytes BLOCK_SIZE @ count_bytes MINIBLOCKS @ count_bytes (length vals) @
     (if vals = [] then [] else zigzag64_bytes (vals ! 0) @ blocks_loop (deltas_of vals))"

subsection \<open>DELTA\_LENGTH\_BYTE\_ARRAY and DELTA\_BYTE\_ARRAY\<close>

text \<open>A length missing from the stream is \<open>Number(undefined)\<close>, that is NaN: \<open>readBytes\<close> then returns an
  empty view and the position becomes NaN, so all further slices are empty too.\<close>

fun slices_loop :: "nat \<Rightarrow> int list \<Rightarrow> byte list list \<Rightarrow> byte list list read" where
  "slices_loop 0 lengths out r = Inr (out, r)"
| "slices_loop (Suc n) [] out r = slices_loop n [] (out @ [[]]) r"
| "slices_loop (Suc n) (len # lengths) out r =
     bindR (readBytes len r) (\<lambda>(b, r). slices_loop n lengths (out @ [b]) r)"

definition decodeDeltaLengthByteArray :: "byte list \<Rightarrow> nat \<Rightarrow> js_error + byte list list" where
  "decodeDeltaLengthByteArray bytes count =
     bindR (decodeDeltaHeaderInline (new_reader bytes)) (\<lambda>(lengths, r).
     bindR (slices_loop count lengths [] r) (\<lambda>(out, r). Inr out))"

definition encodeDeltaLengthByteArray :: "byte list list \<Rightarrow> byte list" where
  "encodeDeltaLengthByteArray values =
     encodeDeltaBinaryPacked (map (\<lambda>v. int (length v)) values) @ concat values"

text \<open>\<open>new Uint8Array(prefixLen + suffixLen)\<close> and the two \<open>set\<close> calls; \<open>None\<close> is a length missing from its
  stream. A negative or misplaced offset is a \<open>RangeError\<close>, and the array of length NaN is empty.\<close>

fun rebuilt :: "byte list \<Rightarrow> int option \<Rightarrow> byte list option \<Rightarrow> js_error + byte list" where
  "rebuilt prev (Some p) (Some suffix) =
     (if p < 0 then Inl RangeError
      else Inr (take (nat p) prev @ replicate (nat p - length prev) 0 @ suffix))"
| "rebuilt prev None (Some suffix) = (if suffix = [] then Inr [] else Inl RangeError)"
| "rebuilt prev (Some p) None = (if p = 0 then Inr [] else Inl RangeError)"
| "rebuilt prev None None = Inr []"

fun first_of :: "'a list \<Rightarrow> 'a option" where
  "first_of [] = None"
| "first_of (x # xs) = Some x"

fun rebuild_loop :: "nat \<Rightarrow> int list \<Rightarrow> int list \<Rightarrow> byte list \<Rightarrow> byte list list \<Rightarrow> byte list list read" where
  "rebuild_loop 0 prefixLengths suffixLengths prev out r = Inr (out, r)"
| "rebuild_loop (Suc n) prefixLengths suffixLengths prev out r =
     bindR (case first_of suffixLengths of
              None \<Rightarrow> Inr (None, r)
            | Some len \<Rightarrow> bindR (readBytes len r) (\<lambda>(b, r). Inr (Some b, r))) (\<lambda>(suffix, r).
     bindR (rebuilt prev (first_of prefixLengths) suffix) (\<lambda>v.
       rebuild_loop n (drop 1 prefixLengths) (drop 1 suffixLengths) v (out @ [v]) r))"

definition decodeDeltaByteArray :: "byte list \<Rightarrow> nat \<Rightarrow> js_error + byte list list" where
  "decodeDeltaByteArray bytes count =
     bindR (decodeDeltaHeaderInline (new_reader bytes)) (\<lambda>(prefixLengths, r).
     bindR (decodeDeltaHeaderInline r) (\<lambda>(suffixLengths, r).
     bindR (rebuild_loop count prefixLengths suffixLengths [] [] r) (\<lambda>(out, r). Inr out)))"

fun shared_prefix :: "byte list \<Rightarrow> byte list \<Rightarrow> nat" where
  "shared_prefix (a # as) (b # bs) = (if a = b then Suc (shared_prefix as bs) else 0)"
| "shared_prefix _ _ = 0"

fun prefix_split :: "byte list \<Rightarrow> byte list list \<Rightarrow> (nat \<times> byte list) list" where
  "prefix_split prev [] = []"
| "prefix_split prev (v # vs) =
     (let prefix = shared_prefix prev v in (prefix, drop prefix v) # prefix_split v vs)"

definition encodeDeltaByteArray :: "byte list list \<Rightarrow> byte list" where
  "encodeDeltaByteArray values =
     (let parts = prefix_split [] values in
      encodeDeltaBinaryPacked (map (\<lambda>(prefix, suffix). int prefix) parts) @
      encodeDeltaBinaryPacked (map (\<lambda>(prefix, suffix). int (length suffix)) parts) @
      concat (map snd parts))"

subsection \<open>Bits as numbers\<close>

definition br_num :: "bit_reader \<Rightarrow> byte list \<Rightarrow> nat" where
  "br_num b rest = br_cur b + 2 ^ br_bits b * le_nat rest"

definition br_avail :: "bit_reader \<Rightarrow> byte list \<Rightarrow> nat" where
  "br_avail b rest = br_bits b + 8 * length rest"

definition br_ok :: "bit_reader \<Rightarrow> bool" where
  "br_ok b \<longleftrightarrow> br_cur b < 2 ^ br_bits b"

lemma bit_fill_num:
  assumes "br_ok b" "w \<le> br_avail b rest"
  shows "\<exists>used rest' b'. rest = used @ rest' \<and>
    bit_fill w b (reader_at pre rest) = Inr (b', reader_at (pre @ used) rest') \<and> br_ok b' \<and>
    br_num b' rest' = br_num b rest \<and> br_avail b' rest' = br_avail b rest \<and>
    w \<le> br_bits b' \<and> br_bits b' < max (Suc (br_bits b)) (w + 8)"
  using assms
proof (induction "w - br_bits b" arbitrary: b pre rest rule: less_induct)
  case less
  show ?case
  proof (cases "br_bits b < w")
    case True
    then obtain x rest1 where rest: "rest = x # rest1" using less.prems(2) by (cases rest) (auto simp: br_avail_def)
    define b1 where "b1 = \<lparr>br_cur = br_cur b OR push_bit (br_bits b) (unat x), br_bits = br_bits b + 8\<rparr>"
    have cur: "br_cur b OR push_bit (br_bits b) (unat x) = br_cur b + 2 ^ br_bits b * unat x"
      using nat_or_low_bits [of "br_cur b" "br_bits b" "unat x"] less.prems(1)
      by (simp add: br_ok_def push_bit_eq_mult or.commute mult.commute add.commute)
    have "br_cur b + 2 ^ br_bits b * unat x < 2 ^ br_bits b * Suc (unat x)" using less.prems(1) by (simp add: br_ok_def)
    also have "\<dots> \<le> 2 ^ br_bits b * 256" by (intro mult_le_mono2) (simp add: Suc_le_eq)
    finally have ok: "br_ok b1" by (simp add: br_ok_def b1_def cur power_add)
    have num: "br_num b1 rest1 = br_num b rest" "br_avail b1 rest1 = br_avail b rest"
      by (simp_all add: br_num_def br_avail_def b1_def cur rest power_add algebra_simps)
    have "w - br_bits b1 < w - br_bits b" "w \<le> br_avail b1 rest1"
      using True less.prems(2) num(2) by (simp_all add: b1_def)
    from less.hyps [OF this(1) ok this(2), of "pre @ [x]"] obtain used rest' b' where
      "rest1 = used @ rest'" "bit_fill w b1 (reader_at (pre @ [x]) rest1) = Inr (b', reader_at ((pre @ [x]) @ used) rest')"
      "br_ok b'" "br_num b' rest' = br_num b1 rest1" "br_avail b' rest' = br_avail b1 rest1"
      "w \<le> br_bits b'" "br_bits b' < max (Suc (br_bits b1)) (w + 8)" by blast
    with True num show ?thesis
      by (intro exI [of _ "x # used"] exI [of _ rest'] exI [of _ b'])
        (auto simp: bit_fill.simps [of w b] rest simp flip: b1_def, simp add: b1_def)
  next
    case False
    then show ?thesis using less.prems by (intro exI [of _ "[]"] exI [of _ rest] exI [of _ b]) (simp add: bit_fill.simps)
  qed
qed

lemma bit_read_num:
  assumes "br_ok b" "w \<le> br_avail b rest" "br_bits b < 8"
  shows "\<exists>used rest' b'. rest = used @ rest' \<and>
    bit_read w b (reader_at pre rest) = Inr ((br_num b rest mod 2 ^ w, b'), reader_at (pre @ used) rest') \<and>
    br_ok b' \<and> br_num b' rest' = br_num b rest div 2 ^ w \<and>
    br_avail b' rest' + w = br_avail b rest \<and> br_bits b' < 8"
proof -
  obtain used rest' c where 1: "rest = used @ rest'" "bit_fill w b (reader_at pre rest) = Inr (c, reader_at (pre @ used) rest')"
      "br_ok c" "br_num c rest' = br_num b rest" "br_avail c rest' = br_avail b rest" "w \<le> br_bits c"
      "br_bits c < max (Suc (br_bits b)) (w + 8)"
    using bit_fill_num [OF assms(1,2)] by blast
  define d where "d = \<lparr>br_cur = drop_bit w (br_cur c), br_bits = br_bits c - w\<rparr>"
  note low = low_bits_of_sum [OF 1(6), of "br_cur c" "le_nat rest'"]
  have "br_cur c mod 2 ^ w = br_num b rest mod 2 ^ w"
    using 1(3,4) low(1) by (simp add: br_ok_def br_num_def)
  moreover have "br_num d rest' = br_num b rest div 2 ^ w"
    using 1(3,4) low(2) by (simp add: br_ok_def br_num_def d_def drop_bit_eq_div)
  moreover have "br_ok d"
    using 1(3,6) by (simp add: br_ok_def d_def drop_bit_eq_div less_mult_imp_div_less flip: power_add)
  moreover have "br_avail d rest' + w = br_avail b rest" "br_bits d < 8"
    using 1(5-7) assms(3) by (auto simp: br_avail_def d_def)
  ultimately show ?thesis
    using 1(1,2) unfolding bit_read_def nat_and_exp_minus_1
    by (intro exI [of _ used] exI [of _ rest'] exI [of _ d]) (simp add: d_def)
qed

lemma bit_read_zero: "(if w = 0 then Inr ((0, b), r) else bit_read w b r) = bit_read w b r"
  by (simp add: bit_read_def bit_fill.simps)

text \<open>The running sums of a list of differences.\<close>

fun sums :: "int \<Rightarrow> int list \<Rightarrow> int list" where
  "sums v [] = []"
| "sums v (d # ds) = (v + d) # sums (v + d) ds"

lemma sums_append: "sums v (a @ b) = sums v a @ sums (v + sum_list a) b"
  by (induction a arbitrary: v) (simp_all add: add.assoc)

lemma length_sums [simp]: "length (sums v ds) = length ds"
  by (induction ds arbitrary: v) simp_all

definition rel_deltas :: "int \<Rightarrow> nat list \<Rightarrow> int list" where
  "rel_deltas minDelta rels = map (\<lambda>x. minDelta + int x) rels"

lemma rel_deltas_simps [simp]:
  "rel_deltas d [] = []" "rel_deltas d (x # xs) = (d + int x) # rel_deltas d xs"
  "rel_deltas d (xs @ ys) = rel_deltas d xs @ rel_deltas d ys" "length (rel_deltas d xs) = length xs"
  by (simp_all add: rel_deltas_def)

lemma miniblock_num:
  assumes "br_ok (ds_bits s)" "br_bits (ds_bits s) < 8" "w * n \<le> br_avail (ds_bits s) rest"
    and "length (ds_out s) \<le> totalCount"
  shows "\<exists>used rest' b'. rest = used @ rest' \<and>
    miniblock n w d totalCount s (reader_at pre rest) =
      Inr (\<lparr>ds_out = take totalCount (ds_out s @ sums (ds_value s) (rel_deltas d (digits w n (br_num (ds_bits s) rest)))),
            ds_value = ds_value s + sum_list (rel_deltas d (digits w n (br_num (ds_bits s) rest))),
            ds_bits = b'\<rparr>, reader_at (pre @ used) rest') \<and>
    br_ok b' \<and> br_bits b' < 8 \<and> br_avail b' rest' + w * n = br_avail (ds_bits s) rest"
  using assms
proof (induction n arbitrary: s pre rest)
  case 0
  then show ?case by (intro exI [of _ "[]"] exI [of _ rest] exI [of _ "ds_bits s"]) simp
next
  case (Suc n)
  have "w \<le> br_avail (ds_bits s) rest" using Suc.prems(3) by simp
  from bit_read_num [OF Suc.prems(1) this Suc.prems(2)] obtain used rest1 b1 where 1: "rest = used @ rest1"
      "bit_read w (ds_bits s) (reader_at pre rest) =
        Inr ((br_num (ds_bits s) rest mod 2 ^ w, b1), reader_at (pre @ used) rest1)"
      "br_ok b1" "br_num b1 rest1 = br_num (ds_bits s) rest div 2 ^ w"
      "br_avail b1 rest1 + w = br_avail (ds_bits s) rest" "br_bits b1 < 8" by blast
  define v where "v = ds_value s + (d + int (br_num (ds_bits s) rest mod 2 ^ w))"
  define s1 where "s1 = \<lparr>ds_out = (if length (ds_out s) < totalCount then ds_out s @ [v] else ds_out s),
    ds_value = v, ds_bits = b1\<rparr>"
  have "w * n \<le> br_avail (ds_bits s1) rest1" "length (ds_out s1) \<le> totalCount"
    using Suc.prems(3,4) 1(5) by (simp_all add: s1_def)
  from Suc.IH [of s1, OF _ _ this, of "pre @ used"] 1(3,6) obtain used2 rest2 b2 where 2: "rest1 = used2 @ rest2"
      "miniblock n w d totalCount s1 (reader_at (pre @ used) rest1) =
        Inr (\<lparr>ds_out = take totalCount (ds_out s1 @ sums (ds_value s1) (rel_deltas d (digits w n (br_num (ds_bits s1) rest1)))),
          ds_value = ds_value s1 + sum_list (rel_deltas d (digits w n (br_num (ds_bits s1) rest1))),
          ds_bits = b2\<rparr>, reader_at ((pre @ used) @ used2) rest2)"
      "br_ok b2" "br_bits b2 < 8" "br_avail b2 rest2 + w * n = br_avail (ds_bits s1) rest1" by (auto simp: s1_def)
  have "miniblock (Suc n) w d totalCount s (reader_at pre rest) = miniblock n w d totalCount s1 (reader_at (pre @ used) rest1)"
    by (simp only: miniblock.simps trans [OF bit_read_zero 1(2)] bindR_simps prod.case s1_def v_def Let_def)
  moreover have "take totalCount (ds_out s1 @ sums v xs) = take totalCount (ds_out s @ v # sums v xs)" for xs
    using Suc.prems(4) by (auto simp: s1_def take_Cons')
  ultimately show ?case
    using 1 2 by (intro exI [of _ "used @ used2"] exI [of _ rest2] exI [of _ b2])
      (simp add: s1_def v_def add.assoc del: take_append)
qed

text \<open>A miniblock that ends on a byte boundary leaves a fresh bit reader.\<close>

lemma miniblock_bytes:
  assumes "\<forall>v \<in> set rels. v < 2 ^ w" "8 * length bs = w * length rels" "le_nat bs = pack_sum w rels"
    and "ds_bits s = new_bit_reader" "length (ds_out s) \<le> totalCount"
  shows "miniblock (length rels) w d totalCount s (reader_at pre (bs @ rest)) =
    Inr (\<lparr>ds_out = take totalCount (ds_out s @ sums (ds_value s) (rel_deltas d rels)),
          ds_value = ds_value s + sum_list (rel_deltas d rels), ds_bits = new_bit_reader\<rparr>, reader_at (pre @ bs) rest)"
proof -
  have "br_num (ds_bits s) (bs @ rest) = pack_sum w rels + 2 ^ (w * length rels) * le_nat rest"
    using assms(2,3) by (simp add: br_num_def assms(4) new_bit_reader_def le_nat_append pow256)
  then have dig: "digits w (length rels) (br_num (ds_bits s) (bs @ rest)) = rels"
    by (simp only: digits_pack_sum [OF assms(1)])
  have "br_ok (ds_bits s)" "br_bits (ds_bits s) < 8" "w * length rels \<le> br_avail (ds_bits s) (bs @ rest)"
    using assms(2) by (simp_all add: br_ok_def br_avail_def assms(4) new_bit_reader_def)
  from miniblock_num [OF this assms(5), of d pre, unfolded dig] obtain used rest' b' where 1:
      "bs @ rest = used @ rest'"
      "miniblock (length rels) w d totalCount s (reader_at pre (bs @ rest)) =
        Inr (\<lparr>ds_out = take totalCount (ds_out s @ sums (ds_value s) (rel_deltas d rels)),
          ds_value = ds_value s + sum_list (rel_deltas d rels), ds_bits = b'\<rparr>, reader_at (pre @ used) rest')"
      "br_ok b'" "br_bits b' < 8" "br_avail b' rest' + w * length rels = br_avail (ds_bits s) (bs @ rest)" by blast
  have "br_bits b' + 8 * length rest' = 8 * length rest"
    using 1(5) assms(2) by (simp add: br_avail_def assms(4) new_bit_reader_def)
  with 1(4) have "br_bits b' = 0" "length rest' = length rest" by presburger+
  moreover from this 1(3) have "b' = new_bit_reader" by (simp add: br_ok_def new_bit_reader_def)
  moreover have "used = bs" "rest' = rest" using 1(1) \<open>length rest' = length rest\<close> by simp_all
  ultimately show ?thesis using 1(2) by simp
qed

definition bw_ok :: "bit_writer \<Rightarrow> bool" where
  "bw_ok b \<longleftrightarrow> bw_bits b < 8 \<and> bw_cur b < 2 ^ bw_bits b"

text \<open>\<open>b'\<close> is \<open>b\<close> with the \<open>n\<close> low bits of \<open>x\<close> appended.\<close>

definition appended :: "nat \<Rightarrow> nat \<Rightarrow> bit_writer \<Rightarrow> bit_writer \<Rightarrow> bool" where
  "appended n x b b' \<longleftrightarrow> bw_ok b' \<and> (\<exists>ys. bw_out b' = bw_out b @ ys \<and>
     8 * length ys + bw_bits b' = bw_bits b + n \<and>
     le_nat ys + 2 ^ (8 * length ys) * bw_cur b' = bw_cur b + 2 ^ bw_bits b * x)"

lemma bit_drain_num:
  assumes "bw_cur b < 2 ^ bw_bits b"
  shows "appended 0 0 b (bit_drain b)"
  using assms
proof (induction b rule: bit_drain.induct)
  case (1 b)
  show ?case
  proof (cases "bw_bits b \<ge> 8")
    case True
    define c where "c = \<lparr>bw_out = bw_out b @ [of_nat (bw_cur b AND 255)], bw_cur = drop_bit 8 (bw_cur b), bw_bits = bw_bits b - 8\<rparr>"
    have "(2::nat) ^ bw_bits b = 2 ^ (bw_bits b - 8) * 2 ^ 8"
      using True by (simp only: le_add_diff_inverse2 flip: power_add)
    then have "bw_cur c < 2 ^ bw_bits c"
      using "1.prems" by (simp add: c_def drop_bit_eq_div less_mult_imp_div_less)
    then have "appended 0 0 c (bit_drain c)" using "1.IH" [OF True] by (simp add: c_def)
    then obtain ys where ys: "bw_ok (bit_drain c)" "bw_out (bit_drain c) = bw_out c @ ys"
      "8 * length ys + bw_bits (bit_drain c) = bw_bits c"
      "le_nat ys + 2 ^ (8 * length ys) * bw_cur (bit_drain c) = bw_cur b div 256"
      by (auto simp: appended_def c_def drop_bit_eq_div)
    have "le_nat (of_nat (bw_cur b AND 255) # ys) + 2 ^ (8 * length (of_nat (bw_cur b AND 255) # ys)) * bw_cur (bit_drain c) =
        bw_cur b mod 256 + 256 * (le_nat ys + 2 ^ (8 * length ys) * bw_cur (bit_drain c))"
      by (simp add: nat_and_mask power_add algebra_simps)
    then have "le_nat (of_nat (bw_cur b AND 255) # ys) + 2 ^ (8 * length (of_nat (bw_cur b AND 255) # ys)) * bw_cur (bit_drain c) = bw_cur b"
      unfolding ys(4) by simp
    moreover have "bit_drain b = bit_drain c" using True by (simp add: bit_drain.simps [of b] c_def)
    ultimately show ?thesis
      using True ys unfolding appended_def by (intro conjI exI [of _ "of_nat (bw_cur b AND 255) # ys"]) (simp_all add: c_def)
  next
    case False
    then show ?thesis using "1.prems" by (simp add: bit_drain.simps [of b] appended_def bw_ok_def)
  qed
qed

lemma bit_write_num:
  assumes "bw_ok b"
  shows "appended w (v mod 2 ^ w) b (bit_write (int v) w b)"
proof -
  define x where "x = v mod 2 ^ w"
  have "int v AND (2 ^ w - 1) = int (v mod 2 ^ w)"
    by (simp add: take_bit_eq_mod zmod_int flip: mask_eq_exp_minus_1 take_bit_eq_mask)
  then have x: "nat (int v AND (2 ^ w - 1)) = x" by (simp add: x_def)
  define c where "c = b\<lparr>bw_cur := bw_cur b OR push_bit (bw_bits b) x, bw_bits := bw_bits b + w\<rparr>"
  have cur: "bw_cur c = bw_cur b + 2 ^ bw_bits b * x"
    using nat_or_low_bits [of "bw_cur b" "bw_bits b" x] assms
    by (simp add: c_def bw_ok_def push_bit_eq_mult or.commute mult.commute add.commute)
  have "bw_cur c < 2 ^ bw_bits b * Suc x" using assms cur by (simp add: bw_ok_def)
  also have "\<dots> \<le> 2 ^ bw_bits b * 2 ^ w" by (intro mult_le_mono2) (simp add: x_def Suc_le_eq)
  finally have "bw_cur c < 2 ^ bw_bits c" by (simp add: c_def power_add)
  from bit_drain_num [OF this] show ?thesis
    unfolding bit_write_def x by (simp add: appended_def cur flip: x_def c_def) (simp add: c_def)
qed

lemma appended_trans:
  assumes "appended n x b c" "appended m y c d"
  shows "appended (n + m) (x + 2 ^ n * y) b d"
proof -
  from assms(1) obtain ys where 1: "bw_out c = bw_out b @ ys" "8 * length ys + bw_bits c = bw_bits b + n"
     "le_nat ys + 2 ^ (8 * length ys) * bw_cur c = bw_cur b + 2 ^ bw_bits b * x" by (auto simp: appended_def)
  from assms(2) obtain zs where 2: "bw_ok d" "bw_out d = bw_out c @ zs" "8 * length zs + bw_bits d = bw_bits c + m"
     "le_nat zs + 2 ^ (8 * length zs) * bw_cur d = bw_cur c + 2 ^ bw_bits c * y" by (auto simp: appended_def)
  have "le_nat (ys @ zs) + 2 ^ (8 * length (ys @ zs)) * bw_cur d =
      le_nat ys + 2 ^ (8 * length ys) * (le_nat zs + 2 ^ (8 * length zs) * bw_cur d)"
    by (simp add: le_nat_append pow256 power_add algebra_simps)
  also have "\<dots> = le_nat ys + 2 ^ (8 * length ys) * bw_cur c + 2 ^ (8 * length ys + bw_bits c) * y"
    unfolding 2(4) by (simp add: power_add algebra_simps)
  also have "\<dots> = bw_cur b + 2 ^ bw_bits b * (x + 2 ^ n * y)"
    unfolding 1(2,3) by (simp add: power_add algebra_simps)
  finally show ?thesis
    using 1(1,2) 2(1-3) unfolding appended_def by (intro conjI exI [of _ "ys @ zs"]) simp_all
qed

lemma bit_writes_num:
  assumes "bw_ok b"
  shows "appended (w * length vs) (pack_sum w vs) b (foldl (\<lambda>b v. bit_write v w b) b (map int vs))"
  using assms
proof (induction vs arbitrary: b)
  case Nil
  then show ?case by (simp add: appended_def)
next
  case (Cons v vs)
  have 1: "appended w (v mod 2 ^ w) b (bit_write (int v) w b)" by (rule bit_write_num [OF Cons.prems])
  then have "bw_ok (bit_write (int v) w b)" by (simp add: appended_def)
  from appended_trans [OF 1 Cons.IH [OF this]] show ?case by simp
qed

text \<open>A whole miniblock starts and ends on a byte boundary.\<close>

lemma written_miniblock:
  assumes "8 dvd w * length vs"
  obtains bs where "bit_flush (foldl (\<lambda>b v. bit_write v w b) (new_bit_writer out) (map int vs)) = new_bit_writer (out @ bs)"
    "8 * length bs = w * length vs" "le_nat bs = pack_sum w vs"
proof -
  let ?b = "foldl (\<lambda>b v. bit_write v w b) (new_bit_writer out) (map int vs)"
  have "appended (w * length vs) (pack_sum w vs) (new_bit_writer out) ?b"
    by (rule bit_writes_num) (simp add: bw_ok_def new_bit_writer_def)
  then obtain ys where ys: "bw_ok ?b" "bw_out ?b = out @ ys" "8 * length ys + bw_bits ?b = w * length vs"
      "le_nat ys + 2 ^ (8 * length ys) * bw_cur ?b = pack_sum w vs"
    by (auto simp: appended_def new_bit_writer_def)
  then have "bw_bits ?b = 0" using assms unfolding bw_ok_def by presburger
  moreover from this ys(1) have "bw_cur ?b = 0" by (simp add: bw_ok_def)
  ultimately have "bit_flush ?b = new_bit_writer (out @ ys)" "8 * length ys = w * length vs" "le_nat ys = pack_sum w vs"
    using ys(2-4) by (simp_all add: bit_flush_def new_bit_writer_def)
  then show ?thesis by (rule that)
qed

subsection \<open>Blocks\<close>

text \<open>The bytes of the miniblocks of the relative deltas \<open>rs\<close>, of widths \<open>ws\<close>.\<close>

fun pad32 :: "nat list \<Rightarrow> nat list" where
  "pad32 rs = take 32 rs @ replicate (32 - length rs) 0"

fun miniblocks_of :: "nat list \<Rightarrow> nat list \<Rightarrow> byte list \<Rightarrow> bool" where
  "miniblocks_of [] rs bs \<longleftrightarrow> rs = [] \<and> bs = []"
| "miniblocks_of (w # ws) rs bs \<longleftrightarrow> (\<exists>xs ys. bs = xs @ ys \<and> length xs = 4 * w \<and>
     le_nat xs = pack_sum w (pad32 rs) \<and> (\<forall>v \<in> set (take 32 rs). v < 2 ^ w) \<and> (rs = [] \<longrightarrow> w = 0) \<and>
     miniblocks_of ws (drop 32 rs) ys)"

lemma length_pad32 [simp]: "length (pad32 rs) = 32"
  by simp

declare pad32.simps [simp del]

lemma miniblocks_of_Nil: "miniblocks_of ws [] bs \<Longrightarrow> bs = []"
  by (induction ws arbitrary: bs) auto

lemma miniblocks_loop_bytes:
  assumes "miniblocks_of ws rs bs" "ds_bits s = new_bit_reader"
    and "length (ds_out s) + length rs \<le> totalCount"
    and "length (ds_out s) + length rs = totalCount \<or> length rs = 32 * length ws"
  shows "\<exists>v. miniblocks_loop ws 32 d totalCount s (reader_at pre (bs @ rest)) =
      Inr (\<lparr>ds_out = ds_out s @ sums (ds_value s) (rel_deltas d rs), ds_value = v, ds_bits = new_bit_reader\<rparr>,
        reader_at (pre @ bs) rest) \<and>
    (length (ds_out s) + length rs < totalCount \<longrightarrow> v = ds_value s + sum_list (rel_deltas d rs))"
  using assms
proof (induction ws arbitrary: rs bs s pre)
  case Nil
  then show ?case by (cases s) simp
next
  case (Cons w ws)
  show ?case
  proof (cases "rs = []")
    case True
    then show ?thesis
      using Cons.prems miniblocks_of_Nil [of "w # ws" bs] by (cases s) simp
  next
    case False
    from Cons.prems(1) obtain xs ys where bs: "bs = xs @ ys" and xs: "length xs = 4 * w" "le_nat xs = pack_sum w (pad32 rs)"
      and small: "\<forall>v \<in> set (take 32 rs). v < 2 ^ w" and ys: "miniblocks_of ws (drop 32 rs) ys" by auto
    have less: "length (ds_out s) < totalCount" using Cons.prems(3) False by (cases rs) auto
    let ?s = "\<lparr>ds_out = take totalCount (ds_out s @ sums (ds_value s) (rel_deltas d (pad32 rs))),
      ds_value = ds_value s + sum_list (rel_deltas d (pad32 rs)), ds_bits = new_bit_reader\<rparr>"
    have mini: "miniblock 32 w d totalCount s (reader_at pre (xs @ ys @ rest)) = Inr (?s, reader_at (pre @ xs) (ys @ rest))"
    proof -
      have "\<forall>v \<in> set (pad32 rs). v < 2 ^ w" using small by (auto simp: pad32.simps)
      moreover have "8 * length xs = w * length (pad32 rs)" by (simp add: xs(1))
      ultimately show ?thesis
        using miniblock_bytes [of "pad32 rs" w xs s totalCount d pre "ys @ rest"] xs(2) Cons.prems(2) less
        by (simp del: take_append)
    qed
    have out: "ds_out ?s = ds_out s @ sums (ds_value s) (rel_deltas d (take 32 rs))"
      using Cons.prems(3,4) by (cases "length rs < 32") (auto simp: pad32.simps sums_append)
    have "length (ds_out ?s) + length (drop 32 rs) = length (ds_out s) + length rs" unfolding out by auto
    with Cons.prems(3,4) obtain v where v: "miniblocks_loop ws 32 d totalCount ?s (reader_at (pre @ xs) (ys @ rest)) =
      Inr (\<lparr>ds_out = ds_out ?s @ sums (ds_value ?s) (rel_deltas d (drop 32 rs)), ds_value = v, ds_bits = new_bit_reader\<rparr>,
        reader_at ((pre @ xs) @ ys) rest)"
      "length (ds_out s) + length rs < totalCount \<longrightarrow> v = ds_value ?s + sum_list (rel_deltas d (drop 32 rs))"
      using Cons.IH [OF ys, of ?s "pre @ xs"] by (auto simp del: take_append)
    have rd: "rel_deltas d rs = rel_deltas d (take 32 rs) @ rel_deltas d (drop 32 rs)"
      by (simp flip: rel_deltas_simps(3))
    have "sums (ds_value ?s) (rel_deltas d (drop 32 rs)) =
        sums (ds_value s + sum_list (rel_deltas d (take 32 rs))) (rel_deltas d (drop 32 rs))"
      by (cases "length rs \<le> 32") (auto simp: pad32.simps)
    then have sums: "ds_out ?s @ sums (ds_value ?s) (rel_deltas d (drop 32 rs)) = ds_out s @ sums (ds_value s) (rel_deltas d rs)"
      unfolding out rd sums_append by simp
    have "length (ds_out s) + length rs < totalCount \<longrightarrow> v = ds_value s + sum_list (rel_deltas d rs)"
    proof
      assume *: "length (ds_out s) + length rs < totalCount"
      then have "pad32 rs = take 32 rs" using Cons.prems(4) by (simp add: pad32.simps)
      then show "v = ds_value s + sum_list (rel_deltas d rs)" using v(2) * unfolding rd by simp
    qed
    with v(1) mini less sums bs show ?thesis by (intro exI [of _ v]) (simp del: take_append)
  qed
qed

subsection \<open>What the encoder writes\<close>

lemma bits_loop_least: "n < 2 ^ k \<longleftrightarrow> bits_loop n b \<le> k + b"
proof (induction n b arbitrary: k rule: bits_loop.induct)
  case (1 n b)
  show ?case
  proof (cases "n > 0")
    case True
    have "n < 2 ^ k \<longleftrightarrow> (\<exists>j. k = Suc j \<and> n div 2 < 2 ^ j)" using True by (cases k) auto
    also have "\<dots> \<longleftrightarrow> (\<exists>j. k = Suc j \<and> bits_loop (n div 2) (b + 1) \<le> j + (b + 1))"
      using "1.IH" [OF True] by blast
    also have "\<dots> \<longleftrightarrow> bits_loop (n div 2) (b + 1) \<le> k + b"
    proof (cases k)
      case 0
      have "\<not> n div 2 < 2 ^ j \<Longrightarrow> True" for j :: nat by simp
      have "b + 1 \<le> bits_loop m (b + 1)" for m
        by (induction m "b + 1" arbitrary: b rule: bits_loop.induct) (subst bits_loop.simps, auto)
      with 0 show ?thesis by (auto simp: not_le dest: le_less_trans)
    qed auto
    finally show ?thesis using True by (simp add: bits_loop.simps [of n])
  qed (simp add: bits_loop.simps)
qed

lemma bitsFor_least: "0 \<le> v \<Longrightarrow> nat v < 2 ^ k \<longleftrightarrow> bitsFor v \<le> k"
  using bits_loop_least [of "nat v" k 0] by (simp add: bitsFor_def)

lemma miniblock_width_max:
  "(\<forall>i < 32. m * 32 + i < length rels \<longrightarrow> bitsFor (rels ! (m * 32 + i)) \<le> miniblock_width rels m) \<and>
   (miniblock_width rels m = 0 \<or> (\<exists>i < 32. m * 32 + i < length rels \<and>
      miniblock_width rels m = bitsFor (rels ! (m * 32 + i))))"
proof -
  define f where "f = (\<lambda>mx i. let idx = m * 32 + i in if idx < length rels then max mx (bitsFor (rels ! idx)) else mx)"
  have "a \<le> foldl f a is \<and> (\<forall>i \<in> set is. m * 32 + i < length rels \<longrightarrow> bitsFor (rels ! (m * 32 + i)) \<le> foldl f a is) \<and>
    (foldl f a is = a \<or> (\<exists>i \<in> set is. m * 32 + i < length rels \<and> foldl f a is = bitsFor (rels ! (m * 32 + i))))" for a "is"
  proof (induction "is" arbitrary: a)
    case (Cons i "is")
    have "a \<le> f a i" "m * 32 + i < length rels \<Longrightarrow> bitsFor (rels ! (m * 32 + i)) \<le> f a i"
      "f a i = a \<or> m * 32 + i < length rels \<and> f a i = bitsFor (rels ! (m * 32 + i))"
      by (auto simp: f_def Let_def max_def)
    with Cons.IH [of "f a i"] show ?case by (auto intro: order_trans)
  qed simp
  from this [of 0 "[0..<32]"] show ?thesis
    by (auto simp: miniblock_width_def f_def VALUES_PER_MINIBLOCK_def BLOCK_SIZE_def MINIBLOCKS_def)
qed

definition chunk :: "int list \<Rightarrow> nat \<Rightarrow> nat list" where
  "chunk rels m = drop (m * 32) (map nat rels)"

lemma pad32_chunk:
  assumes "\<forall>v \<in> set rels. 0 \<le> v"
  shows "map (\<lambda>i. if m * 32 + i < length rels then rels ! (m * 32 + i) else 0) [0..<32] = map int (pad32 (chunk rels m))"
proof (rule nth_equalityI)
  fix i
  assume "i < length (map (\<lambda>i. if m * 32 + i < length rels then rels ! (m * 32 + i) else 0) [0..<32])"
  then have i: "i < 32" by simp
  show "map (\<lambda>i. if m * 32 + i < length rels then rels ! (m * 32 + i) else 0) [0..<32] ! i = map int (pad32 (chunk rels m)) ! i"
  proof (cases "m * 32 + i < length rels")
    case True
    then have "i < length rels - m * 32" by simp
    with True i assms show ?thesis by (simp add: pad32.simps chunk_def nth_append)
  next
    case False
    with i show ?thesis by (auto simp: pad32.simps chunk_def nth_append)
  qed
qed simp

lemma written_miniblocks:
  assumes "\<forall>v \<in> set rels. 0 \<le> v" "length rels \<le> 128" "m \<le> 4"
  shows "\<exists>bs. foldl (write_miniblock rels (map (miniblock_width rels) [0..<4])) (new_bit_writer out) [m..<4] =
      new_bit_writer (out @ bs) \<and> miniblocks_of (map (miniblock_width rels) [m..<4]) (chunk rels m) bs"
  using assms(3)
proof (induction "4 - m" arbitrary: m out)
  case 0
  then show ?case using assms(2) by (auto simp: chunk_def)
next
  case (Suc k)
  let ?W = "miniblock_width rels" and ?w = "miniblock_width rels m"
  have m: "m < 4" using Suc.hyps(2) by simp
  let ?vs = "pad32 (chunk rels m)"
  have "8 dvd ?w * length ?vs" by simp
  then obtain xs where xs: "bit_flush (foldl (\<lambda>b v. bit_write v ?w b) (new_bit_writer out) (map int ?vs)) = new_bit_writer (out @ xs)"
      "8 * length xs = ?w * length ?vs" "le_nat xs = pack_sum ?w ?vs"
    by (rule written_miniblock)
  have "write_miniblock rels (map ?W [0..<4]) (new_bit_writer out) m = new_bit_writer (out @ xs)"
  proof (cases "?w = 0")
    case True
    then show ?thesis using xs(2) m by (simp add: write_miniblock_def)
  next
    case False
    then show ?thesis
      using xs(1) [folded pad32_chunk [OF assms(1)]] m
      by (simp add: write_miniblock_def foldl_map Let_def VALUES_PER_MINIBLOCK_def BLOCK_SIZE_def MINIBLOCKS_def)
  qed
  moreover have "k = 4 - Suc m" "Suc m \<le> 4" using Suc.hyps(2) m by simp_all
  then obtain ys where ys: "foldl (write_miniblock rels (map ?W [0..<4])) (new_bit_writer (out @ xs)) [Suc m..<4] =
      new_bit_writer ((out @ xs) @ ys)" "miniblocks_of (map ?W [Suc m..<4]) (chunk rels (Suc m)) ys"
    using Suc.hyps(1) [of "Suc m" "out @ xs"] by blast
  note ys
  moreover have "v < 2 ^ ?w" if "v \<in> set (take 32 (chunk rels m))" for v
  proof -
    from that obtain i where i: "i < 32" "m * 32 + i < length rels" "v = nat (rels ! (m * 32 + i))"
      by (auto simp: chunk_def in_set_conv_nth)
    with miniblock_width_max [of m rels] bitsFor_least [of "rels ! (m * 32 + i)" ?w] assms(1) show ?thesis by simp
  qed
  moreover have "chunk rels m = [] \<Longrightarrow> ?w = 0"
    using miniblock_width_max [of m rels] by (auto simp: chunk_def)
  moreover have "[m..<4] = m # [Suc m..<4]" using m by (simp add: upt_conv_Cons)
  moreover have "drop 32 (chunk rels m) = chunk rels (Suc m)" by (simp add: chunk_def add.commute)
  ultimately show ?case using xs(2,3) by (intro exI [of _ "xs @ ys"]) auto
qed

lemma min_delta_le: "block \<noteq> [] \<Longrightarrow> (\<forall>d \<in> set block. min_delta block \<le> d) \<and> min_delta block \<in> set block"
proof -
  define f where "f = (\<lambda>(a::int) d. if d < a then d else a)"
  have "foldl f a ds \<le> a \<and> (\<forall>d \<in> set ds. foldl f a ds \<le> d) \<and> foldl f a ds \<in> insert a (set ds)" for a ds
  proof (induction ds arbitrary: a)
    case (Cons d ds)
    have "f a d \<le> a" "f a d \<le> d" "f a d \<in> {a, d}" by (auto simp: f_def)
    with Cons.IH [of "f a d"] show ?case by (auto intro: order_trans)
  qed simp
  from this [of "block ! 0" block] show "block \<noteq> [] \<Longrightarrow> ?thesis" by (auto simp: min_delta_def f_def)
qed

interpretation u8: byte_codec "\<lambda>b. [of_nat b]" readU8 "\<lambda>b. b < 256"
  by unfold_locales (rule decodes_U8)

lemma read_widths:
  "\<forall>w \<in> set ws. w < 256 \<Longrightarrow> decodes_as (read_times readU8 (length ws)) (map of_nat ws) ws"
  using u8.read_sequence [of ws] by (simp add: list_all_iff concat_map_singleton)

lemma rel_deltas_rels:
  "\<forall>d \<in> set block. minDelta \<le> d \<Longrightarrow> rel_deltas minDelta (map nat (map (\<lambda>d. d - minDelta) block)) = block"
  by (auto simp: rel_deltas_def intro!: map_idI)

lemma delta_block_bytes:
  assumes "block \<noteq> []" "length block \<le> 128" "\<forall>d \<in> set block. int_range 64 d"
  obtains ws bs where "delta_block block = zigzag64_bytes (min_delta block) @ map of_nat ws @ bs"
    "miniblocks_of ws (map nat (map (\<lambda>d. d - min_delta block) block)) bs" "length ws = 4" "\<forall>w \<in> set ws. w < 256"
proof -
  let ?rels = "map (\<lambda>d. d - min_delta block) block"
  define ws where "ws = map (miniblock_width ?rels) [0..<4]"
  note min = min_delta_le [OF assms(1), THEN conjunct1] min_delta_le [OF assms(1), THEN conjunct2]
  have nonneg: "\<forall>v \<in> set ?rels. 0 \<le> v" using min(1) by auto
  have "bitsFor r \<le> 64" if "r \<in> set ?rels" for r
  proof -
    from that obtain d where d: "r = d - min_delta block" "d \<in> set block" by auto
    have "int_range 64 d" "int_range 64 (min_delta block)" "min_delta block \<le> d" using d(2) min assms(3) by blast+
    then have "0 \<le> r" "nat r < 2 ^ 64" unfolding d(1) int_range_def by (simp_all add: nat_less_iff)
    then show ?thesis using bitsFor_least by blast
  qed
  then have "miniblock_width ?rels m \<le> 64" for m
    using miniblock_width_max [of m ?rels, THEN conjunct2] nth_mem [of _ ?rels] by fastforce
  then have "miniblock_width ?rels m < 256" for m by (rule le_less_trans) simp
  then have "\<forall>w \<in> set ws. w < 256" by (simp add: ws_def)
  moreover obtain bs where "foldl (write_miniblock ?rels ws) (new_bit_writer (zigzag64_bytes (min_delta block) @ map of_nat ws)) [0..<4] =
      new_bit_writer ((zigzag64_bytes (min_delta block) @ map of_nat ws) @ bs)" "miniblocks_of ws (chunk ?rels 0) bs"
    using written_miniblocks [OF nonneg, of 0 "zigzag64_bytes (min_delta block) @ map of_nat ws"] assms(2)
    unfolding ws_def by (metis le0 length_map)
  ultimately show ?thesis
    by (intro that [of ws bs]) (simp_all add: ws_def delta_block_def MINIBLOCKS_def new_bit_writer_def chunk_def Let_def)
qed

text \<open>The blocks of the deltas that are left, decoded after the values before them.\<close>

lemma delta_blocks_decode:
  assumes "\<forall>d \<in> set deltas. int_range 64 d" "length (ds_out s) + length deltas = totalCount"
  shows "\<exists>s' r. delta_blocks limit 4 32 totalCount s (reader_at pre (blocks_loop deltas @ rest)) = Inr (s', r) \<and>
    take limit (ds_out s') = take limit (ds_out s @ sums (ds_value s) deltas) \<and>
    (totalCount \<le> limit \<longrightarrow> ds_out s' = ds_out s @ sums (ds_value s) deltas \<and>
      r = reader_at (pre @ blocks_loop deltas) rest)"
  using assms
proof (induction deltas arbitrary: s pre rule: blocks_loop.induct)
  case (1 deltas)
  show ?case
  proof (cases "deltas = [] \<or> limit \<le> length (ds_out s)")
    case True
    with "1.prems"(2) have "delta_blocks limit 4 32 totalCount s r = Inr (s, r)" for r
      by (subst delta_blocks.simps) auto
    moreover have "deltas = []" if "totalCount \<le> limit" using True that "1.prems"(2) by (cases deltas) auto
    ultimately show ?thesis using True by (auto simp: blocks_loop.simps [of "[]"])
  next
    case False
    let ?block = "take 128 deltas" and ?left = "drop 128 deltas"
    have ne: "?block \<noteq> []" "length ?block \<le> 128" and dr: "\<forall>d \<in> set ?block. int_range 64 d"
      using False "1.prems"(1) by (auto dest: in_set_takeD)
    obtain ws bs where enc: "delta_block ?block = zigzag64_bytes (min_delta ?block) @ map of_nat ws @ bs"
      and mb: "miniblocks_of ws (map nat (map (\<lambda>d. d - min_delta ?block) ?block)) bs" and ws: "length ws = 4" "\<forall>w \<in> set ws. w < 256"
      by (rule delta_block_bytes [OF ne dr])
    note min = min_delta_le [OF ne(1), THEN conjunct1] min_delta_le [OF ne(1), THEN conjunct2]
    have range: "int_range 64 (min_delta ?block)" using min(2) dr by blast
    have loop: "blocks_loop deltas = delta_block ?block @ blocks_loop ?left"
      using False by (simp add: blocks_loop.simps [of deltas] BLOCK_SIZE_def)
    let ?n = "length (ds_out s)" and ?s = "s\<lparr>ds_bits := new_bit_reader\<rparr>"
    let ?rels = "map nat (map (\<lambda>d. d - min_delta ?block) ?block)"
    have "\<exists>v. miniblocks_loop ws 32 (min_delta ?block) totalCount ?s (reader_at ((pre @ zigzag64_bytes (min_delta ?block)) @ map of_nat ws) (bs @ blocks_loop ?left @ rest)) =
      Inr (\<lparr>ds_out = ds_out ?s @ sums (ds_value ?s) (rel_deltas (min_delta ?block) ?rels), ds_value = v, ds_bits = new_bit_reader\<rparr>,
        reader_at (((pre @ zigzag64_bytes (min_delta ?block)) @ map of_nat ws) @ bs) (blocks_loop ?left @ rest)) \<and>
      (length (ds_out ?s) + length ?rels < totalCount \<longrightarrow> v = ds_value ?s + sum_list (rel_deltas (min_delta ?block) ?rels))"
      using "1.prems"(2) ws(1) by (intro miniblocks_loop_bytes [OF mb]) auto
    then obtain v where mini: "miniblocks_loop ws 32 (min_delta ?block) totalCount ?s (reader_at ((pre @ zigzag64_bytes (min_delta ?block)) @ map of_nat ws) (bs @ blocks_loop ?left @ rest)) =
      Inr (\<lparr>ds_out = ds_out s @ sums (ds_value s) ?block, ds_value = v, ds_bits = new_bit_reader\<rparr>,
        reader_at (((pre @ zigzag64_bytes (min_delta ?block)) @ map of_nat ws) @ bs) (blocks_loop ?left @ rest))"
      and v: "?n + length ?block < totalCount \<Longrightarrow> v = ds_value s + sum_list ?block"
      unfolding rel_deltas_rels [OF min(1)] by auto
    let ?s' = "\<lparr>ds_out = ds_out s @ sums (ds_value s) ?block, ds_value = v, ds_bits = new_bit_reader\<rparr>"
    have less: "?n < totalCount" using False "1.prems"(2) by (cases deltas) auto
    have step: "delta_blocks limit 4 32 totalCount s (reader_at pre (blocks_loop deltas @ rest)) =
        delta_blocks limit 4 32 totalCount ?s' (reader_at (pre @ delta_block ?block) (blocks_loop ?left @ rest))"
      using False less ws(1) mini zigzag64.read_encoded [OF range] decodes_asD [OF read_widths [OF ws(2)]]
      by (simp add: delta_blocks.simps [of limit 4 32 totalCount s] loop enc)
    have out: "ds_out ?s' @ sums (ds_value ?s') ?left = ds_out s @ sums (ds_value s) deltas"
    proof -
      have "sums v ?left = sums (ds_value s + sum_list ?block) ?left"
        using v "1.prems"(2) by (cases "length deltas \<le> 128") auto
      then show ?thesis using sums_append [of "ds_value s" ?block ?left] by simp
    qed
    have "\<forall>d \<in> set ?left. int_range 64 d" "length (ds_out ?s') + length ?left = totalCount"
      using "1.prems" by (auto dest: in_set_dropD)
    from "1.IH" [OF _ this [folded BLOCK_SIZE_def], of "pre @ delta_block ?block"] False
    show ?thesis unfolding step out BLOCK_SIZE_def by (simp add: loop)
  qed
qed

lemma deltas_of_simps: "deltas_of [] = []" "deltas_of [a] = []" "deltas_of (a # b # vs) = (b - a) # deltas_of (b # vs)"
proof -
  have "[1..<Suc (Suc (length vs))] = 1 # map Suc [1..<Suc (length vs)]" 
    by (subst upt_conv_Cons) (simp_all add: map_Suc_upt del: upt_Suc)
  then show "deltas_of (a # b # vs) = (b - a) # deltas_of (b # vs)"
    by (simp add: deltas_of_def nth_Cons' del: upt_Suc)
qed (simp_all add: deltas_of_def)

lemma sums_deltas: "a # sums a (deltas_of (a # vs)) = a # vs"
  by (induction vs arbitrary: a) (simp_all add: deltas_of_simps)

lemma length_deltas_of: "length (deltas_of vs) = length vs - 1"
  by (simp add: deltas_of_def)

text \<open>The sequences whose first value and differences fit 64 bits.\<close>

definition delta_ok :: "int list \<Rightarrow> bool" where
  "delta_ok vals \<longleftrightarrow> length vals < 2 ^ 64 \<and> (vals \<noteq> [] \<longrightarrow> int_range 64 (vals ! 0)) \<and>
     list_all (int_range 64) (deltas_of vals)"

lemma count_bytes_read:
  "n < 2 ^ 64 \<Longrightarrow> readVarint (reader_at pre (count_bytes n @ rest)) = Inr (n, reader_at (pre @ count_bytes n) rest)"
  using varint.read_encoded [of n pre rest] by (simp add: count_bytes_def take_bit_nat_eq_self)

lemma delta_stream_decode:
  assumes "delta_ok vals"
  shows "\<exists>out r. delta_stream bound (reader_at pre (encodeDeltaBinaryPacked vals @ rest)) = Inr ((out, length vals), r) \<and>
    take (bound (length vals)) out = take (bound (length vals)) vals \<and>
    (length vals \<le> bound (length vals) \<longrightarrow> out = vals \<and> r = reader_at (pre @ encodeDeltaBinaryPacked vals) rest)"
proof -
  have n: "BLOCK_SIZE < 2 ^ 64" "MINIBLOCKS < 2 ^ 64" "length vals < 2 ^ 64"
    using assms by (simp_all add: delta_ok_def BLOCK_SIZE_def MINIBLOCKS_def)
  note counts = count_bytes_read [OF n(1)] count_bytes_read [OF n(2)] count_bytes_read [OF n(3)]
  have vpm: "(BLOCK_SIZE + MINIBLOCKS - 1) div MINIBLOCKS = 32" "MINIBLOCKS = 4" by (simp_all add: BLOCK_SIZE_def MINIBLOCKS_def)
  show ?thesis
  proof (cases vals)
    case Nil
    then show ?thesis using counts by (simp add: delta_stream_def encodeDeltaBinaryPacked_def)
  next
    case (Cons a vs)
    let ?s = "\<lparr>ds_out = [a], ds_value = a, ds_bits = new_bit_reader\<rparr>"
    let ?pre = "(((pre @ count_bytes BLOCK_SIZE) @ count_bytes MINIBLOCKS) @ count_bytes (length vals)) @ zigzag64_bytes a"
    have range: "int_range 64 a" "\<forall>d \<in> set (deltas_of vals). int_range 64 d"
      using assms Cons by (auto simp: delta_ok_def list_all_iff)
    have "length (ds_out ?s) + length (deltas_of vals) = length vals" by (simp add: length_deltas_of Cons)
    from delta_blocks_decode [OF range(2) this, of "bound (length vals)" ?pre rest] obtain s' r where
      "delta_blocks (bound (length vals)) MINIBLOCKS 32 (length vals) ?s (reader_at ?pre (blocks_loop (deltas_of vals) @ rest)) = Inr (s', r)"
      "take (bound (length vals)) (ds_out s') = take (bound (length vals)) vals"
      "length vals \<le> bound (length vals) \<longrightarrow> ds_out s' = vals \<and> r = reader_at (?pre @ blocks_loop (deltas_of vals)) rest"
      using sums_deltas [of a vs] Cons unfolding vpm(2) by auto
    then show ?thesis
      using counts zigzag64.read_encoded [OF range(1)] Cons
      by (simp add: delta_stream_def encodeDeltaBinaryPacked_def vpm(1) [unfolded One_nat_def] Let_def)
  qed
qed

lemma inline_decodes: "delta_ok vals \<Longrightarrow> decodes_as decodeDeltaHeaderInline (encodeDeltaBinaryPacked vals) vals"
  using delta_stream_decode [of vals "\<lambda>n. n"] by (fastforce simp: decodes_as_def decodeDeltaHeaderInline_def)

lemma delta_ok_lengths:
  assumes "length ns < 2 ^ 64" "\<forall>n \<in> set ns. n < 2 ^ 63"
  shows "delta_ok (map int ns)"
proof -
  have lt: "int n < 2 ^ 63" if "n \<in> set ns" for n
  proof -
    have "int n < int (2 ^ 63)" using that assms(2) by (subst of_nat_less_iff) blast
    then show ?thesis by simp
  qed
  have "int_range 64 (int a - int b)" if "a \<in> set ns" "b \<in> set ns" for a b
    using lt [OF that(1)] lt [OF that(2)] by (simp add: int_range_def)
  moreover have "ns \<noteq> [] \<Longrightarrow> int_range 64 (int (ns ! 0))" using lt [of "ns ! 0"] by (simp add: int_range_def)
  ultimately show ?thesis
    using assms(1) by (auto simp: delta_ok_def list_all_iff deltas_of_def)
qed

lemma slices_loop_concat:
  "slices_loop (length vs) (map (\<lambda>v. int (length v)) vs) out (reader_at pre (concat vs @ rest)) =
    Inr (out @ vs, reader_at (pre @ concat vs) rest)"
  by (induction vs arbitrary: out pre) simp_all

lemma shared_prefix_take: "take (shared_prefix prev v) v = take (shared_prefix prev v) prev" "shared_prefix prev v \<le> length prev"
  by (induction prev v rule: shared_prefix.induct) simp_all

lemma length_prefix_split [simp]: "length (prefix_split prev vs) = length vs"
  by (induction vs arbitrary: prev) (simp_all add: Let_def)

lemma prefix_split_bounds:
  assumes "\<forall>v \<in> set vs. length v < n" "(p, s) \<in> set (prefix_split prev vs)"
  shows "p < n \<and> length s < n"
  using assms
proof (induction vs arbitrary: prev)
  case (Cons v vs)
  have "shared_prefix prev v \<le> length v"
    by (induction prev v rule: shared_prefix.induct) simp_all
  then show ?case using Cons by (auto simp: Let_def)
qed simp

lemma rebuild_loop_split:
  "rebuild_loop (length vs) (map (\<lambda>(p, s). int p) (prefix_split prev vs))
      (map (\<lambda>(p, s). int (length s)) (prefix_split prev vs)) prev out
      (reader_at pre (concat (map snd (prefix_split prev vs)) @ rest)) =
    Inr (out @ vs, reader_at (pre @ concat (map snd (prefix_split prev vs))) rest)"
proof (induction vs arbitrary: prev out pre)
  case (Cons v vs)
  let ?n = "shared_prefix prev v"
  have "rebuilt prev (Some (int ?n)) (Some (drop ?n v)) = Inr v"
    using shared_prefix_take [where prev = prev and v = v] append_take_drop_id [of ?n v] by simp
  with Cons.IH [of v "out @ [v]" "pre @ drop ?n v"] show ?case
    by (simp add: Let_def readBytes_at [of "drop ?n v", simplified] del: rebuilt.simps)
qed simp

lemma delta_block_single: "delta_block [d] = zigzag64_bytes d @ [0, 0, 0, 0]"
proof -
  have "miniblock_width [0] m = 0" for m
    using miniblock_width_max [of m "[0]", THEN conjunct2] by (auto simp: bitsFor_def bits_loop.simps)
  moreover have "[0..<MINIBLOCKS] = [0, 1, 2, 3]" by (simp add: MINIBLOCKS_def upt_rec)
  ultimately show ?thesis
    by (simp add: delta_block_def min_delta_def write_miniblock_def new_bit_writer_def Let_def)
qed

lemma encode_pair:
  assumes "zigzag64 (b - a) = zigzag64 (c - a)"
  shows "encodeDeltaBinaryPacked [a, b] = encodeDeltaBinaryPacked [a, c]"
  using assms
  by (simp add: encodeDeltaBinaryPacked_def deltas_of_simps blocks_loop.simps BLOCK_SIZE_def delta_block_single zigzag64_bytes_def)

subsection \<open>Properties\<close>

lemma delta_binary_codec:
  assumes "delta_ok vals"
  shows "decodeDeltaBinaryPacked (encodeDeltaBinaryPacked vals) count = Inr (take count vals)"
proof -
  obtain out r where "delta_stream (\<lambda>_. count) (reader_at [] (encodeDeltaBinaryPacked vals @ [])) = Inr ((out, length vals), r)"
    "take count out = take count vals" "length vals \<le> count \<longrightarrow> out = vals"
    using delta_stream_decode [OF assms, of "\<lambda>_. count" "[]" "[]"] by blast
  then show ?thesis by (auto simp: decodeDeltaBinaryPacked_def new_reader_at min_def)
qed

text \<open>C35: a sequence of integers whose first value and differences fit 64 bits, encoded by
  \<open>encodeDeltaBinaryPacked\<close>, is decoded up to any count: the first \<open>count\<close> values come back.\<close>

theorem delta_binary_roundtrip:
  assumes "delta_ok vals"
  shows "decodeDeltaBinaryPacked (encodeDeltaBinaryPacked vals) count = Inr (take count vals)"
  using assms by (rule delta_binary_codec)

theorem delta_binary_roundtrip_witness:
  "decodeDeltaBinaryPacked (encodeDeltaBinaryPacked [1000, 1001, - 5, 2 ^ 40]) 3 = Inr (take 3 [1000, 1001, - 5, 2 ^ 40])"
  by (rule delta_binary_roundtrip) (simp add: delta_ok_def int_range_def deltas_of_simps)

text \<open>A list of byte strings shorter than \<open>2 ^ 63\<close> bytes, encoded by \<open>encodeDeltaLengthByteArray\<close>, is
  decoded as the same list.\<close>

theorem delta_length_roundtrip:
  assumes "length values < 2 ^ 64" "\<forall>v \<in> set values. length v < 2 ^ 63"
  shows "decodeDeltaLengthByteArray (encodeDeltaLengthByteArray values) (length values) = Inr values"
proof -
  have "delta_ok (map int (map length values))" using assms by (intro delta_ok_lengths) simp_all
  then have ok: "delta_ok (map (\<lambda>v. int (length v)) values)" by (simp add: comp_def)
  from decodes_asD [OF inline_decodes [OF ok], of "[]" "concat values"]
    slices_loop_concat [of "values" "[]" "encodeDeltaBinaryPacked (map (\<lambda>v. int (length v)) values)" "[]"]
  show ?thesis by (simp add: decodeDeltaLengthByteArray_def encodeDeltaLengthByteArray_def new_reader_at)
qed

theorem delta_length_roundtrip_witness:
  "decodeDeltaLengthByteArray (encodeDeltaLengthByteArray [[1, 2, 3], [], [4]]) (length [[1, 2, 3], [], [4 :: byte]]) = Inr [[1, 2, 3], [], [4]]"
  by (rule delta_length_roundtrip) simp_all

lemma delta_byte_array_codec:
  assumes "length values < 2 ^ 64" "\<forall>v \<in> set values. length v < 2 ^ 63"
  shows "decodeDeltaByteArray (encodeDeltaByteArray values) (length values) = Inr values"
proof -
  let ?parts = "prefix_split [] values"
  let ?ps = "map (\<lambda>(p, s). int p) ?parts" and ?ss = "map (\<lambda>(p, s). int (length s)) ?parts"
  have "delta_ok (map int (map fst ?parts))" "delta_ok (map int (map (\<lambda>(p, s). length s) ?parts))"
    using assms(1) prefix_split_bounds [OF assms(2)] by (intro delta_ok_lengths; fastforce)+
  then have ok: "delta_ok ?ps" "delta_ok ?ss" by (simp_all add: comp_def split_def)
  from decodes_asD [OF inline_decodes [OF ok(1)], of "[]"] decodes_asD [OF inline_decodes [OF ok(2)], of "encodeDeltaBinaryPacked ?ps"]
    rebuild_loop_split [of "values" "[]" "[]" "encodeDeltaBinaryPacked ?ps @ encodeDeltaBinaryPacked ?ss" "[]"]
  show ?thesis by (simp add: decodeDeltaByteArray_def encodeDeltaByteArray_def new_reader_at Let_def)
qed

text \<open>The same for the incremental encoding, which stores for each byte string only what differs from
  the previous one.\<close>

theorem delta_byte_array_roundtrip:
  assumes "length values < 2 ^ 64" "\<forall>v \<in> set values. length v < 2 ^ 63"
  shows "decodeDeltaByteArray (encodeDeltaByteArray values) (length values) = Inr values"
  using assms by (rule delta_byte_array_codec)

theorem delta_byte_array_roundtrip_witness:
  "decodeDeltaByteArray (encodeDeltaByteArray [[1, 2, 3], [1, 2], [1, 2, 4, 5]]) (length [[1, 2, 3], [1, 2], [1, 2, 4, 5 :: byte]]) =
    Inr [[1, 2, 3], [1, 2], [1, 2, 4, 5]]"
  by (rule delta_byte_array_roundtrip) simp_all

text \<open>Two 64-bit values whose difference does not fit 64 bits are not read back.\<close>

theorem delta_binary_overflow:
  "decodeDeltaBinaryPacked (encodeDeltaBinaryPacked [9223372036854775807, - 9223372036854775808]) 2 =
    Inr [9223372036854775807, 18446744073709551613]"
proof -
  have "zigzag64 (- 9223372036854775808 - 9223372036854775807) = zigzag64 (18446744073709551613 - 9223372036854775807)"
    by (simp add: zigzag64_def)
  then have "encodeDeltaBinaryPacked [9223372036854775807, - 9223372036854775808] =
      encodeDeltaBinaryPacked [9223372036854775807, 18446744073709551613]"
    by (rule encode_pair)
  moreover have "delta_ok [9223372036854775807, 18446744073709551613]"
    by (simp add: delta_ok_def int_range_def deltas_of_simps)
  then have "decodeDeltaBinaryPacked (encodeDeltaBinaryPacked [9223372036854775807, 18446744073709551613]) 2 =
      Inr [9223372036854775807, 18446744073709551613]"
    using delta_stream_decode [of _ "\<lambda>_. 2" "[]" "[]"] by (fastforce simp: decodeDeltaBinaryPacked_def new_reader_at)
  ultimately show ?thesis by simp
qed

end
