(* ===== verification/Parquet_Plain.thy ===== *)
theory Parquet_Plain
  imports Parquet_Delta
begin

text \<open>
  \<open>data/parquet/encoding.ts\<close>, the PLAIN encoding and the dictionary indices, and the BYTE_STREAM_SPLIT
  part of \<open>data/parquet/delta.ts\<close>.

  A column's values come with their physical type: \<open>column_values\<close> is the array \<open>values\<close> together with
  the \<open>PType\<close> it is encoded or decoded as. Integers are unbounded and cut to the width of the type
  where \<open>setInt32\<close> and \<open>setBigInt64\<close> do so; a float is its 32-bit and a double its 64-bit pattern.
\<close>

definition BOOLEAN :: nat where "BOOLEAN = 0"
definition INT32 :: nat where "INT32 = 1"
definition INT64 :: nat where "INT64 = 2"
definition INT96 :: nat where "INT96 = 3"
definition FLOAT :: nat where "FLOAT = 4"
definition DOUBLE :: nat where "DOUBLE = 5"
definition BYTE_ARRAY :: nat where "BYTE_ARRAY = 6"
definition FIXED_LEN_BYTE_ARRAY :: nat where "FIXED_LEN_BYTE_ARRAY = 7"

lemmas ptype_defs = BOOLEAN_def INT32_def INT64_def INT96_def FLOAT_def DOUBLE_def BYTE_ARRAY_def FIXED_LEN_BYTE_ARRAY_def

text \<open>An element of a byte-array column: a \<open>Uint8Array\<close>, a string, or any other value with its \<open>String(value)\<close>.\<close>

datatype binary_value = Bytes "byte list" | Str "code_unit list" | NotBinary "code_unit list"

datatype column_values =
    Booleans "bool list"
  | Int32s "int list"
  | Int64s "int list"
  | Int96s "byte list list"
  | Floats "u32 list"
  | Doubles "u64 list"
  | ByteArrays "binary_value list"
  | FixedArrays "binary_value list"

fun physicalType :: "column_values \<Rightarrow> nat" where
  "physicalType (Booleans vs) = BOOLEAN"
| "physicalType (Int32s vs) = INT32"
| "physicalType (Int64s vs) = INT64"
| "physicalType (Int96s vs) = INT96"
| "physicalType (Floats vs) = FLOAT"
| "physicalType (Doubles vs) = DOUBLE"
| "physicalType (ByteArrays vs) = BYTE_ARRAY"
| "physicalType (FixedArrays vs) = FIXED_LEN_BYTE_ARRAY"

fun num_values :: "column_values \<Rightarrow> nat" where
  "num_values (Booleans vs) = length vs"
| "num_values (Int32s vs) = length vs"
| "num_values (Int64s vs) = length vs"
| "num_values (Int96s vs) = length vs"
| "num_values (Floats vs) = length vs"
| "num_values (Doubles vs) = length vs"
| "num_values (ByteArrays vs) = length vs"
| "num_values (FixedArrays vs) = length vs"

subsection \<open>Little-endian views\<close>

text \<open>The little-endian \<open>DataView\<close> accessors.\<close>

definition le_bytes :: "nat \<Rightarrow> nat \<Rightarrow> byte list" where
  "le_bytes k n = rev (be_bytes k n)"

definition get_le :: "nat \<Rightarrow> byte list \<Rightarrow> nat \<Rightarrow> js_error + nat" where
  "get_le k bytes pos =
     (if pos + k \<le> length bytes then Inr (be_uint (rev (take k (drop pos bytes)))) else Inl RangeError)"

definition getInt32 :: "byte list \<Rightarrow> nat \<Rightarrow> js_error + int" where
  "getInt32 bytes pos = bindR (get_le 4 bytes pos) (\<lambda>n. Inr (sint (of_nat n :: 32 word)))"

definition getBigInt64 :: "byte list \<Rightarrow> nat \<Rightarrow> js_error + int" where
  "getBigInt64 bytes pos = bindR (get_le 8 bytes pos) (\<lambda>n. Inr (sint (of_nat n :: 64 word)))"

definition getFloat32 :: "byte list \<Rightarrow> nat \<Rightarrow> js_error + u32" where
  "getFloat32 bytes pos = bindR (get_le 4 bytes pos) (\<lambda>n. Inr (of_nat n))"

definition getFloat64 :: "byte list \<Rightarrow> nat \<Rightarrow> js_error + u64" where
  "getFloat64 bytes pos = bindR (get_le 8 bytes pos) (\<lambda>n. Inr (of_nat n))"

definition int32_le :: "int \<Rightarrow> byte list" where
  "int32_le v = le_bytes 4 (unat (word_of_int v :: 32 word))"

definition int64_le :: "int \<Rightarrow> byte list" where
  "int64_le v = le_bytes 8 (unat (word_of_int v :: 64 word))"

text \<open>\<open>bytes.subarray(start, end)\<close> clamps to the array; reading past the end of a typed array gives
  \<open>undefined\<close>, which the bit operators and the stores take for zero.\<close>

definition sub_array :: "byte list \<Rightarrow> nat \<Rightarrow> nat \<Rightarrow> byte list" where
  "sub_array bytes from n = take n (drop from bytes)"

definition byte_at :: "byte list \<Rightarrow> nat \<Rightarrow> byte" where
  "byte_at bytes i = (if i < length bytes then bytes ! i else 0)"

text \<open>\<open>new Array(count)\<close>.\<close>

definition new_array :: "int \<Rightarrow> js_error + unit" where
  "new_array count = (if 0 \<le> count \<and> count < 2 ^ 32 then Inr () else Inl RangeError)"

subsection \<open>PLAIN\<close>

fun byte_arrays :: "byte list \<Rightarrow> nat \<Rightarrow> nat \<Rightarrow> js_error + byte list list" where
  "byte_arrays bytes pos 0 = Inr []"
| "byte_arrays bytes pos (Suc n) =
     bindR (get_le 4 bytes pos) (\<lambda>len.
     bindR (byte_arrays bytes (pos + 4 + len) n) (\<lambda>vs. Inr (sub_array bytes (pos + 4) len # vs)))"

text \<open>\<open>bytes[i >> 3]! & (1 << (i & 7))\<close>: a negative index reads \<open>undefined\<close>, which counts as zero.\<close>

definition bit_at :: "byte list \<Rightarrow> nat \<Rightarrow> bool" where
  "bit_at bytes i \<longleftrightarrow> (let j = shr32 i 3 in (if j < 0 then 0 else byte_at bytes (nat j)) AND push_bit (i AND 7) 1 \<noteq> 0)"

definition decodePlain :: "nat \<Rightarrow> byte list \<Rightarrow> int \<Rightarrow> nat option \<Rightarrow> js_error + column_values" where
  "decodePlain ptype bytes count typeLength =
     bindR (new_array count) (\<lambda>_.
       let is = [0..<nat count] in
       if ptype = BOOLEAN then Inr (Booleans (map (bit_at bytes) is))
       else if ptype = INT32 then bindR (mapR (\<lambda>i. getInt32 bytes (i * 4)) is) (\<lambda>vs. Inr (Int32s vs))
       else if ptype = INT64 then bindR (mapR (\<lambda>i. getBigInt64 bytes (i * 8)) is) (\<lambda>vs. Inr (Int64s vs))
       else if ptype = FLOAT then bindR (mapR (\<lambda>i. getFloat32 bytes (i * 4)) is) (\<lambda>vs. Inr (Floats vs))
       else if ptype = DOUBLE then bindR (mapR (\<lambda>i. getFloat64 bytes (i * 8)) is) (\<lambda>vs. Inr (Doubles vs))
       else if ptype = BYTE_ARRAY then bindR (byte_arrays bytes 0 (nat count)) (\<lambda>vs. Inr (ByteArrays (map Bytes vs)))
       else if ptype = FIXED_LEN_BYTE_ARRAY then
         let width = (case typeLength of None \<Rightarrow> 0 | Some n \<Rightarrow> n) in
         Inr (FixedArrays (map (\<lambda>i. Bytes (sub_array bytes (i * width) width)) is))
       else if ptype = INT96 then Inr (Int96s (map (\<lambda>i. sub_array bytes (i * 12) 12) is))
       else Inl (ParquetError ''PLAIN decode: unsupported physical type''))"

fun toBytes :: "binary_value \<Rightarrow> js_error + byte list" where
  "toBytes (Bytes b) = Inr b"
| "toBytes (Str s) = Inr (encodeUtf8 s)"
| "toBytes (NotBinary s) = Inl (ParquetError ''BYTE_ARRAY value must be a string or Uint8Array'')"

text \<open>One bit per value. The length of the array and the index of a byte are signed 32-bit shifts: a
  negative length throws, and a store outside the array is dropped.\<close>

definition or_at :: "byte list \<Rightarrow> int \<Rightarrow> byte \<Rightarrow> byte list" where
  "or_at out j m = (if 0 \<le> j \<and> j < int (length out) then out[nat j := out ! nat j OR m] else out)"

definition packed_booleans :: "bool list \<Rightarrow> js_error + byte list" where
  "packed_booleans vs =
     (let n = shr32 (length vs + 7) 3 in
      if n < 0 then Inl RangeError
      else Inr (foldl (\<lambda>out i. if vs ! i then or_at out (shr32 i 3) (push_bit (i AND 7) 1) else out)
        (replicate (nat n) 0) [0..<length vs]))"

text \<open>\<open>out.set(b.subarray(0, width), i * width)\<close> in a zeroed array.\<close>

definition fixed_slot :: "nat \<Rightarrow> byte list \<Rightarrow> byte list" where
  "fixed_slot width b = take width b @ replicate (width - length b) 0"

fun encodePlain :: "column_values \<Rightarrow> nat option \<Rightarrow> js_error + byte list" where
  "encodePlain (Booleans vs) typeLength = packed_booleans vs"
| "encodePlain (Int32s vs) typeLength = Inr (concat (map int32_le vs))"
| "encodePlain (Int64s vs) typeLength = Inr (concat (map int64_le vs))"
| "encodePlain (Floats vs) typeLength = Inr (concat (map (\<lambda>v. le_bytes 4 (unat v)) vs))"
| "encodePlain (Doubles vs) typeLength = Inr (concat (map (\<lambda>v. le_bytes 8 (unat v)) vs))"
| "encodePlain (ByteArrays vs) typeLength =
     bindR (mapR toBytes vs) (\<lambda>encoded.
       Inr (concat (map (\<lambda>b. le_bytes 4 (take_bit 32 (length b)) @ b) encoded)))"
| "encodePlain (FixedArrays vs) typeLength =
     (let width = (case typeLength of None \<Rightarrow> 0 | Some n \<Rightarrow> n) in
      bindR (mapR toBytes vs) (\<lambda>encoded. Inr (concat (map (fixed_slot width) encoded))))"
| "encodePlain (Int96s vs) typeLength = Inl (ParquetError ''PLAIN encode: unsupported physical type'')"

definition decodeDictionaryIndices :: "byte list \<Rightarrow> int \<Rightarrow> js_error + nat list" where
  "decodeDictionaryIndices bytes count =
     (if bytes = [] then
        (if count = 0 then Inr [] else bindR (new_array count) (\<lambda>_. Inr (replicate (nat count) 0)))
      else bindR (readU8 (new_reader bytes)) (\<lambda>(bitWidth, r).
        bindR (decodeRleHybrid bitWidth (nat count) r) (\<lambda>(out, r). Inr out)))"

subsection \<open>BYTE\_STREAM\_SPLIT\<close>

definition elementWidth :: "nat \<Rightarrow> nat option \<Rightarrow> nat" where
  "elementWidth ptype typeLength =
     (if ptype = FLOAT then 4 else if ptype = DOUBLE then 8 else if ptype = INT32 then 4
      else if ptype = INT64 then 8
      else if ptype = FIXED_LEN_BYTE_ARRAY then (case typeLength of None \<Rightarrow> 0 | Some n \<Rightarrow> n) else 0)"

definition decodeFixedWidth :: "byte list \<Rightarrow> int \<Rightarrow> nat \<Rightarrow> nat \<Rightarrow> js_error + column_values" where
  "decodeFixedWidth bytes count ptype width =
     bindR (new_array count) (\<lambda>_.
       let is = [0..<nat count] in
       if ptype = FLOAT then bindR (mapR (\<lambda>i. getFloat32 bytes (i * 4)) is) (\<lambda>vs. Inr (Floats vs))
       else if ptype = DOUBLE then bindR (mapR (\<lambda>i. getFloat64 bytes (i * 8)) is) (\<lambda>vs. Inr (Doubles vs))
       else if ptype = INT32 then bindR (mapR (\<lambda>i. getInt32 bytes (i * 4)) is) (\<lambda>vs. Inr (Int32s vs))
       else if ptype = INT64 then bindR (mapR (\<lambda>i. getBigInt64 bytes (i * 8)) is) (\<lambda>vs. Inr (Int64s vs))
       else Inr (FixedArrays (map (\<lambda>i. Bytes (sub_array bytes (i * width) width)) is)))"

text \<open>The default case calls \<open>subarray\<close> on the value, which only a \<open>Uint8Array\<close> has.\<close>

fun as_array :: "binary_value \<Rightarrow> js_error + byte list" where
  "as_array (Bytes b) = Inr b"
| "as_array _ = Inl UndefinedProperty"

fun encodeFixedWidth :: "column_values \<Rightarrow> nat \<Rightarrow> js_error + byte list" where
  "encodeFixedWidth (Floats vs) width = Inr (concat (map (\<lambda>v. le_bytes 4 (unat v)) vs))"
| "encodeFixedWidth (Doubles vs) width = Inr (concat (map (\<lambda>v. le_bytes 8 (unat v)) vs))"
| "encodeFixedWidth (Int32s vs) width = Inr (concat (map int32_le vs))"
| "encodeFixedWidth (Int64s vs) width = Inr (concat (map int64_le vs))"
| "encodeFixedWidth (FixedArrays vs) width =
     bindR (mapR as_array vs) (\<lambda>bs. Inr (concat (map (fixed_slot width) bs)))"
| "encodeFixedWidth (ByteArrays vs) width =
     bindR (mapR as_array vs) (\<lambda>bs. Inr (concat (map (fixed_slot width) bs)))"
| "encodeFixedWidth (Int96s vs) width = Inr (concat (map (fixed_slot width) vs))"
| "encodeFixedWidth (Booleans vs) width = (if vs = [] then Inr [] else Inl UndefinedProperty)"

definition decodeByteStreamSplit :: "byte list \<Rightarrow> int \<Rightarrow> nat \<Rightarrow> nat option \<Rightarrow> js_error + column_values" where
  "decodeByteStreamSplit bytes count ptype typeLength =
     (let width = elementWidth ptype typeLength in
      if count * int width < 0 then Inl RangeError
      else decodeFixedWidth
        (concat (map (\<lambda>i. map (\<lambda>b. byte_at bytes (b * nat count + i)) [0..<width]) [0..<nat count]))
        count ptype width)"

definition encodeByteStreamSplit :: "column_values \<Rightarrow> nat option \<Rightarrow> js_error + byte list" where
  "encodeByteStreamSplit vs typeLength =
     (let width = elementWidth (physicalType vs) typeLength; n = num_values vs in
      bindR (encodeFixedWidth vs width) (\<lambda>interleaved.
        Inr (concat (map (\<lambda>b. map (\<lambda>i. byte_at interleaved (i * width + b)) [0..<n]) [0..<width]))))"

subsection \<open>Arrays of fixed-width elements\<close>

lemma length_le_bytes [simp]: "length (le_bytes k n) = k"
  by (simp add: le_bytes_def)

lemma length_fixed_slot [simp]: "length (fixed_slot width b) = width"
  by (simp add: fixed_slot_def)

lemma length_concat_slots: "(\<And>x. length (e x) = k) \<Longrightarrow> length (concat (map e xs)) = length xs * k"
  by (induction xs) simp_all

lemma concat_slot:
  assumes "\<And>x. length (e x) = k" "i < length xs"
  shows "take k (drop (i * k) (concat (map e xs) @ rest)) = e (xs ! i)"
proof -
  have "concat (map e xs) = concat (map e (take i xs)) @ e (xs ! i) @ concat (map e (drop (Suc i) xs))"
    using assms(2) by (subst id_take_nth_drop [of i xs]) simp_all
  moreover have "length (concat (map e (take i xs))) = i * k"
    using length_concat_slots [of e k "take i xs"] assms by simp
  ultimately show ?thesis using assms(1) by simp
qed

lemma get_le_slot:
  assumes "\<And>x. length (e x) = k" "i < length xs"
  shows "get_le k (concat (map e xs) @ rest) (i * k) = Inr (be_uint (rev (e (xs ! i))))"
proof -
  have "Suc i * k \<le> length xs * k" using assms(2) by (intro mult_le_mono1) simp
  then have "i * k + k \<le> length (concat (map e xs) @ rest)"
    using length_concat_slots [of e k xs] assms(1) by simp
  then show ?thesis using concat_slot [of e k i xs rest] assms by (simp add: get_le_def)
qed

lemma be_uint_le_bytes:
  "be_uint (rev (le_bytes 4 (unat (v :: 32 word)))) = unat v" "be_uint (rev (le_bytes 8 (unat (u :: 64 word)))) = unat u"
  using unsigned_less [of v] unsigned_less [of u] by (simp_all add: le_bytes_def be_uint_be_bytes)

lemma mapR_upt:
  assumes "\<And>i. i < length xs \<Longrightarrow> h i = Inr (f (xs ! i))"
  shows "mapR h [0..<length xs] = Inr (map f xs)"
proof -
  have "mapR h [0..<length xs] = Inr (map (\<lambda>i. f (xs ! i)) [0..<length xs])"
    using assms by (intro mapR_Inr) simp
  also have "map (\<lambda>i. f (xs ! i)) [0..<length xs] = map f xs" by (rule nth_equalityI) simp_all
  finally show ?thesis .
qed

lemma mapR_slots:
  "mapR (\<lambda>i. getInt32 (concat (map int32_le is) @ rest) (i * 4)) [0..<length is] = Inr (map (\<lambda>v. sint (word_of_int v :: 32 word)) is)"
  "mapR (\<lambda>i. getBigInt64 (concat (map int64_le is) @ rest) (i * 8)) [0..<length is] = Inr (map (\<lambda>v. sint (word_of_int v :: 64 word)) is)"
  "mapR (\<lambda>i. getFloat32 (concat (map (\<lambda>v. le_bytes 4 (unat v)) fs) @ rest) (i * 4)) [0..<length fs] = Inr (map (\<lambda>v. v) fs)"
  "mapR (\<lambda>i. getFloat64 (concat (map (\<lambda>v. le_bytes 8 (unat v)) ds) @ rest) (i * 8)) [0..<length ds] = Inr (map (\<lambda>v. v) ds)"
proof -
  show "mapR (\<lambda>i. getInt32 (concat (map int32_le is) @ rest) (i * 4)) [0..<length is] = Inr (map (\<lambda>v. sint (word_of_int v :: 32 word)) is)"
    using get_le_slot [of int32_le 4 _ "is" rest] by (intro mapR_upt) (simp add: getInt32_def int32_le_def be_uint_le_bytes)
  show "mapR (\<lambda>i. getBigInt64 (concat (map int64_le is) @ rest) (i * 8)) [0..<length is] = Inr (map (\<lambda>v. sint (word_of_int v :: 64 word)) is)"
    using get_le_slot [of int64_le 8 _ "is" rest] by (intro mapR_upt) (simp add: getBigInt64_def int64_le_def be_uint_le_bytes)
  show "mapR (\<lambda>i. getFloat32 (concat (map (\<lambda>v. le_bytes 4 (unat v)) fs) @ rest) (i * 4)) [0..<length fs] = Inr (map (\<lambda>v. v) fs)"
    using get_le_slot [of "\<lambda>v. le_bytes 4 (unat v)" 4 _ fs rest] by (intro mapR_upt) (simp add: getFloat32_def be_uint_le_bytes)
  show "mapR (\<lambda>i. getFloat64 (concat (map (\<lambda>v. le_bytes 8 (unat v)) ds) @ rest) (i * 8)) [0..<length ds] = Inr (map (\<lambda>v. v) ds)"
    using get_le_slot [of "\<lambda>v. le_bytes 8 (unat v)" 8 _ ds rest] by (intro mapR_upt) (simp add: getFloat64_def be_uint_le_bytes)
qed

lemma sub_array_slots:
  "map (\<lambda>i. Bytes (sub_array (concat (map (fixed_slot width) bs) @ rest) (i * width) width)) [0..<length bs] =
    map (\<lambda>b. Bytes (fixed_slot width b)) bs"
  using concat_slot [of "fixed_slot width" width _ bs rest] by (intro nth_equalityI) (simp_all add: sub_array_def)

subsection \<open>Booleans\<close>

lemma byte_index: "i < n \<Longrightarrow> i div 8 < (n + 7) div (8::nat)"
proof -
  assume "i < n"
  then have "(i + 8) div 8 \<le> (n + 7) div 8" by (intro div_le_mono) simp
  then show ?thesis by simp
qed

text \<open>Below the limit of the shifts the bytes are those of exact division.\<close>

definition pack_bits :: "bool list \<Rightarrow> byte list" where
  "pack_bits vs =
     foldl (\<lambda>out i. if vs ! i then out[i div 8 := out ! (i div 8) OR push_bit (i mod 8) 1] else out)
       (replicate ((length vs + 7) div 8) 0) [0..<length vs]"

lemma foldl_or_at:
  "n \<le> 2 ^ 31 \<Longrightarrow> foldl (\<lambda>out i. if vs ! i then or_at out (shr32 i 3) (push_bit (i AND 7) 1) else out) out [0..<n] =
   foldl (\<lambda>out i. if vs ! i then out[i div 8 := out ! (i div 8) OR push_bit (i mod 8) 1] else out) out [0..<n]"
proof (induction n)
  case (Suc n)
  have "or_at xs (shr32 n 3) m = xs[n div 8 := xs ! (n div 8) OR m]" for xs m
    using Suc.prems by (auto simp: or_at_def shr32_small not_less list_update_beyond)
  with Suc show ?case by (simp add: nat_and_mask)
qed simp

lemma packed_booleans_small: "length vs + 7 < 2 ^ 31 \<Longrightarrow> packed_booleans vs = Inr (pack_bits vs)"
  using foldl_or_at [of "length vs" vs] by (simp add: packed_booleans_def pack_bits_def shr32_small Let_def)

lemma packed_booleans_limit:
  "2 ^ 31 \<le> length vs + 7 \<Longrightarrow> length vs + 7 < 2 ^ 32 \<Longrightarrow> packed_booleans vs = Inl RangeError"
  using shr32_negative [of "length vs + 7" 3] by (simp add: packed_booleans_def)

lemma bit_at_small: "i < 2 ^ 31 \<Longrightarrow> bit_at bytes i \<longleftrightarrow> bit (byte_at bytes (i div 8)) (i mod 8)"
  using bit_iff_and_push_bit_not_eq_0 [of "byte_at bytes (i div 8)" "i mod 8"]
  by (simp add: bit_at_def shr32_small nat_and_mask)

lemma pack_bits_prefix:
  assumes "n \<le> length vs"
  defines "out \<equiv> foldl (\<lambda>out i. if vs ! i then out[i div 8 := out ! (i div 8) OR push_bit (i mod 8) 1] else out)
       (replicate ((length vs + 7) div 8) 0) [0..<n]"
  shows "length out = (length vs + 7) div 8 \<and>
    (\<forall>i < length vs. bit (out ! (i div 8) :: byte) (i mod 8) \<longleftrightarrow> i < n \<and> vs ! i)"
  using assms(1) unfolding assms(2)
proof (induction n)
  case 0
  show ?case using byte_index [of _ "length vs"] by simp
next
  case (Suc n)
  let ?out = "foldl (\<lambda>out i. if vs ! i then out[i div 8 := out ! (i div 8) OR push_bit (i mod 8) 1] else out)
       (replicate ((length vs + 7) div 8) (0 :: byte)) [0..<n]"
  have IH: "length ?out = (length vs + 7) div 8" "\<And>i. i < length vs \<Longrightarrow> bit (?out ! (i div 8)) (i mod 8) \<longleftrightarrow> i < n \<and> vs ! i"
    using Suc by simp_all
  have n: "n div 8 < length ?out" using Suc.prems unfolding IH(1) by (intro byte_index) simp
  have same: "i div 8 = n div 8 \<and> i mod 8 = n mod 8 \<longleftrightarrow> i = n" for i by (metis div_mult_mod_eq)
  have "bit (?out[n div 8 := ?out ! (n div 8) OR push_bit (n mod 8) 1] ! (i div 8)) (i mod 8) \<longleftrightarrow> i < n \<and> vs ! i \<or> i = n"
    if "i < length vs" for i
    using IH(2) [OF that] n same [of i] by (auto simp: nth_list_update bit_simps)
  with IH show ?case by (auto simp: less_Suc_eq)
qed

lemma bit_at_packed:
  assumes "i < length vs" "length vs + 7 < 2 ^ 31"
  shows "bit_at (pack_bits vs @ rest) i \<longleftrightarrow> vs ! i"
proof -
  have bits: "length (pack_bits vs) = (length vs + 7) div 8" "bit (pack_bits vs ! (i div 8)) (i mod 8) \<longleftrightarrow> vs ! i"
    using pack_bits_prefix [of "length vs" vs] assms(1) unfolding pack_bits_def by auto
  have "i div 8 < length (pack_bits vs)" using assms(1) unfolding bits(1) by (rule byte_index)
  with bits(2) assms show ?thesis by (simp add: bit_at_small byte_at_def nth_append)
qed

lemma decode_packed_booleans:
  "length vs + 7 < 2 ^ 31 \<Longrightarrow> map (bit_at (pack_bits vs @ rest)) [0..<length vs] = vs"
  by (rule nth_equalityI) (simp_all add: bit_at_packed)

subsection \<open>Byte planes\<close>

lemma length_rows: "length (concat (map (\<lambda>i. map (f i) [0..<n]) [0..<m])) = m * n"
  using length_concat_slots [of "\<lambda>i. map (f i) [0..<n]" n "[0..<m]"] by simp

lemma nth_rows:
  assumes "i < m" "j < n"
  shows "concat (map (\<lambda>i. map (f i) [0..<n]) [0..<m]) ! (i * n + j) = f i j"
proof -
  let ?c = "concat (map (\<lambda>i. map (f i) [0..<n]) [0..<m])"
  have "take n (drop (i * n) ?c) = map (f i) [0..<n]"
    using concat_slot [of "\<lambda>i. map (f i) [0..<n]" n i "[0..<m]" "[]"] assms(1) by simp
  then have "take n (drop (i * n) ?c) ! j = f i j" using assms(2) by simp
  moreover have "i * n \<le> length ?c" unfolding length_rows using assms(1) by simp
  ultimately show ?thesis using assms(2) by simp
qed

lemma row_index: "i < m \<Longrightarrow> j < n \<Longrightarrow> i * n + j < m * (n::nat)"
proof -
  assume "i < m" "j < n"
  then have "i * n + j < Suc i * n" by simp
  also have "\<dots> \<le> m * n" using \<open>i < m\<close> by (intro mult_le_mono1) simp
  finally show ?thesis .
qed

text \<open>Scattering an array into byte planes and gathering it again is the identity.\<close>

lemma gather_scatter:
  assumes "length xs = n * w"
  shows "concat (map (\<lambda>i. map (\<lambda>b. byte_at
      (concat (map (\<lambda>b. map (\<lambda>i. byte_at xs (i * w + b)) [0..<n]) [0..<w])) (b * n + i)) [0..<w]) [0..<n]) = xs"
    (is "?gathered = xs")
proof (rule nth_equalityI)
  show "length ?gathered = length xs" by (simp only: length_rows assms)
  fix p
  assume "p < length ?gathered"
  then have p: "p < n * w" by (simp only: length_rows)
  then have w: "0 < w" by (cases w) simp_all
  have i: "p div w < n" using p by (simp add: less_mult_imp_div_less)
  have b: "p mod w < w" using w by simp
  have "?gathered ! (p div w * w + p mod w) = xs ! (p div w * w + p mod w)"
    unfolding nth_rows [OF i b]
    using row_index [OF i b] row_index [OF b i] assms
    by (simp only: byte_at_def length_rows nth_rows [OF b i] if_True)
  then show "?gathered ! p = xs ! p" by simp
qed

subsection \<open>What a column stores\<close>

fun binary_bytes :: "binary_value \<Rightarrow> byte list" where
  "binary_bytes (Bytes b) = b"
| "binary_bytes (Str s) = encodeUtf8 s"
| "binary_bytes (NotBinary s) = []"

fun stored :: "nat option \<Rightarrow> column_values \<Rightarrow> column_values" where
  "stored typeLength (Int32s vs) = Int32s (map (\<lambda>v. sint (word_of_int v :: 32 word)) vs)"
| "stored typeLength (Int64s vs) = Int64s (map (\<lambda>v. sint (word_of_int v :: 64 word)) vs)"
| "stored typeLength (ByteArrays vs) = ByteArrays (map (\<lambda>v. Bytes (binary_bytes v)) vs)"
| "stored typeLength (FixedArrays vs) =
     FixedArrays (map (\<lambda>v. Bytes (fixed_slot (case typeLength of None \<Rightarrow> 0 | Some n \<Rightarrow> n) (binary_bytes v))) vs)"
| "stored typeLength vs = vs"

text \<open>The values the PLAIN writer takes.\<close>

fun is_binary :: "binary_value \<Rightarrow> bool" where
  "is_binary (NotBinary s) = False"
| "is_binary v = True"

fun plain_ok :: "column_values \<Rightarrow> bool" where
  "plain_ok (Int96s vs) = False"
| "plain_ok (ByteArrays vs) \<longleftrightarrow> length vs < 2 ^ 32 \<and> list_all (\<lambda>v. is_binary v \<and> length (binary_bytes v) < 2 ^ 32) vs"
| "plain_ok (FixedArrays vs) \<longleftrightarrow> length vs < 2 ^ 32 \<and> list_all is_binary vs"
| "plain_ok (Booleans vs) \<longleftrightarrow> length vs + 7 < 2 ^ 31"
| "plain_ok vs \<longleftrightarrow> num_values vs < 2 ^ 32"

lemma new_array_ok: "n < 2 ^ 32 \<Longrightarrow> new_array (int n) = Inr ()"
proof -
  assume "n < 2 ^ 32"
  then have "int n < int (2 ^ 32)" by (subst of_nat_less_iff)
  then show ?thesis by (simp add: new_array_def)
qed

lemma toBytes_ok: "list_all is_binary vs \<Longrightarrow> mapR toBytes vs = Inr (map binary_bytes vs)"
proof (rule mapR_Inr)
  fix v assume "list_all is_binary vs" "v \<in> set vs"
  then show "toBytes v = Inr (binary_bytes v)" by (cases v) (auto simp: list_all_iff)
qed

lemma byte_arrays_decode:
  "list_all (\<lambda>b. length b < 2 ^ 32) bs \<Longrightarrow>
    byte_arrays (pre @ concat (map (\<lambda>b. le_bytes 4 (take_bit 32 (length b)) @ b) bs) @ rest) (length pre) (length bs) = Inr bs"
proof (induction bs arbitrary: pre)
  case (Cons b bs)
  let ?h = "le_bytes 4 (take_bit 32 (length b))"
  have n: "length b < 2 ^ 32" using Cons.prems by simp
  then have "be_uint (rev ?h) = length b" by (simp add: take_bit_nat_eq_self le_bytes_def be_uint_be_bytes)
  then have "get_le 4 (pre @ ?h @ b @ xs) (length pre) = Inr (length b)" for xs by (simp add: get_le_def)
  moreover have "sub_array (pre @ ?h @ b @ xs) (length pre + 4) (length b) = b" for xs by (simp add: sub_array_def)
  moreover have "byte_arrays ((pre @ ?h @ b) @ concat (map (\<lambda>b. le_bytes 4 (take_bit 32 (length b)) @ b) bs) @ rest)
      (length (pre @ ?h @ b)) (length bs) = Inr bs"
    using Cons.IH [of "pre @ ?h @ b"] Cons.prems by simp
  ultimately show ?case by (simp add: add.assoc)
qed simp

lemma decode_typed:
  assumes "n < 2 ^ 32" "n = length is" "n' < 2 ^ 32" "n' = length fs" "n'' < 2 ^ 32" "n'' = length ds"
  shows "decodePlain INT32 (concat (map int32_le is) @ rest) (int n) typeLength = Inr (Int32s (map (\<lambda>v. sint (word_of_int v :: 32 word)) is))"
    "decodePlain INT64 (concat (map int64_le is) @ rest) (int n) typeLength = Inr (Int64s (map (\<lambda>v. sint (word_of_int v :: 64 word)) is))"
    "decodePlain FLOAT (concat (map (\<lambda>v. le_bytes 4 (unat v)) fs) @ rest) (int n') typeLength = Inr (Floats fs)"
    "decodePlain DOUBLE (concat (map (\<lambda>v. le_bytes 8 (unat v)) ds) @ rest) (int n'') typeLength = Inr (Doubles ds)"
    "decodeFixedWidth (concat (map int32_le is) @ rest) (int n) INT32 w = Inr (Int32s (map (\<lambda>v. sint (word_of_int v :: 32 word)) is))"
    "decodeFixedWidth (concat (map int64_le is) @ rest) (int n) INT64 w = Inr (Int64s (map (\<lambda>v. sint (word_of_int v :: 64 word)) is))"
    "decodeFixedWidth (concat (map (\<lambda>v. le_bytes 4 (unat v)) fs) @ rest) (int n') FLOAT w = Inr (Floats fs)"
    "decodeFixedWidth (concat (map (\<lambda>v. le_bytes 8 (unat v)) ds) @ rest) (int n'') DOUBLE w = Inr (Doubles ds)"
  using new_array_ok [OF assms(1)] new_array_ok [OF assms(3)] new_array_ok [OF assms(5)]
  by (simp_all add: assms(2,4,6) decodePlain_def decodeFixedWidth_def mapR_slots ptype_defs)

fun split_ok :: "column_values \<Rightarrow> bool" where
  "split_ok (FixedArrays vs) \<longleftrightarrow> length vs < 2 ^ 32 \<and> list_all (\<lambda>v. \<exists>b. v = Bytes b) vs"
| "split_ok (Booleans vs) = False"
| "split_ok (Int96s vs) = False"
| "split_ok (ByteArrays vs) = False"
| "split_ok vs \<longleftrightarrow> num_values vs < 2 ^ 32"

lemma as_array_ok: "list_all (\<lambda>v. \<exists>b. v = Bytes b) vs \<Longrightarrow> mapR as_array vs = Inr (map binary_bytes vs)"
  by (rule mapR_Inr) (auto simp: list_all_iff)

lemma fixed_width_codec:
  assumes "split_ok vs" "w = elementWidth (physicalType vs) typeLength"
  shows "\<exists>bs. encodeFixedWidth vs w = Inr bs \<and> length bs = num_values vs * w \<and>
    decodeFixedWidth bs (int (num_values vs)) (physicalType vs) w = Inr (stored typeLength vs)"
proof (cases vs)
  case (Int32s xs)
  with assms decode_typed(5) [of "num_values vs" xs 0 "[]" 0 "[]" "[]" w] show ?thesis
    by (simp add: elementWidth_def ptype_defs length_concat_slots int32_le_def)
next
  case (Int64s xs)
  with assms decode_typed(6) [of "num_values vs" xs 0 "[]" 0 "[]" "[]" w] show ?thesis
    by (simp add: elementWidth_def ptype_defs length_concat_slots int64_le_def)
next
  case (Floats xs)
  with assms decode_typed(7) [of 0 "[]" "num_values vs" xs 0 "[]" "[]" w] show ?thesis
    by (simp add: elementWidth_def ptype_defs length_concat_slots)
next
  case (Doubles xs)
  with assms decode_typed(8) [of 0 "[]" 0 "[]" "num_values vs" xs "[]" w] show ?thesis
    by (simp add: elementWidth_def ptype_defs length_concat_slots)
next
  case (FixedArrays xs)
  with assms as_array_ok [of xs] new_array_ok [of "length xs"] sub_array_slots [of w "map binary_bytes xs" "[]"]
  show ?thesis by (simp add: elementWidth_def ptype_defs length_concat_slots decodeFixedWidth_def comp_def)
qed (use assms in simp_all)

subsection \<open>Properties\<close>

lemma plain_codec:
  assumes "plain_ok vs"
  shows "\<exists>bs. encodePlain vs typeLength = Inr bs \<and>
    decodePlain (physicalType vs) (bs @ rest) (int (num_values vs)) typeLength = Inr (stored typeLength vs)"
proof (cases vs)
  case (Booleans xs)
  with assms new_array_ok [of "length xs"] decode_packed_booleans [of xs rest] show ?thesis
    by (simp add: decodePlain_def packed_booleans_small)
next
  case (Int32s xs)
  with assms decode_typed(1) [of "num_values vs" xs 0 "[]" 0 "[]" rest typeLength] show ?thesis by simp
next
  case (Int64s xs)
  with assms decode_typed(2) [of "num_values vs" xs 0 "[]" 0 "[]" rest typeLength] show ?thesis by simp
next
  case (Floats xs)
  with assms decode_typed(3) [of 0 "[]" "num_values vs" xs 0 "[]" rest typeLength] show ?thesis by simp
next
  case (Doubles xs)
  with assms decode_typed(4) [of 0 "[]" 0 "[]" "num_values vs" xs rest typeLength] show ?thesis by simp
next
  case (ByteArrays xs)
  then have "list_all is_binary xs" "list_all (\<lambda>b. length b < 2 ^ 32) (map binary_bytes xs)" "length xs < 2 ^ 32"
    using assms by (auto simp: list_all_iff)
  with toBytes_ok [of xs] byte_arrays_decode [of "map binary_bytes xs" "[]" rest] new_array_ok [of "length xs"] ByteArrays
  show ?thesis by (simp add: decodePlain_def ptype_defs comp_def)
next
  case (FixedArrays xs)
  define w where "w = (case typeLength of None \<Rightarrow> 0 | Some n \<Rightarrow> n)"
  from FixedArrays assms toBytes_ok [of xs] new_array_ok [of "length xs"] sub_array_slots [of w "map binary_bytes xs" rest]
  show ?thesis by (simp add: decodePlain_def ptype_defs comp_def flip: w_def)
qed (use assms in simp_all)

text \<open>C36: PLAIN round trip. The values of a column of any physical type but INT96, which the writer
  refuses, are decoded as what the column stores, whatever follows them: integers cut to 32 or 64 bits,
  strings as their UTF-8 bytes, and fixed-length byte arrays truncated or zero-padded to their width; all
  other values unchanged. The column has fewer than \<open>2 ^ 32\<close> values, as an array does; booleans stay below
  the \<open>2 ^ 31 - 7\<close> values where the signed shift that sizes their bytes turns negative and
  \<open>packed_booleans_limit\<close> shows a \<open>RangeError\<close>; byte arrays hold strings or bytes shorter than \<open>2 ^ 32\<close>.\<close>

theorem plain_roundtrip:
  assumes "plain_ok vs"
  shows "\<exists>bs. encodePlain vs typeLength = Inr bs \<and>
    decodePlain (physicalType vs) (bs @ rest) (int (num_values vs)) typeLength = Inr (stored typeLength vs)"
  using assms by (rule plain_codec)

theorem plain_roundtrip_witness:
  "\<exists>bs. encodePlain (FixedArrays [Bytes [1, 2, 3], Str [104, 105]]) (Some 2) = Inr bs \<and>
    decodePlain (physicalType (FixedArrays [Bytes [1, 2, 3], Str [104, 105]])) (bs @ [9])
      (int (num_values (FixedArrays [Bytes [1, 2, 3], Str [104, 105]]))) (Some 2) =
      Inr (stored (Some 2) (FixedArrays [Bytes [1, 2, 3], Str [104, 105]]))"
  by (rule plain_roundtrip) simp

lemma split_codec:
  assumes "split_ok vs"
  shows "\<exists>bs. encodeByteStreamSplit vs typeLength = Inr bs \<and>
    length bs = num_values vs * elementWidth (physicalType vs) typeLength \<and>
    decodeByteStreamSplit bs (int (num_values vs)) (physicalType vs) typeLength = Inr (stored typeLength vs)"
proof -
  define w where "w = elementWidth (physicalType vs) typeLength"
  let ?n = "num_values vs"
  obtain xs where xs: "encodeFixedWidth vs w = Inr xs" "length xs = ?n * w"
    "decodeFixedWidth xs (int ?n) (physicalType vs) w = Inr (stored typeLength vs)"
    using fixed_width_codec [OF assms w_def] by blast
  let ?bs = "concat (map (\<lambda>b. map (\<lambda>i. byte_at xs (i * w + b)) [0..<?n]) [0..<w])"
  have "encodeByteStreamSplit vs typeLength = Inr ?bs" using xs(1) by (simp add: encodeByteStreamSplit_def flip: w_def)
  moreover have "decodeByteStreamSplit ?bs (int ?n) (physicalType vs) typeLength = Inr (stored typeLength vs)"
    using xs(3) gather_scatter [OF xs(2)] by (simp add: decodeByteStreamSplit_def not_less flip: w_def)
  moreover have "length ?bs = ?n * w" using length_rows [of _ ?n w] by (simp add: mult.commute)
  ultimately show ?thesis by (simp add: w_def)
qed

text \<open>BYTE\_STREAM\_SPLIT round trip. The values of a numeric or fixed-length byte-array column, scattered
  into byte planes of exactly the size of the values, are gathered again as what the column stores.\<close>

theorem byte_stream_split_roundtrip:
  assumes "split_ok vs"
  shows "\<exists>bs. encodeByteStreamSplit vs typeLength = Inr bs \<and>
    length bs = num_values vs * elementWidth (physicalType vs) typeLength \<and>
    decodeByteStreamSplit bs (int (num_values vs)) (physicalType vs) typeLength = Inr (stored typeLength vs)"
  using assms by (rule split_codec)

theorem byte_stream_split_roundtrip_witness:
  "\<exists>bs. encodeByteStreamSplit (Int32s [- 1, 258]) None = Inr bs \<and>
    length bs = num_values (Int32s [- 1, 258]) * elementWidth (physicalType (Int32s [- 1, 258])) None \<and>
    decodeByteStreamSplit bs (int (num_values (Int32s [- 1, 258]))) (physicalType (Int32s [- 1, 258])) None =
      Inr (stored None (Int32s [- 1, 258]))"
  by (rule byte_stream_split_roundtrip) simp

lemma indices_codec:
  assumes "bitWidth \<le> 32" "\<forall>v \<in> set indices. v < 2 ^ bitWidth" "length indices < 2 ^ 30" "aligned indices"
  shows "\<exists>bs. encodeRleHybrid indices bitWidth = Inr bs \<and>
    decodeDictionaryIndices (of_nat bitWidth # bs) (int (length indices)) = Inr indices"
proof -
  obtain bs r where "encodeRleHybrid indices bitWidth = Inr bs"
    "decodeRleHybrid bitWidth (length indices) (reader_at [of_nat bitWidth] (bs @ [])) = Inr (indices, r)"
    using aligned_stream [OF assms(1-3) disjI1 [OF assms(4)]] by blast
  then show ?thesis using assms(1) by (auto simp: decodeDictionaryIndices_def new_reader_at)
qed

text \<open>Dictionary indices, stored as a bit-width byte and their RLE hybrid, are read back when the hybrid
  preserves them; an index page without a body stands for zeros.\<close>

theorem dictionary_indices_roundtrip:
  assumes "bitWidth \<le> 32" "\<forall>v \<in> set indices. v < 2 ^ bitWidth" "length indices < 2 ^ 30" "aligned indices"
  shows "(\<exists>bs. encodeRleHybrid indices bitWidth = Inr bs \<and>
      decodeDictionaryIndices (of_nat bitWidth # bs) (int (length indices)) = Inr indices) \<and>
    decodeDictionaryIndices [] (int (length indices)) = Inr (replicate (length indices) 0)"
  using indices_codec [OF assms] new_array_ok [of "length indices"] assms(3)
  by (auto simp: decodeDictionaryIndices_def)

theorem dictionary_indices_roundtrip_witness:
  "(\<exists>bs. encodeRleHybrid [0, 2, 1] 2 = Inr bs \<and>
      decodeDictionaryIndices (of_nat 2 # bs) (int (length [0, 2, 1 :: nat])) = Inr [0, 2, 1]) \<and>
    decodeDictionaryIndices [] (int (length [0, 2, 1 :: nat])) = Inr (replicate (length [0, 2, 1 :: nat]) 0)"
proof -
  have "aligned [0, 2, 1]" by code_simp
  then show ?thesis using dictionary_indices_roundtrip [of 2 "[0, 2, 1]"] by simp
qed

end
