(* ===== verification/Js_Text.thy ===== *)
theory Js_Text
  imports Fino_Prelude "HOL-Library.Log_Nat"
begin

text \<open>
  What the sources use of JavaScript's strings and numbers: trimming, splitting and joining, decimal digits, and the
  rounding of an integer to a \<open>Number\<close>.
\<close>

subsection \<open>Numbers\<close>

text \<open>\<open>Number(v)\<close> of a bigint: the nearest integer with 53 significant bits, ties to even.\<close>

definition round_half_even :: "nat \<Rightarrow> nat \<Rightarrow> nat" where
  "round_half_even n k =
     (let q = n div 2 ^ k; r = n mod 2 ^ k in if 2 ^ k < 2 * r \<or> 2 * r = 2 ^ k \<and> odd q then q + 1 else q)"

definition number_of_bigint :: "int \<Rightarrow> int" where
  "number_of_bigint v =
     (let k = floorlog 2 (nat \<bar>v\<bar>) - 53 in sgn v * int (round_half_even (nat \<bar>v\<bar>) k * 2 ^ k))"

lemma round_exact: "round_half_even (m * 2 ^ k) k = m"
  by (simp add: round_half_even_def)

lemma number_of_small: "\<bar>v\<bar> < 2 ^ 53 \<Longrightarrow> number_of_bigint v = v"
proof -
  assume "\<bar>v\<bar> < 2 ^ 53"
  then have "nat \<bar>v\<bar> < 2 ^ 53" by (simp add: nat_less_iff)
  then have "floorlog 2 (nat \<bar>v\<bar>) - 53 = 0" using floorlog_leI [of "nat \<bar>v\<bar>" 2 53] by simp
  then show ?thesis using round_exact [of "nat \<bar>v\<bar>" 0] by (simp add: number_of_bigint_def sgn_if)
qed

subsection \<open>Strings\<close>

text \<open>White space, for \<open>trim\<close> and the class \<open>\\s\<close> of regular expressions.\<close>

definition js_space :: "code_unit \<Rightarrow> bool" where
  "js_space c \<longleftrightarrow> (let n = unat c in 9 \<le> n \<and> n \<le> 13 \<or> n = 32 \<or> n = 160 \<or> n = 0x1680 \<or> 0x2000 \<le> n \<and> n \<le> 0x200a \<or>
     n = 0x2028 \<or> n = 0x2029 \<or> n = 0x202f \<or> n = 0x205f \<or> n = 0x3000 \<or> n = 0xfeff)"

definition trim :: "text_string \<Rightarrow> text_string" where
  "trim s = rev (dropWhile js_space (rev (dropWhile js_space s)))"

text \<open>\<open>split\<close> at a character and at runs of white space.\<close>

fun split_char :: "code_unit \<Rightarrow> text_string \<Rightarrow> text_string list" where
  "split_char sep [] = [[]]"
| "split_char sep (c # cs) =
     (if c = sep then [] # split_char sep cs else (case split_char sep cs of p # ps \<Rightarrow> (c # p) # ps | [] \<Rightarrow> [[c]]))"

function split_space :: "text_string \<Rightarrow> text_string list" where
  "split_space s =
     (let w = takeWhile (\<lambda>c. \<not> js_space c) s; rest = dropWhile (\<lambda>c. \<not> js_space c) s in
      if rest = [] then [w] else w # split_space (dropWhile js_space rest))"
  by pat_completeness auto
termination
proof (relation "measure length", goal_cases)
  case (2 s w rest)
  then obtain c cs where "rest = c # cs" using list.exhaust by blast
  moreover from this 2(2) have "js_space c" by (metis dropWhile_eq_Cons_conv)
  moreover have "length (dropWhile js_space cs) \<le> length cs" "length rest \<le> length s" using 2(2) by (simp_all add: length_dropWhile_le)
  ultimately show ?case by simp
qed simp

declare split_space.simps [simp del]

definition digit_value :: "code_unit \<Rightarrow> nat option" where
  "digit_value c = (if 48 \<le> unat c \<and> unat c \<le> 57 then Some (unat c - 48) else None)"

definition is_digit :: "code_unit \<Rightarrow> bool" where "is_digit c \<longleftrightarrow> digit_value c \<noteq> None"

text \<open>\<open>/^\\d+$/\<close> and \<open>Number\<close> of such a text, with \<open>2 ^ 1024\<close> for \<open>Infinity\<close>.\<close>

definition all_digits :: "text_string \<Rightarrow> bool" where
  "all_digits s \<longleftrightarrow> s \<noteq> [] \<and> list_all (\<lambda>c. digit_value c \<noteq> None) s"

definition digits_value :: "text_string \<Rightarrow> nat" where
  "digits_value s = foldl (\<lambda>n c. 10 * n + the (digit_value c)) 0 s"

definition number_of_digits :: "text_string \<Rightarrow> int" where
  "number_of_digits s = min (number_of_bigint (int (digits_value s))) (2 ^ 1024)"

text \<open>\<open>indexOf\<close> a character and the text before and after it.\<close>

fun split_at :: "code_unit \<Rightarrow> text_string \<Rightarrow> (text_string \<times> text_string) option" where
  "split_at sep [] = None"
| "split_at sep (c # cs) = (if c = sep then Some ([], cs) else map_option (\<lambda>(a, b). (c # a, b)) (split_at sep cs))"

text \<open>\<open>join\<close>.\<close>

fun join_text :: "text_string \<Rightarrow> text_string list \<Rightarrow> text_string" where
  "join_text sep [] = []"
| "join_text sep [s] = s"
| "join_text sep (s # t # ss) = s @ sep @ join_text sep (t # ss)"

text \<open>A string literal of the sources.\<close>

definition text_of :: "string \<Rightarrow> text_string" where
  "text_of s = map (\<lambda>c. of_nat (of_char c)) s"

lemma text_of_inject [simp]: "text_of s = text_of t \<longleftrightarrow> s = t"
proof -
  have "(of_nat (of_char c) :: code_unit) = of_nat (of_char d) \<longleftrightarrow> c = d" for c d
  proof
    assume "(of_nat (of_char c) :: code_unit) = of_nat (of_char d)"
    moreover have "of_char c < (65536::nat)" "of_char d < (65536::nat)" by (rule less_trans [OF nat_of_char_less_256], simp)+
    ultimately have "of_char c = (of_char d :: nat)" by (metis unat_of_nat_unit)
    then show "c = d" by simp
  qed simp
  then show ?thesis by (auto simp: text_of_def inj_on_def intro: map_injective)
qed

subsection \<open>Splitting what was joined\<close>

lemma split_char_nonempty: "split_char sep s \<noteq> []"
  by (induction s) (auto split: list.split)

lemma digit_not_space: "is_digit c \<Longrightarrow> \<not> js_space c"
  by (auto simp: is_digit_def digit_value_def js_space_def Let_def split: if_splits)

lemma digits_differ: "(\<And>c. c \<in> set s \<Longrightarrow> is_digit c) \<Longrightarrow> \<not> is_digit k \<Longrightarrow> k \<notin> set s"
  by blast

lemma split_at_absent: "k \<notin> set s \<Longrightarrow> split_at k s = None"
  by (induction s) auto

lemma split_at_first: "k \<notin> set s \<Longrightarrow> split_at k (s @ k # t) = Some (s, t)"
  by (induction s) auto

lemma split_char_word: "k \<notin> set s \<Longrightarrow> split_char k s = [s]"
  by (induction s) auto

lemma split_char_first: "k \<notin> set s \<Longrightarrow> split_char k (s @ k # t) = s # split_char k t"
  by (induction s) auto

lemma split_char_join:
  "ss \<noteq> [] \<Longrightarrow> (\<And>s. s \<in> set ss \<Longrightarrow> k \<notin> set s) \<Longrightarrow> split_char k (join_text [k] ss) = ss"
  by (induction "[k]" ss rule: join_text.induct) (auto simp: split_char_word split_char_first)

lemma split_space_word: "(\<And>c. c \<in> set s \<Longrightarrow> \<not> js_space c) \<Longrightarrow> split_space s = [s]"
  by (subst split_space.simps) (simp add: Let_def)

lemma split_space_first:
  assumes "\<And>c. c \<in> set s \<Longrightarrow> \<not> js_space c" "t \<noteq> []" "\<not> js_space (hd t)"
  shows "split_space (s @ 32 # t) = s # split_space t"
proof -
  have "js_space 32" by (simp add: js_space_def)
  moreover have "dropWhile js_space t = t" using assms(2,3) by (cases t) auto
  ultimately show ?thesis using assms(1) by (subst split_space.simps) (simp add: Let_def takeWhile_append dropWhile_append)
qed

lemma split_space_join:
  "ss \<noteq> [] \<Longrightarrow> (\<And>s c. s \<in> set ss \<Longrightarrow> s \<noteq> [] \<and> (c \<in> set s \<longrightarrow> \<not> js_space c)) \<Longrightarrow> split_space (join_text [32] ss) = ss"
proof (induction "[32] :: text_string" ss rule: join_text.induct)
  case (3 s t ss)
  have "join_text [32] (t # ss) \<noteq> [] \<and> hd (join_text [32] (t # ss)) = hd t"
    using 3(3) [of t] by (cases ss) auto
  moreover have "t \<noteq> []" "\<not> js_space (hd t)" using 3(3) [of t] by (auto dest: hd_in_set)
  moreover have "split_space (join_text [32] (t # ss)) = t # ss" by (rule 3(1)) (use 3(3) in auto)
  moreover have "\<And>c. c \<in> set s \<Longrightarrow> \<not> js_space c" using 3(3) [of s] by simp
  ultimately show ?case using split_space_first [of s "join_text [32] (t # ss)"] by simp
qed (auto intro: split_space_word)

lemma join_ends:
  "ss \<noteq> [] \<Longrightarrow> (\<And>s. s \<in> set ss \<Longrightarrow> s \<noteq> []) \<Longrightarrow>
    join_text sep ss \<noteq> [] \<and> hd (join_text sep ss) = hd (hd ss) \<and> last (join_text sep ss) = last (last ss)"
  by (induction sep ss rule: join_text.induct) auto

lemma dropWhile_hd: "s \<noteq> [] \<Longrightarrow> \<not> P (hd s) \<Longrightarrow> dropWhile P s = s"
  by (cases s) auto

lemma trim_same: "s \<noteq> [] \<Longrightarrow> \<not> js_space (hd s) \<Longrightarrow> \<not> js_space (last s) \<Longrightarrow> trim s = s"
  by (simp add: trim_def dropWhile_hd hd_rev)

lemma join_text_chars: "c \<in> set (join_text [k] ss) \<Longrightarrow> c = k \<or> (\<exists>s \<in> set ss. c \<in> set s)"
  by (induction "[k]" ss rule: join_text.induct) auto

end
