(* ===== verification/Parquet_Convert.thy ===== *)
theory Parquet_Convert
  imports Parquet_Plain Js_Text "HOL-Library.Signed_Division"
begin

text \<open>
  The value converters of \<open>data/parquet/convert.ts\<close>: decimals as big-endian two's complement, Impala's INT96
  timestamps, and half-precision floats.

  A \<open>bigint\<close> is an \<open>int\<close>; a \<open>number\<close> that a float converter sees is its 64-bit pattern, with one pattern for NaN.
  \<open>DataView\<close> accessors throw outside the view, which is the left value of their result.
\<close>

subsection \<open>Decimals\<close>

definition decimalBytesToBigInt :: "byte list \<Rightarrow> int" where
  "decimalBytesToBigInt bytes =
     (let v = foldl (\<lambda>v b. push_bit 8 v OR int (unat b)) 0 bytes in
      if 0 < length bytes \<and> hd bytes AND 128 \<noteq> 0 then v - push_bit (length bytes * 8) 1 else v)"

primrec decimal_loop :: "nat \<Rightarrow> int \<Rightarrow> byte list \<Rightarrow> byte list" where
  "decimal_loop 0 v out = out"
| "decimal_loop (Suc i) v out = decimal_loop i (drop_bit 8 v) (out[i := word_of_int (v AND 255)])"

definition bigIntToDecimalBytes :: "int \<Rightarrow> nat \<Rightarrow> byte list" where
  "bigIntToDecimalBytes v byteLength =
     decimal_loop byteLength (if v < 0 then v + push_bit (byteLength * 8) 1 else v) (replicate byteLength 0)"

subsection \<open>INT96 timestamps\<close>

definition JULIAN_UNIX_EPOCH :: int where "JULIAN_UNIX_EPOCH = 2440588"
definition NANOS_PER_DAY :: int where "NANOS_PER_DAY = 86400 * 1000000000"

definition int96ToEpochNanos :: "byte list \<Rightarrow> js_error + int" where
  "int96ToEpochNanos bytes =
     bindR (get_le 8 bytes 0) (\<lambda>nanosOfDay.
     bindR (get_le 4 bytes 8) (\<lambda>julianDay.
       Inr ((int julianDay - JULIAN_UNIX_EPOCH) * NANOS_PER_DAY + int nanosOfDay)))"

text \<open>Past \<open>2 ^ 1024\<close> the number of a bigint is infinite; both are zero modulo \<open>2 ^ 32\<close>, which is all that \<open>setUint32\<close>
  keeps.\<close>

definition epochNanosToInt96 :: "int \<Rightarrow> byte list" where
  "epochNanosToInt96 nanos =
     (let days = nanos sdiv NANOS_PER_DAY; nanosOfDay = nanos smod NANOS_PER_DAY;
          (days, nanosOfDay) = (if nanosOfDay < 0 then (days - 1, nanosOfDay + NANOS_PER_DAY) else (days, nanosOfDay)) in
      le_bytes 8 (nat (take_bit 64 nanosOfDay)) @
      le_bytes 4 (nat (take_bit 32 (number_of_bigint (days + JULIAN_UNIX_EPOCH)))))"

subsection \<open>Half-precision floats\<close>

definition NaN_bits :: u64 where "NaN_bits = 0x7ff8000000000000"

definition double_bits :: "nat \<Rightarrow> nat \<Rightarrow> nat \<Rightarrow> u64" where
  "double_bits s e m = of_nat ((s * 2 ^ 11 + e) * 2 ^ 52 + m)"

text \<open>\<open>getFloat16\<close> of the little-endian bytes: the double that the half \<open>(s, e, m)\<close> stands for.\<close>

definition half_to_double :: "nat \<Rightarrow> u64" where
  "half_to_double h =
     (let s = h div 2 ^ 15; e = h div 2 ^ 10 mod 2 ^ 5; m = h mod 2 ^ 10 in
      if e = 31 then (if m = 0 then double_bits s 2047 0 else NaN_bits)
      else if e = 0 then
        (if m = 0 then double_bits s 0 0
         else let k = floorlog 2 m - 1 in double_bits s (999 + k) ((m - 2 ^ k) * 2 ^ (52 - k)))
      else double_bits s (1008 + e) (m * 2 ^ 42))"

definition float16BytesToNumber :: "byte list \<Rightarrow> u64" where
  "float16BytesToNumber bytes =
     (let b = (\<lambda>i. if i < length bytes then unat (bytes ! i) else 0) in half_to_double (b 0 + 2 ^ 8 * b 1))"

text \<open>\<open>setFloat16\<close>: round to the nearest half, ties to even, overflow to infinity.\<close>

definition double_to_half :: "u64 \<Rightarrow> nat" where
  "double_to_half d =
     (let n = unat d; s = n div 2 ^ 63; e = n div 2 ^ 52 mod 2 ^ 11; m = n mod 2 ^ 52 in
      if e = 2047 then (if m = 0 then s * 2 ^ 15 + 31 * 2 ^ 10 else 0x7e00)
      else
        let significand = (if e = 0 then m else 2 ^ 52 + m);
            h = (e - 1009) * 2 ^ 10 + round_half_even significand (42 + (1009 - e)) in
        s * 2 ^ 15 + (if 31 * 2 ^ 10 \<le> h then 31 * 2 ^ 10 else h))"

definition numberToFloat16Bytes :: "u64 \<Rightarrow> byte list" where
  "numberToFloat16Bytes v = le_bytes 2 (double_to_half v)"

subsection \<open>Decimals are read back\<close>

lemma byte_sign_bit: "(b :: byte) AND 128 \<noteq> 0 \<longleftrightarrow> 128 \<le> unat b"
proof -
  have "b AND 128 \<noteq> 0 \<longleftrightarrow> bit b 7"
    using and_exp_eq_0_iff_not_bit [of b 7] by simp
  also have "\<dots> \<longleftrightarrow> odd (unat b div 2 ^ 7)"
  proof -
    have "bit (unat b) 7 \<longleftrightarrow> bit b 7" by (simp add: bit_unsigned_iff)
    then show ?thesis by (simp add: bit_iff_odd)
  qed
  also have "\<dots> \<longleftrightarrow> 128 \<le> unat b"
  proof -
    have "unat b div 128 = (if 128 \<le> unat b then 1 else 0)"
      using unat_byte_less [of b] by (auto intro: div_nat_eqI simp del: unat_byte_less)
    then show ?thesis by simp
  qed
  finally show ?thesis .
qed

lemma fold_big_endian: "foldl (\<lambda>v b. push_bit 8 v OR int (unat b)) 0 bytes = int (be_uint bytes)"
proof (induction bytes rule: rev_induct)
  case (snoc b bytes)
  have "push_bit 8 (int (be_uint bytes)) OR int (unat b) = int (be_uint bytes * 2 ^ 8 OR unat b)"
    by (simp add: push_bit_eq_mult of_nat_or_eq)
  also have "\<dots> = int (be_uint (bytes @ [b]))" using nat_or_low_bits [of "unat b" 8] by simp
  finally show ?case using snoc by simp
qed (simp add: be_uint_def)

lemma decimal_loop_bytes:
  "0 \<le> v \<Longrightarrow> k \<le> length out \<Longrightarrow> decimal_loop k v out = be_bytes k (nat v) @ drop k out"
proof (induction k arbitrary: v out)
  case (Suc k)
  have "v AND 255 = take_bit 8 v" by (simp add: take_bit_eq_mask mask_eq_exp_minus_1)
  then have b: "word_of_int (v AND 255) = (of_nat (nat v) :: byte)"
  proof -
    have "word_of_int (take_bit 8 v) = (word_of_int v :: byte)" by transfer simp
    moreover have "(of_nat (nat v) :: byte) = word_of_int v" using Suc.prems(1) by (simp add: of_nat_nat)
    ultimately show ?thesis by (simp add: \<open>v AND 255 = take_bit 8 v\<close>)
  qed
  have "drop k (out[k := b]) = b # drop (Suc k) out" for b
    using Suc.prems(2) by (simp add: drop_update_swap flip: Cons_nth_drop_Suc)
  moreover have "nat (drop_bit 8 v) = nat v div 256" using Suc.prems(1) by (simp add: drop_bit_eq_div nat_div_distrib)
  ultimately show ?case using Suc b by (simp add: drop_bit_eq_div)
qed simp

lemma be_bytes_Cons: "be_bytes (Suc k) n = of_nat (n div 256 ^ k) # be_bytes k n"
proof (induction k arbitrary: n)
  case (Suc k)
  from Suc [of "n div 256"] show ?case by (simp add: div_mult2_eq)
qed simp

lemma be_bytes_sign:
  assumes "n < 256 ^ Suc k"
  shows "hd (be_bytes (Suc k) n) AND 128 \<noteq> 0 \<longleftrightarrow> 128 * 256 ^ k \<le> n"
proof -
  have "n div 256 ^ k < 256" using assms by (simp add: less_mult_imp_div_less)
  then have "hd (be_bytes (Suc k) n) AND 128 \<noteq> 0 \<longleftrightarrow> 128 \<le> n div 256 ^ k"
    by (simp only: be_bytes_Cons list.sel byte_sign_bit unat_of_nat_byte)
  then show ?thesis by (simp add: less_eq_div_iff_mult_less_eq)
qed

lemma be_uint_less: "be_uint bytes < 256 ^ length bytes"
proof (induction bytes rule: rev_induct)
  case (snoc b bytes)
  then have "be_uint bytes * 256 + unat b < 256 * 256 ^ length bytes" using unat_byte_less [of b] by linarith
  then show ?case by simp
qed (simp add: be_uint_def)

lemma byte_overflow: "(256 :: byte) = 0"
  by transfer simp

lemma be_bytes_be_uint: "be_bytes (length bytes) (be_uint bytes) = bytes"
proof (induction bytes rule: rev_induct)
  case (snoc b bytes)
  have "of_nat (be_uint bytes * 256 + unat b) = b" by (simp add: byte_overflow)
  then show ?case using snoc by simp
qed simp

lemma decimal_read:
  assumes "x < 256 ^ Suc k"
  shows "decimalBytesToBigInt (be_bytes (Suc k) x) =
    (if 128 * 256 ^ k \<le> x then int x - 256 * 256 ^ k else int x)"
proof -
  have "push_bit (Suc k * 8) 1 = (256 ^ Suc k :: int)"
    by (simp add: push_bit_eq_mult power_add power_mult mult.commute [of _ 8])
  then show ?thesis
    using be_bytes_sign [OF assms] be_uint_be_bytes [OF assms]
    unfolding decimalBytesToBigInt_def fold_big_endian by (simp add: Let_def del: be_bytes.simps)
qed

lemma decimal_written:
  assumes "- (256 * 256 ^ k) \<le> v"
  shows "bigIntToDecimalBytes v (Suc k) = be_bytes (Suc k) (nat (if v < 0 then v + 256 * 256 ^ k else v))"
proof -
  have "push_bit (Suc k * 8) 1 = (256 ^ Suc k :: int)"
    by (simp add: push_bit_eq_mult power_add power_mult mult.commute [of _ 8])
  then show ?thesis using assms
    by (simp add: bigIntToDecimalBytes_def decimal_loop_bytes del: be_bytes.simps decimal_loop.simps replicate.simps)
qed

lemma decimal_codec:
  assumes "0 < n" "- (128 * 256 ^ (n - 1)) \<le> v" "v < 128 * 256 ^ (n - 1)"
  shows "decimalBytesToBigInt (bigIntToDecimalBytes v n) = v"
proof -
  from assms(1) obtain k where n: "n = Suc k" by (cases n) auto
  have p: "(0::int) < 256 ^ k" by simp
  let ?x = "nat (if v < 0 then v + 256 * 256 ^ k else v)"
  have x: "?x < 256 ^ Suc k" "128 * 256 ^ k \<le> ?x \<longleftrightarrow> v < 0"
    using assms(2,3) p by (auto simp: n nat_less_iff le_nat_iff)
  show ?thesis using assms(2,3) p x(2) by (simp add: n decimal_written decimal_read [OF x(1)] del: be_bytes.simps)
qed

lemma length_decimal_bytes [simp]: "length (bigIntToDecimalBytes v n) = n"
proof -
  have "length (decimal_loop k v out) = length out" for k v out by (induction k arbitrary: v out) simp_all
  then show ?thesis by (simp add: bigIntToDecimalBytes_def)
qed

text \<open>Decimals. Every integer that fits the width in two's complement is read back from its big-endian
  bytes, and every byte string of positive length is the encoding of the integer it is read as.\<close>

theorem decimal_roundtrip:
  assumes "0 < n" "- (128 * 256 ^ (n - 1)) \<le> v" "v < 128 * 256 ^ (n - 1)" "length bytes = n"
  shows "decimalBytesToBigInt (bigIntToDecimalBytes v n) = v \<and>
    bigIntToDecimalBytes (decimalBytesToBigInt bytes) n = bytes"
proof -
  from assms(1) obtain k where n: "n = Suc k" by (cases n) auto
  define y where "y = be_uint bytes"
  have y: "y < 256 ^ Suc k" "bytes = be_bytes (Suc k) y"
    using be_uint_less [of bytes] be_bytes_be_uint [of bytes] assms(4) by (simp_all add: y_def n)
  then have yi: "int y < 256 * 256 ^ k" by (metis of_nat_less_iff of_nat_numeral of_nat_power power_Suc)
  have "bigIntToDecimalBytes (decimalBytesToBigInt bytes) n = bytes"
    unfolding y(2) n decimal_read [OF y(1)] using yi by (auto simp: decimal_written simp del: be_bytes.simps)
  with decimal_codec [OF assms(1-3)] show ?thesis by blast
qed

theorem decimal_roundtrip_witness:
  "decimalBytesToBigInt (bigIntToDecimalBytes (- 32768) 2) = - 32768 \<and>
    bigIntToDecimalBytes (decimalBytesToBigInt [255, 1]) 2 = [255, 1]"
  by (rule decimal_roundtrip) simp_all

subsection \<open>Timestamps are read back\<close>

lemma floor_days:
  "(let days = v sdiv NANOS_PER_DAY; nanosOfDay = v smod NANOS_PER_DAY in
     if nanosOfDay < 0 then (days - 1, nanosOfDay + NANOS_PER_DAY) else (days, nanosOfDay)) =
   (v div NANOS_PER_DAY, v mod NANOS_PER_DAY)"
proof (cases "0 \<le> v")
  case True
  then show ?thesis
    by (simp add: signed_divide_int_def signed_modulo_int_def NANOS_PER_DAY_def Let_def sgn_if minus_div_mult_eq_mod not_less)
next
  case False
  define w where "w = - v"
  have "0 < w" using False by (simp add: w_def)
  have d: "v sdiv NANOS_PER_DAY = - (w div NANOS_PER_DAY)" "v smod NANOS_PER_DAY = - (w mod NANOS_PER_DAY)"
    using \<open>0 < w\<close> by (simp_all add: signed_divide_int_def signed_modulo_int_def NANOS_PER_DAY_def w_def minus_div_mult_eq_mod [symmetric])
  have N: "0 < NANOS_PER_DAY" by (simp add: NANOS_PER_DAY_def)
  then have "w mod NANOS_PER_DAY = 0 \<or> 0 < w mod NANOS_PER_DAY" using pos_mod_sign [of NANOS_PER_DAY w] by linarith
  then show ?thesis
    using N zdiv_zminus1_eq_if [of NANOS_PER_DAY w] zmod_zminus1_eq_if [of w NANOS_PER_DAY]
    unfolding d Let_def by (auto simp: w_def)
qed

lemma le_bytes_word: "n < 256 ^ k \<Longrightarrow> be_uint (rev (le_bytes k n)) = n"
  by (simp add: le_bytes_def be_uint_be_bytes)

text \<open>INT96 timestamps. Every instant whose Julian day number is an unsigned 32-bit integer is read back
  from its INT96 bytes, before the epoch as well as after it.\<close>

theorem int96_roundtrip:
  assumes "- JULIAN_UNIX_EPOCH \<le> nanos div NANOS_PER_DAY" "nanos div NANOS_PER_DAY < 2 ^ 32 - JULIAN_UNIX_EPOCH"
  shows "length (epochNanosToInt96 nanos) = 12 \<and> int96ToEpochNanos (epochNanosToInt96 nanos) = Inr nanos"
proof -
  let ?d = "nanos div NANOS_PER_DAY + JULIAN_UNIX_EPOCH" and ?r = "nanos mod NANOS_PER_DAY"
  have r: "0 \<le> ?r" "?r < 2 ^ 64"
    using pos_mod_bound [of NANOS_PER_DAY nanos] by (simp_all add: NANOS_PER_DAY_def)
  have d: "0 \<le> ?d" "?d < 2 ^ 32" using assms by simp_all
  then have "number_of_bigint ?d = ?d" by (intro number_of_small) simp
  then have e: "epochNanosToInt96 nanos = le_bytes 8 (nat ?r) @ le_bytes 4 (nat ?d)"
    using floor_days [of nanos] d r by (simp add: epochNanosToInt96_def Let_def take_bit_int_eq_self split: if_splits)
  have "nat ?r < 256 ^ 8" "nat ?d < 256 ^ 4" using d r by (simp_all add: nat_less_iff)
  then have "int96ToEpochNanos (epochNanosToInt96 nanos) = Inr ((?d - JULIAN_UNIX_EPOCH) * NANOS_PER_DAY + ?r)"
    using d r by (simp add: e int96ToEpochNanos_def get_le_def le_bytes_word)
  then show ?thesis by (simp add: e)
qed

theorem int96_roundtrip_witness:
  "length (epochNanosToInt96 (- 1)) = 12 \<and> int96ToEpochNanos (epochNanosToInt96 (- 1)) = Inr (- 1)"
  by (rule int96_roundtrip) (simp_all add: JULIAN_UNIX_EPOCH_def NANOS_PER_DAY_def)

subsection \<open>Half-precision floats are read back\<close>

lemma double_fields:
  assumes "s < 2" "e < 2 ^ 11" "m < 2 ^ 52"
  shows "unat (double_bits s e m) div 2 ^ 63 = s" "unat (double_bits s e m) div 2 ^ 52 mod 2 ^ 11 = e"
    "unat (double_bits s e m) mod 2 ^ 52 = m"
proof -
  have "s * 2 ^ 11 + e < 2 ^ 12" using assms(1,2) by simp
  then have "(s * 2 ^ 11 + e) * 2 ^ 52 + m < 2 ^ 64" using assms(3) by simp
  moreover have "unat (of_nat n :: u64) = n" if "n < 2 ^ 64" for n
    using that by (simp add: unsigned_of_nat take_bit_nat_eq_self)
  ultimately have u: "unat (double_bits s e m) = (s * 2 ^ 11 + e) * 2 ^ 52 + m" by (simp only: double_bits_def)
  have divmod: "(c * k + x) div k = c" "(c * k + x) mod k = x" if "x < k" for c k x :: nat using that by simp_all
  show "unat (double_bits s e m) mod 2 ^ 52 = m" unfolding u by (rule divmod(2) [OF assms(3)])
  have q: "unat (double_bits s e m) div 2 ^ 52 = s * 2 ^ 11 + e" unfolding u by (rule divmod(1) [OF assms(3)])
  then show "unat (double_bits s e m) div 2 ^ 52 mod 2 ^ 11 = e" using assms(2) by simp
  have "unat (double_bits s e m) div 2 ^ 63 = unat (double_bits s e m) div 2 ^ 52 div 2 ^ 11" by (simp flip: div_mult2_eq)
  then show "unat (double_bits s e m) div 2 ^ 63 = s" using assms(2) by (simp only: q) simp
qed

lemma half_of_fields:
  assumes "s < 2" "e < 2047" "m < 2 ^ 52"
  shows "double_to_half (double_bits s e m) =
    s * 2 ^ 15 + min (31 * 2 ^ 10) ((e - 1009) * 2 ^ 10 +
      round_half_even (if e = 0 then m else 2 ^ 52 + m) (42 + (1009 - e)))"
proof -
  have "e < 2 ^ 11" "e \<noteq> 2047" using assms(2) by simp_all
  note f = double_fields [OF assms(1) this(1) assms(3)]
  show ?thesis using \<open>e \<noteq> 2047\<close> by (simp only: double_to_half_def Let_def f min_def if_False)
qed

lemma half_double_exact:
  assumes "h < 2 ^ 16" "\<not> (h div 2 ^ 10 mod 2 ^ 5 = 31 \<and> h mod 2 ^ 10 \<noteq> 0)"
  shows "double_to_half (half_to_double h) = h"
proof -
  define s e m where "s = h div 2 ^ 15" and "e = h div 2 ^ 10 mod 2 ^ 5" and "m = h mod 2 ^ 10"
  have b: "s < 2" "e < 32" "m < 2 ^ 10" using assms(1) by (simp_all add: s_def e_def m_def)
  have h: "h = s * 2 ^ 15 + e * 2 ^ 10 + m"
  proof -
    have "h = h div 2 ^ 10 * 2 ^ 10 + m" "h div 2 ^ 10 = s * 2 ^ 5 + e"
      using div_mult_mod_eq [of "h div 2 ^ 10" "2 ^ 5"] by (simp_all add: s_def e_def m_def flip: div_mult2_eq)
    then show ?thesis by simp
  qed
  note half = half_to_double_def [of h, folded s_def e_def m_def, unfolded Let_def]
  consider (inf) "e = 31" "m = 0" | (zero) "e = 0" "m = 0" | (sub) "e = 0" "0 < m" | (normal) "0 < e" "e < 31"
    using assms(2) b(2) unfolding e_def [symmetric] m_def [symmetric] by linarith
  then show ?thesis
  proof cases
    case inf
    have "double_to_half (double_bits s 2047 0) = s * 2 ^ 15 + 31 * 2 ^ 10"
      using double_fields [of s 2047 0] b(1) by (simp add: double_to_half_def Let_def)
    then show ?thesis unfolding half using inf h by simp
  next
    case zero
    then show ?thesis unfolding half using half_of_fields [of s 0 0] b(1) h by (simp add: round_half_even_def)
  next
    case sub
    define k where "k = floorlog 2 m - 1"
    have k: "2 ^ k \<le> m" "m < 2 * 2 ^ k" "k \<le> 9"
      using floorlog_bounds [of m 2] sub(2) floorlog_leI [of m 2 10] b(3) floorlog_eq_zero_iff [of 2 m]
      by (auto simp: k_def simp flip: power_Suc)
    have p: "(2::nat) ^ 52 = 2 ^ k * 2 ^ (52 - k)" using k(3) by (simp flip: power_add)
    have "m - 2 ^ k < 2 ^ k" using k by simp
    then have small: "(m - 2 ^ k) * 2 ^ (52 - k) < 2 ^ 52" unfolding p by simp
    have "2 ^ 52 + (m - 2 ^ k) * 2 ^ (52 - k) = m * 2 ^ (52 - k)" using k(1) by (simp only: p flip: add_mult_distrib) simp
    moreover have "42 + (1009 - (999 + k)) = 52 - k" using k(3) by simp
    ultimately have "double_to_half (double_bits s (999 + k) ((m - 2 ^ k) * 2 ^ (52 - k))) = s * 2 ^ 15 + m"
      using half_of_fields [OF b(1) _ small, of "999 + k"] k(3) b(3) round_exact [of m "52 - k"] by simp
    then show ?thesis unfolding half k_def [symmetric] using sub h by simp
  next
    case normal
    have "double_to_half (double_bits s (1008 + e) (m * 2 ^ 42)) =
        s * 2 ^ 15 + min (31 * 2 ^ 10) ((e - 1) * 2 ^ 10 + round_half_even ((2 ^ 10 + m) * 2 ^ 42) 42)"
      using half_of_fields [of s "1008 + e" "m * 2 ^ 42"] b normal by (simp add: add_mult_distrib)
    also have "\<dots> = s * 2 ^ 15 + (e * 2 ^ 10 + m)"
      using normal b(3) unfolding round_exact by (cases e) auto
    finally show ?thesis unfolding half using normal h by simp
  qed
qed

lemma half_bytes:
  assumes "h < 2 ^ 16"
  shows "float16BytesToNumber (le_bytes 2 h) = half_to_double h"
proof -
  have "le_bytes 2 h = [of_nat h, of_nat (h div 256)]" by (simp add: le_bytes_def numeral_2_eq_2)
  moreover have "h div 256 < 256" using assms by simp
  ultimately show ?thesis by (simp add: float16BytesToNumber_def Let_def unsigned_of_nat take_bit_eq_mod)
qed

text \<open>Half-precision floats. Every half other than a NaN is written back as the two bytes it was read from:
  zeros of both signs, subnormal and normal values, and infinities.\<close>

theorem float16_roundtrip:
  assumes "length bytes = 2" "\<not> (unat (bytes ! 1) div 4 mod 32 = 31 \<and> (unat (bytes ! 1) mod 4 \<noteq> 0 \<or> bytes ! 0 \<noteq> 0))"
  shows "numberToFloat16Bytes (float16BytesToNumber bytes) = bytes"
proof -
  obtain b c where bs: "bytes = [b, c]" using assms(1) by (auto simp: numeral_2_eq_2 length_Suc_conv)
  let ?h = "unat b + 2 ^ 8 * unat c"
  have u: "unat b < 256" "unat c < 256" by simp_all
  have "?h < 2 ^ 16"
  proof -
    from u have "unat b + 256 * unat c < 65536" by linarith
    then show ?thesis by simp
  qed
  moreover have "?h div 2 ^ 10 mod 2 ^ 5 = unat c div 4 mod 32"
  proof -
    have "?h div 2 ^ 10 = ?h div (2 ^ 8 * 4)" by simp
    also have "\<dots> = ?h div 2 ^ 8 div 4" by (rule div_mult2_eq)
    also have "?h div 2 ^ 8 = unat c" using u(1) by simp
    finally show ?thesis by simp
  qed
  moreover have "?h mod 2 ^ 10 = unat b + 2 ^ 8 * (unat c mod 4)"
  proof -
    have "?h mod (2 ^ 8 * 4) = 2 ^ 8 * (?h div 2 ^ 8 mod 4) + ?h mod 2 ^ 8" by (rule mod_mult2_eq)
    then show ?thesis using u(1) by simp
  qed
  ultimately have "double_to_half (half_to_double ?h) = ?h"
    using assms(2) by (intro half_double_exact) (auto simp: bs unsigned_eq_0_iff)
  moreover have "le_bytes 2 ?h = [b, c]"
  proof -
    have "be_bytes (Suc (Suc 0)) x = [of_nat (x div 256), of_nat x]" for x by simp
    moreover have "?h div 256 = unat c" using u(1) by simp
    moreover have "of_nat ?h = b" by (simp add: byte_overflow)
    ultimately show ?thesis by (simp add: le_bytes_def flip: numeral_2_eq_2)
  qed
  ultimately show ?thesis by (simp add: bs numberToFloat16Bytes_def float16BytesToNumber_def Let_def)
qed

theorem float16_roundtrip_witness: "numberToFloat16Bytes (float16BytesToNumber [1, 128]) = [1, 128]"
  by (rule float16_roundtrip) simp_all

end
