(* ===== verification/Thrift_Compact.thy ===== *)
theory Thrift_Compact
  imports Thrift_Struct
begin

text \<open>
  \<open>internal/format/thrift/compact.ts\<close>: the compact protocol. A field header carries the distance
  to the previous field id of the same struct, and a boolean field's value is folded into its
  header, so both directions keep state: the last field id with a stack of those of the enclosing
  structs, and the boolean still to be written or already read.

  An instance is either a writer or a reader, so its state is one of two records. The
  \<open>ByteWriter\<close> is represented by the bytes it holds.
\<close>

record compact_writer =
  cw_out :: "byte list"
  lastFieldId :: int
  fieldIdStack :: "int list"
  pendingBoolId :: "int option"

record compact_reader =
  cr_reader :: reader
  lastFieldIdRead :: int
  fieldIdStackRead :: "int list"
  pendingBoolValue :: "bool option"

definition new_compact_writer :: compact_writer where
  "new_compact_writer = \<lparr>cw_out = [], lastFieldId = 0, fieldIdStack = [], pendingBoolId = None\<rparr>"

definition new_compact_reader :: "byte list \<Rightarrow> compact_reader" where
  "new_compact_reader input =
     \<lparr>cr_reader = new_reader input, lastFieldIdRead = 0, fieldIdStackRead = [], pendingBoolValue = None\<rparr>"

definition cw_put :: "byte list \<Rightarrow> compact_writer put" where
  "cw_put bs w = Inr (w\<lparr>cw_out := cw_out w @ bs\<rparr>)"

definition cr_get :: "'a read \<Rightarrow> ('a, compact_reader) get" where
  "cr_get rd r = bindR (rd (cr_reader r)) (\<lambda>(x, rd'). Inr (x, r\<lparr>cr_reader := rd'\<rparr>))"

subsection \<open>Writing\<close>

definition compact_writeVarint :: "int \<Rightarrow> compact_writer put" where
  "compact_writeVarint v w = bindR (varint_bytes v) (\<lambda>bs. cw_put bs w)"

definition compact_writeBinary :: "byte list \<Rightarrow> compact_writer put" where
  "compact_writeBinary bs w = bindR (compact_writeVarint (int (length bs)) w) (cw_put bs)"

definition compact_writeString :: "code_unit list \<Rightarrow> compact_writer put" where
  "compact_writeString s w =
     (let bytes = encodeUtf8 s in
      bindR (compact_writeVarint (int (length bytes)) w) (cw_put bytes))"

definition compact_writeMessageBegin :: "code_unit list \<Rightarrow> nat \<Rightarrow> int \<Rightarrow> compact_writer put" where
  "compact_writeMessageBegin name type seqid w =
     bindR (cw_put [130] w) (\<lambda>w.
     bindR (cw_put [of_nat ((1 AND 31) OR (push_bit 5 type AND 224))] w) (\<lambda>w.
     bindR (compact_writeVarint (uint (word_of_int seqid :: u32)) w) (compact_writeString name)))"

definition compact_writeStructBegin :: "compact_writer put" where
  "compact_writeStructBegin w = Inr (w\<lparr>fieldIdStack := lastFieldId w # fieldIdStack w, lastFieldId := 0\<rparr>)"

definition compact_writeStructEnd :: "compact_writer put" where
  "compact_writeStructEnd w = Inr (case fieldIdStack w of
       [] \<Rightarrow> w\<lparr>lastFieldId := 0\<rparr>
     | i # is \<Rightarrow> w\<lparr>lastFieldId := i, fieldIdStack := is\<rparr>)"

definition writeFieldHeader :: "int \<Rightarrow> nat \<Rightarrow> compact_writer put" where
  "writeFieldHeader i compactType w =
     (let delta = i - lastFieldId w in
      bindR (if delta > 0 \<and> delta \<le> 15
             then cw_put [word_of_int (push_bit 4 delta OR int compactType)] w
             else bindR (cw_put [of_nat compactType] w) (cw_put (zigzag32_bytes i)))
        (\<lambda>w. Inr (w\<lparr>lastFieldId := i\<rparr>)))"

definition compact_writeFieldBegin :: "nat \<Rightarrow> int \<Rightarrow> compact_writer put" where
  "compact_writeFieldBegin type i w =
     (if type = T_BOOL then Inr (w\<lparr>pendingBoolId := Some i\<rparr>)
      else bindR (ttypeToCompact type) (\<lambda>ct. writeFieldHeader i ct w))"

definition compact_writeMapBegin :: "nat \<Rightarrow> nat \<Rightarrow> int \<Rightarrow> compact_writer put" where
  "compact_writeMapBegin keyType valueType sz w =
     (if sz = 0 then cw_put [0] w
      else bindR (compact_writeVarint sz w) (\<lambda>w.
           bindR (ttypeToCompact keyType) (\<lambda>kt.
           bindR (ttypeToCompact valueType) (\<lambda>vt. cw_put [of_nat (push_bit 4 kt OR vt)] w))))"

definition compact_writeListBegin :: "nat \<Rightarrow> int \<Rightarrow> compact_writer put" where
  "compact_writeListBegin elemType sz w =
     bindR (ttypeToCompact elemType) (\<lambda>ct.
     if sz \<le> 14 then cw_put [word_of_int (push_bit 4 sz OR int ct)] w
     else bindR (cw_put [of_nat (240 OR ct)] w) (compact_writeVarint sz))"

definition compact_writeBool :: "bool \<Rightarrow> compact_writer put" where
  "compact_writeBool v w =
     (case pendingBoolId w of
        Some i \<Rightarrow> bindR (writeFieldHeader i (if v then C_TRUE else C_FALSE) w)
          (\<lambda>w. Inr (w\<lparr>pendingBoolId := None\<rparr>))
      | None \<Rightarrow> cw_put [of_nat (if v then C_TRUE else C_FALSE)] w)"

subsection \<open>Reading\<close>

definition compact_readString :: "(code_unit list, compact_reader) get" where
  "compact_readString r = bindR (cr_get readVarint32 r) (\<lambda>(sz, r). cr_get (readString (int sz)) r)"

definition compact_readBinary :: "(byte list, compact_reader) get" where
  "compact_readBinary r = bindR (cr_get readVarint32 r) (\<lambda>(sz, r). cr_get (readBytes (int sz)) r)"

definition compact_readMessageBegin :: "(message_header, compact_reader) get" where
  "compact_readMessageBegin r =
     bindR (cr_get readU8 r) (\<lambda>(protocolId, r).
     if protocolId \<noteq> 130 then Inl (BadProtocolId (rd_pos (cr_reader r)) protocolId)
     else bindR (cr_get readU8 r) (\<lambda>(versionAndType, r).
       let version = versionAndType AND 31 in
       if version \<noteq> 1 then Inl (UnsupportedVersion (rd_pos (cr_reader r)) version)
       else let type = drop_bit 5 versionAndType AND 7 in
         bindR (cr_get readVarint32 r) (\<lambda>(q, r).
         bindR (compact_readString r) (\<lambda>(name, r).
         Inr (\<lparr>mh_name = name, mh_type = type, mh_seqid = sint (of_nat q :: u32)\<rparr>, r)))))"

definition compact_readStructBegin :: "(unit, compact_reader) get" where
  "compact_readStructBegin r = Inr ((),
     r\<lparr>fieldIdStackRead := lastFieldIdRead r # fieldIdStackRead r, lastFieldIdRead := 0\<rparr>)"

definition compact_readStructEnd :: "(unit, compact_reader) get" where
  "compact_readStructEnd r = Inr ((), case fieldIdStackRead r of
       [] \<Rightarrow> r\<lparr>lastFieldIdRead := 0\<rparr>
     | i # is \<Rightarrow> r\<lparr>lastFieldIdRead := i, fieldIdStackRead := is\<rparr>)"

definition compact_readFieldBegin :: "(field_header, compact_reader) get" where
  "compact_readFieldBegin r =
     bindR (cr_get readU8 r) (\<lambda>(byte, r).
     let nibble = byte AND 15 in
     if nibble = C_STOP then Inr (\<lparr>fh_type = T_STOP, fh_id = 0\<rparr>, r)
     else let modifier = drop_bit 4 (byte AND 240) in
       bindR (if modifier = 0 then cr_get readZigzag32 r
              else Inr (lastFieldIdRead r + int modifier, r)) (\<lambda>(i, r).
       let r = r\<lparr>lastFieldIdRead := i\<rparr> in
       bindR (compactToTtype nibble) (\<lambda>type.
       if nibble = C_TRUE then Inr (\<lparr>fh_type = T_BOOL, fh_id = i\<rparr>, r\<lparr>pendingBoolValue := Some True\<rparr>)
       else if nibble = C_FALSE then Inr (\<lparr>fh_type = T_BOOL, fh_id = i\<rparr>, r\<lparr>pendingBoolValue := Some False\<rparr>)
       else Inr (\<lparr>fh_type = type, fh_id = i\<rparr>, r))))"

definition compact_readMapBegin :: "(map_header, compact_reader) get" where
  "compact_readMapBegin r =
     bindR (cr_get readVarint32 r) (\<lambda>(sz, r).
     if sz = 0 then Inr (\<lparr>map_keyType = T_STOP, map_valueType = T_STOP, map_size = 0\<rparr>, r)
     else bindR (cr_get readU8 r) (\<lambda>(kv, r).
       bindR (compactToTtype (drop_bit 4 kv AND 15)) (\<lambda>kt.
       bindR (compactToTtype (kv AND 15)) (\<lambda>vt.
       Inr (\<lparr>map_keyType = kt, map_valueType = vt, map_size = int sz\<rparr>, r)))))"

definition compact_readListBegin :: "(list_header, compact_reader) get" where
  "compact_readListBegin r =
     bindR (cr_get readU8 r) (\<lambda>(sizeAndType, r).
     let sz = drop_bit 4 sizeAndType AND 15 in
     bindR (if sz = 15 then cr_get readVarint32 r else Inr (sz, r)) (\<lambda>(sz, r).
     bindR (compactToTtype (sizeAndType AND 15)) (\<lambda>t.
     Inr (\<lparr>lh_elemType = t, lh_size = int sz\<rparr>, r))))"

definition compact_readBool :: "(bool, compact_reader) get" where
  "compact_readBool r =
     (case pendingBoolValue r of
        Some v \<Rightarrow> Inr (v, r\<lparr>pendingBoolValue := None\<rparr>)
      | None \<Rightarrow> bindR (cr_get readU8 r) (\<lambda>(b, r). Inr (b = C_TRUE, r)))"

definition compactProtocol :: "(compact_writer, compact_reader) protocol" where
  "compactProtocol = \<lparr>
     writeMessageBegin = compact_writeMessageBegin,
     writeMessageEnd = Inr,
     writeStructBegin = compact_writeStructBegin,
     writeStructEnd = compact_writeStructEnd,
     writeFieldBegin = compact_writeFieldBegin,
     writeFieldEnd = Inr,
     writeFieldStop = cw_put [0],
     writeMapBegin = compact_writeMapBegin,
     writeMapEnd = Inr,
     writeListBegin = compact_writeListBegin,
     writeListEnd = Inr,
     writeSetBegin = compact_writeListBegin,
     writeSetEnd = Inr,
     writeBool = compact_writeBool,
     writeByte = (\<lambda>v. cw_put [word_of_int v]),
     writeI16 = (\<lambda>v. cw_put (zigzag32_bytes v)),
     writeI32 = (\<lambda>v. cw_put (zigzag32_bytes v)),
     writeI64 = (\<lambda>v. cw_put (zigzag64_bytes v)),
     writeDouble = (\<lambda>v. cw_put (f64le_bytes v)),
     writeString = compact_writeString,
     writeBinary = compact_writeBinary,
     readMessageBegin = compact_readMessageBegin,
     readMessageEnd = (\<lambda>r. Inr ((), r)),
     readStructBegin = compact_readStructBegin,
     readStructEnd = compact_readStructEnd,
     readFieldBegin = compact_readFieldBegin,
     readFieldEnd = (\<lambda>r. Inr ((), r)),
     readMapBegin = compact_readMapBegin,
     readMapEnd = (\<lambda>r. Inr ((), r)),
     readListBegin = compact_readListBegin,
     readListEnd = (\<lambda>r. Inr ((), r)),
     readSetBegin = compact_readListBegin,
     readSetEnd = (\<lambda>r. Inr ((), r)),
     readBool = compact_readBool,
     readByte = cr_get readI8,
     readI16 = cr_get readZigzag32,
     readI32 = cr_get readZigzag32,
     readI64 = cr_get readZigzag64,
     readDouble = cr_get readF64LE,
     readStr = compact_readString,
     readBinary = compact_readBinary\<rparr>"

subsection \<open>The contract\<close>

definition compact_at :: "compact_writer \<Rightarrow> byte list \<Rightarrow> compact_reader" where
  "compact_at w rest = \<lparr>cr_reader = reader_at (cw_out w) rest, lastFieldIdRead = lastFieldId w,
     fieldIdStackRead = fieldIdStack w, pendingBoolValue = None\<rparr>"

definition compact_idle :: "compact_writer \<Rightarrow> bool" where
  "compact_idle w \<longleftrightarrow> pendingBoolId w = None"

definition compact_mapok :: "nat \<Rightarrow> nat \<Rightarrow> nat \<Rightarrow> bool" where
  "compact_mapok kt vt n =
     (if n = 0 then kt = T_STOP \<and> vt = T_STOP else kt \<in> value_types \<and> vt \<in> value_types)"

abbreviation compact_sends :: "compact_writer \<Rightarrow> js_error + compact_writer \<Rightarrow>
    ('x, compact_reader) get \<Rightarrow> 'x \<Rightarrow> bool" where
  "compact_sends \<equiv> sends_on cw_out compact_at compact_idle"

text \<open>What the stateless methods exchange: bytes and a codec that reads them.\<close>

lemma compact_sends_bytes:
  assumes "compact_idle w" "decodes_as rd bs x"
  shows "compact_sends w (cw_put bs w) (cr_get rd) x"
  using assms
  by (auto simp: sends_on_def cw_put_def cr_get_def compact_at_def compact_idle_def decodes_asD)

lemma compact_sends_varint:
  assumes "compact_idle w" "n < 2 ^ 32"
  shows "compact_sends w (compact_writeVarint (int n) w) (cr_get readVarint32) n"
proof -
  have "take_bit 64 n = n" using assms(2) by (intro take_bit_nat_eq_self) simp
  then have "compact_writeVarint (int n) w = cw_put (varint_groups n) w"
    by (simp add: compact_writeVarint_def varint_bytes_def)
  with compact_sends_bytes [OF assms(1) varint32.decodes [of n]] assms(2) show ?thesis by simp
qed

lemma compact_sends_text:
  assumes "compact_idle w" "stored_text s"
  shows "compact_sends w (compact_writeString s w) compact_readString s"
  unfolding compact_writeString_def compact_readString_def Let_def
  by (rule sends_on_bind [OF compact_sends_varint])
    (use assms in \<open>auto simp: stored_text_def intro!: compact_sends_bytes decodes_text\<close>)

lemma compact_sends_binary:
  assumes "compact_idle w" "length bs < 2 ^ 31"
  shows "compact_sends w (compact_writeBinary bs w) compact_readBinary bs"
  unfolding compact_writeBinary_def compact_readBinary_def
  by (rule sends_on_bind [OF compact_sends_varint])
    (use assms in \<open>auto intro!: compact_sends_bytes decodes_bytes\<close>)

text \<open>Two nibbles in a byte.\<close>

lemma nibbles:
  assumes "a < (16::nat)" "c < 16"
  shows "push_bit 4 a OR c = 16 * a + c" "(16 * a + c) AND 15 = c"
    "drop_bit 4 ((16 * a + c) AND 240) = a" "drop_bit 4 (16 * a + c) AND 15 = a"
proof -
  show "push_bit 4 a OR c = 16 * a + c"
    using nat_or_low_bits [of c 4 a] assms by (simp add: push_bit_eq_mult mult.commute)
  show "(16 * a + c) AND 15 = c" using assms by (simp add: nat_and_mask)
  have "(16 * a + c) AND 240 = 16 * a"
    using nat_and_high_mask [of "16 * a + c" 4 4] assms by simp
  then show "drop_bit 4 ((16 * a + c) AND 240) = a" by (simp add: drop_bit_eq_div)
  show "drop_bit 4 (16 * a + c) AND 15 = a" using assms by (simp add: drop_bit_eq_div nat_and_mask)
qed

lemma nibble_word:
  assumes "a < 16" "c < 16"
  shows "word_of_int (push_bit 4 (int a) OR int c) = (of_nat (16 * a + c) :: byte)"
proof -
  have "push_bit 4 (int a) OR int c = int (push_bit 4 a OR c)"
    by (simp add: of_nat_or_eq push_bit_of_nat)
  then show ?thesis using nibbles(1) [OF assms] by simp
qed

lemma compact_list_begin:
  assumes "compact_idle w" "t \<in> value_types" "n < 2 ^ 31"
  shows "compact_sends w (compact_writeListBegin t (int n) w) compact_readListBegin
    \<lparr>lh_elemType = t, lh_size = int n\<rparr>"
proof -
  from ttypeToCompact_value_type [OF assms(2)] obtain c where
    c: "ttypeToCompact t = Inr c" "c < 13" "compactToTtype c = Inr t" by metis
  show ?thesis
  proof (cases "n \<le> 14")
    case True
    then have "compact_writeListBegin t (int n) w = cw_put [of_nat (16 * n + c)] w"
      using c nibble_word [of n c] by (simp add: compact_writeListBegin_def)
    moreover have "compact_sends w (cw_put [of_nat (16 * n + c)] w) compact_readListBegin
        \<lparr>lh_elemType = t, lh_size = int n\<rparr>"
      unfolding compact_readListBegin_def
      by (rule sends_on_result [OF compact_sends_bytes [OF assms(1) decodes_U8]])
        (use True c nibbles [of n c] in simp_all)
    ultimately show ?thesis by simp
  next
    case False
    have "push_bit 4 (15::nat) = 240" by (simp add: push_bit_eq_mult)
    then have "240 OR c = 240 + c" using nibbles(1) [of 15 c] c by simp
    then have wr: "compact_writeListBegin t (int n) w =
        bindR (cw_put [of_nat (240 + c)] w) (compact_writeVarint (int n))"
      using c False by (simp add: compact_writeListBegin_def)
    have "n < 2 ^ 32" using assms(3) by simp
    then show ?thesis
      unfolding wr compact_readListBegin_def
      by (intro sends_on_bind [OF compact_sends_bytes [OF assms(1) decodes_U8]])
        (use c nibbles [of 15 c] in \<open>auto intro!: sends_on_result [OF compact_sends_varint]\<close>)
  qed
qed

lemma compact_map_begin:
  assumes "compact_idle w" "compact_mapok kt vt n" "n < 2 ^ 31"
  shows "compact_sends w (compact_writeMapBegin kt vt (int n) w) compact_readMapBegin
    \<lparr>map_keyType = kt, map_valueType = vt, map_size = int n\<rparr>"
proof (cases "n = 0")
  case True
  have "compact_sends w (compact_writeVarint (int 0) w) (cr_get readVarint32) 0"
    by (rule compact_sends_varint [OF assms(1)]) simp
  moreover have "compact_writeVarint (int 0) w = cw_put [0] w"
    by (simp add: compact_writeVarint_def varint_bytes_def varint_groups.simps)
  ultimately show ?thesis
    unfolding compact_readMapBegin_def compact_writeMapBegin_def
    by (intro sends_on_result [where x = 0]) (use True assms in \<open>simp_all add: compact_mapok_def\<close>)
next
  case False
  with assms(2) have "kt \<in> value_types" "vt \<in> value_types" by (auto simp: compact_mapok_def)
  then obtain c d where c: "ttypeToCompact kt = Inr c" "c < 13" "compactToTtype c = Inr kt"
      and d: "ttypeToCompact vt = Inr d" "d < 13" "compactToTtype d = Inr vt"
    by (metis ttypeToCompact_value_type)
  define b where "b = 16 * c + d"
  have b: "push_bit 4 c OR d = b" "b < 256" "drop_bit 4 b AND 15 = c" "b AND 15 = d"
    using nibbles [of c d] c d by (simp_all add: b_def)
  then have wr: "compact_writeMapBegin kt vt (int n) w =
      bindR (compact_writeVarint (int n) w) (cw_put [of_nat b])"
    using False c d by (simp add: compact_writeMapBegin_def)
  have "n < 2 ^ 32" using assms(3) by simp
  then show ?thesis
    unfolding wr compact_readMapBegin_def
    by (intro sends_on_bind [OF compact_sends_varint [OF assms(1)]])
      (use False b c d in \<open>auto intro!: sends_on_result [OF compact_sends_bytes [OF _ decodes_U8]]\<close>)
qed

text \<open>A field header is read back with its id, whichever of the two forms it was written in.\<close>

definition header_read :: "nat \<Rightarrow> int \<Rightarrow> compact_reader \<Rightarrow> js_error + field_header \<times> compact_reader" where
  "header_read c i r =
     bindR (compactToTtype c) (\<lambda>type.
       if c = C_TRUE then Inr (\<lparr>fh_type = T_BOOL, fh_id = i\<rparr>, r\<lparr>pendingBoolValue := Some True\<rparr>)
       else if c = C_FALSE then Inr (\<lparr>fh_type = T_BOOL, fh_id = i\<rparr>, r\<lparr>pendingBoolValue := Some False\<rparr>)
       else Inr (\<lparr>fh_type = type, fh_id = i\<rparr>, r))"

lemma writeFieldHeader_read:
  assumes "0 < c" "c < 13" "int_range 32 i"
  shows "\<exists>bs. writeFieldHeader i c w = Inr (w\<lparr>cw_out := cw_out w @ bs, lastFieldId := i\<rparr>) \<and>
    (\<forall>rest. compact_readFieldBegin (compact_at w (bs @ rest)) =
       header_read c i (compact_at (w\<lparr>cw_out := cw_out w @ bs, lastFieldId := i\<rparr>) rest))"
proof (cases "0 < i - lastFieldId w \<and> i - lastFieldId w \<le> 15")
  case True
  then obtain a where a: "i - lastFieldId w = int a" "0 < a" "a < 16"
    by (intro that [of "nat (i - lastFieldId w)"]) auto
  define b where "b = 16 * a + c"
  have b: "b < 256" "b AND 15 = c" "drop_bit 4 (b AND 240) = a"
      "word_of_int (push_bit 4 (int a) OR int c) = (of_nat b :: byte)"
    using nibbles [of a c] nibble_word [of a c] assms a by (simp_all add: b_def)
  have "writeFieldHeader i c w = Inr (w\<lparr>cw_out := cw_out w @ [of_nat b], lastFieldId := i\<rparr>)"
    using True a b by (simp add: writeFieldHeader_def cw_put_def)
  moreover have "lastFieldId w + int a = i" using a(1) by simp
  ultimately show ?thesis
    using b a(2,3) assms
    by (intro exI [of _ "[of_nat b]"])
      (simp add: compact_readFieldBegin_def header_read_def compact_at_def cr_get_def Let_def
        cong del: if_weak_cong)
next
  case False
  then have "writeFieldHeader i c w =
      Inr (w\<lparr>cw_out := cw_out w @ of_nat c # zigzag32_bytes i, lastFieldId := i\<rparr>)"
    by (auto simp: writeFieldHeader_def cw_put_def Let_def)
  moreover have "c AND 15 = c" "drop_bit 4 (c AND 240) = 0"
    using nibbles [of 0 c] assms by simp_all
  ultimately show ?thesis
    using assms
    by (intro exI [of _ "of_nat c # zigzag32_bytes i"])
      (simp add: compact_readFieldBegin_def header_read_def compact_at_def cr_get_def Let_def
        cong del: if_weak_cong)
qed

lemma compact_field_begin:
  assumes "compact_idle w" "t \<in> value_types" "t \<noteq> T_BOOL" "int_range 16 i"
  shows "compact_sends w (compact_writeFieldBegin t i w) compact_readFieldBegin \<lparr>fh_type = t, fh_id = i\<rparr>"
proof -
  from ttypeToCompact_not_bool [OF assms(2,3)] obtain c where
    c: "ttypeToCompact t = Inr c" "2 < c" "c < 13" "compactToTtype c = Inr t" by metis
  from writeFieldHeader_read [of c i w] int_range_mono [OF assms(4)] c obtain bs where
    "writeFieldHeader i c w = Inr (w\<lparr>cw_out := cw_out w @ bs, lastFieldId := i\<rparr>)"
    "\<And>rest. compact_readFieldBegin (compact_at w (bs @ rest)) =
       header_read c i (compact_at (w\<lparr>cw_out := cw_out w @ bs, lastFieldId := i\<rparr>) rest)" by auto
  with c assms show ?thesis
    by (auto simp: sends_on_def compact_writeFieldBegin_def compact_idle_def header_read_def)
qed

lemma compact_bool_field:
  assumes "compact_idle w" "int_range 16 i"
  shows "compact_sends w (bindR (compact_writeFieldBegin T_BOOL i w) (compact_writeBool b))
    (\<lambda>r. bindR (compact_readFieldBegin r) (\<lambda>(f, r). bindR (compact_readBool r) (\<lambda>(v, r). Inr ((f, v), r))))
    (\<lparr>fh_type = T_BOOL, fh_id = i\<rparr>, b)"
proof -
  define w0 where "w0 = w\<lparr>pendingBoolId := Some i\<rparr>"
  define c where "c = (if b then C_TRUE else C_FALSE)"
  have c: "0 < c" "c < 13" "c = (if b then 1 else 2)" by (simp_all add: c_def)
  obtain bs where
    1: "writeFieldHeader i c w0 = Inr (w0\<lparr>cw_out := cw_out w0 @ bs, lastFieldId := i\<rparr>)"
    "\<And>rest. compact_readFieldBegin (compact_at w0 (bs @ rest)) =
       header_read c i (compact_at (w0\<lparr>cw_out := cw_out w0 @ bs, lastFieldId := i\<rparr>) rest)"
    using writeFieldHeader_read [OF c(1,2), of i w0] int_range_mono [OF assms(2)] by auto
  have "compact_at w0 rest = compact_at w rest" for rest by (simp add: w0_def compact_at_def)
  moreover have "compactToTtype c = Inr T_BOOL" by (simp add: c(3) compactToTtype_def nat_and_mask)
  ultimately show ?thesis
    using 1 assms c(3)
    by (auto simp: sends_on_def compact_writeFieldBegin_def compact_writeBool_def header_read_def
        compact_idle_def compact_readBool_def w0_def compact_at_def split: if_splits)
qed

lemma compact_version_byte:
  assumes "m < 8"
  shows "unat (of_nat ((1 AND 31) OR (push_bit 5 m AND 224)) :: byte) = 32 * m + 1"
    "(32 * m + 1) AND 31 = 1" "drop_bit 5 (32 * m + 1) AND 7 = m"
proof -
  have "push_bit 5 m AND 224 = 32 * m"
    using nat_and_high_mask [of "32 * m" 5 3] assms by (simp add: push_bit_eq_mult mult.commute)
  moreover have "1 OR (32 * m) = 32 * m + 1"
    using nat_or_low_bits [of 1 5 m] by (simp add: or.commute mult.commute)
  ultimately show "unat (of_nat ((1 AND 31) OR (push_bit 5 m AND 224)) :: byte) = 32 * m + 1"
    using assms by (simp del: of_nat_add of_nat_Suc add: nat_and_mask)
  show "(32 * m + 1) AND 31 = 1" "drop_bit 5 (32 * m + 1) AND 7 = m"
    using assms by (simp_all add: nat_and_mask drop_bit_eq_div)
qed

lemma compact_message_begin:
  assumes "compact_idle w" "stored_text s" "m < 8" "int_range 32 q"
  shows "compact_sends w (compact_writeMessageBegin s m q w) compact_readMessageBegin
    \<lparr>mh_name = s, mh_type = m, mh_seqid = q\<rparr>"
proof -
  define vt where "vt = (of_nat ((1 AND 31) OR (push_bit 5 m AND 224)) :: byte)"
  have vt: "unat vt = 32 * m + 1" "unat vt AND 31 = 1" "drop_bit 5 (unat vt) AND 7 = m"
    using compact_version_byte [OF assms(3)] by (simp_all only: vt_def)
  have id: "decodes_as readU8 [130] 130" "decodes_as readU8 [vt] (unat vt)"
    by (simp_all add: decodes_as_def)
  define k where "k = unat (word_of_int q :: u32)"
  have k: "uint (word_of_int q :: u32) = int k" "k < 2 ^ 32" "sint (of_nat k :: u32) = q"
    using unsigned_less [where ?'a = nat, of "word_of_int q :: u32"] assms(4)
    by (simp_all add: k_def)
  show ?thesis
    unfolding compact_writeMessageBegin_def compact_readMessageBegin_def vt_def [symmetric] k(1)
    by (rule sends_on_bind [OF compact_sends_bytes [OF assms(1) id(1)]], simp,
        rule sends_on_bind [OF compact_sends_bytes [OF _ id(2)]])
      (use vt k assms(2) in \<open>auto simp: Let_def intro!: sends_on_bind [OF compact_sends_varint]
          sends_on_result [OF compact_sends_text]\<close>)
qed

lemma compact_struct_markers:
  assumes "compact_idle w"
  shows "compact_sends w (compact_writeStructBegin w) compact_readStructBegin ()"
    and "compact_sends w (compact_writeStructEnd w) compact_readStructEnd ()"
  using assms
  by (auto simp: sends_on_def compact_writeStructBegin_def compact_readStructBegin_def
      compact_writeStructEnd_def compact_readStructEnd_def compact_idle_def compact_at_def
      split: list.splits)

lemma compact_bool:
  assumes "compact_idle w"
  shows "compact_sends w (compact_writeBool b w) compact_readBool b"
  using assms
  by (auto simp: sends_on_def compact_writeBool_def compact_readBool_def compact_idle_def
      compact_at_def cw_put_def cr_get_def)

lemma compact_field_stop:
  "compact_idle w \<Longrightarrow> compact_sends w (cw_put [0] w) compact_readFieldBegin \<lparr>fh_type = T_STOP, fh_id = 0\<rparr>"
  by (auto simp: sends_on_def compact_readFieldBegin_def compact_idle_def compact_at_def
      cw_put_def cr_get_def)

lemma compact_nothing: "compact_idle w \<Longrightarrow> compact_sends w (Inr w) (\<lambda>r. Inr ((), r)) ()"
  by (rule sends_on_return)

lemma compact_string_view: "stops_at (compact_readString r) = stops_at (compact_readBinary r)"
  unfolding compact_readString_def compact_readBinary_def
  by (rule stops_at_bind_same)
    (auto simp: cr_get_def readString_def bindR_assoc bindR_def stops_at_def split: sum.splits)

interpretation compact: thrift_protocol compactProtocol cw_out compact_at compact_idle compact_mapok
  by unfold_locales
    (simp_all add: compactProtocol_def compact_string_view compact_bool compact_sends_text
      compact_sends_binary compact_struct_markers compact_field_begin compact_bool_field
      compact_field_stop compact_list_begin compact_map_begin compact_message_begin compact_nothing
      compact_sends_bytes decodes_I8 zigzag32.decodes zigzag64.decodes f64le.decodes int_range_mono)

subsection \<open>Progress\<close>

text \<open>A byte counts two, a boolean already read from its header one.\<close>

definition cr_left :: "compact_reader \<Rightarrow> nat" where
  "cr_left r = rd_remaining (cr_reader r)"

definition compact_rem :: "compact_reader \<Rightarrow> nat" where
  "compact_rem r = 2 * cr_left r + (if pendingBoolValue r = None then 0 else 1)"

lemma ends_compact_rem: "ends cr_left 1 r x \<Longrightarrow> ends compact_rem 1 r x"
  by (cases x) (auto simp: compact_rem_def)

lemma ends_cr_get:
  "consumes rd \<Longrightarrow> ends cr_left 1 r (cr_get rd r)"
  "ends rd_remaining 0 (cr_reader r) (rd (cr_reader r)) \<Longrightarrow> ends cr_left 0 r (cr_get rd r)"
  unfolding consumes_def cr_get_def
  by (drule spec [of _ "cr_reader r"], cases "rd (cr_reader r)"; auto simp: cr_left_def)
    (cases "rd (cr_reader r)"; auto simp: cr_left_def)

lemma cr_left_update [simp]:
  "cr_left (r\<lparr>lastFieldIdRead := i\<rparr>) = cr_left r"
  "cr_left (r\<lparr>pendingBoolValue := b\<rparr>) = cr_left r"
  "cr_left (r\<lparr>fieldIdStackRead := is\<rparr>) = cr_left r"
  by (simp_all add: cr_left_def)

lemma ends_compact_typed:
  assumes "\<And>t. ends rem d r (f t)"
  shows "ends rem d r (bindR (compactToTtype c) f)"
proof -
  have "compactToTtype c \<noteq> Inl OutOfFuel" by (auto simp: compactToTtype_def Let_def)
  with assms show ?thesis by (cases "compactToTtype c") auto
qed

lemma ends_compact_bool: "ends compact_rem 1 r (compact_readBool r)"
  unfolding compact_readBool_def
  by (auto simp: compact_rem_def split: option.split
      intro!: ends_bind [OF ends_compact_rem [OF ends_cr_get(1)], where e = 0])

lemma ends_compact_field_begin: "ends cr_left 1 r (compact_readFieldBegin r)"
  unfolding compact_readFieldBegin_def
  by (rule ends_bind [OF ends_cr_get(1), where e = 0])
    (auto simp: Let_def intro!: ends_compact_typed ends_bind [OF ends_cr_get(1), where e = 0])

lemma ends_compact_list_begin: "ends cr_left 1 r (compact_readListBegin r)"
  unfolding compact_readListBegin_def
  by (rule ends_bind [OF ends_cr_get(1), where e = 0])
    (auto simp: Let_def intro!: ends_compact_typed ends_bind [OF ends_cr_get(1), where e = 0])

lemma ends_compact_map_begin: "ends cr_left 1 r (compact_readMapBegin r)"
  unfolding compact_readMapBegin_def
  by (rule ends_bind [OF ends_cr_get(1), where e = 0])
    (auto simp: Let_def intro!: ends_compact_typed ends_bind [OF ends_cr_get(1), where e = 0])

lemma ends_compact_string: "ends cr_left 1 r (compact_readString r)"
  unfolding compact_readString_def
  by (rule ends_bind [OF ends_cr_get(1), where e = 0])
    (auto intro!: ends_cr_get(2) ends_readString)

lemma ends_compact_struct:
  "ends compact_rem 0 r (compact_readStructBegin r)" "ends compact_rem 0 r (compact_readStructEnd r)"
  by (auto simp: compact_readStructBegin_def compact_readStructEnd_def compact_rem_def cr_left_def
      split: list.split)

interpretation compact: thrift_reader_progress compactProtocol compact_rem
  by unfold_locales
    (simp_all add: compactProtocol_def ends_compact_bool ends_compact_struct ends_cr_get
      ends_compact_rem ends_compact_field_begin ends_compact_list_begin ends_compact_map_begin
      ends_compact_string del: One_nat_def)

lemma compact_init:
  "compact_idle new_compact_writer" "cw_out new_compact_writer = []"
  "compact_at new_compact_writer bs = new_compact_reader bs"
  by (simp_all add: compact_idle_def new_compact_writer_def compact_at_def new_compact_reader_def
      new_reader_at)

lemma compact_at_pos [simp]: "rd_pos (cr_reader (compact_at w rest)) = length (cw_out w)"
  by (simp add: compact_at_def)

subsection \<open>Properties\<close>

text \<open>C32: compact round trip. Every storable value written with \<open>writeValue\<close> on a fresh compact
  protocol is read back by \<open>readValue\<close> from the bytes, whatever bytes follow, and the reader stops right
  after them; \<open>skip\<close> of its type stops at the same place. Field-id deltas, nested structs and
  booleans folded into field headers included.\<close>

theorem compact_value_roundtrip:
  assumes "storable compact_mapok v" "value_fuel v \<le> n"
  shows "\<exists>w. writeValue compactProtocol v new_compact_writer = Inr w \<and>
    (\<forall>rest. \<exists>r. rd_pos (cr_reader r) = length (cw_out w) \<and>
      readValue compactProtocol n (tv_type v) (new_compact_reader (cw_out w @ rest)) = Inr (v, r) \<and>
      skip compactProtocol n (tv_type v) (new_compact_reader (cw_out w @ rest)) = Inr ((), r))"
proof -
  obtain w bs where "writeValue compactProtocol v new_compact_writer = Inr w"
    "cw_out w = cw_out new_compact_writer @ bs"
    "\<And>rest. readValue compactProtocol n (tv_type v) (compact_at new_compact_writer (bs @ rest)) =
      Inr (v, compact_at w rest)"
    "\<And>rest. skip compactProtocol n (tv_type v) (compact_at new_compact_writer (bs @ rest)) =
      Inr ((), compact_at w rest)"
    by (rule compact.written_value [OF assms(1) compact_init(1) assms(2)]) blast
  then show ?thesis by (auto simp: compact_init)
qed

lemma sample_value_storable: "storable compact_mapok sample_value" "value_fuel sample_value \<le> 12"
proof -
  have "stored_text [97]" by (rule stored_text_ascii) simp_all
  then show "storable compact_mapok sample_value" 
    by (simp add: sample_value_def int_range_def value_types_def compact_mapok_def)
qed (simp add: sample_value_def)

theorem compact_value_roundtrip_witness:
  "\<exists>w. writeValue compactProtocol sample_value new_compact_writer = Inr w \<and>
    (\<forall>rest. \<exists>r. rd_pos (cr_reader r) = length (cw_out w) \<and>
      readValue compactProtocol 12 (tv_type sample_value) (new_compact_reader (cw_out w @ rest)) = Inr (sample_value, r) \<and>
      skip compactProtocol 12 (tv_type sample_value) (new_compact_reader (cw_out w @ rest)) = Inr ((), r))"
  by (rule compact_value_roundtrip [OF sample_value_storable])

text \<open>Compact messages. An envelope with a name, a message type below eight and any 32-bit
  sequence id, followed by a storable value, is read back: header, value and end.\<close>

theorem compact_message_roundtrip:
  assumes "stored_text name" "m < 8" "int_range 32 q" "storable compact_mapok v" "value_fuel v \<le> n"
  shows "\<exists>w r. writeMessage compactProtocol name m q v new_compact_writer = Inr w \<and>
    readMessage compactProtocol n (tv_type v) (new_compact_reader (cw_out w)) =
      Inr ((\<lparr>mh_name = name, mh_type = m, mh_seqid = q\<rparr>, v), r) \<and> rd_done (cr_reader r)"
proof -
  from compact.written_message [OF compact_init(1) assms] obtain w bs where
    "writeMessage compactProtocol name m q v new_compact_writer = Inr w" "cw_out w = bs"
    "\<And>rest. readMessage compactProtocol n (tv_type v) (new_compact_reader (bs @ rest)) =
      Inr ((\<lparr>mh_name = name, mh_type = m, mh_seqid = q\<rparr>, v), compact_at w rest)"
    by (auto simp: sends_on_def compact_init)
  from this(1,2) this(3) [of "[]"] show ?thesis
    by (auto simp: compact_at_def rd_done_def)
qed

theorem compact_message_roundtrip_witness:
  "\<exists>w r. writeMessage compactProtocol [112] 1 (- 7) sample_value new_compact_writer = Inr w \<and>
    readMessage compactProtocol 12 (tv_type sample_value) (new_compact_reader (cw_out w)) =
      Inr ((\<lparr>mh_name = [112], mh_type = 1, mh_seqid = - 7\<rparr>, sample_value), r) \<and> rd_done (cr_reader r)"
proof (rule compact_message_roundtrip [OF _ _ _ sample_value_storable])
  show "stored_text [112]" by (rule stored_text_ascii) simp_all
qed (simp_all add: int_range_def)

text \<open>Forward compatibility. On any input whatsoever, \<open>skip\<close> of a type returns exactly when
  \<open>readValue\<close> of it would, and leaves the reader in the same state: position, field-id base, stack
  of enclosing structs and pending boolean.\<close>

theorem compact_skip_like_read:
  "stops_at (skip compactProtocol n t r) = stops_at (readValue compactProtocol n t r)"
  by (rule compact.skip_stops_with_read)

text \<open>C34: reading ends. On every input, truncated or malformed, \<open>readValue\<close> comes to a value or an
  error of its own: recursion and loops are bounded by the length of the input, whatever sizes
  the container headers claim.\<close>

theorem compact_read_terminates:
  "readValue compactProtocol (4 * length input + 2) t (new_compact_reader input) \<noteq> Inl OutOfFuel"
proof -
  have "compact_rem (new_compact_reader input) = 2 * length input"
    by (simp add: compact_rem_def cr_left_def new_compact_reader_def new_reader_def rd_remaining_def)
  then have "ends compact_rem 1 (new_compact_reader input)
      (readValue compactProtocol (4 * length input + 2) t (new_compact_reader input))"
    by (intro compact.read_ends(1)) simp
  then show ?thesis by (auto simp: ends_def)
qed

text \<open>An empty map loses its element types. The compact header of an empty map is a single
  zero byte, so \<open>readValue\<close> after \<open>writeValue\<close> gives the types \<open>STOP\<close>, not those written.\<close>

theorem compact_empty_map_types_lost:
  "\<exists>w r. writeValue compactProtocol (TMap kt vt []) new_compact_writer = Inr w \<and>
    readValue compactProtocol (Suc (Suc n)) T_MAP (new_compact_reader (cw_out w)) =
      Inr (TMap T_STOP T_STOP [], r)"
proof -
  have "readVarint32 (reader_at [] [0]) = Inr (0, reader_at [0] [])"
    using varint32.read_encoded_end [of 0 "[]"] by (simp add: varint_groups.simps)
  then show ?thesis
    by (simp add: compactProtocol_def compact_writeMapBegin_def cw_put_def new_compact_writer_def
        new_compact_reader_def compact_readMapBegin_def cr_get_def new_reader_at)
qed

end
