(* ===== verification/Parquet_Metadata.thy ===== *)
theory Parquet_Metadata
  imports Thrift_Compact
begin

text \<open>
  \<open>data/parquet/metadata.ts\<close>: the Parquet footer and page headers as Thrift structs on the compact
  protocol. The interfaces are records (an optional property is an option, a number or bigint an
  \<open>int\<close>, a \<open>Uint8Array\<close> a byte list); every reader and every writer is the sequence of protocol calls of
  its namesake. The readers carry the fuel of the field loops and of \<open>skip\<close>.
\<close>

record Statistics =
  st_max :: "byte list option"
  st_min :: "byte list option"
  st_nullCount :: "int option"
  st_distinctCount :: "int option"
  st_maxValue :: "byte list option"
  st_minValue :: "byte list option"

record DecimalType =
  dec_scale :: int
  dec_precision :: int

record TimeUnit =
  tu_unit :: int

record TimeType =
  tt_isAdjustedToUTC :: bool
  tt_unit :: TimeUnit

record TimestampType =
  ts_isAdjustedToUTC :: bool
  ts_unit :: TimeUnit

record IntType =
  it_bitWidth :: int
  it_isSigned :: bool

record LogicalType =
  lt_kind :: string
  lt_decimal :: "DecimalType option"
  lt_time :: "TimeType option"
  lt_timestamp :: "TimestampType option"
  lt_integer :: "IntType option"

record SchemaElement =
  el_type :: "int option"
  el_typeLength :: "int option"
  el_repetitionType :: "int option"
  el_name :: "code_unit list"
  el_numChildren :: "int option"
  el_convertedType :: "int option"
  el_scale :: "int option"
  el_precision :: "int option"
  el_fieldId :: "int option"
  el_logicalType :: "LogicalType option"

record KeyValue =
  kv_key :: "code_unit list"
  kv_value :: "code_unit list option"

record ColumnMetaData =
  cm_type :: int
  cm_encodings :: "int list"
  cm_pathInSchema :: "code_unit list list"
  cm_codec :: int
  cm_numValues :: int
  cm_totalUncompressedSize :: int
  cm_totalCompressedSize :: int
  cm_keyValueMetadata :: "KeyValue list option"
  cm_dataPageOffset :: int
  cm_indexPageOffset :: "int option"
  cm_dictionaryPageOffset :: "int option"
  cm_statistics :: "Statistics option"

record ColumnChunk =
  cc_filePath :: "code_unit list option"
  cc_fileOffset :: int
  cc_metaData :: "ColumnMetaData option"

record RowGroup =
  rg_columns :: "ColumnChunk list"
  rg_totalByteSize :: int
  rg_numRows :: int
  rg_fileOffset :: "int option"
  rg_totalCompressedSize :: "int option"
  rg_ordinal :: "int option"

record FileMetaData =
  fm_version :: int
  fm_schema :: "SchemaElement list"
  fm_numRows :: int
  fm_rowGroups :: "RowGroup list"
  fm_keyValueMetadata :: "KeyValue list option"
  fm_createdBy :: "code_unit list option"

record DataPageHeader =
  dp_numValues :: int
  dp_encoding :: int
  dp_definitionLevelEncoding :: int
  dp_repetitionLevelEncoding :: int
  dp_statistics :: "Statistics option"

record DictionaryPageHeader =
  dict_numValues :: int
  dict_encoding :: int
  dict_isSorted :: "bool option"

record DataPageHeaderV2 =
  v2_numValues :: int
  v2_numNulls :: int
  v2_numRows :: int
  v2_encoding :: int
  v2_definitionLevelsByteLength :: int
  v2_repetitionLevelsByteLength :: int
  v2_isCompressed :: bool
  v2_statistics :: "Statistics option"

record PageHeader =
  ph_type :: int
  ph_uncompressedPageSize :: int
  ph_compressedPageSize :: int
  ph_crc :: "int option"
  ph_dataPageHeader :: "DataPageHeader option"
  ph_dictionaryPageHeader :: "DictionaryPageHeader option"
  ph_dataPageHeaderV2 :: "DataPageHeaderV2 option"

subsection \<open>Statistics\<close>

definition statistics_handler :: "('w, 'r) protocol \<Rightarrow> (Statistics, 'r) handler" where
  "statistics_handler p i =
     (if i = 1 then assignOpt (readBinary p) (\<lambda>v s. s\<lparr>st_max := v\<rparr>)
      else if i = 2 then assignOpt (readBinary p) (\<lambda>v s. s\<lparr>st_min := v\<rparr>)
      else if i = 3 then assignOpt (readI64 p) (\<lambda>v s. s\<lparr>st_nullCount := v\<rparr>)
      else if i = 4 then assignOpt (readI64 p) (\<lambda>v s. s\<lparr>st_distinctCount := v\<rparr>)
      else if i = 5 then assignOpt (readBinary p) (\<lambda>v s. s\<lparr>st_maxValue := v\<rparr>)
      else if i = 6 then assignOpt (readBinary p) (\<lambda>v s. s\<lparr>st_minValue := v\<rparr>)
      else None)"

definition readStatistics :: "('w, 'r) protocol \<Rightarrow> nat \<Rightarrow> (Statistics, 'r) get" where
  "readStatistics p n = readFieldsWith p n (statistics_handler p)
     \<lparr>st_max = None, st_min = None, st_nullCount = None, st_distinctCount = None,
      st_maxValue = None, st_minValue = None\<rparr>"

definition writeStatistics :: "('w, 'r) protocol \<Rightarrow> Statistics \<Rightarrow> 'w put" where
  "writeStatistics p s = seqW
     [writeStructBegin p,
      writeOptField p T_STRING 1 (writeBinary p) (st_max s),
      writeOptField p T_STRING 2 (writeBinary p) (st_min s),
      writeOptField p T_I64 3 (writeI64 p) (st_nullCount s),
      writeOptField p T_I64 4 (writeI64 p) (st_distinctCount s),
      writeOptField p T_STRING 5 (writeBinary p) (st_maxValue s),
      writeOptField p T_STRING 6 (writeBinary p) (st_minValue s),
      writeFieldStop p,
      writeStructEnd p]"

definition opt :: "('a \<Rightarrow> bool) \<Rightarrow> 'a option \<Rightarrow> bool" where
  "opt valid x = (case x of None \<Rightarrow> True | Some v \<Rightarrow> valid v)"

lemma optD: "opt valid x \<Longrightarrow> x = Some v \<Longrightarrow> valid v"
  by (simp add: opt_def)

definition short :: "'a list \<Rightarrow> bool" where
  "short xs \<longleftrightarrow> length xs < 2 ^ 31"

definition valid_Statistics :: "Statistics \<Rightarrow> bool" where
  "valid_Statistics s \<longleftrightarrow>
     opt short (st_max s) \<and> opt short (st_min s) \<and> opt (int_range 64) (st_nullCount s) \<and>
     opt (int_range 64) (st_distinctCount s) \<and> opt short (st_maxValue s) \<and> opt short (st_minValue s)"

lemma small_ids:
  "int_range 16 1" "int_range 16 2" "int_range 16 3" "int_range 16 4" "int_range 16 5" "int_range 16 6"
  "int_range 16 7" "int_range 16 8" "int_range 16 9" "int_range 16 10" "int_range 16 11" "int_range 16 12"
  "int_range 16 13" "int_range 16 14" "int_range 16 15"
  by (simp_all add: int_range_def)

lemma value_type_codes:
  "T_BYTE \<in> value_types" "T_DOUBLE \<in> value_types" "T_I16 \<in> value_types" "T_I32 \<in> value_types"
  "T_I64 \<in> value_types" "T_STRING \<in> value_types" "T_STRUCT \<in> value_types" "T_LIST \<in> value_types"
  by (simp_all add: value_types_def)

subsection \<open>Logical types\<close>

text \<open>An empty-struct variant of a union.\<close>

definition writeEmptyVariant :: "('w, 'r) protocol \<Rightarrow> int \<Rightarrow> 'w put" where
  "writeEmptyVariant p i = writeField p T_STRUCT i
     (seqW [writeStructBegin p, writeFieldStop p, writeStructEnd p])"

definition readTimeUnit :: "('w, 'r) protocol \<Rightarrow> nat \<Rightarrow> (TimeUnit, 'r) get" where
  "readTimeUnit p n = readFieldsWith p n
     (\<lambda>i. if i = 1 \<or> i = 2 \<or> i = 3 then assign (skip p n T_STRUCT) (\<lambda>_ u. u\<lparr>tu_unit := i\<rparr>) else None)
     \<lparr>tu_unit = 1\<rparr>"

definition writeTimeUnit :: "('w, 'r) protocol \<Rightarrow> TimeUnit \<Rightarrow> 'w put" where
  "writeTimeUnit p u = seqW
     [writeStructBegin p,
      writeEmptyVariant p (tu_unit u),
      writeFieldStop p,
      writeStructEnd p]"

definition readDecimal :: "('w, 'r) protocol \<Rightarrow> nat \<Rightarrow> (DecimalType, 'r) get" where
  "readDecimal p n = readFieldsWith p n
     (\<lambda>i. if i = 1 then assign (readI32 p) (\<lambda>v d. d\<lparr>dec_scale := v\<rparr>)
          else if i = 2 then assign (readI32 p) (\<lambda>v d. d\<lparr>dec_precision := v\<rparr>)
          else None)
     \<lparr>dec_scale = 0, dec_precision = 0\<rparr>"

definition readTime :: "('w, 'r) protocol \<Rightarrow> nat \<Rightarrow> (TimeType, 'r) get" where
  "readTime p n = readFieldsWith p n
     (\<lambda>i. if i = 1 then assign (readBool p) (\<lambda>v t. t\<lparr>tt_isAdjustedToUTC := v\<rparr>)
          else if i = 2 then assign (readTimeUnit p n) (\<lambda>v t. t\<lparr>tt_unit := v\<rparr>)
          else None)
     \<lparr>tt_isAdjustedToUTC = False, tt_unit = \<lparr>tu_unit = 1\<rparr>\<rparr>"

definition readTimestamp :: "('w, 'r) protocol \<Rightarrow> nat \<Rightarrow> (TimestampType, 'r) get" where
  "readTimestamp p n = readFieldsWith p n
     (\<lambda>i. if i = 1 then assign (readBool p) (\<lambda>v t. t\<lparr>ts_isAdjustedToUTC := v\<rparr>)
          else if i = 2 then assign (readTimeUnit p n) (\<lambda>v t. t\<lparr>ts_unit := v\<rparr>)
          else None)
     \<lparr>ts_isAdjustedToUTC = False, ts_unit = \<lparr>tu_unit = 1\<rparr>\<rparr>"

definition readInteger :: "('w, 'r) protocol \<Rightarrow> nat \<Rightarrow> (IntType, 'r) get" where
  "readInteger p n = readFieldsWith p n
     (\<lambda>i. if i = 1 then assign (readByte p) (\<lambda>v t. t\<lparr>it_bitWidth := v\<rparr>)
          else if i = 2 then assign (readBool p) (\<lambda>v t. t\<lparr>it_isSigned := v\<rparr>)
          else None)
     \<lparr>it_bitWidth = 0, it_isSigned = True\<rparr>"

definition emptyVariant :: "('w, 'r) protocol \<Rightarrow> nat \<Rightarrow> string \<Rightarrow> (LogicalType \<Rightarrow> (LogicalType, 'r) get) option" where
  "emptyVariant p n kind = assign (skip p n T_STRUCT) (\<lambda>_ lt. lt\<lparr>lt_kind := kind\<rparr>)"

definition logicalType_handler :: "('w, 'r) protocol \<Rightarrow> nat \<Rightarrow> (LogicalType, 'r) handler" where
  "logicalType_handler p n i =
     (if i = 1 then emptyVariant p n ''string''
      else if i = 2 then emptyVariant p n ''map''
      else if i = 3 then emptyVariant p n ''list''
      else if i = 4 then emptyVariant p n ''enum''
      else if i = 5 then assign (readDecimal p n) (\<lambda>v lt. lt\<lparr>lt_kind := ''decimal'', lt_decimal := Some v\<rparr>)
      else if i = 6 then emptyVariant p n ''date''
      else if i = 7 then assign (readTime p n) (\<lambda>v lt. lt\<lparr>lt_kind := ''time'', lt_time := Some v\<rparr>)
      else if i = 8 then assign (readTimestamp p n) (\<lambda>v lt. lt\<lparr>lt_kind := ''timestamp'', lt_timestamp := Some v\<rparr>)
      else if i = 10 then assign (readInteger p n) (\<lambda>v lt. lt\<lparr>lt_kind := ''integer'', lt_integer := Some v\<rparr>)
      else if i = 12 then emptyVariant p n ''json''
      else if i = 13 then emptyVariant p n ''bson''
      else if i = 14 then emptyVariant p n ''uuid''
      else if i = 15 then emptyVariant p n ''float16''
      else None)"

definition readLogicalType :: "('w, 'r) protocol \<Rightarrow> nat \<Rightarrow> (LogicalType, 'r) get" where
  "readLogicalType p n = readFieldsWith p n (logicalType_handler p n)
     \<lparr>lt_kind = ''unknown'', lt_decimal = None, lt_time = None, lt_timestamp = None, lt_integer = None\<rparr>"

text \<open>Writing a variant with a payload that is absent reads a property of \<open>undefined\<close>.\<close>

definition needed :: "'a option \<Rightarrow> ('a \<Rightarrow> 'w put) \<Rightarrow> 'w put" where
  "needed x body w = (case x of None \<Rightarrow> Inl UndefinedProperty | Some v \<Rightarrow> body v w)"

definition writeDecimal :: "('w, 'r) protocol \<Rightarrow> DecimalType \<Rightarrow> 'w put" where
  "writeDecimal p d = seqW
     [writeStructBegin p,
      writeField p T_I32 1 (writeI32 p (dec_scale d)),
      writeField p T_I32 2 (writeI32 p (dec_precision d)),
      writeFieldStop p,
      writeStructEnd p]"

definition writeTime :: "('w, 'r) protocol \<Rightarrow> TimeType \<Rightarrow> 'w put" where
  "writeTime p t = seqW
     [writeStructBegin p,
      writeField p T_BOOL 1 (writeBool p (tt_isAdjustedToUTC t)),
      writeField p T_STRUCT 2 (writeTimeUnit p (tt_unit t)),
      writeFieldStop p,
      writeStructEnd p]"

definition writeTimestamp :: "('w, 'r) protocol \<Rightarrow> TimestampType \<Rightarrow> 'w put" where
  "writeTimestamp p t = seqW
     [writeStructBegin p,
      writeField p T_BOOL 1 (writeBool p (ts_isAdjustedToUTC t)),
      writeField p T_STRUCT 2 (writeTimeUnit p (ts_unit t)),
      writeFieldStop p,
      writeStructEnd p]"

definition writeInteger :: "('w, 'r) protocol \<Rightarrow> IntType \<Rightarrow> 'w put" where
  "writeInteger p t = seqW
     [writeStructBegin p,
      writeField p T_BYTE 1 (writeByte p (it_bitWidth t)),
      writeField p T_BOOL 2 (writeBool p (it_isSigned t)),
      writeFieldStop p,
      writeStructEnd p]"

definition writeVariant :: "('w, 'r) protocol \<Rightarrow> LogicalType \<Rightarrow> 'w put" where
  "writeVariant p lt =
     (if lt_kind lt = ''string'' then writeEmptyVariant p 1
      else if lt_kind lt = ''map'' then writeEmptyVariant p 2
      else if lt_kind lt = ''list'' then writeEmptyVariant p 3
      else if lt_kind lt = ''enum'' then writeEmptyVariant p 4
      else if lt_kind lt = ''date'' then writeEmptyVariant p 6
      else if lt_kind lt = ''json'' then writeEmptyVariant p 12
      else if lt_kind lt = ''bson'' then writeEmptyVariant p 13
      else if lt_kind lt = ''uuid'' then writeEmptyVariant p 14
      else if lt_kind lt = ''float16'' then writeEmptyVariant p 15
      else if lt_kind lt = ''unknown'' then writeEmptyVariant p 11
      else if lt_kind lt = ''decimal'' then writeField p T_STRUCT 5 (needed (lt_decimal lt) (writeDecimal p))
      else if lt_kind lt = ''time'' then writeField p T_STRUCT 7 (needed (lt_time lt) (writeTime p))
      else if lt_kind lt = ''timestamp'' then writeField p T_STRUCT 8 (needed (lt_timestamp lt) (writeTimestamp p))
      else if lt_kind lt = ''integer'' then writeField p T_STRUCT 10 (needed (lt_integer lt) (writeInteger p))
      else Inr)"

definition writeLogicalType :: "('w, 'r) protocol \<Rightarrow> LogicalType \<Rightarrow> 'w put" where
  "writeLogicalType p lt = seqW
     [writeStructBegin p,
      writeVariant p lt,
      writeFieldStop p,
      writeStructEnd p]"

subsection \<open>SchemaElement\<close>

definition schemaElement_handler :: "('w, 'r) protocol \<Rightarrow> nat \<Rightarrow> (SchemaElement, 'r) handler" where
  "schemaElement_handler p n i =
     (if i = 1 then assignOpt (readI32 p) (\<lambda>v el. el\<lparr>el_type := v\<rparr>)
      else if i = 2 then assignOpt (readI32 p) (\<lambda>v el. el\<lparr>el_typeLength := v\<rparr>)
      else if i = 3 then assignOpt (readI32 p) (\<lambda>v el. el\<lparr>el_repetitionType := v\<rparr>)
      else if i = 4 then assign (readStr p) (\<lambda>v el. el\<lparr>el_name := v\<rparr>)
      else if i = 5 then assignOpt (readI32 p) (\<lambda>v el. el\<lparr>el_numChildren := v\<rparr>)
      else if i = 6 then assignOpt (readI32 p) (\<lambda>v el. el\<lparr>el_convertedType := v\<rparr>)
      else if i = 7 then assignOpt (readI32 p) (\<lambda>v el. el\<lparr>el_scale := v\<rparr>)
      else if i = 8 then assignOpt (readI32 p) (\<lambda>v el. el\<lparr>el_precision := v\<rparr>)
      else if i = 9 then assignOpt (readI32 p) (\<lambda>v el. el\<lparr>el_fieldId := v\<rparr>)
      else if i = 10 then assignOpt (readLogicalType p n) (\<lambda>v el. el\<lparr>el_logicalType := v\<rparr>)
      else None)"

definition readSchemaElement :: "('w, 'r) protocol \<Rightarrow> nat \<Rightarrow> (SchemaElement, 'r) get" where
  "readSchemaElement p n = readFieldsWith p n (schemaElement_handler p n)
     \<lparr>el_type = None, el_typeLength = None, el_repetitionType = None, el_name = [], el_numChildren
      = None, el_convertedType = None, el_scale = None, el_precision = None, el_fieldId = None,
      el_logicalType = None\<rparr>"

definition writeSchemaElement :: "('w, 'r) protocol \<Rightarrow> SchemaElement \<Rightarrow> 'w put" where
  "writeSchemaElement p el = seqW
     [writeStructBegin p,
      writeOptField p T_I32 1 (writeI32 p) (el_type el),
      writeOptField p T_I32 2 (writeI32 p) (el_typeLength el),
      writeOptField p T_I32 3 (writeI32 p) (el_repetitionType el),
      writeField p T_STRING 4 (writeString p (el_name el)),
      writeOptField p T_I32 5 (writeI32 p) (el_numChildren el),
      writeOptField p T_I32 6 (writeI32 p) (el_convertedType el),
      writeOptField p T_I32 7 (writeI32 p) (el_scale el),
      writeOptField p T_I32 8 (writeI32 p) (el_precision el),
      writeOptField p T_I32 9 (writeI32 p) (el_fieldId el),
      writeOptField p T_STRUCT 10 (writeLogicalType p) (el_logicalType el),
      writeFieldStop p,
      writeStructEnd p]"

subsection \<open>KeyValue\<close>

definition keyValue_handler :: "('w, 'r) protocol \<Rightarrow> nat \<Rightarrow> (KeyValue, 'r) handler" where
  "keyValue_handler p n i =
     (if i = 1 then assign (readStr p) (\<lambda>v kv. kv\<lparr>kv_key := v\<rparr>)
      else if i = 2 then assignOpt (readStr p) (\<lambda>v kv. kv\<lparr>kv_value := v\<rparr>)
      else None)"

definition readKeyValue :: "('w, 'r) protocol \<Rightarrow> nat \<Rightarrow> (KeyValue, 'r) get" where
  "readKeyValue p n = readFieldsWith p n (keyValue_handler p n)
     \<lparr>kv_key = [], kv_value = None\<rparr>"

definition writeKeyValue :: "('w, 'r) protocol \<Rightarrow> KeyValue \<Rightarrow> 'w put" where
  "writeKeyValue p kv = seqW
     [writeStructBegin p,
      writeField p T_STRING 1 (writeString p (kv_key kv)),
      writeOptField p T_STRING 2 (writeString p) (kv_value kv),
      writeFieldStop p,
      writeStructEnd p]"

subsection \<open>ColumnMetaData\<close>

definition columnMetaData_handler :: "('w, 'r) protocol \<Rightarrow> nat \<Rightarrow> (ColumnMetaData, 'r) handler" where
  "columnMetaData_handler p n i =
     (if i = 1 then assign (readI32 p) (\<lambda>v cm. cm\<lparr>cm_type := v\<rparr>)
      else if i = 2 then assign (readListOf p (readI32 p)) (\<lambda>v cm. cm\<lparr>cm_encodings := v\<rparr>)
      else if i = 3 then assign (readListOf p (readStr p)) (\<lambda>v cm. cm\<lparr>cm_pathInSchema := v\<rparr>)
      else if i = 4 then assign (readI32 p) (\<lambda>v cm. cm\<lparr>cm_codec := v\<rparr>)
      else if i = 5 then assign (readI64 p) (\<lambda>v cm. cm\<lparr>cm_numValues := v\<rparr>)
      else if i = 6 then assign (readI64 p) (\<lambda>v cm. cm\<lparr>cm_totalUncompressedSize := v\<rparr>)
      else if i = 7 then assign (readI64 p) (\<lambda>v cm. cm\<lparr>cm_totalCompressedSize := v\<rparr>)
      else if i = 8 then assignOpt (readListOf p (readKeyValue p n)) (\<lambda>v cm. cm\<lparr>cm_keyValueMetadata := v\<rparr>)
      else if i = 9 then assign (readI64 p) (\<lambda>v cm. cm\<lparr>cm_dataPageOffset := v\<rparr>)
      else if i = 10 then assignOpt (readI64 p) (\<lambda>v cm. cm\<lparr>cm_indexPageOffset := v\<rparr>)
      else if i = 11 then assignOpt (readI64 p) (\<lambda>v cm. cm\<lparr>cm_dictionaryPageOffset := v\<rparr>)
      else if i = 12 then assignOpt (readStatistics p n) (\<lambda>v cm. cm\<lparr>cm_statistics := v\<rparr>)
      else None)"

definition readColumnMetaData :: "('w, 'r) protocol \<Rightarrow> nat \<Rightarrow> (ColumnMetaData, 'r) get" where
  "readColumnMetaData p n = readFieldsWith p n (columnMetaData_handler p n)
     \<lparr>cm_type = 0, cm_encodings = [], cm_pathInSchema = [], cm_codec = 0, cm_numValues = 0,
      cm_totalUncompressedSize = 0, cm_totalCompressedSize = 0, cm_keyValueMetadata = None,
      cm_dataPageOffset = 0, cm_indexPageOffset = None, cm_dictionaryPageOffset = None,
      cm_statistics = None\<rparr>"

definition writeColumnMetaData :: "('w, 'r) protocol \<Rightarrow> ColumnMetaData \<Rightarrow> 'w put" where
  "writeColumnMetaData p cm = seqW
     [writeStructBegin p,
      writeField p T_I32 1 (writeI32 p (cm_type cm)),
      writeField p T_LIST 2 (writeListOf p T_I32 (writeI32 p) (cm_encodings cm)),
      writeField p T_LIST 3 (writeListOf p T_STRING (writeString p) (cm_pathInSchema cm)),
      writeField p T_I32 4 (writeI32 p (cm_codec cm)),
      writeField p T_I64 5 (writeI64 p (cm_numValues cm)),
      writeField p T_I64 6 (writeI64 p (cm_totalUncompressedSize cm)),
      writeField p T_I64 7 (writeI64 p (cm_totalCompressedSize cm)),
      writeOptField p T_LIST 8 (writeListOf p T_STRUCT (writeKeyValue p)) (cm_keyValueMetadata cm),
      writeField p T_I64 9 (writeI64 p (cm_dataPageOffset cm)),
      writeOptField p T_I64 10 (writeI64 p) (cm_indexPageOffset cm),
      writeOptField p T_I64 11 (writeI64 p) (cm_dictionaryPageOffset cm),
      writeOptField p T_STRUCT 12 (writeStatistics p) (cm_statistics cm),
      writeFieldStop p,
      writeStructEnd p]"

subsection \<open>ColumnChunk\<close>

definition columnChunk_handler :: "('w, 'r) protocol \<Rightarrow> nat \<Rightarrow> (ColumnChunk, 'r) handler" where
  "columnChunk_handler p n i =
     (if i = 1 then assignOpt (readStr p) (\<lambda>v cc. cc\<lparr>cc_filePath := v\<rparr>)
      else if i = 2 then assign (readI64 p) (\<lambda>v cc. cc\<lparr>cc_fileOffset := v\<rparr>)
      else if i = 3 then assignOpt (readColumnMetaData p n) (\<lambda>v cc. cc\<lparr>cc_metaData := v\<rparr>)
      else None)"

definition readColumnChunk :: "('w, 'r) protocol \<Rightarrow> nat \<Rightarrow> (ColumnChunk, 'r) get" where
  "readColumnChunk p n = readFieldsWith p n (columnChunk_handler p n)
     \<lparr>cc_filePath = None, cc_fileOffset = 0, cc_metaData = None\<rparr>"

definition writeColumnChunk :: "('w, 'r) protocol \<Rightarrow> ColumnChunk \<Rightarrow> 'w put" where
  "writeColumnChunk p cc = seqW
     [writeStructBegin p,
      writeOptField p T_STRING 1 (writeString p) (cc_filePath cc),
      writeField p T_I64 2 (writeI64 p (cc_fileOffset cc)),
      writeOptField p T_STRUCT 3 (writeColumnMetaData p) (cc_metaData cc),
      writeFieldStop p,
      writeStructEnd p]"

subsection \<open>RowGroup\<close>

definition rowGroup_handler :: "('w, 'r) protocol \<Rightarrow> nat \<Rightarrow> (RowGroup, 'r) handler" where
  "rowGroup_handler p n i =
     (if i = 1 then assign (readListOf p (readColumnChunk p n)) (\<lambda>v rg. rg\<lparr>rg_columns := v\<rparr>)
      else if i = 2 then assign (readI64 p) (\<lambda>v rg. rg\<lparr>rg_totalByteSize := v\<rparr>)
      else if i = 3 then assign (readI64 p) (\<lambda>v rg. rg\<lparr>rg_numRows := v\<rparr>)
      else if i = 5 then assignOpt (readI64 p) (\<lambda>v rg. rg\<lparr>rg_fileOffset := v\<rparr>)
      else if i = 6 then assignOpt (readI64 p) (\<lambda>v rg. rg\<lparr>rg_totalCompressedSize := v\<rparr>)
      else if i = 7 then assignOpt (readI16 p) (\<lambda>v rg. rg\<lparr>rg_ordinal := v\<rparr>)
      else None)"

definition readRowGroup :: "('w, 'r) protocol \<Rightarrow> nat \<Rightarrow> (RowGroup, 'r) get" where
  "readRowGroup p n = readFieldsWith p n (rowGroup_handler p n)
     \<lparr>rg_columns = [], rg_totalByteSize = 0, rg_numRows = 0, rg_fileOffset = None,
      rg_totalCompressedSize = None, rg_ordinal = None\<rparr>"

definition writeRowGroup :: "('w, 'r) protocol \<Rightarrow> RowGroup \<Rightarrow> 'w put" where
  "writeRowGroup p rg = seqW
     [writeStructBegin p,
      writeField p T_LIST 1 (writeListOf p T_STRUCT (writeColumnChunk p) (rg_columns rg)),
      writeField p T_I64 2 (writeI64 p (rg_totalByteSize rg)),
      writeField p T_I64 3 (writeI64 p (rg_numRows rg)),
      writeOptField p T_I64 5 (writeI64 p) (rg_fileOffset rg),
      writeOptField p T_I64 6 (writeI64 p) (rg_totalCompressedSize rg),
      writeOptField p T_I16 7 (writeI16 p) (rg_ordinal rg),
      writeFieldStop p,
      writeStructEnd p]"

subsection \<open>FileMetaData\<close>

definition fileMetaData_handler :: "('w, 'r) protocol \<Rightarrow> nat \<Rightarrow> (FileMetaData, 'r) handler" where
  "fileMetaData_handler p n i =
     (if i = 1 then assign (readI32 p) (\<lambda>v fm. fm\<lparr>fm_version := v\<rparr>)
      else if i = 2 then assign (readListOf p (readSchemaElement p n)) (\<lambda>v fm. fm\<lparr>fm_schema := v\<rparr>)
      else if i = 3 then assign (readI64 p) (\<lambda>v fm. fm\<lparr>fm_numRows := v\<rparr>)
      else if i = 4 then assign (readListOf p (readRowGroup p n)) (\<lambda>v fm. fm\<lparr>fm_rowGroups := v\<rparr>)
      else if i = 5 then assignOpt (readListOf p (readKeyValue p n)) (\<lambda>v fm. fm\<lparr>fm_keyValueMetadata := v\<rparr>)
      else if i = 6 then assignOpt (readStr p) (\<lambda>v fm. fm\<lparr>fm_createdBy := v\<rparr>)
      else None)"

definition readFileMetaDataStruct :: "('w, 'r) protocol \<Rightarrow> nat \<Rightarrow> (FileMetaData, 'r) get" where
  "readFileMetaDataStruct p n = readFieldsWith p n (fileMetaData_handler p n)
     \<lparr>fm_version = 0, fm_schema = [], fm_numRows = 0, fm_rowGroups = [], fm_keyValueMetadata =
      None, fm_createdBy = None\<rparr>"

definition writeFileMetaDataStruct :: "('w, 'r) protocol \<Rightarrow> FileMetaData \<Rightarrow> 'w put" where
  "writeFileMetaDataStruct p fm = seqW
     [writeStructBegin p,
      writeField p T_I32 1 (writeI32 p (fm_version fm)),
      writeField p T_LIST 2 (writeListOf p T_STRUCT (writeSchemaElement p) (fm_schema fm)),
      writeField p T_I64 3 (writeI64 p (fm_numRows fm)),
      writeField p T_LIST 4 (writeListOf p T_STRUCT (writeRowGroup p) (fm_rowGroups fm)),
      writeOptField p T_LIST 5 (writeListOf p T_STRUCT (writeKeyValue p)) (fm_keyValueMetadata fm),
      writeOptField p T_STRING 6 (writeString p) (fm_createdBy fm),
      writeFieldStop p,
      writeStructEnd p]"

subsection \<open>DataPageHeader\<close>

definition dataPageHeader_handler :: "('w, 'r) protocol \<Rightarrow> nat \<Rightarrow> (DataPageHeader, 'r) handler" where
  "dataPageHeader_handler p n i =
     (if i = 1 then assign (readI32 p) (\<lambda>v h. h\<lparr>dp_numValues := v\<rparr>)
      else if i = 2 then assign (readI32 p) (\<lambda>v h. h\<lparr>dp_encoding := v\<rparr>)
      else if i = 3 then assign (readI32 p) (\<lambda>v h. h\<lparr>dp_definitionLevelEncoding := v\<rparr>)
      else if i = 4 then assign (readI32 p) (\<lambda>v h. h\<lparr>dp_repetitionLevelEncoding := v\<rparr>)
      else if i = 5 then assignOpt (readStatistics p n) (\<lambda>v h. h\<lparr>dp_statistics := v\<rparr>)
      else None)"

definition readDataPageHeader :: "('w, 'r) protocol \<Rightarrow> nat \<Rightarrow> (DataPageHeader, 'r) get" where
  "readDataPageHeader p n = readFieldsWith p n (dataPageHeader_handler p n)
     \<lparr>dp_numValues = 0, dp_encoding = 0, dp_definitionLevelEncoding = 0,
      dp_repetitionLevelEncoding = 0, dp_statistics = None\<rparr>"

definition writeDataPageHeader :: "('w, 'r) protocol \<Rightarrow> DataPageHeader \<Rightarrow> 'w put" where
  "writeDataPageHeader p h = seqW
     [writeStructBegin p,
      writeField p T_I32 1 (writeI32 p (dp_numValues h)),
      writeField p T_I32 2 (writeI32 p (dp_encoding h)),
      writeField p T_I32 3 (writeI32 p (dp_definitionLevelEncoding h)),
      writeField p T_I32 4 (writeI32 p (dp_repetitionLevelEncoding h)),
      writeOptField p T_STRUCT 5 (writeStatistics p) (dp_statistics h),
      writeFieldStop p,
      writeStructEnd p]"

subsection \<open>DictionaryPageHeader\<close>

definition dictionaryPageHeader_handler :: "('w, 'r) protocol \<Rightarrow> nat \<Rightarrow> (DictionaryPageHeader, 'r) handler" where
  "dictionaryPageHeader_handler p n i =
     (if i = 1 then assign (readI32 p) (\<lambda>v h. h\<lparr>dict_numValues := v\<rparr>)
      else if i = 2 then assign (readI32 p) (\<lambda>v h. h\<lparr>dict_encoding := v\<rparr>)
      else if i = 3 then assignOpt (readBool p) (\<lambda>v h. h\<lparr>dict_isSorted := v\<rparr>)
      else None)"

definition readDictionaryPageHeader :: "('w, 'r) protocol \<Rightarrow> nat \<Rightarrow> (DictionaryPageHeader, 'r) get" where
  "readDictionaryPageHeader p n = readFieldsWith p n (dictionaryPageHeader_handler p n)
     \<lparr>dict_numValues = 0, dict_encoding = 0, dict_isSorted = None\<rparr>"

definition writeDictionaryPageHeader :: "('w, 'r) protocol \<Rightarrow> DictionaryPageHeader \<Rightarrow> 'w put" where
  "writeDictionaryPageHeader p h = seqW
     [writeStructBegin p,
      writeField p T_I32 1 (writeI32 p (dict_numValues h)),
      writeField p T_I32 2 (writeI32 p (dict_encoding h)),
      writeOptField p T_BOOL 3 (writeBool p) (dict_isSorted h),
      writeFieldStop p,
      writeStructEnd p]"

subsection \<open>DataPageHeaderV2\<close>

definition dataPageHeaderV2_handler :: "('w, 'r) protocol \<Rightarrow> nat \<Rightarrow> (DataPageHeaderV2, 'r) handler" where
  "dataPageHeaderV2_handler p n i =
     (if i = 1 then assign (readI32 p) (\<lambda>v h. h\<lparr>v2_numValues := v\<rparr>)
      else if i = 2 then assign (readI32 p) (\<lambda>v h. h\<lparr>v2_numNulls := v\<rparr>)
      else if i = 3 then assign (readI32 p) (\<lambda>v h. h\<lparr>v2_numRows := v\<rparr>)
      else if i = 4 then assign (readI32 p) (\<lambda>v h. h\<lparr>v2_encoding := v\<rparr>)
      else if i = 5 then assign (readI32 p) (\<lambda>v h. h\<lparr>v2_definitionLevelsByteLength := v\<rparr>)
      else if i = 6 then assign (readI32 p) (\<lambda>v h. h\<lparr>v2_repetitionLevelsByteLength := v\<rparr>)
      else if i = 7 then assign (readBool p) (\<lambda>v h. h\<lparr>v2_isCompressed := v\<rparr>)
      else if i = 8 then assignOpt (readStatistics p n) (\<lambda>v h. h\<lparr>v2_statistics := v\<rparr>)
      else None)"

definition readDataPageHeaderV2 :: "('w, 'r) protocol \<Rightarrow> nat \<Rightarrow> (DataPageHeaderV2, 'r) get" where
  "readDataPageHeaderV2 p n = readFieldsWith p n (dataPageHeaderV2_handler p n)
     \<lparr>v2_numValues = 0, v2_numNulls = 0, v2_numRows = 0, v2_encoding = 0,
      v2_definitionLevelsByteLength = 0, v2_repetitionLevelsByteLength = 0, v2_isCompressed =
      True, v2_statistics = None\<rparr>"

definition writeDataPageHeaderV2 :: "('w, 'r) protocol \<Rightarrow> DataPageHeaderV2 \<Rightarrow> 'w put" where
  "writeDataPageHeaderV2 p h = seqW
     [writeStructBegin p,
      writeField p T_I32 1 (writeI32 p (v2_numValues h)),
      writeField p T_I32 2 (writeI32 p (v2_numNulls h)),
      writeField p T_I32 3 (writeI32 p (v2_numRows h)),
      writeField p T_I32 4 (writeI32 p (v2_encoding h)),
      writeField p T_I32 5 (writeI32 p (v2_definitionLevelsByteLength h)),
      writeField p T_I32 6 (writeI32 p (v2_repetitionLevelsByteLength h)),
      writeField p T_BOOL 7 (writeBool p (v2_isCompressed h)),
      writeOptField p T_STRUCT 8 (writeStatistics p) (v2_statistics h),
      writeFieldStop p,
      writeStructEnd p]"

subsection \<open>PageHeader\<close>

definition pageHeader_handler :: "('w, 'r) protocol \<Rightarrow> nat \<Rightarrow> (PageHeader, 'r) handler" where
  "pageHeader_handler p n i =
     (if i = 1 then assign (readI32 p) (\<lambda>v h. h\<lparr>ph_type := v\<rparr>)
      else if i = 2 then assign (readI32 p) (\<lambda>v h. h\<lparr>ph_uncompressedPageSize := v\<rparr>)
      else if i = 3 then assign (readI32 p) (\<lambda>v h. h\<lparr>ph_compressedPageSize := v\<rparr>)
      else if i = 4 then assignOpt (readI32 p) (\<lambda>v h. h\<lparr>ph_crc := v\<rparr>)
      else if i = 5 then assignOpt (readDataPageHeader p n) (\<lambda>v h. h\<lparr>ph_dataPageHeader := v\<rparr>)
      else if i = 7 then assignOpt (readDictionaryPageHeader p n) (\<lambda>v h. h\<lparr>ph_dictionaryPageHeader := v\<rparr>)
      else if i = 8 then assignOpt (readDataPageHeaderV2 p n) (\<lambda>v h. h\<lparr>ph_dataPageHeaderV2 := v\<rparr>)
      else None)"

definition readPageHeaderStruct :: "('w, 'r) protocol \<Rightarrow> nat \<Rightarrow> (PageHeader, 'r) get" where
  "readPageHeaderStruct p n = readFieldsWith p n (pageHeader_handler p n)
     \<lparr>ph_type = 0, ph_uncompressedPageSize = 0, ph_compressedPageSize = 0, ph_crc = None,
      ph_dataPageHeader = None, ph_dictionaryPageHeader = None, ph_dataPageHeaderV2 = None\<rparr>"

definition writePageHeaderStruct :: "('w, 'r) protocol \<Rightarrow> PageHeader \<Rightarrow> 'w put" where
  "writePageHeaderStruct p h = seqW
     [writeStructBegin p,
      writeField p T_I32 1 (writeI32 p (ph_type h)),
      writeField p T_I32 2 (writeI32 p (ph_uncompressedPageSize h)),
      writeField p T_I32 3 (writeI32 p (ph_compressedPageSize h)),
      writeOptField p T_I32 4 (writeI32 p) (ph_crc h),
      writeOptField p T_STRUCT 5 (writeDataPageHeader p) (ph_dataPageHeader h),
      writeOptField p T_STRUCT 7 (writeDictionaryPageHeader p) (ph_dictionaryPageHeader h),
      writeOptField p T_STRUCT 8 (writeDataPageHeaderV2 p) (ph_dataPageHeaderV2 h),
      writeFieldStop p,
      writeStructEnd p]"

subsection \<open>Metadata the wire can carry\<close>

definition valid_TimeUnit :: "TimeUnit \<Rightarrow> bool" where
  "valid_TimeUnit u \<longleftrightarrow> tu_unit u \<in> {1, 2, 3}"

text \<open>A logical type with a kind of the union, the payload of that kind and no other.\<close>

definition valid_LogicalType :: "LogicalType \<Rightarrow> bool" where
  "valid_LogicalType lt \<longleftrightarrow>
     lt_kind lt \<in> {''string'', ''map'', ''list'', ''enum'', ''date'', ''json'', ''bson'', ''uuid'', ''float16'',
       ''unknown'', ''decimal'', ''time'', ''timestamp'', ''integer''} \<and>
     (lt_decimal lt \<noteq> None \<longleftrightarrow> lt_kind lt = ''decimal'') \<and>
     (lt_time lt \<noteq> None \<longleftrightarrow> lt_kind lt = ''time'') \<and>
     (lt_timestamp lt \<noteq> None \<longleftrightarrow> lt_kind lt = ''timestamp'') \<and>
     (lt_integer lt \<noteq> None \<longleftrightarrow> lt_kind lt = ''integer'') \<and>
     opt (\<lambda>d. int_range 32 (dec_scale d) \<and> int_range 32 (dec_precision d)) (lt_decimal lt) \<and>
     opt (\<lambda>t. valid_TimeUnit (tt_unit t)) (lt_time lt) \<and>
     opt (\<lambda>t. valid_TimeUnit (ts_unit t)) (lt_timestamp lt) \<and>
     opt (\<lambda>t. int_range 8 (it_bitWidth t)) (lt_integer lt)"

definition list_of :: "('a \<Rightarrow> bool) \<Rightarrow> 'a list \<Rightarrow> bool" where
  "list_of valid xs \<longleftrightarrow> list_all valid xs \<and> short xs"

definition valid_SchemaElement :: "SchemaElement \<Rightarrow> bool" where
  "valid_SchemaElement el \<longleftrightarrow>
     opt (int_range 32) (el_type el) \<and>
     opt (int_range 32) (el_typeLength el) \<and>
     opt (int_range 32) (el_repetitionType el) \<and>
     stored_text (el_name el) \<and>
     opt (int_range 32) (el_numChildren el) \<and>
     opt (int_range 32) (el_convertedType el) \<and>
     opt (int_range 32) (el_scale el) \<and>
     opt (int_range 32) (el_precision el) \<and>
     opt (int_range 32) (el_fieldId el) \<and>
     opt valid_LogicalType (el_logicalType el)"

definition valid_KeyValue :: "KeyValue \<Rightarrow> bool" where
  "valid_KeyValue kv \<longleftrightarrow>
     stored_text (kv_key kv) \<and>
     opt stored_text (kv_value kv)"

definition valid_ColumnMetaData :: "ColumnMetaData \<Rightarrow> bool" where
  "valid_ColumnMetaData cm \<longleftrightarrow>
     int_range 32 (cm_type cm) \<and>
     list_of (int_range 32) (cm_encodings cm) \<and>
     list_of stored_text (cm_pathInSchema cm) \<and>
     int_range 32 (cm_codec cm) \<and>
     int_range 64 (cm_numValues cm) \<and>
     int_range 64 (cm_totalUncompressedSize cm) \<and>
     int_range 64 (cm_totalCompressedSize cm) \<and>
     opt (list_of valid_KeyValue) (cm_keyValueMetadata cm) \<and>
     int_range 64 (cm_dataPageOffset cm) \<and>
     opt (int_range 64) (cm_indexPageOffset cm) \<and>
     opt (int_range 64) (cm_dictionaryPageOffset cm) \<and>
     opt valid_Statistics (cm_statistics cm)"

definition valid_ColumnChunk :: "ColumnChunk \<Rightarrow> bool" where
  "valid_ColumnChunk cc \<longleftrightarrow>
     opt stored_text (cc_filePath cc) \<and>
     int_range 64 (cc_fileOffset cc) \<and>
     opt valid_ColumnMetaData (cc_metaData cc)"

definition valid_RowGroup :: "RowGroup \<Rightarrow> bool" where
  "valid_RowGroup rg \<longleftrightarrow>
     list_of valid_ColumnChunk (rg_columns rg) \<and>
     int_range 64 (rg_totalByteSize rg) \<and>
     int_range 64 (rg_numRows rg) \<and>
     opt (int_range 64) (rg_fileOffset rg) \<and>
     opt (int_range 64) (rg_totalCompressedSize rg) \<and>
     opt (int_range 16) (rg_ordinal rg)"

definition valid_FileMetaData :: "FileMetaData \<Rightarrow> bool" where
  "valid_FileMetaData fm \<longleftrightarrow>
     int_range 32 (fm_version fm) \<and>
     list_of valid_SchemaElement (fm_schema fm) \<and>
     int_range 64 (fm_numRows fm) \<and>
     list_of valid_RowGroup (fm_rowGroups fm) \<and>
     opt (list_of valid_KeyValue) (fm_keyValueMetadata fm) \<and>
     opt stored_text (fm_createdBy fm)"

definition valid_DataPageHeader :: "DataPageHeader \<Rightarrow> bool" where
  "valid_DataPageHeader h \<longleftrightarrow>
     int_range 32 (dp_numValues h) \<and>
     int_range 32 (dp_encoding h) \<and>
     int_range 32 (dp_definitionLevelEncoding h) \<and>
     int_range 32 (dp_repetitionLevelEncoding h) \<and>
     opt valid_Statistics (dp_statistics h)"

definition valid_DictionaryPageHeader :: "DictionaryPageHeader \<Rightarrow> bool" where
  "valid_DictionaryPageHeader h \<longleftrightarrow>
     int_range 32 (dict_numValues h) \<and>
     int_range 32 (dict_encoding h)"

definition valid_DataPageHeaderV2 :: "DataPageHeaderV2 \<Rightarrow> bool" where
  "valid_DataPageHeaderV2 h \<longleftrightarrow>
     int_range 32 (v2_numValues h) \<and>
     int_range 32 (v2_numNulls h) \<and>
     int_range 32 (v2_numRows h) \<and>
     int_range 32 (v2_encoding h) \<and>
     int_range 32 (v2_definitionLevelsByteLength h) \<and>
     int_range 32 (v2_repetitionLevelsByteLength h) \<and>
     opt valid_Statistics (v2_statistics h)"

definition valid_PageHeader :: "PageHeader \<Rightarrow> bool" where
  "valid_PageHeader h \<longleftrightarrow>
     int_range 32 (ph_type h) \<and>
     int_range 32 (ph_uncompressedPageSize h) \<and>
     int_range 32 (ph_compressedPageSize h) \<and>
     opt (int_range 32) (ph_crc h) \<and>
     opt valid_DataPageHeader (ph_dataPageHeader h) \<and>
     opt valid_DictionaryPageHeader (ph_dictionaryPageHeader h) \<and>
     opt valid_DataPageHeaderV2 (ph_dataPageHeaderV2 h)"

subsection \<open>Round trips\<close>

context thrift_protocol
begin

lemma bytes_carried: "short bs \<Longrightarrow> carried (writeBinary P bs) (readBinary P) bs"
  by (simp add: short_def scalars_carried)

lemmas carried_intros = bytes_carried scalars_carried

lemmas field_conds = small_ids value_type_codes opt_def

lemma statistics_carried:
  assumes "valid_Statistics s" "9 \<le> n"
  shows "carried (writeStatistics P s) (readStatistics P n) s"
  unfolding writeStatistics_def readStatistics_def
  by (rule struct_carried [where m = 0])
    ((rule fields_bool fields_opt_bool fields_field fields_opt carried_intros |
      (use assms in \<open>simp add: statistics_handler_def valid_Statistics_def field_conds; fail\<close>) |
      (rule fields_stop, cases s, simp))+)


lemma list_of_carried:
  assumes "list_of valid xs" "\<And>x. valid x \<Longrightarrow> carried (body x) rd x" "t \<in> value_types"
  shows "carried (writeListOf P t body xs) (readListOf P rd) xs"
  using assms by (intro list_carried) (auto simp: list_of_def short_def list_all_iff)

lemma lists_carried:
  "list_of (int_range 32) xs \<Longrightarrow> carried (writeListOf P T_I32 (writeI32 P) xs) (readListOf P (readI32 P)) xs"
  "list_of stored_text ss \<Longrightarrow> carried (writeListOf P T_STRING (writeString P) ss) (readListOf P (readStr P)) ss"
  by (rule list_of_carried, assumption, simp_all add: scalars_carried value_type_codes)+

lemma variant_carried:
  assumes "2 \<le> n"
  shows "carried (seqW [writeStructBegin P, writeFieldStop P, writeStructEnd P]) (skip P n T_STRUCT) ()"
proof (rule carriedI)
  fix w assume w: "idle w"
  have v: "storable mapok (TStruct [])" "value_fuel (TStruct []) \<le> n" using assms by auto
  have eq: "seqW [writeStructBegin P, writeFieldStop P, writeStructEnd P] w = writeValue P (TStruct []) w"
    by (auto simp: bindR_def split: sum.splits)
  obtain w' bs where "writeValue P (TStruct []) w = Inr w'" "idle w'" "out w' = out w @ bs"
      "\<And>rest. skip P n T_STRUCT (at w (bs @ rest)) = Inr ((), at w' rest)"
    by (rule written_value [OF v(1) w v(2)]) simp
  then show "sends w (seqW [writeStructBegin P, writeFieldStop P, writeStructEnd P] w) (skip P n T_STRUCT) ()"
    unfolding sends_on_def eq by blast
qed

lemma fields_variant:
  assumes "handler i = assign (skip P n T_STRUCT) upd" "2 \<le> n" "int_range 16 i"
    and "fields_as m fs handler (upd () s) y"
  shows "fields_as m (writeEmptyVariant P i # fs) handler s y"
  unfolding writeEmptyVariant_def
  by (rule fields_field [where rd = "skip P n T_STRUCT" and upd = upd and v = "()"])
    (use assms in \<open>simp_all add: value_types_def variant_carried\<close>)

lemma timeUnit_carried:
  assumes "valid_TimeUnit u" "16 \<le> n"
  shows "carried (writeTimeUnit P u) (readTimeUnit P n) u"
proof -
  have "int_range 16 (tu_unit u)" "tu_unit u = 1 \<or> tu_unit u = 2 \<or> tu_unit u = 3"
    using assms(1) by (auto simp: valid_TimeUnit_def int_range_def)
  then show ?thesis
    unfolding writeTimeUnit_def readTimeUnit_def
    by (intro struct_carried [where m = 0] fields_stop
        fields_variant [where n = n and upd = "\<lambda>_ s. s\<lparr>tu_unit := tu_unit u\<rparr>"])
      (use assms(2) in auto)
qed

lemma decimal_carried:
  assumes "int_range 32 (dec_scale d)" "int_range 32 (dec_precision d)" "16 \<le> n"
  shows "carried (writeDecimal P d) (readDecimal P n) d"
  unfolding writeDecimal_def readDecimal_def
  by (rule struct_carried [where m = 0])
    ((rule fields_bool fields_field carried_intros timeUnit_carried | (use assms in \<open>simp add: field_conds; fail\<close>) |
      (rule fields_stop, cases d, simp))+)

lemma time_carried:
  assumes "valid_TimeUnit (tt_unit t)" "16 \<le> n"
  shows "carried (writeTime P t) (readTime P n) t"
  unfolding writeTime_def readTime_def
  by (rule struct_carried [where m = 0])
    ((rule fields_bool fields_field carried_intros timeUnit_carried | (use assms in \<open>simp add: field_conds; fail\<close>) |
      (rule fields_stop, cases t, simp))+)

lemma timestamp_carried:
  assumes "valid_TimeUnit (ts_unit t)" "16 \<le> n"
  shows "carried (writeTimestamp P t) (readTimestamp P n) t"
  unfolding writeTimestamp_def readTimestamp_def
  by (rule struct_carried [where m = 0])
    ((rule fields_bool fields_field carried_intros timeUnit_carried | (use assms in \<open>simp add: field_conds; fail\<close>) |
      (rule fields_stop, cases t, simp))+)

lemma integer_carried:
  assumes "int_range 8 (it_bitWidth t)" "16 \<le> n"
  shows "carried (writeInteger P t) (readInteger P n) t"
  unfolding writeInteger_def readInteger_def
  by (rule struct_carried [where m = 0])
    ((rule fields_bool fields_field carried_intros timeUnit_carried | (use assms in \<open>simp add: field_conds; fail\<close>) |
      (rule fields_stop, cases t, simp))+)

lemma needed_Some [simp]: "needed (Some v) body = body v"
  by (rule ext) (simp add: needed_def)

lemma unknown_variant:
  assumes "handler i = None" "int_range 16 i" "2 \<le> m" "fields_as m fs handler s y"
  shows "fields_as m (writeEmptyVariant P i # fs) handler s y"
proof -
  have "writeValue P (TStruct []) = seqW [writeStructBegin P, writeFieldStop P, writeStructEnd P]"
    by (rule ext) (auto simp: bindR_def split: sum.splits)
  then show ?thesis
    using fields_unknown [of handler i "TStruct []" m fs s y] assms by (simp add: writeEmptyVariant_def)
qed

lemma empty_variant:
  assumes "lt_kind lt \<in> {''string'', ''map'', ''list'', ''enum'', ''date'', ''json'', ''bson'', ''uuid'', ''float16''}"
  shows "\<exists>i. writeVariant P lt = writeEmptyVariant P i \<and>
    logicalType_handler P n i = emptyVariant P n (lt_kind lt) \<and> int_range 16 i"
proof -
  define ids :: "(string \<times> int) list" where
    "ids = [(''string'', 1), (''map'', 2), (''list'', 3), (''enum'', 4), (''date'', 6), (''json'', 12),
       (''bson'', 13), (''uuid'', 14), (''float16'', 15)]"
  have "\<forall>(k, i) \<in> set ids. lt_kind lt = k \<longrightarrow> writeVariant P lt = writeEmptyVariant P i \<and>
      logicalType_handler P n i = emptyVariant P n k \<and> int_range 16 i"
    by (simp add: ids_def writeVariant_def logicalType_handler_def small_ids)
  moreover have "\<exists>(k, i) \<in> set ids. lt_kind lt = k"
    using assms by (simp add: ids_def)
  ultimately show ?thesis by fast
qed

lemma payload_variant:
  assumes "handler i = assign rd upd" "carried body rd v" "int_range 16 i" "upd v s = lt"
  shows "fields_as m [writeField P T_STRUCT i body, writeFieldStop P, writeStructEnd P] handler s lt"
  by (rule fields_field [where rd = rd and upd = upd and v = v])
    (use assms in \<open>auto simp: value_types_def intro!: fields_stop\<close>)

lemma logicalType_carried:
  assumes "valid_LogicalType lt" "16 \<le> n"
  shows "carried (writeLogicalType P lt) (readLogicalType P n) lt"
  unfolding writeLogicalType_def readLogicalType_def
proof (rule struct_carried [where m = 2])
  let ?s = "\<lparr>lt_kind = ''unknown'', lt_decimal = None, lt_time = None, lt_timestamp = None, lt_integer = None\<rparr>"
  let ?fin = "[writeFieldStop P, writeStructEnd P]"
  have empty: "fields_as 2 (writeEmptyVariant P i # ?fin) (logicalType_handler P n) ?s lt"
    if "logicalType_handler P n i = emptyVariant P n (lt_kind lt)" "int_range 16 i"
      "lt_decimal lt = None" "lt_time lt = None" "lt_timestamp lt = None" "lt_integer lt = None" for i
    by (rule fields_variant [where upd = "\<lambda>_ s. s\<lparr>lt_kind := lt_kind lt\<rparr>"], rule that(1) [unfolded emptyVariant_def])
      (use that assms(2) in \<open>auto intro!: fields_stop\<close>)
  consider "lt_kind lt \<in> {''string'', ''map'', ''list'', ''enum'', ''date'', ''json'', ''bson'', ''uuid'', ''float16''}"
    | "lt_kind lt = ''unknown''" | "lt_kind lt = ''decimal''" | "lt_kind lt = ''time''"
    | "lt_kind lt = ''timestamp''" | "lt_kind lt = ''integer''"
    using assms(1) by (auto simp: valid_LogicalType_def)
  then show "fields_as 2 (writeVariant P lt # ?fin) (logicalType_handler P n) ?s lt"
  proof cases
    case 1
    from empty_variant [OF 1] obtain i where "writeVariant P lt = writeEmptyVariant P i"
      "logicalType_handler P n i = emptyVariant P n (lt_kind lt)" "int_range 16 i" by blast
    moreover have "lt_kind lt \<notin> {''decimal'', ''time'', ''timestamp'', ''integer''}"
      using 1 by (elim insertE emptyE) simp_all
    ultimately show ?thesis using empty [of i] assms(1) by (simp add: valid_LogicalType_def)
  next
    case 2
    then have "writeVariant P lt = writeEmptyVariant P 11" by (simp add: writeVariant_def)
    with 2 assms(1) show ?thesis
      by (auto simp: valid_LogicalType_def logicalType_handler_def small_ids
          intro!: unknown_variant fields_stop)
  next
    case 3
    then obtain d where d: "lt_decimal lt = Some d" "int_range 32 (dec_scale d)" "int_range 32 (dec_precision d)"
      using assms(1) by (auto simp: valid_LogicalType_def opt_def)
    have variant: "writeVariant P lt = writeField P T_STRUCT 5 (writeDecimal P d)"
      using 3 d by (simp add: writeVariant_def)
    show ?thesis
      unfolding variant
      by (rule payload_variant [where rd = "readDecimal P n" and v = d and
          upd = "\<lambda>v lt. lt\<lparr>lt_kind := ''decimal'', lt_decimal := Some v\<rparr>"])
        (use 3 d assms in \<open>simp_all add: logicalType_handler_def small_ids valid_LogicalType_def decimal_carried\<close>)
  next
    case 4
    then obtain t where t: "lt_time lt = Some t" "valid_TimeUnit (tt_unit t)"
      using assms(1) by (auto simp: valid_LogicalType_def opt_def)
    have variant: "writeVariant P lt = writeField P T_STRUCT 7 (writeTime P t)"
      using 4 t by (simp add: writeVariant_def)
    show ?thesis
      unfolding variant
      by (rule payload_variant [where rd = "readTime P n" and v = t and
          upd = "\<lambda>v lt. lt\<lparr>lt_kind := ''time'', lt_time := Some v\<rparr>"])
        (use 4 t assms in \<open>simp_all add: logicalType_handler_def small_ids valid_LogicalType_def time_carried\<close>)
  next
    case 5
    then obtain t where t: "lt_timestamp lt = Some t" "valid_TimeUnit (ts_unit t)"
      using assms(1) by (auto simp: valid_LogicalType_def opt_def)
    have variant: "writeVariant P lt = writeField P T_STRUCT 8 (writeTimestamp P t)"
      using 5 t by (simp add: writeVariant_def)
    show ?thesis
      unfolding variant
      by (rule payload_variant [where rd = "readTimestamp P n" and v = t and
          upd = "\<lambda>v lt. lt\<lparr>lt_kind := ''timestamp'', lt_timestamp := Some v\<rparr>"])
        (use 5 t assms in \<open>simp_all add: logicalType_handler_def small_ids valid_LogicalType_def timestamp_carried\<close>)
  next
    case 6
    then obtain t where t: "lt_integer lt = Some t" "int_range 8 (it_bitWidth t)"
      using assms(1) by (auto simp: valid_LogicalType_def opt_def)
    have variant: "writeVariant P lt = writeField P T_STRUCT 10 (writeInteger P t)"
      using 6 t by (simp add: writeVariant_def)
    show ?thesis
      unfolding variant
      by (rule payload_variant [where rd = "readInteger P n" and v = t and
          upd = "\<lambda>v lt. lt\<lparr>lt_kind := ''integer'', lt_integer := Some v\<rparr>"])
        (use 6 t assms in \<open>simp_all add: logicalType_handler_def small_ids valid_LogicalType_def integer_carried\<close>)
  qed
qed (use assms in simp)

lemma SchemaElement_carried:
  assumes "valid_SchemaElement el" "16 \<le> n"
  shows "carried (writeSchemaElement P el) (readSchemaElement P n) el"
  unfolding writeSchemaElement_def readSchemaElement_def
  by (rule struct_carried [where m = 0])
    ((rule fields_bool fields_opt_bool fields_field fields_opt carried_intros lists_carried logicalType_carried |
      (use assms in \<open>simp add: schemaElement_handler_def valid_SchemaElement_def field_conds; fail\<close>) |
      (rule fields_stop, cases el, simp))+)

lemma SchemaElements_carried:
  "list_of valid_SchemaElement xs \<Longrightarrow> 16 \<le> n \<Longrightarrow>
     carried (writeListOf P T_STRUCT (writeSchemaElement P) xs) (readListOf P (readSchemaElement P n)) xs"
  by (rule list_of_carried [where valid = valid_SchemaElement]) (simp_all add: SchemaElement_carried value_type_codes)

lemma KeyValue_carried:
  assumes "valid_KeyValue kv" "16 \<le> n"
  shows "carried (writeKeyValue P kv) (readKeyValue P n) kv"
  unfolding writeKeyValue_def readKeyValue_def
  by (rule struct_carried [where m = 0])
    ((rule fields_bool fields_opt_bool fields_field fields_opt carried_intros lists_carried  |
      (use assms in \<open>simp add: keyValue_handler_def valid_KeyValue_def field_conds; fail\<close>) |
      (rule fields_stop, cases kv, simp))+)

lemma KeyValues_carried:
  "list_of valid_KeyValue xs \<Longrightarrow> 16 \<le> n \<Longrightarrow>
     carried (writeListOf P T_STRUCT (writeKeyValue P) xs) (readListOf P (readKeyValue P n)) xs"
  by (rule list_of_carried [where valid = valid_KeyValue]) (simp_all add: KeyValue_carried value_type_codes)

lemma ColumnMetaData_carried:
  assumes "valid_ColumnMetaData cm" "16 \<le> n"
  shows "carried (writeColumnMetaData P cm) (readColumnMetaData P n) cm"
  unfolding writeColumnMetaData_def readColumnMetaData_def
  by (rule struct_carried [where m = 0])
    ((rule fields_bool fields_opt_bool fields_field fields_opt carried_intros lists_carried statistics_carried KeyValues_carried |
      (use assms in \<open>simp add: columnMetaData_handler_def valid_ColumnMetaData_def field_conds; fail\<close>) |
      (rule fields_stop, cases cm, simp))+)

lemma ColumnChunk_carried:
  assumes "valid_ColumnChunk cc" "16 \<le> n"
  shows "carried (writeColumnChunk P cc) (readColumnChunk P n) cc"
  unfolding writeColumnChunk_def readColumnChunk_def
  by (rule struct_carried [where m = 0])
    ((rule fields_bool fields_opt_bool fields_field fields_opt carried_intros lists_carried ColumnMetaData_carried |
      (use assms in \<open>simp add: columnChunk_handler_def valid_ColumnChunk_def field_conds; fail\<close>) |
      (rule fields_stop, cases cc, simp))+)

lemma ColumnChunks_carried:
  "list_of valid_ColumnChunk xs \<Longrightarrow> 16 \<le> n \<Longrightarrow>
     carried (writeListOf P T_STRUCT (writeColumnChunk P) xs) (readListOf P (readColumnChunk P n)) xs"
  by (rule list_of_carried [where valid = valid_ColumnChunk]) (simp_all add: ColumnChunk_carried value_type_codes)

lemma RowGroup_carried:
  assumes "valid_RowGroup rg" "16 \<le> n"
  shows "carried (writeRowGroup P rg) (readRowGroup P n) rg"
  unfolding writeRowGroup_def readRowGroup_def
  by (rule struct_carried [where m = 0])
    ((rule fields_bool fields_opt_bool fields_field fields_opt carried_intros lists_carried ColumnChunks_carried |
      (use assms in \<open>simp add: rowGroup_handler_def valid_RowGroup_def field_conds; fail\<close>) |
      (rule fields_stop, cases rg, simp))+)

lemma RowGroups_carried:
  "list_of valid_RowGroup xs \<Longrightarrow> 16 \<le> n \<Longrightarrow>
     carried (writeListOf P T_STRUCT (writeRowGroup P) xs) (readListOf P (readRowGroup P n)) xs"
  by (rule list_of_carried [where valid = valid_RowGroup]) (simp_all add: RowGroup_carried value_type_codes)

lemma DataPageHeader_carried:
  assumes "valid_DataPageHeader h" "16 \<le> n"
  shows "carried (writeDataPageHeader P h) (readDataPageHeader P n) h"
  unfolding writeDataPageHeader_def readDataPageHeader_def
  by (rule struct_carried [where m = 0])
    ((rule fields_bool fields_opt_bool fields_field fields_opt carried_intros lists_carried statistics_carried |
      (use assms in \<open>simp add: dataPageHeader_handler_def valid_DataPageHeader_def field_conds; fail\<close>) |
      (rule fields_stop, cases h, simp))+)

lemma DictionaryPageHeader_carried:
  assumes "valid_DictionaryPageHeader h" "16 \<le> n"
  shows "carried (writeDictionaryPageHeader P h) (readDictionaryPageHeader P n) h"
  unfolding writeDictionaryPageHeader_def readDictionaryPageHeader_def
  by (rule struct_carried [where m = 0])
    ((rule fields_bool fields_opt_bool fields_field fields_opt carried_intros lists_carried  |
      (use assms in \<open>simp add: dictionaryPageHeader_handler_def valid_DictionaryPageHeader_def field_conds; fail\<close>) |
      (rule fields_stop, cases h, simp))+)

lemma DataPageHeaderV2_carried:
  assumes "valid_DataPageHeaderV2 h" "16 \<le> n"
  shows "carried (writeDataPageHeaderV2 P h) (readDataPageHeaderV2 P n) h"
  unfolding writeDataPageHeaderV2_def readDataPageHeaderV2_def
  by (rule struct_carried [where m = 0])
    ((rule fields_bool fields_opt_bool fields_field fields_opt carried_intros lists_carried statistics_carried |
      (use assms in \<open>simp add: dataPageHeaderV2_handler_def valid_DataPageHeaderV2_def field_conds; fail\<close>) |
      (rule fields_stop, cases h, simp))+)

lemma PageHeader_carried:
  assumes "valid_PageHeader h" "16 \<le> n"
  shows "carried (writePageHeaderStruct P h) (readPageHeaderStruct P n) h"
  unfolding writePageHeaderStruct_def readPageHeaderStruct_def
  by (rule struct_carried [where m = 0])
    ((rule fields_bool fields_opt_bool fields_field fields_opt carried_intros lists_carried DataPageHeader_carried DictionaryPageHeader_carried DataPageHeaderV2_carried |
      (use assms in \<open>simp add: pageHeader_handler_def valid_PageHeader_def field_conds; fail\<close>) |
      (rule fields_stop, cases h, simp))+)

lemma FileMetaData_fields:
  assumes "valid_FileMetaData fm" "16 \<le> n" "fields_as m fs (fileMetaData_handler P n) fm y"
  shows "fields_as m
     (writeField P T_I32 1 (writeI32 P (fm_version fm)) #
      writeField P T_LIST 2 (writeListOf P T_STRUCT (writeSchemaElement P) (fm_schema fm)) #
      writeField P T_I64 3 (writeI64 P (fm_numRows fm)) #
      writeField P T_LIST 4 (writeListOf P T_STRUCT (writeRowGroup P) (fm_rowGroups fm)) #
      writeOptField P T_LIST 5 (writeListOf P T_STRUCT (writeKeyValue P)) (fm_keyValueMetadata fm) #
      writeOptField P T_STRING 6 (writeString P) (fm_createdBy fm) # fs)
     (fileMetaData_handler P n)
     \<lparr>fm_version = 0, fm_schema = [], fm_numRows = 0, fm_rowGroups = [], fm_keyValueMetadata = None,
      fm_createdBy = None\<rparr> y"
proof -
  have known: "fields_as m fs (fileMetaData_handler P n)
     (\<lparr>fm_version = 0, fm_schema = [], fm_numRows = 0, fm_rowGroups = [], fm_keyValueMetadata = None,
      fm_createdBy = None\<rparr>\<lparr>fm_version := fm_version fm, fm_schema := fm_schema fm, fm_numRows := fm_numRows fm,
        fm_rowGroups := fm_rowGroups fm, fm_keyValueMetadata := fm_keyValueMetadata fm,
        fm_createdBy := fm_createdBy fm\<rparr>) y"
    using assms(3) by (cases fm) simp
  show ?thesis
    by ((rule fields_bool fields_opt_bool fields_field fields_opt carried_intros lists_carried
          SchemaElements_carried RowGroups_carried KeyValues_carried |
        (use assms in \<open>simp add: fileMetaData_handler_def valid_FileMetaData_def field_conds; fail\<close>) |
        (rule known))+)
qed

lemma FileMetaData_carried:
  assumes "valid_FileMetaData fm" "16 \<le> n"
  shows "carried (writeFileMetaDataStruct P fm) (readFileMetaDataStruct P n) fm"
  unfolding writeFileMetaDataStruct_def readFileMetaDataStruct_def
  by (intro struct_carried [where m = 0] FileMetaData_fields [OF assms] fields_stop) (use assms in simp_all)

end

subsection \<open>Whole files and pages\<close>

definition readFileMetaData :: "nat \<Rightarrow> byte list \<Rightarrow> js_error + FileMetaData" where
  "readFileMetaData n bytes =
     bindR (readFileMetaDataStruct compactProtocol n (new_compact_reader bytes)) (\<lambda>(fm, _). Inr fm)"

definition writeFileMetaData :: "FileMetaData \<Rightarrow> js_error + byte list" where
  "writeFileMetaData fm =
     bindR (writeFileMetaDataStruct compactProtocol fm new_compact_writer) (\<lambda>w. Inr (cw_out w))"

text \<open>\<open>bytes.subarray(from, to)\<close>: negative positions count from the end, all are clamped to the array.\<close>

definition relative :: "'a list \<Rightarrow> int \<Rightarrow> nat" where
  "relative bytes i = nat (if i < 0 then int (length bytes) + i else min i (int (length bytes)))"

definition subarray :: "'a list \<Rightarrow> int \<Rightarrow> int \<Rightarrow> 'a list" where
  "subarray bytes from to = take (relative bytes to - relative bytes from) (drop (relative bytes from) bytes)"

lemma subarray_inner [simp]:
  "subarray (pre @ xs @ post) (int (length pre)) (int (length pre) + int (length xs)) = xs"
  by (simp add: subarray_def relative_def nat_add_distrib)

lemma relative_within: "0 \<le> i \<Longrightarrow> i \<le> int (length bytes) \<Longrightarrow> relative bytes i = nat i"
  by (simp add: relative_def)

definition readPageHeader :: "nat \<Rightarrow> byte list \<Rightarrow> int \<Rightarrow> js_error + PageHeader \<times> int" where
  "readPageHeader n bytes offset =
     bindR (readPageHeaderStruct compactProtocol n (new_compact_reader (subarray bytes offset (int (length bytes)))))
       (\<lambda>(h, r). Inr (h, offset + int (rd_pos (cr_reader r))))"

definition writePageHeader :: "PageHeader \<Rightarrow> js_error + byte list" where
  "writePageHeader h =
     bindR (writePageHeaderStruct compactProtocol h new_compact_writer) (\<lambda>w. Inr (cw_out w))"

lemma compact_carried:
  assumes "compact.carried wr rd x"
  obtains w where "wr new_compact_writer = Inr w"
    "\<And>rest. rd (new_compact_reader (cw_out w @ rest)) = Inr (x, compact_at w rest)"
  using compact.carriedD [OF assms compact_init(1)] that
  by (auto simp: sends_on_def compact_init)

lemma footer_codec:
  assumes "valid_FileMetaData fm" "16 \<le> n"
  shows "\<exists>bs. writeFileMetaData fm = Inr bs \<and> (\<forall>rest. readFileMetaData n (bs @ rest) = Inr fm)"
proof -
  obtain w where "writeFileMetaDataStruct compactProtocol fm new_compact_writer = Inr w"
    "\<And>rest. readFileMetaDataStruct compactProtocol n (new_compact_reader (cw_out w @ rest)) =
      Inr (fm, compact_at w rest)"
    by (rule compact_carried [OF compact.FileMetaData_carried [OF assms]]) blast
  then show ?thesis by (simp add: writeFileMetaData_def readFileMetaData_def)
qed

text \<open>C8: the Parquet footer. Every file metadata with integers of their width, storable strings and
  well-formed logical types is written by \<open>writeFileMetaData\<close>, and \<open>readFileMetaData\<close> of the bytes, with
  anything after them, returns it: schema tree, row groups, column chunks, statistics and
  key/value pairs, present and absent optional properties alike.\<close>

theorem file_metadata_roundtrip:
  assumes "valid_FileMetaData fm" "16 \<le> n"
  shows "\<exists>bs. writeFileMetaData fm = Inr bs \<and> (\<forall>rest. readFileMetaData n (bs @ rest) = Inr fm)"
  using assms by (rule footer_codec)

definition sample_schema_element :: SchemaElement where
  "sample_schema_element = \<lparr>el_type = Some 1, el_typeLength = None, el_repetitionType = Some 1,
     el_name = [110], el_numChildren = None, el_convertedType = None, el_scale = Some 2,
     el_precision = Some 9, el_fieldId = Some 7, el_logicalType = Some \<lparr>lt_kind = ''decimal'',
       lt_decimal = Some \<lparr>dec_scale = 2, dec_precision = 9\<rparr>, lt_time = None, lt_timestamp = None,
       lt_integer = None\<rparr>\<rparr>"

definition sample_column :: ColumnMetaData where
  "sample_column = \<lparr>cm_type = 1, cm_encodings = [0, 3], cm_pathInSchema = [[110]], cm_codec = 0,
     cm_numValues = 5, cm_totalUncompressedSize = 40, cm_totalCompressedSize = 40,
     cm_keyValueMetadata = None, cm_dataPageOffset = 4, cm_indexPageOffset = None,
     cm_dictionaryPageOffset = Some 4, cm_statistics = Some \<lparr>st_max = None, st_min = None,
       st_nullCount = Some 1, st_distinctCount = None, st_maxValue = Some [9], st_minValue = Some [1]\<rparr>\<rparr>"

definition sample_file :: FileMetaData where
  "sample_file = \<lparr>fm_version = 2, fm_schema = [sample_schema_element], fm_numRows = 5,
     fm_rowGroups = [\<lparr>rg_columns = [\<lparr>cc_filePath = None, cc_fileOffset = 4, cc_metaData = Some sample_column\<rparr>],
       rg_totalByteSize = 40, rg_numRows = 5, rg_fileOffset = None, rg_totalCompressedSize = Some 40,
       rg_ordinal = Some 0\<rparr>],
     fm_keyValueMetadata = Some [\<lparr>kv_key = [107], kv_value = None\<rparr>], fm_createdBy = Some [102]\<rparr>"

lemma sample_file_valid: "valid_FileMetaData sample_file"
proof -
  have txts: "stored_text [110]" "stored_text [107]" "stored_text [102]"
    by (rule stored_text_ascii; simp)+
  have el: "valid_SchemaElement sample_schema_element"
    by (simp add: valid_SchemaElement_def sample_schema_element_def opt_def valid_LogicalType_def
        int_range_def txts)
  have cm: "valid_ColumnMetaData sample_column"
    by (simp add: valid_ColumnMetaData_def sample_column_def opt_def list_of_def short_def int_range_def
        txts valid_Statistics_def)
  show ?thesis
    by (simp add: valid_FileMetaData_def sample_file_def opt_def list_of_def short_def int_range_def
        valid_RowGroup_def valid_ColumnChunk_def valid_KeyValue_def txts el cm)
qed

theorem file_metadata_roundtrip_witness:
  "\<exists>bs. writeFileMetaData sample_file = Inr bs \<and> (\<forall>rest. readFileMetaData 16 (bs @ rest) = Inr sample_file)"
  by (rule file_metadata_roundtrip [OF sample_file_valid]) simp

lemma page_header_codec:
  assumes "valid_PageHeader h" "16 \<le> n"
  shows "\<exists>bs. writePageHeader h = Inr bs \<and>
    (\<forall>pre body. readPageHeader n (pre @ bs @ body) (int (length pre)) = Inr (h, int (length pre + length bs)))"
proof -
  obtain w where w: "writePageHeaderStruct compactProtocol h new_compact_writer = Inr w"
    "\<And>rest. readPageHeaderStruct compactProtocol n (new_compact_reader (cw_out w @ rest)) =
      Inr (h, compact_at w rest)"
    by (rule compact_carried [OF compact.PageHeader_carried [OF assms]]) blast
  have "subarray (pre @ bs) (int (length pre)) (int (length (pre @ bs))) = bs" for pre bs :: "byte list"
    using subarray_inner [of pre bs "[]"] by (simp add: add.commute)
  then show ?thesis using w by (simp add: writePageHeader_def readPageHeader_def del: of_nat_add length_append)
qed

text \<open>Page headers. A page header written in front of a page body is read back at its offset in the
  file, and the \<open>end\<close> the reader reports is the offset at which the body starts.\<close>

theorem page_header_roundtrip:
  assumes "valid_PageHeader h" "16 \<le> n"
  shows "\<exists>bs. writePageHeader h = Inr bs \<and>
    (\<forall>pre body. readPageHeader n (pre @ bs @ body) (int (length pre)) = Inr (h, int (length pre + length bs)))"
  using assms by (rule page_header_codec)

definition sample_page :: PageHeader where
  "sample_page = \<lparr>ph_type = 3, ph_uncompressedPageSize = 64, ph_compressedPageSize = 40, ph_crc = Some (- 1),
     ph_dataPageHeader = None, ph_dictionaryPageHeader = Some \<lparr>dict_numValues = 4, dict_encoding = 0,
       dict_isSorted = Some True\<rparr>,
     ph_dataPageHeaderV2 = Some \<lparr>v2_numValues = 5, v2_numNulls = 1, v2_numRows = 5, v2_encoding = 0,
       v2_definitionLevelsByteLength = 3, v2_repetitionLevelsByteLength = 0, v2_isCompressed = False,
       v2_statistics = None\<rparr>\<rparr>"

theorem page_header_roundtrip_witness:
  "\<exists>bs. writePageHeader sample_page = Inr bs \<and>
    (\<forall>pre body. readPageHeader 16 (pre @ bs @ body) (int (length pre)) = Inr (sample_page, int (length pre + length bs)))"
  by (rule page_header_roundtrip)
    (simp_all add: valid_PageHeader_def sample_page_def opt_def int_range_def
      valid_DictionaryPageHeader_def valid_DataPageHeaderV2_def)

text \<open>
  A newer writer of the same footer: the known fields as \<open>writeFileMetaDataStruct\<close> writes them, then
  fields of other ids.
\<close>

definition writeNewerFileMetaData :: "('w, 'r) protocol \<Rightarrow> FileMetaData \<Rightarrow> (int \<times> tvalue) list \<Rightarrow> 'w put" where
  "writeNewerFileMetaData p fm xs = seqW
     (writeStructBegin p #
      writeField p T_I32 1 (writeI32 p (fm_version fm)) #
      writeField p T_LIST 2 (writeListOf p T_STRUCT (writeSchemaElement p) (fm_schema fm)) #
      writeField p T_I64 3 (writeI64 p (fm_numRows fm)) #
      writeField p T_LIST 4 (writeListOf p T_STRUCT (writeRowGroup p) (fm_rowGroups fm)) #
      writeOptField p T_LIST 5 (writeListOf p T_STRUCT (writeKeyValue p)) (fm_keyValueMetadata fm) #
      writeOptField p T_STRING 6 (writeString p) (fm_createdBy fm) #
      map (\<lambda>(i, v). writeField p (tv_type v) i (writeValue p v)) xs @
      [writeFieldStop p, writeStructEnd p])"

text \<open>Forward compatibility of the footer. Fields with ids the reader does not know, of any
  storable non-boolean value however nested, are skipped wholesale: the metadata read is the
  same as without them.\<close>

theorem file_metadata_skips_unknown:
  assumes "valid_FileMetaData fm" "16 + m + length xs \<le> n"
    and "\<forall>(i, v) \<in> set xs. 6 < i \<and> int_range 16 i \<and> storable compact_mapok v \<and> tv_type v \<noteq> T_BOOL \<and> value_fuel v \<le> m"
  shows "\<exists>w. writeNewerFileMetaData compactProtocol fm xs new_compact_writer = Inr w \<and>
    readFileMetaData n (cw_out w) = Inr fm"
proof -
  let ?fin = "[writeFieldStop compactProtocol, writeStructEnd compactProtocol]"
  have "compact.fields_as m (map compact.extra xs @ ?fin) (fileMetaData_handler compactProtocol n) fm fm"
    using assms(3)
    by (intro compact.fields_extras compact.fields_stop)
      (fastforce simp: fileMetaData_handler_def)+
  with assms(1,2) have "compact.carried (writeNewerFileMetaData compactProtocol fm xs)
      (readFileMetaDataStruct compactProtocol n) fm"
    unfolding writeNewerFileMetaData_def readFileMetaDataStruct_def
    by (intro compact.struct_carried [where m = m] compact.FileMetaData_fields)
      (simp_all add: compact.extra_def)
  from compact_carried [OF this] obtain w where
    "writeNewerFileMetaData compactProtocol fm xs new_compact_writer = Inr w"
    "readFileMetaDataStruct compactProtocol n (new_compact_reader (cw_out w)) = Inr (fm, compact_at w [])"
    by (metis append_Nil2)
  then show ?thesis by (auto simp: readFileMetaData_def)
qed

theorem file_metadata_skips_unknown_witness:
  "\<exists>w. writeNewerFileMetaData compactProtocol sample_file [(99, sample_value)] new_compact_writer = Inr w \<and>
    readFileMetaData 29 (cw_out w) = Inr sample_file"
proof (rule file_metadata_skips_unknown [OF sample_file_valid, of 12])
  show "\<forall>(i, v) \<in> set [(99, sample_value)]. 6 < i \<and> int_range 16 i \<and> storable compact_mapok v \<and>
      tv_type v \<noteq> T_BOOL \<and> value_fuel v \<le> 12"
    using sample_value_storable by (simp add: int_range_def) (simp add: sample_value_def)
qed simp

end
