(* ===== verification/Parquet_Values.thy ===== *)
theory Parquet_Values
  imports Parquet_Plain Parquet_Metadata
begin

text \<open>
  The value section of a Parquet page: the encodings and codecs of \<open>data/parquet/types.ts\<close>, page
  compression (\<open>data/parquet/compression.ts\<close>), \<open>encodeValues\<close> and \<open>buildDictionary\<close> of
  \<open>data/parquet/writer.ts\<close> and \<open>decodeValues\<close> of \<open>data/parquet/column-reader.ts\<close>.

  The compression library (\<open>compress\<close> and \<open>decompress\<close> of \<open>fino:compress\<close>, which call system libraries) is the
  parameter \<open>compressor\<close>. A column's values are \<open>column_values\<close>, tagged with the physical type of the
  descriptor; what the reader hands out is an array of single values, where \<open>None\<close> is \<open>undefined\<close>.
\<close>

definition PLAIN :: int where "PLAIN = 0"
definition PLAIN_DICTIONARY :: int where "PLAIN_DICTIONARY = 2"
definition RLE :: int where "RLE = 3"
definition DELTA_BINARY_PACKED :: int where "DELTA_BINARY_PACKED = 5"
definition DELTA_LENGTH_BYTE_ARRAY :: int where "DELTA_LENGTH_BYTE_ARRAY = 6"
definition DELTA_BYTE_ARRAY :: int where "DELTA_BYTE_ARRAY = 7"
definition RLE_DICTIONARY :: int where "RLE_DICTIONARY = 8"
definition BYTE_STREAM_SPLIT :: int where "BYTE_STREAM_SPLIT = 9"

definition UNCOMPRESSED :: int where "UNCOMPRESSED = 0"
definition SNAPPY :: int where "SNAPPY = 1"
definition GZIP :: int where "GZIP = 2"
definition BROTLI :: int where "BROTLI = 4"
definition ZSTD :: int where "ZSTD = 6"

lemmas encoding_defs = PLAIN_def PLAIN_DICTIONARY_def RLE_def DELTA_BINARY_PACKED_def DELTA_LENGTH_BYTE_ARRAY_def
  DELTA_BYTE_ARRAY_def RLE_DICTIONARY_def BYTE_STREAM_SPLIT_def
lemmas codec_defs = UNCOMPRESSED_def SNAPPY_def GZIP_def BROTLI_def ZSTD_def

subsection \<open>Page compression\<close>

record compressor =
  lib_compress :: "string \<Rightarrow> byte list \<Rightarrow> js_error + byte list"
  lib_decompress :: "string \<Rightarrow> byte list \<Rightarrow> int option \<Rightarrow> js_error + byte list"

definition CODEC_FORMAT :: "int \<Rightarrow> string option" where
  "CODEC_FORMAT codec =
     (if codec = SNAPPY then Some ''snappy'' else if codec = GZIP then Some ''gzip''
      else if codec = ZSTD then Some ''zstd'' else if codec = BROTLI then Some ''brotli'' else None)"

definition isCodecSupported :: "int \<Rightarrow> bool" where
  "isCodecSupported codec \<longleftrightarrow> codec = UNCOMPRESSED \<or> CODEC_FORMAT codec \<noteq> None"

definition decompressPage :: "compressor \<Rightarrow> int \<Rightarrow> byte list \<Rightarrow> int option \<Rightarrow> js_error + byte list" where
  "decompressPage lib codec bytes expectedOutputBytes =
     (if (case expectedOutputBytes of None \<Rightarrow> False | Some n \<Rightarrow> n < 0 \<or> 2 ^ 53 \<le> n)
      then Inl (ParquetError ''invalid Parquet page size'')
      else if codec = UNCOMPRESSED then
        (if expectedOutputBytes \<noteq> None \<and> expectedOutputBytes \<noteq> Some (int (length bytes))
         then Inl (ParquetError ''Parquet page decoded to an unexpected size'') else Inr bytes)
      else case CODEC_FORMAT codec of
        None \<Rightarrow> Inl (ParquetError ''unsupported Parquet compression codec'')
      | Some format \<Rightarrow> (case lib_decompress lib format bytes expectedOutputBytes of
            Inl e \<Rightarrow> Inl (ParquetError ''failed to decompress Parquet page'')
          | Inr out \<Rightarrow> Inr out))"

definition compressPage :: "compressor \<Rightarrow> int \<Rightarrow> byte list \<Rightarrow> js_error + byte list" where
  "compressPage lib codec bytes =
     (if codec = UNCOMPRESSED then Inr bytes
      else case CODEC_FORMAT codec of
        None \<Rightarrow> Inl (ParquetError ''unsupported Parquet compression codec'')
      | Some format \<Rightarrow> lib_compress lib format bytes)"

text \<open>What the code relies on: the library's formats are lossless.\<close>

definition lossless :: "compressor \<Rightarrow> bool" where
  "lossless lib \<longleftrightarrow> (\<forall>format b. \<exists>c. lib_compress lib format b = Inr c \<and>
     lib_decompress lib format c (Some (int (length b))) = Inr b)"

lemma page_compression:
  assumes "lossless lib" "isCodecSupported codec"
  shows "\<exists>c. compressPage lib codec b = Inr c \<and>
    (length b < 2 ^ 53 \<longrightarrow> decompressPage lib codec c (Some (int (length b))) = Inr b)"
proof (cases "codec = UNCOMPRESSED")
  case True
  then show ?thesis by (auto simp: compressPage_def decompressPage_def)
next
  case False
  with assms(2) obtain format where "CODEC_FORMAT codec = Some format" by (auto simp: isCodecSupported_def)
  moreover obtain c where "lib_compress lib format b = Inr c" "lib_decompress lib format c (Some (int (length b))) = Inr b"
    using assms(1) by (auto simp: lossless_def)
  ultimately show ?thesis using False by (auto simp: compressPage_def decompressPage_def)
qed

subsection \<open>Columns\<close>

record column_descriptor =
  cd_path :: "code_unit list list"
  cd_physicalType :: nat
  cd_typeLength :: "nat option"
  cd_maxDefinitionLevel :: nat
  cd_maxRepetitionLevel :: nat

datatype column_value = VBoolean bool | VNumber int | VBigInt int | VFloat u32 | VDouble u64 | VBinary binary_value

fun elements :: "column_values \<Rightarrow> column_value list" where
  "elements (Booleans vs) = map VBoolean vs"
| "elements (Int32s vs) = map VNumber vs"
| "elements (Int64s vs) = map VBigInt vs"
| "elements (Int96s vs) = map (\<lambda>v. VBinary (Bytes v)) vs"
| "elements (Floats vs) = map VFloat vs"
| "elements (Doubles vs) = map VDouble vs"
| "elements (ByteArrays vs) = map VBinary vs"
| "elements (FixedArrays vs) = map VBinary vs"

lemma length_elements [simp]: "length (elements vs) = num_values vs"
  by (cases vs) simp_all

subsection \<open>Encoding values\<close>

fun toU8 :: "binary_value \<Rightarrow> byte list" where
  "toU8 (Bytes b) = b"
| "toU8 (Str s) = encodeUtf8 s"
| "toU8 (NotBinary s) = encodeUtf8 s"

definition uint32_le :: "nat \<Rightarrow> byte list" where
  "uint32_le n = le_bytes 4 (take_bit 32 n)"

definition encodeRleBool :: "bool list \<Rightarrow> js_error + byte list" where
  "encodeRleBool vs =
     bindR (encodeRleHybrid (map (\<lambda>v. if v then 1 else 0) vs) 1) (\<lambda>hybrid. Inr (uint32_le (length hybrid) @ hybrid))"

definition encodeValues :: "string \<Rightarrow> nat option \<Rightarrow> column_values \<Rightarrow> js_error + byte list \<times> int" where
  "encodeValues encoding typeLength vs =
     (let plain = bindR (encodePlain vs typeLength) (\<lambda>bytes. Inr (bytes, PLAIN)) in
      if encoding = ''delta'' then
        (case vs of
           Int32s xs \<Rightarrow> Inr (encodeDeltaBinaryPacked xs, DELTA_BINARY_PACKED)
         | Int64s xs \<Rightarrow> Inr (encodeDeltaBinaryPacked xs, DELTA_BINARY_PACKED)
         | ByteArrays xs \<Rightarrow> Inr (encodeDeltaByteArray (map toU8 xs), DELTA_BYTE_ARRAY)
         | _ \<Rightarrow> plain)
      else if encoding = ''byte-stream-split'' then
        (if physicalType vs = FLOAT \<or> physicalType vs = DOUBLE
         then bindR (encodeByteStreamSplit vs None) (\<lambda>bytes. Inr (bytes, BYTE_STREAM_SPLIT)) else plain)
      else if encoding = ''rle'' then
        (case vs of
           Booleans xs \<Rightarrow> bindR (encodeRleBool xs) (\<lambda>bytes. Inr (bytes, RLE))
         | _ \<Rightarrow> plain)
      else plain)"

subsection \<open>Dictionaries\<close>

text \<open>The key of a value in the \<open>Map\<close>, which compares keys by SameValueZero: all NaNs are one key, and so
  are the two zeros.\<close>

definition float32_key :: "u32 \<Rightarrow> u32" where
  "float32_key v = (if v AND 0x7FFFFFFF > 0x7F800000 then 0x7FC00000 else if v AND 0x7FFFFFFF = 0 then 0 else v)"

definition float64_key :: "u64 \<Rightarrow> u64" where
  "float64_key v = (if v AND 0x7FFFFFFFFFFFFFFF > 0x7FF0000000000000 then 0x7FF8000000000000
     else if v AND 0x7FFFFFFFFFFFFFFF = 0 then 0 else v)"

definition bytes_key :: "byte list \<Rightarrow> code_unit list" where
  "bytes_key b = [98, 58] @ map (\<lambda>c. of_nat (unat c)) b"

fun binary_key :: "binary_value \<Rightarrow> bool \<times> code_unit list" where
  "binary_key (Bytes b) = (True, bytes_key b)"
| "binary_key (Str s) = (True, s)"
| "binary_key (NotBinary s) = (False, s)"

fun dict_step :: "('a \<Rightarrow> 'k) \<Rightarrow> 'a list \<times> ('k \<rightharpoonup> nat) \<times> nat list \<Rightarrow> 'a \<Rightarrow> 'a list \<times> ('k \<rightharpoonup> nat) \<times> nat list" where
  "dict_step key (dictionary, indexByKey, indices) v =
     (case indexByKey (key v) of
        Some idx \<Rightarrow> (dictionary, indexByKey, indices @ [idx])
      | None \<Rightarrow> (dictionary @ [v], indexByKey(key v \<mapsto> length dictionary), indices @ [length dictionary]))"

definition dictionary_of :: "('a \<Rightarrow> 'k) \<Rightarrow> ('a list \<Rightarrow> column_values) \<Rightarrow> 'a list \<Rightarrow> column_values \<times> nat list" where
  "dictionary_of key column vs =
     (case foldl (dict_step key) ([], Map.empty, []) vs of (dictionary, indexByKey, indices) \<Rightarrow> (column dictionary, indices))"

fun buildDictionary :: "column_values \<Rightarrow> column_values \<times> nat list" where
  "buildDictionary (Booleans vs) = dictionary_of (\<lambda>v. v) Booleans vs"
| "buildDictionary (Int32s vs) = dictionary_of (\<lambda>v. v) Int32s vs"
| "buildDictionary (Int64s vs) = dictionary_of (\<lambda>v. v) Int64s vs"
| "buildDictionary (Int96s vs) = dictionary_of bytes_key Int96s vs"
| "buildDictionary (Floats vs) = dictionary_of float32_key Floats vs"
| "buildDictionary (Doubles vs) = dictionary_of float64_key Doubles vs"
| "buildDictionary (ByteArrays vs) = dictionary_of binary_key ByteArrays vs"
| "buildDictionary (FixedArrays vs) = dictionary_of binary_key FixedArrays vs"

subsection \<open>Decoding values\<close>

definition countNonNull :: "nat list option \<Rightarrow> nat \<Rightarrow> int \<Rightarrow> int" where
  "countNonNull defLevels maxDef numValues =
     (case defLevels of None \<Rightarrow> numValues | Some ls \<Rightarrow> int (length (filter (\<lambda>l. l = maxDef) ls)))"

definition decodeValues :: "int \<Rightarrow> column_descriptor \<Rightarrow> byte list \<Rightarrow> int \<Rightarrow> column_value list option \<Rightarrow> js_error + column_value option list" where
  "decodeValues encoding d valueBytes nonNull dictionary =
     (if encoding = PLAIN then
        bindR (decodePlain (cd_physicalType d) valueBytes nonNull (cd_typeLength d)) (\<lambda>vs. Inr (map Some (elements vs)))
      else if encoding = RLE_DICTIONARY \<or> encoding = PLAIN_DICTIONARY then
        (case dictionary of
           None \<Rightarrow> Inl (ParquetError ''dictionary-encoded page before its dictionary page'')
         | Some dict \<Rightarrow> bindR (decodeDictionaryIndices valueBytes nonNull) (\<lambda>indices.
             Inr (map (\<lambda>idx. if idx < length dict then Some (dict ! idx) else None) indices)))
      else if encoding = RLE then
        bindR (readBytes 4 (new_reader valueBytes)) (\<lambda>(_, r).
        bindR (decodeRleHybrid 1 (nat nonNull) r) (\<lambda>(bits, r). Inr (map (\<lambda>b. Some (VBoolean (b \<noteq> 0))) bits)))
      else if encoding = DELTA_BINARY_PACKED then
        bindR (decodeDeltaBinaryPacked valueBytes (nat nonNull)) (\<lambda>nums.
          if cd_physicalType d = INT32 then Inr (map (\<lambda>v. Some (VNumber (sint (word_of_int v :: 32 word)))) nums)
          else Inr (map (\<lambda>v. Some (VBigInt (sint (word_of_int v :: 64 word)))) nums))
      else if encoding = DELTA_LENGTH_BYTE_ARRAY then
        bindR (decodeDeltaLengthByteArray valueBytes (nat nonNull)) (\<lambda>vs. Inr (map (\<lambda>v. Some (VBinary (Bytes v))) vs))
      else if encoding = DELTA_BYTE_ARRAY then
        bindR (decodeDeltaByteArray valueBytes (nat nonNull)) (\<lambda>vs. Inr (map (\<lambda>v. Some (VBinary (Bytes v))) vs))
      else if encoding = BYTE_STREAM_SPLIT then
        bindR (decodeByteStreamSplit valueBytes nonNull (cd_physicalType d) (cd_typeLength d))
          (\<lambda>vs. Inr (map Some (elements vs)))
      else Inl (ParquetError ''unsupported data page encoding''))"

subsection \<open>Dictionaries are faithful\<close>

text \<open>The entries a list of indices selects.\<close>

fun gather :: "column_values \<Rightarrow> nat list \<Rightarrow> column_values" where
  "gather (Booleans vs) is = Booleans (map (nth vs) is)"
| "gather (Int32s vs) is = Int32s (map (nth vs) is)"
| "gather (Int64s vs) is = Int64s (map (nth vs) is)"
| "gather (Int96s vs) is = Int96s (map (nth vs) is)"
| "gather (Floats vs) is = Floats (map (nth vs) is)"
| "gather (Doubles vs) is = Doubles (map (nth vs) is)"
| "gather (ByteArrays vs) is = ByteArrays (map (nth vs) is)"
| "gather (FixedArrays vs) is = FixedArrays (map (nth vs) is)"

definition dict_inv :: "('a \<Rightarrow> 'k) \<Rightarrow> 'a list \<Rightarrow> 'a list \<times> ('k \<rightharpoonup> nat) \<times> nat list \<Rightarrow> bool" where
  "dict_inv key vs = (\<lambda>(dictionary, indexByKey, indices).
     length dictionary \<le> length vs \<and> set dictionary \<subseteq> set vs \<and> (\<forall>k j. indexByKey k = Some j \<longrightarrow> j < length dictionary \<and> key (dictionary ! j) = k) \<and>
     list_all2 (\<lambda>i v. i < length dictionary \<and> key (dictionary ! i) = key v) indices vs)"

lemma dict_inv_step:
  assumes "dict_inv key vs s"
  shows "dict_inv key (vs @ [v]) (dict_step key s v)"
proof -
  obtain dictionary indexByKey indices where s: "s = (dictionary, indexByKey, indices)" by (cases s)
  have old: "list_all2 (\<lambda>i v. i < length dictionary \<and> key (dictionary ! i) = key v) indices vs"
    using assms by (simp add: dict_inv_def s)
  then have grown: "list_all2 (\<lambda>i v. i < Suc (length dictionary) \<and> key ((dictionary @ [x]) ! i) = key v) indices vs" for x
    by (rule list_all2_mono) (auto simp: nth_append)
  show ?thesis
  proof (cases "indexByKey (key v)")
    case None
    have "list_all2 (\<lambda>i v'. i < Suc (length dictionary) \<and> key ((dictionary @ [v]) ! i) = key v') (indices @ [length dictionary]) (vs @ [v])"
      by (rule list_all2_appendI [OF grown]) simp
    with None show ?thesis using assms by (auto simp: s dict_inv_def nth_append intro: less_SucI)
  next
    case (Some idx)
    then have "list_all2 (\<lambda>i v. i < length dictionary \<and> key (dictionary ! i) = key v) (indices @ [idx]) (vs @ [v])"
      using assms by (intro list_all2_appendI [OF old]) (simp add: s dict_inv_def)
    with Some show ?thesis using assms by (auto simp: s dict_inv_def)
  qed
qed

lemma dict_inv_fold: "dict_inv key vs (foldl (dict_step key) ([], Map.empty, []) vs)"
proof (induction vs rule: rev_induct)
  case Nil
  show ?case by (simp add: dict_inv_def)
next
  case (snoc v vs)
  then show ?case by (simp only: foldl_append foldl.simps dict_inv_step)
qed

lemma dictionary_of_faithful:
  assumes "dictionary_of key column vs = (dict, is)" "inj_on key (set vs)"
  shows "\<exists>ds. dict = column ds \<and> map (nth ds) is = vs \<and> (\<forall>i \<in> set is. i < length ds) \<and>
    length ds \<le> length vs \<and> set ds \<subseteq> set vs \<and> length is = length vs"
proof -
  obtain ds m js where f: "foldl (dict_step key) ([], Map.empty, []) vs = (ds, m, js)" by (metis prod_cases3)
  then have d: "dict = column ds" "js = is" using assms(1) by (simp_all add: dictionary_of_def)
  have inv: "length ds \<le> length vs" "set ds \<subseteq> set vs" "list_all2 (\<lambda>i v. i < length ds \<and> key (ds ! i) = key v) is vs"
    using dict_inv_fold [of key vs] by (simp_all add: f dict_inv_def d)
  have "list_all2 (\<lambda>i v. ds ! i = v) is vs"
    using inv(3) inv(2) assms(2)
    by (auto simp: list_all2_conv_all_nth inj_on_def subset_iff)
  then have "map (nth ds) is = vs"
    by (auto simp: list_all2_conv_all_nth intro!: nth_equalityI)
  moreover have "\<forall>i \<in> set is. i < length ds"
    using inv(3) by (auto simp: list_all2_conv_all_nth in_set_conv_nth)
  ultimately show ?thesis using d(1) inv list_all2_lengthD [OF inv(3)] by blast
qed

text \<open>Columns whose keys tell their values apart: no two different zeros or NaNs, and no mixture of strings
  and byte arrays.\<close>

fun keys_ok :: "column_values \<Rightarrow> bool" where
  "keys_ok (Floats vs) \<longleftrightarrow> inj_on float32_key (set vs)"
| "keys_ok (Doubles vs) \<longleftrightarrow> inj_on float64_key (set vs)"
| "keys_ok (ByteArrays vs) \<longleftrightarrow> inj_on binary_key (set vs)"
| "keys_ok (FixedArrays vs) \<longleftrightarrow> inj_on binary_key (set vs)"
| "keys_ok vs \<longleftrightarrow> True"

lemma bytes_key_inj: "inj bytes_key"
proof (rule injI)
  fix x y assume "bytes_key x = bytes_key y"
  then have "map (\<lambda>c. of_nat (unat c) :: code_unit) x = map (\<lambda>c. of_nat (unat c)) y" by (simp add: bytes_key_def)
  moreover have "inj (\<lambda>c :: byte. of_nat (unat c) :: code_unit)"
  proof (rule injI)
    fix a b :: byte
    assume "(of_nat (unat a) :: code_unit) = of_nat (unat b)"
    then have eq: "unat (of_nat (unat a) :: code_unit) = unat (of_nat (unat b) :: code_unit)" by (simp only:)
    have "unat a < 65536" "unat b < 65536" using unat_byte_less [of a] unat_byte_less [of b] by linarith+
    with eq have "unat a = unat b" by (simp only: unat_of_nat_unit)
    then show "a = b" by (rule unsigned_word_eqI)
  qed
  ultimately show "x = y" by (simp add: inj_map_eq_map)
qed

lemma binary_key_inj: "(\<forall>v \<in> set vs. \<exists>b. v = Bytes b) \<or> (\<forall>v \<in> set vs. \<exists>s. v = Str s) \<Longrightarrow> inj_on binary_key (set vs)"
proof (rule inj_onI)
  fix x y
  assume "(\<forall>v \<in> set vs. \<exists>b. v = Bytes b) \<or> (\<forall>v \<in> set vs. \<exists>s. v = Str s)" "x \<in> set vs" "y \<in> set vs" "binary_key x = binary_key y"
  then show "x = y" by (cases x; cases y) (auto simp: inj_eq [OF bytes_key_inj])
qed

lemma buildDictionary_faithful:
  assumes "keys_ok vs" "buildDictionary vs = (dict, is)"
  shows "gather dict is = vs \<and> physicalType dict = physicalType vs \<and> num_values dict \<le> num_values vs \<and>
    length is = num_values vs \<and> (\<forall>i \<in> set is. i < num_values dict) \<and> (plain_ok vs \<longrightarrow> plain_ok dict)"
proof (cases vs)
  case (Booleans xs)
  then have "dictionary_of (\<lambda>v. v) Booleans xs = (dict, is)" "inj_on (\<lambda>v. v) (set xs)" using assms by (simp_all)
  from dictionary_of_faithful [OF this] obtain ds where "dict = Booleans ds" "map (nth ds) is = xs" "\<forall>i \<in> set is. i < length ds"
    "length ds \<le> length xs" "set ds \<subseteq> set xs" "length is = length xs" by blast
  with Booleans show ?thesis by (simp)
next
  case (Int32s xs)
  then have "dictionary_of (\<lambda>v. v) Int32s xs = (dict, is)" "inj_on (\<lambda>v. v) (set xs)" using assms by (simp_all)
  from dictionary_of_faithful [OF this] obtain ds where "dict = Int32s ds" "map (nth ds) is = xs" "\<forall>i \<in> set is. i < length ds"
    "length ds \<le> length xs" "set ds \<subseteq> set xs" "length is = length xs" by blast
  with Int32s show ?thesis by (simp)
next
  case (Int64s xs)
  then have "dictionary_of (\<lambda>v. v) Int64s xs = (dict, is)" "inj_on (\<lambda>v. v) (set xs)" using assms by (simp_all)
  from dictionary_of_faithful [OF this] obtain ds where "dict = Int64s ds" "map (nth ds) is = xs" "\<forall>i \<in> set is. i < length ds"
    "length ds \<le> length xs" "set ds \<subseteq> set xs" "length is = length xs" by blast
  with Int64s show ?thesis by (simp)
next
  case (Int96s xs)
  then have "dictionary_of bytes_key Int96s xs = (dict, is)" "inj_on bytes_key (set xs)" using assms by (simp_all add: inj_on_subset [OF bytes_key_inj])
  from dictionary_of_faithful [OF this] obtain ds where "dict = Int96s ds" "map (nth ds) is = xs" "\<forall>i \<in> set is. i < length ds"
    "length ds \<le> length xs" "set ds \<subseteq> set xs" "length is = length xs" by blast
  with Int96s show ?thesis by (simp)
next
  case (Floats xs)
  then have "dictionary_of float32_key Floats xs = (dict, is)" "inj_on float32_key (set xs)" using assms by (simp_all)
  from dictionary_of_faithful [OF this] obtain ds where "dict = Floats ds" "map (nth ds) is = xs" "\<forall>i \<in> set is. i < length ds"
    "length ds \<le> length xs" "set ds \<subseteq> set xs" "length is = length xs" by blast
  with Floats show ?thesis by (simp)
next
  case (Doubles xs)
  then have "dictionary_of float64_key Doubles xs = (dict, is)" "inj_on float64_key (set xs)" using assms by (simp_all)
  from dictionary_of_faithful [OF this] obtain ds where "dict = Doubles ds" "map (nth ds) is = xs" "\<forall>i \<in> set is. i < length ds"
    "length ds \<le> length xs" "set ds \<subseteq> set xs" "length is = length xs" by blast
  with Doubles show ?thesis by (simp)
next
  case (ByteArrays xs)
  then have "dictionary_of binary_key ByteArrays xs = (dict, is)" "inj_on binary_key (set xs)" using assms by (simp_all)
  from dictionary_of_faithful [OF this] obtain ds where "dict = ByteArrays ds" "map (nth ds) is = xs" "\<forall>i \<in> set is. i < length ds"
    "length ds \<le> length xs" "set ds \<subseteq> set xs" "length is = length xs" by blast
  with ByteArrays show ?thesis by (simp add: list_all_iff subset_iff)
next
  case (FixedArrays xs)
  then have "dictionary_of binary_key FixedArrays xs = (dict, is)" "inj_on binary_key (set xs)" using assms by (simp_all)
  from dictionary_of_faithful [OF this] obtain ds where "dict = FixedArrays ds" "map (nth ds) is = xs" "\<forall>i \<in> set is. i < length ds"
    "length ds \<le> length xs" "set ds \<subseteq> set xs" "length is = length xs" by blast
  with FixedArrays show ?thesis by (simp add: list_all_iff subset_iff)
qed

lemma elements_gather:
  "\<forall>i \<in> set is. i < num_values dict \<Longrightarrow> elements (stored t (gather dict is)) = map (nth (elements (stored t dict))) is"
  by (cases dict) auto

lemma num_stored [simp]: "num_values (stored t vs) = num_values vs" "physicalType (stored t vs) = physicalType vs"
  by (cases vs; simp)+

subsection \<open>Value sections are read back\<close>

text \<open>What the chosen encoding asks of the values beyond \<open>plain_ok\<close>.\<close>

fun encoding_ok :: "string \<Rightarrow> column_values \<Rightarrow> bool" where
  "encoding_ok encoding (Int32s vs) \<longleftrightarrow> (encoding = ''delta'' \<longrightarrow> delta_ok vs)"
| "encoding_ok encoding (Int64s vs) \<longleftrightarrow> (encoding = ''delta'' \<longrightarrow> delta_ok vs)"
| "encoding_ok encoding (Booleans vs) \<longleftrightarrow> (encoding = ''rle'' \<longrightarrow> aligned (map (\<lambda>v. if v then 1 else 0) vs))"
| "encoding_ok encoding vs \<longleftrightarrow> True"

lemma toU8_binary: "is_binary v \<Longrightarrow> toU8 v = binary_bytes v"
  by (cases v) simp_all

lemma read_uint32 [simp]: "readBytes 4 (reader_at pre (uint32_le n @ rest)) = Inr (uint32_le n, reader_at (pre @ uint32_le n) rest)"
  using readBytes_at [of "uint32_le n" pre rest] by (simp add: uint32_le_def)

lemma rle_bool_codec:
  assumes "length vs < 2 ^ 30" "aligned (map (\<lambda>v. if v then 1 else 0) vs)"
  shows "\<exists>bs. encodeRleBool vs = Inr bs \<and> decodeValues RLE d bs (int (length vs)) dict = Inr (map (\<lambda>v. Some (VBoolean v)) vs)"
proof -
  let ?bits = "map (\<lambda>v. if v then 1 else 0) vs :: nat list"
  have "\<forall>v \<in> set ?bits. v < 2 ^ 1" by auto
  then obtain bs where "encodeRleHybrid ?bits 1 = Inr bs"
    "\<And>pre rest. decodeRleHybrid 1 (length ?bits) (reader_at pre (bs @ rest)) = Inr (?bits, reader_at (pre @ bs) rest)"
    using exact_levels [of 1 ?bits] assms by (auto simp del: set_map)
  from this(1) this(2) [of "uint32_le (length bs)" "[]"] show ?thesis
    by (simp add: encodeRleBool_def decodeValues_def encoding_defs new_reader_at comp_def)
qed

fun has_delta :: "column_values \<Rightarrow> bool" where
  "has_delta (Int32s vs) = True"
| "has_delta (Int64s vs) = True"
| "has_delta (ByteArrays vs) = True"
| "has_delta vs = False"

lemma delta_values_codec:
  assumes "plain_ok vs" "encoding_ok ''delta'' vs" "cd_physicalType d = physicalType vs" "has_delta vs"
  shows "\<exists>bs e. encodeValues ''delta'' (cd_typeLength d) vs = Inr (bs, e) \<and> int_range 32 e \<and>
    decodeValues e d bs (int (num_values vs)) dict = Inr (map Some (elements (stored (cd_typeLength d) vs)))"
proof (cases vs)
  case (Int32s xs)
  with assms delta_binary_codec [of xs "length xs"] show ?thesis
    by (simp add: encodeValues_def decodeValues_def encoding_defs int_range_def comp_def)
next
  case (Int64s xs)
  with assms delta_binary_codec [of xs "length xs"] show ?thesis
    by (simp add: encodeValues_def decodeValues_def encoding_defs int_range_def comp_def ptype_defs)
next
  case (ByteArrays xs)
  then have bin: "list_all is_binary xs" and len: "list_all (\<lambda>v. length (binary_bytes v) < 2 ^ 32) xs" "length xs < 2 ^ 32"
    using assms(1) by (simp_all add: list_all_iff)
  have eq: "map toU8 xs = map binary_bytes xs" using bin by (simp add: list_all_iff toU8_binary)
  have "\<forall>v \<in> set (map binary_bytes xs). length v < 2 ^ 63" using len by (fastforce simp: list_all_iff)
  with len(2) have "decodeDeltaByteArray (encodeDeltaByteArray (map binary_bytes xs)) (length (map binary_bytes xs)) = Inr (map binary_bytes xs)"
    by (intro delta_byte_array_codec) simp_all
  with ByteArrays eq show ?thesis
    by (simp add: encodeValues_def decodeValues_def encoding_defs int_range_def comp_def del: map_eq_conv)
qed (use assms(4) in simp_all)

lemma values_codec:
  assumes "plain_ok vs" "encoding_ok encoding vs" "cd_physicalType d = physicalType vs" "num_values vs < 2 ^ 30"
  shows "\<exists>bs e. encodeValues encoding (cd_typeLength d) vs = Inr (bs, e) \<and> int_range 32 e \<and>
    decodeValues e d bs (int (num_values vs)) dict = Inr (map Some (elements (stored (cd_typeLength d) vs)))"
proof -
  obtain bs where plain: "encodePlain vs (cd_typeLength d) = Inr bs"
    "decodePlain (cd_physicalType d) bs (int (num_values vs)) (cd_typeLength d) = Inr (stored (cd_typeLength d) vs)"
    using plain_codec [OF assms(1), of "cd_typeLength d" "[]"] assms(3) by auto
  then have plain': "decodeValues PLAIN d bs (int (num_values vs)) dict = Inr (map Some (elements (stored (cd_typeLength d) vs)))"
    "int_range 32 PLAIN"
    by (simp_all add: decodeValues_def int_range_def PLAIN_def)
  consider "encoding = ''delta''" "has_delta vs" | "encoding = ''byte-stream-split''" "physicalType vs = FLOAT \<or> physicalType vs = DOUBLE"
    | xs where "encoding = ''rle''" "vs = Booleans xs"
    | "encodeValues encoding (cd_typeLength d) vs = Inr (bs, PLAIN)"
  proof (cases "encoding = ''delta'' \<and> has_delta vs \<or> encoding = ''byte-stream-split'' \<and> (physicalType vs = FLOAT \<or> physicalType vs = DOUBLE)")
    case False
    with plain(1) that(4) that(3) show ?thesis
      by (cases "encoding = ''rle''"; cases vs) (auto simp: encodeValues_def Let_def)
  qed (use that(1,2) in auto)
  then show ?thesis
  proof cases
    case 1
    then show ?thesis using delta_values_codec [of vs d dict] assms by simp
  next
    case 2
    then have "split_ok vs" using assms(4) by (cases vs) (simp_all add: ptype_defs)
    from split_codec [OF this, of None] obtain cs where "encodeByteStreamSplit vs None = Inr cs"
      "decodeByteStreamSplit cs (int (num_values vs)) (physicalType vs) None = Inr (stored None vs)" by auto
    moreover have "elementWidth (physicalType vs) (cd_typeLength d) = elementWidth (physicalType vs) None"
      using 2(2) by (auto simp: elementWidth_def)
    moreover have "stored (cd_typeLength d) vs = stored None vs" using 2(2) by (cases vs) (simp_all add: ptype_defs)
    ultimately show ?thesis using 2 assms(3)
      by (auto simp: encodeValues_def decodeValues_def encoding_defs int_range_def decodeByteStreamSplit_def)
  next
    case (3 xs)
    with assms rle_bool_codec [of xs d dict] show ?thesis
      by (auto simp: encodeValues_def encoding_defs int_range_def comp_def)
  next
    case 4
    with plain' show ?thesis by auto
  qed
qed

text \<open>A dictionary page and its indices.\<close>

lemma dictionary_codec:
  assumes "plain_ok vs" "keys_ok vs" "buildDictionary vs = (dict, is)" "aligned is" "num_values vs < 2 ^ 30"
    and "cd_physicalType d = physicalType vs"
  shows "\<exists>body hybrid. encodePlain dict (cd_typeLength d) = Inr body \<and>
    encodeRleHybrid is (bitWidthForMax (num_values dict - 1)) = Inr hybrid \<and>
    decodePlain (cd_physicalType d) body (int (num_values dict)) (cd_typeLength d) = Inr (stored (cd_typeLength d) dict) \<and>
    decodeValues RLE_DICTIONARY d (of_nat (bitWidthForMax (num_values dict - 1)) # hybrid) (int (num_values vs))
      (Some (elements (stored (cd_typeLength d) dict))) = Inr (map Some (elements (stored (cd_typeLength d) vs)))"
proof -
  note f = buildDictionary_faithful [OF assms(2,3)]
  let ?w = "bitWidthForMax (num_values dict - 1)"
  have "num_values dict < 2 ^ 30" using f assms(5) le_less_trans by blast
  then have n: "num_values dict - 1 < 2 ^ 32" by simp
  have "\<forall>v \<in> set is. v < 2 ^ ?w" using f width_fits [OF n] by fastforce
  then obtain hybrid where h: "encodeRleHybrid is ?w = Inr hybrid"
    "decodeDictionaryIndices (of_nat ?w # hybrid) (int (length is)) = Inr is"
    using indices_codec [of ?w "is"] width_fits [OF n] assms(4,5) f by auto
  obtain body where b: "encodePlain dict (cd_typeLength d) = Inr body"
    "decodePlain (cd_physicalType d) body (int (num_values dict)) (cd_typeLength d) = Inr (stored (cd_typeLength d) dict)"
    using plain_codec [of dict "cd_typeLength d" "[]"] f assms(1,6) by auto
  have "map Some (elements (stored (cd_typeLength d) vs)) =
      map (\<lambda>idx. Some (elements (stored (cd_typeLength d) dict) ! idx)) is"
    using elements_gather [of "is" dict "cd_typeLength d"] f by simp
  also have "\<dots> = map (\<lambda>idx. if idx < num_values dict then Some (elements (stored (cd_typeLength d) dict) ! idx) else None) is"
    using f by (intro map_cong) auto
  finally show ?thesis using h b f by (simp add: decodeValues_def encoding_defs)
qed

text \<open>The two zeros share a key: a column that holds both is stored with one.\<close>

lemma dictionary_merges_zeros: "buildDictionary (Doubles [0, 0x8000000000000000]) = (Doubles [0], [0, 0])"
  by (simp add: dictionary_of_def float64_key_def)

end
