(* ===== verification/Parquet_Nested.thy ===== *)
theory Parquet_Nested
  imports Thrift_Io
begin

text \<open>
  \<open>data/parquet/nested.ts\<close>: nested columns as leaf streams with repetition and definition levels.

  A node is a leaf, a struct, a list or a map. The descriptor of a leaf is an object with an identity, the
  key of the \<open>Map\<close>s of streams and cursors: here a number. \<open>nd_encode\<close> is the leaf's \<open>encode\<close>. A value is
  \<open>undefined\<close>, \<open>null\<close>, an object with its properties in the order they are set (the last one of a name counts), an array, or a primitive.
\<close>

datatype 'v js_value = Undefined | Null | Prim 'v | Obj "(text_string \<times> 'v js_value) list" | Arr "'v js_value list"

datatype ('v, 'p) node =
    Leaf (nd_name: text_string) (nd_nullable: bool) (nd_defLevel: nat) (nd_repLevel: nat) (nd_descriptor: nat)
      (nd_encode: "'v js_value \<Rightarrow> 'p")
  | Struct (nd_name: text_string) (nd_nullable: bool) (nd_defLevel: nat) (nd_repLevel: nat) (nd_children: "('v, 'p) node list")
  | ListNode (nd_name: text_string) (nd_nullable: bool) (nd_defLevel: nat) (nd_repLevel: nat) (nd_child: "('v, 'p) node")
  | MapNode (nd_name: text_string) (nd_nullable: bool) (nd_defLevel: nat) (nd_repLevel: nat) (nd_child: "('v, 'p) node")

record 'p stream =
  st_values :: "'p list"
  st_defs :: "nat list"
  st_reps :: "nat list"

type_synonym 'p streams = "nat \<Rightarrow> 'p stream"

fun collectLeaves :: "('v, 'p) node \<Rightarrow> nat list" where
  "collectLeaves (Leaf n nl dl rl i enc) = [i]"
| "collectLeaves (Struct n nl dl rl cs) = concat (map collectLeaves cs)"
| "collectLeaves (ListNode n nl dl rl c) = collectLeaves c"
| "collectLeaves (MapNode n nl dl rl c) = collectLeaves c"

fun absent_value :: "'v js_value \<Rightarrow> bool" where
  "absent_value Undefined = True"
| "absent_value Null = True"
| "absent_value v = False"

fun property :: "'v js_value \<Rightarrow> text_string \<Rightarrow> 'v js_value" where
  "property (Obj ps) name = (case map_of (rev ps) name of None \<Rightarrow> Undefined | Some v \<Rightarrow> v)"
| "property v name = Undefined"

text \<open>\<open>obj[name] ?? null\<close>, and an element of an array that may be missing.\<close>

definition property_or_null :: "'v js_value \<Rightarrow> text_string \<Rightarrow> 'v js_value" where
  "property_or_null v name = (if absent_value (property v name) then Null else property v name)"

fun element :: "'v js_value \<Rightarrow> nat \<Rightarrow> 'v js_value" where
  "element (Arr xs) i = (if i < length xs then xs ! i else Undefined)"
| "element v i = Undefined"

subsection \<open>Shredding\<close>

definition push_slot :: "nat \<Rightarrow> nat \<Rightarrow> nat \<Rightarrow> 'p option \<Rightarrow> 'p streams \<Rightarrow> 'p streams" where
  "push_slot i repLevel defLevel v streams = streams(i := (streams i)
     \<lparr>st_reps := st_reps (streams i) @ [repLevel], st_defs := st_defs (streams i) @ [defLevel],
      st_values := st_values (streams i) @ (case v of None \<Rightarrow> [] | Some x \<Rightarrow> [x])\<rparr>)"

fun emitAbsent :: "('v, 'p) node \<Rightarrow> nat \<Rightarrow> nat \<Rightarrow> 'p streams \<Rightarrow> 'p streams" where
  "emitAbsent (Leaf n nl dl rl i enc) repLevel defLevel streams = push_slot i repLevel defLevel None streams"
| "emitAbsent (Struct n nl dl rl cs) repLevel defLevel streams = foldl (\<lambda>s c. emitAbsent c repLevel defLevel s) streams cs"
| "emitAbsent (ListNode n nl dl rl c) repLevel defLevel streams = emitAbsent c repLevel defLevel streams"
| "emitAbsent (MapNode n nl dl rl c) repLevel defLevel streams = emitAbsent c repLevel defLevel streams"

definition key_name :: text_string where "key_name = [107, 101, 121]"
definition value_name :: text_string where "value_name = [118, 97, 108, 117, 101]"

definition entry_object :: "'v js_value \<Rightarrow> 'v js_value" where
  "entry_object e = Obj [(key_name, element e 0), (value_name, element e 1)]"

text \<open>The elements of a list, each with the repetition level of its first slot.\<close>

fun with_levels :: "nat \<Rightarrow> nat \<Rightarrow> 'a list \<Rightarrow> ('a \<times> nat) list" where
  "with_levels repLevel nodeLevel [] = []"
| "with_levels repLevel nodeLevel (x # xs) = (x, repLevel) # map (\<lambda>y. (y, nodeLevel)) xs"

fun shredValue :: "('v, 'p) node \<Rightarrow> 'v js_value \<Rightarrow> nat \<Rightarrow> nat \<Rightarrow> 'p streams \<Rightarrow> 'p streams" where
  "shredValue (Leaf n nl dl rl i enc) v repLevel defLevel streams =
     (if absent_value v then push_slot i repLevel defLevel None streams
      else push_slot i repLevel dl (Some (enc v)) streams)"
| "shredValue (Struct n nl dl rl cs) v repLevel defLevel streams =
     (if absent_value v then emitAbsent (Struct n nl dl rl cs) repLevel defLevel streams
      else foldl (\<lambda>s c. shredValue c (property_or_null v (nd_name c)) repLevel dl s) streams cs)"
| "shredValue (ListNode n nl dl rl c) v repLevel defLevel streams =
     (if absent_value v then emitAbsent (ListNode n nl dl rl c) repLevel defLevel streams
      else case v of
        Arr xs \<Rightarrow> if xs = [] then emitAbsent c repLevel dl streams
          else foldl (\<lambda>s (x, r). shredValue c x r (dl + 1) s) streams (with_levels repLevel rl xs)
      | _ \<Rightarrow> streams)"
| "shredValue (MapNode n nl dl rl c) v repLevel defLevel streams =
     (if absent_value v then emitAbsent (MapNode n nl dl rl c) repLevel defLevel streams
      else case v of
        Arr xs \<Rightarrow> if xs = [] then emitAbsent c repLevel dl streams
          else foldl (\<lambda>s (x, r). shredValue c (entry_object x) r (dl + 1) s) streams (with_levels repLevel rl xs)
      | _ \<Rightarrow> streams)"

definition no_streams :: "'p streams" where
  "no_streams = (\<lambda>_. \<lparr>st_values = [], st_defs = [], st_reps = []\<rparr>)"

definition shredColumn :: "('v, 'p) node \<Rightarrow> 'v js_value list \<Rightarrow> 'p stream list" where
  "shredColumn node rows =
     map (foldl (\<lambda>s v. shredValue node v 0 0 s) no_streams rows) (collectLeaves node)"

subsection \<open>Assembly\<close>

record 'p cursor =
  cu_values :: "'p list"
  cu_defLevels :: "nat list"
  cu_repLevels :: "nat list"
  cu_vi :: nat
  cu_li :: nat

type_synonym 'p cursors = "nat \<Rightarrow> 'p cursor"

fun firstLeaf :: "('v, 'p) node \<Rightarrow> nat option" where
  "firstLeaf (Leaf n nl dl rl i enc) = Some i"
| "firstLeaf (Struct n nl dl rl cs) = (case cs of [] \<Rightarrow> None | c # _ \<Rightarrow> firstLeaf c)"
| "firstLeaf (ListNode n nl dl rl c) = firstLeaf c"
| "firstLeaf (MapNode n nl dl rl c) = firstLeaf c"

definition level_at :: "nat list \<Rightarrow> nat \<Rightarrow> nat" where
  "level_at ls i = (if i < length ls then ls ! i else 0)"

definition peekDef :: "nat \<Rightarrow> 'p cursors \<Rightarrow> nat" where
  "peekDef i cursors = level_at (cu_defLevels (cursors i)) (cu_li (cursors i))"

definition peekRep :: "nat \<Rightarrow> 'p cursors \<Rightarrow> nat" where
  "peekRep i cursors = level_at (cu_repLevels (cursors i)) (cu_li (cursors i))"

definition advance_level :: "nat \<Rightarrow> 'p cursors \<Rightarrow> 'p cursors" where
  "advance_level i cursors = cursors(i := (cursors i)\<lparr>cu_li := cu_li (cursors i) + 1\<rparr>)"

fun consumeAbsent :: "('v, 'p) node \<Rightarrow> 'p cursors \<Rightarrow> 'p cursors" where
  "consumeAbsent (Leaf n nl dl rl i enc) cursors = advance_level i cursors"
| "consumeAbsent (Struct n nl dl rl cs) cursors = foldl (\<lambda>s c. consumeAbsent c s) cursors cs"
| "consumeAbsent (ListNode n nl dl rl c) cursors = consumeAbsent c cursors"
| "consumeAbsent (MapNode n nl dl rl c) cursors = consumeAbsent c cursors"

definition read_leaf :: "nat \<Rightarrow> nat \<Rightarrow> 'p cursors \<Rightarrow> 'p js_value \<times> 'p cursors" where
  "read_leaf i dl cursors =
     (let cur = cursors i; present = cu_li cur < length (cu_defLevels cur) \<and> dl \<le> cu_defLevels cur ! cu_li cur in
      if present then
        (if cu_vi cur < length (cu_values cur) then Prim (cu_values cur ! cu_vi cur) else Undefined,
         cursors(i := cur\<lparr>cu_li := cu_li cur + 1, cu_vi := cu_vi cur + 1\<rparr>))
      else (Null, advance_level i cursors))"

text \<open>The items of a list from the second on: while the next slot repeats at the level of the list.\<close>

fun items_loop :: "nat \<Rightarrow> ('p cursors \<Rightarrow> js_error + 'p js_value \<times> 'p cursors) \<Rightarrow> nat \<Rightarrow> nat \<Rightarrow> 'p cursors \<Rightarrow>
    js_error + 'p js_value list \<times> 'p cursors" where
  "items_loop 0 item i rl cursors = (if peekRep i cursors \<ge> rl then Inl OutOfFuel else Inr ([], cursors))"
| "items_loop (Suc k) item i rl cursors =
     (if peekRep i cursors \<ge> rl then
        bindR (item cursors) (\<lambda>(x, cursors). bindR (items_loop k item i rl cursors) (\<lambda>(xs, cursors). Inr (x # xs, cursors)))
      else Inr ([], cursors))"

fun children_loop :: "('c \<Rightarrow> text_string) \<Rightarrow> ('c \<Rightarrow> 'p cursors \<Rightarrow> js_error + 'p js_value \<times> 'p cursors) \<Rightarrow> 'c list \<Rightarrow> 'p cursors \<Rightarrow>
    js_error + (text_string \<times> 'p js_value) list \<times> 'p cursors" where
  "children_loop name child [] cursors = Inr ([], cursors)"
| "children_loop name child (c # cs) cursors =
     bindR (child c cursors) (\<lambda>(x, cursors). bindR (children_loop name child cs cursors)
       (\<lambda>(xs, cursors). Inr ((name c, x) # xs, cursors)))"

lemma children_loop_cong [fundef_cong]:
  assumes "cs = cs'" "cursors = cursors'" "name = name'" "\<And>c s. c \<in> set cs' \<Longrightarrow> child c s = child' c s"
  shows "children_loop name child cs cursors = children_loop name' child' cs' cursors'"
  unfolding assms(1-3) using assms(4)
proof (induction cs' arbitrary: cursors')
  case (Cons c cs')
  then show ?case by (auto intro: bindR_cong split: prod.splits)
qed simp

text \<open>\<open>{key, value}\<close> of an assembled entry, as a pair; a property of \<open>null\<close> or \<open>undefined\<close> throws.\<close>

definition entry_pair :: "'p js_value \<Rightarrow> js_error + 'p js_value" where
  "entry_pair e = (if absent_value e then Inl UndefinedProperty else Inr (Arr [property e key_name, property e value_name]))"

fun assembleValue :: "nat \<Rightarrow> ('v, 'p) node \<Rightarrow> 'p cursors \<Rightarrow> js_error + 'p js_value \<times> 'p cursors" where
  "assembleValue k (Leaf n nl dl rl i enc) cursors = Inr (read_leaf i dl cursors)"
| "assembleValue k (Struct n nl dl rl cs) cursors =
     (case firstLeaf (Struct n nl dl rl cs) of
        None \<Rightarrow> Inl UndefinedProperty
      | Some f \<Rightarrow>
          if peekDef f cursors < dl then Inr (Null, consumeAbsent (Struct n nl dl rl cs) cursors)
          else bindR (children_loop nd_name (assembleValue k) cs cursors) (\<lambda>(ps, cursors). Inr (Obj ps, cursors)))"
| "assembleValue k (ListNode n nl dl rl c) cursors =
     (case firstLeaf c of
        None \<Rightarrow> Inl UndefinedProperty
      | Some f \<Rightarrow>
          if peekDef f cursors < dl then Inr (Null, consumeAbsent (ListNode n nl dl rl c) cursors)
          else if peekDef f cursors = dl then Inr (Arr [], consumeAbsent c cursors)
          else bindR (assembleValue k c cursors) (\<lambda>(x, cursors).
            bindR (items_loop k (assembleValue k c) f rl cursors) (\<lambda>(xs, cursors). Inr (Arr (x # xs), cursors))))"
| "assembleValue k (MapNode n nl dl rl c) cursors =
     (case firstLeaf c of
        None \<Rightarrow> Inl UndefinedProperty
      | Some f \<Rightarrow>
          if peekDef f cursors < dl then Inr (Null, consumeAbsent (MapNode n nl dl rl c) cursors)
          else if peekDef f cursors = dl then Inr (Arr [], consumeAbsent c cursors)
          else
            let entry = (\<lambda>cursors. bindR (assembleValue k c cursors) (\<lambda>(e, cursors). bindR (entry_pair e) (\<lambda>p. Inr (p, cursors)))) in
            bindR (entry cursors) (\<lambda>(x, cursors).
            bindR (items_loop k entry f rl cursors) (\<lambda>(xs, cursors). Inr (Arr (x # xs), cursors))))"

fun rows_loop :: "nat \<Rightarrow> ('v, 'p) node \<Rightarrow> nat \<Rightarrow> 'p cursors \<Rightarrow> js_error + 'p js_value list" where
  "rows_loop k node 0 cursors = Inr []"
| "rows_loop k node (Suc n) cursors =
     bindR (assembleValue k node cursors) (\<lambda>(v, cursors). bindR (rows_loop k node n cursors) (\<lambda>vs. Inr (v # vs)))"

definition open_cursors :: "nat list \<Rightarrow> 'p stream list \<Rightarrow> 'p cursors" where
  "open_cursors leaves streams = foldl (\<lambda>m (i, s). m(i := \<lparr>cu_values = st_values s, cu_defLevels = st_defs s,
       cu_repLevels = st_reps s, cu_vi = 0, cu_li = 0\<rparr>))
     (\<lambda>_. \<lparr>cu_values = [], cu_defLevels = [], cu_repLevels = [], cu_vi = 0, cu_li = 0\<rparr>) (zip leaves streams)"

definition assembleRows :: "nat \<Rightarrow> ('v, 'p) node \<Rightarrow> 'p stream list \<Rightarrow> nat \<Rightarrow> js_error + 'p js_value list" where
  "assembleRows k node streams numRows =
     (if length streams < length (collectLeaves node) then Inl UndefinedProperty
      else rows_loop k node numRows (open_cursors (collectLeaves node) streams))"

subsection \<open>Slots\<close>

text \<open>What shredding a value appends to the stream of each leaf: slots of a repetition level, a definition
  level and perhaps a value.\<close>

type_synonym 'p slot = "nat \<times> nat \<times> 'p option"

definition slot_value :: "'p slot \<Rightarrow> 'p list" where
  "slot_value s = (case snd (snd s) of None \<Rightarrow> [] | Some x \<Rightarrow> [x])"

definition append_slots :: "'p stream \<Rightarrow> 'p slot list \<Rightarrow> 'p stream" where
  "append_slots st ss = st\<lparr>st_reps := st_reps st @ map fst ss, st_defs := st_defs st @ map (fst \<circ> snd) ss,
     st_values := st_values st @ concat (map slot_value ss)\<rparr>"

fun absent_slots :: "('v, 'p) node \<Rightarrow> nat \<Rightarrow> nat \<Rightarrow> nat \<Rightarrow> 'p slot list" where
  "absent_slots (Leaf n nl dl rl i enc) r d j = (if j = i then [(r, d, None)] else [])"
| "absent_slots (Struct n nl dl rl cs) r d j = concat (map (\<lambda>c. absent_slots c r d j) cs)"
| "absent_slots (ListNode n nl dl rl c) r d j = absent_slots c r d j"
| "absent_slots (MapNode n nl dl rl c) r d j = absent_slots c r d j"

fun slots :: "('v, 'p) node \<Rightarrow> 'v js_value \<Rightarrow> nat \<Rightarrow> nat \<Rightarrow> nat \<Rightarrow> 'p slot list" where
  "slots (Leaf n nl dl rl i enc) v r d j =
     (if j = i then [if absent_value v then (r, d, None) else (r, dl, Some (enc v))] else [])"
| "slots (Struct n nl dl rl cs) v r d j =
     (if absent_value v then absent_slots (Struct n nl dl rl cs) r d j
      else concat (map (\<lambda>c. slots c (property_or_null v (nd_name c)) r dl j) cs))"
| "slots (ListNode n nl dl rl c) v r d j =
     (if absent_value v then absent_slots (ListNode n nl dl rl c) r d j
      else case v of
        Arr xs \<Rightarrow> if xs = [] then absent_slots c r dl j
          else concat (map (\<lambda>(x, r). slots c x r (dl + 1) j) (with_levels r rl xs))
      | _ \<Rightarrow> [])"
| "slots (MapNode n nl dl rl c) v r d j =
     (if absent_value v then absent_slots (MapNode n nl dl rl c) r d j
      else case v of
        Arr xs \<Rightarrow> if xs = [] then absent_slots c r dl j
          else concat (map (\<lambda>(x, r). slots c (entry_object x) r (dl + 1) j) (with_levels r rl xs))
      | _ \<Rightarrow> [])"

lemma append_slots_Nil [simp]: "append_slots st [] = st"
  by (simp add: append_slots_def)

lemma append_slots_append: "append_slots st (a @ b) = append_slots (append_slots st a) b"
  by (simp add: append_slots_def)

lemma push_slot_append: "push_slot i r d v streams = (\<lambda>j. append_slots (streams j) (if j = i then [(r, d, v)] else []))"
  by (auto simp: push_slot_def append_slots_def slot_value_def)

lemma foldl_append_slots:
  assumes "\<And>x s. x \<in> set xs \<Longrightarrow> f s x = (\<lambda>j. append_slots (s j) (g x j))"
  shows "foldl f streams xs = (\<lambda>j. append_slots (streams j) (concat (map (\<lambda>x. g x j) xs)))"
  using assms by (induction xs arbitrary: streams) (auto simp: append_slots_append)

lemma emitAbsent_slots: "emitAbsent node r d streams = (\<lambda>j. append_slots (streams j) (absent_slots node r d j))"
proof (induction node arbitrary: streams)
  case (Struct n nl dl rl cs)
  then show ?case by (auto intro!: foldl_append_slots)
qed (simp_all add: push_slot_append)

lemma shredValue_slots: "shredValue node v r d streams = (\<lambda>j. append_slots (streams j) (slots node v r d j))"
proof (induction node arbitrary: v r d streams)
  case (Leaf n nl dl rl i enc)
  then show ?case by (auto simp: push_slot_append)
next
  case (Struct n nl dl rl cs)
  have "foldl (\<lambda>s c. shredValue c (property_or_null v (nd_name c)) r dl s) streams cs =
      (\<lambda>j. append_slots (streams j) (concat (map (\<lambda>c. slots c (property_or_null v (nd_name c)) r dl j) cs)))"
    using Struct by (intro foldl_append_slots) auto
  then show ?case by (auto simp: emitAbsent_slots)
next
  case (ListNode n nl dl rl c)
  have "foldl (\<lambda>s (x, r). shredValue c x r (dl + 1) s) streams ps =
      (\<lambda>j. append_slots (streams j) (concat (map (\<lambda>p. (case p of (x, r) \<Rightarrow> slots c x r (dl + 1) j)) ps)))" for ps
    using ListNode by (intro foldl_append_slots) (auto split: prod.split)
  then show ?case by (auto simp: emitAbsent_slots split: js_value.split)
next
  case (MapNode n nl dl rl c)
  have "foldl (\<lambda>s (x, r). shredValue c (entry_object x) r (dl + 1) s) streams ps =
      (\<lambda>j. append_slots (streams j) (concat (map (\<lambda>p. (case p of (x, r) \<Rightarrow> slots c (entry_object x) r (dl + 1) j)) ps)))" for ps
    using MapNode by (intro foldl_append_slots) (auto split: prod.split)
  then show ?case by (auto simp: emitAbsent_slots split: js_value.split)
qed

subsection \<open>Well-formed nodes and values\<close>

text \<open>The levels \<open>buildNode\<close> computes below a parent of repetition level \<open>R\<close> and definition level \<open>D\<close>, in a tree
  whose structs have children of different names.\<close>

fun node_ok :: "nat \<Rightarrow> nat \<Rightarrow> ('v, 'p) node \<Rightarrow> bool" where
  "node_ok R D (Leaf n nl dl rl i enc) \<longleftrightarrow> dl = D + of_bool nl \<and> rl = R"
| "node_ok R D (Struct n nl dl rl cs) \<longleftrightarrow> dl = D + of_bool nl \<and> rl = R \<and> cs \<noteq> [] \<and> distinct (map nd_name cs) \<and>
     (\<forall>c \<in> set cs. node_ok R dl c)"
| "node_ok R D (ListNode n nl dl rl c) \<longleftrightarrow> dl = D + of_bool nl \<and> rl = R + 1 \<and> node_ok (R + 1) (dl + 1) c"
| "node_ok R D (MapNode n nl dl rl c) \<longleftrightarrow> dl = D + of_bool nl \<and> rl = R + 1 \<and> node_ok (R + 1) (dl + 1) c \<and>
     (\<exists>m ks. c = Struct m False (dl + 1) (R + 1) ks \<and> nd_name ` set ks = {key_name, value_name})"

fun value_ok :: "('v, 'p) node \<Rightarrow> 'v js_value \<Rightarrow> bool" where
  "value_ok (Leaf n nl dl rl i enc) v \<longleftrightarrow> (absent_value v \<longrightarrow> nl)"
| "value_ok (Struct n nl dl rl cs) v \<longleftrightarrow>
     (if absent_value v then nl else \<forall>c \<in> set cs. value_ok c (property_or_null v (nd_name c)))"
| "value_ok (ListNode n nl dl rl c) v \<longleftrightarrow>
     (if absent_value v then nl else case v of Arr xs \<Rightarrow> (\<forall>x \<in> set xs. value_ok c x) | _ \<Rightarrow> False)"
| "value_ok (MapNode n nl dl rl c) v \<longleftrightarrow>
     (if absent_value v then nl else case v of Arr xs \<Rightarrow> (\<forall>x \<in> set xs. value_ok c (entry_object x)) | _ \<Rightarrow> False)"

text \<open>The value that is read back: every leaf encoded, \<open>undefined\<close> as \<open>null\<close>, objects with the properties of
  the struct only.\<close>

fun physical :: "('v, 'p) node \<Rightarrow> 'v js_value \<Rightarrow> 'p js_value" where
  "physical (Leaf n nl dl rl i enc) v = (if absent_value v then Null else Prim (enc v))"
| "physical (Struct n nl dl rl cs) v =
     (if absent_value v then Null else Obj (map (\<lambda>c. (nd_name c, physical c (property_or_null v (nd_name c)))) cs))"
| "physical (ListNode n nl dl rl c) v =
     (if absent_value v then Null else case v of Arr xs \<Rightarrow> Arr (map (physical c) xs) | _ \<Rightarrow> Null)"
| "physical (MapNode n nl dl rl c) v =
     (if absent_value v then Null else case v of
        Arr xs \<Rightarrow> Arr (map (\<lambda>x. Arr [property (physical c (entry_object x)) key_name, property (physical c (entry_object x)) value_name]) xs)
      | _ \<Rightarrow> Null)"

lemma absent_other: "j \<notin> set (collectLeaves node) \<Longrightarrow> absent_slots node r d j = []"
  by (induction node) auto

lemma slots_other: "j \<notin> set (collectLeaves node) \<Longrightarrow> slots node v r d j = []"
proof (induction node arbitrary: v r d)
  case (ListNode n nl dl rl c)
  then show ?case by (auto simp: absent_other split: js_value.split)
next
  case (MapNode n nl dl rl c)
  then show ?case by (auto simp: absent_other split: js_value.split)
qed (auto simp: absent_other)

lemma concat_single:
  assumes "c \<in> set cs" "distinct (concat (map f cs))" "j \<in> set (f c)" "\<And>c'. c' \<in> set cs \<Longrightarrow> j \<notin> set (f c') \<Longrightarrow> g c' = []"
  shows "concat (map g cs) = g c"
  using assms
proof (induction cs)
  case (Cons b cs)
  show ?case
  proof (cases "c = b")
    case True
    then have "\<forall>c' \<in> set cs. j \<notin> set (f c')" using Cons.prems by auto
    then have "concat (map g cs) = []" using Cons.prems(4) by simp
    then show ?thesis by (simp add: True)
  next
    case False
    then have c: "c \<in> set cs" using Cons.prems(1) by simp
    then have "j \<notin> set (f b)" using Cons.prems(2,3) by auto
    then show ?thesis using Cons.IH [OF c] Cons.prems by simp
  qed
qed simp

lemma absent_slots_leaf:
  "distinct (collectLeaves node) \<Longrightarrow> j \<in> set (collectLeaves node) \<Longrightarrow> absent_slots node r d j = [(r, d, None)]"
proof (induction node)
  case (Struct n nl dl rl cs)
  then obtain c where c: "c \<in> set cs" "j \<in> set (collectLeaves c)" by auto
  have "concat (map (\<lambda>c. absent_slots c r d j) cs) = absent_slots c r d j"
    using Struct.prems c by (intro concat_single [where f = collectLeaves]) (auto simp: absent_other)
  moreover have "distinct (collectLeaves c)" using Struct.prems(1) c(1) by (auto simp: distinct_concat_iff)
  ultimately show ?case using Struct.IH [OF c(1)] c(2) by simp
qed simp_all

lemma distinct_child: "distinct (concat (map f cs)) \<Longrightarrow> c \<in> set cs \<Longrightarrow> distinct (f c)"
  by (induction cs) auto

lemma struct_slots:
  assumes "distinct (collectLeaves (Struct n nl dl rl cs))" "c \<in> set cs" "j \<in> set (collectLeaves c)" "\<not> absent_value v"
  shows "slots (Struct n nl dl rl cs) v r d j = slots c (property_or_null v (nd_name c)) r dl j"
  using concat_single [of c cs collectLeaves j "\<lambda>c. slots c (property_or_null v (nd_name c)) r dl j"] assms
  by (simp add: slots_other)

text \<open>A map is a list of entry objects.\<close>

fun as_entries :: "'v js_value \<Rightarrow> 'v js_value" where
  "as_entries (Arr xs) = Arr (map entry_object xs)"
| "as_entries v = v"

lemma with_levels_map: "with_levels r rl (map f xs) = map (\<lambda>(x, r). (f x, r)) (with_levels r rl xs)"
  by (cases xs) simp_all

lemma map_as_list:
  "slots (MapNode n nl dl rl c) v r d j = slots (ListNode n nl dl rl c) (as_entries v) r d j"
  "value_ok (MapNode n nl dl rl c) v = value_ok (ListNode n nl dl rl c) (as_entries v)"
  "absent_value (as_entries v) = absent_value v"
  by (cases v; simp add: with_levels_map comp_def split_def)+

text \<open>The first slot of a value starts at the given level and tells whether the value is there.\<close>

definition starts :: "('v, 'p) node \<Rightarrow> 'v js_value \<Rightarrow> nat \<Rightarrow> nat \<Rightarrow> nat \<Rightarrow> bool" where
  "starts node v r D j \<longleftrightarrow> (\<exists>d x ss. slots node v r D j = (r, d, x) # ss \<and> (if absent_value v then d = D else nd_defLevel node \<le> d))"

lemma list_starts:
  assumes "\<And>x. value_ok c x \<Longrightarrow> starts c x r (dl + 1) j" "node_ok (R + 1) (dl + 1) c" "distinct (collectLeaves c)"
    "value_ok (ListNode n nl dl rl c) v" "j \<in> set (collectLeaves c)"
  shows "starts (ListNode n nl dl rl c) v r D j"
proof (cases "absent_value v")
  case True
  then show ?thesis using absent_slots_leaf [OF assms(3,5), of r D] by (simp add: starts_def)
next
  case False
  then obtain xs where v: "v = Arr xs" "\<forall>x \<in> set xs. value_ok c x" using assms(4) by (cases v) auto
  show ?thesis
  proof (cases xs)
    case Nil
    then show ?thesis using absent_slots_leaf [OF assms(3,5), of r dl] v by (simp add: starts_def)
  next
    case (Cons x xs')
    then have "starts c x r (dl + 1) j" using assms(1) v by simp
    moreover have "dl + 1 \<le> nd_defLevel c" using assms(2) by (cases c) auto
    ultimately show ?thesis using v Cons by (auto simp: starts_def split: if_splits)
  qed
qed

lemma slots_first:
  assumes "node_ok R D node" "distinct (collectLeaves node)" "value_ok node v" "j \<in> set (collectLeaves node)"
  shows "starts node v r D j"
  using assms
proof (induction node arbitrary: R D v r)
  case (Struct n nl dl rl cs)
  show ?case
  proof (cases "absent_value v")
    case True
    then show ?thesis using absent_slots_leaf [OF Struct.prems(2,4), of r D] by (simp add: starts_def)
  next
    case False
    obtain c where c: "c \<in> set cs" "j \<in> set (collectLeaves c)" using Struct.prems(4) by auto
    have "distinct (collectLeaves c)" using Struct.prems(2) c(1) distinct_child [of collectLeaves cs c] by simp
    then have "starts c (property_or_null v (nd_name c)) r dl j"
      using Struct.IH [OF c(1), of R dl "property_or_null v (nd_name c)" r] Struct.prems False c by auto
    moreover have "dl \<le> nd_defLevel c" using Struct.prems(1) c(1) by (cases c) auto
    ultimately show ?thesis using struct_slots [OF Struct.prems(2) c False] False by (auto simp: starts_def split: if_splits)
  qed
next
  case (ListNode n nl dl rl c)
  from ListNode.prems show ?case by (intro list_starts [where R = R] ListNode.IH [of "R + 1"]) auto
next
  case (MapNode n nl dl rl c)
  from MapNode.prems have "starts (ListNode n nl dl rl c) (as_entries v) r D j"
    by (intro list_starts [where R = R] MapNode.IH [of "R + 1"]) (auto simp add: map_as_list(2) simp del: value_ok.simps)
  then show ?case by (simp only: starts_def map_as_list(1,3) node.sel)
qed (simp add: starts_def)

subsection \<open>Cursors\<close>

text \<open>A cursor that stands before the given slots.\<close>

definition cursor_at :: "'p cursor \<Rightarrow> 'p slot list \<Rightarrow> bool" where
  "cursor_at cur ss \<longleftrightarrow> drop (cu_li cur) (cu_repLevels cur) = map fst ss \<and> drop (cu_li cur) (cu_defLevels cur) = map (fst \<circ> snd) ss \<and>
     drop (cu_vi cur) (cu_values cur) = concat (map slot_value ss)"

fun next_rep :: "'p slot list \<Rightarrow> nat" where
  "next_rep [] = 0"
| "next_rep (s # ss) = fst s"

lemma drop_Cons_nth: "drop n xs = y # ys \<Longrightarrow> n < length xs \<and> xs ! n = y \<and> drop (Suc n) xs = ys"
  by (metis drop_Suc drop_eq_Nil2 list.distinct(1) list.sel(3) not_le nth_via_drop tl_drop)

lemma drop_Nil_length: "drop n xs = [] \<Longrightarrow> \<not> n < length xs"
  by simp

lemma peeks:
  "cursor_at (cursors i) ss \<Longrightarrow> peekRep i cursors = next_rep ss"
  "cursor_at (cursors i) ((r, d, x) # ss) \<Longrightarrow> peekDef i cursors = d"
  by (cases ss; auto simp: cursor_at_def peekRep_def level_at_def dest!: drop_Cons_nth)
     (auto simp: cursor_at_def peekDef_def level_at_def dest!: drop_Cons_nth)

lemma read_leaf_present:
  assumes "cursor_at (cursors i) ((r, d, Some p) # ss)" "dl \<le> d"
  shows "\<exists>cur. read_leaf i dl cursors = (Prim p, cursors(i := cur)) \<and> cursor_at cur ss"
proof -
  have "drop (cu_vi (cursors i)) (cu_values (cursors i)) = p # concat (map slot_value ss)"
    "drop (cu_li (cursors i)) (cu_defLevels (cursors i)) = d # map (fst \<circ> snd) ss"
    "drop (cu_li (cursors i)) (cu_repLevels (cursors i)) = r # map fst ss"
    using assms(1) by (simp_all add: cursor_at_def slot_value_def)
  from this [THEN drop_Cons_nth] assms(2) show ?thesis
    by (auto simp: read_leaf_def Let_def cursor_at_def)
qed

lemma cursor_advance:
  assumes "cursor_at cur ((r, d, None) # ss)"
  shows "cursor_at (cur\<lparr>cu_li := cu_li cur + 1\<rparr>) ss"
proof -
  have "drop (cu_li cur) (cu_defLevels cur) = d # map (fst \<circ> snd) ss" "drop (cu_li cur) (cu_repLevels cur) = r # map fst ss"
    using assms by (simp_all add: cursor_at_def)
  from this [THEN drop_Cons_nth] assms show ?thesis by (simp add: cursor_at_def slot_value_def)
qed

lemma read_leaf_absent:
  assumes "cursor_at (cursors i) ((r, d, None) # ss)" "d < dl"
  shows "\<exists>cur. read_leaf i dl cursors = (Null, cursors(i := cur)) \<and> cursor_at cur ss"
proof -
  have "drop (cu_li (cursors i)) (cu_defLevels (cursors i)) = d # map (fst \<circ> snd) ss"
    using assms(1) by (simp add: cursor_at_def)
  from this [THEN drop_Cons_nth] assms cursor_advance [OF assms(1)] show ?thesis
    by (auto simp: read_leaf_def advance_level_def Let_def)
qed

lemma consumeAbsent_cursors:
  assumes "distinct (collectLeaves node)"
  shows "consumeAbsent node cursors = (\<lambda>i. if i \<in> set (collectLeaves node) then (cursors i)\<lparr>cu_li := cu_li (cursors i) + 1\<rparr> else cursors i)"
  using assms
proof (induction node arbitrary: cursors)
  case (Struct n nl dl rl cs)
  then have "foldl (\<lambda>s c. consumeAbsent c s) cursors cs =
      (\<lambda>i. if i \<in> set (concat (map collectLeaves cs)) then (cursors i)\<lparr>cu_li := cu_li (cursors i) + 1\<rparr> else cursors i)"
  proof (induction cs arbitrary: cursors)
    case (Cons c cs)
    have "consumeAbsent c cursors = (\<lambda>i. if i \<in> set (collectLeaves c) then (cursors i)\<lparr>cu_li := cu_li (cursors i) + 1\<rparr> else cursors i)"
      using Cons.prems by (intro Cons.prems(1)) auto
    moreover have "foldl (\<lambda>s c. consumeAbsent c s) cursors' cs =
        (\<lambda>i. if i \<in> set (concat (map collectLeaves cs)) then (cursors' i)\<lparr>cu_li := cu_li (cursors' i) + 1\<rparr> else cursors' i)" for cursors'
      using Cons.prems by (intro Cons.IH) auto
    ultimately show ?case using Cons.prems(2) by (auto simp: fun_eq_iff)
  qed simp
  then show ?case by simp
qed (auto simp: advance_level_def)

subsection \<open>Assembly inverts shredding\<close>

text \<open>Reading one value: from cursors before its slots and \<open>rest\<close> to cursors before \<open>rest\<close>.\<close>

definition reads_back :: "nat list \<Rightarrow> ('p cursors \<Rightarrow> js_error + 'p js_value \<times> 'p cursors) \<Rightarrow> (nat \<Rightarrow> 'p slot list) \<Rightarrow> nat \<Rightarrow> 'p js_value \<Rightarrow> bool" where
  "reads_back L f ss R x \<longleftrightarrow> (\<forall>cursors rest. (\<forall>i \<in> set L. cursor_at (cursors i) (ss i @ rest i) \<and> next_rep (rest i) \<le> R) \<longrightarrow>
     (\<exists>cursors'. f cursors = Inr (x, cursors') \<and> (\<forall>i \<in> set L. cursor_at (cursors' i) (rest i)) \<and> (\<forall>i. i \<notin> set L \<longrightarrow> cursors' i = cursors i)))"

lemma reads_backD:
  assumes "reads_back L f ss R x" "\<And>i. i \<in> set L \<Longrightarrow> cursor_at (cursors i) (ss i @ rest i)" "\<And>i. i \<in> set L \<Longrightarrow> next_rep (rest i) \<le> R"
  obtains cursors' where "f cursors = Inr (x, cursors')" "\<And>i. i \<in> set L \<Longrightarrow> cursor_at (cursors' i) (rest i)"
    "\<And>i. i \<notin> set L \<Longrightarrow> cursors' i = cursors i"
  using assms unfolding reads_back_def by metis

lemma items_loop_reads:
  assumes "\<And>x. x \<in> set xs \<Longrightarrow> reads_back L item (ss x) rl (ph x)"
    and "\<And>x i. x \<in> set xs \<Longrightarrow> i \<in> set L \<Longrightarrow> \<exists>d y more. ss x i = (rl, d, y) # more"
    and "f \<in> set L" "length xs \<le> k" "0 < rl"
    and "\<And>i. i \<in> set L \<Longrightarrow> cursor_at (cursors i) (concat (map (\<lambda>x. ss x i) xs) @ rest i)"
    and "\<And>i. i \<in> set L \<Longrightarrow> next_rep (rest i) < rl"
  shows "\<exists>cursors'. items_loop k item f rl cursors = Inr (map ph xs, cursors') \<and>
    (\<forall>i \<in> set L. cursor_at (cursors' i) (rest i)) \<and> (\<forall>i. i \<notin> set L \<longrightarrow> cursors' i = cursors i)"
  using assms(1,2,4,6)
proof (induction xs arbitrary: k cursors)
  case Nil
  then have "peekRep f cursors < rl" using peeks(1) [of cursors f "rest f"] assms(3,7) by simp
  then show ?case using Nil by (cases k) auto
next
  case (Cons x xs)
  obtain k' where k: "k = Suc k'" using Cons.prems(3) by (cases k) auto
  obtain d y more where first: "ss x f = (rl, d, y) # more" using Cons.prems(2) [of x f] assms(3) by auto
  have "cursor_at (cursors f) ((rl, d, y) # more @ concat (map (\<lambda>x. ss x f) xs) @ rest f)"
    using Cons.prems(4) [OF assms(3)] first by simp
  then have peek: "peekRep f cursors = rl" using peeks(1) [of cursors f] by simp
  have next_le: "next_rep (concat (map (\<lambda>x. ss x i) xs) @ rest i) \<le> rl" if i: "i \<in> set L" for i
  proof (cases xs)
    case (Cons z zs)
    then obtain d' y' more' where "ss z i = (rl, d', y') # more'" using Cons.prems(2) [of z i] i by auto
    then show ?thesis using Cons by simp
  qed (use assms(7) [OF i] in simp)
  obtain c1 where c1: "item cursors = Inr (ph x, c1)" "\<And>i. i \<in> set L \<Longrightarrow> cursor_at (c1 i) (concat (map (\<lambda>x. ss x i) xs) @ rest i)"
    "\<And>i. i \<notin> set L \<Longrightarrow> c1 i = cursors i"
    by (rule reads_backD [OF Cons.prems(1) [of x], of cursors "\<lambda>i. concat (map (\<lambda>x. ss x i) xs) @ rest i"])
       (use Cons.prems(4) next_le in auto)
  obtain c2 where c2: "items_loop k' item f rl c1 = Inr (map ph xs, c2)" "\<forall>i \<in> set L. cursor_at (c2 i) (rest i)"
    "\<forall>i. i \<notin> set L \<longrightarrow> c2 i = c1 i"
    using Cons.IH [of k' c1] Cons.prems(1-3) c1(2) k by auto
  show ?case using c1 c2 peek by (simp add: k)
qed

lemma children_read:
  assumes "\<And>c. c \<in> set cs \<Longrightarrow> reads_back (collectLeaves c) (child c) (ss c) R (ph c)" "distinct (concat (map collectLeaves cs))"
    and "\<And>c i. c \<in> set cs \<Longrightarrow> i \<in> set (collectLeaves c) \<Longrightarrow> cursor_at (cursors i) (ss c i @ rest i) \<and> next_rep (rest i) \<le> R"
  shows "\<exists>cursors'. children_loop nd_name child cs cursors = Inr (map (\<lambda>c. (nd_name c, ph c)) cs, cursors') \<and>
    (\<forall>i \<in> set (concat (map collectLeaves cs)). cursor_at (cursors' i) (rest i)) \<and>
    (\<forall>i. i \<notin> set (concat (map collectLeaves cs)) \<longrightarrow> cursors' i = cursors i)"
  using assms
proof (induction cs arbitrary: cursors)
  case (Cons c cs)
  obtain c1 where c1: "child c cursors = Inr (ph c, c1)" "\<And>i. i \<in> set (collectLeaves c) \<Longrightarrow> cursor_at (c1 i) (rest i)"
    "\<And>i. i \<notin> set (collectLeaves c) \<Longrightarrow> c1 i = cursors i"
    by (rule reads_backD [OF Cons.prems(1) [of c], of cursors rest]) (use Cons.prems(3) in auto)
  have "c1 i = cursors i" if "b \<in> set cs" "i \<in> set (collectLeaves b)" for b i
    using c1(3) [of i] Cons.prems(2) that by auto
  then obtain c2 where c2: "children_loop nd_name child cs c1 = Inr (map (\<lambda>c. (nd_name c, ph c)) cs, c2)"
    "\<forall>i \<in> set (concat (map collectLeaves cs)). cursor_at (c2 i) (rest i)"
    "\<forall>i. i \<notin> set (concat (map collectLeaves cs)) \<longrightarrow> c2 i = c1 i"
    using Cons.IH [of c1] Cons.prems by fastforce
  have "cursor_at (c2 i) (rest i)" if "i \<in> set (collectLeaves c)" for i
  proof -
    have "i \<notin> set (concat (map collectLeaves cs))" using Cons.prems(2) that by auto
    then show ?thesis using c2(3) c1(2) [OF that] by auto
  qed
  then show ?case using c1 c2 by auto
qed simp

lemma firstLeaf_collect: "node_ok R D node \<Longrightarrow> \<exists>f. firstLeaf node = Some f \<and> f \<in> set (collectLeaves node)"
proof (induction node arbitrary: R D)
  case (Struct n nl dl rl cs)
  then obtain c cs' where cs: "cs = c # cs'" by (cases cs) auto
  then show ?case using Struct.IH [of c R dl] Struct.prems by auto
qed auto

text \<open>A null occurrence is one slot of every leaf.\<close>

lemma consume_reads:
  assumes "distinct (collectLeaves node)"
  shows "reads_back (collectLeaves node) (\<lambda>cursors. Inr (x, consumeAbsent node cursors)) (absent_slots node r d) R x"
  unfolding reads_back_def
proof (intro allI impI)
  fix cursors :: "nat \<Rightarrow> 'b cursor" and rest
  assume at: "\<forall>i \<in> set (collectLeaves node). cursor_at (cursors i) (absent_slots node r d i @ rest i) \<and> next_rep (rest i) \<le> R"
  have "cursor_at (consumeAbsent node cursors i) (rest i)" if "i \<in> set (collectLeaves node)" for i
  proof -
    have "cursor_at (cursors i) ((r, d, None) # rest i)" using bspec [OF at that] absent_slots_leaf [OF assms that, of r d] by simp
    from cursor_advance [OF this] show ?thesis using that by (simp add: consumeAbsent_cursors [OF assms])
  qed
  moreover have "consumeAbsent node cursors i = cursors i" if "i \<notin> set (collectLeaves node)" for i
    using that by (simp add: consumeAbsent_cursors [OF assms])
  ultimately show "\<exists>cursors'. Inr (x, consumeAbsent node cursors) = Inr (x, cursors') \<and>
      (\<forall>i \<in> set (collectLeaves node). cursor_at (cursors' i) (rest i)) \<and> (\<forall>i. i \<notin> set (collectLeaves node) \<longrightarrow> cursors' i = cursors i)"
    by blast
qed

text \<open>To read back it is enough to do so wherever the first slot is the right one.\<close>

lemma reads_back_cong:
  assumes "reads_back L g ss R x"
    and "\<And>cursors rest. (\<And>i. i \<in> set L \<Longrightarrow> cursor_at (cursors i) (ss i @ rest i)) \<Longrightarrow> f cursors = g cursors"
  shows "reads_back L f ss R x"
  unfolding reads_back_def
proof (intro allI impI)
  fix cursors rest
  assume at: "\<forall>i \<in> set L. cursor_at (cursors i) (ss i @ rest i) \<and> next_rep (rest i) \<le> R"
  then have "f cursors = g cursors" by (intro assms(2)) auto
  with assms(1) at show "\<exists>cursors'. f cursors = Inr (x, cursors') \<and> (\<forall>i \<in> set L. cursor_at (cursors' i) (rest i)) \<and>
      (\<forall>i. i \<notin> set L \<longrightarrow> cursors' i = cursors i)"
    unfolding reads_back_def by metis
qed

text \<open>A list read by any reader of its items.\<close>

definition read_list :: "nat \<Rightarrow> nat \<Rightarrow> ('v, 'p) node \<Rightarrow> nat \<Rightarrow> nat \<Rightarrow> ('p cursors \<Rightarrow> js_error + 'p js_value \<times> 'p cursors) \<Rightarrow> 'p cursors \<Rightarrow>
    js_error + 'p js_value \<times> 'p cursors" where
  "read_list k f c dl rl item cursors =
     (if peekDef f cursors < dl then Inr (Null, consumeAbsent c cursors)
      else if peekDef f cursors = dl then Inr (Arr [], consumeAbsent c cursors)
      else bindR (item cursors) (\<lambda>(x, cursors).
        bindR (items_loop k item f rl cursors) (\<lambda>(xs, cursors). Inr (Arr (x # xs), cursors))))"

lemma items_read:
  assumes "reads_back L item (ss y r) rl (ph y)" "\<And>x. x \<in> set ys \<Longrightarrow> reads_back L item (ss x rl) rl (ph x)"
    and "\<And>x i. x \<in> set ys \<Longrightarrow> i \<in> set L \<Longrightarrow> \<exists>d z more. ss x rl i = (rl, d, z) # more"
    and "f \<in> set L" "length ys \<le> k" "rl = R + 1"
  shows "reads_back L (\<lambda>cursors. bindR (item cursors) (\<lambda>(x, cursors).
        bindR (items_loop k item f rl cursors) (\<lambda>(xs, cursors). Inr (Arr (x # xs), cursors))))
    (\<lambda>i. ss y r i @ concat (map (\<lambda>x. ss x rl i) ys)) R (Arr (map ph (y # ys)))"
  unfolding reads_back_def
proof (intro allI impI)
  fix cursors rest
  assume at: "\<forall>i \<in> set L. cursor_at (cursors i) ((ss y r i @ concat (map (\<lambda>x. ss x rl i) ys)) @ rest i) \<and> next_rep (rest i) \<le> R"
  have next_le: "next_rep (concat (map (\<lambda>x. ss x rl i) ys) @ rest i) \<le> rl" if i: "i \<in> set L" for i
  proof (cases ys)
    case Nil
    then show ?thesis using at i assms(6) by auto
  next
    case (Cons z zs)
    then obtain d w more where "ss z rl i = (rl, d, w) # more" using assms(3) [of z i] i by auto
    then show ?thesis using Cons by simp
  qed
  obtain c1 where c1: "item cursors = Inr (ph y, c1)" "\<And>i. i \<in> set L \<Longrightarrow> cursor_at (c1 i) (concat (map (\<lambda>x. ss x rl i) ys) @ rest i)"
    "\<And>i. i \<notin> set L \<Longrightarrow> c1 i = cursors i"
    by (rule reads_backD [OF assms(1), of cursors "\<lambda>i. concat (map (\<lambda>x. ss x rl i) ys) @ rest i"])
       (use at next_le in auto)
  have "\<exists>c2. items_loop k item f rl c1 = Inr (map ph ys, c2) \<and>
    (\<forall>i \<in> set L. cursor_at (c2 i) (rest i)) \<and> (\<forall>i. i \<notin> set L \<longrightarrow> c2 i = c1 i)"
    by (rule items_loop_reads [where ss = "\<lambda>x. ss x rl"]) (use assms c1(2) at in \<open>auto simp: less_Suc_eq_le\<close>)
  with c1 show "\<exists>cursors'. bindR (item cursors) (\<lambda>(x, cursors). bindR (items_loop k item f rl cursors)
      (\<lambda>(xs, cursors). Inr (Arr (x # xs), cursors))) = Inr (Arr (map ph (y # ys)), cursors') \<and>
      (\<forall>i \<in> set L. cursor_at (cursors' i) (rest i)) \<and> (\<forall>i. i \<notin> set L \<longrightarrow> cursors' i = cursors i)"
    by auto
qed

lemma read_list_absent:
  assumes "distinct (collectLeaves c)" "f \<in> set (collectLeaves c)" "d \<le> dl"
  shows "reads_back (collectLeaves c) (read_list k f c dl rl item) (absent_slots c r d) R (if d < dl then Null else Arr [])"
proof (rule reads_back_cong [OF consume_reads [OF assms(1)]])
  fix cursors rest
  assume "\<And>i. i \<in> set (collectLeaves c) \<Longrightarrow> cursor_at (cursors i) (absent_slots c r d i @ rest i)"
  from this [OF assms(2)] have "peekDef f cursors = d"
    using absent_slots_leaf [OF assms(1,2), of r d] peeks(2) [of cursors f r d None "rest f"] by simp
  then show "read_list k f c dl rl item cursors = Inr (if d < dl then Null else Arr [], consumeAbsent c cursors)"
    using assms(3) by (simp add: read_list_def)
qed

lemma length_concat_ge: "\<forall>x \<in> set xs. f x \<noteq> [] \<Longrightarrow> length xs \<le> length (concat (map f xs))"
proof (induction xs)
  case (Cons x xs)
  then have "0 < length (f x)" "length xs \<le> length (concat (map f xs))" by simp_all
  then show ?case unfolding list.map concat.simps length_append list.size by linarith
qed simp

lemma length_member_le: "x \<in> set xs \<Longrightarrow> length (f x) \<le> length (concat (map f xs))"
  by (induction xs) auto

lemma list_reads:
  assumes item: "\<And>x r. value_ok c x \<Longrightarrow> \<forall>i \<in> set (collectLeaves c). length (slots c x r (dl + 1) i) \<le> k \<Longrightarrow>
      reads_back (collectLeaves c) item (slots c x r (dl + 1)) rl (ph x)"
    and node: "node_ok R D (ListNode n nl dl rl c)" and dist: "distinct (collectLeaves c)"
    and v: "value_ok (ListNode n nl dl rl c) v" and f: "f \<in> set (collectLeaves c)"
    and k: "\<And>i. i \<in> set (collectLeaves c) \<Longrightarrow> length (slots (ListNode n nl dl rl c) v r D i) \<le> k"
  shows "reads_back (collectLeaves c) (read_list k f c dl rl item) (slots (ListNode n nl dl rl c) v r D) R
    (case v of Arr xs \<Rightarrow> Arr (map ph xs) | _ \<Rightarrow> Null)"
proof -
  let ?ss = "slots (ListNode n nl dl rl c) v r D"
  show ?thesis
  proof (cases "absent_value v")
    case True
    then have "?ss = absent_slots c r D" "D < dl" "(case v of Arr xs \<Rightarrow> Arr (map ph xs) | _ \<Rightarrow> Null) = Null"
      using v node by (cases v; auto simp: fun_eq_iff)+
    then show ?thesis using read_list_absent [OF dist f, of D dl k rl item r R] by simp
  next
    case False
    then obtain xs where xs: "v = Arr xs" "\<forall>x \<in> set xs. value_ok c x" using v by (cases v) auto
    show ?thesis
    proof (cases xs)
      case Nil
      then have "?ss = absent_slots c r dl" using xs by (auto simp: fun_eq_iff)
      then show ?thesis using read_list_absent [OF dist f, of dl dl k rl item r R] Nil xs by simp
    next
      case (Cons y ys)
      let ?sl = "\<lambda>x r. slots c x r (dl + 1)"
      have ss: "?ss = (\<lambda>i. ?sl y r i @ concat (map (\<lambda>x. ?sl x rl i) ys))"
        using xs Cons by (auto simp: fun_eq_iff comp_def)
      have first: "starts c x r (dl + 1) i" if "x \<in> set (y # ys)" "i \<in> set (collectLeaves c)" for x r i
        using slots_first [of "R + 1" "dl + 1" c x i r] node dist that xs Cons by auto
      have nonempty: "\<exists>d z more. ?sl x rl i = (rl, d, z) # more" if "x \<in> set ys" "i \<in> set (collectLeaves c)" for x i
        using first [of x i rl] that by (auto simp: starts_def)
      have "length ys \<le> length (concat (map (\<lambda>x. ?sl x rl f) ys))"
        using nonempty [OF _ f] by (intro length_concat_ge) fastforce
      then have len: "length ys \<le> k" using k [OF f] by (simp only: ss length_append)
      have bound: "length (?sl x r' i) \<le> k" if "x = y \<and> r' = r \<or> x \<in> set ys \<and> r' = rl" "i \<in> set (collectLeaves c)" for x r' i
      proof (cases "x \<in> set ys \<and> r' = rl")
        case True
        then show ?thesis using length_member_le [of x ys "\<lambda>x. ?sl x rl i"] k [OF that(2)] unfolding ss length_append by auto
      next
        case False
        then show ?thesis using that(1) k [OF that(2)] unfolding ss length_append by auto
      qed
      have r: "reads_back (collectLeaves c) (\<lambda>cursors. bindR (item cursors) (\<lambda>(x, cursors).
          bindR (items_loop k item f rl cursors) (\<lambda>(xs, cursors). Inr (Arr (x # xs), cursors)))) ?ss R (Arr (map ph (y # ys)))"
        unfolding ss
      proof (rule items_read [where ss = ?sl])
        show "reads_back (collectLeaves c) item (?sl y r) rl (ph y)" using bound xs Cons by (intro item) auto
        show "reads_back (collectLeaves c) item (?sl x rl) rl (ph x)" if "x \<in> set ys" for x
          using bound xs Cons that by (intro item) auto
      qed (use node nonempty f len in auto)
      have peek: "peekDef f cursors > dl" if "\<And>i. i \<in> set (collectLeaves c) \<Longrightarrow> cursor_at (cursors i) (?ss i @ rest i)"
        for cursors rest
      proof -
        have "dl + 1 \<le> nd_defLevel c" using node by (cases c) auto
        then obtain d z more where d: "?sl y r f = (r, d, z) # more" "dl < d"
          using first [of y f r] f by (auto simp: starts_def split: if_splits)
        then show ?thesis using that [OF f] peeks(2) [of cursors f r d z] by (simp add: ss)
      qed
      have "reads_back (collectLeaves c) (read_list k f c dl rl item) ?ss R (Arr (map ph (y # ys)))"
      proof (rule reads_back_cong [OF r])
        fix cursors rest
        assume "\<And>i. i \<in> set (collectLeaves c) \<Longrightarrow> cursor_at (cursors i) (?ss i @ rest i)"
        from peek [OF this] show "read_list k f c dl rl item cursors = bindR (item cursors) (\<lambda>(x, cursors).
          bindR (items_loop k item f rl cursors) (\<lambda>(xs, cursors). Inr (Arr (x # xs), cursors)))"
          by (simp add: read_list_def)
      qed
      then show ?thesis by (simp only: xs Cons js_value.case)
    qed
  qed
qed

lemma leaf_reads:
  assumes "node_ok R D (Leaf n nl dl rl j enc)" "value_ok (Leaf n nl dl rl j enc) v"
  shows "reads_back [j] (\<lambda>cursors. Inr (read_leaf j dl cursors)) (slots (Leaf n nl dl rl j enc) v r D) R (physical (Leaf n nl dl rl j enc) v)"
  unfolding reads_back_def
proof (intro allI impI)
  fix cursors rest
  assume "\<forall>i \<in> set [j]. cursor_at (cursors i) (slots (Leaf n nl dl rl j enc) v r D i @ rest i) \<and> next_rep (rest i) \<le> R"
  then have at: "cursor_at (cursors j) ((if absent_value v then (r, D, None) else (r, dl, Some (enc v))) # rest j)" by simp
  then obtain cur where "read_leaf j dl cursors = (physical (Leaf n nl dl rl j enc) v, cursors(j := cur))" "cursor_at cur (rest j)"
    using read_leaf_present [of cursors j r dl "enc v" "rest j" dl] read_leaf_absent [of cursors j r D "rest j" dl] assms
    by (cases "absent_value v") auto
  then show "\<exists>cursors'. Inr (read_leaf j dl cursors) = Inr (physical (Leaf n nl dl rl j enc) v, cursors') \<and>
      (\<forall>i \<in> set [j]. cursor_at (cursors' i) (rest i)) \<and> (\<forall>i. i \<notin> set [j] \<longrightarrow> cursors' i = cursors i)"
    by auto
qed

lemma struct_reads:
  assumes child: "\<And>c v r. c \<in> set cs \<Longrightarrow> value_ok c v \<Longrightarrow> \<forall>i \<in> set (collectLeaves c). length (slots c v r dl i) \<le> k \<Longrightarrow>
      reads_back (collectLeaves c) (assembleValue k c) (slots c v r dl) R (physical c v)"
    and node: "node_ok R D (Struct n nl dl rl cs)" and dist: "distinct (collectLeaves (Struct n nl dl rl cs))"
    and v: "value_ok (Struct n nl dl rl cs) v"
    and k: "\<And>i. i \<in> set (collectLeaves (Struct n nl dl rl cs)) \<Longrightarrow> length (slots (Struct n nl dl rl cs) v r D i) \<le> k"
  shows "reads_back (collectLeaves (Struct n nl dl rl cs)) (assembleValue k (Struct n nl dl rl cs)) (slots (Struct n nl dl rl cs) v r D) R
    (physical (Struct n nl dl rl cs) v)"
proof -
  let ?node = "Struct n nl dl rl cs"
  obtain f where f: "firstLeaf ?node = Some f" "f \<in> set (collectLeaves ?node)" using firstLeaf_collect [OF node] by blast
  obtain d x more where first: "slots ?node v r D f = (r, d, x) # more" "if absent_value v then d = D else dl \<le> d"
    using slots_first [OF node dist v f(2), of r] unfolding starts_def node.sel by blast
  have peek: "peekDef f cursors = d" if "\<And>i. i \<in> set (collectLeaves ?node) \<Longrightarrow> cursor_at (cursors i) (slots ?node v r D i @ rest i)" for cursors rest
    using that [OF f(2)] first(1) peeks(2) [of cursors f r d x] by simp
  show ?thesis
  proof (cases "absent_value v")
    case True
    then have ss: "slots ?node v r D = absent_slots ?node r D" and "D < dl" using v node by (auto simp: fun_eq_iff)
    have "reads_back (collectLeaves ?node) (assembleValue k ?node) (slots ?node v r D) R Null"
    proof (rule reads_back_cong [OF consume_reads [OF dist, of Null r D R, folded ss]])
      fix cursors rest
      assume "\<And>i. i \<in> set (collectLeaves ?node) \<Longrightarrow> cursor_at (cursors i) (slots ?node v r D i @ rest i)"
      from peek [OF this] show "assembleValue k ?node cursors = Inr (Null, consumeAbsent ?node cursors)"
        using first(2) True \<open>D < dl\<close> f(1) by simp
    qed
    then show ?thesis using True by simp
  next
    case False
    let ?v = "\<lambda>c. property_or_null v (nd_name c)"
    have ss: "slots ?node v r D i = slots c (?v c) r dl i" if "c \<in> set cs" "i \<in> set (collectLeaves c)" for c i
      using struct_slots [OF dist that False] .
    have bound: "length (slots c (?v c) r dl i) \<le> k" if "c \<in> set cs" "i \<in> set (collectLeaves c)" for c i
      using k [of i] ss [OF that] that by (auto simp del: slots.simps)
    have "reads_back (collectLeaves c) (assembleValue k c) (slots c (?v c) r dl) R (physical c (?v c))" if "c \<in> set cs" for c
      using that v False bound by (intro child) auto
    then have "\<exists>cursors'. children_loop nd_name (assembleValue k) cs cursors = Inr (map (\<lambda>c. (nd_name c, physical c (?v c))) cs, cursors') \<and>
        (\<forall>i \<in> set (concat (map collectLeaves cs)). cursor_at (cursors' i) (rest i)) \<and>
        (\<forall>i. i \<notin> set (concat (map collectLeaves cs)) \<longrightarrow> cursors' i = cursors i)"
      if "\<forall>i \<in> set (collectLeaves ?node). cursor_at (cursors i) (slots ?node v r D i @ rest i) \<and> next_rep (rest i) \<le> R" for cursors rest
      using dist that ss by (intro children_read [where ss = "\<lambda>c. slots c (?v c) r dl"]) fastforce+
    moreover have "assembleValue k ?node cursors = bindR (children_loop nd_name (assembleValue k) cs cursors) (\<lambda>(ps, cursors). Inr (Obj ps, cursors))"
      if "\<forall>i \<in> set (collectLeaves ?node). cursor_at (cursors i) (slots ?node v r D i @ rest i) \<and> next_rep (rest i) \<le> R" for cursors rest
    proof -
      have "peekDef f cursors = d" using that by (intro peek) blast
      then show ?thesis using first(2) False f(1) by simp
    qed
    ultimately show ?thesis using False unfolding reads_back_def by fastforce
  qed
qed

lemma map_physical:
  "physical (MapNode n nl dl rl c) v =
    (case as_entries v of Arr es \<Rightarrow> Arr (map (\<lambda>e. Arr [property (physical c e) key_name, property (physical c e) value_name]) es) | _ \<Rightarrow> Null)"
  by (cases v) simp_all

lemma assembles:
  assumes "node_ok R D node" "distinct (collectLeaves node)" "value_ok node v"
    and "\<And>i. i \<in> set (collectLeaves node) \<Longrightarrow> length (slots node v r D i) \<le> k"
  shows "reads_back (collectLeaves node) (assembleValue k node) (slots node v r D) R (physical node v)"
  using assms
proof (induction node arbitrary: R D v r)
  case (Leaf n nl dl rl j enc)
  then show ?case using leaf_reads [of R D n nl dl rl j enc v r] by (simp del: node_ok.simps value_ok.simps physical.simps slots.simps)
next
  case (Struct n nl dl rl cs)
  show ?case
  proof (rule struct_reads [OF _ Struct.prems])
    fix c v r
    assume c: "c \<in> set cs" "value_ok c v" "\<forall>i \<in> set (collectLeaves c). length (slots c v r dl i) \<le> k"
    have "distinct (collectLeaves c)" using Struct.prems(2) c(1) distinct_child [of collectLeaves cs c] by simp
    then show "reads_back (collectLeaves c) (assembleValue k c) (slots c v r dl) R (physical c v)"
      using Struct.prems(1) c by (intro Struct.IH) auto
  qed
next
  case (ListNode n nl dl rl c)
  obtain f where f: "firstLeaf c = Some f" "f \<in> set (collectLeaves c)"
    using firstLeaf_collect [of "R + 1" "dl + 1" c] ListNode.prems(1) by auto
  have "reads_back (collectLeaves c) (read_list k f c dl rl (assembleValue k c)) (slots (ListNode n nl dl rl c) v r D) R
      (case v of Arr xs \<Rightarrow> Arr (map (physical c) xs) | _ \<Rightarrow> Null)"
    by (rule list_reads [OF _ ListNode.prems(1) _ ListNode.prems(3) f(2)])
       (use ListNode.prems ListNode.IH [of "R + 1" "dl + 1"] in \<open>auto simp del: slots.simps value_ok.simps\<close>)
  moreover have "assembleValue k (ListNode n nl dl rl c) = read_list k f c dl rl (assembleValue k c)"
    using f(1) by (auto simp: read_list_def)
  moreover have "physical (ListNode n nl dl rl c) v = (case v of Arr xs \<Rightarrow> Arr (map (physical c) xs) | _ \<Rightarrow> Null)"
    by (cases v) simp_all
  ultimately show ?case by (simp del: slots.simps physical.simps)
next
  case (MapNode n nl dl rl c)
  obtain f where f: "firstLeaf c = Some f" "f \<in> set (collectLeaves c)"
    using firstLeaf_collect [of "R + 1" "dl + 1" c] MapNode.prems(1) by auto
  define entry where "entry = (\<lambda>cursors. bindR (assembleValue k c cursors) (\<lambda>(e, cursors). bindR (entry_pair e) (\<lambda>p. Inr (p, cursors))))"
  let ?pair = "\<lambda>e. Arr [property (physical c e) key_name, property (physical c e) value_name]"
  have node: "node_ok R D (ListNode n nl dl rl c)" using MapNode.prems(1) by auto
  have "reads_back (collectLeaves c) entry (slots c x r (dl + 1)) rl (?pair x)"
    if x: "value_ok c x" "\<forall>i \<in> set (collectLeaves c). length (slots c x r (dl + 1) i) \<le> k" for x r
  proof -
    have "\<not> absent_value (physical c x)" using x(1) MapNode.prems(1) by (auto split: if_splits)
    then have "entry_pair (physical c x) = Inr (?pair x)" by (simp add: entry_pair_def)
    moreover have "reads_back (collectLeaves c) (assembleValue k c) (slots c x r (dl + 1)) rl (physical c x)"
      using MapNode.prems(1,2) x by (intro MapNode.IH) auto
    ultimately show ?thesis unfolding reads_back_def entry_def by fastforce
  qed
  then have "reads_back (collectLeaves c) (read_list k f c dl rl entry) (slots (ListNode n nl dl rl c) (as_entries v) r D) R
      (case as_entries v of Arr es \<Rightarrow> Arr (map ?pair es) | _ \<Rightarrow> Null)"
    by (rule list_reads [OF _ node _ _ f(2)])
       (use MapNode.prems in \<open>simp_all add: map_as_list(1,2) del: slots.simps value_ok.simps node_ok.simps\<close>)
  moreover have "assembleValue k (MapNode n nl dl rl c) = read_list k f c dl rl entry"
    using f(1) by (auto simp: read_list_def entry_def Let_def)
  moreover have "slots (MapNode n nl dl rl c) v r D = slots (ListNode n nl dl rl c) (as_entries v) r D"
    by (rule ext, rule map_as_list)
  ultimately show ?case by (simp only: map_physical collectLeaves.simps)
qed

subsection \<open>Columns\<close>

definition column_slots :: "('v, 'p) node \<Rightarrow> 'v js_value list \<Rightarrow> nat \<Rightarrow> 'p slot list" where
  "column_slots node rows i = concat (map (\<lambda>v. slots node v 0 0 i) rows)"

lemma shredColumn_slots:
  "shredColumn node rows = map (\<lambda>i. append_slots \<lparr>st_values = [], st_defs = [], st_reps = []\<rparr> (column_slots node rows i)) (collectLeaves node)"
proof -
  have "foldl (\<lambda>s v. shredValue node v 0 0 s) no_streams rows =
      (\<lambda>j. append_slots (no_streams j) (concat (map (\<lambda>v. slots node v 0 0 j) rows)))"
    by (intro foldl_append_slots) (simp add: shredValue_slots)
  then show ?thesis by (simp add: shredColumn_def column_slots_def no_streams_def)
qed

lemma open_cursors_at:
  assumes "distinct leaves" "i \<in> set leaves"
  shows "open_cursors leaves (map f leaves) i = \<lparr>cu_values = st_values (f i), cu_defLevels = st_defs (f i), cu_repLevels = st_reps (f i), cu_vi = 0, cu_li = 0\<rparr>"
proof -
  let ?cur = "\<lambda>s :: 'a stream. \<lparr>cu_values = st_values s, cu_defLevels = st_defs s, cu_repLevels = st_reps s, cu_vi = 0, cu_li = 0\<rparr>"
  have "foldl (\<lambda>m (i, s). m(i := ?cur s)) m (zip leaves (map f leaves)) i = (if i \<in> set leaves then ?cur (f i) else m i)" for m
    using assms(1) by (induction leaves arbitrary: m) auto
  then show ?thesis using assms(2) by (simp add: open_cursors_def)
qed

lemma rows_read:
  assumes "node_ok 0 0 node" "distinct (collectLeaves node)" "\<forall>v \<in> set rows. value_ok node v"
    and "\<And>v i. v \<in> set rows \<Longrightarrow> i \<in> set (collectLeaves node) \<Longrightarrow> length (slots node v 0 0 i) \<le> k"
    and "\<And>i. i \<in> set (collectLeaves node) \<Longrightarrow> cursor_at (cursors i) (column_slots node rows i)"
  shows "rows_loop k node (length rows) cursors = Inr (map (physical node) rows)"
  using assms(3-5)
proof (induction rows arbitrary: cursors)
  case (Cons v rows)
  have rest: "next_rep (column_slots node rows i) \<le> 0" if i: "i \<in> set (collectLeaves node)" for i
  proof (cases rows)
    case (Cons w ws)
    then have "starts node w 0 0 i" using Cons.prems(1) i assms(1,2) by (intro slots_first) auto
    then show ?thesis using Cons by (auto simp: column_slots_def starts_def)
  qed (simp add: column_slots_def)
  have "reads_back (collectLeaves node) (assembleValue k node) (slots node v 0 0) 0 (physical node v)"
    using Cons.prems assms(1,2) by (intro assembles) auto
  then obtain c1 where "assembleValue k node cursors = Inr (physical node v, c1)"
    "\<And>i. i \<in> set (collectLeaves node) \<Longrightarrow> cursor_at (c1 i) (column_slots node rows i)"
    by (rule reads_backD [of _ _ _ _ _ cursors "column_slots node rows"]) (use rest Cons.prems(3) in \<open>auto simp: column_slots_def\<close>)
  then show ?case using Cons.IH [of c1] Cons.prems(1,2) by simp
qed simp

lemma nested_codec:
  assumes "node_ok 0 0 node" "distinct (collectLeaves node)" "\<forall>v \<in> set rows. value_ok node v"
    and "\<forall>s \<in> set (shredColumn node rows). length (st_reps s) \<le> k"
  shows "assembleRows k node (shredColumn node rows) (length rows) = Inr (map (physical node) rows)"
proof -
  let ?leaves = "collectLeaves node"
  let ?st = "\<lambda>i. append_slots \<lparr>st_values = [], st_defs = [], st_reps = []\<rparr> (column_slots node rows i)"
  have shred: "shredColumn node rows = map ?st ?leaves" by (rule shredColumn_slots)
  have bound: "length (column_slots node rows i) \<le> k" if "i \<in> set ?leaves" for i
    using assms(4) that by (auto simp: shred append_slots_def)
  have "length (slots node v 0 0 i) \<le> k" if "v \<in> set rows" "i \<in> set ?leaves" for v i
    using length_member_le [OF that(1), of "\<lambda>v. slots node v 0 0 i"] bound [OF that(2)] by (simp add: column_slots_def)
  moreover have "cursor_at (open_cursors ?leaves (map ?st ?leaves) i) (column_slots node rows i)" if "i \<in> set ?leaves" for i
    unfolding open_cursors_at [OF assms(2) that] by (simp add: cursor_at_def append_slots_def)
  ultimately have "rows_loop k node (length rows) (open_cursors ?leaves (map ?st ?leaves)) = Inr (map (physical node) rows)"
    using assms(1-3) by (intro rows_read) auto
  then show ?thesis by (simp add: assembleRows_def shred)
qed

text \<open>C9: Dremel round trip. Any rows of a nested column, to any depth of lists, structs and maps, with nulls
  wherever the schema allows them, shredded into one stream of levels and values per leaf, are assembled
  again from these streams: every leaf encoded, null and empty containers told apart.\<close>

theorem nested_roundtrip:
  assumes "node_ok 0 0 node" "distinct (collectLeaves node)" "\<forall>v \<in> set rows. value_ok node v"
    and "\<forall>s \<in> set (shredColumn node rows). length (st_reps s) \<le> k"
  shows "assembleRows k node (shredColumn node rows) (length rows) = Inr (map (physical node) rows)"
  by (rule nested_codec [OF assms])

definition sample_node :: "(nat, nat) node" where
  "sample_node = Struct [97] True 1 0
     [Leaf [98] False 1 0 0 (\<lambda>v. case v of Prim n \<Rightarrow> n | _ \<Rightarrow> 0),
      ListNode [99] True 2 1 (ListNode [100] True 4 2 (Leaf [101] True 6 2 1 (\<lambda>v. case v of Prim n \<Rightarrow> n + 1 | _ \<Rightarrow> 0)))]"

definition sample_rows :: "nat js_value list" where
  "sample_rows = [Obj [([98], Prim 7), ([99], Arr [Arr [Prim 1, Null], Null, Arr []])], Null, Obj [([98], Prim 8)],
     Obj [([99], Arr []), ([98], Prim 9)]]"

theorem nested_roundtrip_witness:
  "assembleRows 7 sample_node (shredColumn sample_node sample_rows) (length sample_rows) = Inr (map (physical sample_node) sample_rows)"
proof (rule nested_roundtrip)
  show "node_ok 0 0 sample_node" "distinct (collectLeaves sample_node)" by (simp_all add: sample_node_def)
  show "\<forall>v \<in> set sample_rows. value_ok sample_node v"
    by (simp add: sample_node_def sample_rows_def property_or_null_def)
  show "\<forall>s \<in> set (shredColumn sample_node sample_rows). length (st_reps s) \<le> 7"
    by (simp add: sample_node_def sample_rows_def shredColumn_def push_slot_def no_streams_def property_or_null_def)
qed

end
