(* ===== verification/Parquet_Types.thy ===== *)
theory Parquet_Types
  imports Arrow_Types Parquet_Convert Parquet_Values Parquet_Nested
begin

text \<open>
  The bridge between Arrow and Parquet leaf types, \<open>data/parquet/schema.ts\<close>, over the type descriptions of
  \<open>data/arrow/type.ts\<close> and the fields of \<open>data/arrow/schema.ts\<close>.

  A value converter is named by what it computes: \<open>convert\<close> is the function the code stores. It is defined on the
  values that the vectors of the column's type and the page decoders yield.
\<close>

subsection \<open>Annotations\<close>

abbreviation (input) UNIT_MILLIS :: int where "UNIT_MILLIS \<equiv> 1"
abbreviation (input) UNIT_MICROS :: int where "UNIT_MICROS \<equiv> 2"
abbreviation (input) UNIT_NANOS :: int where "UNIT_NANOS \<equiv> 3"

abbreviation (input) CT_UTF8 :: int where "CT_UTF8 \<equiv> 0"
abbreviation (input) CT_MAP :: int where "CT_MAP \<equiv> 1"
abbreviation (input) CT_MAP_KEY_VALUE :: int where "CT_MAP_KEY_VALUE \<equiv> 2"
abbreviation (input) CT_LIST :: int where "CT_LIST \<equiv> 3"
abbreviation (input) CT_ENUM :: int where "CT_ENUM \<equiv> 4"
abbreviation (input) CT_DECIMAL :: int where "CT_DECIMAL \<equiv> 5"
abbreviation (input) CT_DATE :: int where "CT_DATE \<equiv> 6"
abbreviation (input) CT_TIME_MILLIS :: int where "CT_TIME_MILLIS \<equiv> 7"
abbreviation (input) CT_TIME_MICROS :: int where "CT_TIME_MICROS \<equiv> 8"
abbreviation (input) CT_TIMESTAMP_MILLIS :: int where "CT_TIMESTAMP_MILLIS \<equiv> 9"
abbreviation (input) CT_TIMESTAMP_MICROS :: int where "CT_TIMESTAMP_MICROS \<equiv> 10"
abbreviation (input) CT_UINT_8 :: int where "CT_UINT_8 \<equiv> 11"
abbreviation (input) CT_UINT_16 :: int where "CT_UINT_16 \<equiv> 12"
abbreviation (input) CT_UINT_32 :: int where "CT_UINT_32 \<equiv> 13"
abbreviation (input) CT_UINT_64 :: int where "CT_UINT_64 \<equiv> 14"
abbreviation (input) CT_INT_8 :: int where "CT_INT_8 \<equiv> 15"
abbreviation (input) CT_INT_16 :: int where "CT_INT_16 \<equiv> 16"
abbreviation (input) CT_INT_32 :: int where "CT_INT_32 \<equiv> 17"
abbreviation (input) CT_INT_64 :: int where "CT_INT_64 \<equiv> 18"
abbreviation (input) CT_JSON :: int where "CT_JSON \<equiv> 19"

abbreviation (input) REQUIRED :: int where "REQUIRED \<equiv> 0"
abbreviation (input) OPTIONAL :: int where "OPTIONAL \<equiv> 1"
abbreviation (input) REPEATED :: int where "REPEATED \<equiv> 2"

subsection \<open>Value converters\<close>

datatype converter = Identity | DecodeUtf8 | BytesToBig | DecimalToBigInt | BigIntToDecimal nat | NumberOfBigInt | BigIntOfNumber
  | Int96ToNanos | Float16ToNumber | NumberToFloat16

fun convert :: "converter \<Rightarrow> column_value \<Rightarrow> js_error + column_value" where
  "convert Identity v = Inr v"
| "convert DecodeUtf8 (VBinary (Bytes b)) = Inr (VBinary (Str (text_decode b)))"
| "convert BytesToBig (VBigInt v) = Inr (VBigInt v)"
| "convert BytesToBig (VNumber v) = Inr (VBigInt v)"
| "convert BytesToBig (VBinary (Bytes b)) = Inr (VBigInt (decimalBytesToBigInt b))"
| "convert DecimalToBigInt (VBinary (Bytes b)) = Inr (VBigInt (decimalBytesToBigInt b))"
| "convert (BigIntToDecimal n) (VBigInt v) = Inr (VBinary (Bytes (bigIntToDecimalBytes v n)))"
| "convert NumberOfBigInt (VBigInt v) = Inr (VNumber (number_of_bigint v))"
| "convert BigIntOfNumber (VNumber v) = Inr (VBigInt v)"
| "convert Int96ToNanos (VBinary (Bytes b)) = bindR (int96ToEpochNanos b) (\<lambda>n. Inr (VBigInt n))"
| "convert Float16ToNumber (VBinary (Bytes b)) = Inr (VDouble (float16BytesToNumber b))"
| "convert NumberToFloat16 (VDouble d) = Inr (VBinary (Bytes (numberToFloat16Bytes d)))"
| "convert c v = Inl UndefinedProperty"

subsection \<open>Arrow to Parquet\<close>

record ParquetTypeInfo =
  ti_physicalType :: nat
  ti_convertedType :: "int option"
  ti_logicalType :: "LogicalType option"
  ti_typeLength :: "int option"
  ti_scale :: "int option"
  ti_precision :: "int option"
  ti_decode :: converter
  ti_encode :: converter

definition type_info :: "nat \<Rightarrow> int option \<Rightarrow> LogicalType option \<Rightarrow> ParquetTypeInfo" where
  "type_info p c l = \<lparr>ti_physicalType = p, ti_convertedType = c, ti_logicalType = l, ti_typeLength = None,
     ti_scale = None, ti_precision = None, ti_decode = Identity, ti_encode = Identity\<rparr>"

definition logical_kind :: "string \<Rightarrow> LogicalType" where
  "logical_kind k = \<lparr>lt_kind = k, lt_decimal = None, lt_time = None, lt_timestamp = None, lt_integer = None\<rparr>"

definition decimal_logical :: "int \<Rightarrow> int \<Rightarrow> LogicalType" where
  "decimal_logical scale precision =
     (logical_kind ''decimal'')\<lparr>lt_decimal := Some \<lparr>dec_scale = scale, dec_precision = precision\<rparr>\<rparr>"

definition intConverted :: "nat \<Rightarrow> bool \<Rightarrow> int" where
  "intConverted bitWidth isSigned =
     (if isSigned then (if bitWidth = 8 then CT_INT_8 else if bitWidth = 16 then CT_INT_16 else if bitWidth = 32 then CT_INT_32 else CT_INT_64)
      else (if bitWidth = 8 then CT_UINT_8 else if bitWidth = 16 then CT_UINT_16 else if bitWidth = 32 then CT_UINT_32 else CT_UINT_64))"

definition time_logical :: "int \<Rightarrow> LogicalType" where
  "time_logical unitId = (logical_kind ''time'')\<lparr>lt_time := Some \<lparr>tt_isAdjustedToUTC = False, tt_unit = \<lparr>tu_unit = unitId\<rparr>\<rparr>\<rparr>"

definition no_mapping :: js_error where
  "no_mapping = ParquetError ''cannot map Arrow type to Parquet''"

fun arrowTypeToParquet :: "data_type \<Rightarrow> js_error + ParquetTypeInfo" where
  "arrowTypeToParquet BoolType = Inr (type_info BOOLEAN None None)"
| "arrowTypeToParquet (IntType bitWidth isSigned) =
     Inr (type_info (if bitWidth \<le> 32 then INT32 else INT64) (Some (intConverted bitWidth isSigned))
       (Some ((logical_kind ''integer'')\<lparr>lt_integer := Some \<lparr>it_bitWidth = int bitWidth, it_isSigned = isSigned\<rparr>\<rparr>)))"
| "arrowTypeToParquet (FloatType precision) = Inr
     (if precision = 0 then (type_info FIXED_LEN_BYTE_ARRAY None (Some (logical_kind ''float16'')))
        \<lparr>ti_typeLength := Some 2, ti_decode := Float16ToNumber, ti_encode := NumberToFloat16\<rparr>
      else if precision = 1 then type_info FLOAT None None
      else type_info DOUBLE None None)"
| "arrowTypeToParquet (DecimalType precision scale bitWidth) = Inr
     (let logical = Some (decimal_logical scale precision) in
      if bitWidth = 32 then (type_info INT32 (Some CT_DECIMAL) logical)
        \<lparr>ti_scale := Some scale, ti_precision := Some precision, ti_decode := BytesToBig, ti_encode := NumberOfBigInt\<rparr>
      else if bitWidth = 64 then (type_info INT64 (Some CT_DECIMAL) logical)\<lparr>ti_decode := BytesToBig\<rparr>
      else let len = if bitWidth = 256 then 32 else 16 in
        (type_info FIXED_LEN_BYTE_ARRAY (Some CT_DECIMAL) logical)
          \<lparr>ti_typeLength := Some (int len), ti_decode := DecimalToBigInt, ti_encode := BigIntToDecimal len\<rparr>)"
| "arrowTypeToParquet Utf8Type =
     Inr ((type_info BYTE_ARRAY (Some CT_UTF8) (Some (logical_kind ''string'')))\<lparr>ti_decode := DecodeUtf8\<rparr>)"
| "arrowTypeToParquet BinaryType = Inr (type_info BYTE_ARRAY None None)"
| "arrowTypeToParquet (FixedSizeBinaryType byteWidth) =
     Inr ((type_info FIXED_LEN_BYTE_ARRAY None None)\<lparr>ti_typeLength := Some byteWidth\<rparr>)"
| "arrowTypeToParquet (DateType unit) =
     (if unit = 0 then Inr (type_info INT32 (Some CT_DATE) (Some (logical_kind ''date''))) else Inl no_mapping)"
| "arrowTypeToParquet (TimeType unit bitWidth) =
     (let unitId = if unit = MILLISECOND then UNIT_MILLIS else if unit = NANOSECOND then UNIT_NANOS
            else if SECOND = unit then -1 else UNIT_MICROS in
      if unitId = -1 then Inl no_mapping
      else if bitWidth = 32 then Inr (type_info INT32 (Some CT_TIME_MILLIS) (Some (time_logical unitId)))
      else Inr (type_info INT64 (if unitId = UNIT_MICROS then Some CT_TIME_MICROS else None) (Some (time_logical unitId))))"
| "arrowTypeToParquet (TimestampType unit timezone) =
     (let unitId = if unit = MILLISECOND then UNIT_MILLIS else if unit = NANOSECOND then UNIT_NANOS else UNIT_MICROS;
          converted = if unit = MILLISECOND then Some CT_TIMESTAMP_MILLIS
            else if unit = MICROSECOND then Some CT_TIMESTAMP_MICROS else None in
      Inr (type_info INT64 converted (Some ((logical_kind ''timestamp'')\<lparr>lt_timestamp :=
        Some \<lparr>ts_isAdjustedToUTC = (timezone \<noteq> None), ts_unit = \<lparr>tu_unit = unitId\<rparr>\<rparr>\<rparr>))))"
| "arrowTypeToParquet type = Inl no_mapping"

definition leaf_element :: "text_string \<Rightarrow> ParquetTypeInfo \<Rightarrow> bool \<Rightarrow> SchemaElement" where
  "leaf_element name info nullable =
     \<lparr>el_type = Some (int (ti_physicalType info)), el_typeLength = ti_typeLength info,
      el_repetitionType = Some (if nullable then OPTIONAL else REQUIRED), el_name = name, el_numChildren = None,
      el_convertedType = ti_convertedType info, el_scale = ti_scale info, el_precision = ti_precision info,
      el_fieldId = None, el_logicalType = ti_logicalType info\<rparr>"

definition arrowFieldToElement :: "field \<Rightarrow> js_error + SchemaElement \<times> ParquetTypeInfo" where
  "arrowFieldToElement f =
     bindR (arrowTypeToParquet (fd_type f)) (\<lambda>info. Inr (leaf_element (fd_name f) info (fd_nullable f), info))"

record descriptor =
  ds_name :: text_string
  ds_path :: "text_string list"
  ds_physicalType :: nat
  ds_typeLength :: "int option"
  ds_maxDefinitionLevel :: nat
  ds_maxRepetitionLevel :: nat
  ds_arrowField :: field
  ds_decode :: converter
  ds_encode :: converter

definition root_element :: "int \<Rightarrow> SchemaElement" where
  "root_element n = \<lparr>el_type = None, el_typeLength = None, el_repetitionType = None, el_name = [115, 99, 104, 101, 109, 97],
     el_numChildren = Some n, el_convertedType = None, el_scale = None, el_precision = None, el_fieldId = None,
     el_logicalType = None\<rparr>"

definition flat_column :: "field \<Rightarrow> ParquetTypeInfo \<Rightarrow> descriptor" where
  "flat_column f info =
     \<lparr>ds_name = fd_name f, ds_path = [fd_name f], ds_physicalType = ti_physicalType info, ds_typeLength = ti_typeLength info,
      ds_maxDefinitionLevel = (if fd_nullable f then 1 else 0), ds_maxRepetitionLevel = 0, ds_arrowField = f,
      ds_decode = ti_decode info, ds_encode = ti_encode info\<rparr>"

definition arrowSchemaToParquet :: "field list \<Rightarrow> js_error + SchemaElement list \<times> descriptor list" where
  "arrowSchemaToParquet fs =
     bindR (mapR (\<lambda>f. bindR (arrowFieldToElement f) (\<lambda>(el, info). Inr (el, flat_column f info))) fs) (\<lambda>ps.
       Inr (root_element (int (length fs)) # map fst ps, map snd ps))"

subsection \<open>Parquet to Arrow\<close>

definition intFromWidth :: "int \<Rightarrow> bool \<Rightarrow> data_type" where
  "intFromWidth bitWidth isSigned =
     IntType (if bitWidth = 8 then 8 else if bitWidth = 16 then 16 else if bitWidth = 32 then 32 else 64) isSigned"

definition intFromConverted :: "int \<Rightarrow> data_type" where
  "intFromConverted converted =
     (if converted = CT_INT_8 then IntType 8 True else if converted = CT_INT_16 then IntType 16 True
      else if converted = CT_INT_32 then IntType 32 True else if converted = CT_UINT_8 then IntType 8 False
      else if converted = CT_UINT_16 then IntType 16 False else if converted = CT_UINT_32 then IntType 32 False
      else IntType 32 True)"

definition UTC :: text_string where "UTC = [85, 84, 67]"

definition timestampFromUnit :: "int \<Rightarrow> bool \<Rightarrow> data_type" where
  "timestampFromUnit unitId isUtc =
     TimestampType (if unitId = UNIT_MILLIS then MILLISECOND else if unitId = UNIT_NANOS then NANOSECOND else MICROSECOND)
       (if isUtc then Some UTC else None)"

text \<open>\<open>a ?? b\<close>, and \<open>a!.p\<close>, which throws on \<open>undefined\<close>.\<close>

fun nullish :: "'a option \<Rightarrow> 'a option \<Rightarrow> 'a option" where
  "nullish (Some x) y = Some x"
| "nullish None y = y"

definition forced :: "'a option \<Rightarrow> ('a \<Rightarrow> js_error + 'b) \<Rightarrow> js_error + 'b" where
  "forced x f = (case x of None \<Rightarrow> Inl UndefinedProperty | Some v \<Rightarrow> f v)"

definition has_kind :: "SchemaElement \<Rightarrow> string \<Rightarrow> bool" where
  "has_kind el k = (case el_logicalType el of None \<Rightarrow> False | Some l \<Rightarrow> lt_kind l = k)"

definition decimal_of :: "SchemaElement \<Rightarrow> int \<Rightarrow> nat \<Rightarrow> data_type" where
  "decimal_of el precision bitWidth =
     (let d = Option.bind (el_logicalType el) lt_decimal in
      DecimalType (the (nullish (el_precision el) (nullish (map_option dec_precision d) (Some precision))))
        (the (nullish (el_scale el) (nullish (map_option dec_scale d) (Some 0)))) bitWidth)"

text \<open>The branches of \<open>parquetLeafToArrow\<close>, one function per physical type: the Arrow type and both converters.\<close>

definition as_is :: "data_type \<Rightarrow> js_error + data_type \<times> converter \<times> converter" where
  "as_is type = Inr (type, Identity, Identity)"

definition integer_leaf :: "SchemaElement \<Rightarrow> js_error + data_type \<times> converter \<times> converter" where
  "integer_leaf el = forced (Option.bind (el_logicalType el) lt_integer) (\<lambda>i. as_is (intFromWidth (it_bitWidth i) (it_isSigned i)))"

definition is_decimal :: "SchemaElement \<Rightarrow> bool" where
  "is_decimal el \<longleftrightarrow> has_kind el ''decimal'' \<or> el_convertedType el = Some CT_DECIMAL"

definition int32_leaf :: "SchemaElement \<Rightarrow> js_error + data_type \<times> converter \<times> converter" where
  "int32_leaf el =
     (if is_decimal el then Inr (decimal_of el 9 32, BigIntOfNumber, NumberOfBigInt)
      else if has_kind el ''date'' \<or> el_convertedType el = Some CT_DATE then as_is (DateType 0)
      else if has_kind el ''time'' \<or> el_convertedType el = Some CT_TIME_MILLIS then as_is (TimeType MILLISECOND 32)
      else if has_kind el ''integer'' then integer_leaf el
      else case el_convertedType el of Some c \<Rightarrow> as_is (intFromConverted c) | None \<Rightarrow> as_is (IntType 32 True))"

definition int64_leaf :: "SchemaElement \<Rightarrow> js_error + data_type \<times> converter \<times> converter" where
  "int64_leaf el =
     (if is_decimal el then as_is (decimal_of el 18 64)
      else if has_kind el ''timestamp'' then
        forced (Option.bind (el_logicalType el) lt_timestamp) (\<lambda>t. as_is (timestampFromUnit (tu_unit (ts_unit t)) (ts_isAdjustedToUTC t)))
      else if el_convertedType el = Some CT_TIMESTAMP_MILLIS then as_is (TimestampType MILLISECOND (Some UTC))
      else if el_convertedType el = Some CT_TIMESTAMP_MICROS then as_is (TimestampType MICROSECOND (Some UTC))
      else if has_kind el ''time'' then
        forced (Option.bind (el_logicalType el) lt_time) (\<lambda>t. as_is
          (TimeType (if tu_unit (tt_unit t) = UNIT_NANOS then NANOSECOND else MICROSECOND) 64))
      else if el_convertedType el = Some CT_TIME_MICROS then as_is (TimeType MICROSECOND 64)
      else if has_kind el ''integer'' then integer_leaf el
      else if el_convertedType el = Some CT_UINT_64 then as_is (IntType 64 False)
      else as_is (IntType 64 True))"

definition byte_array_leaf :: "SchemaElement \<Rightarrow> js_error + data_type \<times> converter \<times> converter" where
  "byte_array_leaf el =
     (if is_decimal el then
        Inr (DecimalType (the (nullish (el_precision el) (Some 38))) (the (nullish (el_scale el) (Some 0))) 128,
          DecimalToBigInt, BigIntToDecimal 16)
      else if has_kind el ''string'' \<or> el_convertedType el \<in> {Some CT_UTF8, Some CT_ENUM, Some CT_JSON} then
        Inr (Utf8Type, DecodeUtf8, Identity)
      else as_is BinaryType)"

text \<open>\<open>bigIntToDecimalBytes(v, len)\<close> throws on a negative \<open>len\<close> when it is called, not here.\<close>

definition fixed_leaf :: "SchemaElement \<Rightarrow> js_error + data_type \<times> converter \<times> converter" where
  "fixed_leaf el =
     (let len = the (nullish (el_typeLength el) (Some 0)) in
      if has_kind el ''float16'' then Inr (FloatType 0, Float16ToNumber, NumberToFloat16)
      else if is_decimal el then
        Inr (decimal_of el 38 (if len > 16 then 256 else 128), DecimalToBigInt, BigIntToDecimal (nat len))
      else as_is (FixedSizeBinaryType len))"

definition parquetLeafToArrow :: "SchemaElement \<Rightarrow> js_error + data_type \<times> converter \<times> converter" where
  "parquetLeafToArrow el =
     (if el_type el = Some (int BOOLEAN) then as_is BoolType
      else if el_type el = Some (int INT32) then int32_leaf el
      else if el_type el = Some (int INT64) then int64_leaf el
      else if el_type el = Some (int INT96) then Inr (TimestampType NANOSECOND None, Int96ToNanos, Identity)
      else if el_type el = Some (int FLOAT) then as_is (FloatType 1)
      else if el_type el = Some (int DOUBLE) then as_is (FloatType 2)
      else if el_type el = Some (int BYTE_ARRAY) then byte_array_leaf el
      else if el_type el = Some (int FIXED_LEN_BYTE_ARRAY) then fixed_leaf el
      else Inl (ParquetError ''Parquet physical type is not supported''))"

definition element_nullable :: "SchemaElement \<Rightarrow> bool" where
  "element_nullable el \<longleftrightarrow> el_repetitionType el \<noteq> Some REQUIRED"

fun flat_columns :: "nat \<Rightarrow> SchemaElement list \<Rightarrow> js_error + descriptor list" where
  "flat_columns 0 els = Inr []"
| "flat_columns (Suc c) els =
     (case els of
        [] \<Rightarrow> Inl (ParquetError ''truncated Parquet schema'')
      | el # els \<Rightarrow>
          if the (nullish (el_numChildren el) (Some 0)) > 0 then Inl (ParquetError ''nested column requires the nested reader'')
          else bindR (parquetLeafToArrow el) (\<lambda>(type, decode, encode).
            let nullable = element_nullable el; f = Field (el_name el) type nullable None in
            bindR (flat_columns c els) (\<lambda>ds. Inr
              (\<lparr>ds_name = el_name el, ds_path = [el_name el],
                ds_physicalType = nat (the (nullish (el_type el) (Some (int BYTE_ARRAY)))), ds_typeLength = el_typeLength el,
                ds_maxDefinitionLevel = (if nullable then 1 else 0), ds_maxRepetitionLevel = 0, ds_arrowField = f,
                ds_decode = decode, ds_encode = encode\<rparr> # ds))))"

definition parquetSchemaToArrow :: "SchemaElement list \<Rightarrow> js_error + field list \<times> descriptor list" where
  "parquetSchemaToArrow schema =
     (case schema of
        [] \<Rightarrow> Inl (ParquetError ''empty Parquet schema'')
      | r # els \<Rightarrow> bindR (flat_columns (nat (the (nullish (el_numChildren r) (Some 0)))) els) (\<lambda>ds.
          Inr (map ds_arrowField ds, ds)))"

subsection \<open>Leaf types are read back\<close>

text \<open>The Arrow types that have a Parquet leaf of their own, and the type a written column is read as.\<close>

fun leaf_type :: "data_type \<Rightarrow> bool" where
  "leaf_type BoolType \<longleftrightarrow> True"
| "leaf_type (IntType bitWidth isSigned) \<longleftrightarrow> bitWidth \<in> {8, 16, 32, 64}"
| "leaf_type (FloatType precision) \<longleftrightarrow> precision \<in> {0, 1, 2}"
| "leaf_type (DecimalType precision scale bitWidth) \<longleftrightarrow> bitWidth \<in> {32, 64, 128, 256} \<and> int_range 32 precision \<and> int_range 32 scale"
| "leaf_type (DateType unit) \<longleftrightarrow> unit = 0"
| "leaf_type (TimeType unit bitWidth) \<longleftrightarrow> unit = MILLISECOND \<and> bitWidth = 32 \<or> unit \<in> {MICROSECOND, NANOSECOND} \<and> bitWidth = 64"
| "leaf_type (TimestampType unit timezone) \<longleftrightarrow> unit \<in> {MILLISECOND, MICROSECOND, NANOSECOND}"
| "leaf_type Utf8Type \<longleftrightarrow> True"
| "leaf_type BinaryType \<longleftrightarrow> True"
| "leaf_type (FixedSizeBinaryType byteWidth) \<longleftrightarrow> 0 \<le> byteWidth \<and> byteWidth < 2 ^ 31"
| "leaf_type type \<longleftrightarrow> False"

fun stored_type :: "data_type \<Rightarrow> data_type" where
  "stored_type (TimestampType unit timezone) = TimestampType unit (map_option (\<lambda>_. UTC) timezone)"
| "stored_type type = type"

lemmas leaf_defs = parquetLeafToArrow_def int32_leaf_def int64_leaf_def byte_array_leaf_def fixed_leaf_def leaf_element_def
  type_info_def logical_kind_def decimal_logical_def time_logical_def intConverted_def has_kind_def is_decimal_def as_is_def
  integer_leaf_def intFromWidth_def timestampFromUnit_def decimal_of_def forced_def ptype_defs

text \<open>What a page keeps of one value of a column, and the values of an Arrow leaf type. Unsigned integers past the
  signed range are kept as their two's complement, which the typed array of the vector reduces again; they have a
  statement of their own below.\<close>

fun store_value :: "nat \<Rightarrow> int option \<Rightarrow> column_value \<Rightarrow> column_value" where
  "store_value p typeLength (VNumber v) = VNumber (sint (word_of_int v :: 32 word))"
| "store_value p typeLength (VBigInt v) = VBigInt (sint (word_of_int v :: 64 word))"
| "store_value p typeLength (VBinary v) = VBinary (Bytes (if p = FIXED_LEN_BYTE_ARRAY
     then fixed_slot (nat (the (nullish typeLength (Some 0)))) (binary_bytes v) else binary_bytes v))"
| "store_value p typeLength v = v"

definition is_half :: "u64 \<Rightarrow> bool" where
  "is_half v \<longleftrightarrow> float16BytesToNumber (numberToFloat16Bytes v) = v"

text \<open>Every half but a NaN is such a number.\<close>

lemma half_is_half:
  assumes "h < 2 ^ 16" "\<not> (h div 2 ^ 10 mod 2 ^ 5 = 31 \<and> h mod 2 ^ 10 \<noteq> 0)"
  shows "is_half (half_to_double h)"
  using half_bytes [OF assms(1)] half_double_exact [OF assms] by (simp add: is_half_def numberToFloat16Bytes_def)

fun leaf_value :: "data_type \<Rightarrow> column_value \<Rightarrow> bool" where
  "leaf_value BoolType v \<longleftrightarrow> (case v of VBoolean b \<Rightarrow> True | _ \<Rightarrow> False)"
| "leaf_value (IntType bitWidth isSigned) v \<longleftrightarrow>
     (case v of VNumber n \<Rightarrow> bitWidth \<le> 32 \<and> int_range 32 n | VBigInt n \<Rightarrow> bitWidth = 64 \<and> int_range 64 n | _ \<Rightarrow> False)"
| "leaf_value (FloatType precision) v \<longleftrightarrow>
     (case v of VFloat b \<Rightarrow> precision = 1
      | VDouble b \<Rightarrow> precision = 2 \<or> precision = 0 \<and> is_half b
      | _ \<Rightarrow> False)"
| "leaf_value (DecimalType precision scale bitWidth) v \<longleftrightarrow>
     (case v of VBigInt n \<Rightarrow> - (2 ^ (bitWidth - 1)) \<le> n \<and> n < 2 ^ (bitWidth - 1) | _ \<Rightarrow> False)"
| "leaf_value (DateType unit) v \<longleftrightarrow> (case v of VNumber n \<Rightarrow> int_range 32 n | _ \<Rightarrow> False)"
| "leaf_value (TimeType unit bitWidth) v \<longleftrightarrow>
     (case v of VNumber n \<Rightarrow> bitWidth = 32 \<and> int_range 32 n | VBigInt n \<Rightarrow> bitWidth = 64 \<and> int_range 64 n | _ \<Rightarrow> False)"
| "leaf_value (TimestampType unit timezone) v \<longleftrightarrow> (case v of VBigInt n \<Rightarrow> int_range 64 n | _ \<Rightarrow> False)"
| "leaf_value Utf8Type v \<longleftrightarrow> (case v of VBinary (Str s) \<Rightarrow> text_decode (encodeUtf8 s) = s | _ \<Rightarrow> False)"
| "leaf_value BinaryType v \<longleftrightarrow> (case v of VBinary (Bytes b) \<Rightarrow> True | _ \<Rightarrow> False)"
| "leaf_value (FixedSizeBinaryType byteWidth) v \<longleftrightarrow> (case v of VBinary (Bytes b) \<Rightarrow> int (length b) = byteWidth | _ \<Rightarrow> False)"
| "leaf_value type v \<longleftrightarrow> False"

definition codec_of :: "data_type \<Rightarrow> ParquetTypeInfo \<Rightarrow> SchemaElement \<Rightarrow> bool" where
  "codec_of type info el \<longleftrightarrow> (\<exists>d e. parquetLeafToArrow el = Inr (stored_type type, d, e) \<and>
     (\<forall>v. leaf_value type v \<longrightarrow> (\<exists>p. convert (ti_encode info) v = Inr p \<and>
        convert d (store_value (ti_physicalType info) (ti_typeLength info) p) = Inr v)))"

lemma codec_ofI:
  assumes "parquetLeafToArrow el = Inr (stored_type type, d, e)"
    and "\<And>v. leaf_value type v \<Longrightarrow> \<exists>p. convert (ti_encode info) v = Inr p \<and>
        convert d (store_value (ti_physicalType info) (ti_typeLength info) p) = Inr v"
  shows "codec_of type info el"
  using assms by (auto simp: codec_of_def)

lemma sint_range:
  "int_range 32 v \<Longrightarrow> sint (word_of_int v :: 32 word) = v" "int_range 64 v \<Longrightarrow> sint (word_of_int v :: 64 word) = v"
  by (auto simp: int_range_def sint_word_ariths signed_take_bit_int_eq_self)

definition wide_decimal :: "int \<Rightarrow> int \<Rightarrow> nat \<Rightarrow> ParquetTypeInfo" where
  "wide_decimal x y n = (type_info FIXED_LEN_BYTE_ARRAY (Some CT_DECIMAL) (Some (decimal_logical y x)))
     \<lparr>ti_typeLength := Some (int n), ti_decode := DecimalToBigInt, ti_encode := BigIntToDecimal n\<rparr>"

lemma wide_decimal_codec:
  assumes "n = 16 \<or> n = 32"
  shows "codec_of (DecimalType x y (8 * n)) (wide_decimal x y n) (leaf_element name (wide_decimal x y n) nullable)"
proof (rule codec_ofI)
  show "parquetLeafToArrow (leaf_element name (wide_decimal x y n) nullable) =
      Inr (stored_type (DecimalType x y (8 * n)), DecimalToBigInt, BigIntToDecimal n)"
    using assms by (auto simp: wide_decimal_def leaf_defs)
  fix v assume lv: "leaf_value (DecimalType x y (8 * n)) v"
  from assms obtain k where n: "n = Suc k" by (cases n) auto
  have "(2::int) ^ (8 * n - 1) = 128 * 256 ^ k" by (simp add: n power_add power_mult)
  with lv n obtain i where v: "v = VBigInt i" "- (128 * 256 ^ (n - 1)) \<le> i" "i < 128 * 256 ^ (n - 1)"
    by (cases v) auto
  from decimal_codec [OF _ v(2,3)] n
  have "decimalBytesToBigInt (fixed_slot n (bigIntToDecimalBytes i n)) = i" by (simp add: fixed_slot_def)
  then show "\<exists>p. convert (ti_encode (wide_decimal x y n)) v = Inr p \<and>
      convert DecimalToBigInt (store_value (ti_physicalType (wide_decimal x y n)) (ti_typeLength (wide_decimal x y n)) p) = Inr v"
    by (simp add: v(1) wide_decimal_def type_info_def)
qed

lemma leaf_codec:
  assumes "leaf_type type"
  shows "\<exists>info. arrowTypeToParquet type = Inr info \<and> codec_of type info (leaf_element name info nullable)"
proof (cases type)
  case BoolType
  then show ?thesis by (auto intro!: codec_ofI simp: leaf_defs  split: column_value.splits binary_value.splits)
next
  case (IntType w s)
  then show ?thesis using assms
    by (auto intro!: codec_ofI simp: leaf_defs sint_range  split: column_value.splits binary_value.splits)
next
  case (FloatType p)
  have "\<exists>p. convert NumberToFloat16 v = Inr p \<and> convert Float16ToNumber (store_value FIXED_LEN_BYTE_ARRAY (Some 2) p) = Inr v"
    if "leaf_value (FloatType 0) v" for v
    using that by (cases v) (auto simp: is_half_def fixed_slot_def numberToFloat16Bytes_def)
  moreover have "\<exists>p. convert Identity v = Inr p \<and> convert Identity (store_value k None p) = Inr v"
    if "leaf_value (FloatType p) v" "p = 1 \<or> p = 2" for v k p
    using that by (cases v) auto
  ultimately show ?thesis using assms FloatType
    by (auto intro!: codec_ofI simp: leaf_defs simp del: store_value.simps leaf_value.simps convert.simps)
next
  case (DecimalType x y z)
  have narrow: "\<exists>p. convert NumberOfBigInt v = Inr p \<and> convert BigIntOfNumber (store_value INT32 None p) = Inr v"
    if "leaf_value (DecimalType x y 32) v" for v
    using that number_of_small sint_range(1) by (cases v) (auto simp: int_range_def)
  have long: "\<exists>p. convert Identity v = Inr p \<and> convert Identity (store_value INT64 None p) = Inr v"
    if "leaf_value (DecimalType x y 64) v" for v
    using that sint_range(2) by (cases v) (auto simp: int_range_def)
  consider "z = 32" | "z = 64" | "z = 128" | "z = 256" using assms DecimalType by auto
  then show ?thesis
  proof cases
    case 1
    with DecimalType narrow show ?thesis
      by (simp del: leaf_value.simps convert.simps store_value.simps) (rule codec_ofI, simp add: leaf_defs, simp add: type_info_def del: leaf_value.simps convert.simps store_value.simps)
  next
    case 2
    with DecimalType long show ?thesis
      by (simp del: leaf_value.simps convert.simps store_value.simps) (rule codec_ofI, simp add: leaf_defs, simp add: type_info_def del: leaf_value.simps convert.simps store_value.simps)
  next
    case 3
    with wide_decimal_codec [of 16 x y name nullable] show ?thesis by (simp add: DecimalType wide_decimal_def)
  next
    case 4
    with wide_decimal_codec [of 32 x y name nullable] show ?thesis by (simp add: DecimalType wide_decimal_def)
  qed
next
  case (DateType u)
  then show ?thesis using assms by (auto intro!: codec_ofI simp: leaf_defs sint_range  split: column_value.splits binary_value.splits)
next
  case (TimeType u w)
  then show ?thesis using assms by (auto intro!: codec_ofI simp: leaf_defs Let_def sint_range  split: column_value.splits binary_value.splits)
next
  case (TimestampType u z)
  then show ?thesis using assms by (cases z) (auto intro!: codec_ofI simp: leaf_defs Let_def sint_range  split: column_value.splits binary_value.splits)
next
  case Utf8Type
  then show ?thesis using assms by (auto intro!: codec_ofI simp: leaf_defs  split: column_value.splits binary_value.splits)
next
  case BinaryType
  then show ?thesis using assms by (auto intro!: codec_ofI simp: leaf_defs  split: column_value.splits binary_value.splits)
next
  case (FixedSizeBinaryType n)
  then show ?thesis using assms by (auto intro!: codec_ofI simp: leaf_defs fixed_slot_def  split: column_value.splits binary_value.splits)
qed (use assms in simp_all)

text \<open>An integer as a column holds it, and what a page keeps of an unsigned one.\<close>

definition int_value :: "nat \<Rightarrow> int \<Rightarrow> column_value" where
  "int_value w n = (if w \<le> 32 then VNumber n else VBigInt n)"

lemma unsigned_stored:
  assumes "w \<in> {8, 16, 32, 64}" "0 \<le> n" "n < 2 ^ w"
  shows "\<exists>m. store_value p len (int_value w n) = int_value w m \<and> take_bit w m = n"
proof -
  have m: "take_bit 32 (sint (word_of_int n :: 32 word)) = take_bit 32 n" "take_bit 64 (sint (word_of_int n :: 64 word)) = take_bit 64 n"
    by (transfer; simp add: take_bit_signed_take_bit)+
  have "take_bit w (take_bit 32 i) = take_bit w i" if "w \<le> 32" for i :: int using that by simp
  then have "take_bit w (sint (word_of_int n :: 32 word)) = n" if "w \<le> 32"
    using that assms(2,3) m(1) by (metis take_bit_int_eq_self)
  then show ?thesis using assms m(2) by (auto simp: int_value_def take_bit_int_eq_self)
qed

lemma unsigned_codec:
  assumes "leaf_type (IntType w False)" "0 \<le> n" "n < 2 ^ w" "arrowTypeToParquet (IntType w False) = Inr info"
    "parquetLeafToArrow (leaf_element name info nullable) = Inr (t, d, e)"
  shows "\<exists>p m. convert (ti_encode info) (int_value w n) = Inr p \<and>
    convert d (store_value (ti_physicalType info) (ti_typeLength info) p) = Inr (int_value w m) \<and> take_bit w m = n"
proof -
  have "ti_encode info = Identity" "d = Identity" using assms(1,4,5) by (auto simp: leaf_defs)
  then show ?thesis using unsigned_stored [OF _ assms(2,3)] assms(1) by auto
qed


text \<open>A column of seconds is labelled as microseconds, although no value is scaled.\<close>

theorem second_timestamps_mislabelled:
  "\<exists>info. arrowTypeToParquet (TimestampType SECOND None) = Inr info \<and>
    parquetLeafToArrow (leaf_element name info nullable) = Inr (TimestampType MICROSECOND None, Identity, Identity) \<and>
    ti_encode info = Identity"
  by (simp add: leaf_defs Let_def)

text \<open>A decimal annotated only by its logical type loses its scale when it is stored as BYTE_ARRAY.\<close>

theorem byte_array_decimal_scale_lost:
  "parquetLeafToArrow \<lparr>el_type = Some (int BYTE_ARRAY), el_typeLength = None, el_repetitionType = Some REQUIRED, el_name = name,
     el_numChildren = None, el_convertedType = None, el_scale = None, el_precision = None, el_fieldId = None,
     el_logicalType = Some (decimal_logical 2 20)\<rparr> = Inr (DecimalType 38 0 128, DecimalToBigInt, BigIntToDecimal 16)"
  by (simp add: leaf_defs)

end
