(* ===== verification/Arrow_Vector.thy ===== *)
theory Arrow_Vector
  imports Parquet_Types
begin

text \<open>
  \<open>data/arrow/vector.ts\<close>: columns over raw little-endian buffers.

  A \<open>vector\<close> holds what \<open>VectorData\<close> holds, the class of the object following from its type. Buffers are byte lists; an
  element is \<open>undefined\<close>, \<open>null\<close> or a value as in the Parquet converters: integers up to 32 bits are numbers, wider
  ones and decimals bigints, a single-precision float its 32 bits and any other float its 64 bits, strings and
  byte arrays as such. Values of a kind that the column's type does not have are not modelled: \<open>outside_model\<close> marks
  them.
\<close>

type_synonym js_data = "column_value js_value"

definition outside_model :: js_error where "outside_model = ArrowError ''value outside the model''"

datatype vector = Vector
  (vd_type: data_type) (vd_length: nat) (vd_nullCount: "int option") (vd_validity: "byte list option") (vd_offset: nat)
  (vd_values: "byte list option") (vd_valueOffsets: "byte list option") (vd_sizes: "byte list option")
  (vd_views: "byte list option") (vd_variadicBuffers: "byte list list") (vd_typeIds: "byte list option")
  (vd_children: "vector list") (vd_dictionary: "vector option")

definition bitGet :: "byte list \<Rightarrow> nat \<Rightarrow> bool" where
  "bitGet bitmap i \<longleftrightarrow> bit_at bitmap i"

definition readLeBigInt :: "byte list \<Rightarrow> nat \<Rightarrow> nat \<Rightarrow> bool \<Rightarrow> js_error + int" where
  "readLeBigInt bytes offset byteLength isSigned =
     (if length bytes < offset + byteLength then Inl UndefinedProperty
      else let value = foldl (\<lambda>v i. push_bit 8 v OR int (unat (bytes ! (offset + i)))) 0 (rev [0..<byteLength]) in
        Inr (if isSigned \<and> 0 < offset + byteLength \<and> bytes ! (offset + byteLength - 1) AND 128 \<noteq> 0
          then value - push_bit (byteLength * 8) 1 else value))"

subsection \<open>Reading\<close>

text \<open>A property of the raw data that the constructor needs.\<close>

definition needed :: "'a option \<Rightarrow> js_error + 'a" where
  "needed x = (case x of None \<Rightarrow> Inl UndefinedProperty | Some y \<Rightarrow> Inr y)"

definition signed_of :: "nat \<Rightarrow> bool \<Rightarrow> nat \<Rightarrow> int" where
  "signed_of w isSigned n = (if isSigned then signed_take_bit (w - 1) (int n) else int n)"

definition getInt :: "nat \<Rightarrow> bool \<Rightarrow> byte list \<Rightarrow> nat \<Rightarrow> js_error + int" where
  "getInt w isSigned bytes pos = bindR (get_le (w div 8) bytes pos) (\<lambda>n. Inr (signed_of w isSigned n))"

definition number_at :: "byte list \<Rightarrow> nat \<Rightarrow> js_error + js_data" where
  "number_at bytes pos = bindR (getInt 32 True bytes pos) (\<lambda>n. Inr (Prim (VNumber n)))"

definition bigint_at :: "byte list \<Rightarrow> nat \<Rightarrow> js_error + js_data" where
  "bigint_at bytes pos = bindR (getInt 64 True bytes pos) (\<lambda>n. Inr (Prim (VBigInt n)))"

abbreviation (input) days_name :: text_string where "days_name \<equiv> [100, 97, 121, 115]"
abbreviation (input) milliseconds_name :: text_string where
  "milliseconds_name \<equiv> [109, 105, 108, 108, 105, 115, 101, 99, 111, 110, 100, 115]"
abbreviation (input) months_name :: text_string where "months_name \<equiv> [109, 111, 110, 116, 104, 115]"
abbreviation (input) nanoseconds_name :: text_string where
  "nanoseconds_name \<equiv> [110, 97, 110, 111, 115, 101, 99, 111, 110, 100, 115]"

definition primitive_value :: "data_type \<Rightarrow> byte list \<Rightarrow> nat \<Rightarrow> js_error + js_data" where
  "primitive_value type bytes i =
     (let pos = i * nat (fixedWidthBytes type) in
      case type of
        IntType bitWidth isSigned \<Rightarrow>
          if bitWidth \<in> {8, 16, 32} then bindR (getInt bitWidth isSigned bytes pos) (\<lambda>n. Inr (Prim (VNumber n)))
          else if bitWidth = 64 then bindR (getInt 64 isSigned bytes pos) (\<lambda>n. Inr (Prim (VBigInt n)))
          else Inr (Prim (VNumber 0))
      | FloatType precision \<Rightarrow>
          if precision = 0 then bindR (get_le 2 bytes pos) (\<lambda>n. Inr (Prim (VDouble (half_to_double n))))
          else if precision = 1 then bindR (getFloat32 bytes pos) (\<lambda>n. Inr (Prim (VFloat n)))
          else bindR (getFloat64 bytes pos) (\<lambda>n. Inr (Prim (VDouble n)))
      | DateType unit \<Rightarrow> if unit = 0 then number_at bytes pos else bigint_at bytes pos
      | TimeType unit bitWidth \<Rightarrow> if bitWidth = 32 then number_at bytes pos else bigint_at bytes pos
      | TimestampType unit timezone \<Rightarrow> bigint_at bytes pos
      | DurationType unit \<Rightarrow> bigint_at bytes pos
      | IntervalType unit \<Rightarrow>
          if unit = 0 then number_at bytes pos
          else if unit = 1 then bindR (number_at bytes pos) (\<lambda>d. bindR (number_at bytes (pos + 4)) (\<lambda>ms.
            Inr (Obj [(days_name, d), (milliseconds_name, ms)])))
          else bindR (number_at bytes pos) (\<lambda>m. bindR (number_at bytes (pos + 4)) (\<lambda>d. bindR (bigint_at bytes (pos + 8)) (\<lambda>ns.
            Inr (Obj [(months_name, m), (days_name, d), (nanoseconds_name, ns)]))))
      | _ \<Rightarrow> Inr (Prim (VNumber 0)))"

definition offset_at :: "bool \<Rightarrow> byte list \<Rightarrow> nat \<Rightarrow> js_error + int" where
  "offset_at large bytes i = (if large then bindR (getBigInt64 bytes (i * 8)) (\<lambda>n. Inr (number_of_bigint n)) else getInt32 bytes (i * 4))"

definition text_or_bytes :: "bool \<Rightarrow> byte list \<Rightarrow> js_data" where
  "text_or_bytes utf8 b = Prim (VBinary (if utf8 then Str (text_decode b) else Bytes b))"

definition var_binary_value :: "bool \<Rightarrow> bool \<Rightarrow> byte list \<Rightarrow> byte list \<Rightarrow> nat \<Rightarrow> js_error + js_data" where
  "var_binary_value large utf8 offsets bytes i =
     bindR (offset_at large offsets i) (\<lambda>from. bindR (offset_at large offsets (i + 1)) (\<lambda>to.
       Inr (text_or_bytes utf8 (subarray bytes from to))))"

definition view_value :: "bool \<Rightarrow> byte list \<Rightarrow> byte list list \<Rightarrow> nat \<Rightarrow> js_error + js_data" where
  "view_value utf8 views buffers i =
     (let base = i * 16 in
      bindR (getInt32 views base) (\<lambda>len.
        if len \<le> 12 then Inr (text_or_bytes utf8 (subarray views (int base + 4) (int base + 4 + len)))
        else bindR (getInt32 views (base + 8)) (\<lambda>bufIndex. bindR (getInt32 views (base + 12)) (\<lambda>bufOffset.
          if 0 \<le> bufIndex \<and> bufIndex < int (length buffers)
          then Inr (text_or_bytes utf8 (subarray (buffers ! nat bufIndex) bufOffset (bufOffset + len)))
          else Inl UndefinedProperty))))"

text \<open>\<open>new Array(n)\<close> filled from a loop over \<open>n\<close> indices.\<close>

definition int_range_list :: "int \<Rightarrow> int \<Rightarrow> int list" where
  "int_range_list from to = map (\<lambda>k. from + int k) [0..<nat (to - from)]"

definition collect_items :: "(int \<Rightarrow> js_error + js_data) \<Rightarrow> int \<Rightarrow> int \<Rightarrow> js_error + js_data list" where
  "collect_items item from to = bindR (new_array (to - from)) (\<lambda>_. mapR item (int_range_list from to))"

text \<open>\<open>Object.keys\<close>: array indices ascending, then the other names in the order they were first set.\<close>

definition array_index :: "text_string \<Rightarrow> nat option" where
  "array_index s =
     (if s = [] \<or> list_ex (\<lambda>c. digit_value c = None) s \<or> hd s = 48 \<and> s \<noteq> [48] then None
      else let n = foldl (\<lambda>n c. 10 * n + the (digit_value c)) 0 s in if n < 2 ^ 32 - 1 then Some n else None)"

definition own_keys :: "(text_string \<times> 'a) list \<Rightarrow> text_string list" where
  "own_keys ps =
     (let ks = rev (remdups (rev (map fst ps))) in
      sort_key (\<lambda>k. the (array_index k)) (filter (\<lambda>k. array_index k \<noteq> None) ks) @ filter (\<lambda>k. array_index k = None) ks)"

definition entry_of :: "js_data \<Rightarrow> js_error + js_data" where
  "entry_of e = (case e of
     Obj ps \<Rightarrow> (let ks = own_keys ps; key_at = (\<lambda>i. if i < length ks then property e (ks ! i) else Undefined) in
       Inr (Arr [key_at 0, key_at 1]))
   | _ \<Rightarrow> Inl UndefinedProperty)"

text \<open>\<open>Number(runEnds.get(mid)) <= i\<close>.\<close>

fun run_end_le :: "nat \<Rightarrow> js_data \<Rightarrow> js_error + bool" where
  "run_end_le i (Prim (VNumber n)) = Inr (n \<le> int i)"
| "run_end_le i (Prim (VBigInt n)) = Inr (number_of_bigint n \<le> int i)"
| "run_end_le i Null = Inr True"
| "run_end_le i Undefined = Inr False"
| "run_end_le i v = Inl outside_model"

text \<open>The binary search. \<open>(lo + hi) >> 1\<close> is a signed 32-bit shift, negative from \<open>2 ^ 31\<close> on; reading a negative index
  gives \<open>undefined\<close>, which is not below the position, so the loop then stops. Past \<open>2 ^ 32\<close> the middle may lie before
  \<open>lo\<close> and the loop need not end: the fuel bounds its iterations.\<close>

fun run_search :: "nat \<Rightarrow> (int \<Rightarrow> js_error + bool) \<Rightarrow> int \<Rightarrow> int \<Rightarrow> js_error + int" where
  "run_search 0 before lo hi = Inl outside_model"
| "run_search (Suc fuel) before lo hi =
     (if lo < hi then
        let mid = shr32 (nat (lo + hi)) 1 in
        bindR (before mid) (\<lambda>b. if b then run_search fuel before (mid + 1) hi else run_search fuel before lo mid)
      else Inr lo)"

fun key_number :: "js_data \<Rightarrow> js_error + int" where
  "key_number (Prim (VNumber n)) = Inr n"
| "key_number (Prim (VBigInt n)) = Inr (number_of_bigint n)"
| "key_number v = Inl outside_model"

definition has_validity :: "data_type \<Rightarrow> bool" where
  "has_validity type \<longleftrightarrow> (case type of UnionType m ids fs \<Rightarrow> False | RunEndEncodedType r v \<Rightarrow> False | _ \<Rightarrow> True)"

definition isValid :: "vector \<Rightarrow> nat \<Rightarrow> bool" where
  "isValid v i \<longleftrightarrow> \<not> has_validity (vd_type v) \<or>
     (case vd_validity v of None \<Rightarrow> True | Some bitmap \<Rightarrow> bitGet bitmap (vd_offset v + i))"

definition union_child :: "nat list \<Rightarrow> byte list \<Rightarrow> nat \<Rightarrow> nat option" where
  "union_child ids typeIds i =
     (if i < length typeIds then map_of (rev (zip ids [0..<length ids])) (unat (typeIds ! i)) else None)"

definition first_child :: "'a list \<Rightarrow> js_error + 'a" where
  "first_child cs = (case cs of [] \<Rightarrow> Inl UndefinedProperty | c # _ \<Rightarrow> Inr c)"

lemma child_size: "c \<in> set (vd_children v) \<Longrightarrow> Suc (2 * size c) < 2 * size v"
proof -
  assume "c \<in> set (vd_children v)"
  then have "size c < size v"
    by (cases v) (auto simp: less_Suc_eq_le intro: size_list_estimation' trans_le_add1 le_SucI)
  then show ?thesis by simp
qed

lemma first_child_member: "first_child cs = Inr c \<Longrightarrow> c \<in> set cs"
  by (auto simp: first_child_def split: list.splits)

lemma dictionary_size: "vd_dictionary v = Some d \<Longrightarrow> Suc (2 * size d) < 2 * size v"
  by (cases v) auto

lemma needed_eq [simp]: "needed x = Inr y \<longleftrightarrow> x = Some y"
  by (simp add: needed_def split: option.split)

function get :: "vector \<Rightarrow> int \<Rightarrow> js_error + js_data" and getValue :: "vector \<Rightarrow> nat \<Rightarrow> js_error + js_data" where
  "get v i =
     (if vd_type v = NullType then Inr Null
      else if i < 0 \<or> int (vd_length v) \<le> i then Inr Undefined
      else if \<not> isValid v (nat i) then Inr Null
      else getValue v (vd_offset v + nat i))"
| "getValue v i = (case vd_type v of
     NullType \<Rightarrow> Inr Null
   | BoolType \<Rightarrow> bindR (needed (vd_values v)) (\<lambda>b. Inr (Prim (VBoolean (bitGet b i))))
   | DecimalType precision scale bitWidth \<Rightarrow> bindR (needed (vd_values v)) (\<lambda>b.
       bindR (readLeBigInt b (i * (bitWidth div 8)) (bitWidth div 8) True) (\<lambda>n. Inr (Prim (VBigInt n))))
   | FixedSizeBinaryType byteWidth \<Rightarrow> bindR (needed (vd_values v)) (\<lambda>b.
       Inr (Prim (VBinary (Bytes (subarray b (int i * byteWidth) ((int i + 1) * byteWidth))))))
   | Utf8Type \<Rightarrow> bindR (needed (vd_valueOffsets v)) (\<lambda>os. var_binary_value False True os (the (nullish (vd_values v) (Some []))) i)
   | LargeUtf8Type \<Rightarrow> bindR (needed (vd_valueOffsets v)) (\<lambda>os. var_binary_value True True os (the (nullish (vd_values v) (Some []))) i)
   | BinaryType \<Rightarrow> bindR (needed (vd_valueOffsets v)) (\<lambda>os. var_binary_value False False os (the (nullish (vd_values v) (Some []))) i)
   | LargeBinaryType \<Rightarrow> bindR (needed (vd_valueOffsets v)) (\<lambda>os. var_binary_value True False os (the (nullish (vd_values v) (Some []))) i)
   | Utf8ViewType \<Rightarrow> bindR (needed (vd_views v)) (\<lambda>vs. view_value True vs (vd_variadicBuffers v) i)
   | BinaryViewType \<Rightarrow> bindR (needed (vd_views v)) (\<lambda>vs. view_value False vs (vd_variadicBuffers v) i)
   | ListType f \<Rightarrow> bindR (first_child (vd_children v)) (\<lambda>c. bindR (needed (vd_valueOffsets v)) (\<lambda>os.
       bindR (offset_at False os i) (\<lambda>from. bindR (offset_at False os (i + 1)) (\<lambda>to.
       bindR (collect_items (get c) from to) (\<lambda>xs. Inr (Arr xs))))))
   | LargeListType f \<Rightarrow> bindR (first_child (vd_children v)) (\<lambda>c. bindR (needed (vd_valueOffsets v)) (\<lambda>os.
       bindR (offset_at True os i) (\<lambda>from. bindR (offset_at True os (i + 1)) (\<lambda>to.
       bindR (collect_items (get c) from to) (\<lambda>xs. Inr (Arr xs))))))
   | ListViewType f \<Rightarrow> bindR (first_child (vd_children v)) (\<lambda>c. bindR (needed (vd_valueOffsets v)) (\<lambda>os. bindR (needed (vd_sizes v)) (\<lambda>ss.
       bindR (offset_at False os i) (\<lambda>from. bindR (offset_at False ss i) (\<lambda>n.
       bindR (collect_items (get c) from (from + n)) (\<lambda>xs. Inr (Arr xs)))))))
   | LargeListViewType f \<Rightarrow> bindR (first_child (vd_children v)) (\<lambda>c. bindR (needed (vd_valueOffsets v)) (\<lambda>os. bindR (needed (vd_sizes v)) (\<lambda>ss.
       bindR (offset_at True os i) (\<lambda>from. bindR (offset_at True ss i) (\<lambda>n.
       bindR (collect_items (get c) from (from + n)) (\<lambda>xs. Inr (Arr xs)))))))
   | FixedSizeListType listSize f \<Rightarrow> bindR (first_child (vd_children v)) (\<lambda>c.
       bindR (collect_items (get c) (int (i * listSize)) (int (i * listSize + listSize))) (\<lambda>xs. Inr (Arr xs)))
   | StructType fs \<Rightarrow> bindR (mapR (\<lambda>(c, k). if k < length fs then map_sum id (Pair (fd_name (fs ! k))) (get c (int i)) else Inl UndefinedProperty)
       (zip (vd_children v) [0..<length (vd_children v)])) (\<lambda>ps. Inr (Obj ps))
   | MapType keysSorted f \<Rightarrow> bindR (first_child (vd_children v)) (\<lambda>c. bindR (needed (vd_valueOffsets v)) (\<lambda>os.
       bindR (offset_at False os i) (\<lambda>from. bindR (offset_at False os (i + 1)) (\<lambda>to.
       bindR (collect_items (\<lambda>j. bindR (get c j) entry_of) from to) (\<lambda>xs. Inr (Arr xs))))))
   | UnionType mode ids fs \<Rightarrow> bindR (needed (vd_typeIds v)) (\<lambda>ts. case union_child ids ts i of
         None \<Rightarrow> Inr Null
       | Some k \<Rightarrow> if length (vd_children v) \<le> k then Inl UndefinedProperty
           else if mode = 1 then bindR (needed (vd_valueOffsets v)) (\<lambda>os. bindR (getInt32 os (i * 4)) (\<lambda>row. get (vd_children v ! k) row))
           else get (vd_children v ! k) (int i))
   | DictionaryType j indexType valueType isOrdered \<Rightarrow> bindR (needed (vd_values v)) (\<lambda>b. bindR (needed (vd_dictionary v)) (\<lambda>d.
       bindR (primitive_value indexType b i) (\<lambda>key. bindR (key_number key) (\<lambda>k. get d k))))
   | RunEndEncodedType re vs \<Rightarrow> (case vd_children v of
       runEnds # vals # _ \<Rightarrow> bindR (run_search (Suc (vd_length runEnds)) (\<lambda>mid. bindR (get runEnds mid) (run_end_le i)) 0 (int (vd_length runEnds) - 1)) (\<lambda>lo. get vals lo)
     | _ \<Rightarrow> Inl UndefinedProperty)
   | _ \<Rightarrow> bindR (needed (vd_values v)) (\<lambda>b. primitive_value (vd_type v) b i))"
  by pat_completeness auto
termination
  by (relation "measure (\<lambda>x. case x of Inl (v, i) \<Rightarrow> 2 * size v + 1 | Inr (v, i) \<Rightarrow> 2 * size v)")
    (auto dest: set_zip_leftD first_child_member intro: child_size dictionary_size simp: not_le)

declare get.simps [simp del] getValue.simps [simp del]

definition nullCount :: "vector \<Rightarrow> int" where
  "nullCount v = (case vd_nullCount v of
     Some n \<Rightarrow> if 0 \<le> n then n else (case vd_validity v of None \<Rightarrow> 0
       | Some bitmap \<Rightarrow> int (length (filter (\<lambda>i. \<not> bitGet bitmap (vd_offset v + i)) [0..<vd_length v])))
   | None \<Rightarrow> (case vd_validity v of None \<Rightarrow> 0
       | Some bitmap \<Rightarrow> int (length (filter (\<lambda>i. \<not> bitGet bitmap (vd_offset v + i)) [0..<vd_length v]))))"

definition toArray :: "vector \<Rightarrow> js_error + js_data list" where
  "toArray v = mapR (\<lambda>i. get v (int i)) [0..<vd_length v]"

subsection \<open>Construction\<close>

definition is_primitive :: "data_type \<Rightarrow> bool" where
  "is_primitive type \<longleftrightarrow> (case type of IntType w s \<Rightarrow> True | FloatType p \<Rightarrow> True | DateType u \<Rightarrow> True | TimeType u w \<Rightarrow> True
     | TimestampType u z \<Rightarrow> True | DurationType u \<Rightarrow> True | IntervalType u \<Rightarrow> True | _ \<Rightarrow> False)"

text \<open>The constructors that open a \<open>DataView\<close> throw without its buffer. The indices of a dictionary are primitive.\<close>

definition makeVector :: "vector \<Rightarrow> js_error + vector" where
  "makeVector d =
     (let with_offsets = bindR (needed (vd_valueOffsets d)) (\<lambda>_. Inr d) in
      case vd_type d of
        Utf8Type \<Rightarrow> with_offsets | LargeUtf8Type \<Rightarrow> with_offsets | BinaryType \<Rightarrow> with_offsets | LargeBinaryType \<Rightarrow> with_offsets
      | Utf8ViewType \<Rightarrow> bindR (needed (vd_views d)) (\<lambda>_. Inr d) | BinaryViewType \<Rightarrow> bindR (needed (vd_views d)) (\<lambda>_. Inr d)
      | ListType f \<Rightarrow> with_offsets | LargeListType f \<Rightarrow> with_offsets | MapType k f \<Rightarrow> with_offsets
      | ListViewType f \<Rightarrow> bindR with_offsets (\<lambda>_. bindR (needed (vd_sizes d)) (\<lambda>_. Inr d))
      | LargeListViewType f \<Rightarrow> bindR with_offsets (\<lambda>_. bindR (needed (vd_sizes d)) (\<lambda>_. Inr d))
      | DictionaryType j indexType valueType isOrdered \<Rightarrow>
          if is_primitive indexType then bindR (needed (vd_values d)) (\<lambda>_. Inr d) else Inl outside_model
      | type \<Rightarrow> if is_primitive type then bindR (needed (vd_values d)) (\<lambda>_. Inr d) else Inr d)"

text \<open>\<open>rawData\<close>: the buffers of the layout.\<close>

definition keep :: "bool \<Rightarrow> 'a option \<Rightarrow> 'a option" where
  "keep b x = (if b then x else None)"

definition with_layout :: "data_type \<Rightarrow> BufferKind list" where
  "with_layout type = (case type of DictionaryType j i v d \<Rightarrow> [Validity, Data] | _ \<Rightarrow> bufferLayout type)"

definition rawData :: "vector \<Rightarrow> vector" where
  "rawData v =
     (let l = with_layout (vd_type v) in
      Vector (vd_type v) (vd_length v) None (vd_validity v) (vd_offset v) (keep (Data \<in> set l) (vd_values v))
        (keep (Offset32 \<in> set l \<or> Offset64 \<in> set l) (vd_valueOffsets v)) (keep (Size32 \<in> set l \<or> Size64 \<in> set l) (vd_sizes v))
        (keep (Views \<in> set l) (vd_views v)) (if Views \<in> set l then vd_variadicBuffers v else [])
        (keep (TypeIds \<in> set l) (vd_typeIds v)) (vd_children v)
        (keep (case vd_type v of DictionaryType j i t ord \<Rightarrow> True | _ \<Rightarrow> False) (vd_dictionary v)))"

fun resized :: "nat \<Rightarrow> nat \<Rightarrow> int option \<Rightarrow> vector \<Rightarrow> vector" where
  "resized len off nulls (Vector t l n val off' vs os ss ws bs ts cs d) = Vector t len nulls val off vs os ss ws bs ts cs d"

definition slice :: "vector \<Rightarrow> nat \<Rightarrow> nat \<Rightarrow> js_error + vector" where
  "slice v begin to = makeVector (resized (min to (vd_length v) - begin) (vd_offset v + begin) (Some (- 1)) (rawData v))"

subsection \<open>Building\<close>

definition makeValidity :: "js_data list \<Rightarrow> js_error + byte list option \<times> nat" where
  "makeValidity vals =
     (let nulls = length (filter absent_value vals) in
      if nulls = 0 then Inr (None, 0)
      else bindR (packed_booleans (map (\<lambda>v. \<not> absent_value v) vals)) (\<lambda>bits. Inr (Some bits, nulls)))"

text \<open>The call of \<open>makeVector\<close> that ends every case of the builder.\<close>

definition built_with :: "byte list option \<times> nat \<Rightarrow> data_type \<Rightarrow> js_data list \<Rightarrow> byte list option \<Rightarrow> byte list option \<Rightarrow> vector list \<Rightarrow> js_error + vector" where
  "built_with validity type vals buffer offsets cs =
     makeVector (Vector type (length vals) (Some (int (snd validity))) (fst validity) 0 buffer offsets None None [] None cs None)"

fun truthy :: "js_data \<Rightarrow> bool" where
  "truthy Undefined = False"
| "truthy Null = False"
| "truthy (Prim (VBoolean b)) = b"
| "truthy (Prim (VNumber n)) = (n \<noteq> 0)"
| "truthy (Prim (VBigInt n)) = (n \<noteq> 0)"
| "truthy (Prim (VFloat n)) = (n AND 0x7FFFFFFF \<noteq> 0 \<and> n AND 0x7FFFFFFF \<le> 0x7F800000)"
| "truthy (Prim (VDouble n)) = (n AND 0x7FFFFFFFFFFFFFFF \<noteq> 0 \<and> n AND 0x7FFFFFFFFFFFFFFF \<le> 0x7FF0000000000000)"
| "truthy (Prim (VBinary (Str s))) = (s \<noteq> [])"
| "truthy v = True"

text \<open>\<open>Number(v)\<close> and \<open>BigInt(v)\<close> of an integer.\<close>

fun as_number :: "js_data \<Rightarrow> js_error + int" where
  "as_number (Prim (VNumber n)) = Inr n"
| "as_number (Prim (VBigInt n)) = Inr (number_of_bigint n)"
| "as_number v = Inl outside_model"

fun as_bigint :: "js_data \<Rightarrow> js_error + int" where
  "as_bigint (Prim (VNumber n)) = Inr n"
| "as_bigint (Prim (VBigInt n)) = Inr n"
| "as_bigint v = Inl outside_model"

definition int_bytes :: "nat \<Rightarrow> int \<Rightarrow> byte list" where
  "int_bytes w n = le_bytes (w div 8) (nat (take_bit w n))"

definition scalar_bytes :: "data_type \<Rightarrow> js_data \<Rightarrow> js_error + byte list" where
  "scalar_bytes type v = (case type of
     IntType bitWidth isSigned \<Rightarrow>
       if bitWidth \<in> {8, 16, 32} then bindR (as_number v) (\<lambda>n. Inr (int_bytes bitWidth n))
       else if bitWidth = 64 then bindR (as_bigint v) (\<lambda>n. Inr (int_bytes 64 n))
       else Inr (replicate (bitWidth div 8) 0)
   | FloatType precision \<Rightarrow> (case v of
       Prim (VDouble d) \<Rightarrow> if precision = 0 then Inr (le_bytes 2 (double_to_half d)) else if precision = 1 then Inl outside_model
         else Inr (le_bytes 8 (unat d))
     | Prim (VFloat d) \<Rightarrow> if precision = 1 then Inr (le_bytes 4 (unat d)) else Inl outside_model
     | _ \<Rightarrow> Inl outside_model)
   | DateType unit \<Rightarrow> if unit = 0 then bindR (as_number v) (\<lambda>n. Inr (int_bytes 32 n)) else bindR (as_bigint v) (\<lambda>n. Inr (int_bytes 64 n))
   | TimeType unit bitWidth \<Rightarrow> if bitWidth = 32 then bindR (as_number v) (\<lambda>n. Inr (int_bytes 32 n)) else bindR (as_bigint v) (\<lambda>n. Inr (int_bytes 64 n))
   | _ \<Rightarrow> bindR (as_bigint v) (\<lambda>n. Inr (int_bytes 64 n)))"

text \<open>A zeroed slot where the value is absent.\<close>

definition slot_or_zeros :: "nat \<Rightarrow> (js_data \<Rightarrow> js_error + byte list) \<Rightarrow> js_data \<Rightarrow> js_error + byte list" where
  "slot_or_zeros width f v = (if absent_value v then Inr (replicate width 0) else f v)"

definition decimal_slot :: "nat \<Rightarrow> js_data \<Rightarrow> js_error + byte list" where
  "decimal_slot width v = (case v of
     Prim (VBigInt n) \<Rightarrow> Inr (le_bytes width (nat (take_bit (width * 8) (if n < 0 then n + push_bit (width * 8) 1 else n))))
   | _ \<Rightarrow> Inl outside_model)"

definition binary_part :: "bool \<Rightarrow> js_data \<Rightarrow> js_error + byte list" where
  "binary_part utf8 v = (if absent_value v then Inr []
     else case v of
       Prim (VBinary (Str s)) \<Rightarrow> if utf8 then Inr (encodeUtf8 s) else Inl outside_model
     | Prim (VBinary (Bytes b)) \<Rightarrow> if utf8 then Inl outside_model else Inr b
     | _ \<Rightarrow> Inl outside_model)"

text \<open>The offsets buffer for parts of these lengths: a leading zero and the running total after every part.\<close>

definition running_totals :: "nat list \<Rightarrow> nat list" where
  "running_totals ns = map (\<lambda>k. sum_list (take k ns)) [0..<Suc (length ns)]"

definition offsets_buffer :: "bool \<Rightarrow> nat list \<Rightarrow> byte list" where
  "offsets_buffer large ns = concat (map (\<lambda>n. if large then int64_le (int n) else int32_le (int n)) (running_totals ns))"

fun array_items :: "js_data \<Rightarrow> js_data list" where
  "array_items (Arr xs) = xs"
| "array_items v = []"

definition map_pairs :: "js_data \<Rightarrow> js_error + js_data list" where
  "map_pairs v = (if absent_value v then Inr [] else case v of Arr xs \<Rightarrow> Inr xs | _ \<Rightarrow> Inl UndefinedProperty)"

fun map_entry :: "js_data \<Rightarrow> js_error + js_data" where
  "map_entry (Arr xs) = Inr (entry_object (Arr xs))"
| "map_entry v = Inl UndefinedProperty"

function vectorFromArray :: "js_data list \<Rightarrow> data_type \<Rightarrow> js_error + vector" where
  "vectorFromArray vals type =
     bindR (makeValidity vals) (\<lambda>validity. let built = built_with validity; var = (\<lambda>large utf8. bindR (mapR (binary_part utf8) vals) (\<lambda>parts.
            built type vals (Some (concat parts)) (Some (offsets_buffer large (map length parts))) []));
          offsets = (\<lambda>large items. Some (offsets_buffer large (map length items)));
          primitive = bindR (mapR (slot_or_zeros (nat (fixedWidthBytes type)) (scalar_bytes type)) vals) (\<lambda>slots.
            built type vals (Some (concat slots)) None []) in
      case type of
        BoolType \<Rightarrow> bindR (packed_booleans (map truthy vals)) (\<lambda>bits. built type vals (Some bits) None [])
      | IntType w s \<Rightarrow> primitive | FloatType p \<Rightarrow> primitive | DateType u \<Rightarrow> primitive | TimeType u w \<Rightarrow> primitive
      | TimestampType u z \<Rightarrow> primitive | DurationType u \<Rightarrow> primitive
      | Utf8Type \<Rightarrow> var False True | LargeUtf8Type \<Rightarrow> var True True | BinaryType \<Rightarrow> var False False | LargeBinaryType \<Rightarrow> var True False
      | ListType f \<Rightarrow> bindR (vectorFromArray (concat (map array_items vals)) (fd_type f)) (\<lambda>c.
          built type vals None (offsets False (map array_items vals)) [c])
      | LargeListType f \<Rightarrow> bindR (vectorFromArray (concat (map array_items vals)) (fd_type f)) (\<lambda>c.
          built type vals None (offsets True (map array_items vals)) [c])
      | StructType fs \<Rightarrow> bindR (mapR (\<lambda>f. vectorFromArray (map (\<lambda>v. if absent_value v then Null else property_or_null v (fd_name f)) vals) (fd_type f)) fs)
          (\<lambda>cs. built type vals None None cs)
      | MapType keysSorted f \<Rightarrow> bindR (mapR (\<lambda>v. bindR (map_pairs v) (mapR map_entry)) vals) (\<lambda>entries.
          bindR (vectorFromArray (concat entries) (fd_type f)) (\<lambda>c. built type vals None (offsets False entries) [c]))
      | DecimalType precision scale bitWidth \<Rightarrow>
          bindR (mapR (slot_or_zeros (bitWidth div 8) (decimal_slot (bitWidth div 8))) vals) (\<lambda>slots. built type vals (Some (concat slots)) None [])
      | FixedSizeBinaryType byteWidth \<Rightarrow>
          if int (length vals) * byteWidth < 0 then Inl RangeError
          else bindR (mapR (slot_or_zeros (nat byteWidth) (\<lambda>v. case v of Prim (VBinary (Bytes b)) \<Rightarrow> Inr (fixed_slot (nat byteWidth) b) | _ \<Rightarrow> Inl outside_model)) vals)
            (\<lambda>slots. built type vals (Some (concat slots)) None [])
      | _ \<Rightarrow> Inl (ArrowError ''vectorFromArray does not support building this type''))"
  by pat_completeness auto
termination
proof -
  have "size (fd_type f) < size type" if "f \<in> set (childFields type)" for f type using that by (rule child_type_size)
  from this [of _ "ListType _"] this [of _ "LargeListType _"] this [of _ "StructType _"] this [of _ "MapType _ _"] show ?thesis
    by (relation "measure (\<lambda>(vals, type). size type)") (auto simp: childFields_def)
qed

declare vectorFromArray.simps [simp del]

subsection \<open>Slices\<close>

lemma resized_parts [simp]:
  "vd_type (resized l off n v) = vd_type v" "vd_length (resized l off n v) = l" "vd_offset (resized l off n v) = off"
  "vd_validity (resized l off n v) = vd_validity v" "vd_nullCount (resized l off n v) = n"
  "vd_values (resized l off n v) = vd_values v" "vd_valueOffsets (resized l off n v) = vd_valueOffsets v"
  "vd_sizes (resized l off n v) = vd_sizes v" "vd_views (resized l off n v) = vd_views v"
  "vd_variadicBuffers (resized l off n v) = vd_variadicBuffers v" "vd_typeIds (resized l off n v) = vd_typeIds v"
  "vd_children (resized l off n v) = vd_children v" "vd_dictionary (resized l off n v) = vd_dictionary v"
  by (cases v; simp)+

lemma raw_parts [simp]: "vd_type (rawData v) = vd_type v" "vd_validity (rawData v) = vd_validity v" "vd_children (rawData v) = vd_children v"
  by (simp_all add: rawData_def Let_def)

lemma getValue_raw: "getValue (resized l off n (rawData v)) i = getValue v i"
  by (cases "vd_type v") (simp_all add: getValue.simps rawData_def Let_def with_layout_def keep_def cong: option.case_cong if_cong)

lemma makeVector_raw: "makeVector v = Inr v \<Longrightarrow> makeVector (resized l off n (rawData v)) = Inr (resized l off n (rawData v))"
  by (cases "vd_type v") (auto simp: makeVector_def rawData_def Let_def with_layout_def keep_def is_primitive_def bindR_eq_Inr split: if_splits)

lemma get_slice:
  assumes "slice v begin to = Inr w" "0 \<le> i" "i < int (vd_length w)"
  shows "get w i = get v (int begin + i)"
proof -
  have w: "w = resized (min to (vd_length v) - begin) (vd_offset v + begin) (Some (- 1)) (rawData v)"
    using assms(1) by (auto simp: slice_def makeVector_def Let_def bindR_eq_Inr split: data_type.splits if_splits)
  have n: "nat (int begin + i) = begin + nat i" "int begin + i < int (vd_length v)"
    using assms(2,3) by (simp_all add: w)
  have "isValid w (nat i) \<longleftrightarrow> isValid v (begin + nat i)"
    by (simp add: w isValid_def add.assoc split: option.split)
  moreover have "getValue w (vd_offset v + begin + nat i) = getValue v (vd_offset v + (begin + nat i))"
    by (simp add: w getValue_raw add.assoc)
  moreover have "vd_type w = vd_type v" "vd_offset w = vd_offset v + begin" by (simp_all add: w)
  ultimately show ?thesis using n assms(2,3) by (simp add: get.simps [of w] get.simps [of v])
qed

lemma toArray_iff: "toArray v = Inr xs \<longleftrightarrow> length xs = vd_length v \<and> (\<forall>i < vd_length v. get v (int i) = Inr (xs ! i))"
  by (auto simp: toArray_def mapR_nth)

lemma slice_array:
  assumes "makeVector v = Inr v" "toArray v = Inr xs"
  shows "\<exists>w. slice v begin to = Inr w \<and> toArray w = Inr (drop begin (take to xs)) \<and>
    (has_validity (vd_type v) \<longrightarrow> nullCount w = int (length (filter (\<lambda>i. \<not> isValid v i) [begin..<min to (vd_length v)])))"
proof -
  obtain w where s: "slice v begin to = Inr w" and w: "w = resized (min to (vd_length v) - begin) (vd_offset v + begin) (Some (- 1)) (rawData v)"
    using makeVector_raw [OF assms(1)] by (auto simp: slice_def)
  have x: "length xs = vd_length v" "\<And>i. i < vd_length v \<Longrightarrow> get v (int i) = Inr (xs ! i)" using assms(2) by (auto simp: toArray_iff)
  have len: "vd_length w = min to (vd_length v) - begin" by (simp add: w)
  have "get w (int i) = Inr (drop begin (take to xs) ! i)" if "i < vd_length w" for i
  proof -
    have "begin + i < to" "begin + i < vd_length v" using that by (simp_all add: len less_diff_conv add.commute)
    then show ?thesis using get_slice [OF s, of "int i"] that x(2) [of "begin + i"] by (simp add: x(1))
  qed
  then have "toArray w = Inr (drop begin (take to xs))" by (auto simp: toArray_iff len x(1) min.commute)
  moreover have "nullCount w = int (length (filter (\<lambda>i. \<not> isValid v i) [begin..<min to (vd_length v)]))" if "has_validity (vd_type v)"
  proof -
    have "[begin..<min to (vd_length v)] = map (\<lambda>i. begin + i) [0..<min to (vd_length v) - begin]"
      by (rule nth_equalityI) (auto simp: less_diff_conv add.commute)
    then show ?thesis using that
      by (simp add: w nullCount_def isValid_def filter_map comp_def add.assoc split: option.split)
  qed
  ultimately show ?thesis using s by blast
qed

text \<open>C26: slices. A slice of any vector, of any layout, shares the buffers of the vector and reads as the sublist of its
  elements; its null count is that of the range.\<close>

theorem slice_is_sublist:
  assumes "makeVector v = Inr v" "toArray v = Inr xs"
  shows "\<exists>w. slice v begin to = Inr w \<and> toArray w = Inr (drop begin (take to xs)) \<and>
    (has_validity (vd_type v) \<longrightarrow> nullCount w = int (length (filter (\<lambda>i. \<not> isValid v i) [begin..<min to (vd_length v)])))"
  by (rule slice_array [OF assms])

definition sample_bytes :: "nat \<Rightarrow> byte list option \<Rightarrow> byte list \<Rightarrow> vector" where
  "sample_bytes n validity b = Vector (IntType 8 False) n None validity 0 (Some b) None None None [] None [] None"

lemma sample_bytes_get:
  assumes "i < n" "n \<le> length b"
  shows "get (sample_bytes n validity b) (int i) =
    (if (case validity of None \<Rightarrow> True | Some bitmap \<Rightarrow> bitGet bitmap i) then Inr (Prim (VNumber (int (unat (b ! i))))) else Inr Null)"
proof -
  have "take 1 (drop i b) = [b ! i]" using assms by (simp add: take_Suc_conv_app_nth flip: Cons_nth_drop_Suc)
  then have "getInt 8 False b i = Inr (int (unat (b ! i)))"
    using assms by (simp add: getInt_def get_le_def be_uint_def signed_of_def)
  then show ?thesis using assms
    by (simp add: sample_bytes_def get.simps getValue.simps isValid_def has_validity_def needed_def primitive_value_def fixedWidthBytes_def split: option.split)
qed

lemma sample_slice_vector:
  "makeVector (sample_bytes 3 (Some [5]) [7, 8, 9]) = Inr (sample_bytes 3 (Some [5]) [7, 8, 9])"
  "toArray (sample_bytes 3 (Some [5]) [7, 8, 9]) = Inr [Prim (VNumber 7), Null, Prim (VNumber 9)]"
proof -
  show "makeVector (sample_bytes 3 (Some [5]) [7, 8, 9]) = Inr (sample_bytes 3 (Some [5]) [7, 8, 9])"
    by (simp add: makeVector_def sample_bytes_def is_primitive_def needed_def)
  have "bitGet [5] 0" "\<not> bitGet [5] 1" "bitGet [5] 2" by (simp_all add: bitGet_def bit_at_small byte_at_def bit_simps)
  then show "toArray (sample_bytes 3 (Some [5]) [7, 8, 9]) = Inr [Prim (VNumber 7), Null, Prim (VNumber 9)]"
    using sample_bytes_get [of 0 3 "[7, 8, 9]" "Some [5]"] sample_bytes_get [of 1 3 "[7, 8, 9]" "Some [5]"] sample_bytes_get [of 2 3 "[7, 8, 9]" "Some [5]"]
    by (simp add: toArray_def sample_bytes_def upt_rec)
qed

theorem slice_is_sublist_witness:
  "\<exists>w. slice (sample_bytes 3 (Some [5]) [7, 8, 9]) 1 9 = Inr w \<and> toArray w = Inr [Null, Prim (VNumber 9)]"
  using slice_is_sublist [OF sample_slice_vector, of 1 9] by auto

subsection \<open>Vectors of plain values\<close>

text \<open>Below the limit of the shifts the validity is the packed list of the present slots.\<close>

definition validity_of :: "js_data list \<Rightarrow> byte list option \<times> nat" where
  "validity_of vals =
     (let nulls = length (filter absent_value vals) in
      if nulls = 0 then (None, 0) else (Some (pack_bits (map (\<lambda>v. \<not> absent_value v) vals)), nulls))"

lemma makeValidity_small: "length vals + 7 < 2 ^ 31 \<Longrightarrow> makeValidity vals = Inr (validity_of vals)"
  by (simp add: makeValidity_def validity_of_def packed_booleans_small)

definition vector_data :: "data_type \<Rightarrow> js_data list \<Rightarrow> byte list option \<Rightarrow> byte list option \<Rightarrow> vector list \<Rightarrow> vector" where
  "vector_data type vals buffer offsets cs =
     (case validity_of vals of (validity, nulls) \<Rightarrow>
        Vector type (length vals) (Some (int nulls)) validity 0 buffer offsets None None [] None cs None)"

definition built :: "data_type \<Rightarrow> js_data list \<Rightarrow> byte list option \<Rightarrow> byte list option \<Rightarrow> vector list \<Rightarrow> js_error + vector" where
  "built type vals buffer offsets cs = makeVector (vector_data type vals buffer offsets cs)"

lemma built_with_validity: "built_with (validity_of vals) type vals = built type vals"
  by (intro ext) (simp add: built_with_def built_def vector_data_def split: prod.split)

lemmas vector_built_cases = vectorFromArray.simps makeValidity_small built_with_validity Let_def

lemma built_parts [simp]:
  "vd_type (vector_data t xs b os cs) = t" "vd_length (vector_data t xs b os cs) = length xs" "vd_offset (vector_data t xs b os cs) = 0"
  "vd_values (vector_data t xs b os cs) = b" "vd_valueOffsets (vector_data t xs b os cs) = os" "vd_children (vector_data t xs b os cs) = cs"
  by (simp_all add: vector_data_def split: prod.split)

lemma bitGet_packed: "i < length bs \<Longrightarrow> length bs + 7 < 2 ^ 31 \<Longrightarrow> bitGet (pack_bits bs) i \<longleftrightarrow> bs ! i"
  using bit_at_packed [of i bs "[]"] by (simp add: bitGet_def)

lemma built_valid:
  "i < length xs \<Longrightarrow> length xs + 7 < 2 ^ 31 \<Longrightarrow> has_validity t \<Longrightarrow> isValid (vector_data t xs b os cs) i \<longleftrightarrow> \<not> absent_value (xs ! i)"
  by (auto simp: isValid_def vector_data_def validity_of_def Let_def bitGet_packed filter_empty_conv split: option.split)

lemma built_nullCount: "nullCount (vector_data t xs b os cs) = int (length (filter absent_value xs))"
  by (simp add: nullCount_def vector_data_def validity_of_def Let_def)

lemma built_get:
  assumes "t \<noteq> NullType" "has_validity t" "i < length xs" "length xs + 7 < 2 ^ 31"
  shows "get (vector_data t xs b os cs) (int i) = (if absent_value (xs ! i) then Inr Null else getValue (vector_data t xs b os cs) i)"
  using assms built_valid [OF assms(3,4,2)] by (simp add: get.simps)

text \<open>What a column must hold for \<open>vectorFromArray\<close> to build it.\<close>

definition int_fits :: "nat \<Rightarrow> bool \<Rightarrow> int \<Rightarrow> bool" where
  "int_fits w isSigned n \<longleftrightarrow> (if isSigned then - (2 ^ (w - 1)) \<le> n \<and> n < 2 ^ (w - 1) else 0 \<le> n \<and> n < 2 ^ w)"

definition scalar_ok :: "data_type \<Rightarrow> js_data \<Rightarrow> bool" where
  "scalar_ok type v \<longleftrightarrow> (case type of
     BoolType \<Rightarrow> (case v of Prim (VBoolean b) \<Rightarrow> True | _ \<Rightarrow> False)
   | IntType w s \<Rightarrow> (case v of Prim (VNumber n) \<Rightarrow> w \<in> {8, 16, 32} \<and> int_fits w s n | Prim (VBigInt n) \<Rightarrow> w = 64 \<and> int_fits 64 s n | _ \<Rightarrow> False)
   | FloatType p \<Rightarrow> (case v of Prim (VFloat b) \<Rightarrow> p = 1 | Prim (VDouble b) \<Rightarrow> p = 0 \<and> is_half b \<or> 2 \<le> p | _ \<Rightarrow> False)
   | DateType u \<Rightarrow> (case v of Prim (VNumber n) \<Rightarrow> u = 0 \<and> int_fits 32 True n | Prim (VBigInt n) \<Rightarrow> u \<noteq> 0 \<and> int_fits 64 True n | _ \<Rightarrow> False)
   | TimeType u w \<Rightarrow> (case v of Prim (VNumber n) \<Rightarrow> w = 32 \<and> int_fits 32 True n | Prim (VBigInt n) \<Rightarrow> w = 64 \<and> int_fits 64 True n | _ \<Rightarrow> False)
   | TimestampType u z \<Rightarrow> (case v of Prim (VBigInt n) \<Rightarrow> int_fits 64 True n | _ \<Rightarrow> False)
   | DurationType u \<Rightarrow> (case v of Prim (VBigInt n) \<Rightarrow> int_fits 64 True n | _ \<Rightarrow> False)
   | DecimalType p s w \<Rightarrow> (case v of Prim (VBigInt n) \<Rightarrow> 8 \<le> w \<and> 8 dvd w \<and> int_fits w True n | _ \<Rightarrow> False)
   | FixedSizeBinaryType w \<Rightarrow> (case v of Prim (VBinary (Bytes b)) \<Rightarrow> int (length b) = w | _ \<Rightarrow> False)
   | _ \<Rightarrow> False)"

definition scalar_type :: "data_type \<Rightarrow> bool" where
  "scalar_type type \<longleftrightarrow> (case type of BoolType \<Rightarrow> True | DecimalType p s w \<Rightarrow> True | FixedSizeBinaryType w \<Rightarrow> 0 \<le> w
     | IntervalType u \<Rightarrow> False | _ \<Rightarrow> is_primitive type)"

definition part_ok :: "bool \<Rightarrow> js_data \<Rightarrow> bool" where
  "part_ok utf8 v \<longleftrightarrow> (case v of
     Prim (VBinary (Str s)) \<Rightarrow> utf8
   | Prim (VBinary (Bytes b)) \<Rightarrow> \<not> utf8 | _ \<Rightarrow> False)"

fun is_array :: "js_data \<Rightarrow> bool" where
  "is_array (Arr xs) = True" | "is_array v = False"

fun is_object :: "js_data \<Rightarrow> bool" where
  "is_object (Obj xs) = True" | "is_object v = False"

definition parts_total :: "bool \<Rightarrow> js_data list \<Rightarrow> nat" where
  "parts_total utf8 vals = sum_list (map (\<lambda>v. case binary_part utf8 v of Inl e \<Rightarrow> 0 | Inr b \<Rightarrow> length b) vals)"

definition column_field :: "js_data list \<Rightarrow> field \<Rightarrow> js_data list" where
  "column_field vals f = map (\<lambda>v. if absent_value v then Null else property_or_null v (fd_name f)) vals"

definition column_entries :: "js_data list \<Rightarrow> js_data list" where
  "column_entries vals = map entry_object (concat (map array_items vals))"

function column_ok :: "data_type \<Rightarrow> js_data list \<Rightarrow> bool" where
  "column_ok type vals \<longleftrightarrow>
     length vals + 7 < 2 ^ 31 \<and>
     (let present = filter (\<lambda>v. \<not> absent_value v) vals; items = concat (map array_items vals) in
      case type of
        Utf8Type \<Rightarrow> list_all (part_ok True) present \<and> parts_total True vals < 2 ^ 31
      | LargeUtf8Type \<Rightarrow> list_all (part_ok True) present \<and> parts_total True vals < 2 ^ 53
      | BinaryType \<Rightarrow> list_all (part_ok False) present \<and> parts_total False vals < 2 ^ 31
      | LargeBinaryType \<Rightarrow> list_all (part_ok False) present \<and> parts_total False vals < 2 ^ 53
      | ListType f \<Rightarrow> list_all is_array present \<and> column_ok (fd_type f) items
      | LargeListType f \<Rightarrow> list_all is_array present \<and> column_ok (fd_type f) items
      | StructType fs \<Rightarrow> list_all is_object present \<and> list_all (\<lambda>f. column_ok (fd_type f) (column_field vals f)) fs
      | MapType keysSorted f \<Rightarrow> list_all is_array present \<and> list_all is_array items \<and>
          (case fd_type f of StructType fs \<Rightarrow> map fd_name fs = [key_name, value_name] | _ \<Rightarrow> False) \<and> column_ok (fd_type f) (column_entries vals)
      | _ \<Rightarrow> scalar_type type \<and> list_all (scalar_ok type) present)"
  by pat_completeness auto
termination
proof -
  have "size (fd_type f) < size type" if "f \<in> set (childFields type)" for f type using that by (rule child_type_size)
  from this [of _ "ListType _"] this [of _ "LargeListType _"] this [of _ "StructType _"] this [of _ "MapType _ _"] show ?thesis
    by (relation "measure (\<lambda>(type, vals). size type)") (auto simp: childFields_def)
qed

declare column_ok.simps [simp del]

lemma column_ok_length: "column_ok type vals \<Longrightarrow> length vals + 7 < 2 ^ 31"
  by (simp add: column_ok.simps)

lemma column_entries_length [simp]: "length (column_entries vals) = length (concat (map array_items vals))"
  by (simp add: column_entries_def)

text \<open>What is read back: \<open>undefined\<close> as \<open>null\<close>, strings in their well-formed form without an initial byte order mark,
  objects with the fields of the struct, entries as pairs.\<close>

fun normal_text :: "js_data \<Rightarrow> js_data" where
  "normal_text (Prim (VBinary (Str s))) = Prim (VBinary (Str (strip_bom (toWellFormed s))))"
| "normal_text v = v"

function normal :: "data_type \<Rightarrow> js_data \<Rightarrow> js_data" where
  "normal type v = (if absent_value v then Null else case type of
     Utf8Type \<Rightarrow> normal_text v
   | LargeUtf8Type \<Rightarrow> normal_text v
   | ListType f \<Rightarrow> Arr (map (normal (fd_type f)) (array_items v))
   | LargeListType f \<Rightarrow> Arr (map (normal (fd_type f)) (array_items v))
   | StructType fs \<Rightarrow> Obj (map (\<lambda>f. (fd_name f, normal (fd_type f) (property_or_null v (fd_name f)))) fs)
   | MapType keysSorted f \<Rightarrow> Arr (map (\<lambda>e. case normal (fd_type f) (entry_object e) of
         Obj [(k, x), (k', y)] \<Rightarrow> Arr [x, y] | _ \<Rightarrow> Null) (array_items v))
   | _ \<Rightarrow> v)"
  by pat_completeness auto
termination
proof -
  have "size (fd_type f) < size type" if "f \<in> set (childFields type)" for f type using that by (rule child_type_size)
  from this [of _ "ListType _"] this [of _ "LargeListType _"] this [of _ "StructType _"] this [of _ "MapType _ _"] show ?thesis
    by (relation "measure (\<lambda>(type, v). size type)") (auto simp: childFields_def)
qed

declare normal.simps [simp del]

lemma normal_absent [simp]: "absent_value v \<Longrightarrow> normal type v = Null"
  by (simp add: normal.simps)

lemma concat_slots:
  assumes "\<forall>s \<in> set ss. length s = k" "i < length ss"
  shows "take k (drop (i * k) (concat ss)) = ss ! i" "length (concat ss) = length ss * k"
proof -
  define e where "e s = (if length s = k then s else replicate k undefined)" for s :: "'a list"
  have e: "length (e s) = k" for s by (simp add: e_def)
  have m: "map e ss = ss" using assms(1) by (intro map_idI) (simp add: e_def)
  then show "length (concat ss) = length ss * k" using length_concat_slots [of e k ss] e by simp
  have "e (ss ! i) = ss ! i" using assms by (simp add: e_def)
  then show "take k (drop (i * k) (concat ss)) = ss ! i" using concat_slot [of e k i ss "[]"] e m assms(2) by simp
qed

lemma slot_bound: "i < n \<Longrightarrow> i * k + k \<le> n * (k::nat)"
  by (metis Suc_leI add.commute mult_Suc mult_le_mono1)

lemma get_le_slots:
  assumes "\<forall>s \<in> set ss. length s = k" "i < length ss"
  shows "get_le k (concat ss) (i * k) = Inr (be_uint (rev (ss ! i)))"
  using concat_slots [OF assms] slot_bound [OF assms(2), of k] by (simp add: get_le_def)

lemma int_bytes_read:
  assumes "w \<in> {8, 16, 32, 64}" "int_fits w isSigned n"
  shows "signed_of w isSigned (be_uint (rev (int_bytes w n))) = n"
proof -
  have "nat (take_bit w n) < 256 ^ (w div 8)"
    using assms(1) take_bit_int_less_exp [of 8 n] take_bit_int_less_exp [of 16 n] take_bit_int_less_exp [of 32 n] take_bit_int_less_exp [of 64 n]
    by (auto simp: nat_less_iff)
  then have "be_uint (rev (int_bytes w n)) = nat (take_bit w n)" by (simp add: int_bytes_def le_bytes_def be_uint_be_bytes)
  moreover have "signed_take_bit (w - 1) (take_bit w n) = n" if "isSigned"
    using that assms by (auto simp: int_fits_def signed_take_bit_take_bit intro: signed_take_bit_int_eq_self)
  moreover have "take_bit w n = n" if "\<not> isSigned"
    using that assms by (simp add: int_fits_def take_bit_int_eq_self)
  ultimately show ?thesis using assms(2) by (cases isSigned) (auto simp: signed_of_def int_fits_def)
qed

lemma getInt_slots:
  assumes "\<forall>s \<in> set ss. length s = w div 8" "i < length ss" "ss ! i = int_bytes w n" "w \<in> {8, 16, 32, 64}" "int_fits w isSigned n"
  shows "getInt w isSigned (concat ss) (i * (w div 8)) = Inr n"
  using get_le_slots [OF assms(1,2)] int_bytes_read [OF assms(4,5)] by (simp add: getInt_def assms(3))

lemma float_slots:
  assumes "\<forall>s \<in> set ss. length s = k" "i < length ss"
  shows "k = 4 \<Longrightarrow> ss ! i = le_bytes 4 (unat a) \<Longrightarrow> getFloat32 (concat ss) (i * 4) = Inr a"
    and "k = 8 \<Longrightarrow> ss ! i = le_bytes 8 (unat b) \<Longrightarrow> getFloat64 (concat ss) (i * 8) = Inr b"
  using get_le_slots [OF assms] be_uint_le_bytes(1) [of a] be_uint_le_bytes(2) [of b] by (simp_all add: getFloat32_def getFloat64_def)

lemma half_slots:
  assumes "\<forall>s \<in> set ss. length s = 2" "i < length ss" "ss ! i = le_bytes 2 (double_to_half d)" "is_half d"
  shows "bindR (get_le 2 (concat ss) (i * 2)) (\<lambda>n. Inr (Prim (VDouble (half_to_double n)))) = Inr (Prim (VDouble d))"
proof -
  have "le_bytes 2 h = [of_nat h, of_nat (h div 256)]" for h by (simp add: le_bytes_def numeral_2_eq_2)
  moreover have "be_uint [x, y] = unat x * 256 + unat y" for x y by (simp add: be_uint_def)
  ultimately have "half_to_double (be_uint (rev (le_bytes 2 (double_to_half d)))) = d"
    using assms(4) by (simp add: is_half_def numberToFloat16Bytes_def float16BytesToNumber_def Let_def add.commute mult.commute)
  then show ?thesis using get_le_slots [OF assms(1,2)] by (simp add: assms(3))
qed

text \<open>A scalar is written into a slot of its type's width, from which it is read again.\<close>

lemma scalar_codec:
  assumes "scalar_ok type v" "is_primitive type"
  shows "\<exists>b. scalar_bytes type v = Inr b \<and> length b = nat (fixedWidthBytes type) \<and>
    (\<forall>ss i. (\<forall>s \<in> set ss. length s = nat (fixedWidthBytes type)) \<longrightarrow> i < length ss \<longrightarrow> ss ! i = b \<longrightarrow>
      primitive_value type (concat ss) i = Inr v)"
proof -
  have n: "\<exists>b. bindR (as_number v) (\<lambda>n. Inr (int_bytes w n)) = Inr b \<and> length b = w div 8 \<and>
      (\<forall>ss i. (\<forall>s \<in> set ss. length s = w div 8) \<longrightarrow> i < length ss \<longrightarrow> ss ! i = b \<longrightarrow> getInt w s (concat ss) (i * (w div 8)) = Inr m)"
    if "v = Prim (VNumber m)" "w \<in> {8, 16, 32, 64}" "int_fits w s m" for w s m
    using getInt_slots [where n = m, OF _ _ _ that(2,3)] that(1) by (simp add: int_bytes_def)
  have b: "\<exists>b. bindR (as_bigint v) (\<lambda>n. Inr (int_bytes 64 n)) = Inr b \<and> length b = 8 \<and>
      (\<forall>ss i. (\<forall>s \<in> set ss. length s = 8) \<longrightarrow> i < length ss \<longrightarrow> ss ! i = b \<longrightarrow> getInt 64 s (concat ss) (i * 8) = Inr m)"
    if "v = Prim (VBigInt m)" "int_fits 64 s m" for s m
    using getInt_slots [where n = m and w = 64, OF _ _ _ _ that(2)] that(1) by (simp add: int_bytes_def)
  note defs = scalar_bytes_def primitive_value_def fixedWidthBytes_def number_at_def bigint_at_def Let_def
  show ?thesis
  proof (cases type)
    case (IntType w s)
    with assms(1) show ?thesis
      using n [of _ w s] b [of _ s] by (auto simp: scalar_ok_def defs split: js_value.splits column_value.splits)
  next
    case (FloatType p)
    with assms(1) show ?thesis
      by (auto simp: scalar_ok_def defs float_slots(1) [OF _ _ refl] float_slots(2) [OF _ _ refl] half_slots split: js_value.splits column_value.splits)
  next
    case (DateType u)
    with assms(1) show ?thesis
      using n [of _ 32 True] b [of _ True] by (auto simp: scalar_ok_def defs split: js_value.splits column_value.splits)
  next
    case (TimeType u w)
    with assms(1) show ?thesis
      using n [of _ 32 True] b [of _ True] by (auto simp: scalar_ok_def defs split: js_value.splits column_value.splits)
  next
    case (TimestampType u z)
    with assms(1) show ?thesis
      using b [of _ True] by (auto simp: scalar_ok_def defs split: js_value.splits column_value.splits)
  next
    case (DurationType u)
    with assms(1) show ?thesis
      using b [of _ True] by (auto simp: scalar_ok_def defs split: js_value.splits column_value.splits)
  qed (use assms in \<open>simp_all add: is_primitive_def scalar_ok_def\<close>)
qed

definition reads_as :: "vector \<Rightarrow> data_type \<Rightarrow> js_data list \<Rightarrow> bool" where
  "reads_as v type vals \<longleftrightarrow> makeVector v = Inr v \<and> vd_type v = type \<and> vd_length v = length vals \<and> has_validity type \<and>
     nullCount v = int (length (filter absent_value vals)) \<and> (\<forall>i < length vals. get v (int i) = Inr (normal type (vals ! i)))"

lemma reads_asI:
  assumes "makeVector (vector_data type vals b os cs) = Inr (vector_data type vals b os cs)" "has_validity type" "type \<noteq> NullType"
    and "length vals + 7 < 2 ^ 31"
    and "\<And>i. i < length vals \<Longrightarrow> \<not> absent_value (vals ! i) \<Longrightarrow> getValue (vector_data type vals b os cs) i = Inr (normal type (vals ! i))"
  shows "built type vals b os cs = Inr (vector_data type vals b os cs)" "reads_as (vector_data type vals b os cs) type vals"
  using assms by (simp_all add: built_def reads_as_def built_nullCount built_get)

lemma fixed_width_built:
  assumes "\<And>b. makeVector (vector_data type vals (Some b) None []) = Inr (vector_data type vals (Some b) None [])"
    and type: "has_validity type" "type \<noteq> NullType" "length vals + 7 < 2 ^ 31"
    and slot: "\<And>v. v \<in> set vals \<Longrightarrow> \<not> absent_value v \<Longrightarrow> normal type v = v \<and> (\<exists>b. f v = Inr b \<and> length b = k \<and>
      (\<forall>ss i. (\<forall>s \<in> set ss. length s = k) \<longrightarrow> i < length ss \<longrightarrow> ss ! i = b \<longrightarrow>
        getValue (vector_data type vals (Some (concat ss)) None []) i = Inr v))"
  shows "\<exists>v. bindR (mapR (slot_or_zeros k f) vals) (\<lambda>slots. built type vals (Some (concat slots)) None []) = Inr v \<and> reads_as v type vals"
proof -
  have "\<exists>b. slot_or_zeros k f v = Inr b \<and> length b = k \<and> (\<not> absent_value v \<longrightarrow> f v = Inr b)" if "v \<in> set vals" for v
    using slot [OF that] by (auto simp: slot_or_zeros_def)
  from mapR_ex [of vals "slot_or_zeros k f" "\<lambda>v b. length b = k \<and> (\<not> absent_value v \<longrightarrow> f v = Inr b)", OF this]
  obtain ss where ss: "mapR (slot_or_zeros k f) vals = Inr ss" "list_all2 (\<lambda>v b. length b = k \<and> (\<not> absent_value v \<longrightarrow> f v = Inr b)) vals ss"
    by auto
  have len: "length ss = length vals" "\<forall>s \<in> set ss. length s = k"
    using ss(2) by (auto simp: list_all2_conv_all_nth in_set_conv_nth)
  have "getValue (vector_data type vals (Some (concat ss)) None []) i = Inr (normal type (vals ! i))"
    if "i < length vals" "\<not> absent_value (vals ! i)" for i
  proof -
    have "f (vals ! i) = Inr (ss ! i)" using ss(2) that by (simp add: list_all2_conv_all_nth)
    then show ?thesis using slot [of "vals ! i"] that len by auto
  qed
  from reads_asI [OF assms(1) type this] ss(1) show ?thesis by auto
qed

lemma decimal_slots_read:
  assumes "\<forall>s \<in> set ss. length s = w" "i < length ss" "0 < w"
  shows "readLeBigInt (concat ss) (i * w) w True = Inr (decimalBytesToBigInt (rev (ss ! i)))"
proof -
  let ?b = "concat ss"
  have s: "take w (drop (i * w) ?b) = ss ! i" "i * w + w \<le> length ?b" "length (ss ! i) = w"
    using concat_slots [OF assms(1,2)] slot_bound [OF assms(2), of w] assms(1,2) by simp_all
  have nth: "?b ! (i * w + j) = ss ! i ! j" if "j < w" for j
    using that s by (simp flip: s(1))
  have "foldl (\<lambda>v j. push_bit 8 v OR int (unat (?b ! (i * w + j)))) 0 (rev [0..<w]) =
      foldl (\<lambda>v b. push_bit 8 v OR int (unat b)) 0 (map (\<lambda>j. ?b ! (i * w + j)) (rev [0..<w]))"
    by (simp add: foldl_map)
  also have "map (\<lambda>j. ?b ! (i * w + j)) (rev [0..<w]) = rev (ss ! i)"
    using nth s(3) by (auto simp: rev_map [symmetric] intro: nth_equalityI)
  finally have fold: "foldl (\<lambda>v j. push_bit 8 v OR int (unat (?b ! (i * w + j)))) 0 (rev [0..<w]) =
      foldl (\<lambda>v b. push_bit 8 v OR int (unat b)) 0 (rev (ss ! i))" .
  have "hd (rev (ss ! i)) = ?b ! (i * w + w - 1)"
    using nth [of "w - 1"] s(3) assms(3) last_conv_nth [of "ss ! i"] by (cases "ss ! i = []") (simp_all add: hd_rev)
  then show ?thesis using s assms(3) fold by (simp add: readLeBigInt_def decimalBytesToBigInt_def Let_def)
qed

lemma decimal_slot_read:
  assumes "int_fits w True n" "8 \<le> w" "8 dvd w"
  shows "\<exists>b. decimal_slot (w div 8) (Prim (VBigInt n)) = Inr b \<and> length b = w div 8 \<and> decimalBytesToBigInt (rev b) = n"
proof -
  let ?k = "w div 8" and ?x = "if n < 0 then n + push_bit (w div 8 * 8) 1 else n"
  have w: "?k * 8 = w" "0 < ?k" using assms(2,3) by auto
  have p: "(256 :: int) ^ ?k = 2 ^ w" using power_mult [of "2 :: int" 8 ?k] w(1) by (simp add: mult.commute)
  have h: "128 * 256 ^ (?k - 1) = (2 :: int) ^ (w - 1)"
  proof -
    have "(256 :: int) ^ ?k = 2 * (128 * 256 ^ (?k - 1))" using w(2) by (cases ?k) simp_all
    moreover have "(2 :: int) ^ w = 2 * 2 ^ (w - 1)" using assms(2) by (cases w) simp_all
    ultimately show ?thesis using p by simp
  qed
  have two: "(2 :: int) ^ w = 2 * 2 ^ (w - 1)" using assms(2) by (cases w) simp_all
  have x: "0 \<le> ?x" "?x < 2 ^ w" using assms(1) two by (auto simp: int_fits_def w(1) push_bit_eq_mult)
  then have t: "take_bit (?k * 8) ?x = ?x" by (simp add: w(1) take_bit_int_eq_self)
  have "bigIntToDecimalBytes n ?k = be_bytes ?k (nat ?x)"
    using decimal_loop_bytes [OF x(1), of ?k "replicate ?k 0"] by (simp add: bigIntToDecimalBytes_def)
  moreover have "decimalBytesToBigInt (bigIntToDecimalBytes n ?k) = n"
    using decimal_codec [OF w(2), unfolded h, of n] assms(1) by (simp add: int_fits_def)
  ultimately show ?thesis using t by (simp add: decimal_slot_def le_bytes_def)
qed

lemma running_totals: "length (running_totals ns) = Suc (length ns)" "k \<le> length ns \<Longrightarrow> running_totals ns ! k = sum_list (take k ns)"
  by (simp_all add: running_totals_def nth_append del: upt_Suc)

lemma sum_take_le: "sum_list (take k ns) \<le> sum_list (ns :: nat list)"
  by (metis append_take_drop_id le_add1 sum_list_append)

lemma int_le_read:
  assumes "i < length ns"
  shows "getInt32 (concat (map (\<lambda>n. int32_le (int n)) ns)) (i * 4) = Inr (sint (word_of_int (int (ns ! i)) :: 32 word))"
    and "getBigInt64 (concat (map (\<lambda>n. int64_le (int n)) ns)) (i * 8) = Inr (sint (word_of_int (int (ns ! i)) :: 64 word))"
  using get_le_slot [of "\<lambda>n. int32_le (int n)" 4 i ns "[]"] get_le_slot [of "\<lambda>n. int64_le (int n)" 8 i ns "[]"] assms
  by (simp_all add: getInt32_def getBigInt64_def int32_le_def int64_le_def be_uint_le_bytes)

lemma offsets_read:
  assumes "k \<le> length ns" "sum_list ns < (if large then 2 ^ 53 else 2 ^ 31)"
  shows "offset_at large (offsets_buffer large ns) k = Inr (int (sum_list (take k ns)))"
proof -
  let ?n = "sum_list (take k ns)"
  have n: "?n < (if large then 2 ^ 53 else 2 ^ 31)" using assms(2) sum_take_le [of k ns] by linarith
  have r: "k < length (running_totals ns)" "running_totals ns ! k = ?n" using assms(1) running_totals by simp_all
  show ?thesis
  proof (cases large)
    case True
    then have "int_range 64 (int ?n)" "\<bar>int ?n\<bar> < 2 ^ 53" using n by (simp_all add: int_range_def)
    then show ?thesis using True int_le_read(2) [OF r(1)] sint_range(2) [of "int ?n"] number_of_small [of "int ?n"]
      by (simp add: offset_at_def offsets_buffer_def r(2))
  next
    case False
    then have "int_range 32 (int ?n)" using n by (simp add: int_range_def)
    then show ?thesis using False int_le_read(1) [OF r(1)] sint_range(1) [of "int ?n"]
      by (simp add: offset_at_def offsets_buffer_def r(2))
  qed
qed

lemma take_Suc_sum: "k < length ns \<Longrightarrow> sum_list (take (Suc k) ns) = sum_list (take k ns) + (ns ! k :: nat)"
  by (simp add: take_Suc_conv_app_nth)

lemma concat_parts:
  assumes "k < length parts"
  shows "concat parts = concat (take k parts) @ parts ! k @ concat (drop (Suc k) parts)"
    "length (concat (take k parts)) = sum_list (take k (map length parts))"
proof -
  show "concat parts = concat (take k parts) @ parts ! k @ concat (drop (Suc k) parts)"
    using id_take_nth_drop [OF assms] by (metis concat.simps(2) concat_append)
  show "length (concat (take k parts)) = sum_list (take k (map length parts))"
    by (simp add: length_concat take_map)
qed

lemma part_read:
  assumes "k < length parts" "sum_list (map length parts) < (if large then 2 ^ 53 else 2 ^ 31)"
  shows "var_binary_value large utf8 (offsets_buffer large (map length parts)) (concat parts) k = Inr (text_or_bytes utf8 (parts ! k))"
proof -
  have "subarray (concat parts) (int (sum_list (take k (map length parts)))) (int (sum_list (take (Suc k) (map length parts)))) = parts ! k"
    using concat_parts [OF assms(1)] subarray_inner [of "concat (take k parts)" "parts ! k" "concat (drop (Suc k) parts)"] assms(1)
    by (simp add: take_Suc_sum)
  then show ?thesis using assms offsets_read [of k "map length parts" large] offsets_read [of "Suc k" "map length parts" large]
    by (simp add: var_binary_value_def)
qed

lemma list_items_read:
  assumes "k < length items" "length (concat items) < 2 ^ 32"
    and "\<And>j. j < length (concat items) \<Longrightarrow> item (int j) = Inr (h (concat items ! j))"
  shows "collect_items item (int (sum_list (take k (map length items)))) (int (sum_list (take (Suc k) (map length items)))) =
    Inr (map h (items ! k))"
proof -
  let ?a = "sum_list (take k (map length items))"
  note c = concat_parts [OF assms(1)]
  have len: "?a + length (items ! k) \<le> length (concat items)" using arg_cong [OF c(1), of length] c(2) by simp
  have nth: "concat items ! (?a + j) = items ! k ! j" if "j < length (items ! k)" for j
    using that by (subst c(1)) (simp add: nth_append flip: c(2))
  have "new_array (int (length (items ! k))) = Inr ()" using len assms(2) by (intro new_array_ok) linarith
  moreover have "mapR item (map (\<lambda>j. int ?a + int j) [0..<length (items ! k)]) = Inr (map h (items ! k))"
    unfolding mapR_nth using assms(3) len nth by (auto simp flip: of_nat_add)
  ultimately show ?thesis using assms(1) by (simp add: collect_items_def int_range_list_def take_Suc_sum)
qed

subsection \<open>Values are read back\<close>

lemma list_all_present: "list_all P (filter (\<lambda>v. \<not> absent_value v) vals) \<longleftrightarrow> (\<forall>v \<in> set vals. \<not> absent_value v \<longrightarrow> P v)"
  by (auto simp: list_all_iff)

lemma primitive_built:
  assumes "is_primitive type" "list_all (scalar_ok type) (filter (\<lambda>v. \<not> absent_value v) vals)" "length vals + 7 < 2 ^ 31"
  shows "\<exists>v. bindR (mapR (slot_or_zeros (nat (fixedWidthBytes type)) (scalar_bytes type)) vals) (\<lambda>slots.
    built type vals (Some (concat slots)) None []) = Inr v \<and> reads_as v type vals"
proof (rule fixed_width_built)
  show "makeVector (vector_data type vals (Some b) None []) = Inr (vector_data type vals (Some b) None [])" for b
    using assms(1) by (cases type) (simp_all add: makeVector_def is_primitive_def needed_def)
  show "length vals + 7 < 2 ^ 31" by (rule assms(3))
  show "has_validity type" "type \<noteq> NullType" using assms(1) by (cases type; simp add: is_primitive_def has_validity_def)+
  fix v assume v: "v \<in> set vals" "\<not> absent_value v"
  then have ok: "scalar_ok type v" using assms(2) by (simp add: list_all_present)
  have "getValue (vector_data type vals (Some b) None []) i = primitive_value type b i" for b i
    using assms(1) by (cases type) (simp_all add: getValue.simps is_primitive_def needed_def)
  moreover have "normal type v = v" using v(2) assms(1) by (cases type) (simp_all add: normal.simps is_primitive_def)
  ultimately show "normal type v = v \<and> (\<exists>b. scalar_bytes type v = Inr b \<and> length b = nat (fixedWidthBytes type) \<and>
      (\<forall>ss i. (\<forall>s \<in> set ss. length s = nat (fixedWidthBytes type)) \<longrightarrow> i < length ss \<longrightarrow> ss ! i = b \<longrightarrow>
        getValue (vector_data type vals (Some (concat ss)) None []) i = Inr v))"
    using scalar_codec [OF ok assms(1)] by simp
qed

lemma decimal_built:
  assumes "list_all (scalar_ok (DecimalType p s w)) (filter (\<lambda>v. \<not> absent_value v) vals)" "length vals + 7 < 2 ^ 31"
  shows "\<exists>v. bindR (mapR (slot_or_zeros (w div 8) (decimal_slot (w div 8))) vals) (\<lambda>slots.
    built (DecimalType p s w) vals (Some (concat slots)) None []) = Inr v \<and> reads_as v (DecimalType p s w) vals"
proof (rule fixed_width_built)
  fix v assume v: "v \<in> set vals" "\<not> absent_value v"
  then have "scalar_ok (DecimalType p s w) v" using assms by (simp add: list_all_present)
  then obtain n where n: "v = Prim (VBigInt n)" "8 \<le> w" "8 dvd w" "int_fits w True n"
    by (auto simp: scalar_ok_def split: js_value.splits column_value.splits)
  obtain b where b: "decimal_slot (w div 8) v = Inr b" "length b = w div 8" "decimalBytesToBigInt (rev b) = n"
    using decimal_slot_read [OF n(4,2,3)] n(1) by auto
  have "0 < w div 8" using n(2) by (simp add: div_greater_zero_iff)
  then have "getValue (vector_data (DecimalType p s w) vals (Some (concat ss)) None []) i = Inr v"
    if "\<forall>s \<in> set ss. length s = w div 8" "i < length ss" "ss ! i = b" for ss i
    using decimal_slots_read [OF that(1,2)] that(3) b(3) n(1) by (simp add: getValue.simps needed_def)
  with b n(1) show "normal (DecimalType p s w) v = v \<and> (\<exists>b. decimal_slot (w div 8) v = Inr b \<and> length b = w div 8 \<and>
      (\<forall>ss i. (\<forall>s \<in> set ss. length s = w div 8) \<longrightarrow> i < length ss \<longrightarrow> ss ! i = b \<longrightarrow>
        getValue (vector_data (DecimalType p s w) vals (Some (concat ss)) None []) i = Inr v))"
    by (auto simp: normal.simps)
qed (use assms(2) in \<open>simp_all add: makeVector_def has_validity_def is_primitive_def\<close>)

lemma subarray_nat: "a + n \<le> length xs \<Longrightarrow> subarray xs (int a) (int (a + n)) = take n (drop a xs)"
  by (simp add: subarray_def relative_def nat_add_distrib flip: of_nat_add)

lemma fixed_binary_built:
  assumes "list_all (scalar_ok (FixedSizeBinaryType w)) (filter (\<lambda>v. \<not> absent_value v) vals)" "0 \<le> w" "length vals + 7 < 2 ^ 31"
  shows "\<exists>v. bindR (mapR (slot_or_zeros (nat w) (\<lambda>v. case v of Prim (VBinary (Bytes b)) \<Rightarrow> Inr (fixed_slot (nat w) b) | _ \<Rightarrow> Inl outside_model)) vals)
    (\<lambda>slots. built (FixedSizeBinaryType w) vals (Some (concat slots)) None []) = Inr v \<and> reads_as v (FixedSizeBinaryType w) vals"
proof (rule fixed_width_built)
  fix v assume v: "v \<in> set vals" "\<not> absent_value v"
  then have "scalar_ok (FixedSizeBinaryType w) v" using assms by (simp add: list_all_present)
  then obtain b where b: "v = Prim (VBinary (Bytes b))" "int (length b) = w"
    by (auto simp: scalar_ok_def split: js_value.splits column_value.splits binary_value.splits)
  have "getValue (vector_data (FixedSizeBinaryType w) vals (Some (concat ss)) None []) i = Inr v"
    if "\<forall>s \<in> set ss. length s = nat w" "i < length ss" "ss ! i = b" for ss i
  proof -
    note c = concat_slots [OF that(1,2)]
    have "i * nat w + nat w \<le> length (concat ss)" using slot_bound [OF that(2), of "nat w"] c(2) by simp
    moreover have "int i * w = int (i * nat w)" "(int i + 1) * w = int (i * nat w + nat w)"
      using assms(2) by (simp_all add: algebra_simps)
    ultimately have "subarray (concat ss) (int i * w) ((int i + 1) * w) = b"
      using c(1) that(3) subarray_nat [of "i * nat w" "nat w" "concat ss"] by (simp only:)
    then show ?thesis using b(1) by (simp add: getValue.simps needed_def)
  qed
  moreover have "fixed_slot (nat w) b = b" "length b = nat w" using b(2) by (auto simp: fixed_slot_def)
  ultimately show "normal (FixedSizeBinaryType w) v = v \<and>
      (\<exists>b. (case v of Prim (VBinary (Bytes b)) \<Rightarrow> Inr (fixed_slot (nat w) b) | _ \<Rightarrow> Inl outside_model) = Inr b \<and> length b = nat w \<and>
      (\<forall>ss i. (\<forall>s \<in> set ss. length s = nat w) \<longrightarrow> i < length ss \<longrightarrow> ss ! i = b \<longrightarrow>
        getValue (vector_data (FixedSizeBinaryType w) vals (Some (concat ss)) None []) i = Inr v))"
    using b(1) by (auto simp: normal.simps)
qed (use assms(3) in \<open>simp_all add: makeVector_def has_validity_def is_primitive_def\<close>)

lemma var_built:
  assumes t: "(type, large, utf8) \<in> {(Utf8Type, False, True), (LargeUtf8Type, True, True), (BinaryType, False, False), (LargeBinaryType, True, False)}"
    and ok: "list_all (part_ok utf8) (filter (\<lambda>v. \<not> absent_value v) vals)" "parts_total utf8 vals < (if large then 2 ^ 53 else 2 ^ 31)" "length vals + 7 < 2 ^ 31"
  shows "\<exists>v. bindR (mapR (binary_part utf8) vals) (\<lambda>parts.
    built type vals (Some (concat parts)) (Some (offsets_buffer large (map length parts))) []) = Inr v \<and> reads_as v type vals"
proof -
  have "\<exists>b. binary_part utf8 v = Inr b \<and> (\<not> absent_value v \<longrightarrow> text_or_bytes utf8 b = normal type v)" if v: "v \<in> set vals" for v
  proof -
    have "part_ok utf8 v" if "\<not> absent_value v" using ok(1) that v by (simp add: list_all_present)
    then show ?thesis
      using t by (auto simp: binary_part_def part_ok_def text_or_bytes_def normal.simps text_decode_encode split: js_value.splits column_value.splits binary_value.splits)
  qed
  from mapR_ex [of vals "binary_part utf8" "\<lambda>v b. binary_part utf8 v = Inr b \<and> (\<not> absent_value v \<longrightarrow> text_or_bytes utf8 b = normal type v)"] this
  obtain parts where p: "mapR (binary_part utf8) vals = Inr parts"
    "list_all2 (\<lambda>v b. binary_part utf8 v = Inr b \<and> (\<not> absent_value v \<longrightarrow> text_or_bytes utf8 b = normal type v)) vals parts" by blast
  have len: "length parts = length vals" using p(2) by (simp add: list_all2_conv_all_nth)
  have "map (\<lambda>v. case binary_part utf8 v of Inl e \<Rightarrow> 0 | Inr b \<Rightarrow> length b) vals = map length parts"
    using p(2) by (intro nth_equalityI) (auto simp: list_all2_conv_all_nth)
  then have total: "sum_list (map length parts) < (if large then 2 ^ 53 else 2 ^ 31)" using ok(2) by (simp add: parts_total_def)
  let ?v = "vector_data type vals (Some (concat parts)) (Some (offsets_buffer large (map length parts))) []"
  have "getValue ?v i = Inr (normal type (vals ! i))" if "i < length vals" "\<not> absent_value (vals ! i)" for i
  proof -
    have "getValue ?v i = Inr (text_or_bytes utf8 (parts ! i))"
      using t part_read [of i parts large utf8] that(1) len total by (auto simp: getValue.simps needed_def)
    moreover have "text_or_bytes utf8 (parts ! i) = normal type (vals ! i)" using p(2) that by (simp add: list_all2_conv_all_nth)
    ultimately show ?thesis by simp
  qed
  from reads_asI [OF _ _ _ ok(3) this] t p(1) show ?thesis
    by (auto simp: makeVector_def needed_def has_validity_def)
qed

lemma list_built:
  assumes t: "(type, large) \<in> {(ListType f, False), (LargeListType f, True)}"
    and arrays: "list_all is_array (filter (\<lambda>v. \<not> absent_value v) vals)" and len: "length (concat (map array_items vals)) < 2 ^ 31" and small: "length vals + 7 < 2 ^ 31"
    and c: "reads_as c (fd_type f) (concat (map array_items vals))"
  shows "\<exists>v. built type vals None (Some (offsets_buffer large (map length (map array_items vals)))) [c] = Inr v \<and> reads_as v type vals"
proof -
  let ?items = "map array_items vals"
  let ?v = "vector_data type vals None (Some (offsets_buffer large (map length ?items))) [c]"
  have total: "sum_list (map length ?items) < (if large then 2 ^ 53 else 2 ^ 31)" using len by (cases large) (auto simp: length_concat comp_def)
  have "getValue ?v i = Inr (normal type (vals ! i))" if "i < length vals" "\<not> absent_value (vals ! i)" for i
  proof -
    have "collect_items (get c) (int (sum_list (take i (map length ?items)))) (int (sum_list (take (Suc i) (map length ?items)))) =
        Inr (map (normal (fd_type f)) (?items ! i))"
    proof (rule list_items_read)
      show "length (concat ?items) < 2 ^ 32" using len by simp
    qed (use that(1) c in \<open>simp_all add: reads_as_def\<close>)
    then show ?thesis
      using t that offsets_read [of i "map length ?items" large, OF _ total] offsets_read [of "Suc i" "map length ?items" large, OF _ total]
      by (auto simp: getValue.simps needed_def first_child_def normal.simps simp del: map_map)
  qed
  from reads_asI [OF _ _ _ small this] t show ?thesis by (auto simp: makeVector_def needed_def has_validity_def)
qed

lemma struct_built:
  assumes "list_all2 (\<lambda>f c. reads_as c (fd_type f) (column_field vals f)) fs cs" and small: "length vals + 7 < 2 ^ 31"
  shows "\<exists>v. built (StructType fs) vals None None cs = Inr v \<and> reads_as v (StructType fs) vals"
proof -
  let ?v = "vector_data (StructType fs) vals None None cs"
  have len: "length cs = length fs" using assms(1) by (simp add: list_all2_conv_all_nth)
  have "getValue ?v i = Inr (normal (StructType fs) (vals ! i))" if i: "i < length vals" "\<not> absent_value (vals ! i)" for i
  proof -
    have "get (cs ! k) (int i) = Inr (normal (fd_type (fs ! k)) (property_or_null (vals ! i) (fd_name (fs ! k))))" if "k < length fs" for k
      using assms(1) i that by (auto simp: list_all2_conv_all_nth reads_as_def column_field_def)
    then have "mapR (\<lambda>(c, k). if k < length fs then map_sum id (Pair (fd_name (fs ! k))) (get c (int i)) else Inl UndefinedProperty) (zip cs [0..<length cs]) =
        Inr (map (\<lambda>f. (fd_name f, normal (fd_type f) (property_or_null (vals ! i) (fd_name f)))) fs)"
      by (simp add: mapR_nth len)
    then show ?thesis using i(2) by (simp add: getValue.simps normal.simps)
  qed
  from reads_asI [OF _ _ _ small this] show ?thesis by (auto simp: makeVector_def has_validity_def is_primitive_def)
qed

lemma names_not_indices: "array_index key_name = None" "array_index value_name = None" "key_name \<noteq> value_name" "value_name \<noteq> key_name"
  by (simp_all add: array_index_def key_name_def value_name_def digit_value_def)

lemma entry_of_pair: "entry_of (Obj [(key_name, x), (value_name, y)]) = Inr (Arr [x, y])"
  by (simp add: entry_of_def own_keys_def Let_def names_not_indices)

lemma map_built:
  assumes arrays: "list_all is_array (filter (\<lambda>v. \<not> absent_value v) vals)" and len: "length (concat (map array_items vals)) < 2 ^ 31"
    and small: "length vals + 7 < 2 ^ 31" and f: "fd_type f = StructType fs" "map fd_name fs = [key_name, value_name]"
    and c: "reads_as c (fd_type f) (column_entries vals)"
  shows "\<exists>v. built (MapType ks f) vals None (Some (offsets_buffer False (map length (map array_items vals)))) [c] = Inr v \<and>
    reads_as v (MapType ks f) vals"
proof -
  let ?items = "map array_items vals"
  let ?v = "vector_data (MapType ks f) vals None (Some (offsets_buffer False (map length ?items))) [c]"
  let ?pair = "\<lambda>e. case normal (fd_type f) (entry_object e) of Obj [(k, x), (k', y)] \<Rightarrow> Arr [x, y] | _ \<Rightarrow> Null"
  have total: "sum_list (map length ?items) < (if False then 2 ^ 53 else 2 ^ 31)" using len by (auto simp: length_concat comp_def)
  have pair: "entry_of (normal (fd_type f) (entry_object e)) = Inr (?pair e)" for e
  proof -
    obtain k v where "fs = [k, v]" "fd_name k = key_name" "fd_name v = value_name" using f(2) by (auto simp: map_eq_Cons_conv)
    then have "normal (fd_type f) (entry_object e) = Obj [(key_name, normal (fd_type k) (property_or_null (entry_object e) key_name)),
        (value_name, normal (fd_type v) (property_or_null (entry_object e) value_name))]"
      by (simp add: normal.simps [of "StructType _"] f(1) entry_object_def)
    then show ?thesis by (simp add: entry_of_pair)
  qed
  have "getValue ?v i = Inr (normal (MapType ks f) (vals ! i))" if "i < length vals" "\<not> absent_value (vals ! i)" for i
  proof -
    have "collect_items (\<lambda>j. bindR (get c j) entry_of) (int (sum_list (take i (map length ?items)))) (int (sum_list (take (Suc i) (map length ?items)))) =
        Inr (map ?pair (?items ! i))"
    proof (rule list_items_read)
      show "length (concat ?items) < 2 ^ 32" using len by simp
      show "bindR (get c (int j)) entry_of = Inr (?pair (concat ?items ! j))" if "j < length (concat ?items)" for j
        using c that pair by (simp add: reads_as_def column_entries_def)
    qed (use that in simp)
    then show ?thesis
      using that offsets_read [of i "map length ?items" False, OF _ total] offsets_read [of "Suc i" "map length ?items" False, OF _ total]
      by (simp add: getValue.simps needed_def first_child_def normal.simps [of "MapType _ _"] del: map_map)
  qed
  from reads_asI [OF _ _ _ small this] show ?thesis by (auto simp: makeVector_def needed_def has_validity_def)
qed

lemma map_entries:
  assumes "list_all is_array (filter (\<lambda>v. \<not> absent_value v) vals)" "list_all is_array (concat (map array_items vals))"
  shows "mapR (\<lambda>v. bindR (map_pairs v) (mapR map_entry)) vals = Inr (map (\<lambda>v. map entry_object (array_items v)) vals)"
proof (rule mapR_Inr)
  fix v assume v: "v \<in> set vals"
  have "mapR map_entry (array_items v) = Inr (map entry_object (array_items v))"
  proof (rule mapR_Inr)
    fix e assume "e \<in> set (array_items v)"
    then have "is_array e" using assms(2) v by (auto simp: list_all_iff)
    then show "map_entry e = Inr (entry_object e)" by (cases e) auto
  qed
  moreover have "map_pairs v = Inr (array_items v)"
    using assms(1) v by (cases v) (auto simp: map_pairs_def list_all_present)
  ultimately show "bindR (map_pairs v) (mapR map_entry) = Inr (map entry_object (array_items v))" by simp
qed

lemma bool_built:
  assumes "list_all (scalar_ok BoolType) (filter (\<lambda>v. \<not> absent_value v) vals)" and small: "length vals + 7 < 2 ^ 31"
  shows "\<exists>v. built BoolType vals (Some (pack_bits (map truthy vals))) None [] = Inr v \<and> reads_as v BoolType vals"
proof -
  have "getValue (vector_data BoolType vals (Some (pack_bits (map truthy vals))) None []) i = Inr (normal BoolType (vals ! i))"
    if "i < length vals" "\<not> absent_value (vals ! i)" for i
  proof -
    have "scalar_ok BoolType (vals ! i)" using assms that by (simp add: list_all_present)
    then obtain b where "vals ! i = Prim (VBoolean b)" by (auto simp: scalar_ok_def split: js_value.splits column_value.splits)
    then show ?thesis using that(1) small by (simp add: getValue.simps needed_def bitGet_packed normal.simps)
  qed
  from reads_asI [OF _ _ _ small this] show ?thesis by (auto simp: makeVector_def has_validity_def is_primitive_def)
qed

lemma vector_built: "column_ok type vals \<Longrightarrow> \<exists>v. vectorFromArray vals type = Inr v \<and> reads_as v type vals"
proof (induction type arbitrary: vals rule: measure_induct_rule [where f = size])
  case (less type)
  note ok = less.prems [unfolded column_ok.simps [of type] Let_def]
  note small = column_ok_length [OF less.prems]
  have IH: "\<exists>c. vectorFromArray xs (fd_type f) = Inr c \<and> reads_as c (fd_type f) xs"
    if "f \<in> set (childFields type)" "column_ok (fd_type f) xs" for f xs
    using less.IH [OF child_type_size [OF that(1)] that(2)] .
  show ?case
  proof (cases type)
    case BoolType
    then show ?thesis using ok bool_built [of vals] by (simp add: vector_built_cases packed_booleans_small)
  next
    case (DecimalType p s w)
    then show ?thesis using ok decimal_built [of p s w vals] by (simp add: vector_built_cases)
  next
    case (FixedSizeBinaryType w)
    then have "0 \<le> w" using ok by (simp add: scalar_type_def)
    with FixedSizeBinaryType show ?thesis
      using ok fixed_binary_built [of w vals] by (simp add: vector_built_cases not_less)
  next
    case Utf8Type
    then show ?thesis using ok var_built [of type False True vals] by (simp add: vector_built_cases)
  next
    case LargeUtf8Type
    then show ?thesis using ok var_built [of type True True vals] by (simp add: vector_built_cases)
  next
    case BinaryType
    then show ?thesis using ok var_built [of type False False vals] by (simp add: vector_built_cases)
  next
    case LargeBinaryType
    then show ?thesis using ok var_built [of type True False vals] by (simp add: vector_built_cases)
  next
    case (ListType f)
    then obtain c where "vectorFromArray (concat (map array_items vals)) (fd_type f) = Inr c"
      "reads_as c (fd_type f) (concat (map array_items vals))"
      using ok IH [of f] by (auto simp: childFields_def)
    then show ?thesis using ListType ok list_built [of type False f vals c] small column_ok_length [of "fd_type f" "concat (map array_items vals)"] by (simp add: vectorFromArray.simps [of _ "ListType f"] makeValidity_small built_with_validity)
  next
    case (LargeListType f)
    then obtain c where "vectorFromArray (concat (map array_items vals)) (fd_type f) = Inr c"
      "reads_as c (fd_type f) (concat (map array_items vals))"
      using ok IH [of f] by (auto simp: childFields_def)
    then show ?thesis using LargeListType ok list_built [of type True f vals c] small column_ok_length [of "fd_type f" "concat (map array_items vals)"] by (simp add: vectorFromArray.simps [of _ "LargeListType f"] makeValidity_small built_with_validity)
  next
    case (StructType fs)
    then have "\<exists>c. vectorFromArray (column_field vals f) (fd_type f) = Inr c \<and> reads_as c (fd_type f) (column_field vals f)" if "f \<in> set fs" for f
      using ok IH [of f] that by (auto simp: childFields_def list_all_iff)
    from mapR_ex [of fs "\<lambda>f. vectorFromArray (column_field vals f) (fd_type f)" "\<lambda>f c. reads_as c (fd_type f) (column_field vals f)"] this
    obtain cs where "mapR (\<lambda>f. vectorFromArray (column_field vals f) (fd_type f)) fs = Inr cs"
      "list_all2 (\<lambda>f c. reads_as c (fd_type f) (column_field vals f)) fs cs" by blast
    then show ?thesis using StructType struct_built [of vals fs cs] small
      by (simp add: vectorFromArray.simps [of _ "StructType fs"] makeValidity_small built_with_validity column_field_def)
  next
    case (MapType ks f)
    then obtain fs where fs: "fd_type f = StructType fs" "map fd_name fs = [key_name, value_name]"
      using ok by (auto split: data_type.splits)
    obtain c where c: "vectorFromArray (column_entries vals) (fd_type f) = Inr c" "reads_as c (fd_type f) (column_entries vals)"
      using MapType ok IH [of f] by (auto simp: childFields_def)
    have "column_entries vals = concat (map (\<lambda>v. map entry_object (array_items v)) vals)"
      by (simp add: column_entries_def map_concat comp_def)
    moreover have "length (concat (map array_items vals)) < 2 ^ 31"
      using MapType ok column_ok_length [of "fd_type f" "column_entries vals"] by simp
    ultimately show ?thesis using MapType ok c small map_entries [of vals] map_built [OF _ _ small fs c(2), of ks]
      by (simp add: vectorFromArray.simps [of _ "MapType ks f"] makeValidity_small built_with_validity comp_def)
  qed (use ok primitive_built [of type vals] in \<open>simp_all add: vector_built_cases scalar_type_def is_primitive_def\<close>)
qed

text \<open>C2: vectors of plain values. For every type that \<open>vectorFromArray\<close> builds, nested to any depth, the buffers it
  writes are read back as \<open>normal\<close> describes: \<open>null\<close> where the value was absent, strings with unpaired surrogates replaced
  and without an initial byte order mark, structs as objects with the fields of the type, maps as pairs, all other values
  unchanged; and the null count is the number of absent values. \<open>column_ok\<close> asks that every value has the kind and the
  range of its type (a half-precision value is representable as one), that a map type names its entries \<open>key\<close> and
  \<open>value\<close>, that every level has fewer than \<open>2 ^ 31 - 7\<close> slots, and that the bytes of a column of short strings stay
  below \<open>2 ^ 31\<close>.\<close>

theorem vector_roundtrip:
  assumes "column_ok type vals"
  shows "\<exists>v. vectorFromArray vals type = Inr v \<and> toArray v = Inr (map (normal type) vals) \<and>
    nullCount v = int (length (filter absent_value vals))"
  using vector_built [OF assms] by (auto simp: reads_as_def toArray_iff)

definition sample_type :: data_type where
  "sample_type = StructType [Field [110] Utf8Type False None, Field [116] (ListType (Field [101] (IntType 16 True) True None)) True None]"

definition sample_js_rows :: "js_data list" where
  "sample_js_rows = [Obj [([116], Arr [Prim (VNumber (- 2)), Undefined]), ([110], Prim (VBinary (Str [97])))], Undefined,
     Obj [([110], Prim (VBinary (Str [98]))), ([116], Null)]]"

lemma sample_js_rows_ok: "column_ok sample_type sample_js_rows"
proof -
  show ?thesis
    by (simp add: sample_type_def sample_js_rows_def column_ok.simps column_field_def property_or_null_def part_ok_def
        parts_total_def binary_part_def encodeUtf8_def scalar_type_def is_primitive_def scalar_ok_def int_fits_def)
qed

theorem vector_roundtrip_witness:
  "\<exists>v. vectorFromArray sample_js_rows sample_type = Inr v \<and>
    toArray v = Inr [Obj [([110], Prim (VBinary (Str [97]))), ([116], Arr [Prim (VNumber (- 2)), Null])], Null,
      Obj [([110], Prim (VBinary (Str [98]))), ([116], Null)]] \<and> nullCount v = 1"
  using vector_roundtrip [OF sample_js_rows_ok]
  by (simp add: sample_js_rows_def sample_type_def normal.simps property_or_null_def strip_bom_def)

subsection \<open>Run-end encoding\<close>

lemma run_search_finds:
  assumes "0 \<le> lo" "lo \<le> k" "k \<le> hi" "hi < 2 ^ 30" "nat (hi - lo) < fuel"
    and "\<And>m. lo \<le> m \<Longrightarrow> m < hi \<Longrightarrow> before m = Inr (m < k)"
  shows "run_search fuel before lo hi = Inr k"
  using assms
proof (induction fuel before lo hi rule: run_search.induct)
  case (2 fuel before lo hi)
  show ?case
  proof (cases "lo < hi")
    case True
    let ?mid = "(lo + hi) div 2"
    have shift: "shr32 (nat (lo + hi)) 1 = ?mid"
      using 2(3,4,5,6) shr32_small [of "nat (lo + hi)" 1] by (simp add: nat_less_iff zdiv_int)
    have mid: "lo \<le> ?mid" "?mid < hi" "before ?mid = Inr (?mid < k)" using True 2(8) by auto
    have "run_search fuel before (?mid + 1) hi = Inr k" if "?mid < k"
      using that mid 2(3-8) by (intro 2(1) [OF True shift [symmetric]]) auto
    moreover have "run_search fuel before lo ?mid = Inr k" if "\<not> ?mid < k"
      using that mid 2(3-8) by (intro 2(2) [OF True shift [symmetric]]) auto
    ultimately show ?thesis using True mid(3) by (simp add: shift [simplified] Let_def)
  qed (use 2(4,5) in simp)
qed simp

text \<open>Past \<open>2 ^ 30\<close> run ends the sum of the bounds leaves the signed range: the second half is not searched.\<close>

lemma run_search_overflow:
  assumes "before (2 ^ 30 - 1) = Inr True" "\<And>m. m < 0 \<Longrightarrow> before m = Inr False"
  shows "run_search (Suc (Suc (Suc fuel))) before 0 (2 ^ 31 - 2) = Inr (2 ^ 30)"
proof -
  have "shr32 (nat (0 + (2 ^ 31 - 2))) 1 = 2 ^ 30 - 1" using shr32_small [of "2 ^ 31 - 2" 1] by simp
  moreover have "shr32 (nat (2 ^ 30 - 1 + 1 + (2 ^ 31 - 2))) 1 < 0" by (rule shr32_negative) simp_all
  ultimately show ?thesis using assms by (simp add: Let_def)
qed

lemma sorted_filter_prefix:
  "sorted_wrt (<) es \<Longrightarrow> m < length es \<Longrightarrow> es ! m \<le> (p :: int) \<longleftrightarrow> m < length (filter (\<lambda>e. e \<le> p) es)"
proof (induction es arbitrary: m)
  case (Cons e es)
  show ?case
  proof (cases "e \<le> p")
    case True
    then show ?thesis using Cons by (cases m) auto
  next
    case False
    then have "filter (\<lambda>e. e \<le> p) es = []" using Cons.prems(1) by (auto simp: filter_empty_conv)
    moreover have "\<not> (e # es) ! m \<le> p" using False Cons.prems by (cases m) (auto dest!: nth_mem)
    ultimately show ?thesis using False by simp
  qed
qed simp

text \<open>The run ends of a vector: numbers, or bigints that are exact as numbers, in ascending order.\<close>

definition run_ends :: "vector \<Rightarrow> int list \<Rightarrow> bool" where
  "run_ends runEnds es \<longleftrightarrow> vd_length runEnds = length es \<and> sorted_wrt (<) es \<and>
     (\<forall>m < length es. get runEnds (int m) = Inr (Prim (VNumber (es ! m))) \<or>
        get runEnds (int m) = Inr (Prim (VBigInt (es ! m))) \<and> \<bar>es ! m\<bar> < 2 ^ 53)"

lemma run_found:
  assumes "vd_type v = RunEndEncodedType re vs" "vd_children v = [runEnds, vals]" "run_ends runEnds es" "length es \<le> 2 ^ 30"
    and "i < vd_length v" "int (vd_offset v + i) < last es" "es \<noteq> []"
  shows "get v (int i) = get vals (int (length (filter (\<lambda>e. e \<le> int (vd_offset v + i)) es)))"
proof -
  let ?p = "int (vd_offset v + i)" and ?k = "length (filter (\<lambda>e. e \<le> int (vd_offset v + i)) es)"
  have es: "vd_length runEnds = length es" "sorted_wrt (<) es" using assms(3) by (simp_all add: run_ends_def)
  have k: "?k < length es"
  proof -
    have "\<not> es ! (length es - 1) \<le> ?p" using assms(6,7) by (simp add: last_conv_nth)
    then show ?thesis using sorted_filter_prefix [OF es(2), of "length es - 1" ?p] assms(7) by (cases es) simp_all
  qed
  have "bindR (get runEnds m) (run_end_le (vd_offset v + i)) = Inr (m < int ?k)" if "0 \<le> m" "m < int (length es) - 1" for m
  proof -
    have m: "nat m < length es" "int (nat m) = m" using that by simp_all
    then have "bindR (get runEnds m) (run_end_le (vd_offset v + i)) = Inr (es ! nat m \<le> ?p)"
      using assms(3) unfolding run_ends_def by (metis number_of_small bindR_simps(2) run_end_le.simps(1,2))
    then show ?thesis using sorted_filter_prefix [OF es(2) m(1), of ?p] m(2) by (simp add: nat_less_iff)
  qed
  then have "run_search (Suc (length es)) (\<lambda>mid. bindR (get runEnds mid) (run_end_le (vd_offset v + i))) 0 (int (length es) - 1) = Inr (int ?k)"
    using k assms(4) by (intro run_search_finds) auto
  then show ?thesis using assms(1,2,5) es(1) by (simp add: get.simps [of v] isValid_def has_validity_def getValue.simps [of v] del: run_search.simps)
qed

text \<open>C27: run-end encoding. In a run-end-encoded vector whose run ends ascend, are 16- or 32-bit numbers or 64-bit
  bigints below \<open>2 ^ 53\<close>, and are at most \<open>2 ^ 30\<close> in number, the binary search finds the run of a position: an element
  is the value of the run whose index is the number of run ends at or before it, at any offset. The bound is the one up
  to which the signed shift \<open>(lo + hi) >> 1\<close> is a division; \<open>run_search_overflow\<close> shows what happens beyond it.\<close>

theorem run_end_lookup:
  assumes "vd_type v = RunEndEncodedType re vs" "vd_children v = [runEnds, vals]" "run_ends runEnds es" "length es \<le> 2 ^ 30"
    and "i < vd_length v" "int (vd_offset v + i) < last es" "es \<noteq> []"
  shows "get v (int i) = get vals (int (length (filter (\<lambda>e. e \<le> int (vd_offset v + i)) es)))"
  by (rule run_found [OF assms])

definition sample_runs :: vector where
  "sample_runs = Vector (RunEndEncodedType no_field no_field) 4 None None 1 None None None None [] None
     [sample_bytes 2 None [2, 5], sample_bytes 2 None [10, 20]] None"

theorem run_end_lookup_witness: "get sample_runs 1 = get (sample_bytes 2 None [10, 20]) 1"
proof -
  have "get (sample_bytes 2 None [2, 5]) (int m) = Inr (Prim (VNumber ([2, 5] ! m)))" if "m < length [2, 5 :: int]" for m
    using that sample_bytes_get [of m 2 "[2, 5]" None] by (auto simp: less_Suc_eq)
  then have "run_ends (sample_bytes 2 None [2, 5]) [2, 5]" by (simp add: run_ends_def sample_bytes_def)
  then have "get sample_runs (int 1) = get (sample_bytes 2 None [10, 20]) (int (length (filter (\<lambda>e. e \<le> int (vd_offset sample_runs + 1)) [2, 5])))"
    by (intro run_end_lookup) (simp_all add: sample_runs_def)
  then show ?thesis by (simp add: sample_runs_def)
qed

subsection \<open>What is lost\<close>

text \<open>A string that begins with a byte order mark is read back without it.\<close>

theorem vector_drops_bom:
  "\<exists>v. vectorFromArray [Prim (VBinary (Str [0xFEFF, 97]))] Utf8Type = Inr v \<and> get v 0 = Inr (Prim (VBinary (Str [97])))"
proof -
  let ?b = "encodeUtf8 [0xFEFF, 97]"
  let ?v = "vector_data Utf8Type [Prim (VBinary (Str [0xFEFF, 97]))] (Some ?b) (Some (offsets_buffer False [length ?b])) []"
  have b: "length ?b = 4" by (simp add: encodeUtf8_loop encode_loop_def next_cp_def encode_cp_def)
  have t: "text_decode ?b = [97]" by (simp add: text_decode_encode strip_bom_def)
  have "getValue ?v 0 = Inr (Prim (VBinary (Str [97])))"
    using part_read [of 0 "[?b]" False True] b t by (simp add: getValue.simps needed_def text_or_bytes_def)
  then have "get ?v (int 0) = Inr (Prim (VBinary (Str [97])))"
    by (subst built_get) (simp_all add: has_validity_def)
  then show ?thesis by (auto simp: vector_built_cases binary_part_def built_def makeVector_def needed_def)
qed

text \<open>The entries of a map are built under the names \<open>key\<close> and \<open>value\<close>: fields of other names read as null.\<close>

theorem map_fields_of_other_names:
  "\<exists>c. vectorFromArray [Arr [Arr [x, y]]] (MapType ks (Field nm (StructType [Field [107] BoolType False None, Field [118] BoolType True None]) False None)) = Inr c \<and>
    get c 0 = Inr (Arr [Arr [Null, Null]])"
proof -
  let ?e = "entry_object (Arr [x, y])" and ?st = "StructType [Field [107] BoolType False None, Field [118] BoolType True None]"
  let ?m = "MapType ks (Field nm ?st False None)" and ?vals = "[Arr [Arr [x, y]]] :: js_data list"
  have null: "property_or_null ?e [107] = Null" "property_or_null ?e [118] = Null" "\<not> absent_value ?e" "is_object ?e"
    by (simp_all add: property_or_null_def entry_object_def key_name_def value_name_def)
  then have "column_ok ?st [?e]" by (simp add: column_ok.simps column_field_def scalar_type_def)
  from vector_built [OF this] obtain c where c: "vectorFromArray [?e] ?st = Inr c" "get c 0 = Inr (Obj [([107], Null), ([118], Null)])"
    using null by (auto simp: reads_as_def normal.simps)
  have "entry_of (Obj [([107], Null), ([118], Null)]) = Inr (Arr [Null, Null])"
    by (simp add: entry_of_def own_keys_def array_index_def digit_value_def Let_def)
  with c(2) have "collect_items (\<lambda>j. bindR (get c j) entry_of) 0 1 = Inr [Arr [Null, Null]]"
    by (simp add: collect_items_def new_array_def int_range_list_def)
  then have "getValue (vector_data ?m ?vals None (Some (offsets_buffer False [1])) [c]) 0 = Inr (Arr [Arr [Null, Null]])"
    using offsets_read [of 0 "[1]" False] offsets_read [of 1 "[1]" False] by (simp add: getValue.simps needed_def first_child_def)
  then have "get (vector_data ?m ?vals None (Some (offsets_buffer False [1])) [c]) (int 0) = Inr (Arr [Arr [Null, Null]])"
    by (subst built_get) (simp_all add: has_validity_def)
  with c(1) show ?thesis
    by (simp add: vectorFromArray.simps [of _ ?m] makeValidity_small built_with_validity map_pairs_def built_def makeVector_def needed_def)
qed

text \<open>A null vector has no bounds.\<close>

lemma null_vector_unbounded: "vd_type v = NullType \<Longrightarrow> get v i = Inr Null"
  by (simp add: get.simps)

end
