(* ===== verification/Arrow_Table.thy ===== *)
theory Arrow_Table
  imports Arrow_Vector
begin

text \<open>
  \<open>data/arrow/batch.ts\<close> and \<open>data/arrow/table.ts\<close>: record batches, tables, and the chunked view of a column with its
  cached cursor. \<open>RecordBatch.from\<close> of plain arrays infers types and is not modelled.
\<close>

subsection \<open>Record batches\<close>

record RecordBatch =
  rb_schema :: "field list"
  rb_columns :: "vector list"
  rb_numRows :: nat

definition newRecordBatch :: "field list \<Rightarrow> vector list \<Rightarrow> js_error + RecordBatch" where
  "newRecordBatch schema columns =
     (if length schema \<noteq> length columns then Inl (ArrowError ''schema and columns differ in number'')
      else let numRows = (case columns of [] \<Rightarrow> 0 | c # _ \<Rightarrow> vd_length c) in
        if list_ex (\<lambda>c. vd_length c \<noteq> numRows) columns
        then Inl (ArrowError ''all columns in a record batch must have the same length'')
        else Inr \<lparr>rb_schema = schema, rb_columns = columns, rb_numRows = numRows\<rparr>)"

fun find_index :: "('a \<Rightarrow> bool) \<Rightarrow> 'a list \<Rightarrow> nat option" where
  "find_index P [] = None"
| "find_index P (x # xs) = (if P x then Some 0 else map_option Suc (find_index P xs))"

definition batch_getChild :: "RecordBatch \<Rightarrow> text_string \<Rightarrow> vector option" where
  "batch_getChild b name = (case find_index (\<lambda>f. fd_name f = name) (rb_schema b) of
     None \<Rightarrow> None | Some i \<Rightarrow> if i < length (rb_columns b) then Some (rb_columns b ! i) else None)"

definition batch_columnAt :: "RecordBatch \<Rightarrow> nat \<Rightarrow> vector option" where
  "batch_columnAt b i = (if i < length (rb_columns b) then Some (rb_columns b ! i) else None)"

definition batch_row :: "RecordBatch \<Rightarrow> nat \<Rightarrow> js_error + js_data" where
  "batch_row b i =
     bindR (mapR (\<lambda>(c, k). if k < length (rb_schema b) then map_sum id (Pair (fd_name (rb_schema b ! k))) (get c (int i)) else Inl UndefinedProperty)
       (zip (rb_columns b) [0..<length (rb_columns b)])) (\<lambda>ps. Inr (Obj ps))"

definition batch_toArray :: "RecordBatch \<Rightarrow> js_error + js_data list" where
  "batch_toArray b = mapR (batch_row b) [0..<rb_numRows b]"

definition batch_slice :: "RecordBatch \<Rightarrow> nat \<Rightarrow> nat \<Rightarrow> js_error + RecordBatch" where
  "batch_slice b begin to = bindR (mapR (\<lambda>c. slice c begin to) (rb_columns b)) (newRecordBatch (rb_schema b))"

subsection \<open>Chunked columns\<close>

record Column =
  col_chunks :: "vector list"
  col_length :: nat
  col_cursorChunk :: nat
  col_cursorBase :: nat

definition newColumn :: "vector list \<Rightarrow> Column" where
  "newColumn chunks = \<lparr>col_chunks = chunks, col_length = sum_list (map vd_length chunks), col_cursorChunk = 0, col_cursorBase = 0\<rparr>"

text \<open>The loop that looks for the chunk of an index, and \<open>get\<close>, which moves the cursor.\<close>

fun seek :: "vector list \<Rightarrow> int \<Rightarrow> nat \<Rightarrow> nat \<Rightarrow> nat \<times> nat" where
  "seek [] i c base = (0, base)"
| "seek (c0 # chunks) i c base =
     (if i < int (base + vd_length c0) then (c, base) else seek chunks i (c + 1) (base + vd_length c0))"

definition chunk_length :: "Column \<Rightarrow> nat \<Rightarrow> nat" where
  "chunk_length col c = (if c < length (col_chunks col) then vd_length (col_chunks col ! c) else 0)"

definition column_get :: "Column \<Rightarrow> int \<Rightarrow> (js_error + js_data) \<times> Column" where
  "column_get col i =
     (let (c, base) =
        (if i < int (col_cursorBase col) \<or> int (col_cursorBase col + chunk_length col (col_cursorChunk col)) \<le> i
         then seek (col_chunks col) i 0 0 else (col_cursorChunk col, col_cursorBase col)) in
      (if c < length (col_chunks col) then get (col_chunks col ! c) (i - int base) else Inr Undefined,
       col\<lparr>col_cursorChunk := c, col_cursorBase := base\<rparr>))"

definition column_toArray :: "Column \<Rightarrow> js_error + js_data list" where
  "column_toArray col = bindR (mapR toArray (col_chunks col)) (\<lambda>xss. Inr (concat xss))"

subsection \<open>Tables\<close>

record Table =
  tb_schema :: "field list"
  tb_batches :: "RecordBatch list"
  tb_numRows :: nat

definition newTable :: "field list \<Rightarrow> RecordBatch list \<Rightarrow> js_error + Table" where
  "newTable schema batches =
     (if list_ex (\<lambda>b. length (rb_schema b) \<noteq> length schema) batches
      then Inl (ArrowError ''all batches in a table must share the schema'')
      else Inr \<lparr>tb_schema = schema, tb_batches = batches, tb_numRows = sum_list (map rb_numRows batches)\<rparr>)"

definition table_from :: "RecordBatch list \<Rightarrow> js_error + Table" where
  "table_from batches = (case batches of
     [] \<Rightarrow> Inl (ArrowError ''Table.from requires at least one batch'') | b # _ \<Rightarrow> newTable (rb_schema b) batches)"

definition table_columnAt :: "Table \<Rightarrow> nat \<Rightarrow> js_error + Column" where
  "table_columnAt t i =
     (if list_all (\<lambda>b. i < length (rb_columns b)) (tb_batches t) then Inr (newColumn (map (\<lambda>b. rb_columns b ! i) (tb_batches t)))
      else Inl UndefinedProperty)"

definition table_getChild :: "Table \<Rightarrow> text_string \<Rightarrow> js_error + Column option" where
  "table_getChild t name = (case find_index (\<lambda>f. fd_name f = name) (tb_schema t) of
     None \<Rightarrow> Inr None | Some i \<Rightarrow> map_sum id Some (table_columnAt t i))"

definition table_toArray :: "Table \<Rightarrow> js_error + js_data list" where
  "table_toArray t = bindR (mapR batch_toArray (tb_batches t)) (\<lambda>rss. Inr (concat rss))"

subsection \<open>The cursor\<close>

text \<open>Where the cursor may stand: at a chunk with the elements before it counted, or, after a read past the last
  element, at the first chunk with all elements counted.\<close>

definition cursor_ok :: "Column \<Rightarrow> bool" where
  "cursor_ok col \<longleftrightarrow> col_length col = sum_list (map vd_length (col_chunks col)) \<and>
     (col_cursorChunk col \<le> length (col_chunks col) \<and> col_cursorBase col = sum_list (take (col_cursorChunk col) (map vd_length (col_chunks col))) \<or>
      col_cursorChunk col = 0 \<and> col_cursorBase col = col_length col)"

lemma newColumn_ok: "cursor_ok (newColumn chunks)"
  by (simp add: cursor_ok_def newColumn_def)

lemma seek_finds:
  "seek chunks i c base = (c', base') \<Longrightarrow> int base \<le> i \<Longrightarrow> i < int (base + sum_list (map vd_length chunks)) \<Longrightarrow>
    \<exists>k < length chunks. c' = c + k \<and> base' = base + sum_list (take k (map vd_length chunks)) \<and>
      int base' \<le> i \<and> i < int (base' + vd_length (chunks ! k))"
proof (induction chunks arbitrary: c base)
  case (Cons c0 chunks)
  show ?case
  proof (cases "i < int (base + vd_length c0)")
    case True
    then show ?thesis using Cons.prems by (intro exI [of _ 0]) simp
  next
    case False
    then obtain k where "k < length chunks" "c' = c + 1 + k" "base' = base + vd_length c0 + sum_list (take k (map vd_length chunks))"
      "int base' \<le> i" "i < int (base' + vd_length (chunks ! k))"
      using Cons.IH [of "c + 1" "base + vd_length c0"] Cons.prems by auto
    then show ?thesis by (intro exI [of _ "Suc k"]) simp
  qed
qed simp

lemma seek_stands:
  "seek chunks i c base = (c', base') \<Longrightarrow>
    (\<exists>k \<le> length chunks. c' = c + k \<and> base' = base + sum_list (take k (map vd_length chunks))) \<or>
    c' = 0 \<and> base' = base + sum_list (map vd_length chunks)"
proof (induction chunks arbitrary: c base)
  case (Cons c0 chunks)
  show ?case
  proof (cases "i < int (base + vd_length c0)")
    case True
    then show ?thesis using Cons.prems by (intro disjI1 exI [of _ 0]) simp
  next
    case False
    with Cons.IH [of "c + 1" "base + vd_length c0"] Cons.prems
    consider k where "k \<le> length chunks" "c' = c + 1 + k" "base' = base + vd_length c0 + sum_list (take k (map vd_length chunks))"
      | "c' = 0" "base' = base + vd_length c0 + sum_list (map vd_length chunks)" by auto
    then show ?thesis
    proof cases
      case 1
      then show ?thesis by (intro disjI1 exI [of _ "Suc k"]) simp
    qed simp
  qed
qed auto

lemma column_get_ok: "cursor_ok col \<Longrightarrow> cursor_ok (snd (column_get col i)) \<and> col_chunks (snd (column_get col i)) = col_chunks col \<and>
    col_length (snd (column_get col i)) = col_length col"
  using seek_stands [of "col_chunks col" i 0 0]
  by (cases "seek (col_chunks col) i 0 0") (auto simp: column_get_def cursor_ok_def Let_def)

lemma column_get_found:
  assumes "cursor_ok col" "0 \<le> i" "i < int (col_length col)"
  shows "\<exists>k < length (col_chunks col). let base = sum_list (take k (map vd_length (col_chunks col))) in
    int base \<le> i \<and> i < int (base + vd_length (col_chunks col ! k)) \<and> fst (column_get col i) = get (col_chunks col ! k) (i - int base)"
proof (cases "i < int (col_cursorBase col) \<or> int (col_cursorBase col + chunk_length col (col_cursorChunk col)) \<le> i")
  case True
  obtain c base where s: "seek (col_chunks col) i 0 0 = (c, base)" by (cases "seek (col_chunks col) i 0 0")
  from seek_finds [OF s] assms obtain k where "k < length (col_chunks col)" "c = k" "base = sum_list (take k (map vd_length (col_chunks col)))"
    "int base \<le> i" "i < int (base + vd_length (col_chunks col ! k))" by (auto simp: cursor_ok_def)
  with True s show ?thesis by (intro exI [of _ k]) (simp add: column_get_def Let_def)
next
  case False
  then have c: "col_cursorChunk col < length (col_chunks col)" by (auto simp: chunk_length_def split: if_splits)
  moreover have "col_cursorBase col = sum_list (take (col_cursorChunk col) (map vd_length (col_chunks col)))"
    using assms False by (auto simp: cursor_ok_def)
  ultimately show ?thesis using False by (intro exI [of _ "col_cursorChunk col"]) (simp add: column_get_def chunk_length_def Let_def)
qed

fun column_run :: "Column \<Rightarrow> int list \<Rightarrow> (js_error + js_data) list" where
  "column_run col [] = []"
| "column_run col (i # is) = (case column_get col i of (r, col') \<Rightarrow> r # column_run col' is)"

lemma column_get_element:
  assumes "cursor_ok col" "mapR toArray (col_chunks col) = Inr xss" "0 \<le> i" "i < int (col_length col)"
  shows "fst (column_get col i) = Inr (concat xss ! nat i)"
proof -
  obtain k where k: "k < length (col_chunks col)" "int (sum_list (take k (map vd_length (col_chunks col)))) \<le> i"
    "i < int (sum_list (take k (map vd_length (col_chunks col))) + vd_length (col_chunks col ! k))"
    "fst (column_get col i) = get (col_chunks col ! k) (i - int (sum_list (take k (map vd_length (col_chunks col)))))"
    using column_get_found [OF assms(1,3,4)] by (auto simp: Let_def)
  have x: "length xss = length (col_chunks col)" "\<And>k. k < length (col_chunks col) \<Longrightarrow> toArray (col_chunks col ! k) = Inr (xss ! k)"
    using assms(2) by (auto simp: mapR_nth)
  have lens: "map vd_length (col_chunks col) = map length xss"
    using x by (intro nth_equalityI) (auto simp: toArray_iff)
  obtain j where j: "i = int (sum_list (take k (map length xss)) + j)" "j < length (xss ! k)"
  proof -
    have "vd_length (col_chunks col ! k) = length (xss ! k)" using x(2) [OF k(1)] by (simp add: toArray_iff)
    then show ?thesis using that [of "nat (i - int (sum_list (take k (map length xss))))"] k(2,3) lens by simp
  qed
  have "fst (column_get col i) = Inr (xss ! k ! j)"
    using k(4) x(2) [OF k(1)] j by (simp add: lens toArray_iff)
  moreover have "concat xss ! nat i = xss ! k ! j"
  proof -
    have k': "k < length xss" using k(1) x(1) by simp
    have "concat xss ! (sum_list (take k (map length xss)) + j) = (concat (take k xss) @ xss ! k @ concat (drop (Suc k) xss)) ! (length (concat (take k xss)) + j)"
      using concat_parts [OF k'] by simp
    moreover have "nat i = sum_list (take k (map length xss)) + j" by (simp only: j(1) nat_int)
    ultimately show ?thesis using j(2) by (simp add: nth_append)
  qed
  ultimately show ?thesis by simp
qed

lemma column_run_elements:
  assumes "cursor_ok col" "mapR toArray (col_chunks col) = Inr xss"
  shows "list_all2 (\<lambda>i r. 0 \<le> i \<and> i < int (col_length col) \<longrightarrow> r = Inr (concat xss ! nat i)) is (column_run col is)"
  using assms
proof (induction "is" arbitrary: col)
  case (Cons i "is")
  obtain r col' where g: "column_get col i = (r, col')" by (cases "column_get col i")
  then show ?case using Cons.IH [of col'] column_get_ok [OF Cons.prems(1), of i] column_get_element [OF Cons.prems, of i] Cons.prems by simp
qed simp

text \<open>C3: chunked columns. Whatever elements have been read before, in range or not, the cached cursor is
  transparent: every read in range gives the element of the concatenation of the chunks.\<close>

theorem column_cursor_transparent:
  assumes "mapR toArray chunks = Inr xss"
  shows "list_all2 (\<lambda>i r. 0 \<le> i \<and> i < int (length (concat xss)) \<longrightarrow> r = Inr (concat xss ! nat i)) is (column_run (newColumn chunks) is)"
proof -
  have "map vd_length chunks = map length xss"
    using assms by (intro nth_equalityI) (auto simp: mapR_nth toArray_iff)
  then have "col_length (newColumn chunks) = length (concat xss)" by (simp add: newColumn_def length_concat)
  with column_run_elements [OF newColumn_ok, of chunks xss "is"] assms show ?thesis by (simp add: newColumn_def)
qed

theorem column_cursor_transparent_witness:
  "list_all2 (\<lambda>i r. 0 \<le> i \<and> i < int (length (concat [[Prim (VNumber 7), Null, Prim (VNumber 9)], [Prim (VNumber 7), Null, Prim (VNumber 9)]])) \<longrightarrow>
      r = Inr (concat [[Prim (VNumber 7), Null, Prim (VNumber 9)], [Prim (VNumber 7), Null, Prim (VNumber 9)]] ! nat i)) [4, 9, 2]
    (column_run (newColumn [sample_bytes 3 (Some [5]) [7, 8, 9], sample_bytes 3 (Some [5]) [7, 8, 9]]) [4, 9, 2])"
  by (rule column_cursor_transparent) (simp add: sample_slice_vector)

subsection \<open>Slices of batches\<close>

lemma batch_slice_rows:
  assumes b: "newRecordBatch schema columns = Inr b" "list_all (\<lambda>c. makeVector c = Inr c) columns" and rows: "batch_toArray b = Inr rows"
  shows "\<exists>b'. batch_slice b begin to = Inr b' \<and> batch_toArray b' = Inr (drop begin (take to rows))"
proof -
  let ?rows = "case columns of [] \<Rightarrow> 0 | c # _ \<Rightarrow> vd_length c"
  have n: "length schema = length columns" "\<not> list_ex (\<lambda>c. vd_length c \<noteq> ?rows) columns"
    "b = \<lparr>rb_schema = schema, rb_columns = columns, rb_numRows = ?rows\<rparr>"
    using b(1) by (simp_all add: newRecordBatch_def Let_def split: if_splits)
  have c: "rb_schema b = schema" "rb_columns b = columns" "length columns = length schema" "\<And>c. c \<in> set columns \<Longrightarrow> vd_length c = rb_numRows b"
    "columns = [] \<Longrightarrow> rb_numRows b = 0"
    using n(1,2) unfolding n(3) list_ex_iff by simp_all
  have "\<exists>w. slice c begin to = Inr w \<and> vd_length w = min to (rb_numRows b) - begin \<and>
      (\<forall>i < vd_length w. get w (int i) = get c (int (begin + i)))" if "c \<in> set columns" for c
  proof -
    from makeVector_raw [of c] that b(2) obtain w where w: "slice c begin to = Inr w" "vd_length w = min to (vd_length c) - begin"
      by (auto simp: slice_def list_all_iff)
    then show ?thesis using get_slice [OF w(1)] c(4) [OF that] by auto
  qed
  from mapR_ex [of columns "\<lambda>c. slice c begin to", OF this] obtain ws where ws: "mapR (\<lambda>c. slice c begin to) columns = Inr ws"
    "list_all2 (\<lambda>c w. vd_length w = min to (rb_numRows b) - begin \<and> (\<forall>i < vd_length w. get w (int i) = get c (int (begin + i)))) columns ws"
    by auto
  let ?n = "min to (rb_numRows b) - begin"
  have len: "length ws = length columns" "\<And>w. w \<in> set ws \<Longrightarrow> vd_length w = ?n"
    using ws(2) by (auto simp: list_all2_conv_all_nth in_set_conv_nth)
  let ?b = "\<lparr>rb_schema = schema, rb_columns = ws, rb_numRows = ?n\<rparr>"
  have "(case ws of [] \<Rightarrow> 0 | w # _ \<Rightarrow> vd_length w) = ?n"
    using len(1) len(2) [of "hd ws"] c(5) by (cases ws) auto
  then have s: "batch_slice b begin to = Inr ?b"
    using ws(1) len c(1-3) by (simp add: batch_slice_def newRecordBatch_def Let_def list_ex_iff)
  have row: "batch_row ?b i = batch_row b (begin + i)" if "i < ?n" for i
  proof -
    have "get (ws ! k) (int i) = get (columns ! k) (int (begin + i))" if "k < length columns" for k
      using ws(2) that \<open>i < ?n\<close> by (simp add: list_all2_conv_all_nth)
    then have "mapR (\<lambda>(c, k). if k < length schema then map_sum id (Pair (fd_name (schema ! k))) (get c (int i)) else Inl UndefinedProperty) (zip ws [0..<length ws]) =
        mapR (\<lambda>(c, k). if k < length schema then map_sum id (Pair (fd_name (schema ! k))) (get c (int (begin + i))) else Inl UndefinedProperty) (zip columns [0..<length columns])"
      by (intro mapR_pointwise) (simp_all add: len(1))
    then show ?thesis by (simp add: batch_row_def c(1,2) cong: if_cong)
  qed
  have r: "length rows = rb_numRows b" "\<And>i. i < rb_numRows b \<Longrightarrow> batch_row b i = Inr (rows ! i)"
    using rows by (auto simp: batch_toArray_def mapR_nth)
  have "batch_row ?b i = Inr (drop begin (take to rows) ! i)" if "i < ?n" for i
  proof -
    have "begin + i < to" "begin + i < rb_numRows b" using that by (simp_all add: less_diff_conv add.commute)
    then show ?thesis using row [OF that] r by simp
  qed
  then have "batch_toArray ?b = Inr (drop begin (take to rows))"
    by (auto simp: batch_toArray_def mapR_nth r(1) min.commute)
  with s show ?thesis by blast
qed

end
