(* ===== verification/Parquet_Columns.thy ===== *)
theory Parquet_Columns
  imports Parquet_Values
begin

text \<open>
  One column chunk of a Parquet file: \<open>writeLeafChunk\<close> of \<open>data/parquet/writer.ts\<close> and \<open>readColumnPages\<close> of
  \<open>data/parquet/column-reader.ts\<close>, with \<open>readLeafStream\<close> of \<open>data/parquet/reader.ts\<close>.

  What \<open>push\<close> appends is returned as a byte list; the calls of \<open>onPage\<close> are a list of pages. The page loop
  carries fuel, as the header reader does.
\<close>

definition DATA_PAGE :: int where "DATA_PAGE = 0"
definition INDEX_PAGE :: int where "INDEX_PAGE = 1"
definition DICTIONARY_PAGE :: int where "DICTIONARY_PAGE = 2"
definition DATA_PAGE_V2 :: int where "DATA_PAGE_V2 = 3"

lemmas page_defs = DATA_PAGE_def INDEX_PAGE_def DICTIONARY_PAGE_def DATA_PAGE_V2_def

record leaf_stream =
  ls_descriptor :: column_descriptor
  ls_values :: column_values
  ls_defLevels :: "nat list"
  ls_repLevels :: "nat list"

record write_config =
  wc_codec :: int
  wc_useDictionary :: bool
  wc_dataEncoding :: string
  wc_pageVersion :: nat

subsection \<open>Writing\<close>

definition raw_levels :: "nat list \<Rightarrow> nat \<Rightarrow> js_error + byte list" where
  "raw_levels levels maxLevel = (if maxLevel > 0 then encodeRleHybrid levels (bitWidthForMax maxLevel) else Inr [])"

definition lengthPrefixed :: "nat list \<Rightarrow> nat \<Rightarrow> js_error + byte list" where
  "lengthPrefixed levels maxLevel =
     (if maxLevel = 0 then Inr []
      else bindR (encodeRleHybrid levels (bitWidthForMax maxLevel)) (\<lambda>body. Inr (uint32_le (length body) @ body)))"

text \<open>The value section: what is pushed before the data page, the two running totals, the encodings, and the
  bytes and encoding of the values.\<close>

record value_section =
  vs_pushed :: "byte list"
  vs_dictionaryPageOffset :: "int option"
  vs_uncompressedTotal :: nat
  vs_compressedTotal :: nat
  vs_encodings :: "int list"
  vs_valueBytes :: "byte list"
  vs_valueEncoding :: int

definition dictionary_section :: "compressor \<Rightarrow> column_descriptor \<Rightarrow> column_values \<Rightarrow> int \<Rightarrow> nat \<Rightarrow> js_error + value_section" where
  "dictionary_section lib d vs codec offset =
     (let (dictionary, indices) = buildDictionary vs in
      bindR (encodePlain dictionary (cd_typeLength d)) (\<lambda>dictBody.
      bindR (compressPage lib codec dictBody) (\<lambda>dictCompressed.
      bindR (writePageHeader \<lparr>ph_type = DICTIONARY_PAGE, ph_uncompressedPageSize = int (length dictBody),
          ph_compressedPageSize = int (length dictCompressed), ph_crc = None, ph_dataPageHeader = None,
          ph_dictionaryPageHeader = Some \<lparr>dict_numValues = int (num_values dictionary), dict_encoding = PLAIN,
            dict_isSorted = None\<rparr>, ph_dataPageHeaderV2 = None\<rparr>) (\<lambda>dictHeader.
      let bitWidth = bitWidthForMax (num_values dictionary - 1) in
      bindR (encodeRleHybrid indices bitWidth) (\<lambda>idxHybrid.
        Inr \<lparr>vs_pushed = dictHeader @ dictCompressed, vs_dictionaryPageOffset = Some (int offset),
          vs_uncompressedTotal = length dictHeader + length dictBody,
          vs_compressedTotal = length dictHeader + length dictCompressed,
          vs_encodings = [RLE, PLAIN, RLE_DICTIONARY],
          vs_valueBytes = of_nat bitWidth # idxHybrid, vs_valueEncoding = RLE_DICTIONARY\<rparr>)))))"

definition plain_section :: "string \<Rightarrow> column_descriptor \<Rightarrow> column_values \<Rightarrow> js_error + value_section" where
  "plain_section dataEncoding d vs =
     bindR (encodeValues dataEncoding (cd_typeLength d) vs) (\<lambda>(bytes, encoding).
       Inr \<lparr>vs_pushed = [], vs_dictionaryPageOffset = None, vs_uncompressedTotal = 0, vs_compressedTotal = 0,
         vs_encodings = [RLE, encoding], vs_valueBytes = bytes, vs_valueEncoding = encoding\<rparr>)"

text \<open>The data page: its header, its body and its uncompressed size.\<close>

definition data_page_v2 :: "compressor \<Rightarrow> int \<Rightarrow> nat \<Rightarrow> nat \<Rightarrow> nat \<Rightarrow> byte list \<Rightarrow> byte list \<Rightarrow> value_section \<Rightarrow>
    js_error + byte list \<times> byte list \<times> nat" where
  "data_page_v2 lib codec numLeafSlots numValues numRecords repRawV2 defRawV2 v =
     bindR (compressPage lib codec (vs_valueBytes v)) (\<lambda>compressedValues.
     let pageBody = repRawV2 @ defRawV2 @ compressedValues;
         uncompressedPageSize = length repRawV2 + length defRawV2 + length (vs_valueBytes v) in
     bindR (writePageHeader \<lparr>ph_type = DATA_PAGE_V2, ph_uncompressedPageSize = int uncompressedPageSize,
         ph_compressedPageSize = int (length pageBody), ph_crc = None, ph_dataPageHeader = None,
         ph_dictionaryPageHeader = None,
         ph_dataPageHeaderV2 = Some \<lparr>v2_numValues = int numLeafSlots, v2_numNulls = int numLeafSlots - int numValues,
           v2_numRows = int numRecords, v2_encoding = vs_valueEncoding v,
           v2_definitionLevelsByteLength = int (length defRawV2),
           v2_repetitionLevelsByteLength = int (length repRawV2), v2_isCompressed = (codec \<noteq> UNCOMPRESSED),
           v2_statistics = None\<rparr>\<rparr>) (\<lambda>header.
       Inr (header, pageBody, uncompressedPageSize)))"

definition data_page_v1 :: "compressor \<Rightarrow> int \<Rightarrow> nat \<Rightarrow> byte list \<Rightarrow> value_section \<Rightarrow> js_error + byte list \<times> byte list \<times> nat" where
  "data_page_v1 lib codec numLeafSlots levelsV1 v =
     (let uncompressed = levelsV1 @ vs_valueBytes v in
     bindR (compressPage lib codec uncompressed) (\<lambda>pageBody.
     bindR (writePageHeader \<lparr>ph_type = DATA_PAGE, ph_uncompressedPageSize = int (length uncompressed),
         ph_compressedPageSize = int (length pageBody), ph_crc = None,
         ph_dataPageHeader = Some \<lparr>dp_numValues = int numLeafSlots, dp_encoding = vs_valueEncoding v,
           dp_definitionLevelEncoding = RLE, dp_repetitionLevelEncoding = RLE, dp_statistics = None\<rparr>,
         ph_dictionaryPageHeader = None, ph_dataPageHeaderV2 = None\<rparr>) (\<lambda>header.
       Inr (header, pageBody, length uncompressed))))"

definition numRecords_of :: "leaf_stream \<Rightarrow> nat" where
  "numRecords_of s =
     (if cd_maxRepetitionLevel (ls_descriptor s) > 0
      then foldl (\<lambda>n r. n + (if r = 0 then 1 else 0)) 0 (ls_repLevels s) else length (ls_defLevels s))"

definition writeLeafChunk :: "compressor \<Rightarrow> write_config \<Rightarrow> leaf_stream \<Rightarrow> nat \<Rightarrow> js_error + byte list \<times> ColumnChunk \<times> int" where
  "writeLeafChunk lib config s startOffset =
     (let d = ls_descriptor s; maxDef = cd_maxDefinitionLevel d; maxRep = cd_maxRepetitionLevel d;
          numLeafSlots = length (ls_defLevels s); codec = wc_codec config in
      bindR (raw_levels (ls_repLevels s) maxRep) (\<lambda>repRawV2.
      bindR (raw_levels (ls_defLevels s) maxDef) (\<lambda>defRawV2.
      bindR (lengthPrefixed (ls_repLevels s) maxRep) (\<lambda>repV1.
      bindR (lengthPrefixed (ls_defLevels s) maxDef) (\<lambda>defV1.
      bindR (if wc_useDictionary config then dictionary_section lib d (ls_values s) codec startOffset
             else plain_section (wc_dataEncoding config) d (ls_values s)) (\<lambda>v.
      let dataPageOffset = startOffset + length (vs_pushed v) in
      bindR (if wc_pageVersion config = 2
             then data_page_v2 lib codec numLeafSlots (num_values (ls_values s)) (numRecords_of s) repRawV2 defRawV2 v
             else data_page_v1 lib codec numLeafSlots (repV1 @ defV1) v) (\<lambda>(header, pageBody, uncompressedPageSize).
      let uncompressedTotal = vs_uncompressedTotal v + length header + uncompressedPageSize;
          compressedTotal = vs_compressedTotal v + length header + length pageBody;
          cm = \<lparr>cm_type = int (cd_physicalType d), cm_encodings = vs_encodings v, cm_pathInSchema = cd_path d,
            cm_codec = codec, cm_numValues = int numLeafSlots, cm_totalUncompressedSize = int uncompressedTotal,
            cm_totalCompressedSize = int compressedTotal, cm_keyValueMetadata = None,
            cm_dataPageOffset = int dataPageOffset, cm_indexPageOffset = None,
            cm_dictionaryPageOffset = vs_dictionaryPageOffset v, cm_statistics = None\<rparr> in
      Inr (vs_pushed v @ header @ pageBody,
           \<lparr>cc_filePath = None, cc_fileOffset = (case vs_dictionaryPageOffset v of Some n \<Rightarrow> n | None \<Rightarrow> int dataPageOffset),
             cc_metaData = Some cm\<rparr>,
           int uncompressedTotal))))))))"

subsection \<open>Reading\<close>

record decoded_page =
  pg_values :: "column_value option list"
  pg_defLevels :: "nat list option"
  pg_repLevels :: "nat list option"
  pg_numValues :: int

text \<open>The locals of the page loop.\<close>

record page_state =
  ps_offset :: int
  ps_dictionary :: "column_value list option"
  ps_seen :: int
  ps_pages :: "decoded_page list"

definition prefixed_levels :: "nat \<Rightarrow> int \<Rightarrow> nat list option read" where
  "prefixed_levels maxLevel numValues r =
     (if maxLevel > 0 then
        bindR (readBytes 4 r) (\<lambda>(_, r).
        bindR (decodeRleHybrid (bitWidthForMax maxLevel) (nat numValues) r) (\<lambda>(ls, r). Inr (Some ls, r)))
      else Inr (None, r))"

definition read_data_page :: "compressor \<Rightarrow> column_descriptor \<Rightarrow> ColumnMetaData \<Rightarrow> PageHeader \<Rightarrow> byte list \<Rightarrow> page_state \<Rightarrow> js_error + page_state" where
  "read_data_page lib d m header pageBytes s =
     bindR (decompressPage lib (cm_codec m) pageBytes (Some (ph_uncompressedPageSize header))) (\<lambda>uncompressed.
     case ph_dataPageHeader header of
       None \<Rightarrow> if cd_maxRepetitionLevel d > 0 \<or> cd_maxDefinitionLevel d > 0
         then bindR (readBytes 4 (new_reader uncompressed)) (\<lambda>_. Inl UndefinedProperty) else Inl UndefinedProperty
     | Some dph \<Rightarrow>
         bindR (prefixed_levels (cd_maxRepetitionLevel d) (dp_numValues dph) (new_reader uncompressed)) (\<lambda>(repLevels, r).
         bindR (prefixed_levels (cd_maxDefinitionLevel d) (dp_numValues dph) r) (\<lambda>(defLevels, r).
         bindR (readBytes (int (rd_remaining r)) r) (\<lambda>(valueBytes, r).
         bindR (decodeValues (dp_encoding dph) d valueBytes
             (countNonNull defLevels (cd_maxDefinitionLevel d) (dp_numValues dph)) (ps_dictionary s)) (\<lambda>vs.
           Inr (s\<lparr>ps_pages := ps_pages s @ [\<lparr>pg_values = vs, pg_defLevels = defLevels, pg_repLevels = repLevels,
               pg_numValues = dp_numValues dph\<rparr>], ps_seen := ps_seen s + dp_numValues dph\<rparr>))))))"

definition raw_page_levels :: "nat \<Rightarrow> byte list \<Rightarrow> int \<Rightarrow> js_error + nat list option" where
  "raw_page_levels maxLevel bytes numValues =
     (if maxLevel > 0 then
        bindR (decodeRleHybrid (bitWidthForMax maxLevel) (nat numValues) (new_reader bytes)) (\<lambda>(ls, r). Inr (Some ls))
      else Inr None)"

definition read_data_page_v2 :: "compressor \<Rightarrow> column_descriptor \<Rightarrow> ColumnMetaData \<Rightarrow> PageHeader \<Rightarrow> byte list \<Rightarrow> page_state \<Rightarrow> js_error + page_state" where
  "read_data_page_v2 lib d m header pageBytes s =
     (case ph_dataPageHeaderV2 header of
        None \<Rightarrow> Inl UndefinedProperty
      | Some v2 \<Rightarrow>
          let repLen = v2_repetitionLevelsByteLength v2; defLen = v2_definitionLevelsByteLength v2;
              expectedValueBytes = ph_uncompressedPageSize header - repLen - defLen in
          if repLen < 0 \<or> defLen < 0 \<or> repLen + defLen > int (length pageBytes)
          then Inl (ParquetError ''invalid Parquet data page v2 level lengths'')
          else if expectedValueBytes < 0
          then Inl (ParquetError ''Parquet data page v2 levels exceed its uncompressed page size'')
          else
            let repBytes = subarray pageBytes 0 repLen; defBytes = subarray pageBytes repLen (repLen + defLen);
                rawValues = subarray pageBytes (repLen + defLen) (int (length pageBytes)) in
            bindR (decompressPage lib (if v2_isCompressed v2 then cm_codec m else UNCOMPRESSED) rawValues (Some expectedValueBytes))
              (\<lambda>valueBytes.
            bindR (raw_page_levels (cd_maxRepetitionLevel d) repBytes (v2_numValues v2)) (\<lambda>repLevels.
            bindR (raw_page_levels (cd_maxDefinitionLevel d) defBytes (v2_numValues v2)) (\<lambda>defLevels.
            bindR (decodeValues (v2_encoding v2) d valueBytes (v2_numValues v2 - v2_numNulls v2) (ps_dictionary s)) (\<lambda>vs.
              Inr (s\<lparr>ps_pages := ps_pages s @ [\<lparr>pg_values = vs, pg_defLevels = defLevels, pg_repLevels = repLevels,
                  pg_numValues = v2_numValues v2\<rparr>], ps_seen := ps_seen s + v2_numValues v2\<rparr>)))))) "

definition read_dictionary_page :: "compressor \<Rightarrow> column_descriptor \<Rightarrow> ColumnMetaData \<Rightarrow> PageHeader \<Rightarrow> byte list \<Rightarrow> page_state \<Rightarrow> js_error + page_state" where
  "read_dictionary_page lib d m header pageBytes s =
     bindR (decompressPage lib (cm_codec m) pageBytes (Some (ph_uncompressedPageSize header))) (\<lambda>uncompressed.
     case ph_dictionaryPageHeader header of
       None \<Rightarrow> Inl UndefinedProperty
     | Some dh \<Rightarrow>
         bindR (decodePlain (cd_physicalType d) uncompressed (dict_numValues dh) (cd_typeLength d)) (\<lambda>vs.
           Inr (s\<lparr>ps_dictionary := Some (elements vs)\<rparr>)))"

text \<open>One turn of the loop.\<close>

definition read_page :: "compressor \<Rightarrow> nat \<Rightarrow> byte list \<Rightarrow> column_descriptor \<Rightarrow> ColumnMetaData \<Rightarrow> page_state \<Rightarrow> js_error + page_state" where
  "read_page lib n bytes d m s =
     bindR (readPageHeader n bytes (ps_offset s)) (\<lambda>(header, pageStart).
       let pageEnd = pageStart + ph_compressedPageSize header in
       if ph_compressedPageSize header < 0 \<or> ph_uncompressedPageSize header < 0
       then Inl (ParquetError ''Parquet page sizes must be non-negative'')
       else if pageEnd > int (length bytes) then Inl (ParquetError ''truncated Parquet page body'')
       else
         let pageBytes = subarray bytes pageStart pageEnd; s = s\<lparr>ps_offset := pageEnd\<rparr> in
         if ph_type header = DICTIONARY_PAGE then read_dictionary_page lib d m header pageBytes s
         else if ph_type header = DATA_PAGE then read_data_page lib d m header pageBytes s
         else if ph_type header = DATA_PAGE_V2 then read_data_page_v2 lib d m header pageBytes s
         else if ph_type header = INDEX_PAGE then Inr s
         else Inl (ParquetError ''unexpected Parquet page type''))"

fun page_loop :: "compressor \<Rightarrow> nat \<Rightarrow> nat \<Rightarrow> byte list \<Rightarrow> column_descriptor \<Rightarrow> ColumnMetaData \<Rightarrow> page_state \<Rightarrow> js_error + page_state" where
  "page_loop lib n 0 bytes d m s = (if ps_seen s < cm_numValues m then Inl OutOfFuel else Inr s)"
| "page_loop lib n (Suc k) bytes d m s =
     (if ps_seen s < cm_numValues m then bindR (read_page lib n bytes d m s) (page_loop lib n k bytes d m) else Inr s)"

definition readColumnPages :: "compressor \<Rightarrow> nat \<Rightarrow> nat \<Rightarrow> byte list \<Rightarrow> column_descriptor \<Rightarrow> ColumnMetaData \<Rightarrow> js_error + decoded_page list" where
  "readColumnPages lib n k bytes d m =
     bindR (page_loop lib n k bytes d m
         \<lparr>ps_offset = (case cm_dictionaryPageOffset m of Some off \<Rightarrow> off | None \<Rightarrow> cm_dataPageOffset m),
           ps_dictionary = None, ps_seen = 0, ps_pages = []\<rparr>) (\<lambda>s. Inr (ps_pages s))"

record read_stream =
  rs_values :: "column_value option list"
  rs_defLevels :: "nat list"
  rs_repLevels :: "nat list"

definition add_page :: "read_stream \<Rightarrow> decoded_page \<Rightarrow> read_stream" where
  "add_page s p =
     (let zeros = replicate (nat (pg_numValues p)) 0 in
      \<lparr>rs_values = rs_values s @ pg_values p,
       rs_defLevels = rs_defLevels s @ (case pg_defLevels p of None \<Rightarrow> zeros | Some ls \<Rightarrow> ls),
       rs_repLevels = rs_repLevels s @ (case pg_repLevels p of None \<Rightarrow> zeros | Some ls \<Rightarrow> ls)\<rparr>)"

definition readLeafStream :: "compressor \<Rightarrow> nat \<Rightarrow> nat \<Rightarrow> byte list \<Rightarrow> column_descriptor \<Rightarrow> ColumnMetaData \<Rightarrow> js_error + read_stream" where
  "readLeafStream lib n k bytes d m =
     bindR (readColumnPages lib n k bytes d m) (\<lambda>pages.
       Inr (foldl add_page \<lparr>rs_values = [], rs_defLevels = [], rs_repLevels = []\<rparr> pages))"

subsection \<open>Page headers\<close>

text \<open>Writing a page header never fails.\<close>

definition writes :: "'w put \<Rightarrow> bool" where
  "writes f \<longleftrightarrow> (\<forall>w. \<exists>w'. f w = Inr w')"

lemma writes_seqW: "list_all writes fs \<Longrightarrow> writes (seqW fs)"
proof (induction fs)
  case (Cons f fs)
  then have f: "writes f" and fs: "writes (seqW fs)" by simp_all
  show ?case unfolding writes_def
  proof
    fix w
    obtain w1 where "f w = Inr w1" using f by (auto simp: writes_def)
    moreover obtain w2 where "seqW fs w1 = Inr w2" using fs by (auto simp: writes_def)
    ultimately show "\<exists>w'. seqW (f # fs) w = Inr w'" by simp
  qed
qed (simp add: writes_def)

lemma writes_Inr: "writes Inr"
  by (simp add: writes_def)

lemma writes_compact:
  "writes (writeStructBegin compactProtocol)" "writes (writeStructEnd compactProtocol)" "writes (writeFieldEnd compactProtocol)"
  "writes (writeFieldStop compactProtocol)" "writes (writeI32 compactProtocol v)" "writes (writeBool compactProtocol b)"
  "t \<in> {T_BOOL, T_I32, T_STRUCT} \<Longrightarrow> writes (writeFieldBegin compactProtocol t i)"
  by (auto simp: writes_def compactProtocol_def compact_writeStructBegin_def compact_writeStructEnd_def cw_put_def
      compact_writeBool_def writeFieldHeader_def compact_writeFieldBegin_def Let_def ttypeToCompact_def split: option.split)

lemma writes_fields:
  fixes body :: "compact_writer put" and obody :: "'a \<Rightarrow> compact_writer put"
  shows "writes body \<Longrightarrow> t \<in> {T_BOOL, T_I32, T_STRUCT} \<Longrightarrow> writes (writeField compactProtocol t i body)"
  "opt (\<lambda>x. writes (obody x)) v \<Longrightarrow> t \<in> {T_BOOL, T_I32, T_STRUCT} \<Longrightarrow> writes (writeOptField compactProtocol t i obody v)"
proof -
  show field: "writes body \<Longrightarrow> t \<in> {T_BOOL, T_I32, T_STRUCT} \<Longrightarrow> writes (writeField compactProtocol t i body)" for body
    unfolding writeField_def by (rule writes_seqW) (simp add: writes_compact)
  show "opt (\<lambda>x. writes (obody x)) v \<Longrightarrow> t \<in> {T_BOOL, T_I32, T_STRUCT} \<Longrightarrow> writes (writeOptField compactProtocol t i obody v)"
    using field by (cases v) (simp_all add: opt_def writeOptField_def writes_Inr)
qed

lemma writes_headers:
  "dp_statistics dp = None \<Longrightarrow> writes (writeDataPageHeader compactProtocol dp)"
  "writes (writeDictionaryPageHeader compactProtocol dh)"
  "v2_statistics v2 = None \<Longrightarrow> writes (writeDataPageHeaderV2 compactProtocol v2)"
  unfolding writeDataPageHeader_def writeDictionaryPageHeader_def writeDataPageHeaderV2_def
  by (rule writes_seqW, simp add: writes_compact writes_fields opt_def split: option.split)+

lemma page_header_written:
  assumes "opt (\<lambda>dp. dp_statistics dp = None) (ph_dataPageHeader h)" "opt (\<lambda>v2. v2_statistics v2 = None) (ph_dataPageHeaderV2 h)"
  shows "\<exists>bs. writePageHeader h = Inr bs"
proof -
  have "writes (writePageHeaderStruct compactProtocol h)"
    using assms unfolding writePageHeaderStruct_def
    by (intro writes_seqW) (simp add: writes_compact writes_fields writes_headers opt_def split: option.splits)
  then show ?thesis unfolding writes_def writePageHeader_def by (metis bindR_simps(2))
qed

lemma read_page_at:
  assumes "valid_PageHeader h" "16 \<le> n" "writePageHeader h = Inr hdr"
    and "ph_compressedPageSize h = int (length body)" "0 \<le> ph_uncompressedPageSize h" "ps_offset s = int (length pre)"
  shows "read_page lib n (pre @ hdr @ body @ post) d m s =
    (let s = s\<lparr>ps_offset := int (length (pre @ hdr @ body))\<rparr> in
     if ph_type h = DICTIONARY_PAGE then read_dictionary_page lib d m h body s
     else if ph_type h = DATA_PAGE then read_data_page lib d m h body s
     else if ph_type h = DATA_PAGE_V2 then read_data_page_v2 lib d m h body s
     else if ph_type h = INDEX_PAGE then Inr s
     else Inl (ParquetError ''unexpected Parquet page type''))"
proof -
  have "readPageHeader n (pre @ hdr @ body @ post) (int (length pre)) = Inr (h, int (length pre + length hdr))"
    using page_header_codec [OF assms(1,2)] assms(3) by auto
  moreover have "subarray (pre @ hdr @ body @ post) (int (length pre) + int (length hdr))
      (int (length pre) + int (length hdr) + int (length body)) = body"
    using subarray_inner [of "pre @ hdr" body post] by simp
  ultimately show ?thesis using assms(4-6) by (simp add: read_page_def Let_def add.assoc)
qed

subsection \<open>Levels\<close>

definition level_ok :: "nat \<Rightarrow> nat list \<Rightarrow> bool" where
  "level_ok maxLevel levels \<longleftrightarrow> maxLevel < 2 ^ 31 \<and> length levels < 2 ^ 30 \<and> (\<forall>l \<in> set levels. l \<le> maxLevel) \<and>
     (0 < maxLevel \<longrightarrow> aligned levels)"

lemma hybrid_codec:
  assumes "level_ok m levels" "0 < m"
  shows "\<exists>bs. encodeRleHybrid levels (bitWidthForMax m) = Inr bs \<and>
    (\<forall>pre rest. decodeRleHybrid (bitWidthForMax m) (length levels) (reader_at pre (bs @ rest)) = Inr (levels, reader_at (pre @ bs) rest))"
proof (rule exact_levels)
  have m: "m < 2 ^ 32" using assms(1) by (simp add: level_ok_def)
  show "0 < bitWidthForMax m" "bitWidthForMax m \<le> 32" using width_fits [OF m] width_pos [OF m assms(2)] by simp_all
  show "\<forall>v \<in> set levels. v < 2 ^ bitWidthForMax m" using assms(1) width_fits [OF m] by (auto simp: level_ok_def intro: le_less_trans)
qed (use assms in \<open>simp_all add: level_ok_def\<close>)

definition level_option :: "nat \<Rightarrow> nat list \<Rightarrow> nat list option" where
  "level_option m levels = (if 0 < m then Some levels else None)"

lemma raw_codec:
  assumes "level_ok m levels"
  shows "\<exists>bs. raw_levels levels m = Inr bs \<and> raw_page_levels m bs (int (length levels)) = Inr (level_option m levels)"
proof (cases "0 < m")
  case True
  from hybrid_codec [OF assms True] obtain bs where bs: "encodeRleHybrid levels (bitWidthForMax m) = Inr bs"
    "\<And>pre rest. decodeRleHybrid (bitWidthForMax m) (length levels) (reader_at pre (bs @ rest)) = Inr (levels, reader_at (pre @ bs) rest)"
    by blast
  from bs(2) [of "[]" "[]"] bs(1) True show ?thesis
    by (simp add: raw_levels_def raw_page_levels_def level_option_def new_reader_at)
qed (simp add: raw_levels_def raw_page_levels_def level_option_def)

lemma prefixed_codec:
  assumes "level_ok m levels"
  shows "\<exists>bs. lengthPrefixed levels m = Inr bs \<and>
    (\<forall>pre rest. prefixed_levels m (int (length levels)) (reader_at pre (bs @ rest)) = Inr (level_option m levels, reader_at (pre @ bs) rest))"
proof (cases "0 < m")
  case True
  from hybrid_codec [OF assms True] obtain bs where bs: "encodeRleHybrid levels (bitWidthForMax m) = Inr bs"
    "\<And>pre rest. decodeRleHybrid (bitWidthForMax m) (length levels) (reader_at pre (bs @ rest)) = Inr (levels, reader_at (pre @ bs) rest)"
    by blast
  have "prefixed_levels m (int (length levels)) (reader_at pre ((uint32_le (length bs) @ bs) @ rest)) =
      Inr (level_option m levels, reader_at (pre @ uint32_le (length bs) @ bs) rest)" for pre rest
    using bs(2) [of "pre @ uint32_le (length bs)" rest] True by (simp add: prefixed_levels_def level_option_def)
  then show ?thesis using bs(1) True by (simp add: lengthPrefixed_def)
qed (simp add: lengthPrefixed_def prefixed_levels_def level_option_def)

subsection \<open>Value sections\<close>

definition stream_ok :: "leaf_stream \<Rightarrow> bool" where
  "stream_ok s \<longleftrightarrow> (let d = ls_descriptor s; maxDef = cd_maxDefinitionLevel d in
     physicalType (ls_values s) = cd_physicalType d \<and> plain_ok (ls_values s) \<and>
     length (ls_repLevels s) = length (ls_defLevels s) \<and>
     level_ok maxDef (ls_defLevels s) \<and> level_ok (cd_maxRepetitionLevel d) (ls_repLevels s) \<and>
     num_values (ls_values s) = length (filter (\<lambda>l. l = maxDef) (ls_defLevels s)))"

definition config_ok :: "write_config \<Rightarrow> column_values \<Rightarrow> bool" where
  "config_ok config vs \<longleftrightarrow> isCodecSupported (wc_codec config) \<and>
     (if wc_useDictionary config then keys_ok vs \<and> aligned (snd (buildDictionary vs))
      else encoding_ok (wc_dataEncoding config) vs)"

text \<open>What reading the pages pushed before the data page leaves as the dictionary.\<close>

definition section_read :: "compressor \<Rightarrow> nat \<Rightarrow> column_descriptor \<Rightarrow> ColumnMetaData \<Rightarrow> nat \<Rightarrow> column_values \<Rightarrow> value_section \<Rightarrow> bool" where
  "section_read lib n d m off vs v \<longleftrightarrow> (\<exists>dict.
     decodeValues (vs_valueEncoding v) d (vs_valueBytes v) (int (num_values vs)) dict =
       Inr (map Some (elements (stored (cd_typeLength d) vs))) \<and>
     (\<forall>pre post k. length pre = off \<longrightarrow> 0 < cm_numValues m \<longrightarrow>
       page_loop lib n (Suc (Suc k)) (pre @ vs_pushed v @ post) d m
         \<lparr>ps_offset = (case vs_dictionaryPageOffset v of Some off \<Rightarrow> off | None \<Rightarrow> int (off + length (vs_pushed v))),
           ps_dictionary = None, ps_seen = 0, ps_pages = []\<rparr> =
       page_loop lib n (if vs_dictionaryPageOffset v = None then Suc (Suc k) else Suc k) (pre @ vs_pushed v @ post) d m
         \<lparr>ps_offset = int (off + length (vs_pushed v)), ps_dictionary = dict, ps_seen = 0, ps_pages = []\<rparr>))"

definition section_ok :: "compressor \<Rightarrow> nat \<Rightarrow> column_descriptor \<Rightarrow> int \<Rightarrow> nat \<Rightarrow> column_values \<Rightarrow> value_section \<Rightarrow> bool" where
  "section_ok lib n d codec off vs v \<longleftrightarrow> int_range 32 (vs_valueEncoding v) \<and> list_of (int_range 32) (vs_encodings v) \<and>
     vs_compressedTotal v = length (vs_pushed v) \<and> (vs_dictionaryPageOffset v \<noteq> None \<longrightarrow> vs_dictionaryPageOffset v = Some (int off)) \<and>
     (vs_uncompressedTotal v < 2 ^ 31 \<longrightarrow> vs_compressedTotal v < 2 ^ 31 \<longrightarrow>
       (\<forall>m. cm_codec m = codec \<longrightarrow> section_read lib n d m off vs v))"

lemma plain_section_ok:
  assumes "plain_ok vs" "encoding_ok encoding vs" "cd_physicalType d = physicalType vs" "num_values vs < 2 ^ 30"
  shows "\<exists>v. plain_section encoding d vs = Inr v \<and> section_ok lib n d codec off vs v"
proof -
  obtain bs e where "encodeValues encoding (cd_typeLength d) vs = Inr (bs, e)" "int_range 32 e"
    "decodeValues e d bs (int (num_values vs)) None = Inr (map Some (elements (stored (cd_typeLength d) vs)))"
    using values_codec [OF assms] by blast
  then show ?thesis
    by (simp add: plain_section_def section_ok_def section_read_def list_of_def short_def RLE_def int_range_def)
       (auto intro!: exI [of _ None])
qed

lemma int_range_nat: "x < 2 ^ 31 \<Longrightarrow> int_range 32 (int x)"
  by (simp add: int_range_def)

lemma dictionary_section_ok:
  assumes "plain_ok vs" "keys_ok vs" "aligned (snd (buildDictionary vs))" "cd_physicalType d = physicalType vs"
    and "num_values vs < 2 ^ 30" "lossless lib" "isCodecSupported codec" "16 \<le> n"
  shows "\<exists>v. dictionary_section lib d vs codec off = Inr v \<and> section_ok lib n d codec off vs v"
proof -
  obtain dict "is" where b: "buildDictionary vs = (dict, is)" by (cases "buildDictionary vs")
  have "aligned is" using assms(3) b by simp
  from dictionary_codec [OF assms(1,2) b this assms(5,4)] obtain body hybrid where
    c: "encodePlain dict (cd_typeLength d) = Inr body"
      "encodeRleHybrid is (bitWidthForMax (num_values dict - 1)) = Inr hybrid"
      "decodePlain (cd_physicalType d) body (int (num_values dict)) (cd_typeLength d) = Inr (stored (cd_typeLength d) dict)"
      "decodeValues RLE_DICTIONARY d (of_nat (bitWidthForMax (num_values dict - 1)) # hybrid) (int (num_values vs))
        (Some (elements (stored (cd_typeLength d) dict))) = Inr (map Some (elements (stored (cd_typeLength d) vs)))"
    by blast
  from page_compression [OF assms(6,7), of body] obtain z where z: "compressPage lib codec body = Inr z"
    "length body < 2 ^ 53 \<longrightarrow> decompressPage lib codec z (Some (int (length body))) = Inr body" by blast
  define h where "h = \<lparr>ph_type = DICTIONARY_PAGE, ph_uncompressedPageSize = int (length body),
          ph_compressedPageSize = int (length z), ph_crc = None, ph_dataPageHeader = None,
          ph_dictionaryPageHeader = Some \<lparr>dict_numValues = int (num_values dict), dict_encoding = PLAIN,
            dict_isSorted = None\<rparr>, ph_dataPageHeaderV2 = None\<rparr>"
  obtain hdr where hdr: "writePageHeader h = Inr hdr"
    using page_header_written [of h] by (auto simp: h_def opt_def)
  define v where "v = \<lparr>vs_pushed = hdr @ z, vs_dictionaryPageOffset = Some (int off),
          vs_uncompressedTotal = length hdr + length body,
          vs_compressedTotal = length hdr + length z,
          vs_encodings = [RLE, PLAIN, RLE_DICTIONARY],
          vs_valueBytes = of_nat (bitWidthForMax (num_values dict - 1)) # hybrid, vs_valueEncoding = RLE_DICTIONARY\<rparr>"
  have sec: "dictionary_section lib d vs codec off = Inr v"
    using b c(1,2) z(1) hdr by (simp add: dictionary_section_def v_def h_def Let_def)
  have read: "section_read lib n d m off vs v"
    if small: "vs_uncompressedTotal v < 2 ^ 31" "vs_compressedTotal v < 2 ^ 31" and codec: "cm_codec m = codec" for m
  proof -
    have len: "length body < 2 ^ 31" "length z < 2 ^ 31" using small by (simp_all add: v_def)
    have "num_values dict < 2 ^ 30" using buildDictionary_faithful [OF assms(2) b] assms(5) le_less_trans by blast
    then have valid: "valid_PageHeader h" using len
      by (simp add: h_def valid_PageHeader_def valid_DictionaryPageHeader_def opt_def page_defs encoding_defs int_range_def)
    have "read_page lib n (pre @ hdr @ z @ post) d m \<lparr>ps_offset = int off, ps_dictionary = None, ps_seen = 0, ps_pages = []\<rparr> =
        Inr \<lparr>ps_offset = int (off + length (hdr @ z)), ps_dictionary = Some (elements (stored (cd_typeLength d) dict)), ps_seen = 0, ps_pages = []\<rparr>"
      if "length pre = off" for pre post
      using z(2) len c(3) codec that
      by (subst read_page_at [OF valid assms(8) hdr])
         (simp_all add: h_def read_dictionary_page_def add.assoc)
    then show ?thesis unfolding section_read_def
      by (intro exI [of _ "Some (elements (stored (cd_typeLength d) dict))"]) (simp add: v_def c(4) [unfolded One_nat_def])
  qed
  have "section_ok lib n d codec off vs v"
    unfolding section_ok_def using read by (simp add: v_def list_of_def short_def encoding_defs int_range_def)
  with sec show ?thesis by blast
qed

subsection \<open>Data pages\<close>

definition page_of :: "leaf_stream \<Rightarrow> decoded_page" where
  "page_of s = (let d = ls_descriptor s in
     \<lparr>pg_values = map Some (elements (stored (cd_typeLength d) (ls_values s))),
      pg_defLevels = level_option (cd_maxDefinitionLevel d) (ls_defLevels s),
      pg_repLevels = level_option (cd_maxRepetitionLevel d) (ls_repLevels s),
      pg_numValues = int (length (ls_defLevels s))\<rparr>)"

text \<open>A data page of the stream, read after whatever its values need as a dictionary.\<close>

definition page_read :: "compressor \<Rightarrow> nat \<Rightarrow> int \<Rightarrow> leaf_stream \<Rightarrow> value_section \<Rightarrow> byte list \<times> byte list \<times> nat \<Rightarrow> bool" where
  "page_read lib n codec s v = (\<lambda>(header, body, u). u < 2 ^ 31 \<longrightarrow> length body < 2 ^ 31 \<longrightarrow> int_range 32 (vs_valueEncoding v) \<longrightarrow>
     (\<forall>m dict pre post. cm_codec m = codec \<longrightarrow>
       decodeValues (vs_valueEncoding v) (ls_descriptor s) (vs_valueBytes v) (int (num_values (ls_values s))) dict =
         Inr (map Some (elements (stored (cd_typeLength (ls_descriptor s)) (ls_values s)))) \<longrightarrow>
       read_page lib n (pre @ header @ body @ post) (ls_descriptor s) m
         \<lparr>ps_offset = int (length pre), ps_dictionary = dict, ps_seen = 0, ps_pages = []\<rparr> =
       Inr \<lparr>ps_offset = int (length (pre @ header @ body)), ps_dictionary = dict, ps_seen = int (length (ls_defLevels s)),
         ps_pages = [page_of s]\<rparr>))"

lemma stream_okD:
  assumes "stream_ok s"
  shows "level_ok (cd_maxDefinitionLevel (ls_descriptor s)) (ls_defLevels s)"
    "level_ok (cd_maxRepetitionLevel (ls_descriptor s)) (ls_repLevels s)"
    "length (ls_repLevels s) = length (ls_defLevels s)"
    "num_values (ls_values s) = length (filter (\<lambda>l. l = cd_maxDefinitionLevel (ls_descriptor s)) (ls_defLevels s))"
    "length (ls_defLevels s) < 2 ^ 30" "num_values (ls_values s) \<le> length (ls_defLevels s)"
  using assms by (simp_all add: stream_ok_def Let_def level_ok_def)

lemma nonNull_count:
  assumes "stream_ok s"
  shows "countNonNull (level_option (cd_maxDefinitionLevel (ls_descriptor s)) (ls_defLevels s))
    (cd_maxDefinitionLevel (ls_descriptor s)) (int (length (ls_defLevels s))) = int (num_values (ls_values s))"
proof (cases "0 < cd_maxDefinitionLevel (ls_descriptor s)")
  case False
  then have "\<forall>l \<in> set (ls_defLevels s). l = cd_maxDefinitionLevel (ls_descriptor s)"
    using stream_okD(1) [OF assms] by (simp add: level_ok_def)
  then have "filter (\<lambda>l. l = cd_maxDefinitionLevel (ls_descriptor s)) (ls_defLevels s) = ls_defLevels s" by (rule filter_True)
  with False stream_okD(4) [OF assms] show ?thesis by (simp add: countNonNull_def level_option_def)
qed (simp add: countNonNull_def level_option_def stream_okD(4) [OF assms])

lemma v1_page:
  assumes s: "stream_ok s" and lib: "lossless lib" "isCodecSupported codec" and n: "16 \<le> n"
    and d: "d = ls_descriptor s"
    and rep: "\<And>pre rest. prefixed_levels (cd_maxRepetitionLevel d) (int (length (ls_repLevels s))) (reader_at pre (rb @ rest)) =
      Inr (level_option (cd_maxRepetitionLevel d) (ls_repLevels s), reader_at (pre @ rb) rest)"
    and "def": "\<And>pre rest. prefixed_levels (cd_maxDefinitionLevel d) (int (length (ls_defLevels s))) (reader_at pre (db @ rest)) =
      Inr (level_option (cd_maxDefinitionLevel d) (ls_defLevels s), reader_at (pre @ db) rest)"
  shows "\<exists>p. data_page_v1 lib codec (length (ls_defLevels s)) (rb @ db) v = Inr p \<and> page_read lib n codec s v p"
proof -
  define u where "u = (rb @ db) @ vs_valueBytes v"
  obtain z where z: "compressPage lib codec u = Inr z"
    "length u < 2 ^ 53 \<longrightarrow> decompressPage lib codec z (Some (int (length u))) = Inr u"
    using page_compression [OF lib] by blast
  define h where "h = \<lparr>ph_type = DATA_PAGE, ph_uncompressedPageSize = int (length u),
         ph_compressedPageSize = int (length z), ph_crc = None,
         ph_dataPageHeader = Some \<lparr>dp_numValues = int (length (ls_defLevels s)), dp_encoding = vs_valueEncoding v,
           dp_definitionLevelEncoding = RLE, dp_repetitionLevelEncoding = RLE, dp_statistics = None\<rparr>,
         ph_dictionaryPageHeader = None, ph_dataPageHeaderV2 = None\<rparr>"
  obtain hdr where hdr: "writePageHeader h = Inr hdr" using page_header_written [of h] by (auto simp: h_def opt_def)
  have w: "data_page_v1 lib codec (length (ls_defLevels s)) (rb @ db) v = Inr (hdr, z, length u)"
    using z(1) hdr by (simp add: data_page_v1_def u_def h_def Let_def)
  have levels: "prefixed_levels (cd_maxRepetitionLevel d) (int (length (ls_defLevels s))) (new_reader u) =
      Inr (level_option (cd_maxRepetitionLevel d) (ls_repLevels s), reader_at rb (db @ vs_valueBytes v))"
    "prefixed_levels (cd_maxDefinitionLevel d) (int (length (ls_defLevels s))) (reader_at rb (db @ vs_valueBytes v)) =
      Inr (level_option (cd_maxDefinitionLevel d) (ls_defLevels s), reader_at (rb @ db) (vs_valueBytes v))"
    using rep [of "[]" "db @ vs_valueBytes v"] "def" [of rb "vs_valueBytes v"] stream_okD(3) [OF s]
    by (simp_all add: u_def new_reader_at)
  have rest: "readBytes (int (rd_remaining (reader_at (rb @ db) (vs_valueBytes v)))) (reader_at (rb @ db) (vs_valueBytes v)) =
      Inr (vs_valueBytes v, reader_at (rb @ db @ vs_valueBytes v) [])"
    using readBytes_at [of "vs_valueBytes v" "rb @ db" "[]"] by (simp add: rd_remaining_def reader_at_def)
  have "page_read lib n codec s v (hdr, z, length u)"
    unfolding page_read_def
  proof (clarsimp simp flip: d)
    fix m :: ColumnMetaData and dict pre post
    assume small: "length u < 2147483648" "length z < 2147483648" "int_range 32 (vs_valueEncoding v)" and c: "codec = cm_codec m"
      and dec: "decodeValues (vs_valueEncoding v) d (vs_valueBytes v) (int (num_values (ls_values s))) dict =
        Inr (map Some (elements (stored (cd_typeLength d) (ls_values s))))"
    have valid: "valid_PageHeader h" using small stream_okD(5) [OF s]
      by (simp add: h_def valid_PageHeader_def valid_DataPageHeader_def opt_def page_defs encoding_defs int_range_def)
    show "read_page lib n (pre @ hdr @ z @ post) d m
         \<lparr>ps_offset = int (length pre), ps_dictionary = dict, ps_seen = 0, ps_pages = []\<rparr> =
       Inr \<lparr>ps_offset = int (length pre) + (int (length hdr) + int (length z)), ps_dictionary = dict,
         ps_seen = int (length (ls_defLevels s)), ps_pages = [page_of s]\<rparr>"
      using z(2) small c dec levels rest nonNull_count [OF s]
      by (subst read_page_at [OF valid n hdr])
         (simp_all add: h_def read_data_page_def page_defs page_of_def Let_def flip: d)
  qed
  with w show ?thesis by blast
qed

lemma subarray_parts:
  "subarray (a @ b @ c) 0 (int (length a)) = a"
  "subarray (a @ b @ c) (int (length a)) (int (length a) + int (length b)) = b"
  "subarray (a @ b @ c) (int (length a) + int (length b)) (int (length (a @ b @ c))) = c"
  using subarray_inner [of "[]" a "b @ c"] subarray_inner [of a b c] subarray_inner [of "a @ b" c "[]"]
  by (simp_all add: add.assoc)

lemma v2_page:
  assumes s: "stream_ok s" and lib: "lossless lib" "isCodecSupported codec" and n: "16 \<le> n"
    and d: "d = ls_descriptor s" and recs: "numRecords < 2 ^ 31"
    and rep: "raw_page_levels (cd_maxRepetitionLevel d) rb (int (length (ls_repLevels s))) =
      Inr (level_option (cd_maxRepetitionLevel d) (ls_repLevels s))"
    and "def": "raw_page_levels (cd_maxDefinitionLevel d) db (int (length (ls_defLevels s))) =
      Inr (level_option (cd_maxDefinitionLevel d) (ls_defLevels s))"
  shows "\<exists>p. data_page_v2 lib codec (length (ls_defLevels s)) (num_values (ls_values s)) numRecords rb db v = Inr p \<and>
    page_read lib n codec s v p"
proof -
  let ?slots = "length (ls_defLevels s)" and ?vals = "num_values (ls_values s)"
  define b where "b = vs_valueBytes v"
  obtain z where z: "compressPage lib codec b = Inr z"
    "length b < 2 ^ 53 \<longrightarrow> decompressPage lib codec z (Some (int (length b))) = Inr b"
    using page_compression [OF lib] by blast
  define u where "u = length rb + length db + length b"
  define h where "h = \<lparr>ph_type = DATA_PAGE_V2, ph_uncompressedPageSize = int u,
         ph_compressedPageSize = int (length (rb @ db @ z)), ph_crc = None, ph_dataPageHeader = None,
         ph_dictionaryPageHeader = None,
         ph_dataPageHeaderV2 = Some \<lparr>v2_numValues = int ?slots, v2_numNulls = int ?slots - int ?vals,
           v2_numRows = int numRecords, v2_encoding = vs_valueEncoding v,
           v2_definitionLevelsByteLength = int (length db), v2_repetitionLevelsByteLength = int (length rb),
           v2_isCompressed = (codec \<noteq> UNCOMPRESSED), v2_statistics = None\<rparr>\<rparr>"
  obtain hdr where hdr: "writePageHeader h = Inr hdr" using page_header_written [of h] by (auto simp: h_def opt_def)
  have w: "data_page_v2 lib codec ?slots ?vals numRecords rb db v = Inr (hdr, rb @ db @ z, u)"
    using z(1) hdr by (simp add: data_page_v2_def u_def h_def b_def Let_def)
  have "page_read lib n codec s v (hdr, rb @ db @ z, u)"
    unfolding page_read_def
  proof (clarsimp simp flip: d b_def)
    fix m :: ColumnMetaData and dict pre post
    assume small: "u < 2147483648" "length rb + (length db + length z) < 2147483648" "int_range 32 (vs_valueEncoding v)"
      and c: "codec = cm_codec m"
      and dec: "decodeValues (vs_valueEncoding v) d b (int ?vals) dict = Inr (map Some (elements (stored (cd_typeLength d) (ls_values s))))"
    have valid: "valid_PageHeader h" using small stream_okD(5,6) [OF s] recs
      by (simp add: h_def valid_PageHeader_def valid_DataPageHeaderV2_def opt_def page_defs encoding_defs int_range_def u_def)
    have "decompressPage lib (if codec \<noteq> UNCOMPRESSED then cm_codec m else UNCOMPRESSED) z (Some (int (length b))) = Inr b"
      using z(2) small c by (auto simp: u_def)
    moreover have "\<not> int (length (rb @ db @ z)) < int (length rb) + int (length db)" by simp
    ultimately have page: "read_data_page_v2 lib d m h (rb @ db @ z) st = Inr (st\<lparr>ps_pages := ps_pages st @ [page_of s],
        ps_seen := ps_seen st + int ?slots\<rparr>)" if "ps_dictionary st = dict" for st
      using dec rep "def" stream_okD(3) [OF s] that
      by (simp add: read_data_page_v2_def h_def u_def Let_def subarray_parts page_of_def del: length_append flip: d)
    show "read_page lib n (pre @ hdr @ rb @ db @ z @ post) d m
         \<lparr>ps_offset = int (length pre), ps_dictionary = dict, ps_seen = 0, ps_pages = []\<rparr> =
       Inr \<lparr>ps_offset = int (length pre) + (int (length hdr) + (int (length rb) + (int (length db) + int (length z)))), ps_dictionary = dict,
         ps_seen = int ?slots, ps_pages = [page_of s]\<rparr>"
      using read_page_at [OF valid n hdr, of "rb @ db @ z" _ pre lib post d m] page
      by (simp add: h_def page_defs)
  qed
  with w show ?thesis by blast
qed

subsection \<open>Column chunks\<close>

lemma page_loop_read:
  assumes "0 < cm_numValues m" "ps_seen st = 0"
    and "read_page lib n bytes d m st = Inr st'" "cm_numValues m \<le> ps_seen st'"
  shows "page_loop lib n (Suc k) bytes d m st = Inr st'"
  using assms by (cases k) simp_all

definition stream_read :: "leaf_stream \<Rightarrow> read_stream" where
  "stream_read s =
     \<lparr>rs_values = map Some (elements (stored (cd_typeLength (ls_descriptor s)) (ls_values s))),
      rs_defLevels = ls_defLevels s, rs_repLevels = ls_repLevels s\<rparr>"

lemma page_of_stream:
  assumes "stream_ok s"
  shows "add_page \<lparr>rs_values = [], rs_defLevels = [], rs_repLevels = []\<rparr> (page_of s) = stream_read s"
proof -
  have zeros: "(case level_option m ls of None \<Rightarrow> replicate n 0 | Some ls \<Rightarrow> ls) = ls"
    if "level_ok m ls" "length ls = n" for m ls n
  proof (cases "0 < m")
    case False
    with that have "\<forall>l \<in> set ls. l = 0" by (simp add: level_ok_def)
    then show ?thesis using False that(2) by (auto simp add: level_option_def replicate_length_same)
  qed (simp add: level_option_def)
  show ?thesis using zeros [OF stream_okD(1) [OF assms] refl] zeros [OF stream_okD(2,3) [OF assms]]
    by (simp add: add_page_def page_of_def stream_read_def Let_def)
qed

lemma page_readD:
  assumes "page_read lib n codec s v (header, body, u)" "u < 2 ^ 31" "length body < 2 ^ 31" "int_range 32 (vs_valueEncoding v)"
    and "cm_codec m = codec" "d = ls_descriptor s"
    and "decodeValues (vs_valueEncoding v) d (vs_valueBytes v) (int (num_values (ls_values s))) dict =
         Inr (map Some (elements (stored (cd_typeLength d) (ls_values s))))"
  shows "read_page lib n (pre @ header @ body @ post) d m
         \<lparr>ps_offset = int (length pre), ps_dictionary = dict, ps_seen = 0, ps_pages = []\<rparr> =
       Inr \<lparr>ps_offset = int (length (pre @ header @ body)), ps_dictionary = dict, ps_seen = int (length (ls_defLevels s)),
         ps_pages = [page_of s]\<rparr>"
  using assms by (simp add: page_read_def)

lemma empty_stream:
  assumes "stream_ok s" "ls_defLevels s = []"
  shows "stream_read s = \<lparr>rs_values = [], rs_defLevels = [], rs_repLevels = []\<rparr>"
proof -
  have "elements (stored (cd_typeLength (ls_descriptor s)) (ls_values s)) = []"
    using stream_okD(4) [OF assms(1)] assms(2) by (simp flip: length_0_conv)
  then show ?thesis using stream_okD(3) [OF assms(1)] assms(2) by (simp add: stream_read_def)
qed

lemma chunk_read:
  assumes s: "stream_ok s" and d: "d = ls_descriptor s"
    and sec: "section_read lib n d m (length pre) (ls_values s) v" and p: "page_read lib n codec s v (hdr, body, u)"
    and small: "u < 2 ^ 31" "length body < 2 ^ 31" "int_range 32 (vs_valueEncoding v)"
    and m: "cm_codec m = codec" "cm_numValues m = int (length (ls_defLevels s))"
      "cm_dictionaryPageOffset m = vs_dictionaryPageOffset v" "cm_dataPageOffset m = int (length pre + length (vs_pushed v))"
  shows "readLeafStream lib n (Suc (Suc k)) (pre @ (vs_pushed v @ hdr @ body) @ post) d m = Inr (stream_read s)"
proof (cases "ls_defLevels s = []")
  case True
  then show ?thesis using m(2) empty_stream [OF s True]
    by (simp add: readLeafStream_def readColumnPages_def)
next
  case False
  let ?bytes = "pre @ vs_pushed v @ hdr @ body @ post"
  obtain dict where dec: "decodeValues (vs_valueEncoding v) d (vs_valueBytes v) (int (num_values (ls_values s))) dict =
       Inr (map Some (elements (stored (cd_typeLength d) (ls_values s))))"
    and loop: "page_loop lib n (Suc (Suc k)) ?bytes d m
         \<lparr>ps_offset = (case vs_dictionaryPageOffset v of Some off \<Rightarrow> off | None \<Rightarrow> int (length pre + length (vs_pushed v))),
           ps_dictionary = None, ps_seen = 0, ps_pages = []\<rparr> =
       page_loop lib n (if vs_dictionaryPageOffset v = None then Suc (Suc k) else Suc k) ?bytes d m
         \<lparr>ps_offset = int (length pre + length (vs_pushed v)), ps_dictionary = dict, ps_seen = 0, ps_pages = []\<rparr>"
    using sec m(2) False unfolding section_read_def by force
  have "read_page lib n ?bytes d m \<lparr>ps_offset = int (length (pre @ vs_pushed v)), ps_dictionary = dict, ps_seen = 0, ps_pages = []\<rparr> =
       Inr \<lparr>ps_offset = int (length ((pre @ vs_pushed v) @ hdr @ body)), ps_dictionary = dict, ps_seen = int (length (ls_defLevels s)),
         ps_pages = [page_of s]\<rparr>"
    using page_readD [OF p small m(1) d dec, of "pre @ vs_pushed v" post] by simp
  then have "page_loop lib n (Suc j) ?bytes d m
         \<lparr>ps_offset = int (length pre + length (vs_pushed v)), ps_dictionary = dict, ps_seen = 0, ps_pages = []\<rparr> =
       Inr \<lparr>ps_offset = int (length ((pre @ vs_pushed v) @ hdr @ body)), ps_dictionary = dict, ps_seen = int (length (ls_defLevels s)),
         ps_pages = [page_of s]\<rparr>" for j
    using False m(2) by (intro page_loop_read) simp_all
  moreover obtain j where "(if vs_dictionaryPageOffset v = None then Suc (Suc k) else Suc k) = Suc j" by metis
  ultimately have "page_loop lib n (Suc (Suc k)) ?bytes d m
         \<lparr>ps_offset = (case vs_dictionaryPageOffset v of Some off \<Rightarrow> off | None \<Rightarrow> int (length pre + length (vs_pushed v))),
           ps_dictionary = None, ps_seen = 0, ps_pages = []\<rparr> =
       Inr \<lparr>ps_offset = int (length ((pre @ vs_pushed v) @ hdr @ body)), ps_dictionary = dict, ps_seen = int (length (ls_defLevels s)),
         ps_pages = [page_of s]\<rparr>"
    using loop by (simp only:)
  then show ?thesis
    using page_of_stream [OF s]
    by (cases "vs_dictionaryPageOffset v") (simp_all add: readLeafStream_def readColumnPages_def m(3,4) del: page_loop.simps)
qed

lemma numRecords_le:
  assumes "stream_ok s"
  shows "numRecords_of s \<le> length (ls_defLevels s)"
proof -
  have "foldl (\<lambda>n r. n + (if r = (0::nat) then 1 else 0)) a rs \<le> a + length rs" for a rs
  proof (induction rs arbitrary: a)
    case (Cons r rs)
    from Cons [of "a + (if r = 0 then 1 else 0)"] show ?case by (auto split: if_splits)
  qed simp
  from this [of 0 "ls_repLevels s"] show ?thesis using stream_okD(3) [OF assms] by (simp add: numRecords_of_def)
qed

lemma supported_codec: "isCodecSupported codec \<Longrightarrow> int_range 32 codec"
  by (auto simp: isCodecSupported_def CODEC_FORMAT_def codec_defs int_range_def split: if_splits)

text \<open>The value section and the data page of a chunk.\<close>

lemma section_written:
  assumes "stream_ok s" "config_ok config (ls_values s)" "lossless lib" "16 \<le> n"
  shows "\<exists>v. (if wc_useDictionary config then dictionary_section lib (ls_descriptor s) (ls_values s) (wc_codec config) off
      else plain_section (wc_dataEncoding config) (ls_descriptor s) (ls_values s)) = Inr v \<and>
    section_ok lib n (ls_descriptor s) (wc_codec config) off (ls_values s) v"
proof -
  have vs: "plain_ok (ls_values s)" "cd_physicalType (ls_descriptor s) = physicalType (ls_values s)"
    using assms(1) by (simp_all add: stream_ok_def Let_def)
  have len: "num_values (ls_values s) < 2 ^ 30" using stream_okD(5,6) [OF assms(1)] by linarith
  show ?thesis
  proof (cases "wc_useDictionary config")
    case True
    with assms(2) have "keys_ok (ls_values s)" "aligned (snd (buildDictionary (ls_values s)))" "isCodecSupported (wc_codec config)"
      by (simp_all add: config_ok_def)
    from dictionary_section_ok [OF vs(1) this(1,2) vs(2) len assms(3) this(3) assms(4)] True show ?thesis by simp
  next
    case False
    with assms(2) have "encoding_ok (wc_dataEncoding config) (ls_values s)" by (simp add: config_ok_def)
    from plain_section_ok [OF vs(1) this vs(2) len] False show ?thesis by simp
  qed
qed

lemma chunk_codec:
  assumes s: "stream_ok s" and c: "config_ok config (ls_values s)" and lib: "lossless lib" and n: "16 \<le> n"
  obtains bs cc u cm where "writeLeafChunk lib config s off = Inr (bs, cc, u)" "cc_metaData cc = Some cm" "cc_filePath cc = None"
    "cm_totalUncompressedSize cm = u" "cm_totalCompressedSize cm = int (length bs)" "0 \<le> u"
    "list_of stored_text (cd_path (ls_descriptor s)) \<Longrightarrow> u < 2 ^ 31 \<Longrightarrow> off + length bs < 2 ^ 31 \<Longrightarrow> valid_ColumnChunk cc"
    "\<And>pre post k. length pre = off \<Longrightarrow> u < 2 ^ 31 \<Longrightarrow> length bs < 2 ^ 31 \<Longrightarrow>
      readLeafStream lib n (Suc (Suc k)) (pre @ bs @ post) (ls_descriptor s) cm = Inr (stream_read s)"
proof -
  let ?d = "ls_descriptor s" and ?codec = "wc_codec config"
  have codec: "isCodecSupported ?codec" using c by (simp add: config_ok_def)
  obtain rr where rr: "raw_levels (ls_repLevels s) (cd_maxRepetitionLevel ?d) = Inr rr"
    "raw_page_levels (cd_maxRepetitionLevel ?d) rr (int (length (ls_repLevels s))) = Inr (level_option (cd_maxRepetitionLevel ?d) (ls_repLevels s))"
    using raw_codec [OF stream_okD(2) [OF s]] by blast
  obtain rd where rd: "raw_levels (ls_defLevels s) (cd_maxDefinitionLevel ?d) = Inr rd"
    "raw_page_levels (cd_maxDefinitionLevel ?d) rd (int (length (ls_defLevels s))) = Inr (level_option (cd_maxDefinitionLevel ?d) (ls_defLevels s))"
    using raw_codec [OF stream_okD(1) [OF s]] by blast
  obtain pr where pr: "lengthPrefixed (ls_repLevels s) (cd_maxRepetitionLevel ?d) = Inr pr"
    "\<And>pre rest. prefixed_levels (cd_maxRepetitionLevel ?d) (int (length (ls_repLevels s))) (reader_at pre (pr @ rest)) =
      Inr (level_option (cd_maxRepetitionLevel ?d) (ls_repLevels s), reader_at (pre @ pr) rest)"
    using prefixed_codec [OF stream_okD(2) [OF s]] by blast
  obtain pd where pd: "lengthPrefixed (ls_defLevels s) (cd_maxDefinitionLevel ?d) = Inr pd"
    "\<And>pre rest. prefixed_levels (cd_maxDefinitionLevel ?d) (int (length (ls_defLevels s))) (reader_at pre (pd @ rest)) =
      Inr (level_option (cd_maxDefinitionLevel ?d) (ls_defLevels s), reader_at (pre @ pd) rest)"
    using prefixed_codec [OF stream_okD(1) [OF s]] by blast
  obtain v where v: "(if wc_useDictionary config then dictionary_section lib ?d (ls_values s) ?codec off
      else plain_section (wc_dataEncoding config) ?d (ls_values s)) = Inr v" "section_ok lib n ?d ?codec off (ls_values s) v"
    using section_written [OF s c lib n] by blast
  have "numRecords_of s < 2 ^ 31" using numRecords_le [OF s] stream_okD(5) [OF s] by simp
  from v1_page [OF s lib codec n refl pr(2) pd(2)] v2_page [OF s lib codec n refl this rr(2) rd(2)]
  obtain hdr body w where p: "(if wc_pageVersion config = 2
       then data_page_v2 lib ?codec (length (ls_defLevels s)) (num_values (ls_values s)) (numRecords_of s) rr rd v
       else data_page_v1 lib ?codec (length (ls_defLevels s)) (pr @ pd) v) = Inr (hdr, body, w)"
    "page_read lib n ?codec s v (hdr, body, w)"
    by (cases "wc_pageVersion config = 2") (auto, blast+)
  define cm where "cm = \<lparr>cm_type = int (cd_physicalType ?d), cm_encodings = vs_encodings v, cm_pathInSchema = cd_path ?d,
            cm_codec = ?codec, cm_numValues = int (length (ls_defLevels s)),
            cm_totalUncompressedSize = int (vs_uncompressedTotal v + length hdr + w),
            cm_totalCompressedSize = int (vs_compressedTotal v + length hdr + length body), cm_keyValueMetadata = None,
            cm_dataPageOffset = int (off + length (vs_pushed v)), cm_indexPageOffset = None,
            cm_dictionaryPageOffset = vs_dictionaryPageOffset v, cm_statistics = None\<rparr>"
  define cc where "cc = \<lparr>cc_filePath = None,
     cc_fileOffset = (case vs_dictionaryPageOffset v of Some n \<Rightarrow> n | None \<Rightarrow> int (off + length (vs_pushed v))), cc_metaData = Some cm\<rparr>"
  note sec = v(2) [unfolded section_ok_def]
  have wr: "writeLeafChunk lib config s off = Inr (vs_pushed v @ hdr @ body, cc, int (vs_uncompressedTotal v + length hdr + w))"
    using rr(1) rd(1) pr(1) pd(1) v(1) p(1) by (simp add: writeLeafChunk_def Let_def cc_def cm_def del: if_split)
  have rd: "readLeafStream lib n (Suc (Suc k)) (pre @ (vs_pushed v @ hdr @ body) @ post) ?d cm = Inr (stream_read s)"
    if "length pre = off" "int (vs_uncompressedTotal v + length hdr + w) < 2 ^ 31" "length (vs_pushed v @ hdr @ body) < 2 ^ 31" for pre post k
    using that sec by (intro chunk_read [OF s refl _ p(2)]) (simp_all add: cm_def)
  have valid: "valid_ColumnChunk cc"
    if "list_of stored_text (cd_path ?d)" "int (vs_uncompressedTotal v + length hdr + w) < 2 ^ 31"
      "off + length (vs_pushed v @ hdr @ body) < 2 ^ 31"
  proof -
    have "cd_physicalType ?d < 8" using s by (cases "ls_values s") (simp_all add: stream_ok_def Let_def ptype_defs)
    then show ?thesis using that sec supported_codec [OF codec] stream_okD(5) [OF s]
      by (auto simp: valid_ColumnChunk_def valid_ColumnMetaData_def cc_def cm_def opt_def int_range_def split: option.split)
  qed
  show ?thesis
    by (rule that [OF wr, of cm]; (rule valid rd)?) (use sec in \<open>simp_all add: cc_def cm_def\<close>)
qed


definition identity_lib :: compressor where
  "identity_lib = \<lparr>lib_compress = (\<lambda>format b. Inr b), lib_decompress = (\<lambda>format b expected. Inr b)\<rparr>"

definition sample_stream :: leaf_stream where
  "sample_stream = \<lparr>ls_descriptor = \<lparr>cd_path = [[97], [108, 105, 115, 116], [101, 108, 101, 109, 101, 110, 116]],
       cd_physicalType = INT32, cd_typeLength = None, cd_maxDefinitionLevel = 3, cd_maxRepetitionLevel = 1\<rparr>,
     ls_values = Int32s [7], ls_defLevels = [3, 2, 0, 1], ls_repLevels = [0, 1, 0, 0]\<rparr>"

definition sample_config :: write_config where
  "sample_config = \<lparr>wc_codec = SNAPPY, wc_useDictionary = False, wc_dataEncoding = ''plain'', wc_pageVersion = 1\<rparr>"

lemma identity_lossless: "lossless identity_lib"
  by (simp add: identity_lib_def lossless_def)

lemma sample_widths: "bitWidthForMax 3 = 2" "bitWidthForMax 1 = 1" by code_simp+

lemma sample_aligned: "aligned [3, 2, 0, 1]" "aligned [0, 1, 0, 0]" by code_simp+

lemma sample_stream_ok: "stream_ok sample_stream" "config_ok sample_config (ls_values sample_stream)"
  using sample_aligned
  by (simp_all add: sample_stream_def sample_config_def stream_ok_def config_ok_def level_ok_def isCodecSupported_def
      CODEC_FORMAT_def codec_defs int_range_def)

lemma short_levels:
  assumes "0 < bitWidthForMax m" "bitWidthForMax m \<le> 2" "\<forall>v \<in> {a, b, c, d}. v < 2 ^ bitWidthForMax m"
  shows "\<exists>bs. encodeRleHybrid [a, b, c, d] (bitWidthForMax m) = Inr bs \<and> length bs < 30"
proof -
  have "\<exists>h. varint_bytes (js_shl1 1 OR 1) = Inr h \<and> length h < 20"
    using length_varint_groups [of 3 10] by (simp add: varint_bytes_def js_shl1_def)
  then obtain h where "varint_bytes (js_shl1 1 OR 1) = Inr h" "length h < 20" by blast
  moreover have "length (packBits ([a, b, c, d] @ replicate 4 0) (bitWidthForMax m)) \<le> 2"
    using packBits_num(2) [of "[a, b, c, d] @ replicate 4 0" "bitWidthForMax m"] assms by auto
  ultimately show ?thesis using assms(1,2)
    by (auto simp: encodeRleHybrid_def rle_loop.simps packed_run_def num_groups_def pad_group_def)
qed

lemma short_zigzag: "length (zigzag32_bytes v) \<le> 10"
proof -
  have "unat (zigzag32 v) < 2 ^ (7 * 10)" by (rule less_le_trans [OF unsigned_less]) simp
  from length_varint_groups [OF this] show ?thesis by (simp add: zigzag32_bytes_def)
qed

lemmas header_defs = writePageHeader_def writePageHeaderStruct_def writeDataPageHeader_def writeField_def
  writeOptField_def compactProtocol_def compact_writeStructBegin_def compact_writeStructEnd_def
  compact_writeFieldBegin_def writeFieldHeader_def cw_put_def new_compact_writer_def ttypeToCompact_def

lemma sample_header_short:
  "\<exists>h. writePageHeader \<lparr>ph_type = DATA_PAGE, ph_uncompressedPageSize = a, ph_compressedPageSize = b, ph_crc = None,
     ph_dataPageHeader = Some \<lparr>dp_numValues = n, dp_encoding = PLAIN, dp_definitionLevelEncoding = RLE,
       dp_repetitionLevelEncoding = RLE, dp_statistics = None\<rparr>,
     ph_dictionaryPageHeader = None, ph_dataPageHeaderV2 = None\<rparr> = Inr h \<and> length h < 100"
  using short_zigzag [of 0] short_zigzag [of n] short_zigzag [of a] short_zigzag [of b] short_zigzag [of 3]
  by (simp add: header_defs page_defs encoding_defs)

lemma sample_chunk:
  "\<exists>bs cm u. writeLeafChunk identity_lib sample_config sample_stream off =
      Inr (bs, \<lparr>cc_filePath = None, cc_fileOffset = int off, cc_metaData = Some cm\<rparr>, u) \<and>
    length bs < 200 \<and> u < 200 \<and> cm_encodings cm = [RLE, PLAIN] \<and> cm_pathInSchema cm = cd_path (ls_descriptor sample_stream) \<and>
    cm_keyValueMetadata cm = None \<and> cm_indexPageOffset cm = None \<and> cm_dictionaryPageOffset cm = None \<and> cm_statistics cm = None"
proof -
  obtain rs ds where l: "encodeRleHybrid [0, 1, 0, 0] (bitWidthForMax 1) = Inr rs" "length rs < 30"
    "encodeRleHybrid [3, 2, 0, 1] (bitWidthForMax 3) = Inr ds" "length ds < 30"
    using short_levels [of 1 0 1 0 0] short_levels [of 3 3 2 0 1] by (auto simp: sample_widths simp del: One_nat_def)
  let ?n = "12 + length rs + length ds"
  obtain h where "writePageHeader \<lparr>ph_type = DATA_PAGE, ph_uncompressedPageSize = int ?n, ph_compressedPageSize = int ?n, ph_crc = None,
     ph_dataPageHeader = Some \<lparr>dp_numValues = 4, dp_encoding = PLAIN, dp_definitionLevelEncoding = RLE,
       dp_repetitionLevelEncoding = RLE, dp_statistics = None\<rparr>,
     ph_dictionaryPageHeader = None, ph_dataPageHeaderV2 = None\<rparr> = Inr h" "length h < 100"
    using sample_header_short by blast
  with l show ?thesis
    by (simp add: writeLeafChunk_def sample_stream_def sample_config_def raw_levels_def lengthPrefixed_def uint32_le_def
      plain_section_def encodeValues_def data_page_v1_def compressPage_def CODEC_FORMAT_def codec_defs identity_lib_def int32_le_def add_ac)
qed


end
