(* ===== verification/Parquet_Schema.thy ===== *)
theory Parquet_Schema
  imports Parquet_Types
begin

text \<open>
  The schema tree of \<open>data/parquet/nested.ts\<close>: \<open>buildNodes\<close> from the Arrow fields, \<open>nodesToSchemaElements\<close> for the
  footer, and \<open>schemaElementsToNodes\<close> back.

  A cursor into the element list is the list of the elements still to read. \<open>emitElement\<close> takes the name and the
  nullability under which a node is emitted, which the code overrides with spread copies of the node.
\<close>

datatype schema_node =
    SLeaf (sn_name: text_string) (sn_nullable: bool) (sn_field: field) (sn_defLevel: nat) (sn_repLevel: nat) (sn_descriptor: descriptor)
  | SStruct (sn_name: text_string) (sn_nullable: bool) (sn_field: field) (sn_defLevel: nat) (sn_repLevel: nat) (sn_members: "schema_node list")
  | SList (sn_name: text_string) (sn_nullable: bool) (sn_field: field) (sn_defLevel: nat) (sn_repLevel: nat) (sn_child: schema_node)
  | SMap (sn_name: text_string) (sn_nullable: bool) (sn_field: field) (sn_defLevel: nat) (sn_repLevel: nat) (sn_child: schema_node)

fun sn_children :: "schema_node \<Rightarrow> schema_node list" where
  "sn_children (SLeaf n nl f dl rl d) = []"
| "sn_children (SStruct n nl f dl rl cs) = cs"
| "sn_children (SList n nl f dl rl c) = [c]"
| "sn_children (SMap n nl f dl rl c) = [c]"

lemma sn_children_size: "x \<in> set (sn_children c) \<Longrightarrow> size x < size c"
  by (cases c) (auto simp: less_Suc_eq_le intro: size_list_estimation' trans_le_add1 le_SucI)

definition isNested :: "data_type \<Rightarrow> bool" where
  "isNested type \<longleftrightarrow> (case type of StructType _ \<Rightarrow> True | ListType _ \<Rightarrow> True | LargeListType _ \<Rightarrow> True
     | FixedSizeListType _ _ \<Rightarrow> True | MapType _ _ \<Rightarrow> True | _ \<Rightarrow> False)"

subsection \<open>Building the tree\<close>

abbreviation (input) list_segment :: text_string where "list_segment \<equiv> [108, 105, 115, 116]"
abbreviation (input) key_value_segment :: text_string where "key_value_segment \<equiv> [107, 101, 121, 95, 118, 97, 108, 117, 101]"
abbreviation (input) element_segment :: text_string where "element_segment \<equiv> [101, 108, 101, 109, 101, 110, 116]"
abbreviation (input) entries_segment :: text_string where "entries_segment \<equiv> [101, 110, 116, 114, 105, 101, 115]"

definition leaf_node :: "field \<Rightarrow> nat \<Rightarrow> nat \<Rightarrow> text_string list \<Rightarrow> js_error + schema_node" where
  "leaf_node f parentDef parentRep path =
     bindR (arrowTypeToParquet (fd_type f)) (\<lambda>info.
       let defLevel = parentDef + (if fd_nullable f then 1 else 0) in
       Inr (SLeaf (fd_name f) (fd_nullable f) f defLevel parentRep
         \<lparr>ds_name = fd_name f, ds_path = path @ [fd_name f], ds_physicalType = ti_physicalType info,
          ds_typeLength = ti_typeLength info, ds_maxDefinitionLevel = defLevel, ds_maxRepetitionLevel = parentRep,
          ds_arrowField = f, ds_decode = ti_decode info, ds_encode = ti_encode info\<rparr>))"

definition list_child :: "data_type \<Rightarrow> field option" where
  "list_child type = (case type of ListType c \<Rightarrow> Some c | LargeListType c \<Rightarrow> Some c | FixedSizeListType n c \<Rightarrow> Some c | _ \<Rightarrow> None)"

lemma list_child_size: "list_child type = Some c \<Longrightarrow> size c < size type"
  by (auto simp: list_child_def split: data_type.splits)

function buildNode :: "field \<Rightarrow> nat \<Rightarrow> nat \<Rightarrow> text_string list \<Rightarrow> js_error + schema_node" where
  "buildNode (Field name type nullable metadata) parentDef parentRep path =
     (let f = Field name type nullable metadata; groupDef = parentDef + (if nullable then 1 else 0) in
      case list_child type of
        Some c \<Rightarrow> bindR (buildNode c (groupDef + 1) (parentRep + 1) (path @ [name, list_segment])) (\<lambda>child.
          Inr (SList name nullable f groupDef (parentRep + 1) child))
      | None \<Rightarrow> (case type of
          StructType fs \<Rightarrow> bindR (mapR (\<lambda>g. buildNode g groupDef parentRep (path @ [name])) fs) (\<lambda>children.
            Inr (SStruct name nullable f groupDef parentRep children))
        | MapType keysSorted c \<Rightarrow> bindR (buildNode c (groupDef + 1) (parentRep + 1) (path @ [name, key_value_segment])) (\<lambda>child.
            Inr (SMap name nullable f groupDef (parentRep + 1) child))
        | _ \<Rightarrow> leaf_node f parentDef parentRep path))"
  by pat_completeness auto
termination
  by (relation "measure (\<lambda>(f, d, r, p). size f)")
    (auto dest: list_child_size simp: less_Suc_eq_le intro: size_list_estimation' trans_le_add1 le_SucI)

definition buildNodes :: "field list \<Rightarrow> js_error + schema_node list" where
  "buildNodes fs = mapR (\<lambda>f. buildNode f 0 0 []) fs"

subsection \<open>The footer's elements\<close>

definition group_element :: "text_string \<Rightarrow> int \<Rightarrow> int \<Rightarrow> (int \<times> LogicalType) option \<Rightarrow> SchemaElement" where
  "group_element name rep numChildren annotation =
     \<lparr>el_type = None, el_typeLength = None, el_repetitionType = Some rep, el_name = name, el_numChildren = Some numChildren,
      el_convertedType = map_option fst annotation, el_scale = None, el_precision = None, el_fieldId = None,
      el_logicalType = map_option snd annotation\<rparr>"

function emitElement :: "text_string \<Rightarrow> bool \<Rightarrow> schema_node \<Rightarrow> js_error + SchemaElement list" where
  "emitElement name nullable node =
     (let rep = if nullable then OPTIONAL else REQUIRED in
      case node of
        SLeaf n nl f dl rl d \<Rightarrow> bindR (arrowTypeToParquet (fd_type f)) (\<lambda>info. Inr [leaf_element name info nullable])
      | SStruct n nl f dl rl cs \<Rightarrow> bindR (mapR (\<lambda>c. emitElement (sn_name c) (sn_nullable c) c) cs) (\<lambda>els.
          Inr (group_element name rep (int (length cs)) None # concat els))
      | SList n nl f dl rl c \<Rightarrow> bindR (emitElement element_segment (sn_nullable c) c) (\<lambda>els.
          Inr (group_element name rep 1 (Some (CT_LIST, logical_kind ''list'')) # group_element list_segment REPEATED 1 None # els))
      | SMap n nl f dl rl c \<Rightarrow> (case sn_children c of
          k # v # _ \<Rightarrow> bindR (emitElement key_name False k) (\<lambda>els. bindR (emitElement value_name (sn_nullable v) v) (\<lambda>els'.
            Inr (group_element name rep 1 (Some (CT_MAP, logical_kind ''map'')) # group_element key_value_segment REPEATED 2 None # els @ els')))
        | _ \<Rightarrow> Inl UndefinedProperty))"
  by pat_completeness auto
termination
proof (relation "measure (\<lambda>(n, nl, node). size node)", goal_cases)
  case (4 name nullable node rep n nl f dl rl c k xs v cs)
  then show ?case using sn_children_size [of k c] by simp
next
  case (5 name nullable node rep n nl f dl rl c k xs v cs els)
  then show ?case using sn_children_size [of v c] by simp
qed (auto simp: less_Suc_eq_le intro: size_list_estimation' trans_le_add1 le_SucI)

definition nodesToSchemaElements :: "schema_node list \<Rightarrow> js_error + SchemaElement list" where
  "nodesToSchemaElements nodes =
     bindR (mapR (\<lambda>n. emitElement (sn_name n) (sn_nullable n) n) nodes) (\<lambda>els.
       Inr (root_element (int (length nodes)) # concat els))"

subsection \<open>Parsing the footer's elements\<close>

fun parse_loop :: "('e list \<Rightarrow> js_error + 'n \<times> 'e list) \<Rightarrow> nat \<Rightarrow> 'e list \<Rightarrow> js_error + 'n list \<times> 'e list" where
  "parse_loop f 0 els = Inr ([], els)"
| "parse_loop f (Suc c) els =
     bindR (f els) (\<lambda>(n, els). bindR (parse_loop f c els) (\<lambda>(ns, els). Inr (n # ns, els)))"

definition parse_leaf :: "SchemaElement \<Rightarrow> nat \<Rightarrow> nat \<Rightarrow> text_string list \<Rightarrow> js_error + schema_node" where
  "parse_leaf el parentDef parentRep path =
     bindR (parquetLeafToArrow el) (\<lambda>(type, decode, encode).
       let nullable = element_nullable el; defLevel = parentDef + (if nullable then 1 else 0);
           f = Field (el_name el) type nullable None in
       Inr (SLeaf (el_name el) nullable f defLevel parentRep
         \<lparr>ds_name = el_name el, ds_path = path @ [el_name el],
          ds_physicalType = nat (the (nullish (el_type el) (Some (int BYTE_ARRAY)))), ds_typeLength = el_typeLength el,
          ds_maxDefinitionLevel = defLevel, ds_maxRepetitionLevel = parentRep, ds_arrowField = f,
          ds_decode = decode, ds_encode = encode\<rparr>))"

definition is_list_group :: "SchemaElement \<Rightarrow> bool" where
  "is_list_group el \<longleftrightarrow> el_convertedType el = Some CT_LIST \<or> has_kind el ''list''"

definition is_map_group :: "SchemaElement \<Rightarrow> bool" where
  "is_map_group el \<longleftrightarrow> el_convertedType el = Some CT_MAP \<or> el_convertedType el = Some CT_MAP_KEY_VALUE \<or> has_kind el ''map''"

fun parseNode :: "nat \<Rightarrow> SchemaElement list \<Rightarrow> nat \<Rightarrow> nat \<Rightarrow> text_string list \<Rightarrow> js_error + schema_node \<times> SchemaElement list" where
  "parseNode 0 els parentDef parentRep path = Inl OutOfFuel"
| "parseNode (Suc k) els parentDef parentRep path =
     (case els of
        [] \<Rightarrow> Inl (ParquetError ''truncated Parquet schema'')
      | el # els \<Rightarrow>
          let nullable = element_nullable el; numChildren = the (nullish (el_numChildren el) (Some 0));
              groupDef = parentDef + (if nullable then 1 else 0) in
          if numChildren = 0 then bindR (parse_leaf el parentDef parentRep path) (\<lambda>n. Inr (n, els))
          else if is_list_group el then
            bindR (parseNode k (drop 1 els) (groupDef + 1) (parentRep + 1) (path @ [el_name el, list_segment])) (\<lambda>(c, els).
              Inr (SList (el_name el) nullable (Field (el_name el) (ListType (sn_field c)) nullable None) groupDef (parentRep + 1) c, els))
          else if is_map_group el then
            (case els of
               [] \<Rightarrow> Inl UndefinedProperty
             | kv # els \<Rightarrow>
                 bindR (parse_loop (\<lambda>els. parseNode k els (groupDef + 1) (parentRep + 1) (path @ [el_name el, key_value_segment]))
                     (nat (the (nullish (el_numChildren kv) (Some 2)))) els) (\<lambda>(cs, els).
                   let entries = Field entries_segment (StructType (map sn_field cs)) False None in
                   Inr (SMap (el_name el) nullable (Field (el_name el) (MapType False entries) nullable None) groupDef (parentRep + 1)
                     (SStruct entries_segment False entries (groupDef + 1) (parentRep + 1) cs), els)))
          else
            bindR (parse_loop (\<lambda>els. parseNode k els groupDef parentRep (path @ [el_name el])) (nat numChildren) els) (\<lambda>(cs, els).
              Inr (SStruct (el_name el) nullable (Field (el_name el) (StructType (map sn_field cs)) nullable None) groupDef parentRep cs, els)))"

definition schemaElementsToNodes :: "nat \<Rightarrow> SchemaElement list \<Rightarrow> js_error + field list \<times> schema_node list" where
  "schemaElementsToNodes k schema =
     (case schema of
        [] \<Rightarrow> Inl UndefinedProperty
      | r # els \<Rightarrow> bindR (parse_loop (\<lambda>els. parseNode k els 0 0 []) (nat (the (nullish (el_numChildren r) (Some 0)))) els) (\<lambda>(nodes, els).
          Inr (map sn_field nodes, nodes)))"

text \<open>The fuel is the depth of the tree, which the number of elements bounds.\<close>

lemma parse_loop_total:
  assumes "\<And>els. length els \<le> m \<Longrightarrow> f els \<noteq> Inl OutOfFuel \<and> (\<forall>n rest. f els = Inr (n, rest) \<longrightarrow> length rest < length els)"
  shows "length els \<le> m \<Longrightarrow> parse_loop f c els \<noteq> Inl OutOfFuel \<and> (\<forall>ns rest. parse_loop f c els = Inr (ns, rest) \<longrightarrow> length rest \<le> length els)"
proof (induction c arbitrary: els)
  case (Suc c)
  show ?case
  proof (cases "f els")
    case (Inr p)
    with assms [OF Suc.prems] have "length (snd p) < length els" by (cases p) auto
    with Suc.IH [of "snd p"] Suc.prems Inr show ?thesis by (auto simp: bindR_eq_Inl bindR_eq_Inr split: prod.splits)
  qed (use assms [OF Suc.prems] in simp)
qed simp

lemma leaf_kinds_no_fuel:
  "as_is type \<noteq> Inl OutOfFuel" "integer_leaf el \<noteq> Inl OutOfFuel" "int32_leaf el \<noteq> Inl OutOfFuel"
  "int64_leaf el \<noteq> Inl OutOfFuel" "byte_array_leaf el \<noteq> Inl OutOfFuel" "fixed_leaf el \<noteq> Inl OutOfFuel"
proof -
  show as: "as_is type \<noteq> Inl OutOfFuel" for type by (simp add: as_is_def)
  have fo: "forced x f \<noteq> Inl OutOfFuel" if "\<And>y. f y \<noteq> Inl OutOfFuel" for x and f :: "'a \<Rightarrow> js_error + 'b"
    using that by (simp add: forced_def split: option.split)
  show il: "integer_leaf el \<noteq> Inl OutOfFuel" by (simp add: integer_leaf_def fo as)
  show "int32_leaf el \<noteq> Inl OutOfFuel" using as il by (simp add: int32_leaf_def split: option.split)
  show "int64_leaf el \<noteq> Inl OutOfFuel" using as il by (simp add: int64_leaf_def fo)
  show "byte_array_leaf el \<noteq> Inl OutOfFuel" "fixed_leaf el \<noteq> Inl OutOfFuel"
    using as by (simp_all add: byte_array_leaf_def fixed_leaf_def Let_def)
qed

lemma leaf_no_fuel: "parse_leaf el d r path \<noteq> Inl OutOfFuel"
proof -
  have "parquetLeafToArrow el \<noteq> Inl OutOfFuel" by (simp add: parquetLeafToArrow_def leaf_kinds_no_fuel)
  then show ?thesis by (auto simp: parse_leaf_def Let_def bindR_eq_Inl)
qed

lemma parse_total:
  "length els < k \<Longrightarrow> parseNode k els d r path \<noteq> Inl OutOfFuel \<and>
    (\<forall>n rest. parseNode k els d r path = Inr (n, rest) \<longrightarrow> length rest < length els)"
proof (induction k arbitrary: els d r path)
  case (Suc k)
  have loop: "parse_loop (\<lambda>els. parseNode k els d r path) c es \<noteq> Inl OutOfFuel \<and>
      (\<forall>ns rest. parse_loop (\<lambda>els. parseNode k els d r path) c es = Inr (ns, rest) \<longrightarrow> length rest \<le> length es)"
    if "length es < k" for es c d r path
    using that Suc.IH by (intro parse_loop_total [of "k - 1"]) auto
  show ?case
  proof (cases els)
    case (Cons el es)
    then have es: "length es < k" "length (drop 1 es) < k" "length (tl es) < k" using Suc.prems by auto
    show ?thesis using Suc.IH [OF es(2)] loop [OF es(1)] loop [OF es(3)] leaf_no_fuel
      by (auto simp: Cons Let_def bindR_eq_Inl bindR_eq_Inr split: list.splits prod.splits; fastforce)
  qed simp
qed simp

subsection \<open>The tree that shredding walks\<close>

text \<open>\<open>collectLeaves\<close> returns the descriptors of the leaves; as keys of the shredder's maps they are identified by
  their position.\<close>

fun leaf_descriptors :: "schema_node \<Rightarrow> descriptor list" where
  "leaf_descriptors (SLeaf n nl f dl rl d) = [d]"
| "leaf_descriptors (SStruct n nl f dl rl cs) = concat (map leaf_descriptors cs)"
| "leaf_descriptors (SList n nl f dl rl c) = leaf_descriptors c"
| "leaf_descriptors (SMap n nl f dl rl c) = leaf_descriptors c"

definition leaf_encode :: "descriptor \<Rightarrow> column_value js_value \<Rightarrow> js_error + column_value" where
  "leaf_encode d v = (case v of Prim x \<Rightarrow> convert (ds_encode d) x | _ \<Rightarrow> Inl UndefinedProperty)"

fun shape :: "(descriptor \<Rightarrow> 'v js_value \<Rightarrow> 'p) \<Rightarrow> nat \<Rightarrow> schema_node \<Rightarrow> ('v, 'p) node"
and shapes :: "(descriptor \<Rightarrow> 'v js_value \<Rightarrow> 'p) \<Rightarrow> nat \<Rightarrow> schema_node list \<Rightarrow> ('v, 'p) node list" where
  "shape e i (SLeaf n nl f dl rl d) = Leaf n nl dl rl i (e d)"
| "shape e i (SStruct n nl f dl rl cs) = Struct n nl dl rl (shapes e i cs)"
| "shape e i (SList n nl f dl rl c) = ListNode n nl dl rl (shape e i c)"
| "shape e i (SMap n nl f dl rl c) = MapNode n nl dl rl (shape e i c)"
| "shapes e i [] = []"
| "shapes e i (c # cs) = shape e i c # shapes e (i + length (leaf_descriptors c)) cs"

lemma nd_name_shape [simp]: "nd_name (shape e i n) = sn_name n"
  by (cases n) simp_all

lemma nd_name_shapes [simp]: "map nd_name (shapes e i cs) = map sn_name cs"
  by (induction cs arbitrary: i) simp_all

lemma shapes_empty [simp]: "shapes e i cs = [] \<longleftrightarrow> cs = []"
  by (cases cs) simp_all

lemma collect_shape: "collectLeaves (shape e i n) = [i ..< i + length (leaf_descriptors n)]"
  "concat (map collectLeaves (shapes e i cs)) = [i ..< i + length (concat (map leaf_descriptors cs))]"
proof (induction e i n and e i cs rule: shape_shapes.induct)
  case (6 e i c cs)
  then show ?case using upt_add_eq_append [of i "i + length (leaf_descriptors c)" "length (concat (map leaf_descriptors cs))"]
    by (simp add: add.assoc)
qed simp_all

subsection \<open>Schemas that are read back\<close>

text \<open>Two trees that shredding and assembly cannot tell apart, and whose leaves convert values back.\<close>

definition same_leaf :: "descriptor \<Rightarrow> descriptor \<Rightarrow> bool" where
  "same_leaf d d' \<longleftrightarrow> ds_physicalType d = ds_physicalType d' \<and> ds_typeLength d = ds_typeLength d' \<and>
     ds_maxDefinitionLevel d = ds_maxDefinitionLevel d' \<and> ds_maxRepetitionLevel d = ds_maxRepetitionLevel d' \<and>
     (\<forall>v. leaf_value (fd_type (ds_arrowField d)) v \<longrightarrow> (\<exists>p. convert (ds_encode d) v = Inr p \<and>
        convert (ds_decode d') (store_value (ds_physicalType d) (ds_typeLength d) p) = Inr v))"

inductive alike :: "schema_node \<Rightarrow> schema_node \<Rightarrow> bool" where
  leaf: "same_leaf d d' \<Longrightarrow> alike (SLeaf n nl f dl rl d) (SLeaf n' nl f' dl rl d')"
| struct: "map sn_name cs = map sn_name cs' \<Longrightarrow> list_all2 alike cs cs' \<Longrightarrow>
    alike (SStruct n nl f dl rl cs) (SStruct n' nl f' dl rl cs')"
| list: "alike c c' \<Longrightarrow> alike (SList n nl f dl rl c) (SList n' nl f' dl rl c')"
| map: "alike c c' \<Longrightarrow> alike (SMap n nl f dl rl c) (SMap n' nl f' dl rl c')"

definition struct_fields :: "field \<Rightarrow> field list" where
  "struct_fields f = (case fd_type f of StructType fs \<Rightarrow> fs | _ \<Rightarrow> [])"

lemma struct_fields_size: "g \<in> set (struct_fields f) \<Longrightarrow> size g < size f"
  using size_list_estimation' [of g "struct_fields f" "size g" size]
  by (cases f) (auto simp: struct_fields_def less_Suc_eq_le split: data_type.splits)

function field_ok :: "field \<Rightarrow> bool" where
  "field_ok (Field name type nullable metadata) \<longleftrightarrow> stored_text name \<and>
     (case list_child type of
        Some c \<Rightarrow> field_ok c
      | None \<Rightarrow> (case type of
          StructType fs \<Rightarrow> fs \<noteq> [] \<and> length fs < 2 ^ 31 \<and> distinct (map fd_name fs) \<and> list_all field_ok fs
        | MapType keysSorted c \<Rightarrow> \<not> fd_nullable c \<and> map fd_name (struct_fields c) = [key_name, value_name] \<and>
            \<not> fd_nullable (hd (struct_fields c)) \<and> list_all field_ok (struct_fields c)
        | _ \<Rightarrow> leaf_type type))"
  by pat_completeness auto
termination
  by (relation "measure size")
    (auto dest: list_child_size struct_fields_size simp: less_Suc_eq_le intro: size_list_estimation' trans_le_add1 le_SucI)

text \<open>The field a written field is read as: list elements and map entries take the names of the Parquet groups,
  lists of all kinds become lists, and time zones UTC.\<close>

function stored_field :: "text_string \<Rightarrow> field \<Rightarrow> field" where
  "stored_field name' (Field name type nullable metadata) = Field name'
     (case list_child type of
        Some c \<Rightarrow> ListType (stored_field element_segment c)
      | None \<Rightarrow> (case type of
          StructType fs \<Rightarrow> StructType (map (\<lambda>g. stored_field (fd_name g) g) fs)
        | MapType keysSorted c \<Rightarrow> MapType False
            (Field entries_segment (StructType (map (\<lambda>g. stored_field (fd_name g) g) (struct_fields c))) False None)
        | _ \<Rightarrow> stored_type type)) nullable None"
  by pat_completeness auto
termination
  by (relation "measure (\<lambda>(n, f). size f)")
    (auto dest: list_child_size struct_fields_size simp: less_Suc_eq_le intro: size_list_estimation' trans_le_add1 le_SucI)

declare buildNode.simps [simp del] emitElement.simps [simp del] parseNode.simps [simp del] stored_field.simps [simp del]

text \<open>What has to be shown of a field: its node, the elements it is written as, and the node they are parsed to.\<close>

definition parsed_as :: "SchemaElement list \<Rightarrow> nat \<Rightarrow> nat \<Rightarrow> schema_node \<Rightarrow> text_string \<Rightarrow> field \<Rightarrow> bool" where
  "parsed_as els D R node name f \<longleftrightarrow> (\<forall>k rest path. length els \<le> k \<longrightarrow> (\<exists>node'.
     parseNode k (els @ rest) D R path = Inr (node', rest) \<and> alike node node' \<and> sn_name node' = name \<and>
     sn_field node' = stored_field name f))"

definition carries :: "field \<Rightarrow> text_string \<Rightarrow> nat \<Rightarrow> nat \<Rightarrow> text_string list \<Rightarrow> schema_node \<Rightarrow> SchemaElement list \<Rightarrow> bool" where
  "carries f name D R path node els \<longleftrightarrow> buildNode f D R path = Inr node \<and>
     sn_name node = fd_name f \<and> sn_nullable node = fd_nullable f \<and> sn_field node = f \<and>
     emitElement name (fd_nullable f) node = Inr els \<and> els \<noteq> [] \<and>
     (stored_text name \<longrightarrow> list_all valid_SchemaElement els) \<and> (\<forall>i. node_ok R D (shape leaf_encode i node)) \<and>
     parsed_as els D R node name f"

definition members_carried :: "field list \<Rightarrow> nat \<Rightarrow> nat \<Rightarrow> text_string list \<Rightarrow> schema_node list \<Rightarrow> SchemaElement list list \<Rightarrow> bool" where
  "members_carried fs D R path cs els \<longleftrightarrow>
     list_all2 (\<lambda>f (c, es). carries f (fd_name f) D R path c es) fs (zip cs els) \<and> length cs = length fs \<and> length els = length fs"

lemma membersD:
  assumes "members_carried fs D R path cs els" "list_all (\<lambda>f. stored_text (fd_name f)) fs"
  shows "mapR (\<lambda>g. buildNode g D R path) fs = Inr cs"
    and "mapR (\<lambda>c. emitElement (sn_name c) (sn_nullable c) c) cs = Inr els"
    and "map sn_name cs = map fd_name fs" "map sn_field cs = fs"
    and "list_all valid_SchemaElement (concat els)"
    and "\<forall>n \<in> set (shapes leaf_encode i cs). node_ok R D n"
    and "length (concat els) \<le> k \<Longrightarrow> \<exists>cs'. parse_loop (\<lambda>els. parseNode k els D R path') (length fs) (concat els @ rest) = Inr (cs', rest) \<and>
       list_all2 alike cs cs' \<and> map sn_name cs' = map fd_name fs \<and> map sn_field cs' = map (\<lambda>g. stored_field (fd_name g) g) fs"
  using assms
proof (induction fs arbitrary: cs els i)
  case Nil
  {
    case 1 then show ?case by (simp add: members_carried_def)
  next
    case 2 then show ?case by (simp add: members_carried_def)
  next
    case 3 then show ?case by (simp add: members_carried_def)
  next
    case 4 then show ?case by (simp add: members_carried_def)
  next
    case 5 then show ?case by (simp add: members_carried_def)
  next
    case 6 then show ?case by (simp add: members_carried_def)
  next
    case 7 then show ?case by (simp add: members_carried_def)
  }
next
  case (Cons f fs)
  have split: "\<exists>c cs' e els'. cs = c # cs' \<and> els = e # els' \<and> carries f (fd_name f) D R path c e \<and> members_carried fs D R path cs' els'"
    if "members_carried (f # fs) D R path cs els" for cs els
    using that by (cases cs; cases els) (auto simp: members_carried_def)
  {
    case 1 then show ?case using split [OF 1(1)] Cons.IH(1) by (auto simp: carries_def)
  next
    case 2 then show ?case using split [OF 2(1)] Cons.IH(2) by (auto simp: carries_def)
  next
    case 3 then show ?case using split [OF 3(1)] Cons.IH(3) by (auto simp: carries_def)
  next
    case 4 then show ?case using split [OF 4(1)] Cons.IH(4) by (auto simp: carries_def)
  next
    case 5 then show ?case using split [OF 5(1)] Cons.IH(5) by (auto simp: carries_def)
  next
    case 6 then show ?case using split [OF 6(1)] Cons.IH(6) by (fastforce simp: carries_def)
  next
    case 7
    from split [OF 7(2)] obtain c cs' e els' where c: "cs = c # cs'" "els = e # els'"
      "carries f (fd_name f) D R path c e" "members_carried fs D R path cs' els'" by blast
    have len: "length e \<le> k" "length (concat els') \<le> k" using 7(1) c(2) by simp_all
    from c(3) len(1) obtain n' where "parseNode k (e @ concat els' @ rest) D R path' = Inr (n', concat els' @ rest)"
      "alike c n'" "sn_name n' = fd_name f" "sn_field n' = stored_field (fd_name f) f"
      unfolding carries_def parsed_as_def by blast
    with Cons.IH(7) [OF len(2) c(4)] 7(3) c(1,2) show ?case by auto
  }
qed

lemma members_nodes:
  "members_carried fs D R path cs els \<Longrightarrow> n \<in> set cs \<Longrightarrow> \<exists>f es. carries f (fd_name f) D R path n es"
proof (induction fs arbitrary: cs els)
  case (Cons f fs)
  then obtain c cs' e els' where "cs = c # cs'" "carries f (fd_name f) D R path c e" "members_carried fs D R path cs' els'"
    by (cases cs; cases els) (auto simp: members_carried_def)
  with Cons show ?case by auto
qed (simp add: members_carried_def)

lemma members_exist:
  assumes "\<And>f. f \<in> set fs \<Longrightarrow> \<exists>node els. carries f (fd_name f) D R path node els"
  shows "\<exists>cs els. members_carried fs D R path cs els"
  using assms
proof (induction fs)
  case (Cons f fs)
  then obtain cs els where "members_carried fs D R path cs els" by (metis list.set_intros(2))
  moreover obtain c e where "carries f (fd_name f) D R path c e" using Cons.prems [of f] by auto
  ultimately have "members_carried (f # fs) D R path (c # cs) (e # els)" by (simp add: members_carried_def)
  then show ?case by blast
next
  case Nil
  have "members_carried [] D R path [] []" by (simp add: members_carried_def)
  then show ?case by blast
qed

lemma group_element_facts [simp]:
  "element_nullable (group_element name (if nl then OPTIONAL else REQUIRED) n a) = nl"
  "el_numChildren (group_element name r n a) = Some n" "el_name (group_element name r n a) = name"
  "is_list_group (group_element name r n None) = False" "is_map_group (group_element name r n None) = False"
  "is_list_group (group_element name r n (Some (CT_LIST, logical_kind ''list'')))"
  "is_list_group (group_element name r n (Some (CT_MAP, logical_kind ''map''))) = False"
  "is_map_group (group_element name r n (Some (CT_MAP, logical_kind ''map'')))"
  by (simp_all add: group_element_def element_nullable_def is_list_group_def is_map_group_def has_kind_def logical_kind_def)

lemma group_element_valid:
  assumes "stored_text name" "r \<in> {OPTIONAL, REQUIRED, REPEATED}" "0 \<le> n" "n < 2 ^ 31"
    "a = None \<or> a = Some (CT_LIST, logical_kind ''list'') \<or> a = Some (CT_MAP, logical_kind ''map'')"
  shows "valid_SchemaElement (group_element name r n a)"
  using assms by (auto simp: group_element_def valid_SchemaElement_def valid_LogicalType_def logical_kind_def opt_def int_range_def)

lemma segments_stored:
  "stored_text list_segment" "stored_text element_segment" "stored_text key_value_segment" "stored_text key_name" "stored_text value_name"
  unfolding key_name_def value_name_def by (rule stored_text_ascii; simp)+

lemma leaf_element_valid:
  assumes "leaf_type type" "arrowTypeToParquet type = Inr info" "stored_text name"
  shows "valid_SchemaElement (leaf_element name info nullable)"
proof -
  have "\<exists>info. arrowTypeToParquet type = Inr info \<and> ti_physicalType info < 8 \<and> opt (int_range 32) (ti_typeLength info) \<and>
      opt (int_range 32) (ti_convertedType info) \<and> opt (int_range 32) (ti_scale info) \<and> opt (int_range 32) (ti_precision info) \<and>
      opt valid_LogicalType (ti_logicalType info)"
    using assms(1)
    by (cases type) (auto simp: type_info_def ptype_defs opt_def int_range_def valid_LogicalType_def logical_kind_def
        decimal_logical_def time_logical_def intConverted_def valid_TimeUnit_def Let_def)
  then show ?thesis using assms(2,3) by (auto simp: valid_SchemaElement_def leaf_element_def opt_def int_range_def)
qed

lemma leaf_carries:
  assumes "leaf_type type" "stored_text name'" "list_child type = None" "\<not> isNested type"
  shows "\<exists>node els. carries (Field name type nullable metadata) name' D R path node els"
proof -
  let ?f = "Field name type nullable metadata"
  obtain info d e where i: "arrowTypeToParquet type = Inr info"
    "parquetLeafToArrow (leaf_element name' info nullable) = Inr (stored_type type, d, e)"
    "\<And>v. leaf_value type v \<Longrightarrow> \<exists>p. convert (ti_encode info) v = Inr p \<and>
       convert d (store_value (ti_physicalType info) (ti_typeLength info) p) = Inr v"
    using leaf_codec [OF assms(1), of name' nullable] by (auto simp: codec_of_def)
  let ?d = "\<lparr>ds_name = name, ds_path = path @ [name], ds_physicalType = ti_physicalType info,
          ds_typeLength = ti_typeLength info, ds_maxDefinitionLevel = D + (if nullable then 1 else 0), ds_maxRepetitionLevel = R,
          ds_arrowField = ?f, ds_decode = ti_decode info, ds_encode = ti_encode info\<rparr>"
  let ?node = "SLeaf name nullable ?f (D + (if nullable then 1 else 0)) R ?d"
  have "buildNode ?f D R path = leaf_node ?f D R path"
    using assms(3,4) by (cases type) (simp_all add: buildNode.simps isNested_def Let_def)
  then have b: "buildNode ?f D R path = Inr ?node" by (simp add: leaf_node_def i(1))
  have e: "emitElement name' nullable ?node = Inr [leaf_element name' info nullable]"
    by (simp add: emitElement.simps i(1))
  have s: "stored_field name' ?f = Field name' (stored_type type) nullable None"
    using assms(3,4) by (cases type) (simp_all add: stored_field.simps isNested_def)
  have p: "parsed_as [leaf_element name' info nullable] D R ?node name' ?f"
    unfolding parsed_as_def
  proof (intro allI impI)
    fix k rest path' assume "length [leaf_element name' info nullable] \<le> k"
    then obtain k' where k: "k = Suc k'" by (cases k) auto
    let ?el = "leaf_element name' info nullable"
    have el: "el_name ?el = name'" "el_numChildren ?el = None" "element_nullable ?el = nullable"
      "el_type ?el = Some (int (ti_physicalType info))" "el_typeLength ?el = ti_typeLength info"
      by (simp_all add: leaf_element_def element_nullable_def)
    let ?d' = "\<lparr>ds_name = name', ds_path = path' @ [name'], ds_physicalType = ti_physicalType info,
          ds_typeLength = ti_typeLength info, ds_maxDefinitionLevel = D + (if nullable then 1 else 0), ds_maxRepetitionLevel = R,
          ds_arrowField = stored_field name' ?f, ds_decode = d, ds_encode = e\<rparr>"
    let ?node' = "SLeaf name' nullable (stored_field name' ?f) (D + (if nullable then 1 else 0)) R ?d'"
    have "parseNode k ([?el] @ rest) D R path' = Inr (?node', rest)"
      by (simp add: k parseNode.simps parse_leaf_def el i(2) s Let_def)
    moreover have "alike ?node ?node'" by (rule alike.leaf) (simp add: same_leaf_def i(3))
    ultimately show "\<exists>node'. parseNode k ([?el] @ rest) D R path' = Inr (node', rest) \<and> alike ?node node' \<and> sn_name node' = name' \<and>
       sn_field node' = stored_field name' ?f" by (intro exI [of _ ?node']) simp
  qed
  show ?thesis using b e p leaf_element_valid [OF assms(1) i(1) assms(2)]
    unfolding carries_def by (intro exI [of _ ?node] exI [of _ "[leaf_element name' info nullable]"]) (simp add: Let_def)
qed

lemma struct_carries:
  assumes fs: "members_carried fs (D + of_bool nullable) R (path @ [name]) cs els" "list_all (\<lambda>f. stored_text (fd_name f)) fs"
    and ok: "fs \<noteq> []" "length fs < 2 ^ 31" "distinct (map fd_name fs)" and name: "stored_text name'"
  shows "\<exists>node els. carries (Field name (StructType fs) nullable metadata) name' D R path node els"
proof -
  let ?f = "Field name (StructType fs) nullable metadata" and ?D = "D + of_bool nullable"
  let ?node = "SStruct name nullable ?f ?D R cs"
  let ?g = "group_element name' (if nullable then OPTIONAL else REQUIRED) (int (length cs)) None"
  note m = membersD [OF fs]
  have len: "length cs = length fs" using fs(1) by (simp add: members_carried_def)
  then have ne: "cs \<noteq> []" using ok(1) by auto
  have D: "D + (if nullable then 1 else 0) = ?D" by simp
  have b: "buildNode ?f D R path = Inr ?node" using m(1) by (simp add: buildNode.simps list_child_def D Let_def del: of_bool_eq_iff)
  have e: "emitElement name' nullable ?node = Inr (?g # concat els)" using m(2) by (simp add: emitElement.simps Let_def)
  have p: "parsed_as (?g # concat els) D R ?node name' ?f"
    unfolding parsed_as_def
  proof (intro allI impI)
    fix k rest path' assume "length (?g # concat els) \<le> k"
    then obtain k' where k: "k = Suc k'" "length (concat els) \<le> k'" by (cases k) auto
    from m(7) [OF k(2), of "path' @ [name']" rest] obtain cs' where cs':
      "parse_loop (\<lambda>els. parseNode k' els ?D R (path' @ [name'])) (length fs) (concat els @ rest) = Inr (cs', rest)"
      "list_all2 alike cs cs'" "map sn_name cs' = map fd_name fs" "map sn_field cs' = map (\<lambda>g. stored_field (fd_name g) g) fs" by blast
    from cs'(2-4) m(3) have "alike ?node (SStruct name' nullable (stored_field name' ?f) ?D R cs')" by (intro alike.struct) simp_all
    then show "\<exists>node'. parseNode k ((?g # concat els) @ rest) D R path' = Inr (node', rest) \<and> alike ?node node' \<and>
        sn_name node' = name' \<and> sn_field node' = stored_field name' ?f"
      using cs'(1,4) ok(1) len by (simp add: k(1) parseNode.simps D Let_def stored_field.simps list_child_def)
  qed
  have "valid_SchemaElement ?g" using group_element_valid [OF name, of _ "int (length cs)" None] ok(2) len by simp
  moreover have "node_ok R D (shape leaf_encode i ?node)" for i
    using m(3) m(6) [of i] ok(3) ne by simp
  ultimately show ?thesis using b e p m(5) unfolding carries_def
    by (intro exI [of _ ?node] exI [of _ "?g # concat els"]) simp
qed

lemma list_carries:
  assumes c: "carries c element_segment (D + of_bool nullable + 1) (R + 1) (path @ [name, list_segment]) n es"
    and lc: "list_child type = Some c" and name: "stored_text name'"
  shows "\<exists>node els. carries (Field name type nullable metadata) name' D R path node els"
proof -
  let ?f = "Field name type nullable metadata" and ?D = "D + of_bool nullable"
  let ?node = "SList name nullable ?f ?D (R + 1) n"
  let ?g = "group_element name' (if nullable then OPTIONAL else REQUIRED) 1 (Some (CT_LIST, logical_kind ''list''))"
  let ?r = "group_element list_segment REPEATED 1 None"
  have D: "D + (if nullable then 1 else 0) = ?D" by simp
  have b: "buildNode ?f D R path = Inr ?node" using c lc by (simp add: carries_def buildNode.simps D Let_def)
  have e: "emitElement name' nullable ?node = Inr (?g # ?r # es)" using c by (simp add: carries_def emitElement.simps [of name' nullable] Let_def)
  have s: "stored_field name' ?f = Field name' (ListType (stored_field element_segment c)) nullable None"
    using lc by (simp add: stored_field.simps)
  have p: "parsed_as (?g # ?r # es) D R ?node name' ?f"
    unfolding parsed_as_def
  proof (intro allI impI)
    fix k rest path' assume "length (?g # ?r # es) \<le> k"
    then obtain k' where k: "k = Suc k'" "length es \<le> k'" by (cases k) auto
    from c k(2) obtain n' where n': "parseNode k' (es @ rest) (?D + 1) (R + 1) (path' @ [name', list_segment]) = Inr (n', rest)"
      "alike n n'" "sn_field n' = stored_field element_segment c"
      unfolding carries_def parsed_as_def by blast
    have "alike ?node (SList name' nullable (stored_field name' ?f) ?D (R + 1) n')" by (rule alike.list [OF n'(2)])
    then show "\<exists>node'. parseNode k ((?g # ?r # es) @ rest) D R path' = Inr (node', rest) \<and> alike ?node node' \<and>
        sn_name node' = name' \<and> sn_field node' = stored_field name' ?f"
      using n'(1,3) by (simp add: k(1) parseNode.simps D Let_def s)
  qed
  have "valid_SchemaElement ?g" "valid_SchemaElement ?r"
    using group_element_valid [OF name] group_element_valid [OF segments_stored(1)] by simp_all
  moreover have "node_ok R D (shape leaf_encode i ?node)" for i using c by (simp add: carries_def)
  ultimately show ?thesis using b e p c segments_stored(2) unfolding carries_def
    by (intro exI [of _ ?node] exI [of _ "?g # ?r # es"]) simp
qed

lemma map_carries:
  assumes fs: "members_carried [k, v] (D + of_bool nullable + 1) (R + 1) (path @ [name, key_value_segment, nm]) cs els"
    and names: "fd_name k = key_name" "fd_name v = value_name" "\<not> fd_nullable k" and name: "stored_text name'"
  shows "\<exists>node els. carries (Field name (MapType ks (Field nm (StructType [k, v]) False md)) nullable metadata) name' D R path node els"
proof -
  let ?c = "Field nm (StructType [k, v]) False md"
  let ?f = "Field name (MapType ks ?c) nullable metadata" and ?D = "D + of_bool nullable"
  let ?g = "group_element name' (if nullable then OPTIONAL else REQUIRED) 1 (Some (CT_MAP, logical_kind ''map''))"
  let ?r = "group_element key_value_segment REPEATED 2 None"
  have "list_all (\<lambda>f. stored_text (fd_name f)) [k, v]" using names segments_stored by simp
  note m = membersD [OF fs this]
  obtain kn vn where cs: "cs = [kn, vn]" using m(3) by (auto simp: Cons_eq_map_conv)
  obtain ke ve where els: "els = [ke, ve]" using fs by (auto simp: members_carried_def length_Suc_conv numeral_2_eq_2)
  have e: "emitElement key_name False kn = Inr ke" "emitElement value_name (sn_nullable vn) vn = Inr ve"
    using m(2) fs names by (auto simp: members_carried_def cs els carries_def)
  let ?entries = "SStruct nm False ?c (?D + 1) (R + 1) cs"
  let ?node = "SMap name nullable ?f ?D (R + 1) ?entries"
  have D: "D + (if nullable then 1 else 0) = ?D" by simp
  have "buildNode ?c (?D + 1) (R + 1) (path @ [name, key_value_segment]) = Inr ?entries"
    using m(1) by (simp add: buildNode.simps list_child_def Let_def)
  then have b: "buildNode ?f D R path = Inr ?node" by (simp add: buildNode.simps [of name] list_child_def D Let_def)
  have em: "emitElement name' nullable ?node = Inr (?g # ?r # ke @ ve)"
    using e by (simp add: emitElement.simps [of name'] cs Let_def)
  have s: "stored_field name' ?f = Field name' (MapType False (Field entries_segment
      (StructType (map (\<lambda>g. stored_field (fd_name g) g) [k, v])) False None)) nullable None"
    by (simp add: stored_field.simps [of name'] list_child_def struct_fields_def)
  have p: "parsed_as (?g # ?r # ke @ ve) D R ?node name' ?f"
    unfolding parsed_as_def
  proof (intro allI impI)
    fix j rest path' assume "length (?g # ?r # ke @ ve) \<le> j"
    then obtain j' where j: "j = Suc j'" "length (concat els) \<le> j'" by (cases j) (auto simp: els)
    from m(7) [OF j(2), of "path' @ [name', key_value_segment]" rest] obtain cs' where cs':
      "parse_loop (\<lambda>els. parseNode j' els (?D + 1) (R + 1) (path' @ [name', key_value_segment])) 2 (ke @ ve @ rest) = Inr (cs', rest)"
      "list_all2 alike cs cs'" "map sn_name cs' = map fd_name [k, v]" "map sn_field cs' = map (\<lambda>g. stored_field (fd_name g) g) [k, v]"
      by (auto simp: els numeral_2_eq_2)
    let ?ef = "Field entries_segment (StructType (map sn_field cs')) False None"
    have "alike ?node (SMap name' nullable (stored_field name' ?f) ?D (R + 1) (SStruct entries_segment False ?ef (?D + 1) (R + 1) cs'))"
      using cs'(2,3) m(3) by (intro alike.map alike.struct) simp_all
    then show "\<exists>node'. parseNode j ((?g # ?r # ke @ ve) @ rest) D R path' = Inr (node', rest) \<and> alike ?node node' \<and>
        sn_name node' = name' \<and> sn_field node' = stored_field name' ?f"
      using cs'(1,4) by (simp add: j(1) parseNode.simps D Let_def s)
  qed
  have "valid_SchemaElement ?g" "valid_SchemaElement ?r"
    using group_element_valid [OF name] group_element_valid [OF segments_stored(3)] by simp_all
  moreover have "node_ok R D (shape leaf_encode i ?node)" for i
  proof -
    have "\<forall>n \<in> set (shapes leaf_encode i cs). node_ok (R + 1) (?D + 1) n" by (rule m(6))
    moreover have "map nd_name (shapes leaf_encode i cs) = [key_name, value_name]" using m(3) names by simp
    moreover have "key_name \<noteq> value_name" by (simp add: key_name_def value_name_def)
    ultimately show ?thesis by (auto simp: cs simp flip: set_map)
  qed
  ultimately show ?thesis using b em p m(5) unfolding carries_def
    by (intro exI [of _ ?node] exI [of _ "?g # ?r # ke @ ve"]) (simp add: els)
qed

lemma field_carries:
  "field_ok f \<Longrightarrow> stored_text name' \<Longrightarrow> \<exists>node els. carries f name' D R path node els"
proof (induction f arbitrary: name' D R path rule: measure_induct_rule [where f = size])
  case (less f)
  obtain name type nullable metadata where f: "f = Field name type nullable metadata" by (cases f)
  have members: "\<exists>cs els. members_carried fs D R path cs els"
    if "\<And>g. g \<in> set fs \<Longrightarrow> size g < size f" "list_all field_ok fs" for fs D R path
  proof (rule members_exist)
    fix g assume "g \<in> set fs"
    moreover from this have "field_ok g" using that(2) by (simp add: list_all_iff)
    moreover from this have "stored_text (fd_name g)" by (cases g) simp
    ultimately show "\<exists>node els. carries g (fd_name g) D R path node els" using less.IH that(1) by blast
  qed
  have texts: "list_all (\<lambda>f. stored_text (fd_name f)) fs" if "list_all field_ok fs" for fs
    using that by (auto simp: list_all_iff) (metis field.collapse field_ok.simps)
  show ?case
  proof (cases "list_child type")
    case (Some c)
    then have "field_ok c" "size c < size f" using less.prems(1) list_child_size [OF Some] by (simp_all add: f)
    from less.IH [OF this(2,1) segments_stored(2)] show ?thesis
      unfolding f using list_carries [OF _ Some less.prems(2)] by blast
  next
    case None
    consider (struct) fs where "type = StructType fs" | (map) ks c where "type = MapType ks c" | (leaf) "\<not> isNested type"
      using None by (cases type) (auto simp: list_child_def isNested_def)
    then show ?thesis
    proof cases
      case struct
      then have ok: "fs \<noteq> []" "length fs < 2 ^ 31" "distinct (map fd_name fs)" "list_all field_ok fs"
        using less.prems(1) None by (simp_all add: f)
      have "size g < size f" if "g \<in> set fs" for g
        using struct_fields_size [of g f] that by (simp add: f struct struct_fields_def)
      from members [OF this ok(4)] show ?thesis
        unfolding f struct using struct_carries [OF _ texts [OF ok(4)] ok(1-3) less.prems(2)] by blast
    next
      case map
      have c: "\<not> fd_nullable c" "map fd_name (struct_fields c) = [key_name, value_name]"
        "\<not> fd_nullable (hd (struct_fields c))" "list_all field_ok (struct_fields c)"
        using less.prems(1) None by (simp_all add: f map)
      from c(2) obtain k v where kv: "struct_fields c = [k, v]" by (auto simp: map_eq_Cons_conv)
      then obtain nm md where "c = Field nm (StructType [k, v]) False md"
        using c(1) by (cases c) (auto simp: struct_fields_def split: data_type.splits)
      moreover have small: "size g < size f" if "g \<in> set [k, v]" for g
        using struct_fields_size [of g c] that kv by (simp add: f map)
      have "\<exists>cs els. members_carried [k, v] D R path cs els" for D R path
        by (rule members [OF small]) (use c(4) kv in simp_all)
      ultimately show ?thesis
        using c(2,3) kv map_carries [OF _ _ _ _ less.prems(2), of k v] unfolding f map by fastforce
    next
      case leaf
      then have "leaf_type type" using less.prems(1) None by (cases type) (simp_all add: f isNested_def)
      from leaf_carries [OF this less.prems(2) None leaf] show ?thesis unfolding f .
    qed
  qed
qed

lemma schema_carries:
  assumes "list_all field_ok fs" "length fs < 2 ^ 31"
  obtains nodes els where "buildNodes fs = Inr nodes" "nodesToSchemaElements nodes = Inr els"
    "list_all valid_SchemaElement els" "map sn_name nodes = map fd_name fs" "map sn_field nodes = fs"
    "\<And>n i. n \<in> set nodes \<Longrightarrow> node_ok 0 0 (shape leaf_encode i n)"
    "\<And>k. length els \<le> k \<Longrightarrow> \<exists>nodes'. schemaElementsToNodes k els = Inr (map (\<lambda>f. stored_field (fd_name f) f) fs, nodes') \<and>
       list_all2 alike nodes nodes' \<and> map sn_name nodes' = map fd_name fs"
proof -
  have texts: "stored_text (fd_name f)" if "f \<in> set fs" for f
  proof -
    have "field_ok f" using that assms(1) by (simp add: list_all_iff)
    then show ?thesis by (cases f) simp
  qed
  have "\<exists>node els. carries f (fd_name f) 0 0 [] node els" if "f \<in> set fs" for f
    using that assms(1) texts field_carries [of f "fd_name f" 0 0 "[]"] by (auto simp: list_all_iff)
  from members_exist [OF this] obtain nodes els where m: "members_carried fs 0 0 [] nodes els" by blast
  have ts: "list_all (\<lambda>f. stored_text (fd_name f)) fs" using texts by (simp add: list_all_iff)
  note d = membersD [OF m ts]
  let ?els = "root_element (int (length nodes)) # concat els"
  have len: "length nodes = length fs" using m by (simp add: members_carried_def)
  have schema: "stored_text [115, 99, 104, 101, 109, 97]" by (rule stored_text_ascii) simp_all
  have root: "valid_SchemaElement (root_element (int (length nodes)))"
    using assms(2) len schema by (simp add: root_element_def valid_SchemaElement_def opt_def int_range_def)
  have parse: "\<exists>nodes'. schemaElementsToNodes k ?els = Inr (map (\<lambda>f. stored_field (fd_name f) f) fs, nodes') \<and>
       list_all2 alike nodes nodes' \<and> map sn_name nodes' = map fd_name fs" if "length ?els \<le> k" for k
    using d(7) [of k "[]" "[]"] that len by (auto simp: schemaElementsToNodes_def root_element_def)
  have ok: "node_ok 0 0 (shape leaf_encode i n)" if n: "n \<in> set nodes" for n i
    using members_nodes [OF m n] by (auto simp: carries_def)
  have build: "buildNodes fs = Inr nodes" "nodesToSchemaElements nodes = Inr ?els"
    using d(1,2) by (simp_all add: buildNodes_def nodesToSchemaElements_def)
  show ?thesis by (rule that [OF build _ d(3,4) ok parse]) (use d(5) root in simp_all)
qed

text \<open>C6: schemas. The footer elements written for a schema of fields that satisfy \<open>field_ok\<close>, nested to any depth, are
  parsed back to \<open>stored_field\<close> of each field: the same name, nullability and type, except that large and fixed-size lists
  come back as lists, list items under the name \<open>element\<close> and map entries under \<open>entries\<close>, maps with \<open>keysSorted\<close> false,
  time zones as UTC, and no field metadata. The parsed tree has the levels, the physical types and the converters of the
  tree the rows were shredded with. \<open>field_ok\<close> excludes what the writer cannot map, timestamps in seconds, structs
  without fields or with repeated names, maps whose entries or keys are nullable (their levels differ,
  \<open>nullable_map_key_level\<close>) or whose entries are not named \<open>key\<close> and \<open>value\<close>, and names that are not storable text.\<close>

theorem schema_roundtrip:
  assumes "list_all field_ok fs" "length fs < 2 ^ 31"
  shows "\<exists>nodes els. buildNodes fs = Inr nodes \<and> nodesToSchemaElements nodes = Inr els \<and>
    (\<exists>nodes'. schemaElementsToNodes (length els) els = Inr (map (\<lambda>f. stored_field (fd_name f) f) fs, nodes') \<and>
      list_all2 alike nodes nodes')"
proof (rule schema_carries [OF assms])
  fix nodes els
  assume b: "buildNodes fs = Inr nodes" "nodesToSchemaElements nodes = Inr els"
    and "\<And>k. length els \<le> k \<Longrightarrow> \<exists>nodes'. schemaElementsToNodes k els = Inr (map (\<lambda>f. stored_field (fd_name f) f) fs, nodes') \<and>
       list_all2 alike nodes nodes' \<and> map sn_name nodes' = map fd_name fs"
  from this(3) [OF order_refl] b show ?thesis by auto
qed

definition sample_fields :: "field list" where
  "sample_fields = [Field [105] (IntType 64 True) False None,
     Field [109] (MapType True (Field [101] (StructType
       [Field key_name Utf8Type False None, Field value_name (LargeListType (Field [120] (FloatType 0) True None)) True None])
       False None)) True None]"

theorem schema_roundtrip_witness:
  "\<exists>nodes els. buildNodes sample_fields = Inr nodes \<and> nodesToSchemaElements nodes = Inr els \<and>
    (\<exists>nodes'. schemaElementsToNodes (length els) els = Inr
       ([Field [105] (IntType 64 True) False None,
         Field [109] (MapType False (Field [101, 110, 116, 114, 105, 101, 115] (StructType
           [Field key_name Utf8Type False None,
            Field value_name (ListType (Field [101, 108, 101, 109, 101, 110, 116] (FloatType 0) True None)) True None])
           False None)) True None], nodes') \<and>
      list_all2 alike nodes nodes')"
proof -
  have "list_all field_ok sample_fields"
    using segments_stored by (simp add: sample_fields_def list_child_def struct_fields_def stored_text_ascii)
  from schema_roundtrip [OF this] show ?thesis
    by (simp add: sample_fields_def stored_field.simps list_child_def struct_fields_def)
qed

text \<open>Schema parsing ends. With a fuel above the number of elements, the depth bound is never reached,
  whatever the elements are.\<close>

theorem schema_parse_terminates:
  "schemaElementsToNodes (Suc (length els)) els \<noteq> Inl OutOfFuel"
proof (cases els)
  case (Cons r rest)
  have "parse_loop (\<lambda>els. parseNode (Suc (length els')) els 0 0 []) c rest \<noteq> Inl OutOfFuel" if "els' = els" for c els'
    using parse_loop_total [of "length rest" "\<lambda>els. parseNode (Suc (length els')) els 0 0 []" rest c]
      parse_total [of _ "Suc (length els')" 0 0 "[]"] that Cons by auto
  then show ?thesis by (auto simp: Cons schemaElementsToNodes_def bindR_eq_Inl)
qed (simp add: schemaElementsToNodes_def)

text \<open>A nullable map key is shredded one definition level deeper than its element in the footer says.\<close>

theorem nullable_map_key_level:
  assumes "arrowTypeToParquet type = Inr info" "\<not> isNested type"
  shows "\<exists>kn vn. buildNode (Field name (MapType ks (Field nm (StructType
      [Field key_name type True None, Field value_name BoolType False None]) False None)) False None) 0 0 [] =
      Inr (SMap name False (Field name (MapType ks (Field nm (StructType
        [Field key_name type True None, Field value_name BoolType False None]) False None)) False None) 0 1
        (SStruct nm False (Field nm (StructType [Field key_name type True None, Field value_name BoolType False None]) False None) 1 1 [kn, vn])) \<and>
    map ds_maxDefinitionLevel (leaf_descriptors kn) = [2] \<and>
    emitElement key_name False kn = Inr [leaf_element key_name info False]"
proof -
  have "list_child type = None" using assms(2) by (cases type) (simp_all add: isNested_def list_child_def)
  moreover have "buildNode (Field key_name type True None) D R path = leaf_node (Field key_name type True None) D R path" for D R path
    using assms(2) calculation by (cases type) (simp_all add: buildNode.simps isNested_def Let_def)
  ultimately show ?thesis using assms(1)
    by (simp add: buildNode.simps [of name] buildNode.simps [of nm] buildNode.simps [of value_name] list_child_def leaf_node_def
        Let_def emitElement.simps)
qed

text \<open>The path in a leaf's column metadata ends in the name of the Arrow child, its schema element is called
  \<open>element\<close>.\<close>

theorem list_path_names_child:
  assumes "arrowTypeToParquet type = Inr info" "\<not> isNested type"
  shows "\<exists>node els. buildNode (Field name (ListType (Field item type nl md)) nullable metadata) 0 0 [] = Inr node \<and>
    map ds_path (leaf_descriptors node) = [[name, list_segment, item]] \<and>
    emitElement name nullable node = Inr els \<and> map el_name els = [name, list_segment, element_segment]"
proof -
  have l: "list_child type = None" using assms(2) by (cases type) (simp_all add: isNested_def list_child_def)
  have "buildNode (Field item type nl md) D R path = leaf_node (Field item type nl md) D R path" for D R path
    using assms(2) l by (cases type) (simp_all add: buildNode.simps isNested_def Let_def)
  then show ?thesis using assms(1)
    by (simp add: buildNode.simps [of name] list_child_def leaf_node_def Let_def emitElement.simps group_element_def leaf_element_def)
qed

end
