(* ===== verification/Parquet_File.thy ===== *)
theory Parquet_File
  imports Arrow_Table Parquet_Columns Parquet_Schema
begin

text \<open>
  Whole files: \<open>writeParquet\<close> of \<open>data/parquet/writer.ts\<close>, and \<open>parseFile\<close> and \<open>readParquet\<close> of
  \<open>data/parquet/reader.ts\<close> with \<open>buildNested\<close> of \<open>data/parquet/nested.ts\<close>, over Arrow tables.

  The values of a leaf are of the kind of its physical type, other values being outside the model. One fuel bounds the
  loops of the reader.
\<close>

subsection \<open>Writing\<close>

definition MAGIC :: "byte list" where "MAGIC = [80, 65, 82, 49]"

record ParquetWriteOptions =
  wo_compression :: "string option"
  wo_dictionary :: "bool option"
  wo_encoding :: "string option"
  wo_pageVersion :: "nat option"

definition CODEC_BY_NAME :: "string \<Rightarrow> int option" where
  "CODEC_BY_NAME name =
     (if name = ''uncompressed'' then Some UNCOMPRESSED else if name = ''snappy'' then Some SNAPPY
      else if name = ''gzip'' then Some GZIP else if name = ''zstd'' then Some ZSTD
      else if name = ''brotli'' then Some BROTLI else None)"

definition write_config_of :: "ParquetWriteOptions \<Rightarrow> write_config" where
  "write_config_of opts =
     \<lparr>wc_codec = the (nullish (CODEC_BY_NAME (the (nullish (wo_compression opts) (Some ''snappy'')))) (Some SNAPPY)),
      wc_useDictionary = the (nullish (wo_dictionary opts) (Some False)),
      wc_dataEncoding = the (nullish (wo_encoding opts) (Some ''plain'')),
      wc_pageVersion = the (nullish (wo_pageVersion opts) (Some 1))\<rparr>"

text \<open>The values of a leaf as a column of its physical type. Values of another kind are outside the model.\<close>

fun boolean_of :: "column_value \<Rightarrow> js_error + bool" where
  "boolean_of (VBoolean b) = Inr b" | "boolean_of v = Inl outside_model"

fun number_of :: "column_value \<Rightarrow> js_error + int" where
  "number_of (VNumber n) = Inr n" | "number_of v = Inl outside_model"

fun bigint_of :: "column_value \<Rightarrow> js_error + int" where
  "bigint_of (VBigInt n) = Inr n" | "bigint_of v = Inl outside_model"

fun float_of :: "column_value \<Rightarrow> js_error + u32" where
  "float_of (VFloat b) = Inr b" | "float_of v = Inl outside_model"

fun double_of :: "column_value \<Rightarrow> js_error + u64" where
  "double_of (VDouble b) = Inr b" | "double_of v = Inl outside_model"

fun binary_of :: "column_value \<Rightarrow> js_error + binary_value" where
  "binary_of (VBinary b) = Inr b" | "binary_of v = Inl outside_model"

definition typed_values :: "nat \<Rightarrow> column_value list \<Rightarrow> js_error + column_values" where
  "typed_values p vs =
     (if p = BOOLEAN then map_sum id Booleans (mapR boolean_of vs)
      else if p = INT32 then map_sum id Int32s (mapR number_of vs)
      else if p = INT64 then map_sum id Int64s (mapR bigint_of vs)
      else if p = FLOAT then map_sum id Floats (mapR float_of vs)
      else if p = DOUBLE then map_sum id Doubles (mapR double_of vs)
      else if p = BYTE_ARRAY then map_sum id ByteArrays (mapR binary_of vs)
      else if p = FIXED_LEN_BYTE_ARRAY then map_sum id FixedArrays (mapR binary_of vs)
      else Inl outside_model)"

definition column_of :: "descriptor \<Rightarrow> js_error + column_descriptor" where
  "column_of d =
     (if (case ds_typeLength d of None \<Rightarrow> False | Some n \<Rightarrow> n < 0) then Inl outside_model
      else Inr \<lparr>cd_path = ds_path d, cd_physicalType = ds_physicalType d, cd_typeLength = map_option nat (ds_typeLength d),
        cd_maxDefinitionLevel = ds_maxDefinitionLevel d, cd_maxRepetitionLevel = ds_maxRepetitionLevel d\<rparr>)"

text \<open>The streams of one top-level column, its batches appended leaf by leaf.\<close>

definition append_stream :: "'p stream \<Rightarrow> 'p stream \<Rightarrow> 'p stream" where
  "append_stream a b = \<lparr>st_values = st_values a @ st_values b, st_defs = st_defs a @ st_defs b, st_reps = st_reps a @ st_reps b\<rparr>"

definition empty_stream_of :: "'p stream" where
  "empty_stream_of = \<lparr>st_values = [], st_defs = [], st_reps = []\<rparr>"

definition column_streams :: "schema_node \<Rightarrow> js_data list list \<Rightarrow> (js_error + column_value) stream list" where
  "column_streams node batches =
     foldl (\<lambda>acc rows. map2 append_stream acc (shredColumn (shape leaf_encode 0 node) rows))
       (replicate (length (leaf_descriptors node)) empty_stream_of) batches"

definition leaf_stream_of :: "descriptor \<Rightarrow> (js_error + column_value) stream \<Rightarrow> js_error + leaf_stream" where
  "leaf_stream_of d s =
     bindR (mapR id (st_values s)) (\<lambda>ps.
     bindR (typed_values (ds_physicalType d) ps) (\<lambda>vs.
     bindR (column_of d) (\<lambda>cd.
       Inr \<lparr>ls_descriptor = cd, ls_values = vs, ls_defLevels = st_defs s, ls_repLevels = st_reps s\<rparr>)))"

definition column_rows :: "nat \<Rightarrow> RecordBatch \<Rightarrow> js_error + js_data list" where
  "column_rows columnIndex b =
     (if columnIndex < length (rb_columns b) then mapR (\<lambda>row. get (rb_columns b ! columnIndex) (int row)) [0..<rb_numRows b]
      else Inl UndefinedProperty)"

definition node_streams :: "Table \<Rightarrow> schema_node \<times> nat \<Rightarrow> js_error + leaf_stream list" where
  "node_streams t = (\<lambda>(node, columnIndex).
     bindR (mapR (column_rows columnIndex) (tb_batches t)) (\<lambda>rows.
       mapR (\<lambda>(d, s). leaf_stream_of d s) (zip (leaf_descriptors node) (column_streams node rows))))"

definition table_streams :: "schema_node list \<Rightarrow> Table \<Rightarrow> js_error + leaf_stream list" where
  "table_streams nodes t = bindR (mapR (node_streams t) (zip nodes [0..<length nodes])) (\<lambda>sss. Inr (concat sss))"

fun write_chunks :: "compressor \<Rightarrow> write_config \<Rightarrow> leaf_stream list \<Rightarrow> nat \<Rightarrow> js_error + byte list \<times> ColumnChunk list \<times> int" where
  "write_chunks lib config [] off = Inr ([], [], 0)"
| "write_chunks lib config (s # ss) off =
     bindR (writeLeafChunk lib config s off) (\<lambda>(bs, chunk, u).
     bindR (write_chunks lib config ss (off + length bs)) (\<lambda>(bs', chunks, total).
       Inr (bs @ bs', chunk # chunks, u + total)))"

definition file_metadata :: "SchemaElement list \<Rightarrow> ColumnChunk list \<Rightarrow> int \<Rightarrow> nat \<Rightarrow> FileMetaData" where
  "file_metadata els chunks totalUncompressed numRows =
     \<lparr>fm_version = 2, fm_schema = els, fm_numRows = int numRows,
      fm_rowGroups = [\<lparr>rg_columns = chunks, rg_totalByteSize = totalUncompressed, rg_numRows = int numRows,
        rg_fileOffset = None, rg_totalCompressedSize = None, rg_ordinal = None\<rparr>],
      fm_keyValueMetadata = None, fm_createdBy = Some [102, 105, 110, 111]\<rparr>"

definition writeParquet :: "compressor \<Rightarrow> ParquetWriteOptions \<Rightarrow> Table \<Rightarrow> js_error + byte list" where
  "writeParquet lib opts t =
     (let config = write_config_of opts in
      if \<not> isCodecSupported (wc_codec config) then Inl (ParquetError ''compression is not supported'')
      else
        bindR (buildNodes (tb_schema t)) (\<lambda>nodes.
        bindR (nodesToSchemaElements nodes) (\<lambda>els.
        bindR (table_streams nodes t) (\<lambda>streams.
        bindR (write_chunks lib config streams (length MAGIC)) (\<lambda>(body, chunks, total).
        bindR (writeFileMetaData (file_metadata els chunks total (tb_numRows t))) (\<lambda>footer.
          Inr (MAGIC @ body @ footer @ uint32_le (length footer) @ MAGIC)))))))"

subsection \<open>Reading\<close>

definition checkMagic :: "byte list \<Rightarrow> js_error + unit" where
  "checkMagic bytes =
     (if length bytes < 12 then Inl (ParquetError ''not a Parquet file (too short)'')
      else if take 4 bytes \<noteq> MAGIC \<or> drop (length bytes - 4) bytes \<noteq> MAGIC
      then Inl (ParquetError ''not a Parquet file (missing PAR1 magic)'') else Inr ())"

record parsed_file =
  pf_bytes :: "byte list"
  pf_meta :: FileMetaData
  pf_schema :: "field list"
  pf_nodes :: "schema_node list"

definition parseFile :: "nat \<Rightarrow> byte list \<Rightarrow> js_error + parsed_file" where
  "parseFile n bytes =
     bindR (checkMagic bytes) (\<lambda>_.
     bindR (get_le 4 bytes (length bytes - 8)) (\<lambda>footerLen.
       let footerStart = int (length bytes) - 8 - int footerLen in
       if footerStart < 4 then Inl (ParquetError ''corrupt Parquet footer length'')
       else
         bindR (readFileMetaData n (subarray bytes footerStart (int (length bytes) - 8))) (\<lambda>m.
         bindR (schemaElementsToNodes n (fm_schema m)) (\<lambda>(schema, nodes).
           Inr \<lparr>pf_bytes = bytes, pf_meta = m, pf_schema = schema, pf_nodes = nodes\<rparr>))))"

text \<open>An assembled value, with a missing dictionary entry as \<open>undefined\<close>.\<close>

fun plain_value :: "column_value option js_value \<Rightarrow> js_data" where
  "plain_value Undefined = Undefined"
| "plain_value Null = Null"
| "plain_value (Prim x) = (case x of None \<Rightarrow> Undefined | Some y \<Rightarrow> Prim y)"
| "plain_value (Obj ps) = Obj (map (\<lambda>(k, v). (k, plain_value v)) ps)"
| "plain_value (Arr xs) = Arr (map plain_value xs)"

definition decode_leaf :: "descriptor \<Rightarrow> js_data \<Rightarrow> js_error + js_data" where
  "decode_leaf d v = (if absent_value v then Inr Null
     else case v of Prim x \<Rightarrow> map_sum id Prim (convert (ds_decode d) x) | _ \<Rightarrow> Inl outside_model)"

definition validityOf :: "js_data list \<Rightarrow> js_error + byte list option \<times> nat" where
  "validityOf vals =
     (let nulls = length (filter absent_value vals) in
      if nulls = 0 then Inr (None, 0)
      else bindR (packed_booleans (map (\<lambda>v. \<not> absent_value v) vals)) (\<lambda>bits. Inr (Some bits, nulls)))"

fun buildNested :: "schema_node \<Rightarrow> js_data list \<Rightarrow> js_error + vector" where
  "buildNested (SLeaf n nl f dl rl d) vals = bindR (mapR (decode_leaf d) vals) (\<lambda>xs. vectorFromArray xs (fd_type f))"
| "buildNested (SStruct n nl f dl rl cs) vals =
     bindR (validityOf vals) (\<lambda>validity.
     bindR (mapR (\<lambda>c. buildNested c (map (\<lambda>v. if absent_value v then Null else property_or_null v (sn_name c)) vals)) cs)
       (built_with validity (fd_type f) vals None None))"
| "buildNested (SList n nl f dl rl c) vals =
     bindR (validityOf vals) (\<lambda>validity.
     bindR (buildNested c (concat (map array_items vals))) (\<lambda>child.
       built_with validity (fd_type f) vals None (Some (offsets_buffer False (map length (map array_items vals)))) [child]))"
| "buildNested (SMap n nl f dl rl c) vals =
     bindR (validityOf vals) (\<lambda>validity.
     bindR (mapR (\<lambda>v. mapR map_entry (array_items v)) vals) (\<lambda>entries.
     bindR (buildNested c (concat entries)) (\<lambda>child.
       built_with validity (fd_type f) vals None (Some (offsets_buffer False (map length entries))) [child])))"

definition stream_of_read :: "read_stream \<Rightarrow> column_value option stream" where
  "stream_of_read s = \<lparr>st_values = rs_values s, st_defs = rs_defLevels s, st_reps = rs_repLevels s\<rparr>"

definition assembleTree :: "nat \<Rightarrow> schema_node \<Rightarrow> read_stream list \<Rightarrow> nat \<Rightarrow> js_error + vector" where
  "assembleTree n node streams numRows =
     bindR (assembleRows n (shape (\<lambda>d v. None) 0 node :: (column_value, column_value option) node) (map stream_of_read streams) numRows) (\<lambda>rows.
       buildNested node (map plain_value rows))"

record ParquetReadOptions =
  ro_columns :: "text_string list option"
  ro_rowGroups :: "int list option"

definition nodeOffsets :: "schema_node list \<Rightarrow> nat list" where
  "nodeOffsets nodes = map (\<lambda>k. sum_list (map (\<lambda>n. length (leaf_descriptors n)) (take k nodes))) [0..<length nodes]"

definition selectedNodeIndices :: "ParquetReadOptions \<Rightarrow> schema_node list \<Rightarrow> js_error + nat list" where
  "selectedNodeIndices opts nodes = (case ro_columns opts of
     None \<Rightarrow> Inr [0..<length nodes]
   | Some names \<Rightarrow> mapR (\<lambda>name. case find_index (\<lambda>n. sn_name n = name) nodes of
       None \<Rightarrow> Inl (ParquetError ''unknown projected column'') | Some i \<Rightarrow> Inr i) names)"

definition selectedGroups :: "ParquetReadOptions \<Rightarrow> RowGroup list \<Rightarrow> js_error + RowGroup list" where
  "selectedGroups opts groups = (case ro_rowGroups opts of
     None \<Rightarrow> Inr groups
   | Some is \<Rightarrow> mapR (\<lambda>i. if i < 0 \<or> int (length groups) \<le> i then Inl (ParquetError ''row group index is out of range'')
       else Inr (groups ! nat i)) is)"

definition read_chunk :: "compressor \<Rightarrow> nat \<Rightarrow> byte list \<Rightarrow> RowGroup \<Rightarrow> descriptor \<times> nat \<Rightarrow> js_error + read_stream" where
  "read_chunk lib n bytes rowGroup = (\<lambda>(d, leafIndex). case cc_metaData (rg_columns rowGroup ! leafIndex) of
     None \<Rightarrow> Inl (ParquetError ''column chunk has no metadata'')
   | Some m \<Rightarrow> bindR (column_of d) (\<lambda>cd. readLeafStream lib n n bytes cd m))"

definition read_column :: "compressor \<Rightarrow> nat \<Rightarrow> parsed_file \<Rightarrow> RowGroup \<Rightarrow> nat \<Rightarrow> js_error + vector" where
  "read_column lib n file rowGroup nodeIndex =
     (let node = pf_nodes file ! nodeIndex; offset = nodeOffsets (pf_nodes file) ! nodeIndex;
          ds = leaf_descriptors node in
      bindR (mapR (read_chunk lib n (pf_bytes file) rowGroup) (zip ds [offset..<offset + length ds])) (\<lambda>streams.
        assembleTree n node streams (nat (number_of_bigint (rg_numRows rowGroup)))))"

definition read_group :: "compressor \<Rightarrow> nat \<Rightarrow> parsed_file \<Rightarrow> nat list \<Rightarrow> field list \<Rightarrow> RowGroup \<Rightarrow> js_error + RecordBatch" where
  "read_group lib n file is schema rowGroup =
     (if length (rg_columns rowGroup) \<noteq> sum_list (map (\<lambda>n. length (leaf_descriptors n)) (pf_nodes file))
      then Inl (ParquetError ''row group and schema differ in their leaf columns'')
      else bindR (mapR (read_column lib n file rowGroup) is) (newRecordBatch schema))"

definition empty_column :: "nat \<Rightarrow> schema_node \<Rightarrow> js_error + vector" where
  "empty_column n node =
     assembleTree n node (map (\<lambda>d. \<lparr>rs_values = [], rs_defLevels = [], rs_repLevels = []\<rparr>) (leaf_descriptors node)) 0"

definition readParquet :: "compressor \<Rightarrow> nat \<Rightarrow> byte list \<Rightarrow> ParquetReadOptions \<Rightarrow> js_error + Table" where
  "readParquet lib n input opts =
     bindR (parseFile n input) (\<lambda>file.
     bindR (selectedNodeIndices opts (pf_nodes file)) (\<lambda>is.
       if \<not> distinct is then Inl (ParquetError ''projected columns must be unique'')
       else
         let schema = map (\<lambda>i. sn_field (pf_nodes file ! i)) is in
         bindR (selectedGroups opts (fm_rowGroups (pf_meta file))) (\<lambda>groups.
         bindR (mapR (read_group lib n file is schema) groups) (\<lambda>batches.
           if batches = [] then
             bindR (mapR (\<lambda>i. empty_column n (pf_nodes file ! i)) is) (\<lambda>cs.
             bindR (newRecordBatch schema cs) (\<lambda>b. newTable schema [b]))
           else newTable schema batches))))"

subsection \<open>Parsed trees\<close>

text \<open>The fields of a parsed tree describe it.\<close>

fun typed_node :: "schema_node \<Rightarrow> bool" where
  "typed_node (SLeaf n nl f dl rl d) \<longleftrightarrow> fd_name f = n"
| "typed_node (SStruct n nl f dl rl cs) \<longleftrightarrow> fd_name f = n \<and> fd_type f = StructType (map sn_field cs) \<and> list_all typed_node cs"
| "typed_node (SList n nl f dl rl c) \<longleftrightarrow> fd_name f = n \<and> fd_type f = ListType (sn_field c) \<and> typed_node c"
| "typed_node (SMap n nl f dl rl c) \<longleftrightarrow> fd_name f = n \<and> fd_type f = MapType False (sn_field c) \<and> typed_node c"

lemma typed_name: "typed_node n \<Longrightarrow> fd_name (sn_field n) = sn_name n"
  by (cases n) simp_all

lemma parse_loop_all:
  assumes "\<And>els n rest. f els = Inr (n, rest) \<Longrightarrow> P n"
  shows "parse_loop f c els = Inr (ns, rest) \<Longrightarrow> list_all P ns"
proof (induction c arbitrary: els ns)
  case (Suc c)
  then show ?case using assms by (auto simp: bindR_eq_Inr)
qed simp

lemma parse_typed: "parseNode k els d r path = Inr (n, rest) \<Longrightarrow> typed_node n"
proof (induction k arbitrary: els d r path n rest)
  case (Suc k)
  have loop: "list_all typed_node cs" if "parse_loop (\<lambda>els. parseNode k els d r path) c es = Inr (cs, rest)" for d r path c es cs rest
    using that Suc.IH by (rule parse_loop_all [rotated])
  from Suc.prems obtain el es where els: "els = el # es" by (cases els) (simp_all add: parseNode.simps)
  show ?case
    using Suc.prems Suc.IH loop
    by (auto simp: els parseNode.simps Let_def bindR_eq_Inr parse_leaf_def split: if_splits list.splits prod.splits)
qed (simp add: parseNode.simps)

lemma parseFile_nodes:
  assumes "parseFile n bytes = Inr parsed"
  shows "list_all typed_node (pf_nodes parsed)" "pf_schema parsed = map sn_field (pf_nodes parsed)" "pf_bytes parsed = bytes"
proof -
  obtain m fs nodes where p: "schemaElementsToNodes n (fm_schema m) = Inr (fs, nodes)"
    "parsed = \<lparr>pf_bytes = bytes, pf_meta = m, pf_schema = fs, pf_nodes = nodes\<rparr>"
    using assms by (auto simp: parseFile_def bindR_eq_Inr Let_def split: if_splits prod.splits)
  from p(1) obtain c els rest where "parse_loop (\<lambda>els. parseNode n els 0 0 []) c els = Inr (nodes, rest)" "fs = map sn_field nodes"
    by (cases "fm_schema m") (auto simp: schemaElementsToNodes_def bindR_eq_Inr)
  then show "list_all typed_node (pf_nodes parsed)" "pf_schema parsed = map sn_field (pf_nodes parsed)" "pf_bytes parsed = bytes"
    using parse_loop_all [of "\<lambda>els. parseNode n els 0 0 []" typed_node] parse_typed p(2) by auto
qed

subsection \<open>Projection\<close>

lemma find_index_Some: "find_index P xs = Some i \<Longrightarrow> i < length xs \<and> P (xs ! i)"
  by (induction xs arbitrary: i) (auto split: if_splits)

lemma find_index_ex: "x \<in> set xs \<Longrightarrow> P x \<Longrightarrow> \<exists>i. find_index P xs = Some i"
  by (induction xs) auto

lemma find_index_map: "find_index P (map f xs) = find_index (\<lambda>x. P (f x)) xs"
  by (induction xs) auto

definition whole_file :: ParquetReadOptions where
  "whole_file = \<lparr>ro_columns = None, ro_rowGroups = None\<rparr>"

definition column_index :: "field list \<Rightarrow> text_string \<Rightarrow> nat" where
  "column_index schema name = the (find_index (\<lambda>f. fd_name f = name) schema)"

definition project_batch :: "nat list \<Rightarrow> RecordBatch \<Rightarrow> RecordBatch" where
  "project_batch is b = \<lparr>rb_schema = map (nth (rb_schema b)) is, rb_columns = map (nth (rb_columns b)) is,
     rb_numRows = (if is = [] then 0 else rb_numRows b)\<rparr>"

lemma batch_projects:
  assumes "newRecordBatch schema columns = Inr b" "list_all (\<lambda>i. i < length columns) is"
  shows "newRecordBatch (map (nth schema) is) (map (nth columns) is) = Inr (project_batch is b)"
proof -
  let ?rows = "case columns of [] \<Rightarrow> 0 | c # _ \<Rightarrow> vd_length c"
  have n: "length schema = length columns" "\<not> list_ex (\<lambda>c. vd_length c \<noteq> ?rows) columns"
    "b = \<lparr>rb_schema = schema, rb_columns = columns, rb_numRows = ?rows\<rparr>"
    using assms(1) by (simp_all add: newRecordBatch_def Let_def split: if_splits)
  have len: "vd_length (columns ! i) = ?rows" if "i \<in> set is" for i
    using n(2) that assms(2) by (auto simp: list_ex_iff list_all_iff)
  have "(case map (nth columns) is of [] \<Rightarrow> 0 | c # _ \<Rightarrow> vd_length c) = (if is = [] then 0 else ?rows)"
    using len by (cases "is") auto
  moreover have "\<not> list_ex (\<lambda>c. vd_length c \<noteq> (if is = [] then 0 else ?rows)) (map (nth columns) is)"
    using len by (auto simp: list_ex_iff)
  ultimately show ?thesis by (simp add: newRecordBatch_def project_batch_def n(3) Let_def)
qed

lemma mapR_select:
  assumes "mapR f [0..<m] = Inr ys" "list_all (\<lambda>i. i < m) is"
  shows "mapR f is = Inr (map (nth ys) is)"
  using assms by (auto simp: mapR_nth list_all_length)

lemma whole_read:
  assumes "readParquet lib n bytes whole_file = Inr t" "parseFile n bytes = Inr parsed"
  obtains batches where
    "mapR (read_group lib n parsed [0..<length (pf_nodes parsed)] (map sn_field (pf_nodes parsed))) (fm_rowGroups (pf_meta parsed)) = Inr batches"
    "(if batches = [] then bindR (mapR (\<lambda>i. empty_column n (pf_nodes parsed ! i)) [0..<length (pf_nodes parsed)]) (\<lambda>cs.
        bindR (newRecordBatch (map sn_field (pf_nodes parsed)) cs) (\<lambda>b. newTable (map sn_field (pf_nodes parsed)) [b]))
      else newTable (map sn_field (pf_nodes parsed)) batches) = Inr t"
proof -
  have "map (\<lambda>i. sn_field (pf_nodes parsed ! i)) [0..<length (pf_nodes parsed)] = map sn_field (pf_nodes parsed)" by (rule nth_equalityI) simp_all
  then show ?thesis using assms that
    by (auto simp: readParquet_def whole_file_def selectedNodeIndices_def selectedGroups_def bindR_eq_Inr Let_def cong: if_cong)
qed

lemma schema_read:
  assumes "readParquet lib n bytes whole_file = Inr t" "parseFile n bytes = Inr parsed"
  shows "tb_schema t = map sn_field (pf_nodes parsed)"
  by (rule whole_read [OF assms]) (auto simp: newTable_def bindR_eq_Inr split: if_splits)

lemma projected:
  assumes full: "readParquet lib n bytes whole_file = Inr t"
    and names: "distinct names" "set names \<subseteq> fd_name ` set (tb_schema t)"
  shows "readParquet lib n bytes (whole_file\<lparr>ro_columns := Some names\<rparr>) =
    (let is = map (column_index (tb_schema t)) names in newTable (map (nth (tb_schema t)) is) (map (project_batch is) (tb_batches t)))"
proof -
  obtain parsed where parsed: "parseFile n bytes = Inr parsed" using full by (auto simp: readParquet_def bindR_eq_Inr)
  let ?nodes = "pf_nodes parsed" and ?groups = "fm_rowGroups (pf_meta parsed)"
  let ?m = "length ?nodes" and ?schema = "map sn_field ?nodes"
  note typed = parseFile_nodes(1) [OF parsed]
  obtain batches where b: "mapR (read_group lib n parsed [0..<?m] ?schema) ?groups = Inr batches"
    and rest: "(if batches = [] then
             bindR (mapR (\<lambda>i. empty_column n (?nodes ! i)) [0..<?m]) (\<lambda>cs. bindR (newRecordBatch ?schema cs) (\<lambda>b. newTable ?schema [b]))
           else newTable ?schema batches) = Inr t"
    by (rule whole_read [OF full parsed])
  note t = schema_read [OF full parsed]
  define "is" where "is = map (column_index (tb_schema t)) names"
  have found: "\<exists>i. find_index (\<lambda>n. sn_name n = name) ?nodes = Some i \<and> i = column_index (tb_schema t) name \<and> i < ?m \<and> sn_name (?nodes ! i) = name"
    if "name \<in> set names" for name
  proof -
    have "find_index (\<lambda>f. fd_name f = name) ?schema = find_index (\<lambda>n. sn_name n = name) ?nodes"
    proof -
      have "find_index (\<lambda>n. fd_name (sn_field n) = name) ns = find_index (\<lambda>n. sn_name n = name) ns" if "list_all typed_node ns" for ns
        using that typed_name by (induction ns) auto
      then show ?thesis using typed by (simp add: find_index_map)
    qed
    moreover obtain i where "find_index (\<lambda>f. fd_name f = name) ?schema = Some i"
    proof -
      obtain f where "f \<in> set ?schema" "fd_name f = name" using names(2) \<open>name \<in> set names\<close> unfolding t by blast
      then show ?thesis using find_index_ex [of f ?schema "\<lambda>f. fd_name f = name"] that by blast
    qed
    ultimately have "find_index (\<lambda>n. sn_name n = name) ?nodes = Some i" "i = column_index (tb_schema t) name"
      unfolding column_index_def t by (simp, metis option.sel)
    then show ?thesis using find_index_Some [of "\<lambda>n. sn_name n = name" ?nodes i] by simp
  qed
  have sel: "selectedNodeIndices (whole_file\<lparr>ro_columns := Some names\<rparr>) ?nodes = Inr is"
    using found by (auto simp: selectedNodeIndices_def is_def intro!: mapR_Inr)
  have range: "list_all (\<lambda>i. i < ?m) is" using found by (auto simp: is_def list_all_iff)
  have "inj_on (column_index (tb_schema t)) (set names)"
  proof (rule inj_onI)
    fix a b assume "a \<in> set names" "b \<in> set names" "column_index (tb_schema t) a = column_index (tb_schema t) b"
    with found [of a] found [of b] show "a = b" by auto
  qed
  then have dist: "distinct is" using names(1) by (simp add: is_def distinct_map)
  have schema: "map (\<lambda>i. sn_field (?nodes ! i)) is = map (nth (tb_schema t)) is" using range by (auto simp: t list_all_iff)
  have group: "read_group lib n parsed is (map (nth ?schema) is) g = Inr (project_batch is b)" if g: "read_group lib n parsed [0..<?m] ?schema g = Inr b" for g b
  proof -
    obtain cs where cs: "mapR (read_column lib n parsed g) [0..<?m] = Inr cs" "newRecordBatch ?schema cs = Inr b"
      using g by (auto simp: read_group_def bindR_eq_Inr split: if_splits)
    have "length cs = ?m" using cs(1) by (simp add: mapR_nth)
    with batch_projects [OF cs(2)] mapR_select [OF cs(1) range] range g show ?thesis
      by (auto simp: read_group_def split: if_splits)
  qed
  have groups: "mapR (read_group lib n parsed is (map (nth ?schema) is)) ?groups = Inr (map (project_batch is) batches)"
    using b group by (auto simp: mapR_nth)
  have read: "readParquet lib n bytes (whole_file\<lparr>ro_columns := Some names\<rparr>) =
      (if batches = [] then bindR (mapR (\<lambda>i. empty_column n (?nodes ! i)) is) (\<lambda>cs.
             bindR (newRecordBatch (map (nth ?schema) is) cs) (\<lambda>b. newTable (map (nth ?schema) is) [b]))
       else newTable (map (nth ?schema) is) (map (project_batch is) batches))"
  proof -
    have "selectedGroups (whole_file\<lparr>ro_columns := Some names\<rparr>) ?groups = Inr ?groups" by (simp add: selectedGroups_def whole_file_def)
    then show ?thesis by (simp add: readParquet_def parsed sel dist schema [unfolded t] groups Let_def)
  qed
  show ?thesis
  proof (cases "batches = []")
    case True
    then obtain cs b where cs: "mapR (\<lambda>i. empty_column n (?nodes ! i)) [0..<?m] = Inr cs" "newRecordBatch ?schema cs = Inr b" "tb_batches t = [b]"
      using rest by (auto simp: newTable_def bindR_eq_Inr split: if_splits)
    have "length cs = ?m" using cs(1) by (simp add: mapR_nth)
    with batch_projects [OF cs(2)] mapR_select [OF cs(1) range] range True cs(3) show ?thesis
      unfolding Let_def is_def [symmetric] by (simp add: read t)
  next
    case False
    then have "tb_batches t = batches" using rest by (auto simp: newTable_def split: if_splits)
    with False show ?thesis unfolding Let_def is_def [symmetric] by (simp add: read t)
  qed
qed

end
