(* ===== verification/Parquet_Assembly.thy ===== *)
theory Parquet_Assembly
  imports Parquet_File
begin

text \<open>
  One column of a table through the writer and the reader: the leaf streams that \<open>shredColumn\<close> gives for its rows, the
  chunks they are written as, and the vector that \<open>assembleTree\<close> builds from them. The lemmas join the codecs of
  the parts: rows and levels (\<open>Parquet_Nested\<close>), schema trees and converters (\<open>Parquet_Schema\<close>), chunks
  (\<open>Parquet_Columns\<close>) and vectors (\<open>Arrow_Vector\<close>).
\<close>

subsection \<open>Trees that differ in their encoders\<close>

lemma shapes_all:
  "(\<And>c i i'. c \<in> set cs \<Longrightarrow> P (shape e i c) = Q (shape e' i' c)) \<Longrightarrow>
    (\<forall>x \<in> set (shapes e i cs). P x) = (\<forall>x \<in> set (shapes e' i' cs). Q x)"
proof (induction cs arbitrary: i i')
  case (Cons c cs)
  have "P (shape e i c) = Q (shape e' i' c)" by (rule Cons.prems) simp
  moreover have "(\<forall>x \<in> set (shapes e (i + length (leaf_descriptors c)) cs). P x) = (\<forall>x \<in> set (shapes e' (i' + length (leaf_descriptors c)) cs). Q x)"
    by (rule Cons.IH) (rule Cons.prems, simp)
  ultimately show ?case by simp
qed simp

lemma names_shapes: "nd_name ` set (shapes e i cs) = sn_name ` set cs"
  by (metis list.set_map nd_name_shapes)

lemma node_ok_shape: "node_ok R D (shape e i n) = node_ok R D (shape e' i' n)"
proof (induction n arbitrary: R D i i')
  case (SStruct n nl f dl rl cs)
  have "(\<forall>x \<in> set (shapes e i cs). node_ok R dl x) = (\<forall>x \<in> set (shapes e' i' cs). node_ok R dl x)"
    by (rule shapes_all) (rule SStruct)
  then show ?case by simp
next
  case (SList n nl f dl rl c)
  have "node_ok (R + 1) (dl + 1) (shape e i c) = node_ok (R + 1) (dl + 1) (shape e' i' c)" by (rule SList)
  then show ?case by (simp only: shape.simps node_ok.simps)
next
  case (SMap n nl f dl rl c)
  have "(\<exists>m ks. shape e i c = Struct m False x y ks \<and> nd_name ` set ks = N) \<longleftrightarrow>
      (\<exists>m ks. shape e' i' c = Struct m False x y ks \<and> nd_name ` set ks = N)" for x y N
    by (cases c) (auto simp: names_shapes)
  moreover have "node_ok (R + 1) (dl + 1) (shape e i c) = node_ok (R + 1) (dl + 1) (shape e' i' c)" by (rule SMap)
  ultimately show ?case by (simp only: shape.simps node_ok.simps)
qed simp_all

lemma value_ok_shape: "value_ok (shape e i n) v = value_ok (shape e' i' n) v"
proof (induction n arbitrary: v i i')
  case (SStruct n nl f dl rl cs)
  have "(\<forall>x \<in> set (shapes e i cs). value_ok x (property_or_null v (nd_name x))) = (\<forall>x \<in> set (shapes e' i' cs). value_ok x (property_or_null v (nd_name x)))"
    using SStruct by (intro shapes_all) simp
  then show ?case by simp
next
  case (SList n nl f dl rl c)
  have "value_ok (shape e i c) = value_ok (shape e' i' c)" by (rule ext) (rule SList)
  then show ?case by (simp split: js_value.split)
next
  case (SMap n nl f dl rl c)
  have "value_ok (shape e i c) = value_ok (shape e' i' c)" by (rule ext) (rule SMap)
  then show ?case by (simp split: js_value.split)
qed simp

definition map_slot :: "('p \<Rightarrow> 'q) \<Rightarrow> 'p slot \<Rightarrow> 'q slot" where
  "map_slot f s = (fst s, fst (snd s), map_option f (snd (snd s)))"

lemma absent_shape: "absent_slots (shape (\<lambda>d v. f (e d v)) i n) r d j = map (map_slot f) (absent_slots (shape e i n) r d j)"
  "concat (map (\<lambda>c. absent_slots c r d j) (shapes (\<lambda>d v. f (e d v)) i cs)) = map (map_slot f) (concat (map (\<lambda>c. absent_slots c r d j) (shapes e i cs)))"
  by (induction e i n and e i cs rule: shape_shapes.induct) (simp_all add: map_slot_def)

lemma slots_shape: "slots (shape (\<lambda>d v. f (e d v)) i n) v r d j = map (map_slot f) (slots (shape e i n) v r d j)"
  "concat (map (\<lambda>c. slots c (p (nd_name c)) r d j) (shapes (\<lambda>d v. f (e d v)) i cs)) = map (map_slot f) (concat (map (\<lambda>c. slots c (p (nd_name c)) r d j) (shapes e i cs)))"
proof (induction e i n and e i cs arbitrary: v r d and r d p rule: shape_shapes.induct)
  case (1 e i n nl f dl rl d)
  then show ?case by (simp add: map_slot_def)
next
  case (2 e i n nl f dl rl cs)
  then show ?case by (simp add: absent_shape [simplified])
next
  case (3 e i n nl f dl rl c)
  then show ?case by (auto simp: absent_shape map_concat comp_def split_def split: js_value.split)
next
  case (4 e i n nl f dl rl c)
  then show ?case by (auto simp: absent_shape map_concat comp_def split_def split: js_value.split)
qed simp_all

lemma column_slots_shape:
  "column_slots (shape (\<lambda>d v. f (e d v)) i n) rows j = map (map_slot f) (column_slots (shape e i n) rows j)"
  by (simp add: column_slots_def slots_shape(1) map_concat comp_def)

subsection \<open>What a row may hold\<close>

definition leaf_ok :: "descriptor \<Rightarrow> js_data \<Rightarrow> bool" where
  "leaf_ok d v \<longleftrightarrow> (case v of Prim x \<Rightarrow> leaf_value (fd_type (ds_arrowField d)) x | _ \<Rightarrow> False)"

text \<open>A row of a column: nulls where the schema allows them, values of the leaf types, lists and maps as arrays.\<close>

fun row_ok :: "schema_node \<Rightarrow> js_data \<Rightarrow> bool" where
  "row_ok (SLeaf n nl f dl rl d) v \<longleftrightarrow> (if absent_value v then nl else leaf_ok d v)"
| "row_ok (SStruct n nl f dl rl cs) v \<longleftrightarrow> (if absent_value v then nl else \<forall>c \<in> set cs. row_ok c (property_or_null v (sn_name c)))"
| "row_ok (SList n nl f dl rl c) v \<longleftrightarrow> (if absent_value v then nl else case v of Arr xs \<Rightarrow> (\<forall>x \<in> set xs. row_ok c x) | _ \<Rightarrow> False)"
| "row_ok (SMap n nl f dl rl c) v \<longleftrightarrow> (if absent_value v then nl else case v of Arr xs \<Rightarrow> (\<forall>x \<in> set xs. row_ok c (entry_object x)) | _ \<Rightarrow> False)"

lemma shapes_ex: "x \<in> set (shapes e i cs) \<Longrightarrow> \<exists>c \<in> set cs. \<exists>k. x = shape e k c"
  by (induction cs arbitrary: i) auto

lemma row_value: "row_ok n v \<Longrightarrow> value_ok (shape e i n) v"
proof (induction n arbitrary: v i)
  case (SStruct n nl f dl rl cs)
  have "value_ok x (property_or_null v (nd_name x))" if "\<not> absent_value v" "x \<in> set (shapes e i cs)" for x
  proof -
    from shapes_ex [OF that(2)] obtain c k where "c \<in> set cs" "x = shape e k c" by blast
    with SStruct that(1) show ?thesis by auto
  qed
  with SStruct.prems show ?case by (auto split: if_splits)
next
  case (SList n nl f dl rl c)
  then show ?case by (auto split: js_value.splits if_splits)
next
  case (SMap n nl f dl rl c)
  then show ?case by (auto split: js_value.splits if_splits)
qed (auto split: if_splits)

text \<open>What \<open>buildNode\<close> puts into a leaf's descriptor.\<close>

definition built_leaf :: "nat \<Rightarrow> nat \<Rightarrow> descriptor \<Rightarrow> bool" where
  "built_leaf dl rl d \<longleftrightarrow> ds_maxDefinitionLevel d = dl \<and> ds_maxRepetitionLevel d = rl \<and> leaf_type (fd_type (ds_arrowField d)) \<and>
     (\<exists>info. arrowTypeToParquet (fd_type (ds_arrowField d)) = Inr info \<and> ds_physicalType d = ti_physicalType info \<and>
       ds_typeLength d = ti_typeLength info \<and> ds_encode d = ti_encode info)"

fun built_node :: "schema_node \<Rightarrow> bool" where
  "built_node (SLeaf n nl f dl rl d) \<longleftrightarrow> built_leaf dl rl d"
| "built_node (SStruct n nl f dl rl cs) \<longleftrightarrow> list_all built_node cs"
| "built_node (SList n nl f dl rl c) \<longleftrightarrow> built_node c"
| "built_node (SMap n nl f dl rl c) \<longleftrightarrow> built_node c"

text \<open>The slots of a leaf, each value with the descriptor of its leaf.\<close>

abbreviation tag_leaf :: "descriptor \<Rightarrow> js_data \<Rightarrow> descriptor \<times> js_data" where "tag_leaf \<equiv> Pair"

definition slot_fits :: "descriptor \<Rightarrow> (descriptor \<times> js_data) slot \<Rightarrow> bool" where
  "slot_fits d s \<longleftrightarrow> fst s \<le> ds_maxRepetitionLevel d \<and> (case snd (snd s) of
     None \<Rightarrow> fst (snd s) < ds_maxDefinitionLevel d
   | Some (d', w) \<Rightarrow> d' = d \<and> fst (snd s) = ds_maxDefinitionLevel d \<and> leaf_ok d w)"

definition slots_fit :: "descriptor list \<Rightarrow> nat \<Rightarrow> (nat \<Rightarrow> (descriptor \<times> js_data) slot list) \<Rightarrow> bool" where
  "slots_fit ds i f \<longleftrightarrow> (\<forall>j. \<forall>s \<in> set (f j). \<exists>k < length ds. j = i + k \<and> slot_fits (ds ! k) s)"

lemma slots_fit_concat:
  assumes "\<And>x. x \<in> set xs \<Longrightarrow> slots_fit ds i (f x)"
  shows "slots_fit ds i (\<lambda>j. concat (map (\<lambda>x. f x j) xs))"
  using assms by (fastforce simp: slots_fit_def)

lemma slots_fit_shapes:
  assumes "\<And>c i. c \<in> set cs \<Longrightarrow> slots_fit (leaf_descriptors c) i (F (shape tag_leaf i c))"
  shows "slots_fit (concat (map leaf_descriptors cs)) i (\<lambda>j. concat (map (\<lambda>x. F x j) (shapes tag_leaf i cs)))"
  using assms
proof (induction cs arbitrary: i)
  case (Cons c cs)
  let ?l = "length (leaf_descriptors c)"
  have c: "slots_fit (leaf_descriptors c) i (F (shape tag_leaf i c))" using Cons.prems by simp
  have cs: "slots_fit (concat (map leaf_descriptors cs)) (i + ?l) (\<lambda>j. concat (map (\<lambda>x. F x j) (shapes tag_leaf (i + ?l) cs)))"
    by (rule Cons.IH) (simp add: Cons.prems)
  show ?case unfolding slots_fit_def
  proof (intro allI ballI)
    fix j s assume "s \<in> set (concat (map (\<lambda>x. F x j) (shapes tag_leaf i (c # cs))))"
    then consider "s \<in> set (F (shape tag_leaf i c) j)" | "s \<in> set (concat (map (\<lambda>x. F x j) (shapes tag_leaf (i + ?l) cs)))" by auto
    then show "\<exists>k < length (concat (map leaf_descriptors (c # cs))). j = i + k \<and> slot_fits (concat (map leaf_descriptors (c # cs)) ! k) s"
    proof cases
      case 1
      with c obtain k where "k < ?l" "j = i + k" "slot_fits (leaf_descriptors c ! k) s" unfolding slots_fit_def by blast
      then show ?thesis by (intro exI [of _ k]) (simp add: nth_append)
    next
      case 2
      with cs obtain k where "k < length (concat (map leaf_descriptors cs))" "j = i + ?l + k" "slot_fits (concat (map leaf_descriptors cs) ! k) s"
        unfolding slots_fit_def by blast
      then show ?thesis by (intro exI [of _ "?l + k"]) (simp add: nth_append)
    qed
  qed
qed (simp add: slots_fit_def)

lemma shapes_checked:
  "(\<And>c i i'. c \<in> set cs \<Longrightarrow> P (shape e i c) = P (shape e i' c)) \<Longrightarrow> (\<forall>x \<in> set (shapes e i cs). P x) \<Longrightarrow> c \<in> set cs \<Longrightarrow> P (shape e i' c)"
proof (induction cs arbitrary: i)
  case (Cons b cs)
  show ?case
  proof (cases "c = b")
    case True
    then show ?thesis using Cons.prems(2) Cons.prems(1) [of b i i'] by simp
  next
    case False
    show ?thesis by (rule Cons.IH [of "i + length (leaf_descriptors b)"]) (use Cons.prems False in auto)
  qed
qed simp

lemma node_ok_member:
  "node_ok R D (shape e i (SStruct n nl f dl rl cs)) \<Longrightarrow> c \<in> set cs \<Longrightarrow> node_ok R dl (shape e i' c)"
  unfolding shape.simps node_ok.simps by (rule shapes_checked [where P = "node_ok R dl" and i = i, OF node_ok_shape]) blast+

lemma node_ok_child:
  "node_ok R D (shape e i (SList n nl f dl rl c)) \<Longrightarrow> node_ok (R + 1) (dl + 1) (shape e i c)"
  "node_ok R D (shape e i (SMap n nl f dl rl c)) \<Longrightarrow> node_ok (R + 1) (dl + 1) (shape e i c)"
  unfolding shape.simps node_ok.simps by blast+

lemma shape_levels: "nd_defLevel (shape e i n) = sn_defLevel n"
  by (cases n) simp_all

lemma deeper: "node_ok R D (shape e i n) \<Longrightarrow> D \<le> sn_defLevel n"
  by (cases n) auto

lemma absent_fit:
  "node_ok R D (shape tag_leaf i n) \<Longrightarrow> built_node n \<Longrightarrow> r \<le> R \<Longrightarrow> d < sn_defLevel n \<Longrightarrow>
    slots_fit (leaf_descriptors n) i (absent_slots (shape tag_leaf i n) r d)"
proof (induction n arbitrary: R D i)
  case (SLeaf n nl f dl rl x)
  then show ?case by (simp add: slots_fit_def slot_fits_def built_leaf_def)
next
  case (SStruct n nl f dl rl cs)
  have "slots_fit (leaf_descriptors c) i (absent_slots (shape tag_leaf i c) r d)" if c: "c \<in> set cs" for c i
  proof (rule SStruct.IH [OF c])
    show ok: "node_ok R dl (shape tag_leaf i c)" by (rule node_ok_member [OF SStruct.prems(1) c])
    show "d < sn_defLevel c" using deeper [OF ok] SStruct.prems(4) by simp
  qed (use c SStruct.prems in \<open>auto simp: list_all_iff\<close>)
  from slots_fit_shapes [of cs "\<lambda>x. absent_slots x r d", OF this] show ?case by simp
next
  case (SList n nl f dl rl c)
  note ok = node_ok_child(1) [OF SList.prems(1)]
  from SList.IH [OF ok] SList.prems deeper [OF ok] show ?case by simp
next
  case (SMap n nl f dl rl c)
  note ok = node_ok_child(2) [OF SMap.prems(1)]
  from SMap.IH [OF ok] SMap.prems deeper [OF ok] show ?case by simp
qed

lemma with_levels_le: "(x, r') \<in> set (with_levels r rl xs) \<Longrightarrow> x \<in> set xs \<and> (r' = r \<or> r' = rl)"
  by (cases xs) auto

lemma list_fit:
  assumes "node_ok R D (shape tag_leaf i (SList n nl f dl rl c))" "built_node c" "r \<le> R"
    and "absent_value v \<Longrightarrow> nl" and "\<And>xs. v = Arr xs \<Longrightarrow> \<forall>x \<in> set xs. row_ok c x"
    and IH: "\<And>x r. row_ok c x \<Longrightarrow> r \<le> R + 1 \<Longrightarrow> slots_fit (leaf_descriptors c) i (slots (shape tag_leaf i c) x r (dl + 1))"
  shows "slots_fit (leaf_descriptors c) i (slots (shape tag_leaf i (SList n nl f dl rl c)) v r D)"
proof -
  have ok: "node_ok (R + 1) (dl + 1) (shape tag_leaf i c)" "dl = D + of_bool nl" "rl = R + 1"
    using assms(1) [unfolded shape.simps node_ok.simps] by blast+
  have absent: "slots_fit (leaf_descriptors c) i (absent_slots (shape tag_leaf i c) r d)" if "d < dl + 1" for d
    using assms(2,3) that deeper [OF ok(1)] by (intro absent_fit [OF ok(1)]) simp_all
  show ?thesis
  proof (cases v)
    case (Arr xs)
    show ?thesis
    proof (cases "xs = []")
      case False
      have "slots_fit (leaf_descriptors c) i (\<lambda>j. concat (map (\<lambda>p. slots (shape tag_leaf i c) (fst p) (snd p) (dl + 1) j) (with_levels r rl xs)))"
      proof (rule slots_fit_concat)
        fix p assume "p \<in> set (with_levels r rl xs)"
        then have "fst p \<in> set xs" "snd p \<le> R + 1" using with_levels_le [of "fst p" "snd p" r rl xs] assms(3) ok(3) by auto
        then show "slots_fit (leaf_descriptors c) i (slots (shape tag_leaf i c) (fst p) (snd p) (dl + 1))"
          using assms(5) [OF Arr] by (intro IH) auto
      qed
      then show ?thesis using False by (simp add: Arr split_def slots_fit_def)
    qed (use absent [of dl] in \<open>simp add: Arr slots_fit_def\<close>)
  qed (use absent [of D] assms(4) ok(2) in \<open>auto simp: slots_fit_def\<close>)
qed

lemma slots_fit:
  "node_ok R D (shape tag_leaf i n) \<Longrightarrow> built_node n \<Longrightarrow> r \<le> R \<Longrightarrow> row_ok n v \<Longrightarrow>
    slots_fit (leaf_descriptors n) i (slots (shape tag_leaf i n) v r D)"
proof (induction n arbitrary: R D i v r)
  case (SLeaf n nl f dl rl x)
  then show ?case by (auto simp add: slots_fit_def slot_fits_def built_leaf_def split: if_splits)
next
  case (SStruct n nl f dl rl cs)
  show ?case
  proof (cases "absent_value v")
    case True
    then have "D < dl" using SStruct.prems by auto
    with True show ?thesis using absent_fit [OF SStruct.prems(1-3), of D] by (auto simp: slots_fit_def)
  next
    case False
    have "slots_fit (leaf_descriptors c) i (slots (shape tag_leaf i c) (property_or_null v (nd_name (shape tag_leaf i c))) r dl)" if c: "c \<in> set cs" for c i
      by (rule SStruct.IH [OF c node_ok_member [OF SStruct.prems(1) c]]) (use SStruct.prems False c in \<open>auto simp: list_all_iff\<close>)
    from slots_fit_shapes [of cs "\<lambda>x. slots x (property_or_null v (nd_name x)) r dl", OF this] False show ?thesis
      by (auto simp: slots_fit_def)
  qed
next
  case (SList n nl f dl rl c)
  have "slots_fit (leaf_descriptors c) i (slots (shape tag_leaf i (SList n nl f dl rl c)) v r D)"
    by (rule list_fit [OF SList.prems(1)]) (use SList in \<open>auto split: if_splits js_value.splits\<close>)
  then show ?case by (simp only: leaf_descriptors.simps)
next
  case (SMap n nl f dl rl c)
  have "slots_fit (leaf_descriptors c) i (slots (shape tag_leaf i (SList n nl f dl rl c)) (as_entries v) r D)"
  proof (rule list_fit)
    show "node_ok R D (shape tag_leaf i (SList n nl f dl rl c))"
      using SMap.prems(1) unfolding shape.simps node_ok.simps by blast
    show "slots_fit (leaf_descriptors c) i (slots (shape tag_leaf i c) x r (dl + 1))" if "row_ok c x" "r \<le> R + 1" for x r
      using that SMap.prems(2) by (intro SMap.IH [OF node_ok_child(2) [OF SMap.prems(1)]]) simp_all
    show "\<forall>x \<in> set xs. row_ok c x" if "as_entries v = Arr xs" for xs using SMap.prems(4) that by (cases v) auto
  qed (use SMap.prems in \<open>auto simp: map_as_list(3) split: if_splits js_value.splits\<close>)
  then show ?case by (simp only: shape.simps leaf_descriptors.simps map_as_list)
qed

subsection \<open>The streams of a column\<close>

lemma append_stream_slots:
  "append_stream (append_slots empty_stream_of a) (append_slots empty_stream_of b) = append_slots empty_stream_of (a @ b)"
  by (simp add: append_stream_def append_slots_def empty_stream_of_def)

lemma shred_slots:
  "shredColumn (shape e 0 n) rows = map (\<lambda>j. append_slots empty_stream_of (column_slots (shape e 0 n) rows j)) [0..<length (leaf_descriptors n)]"
  by (simp add: shredColumn_slots collect_shape empty_stream_of_def)

lemma column_slots_append: "column_slots node (a @ b) j = column_slots node a j @ column_slots node b j"
  by (simp add: column_slots_def)

lemma column_streams_slots:
  "column_streams n batches =
    map (\<lambda>j. append_slots empty_stream_of (column_slots (shape leaf_encode 0 n) (concat batches) j)) [0..<length (leaf_descriptors n)]"
proof -
  let ?st = "\<lambda>rows. map (\<lambda>j. append_slots empty_stream_of (column_slots (shape leaf_encode 0 n) rows j)) [0..<length (leaf_descriptors n)]"
  have step: "map2 append_stream (?st a) (?st b) = ?st (a @ b)" for a b
    by (rule nth_equalityI) (simp_all add: append_stream_slots column_slots_append)
  have "foldl (\<lambda>acc rows. map2 append_stream acc (?st rows)) (?st a) batches = ?st (a @ concat batches)" for a
    by (induction batches arbitrary: a) (simp_all add: step)
  from this [of "[]"] show ?thesis
    by (simp add: column_streams_def shred_slots column_slots_def map_replicate_const)
qed

text \<open>The physical types whose columns hold a value.\<close>

fun kinds :: "column_value \<Rightarrow> nat set" where
  "kinds (VBoolean b) = {BOOLEAN}"
| "kinds (VNumber n) = {INT32}"
| "kinds (VBigInt n) = {INT64}"
| "kinds (VFloat b) = {FLOAT}"
| "kinds (VDouble b) = {DOUBLE}"
| "kinds (VBinary b) = {BYTE_ARRAY, FIXED_LEN_BYTE_ARRAY}"

lemma leaf_kind:
  assumes "leaf_type type" "arrowTypeToParquet type = Inr info" "leaf_value type v" "convert (ti_encode info) v = Inr p"
  shows "ti_physicalType info \<in> kinds p"
  using assms by (cases type) (auto simp: type_info_def Let_def split: column_value.splits binary_value.splits if_splits)

lemma leaf_physical:
  "leaf_type type \<Longrightarrow> arrowTypeToParquet type = Inr info \<Longrightarrow>
    ti_physicalType info \<in> {BOOLEAN, INT32, INT64, FLOAT, DOUBLE, BYTE_ARRAY, FIXED_LEN_BYTE_ARRAY} \<and>
    (case ti_typeLength info of None \<Rightarrow> True | Some n \<Rightarrow> 0 \<le> n)"
  by (cases type) (auto simp: type_info_def Let_def split: if_splits)

lemma built_physical:
  "built_leaf dl rl d \<Longrightarrow> ds_physicalType d \<in> {BOOLEAN, INT32, INT64, FLOAT, DOUBLE, BYTE_ARRAY, FIXED_LEN_BYTE_ARRAY} \<and>
    (case ds_typeLength d of None \<Rightarrow> True | Some n \<Rightarrow> 0 \<le> n)"
  unfolding built_leaf_def using leaf_physical by metis

lemma mapR_constructor: "list_all (\<lambda>v. \<exists>y. v = c y) vs \<Longrightarrow> (\<And>y. f (c y) = Inr y) \<Longrightarrow> \<exists>ys. mapR f vs = Inr ys \<and> map c ys = vs"
  by (induction vs) auto

lemma typed_values_ok:
  assumes "p \<in> {BOOLEAN, INT32, INT64, FLOAT, DOUBLE, BYTE_ARRAY, FIXED_LEN_BYTE_ARRAY}" "list_all (\<lambda>v. p \<in> kinds v) vs"
  shows "\<exists>cs. typed_values p vs = Inr cs \<and> elements cs = vs \<and> physicalType cs = p"
proof -
  have c: "\<exists>y. v = VBoolean y" if "BOOLEAN \<in> kinds v" for v using that by (cases v) (auto simp: ptype_defs)
  have "\<exists>y. v = VNumber y" if "INT32 \<in> kinds v" for v using that by (cases v) (auto simp: ptype_defs)
  moreover have "\<exists>y. v = VBigInt y" if "INT64 \<in> kinds v" for v using that by (cases v) (auto simp: ptype_defs)
  moreover have "\<exists>y. v = VFloat y" if "FLOAT \<in> kinds v" for v using that by (cases v) (auto simp: ptype_defs)
  moreover have "\<exists>y. v = VDouble y" if "DOUBLE \<in> kinds v" for v using that by (cases v) (auto simp: ptype_defs)
  moreover have "\<exists>y. v = VBinary y" if "BYTE_ARRAY \<in> kinds v \<or> FIXED_LEN_BYTE_ARRAY \<in> kinds v" for v using that by (cases v) (auto simp: ptype_defs)
  ultimately show ?thesis using assms c
      mapR_constructor [of VBoolean vs boolean_of] mapR_constructor [of VNumber vs number_of] mapR_constructor [of VBigInt vs bigint_of] mapR_constructor [of VFloat vs float_of]
      mapR_constructor [of VDouble vs double_of] mapR_constructor [of VBinary vs binary_of]
    by (auto simp: list_all_iff typed_values_def ptype_defs)
qed

lemma stored_elements:
  "physicalType cs = p \<Longrightarrow> elements (stored (map_option nat len) cs) = map (store_value p len) (elements cs)"
  by (cases cs; cases len) (simp_all add: ptype_defs)

definition read_encode :: "descriptor \<Rightarrow> js_data \<Rightarrow> column_value option" where
  "read_encode d v = Some (store_value (ds_physicalType d) (ds_typeLength d) (case leaf_encode d v of Inr p \<Rightarrow> p | Inl e \<Rightarrow> VNumber 0))"

text \<open>The sizes, the alignment of level segments, and the values and options that pages can carry.\<close>

definition stream_fits :: "write_config \<Rightarrow> leaf_stream \<Rightarrow> bool" where
  "stream_fits config s \<longleftrightarrow> (let d = ls_descriptor s in
     cd_maxDefinitionLevel d < 2 ^ 31 \<and> cd_maxRepetitionLevel d < 2 ^ 31 \<and> length (ls_defLevels s) < 2 ^ 30 \<and>
     (0 < cd_maxDefinitionLevel d \<longrightarrow> aligned (ls_defLevels s)) \<and> (0 < cd_maxRepetitionLevel d \<longrightarrow> aligned (ls_repLevels s)) \<and>
     plain_ok (ls_values s) \<and> config_ok config (ls_values s) \<and> list_of stored_text (cd_path d))"

definition leaf_written :: "descriptor \<Rightarrow> (descriptor \<times> js_data) slot list \<Rightarrow> leaf_stream \<Rightarrow> bool" where
  "leaf_written d ss s \<longleftrightarrow> column_of d = Inr (ls_descriptor s) \<and> ls_defLevels s = map (fst \<circ> snd) ss \<and>
     (\<forall>config. stream_fits config s \<longrightarrow> stream_ok s) \<and>
     stream_of_read (stream_read s) = append_slots empty_stream_of (map (map_slot (\<lambda>(d, v). read_encode d v)) ss)"

lemma slot_values_map: "concat (map slot_value (map (map_slot f) ss)) = map f (concat (map slot_value ss))"
  by (induction ss) (auto simp: slot_value_def map_slot_def split: option.split)

lemma mapped_slots:
  "append_slots empty_stream_of (map (map_slot f) ss) =
    \<lparr>st_values = map f (concat (map slot_value ss)), st_defs = map (fst \<circ> snd) ss, st_reps = map fst ss\<rparr>"
  by (simp only: append_slots_def slot_values_map) (simp add: empty_stream_of_def map_slot_def)

lemma slot_values_count:
  "length (concat (map slot_value ss)) = length (filter (\<lambda>s. snd (snd s) \<noteq> None) ss)"
  by (induction ss) (auto simp: slot_value_def split: option.split)

lemma leaf_encoded:
  assumes "built_leaf dl rl d" "leaf_ok d w"
  shows "\<exists>p. leaf_encode d w = Inr p \<and> ds_physicalType d \<in> kinds p"
proof -
  obtain info where i: "leaf_type (fd_type (ds_arrowField d))" "arrowTypeToParquet (fd_type (ds_arrowField d)) = Inr info"
    "ds_physicalType d = ti_physicalType info" "ds_encode d = ti_encode info"
    using assms(1) by (auto simp: built_leaf_def)
  obtain x where x: "w = Prim x" "leaf_value (fd_type (ds_arrowField d)) x"
    using assms(2) by (auto simp: leaf_ok_def split: js_value.splits)
  obtain p where "convert (ti_encode info) x = Inr p"
    using leaf_codec [OF i(1)] i(2) x(2) unfolding codec_of_def by fastforce
  then show ?thesis using leaf_kind [OF i(1,2) x(2)] x(1) i(3,4) by (simp add: leaf_encode_def)
qed

lemma leaf_stream_built:
  assumes d: "built_leaf dl rl d" and fit: "\<forall>s \<in> set ss. slot_fits d s"
  shows "\<exists>s. leaf_stream_of d (append_slots empty_stream_of (map (map_slot (\<lambda>(d, v). leaf_encode d v)) ss)) = Inr s \<and> leaf_written d ss s"
proof -
  define ws where "ws = concat (map slot_value ss)"
  have ws: "fst w = d \<and> leaf_ok d (snd w)" if w: "w \<in> set ws" for w
  proof -
    from w obtain s where "s \<in> set ss" "snd (snd s) = Some w" by (auto simp: ws_def slot_value_def split: option.splits)
    then show ?thesis using bspec [OF fit] by (fastforce simp: slot_fits_def)
  qed
  define ps where "ps = map (\<lambda>(d, v). case leaf_encode d v of Inr p \<Rightarrow> p | Inl e \<Rightarrow> VNumber 0) ws"
  have enc: "leaf_encode d (snd w) = Inr (case leaf_encode d (snd w) of Inr p \<Rightarrow> p | Inl e \<Rightarrow> VNumber 0)"
    "ds_physicalType d \<in> kinds (case leaf_encode d (snd w) of Inr p \<Rightarrow> p | Inl e \<Rightarrow> VNumber 0)" if "w \<in> set ws" for w
    using leaf_encoded [OF d, of "snd w"] ws [OF that] by auto
  have "mapR id (map (\<lambda>(d, v). leaf_encode d v) ws) = Inr ps"
    using ws enc(1) by (auto simp: mapR_nth ps_def split_def)
  moreover obtain cs where cs: "typed_values (ds_physicalType d) ps = Inr cs" "elements cs = ps" "physicalType cs = ds_physicalType d"
  proof -
    have "ds_physicalType d \<in> {BOOLEAN, INT32, INT64, FLOAT, DOUBLE, BYTE_ARRAY, FIXED_LEN_BYTE_ARRAY}"
      using built_physical [OF d] by blast
    moreover have "list_all (\<lambda>v. ds_physicalType d \<in> kinds v) ps"
      using enc(2) ws by (auto simp: ps_def list_all_iff)
    ultimately show ?thesis using typed_values_ok that by blast
  qed
  moreover obtain cd where cd: "column_of d = Inr cd" "cd_physicalType cd = ds_physicalType d" "cd_typeLength cd = map_option nat (ds_typeLength d)"
    "cd_maxDefinitionLevel cd = ds_maxDefinitionLevel d" "cd_maxRepetitionLevel cd = ds_maxRepetitionLevel d"
    using built_physical [OF d] by (auto simp: column_of_def split: option.splits)
  define s where "s = \<lparr>ls_descriptor = cd, ls_values = cs, ls_defLevels = map (fst \<circ> snd) ss, ls_repLevels = map fst ss\<rparr>"
  ultimately have st: "leaf_stream_of d (append_slots empty_stream_of (map (map_slot (\<lambda>(d, v). leaf_encode d v)) ss)) = Inr s"
    unfolding mapped_slots by (simp add: leaf_stream_of_def s_def cd(1) flip: ws_def)
  have levels: "fst t \<le> ds_maxRepetitionLevel d" "fst (snd t) \<le> ds_maxDefinitionLevel d" "snd (snd t) \<noteq> None \<longleftrightarrow> fst (snd t) = ds_maxDefinitionLevel d"
    if "t \<in> set ss" for t
    using bspec [OF fit that] by (auto simp: slot_fits_def split: option.splits)
  have "num_values cs = length (filter (\<lambda>t. snd (snd t) \<noteq> None) ss)"
    using arg_cong [OF cs(2), of length] by (simp add: ps_def ws_def slot_values_count)
  also have "\<dots> = length (filter (\<lambda>l. l = ds_maxDefinitionLevel d) (map (fst \<circ> snd) ss))"
    using levels(3) by (simp add: filter_map comp_def cong: filter_cong)
  finally have "stream_ok s" if "stream_fits config s" for config
    using that levels cs(3) cd by (auto simp: stream_fits_def stream_ok_def level_ok_def s_def Let_def)
  moreover have "stream_of_read (stream_read s) = append_slots empty_stream_of (map (map_slot (\<lambda>(d, v). read_encode d v)) ss)"
  proof -
    have "map Some (elements (stored (cd_typeLength cd) cs)) = map (\<lambda>(d, v). read_encode d v) ws"
      using ws by (auto simp: stored_elements [OF cs(3)] cd(3) cs(2) ps_def read_encode_def)
    then show ?thesis unfolding mapped_slots by (simp add: stream_of_read_def stream_read_def s_def flip: ws_def)
  qed
  ultimately show ?thesis using st cd(1) by (auto simp: leaf_written_def s_def)
qed

lemma built_leaves: "built_node n \<Longrightarrow> d \<in> set (leaf_descriptors n) \<Longrightarrow> \<exists>dl rl. built_leaf dl rl d"
  by (induction n) (auto simp: list_all_iff)

lemma column_slots_fit:
  assumes "built_node n" "node_ok 0 0 (shape e 0 n)" "\<forall>v \<in> set rows. row_ok n v" "j < length (leaf_descriptors n)"
  shows "\<forall>s \<in> set (column_slots (shape tag_leaf 0 n) rows j). slot_fits (leaf_descriptors n ! j) s"
proof -
  have "slots_fit (leaf_descriptors n) 0 (\<lambda>j. column_slots (shape tag_leaf 0 n) rows j)"
    unfolding column_slots_def
    by (rule slots_fit_concat, rule slots_fit) (use assms node_ok_shape [of 0 0 e 0 n tag_leaf 0] in auto)
  then show ?thesis unfolding slots_fit_def by fastforce
qed

lemma node_streams_built:
  assumes "built_node n" "node_ok 0 0 (shape leaf_encode 0 n)" "mapR (column_rows ci) (tb_batches t) = Inr rss" "\<forall>v \<in> set (concat rss). row_ok n v"
  shows "\<exists>ss. node_streams t (n, ci) = Inr ss \<and> length ss = length (leaf_descriptors n) \<and>
    (\<forall>j < length ss. leaf_written (leaf_descriptors n ! j) (column_slots (shape tag_leaf 0 n) (concat rss) j) (ss ! j))"
proof -
  let ?ds = "leaf_descriptors n" and ?tagged = "\<lambda>j. column_slots (shape tag_leaf 0 n) (concat rss) j"
  let ?st = "\<lambda>j. append_slots empty_stream_of (map (map_slot (\<lambda>(d, v). leaf_encode d v)) (?tagged j))"
  have st: "column_streams n rss = map ?st [0..<length ?ds]"
    unfolding column_streams_slots using column_slots_shape [of "\<lambda>(d, v). leaf_encode d v" tag_leaf 0 n "concat rss"] by simp
  have "\<exists>s. leaf_stream_of (?ds ! j) (?st j) = Inr s \<and> leaf_written (?ds ! j) (?tagged j) s" if j: "j < length ?ds" for j
  proof -
    obtain dl rl where "built_leaf dl rl (?ds ! j)" using built_leaves [OF assms(1) nth_mem [OF j]] by blast
    from leaf_stream_built [OF this column_slots_fit [OF assms(1,2,4) j]] show ?thesis .
  qed
  from mapR_ex [of "[0..<length ?ds]" "\<lambda>j. leaf_stream_of (?ds ! j) (?st j)" "\<lambda>j s. leaf_written (?ds ! j) (?tagged j) s"] this
  obtain ss where ss: "mapR (\<lambda>j. leaf_stream_of (?ds ! j) (?st j)) [0..<length ?ds] = Inr ss"
    "list_all2 (\<lambda>j s. leaf_written (?ds ! j) (?tagged j) s) [0..<length ?ds] ss" by auto
  have "mapR (\<lambda>(d, s). leaf_stream_of d s) (zip ?ds (column_streams n rss)) = Inr ss"
    using ss(1) by (simp add: mapR_nth st)
  then show ?thesis using assms(3) ss(2) by (auto simp: node_streams_def list_all2_conv_all_nth)
qed

lemma streams_shredded:
  assumes "length ss = length (leaf_descriptors n)"
    "\<forall>j < length ss. leaf_written (leaf_descriptors n ! j) (column_slots (shape tag_leaf 0 n) rows j) (ss ! j)"
  shows "map (\<lambda>s. stream_of_read (stream_read s)) ss = shredColumn (shape read_encode 0 n) rows"
proof (rule nth_equalityI)
  show "length (map (\<lambda>s. stream_of_read (stream_read s)) ss) = length (shredColumn (shape read_encode 0 n) rows)"
    using assms(1) by (simp add: shred_slots)
  fix j assume "j < length (map (\<lambda>s. stream_of_read (stream_read s)) ss)"
  then show "map (\<lambda>s. stream_of_read (stream_read s)) ss ! j = shredColumn (shape read_encode 0 n) rows ! j"
    using assms column_slots_shape [of "\<lambda>(d, v). read_encode d v" tag_leaf 0 n rows j] by (simp add: shred_slots leaf_written_def)
qed

lemma rows_assembled:
  assumes "node_ok 0 0 (shape leaf_encode 0 n)" "\<forall>v \<in> set rows. row_ok n v"
    and "length ss = length (leaf_descriptors n)"
    "\<forall>j < length ss. leaf_written (leaf_descriptors n ! j) (column_slots (shape tag_leaf 0 n) rows j) (ss ! j)"
    and "\<forall>s \<in> set ss. length (ls_repLevels s) \<le> k"
  shows "assembleRows k (shape read_encode 0 n) (map (\<lambda>s. stream_of_read (stream_read s)) ss) (length rows) =
    Inr (map (physical (shape read_encode 0 n)) rows)"
  unfolding streams_shredded [OF assms(3,4)]
proof (rule nested_codec)
  show "node_ok 0 0 (shape read_encode 0 n)" using assms(1) node_ok_shape by blast
  show "distinct (collectLeaves (shape read_encode 0 n))" by (simp add: collect_shape)
  show "\<forall>v \<in> set rows. value_ok (shape read_encode 0 n) v" using assms(2) row_value by blast
  show "\<forall>s \<in> set (shredColumn (shape read_encode 0 n) rows). length (st_reps s) \<le> k"
    using assms(5) by (auto simp flip: streams_shredded [OF assms(3,4)] simp: stream_of_read_def stream_read_def)
qed

subsection \<open>The tree that is read\<close>

lemma alike_leaves: "alike n n' \<Longrightarrow> list_all2 same_leaf (leaf_descriptors n) (leaf_descriptors n')"
proof (induction rule: alike.induct)
  case (struct cs cs' n nl f dl rl n' f')
  from struct(2) have "list_all2 same_leaf (concat (map leaf_descriptors cs)) (concat (map leaf_descriptors cs'))"
    by (induction rule: list_all2_induct) (auto intro: list_all2_appendI)
  then show ?case by simp
qed simp_all

lemma alike_count: "alike n n' \<Longrightarrow> length (leaf_descriptors n) = length (leaf_descriptors n')"
  using alike_leaves list_all2_lengthD by blast

text \<open>Assembly sees the levels, the leaves and the names of struct members only.\<close>

definition same_walk :: "('v, 'p) node \<Rightarrow> ('v, 'p) node \<Rightarrow> bool" where
  "same_walk x y \<longleftrightarrow> collectLeaves x = collectLeaves y \<and> firstLeaf x = firstLeaf y \<and> consumeAbsent x = consumeAbsent y \<and>
     (\<forall>k. assembleValue k x = assembleValue k y)"

lemma same_walk_shapes:
  assumes "list_all2 (\<lambda>c c'. alike c c' \<and> (\<forall>i. same_walk (shape e i c) (shape e' i c'))) cs cs'"
  shows "list_all2 same_walk (shapes e i cs) (shapes e' i cs')"
  using assms
proof (induction arbitrary: i rule: list_all2_induct)
  case (Cons c cs c' cs')
  then show ?case using alike_count [of c c'] by simp
qed simp

lemma same_walk_struct:
  assumes "list_all2 same_walk xs ys" "map nd_name xs = map nd_name ys"
  shows "same_walk (Struct n nl dl rl xs) (Struct n' nl dl rl ys)"
proof -
  have fold: "foldl (\<lambda>s c. consumeAbsent c s) s xs = foldl (\<lambda>s c. consumeAbsent c s) s ys" for s
    using assms(1) by (induction arbitrary: s rule: list_all2_induct) (simp_all add: same_walk_def)
  have first: "firstLeaf (Struct n nl dl rl xs) = firstLeaf (Struct n' nl dl rl ys)"
    using assms(1) by (cases xs; cases ys) (simp_all add: same_walk_def)
  have children: "children_loop nd_name (assembleValue k) xs s = children_loop nd_name (assembleValue k) ys s" for k s
    using assms by (induction arbitrary: s rule: list_all2_induct) (auto simp: same_walk_def intro!: bindR_cong)
  have "concat (map collectLeaves xs) = concat (map collectLeaves ys)"
    using assms(1) by (induction rule: list_all2_induct) (simp_all add: same_walk_def)
  then show ?thesis using fold first children by (simp add: same_walk_def fun_eq_iff split: option.split)
qed

lemma alike_walk: "alike n n' \<Longrightarrow> same_walk (shape e i n) (shape e' i n')"
proof (induction arbitrary: i rule: alike.induct)
  case (struct cs cs' n nl f dl rl n' f')
  have "list_all2 (\<lambda>c c'. alike c c' \<and> (\<forall>i. same_walk (shape e i c) (shape e' i c'))) cs cs'"
    using struct(2) by (rule list_all2_mono) blast
  from same_walk_struct [OF same_walk_shapes [OF this]] struct(1) show ?case by simp
next
  case (list c c' n nl f dl rl n' f')
  note c = list.IH [of i, unfolded same_walk_def]
  have "assembleValue k (shape e i (SList n nl f dl rl c)) s = assembleValue k (shape e' i (SList n' nl f' dl rl c')) s" for k s
    using c by (simp split: option.split)
  moreover have "consumeAbsent (shape e i (SList n nl f dl rl c)) s = consumeAbsent (shape e' i (SList n' nl f' dl rl c')) s" for s
    using c by simp
  ultimately show ?case using c unfolding same_walk_def by (auto intro!: ext)
next
  case (map c c' n nl f dl rl n' f')
  note c = map.IH [of i, unfolded same_walk_def]
  have "assembleValue k (shape e i (SMap n nl f dl rl c)) s = assembleValue k (shape e' i (SMap n' nl f' dl rl c')) s" for k s
    using c by (simp split: option.split)
  moreover have "consumeAbsent (shape e i (SMap n nl f dl rl c)) s = consumeAbsent (shape e' i (SMap n' nl f' dl rl c')) s" for s
    using c by simp
  ultimately show ?case using c unfolding same_walk_def by (auto intro!: ext)
qed (simp add: same_walk_def fun_eq_iff)

lemma assembleRows_alike:
  fixes e e' :: "descriptor \<Rightarrow> 'v js_value \<Rightarrow> 'p"
  assumes "alike n n'"
  shows "assembleRows k (shape e 0 n) streams m = assembleRows k (shape e' 0 n') streams m"
proof -
  have w: "same_walk (shape e 0 n) (shape e' 0 n')" by (rule alike_walk [OF assms])
  then have "rows_loop k (shape e 0 n) m cursors = rows_loop k (shape e' 0 n') m cursors" for m cursors
    by (induction m arbitrary: cursors) (auto simp: same_walk_def intro!: bindR_cong)
  with w show ?thesis by (simp add: assembleRows_def same_walk_def)
qed

subsection \<open>The vectors that are built\<close>

text \<open>A row as the assembled value holds it: every leaf as its page stores it.\<close>

fun stored_row :: "schema_node \<Rightarrow> js_data \<Rightarrow> js_data" where
  "stored_row (SLeaf n nl f dl rl d) v = (if absent_value v then Null else Prim (the (read_encode d v)))"
| "stored_row (SStruct n nl f dl rl cs) v =
     (if absent_value v then Null else Obj (map (\<lambda>c. (sn_name c, stored_row c (property_or_null v (sn_name c)))) cs))"
| "stored_row (SList n nl f dl rl c) v = (if absent_value v then Null else case v of Arr xs \<Rightarrow> Arr (map (stored_row c) xs) | _ \<Rightarrow> Null)"
| "stored_row (SMap n nl f dl rl c) v = (if absent_value v then Null else case v of
     Arr xs \<Rightarrow> Arr (map (\<lambda>x. Arr [property (stored_row c (entry_object x)) key_name, property (stored_row c (entry_object x)) value_name]) xs)
   | _ \<Rightarrow> Null)"

lemma plain_property: "plain_value (property v name) = property (plain_value v) name"
proof (cases v)
  case (Obj ps)
  have "map_of (rev (map (\<lambda>(k, v). (k, plain_value v)) ps)) name = map_option plain_value (map_of (rev ps) name)"
    by (simp only: rev_map map_of_map comp_apply)
  then show ?thesis by (simp add: Obj split: option.split)
qed (auto split: option.split)

lemma physical_stored:
  "plain_value (physical (shape read_encode i n) v) = stored_row n v"
  "map (\<lambda>c. (nd_name c, plain_value (physical c (p (nd_name c))))) (shapes read_encode i cs) = map (\<lambda>c. (sn_name c, stored_row c (p (sn_name c)))) cs"
proof (induction "read_encode" i n and "read_encode" i cs arbitrary: v and p rule: shape_shapes.induct)
  case (1 i n nl f dl rl d)
  then show ?case by (simp add: read_encode_def)
next
  case (2 i n nl f dl rl cs)
  from this [of "property_or_null v"] show ?case by (simp add: comp_def)
next
  case (3 i n nl f dl rl c)
  then show ?case by (simp add: comp_def split: js_value.split)
next
  case (4 i n nl f dl rl c)
  then show ?case by (simp add: comp_def plain_property split: js_value.split)
qed simp_all

lemma stored_row_absent: "absent_value (stored_row n v) \<Longrightarrow> stored_row n v = Null"
  by (cases n) (auto split: if_splits js_value.splits)

definition loose_row :: "schema_node \<Rightarrow> js_data \<Rightarrow> bool" where
  "loose_row n v \<longleftrightarrow> absent_value v \<or> row_ok n v"

lemma stored_row_present: "loose_row n v \<Longrightarrow> absent_value (stored_row n v) = absent_value v"
  by (cases n) (auto simp: loose_row_def split: if_splits js_value.splits)

lemma nested_vector_built:
  assumes "\<forall>v \<in> set rows. loose_row n v" "length rows + 7 < 2 ^ 31"
  shows "validityOf (map (stored_row n) rows) = Inr (validity_of rows)"
    "built_with (validity_of rows) type (map (stored_row n) rows) = built type rows"
proof -
  have m: "map (\<lambda>v. \<not> absent_value v) (map (stored_row n) rows) = map (\<lambda>v. \<not> absent_value v) rows"
    "length (filter absent_value (map (stored_row n) rows)) = length (filter absent_value rows)"
    using assms(1) stored_row_present by (auto simp: filter_map comp_def cong: filter_cong)
  have "validityOf (map (stored_row n) rows) = makeValidity rows" unfolding validityOf_def makeValidity_def m by (rule refl)
  then show "validityOf (map (stored_row n) rows) = Inr (validity_of rows)" using assms(2) by (simp add: makeValidity_small)
  show "built_with (validity_of rows) type (map (stored_row n) rows) = built type rows"
    using built_with_validity [of rows type] by (intro ext) (simp add: built_with_def fun_eq_iff)
qed

definition nulls :: "js_data \<Rightarrow> js_data" where
  "nulls v = (if absent_value v then Null else v)"

lemma nulls_simps [simp]:
  "absent_value (nulls v) = absent_value v" "array_items (nulls v) = array_items v" "normal type (nulls v) = normal type v"
  "binary_part utf8 (nulls v) = binary_part utf8 v"
  by (cases v; simp add: nulls_def binary_part_def)+

lemma column_nulls:
  "filter (\<lambda>v. \<not> absent_value v) (map nulls rows) = filter (\<lambda>v. \<not> absent_value v) rows"
  "map array_items (map nulls rows) = map array_items rows" "parts_total utf8 (map nulls rows) = parts_total utf8 rows"
  "column_field (map nulls rows) f = column_field rows f" "column_entries (map nulls rows) = column_entries rows"
proof -
  show "filter (\<lambda>v. \<not> absent_value v) (map nulls rows) = filter (\<lambda>v. \<not> absent_value v) rows"
    by (induction rows) (simp_all, simp add: nulls_def)
  show m: "map array_items (map nulls rows) = map array_items rows" by simp
  show "parts_total utf8 (map nulls rows) = parts_total utf8 rows" by (simp add: parts_total_def comp_def)
  show "column_field (map nulls rows) f = column_field rows f" by (simp add: column_field_def nulls_def)
  show "column_entries (map nulls rows) = column_entries rows" unfolding column_entries_def m by (rule refl)
qed

lemma column_ok_nulls: "column_ok type (map nulls rows) = column_ok type rows"
  unfolding column_ok.simps [of type "map nulls rows"] column_ok.simps [of type rows] column_nulls length_map by (rule refl)

lemma reads_as_nulls: "reads_as v type (map nulls rows) = reads_as v type rows"
  by (simp add: reads_as_def filter_map comp_def)

text \<open>A leaf: the reader's converter undoes the writer's.\<close>

lemma leaf_decoded:
  assumes "same_leaf d d'" "absent_value v \<or> leaf_ok d v"
  shows "decode_leaf d' (if absent_value v then Null else Prim (the (read_encode d v))) = Inr (nulls v)"
proof (cases "absent_value v")
  case False
  then obtain x where x: "v = Prim x" "leaf_value (fd_type (ds_arrowField d)) x"
    using assms(2) by (auto simp: leaf_ok_def split: js_value.splits)
  then obtain p where "convert (ds_encode d) x = Inr p" "convert (ds_decode d') (store_value (ds_physicalType d) (ds_typeLength d) p) = Inr x"
    using assms(1) by (auto simp: same_leaf_def)
  then show ?thesis using x(1) by (simp add: decode_leaf_def read_encode_def leaf_encode_def nulls_def)
qed (simp add: decode_leaf_def nulls_def)

lemma build_leaf:
  assumes "same_leaf d d'" "\<forall>v \<in> set rows. loose_row (SLeaf n nl f dl rl d) v" "column_ok (fd_type f') rows"
  shows "\<exists>vec. buildNested (SLeaf n' nl f' dl rl d') (map (stored_row (SLeaf n nl f dl rl d)) rows) = Inr vec \<and> reads_as vec (fd_type f') rows"
proof -
  have "decode_leaf d' (stored_row (SLeaf n nl f dl rl d) v) = Inr (nulls v)" if "v \<in> set rows" for v
    unfolding stored_row.simps using bspec [OF assms(2) that] by (intro leaf_decoded [OF assms(1)]) (auto simp: loose_row_def split: if_splits)
  then have "mapR (decode_leaf d') (map (stored_row (SLeaf n nl f dl rl d)) rows) = Inr (map nulls rows)"
    by (simp add: mapR_nth del: stored_row.simps)
  then show ?thesis
    using vector_built [of "fd_type f'" "map nulls rows"] assms(3) by (simp add: column_ok_nulls reads_as_nulls)
qed

text \<open>A struct: the members of the assembled objects are the stored rows of the members.\<close>

lemma member_row:
  assumes "distinct (map sn_name cs)" "c \<in> set cs" "loose_row (SStruct n nl f dl rl cs) v"
  shows "(let w = stored_row (SStruct n nl f dl rl cs) v in if absent_value w then Null else property_or_null w (sn_name c)) =
    stored_row c (if absent_value v then Null else property_or_null v (sn_name c))"
proof (cases "absent_value v")
  case True
  then show ?thesis by (cases c) (simp_all add: Let_def)
next
  case False
  have "map_of (rev (map (\<lambda>c. (sn_name c, stored_row c (property_or_null v (sn_name c)))) cs)) (sn_name c) =
      Some (stored_row c (property_or_null v (sn_name c)))"
    using assms(1,2) by (intro map_of_is_SomeI) (simp_all add: rev_map comp_def distinct_map)
  then have "property (stored_row (SStruct n nl f dl rl cs) v) (sn_name c) = stored_row c (property_or_null v (sn_name c))"
    using False by (simp add: rev_map)
  moreover have "\<not> absent_value (stored_row (SStruct n nl f dl rl cs) v)" using False by simp
  ultimately show ?thesis using False stored_row_absent [of c "property_or_null v (sn_name c)"]
    by (auto simp add: property_or_null_def [of "stored_row _ _"] Let_def simp del: stored_row.simps)
qed

lemma build_struct:
  assumes names: "distinct (map sn_name cs)" "map sn_name cs = map sn_name cs'" and type: "fd_type f' = StructType (map sn_field cs')" "list_all typed_node cs'"
    and rows: "\<forall>v \<in> set rows. loose_row (SStruct n nl f dl rl cs) v" and ok: "column_ok (fd_type f') rows"
    and IH: "\<And>k rows. k < length cs \<Longrightarrow> \<forall>v \<in> set rows. loose_row (cs ! k) v \<Longrightarrow> column_ok (fd_type (sn_field (cs' ! k))) rows \<Longrightarrow>
      \<exists>vec. buildNested (cs' ! k) (map (stored_row (cs ! k)) rows) = Inr vec \<and> reads_as vec (fd_type (sn_field (cs' ! k))) rows"
  shows "\<exists>vec. buildNested (SStruct n' nl f' dl rl cs') (map (stored_row (SStruct n nl f dl rl cs)) rows) = Inr vec \<and> reads_as vec (fd_type f') rows"
proof -
  let ?n = "SStruct n nl f dl rl cs"
  let ?rows = "\<lambda>c. map (\<lambda>v. if absent_value v then Null else property_or_null v (sn_name c)) (map (stored_row ?n) rows)"
  have len: "length cs = length cs'" using names(2) by (metis length_map)
  have "\<exists>vec. buildNested c' (?rows c') = Inr vec \<and> reads_as vec (fd_type (sn_field c')) (column_field rows (sn_field c'))" if c': "c' \<in> set cs'" for c'
  proof -
    obtain k where k: "k < length cs" "c' = cs' ! k" using c' len by (auto simp: in_set_conv_nth)
    have nm: "sn_name (cs ! k) = sn_name c'" "fd_name (sn_field c') = sn_name c'"
      using names(2) k len typed_name type(2) c' by (metis nth_map, simp add: list_all_iff)
    have "(if absent_value (stored_row ?n v) then Null else property_or_null (stored_row ?n v) (sn_name c')) =
        stored_row (cs ! k) (if absent_value v then Null else property_or_null v (sn_name c'))" if "v \<in> set rows" for v
      using member_row [OF names(1) nth_mem [OF k(1)] bspec [OF rows that]] unfolding Let_def nm(1) .
    then have "?rows c' = map (stored_row (cs ! k)) (column_field rows (sn_field c'))"
      unfolding column_field_def nm(2) map_map comp_def by (intro map_cong [OF refl])
    moreover have "\<forall>v \<in> set (column_field rows (sn_field c')). loose_row (cs ! k) v"
      using rows nth_mem [OF k(1)] unfolding column_field_def nm(2) nm(1) [symmetric] by (auto simp: loose_row_def split: if_splits)
    moreover have "column_ok (fd_type (sn_field c')) (column_field rows (sn_field c'))"
      using ok c' unfolding type(1) column_ok.simps [of "StructType _"] by (simp add: Let_def list_all_iff)
    ultimately show ?thesis using IH [OF k(1)] k(2) by simp
  qed
  from mapR_ex [of cs' "\<lambda>c'. buildNested c' (?rows c')" "\<lambda>c' vec. reads_as vec (fd_type (sn_field c')) (column_field rows (sn_field c'))", OF this]
  obtain vs where "mapR (\<lambda>c'. buildNested c' (?rows c')) cs' = Inr vs"
    "list_all2 (\<lambda>f c. reads_as c (fd_type f) (column_field rows f)) (map sn_field cs') vs" by (auto simp: list_all2_map1)
  with struct_built [of rows "map sn_field cs'" vs] column_ok_length [OF ok] show ?thesis
    by (simp add: nested_vector_built [OF rows column_ok_length [OF ok]] type(1) del: stored_row.simps map_map)
qed

text \<open>Lists and maps.\<close>

lemma build_list:
  assumes type: "fd_type f' = ListType (sn_field c')"
    and rows: "\<forall>v \<in> set rows. loose_row (SList n nl f dl rl c) v" and ok: "column_ok (fd_type f') rows"
    and IH: "\<And>rows. \<forall>v \<in> set rows. loose_row c v \<Longrightarrow> column_ok (fd_type (sn_field c')) rows \<Longrightarrow>
      \<exists>vec. buildNested c' (map (stored_row c) rows) = Inr vec \<and> reads_as vec (fd_type (sn_field c')) rows"
  shows "\<exists>vec. buildNested (SList n' nl f' dl rl c') (map (stored_row (SList n nl f dl rl c)) rows) = Inr vec \<and> reads_as vec (fd_type f') rows"
proof -
  let ?n = "SList n nl f dl rl c"
  let ?items = "concat (map array_items rows)"
  have items: "array_items (stored_row ?n v) = map (stored_row c) (array_items v)" for v by (cases v) simp_all
  have flat: "concat (map array_items (map (stored_row ?n) rows)) = map (stored_row c) ?items"
    "map length (map array_items (map (stored_row ?n) rows)) = map length (map array_items rows)"
    by (simp_all only: map_map comp_def items map_concat length_map)
  have c: "\<forall>v \<in> set ?items. loose_row c v"
  proof
    fix x assume "x \<in> set ?items"
    then obtain v where v: "v \<in> set rows" "x \<in> set (array_items v)" by auto
    show "loose_row c x" using bspec [OF rows v(1)] v(2) by (cases v rule: js_value.exhaust) (auto simp: loose_row_def)
  qed
  have k: "list_all is_array (filter (\<lambda>v. \<not> absent_value v) rows)" "column_ok (fd_type (sn_field c')) ?items"
    using ok unfolding type column_ok.simps [of "ListType _"] by (simp_all add: Let_def)
  have len: "length ?items < 2 ^ 31" using column_ok_length [OF k(2)] by simp
  from IH [OF c k(2)] obtain vec where "buildNested c' (map (stored_row c) ?items) = Inr vec" "reads_as vec (fd_type (sn_field c')) ?items" by blast
  with list_built [of "fd_type f'" False "sn_field c'" rows vec] k(1) len column_ok_length [OF ok] type show ?thesis
    by (simp add: nested_vector_built [OF rows column_ok_length [OF ok]] flat del: map_map stored_row.simps)
qed

lemma entry_row:
  assumes "map sn_name cs = [key_name, value_name]" "\<not> absent_value e"
  shows "Obj [(key_name, property (stored_row (SStruct m b f dl rl cs) e) key_name), (value_name, property (stored_row (SStruct m b f dl rl cs) e) value_name)] =
    stored_row (SStruct m b f dl rl cs) e"
proof -
  obtain k v where "cs = [k, v]" "sn_name k = key_name" "sn_name v = value_name" using assms(1) by (auto simp: map_eq_Cons_conv)
  then show ?thesis using assms(2) names_not_indices(3,4) by simp
qed

lemma build_map:
  assumes type: "fd_type f' = MapType False (sn_field c')" "typed_node c'" and c: "c = SStruct m b fc dc rc cs"
    and alike: "alike c c'"
    and rows: "\<forall>v \<in> set rows. loose_row (SMap n nl f dl rl c) v" and ok: "column_ok (fd_type f') rows"
    and IH: "\<And>rows. \<forall>v \<in> set rows. loose_row c v \<Longrightarrow> column_ok (fd_type (sn_field c')) rows \<Longrightarrow>
      \<exists>vec. buildNested c' (map (stored_row c) rows) = Inr vec \<and> reads_as vec (fd_type (sn_field c')) rows"
  shows "\<exists>vec. buildNested (SMap n' nl f' dl rl c') (map (stored_row (SMap n nl f dl rl c)) rows) = Inr vec \<and> reads_as vec (fd_type f') rows"
proof -
  let ?n = "SMap n nl f dl rl c"
  let ?items = "concat (map array_items rows)"
  obtain fs where fs: "fd_type (sn_field c') = StructType fs" "map fd_name fs = [key_name, value_name]"
    and k: "list_all is_array (filter (\<lambda>v. \<not> absent_value v) rows)"
      "column_ok (fd_type (sn_field c')) (column_entries rows)"
    using ok unfolding type column_ok.simps [of "MapType _ _"] by (auto simp: Let_def split: data_type.splits)
  have len: "length ?items < 2 ^ 31" using column_ok_length [OF k(2)] by simp
  obtain m' f'' cs' where c': "c' = SStruct m' b f'' dc rc cs'" "map sn_name cs = map sn_name cs'"
    using alike unfolding c by (cases rule: alike.cases) auto
  have "map fd_name (map sn_field cs') = map sn_name cs'" using type(2) c'(1) typed_name by (auto simp: list_all_iff)
  moreover have "fs = map sn_field cs'" using fs(1) c'(1) type(2) by simp
  ultimately have names: "map sn_name cs = [key_name, value_name]" using fs(2) c'(2) by (simp only:)
  have entries: "mapR map_entry (array_items (stored_row ?n v)) = Inr (map (stored_row c) (map entry_object (array_items v)))" for v
  proof -
    let ?e = "\<lambda>x. Arr [property (stored_row c (entry_object x)) key_name, property (stored_row c (entry_object x)) value_name]"
    have "array_items (stored_row ?n v) = map ?e (array_items v)" by (cases v) simp_all
    moreover have "map_entry (?e x) = Inr (stored_row c (entry_object x))" for x
      using entry_row [OF names, of "entry_object x"] by (simp add: c entry_object_def [of "Arr _"] del: stored_row.simps) (simp add: entry_object_def)
    ultimately show ?thesis by (simp add: mapR_nth del: stored_row.simps)
  qed
  have "mapR (\<lambda>v. mapR map_entry (array_items v)) (map (stored_row ?n) rows) = Inr (map (\<lambda>v. map (stored_row c) (map entry_object (array_items v))) rows)"
    using entries by (simp add: mapR_nth del: stored_row.simps map_map)
  moreover have "concat (map (\<lambda>v. map (stored_row c) (map entry_object (array_items v))) rows) = map (stored_row c) (column_entries rows)"
    by (simp add: column_entries_def map_concat comp_def)
  moreover have "\<forall>v \<in> set (column_entries rows). loose_row c v"
  proof
    fix x assume "x \<in> set (column_entries rows)"
    then obtain v y where v: "v \<in> set rows" "y \<in> set (array_items v)" "x = entry_object y" by (auto simp: column_entries_def)
    show "loose_row c x" using bspec [OF rows v(1)] v(2,3) by (cases v rule: js_value.exhaust) (auto simp: loose_row_def)
  qed
  from IH [OF this k(2)] obtain vec where "buildNested c' (map (stored_row c) (column_entries rows)) = Inr vec"
    "reads_as vec (fd_type (sn_field c')) (column_entries rows)" by blast
  moreover have "map length (map (\<lambda>v. map (stored_row c) (map entry_object (array_items v))) rows) = map length (map array_items rows)" by simp
  ultimately show ?thesis
    using map_built [OF k(1) len column_ok_length [OF ok] fs, of vec False] by (simp add: nested_vector_built [OF rows column_ok_length [OF ok]] type(1) del: map_map stored_row.simps)
qed

lemma build_reads:
  "alike n n' \<Longrightarrow> typed_node n' \<Longrightarrow> node_ok R D (shape e i n) \<Longrightarrow> \<forall>v \<in> set rows. loose_row n v \<Longrightarrow> column_ok (fd_type (sn_field n')) rows \<Longrightarrow>
    \<exists>vec. buildNested n' (map (stored_row n) rows) = Inr vec \<and> reads_as vec (fd_type (sn_field n')) rows"
proof (induction arbitrary: R D i rows rule: alike.induct)
  case (leaf d d' n nl f dl rl n' f')
  from build_leaf [OF leaf(1,4)] leaf(5) show ?case by (simp only: schema_node.sel)
next
  case (struct cs cs' n nl f dl rl n' f')
  have d: "distinct (map sn_name cs)" using struct.prems(2) by simp
  have IH: "\<exists>vec. buildNested (cs' ! k) (map (stored_row (cs ! k)) rows) = Inr vec \<and> reads_as vec (fd_type (sn_field (cs' ! k))) rows"
    if "k < length cs" "\<forall>v \<in> set rows. loose_row (cs ! k) v" "column_ok (fd_type (sn_field (cs' ! k))) rows" for k rows
  proof -
    have "node_ok R dl (shape e i (cs ! k))" using that(1) by (intro node_ok_member [OF struct.prems(2)]) simp
    moreover have "k < length cs'" using list_all2_lengthD [OF struct(2)] that(1) by simp
    ultimately show ?thesis using struct(2) struct.prems(1) that by (auto simp: list_all2_conv_all_nth list_all_length)
  qed
  have t: "fd_type f' = StructType (map sn_field cs')" "list_all typed_node cs'" using struct.prems(1) by simp_all
  show ?case unfolding schema_node.sel
  proof (rule build_struct [OF d struct(1) t struct.prems(3)])
    show "column_ok (fd_type f') rows" using struct.prems(4) by simp
  qed (rule IH)
next
  case (list c c' n nl f dl rl n' f')
  have IH: "\<exists>vec. buildNested c' (map (stored_row c) rows) = Inr vec \<and> reads_as vec (fd_type (sn_field c')) rows"
    if "\<forall>v \<in> set rows. loose_row c v" "column_ok (fd_type (sn_field c')) rows" for rows
    using list.IH [OF _ node_ok_child(1) [OF list.prems(2)] that] list.prems(1) by simp
  have t: "fd_type f' = ListType (sn_field c')" using list.prems(1) by simp
  show ?case unfolding schema_node.sel
  proof (rule build_list [OF t list.prems(3)])
    show "column_ok (fd_type f') rows" using list.prems(4) by simp
  qed (rule IH)
next
  case (map c c' n nl f dl rl n' f')
  have IH: "\<exists>vec. buildNested c' (map (stored_row c) rows) = Inr vec \<and> reads_as vec (fd_type (sn_field c')) rows"
    if "\<forall>v \<in> set rows. loose_row c v" "column_ok (fd_type (sn_field c')) rows" for rows
    using map.IH [OF _ node_ok_child(2) [OF map.prems(2)] that] map.prems(1) by simp
  obtain m b fc dc rc cs where c: "c = SStruct m b fc dc rc cs" using map.prems(2) by (cases c) auto
  have t: "fd_type f' = MapType False (sn_field c')" "typed_node c'" using map.prems(1) by simp_all
  show ?case unfolding schema_node.sel
  proof (rule build_map [OF t c map(1) map.prems(3)])
    show "column_ok (fd_type f') rows" using map.prems(4) by simp
  qed (rule IH)
qed

lemma column_read:
  assumes "alike n n'" "typed_node n'" "node_ok 0 0 (shape leaf_encode 0 n)" "\<forall>v \<in> set rows. row_ok n v" "column_ok (fd_type (sn_field n')) rows"
    and "length ss = length (leaf_descriptors n)"
    "\<forall>j < length ss. leaf_written (leaf_descriptors n ! j) (column_slots (shape tag_leaf 0 n) rows j) (ss ! j)"
    and "\<forall>s \<in> set ss. length (ls_repLevels s) \<le> k"
  shows "\<exists>vec. assembleTree k n' (map stream_read ss) (length rows) = Inr vec \<and> reads_as vec (fd_type (sn_field n')) rows"
proof -
  have "assembleRows k (shape (\<lambda>d v. None) 0 n' :: (column_value, column_value option) node) (map stream_of_read (map stream_read ss)) (length rows) =
      Inr (map (physical (shape read_encode 0 n)) rows)"
    using rows_assembled [OF assms(3,4,6,7,8)] assembleRows_alike [OF assms(1), of k read_encode _ _ "\<lambda>d v. None"] by (simp add: comp_def)
  moreover have "map plain_value (map (physical (shape read_encode 0 n)) rows) = map (stored_row n) rows"
    by (simp add: physical_stored)
  moreover have "\<forall>v \<in> set rows. loose_row n v" using assms(4) by (simp add: loose_row_def)
  from build_reads [OF assms(1,2,3) this assms(5)]
  have "\<exists>vec. buildNested n' (map (stored_row n) rows) = Inr vec \<and> reads_as vec (fd_type (sn_field n')) rows" .
  ultimately show ?thesis by (simp add: assembleTree_def del: map_map)
qed

subsection \<open>Chunks\<close>

lemma path_ignored:
  "readLeafStream lib n k bytes (d\<lparr>cd_path := p\<rparr>) m = readLeafStream lib n k bytes d m"
proof -
  have sel: "cd_physicalType (d\<lparr>cd_path := p\<rparr>) = cd_physicalType d" "cd_typeLength (d\<lparr>cd_path := p\<rparr>) = cd_typeLength d"
    "cd_maxDefinitionLevel (d\<lparr>cd_path := p\<rparr>) = cd_maxDefinitionLevel d" "cd_maxRepetitionLevel (d\<lparr>cd_path := p\<rparr>) = cd_maxRepetitionLevel d" by simp_all
  have v: "decodeValues e (d\<lparr>cd_path := p\<rparr>) = decodeValues e d" for e
    by (intro ext) (simp add: decodeValues_def)
  have "read_page lib n bytes (d\<lparr>cd_path := p\<rparr>) m s = read_page lib n bytes d m s" for s
    unfolding read_page_def read_dictionary_page_def read_data_page_def read_data_page_v2_def v sel by (rule refl)
  then have "page_loop lib n k bytes (d\<lparr>cd_path := p\<rparr>) m s = page_loop lib n k bytes d m s" for s
    by (induction k arbitrary: s) (auto intro!: bindR_cong)
  then show ?thesis by (simp add: readLeafStream_def readColumnPages_def)
qed

lemma chunk_written:
  assumes "stream_ok s" "config_ok config (ls_values s)" "lossless lib" "writeLeafChunk lib config s off = Inr (bs, cc, u)"
  shows "\<exists>cm. cc_metaData cc = Some cm \<and> 0 \<le> u \<and>
    (u < 2 ^ 31 \<longrightarrow> off + length bs < 2 ^ 31 \<longrightarrow>
      (list_of stored_text (cd_path (ls_descriptor s)) \<longrightarrow> valid_ColumnChunk cc) \<and>
      (\<forall>n k pre post. 16 \<le> n \<longrightarrow> length pre = off \<longrightarrow>
        readLeafStream lib n (Suc (Suc k)) (pre @ bs @ post) (ls_descriptor s) cm = Inr (stream_read s)))"
proof -
  obtain cm where cm: "cc_metaData cc = Some cm" "0 \<le> u"
    and valid: "list_of stored_text (cd_path (ls_descriptor s)) \<Longrightarrow> u < 2 ^ 31 \<Longrightarrow> off + length bs < 2 ^ 31 \<Longrightarrow> valid_ColumnChunk cc"
    by (rule chunk_codec [OF assms(1-3) order_refl, of off]) (use assms(4) in auto)
  have "readLeafStream lib n (Suc (Suc k)) (pre @ bs @ post) (ls_descriptor s) cm = Inr (stream_read s)"
    if "16 \<le> n" "length pre = off" "u < 2 ^ 31" "off + length bs < 2 ^ 31" for n k pre post
    by (rule chunk_codec [OF assms(1-3) that(1), of off]) (use assms(4) cm(1) that in auto)
  with cm valid show ?thesis by blast
qed

definition chunks_ok :: "compressor \<Rightarrow> leaf_stream list \<Rightarrow> nat \<Rightarrow> byte list \<times> ColumnChunk list \<times> int \<Rightarrow> bool" where
  "chunks_ok lib ss off = (\<lambda>(body, ccs, u). length ccs = length ss \<and> 0 \<le> u \<and>
     (u < 2 ^ 31 \<longrightarrow> off + length body < 2 ^ 31 \<longrightarrow>
      (list_all (\<lambda>s. list_of stored_text (cd_path (ls_descriptor s))) ss \<longrightarrow> list_all valid_ColumnChunk ccs) \<and>
      (\<forall>n k pre post j. 16 \<le> n \<longrightarrow> length pre = off \<longrightarrow> j < length ss \<longrightarrow> (\<exists>cm. cc_metaData (ccs ! j) = Some cm \<and>
        readLeafStream lib n (Suc (Suc k)) (pre @ body @ post) (ls_descriptor (ss ! j)) cm = Inr (stream_read (ss ! j))))))"

lemma write_chunks_ok:
  assumes "list_all (\<lambda>s. stream_ok s \<and> config_ok config (ls_values s)) ss" "lossless lib"
  shows "\<exists>r. write_chunks lib config ss off = Inr r \<and> chunks_ok lib ss off r"
  using assms(1)
proof (induction ss arbitrary: off)
  case Nil
  show ?case by (simp add: chunks_ok_def)
next
  case (Cons s ss)
  then have s: "stream_ok s" "config_ok config (ls_values s)" by simp_all
  obtain bs cc u where w: "writeLeafChunk lib config s off = Inr (bs, cc, u)"
    by (rule chunk_codec [OF s assms(2) order_refl, of off])
  from chunk_written [OF s assms(2) w] obtain cm where cm: "cc_metaData cc = Some cm" "0 \<le> u"
    "u < 2 ^ 31 \<Longrightarrow> off + length bs < 2 ^ 31 \<Longrightarrow> list_of stored_text (cd_path (ls_descriptor s)) \<Longrightarrow> valid_ColumnChunk cc"
    "\<And>n k pre post. u < 2 ^ 31 \<Longrightarrow> off + length bs < 2 ^ 31 \<Longrightarrow> 16 \<le> n \<Longrightarrow> length pre = off \<Longrightarrow>
        readLeafStream lib n (Suc (Suc k)) (pre @ bs @ post) (ls_descriptor s) cm = Inr (stream_read s)" by blast
  from Cons.IH [of "off + length bs"] Cons.prems obtain bs' ccs u' where r: "write_chunks lib config ss (off + length bs) = Inr (bs', ccs, u')"
    "chunks_ok lib ss (off + length bs) (bs', ccs, u')" by auto
  note ok = r(2) [unfolded chunks_ok_def prod.case]
  have "\<exists>cm. cc_metaData ((cc # ccs) ! j) = Some cm \<and>
      readLeafStream lib n (Suc (Suc k)) (pre @ (bs @ bs') @ post) (ls_descriptor ((s # ss) ! j)) cm = Inr (stream_read ((s # ss) ! j))"
    if small: "u + u' < 2 ^ 31" "off + length (bs @ bs') < 2 ^ 31" and n: "16 \<le> n" "length pre = off" "j < length (s # ss)" for n k pre post j
  proof (cases j)
    case 0
    then show ?thesis using cm(1) cm(4) [of n pre k "bs' @ post"] small n ok by simp
  next
    case (Suc i)
    have "u' < 2 ^ 31" "off + length bs + length bs' < 2 ^ 31" "length (pre @ bs) = off + length bs" "i < length ss"
      using small n cm(2) Suc by simp_all
    then have "\<exists>cm. cc_metaData (ccs ! i) = Some cm \<and>
        readLeafStream lib n (Suc (Suc k)) ((pre @ bs) @ bs' @ post) (ls_descriptor (ss ! i)) cm = Inr (stream_read (ss ! i))"
      using ok n(1) by blast
    then show ?thesis by (simp add: Suc)
  qed
  moreover have "list_all valid_ColumnChunk (cc # ccs)"
    if "u + u' < 2 ^ 31" "off + length (bs @ bs') < 2 ^ 31" "list_all (\<lambda>s. list_of stored_text (cd_path (ls_descriptor s))) (s # ss)"
    using that cm(2,3) ok by simp
  ultimately have "chunks_ok lib (s # ss) off (bs @ bs', cc # ccs, u + u')"
    using ok cm(2) unfolding chunks_ok_def prod.case by simp
  then show ?case using w r(1) by simp
qed

end
