(* ===== verification/Parquet_Roundtrip.thy ===== *)
theory Parquet_Roundtrip
  imports Parquet_Assembly
begin

text \<open>
  A whole table through \<open>writeParquet\<close> and \<open>readParquet\<close>.
\<close>

subsection \<open>The trees of a schema\<close>

lemma leaf_node_built:
  assumes "leaf_type (fd_type f)" "leaf_node f D R path = Inr n"
  shows "built_node n"
proof -
  obtain info where i: "arrowTypeToParquet (fd_type f) = Inr info" using leaf_codec [OF assms(1)] by blast
  have "n = SLeaf (fd_name f) (fd_nullable f) f (D + (if fd_nullable f then 1 else 0)) R
         \<lparr>ds_name = fd_name f, ds_path = path @ [fd_name f], ds_physicalType = ti_physicalType info,
          ds_typeLength = ti_typeLength info, ds_maxDefinitionLevel = D + (if fd_nullable f then 1 else 0), ds_maxRepetitionLevel = R,
          ds_arrowField = f, ds_decode = ti_decode info, ds_encode = ti_encode info\<rparr>"
    using assms(2) by (simp add: leaf_node_def i Let_def)
  then show ?thesis using i assms(1) by (simp add: built_leaf_def)
qed

lemma build_built: "buildNode f D R path = Inr n \<Longrightarrow> field_ok f \<Longrightarrow> built_node n"
proof (induction f arbitrary: D R path n rule: measure_induct_rule [where f = size])
  case (less f)
  obtain name type nl md where f: "f = Field name type nl md" by (cases f)
  have members: "list_all built_node cs"
    if "mapR (\<lambda>g. buildNode g D' R' path') fs = Inr cs" "list_all field_ok fs" "\<And>g. g \<in> set fs \<Longrightarrow> size g < size f" for fs cs D' R' path'
    unfolding list_all_length
  proof (intro allI impI)
    fix k assume "k < length cs"
    then have k: "buildNode (fs ! k) D' R' path' = Inr (cs ! k)" "fs ! k \<in> set fs" using that(1) by (simp_all add: mapR_nth)
    then show "built_node (cs ! k)" using less.IH [OF that(3) [OF k(2)] k(1)] that(2) by (simp add: list_all_iff)
  qed
  show ?case
  proof (cases "list_child type")
    case (Some c)
    then obtain n' where n': "buildNode c (D + of_bool nl + 1) (R + 1) (path @ [name, list_segment]) = Inr n'" "built_node n = built_node n'"
      using less.prems(1) by (auto simp: f buildNode.simps [of name] Let_def bindR_eq_Inr split: if_splits)
    have "size c < size f" "field_ok c" using list_child_size [OF Some] less.prems(2) Some by (simp_all add: f)
    from less.IH [OF this(1) n'(1) this(2)] n'(2) show ?thesis by simp
  next
    case None
    consider (struct) fs where "type = StructType fs" | (map) ks c where "type = MapType ks c" | (leaf) "\<not> isNested type"
      using None by (cases type) (auto simp: list_child_def isNested_def)
    then show ?thesis
    proof cases
      case struct
      have "size g < size f" if "g \<in> set fs" for g using struct_fields_size [of g f] that by (simp add: f struct struct_fields_def)
      then show ?thesis using less.prems None members [of _ _ _ fs]
        by (auto simp: f struct buildNode.simps [of name] Let_def bindR_eq_Inr split: if_splits)
    next
      case map
      obtain nm t md' where c: "c = Field nm t False md'" using less.prems(2) None by (cases c) (auto simp: f map)
      then obtain fs where t: "t = StructType fs" "list_all field_ok fs" using less.prems(2) None
        by (auto simp: f map struct_fields_def split: data_type.splits)
      have "size g < size f" if "g \<in> set fs" for g using struct_fields_size [of g c] that by (simp add: f map c t struct_fields_def)
      then show ?thesis using less.prems None members [of _ _ _ fs] t(2)
        by (auto simp: f map c t buildNode.simps [of name] buildNode.simps [of nm] list_child_def Let_def bindR_eq_Inr split: if_splits)
    next
      case leaf
      then have "leaf_type type" using less.prems(2) None by (cases type) (simp_all add: f isNested_def)
      moreover have "leaf_node f D R path = Inr n" using less.prems(1) leaf None by (cases type) (simp_all add: f buildNode.simps isNested_def Let_def)
      ultimately show ?thesis using leaf_node_built [of f] by (simp add: f)
    qed
  qed
qed

subsection \<open>The columns of a table\<close>

definition table_columns :: "Table \<Rightarrow> js_error + js_data list list" where
  "table_columns t = mapR (\<lambda>i. bindR (table_columnAt t i) column_toArray) [0..<length (tb_schema t)]"

text \<open>What the constructors guarantee.\<close>

definition table_ok :: "Table \<Rightarrow> bool" where
  "table_ok t \<longleftrightarrow> newTable (tb_schema t) (tb_batches t) = Inr t \<and> list_all (\<lambda>b. newRecordBatch (rb_schema b) (rb_columns b) = Inr b) (tb_batches t)"

lemma batch_lengths:
  assumes "newRecordBatch (rb_schema b) (rb_columns b) = Inr b" "i < length (rb_columns b)"
  shows "vd_length (rb_columns b ! i) = rb_numRows b"
proof -
  let ?n = "case rb_columns b of [] \<Rightarrow> 0 | c # _ \<Rightarrow> vd_length c"
  have "b = \<lparr>rb_schema = rb_schema b, rb_columns = rb_columns b, rb_numRows = ?n\<rparr>" "\<not> list_ex (\<lambda>c. vd_length c \<noteq> ?n) (rb_columns b)"
    using assms(1) by (auto simp: newRecordBatch_def Let_def split: if_splits)
  then have "rb_numRows b = ?n" "\<forall>c \<in> set (rb_columns b). vd_length c = ?n" by (metis RecordBatch.select_convs(3), simp add: list_ex_iff)
  then show ?thesis using assms(2) by simp
qed

lemma column_of_table:
  assumes "table_ok t" "table_columns t = Inr cols" "i < length (tb_schema t)"
  shows "\<exists>rss. mapR (column_rows i) (tb_batches t) = Inr rss \<and> concat rss = cols ! i \<and> length (cols ! i) = tb_numRows t"
proof -
  have "bindR (table_columnAt t i) column_toArray = Inr (cols ! i)" using assms(2,3) by (simp add: table_columns_def mapR_nth)
  then obtain xss where x: "list_all (\<lambda>b. i < length (rb_columns b)) (tb_batches t)"
    "mapR toArray (map (\<lambda>b. rb_columns b ! i) (tb_batches t)) = Inr xss" "concat xss = cols ! i"
    by (auto simp: table_columnAt_def bindR_eq_Inr column_toArray_def newColumn_def split: if_splits)
  have len: "vd_length (rb_columns b ! i) = rb_numRows b" "i < length (rb_columns b)" if "b \<in> set (tb_batches t)" for b
    using that assms(1) x(1) batch_lengths [of b i] by (simp_all add: table_ok_def list_all_iff)
  have b: "column_rows i b = toArray (rb_columns b ! i)" if "b \<in> set (tb_batches t)" for b
    using len [OF that] by (simp add: column_rows_def toArray_def)
  have b2: "length xs = rb_numRows b" if "b \<in> set (tb_batches t)" "toArray (rb_columns b ! i) = Inr xs" for b xs
    using len(1) [OF that(1)] that(2) by (simp add: toArray_iff)
  have "mapR (column_rows i) (tb_batches t) = Inr xss" using x(2) b by (simp add: mapR_nth)
  moreover have "map length xss = map rb_numRows (tb_batches t)" using x(2) b2 by (auto simp: mapR_nth intro!: nth_equalityI)
  moreover have "tb_numRows t = sum_list (map rb_numRows (tb_batches t))"
    using assms(1) by (auto simp: table_ok_def newTable_def split: if_splits dest: arg_cong [of _ _ tb_numRows])
  ultimately show ?thesis using x(3) by (metis length_concat)
qed

subsection \<open>The streams of a table\<close>

definition node_written :: "schema_node \<Rightarrow> js_data list \<Rightarrow> leaf_stream list \<Rightarrow> bool" where
  "node_written n rows ss \<longleftrightarrow> length ss = length (leaf_descriptors n) \<and>
     (\<forall>j < length ss. leaf_written (leaf_descriptors n ! j) (column_slots (shape tag_leaf 0 n) rows j) (ss ! j))"

definition node_fine :: "schema_node \<Rightarrow> js_data list \<Rightarrow> bool" where
  "node_fine n rows \<longleftrightarrow> built_node n \<and> node_ok 0 0 (shape leaf_encode 0 n) \<and> (\<forall>v \<in> set rows. row_ok n v)"

lemma table_streams_built:
  assumes "table_ok t" "table_columns t = Inr cols" "length nodes = length (tb_schema t)" "list_all2 node_fine nodes cols"
  shows "\<exists>sss. table_streams nodes t = Inr (concat sss) \<and> length sss = length nodes \<and>
    (\<forall>i < length nodes. node_written (nodes ! i) (cols ! i) (sss ! i))"
proof -
  have "\<exists>ss. node_streams t (nodes ! i, i) = Inr ss \<and> node_written (nodes ! i) (cols ! i) ss" if i: "i < length nodes" for i
  proof -
    obtain rss where rss: "mapR (column_rows i) (tb_batches t) = Inr rss" "concat rss = cols ! i"
      using column_of_table [OF assms(1,2), of i] i assms(3) by auto
    have "node_fine (nodes ! i) (cols ! i)" using assms(4) i by (simp add: list_all2_conv_all_nth)
    then show ?thesis using node_streams_built [OF _ _ rss(1), of "nodes ! i"] rss(2) by (auto simp: node_fine_def node_written_def)
  qed
  from mapR_ex [of "[0..<length nodes]" "\<lambda>i. node_streams t (nodes ! i, i)" "\<lambda>i ss. node_written (nodes ! i) (cols ! i) ss"] this
  obtain sss where s: "mapR (\<lambda>i. node_streams t (nodes ! i, i)) [0..<length nodes] = Inr sss"
    "list_all2 (\<lambda>i ss. node_written (nodes ! i) (cols ! i) ss) [0..<length nodes] sss" by auto
  have "mapR (node_streams t) (zip nodes [0..<length nodes]) = Inr sss" using s(1) by (simp add: mapR_nth)
  then show ?thesis using s(2) by (auto simp: table_streams_def list_all2_conv_all_nth)
qed

lemma concat_at:
  "i < length xss \<Longrightarrow> j < length (xss ! i) \<Longrightarrow>
    sum_list (map length (take i xss)) + j < length (concat xss) \<and> concat xss ! (sum_list (map length (take i xss)) + j) = xss ! i ! j"
proof (induction xss arbitrary: i)
  case (Cons xs xss)
  then show ?case by (cases i) (auto simp: nth_append add.assoc)
qed simp

lemma column_of_alike:
  assumes "same_leaf d d'" "column_of d = Inr cd"
  shows "column_of d' = Inr (cd\<lparr>cd_path := ds_path d'\<rparr>)"
  using assms by (auto simp: column_of_def same_leaf_def split: if_splits)

text \<open>Every leaf stream is read back from the chunk at its position.\<close>

definition chunks_read :: "compressor \<Rightarrow> nat \<Rightarrow> byte list \<Rightarrow> leaf_stream list \<Rightarrow> ColumnChunk list \<Rightarrow> bool" where
  "chunks_read lib n bytes ss ccs \<longleftrightarrow> length ccs = length ss \<and> (\<forall>j < length ss. \<exists>cm. cc_metaData (ccs ! j) = Some cm \<and>
     readLeafStream lib n n bytes (ls_descriptor (ss ! j)) cm = Inr (stream_read (ss ! j)))"

lemma read_column_ok:
  assumes sss: "length sss = length nodes" "\<And>i. i < length nodes \<Longrightarrow> node_written (nodes ! i) (cols ! i) (sss ! i)"
    and nodes': "list_all2 alike nodes (pf_nodes parsed)" "list_all typed_node (pf_nodes parsed)"
    and read: "chunks_read lib n (pf_bytes parsed) (concat sss) (rg_columns rg)" and n: "\<forall>s \<in> set (concat sss). length (ls_repLevels s) \<le> n"
    and rows: "nat (number_of_bigint (rg_numRows rg)) = length (cols ! i)" "node_fine (nodes ! i) (cols ! i)"
      "column_ok (fd_type (sn_field (pf_nodes parsed ! i))) (cols ! i)" and i: "i < length nodes"
  shows "\<exists>vec. read_column lib n parsed rg i = Inr vec \<and> reads_as vec (fd_type (sn_field (pf_nodes parsed ! i))) (cols ! i)"
proof -
  let ?n = "nodes ! i" and ?n' = "pf_nodes parsed ! i" and ?ss = "sss ! i"
  let ?ds = "leaf_descriptors ?n" and ?ds' = "leaf_descriptors ?n'" and ?off = "sum_list (map length (take i sss))"
  have len: "length nodes = length (pf_nodes parsed)" using nodes'(1) by (rule list_all2_lengthD)
  have al: "alike (nodes ! k) (pf_nodes parsed ! k)" if "k < length nodes" for k using nodes'(1) that by (simp add: list_all2_conv_all_nth)
  have w: "node_written ?n (cols ! i) ?ss" by (rule sss(2) [OF i])
  have ds: "length ?ds' = length ?ss" "length ?ds = length ?ss" using w alike_count [OF al [OF i]] by (simp_all add: node_written_def)
  have "length (leaf_descriptors (pf_nodes parsed ! k)) = length (sss ! k)" if "k < length nodes" for k
    using sss(2) [OF that] alike_count [OF al [OF that]] by (simp add: node_written_def)
  then have "map (\<lambda>n. length (leaf_descriptors n)) (take i (pf_nodes parsed)) = map length (take i sss)"
    using sss(1) i len by (intro nth_equalityI) auto
  then have off: "nodeOffsets (pf_nodes parsed) ! i = ?off" using i len by (simp add: nodeOffsets_def)
  have "read_chunk lib n (pf_bytes parsed) rg (?ds' ! j, ?off + j) = Inr (stream_read (?ss ! j))" if j: "j < length ?ss" for j
  proof -
    have c: "?off + j < length (concat sss)" "concat sss ! (?off + j) = ?ss ! j" using concat_at [of i sss j] i j sss(1) by simp_all
    then obtain cm where cm: "cc_metaData (rg_columns rg ! (?off + j)) = Some cm"
      "readLeafStream lib n n (pf_bytes parsed) (ls_descriptor (?ss ! j)) cm = Inr (stream_read (?ss ! j))"
      using read unfolding chunks_read_def by metis
    have "same_leaf (?ds ! j) (?ds' ! j)" using alike_leaves [OF al [OF i]] j ds by (simp add: list_all2_conv_all_nth)
    moreover have "column_of (?ds ! j) = Inr (ls_descriptor (?ss ! j))" using w j by (simp add: node_written_def leaf_written_def)
    ultimately have "column_of (?ds' ! j) = Inr ((ls_descriptor (?ss ! j))\<lparr>cd_path := ds_path (?ds' ! j)\<rparr>)" by (rule column_of_alike)
    then show ?thesis using cm by (simp add: read_chunk_def path_ignored)
  qed
  then have "mapR (read_chunk lib n (pf_bytes parsed) rg) (zip ?ds' [?off..<?off + length ?ds']) = Inr (map stream_read ?ss)"
    by (simp add: mapR_nth ds)
  moreover have "\<exists>vec. assembleTree n ?n' (map stream_read ?ss) (length (cols ! i)) = Inr vec \<and> reads_as vec (fd_type (sn_field ?n')) (cols ! i)"
  proof (rule column_read [OF al [OF i]])
    show "typed_node ?n'" using nodes'(2) i len by (simp add: list_all_length)
    show "\<forall>s \<in> set ?ss. length (ls_repLevels s) \<le> n" using n i sss(1) by auto
  qed (use rows w in \<open>auto simp: node_fine_def node_written_def\<close>)
  ultimately show ?thesis by (simp add: read_column_def Let_def off rows(1))
qed

subsection \<open>The file\<close>

lemma uint32_read:
  assumes "n < 2 ^ 32"
  shows "get_le 4 (pre @ uint32_le n @ post) (length pre) = Inr n"
proof -
  have "length (uint32_le n) = 4" by (simp add: uint32_le_def)
  moreover have "be_uint (rev (uint32_le n)) = n"
    using assms be_uint_be_bytes [of n 4] by (simp add: uint32_le_def le_bytes_def take_bit_nat_eq_self)
  ultimately show ?thesis by (simp add: get_le_def)
qed

lemma parse_written:
  assumes m: "valid_FileMetaData m" "writeFileMetaData m = Inr footer" and bytes: "bytes = MAGIC @ body @ footer @ uint32_le (length footer) @ MAGIC"
    and small: "length bytes < 2 ^ 32" and n: "16 \<le> n" and nodes: "schemaElementsToNodes n (fm_schema m) = Inr (fs, nodes)"
  shows "parseFile n bytes = Inr \<lparr>pf_bytes = bytes, pf_meta = m, pf_schema = fs, pf_nodes = nodes\<rparr>"
proof -
  have l: "length (uint32_le k) = 4" for k by (simp add: uint32_le_def)
  have len: "length bytes = 12 + length body + length footer" by (simp add: bytes MAGIC_def l)
  have magic: "checkMagic bytes = Inr ()"
  proof -
    have "length bytes - 4 = length (MAGIC @ body @ footer @ uint32_le (length footer))" by (simp add: bytes MAGIC_def l)
    then have "drop (length bytes - 4) bytes = MAGIC" by (simp add: bytes)
    moreover have "take 4 bytes = MAGIC" by (simp add: bytes MAGIC_def)
    ultimately show ?thesis using len by (simp add: checkMagic_def)
  qed
  have "get_le 4 bytes (length (MAGIC @ body @ footer)) = Inr (length footer)"
    using uint32_read [of "length footer" "MAGIC @ body @ footer" MAGIC] small len by (simp add: bytes)
  moreover have "length (MAGIC @ body @ footer) = length bytes - 8" by (simp add: bytes MAGIC_def l)
  ultimately have footerLen: "get_le 4 bytes (length bytes - 8) = Inr (length footer)" by simp
  have start: "int (length bytes) - 8 - int (length footer) = int (length (MAGIC @ body))"
    "int (length bytes) - 8 = int (length (MAGIC @ body)) + int (length footer)" by (simp_all add: bytes MAGIC_def l)
  have "subarray bytes (int (length (MAGIC @ body))) (int (length (MAGIC @ body)) + int (length footer)) = footer"
    using subarray_inner [of "MAGIC @ body" footer "uint32_le (length footer) @ MAGIC"] by (simp add: bytes)
  moreover have "readFileMetaData n footer = Inr m"
  proof -
    obtain bs where "writeFileMetaData m = Inr bs" "\<And>rest. readFileMetaData n (bs @ rest) = Inr m" using footer_codec [OF m(1) n] by blast
    from this(1) this(2) [of "[]"] show ?thesis using m(2) by simp
  qed
  ultimately show ?thesis
    using nodes by (simp add: parseFile_def magic footerLen start Let_def MAGIC_def del: length_append)
qed

lemma batch_of_columns:
  assumes "length vecs = length schema" "\<And>i. i < length vecs \<Longrightarrow> vd_length (vecs ! i) = m"
  shows "\<exists>b. newRecordBatch schema vecs = Inr b \<and> rb_schema b = schema \<and> rb_columns b = vecs"
proof (cases vecs)
  case (Cons v vs)
  have "\<forall>c \<in> set vecs. vd_length c = m" using assms(2) by (auto simp: in_set_conv_nth)
  then show ?thesis using assms(1) by (auto simp: newRecordBatch_def Cons list_ex_iff)
qed (use assms in \<open>simp add: newRecordBatch_def\<close>)

lemma read_table:
  assumes parsed: "parseFile n bytes = Inr parsed" "fm_rowGroups (pf_meta parsed) = [rg]"
    and count: "length (rg_columns rg) = sum_list (map (\<lambda>n. length (leaf_descriptors n)) (pf_nodes parsed))"
    and cols: "length cols = length (pf_nodes parsed)" "\<And>i. i < length cols \<Longrightarrow> length (cols ! i) = m"
      "\<And>i. i < length cols \<Longrightarrow> \<exists>vec. read_column lib n parsed rg i = Inr vec \<and> reads_as vec (fd_type (sn_field (pf_nodes parsed ! i))) (cols ! i)"
  shows "\<exists>t'. readParquet lib n bytes whole_file = Inr t' \<and> tb_schema t' = map sn_field (pf_nodes parsed) \<and>
    table_columns t' = Inr (map2 (\<lambda>f. map (normal (fd_type f))) (tb_schema t') cols)"
proof -
  let ?nodes = "pf_nodes parsed"
  let ?schema = "map sn_field ?nodes"
  have sch: "map (\<lambda>i. sn_field (?nodes ! i)) [0..<length ?nodes] = ?schema" by (rule nth_equalityI) simp_all
  from mapR_ex [of "[0..<length ?nodes]" "read_column lib n parsed rg" "\<lambda>i vec. reads_as vec (fd_type (sn_field (?nodes ! i))) (cols ! i)"] cols(1,3)
  obtain vecs where v: "mapR (read_column lib n parsed rg) [0..<length ?nodes] = Inr vecs"
    "list_all2 (\<lambda>i vec. reads_as vec (fd_type (sn_field (?nodes ! i))) (cols ! i)) [0..<length ?nodes] vecs" by auto
  have vec: "length vecs = length ?nodes" "\<And>i. i < length vecs \<Longrightarrow> reads_as (vecs ! i) (fd_type (sn_field (?nodes ! i))) (cols ! i)"
    using v(2) by (auto simp: list_all2_conv_all_nth)
  then obtain b where b: "newRecordBatch ?schema vecs = Inr b" "rb_schema b = ?schema" "rb_columns b = vecs"
    using batch_of_columns [of vecs ?schema m] cols(1,2) by (auto simp: reads_as_def)
  define t' where "t' = \<lparr>tb_schema = ?schema, tb_batches = [b], tb_numRows = rb_numRows b\<rparr>"
  have "read_group lib n parsed [0..<length ?nodes] ?schema rg = Inr b" using count v(1) b(1) by (simp add: read_group_def)
  then have "readParquet lib n bytes whole_file = Inr t'"
    by (simp add: readParquet_def parsed whole_file_def selectedNodeIndices_def selectedGroups_def sch Let_def newTable_def b(2) t'_def)
  moreover have "table_columns t' = Inr (map2 (\<lambda>f. map (normal (fd_type f))) ?schema cols)"
    unfolding table_columns_def mapR_nth
  proof (intro conjI allI impI)
    fix i assume "i < length [0..<length (tb_schema t')]"
    then have i: "i < length vecs" "i < length ?nodes" using vec(1) by (simp_all add: t'_def)
    have "toArray (vecs ! i) = Inr (map (normal (fd_type (sn_field (?nodes ! i)))) (cols ! i))"
      using vec(2) [OF i(1)] by (simp add: reads_as_def toArray_iff)
    then show "bindR (table_columnAt t' ([0..<length (tb_schema t')] ! i)) column_toArray =
        Inr (map2 (\<lambda>f. map (normal (fd_type f))) ?schema cols ! i)"
      using i cols(1) by (simp add: t'_def table_columnAt_def b(3) newColumn_def column_toArray_def)
  qed (use cols(1) in \<open>simp add: t'_def\<close>)
  ultimately show ?thesis by (auto simp: t'_def)
qed

subsection \<open>The round trip\<close>

text \<open>What the columns may hold, and the sizes that fit the format. Where a step of the writer would fail, nothing is asked.\<close>

definition columns_ok :: "Table \<Rightarrow> js_data list list \<Rightarrow> bool" where
  "columns_ok t cols \<longleftrightarrow> (case buildNodes (tb_schema t) of Inl e \<Rightarrow> True | Inr nodes \<Rightarrow>
     list_all2 (\<lambda>n rows. list_all (row_ok n) rows \<and> column_ok (fd_type (stored_field (sn_name n) (sn_field n))) rows) nodes cols)"

definition file_fits :: "compressor \<Rightarrow> ParquetWriteOptions \<Rightarrow> Table \<Rightarrow> bool" where
  "file_fits lib opts t \<longleftrightarrow> tb_numRows t < 2 ^ 31 \<and>
     (case buildNodes (tb_schema t) of Inl e \<Rightarrow> True | Inr nodes \<Rightarrow>
       (case nodesToSchemaElements nodes of Inl e \<Rightarrow> True | Inr els \<Rightarrow> length els < 2 ^ 31) \<and>
       (case table_streams nodes t of Inl e \<Rightarrow> True | Inr streams \<Rightarrow> length streams < 2 ^ 31 \<and>
         list_all (stream_fits (write_config_of opts)) streams \<and>
         (case write_chunks lib (write_config_of opts) streams (length MAGIC) of Inl e \<Rightarrow> True | Inr (body, chunks, u) \<Rightarrow>
           u < 2 ^ 31 \<and> length MAGIC + length body < 2 ^ 31))) \<and>
     (case writeParquet lib opts t of Inl e \<Rightarrow> True | Inr bytes \<Rightarrow> length bytes < 2 ^ 32)"

lemma written_metadata:
  assumes "list_all valid_SchemaElement els" "length els < 2 ^ 31" "list_all valid_ColumnChunk ccs" "length ccs < 2 ^ 31" "0 \<le> u" "u < 2 ^ 31" "m < 2 ^ 31"
  shows "valid_FileMetaData (file_metadata els ccs u m)"
proof -
  have "stored_text [102, 105, 110, 111]" by (rule stored_text_ascii) simp_all
  then show ?thesis using assms
    by (simp add: valid_FileMetaData_def valid_RowGroup_def file_metadata_def list_of_def short_def opt_def int_range_def)
qed

lemma streams_fit:
  assumes "length sss = length nodes" "\<And>i. i < length nodes \<Longrightarrow> node_written (nodes ! i) (cols ! i) (sss ! i)" "list_all (stream_fits config) (concat sss)"
  shows "list_all (\<lambda>s. stream_ok s \<and> config_ok config (ls_values s)) (concat sss)"
    "list_all (\<lambda>s. list_of stored_text (cd_path (ls_descriptor s))) (concat sss)"
proof -
  have fits: "stream_fits config s" if "s \<in> set (concat sss)" for s using assms(3) that by (simp only: list_all_iff)
  have "stream_ok s" if s: "s \<in> set (concat sss)" for s
  proof -
    from s obtain ss where "ss \<in> set sss" "s \<in> set ss" by auto
    then obtain i j where i: "i < length sss" "j < length (sss ! i)" "s = sss ! i ! j" by (auto simp: in_set_conv_nth)
    have "node_written (nodes ! i) (cols ! i) (sss ! i)" by (rule assms(2)) (use i(1) assms(1) in simp)
    then show ?thesis using i(2,3) fits [OF s] unfolding node_written_def leaf_written_def by blast
  qed
  then show "list_all (\<lambda>s. stream_ok s \<and> config_ok config (ls_values s)) (concat sss)"
    "list_all (\<lambda>s. list_of stored_text (cd_path (ls_descriptor s))) (concat sss)"
    using fits unfolding list_all_iff by (auto simp: stream_fits_def Let_def)
qed

lemma file_read:
  assumes parsed: "parseFile n bytes = Inr parsed" "fm_rowGroups (pf_meta parsed) = [rg]" "rg_numRows rg = int m" "m < 2 ^ 31"
    and nodes: "list_all2 alike nodes (pf_nodes parsed)" "list_all2 node_fine nodes cols"
    and sss: "length sss = length nodes" "\<And>i. i < length nodes \<Longrightarrow> node_written (nodes ! i) (cols ! i) (sss ! i)"
    and read: "chunks_read lib n bytes (concat sss) (rg_columns rg)" "\<forall>s \<in> set (concat sss). length (ls_repLevels s) \<le> n"
    and cols: "\<And>i. i < length nodes \<Longrightarrow> length (cols ! i) = m" "\<And>i. i < length nodes \<Longrightarrow> column_ok (fd_type (sn_field (pf_nodes parsed ! i))) (cols ! i)"
  shows "\<exists>t'. readParquet lib n bytes whole_file = Inr t' \<and> tb_schema t' = map sn_field (pf_nodes parsed) \<and>
    table_columns t' = Inr (map2 (\<lambda>f. map (normal (fd_type f))) (tb_schema t') cols)"
proof (rule read_table [OF parsed(1,2)])
  note facts = parseFile_nodes [OF parsed(1)]
  have len: "length nodes = length cols" "length nodes = length (pf_nodes parsed)" using nodes by (auto dest: list_all2_lengthD)
  then show "length cols = length (pf_nodes parsed)" by simp
  have "length (leaf_descriptors (pf_nodes parsed ! k)) = length (sss ! k)" if "k < length nodes" for k
    using sss(2) [OF that] alike_count [of "nodes ! k"] nodes(1) that by (auto simp: node_written_def list_all2_conv_all_nth)
  then have "map (\<lambda>n. length (leaf_descriptors n)) (pf_nodes parsed) = map length sss"
    using sss(1) len by (intro nth_equalityI) auto
  then show "length (rg_columns rg) = sum_list (map (\<lambda>n. length (leaf_descriptors n)) (pf_nodes parsed))"
    using read(1) by (simp add: chunks_read_def length_concat)
  fix i assume i: "i < length cols"
  then show "length (cols ! i) = m" using cols(1) len by simp
  then have "nat (number_of_bigint (rg_numRows rg)) = length (cols ! i)" using parsed(3,4) by (simp add: number_of_small)
  then show "\<exists>vec. read_column lib n parsed rg i = Inr vec \<and> reads_as vec (fd_type (sn_field (pf_nodes parsed ! i))) (cols ! i)"
    using i len nodes cols(2) read facts by (intro read_column_ok [OF sss nodes(1)]) (auto simp: list_all2_conv_all_nth)
qed

lemma chunks_read_back:
  assumes "chunks_ok lib ss (length pre) (body, ccs, u)" "u < 2 ^ 31" "length pre + length body < 2 ^ 31" "16 \<le> n"
  shows "chunks_read lib n (pre @ body @ post) ss ccs"
proof -
  have k: "n = Suc (Suc (n - 2))" using assms(4) by simp
  have "\<exists>cm. cc_metaData (ccs ! j) = Some cm \<and>
      readLeafStream lib n (Suc (Suc (n - 2))) (pre @ body @ post) (ls_descriptor (ss ! j)) cm = Inr (stream_read (ss ! j))" if "j < length ss" for j
    using assms that unfolding chunks_ok_def prod.case by blast
  then show ?thesis using assms(1) unfolding chunks_read_def k [symmetric] by (simp add: chunks_ok_def)
qed

lemma schema_fields: "schemaElementsToNodes n els = Inr (fs, nodes) \<Longrightarrow> fs = map sn_field nodes"
  by (auto simp: schemaElementsToNodes_def bindR_eq_Inr split: list.splits)

text \<open>The tree the rows are shredded with, and the tree that the reader finds in the footer.\<close>

lemma table_nodes:
  assumes table: "list_all field_ok (tb_schema t)" "length (tb_schema t) < 2 ^ 31" "columns_ok t cols"
  obtains nodes els where "buildNodes (tb_schema t) = Inr nodes" "nodesToSchemaElements nodes = Inr els"
    "list_all valid_SchemaElement els" "length nodes = length (tb_schema t)" "list_all2 node_fine nodes cols"
    "\<And>n. length els \<le> n \<Longrightarrow> \<exists>nodes'. schemaElementsToNodes n els = Inr (map (\<lambda>f. stored_field (fd_name f) f) (tb_schema t), nodes') \<and>
       list_all2 alike nodes nodes' \<and> (\<forall>i < length nodes. column_ok (fd_type (sn_field (nodes' ! i))) (cols ! i))"
proof -
  obtain nodes els where nodes: "buildNodes (tb_schema t) = Inr nodes" "nodesToSchemaElements nodes = Inr els"
    "list_all valid_SchemaElement els" "map sn_name nodes = map fd_name (tb_schema t)" "map sn_field nodes = tb_schema t"
    "\<And>n i. n \<in> set nodes \<Longrightarrow> node_ok 0 0 (shape leaf_encode i n)"
    "\<And>k. length els \<le> k \<Longrightarrow> \<exists>nodes'. schemaElementsToNodes k els = Inr (map (\<lambda>f. stored_field (fd_name f) f) (tb_schema t), nodes') \<and>
       list_all2 alike nodes nodes' \<and> map sn_name nodes' = map fd_name (tb_schema t)"
    by (rule schema_carries [OF table(1,2)]) blast
  have ln: "length nodes = length (tb_schema t)" using nodes(5) by (metis length_map)
  have nth: "sn_field (nodes ! i) = tb_schema t ! i" "sn_name (nodes ! i) = fd_name (tb_schema t ! i)" "buildNode (tb_schema t ! i) 0 0 [] = Inr (nodes ! i)"
    if "i < length nodes" for i
    using nodes(1,4,5) that by (metis nth_map, metis ln nth_map, simp add: buildNodes_def mapR_nth)
  have cols: "list_all2 (\<lambda>n rows. list_all (row_ok n) rows \<and> column_ok (fd_type (stored_field (sn_name n) (sn_field n))) rows) nodes cols"
    using table(3) by (simp add: columns_ok_def nodes(1))
  have "built_node (nodes ! i)" if "i < length nodes" for i
    using build_built [OF nth(3) [OF that]] table(1) that ln by (simp add: list_all_length)
  then have fine: "list_all2 node_fine nodes cols"
    using cols nodes(6) by (auto simp: list_all2_conv_all_nth node_fine_def list_all_iff)
  show ?thesis
  proof (rule that [OF nodes(1-3) ln fine])
    fix n assume "length els \<le> n"
    from nodes(7) [OF this] obtain nodes' where n': "schemaElementsToNodes n els = Inr (map (\<lambda>f. stored_field (fd_name f) f) (tb_schema t), nodes')"
      "list_all2 alike nodes nodes'" by blast
    have "sn_field (nodes' ! i) = stored_field (sn_name (nodes ! i)) (sn_field (nodes ! i))" if "i < length nodes" for i
      using nth(1,2) [OF that] arg_cong [OF schema_fields [OF n'(1)], of "\<lambda>xs. xs ! i"] list_all2_lengthD [OF n'(2)] that ln by simp
    then show "\<exists>nodes'. schemaElementsToNodes n els = Inr (map (\<lambda>f. stored_field (fd_name f) f) (tb_schema t), nodes') \<and>
       list_all2 alike nodes nodes' \<and> (\<forall>i < length nodes. column_ok (fd_type (sn_field (nodes' ! i))) (cols ! i))"
      using n' cols by (auto simp: list_all2_conv_all_nth)
  qed
qed

lemma file_codec:
  assumes table: "table_ok t" "list_all field_ok (tb_schema t)" "length (tb_schema t) < 2 ^ 31" "table_columns t = Inr cols" "columns_ok t cols"
    and lib: "lossless lib" "isCodecSupported (wc_codec (write_config_of opts))" and fits: "file_fits lib opts t"
  shows "\<exists>bytes N. writeParquet lib opts t = Inr bytes \<and> (\<forall>n \<ge> N. \<exists>t'. readParquet lib n bytes whole_file = Inr t' \<and>
    tb_schema t' = map (\<lambda>f. stored_field (fd_name f) f) (tb_schema t) \<and>
    table_columns t' = Inr (map2 (\<lambda>f. map (normal (fd_type f))) (tb_schema t') cols))"
proof -
  let ?config = "write_config_of opts" and ?fs = "map (\<lambda>f. stored_field (fd_name f) f) (tb_schema t)"
  obtain nodes els where nodes: "buildNodes (tb_schema t) = Inr nodes" "nodesToSchemaElements nodes = Inr els"
    "list_all valid_SchemaElement els" "length nodes = length (tb_schema t)" "list_all2 node_fine nodes cols"
    and nodes': "\<And>n. length els \<le> n \<Longrightarrow> \<exists>nodes'. schemaElementsToNodes n els = Inr (?fs, nodes') \<and>
       list_all2 alike nodes nodes' \<and> (\<forall>i < length nodes. column_ok (fd_type (sn_field (nodes' ! i))) (cols ! i))"
    by (rule table_nodes [OF table(2,3,5)]) blast
  obtain sss where sss: "table_streams nodes t = Inr (concat sss)" "length sss = length nodes"
    "\<And>i. i < length nodes \<Longrightarrow> node_written (nodes ! i) (cols ! i) (sss ! i)"
    using table_streams_built [OF table(1,4) nodes(4,5)] by blast
  have small: "tb_numRows t < 2 ^ 31" "length els < 2 ^ 31" "length (concat sss) < 2 ^ 31" "list_all (stream_fits ?config) (concat sss)"
    using fits by (simp_all add: file_fits_def nodes(1,2) sss(1))
  note streams = streams_fit [OF sss(2,3) small(4)]
  obtain body ccs u where ch: "write_chunks lib ?config (concat sss) (length MAGIC) = Inr (body, ccs, u)" "chunks_ok lib (concat sss) (length MAGIC) (body, ccs, u)"
    using write_chunks_ok [OF streams(1) lib(1), of "length MAGIC"] by auto
  have bounds: "u < 2 ^ 31" "length MAGIC + length body < 2 ^ 31" using fits by (simp_all add: file_fits_def nodes(1,2) sss(1) ch(1))
  define rg where "rg = \<lparr>rg_columns = ccs, rg_totalByteSize = u, rg_numRows = int (tb_numRows t), rg_fileOffset = None, rg_totalCompressedSize = None, rg_ordinal = None\<rparr>"
  define m where "m = file_metadata els ccs u (tb_numRows t)"
  have m: "fm_schema m = els" "fm_rowGroups m = [rg]" by (simp_all add: m_def rg_def file_metadata_def)
  have valid: "valid_FileMetaData m" unfolding m_def
    using nodes(3) small bounds ch(2) [unfolded chunks_ok_def prod.case, simplified bounds streams(2)] by (intro written_metadata) simp_all
  obtain footer where footer: "writeFileMetaData m = Inr footer" using footer_codec [OF valid order_refl] by blast
  define bytes where "bytes = MAGIC @ body @ footer @ uint32_le (length footer) @ MAGIC"
  have written: "writeParquet lib opts t = Inr bytes"
    using lib(2) nodes(1,2) sss(1) ch(1) footer by (simp add: writeParquet_def Let_def bytes_def m_def)
  then have len: "length bytes < 2 ^ 32" using fits by (simp add: file_fits_def)
  define N where "N = 16 + length els + sum_list (map (\<lambda>s. length (ls_repLevels s)) (concat sss))"
  have "\<exists>t'. readParquet lib n bytes whole_file = Inr t' \<and> tb_schema t' = ?fs \<and>
      table_columns t' = Inr (map2 (\<lambda>f. map (normal (fd_type f))) (tb_schema t') cols)" if n: "N \<le> n" for n
  proof -
    have big: "16 \<le> n" "length els \<le> n" using n by (simp_all add: N_def)
    obtain nodes' where n': "schemaElementsToNodes n els = Inr (?fs, nodes')" "list_all2 alike nodes nodes'"
      "\<And>i. i < length nodes \<Longrightarrow> column_ok (fd_type (sn_field (nodes' ! i))) (cols ! i)" using nodes' [OF big(2)] by blast
    define parsed where "parsed = \<lparr>pf_bytes = bytes, pf_meta = m, pf_schema = ?fs, pf_nodes = nodes'\<rparr>"
    have p: "parseFile n bytes = Inr parsed" unfolding parsed_def
      by (rule parse_written [OF valid footer bytes_def len big(1)]) (simp add: n'(1) m)
    have "\<exists>t'. readParquet lib n bytes whole_file = Inr t' \<and> tb_schema t' = map sn_field (pf_nodes parsed) \<and>
        table_columns t' = Inr (map2 (\<lambda>f. map (normal (fd_type f))) (tb_schema t') cols)"
    proof (rule file_read [OF p _ _ small(1) _ nodes(5) sss(2,3)])
      show "chunks_read lib n bytes (concat sss) (rg_columns rg)"
        using chunks_read_back [OF ch(2) bounds big(1)] by (simp add: bytes_def rg_def)
      show "\<forall>s \<in> set (concat sss). length (ls_repLevels s) \<le> n"
        using n member_le_sum_list [of _ "map (\<lambda>s. length (ls_repLevels s)) (concat sss)"] unfolding N_def by fastforce
    qed (use n'(2,3) m column_of_table [OF table(1,4)] nodes(4) in \<open>auto simp: parsed_def rg_def\<close>)
    then show ?thesis using schema_fields [OF n'(1)] by (simp add: parsed_def)
  qed
  with written show ?thesis by blast
qed


subsection \<open>A sample file\<close>

definition sample_item :: field where "sample_item = Field [101, 108, 101, 109, 101, 110, 116] (IntType 32 True) True None"
definition sample_field :: field where "sample_field = Field [97] (ListType sample_item) True None"

definition sample_vector :: vector where
  "sample_vector = Vector (ListType sample_item) 3 (Some 1) (Some [5]) 0 None (Some [0, 0, 0, 0, 2, 0, 0, 0, 2, 0, 0, 0, 2, 0, 0, 0]) None None [] None
     [Vector (IntType 32 True) 2 (Some 1) (Some [1]) 0 (Some [7, 0, 0, 0, 0, 0, 0, 0]) None None None [] None [] None] None"

definition sample_rows :: "js_data list" where
  "sample_rows = [Arr [Prim (VNumber 7), Null], Null, Arr []]"

definition sample_batch :: RecordBatch where
  "sample_batch = \<lparr>rb_schema = [sample_field], rb_columns = [sample_vector], rb_numRows = 3\<rparr>"

definition sample_table :: Table where
  "sample_table = \<lparr>tb_schema = [sample_field], tb_batches = [sample_batch], tb_numRows = 3\<rparr>"

definition default_options :: ParquetWriteOptions where
  "default_options = \<lparr>wo_compression = None, wo_dictionary = None, wo_encoding = None, wo_pageVersion = None\<rparr>"

lemma sample_table_ok: "table_ok sample_table" "list_all field_ok (tb_schema sample_table)"
  using stored_text_ascii [of "[97]"] stored_text_ascii [of "[101, 108, 101, 109, 101, 110, 116]"]
  by (simp_all add: sample_table_def sample_batch_def sample_vector_def table_ok_def newTable_def newRecordBatch_def sample_field_def sample_item_def list_child_def)

lemma sample_vector_array: "toArray sample_vector = Inr sample_rows"
proof -
  have n: "getInt 32 True [7, 0, 0, 0, 0, 0, 0, 0] 0 = Inr 7"
    by (simp add: getInt_def get_le_def be_uint_def signed_of_def)
  let ?os = "[0, 0, 0, 0, 2, 0, 0, 0, 2, 0, 0, 0, 2, 0, 0, 0]"
  have o: "offset_at False ?os 0 = Inr 0" "offset_at False ?os 1 = Inr 2" "offset_at False ?os 2 = Inr 2" "offset_at False ?os 3 = Inr 2"
    by (simp_all add: offset_at_def getInt32_def get_le_def be_uint_def)
  have b: "bitGet [5] 0" "\<not> bitGet [5] 1" "bitGet [5] 2" "bitGet [1] 0" "\<not> bitGet [1] 1"
    by (simp_all add: bitGet_def bit_at_small byte_at_def bit_simps)
  show ?thesis using n o b o(3) [unfolded numeral_2_eq_2] o(4) [unfolded numeral_3_eq_3] b(3) [unfolded numeral_2_eq_2]
    by (simp add: toArray_def sample_vector_def sample_rows_def upt_rec get.simps isValid_def getValue.simps has_validity_def needed_def
        primitive_value_def fixedWidthBytes_def number_at_def first_child_def collect_items_def new_array_def int_range_list_def)
qed

lemma sample_columns: "table_columns sample_table = Inr [sample_rows]"
  using sample_vector_array
  by (simp add: table_columns_def sample_table_def sample_batch_def table_columnAt_def newColumn_def column_toArray_def)

definition sample_leaf :: schema_node where
  "sample_leaf = SLeaf [101, 108, 101, 109, 101, 110, 116] True sample_item 3 1
     \<lparr>ds_name = [101, 108, 101, 109, 101, 110, 116], ds_path = cd_path (ls_descriptor sample_stream), ds_physicalType = INT32, ds_typeLength = None,
      ds_maxDefinitionLevel = 3, ds_maxRepetitionLevel = 1, ds_arrowField = sample_item, ds_decode = Identity, ds_encode = Identity\<rparr>"

definition sample_node :: schema_node where
  "sample_node = SList [97] True sample_field 1 1 sample_leaf"

lemma sample_nodes: "buildNodes (tb_schema sample_table) = Inr [sample_node]"
  by (simp add: buildNodes_def sample_table_def sample_field_def sample_item_def buildNode.simps list_child_def leaf_node_def type_info_def
     sample_leaf_def sample_node_def sample_stream_def Let_def)

lemma sample_columns_ok: "columns_ok sample_table [sample_rows]"
  by (simp add: columns_ok_def sample_nodes) (simp add: sample_node_def sample_leaf_def leaf_ok_def sample_field_def sample_item_def int_range_def
      stored_field.simps list_child_def column_ok.simps scalar_type_def is_primitive_def scalar_ok_def int_fits_def sample_rows_def)

lemma sample_table_streams: "table_streams [sample_node] sample_table = Inr [sample_stream]"
proof -
  have "column_rows 0 sample_batch = Inr sample_rows"
    using sample_vector_array by (simp add: column_rows_def sample_batch_def toArray_def sample_vector_def)
  then show ?thesis
    by (simp add: table_streams_def node_streams_def sample_table_def sample_node_def sample_leaf_def column_streams_def shredColumn_def push_slot_def no_streams_def
        append_stream_def empty_stream_of_def leaf_encode_def leaf_stream_of_def typed_values_def ptype_defs column_of_def sample_stream_def sample_rows_def)
qed

lemma sample_options: "write_config_of default_options = sample_config"
  by (simp add: write_config_of_def default_options_def sample_config_def CODEC_BY_NAME_def)

definition grows :: "compact_writer put \<Rightarrow> nat \<Rightarrow> bool" where
  "grows f k \<longleftrightarrow> (\<forall>w w'. f w = Inr w' \<longrightarrow> length (cw_out w') \<le> length (cw_out w) + k)"

lemma varint_length: "length (varint_groups (take_bit 64 v)) \<le> 10"
proof (rule length_varint_groups)
  show "take_bit 64 v < 2 ^ (7 * 10)" by (rule less_trans [OF take_bit_nat_less_exp]) simp
qed simp

lemma grows_bind: "grows f a \<Longrightarrow> grows g b \<Longrightarrow> grows (\<lambda>w. bindR (f w) g) (a + b)"
  by (fastforce simp: grows_def bindR_eq_Inr)

lemma grows_put: "length bs \<le> k \<Longrightarrow> grows (cw_put bs) k"
  by (auto simp: grows_def cw_put_def)

lemma grows_varint: "grows (compact_writeVarint v) 10"
  using varint_length [of "nat v"] by (auto simp: grows_def compact_writeVarint_def varint_bytes_def cw_put_def split: if_splits)

lemma grows_header: "grows (writeFieldHeader i ct) 11"
  using short_zigzag [of i] by (auto simp: grows_def writeFieldHeader_def Let_def cw_put_def bindR_eq_Inr split: if_splits)

lemma grows_compact:
  "grows (writeStructBegin compactProtocol) 0" "grows (writeStructEnd compactProtocol) 0" "grows (writeFieldEnd compactProtocol) 0"
  "grows (writeFieldStop compactProtocol) 1" "grows (writeListEnd compactProtocol) 0" "grows Inr 0" "grows (seqW []) 0"
  "grows (writeByte compactProtocol b) 10" "grows (writeI16 compactProtocol v) 10" "grows (writeI32 compactProtocol v) 10" "grows (writeI64 compactProtocol v) 10" "grows (writeBool compactProtocol b') 11"
  "grows (writeFieldBegin compactProtocol t i) 11" "grows (writeListBegin compactProtocol t n) 11" "grows (writeString compactProtocol s) (10 + length (encodeUtf8 s))"
proof -
  show "grows (writeStructBegin compactProtocol) 0" "grows (writeStructEnd compactProtocol) 0" "grows (writeFieldEnd compactProtocol) 0"
    "grows (writeFieldStop compactProtocol) 1" "grows (writeListEnd compactProtocol) 0" "grows Inr 0" "grows (seqW []) 0" "grows (writeByte compactProtocol b) 10"
    by (auto simp: grows_def compactProtocol_def compact_writeStructBegin_def compact_writeStructEnd_def cw_put_def split: list.splits)
  show "grows (writeI16 compactProtocol v) 10" "grows (writeI32 compactProtocol v) 10" using short_zigzag [of v] by (simp_all add: compactProtocol_def grows_put)
  have "length (zigzag64_bytes v) \<le> 10"
    using length_varint_groups [of "zigzag64 v" 10] zigzag64_less [of v] by (simp add: zigzag64_bytes_def)
  then show "grows (writeI64 compactProtocol v) 10" by (simp add: compactProtocol_def grows_put)
  show "grows (writeBool compactProtocol b') 11"
    using grows_header by (fastforce simp: grows_def compactProtocol_def compact_writeBool_def cw_put_def bindR_eq_Inr split: option.splits)
  show "grows (writeFieldBegin compactProtocol t i) 11"
    using grows_header by (fastforce simp: grows_def compactProtocol_def compact_writeFieldBegin_def bindR_eq_Inr split: if_splits)
  show "grows (writeListBegin compactProtocol t n) 11"
    using grows_varint [of n] by (fastforce simp: grows_def compactProtocol_def compact_writeListBegin_def cw_put_def bindR_eq_Inr split: if_splits)
  show "grows (writeString compactProtocol s) (10 + length (encodeUtf8 s))"
    using grows_bind [OF grows_varint grows_put [OF order_refl]] by (simp add: compactProtocol_def compact_writeString_def [abs_def] Let_def)
qed

lemma grows_seq: "grows f a \<Longrightarrow> grows (seqW fs) b \<Longrightarrow> grows (seqW (f # fs)) (a + b)"
  using grows_bind [of f a "seqW fs" b] by (simp add: grows_def)

lemma grows_field: "grows body k \<Longrightarrow> grows (writeField compactProtocol t i body) (11 + (k + (0 + 0)))"
  unfolding writeField_def by (intro grows_seq grows_compact)

lemma grows_opt:
  "grows (writeOptField compactProtocol t i body None) 0"
  "grows (body v) k \<Longrightarrow> grows (writeOptField compactProtocol t i body (Some v)) (11 + (k + (0 + 0)))"
  using grows_field by (simp_all add: writeOptField_def grows_compact)

lemma grows_list:
  "grows (seqW (map body xs)) k \<Longrightarrow> grows (writeListOf compactProtocol t body xs) (11 + (k + (0 + 0)))"
  unfolding writeListOf_def by (intro grows_seq grows_compact)

lemma grows_mono: "grows f a \<Longrightarrow> a \<le> b \<Longrightarrow> grows f b"
  by (fastforce simp: grows_def)

lemma grows_map:
  "grows (seqW (map body [])) 0" "grows (body x) a \<Longrightarrow> grows (seqW (map body xs)) b \<Longrightarrow> grows (seqW (map body (x # xs))) (a + b)"
  using grows_seq by (simp_all add: grows_compact)

lemmas grows_intros = grows_map grows_seq grows_compact grows_field grows_opt grows_list

lemma ascii_length: "list_all (\<lambda>u. unat u < 128) s \<Longrightarrow> length (encodeUtf8 s) = length s"
  by (simp add: encodeUtf8_def)

lemma sample_root_grows: "grows (writeSchemaElement compactProtocol (root_element 1)) 100"
  unfolding writeSchemaElement_def root_element_def SchemaElement.select_convs
  by (rule grows_mono, (rule grows_intros)+) (simp add: ascii_length)

lemma sample_logical_grows:
  "grows (writeLogicalType compactProtocol ((logical_kind ''integer'')\<lparr>lt_integer := Some \<lparr>it_bitWidth = 32, it_isSigned = True\<rparr>\<rparr>)) 100"
proof -
  have v: "writeVariant compactProtocol ((logical_kind ''integer'')\<lparr>lt_integer := Some \<lparr>it_bitWidth = 32, it_isSigned = True\<rparr>\<rparr>) =
      writeField compactProtocol T_STRUCT 10 (writeInteger compactProtocol \<lparr>it_bitWidth = 32, it_isSigned = True\<rparr>)"
    by (simp add: writeVariant_def logical_kind_def Parquet_Metadata.needed_def)
  show ?thesis unfolding writeLogicalType_def v writeInteger_def by (rule grows_mono, (rule grows_intros)+) simp
qed

definition sample_list_element :: SchemaElement where
  "sample_list_element = group_element [97] OPTIONAL 1 (Some (CT_LIST, logical_kind ''list''))"

definition sample_element :: SchemaElement where
  "sample_element = leaf_element element_segment (type_info INT32 (Some 17) (Some ((logical_kind ''integer'')\<lparr>lt_integer := Some \<lparr>it_bitWidth = 32, it_isSigned = True\<rparr>\<rparr>))) True"

abbreviation (input) "sample_schema \<equiv> [root_element 1, sample_list_element, group_element list_segment REPEATED 1 None, sample_element]"

lemma sample_elements: "nodesToSchemaElements [sample_node] = Inr sample_schema"
  by (simp add: nodesToSchemaElements_def sample_node_def sample_leaf_def emitElement.simps sample_field_def sample_item_def sample_element_def sample_list_element_def intConverted_def)

lemma sample_element_grows:
  "grows (writeSchemaElement compactProtocol sample_list_element) 300"
  "grows (writeSchemaElement compactProtocol (group_element list_segment REPEATED 1 None)) 300"
  "grows (writeSchemaElement compactProtocol sample_element) 300"
proof -
  have v: "writeVariant compactProtocol (logical_kind ''list'') = writeEmptyVariant compactProtocol 3"
    by (simp add: writeVariant_def logical_kind_def Parquet_Metadata.needed_def)
  have l: "grows (writeLogicalType compactProtocol (logical_kind ''list'')) 100"
    unfolding writeLogicalType_def v writeEmptyVariant_def by (rule grows_mono, (rule grows_intros)+) simp
  show "grows (writeSchemaElement compactProtocol sample_list_element) 300"
    "grows (writeSchemaElement compactProtocol (group_element list_segment REPEATED 1 None)) 300"
    unfolding writeSchemaElement_def sample_list_element_def group_element_def SchemaElement.select_convs option.map fst_conv snd_conv
    by (rule grows_mono, (rule grows_intros l)+, simp add: ascii_length)+
  show "grows (writeSchemaElement compactProtocol sample_element) 300"
    unfolding writeSchemaElement_def sample_element_def leaf_element_def type_info_def SchemaElement.select_convs ParquetTypeInfo.select_convs
    by (rule grows_mono, (rule grows_intros sample_logical_grows)+) (simp add: ascii_length)
qed

lemma sample_footer_short:
  assumes "cm_encodings cm = [RLE, PLAIN]" "cm_pathInSchema cm = cd_path (ls_descriptor sample_stream)" "cm_keyValueMetadata cm = None"
    "cm_indexPageOffset cm = None" "cm_dictionaryPageOffset cm = None" "cm_statistics cm = None"
    and "writeFileMetaData (file_metadata sample_schema [\<lparr>cc_filePath = None, cc_fileOffset = off, cc_metaData = Some cm\<rparr>] u m) = Inr footer"
  shows "length footer < 3000"
proof -
  have cm: "grows (writeColumnMetaData compactProtocol cm) 500"
    unfolding writeColumnMetaData_def assms(1-6) sample_stream_def leaf_stream.select_convs column_descriptor.select_convs
    by (rule grows_mono, (rule grows_intros)+) (simp add: ascii_length)
  have cc: "grows (writeColumnChunk compactProtocol \<lparr>cc_filePath = None, cc_fileOffset = off, cc_metaData = Some cm\<rparr>) 550"
    unfolding writeColumnChunk_def ColumnChunk.select_convs by (rule grows_mono, (rule grows_intros cm)+) simp
  have rg: "grows (writeRowGroup compactProtocol \<lparr>rg_columns = [\<lparr>cc_filePath = None, cc_fileOffset = off, cc_metaData = Some cm\<rparr>],
      rg_totalByteSize = u, rg_numRows = int m, rg_fileOffset = None, rg_totalCompressedSize = None, rg_ordinal = None\<rparr>) 700"
    unfolding writeRowGroup_def RowGroup.select_convs by (rule grows_mono, (rule grows_intros cc)+) simp
  have "grows (writeFileMetaDataStruct compactProtocol (file_metadata sample_schema [\<lparr>cc_filePath = None, cc_fileOffset = off, cc_metaData = Some cm\<rparr>] u m)) 2900"
    unfolding writeFileMetaDataStruct_def file_metadata_def FileMetaData.select_convs
    by (rule grows_mono, (rule grows_intros sample_root_grows sample_element_grows rg)+) (simp add: ascii_length)
  then show ?thesis using assms(7) by (fastforce simp: grows_def writeFileMetaData_def bindR_eq_Inr new_compact_writer_def)
qed

lemma sample_fits: "file_fits identity_lib default_options sample_table"
proof -
  obtain bs cm u where c: "writeLeafChunk identity_lib sample_config sample_stream 4 = Inr (bs, \<lparr>cc_filePath = None, cc_fileOffset = int 4, cc_metaData = Some cm\<rparr>, u)"
    "length bs < 200" "u < 200" "cm_encodings cm = [RLE, PLAIN]" "cm_pathInSchema cm = cd_path (ls_descriptor sample_stream)" "cm_keyValueMetadata cm = None"
    "cm_indexPageOffset cm = None" "cm_dictionaryPageOffset cm = None" "cm_statistics cm = None"
    using sample_chunk [of 4] by blast
  have s: "stream_fits sample_config sample_stream"
    using sample_stream_ok sample_aligned stored_text_ascii [of "[97]"] stored_text_ascii [of list_segment] stored_text_ascii [of element_segment]
    by (simp add: stream_fits_def stream_ok_def level_ok_def Let_def sample_stream_def list_of_def short_def)
  have len: "length MAGIC = 4" "length (uint32_le k) = 4" for k by (simp_all add: MAGIC_def uint32_le_def)
  have "length bytes < 4000" if w: "writeParquet identity_lib default_options sample_table = Inr bytes" for bytes
  proof -
    from w obtain footer where f: "writeFileMetaData (file_metadata sample_schema [\<lparr>cc_filePath = None, cc_fileOffset = int 4, cc_metaData = Some cm\<rparr>]
        u (tb_numRows sample_table)) = Inr footer" "bytes = MAGIC @ bs @ footer @ uint32_le (length footer) @ MAGIC"
      using c(1) by (auto simp: writeParquet_def sample_options sample_nodes sample_elements sample_table_streams bindR_eq_Inr Let_def len split: if_splits)
    from sample_footer_short [OF c(4-9) f(1)] c(2) show ?thesis by (simp add: f(2) len)
  qed
  then show ?thesis using c(1-3) s
    by (auto simp: file_fits_def sample_nodes sample_elements sample_table_streams sample_options len split: sum.split) (simp_all add: sample_table_def)
qed


subsection \<open>Projection\<close>

lemma sample_readable: "\<exists>bytes n t. readParquet identity_lib n bytes whole_file = Inr t \<and> tb_schema t = [sample_field]"
proof -
  have "isCodecSupported (wc_codec (write_config_of default_options))" "length (tb_schema sample_table) < 2 ^ 31"
    using sample_stream_ok(2) by (simp_all add: sample_options config_ok_def sample_table_def)
  from file_codec [OF sample_table_ok this(2) sample_columns sample_columns_ok identity_lossless this(1) sample_fits] obtain bytes N where
    "\<forall>n \<ge> N. \<exists>t'. readParquet identity_lib n bytes whole_file = Inr t' \<and> tb_schema t' = map (\<lambda>f. stored_field (fd_name f) f) (tb_schema sample_table)" by blast
  from spec [OF this, of N] show ?thesis by (auto simp: sample_table_def sample_field_def sample_item_def stored_field.simps list_child_def)
qed

text \<open>C4: projection. If a file can be read, reading it with a list of different column names of its schema gives exactly
  the named columns of every batch, in the order of the names.\<close>

theorem projection_selects_columns:
  assumes "readParquet lib n bytes whole_file = Inr t" "distinct names" "set names \<subseteq> fd_name ` set (tb_schema t)"
  shows "readParquet lib n bytes (whole_file\<lparr>ro_columns := Some names\<rparr>) =
    (let is = map (column_index (tb_schema t)) names in newTable (map (nth (tb_schema t)) is) (map (project_batch is) (tb_batches t)))"
  by (rule projected [OF assms])

theorem projection_selects_columns_witness:
  "\<exists>bytes n t t'. readParquet identity_lib n bytes whole_file = Inr t \<and> tb_schema t = [sample_field] \<and>
    readParquet identity_lib n bytes (whole_file\<lparr>ro_columns := Some [[97]]\<rparr>) = Inr t' \<and> tb_batches t' = map (project_batch [0]) (tb_batches t)"
proof -
  obtain bytes n t where r: "readParquet identity_lib n bytes whole_file = Inr t" "tb_schema t = [sample_field]"
    using sample_readable by blast
  have "readParquet identity_lib n bytes (whole_file\<lparr>ro_columns := Some [[97]]\<rparr>) = newTable [sample_field] (map (project_batch [0]) (tb_batches t))"
    using projection_selects_columns [OF r(1), of "[[97]]"] by (simp add: r(2) column_index_def sample_field_def Let_def)
  then have "\<exists>t'. readParquet identity_lib n bytes (whole_file\<lparr>ro_columns := Some [[97]]\<rparr>) = Inr t' \<and> tb_batches t' = map (project_batch [0]) (tb_batches t)"
    by (simp add: newTable_def project_batch_def list_ex_iff)
  with r show ?thesis by blast
qed

subsection \<open>Errors\<close>

text \<open>What the options may not ask of a file: columns that are unknown or named twice, and row groups that do not exist,
  wherever they stand in the lists.\<close>

definition bad_columns :: "ParquetReadOptions \<Rightarrow> parsed_file \<Rightarrow> bool" where
  "bad_columns opts file \<longleftrightarrow> (case ro_columns opts of None \<Rightarrow> False
     | Some names \<Rightarrow> \<not> set names \<subseteq> sn_name ` set (pf_nodes file) \<or> \<not> distinct names)"

definition bad_groups :: "ParquetReadOptions \<Rightarrow> parsed_file \<Rightarrow> bool" where
  "bad_groups opts file \<longleftrightarrow> (case ro_rowGroups opts of None \<Rightarrow> False
     | Some is \<Rightarrow> \<exists>i \<in> set is. i < 0 \<or> int (length (fm_rowGroups (pf_meta file))) \<le> i)"

lemma mapR_fails: "(\<And>x. x \<in> set xs \<Longrightarrow> f x = Inl e \<or> (\<exists>y. f x = Inr y)) \<Longrightarrow> x \<in> set xs \<Longrightarrow> f x = Inl e \<Longrightarrow> mapR f xs = Inl e"
  by (induction xs) (auto, metis bindR_simps(1,2))

lemma find_index_name: "find_index (\<lambda>n. sn_name n = name) ns = None \<longleftrightarrow> name \<notin> sn_name ` set ns"
  by (induction ns) auto

text \<open>The columns are found exactly when all names are known, each by a function of its name.\<close>

lemma selected_columns:
  assumes "ro_columns opts = Some names"
  shows "if set names \<subseteq> sn_name ` set ns then \<exists>g. selectedNodeIndices opts ns = Inr (map g names)
    else selectedNodeIndices opts ns = Inl (ParquetError ''unknown projected column'')"
proof -
  let ?f = "\<lambda>name. case find_index (\<lambda>n. sn_name n = name) ns of
       None \<Rightarrow> Inl (ParquetError ''unknown projected column'') | Some i \<Rightarrow> Inr i"
  show ?thesis
  proof (cases "set names \<subseteq> sn_name ` set ns")
    case True
    then have "?f name = Inr (the (find_index (\<lambda>n. sn_name n = name) ns))" if "name \<in> set names" for name
      using that find_index_name [of name ns] by (auto split: option.split)
    then have "mapR ?f names = Inr (map (\<lambda>name. the (find_index (\<lambda>n. sn_name n = name) ns)) names)" by (rule mapR_Inr)
    with True show ?thesis using assms by (auto simp: selectedNodeIndices_def)
  next
    case False
    then obtain name where "name \<in> set names" "name \<notin> sn_name ` set ns" by blast
    then have "mapR ?f names = Inl (ParquetError ''unknown projected column'')"
      by (intro mapR_fails [of names ?f _ name]) (auto simp: find_index_name split: option.split)
    with False show ?thesis using assms by (simp add: selectedNodeIndices_def)
  qed
qed

lemma bad_columns_rejected:
  assumes "parseFile n bytes = Inr file" "bad_columns opts file"
  shows "\<exists>e. readParquet lib n bytes opts = Inl (ParquetError e)"
proof -
  obtain names where names: "ro_columns opts = Some names" "\<not> set names \<subseteq> sn_name ` set (pf_nodes file) \<or> \<not> distinct names"
    using assms(2) by (auto simp: bad_columns_def split: option.splits)
  have "\<not> distinct (map g names)" if "\<not> distinct names" for g :: "text_string \<Rightarrow> nat" using that by (simp add: distinct_map)
  with selected_columns [OF names(1), of "pf_nodes file"] names(2) assms(1) show ?thesis
    by (auto simp: readParquet_def split: if_splits)
qed

lemma bad_groups_rejected:
  assumes "parseFile n bytes = Inr file" "bad_groups opts file"
  shows "\<exists>e. readParquet lib n bytes opts = Inl (ParquetError e)"
proof -
  let ?gs = "fm_rowGroups (pf_meta file)"
  obtain "is" i where "is": "ro_rowGroups opts = Some is" "i \<in> set is" "i < 0 \<or> int (length ?gs) \<le> i"
    using assms(2) by (auto simp: bad_groups_def split: option.splits)
  have "mapR (\<lambda>i. if i < 0 \<or> int (length ?gs) \<le> i then Inl (ParquetError ''row group index is out of range'') else Inr (?gs ! nat i)) is =
      Inl (ParquetError ''row group index is out of range'')"
    using "is" by (intro mapR_fails [of _ _ _ i]) auto
  then have g: "selectedGroups opts ?gs = Inl (ParquetError ''row group index is out of range'')" using "is"(1) by (simp add: selectedGroups_def)
  have "\<exists>e. selectedNodeIndices opts (pf_nodes file) = Inl (ParquetError e) \<or> (\<exists>js. selectedNodeIndices opts (pf_nodes file) = Inr js)"
  proof (cases "ro_columns opts")
    case None
    then show ?thesis by (simp add: selectedNodeIndices_def)
  next
    case (Some names)
    from selected_columns [OF this, of "pf_nodes file"] show ?thesis by (auto split: if_splits)
  qed
  with g assms(1) show ?thesis by (auto simp: readParquet_def Let_def)
qed

text \<open>C5: what a reader rejects. Input without both magic numbers or shorter than twelve bytes, and a footer length that does
  not fit before them, are answered with a \<open>ParquetError\<close> whatever the options are. For a file whose footer is read, so are
  a column list with an unknown or a repeated name and a row-group list with an index out of range, at any position of the
  lists and whatever the other list asks for.\<close>

theorem read_rejects:
  "(length bytes < 12 \<or> take 4 bytes \<noteq> MAGIC \<or> drop (length bytes - 4) bytes \<noteq> MAGIC \<longrightarrow> (\<exists>e. readParquet lib n bytes opts = Inl (ParquetError e))) \<and>
   (checkMagic bytes = Inr () \<and> get_le 4 bytes (length bytes - 8) = Inr l \<and> length bytes < 12 + l \<longrightarrow>
      (\<exists>e. readParquet lib n bytes opts = Inl (ParquetError e))) \<and>
   (parseFile n bytes = Inr file \<and> (bad_columns opts file \<or> bad_groups opts file) \<longrightarrow>
      (\<exists>e. readParquet lib n bytes opts = Inl (ParquetError e)))"
proof (intro conjI impI; (elim conjE)?)
  assume "length bytes < 12 \<or> take 4 bytes \<noteq> MAGIC \<or> drop (length bytes - 4) bytes \<noteq> MAGIC"
  then show "\<exists>e. readParquet lib n bytes opts = Inl (ParquetError e)" by (auto simp: readParquet_def parseFile_def checkMagic_def)
next
  assume "checkMagic bytes = Inr ()" "get_le 4 bytes (length bytes - 8) = Inr l" "length bytes < 12 + l"
  then show "\<exists>e. readParquet lib n bytes opts = Inl (ParquetError e)" by (simp add: readParquet_def parseFile_def Let_def)
next
  assume "parseFile n bytes = Inr file" "bad_columns opts file \<or> bad_groups opts file"
  then show "\<exists>e. readParquet lib n bytes opts = Inl (ParquetError e)" using bad_columns_rejected bad_groups_rejected by blast
qed

theorem read_rejects_witness:
  "\<exists>n bytes. (\<exists>e. readParquet identity_lib n [] whole_file = Inl (ParquetError e)) \<and>
    (\<exists>e. readParquet identity_lib n (MAGIC @ [255, 0, 0, 0] @ MAGIC) whole_file = Inl (ParquetError e)) \<and>
    (\<exists>e. readParquet identity_lib n bytes (whole_file\<lparr>ro_columns := Some [[97], [98]]\<rparr>) = Inl (ParquetError e)) \<and>
    (\<exists>e. readParquet identity_lib n bytes (whole_file\<lparr>ro_columns := Some [[97], [97]]\<rparr>) = Inl (ParquetError e)) \<and>
    (\<exists>e. readParquet identity_lib n bytes \<lparr>ro_columns = Some [[97]], ro_rowGroups = Some [0, - 1]\<rparr> = Inl (ParquetError e))"
proof -
  obtain bytes n t where r: "readParquet identity_lib n bytes whole_file = Inr t" "tb_schema t = [sample_field]"
    using sample_readable by blast
  obtain parsed where p: "parseFile n bytes = Inr parsed" using r(1) by (auto simp: readParquet_def bindR_eq_Inr)
  have "[98] \<notin> sn_name ` set (pf_nodes parsed)"
  proof -
    have "map sn_field (pf_nodes parsed) = [sample_field]"
      using r schema_read [OF r(1) p] by simp
    then obtain x where "pf_nodes parsed = [x]" "sn_field x = sample_field" by (auto simp: map_eq_Cons_conv)
    moreover from this have "sn_name x = [97]" using parseFile_nodes(1) [OF p] typed_name [of x] by (simp add: sample_field_def)
    ultimately show ?thesis by simp
  qed
  moreover have "checkMagic (MAGIC @ [255, 0, 0, 0] @ MAGIC) = Inr ()" "get_le 4 (MAGIC @ [255, 0, 0, 0] @ MAGIC) (length (MAGIC @ [255, 0, 0, 0] @ MAGIC) - 8) = Inr 255"
    "length (MAGIC @ [255, 0, 0, 0] @ MAGIC) < 12 + 255"
    by (simp_all add: checkMagic_def MAGIC_def get_le_def be_uint_def)
  ultimately show ?thesis
    using read_rejects [of "[]" identity_lib n whole_file] read_rejects [of "MAGIC @ [255, 0, 0, 0] @ MAGIC" identity_lib n whole_file 255]
      read_rejects [of bytes identity_lib n "whole_file\<lparr>ro_columns := Some [[97], [98]]\<rparr>" _ parsed]
      read_rejects [of bytes identity_lib n "whole_file\<lparr>ro_columns := Some [[97], [97]]\<rparr>" _ parsed]
      read_rejects [of bytes identity_lib n "\<lparr>ro_columns = Some [[97]], ro_rowGroups = Some [0, - 1]\<rparr>" _ parsed] p
    by (intro exI [of _ n] exI [of _ bytes]) (simp add: bad_columns_def bad_groups_def)
qed

end
