(* ===== verification/Thrift_Binary.thy ===== *)
theory Thrift_Binary
  imports Thrift_Struct
begin

text \<open>
  \<open>internal/format/thrift/binary.ts\<close>: the big-endian binary protocol. It keeps no state beyond the
  cursor, so a writer is the bytes it holds and a reader is a \<open>reader\<close>. \<open>readMessageBegin\<close>
  accepts the strict, version-prefixed envelope and the legacy one.
\<close>

type_synonym binary_writer = "byte list"

definition bw_put :: "byte list \<Rightarrow> binary_writer put" where
  "bw_put bs w = Inr (w @ bs)"

definition VERSION_1 :: u32 where "VERSION_1 = 2147549184"
definition BINARY_VERSION_MASK :: u32 where "BINARY_VERSION_MASK = 4294901760"
definition BINARY_TYPE_MASK :: u32 where "BINARY_TYPE_MASK = 255"

definition binary_writeBinary :: "byte list \<Rightarrow> binary_writer put" where
  "binary_writeBinary bs w = bindR (bw_put (i32_bytes (int (length bs))) w) (bw_put bs)"

definition binary_writeString :: "code_unit list \<Rightarrow> binary_writer put" where
  "binary_writeString s w =
     (let bytes = encodeUtf8 s in bindR (bw_put (i32_bytes (int (length bytes))) w) (bw_put bytes))"

definition binary_writeMessageBegin :: "code_unit list \<Rightarrow> nat \<Rightarrow> int \<Rightarrow> binary_writer put" where
  "binary_writeMessageBegin name type seqid w =
     bindR (bw_put (i32_bytes (sint (VERSION_1 OR (of_nat type AND BINARY_TYPE_MASK)))) w) (\<lambda>w.
     bindR (binary_writeString name w) (bw_put (i32_bytes seqid)))"

definition binary_writeFieldBegin :: "nat \<Rightarrow> int \<Rightarrow> binary_writer put" where
  "binary_writeFieldBegin type i w = bindR (bw_put [of_nat type] w) (bw_put (i16_bytes i))"

definition binary_writeMapBegin :: "nat \<Rightarrow> nat \<Rightarrow> int \<Rightarrow> binary_writer put" where
  "binary_writeMapBegin keyType valueType sz w =
     bindR (bw_put [of_nat keyType] w) (\<lambda>w.
     bindR (bw_put [of_nat valueType] w) (bw_put (i32_bytes sz)))"

definition binary_writeListBegin :: "nat \<Rightarrow> int \<Rightarrow> binary_writer put" where
  "binary_writeListBegin elemType sz w = bindR (bw_put [of_nat elemType] w) (bw_put (i32_bytes sz))"

definition binary_writeBool :: "bool \<Rightarrow> binary_writer put" where
  "binary_writeBool v = bw_put [if v then 1 else 0]"

definition binary_readString :: "code_unit list read" where
  "binary_readString r = bindR (readI32BE r) (\<lambda>(sz, r). readString sz r)"

definition binary_readBinary :: "byte list read" where
  "binary_readBinary r = bindR (readI32BE r) (\<lambda>(sz, r). readBytes sz r)"

definition binary_readMessageBegin :: "message_header read" where
  "binary_readMessageBegin r =
     bindR (readI32BE r) (\<lambda>(sz, r).
     if sz < 0 then
       let version = word_of_int sz AND BINARY_VERSION_MASK in
       if version \<noteq> VERSION_1 then Inl (UnsupportedVersion (rd_pos r) (unat version))
       else let type = unat (word_of_int sz AND BINARY_TYPE_MASK) in
         bindR (binary_readString r) (\<lambda>(name, r).
         bindR (readI32BE r) (\<lambda>(seqid, r).
         Inr (\<lparr>mh_name = name, mh_type = type, mh_seqid = seqid\<rparr>, r)))
     else
       bindR (readString sz r) (\<lambda>(name, r).
       bindR (readU8 r) (\<lambda>(type, r).
       bindR (readI32BE r) (\<lambda>(seqid, r).
       Inr (\<lparr>mh_name = name, mh_type = type, mh_seqid = seqid\<rparr>, r)))))"

definition binary_readFieldBegin :: "field_header read" where
  "binary_readFieldBegin r =
     bindR (readU8 r) (\<lambda>(type, r).
     if type = T_STOP then Inr (\<lparr>fh_type = type, fh_id = 0\<rparr>, r)
     else bindR (readI16BE r) (\<lambda>(i, r). Inr (\<lparr>fh_type = type, fh_id = i\<rparr>, r)))"

definition binary_readMapBegin :: "map_header read" where
  "binary_readMapBegin r =
     bindR (readU8 r) (\<lambda>(keyType, r).
     bindR (readU8 r) (\<lambda>(valueType, r).
     bindR (readI32BE r) (\<lambda>(sz, r).
     Inr (\<lparr>map_keyType = keyType, map_valueType = valueType, map_size = sz\<rparr>, r))))"

definition binary_readListBegin :: "list_header read" where
  "binary_readListBegin r =
     bindR (readU8 r) (\<lambda>(elemType, r).
     bindR (readI32BE r) (\<lambda>(sz, r). Inr (\<lparr>lh_elemType = elemType, lh_size = sz\<rparr>, r)))"

definition binary_readBool :: "bool read" where
  "binary_readBool r = bindR (readU8 r) (\<lambda>(b, r). Inr (b \<noteq> 0, r))"

definition binaryProtocol :: "(binary_writer, reader) protocol" where
  "binaryProtocol = \<lparr>
     writeMessageBegin = binary_writeMessageBegin,
     writeMessageEnd = Inr,
     writeStructBegin = Inr,
     writeStructEnd = Inr,
     writeFieldBegin = binary_writeFieldBegin,
     writeFieldEnd = Inr,
     writeFieldStop = bw_put [0],
     writeMapBegin = binary_writeMapBegin,
     writeMapEnd = Inr,
     writeListBegin = binary_writeListBegin,
     writeListEnd = Inr,
     writeSetBegin = binary_writeListBegin,
     writeSetEnd = Inr,
     writeBool = binary_writeBool,
     writeByte = (\<lambda>v. bw_put [word_of_int v]),
     writeI16 = (\<lambda>v. bw_put (i16_bytes v)),
     writeI32 = (\<lambda>v. bw_put (i32_bytes v)),
     writeI64 = (\<lambda>v. bw_put (i64_bytes v)),
     writeDouble = (\<lambda>v. bw_put (f64be_bytes v)),
     writeString = binary_writeString,
     writeBinary = binary_writeBinary,
     readMessageBegin = binary_readMessageBegin,
     readMessageEnd = (\<lambda>r. Inr ((), r)),
     readStructBegin = (\<lambda>r. Inr ((), r)),
     readStructEnd = (\<lambda>r. Inr ((), r)),
     readFieldBegin = binary_readFieldBegin,
     readFieldEnd = (\<lambda>r. Inr ((), r)),
     readMapBegin = binary_readMapBegin,
     readMapEnd = (\<lambda>r. Inr ((), r)),
     readListBegin = binary_readListBegin,
     readListEnd = (\<lambda>r. Inr ((), r)),
     readSetBegin = binary_readListBegin,
     readSetEnd = (\<lambda>r. Inr ((), r)),
     readBool = binary_readBool,
     readByte = readI8,
     readI16 = readI16BE,
     readI32 = readI32BE,
     readI64 = readI64BE,
     readDouble = readF64BE,
     readStr = binary_readString,
     readBinary = binary_readBinary\<rparr>"

subsection \<open>The contract\<close>

definition binary_mapok :: "nat \<Rightarrow> nat \<Rightarrow> nat \<Rightarrow> bool" where
  "binary_mapok kt vt n \<longleftrightarrow> kt < 256 \<and> vt < 256"

abbreviation binary_sends :: "binary_writer \<Rightarrow> js_error + binary_writer \<Rightarrow> ('x, reader) get \<Rightarrow> 'x \<Rightarrow> bool" where
  "binary_sends \<equiv> sends_on id reader_at (\<lambda>_. True)"

lemma binary_sends_bytes: "decodes_as rd bs x \<Longrightarrow> binary_sends w (bw_put bs w) rd x"
  by (auto simp: sends_on_def bw_put_def decodes_asD)

lemma binary_sends_U8: "n < 256 \<Longrightarrow> binary_sends w (bw_put [of_nat n] w) readU8 n"
  by (intro binary_sends_bytes decodes_U8)

lemma binary_sends_size: "n < 2 ^ 31 \<Longrightarrow> binary_sends w (bw_put (i32_bytes (int n)) w) readI32BE (int n)"
  by (intro binary_sends_bytes i32be.decodes) (simp add: int_range_def)

lemma binary_sends_i32: "int_range 32 q \<Longrightarrow> binary_sends w (bw_put (i32_bytes q) w) readI32BE q"
  by (intro binary_sends_bytes i32be.decodes)

lemma binary_sends_i16: "int_range 16 q \<Longrightarrow> binary_sends w (bw_put (i16_bytes q) w) readI16BE q"
  by (intro binary_sends_bytes i16be.decodes)

lemma value_types_byte: "t \<in> value_types \<Longrightarrow> t < 256 \<and> t \<noteq> 0"
  by (auto simp: value_types_def)

lemma binary_sends_text:
  assumes "stored_text s"
  shows "binary_sends w (binary_writeString s w) binary_readString s"
  unfolding binary_writeString_def binary_readString_def Let_def
  by (rule sends_on_bind [OF binary_sends_size])
    (use assms in \<open>auto simp: stored_text_def intro!: binary_sends_bytes decodes_text\<close>)

lemma binary_sends_binary:
  assumes "length bs < 2 ^ 31"
  shows "binary_sends w (binary_writeBinary bs w) binary_readBinary bs"
  unfolding binary_writeBinary_def binary_readBinary_def
  by (rule sends_on_bind [OF binary_sends_size])
    (use assms in \<open>auto intro!: binary_sends_bytes decodes_bytes\<close>)

lemma binary_field_begin:
  assumes "t \<in> value_types" "int_range 16 i"
  shows "binary_sends w (binary_writeFieldBegin t i w) binary_readFieldBegin \<lparr>fh_type = t, fh_id = i\<rparr>"
  unfolding binary_writeFieldBegin_def binary_readFieldBegin_def
  by (rule sends_on_bind [OF binary_sends_U8])
    (use assms value_types_byte [of t] in \<open>auto intro!: sends_on_result [OF binary_sends_i16]\<close>)

lemma binary_field_stop:
  "binary_sends w (bw_put [0] w) binary_readFieldBegin \<lparr>fh_type = T_STOP, fh_id = 0\<rparr>"
  by (auto simp: sends_on_def bw_put_def binary_readFieldBegin_def)

lemma binary_list_begin:
  assumes "t \<in> value_types" "n < 2 ^ 31"
  shows "binary_sends w (binary_writeListBegin t (int n) w) binary_readListBegin
    \<lparr>lh_elemType = t, lh_size = int n\<rparr>"
  unfolding binary_writeListBegin_def binary_readListBegin_def
  by (rule sends_on_bind [OF binary_sends_U8])
    (use assms value_types_byte [of t] in \<open>auto intro!: sends_on_result [OF binary_sends_size]\<close>)

lemma binary_map_begin:
  assumes "binary_mapok kt vt n" "n < 2 ^ 31"
  shows "binary_sends w (binary_writeMapBegin kt vt (int n) w) binary_readMapBegin
    \<lparr>map_keyType = kt, map_valueType = vt, map_size = int n\<rparr>"
  unfolding binary_writeMapBegin_def binary_readMapBegin_def
  by (rule sends_on_bind [OF binary_sends_U8])
    (use assms in \<open>auto simp: binary_mapok_def
        intro!: sends_on_bind [OF binary_sends_U8] sends_on_result [OF binary_sends_size]\<close>)

lemma binary_bool: "binary_sends w (binary_writeBool b w) binary_readBool b"
  by (auto simp: sends_on_def bw_put_def binary_readBool_def binary_writeBool_def)

lemma binary_bool_field:
  assumes "int_range 16 i"
  shows "binary_sends w (bindR (binary_writeFieldBegin T_BOOL i w) (binary_writeBool b))
    (\<lambda>r. bindR (binary_readFieldBegin r) (\<lambda>(f, r). bindR (binary_readBool r) (\<lambda>(v, r). Inr ((f, v), r))))
    (\<lparr>fh_type = T_BOOL, fh_id = i\<rparr>, b)"
  by (rule sends_on_bind [OF binary_field_begin])
    (use assms in \<open>auto simp: value_types_def intro!: sends_on_result [OF binary_bool]\<close>)

text \<open>The version word: the message type sits in the low byte of a negative 32-bit integer.\<close>

lemma binary_version_word:
  assumes "m < 256"
  defines "v \<equiv> VERSION_1 OR (of_nat m AND BINARY_TYPE_MASK)"
  shows "sint v < 0" "v AND BINARY_VERSION_MASK = VERSION_1" "unat (v AND BINARY_TYPE_MASK) = m"
proof -
  have low: "of_nat m AND BINARY_TYPE_MASK = (of_nat m :: u32)"
  proof -
    have "BINARY_TYPE_MASK = mask 8" by (simp add: BINARY_TYPE_MASK_def mask_eq_exp_minus_1)
    moreover have "take_bit 8 m = m" using assms(1) by (simp add: take_bit_nat_eq_self)
    ultimately show ?thesis by (metis take_bit_eq_mask take_bit_of_nat)
  qed
  have masks: "VERSION_1 AND BINARY_VERSION_MASK = VERSION_1" "VERSION_1 AND BINARY_TYPE_MASK = 0"
      "BINARY_TYPE_MASK AND BINARY_VERSION_MASK = 0"
    by (simp_all add: VERSION_1_def BINARY_VERSION_MASK_def BINARY_TYPE_MASK_def)
  have "v AND BINARY_VERSION_MASK = VERSION_1 OR (of_nat m AND (BINARY_TYPE_MASK AND BINARY_VERSION_MASK))"
    by (simp only: v_def bit.conj_disj_distrib2 masks and.assoc)
  then show "v AND BINARY_VERSION_MASK = VERSION_1" by (simp add: masks)
  have "v AND BINARY_TYPE_MASK = of_nat m"
    by (simp add: v_def bit.conj_disj_distrib2 masks and.assoc low)
  then show "unat (v AND BINARY_TYPE_MASK) = m" using assms(1) by (simp add: unat_of_nat)
  have "bit VERSION_1 31" by (simp add: VERSION_1_def bit_numeral_word_iff)
  then have "bit v 31" by (simp add: v_def bit_or_iff)
  then show "sint v < 0" using bit_last_iff [of v] by simp
qed

lemma binary_message_begin:
  assumes "stored_text s" "m < 8" "int_range 32 q"
  shows "binary_sends w (binary_writeMessageBegin s m q w) binary_readMessageBegin
    \<lparr>mh_name = s, mh_type = m, mh_seqid = q\<rparr>"
proof -
  define v where "v = VERSION_1 OR (of_nat m AND BINARY_TYPE_MASK)"
  have v: "sint v < 0" "v AND BINARY_VERSION_MASK = VERSION_1" "unat (v AND BINARY_TYPE_MASK) = m"
    using binary_version_word [of m] assms(2) by (simp_all add: v_def)
  have "int_range 32 (sint v)"
    using sint_greater_eq [of v] sint_less [of v] by (simp add: int_range_def)
  then show ?thesis
    unfolding binary_writeMessageBegin_def binary_readMessageBegin_def v_def [symmetric]
    by (intro sends_on_bind [OF binary_sends_i32])
      (use v assms in \<open>auto simp: Let_def intro!: sends_on_bind [OF binary_sends_text]
        sends_on_result [OF binary_sends_i32]\<close>)
qed

lemma binary_string_view: "stops_at (binary_readString r) = stops_at (binary_readBinary r)"
  unfolding binary_readString_def binary_readBinary_def
  by (rule stops_at_bind_same) (auto simp: readString_def stops_at_unit)

interpretation binary: thrift_protocol binaryProtocol id reader_at "\<lambda>_. True" binary_mapok
  by unfold_locales
    (simp_all add: binaryProtocol_def binary_string_view binary_bool binary_sends_text
      binary_sends_binary binary_field_begin binary_bool_field binary_field_stop binary_list_begin
      binary_map_begin binary_message_begin sends_on_return binary_sends_bytes decodes_I8
      i16be.decodes i32be.decodes i64be.decodes f64be.decodes)

subsection \<open>Progress\<close>

lemma ends_binary_basic:
  "ends rd_remaining 1 r (readI32BE r)" "ends rd_remaining 1 r (readI16BE r)"
  "ends rd_remaining 1 r (readI64BE r)" "ends rd_remaining 1 r (readF64BE r)" "ends rd_remaining 1 r (readI8 r)"
  using consumes_basic unfolding consumes_def by blast+

lemma ends_binary_headers:
  "ends rd_remaining 1 r (binary_readFieldBegin r)" "ends rd_remaining 1 r (binary_readListBegin r)"
  "ends rd_remaining 1 r (binary_readMapBegin r)" "ends rd_remaining 1 r (binary_readString r)"
  "ends rd_remaining 1 r (binary_readBool r)"
  unfolding binary_readFieldBegin_def binary_readListBegin_def binary_readMapBegin_def
    binary_readString_def binary_readBool_def
  by (auto intro!: ends_bind [OF ends_readU8, where e = 0] ends_bind [OF ends_binary_basic(1), where e = 0]
      ends_bind [OF ends_binary_basic(2), where e = 0] ends_readString)

interpretation binary: thrift_reader_progress binaryProtocol rd_remaining
  by unfold_locales
    (simp_all add: binaryProtocol_def ends_binary_basic ends_binary_headers del: One_nat_def)

subsection \<open>Properties\<close>

text \<open>Binary round trip. Every storable value written with \<open>writeValue\<close> on a binary protocol that
  already holds bytes \<open>w\<close> is read back by \<open>readValue\<close> at that position, the reader stops right after it, and
  \<open>skip\<close> of its type stops at the same place. Here empty maps keep their types.\<close>

theorem binary_value_roundtrip:
  assumes "storable binary_mapok v" "value_fuel v \<le> n"
  shows "\<exists>bs. writeValue binaryProtocol v w = Inr (w @ bs) \<and>
    (\<forall>rest. readValue binaryProtocol n (tv_type v) (reader_at w (bs @ rest)) =
        Inr (v, reader_at (w @ bs) rest) \<and>
      skip binaryProtocol n (tv_type v) (reader_at w (bs @ rest)) = Inr ((), reader_at (w @ bs) rest))"
proof -
  obtain w' bs where "writeValue binaryProtocol v w = Inr w'" "id w' = id w @ bs"
    "\<And>rest. readValue binaryProtocol n (tv_type v) (reader_at w (bs @ rest)) = Inr (v, reader_at w' rest)"
    "\<And>rest. skip binaryProtocol n (tv_type v) (reader_at w (bs @ rest)) = Inr ((), reader_at w' rest)"
    by (rule binary.written_value [OF assms(1) TrueI assms(2)]) blast
  then show ?thesis by auto
qed

lemma sample_value_binary: "storable binary_mapok sample_value" "value_fuel sample_value \<le> 12"
proof -
  have "stored_text [97]" by (rule stored_text_ascii) simp_all
  then show "storable binary_mapok sample_value"
    by (simp add: sample_value_def int_range_def value_types_def binary_mapok_def)
qed (simp add: sample_value_def)

theorem binary_value_roundtrip_witness:
  "\<exists>bs. writeValue binaryProtocol sample_value [1] = Inr ([1] @ bs) \<and>
    (\<forall>rest. readValue binaryProtocol 12 (tv_type sample_value) (reader_at [1] (bs @ rest)) =
        Inr (sample_value, reader_at ([1] @ bs) rest) \<and>
      skip binaryProtocol 12 (tv_type sample_value) (reader_at [1] (bs @ rest)) = Inr ((), reader_at ([1] @ bs) rest))"
  by (rule binary_value_roundtrip [OF sample_value_binary])

text \<open>Binary messages. The strict, version-prefixed envelope with any name, a message type
  below eight and any 32-bit sequence id is recognised as such and read back with the value after it.\<close>

theorem binary_message_roundtrip:
  assumes "stored_text name" "m < 8" "int_range 32 q" "storable binary_mapok v" "value_fuel v \<le> n"
  shows "\<exists>bs. writeMessage binaryProtocol name m q v [] = Inr bs \<and>
    readMessage binaryProtocol n (tv_type v) (new_reader bs) =
      Inr ((\<lparr>mh_name = name, mh_type = m, mh_seqid = q\<rparr>, v), reader_at bs [])"
proof -
  from binary.written_message [OF TrueI assms, of "[]"] obtain bs where
    "writeMessage binaryProtocol name m q v [] = Inr bs"
    "\<And>rest. readMessage binaryProtocol n (tv_type v) (reader_at [] (bs @ rest)) =
      Inr ((\<lparr>mh_name = name, mh_type = m, mh_seqid = q\<rparr>, v), reader_at bs rest)"
    by (auto simp: sends_on_def)
  from this(1) this(2) [of "[]"] show ?thesis by (auto simp: new_reader_at)
qed

theorem binary_message_roundtrip_witness:
  "\<exists>bs. writeMessage binaryProtocol [112] 1 (- 7) sample_value [] = Inr bs \<and>
    readMessage binaryProtocol 12 (tv_type sample_value) (new_reader bs) =
      Inr ((\<lparr>mh_name = [112], mh_type = 1, mh_seqid = - 7\<rparr>, sample_value), reader_at bs [])"
proof (rule binary_message_roundtrip [OF _ _ _ sample_value_binary])
  show "stored_text [112]" by (rule stored_text_ascii) simp_all
qed (simp_all add: int_range_def)

text \<open>On any input, the binary \<open>readValue\<close> comes to a value or an error of its own, and
  \<open>skip\<close> returns exactly when it does and at the same position.\<close>

theorem binary_read_total:
  "readValue binaryProtocol (2 * length input + 2) t (new_reader input) \<noteq> Inl OutOfFuel \<and>
   stops_at (skip binaryProtocol n t r) = stops_at (readValue binaryProtocol n t r)"
proof
  have "ends rd_remaining 1 (new_reader input)
      (readValue binaryProtocol (2 * length input + 2) t (new_reader input))"
    by (intro binary.read_ends(1)) (simp add: new_reader_def rd_remaining_def)
  then show "readValue binaryProtocol (2 * length input + 2) t (new_reader input) \<noteq> Inl OutOfFuel"
    by (auto simp: ends_def)
qed (rule binary.skip_stops_with_read)

end
