(* ===== verification/Event_System.thy ===== *)
theory Event_System
  imports Fino_Prelude
begin

text \<open>
  Components that react to events: the states reachable from a start state, and invariants.

  JavaScript runs each call, microtask and callback to completion, so a component's history is a
  sequence of steps of the step relation of its theory, in any order the environment chooses.
\<close>

inductive reachable :: "('s \<Rightarrow> bool) \<Rightarrow> ('s \<Rightarrow> 's \<Rightarrow> bool) \<Rightarrow> 's \<Rightarrow> bool" for init step where
  reachable_init: "init s \<Longrightarrow> reachable init step s"
| reachable_step: "reachable init step s \<Longrightarrow> step s t \<Longrightarrow> reachable init step t"

text \<open>What a component promises of its steps: an invariant that holds of every new object and that every
  step keeps.\<close>

locale event_system =
  fixes init :: "'s \<Rightarrow> bool"
    and step :: "'s \<Rightarrow> 's \<Rightarrow> bool"
    and inv :: "'s \<Rightarrow> bool"
  assumes inv_init: "init s \<Longrightarrow> inv s"
    and inv_step: "inv s \<Longrightarrow> step s t \<Longrightarrow> inv t"
begin

lemma inv_reachable: "reachable init step s \<Longrightarrow> inv s"
  by (induction rule: reachable.induct) (blast intro: inv_init inv_step)+

text \<open>A bound that holds at the start of a quantity that no step lowers.\<close>

lemma bound_reachable:
  fixes f :: "'s \<Rightarrow> 'n::order"
  assumes "\<And>s. init s \<Longrightarrow> b \<le> f s" "\<And>s t. inv s \<Longrightarrow> step s t \<Longrightarrow> f s \<le> f t" "reachable init step s"
  shows "b \<le> f s"
  using assms(3)
proof (induction rule: reachable.induct)
  case (reachable_step s t)
  then show ?case using assms(2) [OF inv_reachable] order_trans by blast
qed (rule assms(1))

end

end
