(* ===== verification/Virtual_Timers.thy ===== *)
theory Virtual_Timers
  imports Event_System Complex_Main "HOL-Library.Multiset"
begin

text \<open>
  \<open>internal/runtime/virtual-timers.ts\<close>: the deterministic timer queue.

  A \<open>Map\<close> is the list of its entries in insertion order, which is its iteration order. Milliseconds are
  rational numbers and their sum is exact. A timer promise is its id; the calls of \<open>resolve\<close> are kept
  in order in \<open>vt_fired\<close>.
\<close>

datatype js_number = Finite rat | Infinity bool | NaN

record pending_timer =
  deadline :: rat
  sequence :: nat
  referenced :: bool

record timer_queue =
  vt_now :: rat
  vt_timers :: "(nat \<times> pending_timer) list"
  vt_nextId :: nat
  vt_nextSequence :: nat
  vt_fired :: "nat list"

definition new_timer_queue :: "rat \<Rightarrow> timer_queue" where
  "new_timer_queue startMillis =
     \<lparr>vt_now = startMillis, vt_timers = [], vt_nextId = 1, vt_nextSequence = 0, vt_fired = []\<rparr>"

definition queue_size :: "timer_queue \<Rightarrow> nat" where
  "queue_size q = length (vt_timers q)"

definition referencedSize :: "timer_queue \<Rightarrow> nat" where
  "referencedSize q = foldl (\<lambda>n (i, t). if referenced t then n + 1 else n) 0 (vt_timers q)"

definition earliest :: "timer_queue \<Rightarrow> rat option" where
  "earliest q = foldl (\<lambda>e (i, t). case e of
       None \<Rightarrow> Some (deadline t)
     | Some d \<Rightarrow> if deadline t < d then Some (deadline t) else e) None (vt_timers q)"

fun delay_of :: "js_number \<Rightarrow> rat" where
  "delay_of (Finite d) = (if d > 0 then d else 0)"
| "delay_of (Infinity negative) = 0"
| "delay_of NaN = 0"

definition schedule :: "js_number \<Rightarrow> timer_queue \<Rightarrow> nat \<times> timer_queue" where
  "schedule delayMillis q =
     (let i = vt_nextId q in
      (i, q\<lparr>vt_nextId := i + 1,
            vt_timers := vt_timers q @ [(i, \<lparr>deadline = vt_now q + delay_of delayMillis,
              sequence = vt_nextSequence q, referenced = True\<rparr>)],
            vt_nextSequence := vt_nextSequence q + 1\<rparr>))"

definition cancel :: "nat \<Rightarrow> timer_queue \<Rightarrow> timer_queue" where
  "cancel i q = q\<lparr>vt_timers := filter (\<lambda>(j, t). j \<noteq> i) (vt_timers q)\<rparr>"

definition set_referenced :: "bool \<Rightarrow> nat \<Rightarrow> timer_queue \<Rightarrow> timer_queue" where
  "set_referenced r i q =
     q\<lparr>vt_timers := map (\<lambda>(j, t). if j = i then (j, t\<lparr>referenced := r\<rparr>) else (j, t)) (vt_timers q)\<rparr>"

definition unref :: "nat \<Rightarrow> timer_queue \<Rightarrow> timer_queue" where
  "unref = set_referenced False"

definition ref :: "nat \<Rightarrow> timer_queue \<Rightarrow> timer_queue" where
  "ref = set_referenced True"

definition hasRef :: "nat \<Rightarrow> timer_queue \<Rightarrow> bool" where
  "hasRef i q = (case map_of (vt_timers q) i of None \<Rightarrow> False | Some t \<Rightarrow> referenced t)"

definition advance :: "timer_queue \<Rightarrow> nat \<times> timer_queue" where
  "advance q = (case earliest q of
       None \<Rightarrow> (0, q)
     | Some d \<Rightarrow>
         let now = max (vt_now q) d;
             due = sort_key (\<lambda>(i, t). sequence t) (filter (\<lambda>(i, t). deadline t \<le> now) (vt_timers q));
             left = filter (\<lambda>(i, t). i \<notin> fst ` set due) (vt_timers q) in
         (length due, q\<lparr>vt_now := now, vt_timers := left, vt_fired := vt_fired q @ map fst due\<rparr>))"

text \<open>The calls a program can make.\<close>

inductive timer_step :: "timer_queue \<Rightarrow> timer_queue \<Rightarrow> bool" where
  call_schedule: "timer_step q (snd (schedule d q))"
| call_cancel: "timer_step q (cancel i q)"
| call_unref: "timer_step q (unref i q)"
| call_ref: "timer_step q (ref i q)"
| call_advance: "timer_step q (snd (advance q))"

subsection \<open>The invariant\<close>

text \<open>Ids are never reused, sequence numbers follow insertion, no deadline lies in the past, and no timer
  that has fired is still pending.\<close>

definition timers_inv :: "timer_queue \<Rightarrow> bool" where
  "timers_inv q \<longleftrightarrow> sorted_wrt (<) (map fst (vt_timers q)) \<and>
     sorted_wrt (<) (map (sequence \<circ> snd) (vt_timers q)) \<and>
     (\<forall>(i, t) \<in> set (vt_timers q). i < vt_nextId q \<and> sequence t < vt_nextSequence q \<and> vt_now q \<le> deadline t) \<and>
     distinct (vt_fired q) \<and> (\<forall>i \<in> set (vt_fired q). i < vt_nextId q \<and> i \<notin> fst ` set (vt_timers q))"

lemma earliest_fold:
  "foldl (\<lambda>e (i, t). case e of None \<Rightarrow> Some (deadline t)
       | Some d \<Rightarrow> if deadline t < d then Some (deadline t) else e) (Some d) ts =
     Some (fold min (map (deadline \<circ> snd) ts) d)"
  by (induction ts arbitrary: d) (auto simp: min_def)

lemma earliest_Min: "earliest q = (if vt_timers q = [] then None else Some (Min ((deadline \<circ> snd) ` set (vt_timers q))))"
proof (cases "vt_timers q")
  case (Cons x ts)
  have "fold min (map (deadline \<circ> snd) ts) (deadline (snd x)) = Min ((deadline \<circ> snd) ` set (x # ts))"
    by (simp add: Min.set_eq_fold [symmetric] del: Min_insert2)
  moreover have "earliest q = Some (fold min (map (deadline \<circ> snd) ts) (deadline (snd x)))"
    using Cons earliest_fold [of "deadline (snd x)" ts] by (cases x) (simp add: earliest_def)
  ultimately show ?thesis by (simp only: Cons list.distinct if_False)
qed (simp add: earliest_def)

lemma sorted_filter_key:
  fixes f :: "'a \<Rightarrow> nat"
  assumes "sorted_wrt (<) (map f xs)"
  shows "sort_key f (filter P xs) = filter P xs"
proof -
  have "sorted (map f xs)" using assms by (simp add: strict_sorted_imp_sorted)
  then have "sorted (map f (filter P xs))" by (rule sorted_filter)
  then show ?thesis by (simp add: sort_key_id_if_sorted)
qed

text \<open>What \<open>advance\<close> does, given the invariant: the timers due at the earliest deadline fire in insertion
  order and the clock moves there.\<close>

lemma advance_inv:
  assumes "timers_inv q" "vt_timers q \<noteq> []"
  defines "d \<equiv> Min ((deadline \<circ> snd) ` set (vt_timers q))"
  shows "advance q = (length (filter (\<lambda>(i, t). deadline t = d) (vt_timers q)),
    q\<lparr>vt_now := d, vt_timers := filter (\<lambda>(i, t). d < deadline t) (vt_timers q),
      vt_fired := vt_fired q @ map fst (filter (\<lambda>(i, t). deadline t = d) (vt_timers q))\<rparr>)"
proof -
  let ?ts = "vt_timers q"
  have le: "d \<le> deadline t" if "(i, t) \<in> set ?ts" for i t
    unfolding d_def using that by (intro Min_le) (auto simp: image_iff intro: bexI [of _ "(i, t)"])
  have "d \<in> (deadline \<circ> snd) ` set ?ts" unfolding d_def using assms(2) by (intro Min_in) simp_all
  then have now: "max (vt_now q) d = d" using assms(1) by (auto simp: timers_inv_def)
  have due: "filter (\<lambda>(i, t). deadline t \<le> d) ?ts = filter (\<lambda>(i, t). deadline t = d) ?ts"
    using le by (intro filter_cong) (auto simp: antisym)
  have "sorted_wrt (<) (map (\<lambda>(i, t). sequence t) ?ts)"
    using assms(1) by (simp add: timers_inv_def comp_def case_prod_unfold)
  note sorted = sorted_filter_key [OF this]
  have "distinct (map fst ?ts)" using assms(1) by (simp add: timers_inv_def strict_sorted_iff)
  then have "(i, t) \<in> set ?ts \<Longrightarrow> i \<notin> fst ` set (filter (\<lambda>(i, t). deadline t = d) ?ts) \<longleftrightarrow> d < deadline t" for i t
    using le [of i t] by (auto simp: image_iff dest: eq_key_imp_eq_value [of ?ts])
  then have left: "filter (\<lambda>(i, t). i \<notin> fst ` set (filter (\<lambda>(i, t). deadline t = d) ?ts)) ?ts =
      filter (\<lambda>(i, t). d < deadline t) ?ts"
    by (intro filter_cong) auto
  have "earliest q = Some d" using assms(2) by (simp add: earliest_Min d_def)
  then show ?thesis by (simp only: advance_def option.case now due sorted left Let_def)
qed

lemma advance_empty: "vt_timers q = [] \<Longrightarrow> advance q = (0, q)"
  by (simp add: advance_def earliest_Min)

lemma timers_inv_filter:
  assumes "timers_inv q" "\<forall>(i, t) \<in> set (filter P (vt_timers q)). n \<le> deadline t"
    and "fs = vt_fired q @ map fst (filter Q (vt_timers q))" "\<And>x. Q x \<Longrightarrow> \<not> P x"
  shows "timers_inv (q\<lparr>vt_now := n, vt_timers := filter P (vt_timers q), vt_fired := fs\<rparr>)"
proof -
  let ?ts = "vt_timers q"
  have "sorted_wrt (<) (map fst (filter P ?ts))" "sorted_wrt (<) (map (sequence \<circ> snd) (filter P ?ts))"
    using assms(1) by (simp_all add: timers_inv_def sorted_wrt_map sorted_wrt_filter)
  moreover have dist: "distinct (map fst ?ts)" using assms(1) by (simp add: timers_inv_def strict_sorted_iff)
  then have "distinct fs" using assms(1) unfolding assms(3)
    by (auto simp: timers_inv_def distinct_map_filter)
  moreover have "i \<notin> fst ` set (filter P ?ts)" if "i \<in> set fs" for i
    using that dist assms(1,4) unfolding assms(3)
    by (auto simp: timers_inv_def dest: eq_key_imp_eq_value [of ?ts])
  ultimately show ?thesis
    using assms(1,2) unfolding timers_inv_def by (auto simp: assms(3))
qed

lemma timers_inv_set_referenced:
  assumes "timers_inv q"
  shows "timers_inv (set_referenced r i q)"
proof -
  define g :: "nat \<times> pending_timer \<Rightarrow> nat \<times> pending_timer" where "g = (\<lambda>(j, t). if j = i then (j, t\<lparr>referenced := r\<rparr>) else (j, t))"
  have g: "fst (g x) = fst x" "sequence (snd (g x)) = sequence (snd x)" "deadline (snd (g x)) = deadline (snd x)" for x
    by (cases x; simp add: g_def)+
  have "vt_timers (set_referenced r i q) = map g (vt_timers q)" by (simp add: set_referenced_def g_def)
  moreover have "vt_now (set_referenced r i q) = vt_now q" "vt_nextId (set_referenced r i q) = vt_nextId q"
    "vt_nextSequence (set_referenced r i q) = vt_nextSequence q" "vt_fired (set_referenced r i q) = vt_fired q"
    by (simp_all add: set_referenced_def)
  ultimately show ?thesis using assms by (simp add: timers_inv_def g comp_def case_prod_unfold image_image)
qed

lemma timer_step_inv:
  assumes "timers_inv q" "timer_step q q'"
  shows "timers_inv q'"
  using assms(2)
proof (cases rule: timer_step.cases)
  case (call_schedule d)
  have "0 \<le> delay_of d" by (cases d) auto
  with assms(1) show ?thesis
    unfolding call_schedule by (auto simp: timers_inv_def schedule_def Let_def sorted_wrt_append less_Suc_eq)
next
  case (call_cancel i)
  have "cancel i q = q\<lparr>vt_now := vt_now q, vt_timers := filter (\<lambda>(j, t). j \<noteq> i) (vt_timers q), vt_fired := vt_fired q\<rparr>"
    by (simp add: cancel_def)
  moreover have "timers_inv \<dots>"
    using assms(1) by (intro timers_inv_filter [where Q = "\<lambda>_. False"]) (auto simp: timers_inv_def)
  ultimately show ?thesis unfolding call_cancel by (simp only:)
next
  case call_advance
  show ?thesis
  proof (cases "vt_timers q = []")
    case True
    then show ?thesis using assms(1) by (simp add: call_advance advance_empty)
  next
    case False
    show ?thesis unfolding call_advance advance_inv [OF assms(1) False] snd_conv
      by (intro timers_inv_filter [OF assms(1), where Q = "\<lambda>(i, t). deadline t = Min ((deadline \<circ> snd) ` set (vt_timers q))"]) auto
  qed
qed (use assms(1) in \<open>simp_all add: unref_def ref_def timers_inv_set_referenced\<close>)

interpretation timers: event_system "\<lambda>q. q = new_timer_queue startMillis" timer_step timers_inv for startMillis
  by unfold_locales (simp add: timers_inv_def new_timer_queue_def, rule timer_step_inv)

lemma timer_step_now: "timers_inv q \<Longrightarrow> timer_step q q' \<Longrightarrow> vt_now q \<le> vt_now q'"
  by (cases q q' rule: timer_step.cases)
    (auto simp: schedule_def cancel_def unref_def ref_def set_referenced_def advance_def Let_def split: option.split)

subsection \<open>Firing everything\<close>

lemma sort_key_same: "sort_key f (filter (\<lambda>x. c = f x) xs) = filter (\<lambda>x. c = f x) xs"
proof -
  have "map f (filter (\<lambda>x. c = f x) xs) = replicate (length (filter (\<lambda>x. c = f x) xs)) c"
    by (induction xs) auto
  then show ?thesis by (simp add: sort_key_id_if_sorted)
qed

text \<open>A stable sort starts with the elements of least key, in their order.\<close>

lemma sort_key_least:
  fixes f :: "'a \<Rightarrow> 'k::linorder"
  assumes "\<forall>x \<in> set xs. m \<le> f x"
  shows "sort_key f xs = filter (\<lambda>x. f x = m) xs @ sort_key f (filter (\<lambda>x. m < f x) xs)"
proof (rule properties_for_sort_key)
  have "filter (\<lambda>x. m < f x) xs = filter (\<lambda>x. f x \<noteq> m) xs" using assms by (intro filter_cong) auto
  then show "mset (filter (\<lambda>x. f x = m) xs @ sort_key f (filter (\<lambda>x. m < f x) xs)) = mset xs"
    using multiset_partition [of "mset xs" "\<lambda>x. f x = m"] by simp
  show "sorted (map f (filter (\<lambda>x. f x = m) xs @ sort_key f (filter (\<lambda>x. m < f x) xs)))"
  proof -
    have "map f (filter (\<lambda>x. f x = m) xs) = replicate (length (filter (\<lambda>x. f x = m) xs)) m"
      by (induction xs) auto
    then show ?thesis by (simp add: sorted_append) auto
  qed
next
  fix k
  show "filter (\<lambda>x. f k = f x) (filter (\<lambda>x. f x = m) xs @ sort_key f (filter (\<lambda>x. m < f x) xs)) = filter (\<lambda>x. f k = f x) xs"
  proof (cases "f k = m")
    case True
    then have "filter (\<lambda>x. m < f x \<and> f k = f x) xs = []" "filter (\<lambda>x. f x = m \<and> f k = f x) xs = filter (\<lambda>x. f k = f x) xs"
      by (auto simp: filter_empty_conv intro: filter_cong)
    then show ?thesis by (simp add: filter_sort conj_commute)
  next
    case False
    then have "filter (\<lambda>x. m < f x \<and> f k = f x) xs = filter (\<lambda>x. f k = f x) xs" "filter (\<lambda>x. f x = m \<and> f k = f x) xs = []"
      using assms by (auto simp: filter_empty_conv intro!: filter_cong)
    moreover have "sort_key f (filter (\<lambda>x. f k = f x) xs) = filter (\<lambda>x. f k = f x) xs" by (rule sort_key_same)
    ultimately show ?thesis by (simp add: filter_sort conj_commute)
  qed
qed

definition fire_all :: "nat \<Rightarrow> timer_queue \<Rightarrow> timer_queue" where
  "fire_all n = (snd \<circ> advance) ^^ n"

lemma fire_all_sorts:
  "timers_inv q \<Longrightarrow> queue_size q \<le> n \<Longrightarrow> vt_timers (fire_all n q) = [] \<and>
    vt_fired (fire_all n q) = vt_fired q @ map fst (sort_key (deadline \<circ> snd) (vt_timers q))"
proof (induction n arbitrary: q)
  case 0
  then show ?case by (simp add: fire_all_def queue_size_def)
next
  case (Suc n)
  let ?ts = "vt_timers q" and ?q = "snd (advance q)"
  have step: "fire_all (Suc n) q = fire_all n ?q" by (simp add: fire_all_def funpow_swap1)
  show ?case
  proof (cases "?ts = []")
    case True
    then show ?thesis using Suc by (simp add: step advance_empty queue_size_def)
  next
    case False
    define d where "d = Min ((deadline \<circ> snd) ` set ?ts)"
    have q: "?q = q\<lparr>vt_now := d, vt_timers := filter (\<lambda>(i, t). d < deadline t) ?ts,
        vt_fired := vt_fired q @ map fst (filter (\<lambda>(i, t). deadline t = d) ?ts)\<rparr>"
      using advance_inv [OF Suc.prems(1) False] by (simp add: d_def)
    have "d \<in> (deadline \<circ> snd) ` set ?ts" unfolding d_def using False by (intro Min_in) simp_all
    then obtain x where "x \<in> set ?ts" "\<not> (case x of (i, t) \<Rightarrow> d < deadline t)" by auto
    then have "length (filter (\<lambda>(i, t). d < deadline t) ?ts) < length ?ts" by (rule length_filter_less)
    then have "queue_size ?q \<le> n" using Suc.prems(2) by (simp add: queue_size_def q)
    moreover have "timers_inv ?q" using Suc.prems(1) timer_step.call_advance by (rule timer_step_inv)
    moreover have "sort_key (deadline \<circ> snd) ?ts =
        filter (\<lambda>(i, t). deadline t = d) ?ts @ sort_key (deadline \<circ> snd) (filter (\<lambda>(i, t). d < deadline t) ?ts)"
      using sort_key_least [of ?ts d "deadline \<circ> snd"] by (simp add: d_def case_prod_unfold)
    moreover have "vt_timers ?q = filter (\<lambda>(i, t). d < deadline t) ?ts"
        "vt_fired ?q = vt_fired q @ map fst (filter (\<lambda>(i, t). deadline t = d) ?ts)" by (simp_all add: q)
    ultimately show ?thesis using Suc.IH [of ?q] unfolding step by (simp add: comp_def)
  qed
qed

subsection \<open>Properties\<close>

text \<open>C29: in every state a program can reach, timer ids and sequence numbers are unique and increase in
  insertion order, no deadline is in the past, no timer has fired twice or is pending after it fired,
  and the clock has not gone back before its start.\<close>

theorem timers_reachable_inv:
  assumes "reachable (\<lambda>q. q = new_timer_queue startMillis) timer_step q"
  shows "timers_inv q \<and> startMillis \<le> vt_now q"
  using timers.inv_reachable [OF assms] timers.bound_reachable [of startMillis startMillis vt_now, OF _ _ assms] timer_step_now
  by (auto simp: new_timer_queue_def)

theorem timers_reachable_inv_witness:
  "timers_inv (snd (advance (snd (schedule (Finite 5) (new_timer_queue 3))))) \<and>
    3 \<le> vt_now (snd (advance (snd (schedule (Finite 5) (new_timer_queue 3)))))"
  by (rule timers_reachable_inv) (rule reachable_step [OF reachable_step [OF reachable_init]], rule refl, rule call_schedule, rule call_advance)

text \<open>C30: advancing the clock as often as there are timers fires all of them, ordered by deadline and, for
  equal deadlines, by insertion: the queue is a stable sort of its timers.\<close>

theorem timers_fire_in_order:
  assumes "reachable (\<lambda>q. q = new_timer_queue startMillis) timer_step q" "queue_size q \<le> n"
  shows "vt_timers (fire_all n q) = [] \<and>
    vt_fired (fire_all n q) = vt_fired q @ map fst (sort_key (deadline \<circ> snd) (vt_timers q))"
  using timers.inv_reachable [OF assms(1)] assms(2) by (rule fire_all_sorts)

theorem timers_fire_in_order_witness:
  "vt_timers (fire_all 2 (snd (schedule NaN (snd (schedule (Finite 5) (new_timer_queue 3)))))) = [] \<and>
    vt_fired (fire_all 2 (snd (schedule NaN (snd (schedule (Finite 5) (new_timer_queue 3)))))) = [2, 1]"
proof -
  let ?q = "snd (schedule NaN (snd (schedule (Finite 5) (new_timer_queue 3))))"
  have "reachable (\<lambda>q. q = new_timer_queue 3) timer_step ?q"
    by (rule reachable_step [OF reachable_step [OF reachable_init]]) (rule refl, (rule call_schedule)+)
  moreover have "queue_size ?q \<le> 2" by (simp add: queue_size_def schedule_def new_timer_queue_def Let_def)
  ultimately show ?thesis
    using timers_fire_in_order [of 3 ?q 2] by (simp add: schedule_def new_timer_queue_def Let_def)
qed

end
