(* ===== verification/Task_Channel.thy ===== *)
theory Task_Channel
  imports Event_System
begin

text \<open>
  \<open>internal/concurrent-task-channel.ts\<close>: bounded admission of tasks and ordered delivery of their results.

  Every call runs to completion, so each public operation is one step of the state. A promise is the
  number of the call that made it: \<open>ch_admitted\<close> lists the claims whose \<open>schedule()\<close> promise has been
  resolved and \<open>ch_answers\<close> the calls of \<open>next()\<close> that have been answered, both in order. The closure
  variables \<open>schedulePromise\<close> and \<open>settled\<close> of a resolver are kept per claim. \<open>ch_outputs\<close> records
  the positions of the delivered results.
\<close>

datatype ('a, 'e) entry = Claimed | Scheduled nat | Fulfilled 'a | Rejected 'e

datatype output_order = completion | claim_order

datatype ('a, 'e) answer = Yield 'a | Throw 'e | Done

datatype channel_error = CapacityError | ChannelClosed | AlreadySettled | NotScheduled

record waiter =
  w_index :: nat
  w_weight :: nat
  w_ready :: bool

record ('a, 'e) channel =
  ch_capacity :: nat
  ch_outputOrder :: output_order
  ch_active :: nat
  ch_claimed :: nat
  ch_nextOutput :: nat
  ch_consumed :: nat
  ch_closed :: bool
  ch_entries :: "nat \<Rightarrow> ('a, 'e) entry option"
  ch_settledOrder :: "nat list"
  ch_scheduleWaiters :: "waiter list"
  ch_readWaiters :: "nat list"
  ch_requested :: "nat \<Rightarrow> bool"
  ch_settled :: "nat \<Rightarrow> bool"
  ch_reads :: nat
  ch_admitted :: "nat list"
  ch_answers :: "(nat \<times> ('a, 'e) answer) list"
  ch_outputs :: "nat list"

definition new_channel :: "int \<Rightarrow> output_order \<Rightarrow> channel_error + ('a, 'e) channel" where
  "new_channel capacity outputOrder =
     (if capacity < 1 \<or> capacity \<ge> 2 ^ 53 then Inl CapacityError
      else Inr \<lparr>ch_capacity = nat capacity, ch_outputOrder = outputOrder, ch_active = 0, ch_claimed = 0,
        ch_nextOutput = 0, ch_consumed = 0, ch_closed = False, ch_entries = (\<lambda>_. None),
        ch_settledOrder = [], ch_scheduleWaiters = [], ch_readWaiters = [],
        ch_requested = (\<lambda>_. False), ch_settled = (\<lambda>_. False), ch_reads = 0,
        ch_admitted = [], ch_answers = [], ch_outputs = []\<rparr>)"

subsection \<open>Draining\<close>

text \<open>The inner loop of \<open>#drainSchedules\<close>: the first ready waiter, unless one that takes the whole
  capacity comes before it.\<close>

fun ready_waiter :: "nat \<Rightarrow> waiter list \<Rightarrow> nat option" where
  "ready_waiter cap [] = None"
| "ready_waiter cap (w # ws) =
     (if w_ready w then Some 0
      else if w_weight w = cap then None
      else map_option Suc (ready_waiter cap ws))"

lemma ready_waiter_Some: "ready_waiter cap ws = Some k \<Longrightarrow> k < length ws \<and> w_ready (ws ! k)"
  by (induction ws arbitrary: k) (auto split: if_splits)

function drainSchedules :: "('a, 'e) channel \<Rightarrow> ('a, 'e) channel" where
  "drainSchedules ch =
     (if ch_active ch < ch_capacity ch \<and> ch_scheduleWaiters ch \<noteq> [] then
        case ready_waiter (ch_capacity ch) (ch_scheduleWaiters ch) of
          None \<Rightarrow> ch
        | Some k \<Rightarrow>
            let w = ch_scheduleWaiters ch ! k in
            if ch_active ch + w_weight w > ch_capacity ch then ch
            else
              let ch' = ch\<lparr>ch_scheduleWaiters :=
                    take k (ch_scheduleWaiters ch) @ drop (Suc k) (ch_scheduleWaiters ch)\<rparr> in
              if ch_entries ch (w_index w) = Some Claimed
              then drainSchedules (ch'\<lparr>ch_entries := (ch_entries ch)(w_index w := Some (Scheduled (w_weight w))),
                ch_active := ch_active ch + w_weight w, ch_admitted := ch_admitted ch @ [w_index w]\<rparr>)
              else drainSchedules ch'
      else ch)"
  by pat_completeness auto
termination
  by (relation "measure (\<lambda>ch. length (ch_scheduleWaiters ch))") (auto dest: ready_waiter_Some)

declare drainSchedules.simps [simp del]

definition next_index :: "('a, 'e) channel \<Rightarrow> nat option" where
  "next_index ch =
     (case ch_outputOrder ch of
        claim_order \<Rightarrow> Some (ch_nextOutput ch)
      | completion \<Rightarrow> (case ch_settledOrder ch of [] \<Rightarrow> None | i # is \<Rightarrow> Some i))"

definition next_entry :: "('a, 'e) channel \<Rightarrow> ('a, 'e) entry option" where
  "next_entry ch = (case next_index ch of None \<Rightarrow> None | Some i \<Rightarrow> ch_entries ch i)"

text \<open>A settled entry leaves the channel and answers the oldest reader.\<close>

definition deliver :: "('a, 'e) answer \<Rightarrow> ('a, 'e) channel \<Rightarrow> ('a, 'e) channel" where
  "deliver a ch = ch\<lparr>ch_entries := (ch_entries ch)(the (next_index ch) := None),
     ch_settledOrder := (if ch_outputOrder ch = claim_order then ch_settledOrder ch else tl (ch_settledOrder ch)),
     ch_consumed := ch_consumed ch + 1,
     ch_nextOutput := (if ch_outputOrder ch = claim_order then ch_nextOutput ch + 1 else ch_nextOutput ch),
     ch_readWaiters := tl (ch_readWaiters ch),
     ch_answers := ch_answers ch @ [(hd (ch_readWaiters ch), a)],
     ch_outputs := ch_outputs ch @ [the (next_index ch)]\<rparr>"

function drainReads :: "('a, 'e) channel \<Rightarrow> ('a, 'e) channel" where
  "drainReads ch =
     (if ch_readWaiters ch \<noteq> [] then
        case next_entry ch of
          Some (Fulfilled v) \<Rightarrow> drainReads (deliver (Yield v) ch)
        | Some (Rejected e) \<Rightarrow> drainReads (deliver (Throw e) ch)
        | _ \<Rightarrow>
            if ch_closed ch \<and> ch_consumed ch = ch_claimed ch
            then drainReads (ch\<lparr>ch_readWaiters := tl (ch_readWaiters ch),
              ch_answers := ch_answers ch @ [(hd (ch_readWaiters ch), Done)]\<rparr>)
            else ch
      else ch)"
  by pat_completeness auto
termination
  by (relation "measure (\<lambda>ch. length (ch_readWaiters ch))") (auto simp: deliver_def)

declare drainReads.simps [simp del]

subsection \<open>Operations\<close>

definition claim :: "('a, 'e) channel \<Rightarrow> channel_error + nat \<times> ('a, 'e) channel" where
  "claim ch =
     (if ch_closed ch then Inl ChannelClosed
      else Inr (ch_claimed ch, ch\<lparr>ch_claimed := ch_claimed ch + 1,
        ch_entries := (ch_entries ch)(ch_claimed ch := Some Claimed)\<rparr>))"

definition schedule :: "nat \<Rightarrow> bool \<Rightarrow> bool \<Rightarrow> ('a, 'e) channel \<Rightarrow> channel_error + ('a, 'e) channel" where
  "schedule i exclusive waits ch =
     (if ch_requested ch i then Inr ch
      else if ch_settled ch i then Inl AlreadySettled
      else Inr (drainSchedules (ch\<lparr>ch_requested := (ch_requested ch)(i := True),
        ch_scheduleWaiters := ch_scheduleWaiters ch @
          [\<lparr>w_index = i, w_weight = (if exclusive then ch_capacity ch else 1), w_ready = \<not> waits\<rparr>]\<rparr>)))"

text \<open>The callbacks on \<open>options.ready\<close>, fulfilled or rejected.\<close>

definition mark_ready :: "nat \<Rightarrow> ('a, 'e) channel \<Rightarrow> ('a, 'e) channel" where
  "mark_ready i ch = drainSchedules (ch\<lparr>ch_scheduleWaiters :=
     map (\<lambda>w. if w_index w = i then w\<lparr>w_ready := True\<rparr> else w) (ch_scheduleWaiters ch)\<rparr>)"

definition settle :: "nat \<Rightarrow> ('a, 'e) entry \<Rightarrow> ('a, 'e) channel \<Rightarrow> channel_error + ('a, 'e) channel" where
  "settle i e ch =
     (if ch_settled ch i then Inr ch
      else case ch_entries ch i of
        Some (Scheduled weight) \<Rightarrow>
          Inr (drainReads (drainSchedules (ch\<lparr>ch_settled := (ch_settled ch)(i := True),
            ch_entries := (ch_entries ch)(i := Some e),
            ch_settledOrder := (if ch_outputOrder ch = completion then ch_settledOrder ch @ [i] else ch_settledOrder ch),
            ch_active := ch_active ch - weight\<rparr>)))
      | _ \<Rightarrow> Inl NotScheduled)"

definition resolve :: "nat \<Rightarrow> 'a \<Rightarrow> ('a, 'e) channel \<Rightarrow> channel_error + ('a, 'e) channel" where
  "resolve i v = settle i (Fulfilled v)"

definition reject :: "nat \<Rightarrow> 'e \<Rightarrow> ('a, 'e) channel \<Rightarrow> channel_error + ('a, 'e) channel" where
  "reject i reason = settle i (Rejected reason)"

definition close :: "('a, 'e) channel \<Rightarrow> ('a, 'e) channel" where
  "close ch = (if ch_closed ch then ch else drainReads (ch\<lparr>ch_closed := True\<rparr>))"

definition next_result :: "('a, 'e) channel \<Rightarrow> nat \<times> ('a, 'e) channel" where
  "next_result ch = (ch_reads ch, drainReads (ch\<lparr>ch_reads := ch_reads ch + 1,
     ch_readWaiters := ch_readWaiters ch @ [ch_reads ch]\<rparr>))"

text \<open>The calls the environment can make: a resolver exists for every claimed position, and a
  dependency settles once, while its waiter is queued.\<close>

inductive channel_step :: "('a, 'e) channel \<Rightarrow> ('a, 'e) channel \<Rightarrow> bool" where
  call_claim: "claim ch = Inr (i, ch') \<Longrightarrow> channel_step ch ch'"
| call_schedule: "i < ch_claimed ch \<Longrightarrow> schedule i exclusive waits ch = Inr ch' \<Longrightarrow> channel_step ch ch'"
| dependency_ready: "w \<in> set (ch_scheduleWaiters ch) \<Longrightarrow> \<not> w_ready w \<Longrightarrow> channel_step ch (mark_ready (w_index w) ch)"
| call_resolve: "i < ch_claimed ch \<Longrightarrow> resolve i v ch = Inr ch' \<Longrightarrow> channel_step ch ch'"
| call_reject: "i < ch_claimed ch \<Longrightarrow> reject i e ch = Inr ch' \<Longrightarrow> channel_step ch ch'"
| call_close: "channel_step ch (close ch)"
| call_next: "channel_step ch (snd (next_result ch))"

subsection \<open>The invariant\<close>

fun running_weight :: "('a, 'e) entry option \<Rightarrow> nat" where
  "running_weight (Some (Scheduled w)) = w"
| "running_weight _ = 0"

fun is_settled :: "('a, 'e) entry option \<Rightarrow> bool" where
  "is_settled (Some (Fulfilled v)) = True"
| "is_settled (Some (Rejected e)) = True"
| "is_settled _ = False"

text \<open>Only claimed positions have state; a claim is settled exactly when its entry is, or has left.\<close>

definition claims_inv :: "('a, 'e) channel \<Rightarrow> bool" where
  "claims_inv ch \<longleftrightarrow> 0 < ch_capacity ch \<and>
     (\<forall>i. ch_claimed ch \<le> i \<longrightarrow> ch_entries ch i = None \<and> \<not> ch_requested ch i) \<and>
     (\<forall>i. ch_settled ch i \<longleftrightarrow> i < ch_claimed ch \<and> (ch_entries ch i = None \<or> is_settled (ch_entries ch i))) \<and>
     (\<forall>i w. ch_entries ch i = Some (Scheduled w) \<longrightarrow> 0 < w) \<and>
     (\<forall>i < ch_claimed ch. \<not> ch_requested ch i \<longrightarrow> ch_entries ch i = Some Claimed) \<and>
     (\<forall>i. ch_entries ch i = Some Claimed \<longrightarrow> ch_requested ch i \<longrightarrow> i \<in> w_index ` set (ch_scheduleWaiters ch))"

text \<open>The active weight is the weight of the running tasks and within the capacity.\<close>

definition load_inv :: "('a, 'e) channel \<Rightarrow> bool" where
  "load_inv ch \<longleftrightarrow> ch_active ch = (\<Sum>i < ch_claimed ch. running_weight (ch_entries ch i)) \<and>
     ch_active ch \<le> ch_capacity ch"

text \<open>Every waiter is queued once, for a claim that has not started.\<close>

definition waiters_inv :: "('a, 'e) channel \<Rightarrow> bool" where
  "waiters_inv ch \<longleftrightarrow> distinct (map w_index (ch_scheduleWaiters ch)) \<and>
     (\<forall>w \<in> set (ch_scheduleWaiters ch). ch_entries ch (w_index w) = Some Claimed \<and> ch_requested ch (w_index w) \<and>
        (w_weight w = 1 \<or> w_weight w = ch_capacity ch))"

text \<open>Every position is delivered at most once and in the order of the policy; readers are answered in
  the order of their calls.\<close>

definition outputs_inv :: "('a, 'e) channel \<Rightarrow> bool" where
  "outputs_inv ch \<longleftrightarrow> ch_consumed ch = length (ch_outputs ch) \<and> distinct (ch_outputs ch) \<and>
     set (ch_outputs ch) = {i. i < ch_claimed ch \<and> ch_entries ch i = None} \<and>
     (case ch_outputOrder ch of
        claim_order \<Rightarrow> [0..<ch_nextOutput ch] = ch_outputs ch \<and> ch_settledOrder ch = []
      | completion \<Rightarrow> distinct (ch_settledOrder ch) \<and> set (ch_settledOrder ch) = {i. is_settled (ch_entries ch i)}) \<and>
     map fst (ch_answers ch) @ ch_readWaiters ch = [0..<ch_reads ch]"

text \<open>The promise of \<open>schedule()\<close> is resolved once, for the claims that have started.\<close>

definition admitted_inv :: "('a, 'e) channel \<Rightarrow> bool" where
  "admitted_inv ch \<longleftrightarrow> distinct (ch_admitted ch) \<and> set (ch_admitted ch) = {i. i < ch_claimed ch \<and> ch_entries ch i \<noteq> Some Claimed}"

definition channel_inv :: "('a, 'e) channel \<Rightarrow> bool" where
  "channel_inv ch \<longleftrightarrow> claims_inv ch \<and> load_inv ch \<and> waiters_inv ch \<and> outputs_inv ch \<and> admitted_inv ch"

text \<open>Between calls nothing is left to admit and nothing to deliver.\<close>

definition schedules_quiet :: "('a, 'e) channel \<Rightarrow> bool" where
  "schedules_quiet ch \<longleftrightarrow> (\<forall>k. ready_waiter (ch_capacity ch) (ch_scheduleWaiters ch) = Some k \<longrightarrow>
     ch_capacity ch < ch_active ch + w_weight (ch_scheduleWaiters ch ! k))"

definition reads_quiet :: "('a, 'e) channel \<Rightarrow> bool" where
  "reads_quiet ch \<longleftrightarrow> (ch_readWaiters ch \<noteq> [] \<longrightarrow>
     \<not> is_settled (next_entry ch) \<and> \<not> (ch_closed ch \<and> ch_consumed ch = ch_claimed ch))"

lemma entry_claimed: "channel_inv ch \<Longrightarrow> ch_entries ch i \<noteq> None \<Longrightarrow> i < ch_claimed ch"
  by (rule ccontr) (auto simp: channel_inv_def claims_inv_def not_less)

lemma waiterD:
  assumes "channel_inv ch" "w \<in> set (ch_scheduleWaiters ch)"
  shows "ch_entries ch (w_index w) = Some Claimed" "ch_requested ch (w_index w)" "0 < w_weight w" "w_weight w = 1 \<or> w_weight w = ch_capacity ch"
proof -
  have w: "w_weight w = 1 \<or> w_weight w = ch_capacity ch" using assms by (simp add: channel_inv_def waiters_inv_def)
  then show "w_weight w = 1 \<or> w_weight w = ch_capacity ch" .
  from w assms show "ch_entries ch (w_index w) = Some Claimed" "ch_requested ch (w_index w)" "0 < w_weight w"
    by (auto simp: channel_inv_def waiters_inv_def claims_inv_def)
qed

lemma sum_update:
  assumes "k < (n::nat)"
  shows "(\<Sum>i < n. f ((m(k := v)) i)) + f (m k) = (\<Sum>i < n. f (m i)) + (f v :: nat)"
proof -
  have "(\<Sum>i < n. f (g i)) = f (g k) + (\<Sum>i \<in> {..<n} - {k}. f (g i))" for g
    using assms by (intro sum.remove) auto
  from this [of m] this [of "m(k := v)"] show ?thesis by simp
qed

lemma remove_nth:
  assumes "distinct (map f xs)" "k < length xs"
  shows "set (take k xs @ drop (Suc k) xs) = {x \<in> set xs. f x \<noteq> f (xs ! k)}"
    "distinct (map f (take k xs @ drop (Suc k) xs))"
proof -
  have xs: "xs = take k xs @ xs ! k # drop (Suc k) xs" using assms(2) by (rule id_take_nth_drop)
  have "distinct (map f (take k xs @ xs ! k # drop (Suc k) xs))" using assms(1) xs by simp
  moreover have "set xs = set (take k xs @ xs ! k # drop (Suc k) xs)" using xs by simp
  ultimately show "set (take k xs @ drop (Suc k) xs) = {x \<in> set xs. f x \<noteq> f (xs ! k)}"
    "distinct (map f (take k xs @ drop (Suc k) xs))" by (auto simp: image_iff)
qed

definition admit :: "nat \<Rightarrow> ('a, 'e) channel \<Rightarrow> ('a, 'e) channel" where
  "admit k ch = (let w = ch_scheduleWaiters ch ! k in
     ch\<lparr>ch_scheduleWaiters := take k (ch_scheduleWaiters ch) @ drop (Suc k) (ch_scheduleWaiters ch),
        ch_entries := (ch_entries ch)(w_index w := Some (Scheduled (w_weight w))),
        ch_active := ch_active ch + w_weight w, ch_admitted := ch_admitted ch @ [w_index w]\<rparr>)"

lemma admit_inv:
  assumes "channel_inv ch" "k < length (ch_scheduleWaiters ch)"
    "ch_active ch + w_weight (ch_scheduleWaiters ch ! k) \<le> ch_capacity ch"
  shows "channel_inv (admit k ch)" "reads_quiet ch \<Longrightarrow> reads_quiet (admit k ch)"
proof -
  let ?ws = "ch_scheduleWaiters ch" and ?w = "ch_scheduleWaiters ch ! k"
  have w: "ch_entries ch (w_index ?w) = Some Claimed" "distinct (map w_index ?ws)" "ch_requested ch (w_index ?w)" "0 < w_weight ?w"
    using assms waiterD [OF assms(1), of ?w] by (simp_all add: channel_inv_def waiters_inv_def)
  then have lt: "w_index ?w < ch_claimed ch"
    using entry_claimed [OF assms(1)] by simp
  note ws = remove_nth [OF w(2) assms(2)]
  have "claims_inv (admit k ch)" using assms(1) w(1,3,4) lt ws(1)
    by (auto simp: channel_inv_def claims_inv_def admit_def Let_def image_iff)
  moreover have "load_inv (admit k ch)"
    using assms(1,3) w(1) sum_update [OF lt, of running_weight "ch_entries ch" "Some (Scheduled (w_weight ?w))"]
    by (auto simp: channel_inv_def load_inv_def admit_def Let_def)
  moreover have "waiters_inv (admit k ch)" using assms(1) w(1) ws
    by (auto simp: channel_inv_def waiters_inv_def admit_def Let_def)
  moreover have settled: "is_settled (((ch_entries ch)(w_index ?w := Some (Scheduled (w_weight ?w)))) i) \<longleftrightarrow> is_settled (ch_entries ch i)" for i
    using w(1) by auto
  moreover have "outputs_inv (admit k ch)"
  proof -
    have "i < ch_claimed ch \<and> ((ch_entries ch)(w_index ?w := Some (Scheduled (w_weight ?w)))) i = None \<longleftrightarrow>
        i < ch_claimed ch \<and> ch_entries ch i = None" for i using w(1) by auto
    with assms(1) settled show ?thesis
      by (simp add: channel_inv_def outputs_inv_def admit_def Let_def del: fun_upd_apply cong: output_order.case_cong)
  qed
  moreover have "admitted_inv (admit k ch)" using assms(1) w(1) lt
    by (auto simp: channel_inv_def admitted_inv_def admit_def Let_def)
  ultimately show "channel_inv (admit k ch)" by (simp add: channel_inv_def)
  show "reads_quiet (admit k ch)" if "reads_quiet ch"
    using that settled
    by (auto simp: reads_quiet_def next_entry_def next_index_def admit_def Let_def simp del: fun_upd_apply
        split: output_order.splits list.splits)
qed

lemma drainSchedules_inv:
  assumes "channel_inv ch"
  shows "channel_inv (drainSchedules ch) \<and> schedules_quiet (drainSchedules ch) \<and>
    (reads_quiet ch \<longrightarrow> reads_quiet (drainSchedules ch))"
  using assms
proof (induction ch rule: drainSchedules.induct)
  case (1 ch)
  let ?ws = "ch_scheduleWaiters ch"
  show ?case
  proof (cases "ready_waiter (ch_capacity ch) ?ws")
    case None
    then have "drainSchedules ch = ch" by (simp add: drainSchedules.simps [of ch])
    then show ?thesis using "1.prems" None by (simp add: schedules_quiet_def)
  next
    case (Some k)
    note k = ready_waiter_Some [OF Some]
    have w: "ch_entries ch (w_index (?ws ! k)) = Some Claimed" "0 < w_weight (?ws ! k)"
      using waiterD [OF "1.prems", of "?ws ! k"] k by simp_all
    show ?thesis
    proof (cases "ch_active ch + w_weight (?ws ! k) \<le> ch_capacity ch")
      case True
      then have c: "ch_active ch < ch_capacity ch \<and> ?ws \<noteq> []" "\<not> ch_capacity ch < ch_active ch + w_weight (?ws ! k)"
        using w(2) k by auto
      then have step: "drainSchedules ch = drainSchedules (admit k ch)"
        using Some w(1) by (simp add: drainSchedules.simps [of ch] admit_def Let_def)
      note adm = admit_inv [OF "1.prems" _ True]
      show ?thesis
        using "1.IH"(1) [OF c(1) Some refl c(2) refl w(1)] adm k
        by (simp add: step) (simp add: admit_def Let_def)
    next
      case False
      then have "drainSchedules ch = ch" using Some by (simp add: drainSchedules.simps [of ch])
      then show ?thesis using "1.prems" Some False by (simp add: schedules_quiet_def)
    qed
  qed
qed

lemma is_settled_cases:
  assumes "is_settled e"
  obtains v where "e = Some (Fulfilled v)" | r where "e = Some (Rejected r)"
  using assms by (cases e rule: is_settled.cases) auto

lemma deliver_inv:
  assumes "channel_inv ch" "is_settled (next_entry ch)" "ch_readWaiters ch \<noteq> []"
  shows "channel_inv (deliver a ch)" "schedules_quiet ch \<Longrightarrow> schedules_quiet (deliver a ch)"
proof -
  obtain i where i: "next_index ch = Some i" "is_settled (ch_entries ch i)"
    using assms(2) by (cases "next_index ch") (auto simp: next_entry_def)
  have e: "ch_entries ch i \<noteq> None" "ch_entries ch i \<noteq> Some Claimed" "running_weight (ch_entries ch i) = 0"
    using i(2) by (auto elim: is_settled_cases)
  then have lt: "i < ch_claimed ch" using entry_claimed [OF assms(1)] by simp
  have "claims_inv (deliver a ch)"
    using assms(1) i e lt by (auto simp: channel_inv_def claims_inv_def deliver_def)
  moreover have "load_inv (deliver a ch)"
    using assms(1) i(1) e(3) sum_update [OF lt, of running_weight "ch_entries ch" None]
    by (simp add: channel_inv_def load_inv_def deliver_def)
  moreover have "waiters_inv (deliver a ch)"
    using assms(1) i(1) e(2) by (auto simp: channel_inv_def waiters_inv_def deliver_def)
  moreover have "outputs_inv (deliver a ch)"
  proof -
    have out: "ch_consumed ch = length (ch_outputs ch)" "distinct (ch_outputs ch)"
        "set (ch_outputs ch) = {i. i < ch_claimed ch \<and> ch_entries ch i = None}"
        "map fst (ch_answers ch) @ ch_readWaiters ch = [0..<ch_reads ch]"
      using assms(1) by (simp_all add: channel_inv_def outputs_inv_def)
    then have "i \<notin> set (ch_outputs ch)" using e(1) by simp
    moreover have "{j. j < ch_claimed ch \<and> ((ch_entries ch)(i := None)) j = None} =
        insert i {j. j < ch_claimed ch \<and> ch_entries ch j = None}" using lt by auto
    moreover have "map fst (ch_answers ch) @ hd (ch_readWaiters ch) # tl (ch_readWaiters ch) = [0..<ch_reads ch]"
      using out(4) assms(3) by simp
    moreover have "case ch_outputOrder ch of
        claim_order \<Rightarrow> [0..<ch_nextOutput ch + 1] = ch_outputs ch @ [i] \<and> ch_settledOrder ch = []
      | completion \<Rightarrow> distinct (tl (ch_settledOrder ch)) \<and>
          set (tl (ch_settledOrder ch)) = {j. is_settled (((ch_entries ch)(i := None)) j)}"
    proof (cases "ch_outputOrder ch")
      case completion
      then obtain "is" where "ch_settledOrder ch = i # is" using i(1) by (auto simp: next_index_def split: list.splits)
      with assms(1) completion show ?thesis by (auto simp: channel_inv_def outputs_inv_def)
    next
      case claim_order
      with assms(1) i(1) show ?thesis by (simp add: channel_inv_def outputs_inv_def next_index_def)
    qed
    ultimately show ?thesis
      using out i(1) unfolding outputs_inv_def deliver_def by (cases "ch_outputOrder ch") auto
  qed
  moreover have "admitted_inv (deliver a ch)" using assms(1) i(1) e(2) by (auto simp: channel_inv_def admitted_inv_def deliver_def)
  ultimately show "channel_inv (deliver a ch)" by (simp add: channel_inv_def)
  show "schedules_quiet ch \<Longrightarrow> schedules_quiet (deliver a ch)" by (simp add: schedules_quiet_def deliver_def)
qed

lemma answer_done_inv:
  assumes "channel_inv ch" "ch_readWaiters ch \<noteq> []"
  shows "channel_inv (ch\<lparr>ch_readWaiters := tl (ch_readWaiters ch), ch_answers := ch_answers ch @ [(hd (ch_readWaiters ch), Done)]\<rparr>)"
    "schedules_quiet ch \<Longrightarrow> schedules_quiet (ch\<lparr>ch_readWaiters := tl (ch_readWaiters ch), ch_answers := ch_answers ch @ [(hd (ch_readWaiters ch), Done)]\<rparr>)"
  using assms by (auto simp: channel_inv_def claims_inv_def load_inv_def waiters_inv_def outputs_inv_def admitted_inv_def schedules_quiet_def
      split: output_order.splits)

lemma drainReads_inv:
  assumes "channel_inv ch"
  shows "channel_inv (drainReads ch) \<and> reads_quiet (drainReads ch) \<and>
    (schedules_quiet ch \<longrightarrow> schedules_quiet (drainReads ch))"
  using assms
proof (induction ch rule: drainReads.induct)
  case (1 ch)
  show ?case
  proof (cases "ch_readWaiters ch = []")
    case True
    then show ?thesis using "1.prems" by (simp add: drainReads.simps [of ch] reads_quiet_def)
  next
    case ne: False
    show ?thesis
    proof (cases "is_settled (next_entry ch)")
      case True
      then show ?thesis
      proof (cases rule: is_settled_cases)
        case (1 v)
        with "1.IH"(4) [OF ne 1 refl] deliver_inv [OF "1.prems" True ne, of "Yield v"] ne show ?thesis
          by (simp add: drainReads.simps [of ch])
      next
        case (2 e)
        with "1.IH"(5) [OF ne 2 refl] deliver_inv [OF "1.prems" True ne, of "Throw e"] ne show ?thesis
          by (simp add: drainReads.simps [of ch])
      qed
    next
      case False
      let ?done = "ch\<lparr>ch_readWaiters := tl (ch_readWaiters ch), ch_answers := ch_answers ch @ [(hd (ch_readWaiters ch), Done)]\<rparr>"
      have step: "drainReads ch = (if ch_closed ch \<and> ch_consumed ch = ch_claimed ch then drainReads ?done else ch)"
        using ne False by (auto simp: drainReads.simps [of ch] split: option.splits entry.splits)
      show ?thesis
      proof (cases "ch_closed ch \<and> ch_consumed ch = ch_claimed ch")
        case True
        have "channel_inv (drainReads ?done) \<and> reads_quiet (drainReads ?done) \<and>
            (schedules_quiet ?done \<longrightarrow> schedules_quiet (drainReads ?done))"
        proof (cases "next_entry ch")
          case None
          then show ?thesis using "1.IH"(1) [OF ne None True] answer_done_inv(1) [OF "1.prems" ne] by simp
        next
          case (Some e)
          then show ?thesis
            using "1.IH"(2,3) [OF ne Some _ True] answer_done_inv(1) [OF "1.prems" ne] False
            by (cases e) simp_all
        qed
        then show ?thesis using True step answer_done_inv(2) [OF "1.prems" ne] by simp
      next
        case notdone: False
        then have "drainReads ch = ch" unfolding step by (rule if_not_P)
        then show ?thesis using "1.prems" False notdone by (simp add: reads_quiet_def)
      qed
    qed
  qed
qed

definition channel_ok :: "('a, 'e) channel \<Rightarrow> bool" where
  "channel_ok ch \<longleftrightarrow> channel_inv ch \<and> schedules_quiet ch \<and> reads_quiet ch"

lemmas channel_defs = channel_inv_def claims_inv_def load_inv_def waiters_inv_def outputs_inv_def admitted_inv_def

lemma drain_ok:
  "channel_inv ch \<Longrightarrow> reads_quiet ch \<Longrightarrow> channel_ok (drainSchedules ch)"
  "channel_inv ch \<Longrightarrow> schedules_quiet ch \<Longrightarrow> channel_ok (drainReads ch)"
  "channel_inv ch \<Longrightarrow> channel_ok (drainReads (drainSchedules ch))"
  using drainSchedules_inv drainReads_inv by (auto simp: channel_ok_def)

lemma claim_ok:
  assumes "channel_ok ch" "claim ch = Inr (i, ch')"
  shows "channel_ok ch'"
proof -
  let ?n = "ch_claimed ch"
  have ch': "ch' = ch\<lparr>ch_claimed := Suc ?n, ch_entries := (ch_entries ch)(?n := Some Claimed)\<rparr>" and open': "\<not> ch_closed ch"
    using assms(2) by (auto simp: claim_def split: if_splits)
  have inv: "channel_inv ch" using assms(1) by (simp add: channel_ok_def)
  then have new: "ch_entries ch ?n = None" "\<not> ch_requested ch ?n" by (auto simp: channel_defs)
  have "(\<Sum>i < ?n. running_weight (((ch_entries ch)(?n := Some Claimed)) i)) = (\<Sum>i < ?n. running_weight (ch_entries ch i))"
    by (intro sum.cong) auto
  then have "load_inv ch'" using inv by (simp add: channel_defs ch')
  moreover have "claims_inv ch'" using inv new by (auto simp: channel_defs ch' less_Suc_eq)
  moreover have "waiters_inv ch'" using inv new by (auto simp: channel_defs ch')
  moreover have "outputs_inv ch'"
  proof -
    have "{i. i < Suc ?n \<and> ((ch_entries ch)(?n := Some Claimed)) i = None} = {i. i < ?n \<and> ch_entries ch i = None}"
      "{i. is_settled (((ch_entries ch)(?n := Some Claimed)) i)} = {i. is_settled (ch_entries ch i)}"
      using new by (auto simp: less_Suc_eq)
    then show ?thesis using inv by (simp add: channel_inv_def outputs_inv_def ch' del: fun_upd_apply cong: output_order.case_cong)
  qed
  moreover have "admitted_inv ch'" using inv by (auto simp: channel_inv_def admitted_inv_def ch' less_Suc_eq)
  ultimately have "channel_inv ch'" by (simp add: channel_inv_def)
  moreover have "schedules_quiet ch'" using assms(1) by (simp add: channel_ok_def schedules_quiet_def ch')
  moreover have "reads_quiet ch'" using assms(1) open' new
    by (auto simp: channel_ok_def reads_quiet_def next_entry_def next_index_def ch' split: output_order.splits list.splits)
  ultimately show ?thesis by (simp add: channel_ok_def)
qed

lemma schedule_ok:
  assumes "channel_ok ch" "i < ch_claimed ch" "schedule i exclusive waits ch = Inr ch'"
  shows "channel_ok ch'"
proof (cases "ch_requested ch i")
  case True
  then show ?thesis using assms by (simp add: schedule_def)
next
  case False
  define ch1 where "ch1 = ch\<lparr>ch_requested := (ch_requested ch)(i := True), ch_scheduleWaiters := ch_scheduleWaiters ch @
    [\<lparr>w_index = i, w_weight = (if exclusive then ch_capacity ch else 1), w_ready = \<not> waits\<rparr>]\<rparr>"
  have ch': "ch' = drainSchedules ch1" and ns: "\<not> ch_settled ch i"
    using assms(3) False by (auto simp: schedule_def ch1_def split: if_splits)
  have inv: "channel_inv ch" "reads_quiet ch" using assms(1) by (simp_all add: channel_ok_def)
  have e: "ch_entries ch i = Some Claimed" "i \<notin> w_index ` set (ch_scheduleWaiters ch)"
    using inv(1) assms(2) False by (auto simp: channel_defs)
  have "claims_inv ch1" using inv(1) assms(2) by (auto simp: channel_defs ch1_def)
  moreover have "waiters_inv ch1" using inv(1) e by (auto simp: channel_defs ch1_def)
  moreover have "load_inv ch1" "outputs_inv ch1" "admitted_inv ch1" using inv(1)
    by (simp_all add: channel_defs ch1_def cong: output_order.case_cong)
  ultimately have "channel_inv ch1" by (simp add: channel_inv_def)
  moreover have "reads_quiet ch1" using inv(2)
    by (simp add: reads_quiet_def next_entry_def next_index_def ch1_def cong: output_order.case_cong option.case_cong)
  ultimately show ?thesis unfolding ch' by (rule drain_ok(1))
qed

lemma mark_ready_ok:
  assumes "channel_ok ch"
  shows "channel_ok (mark_ready i ch)"
proof -
  define g where "g = (\<lambda>w :: waiter. if w_index w = i then w\<lparr>w_ready := True\<rparr> else w)"
  define ch1 where "ch1 = ch\<lparr>ch_scheduleWaiters := map g (ch_scheduleWaiters ch)\<rparr>"
  have g: "w_index (g w) = w_index w" "w_weight (g w) = w_weight w" for w by (simp_all add: g_def)
  have inv: "channel_inv ch" "reads_quiet ch" using assms by (simp_all add: channel_ok_def)
  then have "channel_inv ch1"
    by (simp add: channel_defs ch1_def g comp_def image_image cong: output_order.case_cong)
  moreover have "reads_quiet ch1" using inv(2)
    by (simp add: reads_quiet_def next_entry_def next_index_def ch1_def cong: output_order.case_cong option.case_cong)
  ultimately show ?thesis unfolding mark_ready_def by (simp add: drain_ok(1) flip: g_def ch1_def)
qed

lemma settle_ok:
  assumes "channel_ok ch" "i < ch_claimed ch" "settle i e ch = Inr ch'" "is_settled (Some e)"
  shows "channel_ok ch'"
proof (cases "ch_settled ch i")
  case True
  then show ?thesis using assms by (simp add: settle_def)
next
  case False
  then obtain weight where w: "ch_entries ch i = Some (Scheduled weight)"
    using assms(3) by (auto simp: settle_def split: option.splits entry.splits)
  define ch1 where "ch1 = ch\<lparr>ch_settled := (ch_settled ch)(i := True), ch_entries := (ch_entries ch)(i := Some e),
    ch_settledOrder := (if ch_outputOrder ch = completion then ch_settledOrder ch @ [i] else ch_settledOrder ch),
    ch_active := ch_active ch - weight\<rparr>"
  have ch': "ch' = drainReads (drainSchedules ch1)" using assms(3) False w by (simp add: settle_def ch1_def)
  have inv: "channel_inv ch" using assms(1) by (simp add: channel_ok_def)
  have e: "e \<noteq> Claimed" "running_weight (Some e) = 0" using assms(4) by (cases e; simp)+
  have "claims_inv ch1" using inv assms(2,4) w e(1) by (auto simp: channel_defs ch1_def)
  moreover have "load_inv ch1"
    using inv w e(2) sum_update [OF assms(2), of running_weight "ch_entries ch" "Some e"]
    by (auto simp: channel_inv_def load_inv_def ch1_def simp del: fun_upd_apply)
  moreover have "waiters_inv ch1" using inv w by (auto simp: channel_defs ch1_def)
  moreover have "outputs_inv ch1"
  proof -
    have "{j. j < ch_claimed ch \<and> ((ch_entries ch)(i := Some e)) j = None} = {j. j < ch_claimed ch \<and> ch_entries ch j = None}"
      "{j. is_settled (((ch_entries ch)(i := Some e)) j)} = insert i {j. is_settled (ch_entries ch j)}"
      using w assms(4) by auto
    then show ?thesis
      using inv w by (cases "ch_outputOrder ch") (simp_all add: channel_inv_def outputs_inv_def ch1_def del: fun_upd_apply set_upt)
  qed
  moreover have "admitted_inv ch1"
  proof -
    have "{j. j < ch_claimed ch \<and> ((ch_entries ch)(i := Some e)) j \<noteq> Some Claimed} = {j. j < ch_claimed ch \<and> ch_entries ch j \<noteq> Some Claimed}"
      using w e(1) by auto
    then show ?thesis using inv by (simp add: channel_inv_def admitted_inv_def ch1_def del: fun_upd_apply)
  qed
  ultimately have "channel_inv ch1" by (simp add: channel_inv_def)
  then show ?thesis unfolding ch' by (rule drain_ok(3))
qed

lemma channel_step_ok:
  assumes "channel_ok ch" "channel_step ch ch'"
  shows "channel_ok ch'"
  using assms(2)
proof (cases rule: channel_step.cases)
  case (call_claim i)
  with assms(1) show ?thesis by (rule claim_ok)
next
  case (call_schedule i exclusive waits)
  with assms(1) show ?thesis by (rule schedule_ok)
next
  case (dependency_ready w)
  then show ?thesis using mark_ready_ok [OF assms(1)] by simp
next
  case (call_resolve i v)
  then show ?thesis using settle_ok [OF assms(1), of i "Fulfilled v"] by (simp add: resolve_def)
next
  case (call_reject i e)
  then show ?thesis using settle_ok [OF assms(1), of i "Rejected e"] by (simp add: reject_def)
next
  case call_close
  have "channel_inv (ch\<lparr>ch_closed := True\<rparr>)" "schedules_quiet (ch\<lparr>ch_closed := True\<rparr>)"
    using assms(1) by (auto simp: channel_ok_def channel_defs schedules_quiet_def split: output_order.splits)
  from drain_ok(2) [OF this] show ?thesis using assms(1) by (simp add: call_close close_def)
next
  case call_next
  let ?ch = "ch\<lparr>ch_reads := ch_reads ch + 1, ch_readWaiters := ch_readWaiters ch @ [ch_reads ch]\<rparr>"
  have "map fst (ch_answers ch) @ ch_readWaiters ch @ [ch_reads ch] = [0..<Suc (ch_reads ch)]"
    using assms(1) by (simp add: channel_ok_def channel_inv_def outputs_inv_def flip: append_assoc)
  then have "channel_inv ?ch" "schedules_quiet ?ch"
    using assms(1) by (auto simp: channel_ok_def channel_defs schedules_quiet_def split: output_order.splits)
  then show ?thesis using drain_ok(2) by (simp add: call_next next_result_def)
qed

lemma new_channel_ok: "new_channel capacity order = Inr ch \<Longrightarrow> channel_ok ch"
  by (auto simp: new_channel_def channel_ok_def channel_defs schedules_quiet_def reads_quiet_def
      split: if_splits output_order.splits)

definition is_new_channel :: "('a, 'e) channel \<Rightarrow> bool" where
  "is_new_channel ch \<longleftrightarrow> (\<exists>capacity order. new_channel capacity order = Inr ch)"

interpretation channel: event_system is_new_channel channel_step channel_ok
  by unfold_locales (auto simp: is_new_channel_def intro: new_channel_ok channel_step_ok)

lemma exclusive_alone:
  assumes "channel_inv ch" "ch_entries ch i = Some (Scheduled (ch_capacity ch))" "ch_entries ch j = Some (Scheduled w)"
  shows "i = j"
proof (rule ccontr)
  assume ne: "i \<noteq> j"
  have "0 < w" using assms(1,3) by (auto simp: channel_inv_def claims_inv_def)
  have lt: "i < ch_claimed ch" "j < ch_claimed ch" using entry_claimed [OF assms(1)] assms(2,3) by auto
  have "(\<Sum>k \<in> {i, j}. running_weight (ch_entries ch k)) \<le> (\<Sum>k < ch_claimed ch. running_weight (ch_entries ch k))"
    using lt by (intro sum_mono2) auto
  with assms ne \<open>0 < w\<close> show False by (simp add: channel_inv_def load_inv_def)
qed

subsection \<open>Properties\<close>


text \<open>C22: delivery. Every reader is answered once and in the order of the calls of \<open>next()\<close>; every
  position is delivered at most once, in claim order exactly the positions \<open>0, 1, 2, ...\<close> one after the
  other; and while a reader waits there is nothing to deliver and the stream has not ended.\<close>

theorem channel_delivery:
  assumes "reachable is_new_channel channel_step ch"
  shows "map fst (ch_answers ch) @ ch_readWaiters ch = [0..<ch_reads ch] \<and>
    distinct (ch_outputs ch) \<and>
    (ch_outputOrder ch = claim_order \<longrightarrow> ch_outputs ch = [0..<ch_consumed ch]) \<and>
    (ch_readWaiters ch \<noteq> [] \<longrightarrow> \<not> is_settled (next_entry ch) \<and> \<not> (ch_closed ch \<and> ch_consumed ch = ch_claimed ch))"
proof -
  have ok: "outputs_inv ch" "reads_quiet ch"
    using channel.inv_reachable [OF assms] by (simp_all add: channel_ok_def channel_inv_def)
  have "ch_outputs ch = [0..<ch_consumed ch]" if "ch_outputOrder ch = claim_order"
  proof -
    have "ch_consumed ch = length (ch_outputs ch)" "[0..<ch_nextOutput ch] = ch_outputs ch"
      using ok(1) that by (simp_all add: outputs_inv_def)
    then show ?thesis by (metis diff_zero length_upt)
  qed
  with ok show ?thesis by (simp add: outputs_inv_def reads_quiet_def)
qed

text \<open>A history with two claims, an exclusive task and a waiting reader.\<close>

definition sample_history :: "channel_error + (nat, nat) channel" where
  "sample_history =
     bindR (new_channel 2 claim_order) (\<lambda>ch.
     bindR (claim ch) (\<lambda>(i, ch).
     bindR (claim ch) (\<lambda>(j, ch).
     bindR (schedule i True False ch) (\<lambda>ch. Inr (snd (next_result ch))))))"

lemma sample_reachable:
  assumes "sample_history = Inr ch"
  shows "reachable is_new_channel channel_step ch"
proof -
  from assms obtain c0 i c1 j c2 c3 where c: "new_channel 2 claim_order = Inr c0" "claim c0 = Inr (i, c1)" "claim c1 = Inr (j, c2)"
    "schedule i True False c2 = Inr c3" "ch = snd (next_result c3)"
    by (auto simp: sample_history_def bindR_eq_Inr)
  have "reachable is_new_channel channel_step c0" using c(1) by (intro reachable_init) (auto simp: is_new_channel_def)
  then have "reachable is_new_channel channel_step c2"
    using c(2,3) by (blast intro: reachable_step call_claim)
  moreover have "i < ch_claimed c2" using c(1-3) by (auto simp: new_channel_def claim_def)
  ultimately have "reachable is_new_channel channel_step c3"
    using c(4) by (blast intro: reachable_step call_schedule)
  then show ?thesis unfolding c(5) by (blast intro: reachable_step call_next)
qed

lemma sample_history_Inr: "\<exists>ch. sample_history = Inr ch \<and> ch_active ch = 2 \<and> ch_readWaiters ch = [0]"
  by (simp add: sample_history_def new_channel_def claim_def schedule_def next_result_def
      drainSchedules.simps drainReads.simps next_entry_def next_index_def Let_def)


theorem channel_delivery_witness:
  "\<exists>ch. sample_history = Inr ch \<and> ch_readWaiters ch = [0] \<and> \<not> is_settled (next_entry ch)"
  using sample_history_Inr channel_delivery [OF sample_reachable] by (metis not_Cons_self2)



text \<open>With capacity one a request that waits for its dependency blocks every later request, exclusive
  or not: a task whose dependency is a later task is never admitted.\<close>

theorem channel_capacity_one_blocks:
  assumes "reachable is_new_channel channel_step ch" "ch_capacity ch = 1" "ch_scheduleWaiters ch = w # ws" "\<not> w_ready w"
    and "schedule i exclusive False ch = Inr ch'"
  shows "ch_admitted ch' = ch_admitted ch"
proof (cases "ch_requested ch i")
  case True
  then show ?thesis using assms(5) by (simp add: schedule_def)
next
  case False
  have "channel_inv ch" using channel.inv_reachable [OF assms(1)] by (simp add: channel_ok_def)
  then have "w_weight w = 1" using assms(2,3) by (auto simp: channel_inv_def waiters_inv_def)
  then show ?thesis
    using assms(2-5) False by (auto simp: schedule_def drainSchedules.simps split: if_splits)
qed

theorem channel_capacity_one_blocks_witness:
  "\<exists>ch ch'. bindR (new_channel 1 completion) (\<lambda>ch. bindR (claim ch) (\<lambda>(i, ch). bindR (claim ch) (\<lambda>(j, ch).
      schedule i False True ch))) = (Inr ch :: channel_error + (nat, nat) channel) \<and>
    schedule 1 False False ch = Inr ch' \<and> ch_admitted ch' = ch_admitted ch"
proof -
  obtain c0 c1 c2 ch ch' :: "(nat, nat) channel" where c: "new_channel 1 completion = Inr c0" "claim c0 = Inr (0, c1)" "claim c1 = Inr (1, c2)"
      "schedule 0 False True c2 = Inr ch" "ch_capacity ch = 1" "ch_scheduleWaiters ch = [\<lparr>w_index = 0, w_weight = 1, w_ready = False\<rparr>]"
      "ch_claimed c2 = 2" "schedule 1 False False ch = Inr ch'"
    by (simp add: new_channel_def claim_def schedule_def drainSchedules.simps)
  have "reachable is_new_channel channel_step c0" using c(1) by (intro reachable_init) (auto simp: is_new_channel_def)
  then have "reachable is_new_channel channel_step c2"
    using c(2,3) by (blast intro: reachable_step call_claim)
  moreover have "channel_step c2 ch" using c(7,4) by (intro call_schedule [of 0]) auto
  ultimately have "reachable is_new_channel channel_step ch" by (rule reachable_step)
  from channel_capacity_one_blocks [OF this c(5,6) _ c(8)] c(1-4,8) show ?thesis by auto
qed

end
