(* ===== verification/Serial_Executor.thy ===== *)
theory Serial_Executor
  imports Event_System
begin

text \<open>
  \<open>internal/serial-executor.ts\<close>: the FIFO execution gate \<open>SerialExecutor\<close>.

  The entries form a doubly linked list of mutable objects, kept in an explicit heap: an entry is its
  number, \<open>se_heap\<close> its \<open>previous\<close> and \<open>next\<close> fields. What the code leaves to promises is part of the
  state: the queued \<open>#pump\<close> microtasks (\<open>se_pumps\<close>), the entry whose operation holds the slot
  (\<open>se_running\<close>), the abort listeners, and, in order, the accepted, aborted and started entries, the
  settled promises and the resolved \<open>drain()\<close> promises.
\<close>

record cell =
  c_previous :: "nat option"
  c_next :: "nat option"

record executor =
  se_maxPending :: "nat option"
  se_pending :: int
  se_closed :: bool
  se_active :: bool
  se_head :: "nat option"
  se_tail :: "nat option"
  se_heap :: "nat \<Rightarrow> cell"
  se_fresh :: nat
  se_idle :: "nat list"
  se_listening :: "nat \<Rightarrow> bool"
  se_pumps :: nat
  se_running :: "nat option"
  se_drains :: nat
  se_accepted :: "nat list"
  se_aborted :: "nat list"
  se_started :: "nat list"
  se_results :: "(nat \<times> bool) list"
  se_drained :: "nat list"

datatype run_error = InvalidMaxPending | ExecutorClosed | SignalAborted | CapacityExceeded

definition new_executor :: "int option \<Rightarrow> run_error + executor" where
  "new_executor maxPending =
     (if (case maxPending of None \<Rightarrow> False | Some m \<Rightarrow> m < 1 \<or> m \<ge> 2 ^ 53) then Inl InvalidMaxPending
      else Inr \<lparr>se_maxPending = map_option nat maxPending, se_pending = 0, se_closed = False, se_active = False,
        se_head = None, se_tail = None, se_heap = (\<lambda>_. \<lparr>c_previous = None, c_next = None\<rparr>), se_fresh = 0,
        se_idle = [], se_listening = (\<lambda>_. False), se_pumps = 0, se_running = None, se_drains = 0,
        se_accepted = [], se_aborted = [], se_started = [], se_results = [], se_drained = []\<rparr>)"

text \<open>\<open>#remove\<close>, one assignment after the other.\<close>

definition set_next :: "nat \<Rightarrow> nat option \<Rightarrow> executor \<Rightarrow> executor" where
  "set_next e n s = s\<lparr>se_heap := (se_heap s)(e := (se_heap s e)\<lparr>c_next := n\<rparr>)\<rparr>"

definition set_previous :: "nat \<Rightarrow> nat option \<Rightarrow> executor \<Rightarrow> executor" where
  "set_previous e p s = s\<lparr>se_heap := (se_heap s)(e := (se_heap s e)\<lparr>c_previous := p\<rparr>)\<rparr>"

definition remove_entry :: "nat \<Rightarrow> executor \<Rightarrow> executor" where
  "remove_entry e s =
     (let s1 = (case c_previous (se_heap s e) of
            Some p \<Rightarrow> set_next p (c_next (se_heap s e)) s
          | None \<Rightarrow> s\<lparr>se_head := c_next (se_heap s e)\<rparr>);
          s2 = (case c_next (se_heap s1 e) of
            Some n \<Rightarrow> set_previous n (c_previous (se_heap s1 e)) s1
          | None \<Rightarrow> s1\<lparr>se_tail := c_previous (se_heap s1 e)\<rparr>) in
      set_previous e None (set_next e None s2))"

definition detach :: "nat \<Rightarrow> executor \<Rightarrow> executor" where
  "detach e s = s\<lparr>se_listening := (se_listening s)(e := False)\<rparr>"

definition notifyIdle :: "executor \<Rightarrow> executor" where
  "notifyIdle s =
     (if se_pending s \<noteq> 0 then s else s\<lparr>se_idle := [], se_drained := se_drained s @ se_idle s\<rparr>)"

definition pump :: "executor \<Rightarrow> executor" where
  "pump s =
     (if se_active s then s
      else case se_head s of
        None \<Rightarrow> s
      | Some e \<Rightarrow>
          (detach e (remove_entry e s))\<lparr>se_active := True, se_running := Some e, se_started := se_started s @ [e]\<rparr>)"

definition finish :: "nat \<Rightarrow> bool \<Rightarrow> executor \<Rightarrow> executor" where
  "finish e success s =
     (let s = pump (s\<lparr>se_active := False, se_running := None, se_pending := se_pending s - 1\<rparr>) in
      notifyIdle (s\<lparr>se_results := se_results s @ [(e, success)]\<rparr>))"

text \<open>\<open>signal\<close>: none, or one that is aborted or not when the call is made.\<close>

definition run :: "bool option \<Rightarrow> executor \<Rightarrow> run_error + nat \<times> executor" where
  "run signal s =
     (if se_closed s then Inl ExecutorClosed
      else if signal = Some True then Inl SignalAborted
      else if (case se_maxPending s of None \<Rightarrow> False | Some m \<Rightarrow> int m \<le> se_pending s) then Inl CapacityExceeded
      else
        let e = se_fresh s;
            s1 = s\<lparr>se_fresh := e + 1, se_heap := (se_heap s)(e := \<lparr>c_previous = se_tail s, c_next = None\<rparr>)\<rparr>;
            s2 = (case se_tail s1 of Some t \<Rightarrow> set_next t (Some e) s1 | None \<Rightarrow> s1\<lparr>se_head := Some e\<rparr>) in
        Inr (e, s2\<lparr>se_tail := Some e, se_pending := se_pending s + 1,
          se_listening := (se_listening s)(e := (signal \<noteq> None)), se_pumps := se_pumps s + 1,
          se_accepted := se_accepted s @ [e]\<rparr>))"

definition abort :: "nat \<Rightarrow> executor \<Rightarrow> executor" where
  "abort e s =
     (let s = detach e (remove_entry e s) in
      notifyIdle (s\<lparr>se_pending := se_pending s - 1, se_aborted := se_aborted s @ [e]\<rparr>))"

definition drain :: "executor \<Rightarrow> nat \<times> executor" where
  "drain s = (se_drains s,
     if se_pending s = 0 then s\<lparr>se_drains := se_drains s + 1, se_drained := se_drained s @ [se_drains s]\<rparr>
     else s\<lparr>se_drains := se_drains s + 1, se_idle := se_idle s @ [se_drains s]\<rparr>)"

definition close :: "executor \<Rightarrow> nat \<times> executor" where
  "close s = drain (s\<lparr>se_closed := True\<rparr>)"

inductive executor_step :: "executor \<Rightarrow> executor \<Rightarrow> bool" where
  call_run: "run signal s = Inr (e, s') \<Longrightarrow> executor_step s s'"
| microtask_pump: "0 < se_pumps s \<Longrightarrow> executor_step s (pump (s\<lparr>se_pumps := se_pumps s - 1\<rparr>))"
| operation_settles: "se_running s = Some e \<Longrightarrow> executor_step s (finish e success s)"
| signal_aborts: "se_listening s e \<Longrightarrow> executor_step s (abort e s)"
| call_drain: "executor_step s (snd (drain s))"
| call_close: "executor_step s (snd (close s))"

subsection \<open>Linked lists in the heap\<close>

fun last_of :: "'a list \<Rightarrow> 'a option" where
  "last_of [] = None"
| "last_of (x # xs) = (case xs of [] \<Rightarrow> Some x | _ \<Rightarrow> last_of xs)"

fun front_of :: "'a list \<Rightarrow> 'a option \<Rightarrow> 'a option" where
  "front_of [] n = n"
| "front_of (x # xs) n = Some x"

text \<open>A segment of the list: entered from \<open>p\<close>, left to \<open>n\<close>.\<close>

fun segment :: "(nat \<Rightarrow> cell) \<Rightarrow> nat option \<Rightarrow> nat list \<Rightarrow> nat option \<Rightarrow> bool" where
  "segment h p [] n \<longleftrightarrow> True"
| "segment h p (e # es) n \<longleftrightarrow>
     c_previous (h e) = p \<and> c_next (h e) = front_of es n \<and> segment h (Some e) es n"

lemma last_of_snoc [simp]: "last_of (xs @ [x]) = Some x"
proof (induction xs)
  case (Cons y xs)
  then show ?case by (cases xs) simp_all
qed simp

lemma last_of_Cons: "last_of (x # b) = (if b = [] then Some x else last_of b)"
  by (cases b) simp_all

lemma last_of_append: "last_of (xs @ ys) = (if ys = [] then last_of xs else last_of ys)"
proof (cases ys rule: rev_cases)
  case (snoc zs z)
  have "last_of ((xs @ zs) @ [z]) = Some z" by (rule last_of_snoc)
  with snoc show ?thesis by simp
qed simp

lemma segment_append:
  "segment h p (a @ b) n \<longleftrightarrow> segment h p a (front_of b n) \<and> segment h (if a = [] then p else last_of a) b n"
proof (induction a arbitrary: p)
  case (Cons x a)
  have "front_of (a @ b) n = front_of a (front_of b n)" by (cases a) simp_all
  with Cons show ?case by (cases a) auto
qed simp

lemma segment_cong: "(\<And>e. e \<in> set es \<Longrightarrow> h e = h' e) \<Longrightarrow> segment h p es n \<longleftrightarrow> segment h' p es n"
  by (induction es arbitrary: p) auto

lemma segment_upd [simp]: "e \<notin> set es \<Longrightarrow> segment (h(e := c)) p es n \<longleftrightarrow> segment h p es n"
  by (rule segment_cong) auto

text \<open>The linked list of an executor holds the entries \<open>q\<close>, in that order.\<close>

definition dll :: "executor \<Rightarrow> nat list \<Rightarrow> bool" where
  "dll s q \<longleftrightarrow> distinct q \<and> se_head s = front_of q None \<and> se_tail s = last_of q \<and> segment (se_heap s) None q None"

lemma front_of_append: "front_of (a @ b) n = front_of a (front_of b n)"
  by (cases a) simp_all

lemma remove_frame:
  "remove_entry e s = s\<lparr>se_head := se_head (remove_entry e s), se_tail := se_tail (remove_entry e s),
     se_heap := se_heap (remove_entry e s)\<rparr>"
  by (rule executor.equality)
     (simp_all add: remove_entry_def set_next_def set_previous_def Let_def split: option.split)

lemma remove_simps [simp]:
  "se_maxPending (remove_entry e s) = se_maxPending s" "se_pending (remove_entry e s) = se_pending s"
  "se_active (remove_entry e s) = se_active s" "se_fresh (remove_entry e s) = se_fresh s"
  "se_idle (remove_entry e s) = se_idle s" "se_listening (remove_entry e s) = se_listening s"
  "se_pumps (remove_entry e s) = se_pumps s" "se_running (remove_entry e s) = se_running s"
  "se_drains (remove_entry e s) = se_drains s" "se_accepted (remove_entry e s) = se_accepted s"
  "se_aborted (remove_entry e s) = se_aborted s" "se_started (remove_entry e s) = se_started s"
  "se_results (remove_entry e s) = se_results s" "se_drained (remove_entry e s) = se_drained s"
  by (subst remove_frame, simp)+

lemma remove_dll:
  assumes "dll s (a @ e # b)"
  shows "dll (remove_entry e s) (a @ b)"
proof (cases a rule: rev_cases)
  case Nil
  with assms show ?thesis
    by (cases b) (auto simp: dll_def remove_entry_def set_next_def set_previous_def last_of_Cons)
next
  case (snoc a' p)
  with assms show ?thesis
    by (cases b) (auto simp: dll_def remove_entry_def set_next_def set_previous_def last_of_Cons last_of_append
      segment_append front_of_append)
qed

lemma append_dll:
  assumes "dll s q" "e \<notin> set q"
    and "s1 = s\<lparr>se_fresh := f, se_heap := (se_heap s)(e := \<lparr>c_previous = se_tail s, c_next = None\<rparr>)\<rparr>"
    and "s2 = (case se_tail s1 of Some t \<Rightarrow> set_next t (Some e) s1 | None \<Rightarrow> s1\<lparr>se_head := Some e\<rparr>)"
  shows "dll (s2\<lparr>se_tail := Some e\<rparr>) (q @ [e])"
proof (cases q rule: rev_cases)
  case Nil
  with assms show ?thesis by (auto simp: dll_def)
next
  case (snoc q' t)
  with assms show ?thesis
    by (auto simp: dll_def set_next_def segment_append front_of_append last_of_append)
qed

subsection \<open>The invariant\<close>

text \<open>The queue \<open>q\<close> the linked list holds, and what the rest of the state says about it.\<close>

definition queue_inv :: "executor \<Rightarrow> nat list \<Rightarrow> bool" where
  "queue_inv s q \<longleftrightarrow> dll s q \<and> distinct (se_accepted s) \<and> set (se_accepted s) \<subseteq> {..<se_fresh s} \<and>
     set (se_aborted s) \<subseteq> set (se_accepted s) \<and>
     filter (\<lambda>e. e \<notin> set (se_aborted s)) (se_accepted s) = se_started s @ q \<and>
     (\<forall>e. se_listening s e \<longrightarrow> e \<in> set q)"

definition slot_inv :: "executor \<Rightarrow> nat list \<Rightarrow> bool" where
  "slot_inv s q \<longleftrightarrow>
     se_started s = map fst (se_results s) @ (case se_running s of None \<Rightarrow> [] | Some e \<Rightarrow> [e]) \<and>
     (se_active s \<longleftrightarrow> se_running s \<noteq> None) \<and>
     se_pending s = int (length q) + (if se_active s then 1 else 0) \<and>
     (\<not> se_active s \<and> q \<noteq> [] \<longrightarrow> 0 < se_pumps s) \<and>
     (\<forall>m. se_maxPending s = Some m \<longrightarrow> se_pending s \<le> int m)"

definition drain_inv :: "executor \<Rightarrow> bool" where
  "drain_inv s \<longleftrightarrow> se_drained s @ se_idle s = [0..<se_drains s] \<and> (se_idle s \<noteq> [] \<longrightarrow> se_pending s \<noteq> 0)"

definition executor_inv :: "executor \<Rightarrow> bool" where
  "executor_inv s \<longleftrightarrow> (\<exists>q. queue_inv s q \<and> slot_inv s q) \<and> drain_inv s"

lemmas inv_defs = queue_inv_def slot_inv_def drain_inv_def

lemma dll_cong [simp]:
  "dll (s\<lparr>se_pending := x1\<rparr>) q = dll s q" "dll (s\<lparr>se_closed := x2\<rparr>) q = dll s q"
  "dll (s\<lparr>se_active := x2\<rparr>) q = dll s q" "dll (s\<lparr>se_fresh := x3\<rparr>) q = dll s q"
  "dll (s\<lparr>se_idle := x4\<rparr>) q = dll s q" "dll (s\<lparr>se_listening := x5\<rparr>) q = dll s q"
  "dll (s\<lparr>se_pumps := x3\<rparr>) q = dll s q" "dll (s\<lparr>se_running := x6\<rparr>) q = dll s q"
  "dll (s\<lparr>se_drains := x3\<rparr>) q = dll s q" "dll (s\<lparr>se_accepted := x7\<rparr>) q = dll s q"
  "dll (s\<lparr>se_aborted := x7\<rparr>) q = dll s q" "dll (s\<lparr>se_started := x7\<rparr>) q = dll s q"
  "dll (s\<lparr>se_results := x8\<rparr>) q = dll s q" "dll (s\<lparr>se_drained := x7\<rparr>) q = dll s q"
  by (simp_all add: dll_def)

lemma dll_head: "dll s q \<Longrightarrow> se_head s = front_of q None"
  by (simp add: dll_def)

text \<open>\<open>#pump\<close> starts the head of the queue when the slot is free.\<close>

lemma pump_empty: "dll s [] \<or> se_active s \<Longrightarrow> pump s = s"
  by (auto simp: pump_def dll_def)

lemma pump_start:
  "dll s (e # q) \<Longrightarrow> \<not> se_active s \<Longrightarrow>
     pump s = (detach e (remove_entry e s))\<lparr>se_active := True, se_running := Some e, se_started := se_started s @ [e]\<rparr>"
  by (simp add: pump_def dll_def)

lemma pump_queue:
  assumes "queue_inv s q" "\<not> se_active s" "q = e # q'"
  shows "queue_inv (pump s) q'"
proof -
  have dll: "dll s (e # q')" using assms(1,3) by (simp add: queue_inv_def)
  have "dll (remove_entry e s) q'" using remove_dll [of s "[]" e q'] dll by simp
  with assms show ?thesis unfolding queue_inv_def pump_start [OF dll assms(2)] by (auto simp: detach_def)
qed

lemma notify_inv:
  "queue_inv s q \<Longrightarrow> slot_inv s q \<Longrightarrow> se_drained s @ se_idle s = [0..<se_drains s] \<Longrightarrow> executor_inv (notifyIdle s)"
  by (auto simp: executor_inv_def inv_defs notifyIdle_def)

lemma run_step:
  assumes "executor_inv s" "run signal s = Inr (e, s')"
  shows "executor_inv s'"
proof -
  from assms(1) obtain q where q: "queue_inv s q" "slot_inv s q" and d: "drain_inv s"
    by (auto simp: executor_inv_def)
  have e: "e = se_fresh s" using assms(2) by (auto simp: run_def Let_def split: if_splits)
  have "e \<notin> set q" using q(1) e unfolding queue_inv_def by (metis Un_iff filter_is_subset lessThan_iff nat_less_le set_append subset_iff)
  define s1 where "s1 = s\<lparr>se_fresh := e + 1, se_heap := (se_heap s)(e := \<lparr>c_previous = se_tail s, c_next = None\<rparr>)\<rparr>"
  define s2 where "s2 = (case se_tail s1 of Some t \<Rightarrow> set_next t (Some e) s1 | None \<Rightarrow> s1\<lparr>se_head := Some e\<rparr>)"
  have dll: "dll (s2\<lparr>se_tail := Some e\<rparr>) (q @ [e])"
    using append_dll [OF _ \<open>e \<notin> set q\<close> s1_def s2_def] q(1) by (simp add: queue_inv_def)
  have s': "s' = s2\<lparr>se_tail := Some e, se_pending := se_pending s + 1,
      se_listening := (se_listening s)(e := (signal \<noteq> None)), se_pumps := se_pumps s + 1,
      se_accepted := se_accepted s @ [e]\<rparr>"
    and room: "\<And>m. se_maxPending s = Some m \<Longrightarrow> se_pending s < int m"
    using assms(2) unfolding s1_def s2_def e run_def Let_def by (auto split: if_splits)
  have s2: "s2 = s\<lparr>se_head := se_head s2, se_heap := se_heap s2, se_fresh := e + 1\<rparr>"
    by (rule executor.equality) (simp_all add: s2_def s1_def set_next_def split: option.split)
  have frame: "se_fresh s2 = e + 1" "se_aborted s2 = se_aborted s" "se_started s2 = se_started s"
    "se_results s2 = se_results s" "se_running s2 = se_running s" "se_active s2 = se_active s"
    "se_maxPending s2 = se_maxPending s" "se_idle s2 = se_idle s" "se_drains s2 = se_drains s"
    "se_drained s2 = se_drained s"
    by (subst s2, simp)+
  have "e \<notin> set (se_aborted s)" "e \<notin> set (se_accepted s)" using q(1) e unfolding queue_inv_def by auto
  then have "queue_inv s' (q @ [e])"
    using q(1) dll e unfolding queue_inv_def s' by (auto simp: frame)
  moreover have "slot_inv s' (q @ [e])" using q(2) room unfolding slot_inv_def s' by (auto simp: frame)
  moreover have "drain_inv s'" using d q(2) unfolding drain_inv_def slot_inv_def s' by (auto simp: frame)
  ultimately show ?thesis unfolding executor_inv_def by blast
qed

lemma pump_step:
  assumes "executor_inv s" "0 < se_pumps s"
  shows "executor_inv (pump (s\<lparr>se_pumps := se_pumps s - 1\<rparr>))"
proof -
  let ?s = "s\<lparr>se_pumps := se_pumps s - 1\<rparr>"
  from assms(1) obtain q where q: "queue_inv s q" "slot_inv s q" and d: "drain_inv s"
    by (auto simp: executor_inv_def)
  have q': "queue_inv ?s q" and dll: "dll ?s q" using q(1) by (simp_all add: queue_inv_def)
  show ?thesis
  proof (cases "q = [] \<or> se_active s")
    case True
    then have "pump ?s = ?s" using dll by (intro pump_empty) auto
    moreover have "slot_inv ?s q" using q(2) True by (auto simp: slot_inv_def)
    ultimately show ?thesis using q' d unfolding executor_inv_def by (auto simp: drain_inv_def)
  next
    case False
    then obtain e r where r: "q = e # r" by (cases q) auto
    have eq: "pump ?s = (detach e (remove_entry e ?s))\<lparr>se_active := True, se_running := Some e, se_started := se_started s @ [e]\<rparr>"
      using pump_start [of ?s e r] dll False r by simp
    have "queue_inv (pump ?s) r" using pump_queue [OF q'] False r by simp
    moreover have "slot_inv (pump ?s) r" using q(2) False r unfolding eq by (auto simp: slot_inv_def detach_def)
    moreover have "drain_inv (pump ?s)" using d unfolding eq by (simp add: drain_inv_def detach_def)
    ultimately show ?thesis unfolding executor_inv_def by blast
  qed
qed

lemma finish_step:
  assumes "executor_inv s" "se_running s = Some e"
  shows "executor_inv (finish e success s)"
proof -
  let ?s = "s\<lparr>se_active := False, se_running := None, se_pending := se_pending s - 1\<rparr>"
  from assms(1) obtain q where q: "queue_inv s q" "slot_inv s q" and d: "drain_inv s"
    by (auto simp: executor_inv_def)
  have q': "queue_inv ?s q" and dll: "dll ?s q" using q(1) by (simp_all add: queue_inv_def)
  show ?thesis
  proof (cases q)
    case Nil
    then have eq: "pump ?s = ?s" using dll by (intro pump_empty) auto
    show ?thesis unfolding finish_def Let_def eq
      by (rule notify_inv [of _ "[]"]) (use q q' d assms(2) Nil in \<open>auto simp: inv_defs\<close>)
  next
    case (Cons f r)
    have eq: "pump ?s = (detach f (remove_entry f ?s))\<lparr>se_active := True, se_running := Some f, se_started := se_started s @ [f]\<rparr>"
      using pump_start [of ?s f r] dll Cons by simp
    have "queue_inv (pump ?s) r" using pump_queue [OF q'] Cons by simp
    then have "queue_inv (pump ?s\<lparr>se_results := se_results (pump ?s) @ [(e, success)]\<rparr>) r" by (simp add: queue_inv_def)
    moreover have "slot_inv (pump ?s\<lparr>se_results := se_results (pump ?s) @ [(e, success)]\<rparr>) r"
      using q(2) assms(2) Cons unfolding eq by (auto simp: slot_inv_def detach_def)
    ultimately show ?thesis unfolding finish_def Let_def
      by (rule notify_inv) (use d in \<open>simp add: eq drain_inv_def detach_def\<close>)
  qed
qed

lemma abort_step:
  assumes "executor_inv s" "se_listening s e"
  shows "executor_inv (abort e s)"
proof -
  from assms(1) obtain q where q: "queue_inv s q" "slot_inv s q" and d: "drain_inv s"
    by (auto simp: executor_inv_def)
  from q(1) assms(2) obtain a b where ab: "q = a @ e # b"
    unfolding queue_inv_def by (meson split_list)
  have dll: "dll (remove_entry e s) (a @ b)" using remove_dll q(1) ab by (simp add: queue_inv_def)
  have "distinct (se_started s @ q)" using q(1) unfolding queue_inv_def by (metis distinct_filter)
  moreover have id: "e \<notin> set xs \<Longrightarrow> filter (\<lambda>x. x \<noteq> e) xs = xs" for xs by (rule filter_True) auto
  ultimately have fil: "filter (\<lambda>x. x \<noteq> e) (se_started s @ q) = se_started s @ a @ b"
    using ab id [of "se_started s"] id [of a] id [of b] by auto
  have "filter (\<lambda>x. x \<notin> set (se_aborted s @ [e])) (se_accepted s) =
      filter (\<lambda>x. x \<noteq> e) (filter (\<lambda>x. x \<notin> set (se_aborted s)) (se_accepted s))"
    by (auto intro: filter_cong)
  also have "\<dots> = se_started s @ a @ b" using q(1) fil by (simp add: queue_inv_def)
  finally have f: "filter (\<lambda>x. x \<notin> set (se_aborted s @ [e])) (se_accepted s) = se_started s @ a @ b" .
  have "e \<in> set (se_accepted s)" using q(1) ab unfolding queue_inv_def
    by (metis filter_is_subset in_set_conv_decomp set_append Un_iff subset_iff)
  let ?s = "(detach e (remove_entry e s))\<lparr>se_pending := se_pending s - 1, se_aborted := se_aborted s @ [e]\<rparr>"
  have "queue_inv ?s (a @ b)"
    using q(1) dll f \<open>e \<in> set (se_accepted s)\<close> ab unfolding queue_inv_def by (auto simp: detach_def)
  moreover have "slot_inv ?s (a @ b)" using q(2) ab by (auto simp: slot_inv_def detach_def)
  ultimately have "executor_inv (notifyIdle ?s)"
    by (rule notify_inv) (use d in \<open>simp add: drain_inv_def detach_def\<close>)
  then show ?thesis by (simp add: abort_def Let_def detach_def)
qed

lemma drain_step: "executor_inv s \<Longrightarrow> executor_inv (snd (drain s))"
  by (auto simp: executor_inv_def inv_defs drain_def)

lemma close_step: "executor_inv s \<Longrightarrow> executor_inv (snd (close s))"
  unfolding close_def by (rule drain_step) (simp add: executor_inv_def inv_defs)

lemma new_executor_inv: "new_executor m = Inr s \<Longrightarrow> executor_inv s"
  by (auto simp: new_executor_def executor_inv_def inv_defs dll_def split: if_splits intro!: exI [of _ "[]"])

interpretation serial: event_system "\<lambda>s. \<exists>m. new_executor m = Inr s" executor_step executor_inv
proof (unfold_locales, goal_cases)
  case (2 s t)
  from 2(2,1) show ?case
    by cases (simp_all del: One_nat_def add: run_step pump_step finish_step abort_step drain_step close_step)
qed (auto intro: new_executor_inv)

subsection \<open>What an executor promises\<close>

text \<open>C23: in every reachable state the linked list of an executor holds a queue of distinct entries with consistent
  links in both directions, at most one operation holds the slot, the settled entries, the running one and
  the queued ones are, in this order, the accepted entries that were not aborted, in the order of
  acceptance, and \<open>pending\<close> counts the last two groups and never exceeds \<open>maxPending\<close>.\<close>

theorem serial_fifo:
  assumes "reachable (\<lambda>s. \<exists>m. new_executor m = Inr s) executor_step s"
  shows "\<exists>q. dll s q \<and>
    filter (\<lambda>e. e \<notin> set (se_aborted s)) (se_accepted s) =
      map fst (se_results s) @ (case se_running s of None \<Rightarrow> [] | Some e \<Rightarrow> [e]) @ q \<and>
    distinct (se_accepted s) \<and>
    se_pending s = int (length q) + (if se_running s = None then 0 else 1) \<and>
    (case se_maxPending s of None \<Rightarrow> True | Some m \<Rightarrow> se_pending s \<le> int m)"
  using serial.inv_reachable [OF assms] by (auto simp: executor_inv_def inv_defs split: option.split)

text \<open>C24: when no \<open>#pump\<close> microtask is queued and no operation runs, nothing is left behind: every accepted
  entry is settled or was aborted, the list is empty, \<open>pending\<close> is zero and every \<open>drain()\<close> and \<open>close()\<close>
  promise is resolved, in the order of the calls.\<close>

theorem serial_drains:
  assumes "reachable (\<lambda>s. \<exists>m. new_executor m = Inr s) executor_step s" "se_pumps s = 0" "se_running s = None"
  shows "se_head s = None \<and> se_tail s = None \<and> se_pending s = 0 \<and>
    filter (\<lambda>e. e \<notin> set (se_aborted s)) (se_accepted s) = map fst (se_results s) \<and>
    se_idle s = [] \<and> se_drained s = [0..<se_drains s]"
  using serial.inv_reachable [OF assms(1)] assms(2,3) by (auto simp: executor_inv_def inv_defs dll_def)

text \<open>A history of two operations and a \<open>close()\<close>: the first runs, the second is queued.\<close>

lemma sample_executor:
  obtains s0 s1 s2 s3 s4 where "new_executor (Some 2) = Inr s0" "run (Some False) s0 = Inr (0, s1)"
    "run None s1 = Inr (1, s2)" "s3 = pump (s2\<lparr>se_pumps := se_pumps s2 - 1\<rparr>)" "s4 = snd (close s3)"
    "reachable (\<lambda>s. \<exists>m. new_executor m = Inr s) executor_step s4"
    "se_running s4 = Some 0" "se_head s4 = Some 1" "se_pumps s4 = 1" "se_idle s4 = [0]"
proof -
  obtain s0 s1 s2 where r: "new_executor (Some 2) = Inr s0" "run (Some False) s0 = Inr (0, s1)"
      "run None s1 = Inr (1, s2)" "se_pumps s2 = 2" "se_head s2 = Some 0" "\<not> se_active s2" "se_tail s2 = Some 1"
      "se_heap s2 0 = \<lparr>c_previous = None, c_next = Some 1\<rparr>" "se_heap s2 1 = \<lparr>c_previous = Some 0, c_next = None\<rparr>"
      "se_pending s2 = 2" "se_idle s2 = []" "se_drains s2 = 0"
    by (simp add: new_executor_def run_def set_next_def)
  have "reachable (\<lambda>s. \<exists>m. new_executor m = Inr s) executor_step s2"
    using r(1-3) by (blast intro: reachable_init reachable_step call_run)
  moreover define s3 where "s3 = pump (s2\<lparr>se_pumps := se_pumps s2 - 1\<rparr>)"
  moreover have "executor_step s2 s3" unfolding s3_def by (rule microtask_pump) (simp add: r(4))
  ultimately have "reachable (\<lambda>s. \<exists>m. new_executor m = Inr s) executor_step (snd (close s3))"
    by (blast intro: reachable_step call_close)
  then show ?thesis using that [OF r(1-3) s3_def refl] r(4-)
    by (simp add: s3_def pump_def remove_entry_def detach_def set_next_def set_previous_def close_def drain_def)
qed

theorem serial_fifo_witness:
  "\<exists>s q. dll s q \<and> se_head s = Some 1 \<and> se_running s = Some 0 \<and> se_pending s = int (length q) + 1"
proof -
  obtain s where s: "reachable (\<lambda>s. \<exists>m. new_executor m = Inr s) executor_step s"
      "se_running s = Some 0" "se_head s = Some 1" by (rule sample_executor)
  show ?thesis using serial_fifo [OF s(1)] s(2,3) by auto
qed

theorem serial_drains_witness:
  "\<exists>s :: executor. se_drains s = 1 \<and> se_drained s = [0] \<and> map fst (se_results s) = [0, 1]"
proof -
  obtain s0 s1 s2 s3 s4 where r: "new_executor (Some 2) = Inr s0" "run (Some False) s0 = Inr (0, s1)"
    "run None s1 = Inr (1, s2)" "s3 = pump (s2\<lparr>se_pumps := se_pumps s2 - 1\<rparr>)" "s4 = snd (close s3)"
    "reachable (\<lambda>s. \<exists>m. new_executor m = Inr s) executor_step s4" "se_running s4 = Some 0" "se_pumps s4 = 1"
    by (rule sample_executor)
  define s5 where "s5 = finish 0 True s4"
  define s6 where "s6 = finish 1 False s5"
  define s7 where "s7 = pump (s6\<lparr>se_pumps := se_pumps s6 - 1\<rparr>)"
  note run = new_executor_def run_def set_next_def pump_def remove_entry_def detach_def set_previous_def
    close_def drain_def finish_def notifyIdle_def
  have s4: "se_results s4 = []" "se_drains s4 = 1" "se_accepted s4 = [0, 1]" "se_aborted s4 = []" "se_head s4 = Some 1"
      "se_heap s4 1 = \<lparr>c_previous = None, c_next = None\<rparr>" "se_tail s4 = Some 1" "se_pending s4 = 2" "se_idle s4 = [0]"
      "se_drained s4 = []"
    using r(1-5) by (auto simp: run)
  have s5: "se_running s5 = Some 1" "se_pumps s5 = 1" "se_head s5 = None" "se_pending s5 = 1"
      "se_results s5 = [(0, True)]" "se_drains s5 = 1" "se_idle s5 = [0]"
    unfolding s5_def using s4 r(8) by (simp_all add: run)
  have s6: "se_pumps s6 = 1" "se_running s6 = None" "se_results s6 = [(0, True), (1, False)]" "se_drains s6 = 1"
      "se_head s6 = None"
    unfolding s6_def using s5 by (simp_all add: run)
  have s7: "se_pumps s7 = 0" "se_running s7 = None" "se_results s7 = [(0, True), (1, False)]" "se_drains s7 = 1"
    unfolding s7_def using s6 by (simp_all add: run)
  have steps: "executor_step s4 s5" "executor_step s5 s6" "executor_step s6 s7"
    unfolding s5_def s6_def s7_def
    using operation_settles [OF r(7)] operation_settles [OF s5(1)] microtask_pump [of s6] s6(1)
    by (simp_all add: s5_def s6_def)
  have "reachable (\<lambda>s. \<exists>m. new_executor m = Inr s) executor_step s7"
    using r(6) steps by (blast intro: reachable_step)
  from serial_drains [OF this s7(1,2)] s7 show ?thesis by (auto intro!: exI [of _ s7])
qed

end
