(* ===== verification/Keyed_Executor.thy ===== *)
theory Keyed_Executor
  imports Serial_Executor
begin

text \<open>
  \<open>internal/serial-executor.ts\<close>: \<open>KeyedSerialExecutor\<close>, one \<open>SerialExecutor\<close> per key with pending work.

  The executors are objects with an identity, the indices of \<open>ks_objects\<close>; \<open>ks_owner\<close> remembers the key
  each was made for. \<open>ks_callbacks\<close> are the \<open>finally\<close> callbacks of settled \<open>run\<close> promises that have not run
  yet.
\<close>

record 'k keyed =
  ks_executors :: "('k \<times> nat) list"
  ks_maxPending :: "int option"
  ks_closed :: bool
  ks_objects :: "nat \<Rightarrow> executor"
  ks_owner :: "nat \<Rightarrow> 'k"
  ks_fresh :: nat
  ks_callbacks :: "('k \<times> nat) list"

definition new_keyed :: "int option \<Rightarrow> run_error + 'k keyed" where
  "new_keyed maxPending = (case new_executor maxPending of
       Inl e \<Rightarrow> Inl e
     | Inr x \<Rightarrow> Inr \<lparr>ks_executors = [], ks_maxPending = maxPending, ks_closed = False, ks_objects = (\<lambda>_. x),
         ks_owner = (\<lambda>_. undefined), ks_fresh = 0, ks_callbacks = []\<rparr>)"

definition keyed_size :: "'k keyed \<Rightarrow> nat" where
  "keyed_size s = length (ks_executors s)"

text \<open>The executor of a key, made and registered on first use.\<close>

definition executor_for :: "'k \<Rightarrow> 'k keyed \<Rightarrow> run_error + nat \<times> 'k keyed" where
  "executor_for k s = (case map_of (ks_executors s) k of
       Some i \<Rightarrow> Inr (i, s)
     | None \<Rightarrow> (case new_executor (ks_maxPending s) of
           Inl e \<Rightarrow> Inl e
         | Inr x \<Rightarrow> let i = ks_fresh s in
             Inr (i, s\<lparr>ks_executors := ks_executors s @ [(k, i)], ks_objects := (ks_objects s)(i := x),
               ks_owner := (ks_owner s)(i := k), ks_fresh := i + 1\<rparr>)))"

text \<open>A refused \<open>run\<close> settles its promise at once, an accepted one later.\<close>

definition keyed_run :: "'k \<Rightarrow> bool option \<Rightarrow> 'k keyed \<Rightarrow> run_error + (run_error + nat) \<times> 'k keyed" where
  "keyed_run k signal s =
     (if ks_closed s then Inl ExecutorClosed
      else case executor_for k s of
        Inl e \<Rightarrow> Inl e
      | Inr (i, s) \<Rightarrow> (case run signal (ks_objects s i) of
            Inl e \<Rightarrow> Inr (Inl e, s\<lparr>ks_callbacks := ks_callbacks s @ [(k, i)]\<rparr>)
          | Inr (n, x) \<Rightarrow> Inr (Inr n, s\<lparr>ks_objects := (ks_objects s)(i := x)\<rparr>)))"

definition on_settled :: "'k \<Rightarrow> nat \<Rightarrow> 'k keyed \<Rightarrow> 'k keyed" where
  "on_settled k i s =
     (if se_pending (ks_objects s i) = 0 \<and> map_of (ks_executors s) k = Some i
      then s\<lparr>ks_executors := filter (\<lambda>(k', j). k' \<noteq> k) (ks_executors s)\<rparr> else s)"

definition on_members :: "(executor \<Rightarrow> executor) \<Rightarrow> 'k keyed \<Rightarrow> 'k keyed" where
  "on_members f s = s\<lparr>ks_objects := (\<lambda>i. if i \<in> snd ` set (ks_executors s) then f (ks_objects s i) else ks_objects s i)\<rparr>"

definition keyed_drain :: "'k keyed \<Rightarrow> 'k keyed" where
  "keyed_drain s = on_members (\<lambda>x. snd (drain x)) s"

definition keyed_close :: "'k keyed \<Rightarrow> 'k keyed" where
  "keyed_close s = on_members (\<lambda>x. snd (close x)) (s\<lparr>ks_closed := True\<rparr>)"

text \<open>What happens inside the executor \<open>i\<close>: a microtask, or a settled promise with its callback.\<close>

definition member_pump :: "nat \<Rightarrow> 'k keyed \<Rightarrow> 'k keyed" where
  "member_pump i s = s\<lparr>ks_objects := (ks_objects s)(i := pump ((ks_objects s i)\<lparr>se_pumps := se_pumps (ks_objects s i) - 1\<rparr>))\<rparr>"

definition member_settles :: "nat \<Rightarrow> executor \<Rightarrow> 'k keyed \<Rightarrow> 'k keyed" where
  "member_settles i x s = s\<lparr>ks_objects := (ks_objects s)(i := x), ks_callbacks := ks_callbacks s @ [(ks_owner s i, i)]\<rparr>"

inductive keyed_step :: "'k keyed \<Rightarrow> 'k keyed \<Rightarrow> bool" where
  call_keyed_run: "keyed_run k signal s = Inr (r, t) \<Longrightarrow> keyed_step s t"
| call_keyed_drain: "keyed_step s (keyed_drain s)"
| call_keyed_close: "keyed_step s (keyed_close s)"
| callback_settled: "ks_callbacks s = a @ (k, i) # b \<Longrightarrow> keyed_step s (on_settled k i (s\<lparr>ks_callbacks := a @ b\<rparr>))"
| inner_pump: "i < ks_fresh s \<Longrightarrow> 0 < se_pumps (ks_objects s i) \<Longrightarrow> keyed_step s (member_pump i s)"
| inner_finish: "i < ks_fresh s \<Longrightarrow> se_running (ks_objects s i) = Some e \<Longrightarrow>
    keyed_step s (member_settles i (finish e success (ks_objects s i)) s)"
| inner_abort: "i < ks_fresh s \<Longrightarrow> se_listening (ks_objects s i) e \<Longrightarrow>
    keyed_step s (member_settles i (abort e (ks_objects s i)) s)"

subsection \<open>The invariant\<close>

text \<open>Every object behaves as an executor; the registered ones belong to their keys; one with pending work
  is registered; and a registered one without pending work has a callback to come.\<close>

definition registry_inv :: "'k keyed \<Rightarrow> bool" where
  "registry_inv s \<longleftrightarrow> distinct (map fst (ks_executors s)) \<and>
     (\<forall>(k, i) \<in> set (ks_executors s). i < ks_fresh s \<and> ks_owner s i = k) \<and>
     (\<forall>(k, i) \<in> set (ks_callbacks s). i < ks_fresh s \<and> ks_owner s i = k)"

definition pending_inv :: "'k keyed \<Rightarrow> bool" where
  "pending_inv s \<longleftrightarrow> (\<forall>i < ks_fresh s. executor_inv (ks_objects s i) \<and>
     (se_pending (ks_objects s i) \<noteq> 0 \<longrightarrow> (ks_owner s i, i) \<in> set (ks_executors s)) \<and>
     (se_pending (ks_objects s i) = 0 \<longrightarrow> (ks_owner s i, i) \<in> set (ks_executors s) \<longrightarrow>
        (ks_owner s i, i) \<in> set (ks_callbacks s)))"

definition keyed_inv :: "'k keyed \<Rightarrow> bool" where
  "keyed_inv s \<longleftrightarrow> registry_inv s \<and> pending_inv s"

lemma run_pending: "run signal x = Inr (e, x') \<Longrightarrow> se_pending x' = se_pending x + 1"
  by (auto simp: run_def Let_def split: if_splits)

lemma pump_pending: "se_pending (pump x) = se_pending x"
  by (auto simp: pump_def detach_def split: option.split)

lemma pending_nonneg: "executor_inv x \<Longrightarrow> 0 \<le> se_pending x"
  by (auto simp: executor_inv_def slot_inv_def)

lemma drain_pending [simp]: "se_pending (snd (drain x)) = se_pending x" "se_pending (snd (close x)) = se_pending x"
  by (simp_all add: drain_def close_def)

lemma executor_for_inv:
  assumes "keyed_inv s" "executor_for k s = Inr (i, t)"
  shows "registry_inv t \<and> (k, i) \<in> set (ks_executors t) \<and> i < ks_fresh t \<and> ks_owner t i = k \<and>
    (\<forall>j < ks_fresh t. executor_inv (ks_objects t j) \<and>
      (se_pending (ks_objects t j) \<noteq> 0 \<longrightarrow> (ks_owner t j, j) \<in> set (ks_executors t)) \<and>
      (se_pending (ks_objects t j) = 0 \<longrightarrow> j \<noteq> i \<longrightarrow> (ks_owner t j, j) \<in> set (ks_executors t) \<longrightarrow>
        (ks_owner t j, j) \<in> set (ks_callbacks t)))"
proof (cases "map_of (ks_executors s) k")
  case (Some j)
  then have "t = s" "i = j" "(k, j) \<in> set (ks_executors s)"
    using assms(2) map_of_SomeD by (fastforce simp: executor_for_def)+
  then show ?thesis using assms(1) by (fastforce simp: keyed_inv_def registry_inv_def pending_inv_def)
next
  case None
  then obtain x where x: "new_executor (ks_maxPending s) = Inr x" and i: "i = ks_fresh s" and
      t: "t = s\<lparr>ks_executors := ks_executors s @ [(k, i)], ks_objects := (ks_objects s)(i := x),
               ks_owner := (ks_owner s)(i := k), ks_fresh := i + 1\<rparr>"
    using assms(2) by (auto simp: executor_for_def Let_def split: sum.splits)
  have "executor_inv x" using new_executor_inv [OF x] .
  moreover have "k \<notin> fst ` set (ks_executors s)" using None by (simp add: map_of_eq_None_iff)
  moreover have "se_pending x = 0" using x by (auto simp: new_executor_def split: if_splits)
  ultimately show ?thesis using assms(1) unfolding t i keyed_inv_def registry_inv_def pending_inv_def
    by (auto simp: less_Suc_eq)
qed

lemma keyed_run_inv: "keyed_inv s \<Longrightarrow> keyed_run k signal s = Inr (r, t) \<Longrightarrow> keyed_inv t"
proof -
  assume inv: "keyed_inv s" and run: "keyed_run k signal s = Inr (r, t)"
  then obtain i u where u: "executor_for k s = Inr (i, u)"
    by (auto simp: keyed_run_def split: if_splits sum.splits)
  note e = executor_for_inv [OF inv u]
  show ?thesis
  proof (cases "Serial_Executor.run signal (ks_objects u i)")
    case (Inl x)
    then have "t = u\<lparr>ks_callbacks := ks_callbacks u @ [(k, i)]\<rparr>"
      using run u by (auto simp: keyed_run_def split: if_splits)
    then show ?thesis using e by (auto simp: keyed_inv_def registry_inv_def pending_inv_def)
  next
    case (Inr y)
    obtain n x where y: "y = (n, x)" by (cases y)
    then have t: "t = u\<lparr>ks_objects := (ks_objects u)(i := x)\<rparr>"
      using run u Inr by (auto simp: keyed_run_def split: if_splits)
    have "executor_inv x" using run_step [of "ks_objects u i" signal n x] e Inr y by simp
    moreover have "se_pending x \<noteq> 0"
      using run_pending [of signal "ks_objects u i" n x] pending_nonneg [of "ks_objects u i"] e Inr y by simp
    ultimately show ?thesis using e t by (auto simp: keyed_inv_def registry_inv_def pending_inv_def)
  qed
qed

lemma on_members_inv:
  assumes "keyed_inv s" "\<And>x. executor_inv x \<Longrightarrow> executor_inv (f x)" "\<And>x. se_pending (f x) = se_pending x"
  shows "keyed_inv (on_members f s)"
  using assms(1,2) by (auto simp: on_members_def keyed_inv_def registry_inv_def pending_inv_def assms(3))

lemma keyed_drain_inv: "keyed_inv s \<Longrightarrow> keyed_inv (keyed_drain s)"
  unfolding keyed_drain_def by (rule on_members_inv) (simp_all add: drain_step)

lemma keyed_close_inv: "keyed_inv s \<Longrightarrow> keyed_inv (keyed_close s)"
  unfolding keyed_close_def
  by (rule on_members_inv) (simp_all add: close_step keyed_inv_def registry_inv_def pending_inv_def)

lemma new_keyed_inv: "new_keyed m = Inr s \<Longrightarrow> keyed_inv s"
  by (cases "new_executor m") (auto simp: new_keyed_def keyed_inv_def registry_inv_def pending_inv_def)

lemma settles_inv:
  assumes "keyed_inv s" "i < ks_fresh s" "executor_inv x" "se_pending (ks_objects s i) \<noteq> 0"
  shows "keyed_inv (member_settles i x s)"
  using assms by (auto simp: member_settles_def keyed_inv_def registry_inv_def pending_inv_def)

lemma running_pending: "executor_inv x \<Longrightarrow> se_running x = Some e \<Longrightarrow> se_pending x \<noteq> 0"
  by (auto simp: executor_inv_def slot_inv_def)

lemma listening_pending: "executor_inv x \<Longrightarrow> se_listening x e \<Longrightarrow> se_pending x \<noteq> 0"
  by (auto simp: executor_inv_def slot_inv_def queue_inv_def)

lemma on_settled_inv:
  assumes "keyed_inv s" "ks_callbacks s = a @ (k, i) # b"
  shows "keyed_inv (on_settled k i (s\<lparr>ks_callbacks := a @ b\<rparr>))"
proof (cases "se_pending (ks_objects s i) = 0 \<and> map_of (ks_executors s) k = Some i")
  case True
  have ki: "i < ks_fresh s" "ks_owner s i = k" using assms by (auto simp: keyed_inv_def registry_inv_def)
  have uniq: "j = i" if "(k, j) \<in> set (ks_executors s)" for j
    using that True assms(1) by (simp add: keyed_inv_def registry_inv_def)
  have "registry_inv (on_settled k i (s\<lparr>ks_callbacks := a @ b\<rparr>))"
    using assms True by (auto simp: on_settled_def keyed_inv_def registry_inv_def distinct_map inj_on_def)
  moreover have "pending_inv (on_settled k i (s\<lparr>ks_callbacks := a @ b\<rparr>))"
    using assms True uniq ki by (fastforce simp: on_settled_def keyed_inv_def pending_inv_def)
  ultimately show ?thesis by (simp add: keyed_inv_def)
next
  case False
  then have "\<not> (se_pending (ks_objects s i) = 0 \<and> (k, i) \<in> set (ks_executors s))"
    using assms(1) by (auto simp: keyed_inv_def registry_inv_def)
  then show ?thesis using assms False
    by (auto simp: on_settled_def keyed_inv_def registry_inv_def pending_inv_def)
qed

lemma member_pump_inv:
  assumes "keyed_inv s" "i < ks_fresh s" "0 < se_pumps (ks_objects s i)"
  shows "keyed_inv (member_pump i s)"
  using assms pump_step [of "ks_objects s i"]
  by (auto simp: member_pump_def keyed_inv_def registry_inv_def pending_inv_def pump_pending)

interpretation keyed: event_system "\<lambda>s. \<exists>m. new_keyed m = Inr s" keyed_step keyed_inv
proof (unfold_locales, goal_cases)
  case (2 s t)
  from 2(2,1) show ?case
  proof cases
    case (inner_finish i e success)
    moreover have "executor_inv (ks_objects s i)" using 2(1) inner_finish(2) by (simp add: keyed_inv_def pending_inv_def)
    ultimately show ?thesis using 2(1) by (simp add: settles_inv finish_step running_pending)
  next
    case (inner_abort i e)
    moreover have "executor_inv (ks_objects s i)" using 2(1) inner_abort(2) by (simp add: keyed_inv_def pending_inv_def)
    ultimately show ?thesis using 2(1) by (simp add: settles_inv abort_step listening_pending)
  qed (auto intro: keyed_run_inv on_settled_inv member_pump_inv keyed_drain_inv keyed_close_inv)
qed (auto intro: new_keyed_inv)

subsection \<open>What keyed execution promises\<close>

text \<open>C25: operations of one key never overlap although executors come and go: in every reachable state, of
  the executors ever made for a key at most one has accepted work that has not settled, and the registry
  still finds it; and once the callbacks of the settled promises have run, every key kept in the registry
  has work.\<close>

theorem keyed_exclusion:
  assumes "reachable (\<lambda>s. \<exists>m. new_keyed m = Inr s) keyed_step s" "i < ks_fresh s"
  shows "(se_pending (ks_objects s i) \<noteq> 0 \<longrightarrow> map_of (ks_executors s) (ks_owner s i) = Some i) \<and>
    (\<forall>j < ks_fresh s. ks_owner s j = ks_owner s i \<longrightarrow> se_running (ks_objects s j) \<noteq> None \<longrightarrow>
      se_pending (ks_objects s i) \<noteq> 0 \<longrightarrow> j = i) \<and>
    (ks_callbacks s = [] \<longrightarrow> (\<forall>(k, n) \<in> set (ks_executors s). se_pending (ks_objects s n) \<noteq> 0))"
proof -
  have inv: "keyed_inv s" by (rule keyed.inv_reachable [OF assms(1)])
  have reg: "map_of (ks_executors s) (ks_owner s j) = Some j"
    if "j < ks_fresh s" "se_pending (ks_objects s j) \<noteq> 0" for j
    using inv that by (simp add: keyed_inv_def registry_inv_def pending_inv_def)
  moreover have "se_pending (ks_objects s j) \<noteq> 0" if "j < ks_fresh s" "se_running (ks_objects s j) \<noteq> None" for j
    using inv that running_pending [of "ks_objects s j"] by (auto simp: keyed_inv_def pending_inv_def)
  moreover have "ks_callbacks s = [] \<longrightarrow> (\<forall>(k, n) \<in> set (ks_executors s). se_pending (ks_objects s n) \<noteq> 0)"
    using inv by (fastforce simp: keyed_inv_def registry_inv_def pending_inv_def)
  ultimately show ?thesis using assms(2) by (metis option.inject)
qed

theorem keyed_exclusion_witness:
  "\<exists>s :: nat keyed. ks_callbacks s = [(5, 0)] \<and> map_of (ks_executors s) 5 = Some 0 \<and> se_pending (ks_objects s 0) \<noteq> 0"
proof -
  obtain s0 s1 s2 :: "nat keyed" where r: "new_keyed (Some 1) = Inr s0" "keyed_run 5 None s0 = Inr (Inr 0, s1)"
      "keyed_run 5 None s1 = Inr (Inl CapacityExceeded, s2)" "ks_fresh s2 = 1" "ks_owner s2 0 = 5"
      "se_pending (ks_objects s2 0) = 1" "ks_callbacks s2 = [(5, 0)]"
    by (simp add: new_keyed_def new_executor_def keyed_run_def executor_for_def run_def)
  have "reachable (\<lambda>s. \<exists>m. new_keyed m = Inr s) keyed_step s2"
    using r(1-3) by (blast intro: reachable_init reachable_step call_keyed_run)
  from keyed_exclusion [OF this, of 0] r(4-) show ?thesis by auto
qed

end
