(* ===== verification/Js_Date.thy ===== *)
theory Js_Date
  imports Main
begin

text \<open>
  The UTC calendar of JavaScript's \<open>Date\<close>, as ECMAScript defines it: a time is a number of milliseconds since 1970, a day
  a number of days, and months are counted through from the year 0, so that a month is \<open>12 * year + month\<close>.
\<close>

abbreviation (input) msPerDay :: int where "msPerDay \<equiv> 86400000"

definition day_from_year :: "int \<Rightarrow> int" where
  "day_from_year y = 365 * (y - 1970) + (y - 1969) div 4 - (y - 1901) div 100 + (y - 1601) div 400"

definition leap_year :: "int \<Rightarrow> bool" where
  "leap_year y \<longleftrightarrow> y mod 4 = 0 \<and> (y mod 100 \<noteq> 0 \<or> y mod 400 = 0)"

definition year_of_day :: "int \<Rightarrow> int" where
  "year_of_day d =
     (let y = 1970 + d * 400 div 146097 in
      if d < day_from_year y then y - 1 else if day_from_year (y + 1) \<le> d then y + 1 else y)"

definition days_before_month :: "bool \<Rightarrow> nat \<Rightarrow> int" where
  "days_before_month leap m = [0, 31, 59, 90, 120, 151, 181, 212, 243, 273, 304, 334, 365] ! m + (if leap \<and> 2 \<le> m then 1 else 0)"

definition first_day :: "int \<Rightarrow> int" where
  "first_day month = day_from_year (month div 12) + days_before_month (leap_year (month div 12)) (nat (month mod 12))"

definition month_of_day :: "int \<Rightarrow> int" where
  "month_of_day d =
     (let y = year_of_day d in
      int (length (filter (\<lambda>m. days_before_month (leap_year y) m \<le> d - day_from_year y) [1..<12])))"

definition month_index :: "int \<Rightarrow> int" where
  "month_index d = 12 * year_of_day d + month_of_day d"

definition date_of_day :: "int \<Rightarrow> int" where
  "date_of_day d = d - first_day (month_index d) + 1"

definition weekday :: "int \<Rightarrow> int" where
  "weekday d = (d + 4) mod 7"

text \<open>The accessors of a valid \<open>Date\<close>, \<open>TimeClip\<close>, with \<open>None\<close> for the time value \<open>NaN\<close>, and \<open>Date.UTC\<close>, which takes the
  years 0 to 99 for 1900 to 1999.\<close>

definition getUTCFullYear :: "int \<Rightarrow> int" where "getUTCFullYear t = year_of_day (t div msPerDay)"
definition getUTCMonth :: "int \<Rightarrow> int" where "getUTCMonth t = month_of_day (t div msPerDay)"
definition getUTCDate :: "int \<Rightarrow> int" where "getUTCDate t = date_of_day (t div msPerDay)"
definition getUTCDay :: "int \<Rightarrow> int" where "getUTCDay t = weekday (t div msPerDay)"
definition getUTCHours :: "int \<Rightarrow> int" where "getUTCHours t = t div 3600000 mod 24"
definition getUTCMinutes :: "int \<Rightarrow> int" where "getUTCMinutes t = t div 60000 mod 60"

definition time_clip :: "int \<Rightarrow> int option" where
  "time_clip t = (if \<bar>t\<bar> \<le> 8640000000000000 then Some t else None)"

definition date_utc :: "int \<Rightarrow> int \<Rightarrow> int \<Rightarrow> int \<Rightarrow> int \<Rightarrow> int option" where
  "date_utc year month date hours minutes =
     (let y = if 0 \<le> year \<and> year \<le> 99 then 1900 + year else year in
      time_clip ((first_day (12 * y + month) + date - 1) * msPerDay + hours * 3600000 + minutes * 60000))"

subsection \<open>Years\<close>

lemma div_bounds: "(0::int) < k \<Longrightarrow> k * (x div k) \<le> x \<and> x < k * (x div k) + k"
  using mult_div_mod_eq [of k x] pos_mod_bound [of k x] pos_mod_sign [of k x] by linarith

lemma div_step:
  assumes "(0::int) < k"
  shows "(y + 1) div k = y div k + (if (y + 1) mod k = 0 then 1 else 0)"
proof (cases "(y + 1) mod k = 0")
  case True
  then obtain q where q: "y + 1 = k * q" by (auto elim: dvdE simp: dvd_eq_mod_eq_0 [symmetric])
  have "y = (k - 1) + k * (q - 1)" using q by (simp add: algebra_simps)
  then have "y div k = q - 1" using assms div_mult_self2 [of k "k - 1" "q - 1"] by (simp add: div_pos_pos_trivial)
  then show ?thesis using True q assms by simp
next
  case False
  have "(y + 1) div k = y div k"
  proof (rule antisym)
    show "(y + 1) div k \<le> y div k"
    proof -
      have "(y + 1) mod k \<ge> 1" using False pos_mod_sign [OF assms, of "y + 1"] by linarith
      then have "k * ((y + 1) div k) \<le> y" using mult_div_mod_eq [of k "y + 1"] by linarith
      then show ?thesis using assms by (metis nonzero_mult_div_cancel_left order_less_imp_not_eq2 zdiv_mono1)
    qed
  qed (use assms in \<open>simp add: zdiv_mono1\<close>)
  with False show ?thesis by simp
qed

lemma leap_count:
  assumes "(0::int) < k" "x + 1 = y - k * q"
  shows "(x + 1) div k = x div k + (if k dvd y then 1 else 0)"
proof -
  have "k dvd x + 1 \<longleftrightarrow> k dvd y" unfolding assms(2) by (simp add: dvd_diff_left_iff)
  then show ?thesis using div_step [OF assms(1), of x] by (simp only: dvd_eq_mod_eq_0)
qed

lemma leap_sum:
  "(r \<longrightarrow> q) \<Longrightarrow> (q \<longrightarrow> p) \<Longrightarrow> a' = a + (if p then 1 else 0) \<Longrightarrow> b' = b + (if q then 1 else 0) \<Longrightarrow> c' = c + (if r then 1 else 0) \<Longrightarrow>
    x + 365 + a' - b' + c' = x + a - b + c + (if p \<and> (\<not> q \<or> r) then 366 else 365 :: int)"
  by (cases r; cases q; cases p) simp_all

lemma year_length: "day_from_year (y + 1) = day_from_year y + (if leap_year y then 366 else 365)"
proof -
  have "day_from_year (y + 1) = 365 * (y - 1970) + 365 + (y - 1969 + 1) div 4 - (y - 1901 + 1) div 100 + (y - 1601 + 1) div 400"
    by (simp add: day_from_year_def algebra_simps)
  also have "\<dots> = day_from_year y + (if 4 dvd y \<and> (\<not> 100 dvd y \<or> 400 dvd y) then 366 else 365)"
    unfolding day_from_year_def
  proof (rule leap_sum)
    show "400 dvd y \<longrightarrow> 100 dvd y" by (rule impI, rule dvd_trans [of 100 400]) simp_all
    show "100 dvd y \<longrightarrow> 4 dvd y" by (rule impI, rule dvd_trans [of 4 100]) simp_all
    show "(y - 1969 + 1) div 4 = (y - 1969) div 4 + (if 4 dvd y then 1 else 0)" by (rule leap_count [of _ _ _ 492]) simp_all
    show "(y - 1901 + 1) div 100 = (y - 1901) div 100 + (if 100 dvd y then 1 else 0)" by (rule leap_count [of _ _ _ 19]) simp_all
    show "(y - 1601 + 1) div 400 = (y - 1601) div 400 + (if 400 dvd y then 1 else 0)" by (rule leap_count [of _ _ _ 4]) simp_all
  qed
  also have "4 dvd y \<and> (\<not> 100 dvd y \<or> 400 dvd y) \<longleftrightarrow> leap_year y" by (simp add: leap_year_def dvd_eq_mod_eq_0)
  finally show ?thesis .
qed

lemma year_bounds:
  "day_from_year y * 400 \<le> 146097 * (y - 1970) + 600" (is ?upper)
  "146097 * (y - 1970) - 600 \<le> day_from_year y * 400" (is ?lower)
proof -
  define a b c where "a = (y - 1969) div 4" and "b = (y - 1901) div 100" and "c = (y - 1601) div 400"
  have "4 * a \<le> y - 1969" "y - 1969 < 4 * a + 4" unfolding a_def using div_bounds [of 4] by simp_all
  moreover have "100 * b \<le> y - 1901" "y - 1901 < 100 * b + 100" unfolding b_def using div_bounds [of 100] by simp_all
  moreover have "400 * c \<le> y - 1601" "y - 1601 < 400 * c + 400" unfolding c_def using div_bounds [of 400] by simp_all
  moreover have "day_from_year y = 365 * (y - 1970) + a - b + c" by (simp add: day_from_year_def a_def b_def c_def)
  ultimately have "?upper \<and> ?lower" by (simp add: algebra_simps)
  then show ?upper ?lower by simp_all
qed

lemma year_of_day_bounds: "day_from_year (year_of_day d) \<le> d" "d < day_from_year (year_of_day d + 1)"
proof -
  define y where "y = 1970 + d * 400 div 146097"
  have "146097 * (y - 1970) \<le> d * 400" "d * 400 < 146097 * (y - 1970) + 146097" unfolding y_def using div_bounds [of 146097 "d * 400"] by simp_all
  moreover from this have "day_from_year (y - 1) \<le> d" using year_bounds(1) [of "y - 1"] by (simp add: algebra_simps)
  ultimately have "day_from_year (y - 1) \<le> d" "d < day_from_year (y + 2)" using year_bounds(2) [of "y + 2"] by (simp_all add: algebra_simps)
  then have "day_from_year (year_of_day d) \<le> d \<and> d < day_from_year (year_of_day d + 1)"
    unfolding year_of_day_def Let_def y_def [symmetric] by (auto simp: add.assoc)
  then show "day_from_year (year_of_day d) \<le> d" "d < day_from_year (year_of_day d + 1)" by simp_all
qed

subsection \<open>Months\<close>

lemma month_lengths:
  "m < 12 \<Longrightarrow> days_before_month leap m < days_before_month leap (Suc m)"
  by (auto simp: days_before_month_def less_Suc_eq numeral_eq_Suc)

lemma year_months: "days_before_month leap 0 = 0" "days_before_month leap 12 = (if leap then 366 else 365)"
  by (simp_all add: days_before_month_def)

lemma first_day_step: "first_day m < first_day (m + 1)"
proof (cases "m mod 12 = 11")
  case True
  then have "(m + 1) mod 12 = 0" by (simp add: mod_add_left_eq [symmetric])
  then have "(m + 1) div 12 = m div 12 + 1" "(m + 1) mod 12 = 0" using div_step [of 12 m] by simp_all
  moreover have "days_before_month (leap_year (m div 12)) 11 < days_before_month (leap_year (m div 12)) 12"
    using month_lengths [of 11] by simp
  ultimately show ?thesis using True year_length [of "m div 12"] by (auto simp: first_day_def year_months split: if_splits)
next
  case False
  then have "m mod 12 + 1 < 12" using pos_mod_bound [of 12 m] by linarith
  then have "(m + 1) mod 12 = m mod 12 + 1" by (metis mod_add_left_eq mod_pos_pos_trivial add_nonneg_nonneg pos_mod_sign zero_less_numeral zero_le_one)
  moreover from this have "(m + 1) div 12 = m div 12" using div_step [of 12 m] pos_mod_sign [of 12 m] by auto
  moreover have "nat (m mod 12 + 1) = Suc (nat (m mod 12))" by (simp add: Suc_nat_eq_nat_zadd1)
  moreover have "nat (m mod 12) < 12" by (simp add: nat_less_iff)
  ultimately show ?thesis using month_lengths by (simp add: first_day_def)
qed

lemma first_day_mono: "m \<le> m' \<Longrightarrow> first_day m \<le> first_day m'"
proof (induction rule: int_ge_induct)
  case (step i)
  then show ?case using first_day_step [of i] by simp
qed simp

lemma first_day_less: "first_day m \<le> d \<Longrightarrow> d < first_day m' \<Longrightarrow> m < m'"
  using first_day_mono [of m' m] by linarith

lemma count_prefix:
  assumes "\<And>i j. i < j \<Longrightarrow> j < n \<Longrightarrow> P j \<Longrightarrow> P (i::nat)"
  shows "length (filter P [0..<n]) = k \<Longrightarrow> (\<forall>i < k. P i) \<and> (k < n \<longrightarrow> \<not> P k) \<and> k \<le> n"
  using assms
proof (induction n arbitrary: k)
  case (Suc n)
  show ?case
  proof (cases "P n")
    case True
    with Suc.prems(2) have "\<forall>i < n. P i" by blast
    then have "filter P [0..<n] = [0..<n]" by (simp add: filter_id_conv)
    then show ?thesis using True Suc.prems \<open>\<forall>i < n. P i\<close> by (auto simp: less_Suc_eq)
  next
    case False
    have "(\<forall>i < k. P i) \<and> (k < n \<longrightarrow> \<not> P k) \<and> k \<le> n"
      using Suc.prems False by (intro Suc.IH) auto
    then show ?thesis using False by (auto simp: less_Suc_eq)
  qed
qed simp

lemma days_before_mono: "i < j \<Longrightarrow> j < 13 \<Longrightarrow> days_before_month leap i < days_before_month leap j"
proof (induction j)
  case (Suc j)
  then show ?case using month_lengths [of j leap] by (cases "i = j") auto
qed simp

lemma month_of_day_bounds:
  "0 \<le> month_of_day d" "month_of_day d < 12" "first_day (month_index d) \<le> d" "d < first_day (month_index d + 1)"
proof -
  define y where "y = year_of_day d"
  define k where "k = length (filter (\<lambda>m. days_before_month (leap_year y) (Suc m) \<le> d - day_from_year y) [0..<11])"
  have m: "month_of_day d = int k"
  proof -
    have "[1..<12] = map Suc [0..<11]" by (simp add: map_Suc_upt)
    then show ?thesis by (simp add: month_of_day_def k_def y_def Let_def filter_map comp_def del: upt_Suc)
  qed
  have "(\<forall>i < k. days_before_month (leap_year y) (Suc i) \<le> d - day_from_year y) \<and>
      (k < 11 \<longrightarrow> \<not> days_before_month (leap_year y) (Suc k) \<le> d - day_from_year y) \<and> k \<le> 11"
  proof (rule count_prefix)
    fix i j :: nat assume "i < j" "j < 11" "days_before_month (leap_year y) (Suc j) \<le> d - day_from_year y"
    then show "days_before_month (leap_year y) (Suc i) \<le> d - day_from_year y"
      using days_before_mono [of "Suc i" "Suc j" "leap_year y"] by simp
  qed (simp add: k_def)
  then have k: "\<And>i. i < k \<Longrightarrow> days_before_month (leap_year y) (Suc i) \<le> d - day_from_year y"
    "k < 11 \<Longrightarrow> d - day_from_year y < days_before_month (leap_year y) (Suc k)" "k \<le> 11" by auto
  have y: "day_from_year y \<le> d" "d < day_from_year y + days_before_month (leap_year y) 12"
    using year_of_day_bounds [of d] year_length [of y] by (simp_all add: y_def year_months)
  have "day_from_year y + days_before_month (leap_year y) k \<le> d"
    using k(1) [of "k - 1"] y(1) by (cases k) (auto simp: year_months)
  moreover have "d < day_from_year y + days_before_month (leap_year y) (Suc k)"
    using k(2,3) y(2) by (cases "k = 11") auto
  moreover have "first_day (12 * y + int k) = day_from_year y + days_before_month (leap_year y) k"
    using k(3) by (simp add: first_day_def)
  moreover have "first_day (12 * y + int k + 1) = day_from_year y + days_before_month (leap_year y) (Suc k)"
  proof (cases "k = 11")
    case True
    have "first_day (12 * (y + 1)) = day_from_year (y + 1)" by (simp add: first_day_def year_months)
    then show ?thesis using True year_length [of y] by (simp add: year_months algebra_simps)
  next
    case False
    with k(3) have "(12 * y + (int k + 1)) div 12 = y" "(12 * y + (int k + 1)) mod 12 = int k + 1" by simp_all
    then show ?thesis by (simp add: first_day_def add.assoc nat_add_distrib)
  qed
  ultimately show "first_day (month_index d) \<le> d" "d < first_day (month_index d + 1)"
    by (simp_all add: month_index_def m y_def [symmetric])
  show "0 \<le> month_of_day d" "month_of_day d < 12" using k(3) by (simp_all add: m)
qed

lemma month_index_unique: "first_day m \<le> d \<Longrightarrow> d < first_day (m + 1) \<Longrightarrow> month_index d = m"
  using first_day_less [of m d "month_index d + 1"] first_day_less [of "month_index d" d "m + 1"] month_of_day_bounds [of d] by linarith

lemma month_index_mono: "d \<le> d' \<Longrightarrow> month_index d \<le> month_index d'"
  using first_day_less [of "month_index d" d' "month_index d' + 1"] month_of_day_bounds [of d] month_of_day_bounds [of d'] by linarith

lemma year_month_index: "year_of_day d = month_index d div 12" "month_of_day d = month_index d mod 12"
  using month_of_day_bounds(1,2) [of d] by (simp_all add: month_index_def)

lemma date_utc_month:
  assumes "year < 0 \<or> 99 < year"
  shows "date_utc year month date hours minutes =
    time_clip ((first_day (12 * year + month) + date - 1) * msPerDay + hours * 3600000 + minutes * 60000)"
  using assms by (auto simp: date_utc_def)

subsection \<open>Times\<close>

lemma time_parts:
  "t = (t div msPerDay) * msPerDay + getUTCHours t * 3600000 + getUTCMinutes t * 60000 + t mod 60000"
  "0 \<le> getUTCHours t" "getUTCHours t < 24" "0 \<le> getUTCMinutes t" "getUTCMinutes t < 60"
proof -
  have "t div msPerDay = t div 3600000 div 24" "t div 3600000 = t div 60000 div 60"
    using zdiv_zmult2_eq [of 24 t 3600000] zdiv_zmult2_eq [of 60 t 60000] by simp_all
  then show "t = (t div msPerDay) * msPerDay + getUTCHours t * 3600000 + getUTCMinutes t * 60000 + t mod 60000"
    unfolding getUTCHours_def getUTCMinutes_def
    using mult_div_mod_eq [of 24 "t div 3600000"] mult_div_mod_eq [of 60 "t div 60000"] mult_div_mod_eq [of 60000 t] by linarith
  show "0 \<le> getUTCHours t" "getUTCHours t < 24" "0 \<le> getUTCMinutes t" "getUTCMinutes t < 60"
    by (simp_all add: getUTCHours_def getUTCMinutes_def)
qed

lemma time_of_parts:
  assumes "0 \<le> h" "h < 24" "0 \<le> mi" "mi < 60" "0 \<le> r" "r < 60000" "t = d * msPerDay + h * 3600000 + mi * 60000 + r"
  shows "t div msPerDay = d" "getUTCHours t = h" "getUTCMinutes t = mi" "t mod 60000 = r"
proof -
  have a: "t div 60000 = d * 1440 + h * 60 + mi" "t mod 60000 = r"
  proof -
    define k where "k = d * 1440 + h * 60 + mi"
    have "t = r + 60000 * k" using assms(7) by (simp add: k_def)
    then show "t div 60000 = d * 1440 + h * 60 + mi" "t mod 60000 = r"
      using assms(5,6) by (simp_all add: div_pos_pos_trivial k_def [symmetric])
  qed
  have b: "t div 3600000 = d * 24 + h"
  proof -
    have "t div 3600000 = (mi + 60 * (d * 24 + h)) div 60" using zdiv_zmult2_eq [of 60 t 60000] a(1) by (simp add: algebra_simps)
    then show ?thesis using assms(3,4) by (simp add: div_pos_pos_trivial)
  qed
  have "t div msPerDay = (h + 24 * d) div 24" using zdiv_zmult2_eq [of 24 t 3600000] b by (simp add: algebra_simps)
  then show "t div msPerDay = d" using assms(1,2) by (simp add: div_pos_pos_trivial)
  show "getUTCHours t = h" using b assms(1,2) mod_mult_self3 [of d 24 h] by (simp add: getUTCHours_def mod_pos_pos_trivial)
  have "t div 60000 = (d * 24 + h) * 60 + mi" using a(1) by simp
  then show "getUTCMinutes t = mi" using assms(3,4) mod_mult_self3 [of "d * 24 + h" 60 mi] by (simp add: getUTCMinutes_def mod_pos_pos_trivial)
  show "t mod 60000 = r" by (rule a(2))
qed

end
