(* ===== verification/Cron.thy ===== *)
theory Cron
  imports Js_Date Js_Text Complex_Main
begin

text \<open>
  \<open>internal/jobs/cron.ts\<close>: cron expressions and the next time they fire.

  Milliseconds are rational numbers, so that \<open>every:1.5s\<close> is exact; the times of a cron schedule are integers. A search
  that does not return would be \<open>None\<close>; a time value \<open>NaN\<close> is \<open>None\<close> within the result.
\<close>

datatype cron_error = CronError string

record CronSpec =
  cs_minutes :: "int list"
  cs_hours :: "int list"
  cs_daysOfMonth :: "int list"
  cs_months :: "int list"
  cs_daysOfWeek :: "int list"
  cs_domRestricted :: bool
  cs_dowRestricted :: bool

datatype ScheduleSpec = Cron CronSpec | Every rat

subsection \<open>Fields\<close>

record FieldRange =
  fr_min :: int
  fr_max :: int

definition FIELDS :: "FieldRange list" where
  "FIELDS = [\<lparr>fr_min = 0, fr_max = 59\<rparr>, \<lparr>fr_min = 0, fr_max = 23\<rparr>, \<lparr>fr_min = 1, fr_max = 31\<rparr>, \<lparr>fr_min = 1, fr_max = 12\<rparr>, \<lparr>fr_min = 0, fr_max = 7\<rparr>]"

abbreviation (input) star_text :: text_string where "star_text \<equiv> [42]"
abbreviation (input) slash_char :: code_unit where "slash_char \<equiv> 47"
abbreviation (input) dash_char :: code_unit where "dash_char \<equiv> 45"
abbreviation (input) comma_char :: code_unit where "comma_char \<equiv> 44"

definition part_step :: "text_string \<Rightarrow> cron_error + text_string \<times> int \<times> bool" where
  "part_step part = (case split_at slash_char part of
     None \<Rightarrow> Inr (part, 1, False)
   | Some (body, stepText) \<Rightarrow>
       if \<not> all_digits stepText \<or> number_of_digits stepText = 0 then Inl (CronError ''step must be a positive integer'')
       else Inr (body, number_of_digits stepText, True))"

definition part_bounds :: "FieldRange \<Rightarrow> text_string \<Rightarrow> cron_error + int \<times> int" where
  "part_bounds fr body =
     bindR (case split_at dash_char body of
         Some (loText, hiText) \<Rightarrow>
           if \<not> all_digits loText \<or> \<not> all_digits hiText then Inl (CronError ''range must be numeric'')
           else if number_of_digits loText > number_of_digits hiText then Inl (CronError ''range is inverted'')
           else Inr (number_of_digits loText, number_of_digits hiText)
       | None \<Rightarrow>
           if \<not> all_digits body then Inl (CronError ''value must be numeric'')
           else Inr (number_of_digits body, number_of_digits body))
       (\<lambda>(lo, hi). if lo < fr_min fr \<or> hi > fr_max fr then Inl (CronError ''value is out of fr'') else Inr (lo, hi))"

text \<open>The loop \<open>for (let v = lo; v <= hi; v += step)\<close>.\<close>

definition stepped :: "int \<Rightarrow> int \<Rightarrow> int \<Rightarrow> int list" where
  "stepped lo hi step = filter (\<lambda>v. (v - lo) mod step = 0) [lo..hi]"

definition parse_part :: "FieldRange \<Rightarrow> text_string \<Rightarrow> cron_error + int list \<times> bool" where
  "parse_part fr part =
     (if part = [] then Inl (CronError ''field has an empty list entry'')
      else bindR (part_step part) (\<lambda>(body, step, slash).
        if body = star_text then Inr (stepped (fr_min fr) (fr_max fr) step, slash)
        else bindR (part_bounds fr body) (\<lambda>(lo, hi). Inr (stepped lo hi step, True))))"

definition parseField :: "text_string \<Rightarrow> FieldRange \<Rightarrow> cron_error + int list \<times> bool" where
  "parseField text fr =
     bindR (mapR (parse_part fr) (split_char comma_char text)) (\<lambda>ps.
       Inr (sort (remdups (concat (map fst ps))), list_ex snd ps))"

subsection \<open>Expressions\<close>

abbreviation ascii_text :: "string \<Rightarrow> text_string" where
  "ascii_text s \<equiv> map (\<lambda>c. of_char c) s"

definition ALIASES :: "text_string \<Rightarrow> text_string option" where
  "ALIASES = map_of [(ascii_text ''@hourly'', ascii_text ''0 * * * *''), (ascii_text ''@daily'', ascii_text ''0 0 * * *''),
     (ascii_text ''@weekly'', ascii_text ''0 0 * * 0''), (ascii_text ''@monthly'', ascii_text ''0 0 1 * *''),
     (ascii_text ''@yearly'', ascii_text ''0 0 1 1 *''), (ascii_text ''@annually'', ascii_text ''0 0 1 1 *'')]"

definition DURATION_SCALE :: "text_string \<Rightarrow> rat option" where
  "DURATION_SCALE = map_of [(ascii_text ''ms'', 1), (ascii_text ''s'', 1000), (ascii_text ''m'', 60000),
     (ascii_text ''h'', 3600000), (ascii_text ''d'', 86400000)]"

text \<open>\<open>DURATION_RE\<close>: digits, a fraction, a unit; the value of the number and the scale.\<close>

definition duration_match :: "text_string \<Rightarrow> (rat \<times> rat) option" where
  "duration_match s =
     (let whole = takeWhile is_digit s; rest = dropWhile is_digit s;
          fraction = takeWhile is_digit (tl rest);
          (number, unit) = (if rest \<noteq> [] \<and> hd rest = 46 \<and> fraction \<noteq> []
            then (of_nat (digits_value whole) + of_nat (digits_value fraction) / 10 ^ length fraction, dropWhile is_digit (tl rest))
            else (of_nat (digits_value whole), rest)) in
      if whole = [] then None else map_option (Pair number) (DURATION_SCALE unit))"

definition parse_interval :: "text_string \<Rightarrow> cron_error + ScheduleSpec" where
  "parse_interval duration = (case duration_match duration of
     None \<Rightarrow> Inl (CronError ''duration must match <n><ms|s|m|h|d>'')
   | Some (number, scale) \<Rightarrow>
       if number * scale > 0 then Inr (Every (number * scale)) else Inl (CronError ''interval must be positive''))"

definition parse_fields :: "text_string list \<Rightarrow> cron_error + ScheduleSpec" where
  "parse_fields fs =
     (if length fs \<noteq> 5 then Inl (CronError ''cron expression must have 5 fields'')
      else
        bindR (parseField (fs ! 0) (FIELDS ! 0)) (\<lambda>minute.
        bindR (parseField (fs ! 1) (FIELDS ! 1)) (\<lambda>hour.
        bindR (parseField (fs ! 2) (FIELDS ! 2)) (\<lambda>dom.
        bindR (parseField (fs ! 3) (FIELDS ! 3)) (\<lambda>month.
        bindR (parseField (fs ! 4) (FIELDS ! 4)) (\<lambda>dow.
          Inr (Cron \<lparr>cs_minutes = fst minute, cs_hours = fst hour, cs_daysOfMonth = fst dom, cs_months = fst month,
            cs_daysOfWeek = sort (remdups (map (\<lambda>v. if v = 7 then 0 else v) (fst dow))),
            cs_domRestricted = snd dom, cs_dowRestricted = snd dow\<rparr>)))))))"

definition parseCron :: "text_string \<Rightarrow> cron_error + ScheduleSpec" where
  "parseCron spec =
     (let text = trim spec in
      if text = [] then Inl (CronError ''cron expression is empty'')
      else if take 6 text = ascii_text ''every:'' then parse_interval (trim (drop 6 text))
      else if hd text = 64 then (case ALIASES text of
          None \<Rightarrow> Inl (CronError ''unknown cron alias'')
        | Some expanded \<Rightarrow> parse_fields (split_space expanded))
      else parse_fields (split_space text))"

subsection \<open>The next occurrence\<close>

definition nextAllowed :: "int list \<Rightarrow> int \<Rightarrow> int option" where
  "nextAllowed vals from = find (\<lambda>v. v \<ge> from) vals"

definition dayMatches :: "CronSpec \<Rightarrow> int \<Rightarrow> bool" where
  "dayMatches spec date =
     (let domOk = getUTCDate date \<in> set (cs_daysOfMonth spec); dowOk = getUTCDay date \<in> set (cs_daysOfWeek spec) in
      if cs_domRestricted spec \<and> cs_dowRestricted spec then domOk \<or> dowOk
      else if cs_domRestricted spec then domOk
      else if cs_dowRestricted spec then dowOk
      else True)"

definition FIVE_YEARS_MS :: int where "FIVE_YEARS_MS = 5 * 366 * 86400000"

text \<open>Where the search goes on when the month, the day or the hour of \<open>t\<close> is not allowed.\<close>

definition month_jump :: "CronSpec \<Rightarrow> int \<Rightarrow> int option" where
  "month_jump spec t = (case nextAllowed (cs_months spec) (getUTCMonth t + 2) of
     None \<Rightarrow> (case cs_months spec of [] \<Rightarrow> None | m # _ \<Rightarrow> date_utc (getUTCFullYear t + 1) (m - 1) 1 0 0)
   | Some nextMonth \<Rightarrow> date_utc (getUTCFullYear t) (nextMonth - 1) 1 0 0)"

definition day_jump :: "int \<Rightarrow> int option" where
  "day_jump t = date_utc (getUTCFullYear t) (getUTCMonth t) (getUTCDate t + 1) 0 0"

definition hour_jump :: "int \<Rightarrow> int \<Rightarrow> int option" where
  "hour_jump t hour = date_utc (getUTCFullYear t) (getUTCMonth t) (getUTCDate t) hour 0"

text \<open>One round of the loop: a new \<open>t\<close>, or the time to return.\<close>

definition search_step :: "CronSpec \<Rightarrow> int \<Rightarrow> int option + int option" where
  "search_step spec t =
     (if getUTCMonth t + 1 \<notin> set (cs_months spec) then Inl (month_jump spec t)
      else if \<not> dayMatches spec t then Inl (day_jump t)
      else case nextAllowed (cs_hours spec) (getUTCHours t) of
        None \<Rightarrow> Inl (day_jump t)
      | Some hour \<Rightarrow> (case if hour \<noteq> getUTCHours t then hour_jump t hour else Some t of
          None \<Rightarrow> Inl None
        | Some u \<Rightarrow> (case nextAllowed (cs_minutes spec) (getUTCMinutes u) of
            None \<Rightarrow> Inl (hour_jump u (getUTCHours u + 1))
          | Some minute \<Rightarrow> Inr (if minute \<noteq> getUTCMinutes u
              then date_utc (getUTCFullYear u) (getUTCMonth u) (getUTCDate u) (getUTCHours u) minute else Some u))))"

partial_function (option) search :: "CronSpec \<Rightarrow> rat \<Rightarrow> int option \<Rightarrow> (cron_error + int option) option" where
  "search spec bail t = (case t of
     None \<Rightarrow> Some (Inl (CronError ''cron expression has no occurrence within five years''))
   | Some t \<Rightarrow>
       if of_int t \<le> bail then (case search_step spec t of Inl t \<Rightarrow> search spec bail t | Inr r \<Rightarrow> Some (Inr r))
       else Some (Inl (CronError ''cron expression has no occurrence within five years'')))"

definition nextOccurrence :: "ScheduleSpec \<Rightarrow> rat \<Rightarrow> rat \<Rightarrow> (cron_error + rat option) option" where
  "nextOccurrence spec afterMs anchorMs = (case spec of
     Every intervalMs \<Rightarrow> Some (Inr (Some (anchorMs + (of_int \<lfloor>(afterMs - anchorMs) / intervalMs\<rfloor> + 1) * intervalMs)))
   | Cron c \<Rightarrow> map_option (map_sum id (map_option of_int))
       (search c (afterMs + of_int FIVE_YEARS_MS) (time_clip (\<lfloor>afterMs / 60000\<rfloor> * 60000 + 60000))))"

subsection \<open>What an expression means\<close>

text \<open>A cron schedule fires at the valid times at the start of a minute whose fields are all allowed. Of the two day
  fields one that is restricted and allows the day is enough, and when neither is restricted every day will do.\<close>

definition day_due :: "CronSpec \<Rightarrow> int \<Rightarrow> bool" where
  "day_due spec t \<longleftrightarrow> cs_domRestricted spec \<and> getUTCDate t \<in> set (cs_daysOfMonth spec) \<or>
     cs_dowRestricted spec \<and> getUTCDay t \<in> set (cs_daysOfWeek spec) \<or> \<not> cs_domRestricted spec \<and> \<not> cs_dowRestricted spec"

lemma dayMatches_due: "dayMatches spec t = day_due spec t"
  by (auto simp: dayMatches_def day_due_def Let_def)

definition fires :: "CronSpec \<Rightarrow> int \<Rightarrow> bool" where
  "fires spec t \<longleftrightarrow> time_clip t \<noteq> None \<and> t mod 60000 = 0 \<and> getUTCMonth t + 1 \<in> set (cs_months spec) \<and> day_due spec t \<and>
     getUTCHours t \<in> set (cs_hours spec) \<and> getUTCMinutes t \<in> set (cs_minutes spec)"

definition allowed :: "int list \<Rightarrow> int \<Rightarrow> int \<Rightarrow> bool" where
  "allowed vals lo hi \<longleftrightarrow> sorted vals \<and> distinct vals \<and> vals \<noteq> [] \<and> list_all (\<lambda>v. lo \<le> v \<and> v \<le> hi) vals"

definition valid_cron :: "CronSpec \<Rightarrow> bool" where
  "valid_cron c \<longleftrightarrow> allowed (cs_minutes c) 0 59 \<and> allowed (cs_hours c) 0 23 \<and> allowed (cs_daysOfMonth c) 1 31 \<and>
     allowed (cs_months c) 1 12 \<and> allowed (cs_daysOfWeek c) 0 6"

subsection \<open>Rounds of the search\<close>

lemma nextAllowed_Some:
  assumes "nextAllowed vals from = Some v" "sorted vals"
  shows "v \<in> set vals" "from \<le> v" "w \<in> set vals \<Longrightarrow> from \<le> w \<Longrightarrow> v \<le> w"
proof -
  obtain i where i: "i < length vals" "from \<le> vals ! i" "v = vals ! i" "\<forall>j < i. \<not> from \<le> vals ! j"
    using assms(1) by (auto simp: nextAllowed_def find_Some_iff)
  then show "v \<in> set vals" "from \<le> v" by simp_all
  assume "w \<in> set vals" "from \<le> w"
  then obtain j where "j < length vals" "w = vals ! j" "\<not> j < i" using i(4) by (auto simp: in_set_conv_nth)
  then show "v \<le> w" using i assms(2) by (simp add: sorted_nth_mono)
qed

lemma nextAllowed_None: "nextAllowed vals from = None \<Longrightarrow> w \<in> set vals \<Longrightarrow> w < from"
  by (auto simp: nextAllowed_def find_None_iff not_le)

lemma time_year: "12 * getUTCFullYear t + getUTCMonth t = month_index (t div msPerDay)"
  by (simp add: getUTCFullYear_def getUTCMonth_def month_index_def)

lemma modern_year:
  assumes "0 \<le> t"
  shows "99 < getUTCFullYear t"
proof -
  have "0 \<le> t div msPerDay" using assms by simp
  then have "month_index 0 \<le> month_index (t div msPerDay)" by (rule month_index_mono)
  moreover have "month_index 0 = 12 * 1970" by (rule month_index_unique) (simp_all add: first_day_def day_from_year_def days_before_month_def)
  ultimately show ?thesis by (simp add: getUTCFullYear_def year_month_index(1))
qed

lemma date_of_parts:
  assumes "0 \<le> t"
  shows "date_utc (getUTCFullYear t) (getUTCMonth t) (getUTCDate t + k) h m = time_clip ((t div msPerDay + k) * msPerDay + h * 3600000 + m * 60000)"
proof -
  have "date_utc (getUTCFullYear t) (getUTCMonth t) (getUTCDate t + k) h m =
      time_clip ((first_day (month_index (t div msPerDay)) + (getUTCDate t + k) - 1) * msPerDay + h * 3600000 + m * 60000)"
    unfolding time_year [symmetric] by (rule date_utc_month) (use modern_year [OF assms] in simp)
  also have "first_day (month_index (t div msPerDay)) + (getUTCDate t + k) - 1 = t div msPerDay + k"
    by (simp add: getUTCDate_def date_of_day_def)
  finally show ?thesis .
qed

lemma same_day:
  "u div msPerDay = t div msPerDay \<Longrightarrow>
    getUTCFullYear u = getUTCFullYear t \<and> getUTCMonth u = getUTCMonth t \<and> getUTCDate u = getUTCDate t \<and> dayMatches spec u = dayMatches spec t"
  by (simp add: getUTCFullYear_def getUTCMonth_def getUTCDate_def getUTCDay_def dayMatches_def)

lemma day_between: "t \<le> u \<Longrightarrow> u < (t div msPerDay + 1) * msPerDay \<Longrightarrow> u div msPerDay = t div msPerDay"
  using div_bounds [of msPerDay t] zdiv_mono1 [of t u msPerDay] div_bounds [of msPerDay u] by simp

text \<open>No time from \<open>t\<close> up to \<open>t'\<close> fires.\<close>

definition quiet :: "CronSpec \<Rightarrow> int \<Rightarrow> int \<Rightarrow> bool" where
  "quiet c t t' \<longleftrightarrow> (\<forall>u. t \<le> u \<and> u < t' \<longrightarrow> \<not> fires c u)"

lemma quiet_trans: "quiet c t u \<Longrightarrow> quiet c u v \<Longrightarrow> quiet c t v"
  by (auto simp: quiet_def not_le) (meson not_le)

lemma month_jump_quiet:
  assumes t: "0 \<le> t" and c: "valid_cron c" and m: "getUTCMonth t + 1 \<notin> set (cs_months c)"
  shows "\<exists>J. month_jump c t = time_clip J \<and> t < J \<and> J mod 60000 = 0 \<and> quiet c t J"
proof -
  define d mi where "d = t div msPerDay" and "mi = month_index d"
  have month: "getUTCMonth t = mi mod 12" "getUTCFullYear t = mi div 12"
    by (simp_all add: getUTCMonth_def getUTCFullYear_def year_month_index mi_def d_def)
  have months: "sorted (cs_months c)" "cs_months c \<noteq> []" "\<And>v. v \<in> set (cs_months c) \<Longrightarrow> 1 \<le> v \<and> v \<le> 12"
    using c by (auto simp: valid_cron_def allowed_def list_all_iff)
  have jump: "\<exists>J. time_clip (first_day M * msPerDay) = time_clip J \<and> t < J \<and> J mod 60000 = 0 \<and> quiet c t J"
    if M: "mi < M" "\<And>k. mi \<le> k \<Longrightarrow> k < M \<Longrightarrow> k mod 12 + 1 \<notin> set (cs_months c)" for M
  proof (intro exI conjI)
    have "d < first_day M" using month_of_day_bounds(4) [of d] first_day_mono [of "mi + 1" M] M(1) by (simp add: mi_def)
    then have "(d + 1) * msPerDay \<le> first_day M * msPerDay" by simp
    then show "t < first_day M * msPerDay" using div_bounds [of msPerDay t] by (simp add: d_def)
    show "first_day M * msPerDay mod 60000 = 0" by (simp add: mod_eq_0_iff_dvd)
    show "quiet c t (first_day M * msPerDay)"
      unfolding quiet_def
    proof (intro allI impI)
      fix u assume u: "t \<le> u \<and> u < first_day M * msPerDay"
      then have "d \<le> u div msPerDay" "u div msPerDay < first_day M"
        using zdiv_mono1 [of t u msPerDay] div_bounds [of msPerDay u] by (simp_all add: d_def)
      then have "mi \<le> month_index (u div msPerDay)" "month_index (u div msPerDay) < M"
        using month_index_mono [of d "u div msPerDay"] first_day_less [of "month_index (u div msPerDay)" "u div msPerDay" M] month_of_day_bounds(3)
        by (simp_all add: mi_def)
      from M(2) [OF this] show "\<not> fires c u" by (simp add: fires_def getUTCMonth_def year_month_index)
    qed
  qed simp
  define q where "q = mi div 12"
  have mi: "mi = 12 * q + getUTCMonth t" "0 \<le> getUTCMonth t" "getUTCMonth t < 12"
    using mult_div_mod_eq [of 12 mi] by (simp_all add: month(1) q_def)
  have mod12: "k mod 12 = k - 12 * q'" if "12 * q' \<le> k" "k < 12 * q' + 12" for k q' :: int
    using mod_mult_self2 [of "k - 12 * q'" 12 q'] that by (simp add: mod_pos_pos_trivial)
  have utc: "date_utc y (v - 1) 1 0 0 = time_clip (first_day (12 * y + v - 1) * msPerDay)" if "99 < y" for y v
    using that by (simp add: date_utc_month add_diff_eq)
  have y: "99 < q" using modern_year [OF t] by (simp add: month(2) q_def)
  show ?thesis
  proof (cases "nextAllowed (cs_months c) (getUTCMonth t + 2)")
    case (Some v)
    note v = nextAllowed_Some [OF Some months(1)]
    have "month_jump c t = time_clip (first_day (12 * q + v - 1) * msPerDay)"
      using Some utc [OF y] by (simp add: month_jump_def month(2) q_def)
    moreover have "k mod 12 + 1 \<notin> set (cs_months c)" if "mi \<le> k" "k < 12 * q + v - 1" for k
    proof -
      have k: "k mod 12 = k - 12 * q" using that mi(1,2) months(3) [OF v(1)] by (intro mod12) linarith+
      show ?thesis using v(3) [of "k mod 12 + 1"] that m mi(1) unfolding k by (cases "k = mi") auto
    qed
    ultimately show ?thesis using jump [of "12 * q + v - 1"] v(2) mi(1) by simp
  next
    case None
    obtain v vs where vs: "cs_months c = v # vs" using months(2) by (cases "cs_months c") auto
    have "month_jump c t = time_clip (first_day (12 * (q + 1) + v - 1) * msPerDay)"
      using None utc [of "q + 1" v] y by (simp add: month_jump_def month(2) q_def vs)
    moreover have "k mod 12 + 1 \<notin> set (cs_months c)" if "mi \<le> k" "k < 12 * (q + 1) + v - 1" for k
    proof (cases "k < 12 * q + 12")
      case True
      then have k: "k mod 12 = k - 12 * q" using that mi(1,2) by (intro mod12) linarith+
      show ?thesis using nextAllowed_None [OF None, of "k mod 12 + 1"] that m mi(1) unfolding k by (cases "k = mi") auto
    next
      case False
      then have k: "k mod 12 = k - 12 * (q + 1)" using that months(3) [of v] by (intro mod12) (auto simp: vs)
      have "\<And>w. w \<in> set (cs_months c) \<Longrightarrow> v \<le> w" using months(1) by (auto simp: vs)
      from this [of "k mod 12 + 1"] show ?thesis using that unfolding k by auto
    qed
    moreover have "mi < 12 * (q + 1) + v - 1" using mi months(3) [of v] by (simp add: vs)
    ultimately show ?thesis using jump [of "12 * (q + 1) + v - 1"] by simp
  qed
qed

lemma day_jump_quiet:
  assumes "0 \<le> t" "\<And>u. t \<le> u \<Longrightarrow> u div msPerDay = t div msPerDay \<Longrightarrow> \<not> fires c u"
  shows "\<exists>J. day_jump t = time_clip J \<and> t < J \<and> J mod 60000 = 0 \<and> quiet c t J"
proof (intro exI conjI)
  show "day_jump t = time_clip ((t div msPerDay + 1) * msPerDay)"
    using date_of_parts [OF assms(1), of 1 0 0] by (simp add: day_jump_def)
  show "t < (t div msPerDay + 1) * msPerDay" using div_bounds [of msPerDay t] by simp
  show "(t div msPerDay + 1) * msPerDay mod 60000 = 0" by (simp add: mod_eq_0_iff_dvd)
  show "quiet c t ((t div msPerDay + 1) * msPerDay)" using assms(2) day_between by (auto simp: quiet_def)
qed


lemma time_indices: "t div 3600000 = 24 * (t div msPerDay) + getUTCHours t" "t div 60000 = 60 * (t div 3600000) + getUTCMinutes t"
  using zdiv_zmult2_eq [of 24 t 3600000] zdiv_zmult2_eq [of 60 t 60000]
    mult_div_mod_eq [of 24 "t div 3600000"] mult_div_mod_eq [of 60 "t div 60000"]
  by (simp_all add: getUTCHours_def getUTCMinutes_def)

lemma hour_reached:
  assumes t: "0 \<le> t" "t < 8640000000000000" "t mod 60000 = 0" and c: "valid_cron c"
    and h: "nextAllowed (cs_hours c) (getUTCHours t) = Some h"
  obtains u where "(if h \<noteq> getUTCHours t then hour_jump t h else Some t) = Some u" "t \<le> u" "u mod 60000 = 0" "quiet c t u"
    "u div msPerDay = t div msPerDay" "getUTCHours u = h"
proof -
  have hours: "sorted (cs_hours c)" "\<And>v. v \<in> set (cs_hours c) \<Longrightarrow> 0 \<le> v \<and> v < 24"
    using c by (force simp: valid_cron_def allowed_def list_all_iff)+
  note h' = nextAllowed_Some [OF h hours(1)]
  define u where "u = (if h \<noteq> getUTCHours t then (t div msPerDay) * msPerDay + h * 3600000 else t)"
  have day: "0 \<le> t div msPerDay" "t div msPerDay + 1 \<le> 100000000"
    using t(1,2) div_bounds [of msPerDay t] by simp_all
  have h24: "0 \<le> h" "h < 24" using hours(2) [OF h'(1)] by simp_all
  have parts: "u div msPerDay = t div msPerDay" "getUTCHours u = h" "u mod 60000 = 0"
    using time_of_parts [of h 0 0 u "t div msPerDay"] h24 t(3) by (auto simp: u_def)
  have le: "t \<le> u"
    using time_parts [of t] h'(2) t(3) by (simp add: u_def)
  show ?thesis
  proof (rule that [of u])
    show "(if h \<noteq> getUTCHours t then hour_jump t h else Some t) = Some u"
      using date_of_parts [OF t(1), of 0 h 0] day h24 by (simp add: hour_jump_def u_def time_clip_def abs_le_iff)
    show "quiet c t u"
      unfolding quiet_def
    proof (intro allI impI)
      fix x assume x: "t \<le> x \<and> x < u"
      then have "x div msPerDay = t div msPerDay" using day_between [of t x] parts(1) div_bounds [of msPerDay u] by simp
      moreover have "t div 3600000 \<le> x div 3600000" "x div 3600000 < u div 3600000 \<or> h = getUTCHours t"
      proof -
        show "t div 3600000 \<le> x div 3600000" using x by (simp add: zdiv_mono1)
        have "h \<noteq> getUTCHours t \<Longrightarrow> u = 3600000 * (24 * (t div msPerDay) + h)" by (simp add: u_def)
        then show "x div 3600000 < u div 3600000 \<or> h = getUTCHours t" using x div_bounds [of 3600000 x] by fastforce
      qed
      ultimately have "getUTCHours t \<le> getUTCHours x" "getUTCHours x < h \<or> h = getUTCHours t"
        using time_indices(1) [of x] time_indices(1) [of t] time_indices(1) [of u] parts by auto
      moreover have "h = getUTCHours t \<Longrightarrow> x < t" using x by (simp add: u_def)
      ultimately have "getUTCHours x \<notin> set (cs_hours c)" using h'(3) [of "getUTCHours x"] x by auto
      then show "\<not> fires c x" by (simp add: fires_def)
    qed
  qed (use parts le in simp_all)
qed

lemma minute_reached:
  assumes t: "0 \<le> t" "t < 8640000000000000" "t mod 60000 = 0" and c: "valid_cron c"
    and fit: "getUTCMonth t + 1 \<in> set (cs_months c)" "dayMatches c t" "getUTCHours t \<in> set (cs_hours c)"
    and v: "nextAllowed (cs_minutes c) (getUTCMinutes t) = Some v"
  obtains u where "(if v \<noteq> getUTCMinutes t then date_utc (getUTCFullYear t) (getUTCMonth t) (getUTCDate t) (getUTCHours t) v else Some t) = Some u"
    "t \<le> u" "fires c u" "quiet c t u"
proof -
  have minutes: "sorted (cs_minutes c)" "\<And>w. w \<in> set (cs_minutes c) \<Longrightarrow> 0 \<le> w \<and> w < 60"
    using c by (force simp: valid_cron_def allowed_def list_all_iff)+
  note v' = nextAllowed_Some [OF v minutes(1)]
  define u where "u = (t div msPerDay) * msPerDay + getUTCHours t * 3600000 + v * 60000"
  have v60: "0 \<le> v" "v < 60" using minutes(2) [OF v'(1)] by simp_all
  have parts: "u div msPerDay = t div msPerDay" "getUTCHours u = getUTCHours t" "getUTCMinutes u = v" "u mod 60000 = 0"
    using time_of_parts [of "getUTCHours t" v 0 u "t div msPerDay"] time_parts [of t] v60 by (simp_all add: u_def)
  have tu: "t \<le> u" "v = getUTCMinutes t \<Longrightarrow> u = t" using time_parts(1) [of t] v'(2) t(3) by (simp_all add: u_def)
  have day: "0 \<le> t div msPerDay" "t div msPerDay + 1 \<le> 100000000"
    using t(1,2) div_bounds [of msPerDay t] by simp_all
  have valid: "time_clip u = Some u"
    using day v60 time_parts(2,3) [of t] by (simp add: u_def time_clip_def abs_le_iff)
  show ?thesis
  proof (rule that [of u])
    show "(if v \<noteq> getUTCMinutes t then date_utc (getUTCFullYear t) (getUTCMonth t) (getUTCDate t) (getUTCHours t) v else Some t) = Some u"
      using date_of_parts [OF t(1), of 0 "getUTCHours t" v] valid tu(2) by (simp add: u_def)
    show "fires c u" using same_day [OF parts(1), of c] fit v'(1) valid parts by (simp add: fires_def dayMatches_due)
    show "quiet c t u"
      unfolding quiet_def
    proof (intro allI impI)
      fix x assume x: "t \<le> x \<and> x < u"
      have hour: "u div 3600000 = t div 3600000" using time_indices(1) [of u] time_indices(1) [of t] parts by simp
      have x': "t div 3600000 \<le> x div 3600000" "x div 3600000 \<le> u div 3600000" "t div 60000 \<le> x div 60000"
        using x by (simp_all add: zdiv_mono1)
      have "60000 * (x div 60000) < 60000 * (u div 60000)"
        using x div_bounds [of 60000 x] mult_div_mod_eq [of 60000 u] unfolding parts(4) by linarith
      then have "x div 60000 < u div 60000" by simp
      then have "getUTCMinutes t \<le> getUTCMinutes x \<and> getUTCMinutes x < v"
        using x' hour time_indices(2) [of x] time_indices(2) [of t] time_indices(2) [of u] unfolding parts(3) by linarith
      then have "getUTCMinutes x \<notin> set (cs_minutes c)" using v'(3) [of "getUTCMinutes x"] by auto
      then show "\<not> fires c x" by (simp add: fires_def)
    qed
  qed (rule tu(1))
qed

lemma hour_over:
  assumes t: "0 \<le> t" "t mod 60000 = 0" and none: "nextAllowed (cs_minutes c) (getUTCMinutes t) = None"
  shows "\<exists>J. hour_jump t (getUTCHours t + 1) = time_clip J \<and> t < J \<and> J mod 60000 = 0 \<and> quiet c t J"
proof (intro exI conjI)
  define J where "J = (t div 3600000 + 1) * 3600000"
  show "hour_jump t (getUTCHours t + 1) = time_clip J"
    using date_of_parts [OF t(1), of 0 "getUTCHours t + 1" 0] time_indices(1) [of t] by (simp add: hour_jump_def J_def algebra_simps)
  show "t < J" using div_bounds [of 3600000 t] by (simp add: J_def)
  show "J mod 60000 = 0" by (simp add: J_def mod_eq_0_iff_dvd)
  show "quiet c t J"
    unfolding quiet_def
  proof (intro allI impI)
    fix x assume x: "t \<le> x \<and> x < J"
    then have "x div 3600000 = t div 3600000" "t div 60000 \<le> x div 60000"
      using zdiv_mono1 [of t x 3600000] div_bounds [of 3600000 x] by (auto simp: J_def zdiv_mono1)
    then have "getUTCMinutes t \<le> getUTCMinutes x" using time_indices(2) [of x] time_indices(2) [of t] by simp
    then show "\<not> fires c x" using nextAllowed_None [OF none, of "getUTCMinutes x"] by (auto simp: fires_def)
  qed
qed

text \<open>What one round gives: a later time up to which nothing fires, or the next time that fires.\<close>

definition moves_on :: "CronSpec \<Rightarrow> int \<Rightarrow> int option \<Rightarrow> bool" where
  "moves_on c t r \<longleftrightarrow> (\<exists>J. r = time_clip J \<and> t < J \<and> J mod 60000 = 0 \<and> quiet c t J)"

lemma moves_onI:
  assumes "quiet c t u" "t \<le> u" "\<exists>J. r = time_clip J \<and> u < J \<and> J mod 60000 = 0 \<and> quiet c u J"
  shows "moves_on c t r"
proof -
  obtain J where "r = time_clip J" "u < J" "J mod 60000 = 0" "quiet c u J" using assms(3) by (elim exE conjE)
  moreover from this have "t < J" "quiet c t J" using assms(1,2) quiet_trans [of c t u J] by simp_all
  ultimately show ?thesis unfolding moves_on_def by (intro exI [of _ J]) simp
qed

lemma search_step_sound:
  assumes t: "0 \<le> t" "t < 8640000000000000" "t mod 60000 = 0" and c: "valid_cron c"
  shows "case search_step c t of Inl r \<Rightarrow> moves_on c t r | Inr r \<Rightarrow> \<exists>u. r = Some u \<and> t \<le> u \<and> fires c u \<and> quiet c t u"
proof -
  have hours_up: "getUTCHours t \<le> getUTCHours u" if "t \<le> u" "u div msPerDay = t div msPerDay" for u
    using time_indices(1) [of t] time_indices(1) [of u] zdiv_mono1 [of t u 3600000] that by simp
  consider "getUTCMonth t + 1 \<notin> set (cs_months c)"
    | "getUTCMonth t + 1 \<in> set (cs_months c)" "\<not> dayMatches c t \<or> nextAllowed (cs_hours c) (getUTCHours t) = None"
    | h where "getUTCMonth t + 1 \<in> set (cs_months c)" "dayMatches c t" "nextAllowed (cs_hours c) (getUTCHours t) = Some h"
    by (cases "nextAllowed (cs_hours c) (getUTCHours t)") auto
  then show ?thesis
  proof cases
    case 1
    then show ?thesis using month_jump_quiet [OF t(1) c 1] by (simp add: search_step_def moves_on_def)
  next
    case 2
    have "\<not> fires c u" if "t \<le> u" "u div msPerDay = t div msPerDay" for u
      using 2(2) same_day [OF that(2), of c] hours_up [OF that] nextAllowed_None [of "cs_hours c" "getUTCHours t" "getUTCHours u"]
      by (auto simp: fires_def dayMatches_due)
    from day_jump_quiet [OF t(1) this] show ?thesis using 2 by (auto simp: search_step_def moves_on_def split: option.split)
  next
    case 3
    obtain u where u: "(if h \<noteq> getUTCHours t then hour_jump t h else Some t) = Some u" "t \<le> u" "u mod 60000 = 0" "quiet c t u"
      "u div msPerDay = t div msPerDay" "getUTCHours u = h" using hour_reached [OF t c 3(3)] .
    have h: "h \<in> set (cs_hours c)"
      using 3(3) by (auto simp: nextAllowed_def find_Some_iff)
    have fit: "getUTCMonth u + 1 \<in> set (cs_months c)" "dayMatches c u" "getUTCHours u \<in> set (cs_hours c)"
      using 3(1,2) same_day [OF u(5), of c] u(6) h by simp_all
    have "t div msPerDay < 100000000" using t(2) div_bounds [of msPerDay t] by simp
    then have u0: "0 \<le> u" "u < 8640000000000000" using t(1) u(2,5) div_bounds [of msPerDay u] by simp_all
    show ?thesis
    proof (cases "nextAllowed (cs_minutes c) (getUTCMinutes u)")
      case None
      then show ?thesis using 3 u(1) moves_onI [OF u(4,2) hour_over [OF u0(1) u(3) None]] by (simp add: search_step_def)
    next
      case (Some v)
      obtain w where "(if v \<noteq> getUTCMinutes u then date_utc (getUTCFullYear u) (getUTCMonth u) (getUTCDate u) (getUTCHours u) v else Some u) = Some w"
        "u \<le> w" "fires c w" "quiet c u w" using minute_reached [OF u0 u(3) c fit Some] .
      then show ?thesis using 3 u(1,2) Some quiet_trans [OF u(4)] by (simp add: search_step_def)
    qed
  qed
qed

text \<open>The search ends: every round moves on, and past \<open>bail\<close> it gives up.\<close>

lemma search_sound:
  assumes "0 \<le> t" "t mod 60000 = 0" "valid_cron c" "bail < 8640000000000000"
  shows "\<exists>r. search c bail (time_clip t) = Some r \<and> (case r of
      Inr x \<Rightarrow> \<exists>u. x = Some u \<and> t \<le> u \<and> fires c u \<and> quiet c t u
    | Inl e \<Rightarrow> \<forall>u. t \<le> u \<and> of_int u \<le> bail \<longrightarrow> \<not> fires c u)"
  using assms
proof (induction "nat (\<lfloor>bail\<rfloor> + 1 - t)" arbitrary: t rule: less_induct)
  case less
  show ?case
  proof (cases "time_clip t = None \<or> bail < of_int t")
    case True
    then have "search c bail (time_clip t) = Some (Inl (CronError ''cron expression has no occurrence within five years''))"
      by (subst search.simps) (auto split: option.split simp: time_clip_def)
    moreover have "\<not> fires c u" if "t \<le> u" "of_int u \<le> bail" for u
    proof -
      have "of_int t \<le> bail" using that by (meson of_int_le_iff order_trans)
      then have "\<not> time_clip u \<noteq> None" using True that less.prems(1) by (auto simp: time_clip_def split: if_splits)
      then show ?thesis by (simp add: fires_def)
    qed
    ultimately show ?thesis by simp
  next
    case False
    then have t: "time_clip t = Some t" "of_int t \<le> bail" by (auto simp: time_clip_def split: if_splits)
    then have "of_int t < (of_int 8640000000000000 :: rat)" using less.prems(4) by simp
    then have max: "t < 8640000000000000" by (simp only: of_int_less_iff)
    note step = search_step_sound [OF less.prems(1) max less.prems(2,3)]
    have unfold: "search c bail (time_clip t) = (case search_step c t of Inl t \<Rightarrow> search c bail t | Inr r \<Rightarrow> Some (Inr r))"
      using t by (subst search.simps) simp
    show ?thesis
    proof (cases "search_step c t")
      case (Inl r)
      with step obtain J where J: "r = time_clip J" "t < J" "J mod 60000 = 0" "quiet c t J" by (auto simp: moves_on_def)
      have "t \<le> \<lfloor>bail\<rfloor>" using t(2) by (simp add: le_floor_iff)
      then have "nat (\<lfloor>bail\<rfloor> + 1 - J) < nat (\<lfloor>bail\<rfloor> + 1 - t)" using J(2) by simp
      from less.hyps [OF this] obtain r' where r': "search c bail (time_clip J) = Some r'" "case r' of
          Inr x \<Rightarrow> \<exists>u. x = Some u \<and> J \<le> u \<and> fires c u \<and> quiet c J u
        | Inl e \<Rightarrow> \<forall>u. J \<le> u \<and> of_int u \<le> bail \<longrightarrow> \<not> fires c u"
        using less.prems J by auto
      show ?thesis
      proof (intro exI conjI)
        show "search c bail (time_clip t) = Some r'" using unfold Inl J(1) r'(1) by simp
        show "case r' of Inr x \<Rightarrow> \<exists>u. x = Some u \<and> t \<le> u \<and> fires c u \<and> quiet c t u
          | Inl e \<Rightarrow> \<forall>u. t \<le> u \<and> of_int u \<le> bail \<longrightarrow> \<not> fires c u"
        proof (cases r')
          case (Inl e)
          then show ?thesis using r'(2) J(4) by (simp add: quiet_def) (meson not_le)
        next
          case (Inr x)
          then show ?thesis using r'(2) J(2) quiet_trans [OF J(4)] by (auto intro: order.trans [OF less_imp_le])
        qed
      qed
    next
      case (Inr r)
      then show ?thesis using unfold step by simp
    qed
  qed
qed


subsection \<open>Parsed schedules\<close>

lemma parse_part_values:
  assumes "parse_part fr part = Inr (vals, r)" "fr_min fr \<le> fr_max fr"
  shows "vals \<noteq> [] \<and> list_all (\<lambda>v. fr_min fr \<le> v \<and> v \<le> fr_max fr) vals"
proof -
  have nonempty: "lo \<in> set (stepped lo hi step)" if "lo \<le> hi" for lo hi step using that by (simp add: stepped_def)
  have inside: "list_all (\<lambda>v. fr_min fr \<le> v \<and> v \<le> fr_max fr) (stepped lo hi step)" if "fr_min fr \<le> lo" "hi \<le> fr_max fr" for lo hi step
    using that by (auto simp: stepped_def list_all_iff)
  show ?thesis
    using assms nonempty [of "fr_min fr" "fr_max fr"]
    by (auto simp: parse_part_def part_bounds_def result_simps inside split: if_splits option.splits prod.splits dest: nonempty)
      (metis empty_iff empty_set linorder_not_less nonempty order_refl)+
qed

lemma parseField_allowed:
  assumes "parseField text fr = Inr (vals, r)" "fr_min fr \<le> fr_max fr"
  shows "allowed vals (fr_min fr) (fr_max fr)"
proof -
  obtain ps where ps: "mapR (parse_part fr) (split_char comma_char text) = Inr ps" "vals = sort (remdups (concat (map fst ps)))"
    using assms(1) by (auto simp: parseField_def result_simps)
  have each: "fst p \<noteq> [] \<and> list_all (\<lambda>v. fr_min fr \<le> v \<and> v \<le> fr_max fr) (fst p)" if p: "p \<in> set ps" for p
  proof -
    obtain i where "i < length ps" "p = ps ! i" using p by (auto simp: in_set_conv_nth)
    with ps(1) have "parse_part fr (split_char comma_char text ! i) = Inr p" by (auto simp: mapR_nth)
    then show ?thesis using parse_part_values [of fr _ "fst p" "snd p"] assms(2) by simp
  qed
  have "ps \<noteq> []" using ps(1) split_char_nonempty [of comma_char "text"] by (auto simp: mapR_nth)
  then have "hd ps \<in> set ps" by simp
  with each [OF this] have "concat (map fst ps) \<noteq> []" by (auto simp: prod_eq_iff intro!: bexI [of _ "hd ps"])
  then have "remdups (concat (map fst ps)) \<noteq> []" by simp
  then have "vals \<noteq> []" by (metis ps(2) length_0_conv length_sort)
  then show ?thesis using each by (auto simp: allowed_def ps(2) list_all_iff)
qed

lemma sundays_folded: "allowed vals 0 7 \<Longrightarrow> allowed (sort (remdups (map (\<lambda>v. if v = 7 then 0 else v) vals))) 0 6"
proof -
  assume a: "allowed vals 0 7"
  define ws where "ws = sort (remdups (map (\<lambda>v. if v = 7 then 0 else v) vals))"
  have "set ws = (\<lambda>v. if v = 7 then 0 else v) ` set vals" "sorted ws" "distinct ws" by (simp_all add: ws_def)
  moreover have "ws \<noteq> []"
  proof -
    have "set ws \<noteq> {}" using a unfolding calculation(1) image_is_empty by (simp add: allowed_def)
    then show ?thesis by simp
  qed
  ultimately show ?thesis using a unfolding ws_def [symmetric] by (auto simp: allowed_def list_all_iff)
qed

lemma parse_fields_valid: "parse_fields fs = Inr (Cron c) \<Longrightarrow> valid_cron c"
  by (auto simp: parse_fields_def result_simps valid_cron_def FIELDS_def sundays_folded dest!: parseField_allowed split: if_splits)

lemma parseCron_valid:
  assumes "parseCron text = Inr (Cron c)"
  shows "valid_cron c"
  using assms parse_fields_valid
  by (auto simp: parseCron_def parse_interval_def Let_def split: if_splits option.splits prod.splits)


lemma parseCron_positive: "parseCron text = Inr (Every i) \<Longrightarrow> 0 < i"
  by (auto simp: parseCron_def parse_fields_def parse_interval_def Let_def result_simps split: if_splits option.splits prod.splits)

text \<open>The times a schedule asks for: a cron schedule the times it fires, an interval the grid from its anchor.\<close>

definition occurs :: "ScheduleSpec \<Rightarrow> rat \<Rightarrow> rat \<Rightarrow> bool" where
  "occurs spec anchorMs t \<longleftrightarrow> (case spec of
     Cron c \<Rightarrow> \<exists>u. t = of_int u \<and> fires c u
   | Every i \<Rightarrow> \<exists>k :: int. t = anchorMs + of_int k * i)"

lemma next_minute:
  fixes after :: rat
  defines "t \<equiv> \<lfloor>after / 60000\<rfloor> * 60000 + 60000"
  shows "after < of_int t" "t mod 60000 = 0" "after < of_int u \<Longrightarrow> u mod 60000 = 0 \<Longrightarrow> t \<le> u"
proof -
  have f: "after / 60000 < of_int (\<lfloor>after / 60000\<rfloor> + 1)" by linarith
  then show "after < of_int t" by (simp add: t_def field_simps)
  show "t mod 60000 = 0" by (simp add: t_def mod_eq_0_iff_dvd)
  assume u: "after < of_int u" "u mod 60000 = 0"
  then obtain k where k: "u = 60000 * k" by (auto simp: mod_eq_0_iff_dvd)
  with u(1) have "after / 60000 < of_int k" by (simp add: field_simps)
  then have "\<lfloor>after / 60000\<rfloor> < k" by (simp add: floor_less_iff)
  then show "t \<le> u" by (simp add: t_def k)
qed

lemma interval_next:
  fixes i anchor after v :: rat
  assumes "0 < i"
  defines "u \<equiv> anchor + (of_int \<lfloor>(after - anchor) / i\<rfloor> + 1) * i"
  shows "after < u" "occurs (Every i) anchor u" "after < v \<Longrightarrow> occurs (Every i) anchor v \<Longrightarrow> u \<le> v"
proof -
  have "(after - anchor) / i < of_int \<lfloor>(after - anchor) / i\<rfloor> + 1" by linarith
  then show "after < u" using assms(1) by (simp add: u_def field_simps)
  show "occurs (Every i) anchor u"
    by (auto simp: occurs_def u_def intro!: exI [of _ "\<lfloor>(after - anchor) / i\<rfloor> + 1"])
  assume "after < v" "occurs (Every i) anchor v"
  then obtain k :: int where k: "v = anchor + of_int k * i" by (auto simp: occurs_def)
  with \<open>after < v\<close> have "(after - anchor) / i < of_int k" using assms(1) by (simp add: field_simps)
  then have "\<lfloor>(after - anchor) / i\<rfloor> + 1 \<le> k" by (simp add: floor_less_iff add1_zle_eq)
  then have "(of_int (\<lfloor>(after - anchor) / i\<rfloor> + 1) :: rat) \<le> of_int k" by (simp only: of_int_le_iff)
  then have "of_int (\<lfloor>(after - anchor) / i\<rfloor> + 1) * i \<le> of_int k * i" using assms(1) by (intro mult_right_mono) simp_all
  then show "u \<le> v" by (simp add: u_def k)
qed

lemma cron_next:
  assumes "valid_cron c" "0 \<le> after" "after + of_int FIVE_YEARS_MS < 8640000000000000"
  shows "\<exists>r. nextOccurrence (Cron c) after anchor = Some r \<and> (case r of
      Inr x \<Rightarrow> \<exists>u. x = Some u \<and> after < u \<and> occurs (Cron c) anchor u \<and> (\<forall>v. after < v \<and> v < u \<longrightarrow> \<not> occurs (Cron c) anchor v)
    | Inl e \<Rightarrow> \<forall>v. after < v \<and> v \<le> after + of_int FIVE_YEARS_MS \<longrightarrow> \<not> occurs (Cron c) anchor v)"
proof -
  define t where "t = \<lfloor>after / 60000\<rfloor> * 60000 + 60000"
  note t = next_minute [of after, folded t_def]
  have "0 \<le> \<lfloor>after / 60000\<rfloor>" using assms(2) by simp
  then have "0 \<le> t" by (simp add: t_def)
  from search_sound [OF this t(2) assms(1,3)] obtain r where r: "search c (after + of_int FIVE_YEARS_MS) (time_clip t) = Some r"
    "case r of Inr x \<Rightarrow> \<exists>u. x = Some u \<and> t \<le> u \<and> fires c u \<and> quiet c t u
      | Inl e \<Rightarrow> \<forall>u. t \<le> u \<and> of_int u \<le> after + of_int FIVE_YEARS_MS \<longrightarrow> \<not> fires c u" by blast
  have late: "t \<le> u" if "fires c u" "after < of_int u" for u using that t(3) [of u] by (simp add: fires_def)
  have nx: "nextOccurrence (Cron c) after anchor = Some (map_sum id (map_option of_int) r)"
    using r(1) by (simp add: nextOccurrence_def t_def)
  show ?thesis
  proof (cases r)
    case (Inl e)
    then show ?thesis using nx r(2) late by (auto simp: occurs_def)
  next
    case (Inr x)
    with r(2) obtain u where u: "x = Some u" "t \<le> u" "fires c u" "quiet c t u" by auto
    have "after < of_int u" using t(1) u(2) by (meson less_le_trans of_int_le_iff)
    moreover have "\<not> fires c w" if "after < of_int w" "of_int w < (of_int u :: rat)" for w
      using late [of w] u(4) that by (auto simp: quiet_def)
    ultimately show ?thesis using nx Inr u by (auto simp: occurs_def)
  qed
qed



subsection \<open>Printing an expression\<close>

text \<open>The text of a schedule: each field lists its values, or is a star when the days are not restricted.\<close>

definition number_text :: "int \<Rightarrow> text_string" where
  "number_text v = (if v < 10 then [of_int (48 + v)] else [of_int (48 + v div 10), of_int (48 + v mod 10)])"

definition field_text :: "int list \<Rightarrow> text_string" where
  "field_text vals = join_text [comma_char] (map number_text vals)"

definition cron_text :: "CronSpec \<Rightarrow> text_string" where
  "cron_text c = join_text [32] [field_text (cs_minutes c), field_text (cs_hours c),
     if cs_domRestricted c then field_text (cs_daysOfMonth c) else star_text, field_text (cs_months c),
     if cs_dowRestricted c then field_text (cs_daysOfWeek c) else star_text]"

lemma number_text_digits:
  assumes "0 \<le> v" "v < 100"
  shows "all_digits (number_text v)" "number_of_digits (number_text v) = v"
    "\<And>c. c \<in> set (number_text v) \<Longrightarrow> is_digit c"
proof -
  have unit: "unat (of_int (48 + d) :: code_unit) = nat (48 + d)" if "0 \<le> d" "d < 10" for d
  proof -
    have "(of_int (48 + d) :: code_unit) = of_nat (nat (48 + d))" using that by simp
    then show ?thesis using that by (simp only: unat_of_nat) (simp add: take_bit_nat_eq_self)
  qed
  have digit: "digit_value (of_int (48 + d)) = Some (nat d)" if "0 \<le> d" "d < 10" for d
    using that unit [OF that] by (simp add: digit_value_def nat_add_distrib)
  have d: "0 \<le> v div 10" "v div 10 < 10" "0 \<le> v mod 10" "v mod 10 < 10" using assms by auto
  show "all_digits (number_text v)" using assms digit d by (auto simp: all_digits_def number_text_def)
  have "int (10 * nat (v div 10) + nat (v mod 10)) = int (nat v)" using assms(1) d by simp
  then have "10 * nat (v div 10) + nat (v mod 10) = nat v" by (simp only: of_nat_eq_iff)
  then have "digits_value (number_text v) = nat v" using assms digit d by (simp add: digits_value_def number_text_def)
  then show "number_of_digits (number_text v) = v" using assms by (simp add: number_of_digits_def number_of_small)
  show "is_digit c" if "c \<in> set (number_text v)" for c
    using that assms digit d by (auto simp: is_digit_def number_text_def split: if_splits)
qed


lemma not_a_digit [simp]: "\<not> is_digit 42" "\<not> is_digit 44" "\<not> is_digit 45" "\<not> is_digit 47" "\<not> is_digit 64" "\<not> is_digit 101" "\<not> is_digit 32"
  by (simp_all add: is_digit_def digit_value_def)

lemma parse_number_part:
  assumes "0 \<le> fr_min fr" "fr_max fr < 100" "fr_min fr \<le> v" "v \<le> fr_max fr"
  shows "parse_part fr (number_text v) = Inr ([v], True)"
proof -
  have v: "0 \<le> v" "v < 100" using assms by simp_all
  note d = number_text_digits [OF v]
  have other: "k \<notin> set (number_text v)" if "\<not> is_digit k" for k using d(3) that by (rule digits_differ)
  have "split_at slash_char (number_text v) = None" "split_at dash_char (number_text v) = None"
    by (simp_all add: split_at_absent other)
  moreover have "number_text v \<noteq> star_text" using other [of 42] by auto
  moreover have "number_text v \<noteq> []" using d(1) by (simp add: all_digits_def)
  moreover have "stepped v v 1 = [v]" by (simp add: stepped_def)
  ultimately show ?thesis using d assms by (simp add: parse_part_def part_step_def part_bounds_def)
qed

lemma parse_field_text:
  assumes "allowed vals (fr_min fr) (fr_max fr)" "0 \<le> fr_min fr" "fr_max fr < 100"
  shows "parseField (field_text vals) fr = Inr (vals, True)"
proof -
  have vals: "\<And>v. v \<in> set vals \<Longrightarrow> fr_min fr \<le> v \<and> v \<le> fr_max fr" "vals \<noteq> []" "sorted vals" "distinct vals"
    using assms(1) by (auto simp: allowed_def list_all_iff)
  have "comma_char \<notin> set (number_text v)" if "v \<in> set vals" for v
    using number_text_digits(3) [of v] vals(1) [OF that] assms(2,3) not_a_digit(2) by fastforce
  then have "split_char comma_char (field_text vals) = map number_text vals"
    using vals(2) by (simp add: field_text_def) (rule split_char_join, auto)
  moreover have "mapR (parse_part fr) (map number_text vals) = Inr (map (\<lambda>v. ([v], True)) vals)"
    using parse_number_part [OF assms(2,3)] vals(1) by (induction vals) auto
  moreover have "concat (map fst (map (\<lambda>v. ([v], True)) vals)) = vals" "list_ex snd (map (\<lambda>v. ([v], True)) vals)"
    using vals(2) by (induction vals) (auto simp: comp_def)
  ultimately show ?thesis using vals by (simp add: parseField_def distinct_remdups_id sorted_sort_id)
qed

lemma field_text_word:
  assumes "allowed vals lo hi" "0 \<le> lo" "hi < 100"
  shows "field_text vals \<noteq> []" "is_digit (hd (field_text vals))" "is_digit (last (field_text vals))" "c \<in> set (field_text vals) \<Longrightarrow> \<not> js_space c"
proof -
  have vals: "\<And>v. v \<in> set vals \<Longrightarrow> 0 \<le> v \<and> v < 100" "vals \<noteq> []"
    using assms by (auto simp: allowed_def list_all_iff)
  have number: "number_text v \<noteq> [] \<and> (\<forall>c \<in> set (number_text v). is_digit c)" if v: "v \<in> set vals" for v
    using number_text_digits(1,3) [of v] vals(1) [OF v] by (auto simp: all_digits_def)
  then have nonempty: "\<And>s. s \<in> set (map number_text vals) \<Longrightarrow> s \<noteq> []" by auto
  have join: "field_text vals \<noteq> [] \<and> hd (field_text vals) = hd (number_text (hd vals)) \<and> last (field_text vals) = last (number_text (last vals))"
    using join_ends [where ss = "map number_text vals" and sep = "[comma_char]", OF _ nonempty] vals(2) by (simp add: field_text_def hd_map last_map)
  then show "field_text vals \<noteq> []" by simp
  show "is_digit (hd (field_text vals))" "is_digit (last (field_text vals))"
    using join number [of "hd vals"] number [of "last vals"] vals(2) by simp_all
  assume "c \<in> set (field_text vals)"
  then have "c = comma_char \<or> is_digit c" using join_text_chars number unfolding field_text_def by fastforce
  then show "\<not> js_space c" using digit_not_space by (auto simp: js_space_def)
qed

lemma parse_star_field:
  "parseField star_text \<lparr>fr_min = 1, fr_max = 31\<rparr> = Inr ([1..31], False)"
  "parseField star_text \<lparr>fr_min = 0, fr_max = 7\<rparr> = Inr ([0..7], False)"
proof -
  have s: "stepped lo hi 1 = [lo..hi]" for lo hi by (simp add: stepped_def)
  have r: "sort (remdups [lo..hi]) = [lo..hi]" for lo hi :: int by (simp add: distinct_remdups_id sorted_sort_id)
  show "parseField star_text \<lparr>fr_min = 1, fr_max = 31\<rparr> = Inr ([1..31], False)"
    "parseField star_text \<lparr>fr_min = 0, fr_max = 7\<rparr> = Inr ([0..7], False)"
    by (simp_all add: parseField_def parse_part_def part_step_def s r)
qed

lemma week_folded: "sort (remdups (map (\<lambda>v. if v = 7 then 0 else v) [0..7])) = [0..6 :: int]"
  by (simp add: upto_rec1)

lemma weekdays_kept:
  assumes "allowed vals 0 6"
  shows "sort (remdups (map (\<lambda>v. if v = 7 then 0 else v) vals)) = vals"
proof -
  have "map (\<lambda>v. if v = 7 then 0 else v) vals = vals" using assms by (intro map_idI) (auto simp: allowed_def list_all_iff)
  then show ?thesis using assms by (simp add: allowed_def distinct_remdups_id sorted_sort_id)
qed

definition plain_word :: "text_string \<Rightarrow> bool" where
  "plain_word s \<longleftrightarrow> s \<noteq> [] \<and> \<not> js_space (hd s) \<and> \<not> js_space (last s) \<and> list_all (\<lambda>c. \<not> js_space c) s"

lemma plain_star: "plain_word star_text"
  by (simp add: plain_word_def js_space_def)

lemma plain_field: "allowed vals lo hi \<Longrightarrow> 0 \<le> lo \<Longrightarrow> hi < 100 \<Longrightarrow> plain_word (field_text vals)"
  using field_text_word [of vals lo hi] digit_not_space by (simp add: plain_word_def list_all_iff)

lemma plain_words: "list_all plain_word ss \<Longrightarrow> s \<in> set ss \<Longrightarrow> s \<noteq> [] \<and> (c \<in> set s \<longrightarrow> \<not> js_space c)"
  by (auto simp: list_all_iff plain_word_def)

lemma cron_text_parsed:
  assumes "valid_cron c" "\<not> cs_domRestricted c \<longrightarrow> cs_daysOfMonth c = [1..31]" "\<not> cs_dowRestricted c \<longrightarrow> cs_daysOfWeek c = [0..6]"
  shows "parseCron (cron_text c) = Inr (Cron c)"
proof -
  let ?dom = "if cs_domRestricted c then field_text (cs_daysOfMonth c) else star_text"
  let ?dow = "if cs_dowRestricted c then field_text (cs_daysOfWeek c) else star_text"
  define fs where "fs = [field_text (cs_minutes c), field_text (cs_hours c), ?dom, field_text (cs_months c), ?dow]"
  have v: "allowed (cs_minutes c) 0 59" "allowed (cs_hours c) 0 23" "allowed (cs_daysOfMonth c) 1 31" "allowed (cs_months c) 1 12" "allowed (cs_daysOfWeek c) 0 6"
    using assms(1) by (simp_all add: valid_cron_def)
  have words: "list_all plain_word fs"
    using plain_field [OF v(1)] plain_field [OF v(2)] plain_field [OF v(3)] plain_field [OF v(4)] plain_field [OF v(5)]
    by (simp add: fs_def plain_star)
  have ends: "cron_text c \<noteq> []" "hd (cron_text c) = hd (hd fs)" "last (cron_text c) = last (last fs)"
    using join_ends [of fs "[32]"] plain_words [OF words] by (auto simp: cron_text_def fs_def)
  have split: "split_space (cron_text c) = fs"
    unfolding cron_text_def fs_def [symmetric] by (rule split_space_join) (use plain_words [OF words] in \<open>auto simp: fs_def\<close>)
  have trim: "trim (cron_text c) = cron_text c"
    using ends words by (intro trim_same) (simp_all add: fs_def plain_word_def)
  have digit: "is_digit (hd (cron_text c))" using ends(2) field_text_word(2) [OF v(1)] by (simp add: fs_def)
  have "take 6 (cron_text c) \<noteq> ascii_text ''every:''" "hd (cron_text c) \<noteq> 64"
    using digit ends(1) by (cases "cron_text c"; auto)+
  moreover have "parse_fields fs = Inr (Cron c)"
  proof -
    have "allowed (cs_daysOfWeek c) 0 7" using v(5) by (auto simp: allowed_def list_all_iff)
    then have "parseField ?dow \<lparr>fr_min = 0, fr_max = 7\<rparr> = Inr (if cs_dowRestricted c then cs_daysOfWeek c else [0..7], cs_dowRestricted c)"
      by (simp add: parse_field_text parse_star_field)
    moreover have "parseField ?dom \<lparr>fr_min = 1, fr_max = 31\<rparr> = Inr (cs_daysOfMonth c, cs_domRestricted c)"
      using v(3) assms(2) by (simp add: parse_field_text parse_star_field)
    ultimately show ?thesis
      using v(1,2,4) weekdays_kept [OF v(5)] assms(3) week_folded
      by (simp add: parse_fields_def fs_def FIELDS_def parse_field_text)
  qed
  ultimately show ?thesis using ends(1) by (simp add: parseCron_def trim split)
qed

text \<open>C12: expressions. A cron schedule printed field by field, as lists of its values with a star for unrestricted
  days, is parsed into the same schedule.\<close>

theorem cron_text_roundtrip:
  assumes "valid_cron c" "\<not> cs_domRestricted c \<longrightarrow> cs_daysOfMonth c = [1..31]" "\<not> cs_dowRestricted c \<longrightarrow> cs_daysOfWeek c = [0..6]"
  shows "parseCron (cron_text c) = Inr (Cron c)"
  by (rule cron_text_parsed [OF assms])

text \<open>Noon of the first day of each month and of every Monday.\<close>

definition sample_cron :: CronSpec where
  "sample_cron = \<lparr>cs_minutes = [0], cs_hours = [12], cs_daysOfMonth = [1], cs_months = [1..12], cs_daysOfWeek = [1],
     cs_domRestricted = True, cs_dowRestricted = True\<rparr>"

lemma sample_cron_parsed: "parseCron (cron_text sample_cron) = Inr (Cron sample_cron)"
  by (rule cron_text_parsed) (simp_all add: valid_cron_def allowed_def sample_cron_def list_all_iff)


theorem cron_text_roundtrip_witness: "parseCron (cron_text sample_cron) = Inr (Cron sample_cron)"
  by (rule cron_text_roundtrip) (simp_all add: valid_cron_def allowed_def sample_cron_def list_all_iff)

text \<open>A step after a single value is accepted, and has no effect.\<close>

lemma step_on_single_value:
  assumes "0 \<le> fr_min fr" "fr_max fr < 100" "fr_min fr \<le> v" "v \<le> fr_max fr" "0 < n" "n < 100"
  shows "parse_part fr (number_text v @ slash_char # number_text n) = Inr ([v], True)"
proof -
  have v: "0 \<le> v" "v < 100" using assms by simp_all
  note d = number_text_digits [OF v] and k = number_text_digits [of n]
  have other: "k \<notin> set (number_text v)" if "\<not> is_digit k" for k using d(3) that by (rule digits_differ)
  have "split_at slash_char (number_text v @ slash_char # number_text n) = Some (number_text v, number_text n)"
    by (rule split_at_first) (simp add: other)
  moreover have "split_at dash_char (number_text v) = None" by (simp add: split_at_absent other)
  moreover have "number_text v \<noteq> star_text" using other [of 42] by auto
  moreover have "stepped v v n = [v]" by (simp add: stepped_def)
  ultimately show ?thesis using d k assms by (simp add: parse_part_def part_step_def part_bounds_def)
qed

end
