(* ===== verification/Js_Number.thy ===== *)
theory Js_Number
  imports Js_Text
begin

text \<open>
  JavaScript numbers as their IEEE-754 bit patterns: which are integers, the numbers of small integers, and the
  conversions to and from single precision of \<open>DataView.setFloat32\<close> and \<open>getFloat32\<close>.

  A pattern is sign, biased exponent and fraction. The conversion to single precision rounds to the nearest value,
  ties to even; its NaN has a payload of its own.
\<close>

type_synonym number = u64

definition f64_pack :: "bool \<Rightarrow> nat \<Rightarrow> nat \<Rightarrow> number" where
  "f64_pack s e f = of_nat ((if s then 2 ^ 63 else 0) + e * 2 ^ 52 + f)"

definition f64_sign :: "number \<Rightarrow> bool" where "f64_sign b \<longleftrightarrow> 2 ^ 63 \<le> unat b"
definition f64_exponent :: "number \<Rightarrow> nat" where "f64_exponent b = unat b div 2 ^ 52 mod 2 ^ 11"
definition f64_fraction :: "number \<Rightarrow> nat" where "f64_fraction b = unat b mod 2 ^ 52"

definition f32_pack :: "bool \<Rightarrow> nat \<Rightarrow> nat \<Rightarrow> u32" where
  "f32_pack s e f = of_nat ((if s then 2 ^ 31 else 0) + e * 2 ^ 23 + f)"

definition f32_sign :: "u32 \<Rightarrow> bool" where "f32_sign b \<longleftrightarrow> 2 ^ 31 \<le> unat b"
definition f32_exponent :: "u32 \<Rightarrow> nat" where "f32_exponent b = unat b div 2 ^ 23 mod 2 ^ 8"
definition f32_fraction :: "u32 \<Rightarrow> nat" where "f32_fraction b = unat b mod 2 ^ 23"

text \<open>A finite number is \<open>f64_mantissa b\<close> times two to the power \<open>f64_scale b - 1075\<close>.\<close>

definition f64_mantissa :: "number \<Rightarrow> nat" where
  "f64_mantissa b = (if f64_exponent b = 0 then f64_fraction b else 2 ^ 52 + f64_fraction b)"

definition f64_scale :: "number \<Rightarrow> nat" where "f64_scale b = max 1 (f64_exponent b)"

text \<open>\<open>Number.isInteger(b)\<close> with the integer it is; both zeros are 0.\<close>

definition integer_of :: "number \<Rightarrow> int option" where
  "integer_of b =
     (let m = f64_mantissa b; x = f64_scale b;
        n = (if 1075 \<le> x then Some (m * 2 ^ (x - 1075))
             else if 2 ^ (1075 - x) dvd m then Some (m div 2 ^ (1075 - x)) else None) in
      if f64_exponent b = 2047 then None else map_option (\<lambda>n. if f64_sign b then - int n else int n) n)"

text \<open>The number of an integer below \<open>2 ^ 53\<close>.\<close>

definition number_of_int :: "int \<Rightarrow> number" where
  "number_of_int n = (if n = 0 then 0 else
     let m = nat \<bar>n\<bar>; k = floorlog 2 m - 1 in f64_pack (n < 0) (k + 1023) (m * 2 ^ (52 - k) - 2 ^ 52))"

definition is_zero :: "number \<Rightarrow> bool" where
  "is_zero b \<longleftrightarrow> f64_exponent b = 0 \<and> f64_fraction b = 0"

definition float_of_number :: "number \<Rightarrow> u32" where
  "float_of_number b =
     (if f64_exponent b = 2047 then f32_pack (f64_sign b) 255 (if f64_fraction b = 0 then 0 else 2 ^ 22)
      else let x = max 897 (f64_scale b); n = round_half_even (f64_mantissa b) (x - f64_scale b + 29);
        bits = n + (x - 897) * 2 ^ 23 in
        f32_pack (f64_sign b) 0 (min bits (255 * 2 ^ 23)))"

definition number_of_float :: "u32 \<Rightarrow> number" where
  "number_of_float b =
     (let s = f32_sign b; e = f32_exponent b; f = f32_fraction b; k = floorlog 2 f - 1 in
      if e = 255 then f64_pack s 2047 (f * 2 ^ 29)
      else if e \<noteq> 0 then f64_pack s (e + 896) (f * 2 ^ 29)
      else if f = 0 then f64_pack s 0 0
      else f64_pack s (k + 874) (f * 2 ^ (52 - k) - 2 ^ 52))"

subsection \<open>Round trips\<close>

lemma f64_parts [simp]:
  assumes "e < 2048" "f < 2 ^ 52"
  shows "f64_sign (f64_pack s e f) = s" "f64_exponent (f64_pack s e f) = e" "f64_fraction (f64_pack s e f) = f"
proof -
  define N :: nat where "N = (if s then 2 ^ 63 else 0) + e * 2 ^ 52 + f"
  have N: "N = ((if s then 2048 else 0) + e) * 2 ^ 52 + f" by (simp add: N_def)
  have "N < 2 ^ 64" using assms by (simp add: N_def)
  then have u: "unat (f64_pack s e f) = N" by (simp add: f64_pack_def N_def unat_of_nat take_bit_eq_mod del: of_nat_add of_nat_mult)
  have d: "N div 2 ^ 52 = (if s then 2048 else 0) + e" and m: "N mod 2 ^ 52 = f"
    using assms unfolding N by (simp_all only: div_mult_self3 mod_mult_self3 div_less mod_less add_0_right power_eq_0_iff zero_neq_numeral) simp_all
  show "f64_sign (f64_pack s e f) = s" using assms by (auto simp: f64_sign_def u N_def)
  show "f64_exponent (f64_pack s e f) = e" unfolding f64_exponent_def u d using assms by simp
  show "f64_fraction (f64_pack s e f) = f" by (simp only: f64_fraction_def u m)
qed

lemma f64_scale_pack [simp]:
  assumes "e < 2048" "f < 2 ^ 52" "0 < e"
  shows "f64_mantissa (f64_pack s e f) = 2 ^ 52 + f" "f64_scale (f64_pack s e f) = e"
  using assms by (simp_all add: f64_mantissa_def f64_scale_def)

text \<open>Shifting a natural number to 53 significant bits.\<close>

lemma normalised:
  assumes "0 < m" "m < 2 ^ 53"
  defines "k \<equiv> floorlog 2 m - 1"
  shows "k \<le> 52" "2 ^ 52 \<le> m * 2 ^ (52 - k)" "m * 2 ^ (52 - k) < 2 ^ 53" "m < 2 ^ (k + 1)"
proof -
  have l: "0 < floorlog 2 m" "floorlog 2 m \<le> 53" using assms floorlog_leI [of m 2 53] by (auto simp: floorlog_def)
  then have k: "k + 1 = floorlog 2 m" and "k \<le> 52" by (simp_all add: k_def)
  then have b: "2 ^ k \<le> m" "m < 2 ^ (k + 1)" using floorlog_bounds [of m 2] assms(1) by (simp_all add: k_def)
  show "k \<le> 52" by fact
  show "m < 2 ^ (k + 1)" by (rule b(2))
  have "(2::nat) ^ 52 = 2 ^ k * 2 ^ (52 - k)" "(2::nat) ^ 53 = 2 ^ (k + 1) * 2 ^ (52 - k)"
    using \<open>k \<le> 52\<close> by (simp_all flip: power_add)
  then show "2 ^ 52 \<le> m * 2 ^ (52 - k)" "m * 2 ^ (52 - k) < 2 ^ 53" using b by (simp_all only: mult_le_mono1 mult_less_mono1 zero_less_power zero_less_numeral)
qed

lemma integer_of_number: "\<bar>n\<bar> < 2 ^ 53 \<Longrightarrow> integer_of (number_of_int n) = Some n"
proof -
  assume n: "\<bar>n\<bar> < 2 ^ 53"
  define m where "m = nat \<bar>n\<bar>"
  show ?thesis
  proof (cases "n = 0")
    case True
    then show ?thesis by (simp add: number_of_int_def integer_of_def f64_mantissa_def f64_scale_def f64_exponent_def f64_fraction_def f64_sign_def)
  next
    case False
    define k where "k = floorlog 2 m - 1"
    have m: "0 < m" "m < 2 ^ 53" using False n by (simp_all add: m_def nat_less_iff)
    note norm = normalised [OF m, folded k_def]
    have "m * 2 ^ (52 - k) - 2 ^ 52 < 2 ^ 52" using norm(2,3) by simp
    moreover have "number_of_int n = f64_pack (n < 0) (k + 1023) (m * 2 ^ (52 - k) - 2 ^ 52)"
      using False by (simp add: number_of_int_def Let_def k_def m_def)
    moreover have "k = 52 \<or> 1075 - (k + 1023) = 52 - k \<and> \<not> 1075 \<le> k + 1023" using norm(1) by linarith
    moreover have "int m = \<bar>n\<bar>" by (simp add: m_def)
    ultimately show ?thesis using norm(1,2) by (auto simp: integer_of_def Let_def)
  qed
qed

lemma f32_fields:
  "unat b = (if f32_sign b then 2 ^ 31 else 0) + f32_exponent b * 2 ^ 23 + f32_fraction b"
  "f32_exponent b < 256" "f32_fraction b < 2 ^ 23"
proof -
  define q where "q = unat b div 2 ^ 23"
  have "unat b < 2 ^ 32" using unsigned_less [of b, where ?'a = nat] by simp
  then have q: "q < 512" unfolding q_def by (simp add: less_mult_imp_div_less)
  have "unat b = q * 2 ^ 23 + f32_fraction b" by (simp add: q_def f32_fraction_def)
  moreover have "f32_sign b \<longleftrightarrow> 256 \<le> q" by (auto simp: f32_sign_def q_def less_eq_div_iff_mult_less_eq)
  moreover have "f32_exponent b = q mod 256" by (simp add: f32_exponent_def q_def)
  moreover have "q = (if 256 \<le> q then 256 else 0) + q mod 256" using q mod_less [of "q - 256" 256] le_mod_geq [of 256 q] by auto
  ultimately show "unat b = (if f32_sign b then 2 ^ 31 else 0) + f32_exponent b * 2 ^ 23 + f32_fraction b"
    by (auto split: if_splits)
qed (simp_all add: f32_exponent_def f32_fraction_def)

lemma f32_repack: "b = f32_pack (f32_sign b) 0 (f32_exponent b * 2 ^ 23 + f32_fraction b)"
proof -
  have "b = of_nat (unat b)" by simp
  also have "\<dots> = f32_pack (f32_sign b) 0 (f32_exponent b * 2 ^ 23 + f32_fraction b)"
    by (subst f32_fields(1)) (simp add: f32_pack_def)
  finally show ?thesis .
qed

definition is_nan32 :: "u32 \<Rightarrow> bool" where
  "is_nan32 b \<longleftrightarrow> f32_exponent b = 255 \<and> f32_fraction b \<noteq> 0"

lemma float_of_number_float: "\<not> is_nan32 b \<Longrightarrow> float_of_number (number_of_float b) = b"
proof -
  assume nan: "\<not> is_nan32 b"
  define s e f where "s = f32_sign b" and "e = f32_exponent b" and "f = f32_fraction b"
  have b: "b = f32_pack s 0 (e * 2 ^ 23 + f)" and e: "e < 256" and f: "f < 2 ^ 23"
    unfolding s_def e_def f_def using f32_repack f32_fields by blast+
  have f29: "f * 2 ^ 29 < 2 ^ 52" using f by simp
  note defs = float_of_number_def number_of_float_def Let_def s_def [symmetric] e_def [symmetric] f_def [symmetric]
  consider "e = 255" "f = 0" | "e \<noteq> 255" "e \<noteq> 0" | "e = 0" "f = 0" | "e = 0" "0 < f" using nan unfolding is_nan32_def e_def f_def by blast
  then show ?thesis
  proof cases
    case 1
    then show ?thesis by (subst (2) b) (simp add: defs f32_pack_def)
  next
    case 2
    have "(2 ^ 52 + f * 2 ^ 29 :: nat) = (2 ^ 23 + f) * 2 ^ 29" by simp
    then have "round_half_even (2 ^ 52 + f * 2 ^ 29) 29 = 2 ^ 23 + f" by (simp only: round_exact)
    moreover obtain d where d: "e = Suc d" using 2 by (cases e) simp_all
    ultimately show ?thesis using 2 e f f29 by (subst (2) b) (simp add: defs max_def d ac_simps)
  next
    case 3
    then show ?thesis by (subst (2) b) (simp add: defs f64_mantissa_def f64_scale_def round_half_even_def)
  next
    case 4
    define k where "k = floorlog 2 f - 1"
    have "0 < f" "f < 2 ^ 53" using 4 f by simp_all
    note norm = normalised [OF this, folded k_def]
    have k: "k \<le> 22"
    proof -
      have "floorlog 2 f \<le> 23" using f floorlog_leI [of f 2 23] by simp
      then show ?thesis by (simp add: k_def)
    qed
    define g where "g = f * 2 ^ (52 - k) - 2 ^ 52"
    have g: "g < 2 ^ 52" "2 ^ 52 + g = f * 2 ^ (52 - k)" using norm(2,3) by (simp_all add: g_def)
    have "number_of_float b = f64_pack s (k + 874) g" using 4 by (simp add: number_of_float_def Let_def e_def f_def s_def k_def g_def)
    moreover have "897 - (k + 874) + 29 = 52 - k" "max 897 (k + 874) = 897" using k by simp_all
    ultimately have "float_of_number (number_of_float b) = f32_pack s 0 (min (round_half_even (2 ^ 52 + g) (52 - k)) (255 * 2 ^ 23))"
      using g(1) k by (simp add: float_of_number_def Let_def)
    then show ?thesis unfolding g(2) round_exact using 4 f by (subst (2) b) simp
  qed
qed

end
