(* ===== verification/Protobuf.thy ===== *)
theory Protobuf
  imports Thrift_Io Js_Number
begin

text \<open>
  \<open>format/protobuf.ts\<close>: schema-driven codecs for protocol buffer messages.

  A schema is a tree: the type of a field is a scalar, or the codec of another message that \<open>defineMessage\<close> had
  compiled before, which is its list of fields. The methods of \<open>Writer\<close> are the bytes they append to its
  growing buffer; \<open>Reader\<close> has the fields of a \<open>reader\<close>, with its end at the end of the bytes. A JavaScript number is its
  bit pattern. An object has its own properties only: a field whose name every object inherits is outside the model.
\<close>

datatype ScalarType = Int32 | Uint32 | Sint32 | Fixed32 | Sfixed32 | Float | Double | Enum
  | Int64 | Uint64 | Sint64 | Fixed64 | Sfixed64 | Bool | String | Bytes

datatype FieldType = Scalar ScalarType | Message "RuntimeField list"
and RuntimeField = RuntimeField (rf_name: text_string) (rf_number: nat) (rf_type: FieldType) (rf_repeated: bool) (rf_packed: bool) (rf_optional: bool)

datatype pvalue = PUndefined | PNull | PBoolean bool | PNumber number | PBigInt int | PString text_string | PBytes "byte list"
  | PArray "pvalue list" | PObject "(text_string \<times> pvalue) list"

type_synonym properties = "(text_string \<times> pvalue) list"

definition pb_error :: "string \<Rightarrow> js_error + 'a" where
  "pb_error s = Inl (ProtobufError s)"

definition maxFieldNumber :: nat where "maxFieldNumber = 0x1fffffff"

subsection \<open>Writer\<close>

text \<open>The buffer of a \<open>Writer\<close>, which starts at 64 bytes and doubles until the next bytes fit; \<open>None\<close> is a loop that does not end.\<close>

record pb_writer =
  pw_buffer :: "byte list"
  pw_length :: nat

definition new_pb_writer :: pb_writer where
  "new_pb_writer = \<lparr>pw_buffer = replicate 64 0, pw_length = 0\<rparr>"

partial_function (option) doubled :: "nat \<Rightarrow> nat \<Rightarrow> nat option" where
  "doubled capacity required = (if capacity < required then doubled (2 * capacity) required else Some capacity)"

definition reserve :: "nat \<Rightarrow> pb_writer \<Rightarrow> pb_writer option" where
  "reserve additional w =
     (let required = pw_length w + additional in
      if required \<le> length (pw_buffer w) then Some w
      else map_option (\<lambda>capacity. w\<lparr>pw_buffer := pw_buffer w @ replicate (capacity - length (pw_buffer w)) 0\<rparr>)
        (doubled (length (pw_buffer w)) required))"

definition append_bytes :: "byte list \<Rightarrow> pb_writer \<Rightarrow> pb_writer option" where
  "append_bytes v w = map_option (\<lambda>w. w\<lparr>pw_buffer := buf_set (pw_buffer w) (pw_length w) v, pw_length := pw_length w + length v\<rparr>)
     (reserve (length v) w)"

definition pb_finish :: "pb_writer \<Rightarrow> byte list" where
  "pb_finish w = take (pw_length w) (pw_buffer w)"

text \<open>A writer holds the concatenation of what was written, which is how the encoders below treat it.\<close>

lemma doubled_ends: "0 < capacity \<Longrightarrow> \<exists>c. doubled capacity required = Some c \<and> capacity \<le> c \<and> required \<le> c"
proof (induction "required - capacity" arbitrary: capacity rule: less_induct)
  case less
  show ?case
  proof (cases "capacity < required")
    case True
    then have "\<exists>c. doubled (2 * capacity) required = Some c \<and> 2 * capacity \<le> c \<and> required \<le> c" using less.prems by (intro less.hyps) auto
    with True show ?thesis by (subst doubled.simps) auto
  next
    case False
    then show ?thesis by (subst doubled.simps) simp
  qed
qed

definition pw_inv :: "pb_writer \<Rightarrow> bool" where
  "pw_inv w \<longleftrightarrow> pw_length w \<le> length (pw_buffer w) \<and> pw_buffer w \<noteq> []"

lemma append_bytes_appends:
  assumes "pw_inv w"
  shows "\<exists>w'. append_bytes v w = Some w' \<and> pw_inv w' \<and> pb_finish w' = pb_finish w @ v"
proof -
  obtain u where "reserve (length v) w = Some u" "pw_length u = pw_length w" "pw_length w + length v \<le> length (pw_buffer u)"
      "take (pw_length w) (pw_buffer u) = take (pw_length w) (pw_buffer w)" "pw_buffer u \<noteq> []"
  proof (cases "pw_length w + length v \<le> length (pw_buffer w)")
    case True
    with assms that show ?thesis by (simp add: reserve_def pw_inv_def)
  next
    case False
    from doubled_ends [of "length (pw_buffer w)" "pw_length w + length v"] assms obtain c where
      "doubled (length (pw_buffer w)) (pw_length w + length v) = Some c" "pw_length w + length v \<le> c" by (auto simp: pw_inv_def)
    with False assms that show ?thesis by (simp add: reserve_def pw_inv_def)
  qed
  then show ?thesis using assms by (auto simp: append_bytes_def pw_inv_def pb_finish_def buf_set_def min_def)
qed

lemma writer_concatenates:
  "\<exists>w. fold (\<lambda>v w. Option.bind w (append_bytes v)) vs (Some new_pb_writer) = Some w \<and> pb_finish w = concat vs"
proof -
  have "\<exists>w. fold (\<lambda>v w. Option.bind w (append_bytes v)) vs (Some u) = Some w \<and> pb_finish w = pb_finish u @ concat vs" if "pw_inv u" for u
    using that
  proof (induction vs arbitrary: u)
    case (Cons v vs)
    from append_bytes_appends [OF Cons.prems, of v] Cons.IH show ?case by fastforce
  qed simp
  from this [of new_pb_writer] show ?thesis by (simp add: new_pb_writer_def pw_inv_def pb_finish_def)
qed

text \<open>What the other methods write.\<close>

definition pb_varint :: "int \<Rightarrow> js_error + byte list" where
  "pb_varint v = (if v < 0 \<or> v \<ge> 2 ^ 64 then pb_error ''varint is outside the unsigned 64-bit range'' else Inr (varint_groups (nat v)))"

definition pb_tag :: "nat \<Rightarrow> nat \<Rightarrow> js_error + byte list" where
  "pb_tag fieldNumber wireType = pb_varint (int (fieldNumber * 8 + wireType))"

definition lengthDelimited :: "byte list \<Rightarrow> js_error + byte list" where
  "lengthDelimited bs = bindR (pb_varint (int (length bs))) (\<lambda>n. Inr (n @ bs))"

definition fixed32_bytes :: "int \<Rightarrow> byte list" where
  "fixed32_bytes v = rev (be_bytes 4 (unat (word_of_int v :: 32 word)))"

definition fixed64_bytes :: "int \<Rightarrow> byte list" where
  "fixed64_bytes v = rev (be_bytes 8 (unat (word_of_int v :: 64 word)))"

subsection \<open>Reader\<close>

definition require :: "nat \<Rightarrow> reader \<Rightarrow> js_error + unit" where
  "require n r = (if rd_pos r + n > length (rd_bytes r) then pb_error ''truncated protobuf message'' else Inr ())"

function varint_from :: "nat \<Rightarrow> nat \<Rightarrow> nat read" where
  "varint_from val shift r =
     (if shift < 70 then
        bindR (require 1 r) (\<lambda>_.
          let b = unat (rd_bytes r ! rd_pos r); val' = val OR push_bit shift (b AND 127) in
          if shift = 63 \<and> b > 1 then pb_error ''varint exceeds 64 bits''
          else if b AND 128 = 0 then Inr (val', rd_advance 1 r)
          else varint_from val' (shift + 7) (rd_advance 1 r))
      else pb_error ''varint exceeds 10 bytes'')"
  by pat_completeness auto
termination
  by (relation "measure (\<lambda>(val, shift, r). 70 - shift)") auto

declare varint_from.simps [simp del]

definition read_varint :: "nat read" where
  "read_varint = varint_from 0 0"

definition read_tag :: "(nat \<times> nat) read" where
  "read_tag r = bindR (read_varint r) (\<lambda>(tag, r).
     let wireType = tag AND 7; number = drop_bit 3 tag in
     if number < 1 \<or> number > maxFieldNumber then pb_error ''invalid field number''
     else if wireType > 5 then pb_error ''invalid wire type''
     else Inr ((number, wireType), r))"

definition read_length :: "nat read" where
  "read_length r = bindR (read_varint r) (\<lambda>(v, r).
     if v > 2 ^ 53 - 1 then pb_error ''length exceeds JavaScript safe integer range''
     else bindR (require v r) (\<lambda>_. Inr (v, r)))"

definition read_slice :: "nat \<Rightarrow> byte list read" where
  "read_slice n r = bindR (require n r) (\<lambda>_. Inr (rd_slice n r, rd_advance n r))"

definition read_delimited :: "byte list read" where
  "read_delimited r = bindR (read_length r) (\<lambda>(n, r). read_slice n r)"

definition read_le :: "nat \<Rightarrow> nat read" where
  "read_le k r = bindR (require k r) (\<lambda>_. Inr (be_uint (rev (rd_slice k r)), rd_advance k r))"

text \<open>\<open>skip\<close>. A group calls it again for each of its fields, so that nested groups use the call stack: \<open>stack\<close> is the number
  of nested calls that fit, and one more throws the engine's \<open>RangeError\<close>. The fuel bounds the steps and is never used up.\<close>

fun pb_skip :: "nat \<Rightarrow> nat \<Rightarrow> nat \<Rightarrow> nat \<Rightarrow> unit read" and skip_group :: "nat \<Rightarrow> nat \<Rightarrow> nat \<Rightarrow> unit read" where
  "pb_skip 0 stack wireType fieldNumber r = Inl OutOfFuel"
| "pb_skip (Suc n) stack wireType fieldNumber r =
     (if wireType = 0 then bindR (read_varint r) (\<lambda>(_, r). Inr ((), r))
      else if wireType = 1 then bindR (read_slice 8 r) (\<lambda>(_, r). Inr ((), r))
      else if wireType = 2 then bindR (read_delimited r) (\<lambda>(_, r). Inr ((), r))
      else if wireType = 3 then skip_group n stack fieldNumber r
      else if wireType = 4 then pb_error ''unexpected end-group tag''
      else if wireType = 5 then bindR (read_slice 4 r) (\<lambda>(_, r). Inr ((), r))
      else pb_error ''invalid wire type'')"
| "skip_group 0 stack fieldNumber r = Inl OutOfFuel"
| "skip_group (Suc n) stack fieldNumber r =
     (if rd_done r then pb_error ''unterminated group''
      else bindR (read_tag r) (\<lambda>(tag, r).
        if snd tag = 4 then
          if fst tag \<noteq> fieldNumber then pb_error ''mismatched end-group field number'' else Inr ((), r)
        else if stack = 0 then Inl RangeError
        else bindR (pb_skip n (stack - 1) (snd tag) (fst tag) r) (\<lambda>(_, r). skip_group n stack fieldNumber r)))"

subsection \<open>Scalars\<close>

definition wireType :: "FieldType \<Rightarrow> nat" where
  "wireType type = (case type of
     Message fs \<Rightarrow> 2
   | Scalar s \<Rightarrow> if s \<in> {String, Bytes} then 2 else if s \<in> {Fixed64, Sfixed64, Double} then 1 else if s \<in> {Fixed32, Sfixed32, Float} then 5 else 0)"

definition isPackable :: "FieldType \<Rightarrow> bool" where
  "isPackable type \<longleftrightarrow> (case type of Message fs \<Rightarrow> False | Scalar s \<Rightarrow> s \<notin> {String, Bytes})"

fun number_in :: "pvalue \<Rightarrow> js_error + number" where
  "number_in (PNumber b) = Inr b"
| "number_in v = pb_error ''field requires a number''"

definition integer_in :: "int \<Rightarrow> int \<Rightarrow> pvalue \<Rightarrow> js_error + int" where
  "integer_in lo hi v = bindR (number_in v) (\<lambda>b. case integer_of b of
     None \<Rightarrow> pb_error ''field is outside its integer range''
   | Some n \<Rightarrow> if n < lo \<or> n > hi then pb_error ''field is outside its integer range'' else Inr n)"

fun bigint_in :: "bool \<Rightarrow> pvalue \<Rightarrow> js_error + int" where
  "bigint_in sgnd (PBigInt n) =
     (if n < (if sgnd then - (2 ^ 63) else 0) \<or> n > (if sgnd then 2 ^ 63 - 1 else 2 ^ 64 - 1)
      then pb_error ''field is outside its 64-bit range'' else Inr n)"
| "bigint_in sgnd v = pb_error ''field requires a bigint''"

abbreviation (input) int32_in :: "pvalue \<Rightarrow> js_error + int" where "int32_in \<equiv> integer_in (- 0x80000000) 0x7fffffff"
abbreviation (input) uint32_in :: "pvalue \<Rightarrow> js_error + int" where "uint32_in \<equiv> integer_in 0 0xffffffff"

definition zigzag :: "nat \<Rightarrow> int \<Rightarrow> int" where
  "zigzag k n = take_bit k (push_bit 1 n XOR drop_bit (k - 1) n)"

definition unzigzag :: "nat \<Rightarrow> int \<Rightarrow> int" where
  "unzigzag k v = signed_take_bit (k - 1) (drop_bit 1 v XOR - (v AND 1))"

definition encodeScalar :: "ScalarType \<Rightarrow> pvalue \<Rightarrow> js_error + byte list" where
  "encodeScalar type v = (case type of
     Bool \<Rightarrow> (case v of PBoolean b \<Rightarrow> pb_varint (if b then 1 else 0) | _ \<Rightarrow> pb_error ''bool field requires a boolean'')
   | Int32 \<Rightarrow> bindR (int32_in v) (\<lambda>n. pb_varint (take_bit 64 n))
   | Enum \<Rightarrow> bindR (int32_in v) (\<lambda>n. pb_varint (take_bit 64 n))
   | Uint32 \<Rightarrow> bindR (uint32_in v) pb_varint
   | Sint32 \<Rightarrow> bindR (int32_in v) (\<lambda>n. pb_varint (zigzag 32 n))
   | Int64 \<Rightarrow> bindR (bigint_in True v) (\<lambda>n. pb_varint (take_bit 64 n))
   | Uint64 \<Rightarrow> bindR (bigint_in False v) pb_varint
   | Sint64 \<Rightarrow> bindR (bigint_in True v) (\<lambda>n. pb_varint (zigzag 64 n))
   | Fixed32 \<Rightarrow> bindR (uint32_in v) (\<lambda>n. Inr (fixed32_bytes n))
   | Sfixed32 \<Rightarrow> bindR (int32_in v) (\<lambda>n. Inr (fixed32_bytes n))
   | Fixed64 \<Rightarrow> bindR (bigint_in False v) (\<lambda>n. Inr (fixed64_bytes n))
   | Sfixed64 \<Rightarrow> bindR (bigint_in True v) (\<lambda>n. Inr (fixed64_bytes n))
   | Float \<Rightarrow> bindR (number_in v) (\<lambda>b. Inr (rev (be_bytes 4 (unat (float_of_number b)))))
   | Double \<Rightarrow> bindR (number_in v) (\<lambda>b. Inr (rev (be_bytes 8 (unat b))))
   | _ \<Rightarrow> pb_error ''not a scalar wire value'')"

definition decodeScalar :: "ScalarType \<Rightarrow> pvalue read" where
  "decodeScalar type r = (case type of
     Bool \<Rightarrow> bindR (read_varint r) (\<lambda>(v, r). Inr (PBoolean (v \<noteq> 0), r))
   | Int32 \<Rightarrow> bindR (read_varint r) (\<lambda>(v, r). Inr (PNumber (number_of_int (signed_take_bit 31 (int v))), r))
   | Enum \<Rightarrow> bindR (read_varint r) (\<lambda>(v, r). Inr (PNumber (number_of_int (signed_take_bit 31 (int v))), r))
   | Uint32 \<Rightarrow> bindR (read_varint r) (\<lambda>(v, r). Inr (PNumber (number_of_int (take_bit 32 (int v))), r))
   | Sint32 \<Rightarrow> bindR (read_varint r) (\<lambda>(v, r). Inr (PNumber (number_of_int (unzigzag 32 (take_bit 32 (int v)))), r))
   | Int64 \<Rightarrow> bindR (read_varint r) (\<lambda>(v, r). Inr (PBigInt (signed_take_bit 63 (int v)), r))
   | Uint64 \<Rightarrow> bindR (read_varint r) (\<lambda>(v, r). Inr (PBigInt (take_bit 64 (int v)), r))
   | Sint64 \<Rightarrow> bindR (read_varint r) (\<lambda>(v, r). Inr (PBigInt (unzigzag 64 (take_bit 64 (int v))), r))
   | Fixed32 \<Rightarrow> bindR (read_le 4 r) (\<lambda>(v, r). Inr (PNumber (number_of_int (int v)), r))
   | Sfixed32 \<Rightarrow> bindR (read_le 4 r) (\<lambda>(v, r). Inr (PNumber (number_of_int (sint (of_nat v :: 32 word))), r))
   | Fixed64 \<Rightarrow> bindR (read_le 8 r) (\<lambda>(v, r). Inr (PBigInt (int v), r))
   | Sfixed64 \<Rightarrow> bindR (read_le 8 r) (\<lambda>(v, r). Inr (PBigInt (sint (of_nat v :: 64 word)), r))
   | Float \<Rightarrow> bindR (read_le 4 r) (\<lambda>(v, r). Inr (PNumber (number_of_float (of_nat v)), r))
   | Double \<Rightarrow> bindR (read_le 8 r) (\<lambda>(v, r). Inr (PNumber (of_nat v), r))
   | _ \<Rightarrow> pb_error ''not a scalar wire value'')"

definition encode_plain :: "ScalarType \<Rightarrow> pvalue \<Rightarrow> js_error + byte list" where
  "encode_plain type v = (case type of
     String \<Rightarrow> (case v of PString s \<Rightarrow> lengthDelimited (encodeUtf8 s) | _ \<Rightarrow> pb_error ''string field requires a string'')
   | Bytes \<Rightarrow> (case v of PBytes b \<Rightarrow> lengthDelimited b | _ \<Rightarrow> pb_error ''bytes field requires a Uint8Array'')
   | _ \<Rightarrow> encodeScalar type v)"

definition decode_plain :: "ScalarType \<Rightarrow> pvalue read" where
  "decode_plain type r = (case type of
     String \<Rightarrow> (case read_delimited r of
         Inl e \<Rightarrow> pb_error ''string field is not valid UTF-8''
       | Inr (b, r) \<Rightarrow> (case decodeUtf8 b True True of Inl e \<Rightarrow> pb_error ''string field is not valid UTF-8'' | Inr s \<Rightarrow> Inr (PString s, r)))
   | Bytes \<Rightarrow> bindR (read_delimited r) (\<lambda>(b, r). Inr (PBytes b, r))
   | _ \<Rightarrow> decodeScalar type r)"

definition defaultValue :: "ScalarType \<Rightarrow> pvalue" where
  "defaultValue type = (case type of
     Bool \<Rightarrow> PBoolean False | String \<Rightarrow> PString [] | Bytes \<Rightarrow> PBytes []
   | Int64 \<Rightarrow> PBigInt 0 | Uint64 \<Rightarrow> PBigInt 0 | Sint64 \<Rightarrow> PBigInt 0 | Fixed64 \<Rightarrow> PBigInt 0 | Sfixed64 \<Rightarrow> PBigInt 0
   | _ \<Rightarrow> PNumber 0)"

text \<open>\<open>value === 0\<close> holds for a negative zero too.\<close>

definition isDefault :: "FieldType \<Rightarrow> pvalue \<Rightarrow> bool" where
  "isDefault type v = (case type of
     Message fs \<Rightarrow> v = PUndefined
   | Scalar Bool \<Rightarrow> v = PBoolean False
   | Scalar String \<Rightarrow> v = PString []
   | Scalar Bytes \<Rightarrow> v = PBytes []
   | Scalar s \<Rightarrow> (case v of PBigInt n \<Rightarrow> n = 0 | PNumber b \<Rightarrow> is_zero b | _ \<Rightarrow> False))"

subsection \<open>Schemas\<close>

record field_descriptor =
  fd_name :: text_string
  fd_number :: int
  fd_type :: FieldType
  fd_repeated :: bool
  fd_packed :: "bool option"
  fd_optional :: bool

definition compile_field :: "field_descriptor \<Rightarrow> RuntimeField" where
  "compile_field d = RuntimeField (fd_name d) (nat (fd_number d)) (fd_type d) (fd_repeated d)
     (fd_repeated d \<and> isPackable (fd_type d) \<and> fd_packed d \<noteq> Some False) (fd_optional d)"

fun compile_fields :: "RuntimeField list \<Rightarrow> field_descriptor list \<Rightarrow> js_error + RuntimeField list" where
  "compile_fields fs [] = Inr fs"
| "compile_fields fs (d # ds) =
     (if fd_number d < 1 \<or> fd_number d > int maxFieldNumber then pb_error ''invalid field number''
      else if 19000 \<le> fd_number d \<and> fd_number d \<le> 19999 then pb_error ''field number is reserved''
      else if list_ex (\<lambda>f. int (rf_number f) = fd_number d) fs then pb_error ''duplicate field number''
      else if fd_packed d \<noteq> None \<and> \<not> (fd_repeated d \<and> isPackable (fd_type d)) then pb_error ''packed is only valid for repeated scalar field''
      else compile_fields (fs @ [compile_field d]) ds)"

definition compileSchema :: "field_descriptor list \<Rightarrow> js_error + RuntimeField list" where
  "compileSchema schema = bindR (compile_fields [] schema) (\<lambda>fs. Inr (sort_key rf_number fs))"

subsection \<open>Objects\<close>

fun index_text :: "nat \<Rightarrow> text_string" where
  "index_text n = (if n < 10 then [of_nat (48 + n)] else index_text (n div 10) @ [of_nat (48 + n mod 10)])"

declare index_text.simps [simp del]

definition indexed :: "pvalue list \<Rightarrow> properties" where
  "indexed xs = zip (map index_text [0..<length xs]) xs"

text \<open>The own properties of a value for which \<open>typeof\<close> says that it is an object.\<close>

fun own_properties :: "pvalue \<Rightarrow> properties option" where
  "own_properties (PObject ps) = Some ps"
| "own_properties (PArray xs) = Some ((map (of_nat \<circ> of_char) ''length'', PNumber (number_of_int (int (length xs)))) # indexed xs)"
| "own_properties (PBytes bs) = Some (indexed (map (\<lambda>b. PNumber (number_of_int (uint b))) bs))"
| "own_properties v = None"

definition property_of :: "properties \<Rightarrow> text_string \<Rightarrow> pvalue" where
  "property_of ps name = (case map_of ps name of None \<Rightarrow> PUndefined | Some v \<Rightarrow> v)"

fun set_property :: "text_string \<Rightarrow> pvalue \<Rightarrow> properties \<Rightarrow> properties" where
  "set_property name v [] = [(name, v)]"
| "set_property name v ((k, w) # ps) = (if k = name then (k, v) # ps else (k, w) # set_property name v ps)"

definition spread :: "properties \<Rightarrow> properties \<Rightarrow> properties" where
  "spread old new = foldl (\<lambda>ps (k, v). set_property k v ps) old new"

subsection \<open>Encoding messages\<close>

lemma field_type_size: "f \<in> set fs \<Longrightarrow> size (rf_type f) < size_list size fs"
proof -
  assume "f \<in> set fs"
  then have "size f < size_list size fs + 1" by (simp add: size_list_estimation' less_Suc_eq_le)
  moreover have "size (rf_type f) < size f" by (cases f) simp
  ultimately show ?thesis by simp
qed

definition encode_packed :: "RuntimeField \<Rightarrow> pvalue list \<Rightarrow> js_error + byte list" where
  "encode_packed f xs = (case rf_type f of
     Scalar s \<Rightarrow> bindR (mapR (encodeScalar s) xs) (\<lambda>bss. bindR (pb_tag (rf_number f) 2) (\<lambda>t.
       bindR (lengthDelimited (concat bss)) (\<lambda>bs. Inr (t @ bs))))
   | Message sub \<Rightarrow> pb_error ''not a scalar wire value'')"

definition tagged :: "RuntimeField \<Rightarrow> js_error + byte list \<Rightarrow> js_error + byte list" where
  "tagged f res = bindR (pb_tag (rf_number f) (wireType (rf_type f))) (\<lambda>t. bindR res (\<lambda>bs. Inr (t @ bs)))"

lemma tagged_cong [fundef_cong]: "f = f' \<Longrightarrow> res = res' \<Longrightarrow> tagged f res = tagged f' res'"
  by simp

definition isCodec :: "FieldType \<Rightarrow> bool" where
  "isCodec type \<longleftrightarrow> (case type of Message fs \<Rightarrow> True | Scalar s \<Rightarrow> False)"

function encodeMessage :: "RuntimeField list \<Rightarrow> pvalue \<Rightarrow> js_error + byte list"
  and encodeValue :: "FieldType \<Rightarrow> pvalue \<Rightarrow> js_error + byte list" where
  "encodeMessage fs v = (case own_properties v of
     None \<Rightarrow> pb_error ''message value must be an object''
   | Some ps \<Rightarrow> bindR (mapR (\<lambda>f. let current = property_of ps (rf_name f) in
       if rf_repeated f then (case current of
           PArray xs \<Rightarrow>
             if xs = [] then Inr []
             else if rf_packed f then encode_packed f xs
             else bindR (mapR (\<lambda>x. tagged f (encodeValue (rf_type f) x)) xs) (\<lambda>bss. Inr (concat bss))
         | _ \<Rightarrow> pb_error ''repeated field requires an array'')
       else if current = PUndefined then
         (if rf_optional f \<or> isCodec (rf_type f) then Inr [] else pb_error ''field is undefined'')
       else if \<not> rf_optional f \<and> isDefault (rf_type f) current then Inr []
       else tagged f (encodeValue (rf_type f) current)) fs) (\<lambda>bss. Inr (concat bss)))"
| "encodeValue type v = (case type of
     Scalar s \<Rightarrow> encode_plain s v
   | Message fs \<Rightarrow> if own_properties v = None then pb_error ''message field requires an object''
       else bindR (encodeMessage fs v) lengthDelimited)"
  by pat_completeness auto
termination
  by (relation "measure (\<lambda>x. case x of Inl (fs, v) \<Rightarrow> size_list size fs | Inr (type, v) \<Rightarrow> size type)") (auto simp: field_type_size)

declare encodeMessage.simps [simp del] encodeValue.simps [simp del]

subsection \<open>Decoding messages\<close>

definition initialised :: "RuntimeField \<Rightarrow> bool" where
  "initialised f \<longleftrightarrow> rf_repeated f \<or> \<not> rf_optional f \<and> \<not> isCodec (rf_type f)"

definition initial :: "RuntimeField list \<Rightarrow> properties" where
  "initial fs = foldl (\<lambda>ps f. if rf_repeated f then set_property (rf_name f) (PArray []) ps
     else case rf_type f of
       Scalar s \<Rightarrow> if \<not> rf_optional f then set_property (rf_name f) (defaultValue s) ps else ps
     | Message sub \<Rightarrow> ps) [] fs"

fun list_items :: "pvalue \<Rightarrow> pvalue list" where
  "list_items (PArray xs) = xs"
| "list_items v = []"

fun object_entries :: "pvalue \<Rightarrow> properties" where
  "object_entries (PObject ps) = ps"
| "object_entries v = []"

definition push_values :: "RuntimeField \<Rightarrow> pvalue list \<Rightarrow> properties \<Rightarrow> properties" where
  "push_values f vs ps = set_property (rf_name f) (PArray (list_items (property_of ps (rf_name f)) @ vs)) ps"

definition store :: "RuntimeField \<Rightarrow> pvalue \<Rightarrow> properties \<Rightarrow> properties" where
  "store f decoded ps =
     (let current = property_of ps (rf_name f) in
      if rf_repeated f then push_values f [decoded] ps
      else if isCodec (rf_type f) \<and> current \<noteq> PUndefined
      then set_property (rf_name f) (PObject (spread (object_entries current) (object_entries decoded))) ps
      else set_property (rf_name f) decoded ps)"

text \<open>Every reading operation that returns has moved the reader forward, within its bytes.\<close>

definition moved :: "reader \<Rightarrow> reader \<Rightarrow> bool" where
  "moved r r' \<longleftrightarrow> rd_bytes r' = rd_bytes r \<and> rd_pos r < rd_pos r' \<and> rd_pos r' \<le> length (rd_bytes r)"

definition moves :: "'a read \<Rightarrow> bool" where
  "moves op \<longleftrightarrow> (\<forall>r v r'. op r = Inr (v, r') \<longrightarrow> moved r r')"

lemma movesD: "moves op \<Longrightarrow> op r = Inr (v, r') \<Longrightarrow> moved r r'"
  by (simp add: moves_def)

lemma moved_trans: "moved r r' \<Longrightarrow> moved r' r'' \<Longrightarrow> moved r r''"
  by (simp add: moved_def)

lemma moved_remaining: "moved r r' \<Longrightarrow> rd_remaining r' < rd_remaining r"
  by (auto simp: moved_def rd_remaining_def)

lemma varint_from_moved: "varint_from val shift r = Inr (v, r') \<Longrightarrow> moved r r'"
proof (induction val shift r arbitrary: v r' rule: varint_from.induct)
  case (1 val shift r)
  have step: "moved r (rd_advance 1 r)" if "require 1 r = Inr ()"
    using that by (auto simp: require_def moved_def rd_advance_def pb_error_def split: if_splits)
  from "1.prems" have "shift < 70" "require 1 r = Inr ()"
    by (auto simp: varint_from.simps [of val] pb_error_def result_simps split: if_splits)
  with "1.prems" "1.IH" step show ?case
    by (auto simp: varint_from.simps [of val] Let_def pb_error_def split: if_splits intro: moved_trans)
qed

lemma read_moves:
  "moves read_varint" "moves read_tag" "moves read_delimited" "0 < k \<Longrightarrow> moves (read_slice k)" "0 < k \<Longrightarrow> moves (read_le k)"
proof -
  show v: "moves read_varint" by (auto simp: moves_def read_varint_def intro: varint_from_moved)
  show "moves read_tag" using v by (auto simp: moves_def read_tag_def Let_def pb_error_def result_simps split: if_splits)
  have slice: "require k r = Inr () \<longleftrightarrow> rd_pos r + k \<le> length (rd_bytes r)" for k r by (auto simp: require_def pb_error_def)
  show "moves read_delimited"
    using v by (fastforce simp: moves_def read_delimited_def read_length_def read_slice_def pb_error_def result_simps slice moved_def rd_advance_def
        split: if_splits)
  show "0 < k \<Longrightarrow> moves (read_slice k)" "0 < k \<Longrightarrow> moves (read_le k)"
    by (auto simp: moves_def read_slice_def read_le_def result_simps slice moved_def rd_advance_def)
qed

lemma moved_by:
  "read_varint r = Inr (v, r') \<Longrightarrow> moved r r'" "read_slice 4 r = Inr (bs, r') \<Longrightarrow> moved r r'" "read_slice 8 r = Inr (bs, r') \<Longrightarrow> moved r r'"
  "read_delimited r = Inr (bs, r') \<Longrightarrow> moved r r'"
  by (rule movesD, rule read_moves; simp)+

lemma skip_moved:
  "pb_skip n stack wt number r = Inr (v, r') \<Longrightarrow> moved r r'"
  "skip_group n stack number r = Inr (v, r') \<Longrightarrow> moved r r'"
proof (induction n stack wt number r and n stack number r arbitrary: v r' and v r' rule: pb_skip_skip_group.induct)
  case (2 n stack wt number r)
  from "2.prems" "2.IH" show ?case
    by (simp add: result_simps pb_error_def split: if_splits prod.splits) (metis moved_by)+
next
  case (4 n stack number r)
  from "4.prems" obtain tag r1 where t: "\<not> rd_done r" "read_tag r = Inr (tag, r1)" by (auto simp: result_simps pb_error_def split: if_splits)
  from read_moves(2) t(2) have m: "moved r r1" by (rule movesD)
  show ?case
  proof (cases "snd tag = 4")
    case True
    with "4.prems" t m show ?thesis by (simp add: pb_error_def split: if_splits)
  next
    case False
    with "4.prems" t obtain r2 where r2: "stack \<noteq> 0" "pb_skip n (stack - 1) (snd tag) (fst tag) r1 = Inr ((), r2)" "skip_group n stack number r2 = Inr (v, r')"
      by (auto simp: result_simps split: if_splits)
    from "4.IH"(1) [OF t refl False r2(1,2)] "4.IH"(2) [OF t refl False r2(1,2) refl r2(3)] have "moved r1 r2" "moved r2 r'" .
    with m show ?thesis by (blast intro: moved_trans)
  qed
qed simp_all

lemma decodeScalar_moves: "moves (decodeScalar s)"
  unfolding moves_def
proof (intro allI impI)
  fix r v r' assume "decodeScalar s r = Inr (v, r')"
  then show "moved r r'"
    using read_moves(1) [THEN movesD, of r] read_moves(5) [THEN movesD, of 4 r] read_moves(5) [THEN movesD, of 8 r]
    by (cases s) (auto simp: decodeScalar_def result_simps pb_error_def)
qed

lemma decode_plain_moves: "moves (decode_plain s)"
  unfolding moves_def
proof (intro allI impI)
  fix r v r' assume "decode_plain s r = Inr (v, r')"
  then show "moved r r'"
    using read_moves(3) [THEN movesD, of r] decodeScalar_moves [THEN movesD, of s r]
    by (cases s) (auto simp: decode_plain_def result_simps pb_error_def split: sum.splits)
qed

function packed_values :: "ScalarType \<Rightarrow> reader \<Rightarrow> js_error + pvalue list" where
  "packed_values s r = (if rd_done r then Inr []
     else bindR (decodeScalar s r) (\<lambda>(v, r). bindR (packed_values s r) (\<lambda>vs. Inr (v # vs))))"
  by pat_completeness auto
termination
  by (relation "measure (\<lambda>(s, r). rd_remaining r)") (auto intro: moved_remaining dest: movesD [OF decodeScalar_moves])

declare packed_values.simps [simp del]

definition scalar_values :: "FieldType \<Rightarrow> reader \<Rightarrow> js_error + pvalue list" where
  "scalar_values type r = (case type of Scalar s \<Rightarrow> packed_values s r | Message fs \<Rightarrow> pb_error ''not a scalar wire value'')"

text \<open>A group is skipped with a fuel that two steps per byte do not use up.\<close>

definition skip_field :: "nat \<Rightarrow> nat \<Rightarrow> nat \<Rightarrow> unit read" where
  "skip_field stack wt number r = pb_skip (2 * rd_remaining r + 2) stack wt number r"

lemma size_of_sub: "rf_type f = Message sub \<Longrightarrow> f \<in> set fs \<Longrightarrow> size_list size sub < size_list size fs"
  using field_type_size [of f fs] by simp

lemma skip_field_moves: "moves (skip_field stack wt number)"
  unfolding moves_def skip_field_def by (blast intro: skip_moved(1))

lemma tag_then:
  assumes "read_tag r = Inr (t, r1)" "op r1 = Inr (v, r2)" "moves op"
  shows "rd_remaining r2 < rd_remaining r"
  using moved_remaining [OF movesD [OF read_moves(2) assms(1)]] moved_remaining [OF movesD [OF assms(3,2)]] by simp

lemma find_mem: "find P xs = Some x \<Longrightarrow> x \<in> set xs \<and> P x"
  by (auto simp: find_Some_iff)

function decode_fields :: "nat \<Rightarrow> RuntimeField list \<Rightarrow> properties \<Rightarrow> reader \<Rightarrow> js_error + properties" where
  "decode_fields stack fs ps r =
     (if rd_done r then Inr ps
      else bindR (read_tag r) (\<lambda>(tag, r).
        case find (\<lambda>f. rf_number f = fst tag) fs of
          None \<Rightarrow> bindR (skip_field stack (snd tag) (fst tag) r) (\<lambda>(_, r). decode_fields stack fs ps r)
        | Some f \<Rightarrow>
            if rf_repeated f \<and> isPackable (rf_type f) \<and> snd tag = 2 then
              bindR (read_delimited r) (\<lambda>(bs, r). bindR (scalar_values (rf_type f) (new_reader bs)) (\<lambda>vs.
                decode_fields stack fs (push_values f vs ps) r))
            else if snd tag \<noteq> wireType (rf_type f) then bindR (skip_field stack (snd tag) (fst tag) r) (\<lambda>(_, r). decode_fields stack fs ps r)
            else (case rf_type f of
                Scalar s \<Rightarrow> bindR (decode_plain s r) (\<lambda>(v, r). decode_fields stack fs (store f v ps) r)
              | Message sub \<Rightarrow> bindR (read_delimited r) (\<lambda>(bs, r).
                  bindR (decode_fields stack sub (initial sub) (new_reader bs)) (\<lambda>value.
                    decode_fields stack fs (store f (PObject value) ps) r)))))"
  by pat_completeness auto
termination
proof (relation "measures [\<lambda>(stack, fs, ps, r). size_list size fs, \<lambda>(stack, fs, ps, r). rd_remaining r]", goal_cases)
  case 1
  show ?case by simp
qed (auto simp: size_of_sub dest: find_mem tag_then [OF _ _ skip_field_moves] tag_then [OF _ _ read_moves(3)] tag_then [OF _ _ decode_plain_moves])

declare decode_fields.simps [simp del]

definition decodeMessage :: "nat \<Rightarrow> RuntimeField list \<Rightarrow> byte list \<Rightarrow> js_error + pvalue" where
  "decodeMessage stack fs bytes = bindR (decode_fields stack fs (initial fs) (new_reader bytes)) (\<lambda>ps. Inr (PObject ps))"

record codec =
  codec_encode :: "pvalue \<Rightarrow> js_error + byte list"
  codec_decode :: "nat \<Rightarrow> byte list \<Rightarrow> js_error + pvalue"

definition defineMessage :: "field_descriptor list \<Rightarrow> js_error + codec" where
  "defineMessage schema = bindR (compileSchema schema) (\<lambda>fs. Inr \<lparr>codec_encode = encodeMessage fs, codec_decode = (\<lambda>stack. decodeMessage stack fs)\<rparr>)"

end
