(* ===== verification/Protobuf_Scalars.thy ===== *)
theory Protobuf_Scalars
  imports Protobuf
begin

text \<open>
  What the reader of \<open>format/protobuf.ts\<close> makes of the tags, lengths and scalars of its writer: each is a byte codec, and a
  scalar field reads back the canonical form of the value that was written.
\<close>

subsection \<open>Reading what was written\<close>

lemma require_at [simp]: "n \<le> length rest \<Longrightarrow> require n (reader_at pre rest) = Inr ()"
  by (simp add: require_def)

lemma varint_from_groups:
  assumes "shift \<le> 63" "v < 2 ^ (64 - shift)" "acc < 2 ^ shift"
  shows "decodes_as (varint_from acc shift) (varint_groups v) (acc + v * 2 ^ shift)"
  using assms
proof (induction v arbitrary: acc shift rule: varint_groups.induct)
  case (1 v)
  have last: "shift = 63 \<Longrightarrow> v < 2" using "1.prems"(2) by simp
  show ?case
  proof (cases "v < 128")
    case True
    moreover have "unat (of_nat v :: byte) = v" using True by simp
    ultimately show ?thesis
      using "1.prems" varint_last_byte [OF True] last
      by (auto simp: decodes_as_def varint_groups.simps [of v] varint_from.simps [of acc] Let_def nat_or_shifted nat_and_mask)
  next
    case False
    define x where "x = v mod 128"
    define y where "y = v div 128"
    have v: "v = x + y * 128" "x < 128" by (simp_all add: x_def y_def)
    have "7 < 64 - shift"
    proof (rule ccontr)
      assume "\<not> 7 < 64 - shift"
      then have "2 ^ (64 - shift) \<le> (2::nat) ^ 7" by (intro power_increasing) auto
      with "1.prems"(2) False show False by simp
    qed
    then have shift: "shift + 7 \<le> 63" and "64 - shift = 64 - (shift + 7) + 7" by simp_all
    then have pow: "(2::nat) ^ (64 - shift) = 2 ^ (64 - (shift + 7)) * 128" by (simp only: power_add) simp
    have y: "y < 2 ^ (64 - (shift + 7))" using "1.prems"(2) unfolding y_def pow by (simp add: less_mult_imp_div_less)
    have "x * 2 ^ shift \<le> 127 * 2 ^ shift" using v(2) by (intro mult_le_mono1) simp
    with "1.prems"(3) have "acc + x * 2 ^ shift < 2 ^ shift + 127 * 2 ^ shift" by linarith
    then have acc: "acc + x * 2 ^ shift < 2 ^ (shift + 7)" by (simp add: power_add)
    have "decodes_as (varint_from (acc + x * 2 ^ shift) (shift + 7)) (varint_groups y) (acc + x * 2 ^ shift + y * 2 ^ (shift + 7))"
      using "1.IH" [OF _ shift _ acc] False y by (simp add: drop_bit_eq_div y_def)
    moreover have "acc + x * 2 ^ shift + y * 2 ^ (shift + 7) = acc + v * 2 ^ shift" by (simp add: v(1) power_add algebra_simps)
    ultimately show ?thesis
      using False shift varint_group_byte [OF v(2)] "1.prems"(3)
      by (simp add: decodes_as_def varint_groups.simps [of v] varint_from.simps [of acc] Let_def nat_or_shifted nat_and_mask drop_bit_eq_div
          flip: x_def y_def)
  qed
qed

lemma decodes_varint: "v < 2 ^ 64 \<Longrightarrow> decodes_as read_varint (varint_groups v) v"
  using varint_from_groups [of 0 v 0] by (simp add: read_varint_def)

interpretation pb_varint: byte_codec varint_groups read_varint "\<lambda>v. v < 2 ^ 64"
  by unfold_locales (rule decodes_varint)

lemma pb_varint_ok: "0 \<le> v \<Longrightarrow> v < 2 ^ 64 \<Longrightarrow> pb_varint v = Inr (varint_groups (nat v))"
  by (simp add: pb_varint_def)

lemma lengthDelimited_Inr:
  "lengthDelimited bs = Inr out \<Longrightarrow> out = varint_groups (length bs) @ bs"
  by (auto simp: lengthDelimited_def pb_varint_def pb_error_def split: if_splits)

lemma decodes_delimited: "length bs < 2 ^ 53 \<Longrightarrow> decodes_as read_delimited (varint_groups (length bs) @ bs) bs"
  by (simp add: decodes_as_def read_delimited_def read_length_def read_slice_def)

definition number_ok :: "nat \<Rightarrow> bool" where
  "number_ok n \<longleftrightarrow> 1 \<le> n \<and> n \<le> maxFieldNumber"

definition tag_bytes :: "nat \<Rightarrow> nat \<Rightarrow> byte list" where
  "tag_bytes n wt = varint_groups (n * 8 + wt)"

lemma tag_bytes_nonempty [simp]: "tag_bytes n wt \<noteq> []"
  by (simp add: tag_bytes_def)

lemma decodes_tag:
  assumes "number_ok n" "wt \<le> 5"
  shows "pb_tag n wt = Inr (tag_bytes n wt)" "decodes_as read_tag (tag_bytes n wt) (n, wt)"
proof -
  have b: "n * 8 + wt < 2 ^ 64" using assms by (simp add: number_ok_def maxFieldNumber_def)
  then show "pb_tag n wt = Inr (tag_bytes n wt)" by (simp add: tag_bytes_def pb_tag_def pb_varint_ok nat_int_add flip: of_nat_mult of_nat_add)
  have "(n * 8 + wt) AND 7 = wt" "drop_bit 3 (n * 8 + wt) = n" using assms nat_and_exp_minus_1 [of "n * 8 + wt" 3] by (simp_all add: drop_bit_eq_div)
  with b assms show "decodes_as read_tag (tag_bytes n wt) (n, wt)"
    by (simp add: tag_bytes_def decodes_as_def read_tag_def Let_def number_ok_def)
qed

lemma decodes_le: "n < 256 ^ k \<Longrightarrow> decodes_as (read_le k) (rev (be_bytes k n)) n"
  by (simp add: decodes_as_def read_le_def be_uint_be_bytes)

subsection \<open>Scalars\<close>

lemma zigzag_value:
  assumes "0 < k" "- (2 ^ (k - 1)) \<le> n" "n < 2 ^ (k - 1)"
  shows "zigzag k n = (if 0 \<le> n then 2 * n else - 2 * n - 1)" "0 \<le> zigzag k n" "zigzag k n < 2 ^ k"
proof -
  have pow: "(2::int) ^ k = 2 * 2 ^ (k - 1)" using assms(1) by (metis power_Suc Suc_diff_1)
  show v: "zigzag k n = (if 0 \<le> n then 2 * n else - 2 * n - 1)"
  proof (cases "0 \<le> n")
    case True
    then show ?thesis using assms pow by (simp add: zigzag_def push_bit_eq_mult drop_bit_eq_div take_bit_int_eq_self)
  next
    case False
    then have "(n + 2 ^ (k - 1)) div 2 ^ (k - 1) = 0" using assms by (intro div_pos_pos_trivial) auto
    then have "n div 2 ^ (k - 1) = - 1" by simp
    then have "push_bit 1 n XOR drop_bit (k - 1) n = NOT (2 * n)" by (simp add: push_bit_eq_mult drop_bit_eq_div)
    then show ?thesis using False assms pow by (simp add: zigzag_def take_bit_int_eq_self not_int_def)
  qed
  show "0 \<le> zigzag k n" "zigzag k n < 2 ^ k" using assms pow by (simp_all add: v)
qed

lemma signed_range:
  assumes "0 < k" "- (2 ^ (k - 1)) \<le> n" "n < 2 ^ (k - 1)"
  shows "signed_take_bit (k - 1) (n :: int) = n"
  using assms by (simp add: signed_take_bit_int_eq_self)

lemma unzigzag_zigzag:
  assumes "0 < k" "- (2 ^ (k - 1)) \<le> n" "n < 2 ^ (k - 1)"
  shows "unzigzag k (take_bit k (zigzag k n)) = n"
proof -
  have "take_bit k (zigzag k n) = zigzag k n" using zigzag_value(2,3) [OF assms] by (simp add: take_bit_int_eq_self)
  moreover have "drop_bit 1 (zigzag k n) XOR - (zigzag k n AND 1) = n"
  proof (cases "0 \<le> n")
    case True
    then show ?thesis by (simp add: zigzag_value(1) [OF assms] drop_bit_eq_div and_one_eq)
  next
    case False
    define u where "u = - n - 1"
    have "zigzag k n = 2 * u + 1" using False by (simp add: zigzag_value(1) [OF assms] u_def)
    then have "drop_bit 1 (zigzag k n) XOR - (zigzag k n AND 1) = NOT u" by (simp add: drop_bit_eq_div and_one_eq)
    then show ?thesis by (simp add: u_def not_int_def)
  qed
  ultimately show ?thesis using signed_range [OF assms] by (simp add: unzigzag_def)
qed

text \<open>The value that is read back for a value a scalar field accepts: integers come back as plain numbers, floats in single
  precision, strings well-formed and without an initial byte order mark.\<close>

fun the_integer :: "pvalue \<Rightarrow> int" where
  "the_integer (PNumber b) = (case integer_of b of Some n \<Rightarrow> n | None \<Rightarrow> 0)"
| "the_integer v = 0"

definition canonical_scalar :: "ScalarType \<Rightarrow> pvalue \<Rightarrow> pvalue" where
  "canonical_scalar s v = (case s of
     Int32 \<Rightarrow> PNumber (number_of_int (the_integer v)) | Uint32 \<Rightarrow> PNumber (number_of_int (the_integer v))
   | Sint32 \<Rightarrow> PNumber (number_of_int (the_integer v)) | Fixed32 \<Rightarrow> PNumber (number_of_int (the_integer v))
   | Sfixed32 \<Rightarrow> PNumber (number_of_int (the_integer v)) | Enum \<Rightarrow> PNumber (number_of_int (the_integer v))
   | Float \<Rightarrow> (case v of PNumber b \<Rightarrow> PNumber (number_of_float (float_of_number b)) | _ \<Rightarrow> v)
   | String \<Rightarrow> (case v of PString u \<Rightarrow> PString (strip_bom (toWellFormed u)) | _ \<Rightarrow> v)
   | _ \<Rightarrow> v)"

lemma number_in_Inr: "number_in v = Inr b \<longleftrightarrow> v = PNumber b"
  by (cases v) (auto simp: pb_error_def)

lemma integer_in_Inr: "integer_in lo hi v = Inr n \<longleftrightarrow> (\<exists>b. v = PNumber b \<and> integer_of b = Some n) \<and> lo \<le> n \<and> n \<le> hi"
proof (cases v)
  case (PNumber b)
  then show ?thesis by (cases "integer_of b") (auto simp: integer_in_def pb_error_def)
qed (simp_all add: integer_in_def pb_error_def)

lemma bigint_in_Inr:
  "bigint_in sgnd v = Inr n \<longleftrightarrow> v = PBigInt n \<and> (if sgnd then - (2 ^ 63) \<le> n \<and> n < 2 ^ 63 else 0 \<le> n \<and> n < 2 ^ 64)"
  by (cases v) (auto simp: pb_error_def)

lemma the_integer_Some: "integer_of b = Some n \<Longrightarrow> the_integer (PNumber b) = n"
  by simp

lemma varint_written: "pb_varint v = Inr bs \<Longrightarrow> 0 \<le> v \<and> v < 2 ^ 64 \<and> bs = varint_groups (nat v)"
  by (auto simp: pb_varint_def pb_error_def split: if_splits)

lemma decodes_varint_via:
  assumes "pb_varint v = Inr bs"
  shows "decodes_as (\<lambda>r. bindR (read_varint r) (\<lambda>(w, r). Inr (f w, r))) bs (f (nat v))"
  using varint_written [OF assms] decodes_varint [of "nat v"] by (auto simp: decodes_as_def nat_less_iff)

lemma decodes_le_via:
  assumes "n < 256 ^ k"
  shows "decodes_as (\<lambda>r. bindR (read_le k r) (\<lambda>(w, r). Inr (f w, r))) (rev (be_bytes k n)) (f n)"
  using decodes_le [OF assms] by (auto simp: decodes_as_def)

lemma decodes_word:
  fixes w :: "32 word" and u :: "64 word"
  shows "decodes_as (\<lambda>r. bindR (read_le 4 r) (\<lambda>(v, r). Inr (f v, r))) (rev (be_bytes 4 (unat w))) (f (unat w))"
    and "decodes_as (\<lambda>r. bindR (read_le 8 r) (\<lambda>(v, r). Inr (f v, r))) (rev (be_bytes 8 (unat u))) (f (unat u))"
  using unsigned_less [of w, where ?'a = nat] unsigned_less [of u, where ?'a = nat] by (auto intro!: decodes_le_via)

lemma zero_integer: "is_zero b \<Longrightarrow> integer_of b = Some 0"
  by (simp add: is_zero_def integer_of_def f64_mantissa_def f64_scale_def Let_def)

lemma nonzero_number: "\<bar>n\<bar> < 2 ^ 53 \<Longrightarrow> is_zero (number_of_int n) \<longleftrightarrow> n = 0"
  using zero_integer [of "number_of_int n"] by (auto simp: integer_of_number) (simp add: number_of_int_def is_zero_def f64_exponent_def f64_fraction_def)

lemma decodes_as_cong: "decodes_as dec bs x \<Longrightarrow> (\<And>r. dec' r = dec r) \<Longrightarrow> x = x' \<Longrightarrow> decodes_as dec' bs x'"
  by (simp add: decodes_as_def)

lemma sint_bytes:
  "- (2 ^ 31) \<le> n \<Longrightarrow> n < 2 ^ 31 \<Longrightarrow> sint (word_of_int n :: 32 word) = n"
  "- (2 ^ 63) \<le> n \<Longrightarrow> n < 2 ^ 63 \<Longrightarrow> sint (word_of_int n :: 64 word) = n"
  by (simp_all add: signed_of_int signed_take_bit_int_eq_self)

lemma uint_bytes:
  "0 \<le> n \<Longrightarrow> n < 2 ^ 32 \<Longrightarrow> uint (word_of_int n :: 32 word) = n"
  "0 \<le> n \<Longrightarrow> n < 2 ^ 64 \<Longrightarrow> uint (word_of_int n :: 64 word) = n"
  by (simp_all add: unsigned_of_int take_bit_int_eq_self)

lemma signed_low:
  "- (2 ^ 31) \<le> n \<Longrightarrow> n < 2 ^ 31 \<Longrightarrow> signed_take_bit 31 (take_bit 64 n) = (n :: int)"
  "- (2 ^ 63) \<le> n \<Longrightarrow> n < 2 ^ 63 \<Longrightarrow> signed_take_bit 63 (take_bit 64 n) = (n :: int)"
  by (simp_all add: signed_take_bit_take_bit signed_take_bit_int_eq_self)

lemma scalar_varint:
  assumes "pb_varint z = Inr bs" "\<And>r. decodeScalar s r = bindR (read_varint r) (\<lambda>(w, r). Inr (f w, r))" "f (nat z) = x"
  shows "decodes_as (decodeScalar s) bs x"
  using decodes_as_cong [OF decodes_varint_via [OF assms(1), of f] assms(2,3)] .

lemma scalar_word32:
  assumes "(Inr (rev (be_bytes 4 (unat (w :: 32 word)))) :: js_error + byte list) = Inr bs" "\<And>r. decodeScalar s r = bindR (read_le 4 r) (\<lambda>(w, r). Inr (f w, r))" "f (unat w) = x"
  shows "decodes_as (decodeScalar s) bs x"
  using decodes_as_cong [OF decodes_word(1) [of f w] assms(2,3)] assms(1) by simp

lemma scalar_word64:
  assumes "(Inr (rev (be_bytes 8 (unat (w :: 64 word)))) :: js_error + byte list) = Inr bs" "\<And>r. decodeScalar s r = bindR (read_le 8 r) (\<lambda>(w, r). Inr (f w, r))" "f (unat w) = x"
  shows "decodes_as (decodeScalar s) bs x"
  using decodes_as_cong [OF decodes_word(2) [of f w] assms(2,3)] assms(1) by simp

text \<open>The integers a numeric field accepts.\<close>

lemma encodeScalar_number:
  assumes "bindR (integer_in lo hi v) f = Inr bs"
  obtains b n where "v = PNumber b" "integer_of b = Some n" "lo \<le> n" "n \<le> hi" "f n = Inr bs"
  using assms by (auto simp: result_simps integer_in_Inr)

lemma encodeScalar_bigint:
  assumes "bindR (bigint_in sgnd v) f = Inr bs"
  obtains n where "v = PBigInt n" "if sgnd then - (2 ^ 63) \<le> n \<and> n < 2 ^ 63 else 0 \<le> n \<and> n < 2 ^ 64" "f n = Inr bs"
  using assms by (auto simp: result_simps bigint_in_Inr)

lemma encodeScalar_float:
  assumes "bindR (number_in v) f = Inr bs"
  obtains b where "v = PNumber b" "f b = Inr bs"
  using assms by (auto simp: result_simps number_in_Inr)

lemmas scalar_simps = encodeScalar_def decodeScalar_def canonical_scalar_def

lemma encodeScalar_decodes:
  assumes "encodeScalar s v = Inr bs"
  shows "decodes_as (decodeScalar s) bs (canonical_scalar s v)"
proof (cases s)
  case Bool
  with assms obtain b where "v = PBoolean b" "pb_varint (if b then 1 else 0) = Inr bs"
    by (auto simp: encodeScalar_def pb_error_def split: pvalue.splits)
  with Bool show ?thesis
    by (cases b) (auto intro!: scalar_varint [where f = "\<lambda>w. PBoolean (w \<noteq> 0)"] simp: scalar_simps)
next
  case Int32
  with assms show ?thesis
    by (simp add: encodeScalar_def fixed32_bytes_def fixed64_bytes_def) (erule encodeScalar_number, erule scalar_varint [where f = "\<lambda>w. PNumber (number_of_int (signed_take_bit 31 (int w)))"]; simp add: scalar_simps signed_low)
next
  case Enum
  with assms show ?thesis
    by (simp add: encodeScalar_def fixed32_bytes_def fixed64_bytes_def) (erule encodeScalar_number, erule scalar_varint [where f = "\<lambda>w. PNumber (number_of_int (signed_take_bit 31 (int w)))"]; simp add: scalar_simps signed_low)
next
  case Uint32
  with assms show ?thesis
    by (simp add: encodeScalar_def fixed32_bytes_def fixed64_bytes_def) (erule encodeScalar_number, erule scalar_varint [where f = "\<lambda>w. PNumber (number_of_int (take_bit 32 (int w)))"]; simp add: scalar_simps take_bit_int_eq_self)
next
  case Sint32
  with assms show ?thesis
    by (simp add: encodeScalar_def fixed32_bytes_def fixed64_bytes_def) (erule encodeScalar_number, erule scalar_varint [where f = "\<lambda>w. PNumber (number_of_int (unzigzag 32 (take_bit 32 (int w))))"]; simp add: scalar_simps unzigzag_zigzag zigzag_value(2))
next
  case Int64
  with assms show ?thesis
    by (simp add: encodeScalar_def fixed32_bytes_def fixed64_bytes_def) (erule encodeScalar_bigint, erule scalar_varint [where f = "\<lambda>w. PBigInt (signed_take_bit 63 (int w))"]; simp add: scalar_simps signed_low)
next
  case Uint64
  with assms show ?thesis
    by (simp add: encodeScalar_def fixed32_bytes_def fixed64_bytes_def) (erule encodeScalar_bigint, erule scalar_varint [where f = "\<lambda>w. PBigInt (take_bit 64 (int w))"]; simp add: scalar_simps take_bit_int_eq_self)
next
  case Sint64
  with assms show ?thesis
    by (simp add: encodeScalar_def fixed32_bytes_def fixed64_bytes_def) (erule encodeScalar_bigint, erule scalar_varint [where f = "\<lambda>w. PBigInt (unzigzag 64 (take_bit 64 (int w)))"]; simp add: scalar_simps unzigzag_zigzag zigzag_value(2))
next
  case Fixed32
  with assms show ?thesis
    by (simp add: encodeScalar_def fixed32_bytes_def fixed64_bytes_def) (erule encodeScalar_number, erule scalar_word32 [where f = "\<lambda>w. PNumber (number_of_int (int w))"]; simp add: scalar_simps uint_bytes)
next
  case Sfixed32
  with assms show ?thesis
    by (simp add: encodeScalar_def fixed32_bytes_def fixed64_bytes_def) (erule encodeScalar_number, erule scalar_word32 [where f = "\<lambda>w. PNumber (number_of_int (sint (of_nat w :: 32 word)))"]; simp add: scalar_simps sint_bytes)
next
  case Fixed64
  with assms show ?thesis
    by (simp add: encodeScalar_def fixed32_bytes_def fixed64_bytes_def) (erule encodeScalar_bigint, erule scalar_word64 [where f = "\<lambda>w. PBigInt (int w)"]; simp add: scalar_simps uint_bytes)
next
  case Sfixed64
  with assms show ?thesis
    by (simp add: encodeScalar_def fixed32_bytes_def fixed64_bytes_def) (erule encodeScalar_bigint, erule scalar_word64 [where f = "\<lambda>w. PBigInt (sint (of_nat w :: 64 word))"]; simp add: scalar_simps sint_bytes)
next
  case Float
  with assms show ?thesis
    by (simp add: encodeScalar_def fixed32_bytes_def fixed64_bytes_def) (erule encodeScalar_float, erule scalar_word32 [where f = "\<lambda>w. PNumber (number_of_float (of_nat w))"]; simp add: scalar_simps )
next
  case Double
  with assms show ?thesis
    by (simp add: encodeScalar_def fixed32_bytes_def fixed64_bytes_def) (erule encodeScalar_float, erule scalar_word64 [where f = "\<lambda>w. PNumber (of_nat w)"]; simp add: scalar_simps )
qed (use assms in \<open>simp_all add: encodeScalar_def pb_error_def\<close>)

lemma scalar_bytes_nonempty: "encodeScalar s v = Inr bs \<Longrightarrow> bs \<noteq> []"
  using decodes_asD [OF encodeScalar_decodes, of s v bs "[]" "[]"] movesD [OF decodeScalar_moves, of s] by (fastforce simp: moved_def)

lemma encode_plain_decodes:
  assumes "encode_plain s v = Inr bs" "length bs < 2 ^ 53"
  shows "decodes_as (decode_plain s) bs (canonical_scalar s v)"
proof (cases "s = String \<or> s = Bytes")
  case True
  with assms(1) obtain b where b: "lengthDelimited b = Inr bs" "s = String \<Longrightarrow> \<exists>u. v = PString u \<and> b = encodeUtf8 u" "s = Bytes \<Longrightarrow> v = PBytes b"
    by (auto simp: encode_plain_def pb_error_def split: pvalue.splits)
  with assms(2) have "decodes_as read_delimited bs b" using decodes_delimited [of b] lengthDelimited_Inr [OF b(1)] by simp
  with True b(2,3) show ?thesis by (auto simp: decodes_as_def decode_plain_def canonical_scalar_def decodeUtf8_skip_bom)
next
  case False
  then have "encode_plain s v = encodeScalar s v" "decode_plain s = decodeScalar s"
    by (cases s; auto simp: encode_plain_def decode_plain_def fun_eq_iff)+
  with assms encodeScalar_decodes show ?thesis by simp
qed

text \<open>Values written in a run are read back until the end of the bytes.\<close>

lemma packed_values_decode:
  "mapR (encodeScalar s) xs = Inr bss \<Longrightarrow> packed_values s (reader_at pre (concat bss)) = Inr (map (canonical_scalar s) xs)"
proof (induction xs arbitrary: bss pre)
  case Nil
  then show ?case by (simp add: packed_values.simps [of s] rd_done_def)
next
  case (Cons x xs)
  then obtain bs bss' where bs: "encodeScalar s x = Inr bs" "mapR (encodeScalar s) xs = Inr bss'" "bss = bs # bss'" by (auto simp: result_simps)
  have "bs \<noteq> []" by (rule scalar_bytes_nonempty [OF bs(1)])
  then show ?case using Cons.IH [OF bs(2), of "pre @ bs"] decodes_asD [OF encodeScalar_decodes [OF bs(1)], of pre "concat bss'"] bs(3)
    by (subst packed_values.simps) (simp add: rd_done_def)
qed

end
