(* ===== verification/Protobuf_Roundtrip.thy ===== *)
theory Protobuf_Roundtrip
  imports Protobuf_Scalars
begin

text \<open>
  The codecs of \<open>format/protobuf.ts\<close> as a whole: what an encoded message is decoded to, by the schema that wrote it or by
  another version of it, and that decoding ends on every input.
\<close>

subsection \<open>Schemas\<close>

text \<open>What \<open>compileSchema\<close> makes sure of, for the schemas nested in the fields too.\<close>

fun type_ok :: "FieldType \<Rightarrow> bool" and field_ok :: "RuntimeField \<Rightarrow> bool" where
  "type_ok (Scalar s) = True"
| "type_ok (Message fs) \<longleftrightarrow> sorted (map rf_number fs) \<and> distinct (map rf_number fs) \<and> distinct (map rf_name fs) \<and> (\<forall>f \<in> set fs. field_ok f)"
| "field_ok (RuntimeField name number type repeated packed opt) \<longleftrightarrow>
     number_ok number \<and> (packed \<longrightarrow> repeated \<and> isPackable type) \<and> type_ok type"

abbreviation (input) schema_ok :: "RuntimeField list \<Rightarrow> bool" where "schema_ok fs \<equiv> type_ok (Message fs)"

lemma field_okD: "field_ok f \<Longrightarrow> number_ok (rf_number f) \<and> (rf_packed f \<longrightarrow> rf_repeated f \<and> isPackable (rf_type f)) \<and> type_ok (rf_type f)"
  by (cases f) simp

subsection \<open>The canonical value\<close>

text \<open>What a message that was accepted reads back as: repeated fields and fields of implicit presence always have a value, in the
  order of the schema, and are followed by the other fields that are set.\<close>

definition implicit_default :: "FieldType \<Rightarrow> pvalue" where
  "implicit_default type = (case type of Scalar s \<Rightarrow> defaultValue s | Message fs \<Rightarrow> PUndefined)"

function canonical_message :: "RuntimeField list \<Rightarrow> (text_string \<Rightarrow> pvalue) \<Rightarrow> properties"
  and canonical_value :: "FieldType \<Rightarrow> pvalue \<Rightarrow> pvalue" where
  "canonical_message fs look =
     map (\<lambda>f. let v = look (rf_name f) in (rf_name f,
       if rf_repeated f then PArray (map (canonical_value (rf_type f)) (list_items v))
       else if v = PUndefined \<or> isDefault (rf_type f) v then implicit_default (rf_type f)
       else canonical_value (rf_type f) v)) (filter initialised fs) @
     map (\<lambda>f. (rf_name f, canonical_value (rf_type f) (look (rf_name f))))
       (filter (\<lambda>f. \<not> initialised f \<and> look (rf_name f) \<noteq> PUndefined) fs)"
| "canonical_value type v = (case type of
     Scalar s \<Rightarrow> canonical_scalar s v
   | Message fs \<Rightarrow> PObject (canonical_message fs (property_of (case own_properties v of Some ps \<Rightarrow> ps | None \<Rightarrow> []))))"
  by pat_completeness auto
termination
  by (relation "measure (\<lambda>x. case x of Inl (fs, v) \<Rightarrow> size_list size fs | Inr (type, v) \<Rightarrow> size type)") (auto simp: field_type_size)

declare canonical_message.simps [simp del] canonical_value.simps [simp del]

lemma canonical_value_scalar [simp]: "canonical_value (Scalar s) = canonical_scalar s"
  by (rule ext) (simp add: canonical_value.simps)

definition canonical_field :: "RuntimeField \<Rightarrow> pvalue \<Rightarrow> pvalue" where
  "canonical_field f v =
     (if rf_repeated f then PArray (map (canonical_value (rf_type f)) (list_items v))
      else if v = PUndefined \<or> isDefault (rf_type f) v then implicit_default (rf_type f)
      else canonical_value (rf_type f) v)"

lemma canonical_message_fields:
  "canonical_message fs look =
     map (\<lambda>f. (rf_name f, canonical_field f (look (rf_name f)))) (filter initialised fs) @
     map (\<lambda>f. (rf_name f, canonical_value (rf_type f) (look (rf_name f))))
       (filter (\<lambda>f. \<not> initialised f \<and> look (rf_name f) \<noteq> PUndefined) fs)"
  by (simp add: canonical_message.simps [of fs] canonical_field_def Let_def cong: if_cong)

subsection \<open>The encoding of one field\<close>

definition encode_field :: "properties \<Rightarrow> RuntimeField \<Rightarrow> js_error + byte list" where
  "encode_field ps f = (let current = property_of ps (rf_name f) in
     if rf_repeated f then (case current of
         PArray xs \<Rightarrow>
           if xs = [] then Inr []
           else if rf_packed f then encode_packed f xs
           else bindR (mapR (\<lambda>x. tagged f (encodeValue (rf_type f) x)) xs) (\<lambda>bss. Inr (concat bss))
       | _ \<Rightarrow> pb_error ''repeated field requires an array'')
     else if current = PUndefined then
       (if rf_optional f \<or> isCodec (rf_type f) then Inr [] else pb_error ''field is undefined'')
     else if \<not> rf_optional f \<and> isDefault (rf_type f) current then Inr []
     else tagged f (encodeValue (rf_type f) current))"

lemma encodeMessage_fields:
  "encodeMessage fs v = (case own_properties v of None \<Rightarrow> pb_error ''message value must be an object''
     | Some ps \<Rightarrow> bindR (mapR (encode_field ps) fs) (\<lambda>bss. Inr (concat bss)))"
  by (simp add: encodeMessage.simps [of fs] encode_field_def [abs_def] Let_def cong: option.case_cong if_cong)

text \<open>The values of a field that are written with a tag each, and the packed list if there is one.\<close>

datatype wire_entry = Packed "pvalue list" | Tagged pvalue

definition entries :: "RuntimeField \<Rightarrow> pvalue \<Rightarrow> wire_entry list" where
  "entries f v =
     (if rf_repeated f then
        if list_items v = [] then [] else if rf_packed f then [Packed (list_items v)] else map Tagged (list_items v)
      else if v = PUndefined \<or> \<not> rf_optional f \<and> isDefault (rf_type f) v then [] else [Tagged v])"

fun encode_entry :: "RuntimeField \<Rightarrow> wire_entry \<Rightarrow> js_error + byte list" where
  "encode_entry f (Packed xs) = encode_packed f xs"
| "encode_entry f (Tagged v) = tagged f (encodeValue (rf_type f) v)"

lemma encode_field_entries:
  "encode_field ps f = Inr bs \<Longrightarrow> \<exists>bss. mapR (encode_entry f) (entries f (property_of ps (rf_name f))) = Inr bss \<and> bs = concat bss"
  by (auto simp: encode_field_def entries_def Let_def mapR_map pb_error_def result_simps split: if_splits pvalue.splits)

subsection \<open>Decoding one field\<close>

text \<open>The shape of an encoded value by its wire type, and that it can be skipped.\<close>

lemma scalar_wire_shape:
  assumes "encodeScalar s v = Inr bs"
  shows "wireType (Scalar s) = 0 \<and> (\<exists>n < 2 ^ 64. bs = varint_groups n) \<or> wireType (Scalar s) = 1 \<and> length bs = 8 \<or> wireType (Scalar s) = 5 \<and> length bs = 4"
proof -
  have v: "\<exists>n < 18446744073709551616. bs = varint_groups n" if "pb_varint z = Inr bs" for z
    using varint_written [OF that] by (auto simp: nat_less_iff intro!: exI [of _ "nat z"])
  show ?thesis using assms
    by (cases s) (auto simp: encodeScalar_def wireType_def result_simps pb_error_def fixed32_bytes_def fixed64_bytes_def split: pvalue.splits if_splits intro: v)
qed

lemma value_wire_shape:
  assumes "encodeValue type v = Inr bs"
  shows "wireType type = 0 \<and> (\<exists>n < 2 ^ 64. bs = varint_groups n) \<or> wireType type = 1 \<and> length bs = 8 \<or>
    wireType type = 5 \<and> length bs = 4 \<or> wireType type = 2 \<and> (\<exists>inner. bs = varint_groups (length inner) @ inner)"
proof (cases type)
  case (Message fs)
  with assms show ?thesis
    by (auto simp: encodeValue.simps [of "Message fs"] wireType_def result_simps pb_error_def split: if_splits dest: lengthDelimited_Inr)
next
  case (Scalar s)
  show ?thesis
  proof (cases "s = String \<or> s = Bytes")
    case True
    with assms Scalar show ?thesis
      by (auto simp: encodeValue.simps [of "Scalar s"] encode_plain_def wireType_def pb_error_def split: pvalue.splits dest!: lengthDelimited_Inr)
  next
    case False
    then have "encode_plain s v = encodeScalar s v" by (cases s) (auto simp: encode_plain_def)
    with assms Scalar have "encodeScalar s v = Inr bs" by (simp add: encodeValue.simps [of "Scalar s"])
    from scalar_wire_shape [OF this] show ?thesis unfolding Scalar by blast
  qed
qed

lemma skips_value:
  assumes "encodeValue type v = Inr bs" "length bs < 2 ^ 53"
  shows "decodes_as (skip_field stack (wireType type) n) bs ()"
  using value_wire_shape [OF assms(1)]
proof (elim disjE conjE exE)
  fix m assume "wireType type = 0" "m < 2 ^ 64" "bs = varint_groups m"
  then show ?thesis by (simp add: decodes_as_def skip_field_def)
next
  fix inner assume "wireType type = 2" "bs = varint_groups (length inner) @ inner"
  then show ?thesis using decodes_asD [OF decodes_delimited [of inner]] assms(2) by (simp add: decodes_as_def skip_field_def)
qed (simp_all add: decodes_as_def skip_field_def read_slice_def)

text \<open>What the bytes of a value of a field mean to the reader of that field.\<close>

fun decodable :: "nat \<Rightarrow> FieldType \<Rightarrow> byte list \<Rightarrow> pvalue \<Rightarrow> bool" where
  "decodable stack (Scalar s) bs x \<longleftrightarrow> decodes_as (decode_plain s) bs x"
| "decodable stack (Message sub) bs x \<longleftrightarrow> (\<exists>inner ps. bs = varint_groups (length inner) @ inner \<and> length inner < 2 ^ 53 \<and>
     decode_fields stack sub (initial sub) (new_reader inner) = Inr ps \<and> x = PObject ps)"

definition value_decodes :: "FieldType \<Rightarrow> bool" where
  "value_decodes type \<longleftrightarrow>
     (\<forall>stack v bs. encodeValue type v = Inr bs \<longrightarrow> length bs < 2 ^ 53 \<longrightarrow> decodable stack type bs (canonical_value type v))"

fun apply_entry :: "RuntimeField \<Rightarrow> wire_entry \<Rightarrow> properties \<Rightarrow> properties" where
  "apply_entry f (Packed xs) ps = push_values f (map (canonical_value (rf_type f)) xs) ps"
| "apply_entry f (Tagged v) ps = store f (canonical_value (rf_type f) v) ps"

lemma find_field: "distinct (map rf_number fs) \<Longrightarrow> f \<in> set fs \<Longrightarrow> find (\<lambda>g. rf_number g = rf_number f) fs = Some f"
  by (induction fs) auto

lemma wire_type_bound: "wireType type \<le> 5"
  by (simp add: wireType_def split: FieldType.splits)

lemma tagged_Inr:
  "field_ok f \<Longrightarrow> tagged f res = Inr bs \<Longrightarrow> \<exists>b. res = Inr b \<and> bs = tag_bytes (rf_number f) (wireType (rf_type f)) @ b"
  using field_okD [of f] decodes_tag(1) [OF _ wire_type_bound, of "rf_number f" "rf_type f"] by (auto simp: tagged_def result_simps)

lemma packed_Inr:
  assumes "field_ok f" "encode_packed f xs = Inr bs" "length bs < 2 ^ 53"
  shows "\<exists>s bss. rf_type f = Scalar s \<and> mapR (encodeScalar s) xs = Inr bss \<and> length (concat bss) < 2 ^ 53 \<and>
    bs = tag_bytes (rf_number f) 2 @ varint_groups (length (concat bss)) @ concat bss"
  using assms field_okD [of f] decodes_tag(1) [of "rf_number f" 2]
  by (auto simp: encode_packed_def result_simps pb_error_def split: FieldType.splits dest!: lengthDelimited_Inr)

lemma decode_known:
  assumes "decodes_as read_tag t (rf_number f, wt)" "distinct (map rf_number fs)" "f \<in> set fs" "t \<noteq> []"
  shows "decode_fields stack fs ps (reader_at pre (t @ rest)) =
    (let r = reader_at (pre @ t) rest in
     if rf_repeated f \<and> isPackable (rf_type f) \<and> wt = 2 then
       bindR (read_delimited r) (\<lambda>(bs, r). bindR (scalar_values (rf_type f) (new_reader bs)) (\<lambda>vs. decode_fields stack fs (push_values f vs ps) r))
     else if wt \<noteq> wireType (rf_type f) then bindR (skip_field stack wt (rf_number f) r) (\<lambda>(_, r). decode_fields stack fs ps r)
     else (case rf_type f of
         Scalar s \<Rightarrow> bindR (decode_plain s r) (\<lambda>(v, r). decode_fields stack fs (store f v ps) r)
       | Message sub \<Rightarrow> bindR (read_delimited r) (\<lambda>(bs, r).
           bindR (decode_fields stack sub (initial sub) (new_reader bs)) (\<lambda>value. decode_fields stack fs (store f (PObject value) ps) r))))"
  using decodes_asD [OF assms(1)] find_field [OF assms(2,3)] assms(4)
  by (subst decode_fields.simps) (simp add: rd_done_def Let_def)

lemma decode_unknown:
  assumes "decodes_as read_tag t (n, wt)" "n \<notin> rf_number ` set fs" "t \<noteq> []"
  shows "decode_fields stack fs ps (reader_at pre (t @ rest)) = bindR (skip_field stack wt n (reader_at (pre @ t) rest)) (\<lambda>(_, r). decode_fields stack fs ps r)"
proof -
  have "find (\<lambda>f. rf_number f = n) fs = None" using assms(2) by (auto simp: find_None_iff)
  then show ?thesis using decodes_asD [OF assms(1)] assms(3) by (subst decode_fields.simps) (simp add: rd_done_def)
qed

definition is_entry_of :: "RuntimeField \<Rightarrow> wire_entry \<Rightarrow> bool" where
  "is_entry_of f e \<longleftrightarrow> (\<exists>v. e \<in> set (entries f v))"

lemma entry_decoded:
  assumes f: "field_ok f" "f \<in> set fs" "distinct (map rf_number fs)" "value_decodes (rf_type f)"
    and e: "is_entry_of f e" "encode_entry f e = Inr bs" "length bs < 2 ^ 53"
  shows "decode_fields stack fs ps (reader_at pre (bs @ rest)) = decode_fields stack fs (apply_entry f e ps) (reader_at (pre @ bs) rest)"
proof (cases e)
  case (Packed xs)
  with e(2,3) obtain s bss where b: "rf_type f = Scalar s" "mapR (encodeScalar s) xs = Inr bss" "length (concat bss) < 2 ^ 53"
      "bs = tag_bytes (rf_number f) 2 @ varint_groups (length (concat bss)) @ concat bss"
    using packed_Inr [OF f(1)] by fastforce
  have "rf_packed f" using e(1) Packed by (auto simp: is_entry_of_def entries_def split: if_splits)
  then have p: "rf_repeated f" "isPackable (rf_type f)" using field_okD [OF f(1)] by auto
  have "decodes_as read_tag (tag_bytes (rf_number f) 2) (rf_number f, 2)" using field_okD [OF f(1)] by (simp add: decodes_tag(2))
  from decode_known [OF this f(3,2)] show ?thesis
    using p Packed b(4) decodes_asD [OF decodes_delimited [OF b(3)]] packed_values_decode [OF b(2), of "[]"]
    by (simp add: b(1) scalar_values_def new_reader_at)
next
  case (Tagged v)
  with e(2) obtain b where b: "encodeValue (rf_type f) v = Inr b" "bs = tag_bytes (rf_number f) (wireType (rf_type f)) @ b"
    using tagged_Inr [OF f(1)] by auto
  have d: "decodable stack (rf_type f) b (canonical_value (rf_type f) v)" using f(4) b e(3) by (simp add: value_decodes_def)
  have "decodes_as read_tag (tag_bytes (rf_number f) (wireType (rf_type f))) (rf_number f, wireType (rf_type f))"
    using field_okD [OF f(1)] wire_type_bound by (simp add: decodes_tag(2))
  note known = decode_known [OF this f(3,2)]
  have np: "\<not> (isPackable (rf_type f) \<and> wireType (rf_type f) = 2)" by (auto simp: isPackable_def wireType_def split: FieldType.splits if_splits)
  show ?thesis
  proof (cases "rf_type f")
    case (Scalar s)
    with d show ?thesis using Tagged b(2) known [of stack ps pre "b @ rest"] by (simp add: decodes_as_def Let_def np [unfolded Scalar])
  next
    case (Message sub)
    with d obtain inner qs where i: "b = varint_groups (length inner) @ inner" "length inner < 2 ^ 53"
        "decode_fields stack sub (initial sub) (new_reader inner) = Inr qs" "canonical_value (rf_type f) v = PObject qs" by auto
    then show ?thesis using Message Tagged b(2) decodes_asD [OF decodes_delimited [OF i(2)]] known [of stack ps pre "b @ rest"]
      by (simp add: Let_def np [unfolded Message])
  qed
qed

lemma entry_skipped:
  assumes f: "field_ok f" "rf_number f \<notin> rf_number ` set fs"
    and e: "encode_entry f e = Inr bs" "length bs < 2 ^ 53"
  shows "decode_fields stack fs ps (reader_at pre (bs @ rest)) = decode_fields stack fs ps (reader_at (pre @ bs) rest)"
proof (cases e)
  case (Packed xs)
  with e obtain b where b: "length b < 2 ^ 53" "bs = tag_bytes (rf_number f) 2 @ varint_groups (length b) @ b"
    using packed_Inr [OF f(1)] by fastforce
  have "decodes_as read_tag (tag_bytes (rf_number f) 2) (rf_number f, 2)" using field_okD [OF f(1)] by (simp add: decodes_tag(2))
  then show ?thesis using decodes_asD [OF decodes_delimited [OF b(1)]] by (simp add: b(2) decode_unknown [OF _ f(2)] skip_field_def)
next
  case (Tagged v)
  with e(1) obtain b where b: "encodeValue (rf_type f) v = Inr b" "bs = tag_bytes (rf_number f) (wireType (rf_type f)) @ b"
    using tagged_Inr [OF f(1)] by auto
  have "decodes_as read_tag (tag_bytes (rf_number f) (wireType (rf_type f))) (rf_number f, wireType (rf_type f))"
    using field_okD [OF f(1)] wire_type_bound by (simp add: decodes_tag(2))
  then show ?thesis using decodes_asD [OF skips_value [OF b(1)]] e(2) by (simp add: b(2) decode_unknown [OF _ f(2)])
qed

lemma entries_decoded:
  assumes f: "field_ok f" "f \<in> set fs" "distinct (map rf_number fs)" "value_decodes (rf_type f)"
    and e: "\<And>e. e \<in> set es \<Longrightarrow> is_entry_of f e" "mapR (encode_entry f) es = Inr bss" "length (concat bss) < 2 ^ 53"
  shows "decode_fields stack fs ps (reader_at pre (concat bss @ rest)) =
    decode_fields stack fs (foldl (\<lambda>ps e. apply_entry f e ps) ps es) (reader_at (pre @ concat bss) rest)"
  using e
proof (induction es arbitrary: bss ps pre)
  case (Cons e es)
  then obtain b bss' where b: "encode_entry f e = Inr b" "mapR (encode_entry f) es = Inr bss'" "bss = b # bss'" by (auto simp: result_simps)
  from entry_decoded [OF f, of e b stack ps pre "concat bss' @ rest"] Cons.IH [OF _ b(2), of "apply_entry f e ps" "pre @ b"] Cons.prems(1,3) b show ?case by simp
qed simp

lemma entries_skipped:
  assumes f: "field_ok f" "rf_number f \<notin> rf_number ` set fs"
    and e: "mapR (encode_entry f) es = Inr bss" "length (concat bss) < 2 ^ 53"
  shows "decode_fields stack fs ps (reader_at pre (concat bss @ rest)) = decode_fields stack fs ps (reader_at (pre @ concat bss) rest)"
  using e
proof (induction es arbitrary: bss pre)
  case (Cons e es)
  then obtain b bss' where b: "encode_entry f e = Inr b" "mapR (encode_entry f) es = Inr bss'" "bss = b # bss'" by (auto simp: result_simps)
  from entry_skipped [OF f, of e b stack ps pre "concat bss' @ rest"] Cons.IH [OF b(2), of "pre @ b"] Cons.prems b show ?case by simp
qed simp

subsection \<open>What a field leaves in the object\<close>

lemma property_of_set [simp]: "property_of (set_property k v ps) k' = (if k' = k then v else property_of ps k')"
  by (induction ps) (auto simp: property_of_def)

lemma set_property_twice: "set_property k w (set_property k v ps) = set_property k w ps"
  by (induction ps) auto

lemma set_property_new: "k \<notin> fst ` set ps \<Longrightarrow> set_property k v ps = ps @ [(k, v)]"
  by (induction ps) auto

lemma property_of_new: "k \<notin> fst ` set ps \<Longrightarrow> property_of ps k = PUndefined"
  by (simp add: property_of_def map_of_eq_None_iff [symmetric])

lemma named_properties:
  assumes "distinct (map rf_name gs)" "f \<in> set gs"
  shows "property_of (map (\<lambda>g. (rf_name g, h g)) gs @ rest) (rf_name f) = h f"
    and "set_property (rf_name f) v (map (\<lambda>g. (rf_name g, h g)) gs @ rest) = map (\<lambda>g. (rf_name g, if g = f then v else h g)) gs @ rest"
  using assms by (induction gs) (auto simp: property_of_def image_iff)

lemma stores_push:
  assumes "rf_repeated f" "xs \<noteq> []"
  shows "foldl (\<lambda>ps x. store f (c x) ps) ps xs = set_property (rf_name f) (PArray (list_items (property_of ps (rf_name f)) @ map c xs)) ps"
  using assms(2)
proof (induction xs rule: rev_nonempty_induct)
  case (single x)
  show ?case using assms(1) by (simp add: store_def push_values_def)
next
  case (snoc x xs)
  then show ?case using assms(1) by (simp add: store_def push_values_def set_property_twice Let_def)
qed

definition initial_value :: "RuntimeField \<Rightarrow> pvalue" where
  "initial_value f = (if rf_repeated f then PArray [] else implicit_default (rf_type f))"

text \<open>The object after the fields \<open>past\<close> have been read.\<close>

definition object_after :: "RuntimeField list \<Rightarrow> (text_string \<Rightarrow> pvalue) \<Rightarrow> RuntimeField list \<Rightarrow> properties" where
  "object_after gs look past =
     map (\<lambda>g. (rf_name g, if g \<in> set past then canonical_field g (look (rf_name g)) else initial_value g)) (filter initialised gs) @
     map (\<lambda>g. (rf_name g, canonical_value (rf_type g) (look (rf_name g))))
       (filter (\<lambda>g. g \<in> set gs \<and> \<not> initialised g \<and> look (rf_name g) \<noteq> PUndefined) past)"

lemma initial_object:
  assumes "distinct (map rf_name gs)"
  shows "initial gs = object_after gs look []"
proof -
  have step: "(if rf_repeated f then set_property (rf_name f) (PArray []) ps
     else case rf_type f of Scalar s \<Rightarrow> if \<not> rf_optional f then set_property (rf_name f) (defaultValue s) ps else ps | Message sub \<Rightarrow> ps) =
     (if initialised f then set_property (rf_name f) (initial_value f) ps else ps)" for f ps
    by (auto simp: initialised_def initial_value_def implicit_default_def isCodec_def split: FieldType.splits)
  have "foldl (\<lambda>ps f. if initialised f then set_property (rf_name f) (initial_value f) ps else ps) ps gs
     = ps @ map (\<lambda>g. (rf_name g, initial_value g)) (filter initialised gs)" if "\<forall>g \<in> set gs. rf_name g \<notin> fst ` set ps" for ps
    using that assms
  proof (induction gs arbitrary: ps)
    case (Cons g gs)
    then have "set_property (rf_name g) v ps = ps @ [(rf_name g, v)]" for v by (simp add: set_property_new)
    moreover have "\<forall>h \<in> set gs. rf_name h \<noteq> rf_name g" using Cons.prems(2) by (auto simp: image_iff)
    ultimately show ?case using Cons.IH [of "ps @ [(rf_name g, initial_value g)]"] Cons.IH [of ps] Cons.prems by auto
  qed simp
  from this [of "[]"] show ?thesis by (simp add: initial_def step object_after_def)
qed

text \<open>Reading the entries of the next field.\<close>

lemma object_after_next:
  assumes gs: "distinct (map rf_name gs)" "f \<in> set gs" "f \<notin> set past"
  shows "foldl (\<lambda>ps e. apply_entry f e ps) (object_after gs look past) (entries f (look (rf_name f))) = object_after gs look (past @ [f])"
proof -
  define v where "v = look (rf_name f)"
  define c where "c = canonical_value (rf_type f)"
  let ?ps = "object_after gs look past"
  have names: "g = f" if "rf_name f = rf_name g" "g \<in> set gs" for g
    using that gs(1,2) by (auto simp: distinct_map dest: inj_onD)
  show ?thesis
  proof (cases "initialised f")
    case True
    have d: "distinct (map rf_name (filter initialised gs))" "f \<in> set (filter initialised gs)"
      using gs(1,2) True by (simp_all add: distinct_map_filter)
    have now: "property_of ?ps (rf_name f) = initial_value f" using gs(3) by (simp add: object_after_def named_properties(1) [OF d])
    have set: "set_property (rf_name f) (canonical_field f v) ?ps = object_after gs look (past @ [f])"
      using True by (auto simp: object_after_def named_properties(2) [OF d] v_def intro!: map_cong)
    have keep: "canonical_field f v = initial_value f \<Longrightarrow> ?ps = object_after gs look (past @ [f])"
      using True by (auto simp: object_after_def v_def)
    show ?thesis
    proof (cases "rf_repeated f")
      case True
      have arr: "canonical_field f v = PArray (map c (list_items v))" using True by (simp add: canonical_field_def c_def)
      have "foldl (\<lambda>ps e. apply_entry f e ps) ?ps (map Tagged xs) = foldl (\<lambda>ps x. store f (c x) ps) ?ps xs" for xs
        by (simp add: foldl_map c_def)
      with True show ?thesis using set keep stores_push [OF True, of "list_items v" c ?ps]
        by (auto simp: entries_def now initial_value_def arr push_values_def c_def [symmetric] v_def [symmetric])
    next
      case False
      with True have "\<not> isCodec (rf_type f)" "\<not> rf_optional f" by (auto simp: initialised_def)
      with False show ?thesis using set keep
        by (auto simp: entries_def canonical_field_def initial_value_def store_def v_def [symmetric])
    qed
  next
    case False
    then have nr: "\<not> rf_repeated f" by (simp add: initialised_def)
    have new: "rf_name f \<notin> fst ` set ?ps" using False gs(3) by (auto simp: object_after_def dest: names)
    have "v = PUndefined" if "\<not> rf_optional f" "isDefault (rf_type f) v"
      using that False by (auto simp: initialised_def isCodec_def isDefault_def split: FieldType.splits)
    with False nr show ?thesis using new gs(2)
      by (auto simp: entries_def store_def property_of_new set_property_new v_def [symmetric]) (auto simp: object_after_def v_def)
  qed
qed

lemma object_after_unknown: "f \<notin> set gs \<Longrightarrow> object_after gs look (past @ [f]) = object_after gs look past"
  by (auto simp: object_after_def)

subsection \<open>Messages\<close>

text \<open>First two versions of a schema in which a field number means the same field.\<close>

definition same_fields :: "RuntimeField list \<Rightarrow> RuntimeField list \<Rightarrow> bool" where
  "same_fields fs gs \<longleftrightarrow> (\<forall>f \<in> set fs. \<forall>g \<in> set gs. rf_number f = rf_number g \<longrightarrow> f = g)"

text \<open>What a reader of the schema \<open>gs\<close> sees of an object that was written with the schema \<open>fs\<close>.\<close>

definition seen :: "RuntimeField list \<Rightarrow> RuntimeField list \<Rightarrow> properties \<Rightarrow> text_string \<Rightarrow> pvalue" where
  "seen fs gs ps name =
     (if \<exists>g \<in> set gs. rf_name g = name \<and> rf_number g \<in> rf_number ` set fs then property_of ps name else PUndefined)"

lemma fields_decoded:
  assumes ok: "\<And>f. f \<in> set fs \<Longrightarrow> field_ok f \<and> value_decodes (rf_type f)" "distinct fs" "set fs \<inter> set past = {}"
    and gs: "distinct (map rf_number gs)" "distinct (map rf_name gs)" "same_fields fs gs"
    and look: "\<And>f. f \<in> set fs \<inter> set gs \<Longrightarrow> look (rf_name f) = property_of ps (rf_name f)"
    and e: "mapR (encode_field ps) fs = Inr bss" "length (concat bss) < 2 ^ 53"
  shows "decode_fields stack gs (object_after gs look past) (reader_at pre (concat bss)) = Inr (object_after gs look (past @ fs))"
  using ok(1) gs(3) look e ok(2,3)
proof (induction fs arbitrary: bss pre past)
  case Nil
  then show ?case by (subst decode_fields.simps) (simp add: rd_done_def)
next
  case (Cons f fs)
  from Cons.prems(4) obtain b bss' where b: "encode_field ps f = Inr b" "mapR (encode_field ps) fs = Inr bss'" "bss = b # bss'"
    by (auto simp: result_simps)
  from encode_field_entries [OF b(1)] obtain es where es: "mapR (encode_entry f) (entries f (property_of ps (rf_name f))) = Inr es" "b = concat es" by blast
  have f: "field_ok f" "value_decodes (rf_type f)" using Cons.prems(1) by simp_all
  have len: "length (concat es) < 2 ^ 53" "length (concat bss') < 2 ^ 53" using Cons.prems(5) b(3) es(2) by simp_all
  have "decode_fields stack gs (object_after gs look past) (reader_at pre (concat es @ concat bss'))
    = decode_fields stack gs (object_after gs look (past @ [f])) (reader_at (pre @ concat es) (concat bss'))"
  proof (cases "f \<in> set gs")
    case True
    have "look (rf_name f) = property_of ps (rf_name f)" using Cons.prems(3) True by simp
    moreover have "is_entry_of f e" if "e \<in> set (entries f (property_of ps (rf_name f)))" for e using that by (auto simp: is_entry_of_def)
    ultimately show ?thesis
      using object_after_next [OF gs(2) True, of past look] Cons.prems(7) entries_decoded [OF f(1) True gs(1) f(2) _ es(1) len(1)] by simp
  next
    case False
    then have "rf_number f \<notin> rf_number ` set gs" using Cons.prems(2) by (auto simp: same_fields_def)
    from entries_skipped [OF f(1) this es(1) len(1)] show ?thesis by (simp add: object_after_unknown [OF False])
  qed
  moreover have "decode_fields stack gs (object_after gs look (past @ [f])) (reader_at (pre @ concat es) (concat bss')) = Inr (object_after gs look ((past @ [f]) @ fs))"
    using Cons.prems b len by (intro Cons.IH) (auto simp: same_fields_def)
  ultimately show ?case by (simp add: b(3) es(2))
qed

lemma object_after_all:
  assumes "schema_ok fs" "schema_ok gs" "same_fields fs gs"
  shows "object_after gs (seen fs gs ps) fs = canonical_message gs (seen fs gs ps)"
proof -
  let ?look = "seen fs gs ps"
  have undef: "?look (rf_name g) = PUndefined" if g: "g \<in> set gs" "g \<notin> set fs" for g
  proof -
    have "h = g" if "h \<in> set gs" "rf_name h = rf_name g" for h using that g assms(2) by (auto simp: distinct_map dest: inj_onD)
    then have "\<not> (\<exists>h \<in> set gs. rf_name h = rf_name g \<and> rf_number h \<in> rf_number ` set fs)"
      using g assms(3) unfolding same_fields_def by (metis image_iff)
    then show ?thesis unfolding seen_def by (rule if_not_P)
  qed
  let ?A = "filter (\<lambda>g. g \<in> set gs \<and> \<not> initialised g \<and> ?look (rf_name g) \<noteq> PUndefined) fs"
  let ?B = "filter (\<lambda>g. \<not> initialised g \<and> ?look (rf_name g) \<noteq> PUndefined) gs"
  have "?A = ?B"
  proof (rule map_sorted_distinct_set_unique [where f = rf_number])
    show sets: "set ?A = set ?B" using undef by auto
    show "inj_on rf_number (set ?A \<union> set ?B)" unfolding sets using assms(2) by (auto simp: distinct_map inj_on_def)
  qed (use assms in \<open>simp_all add: sorted_filter distinct_map_filter\<close>)
  then show ?thesis using undef by (auto simp: object_after_def canonical_message_fields canonical_field_def initial_value_def)
qed

lemma message_decoded:
  assumes "encodeMessage fs v = Inr bs" "own_properties v = Some ps" "length bs < 2 ^ 53"
    and ok: "schema_ok fs" "schema_ok gs" "same_fields fs gs" "\<And>f. f \<in> set fs \<Longrightarrow> value_decodes (rf_type f)"
  shows "decode_fields stack gs (initial gs) (new_reader bs) = Inr (canonical_message gs (seen fs gs ps))"
proof -
  from assms(1,2) obtain bss where b: "mapR (encode_field ps) fs = Inr bss" "bs = concat bss"
    by (auto simp: encodeMessage_fields result_simps)
  have look: "seen fs gs ps (rf_name f) = property_of ps (rf_name f)" if "f \<in> set fs \<inter> set gs" for f using that by (auto simp: seen_def)
  have "distinct fs" using ok(1) by (auto simp: distinct_map)
  with fields_decoded [of fs "[]" gs "seen fs gs ps" ps bss stack "[]"] ok b assms(3) look initial_object [of gs "seen fs gs ps"]
  show ?thesis by (simp add: new_reader_at object_after_all [OF ok(1-3)])
qed

lemma seen_self: "f \<in> set fs \<Longrightarrow> seen fs fs ps (rf_name f) = property_of ps (rf_name f)"
  by (auto simp: seen_def)

lemma canonical_message_look:
  assumes "\<And>f. f \<in> set fs \<Longrightarrow> look (rf_name f) = look' (rf_name f)"
  shows "canonical_message fs look = canonical_message fs look'"
  using assms by (auto simp: canonical_message_fields intro!: map_cong filter_cong)

lemma same_fields_self: "schema_ok fs \<Longrightarrow> same_fields fs fs"
  by (auto simp: same_fields_def distinct_map dest: inj_onD)

lemma type_value_decodes: "type_ok type \<Longrightarrow> value_decodes type"
proof (induction "size type" arbitrary: type rule: less_induct)
  case less
  show ?case
  proof (cases type)
    case (Scalar s)
    then show ?thesis using encode_plain_decodes by (simp add: value_decodes_def encodeValue.simps)
  next
    case (Message fs)
    have sub: "value_decodes (rf_type f)" if f: "f \<in> set fs" for f
      using less.hyps [of "rf_type f"] field_type_size [OF f] less.prems f Message by (auto dest: field_okD)
    show ?thesis
      unfolding value_decodes_def
    proof (intro allI impI)
      fix stack v bs assume e: "encodeValue type v = Inr bs" "length bs < 2 ^ 53"
      then obtain inner ps where i: "encodeMessage fs v = Inr inner" "lengthDelimited inner = Inr bs" "own_properties v = Some ps"
        by (auto simp: encodeValue.simps [of "Message fs"] Message result_simps pb_error_def split: if_splits)
      have b: "bs = varint_groups (length inner) @ inner" by (rule lengthDelimited_Inr [OF i(2)])
      then have "length inner < 2 ^ 53" using e(2) by simp
      with message_decoded [OF i(1,3) this, of fs] less.prems Message same_fields_self [of fs] sub
      have "decode_fields stack fs (initial fs) (new_reader inner) = Inr (canonical_message fs (seen fs fs ps))" by blast
      moreover have "canonical_message fs (seen fs fs ps) = canonical_message fs (property_of ps)"
        by (rule canonical_message_look) (simp add: seen_self)
      ultimately show "decodable stack type bs (canonical_value type v)"
        using b i(3) \<open>length inner < 2 ^ 53\<close> by (auto simp: Message canonical_value.simps)
    qed
  qed
qed

text \<open>The reader does not look at \<open>packed\<close>: it accepts both representations of a repeated field.\<close>

fun expanded :: "RuntimeField \<Rightarrow> RuntimeField" where
  "expanded (RuntimeField name number type repeated packed opt) = RuntimeField name number type repeated False opt"

lemma expanded_sel [simp]:
  "rf_name (expanded f) = rf_name f" "rf_number (expanded f) = rf_number f" "rf_type (expanded f) = rf_type f"
  "rf_repeated (expanded f) = rf_repeated f" "rf_optional (expanded f) = rf_optional f"
  by (cases f; simp)+

lemma expanded_step [simp]: "push_values (expanded f) vs ps = push_values f vs ps" "store (expanded f) v ps = store f v ps"
    "initialised (expanded f) = initialised f" "canonical_field (expanded f) v = canonical_field f v"
  by (simp_all add: push_values_def store_def Let_def initialised_def canonical_field_def)

lemma find_map: "find P (map f xs) = map_option f (find (P \<circ> f) xs)"
  by (induction xs) simp_all

lemma decode_expanded: "decode_fields stack (map expanded fs) ps r = decode_fields stack fs ps r"
proof (induction stack fs ps r rule: decode_fields.induct)
  case (1 stack fs ps r)
  consider "rd_done r" | e where "\<not> rd_done r" "read_tag r = Inl e" | tag r1 where "\<not> rd_done r" "read_tag r = Inr (tag, r1)"
    by (cases "read_tag r") auto
  then show ?case
  proof cases
    case (3 tag r1)
    have find: "find (\<lambda>f. rf_number f = fst tag) (map expanded fs) = map_option expanded (find (\<lambda>f. rf_number f = fst tag) fs)"
      by (simp add: find_map comp_def)
    note IH = "1.IH" [OF 3 refl]
    show ?thesis
    proof (cases "find (\<lambda>f. rf_number f = fst tag) fs")
      case None
      then show ?thesis using 3 find IH(1) [OF None _ refl]
        by (subst (1 2) decode_fields.simps) (auto intro!: bindR_cong)
    next
      case (Some f)
      show ?thesis
      proof (cases "rf_repeated f \<and> isPackable (rf_type f) \<and> snd tag = 2")
        case True
        then show ?thesis using 3 find Some IH(2) [OF Some True _ refl]
          by (subst (1 2) decode_fields.simps) (auto intro!: bindR_cong)
      next
        case False
        show ?thesis
        proof (cases "snd tag \<noteq> wireType (rf_type f)")
          case True
          with False show ?thesis using 3 find Some IH(3) [OF Some False True _ refl]
            by (subst (1 2) decode_fields.simps) (auto intro!: bindR_cong)
        next
          case same: False
          show ?thesis
          proof (cases "rf_type f")
            case (Scalar s)
            with False same show ?thesis using 3 find Some IH(4) [OF Some False same Scalar _ refl]
              by (subst (1 2) decode_fields.simps) (auto intro!: bindR_cong)
          next
            case (Message sub)
            with False same show ?thesis using 3 find Some IH(6) [OF Some False same Message _ refl]
              by (subst (1 2) decode_fields.simps) (auto intro!: bindR_cong)
          qed
        qed
      qed
    qed
  qed (simp_all add: decode_fields.simps)
qed

lemma canonical_expanded: "canonical_message (map expanded fs) look = canonical_message fs look"
  by (simp add: canonical_message_fields filter_map comp_def)

lemma initial_expanded: "initial (map expanded fs) = initial fs"
  by (simp add: initial_def foldl_map cong: if_cong FieldType.case_cong)

text \<open>Two versions of a schema agree when a number that both use has the same name, type and presence in both; whether it is
  packed may differ.\<close>

definition agree :: "RuntimeField list \<Rightarrow> RuntimeField list \<Rightarrow> bool" where
  "agree fs gs \<longleftrightarrow> (\<forall>f \<in> set fs. \<forall>g \<in> set gs. rf_number f = rf_number g \<longrightarrow> expanded f = expanded g)"

definition adopt :: "RuntimeField list \<Rightarrow> RuntimeField \<Rightarrow> RuntimeField" where
  "adopt fs g = (case find (\<lambda>f. rf_number f = rf_number g) fs of Some f \<Rightarrow> f | None \<Rightarrow> g)"

lemma adopt_expanded:
  assumes "agree fs gs" "g \<in> set gs"
  shows "expanded (adopt fs g) = expanded g" "adopt fs g = g \<or> adopt fs g \<in> set fs" "rf_number g \<in> rf_number ` set fs \<Longrightarrow> adopt fs g \<in> set fs"
  using assms by (auto simp: adopt_def agree_def find_Some_iff find_None_iff split: option.splits)

lemma expanded_eq: "expanded f = expanded g \<Longrightarrow> rf_name f = rf_name g \<and> rf_number f = rf_number g"
  by (metis expanded_sel(1,2))

lemma adopted_schema:
  assumes "schema_ok fs" "schema_ok gs" "agree fs gs"
  defines "hs \<equiv> map (adopt fs) gs"
  shows "schema_ok hs" "same_fields fs hs" "map expanded hs = map expanded gs" "seen fs hs ps = seen fs gs ps"
proof -
  note a = adopt_expanded [OF assms(3)]
  have sel: "rf_name (adopt fs g) = rf_name g \<and> rf_number (adopt fs g) = rf_number g" if "g \<in> set gs" for g
    using expanded_eq [OF a(1) [OF that]] .
  show "map expanded hs = map expanded gs" using a(1) by (simp add: hs_def)
  have maps: "map rf_name hs = map rf_name gs" "map rf_number hs = map rf_number gs" using sel by (simp_all add: hs_def)
  have ok: "field_ok (adopt fs g)" if "g \<in> set gs" for g using a(2) [OF that] that assms(1,2) by auto
  show "schema_ok hs" using assms(2) ok unfolding type_ok.simps maps by (auto simp: hs_def)
  show "same_fields fs hs"
    unfolding same_fields_def
  proof (intro ballI impI)
    fix f h assume f: "f \<in> set fs" "h \<in> set hs" "rf_number f = rf_number h"
    then obtain g where g: "g \<in> set gs" "h = adopt fs g" by (auto simp: hs_def)
    with f sel have "rf_number g \<in> rf_number ` set fs" by (metis image_eqI)
    with a(3) g have "h \<in> set fs" by blast
    with f assms(1) show "f = h" by (auto simp: distinct_map dest: inj_onD)
  qed
  show "seen fs hs ps = seen fs gs ps" using sel by (auto simp: seen_def hs_def fun_eq_iff)
qed

lemma decoded_canonical:
  assumes "schema_ok fs" "schema_ok gs" "agree fs gs"
    and "encodeMessage fs v = Inr bs" "own_properties v = Some ps" "length bs < 2 ^ 53"
  shows "decodeMessage stack gs bs = Inr (PObject (canonical_message gs (seen fs gs ps)))"
proof -
  define hs where "hs = map (adopt fs) gs"
  note h = adopted_schema [OF assms(1-3), folded hs_def]
  have "value_decodes (rf_type f)" if "f \<in> set fs" for f using assms(1) that by (auto intro: type_value_decodes dest: field_okD)
  with message_decoded [OF assms(4-6,1) h(1,2)]
  have d: "decode_fields stack hs (initial hs) (new_reader bs) = Inr (canonical_message hs (seen fs hs ps))" by blast
  have "decode_fields stack gs (initial gs) r = decode_fields stack hs (initial hs) r" for r
    using decode_expanded [of stack gs "initial gs" r] decode_expanded [of stack hs "initial hs" r] initial_expanded [of gs] initial_expanded [of hs] h(3) by simp
  moreover have "canonical_message hs (seen fs hs ps) = canonical_message gs (seen fs gs ps)"
    using canonical_expanded [of hs] canonical_expanded [of gs] h(3,4) by simp
  ultimately show ?thesis using d by (simp add: decodeMessage_def)
qed

subsection \<open>Compiled schemas\<close>

text \<open>A schema is an object, so that no name occurs twice; its nested types come from \<open>defineMessage\<close> too.\<close>

definition declared :: "field_descriptor list \<Rightarrow> bool" where
  "declared ds \<longleftrightarrow> distinct (map fd_name ds) \<and> (\<forall>d \<in> set ds. type_ok (fd_type d))"

lemma compile_fields_ok:
  assumes "compile_fields fs ds = Inr gs" "declared ds" "\<forall>f \<in> set fs. field_ok f" "distinct (map rf_number fs)"
    "distinct (map rf_name fs)" "rf_name ` set fs \<inter> fd_name ` set ds = {}"
  shows "(\<forall>g \<in> set gs. field_ok g) \<and> distinct (map rf_number gs) \<and> distinct (map rf_name gs)"
  using assms
proof (induction fs ds rule: compile_fields.induct)
  case (2 fs d ds)
  from "2.prems"(1) have
    n: "\<not> (fd_number d < 1 \<or> fd_number d > int maxFieldNumber)" "\<not> (19000 \<le> fd_number d \<and> fd_number d \<le> 19999)"
      "\<not> list_ex (\<lambda>f. int (rf_number f) = fd_number d) fs" "\<not> (fd_packed d \<noteq> None \<and> \<not> (fd_repeated d \<and> isPackable (fd_type d)))"
    and rest: "compile_fields (fs @ [compile_field d]) ds = Inr gs" by (auto simp: pb_error_def split: if_splits)
  have d: "type_ok (fd_type d)" using "2.prems"(2) by (simp add: declared_def)
  have "field_ok (compile_field d)" using d n by (auto simp: compile_field_def number_ok_def le_nat_iff nat_le_iff)
  moreover have "rf_number (compile_field d) \<notin> rf_number ` set fs" using n by (auto simp: compile_field_def list_ex_iff)
  moreover have "rf_name (compile_field d) = fd_name d" by (simp add: compile_field_def)
  ultimately show ?case using "2.IH" [OF n rest] "2.prems"(2-) by (auto simp: declared_def)
qed simp

lemma compiled_schema_ok:
  assumes "compileSchema ds = Inr fs" "declared ds"
  shows "schema_ok fs"
proof -
  obtain gs where g: "compile_fields [] ds = Inr gs" "fs = sort_key rf_number gs" using assms(1) by (auto simp: compileSchema_def result_simps)
  from compile_fields_ok [OF g(1) assms(2)] show ?thesis by (simp add: g(2) distinct_map)
qed

subsection \<open>Every input is decoded or rejected\<close>

definition fails_cleanly :: "js_error + 'a \<Rightarrow> bool" where
  "fails_cleanly res \<longleftrightarrow> (\<forall>e. res = Inl e \<longrightarrow> (\<exists>s. e = ProtobufError s))"

named_theorems clean_reads

lemma clean_basic [clean_reads]:
  "fails_cleanly (Inr x)" "fails_cleanly (pb_error s)"
  "fails_cleanly res \<Longrightarrow> (\<And>x. res = Inr x \<Longrightarrow> fails_cleanly (f x)) \<Longrightarrow> fails_cleanly (bindR res f)"
  by (auto simp: fails_cleanly_def pb_error_def bindR_eq_Inl)

lemma clean_varint: "fails_cleanly (varint_from acc shift r)"
proof (induction acc shift r rule: varint_from.induct)
  case (1 acc shift r)
  then show ?case
    by (subst varint_from.simps) (auto simp: Let_def require_def intro!: clean_reads)
qed

lemma clean_reader [clean_reads]:
  "fails_cleanly (read_varint r)" "fails_cleanly (read_tag r)" "fails_cleanly (read_delimited r)" "fails_cleanly (read_slice n r)" "fails_cleanly (read_le n r)"
  by (auto simp: read_varint_def read_tag_def read_delimited_def read_length_def read_slice_def read_le_def require_def Let_def
      intro!: clean_reads clean_varint)

text \<open>A stack that overflows is deeper than the bytes that are left: a group costs at least its tag.\<close>

definition fails_within :: "nat \<Rightarrow> nat \<Rightarrow> js_error + 'a \<Rightarrow> bool" where
  "fails_within stack k res \<longleftrightarrow> (\<forall>e. res = Inl e \<longrightarrow> (\<exists>s. e = ProtobufError s) \<or> e = RangeError \<and> stack < k)"

lemma within_clean: "fails_cleanly res \<Longrightarrow> fails_within stack k res"
  by (simp add: fails_cleanly_def fails_within_def)

lemma within_bind:
  "fails_within stack k res \<Longrightarrow> (\<And>x. res = Inr x \<Longrightarrow> fails_within stack k (f x)) \<Longrightarrow> fails_within stack k (bindR res f)"
  by (cases res) (auto simp: fails_within_def)

lemma within_mono: "fails_within stack k res \<Longrightarrow> (stack < k \<Longrightarrow> stack' < k') \<Longrightarrow> fails_within stack' k' res"
  by (auto simp: fails_within_def)

text \<open>The fuel of \<open>skip_field\<close> is enough.\<close>

lemma clean_skip:
  "2 * rd_remaining r + 2 \<le> n \<Longrightarrow> fails_within stack (rd_remaining r) (pb_skip n stack wt number r)"
  "2 * rd_remaining r + 1 \<le> n \<Longrightarrow> fails_within stack (rd_remaining r) (skip_group n stack number r)"
proof (induction n stack wt number r and n stack number r rule: pb_skip_skip_group.induct)
  case (2 n stack wt number r)
  show ?case
  proof (cases "wt = 3")
    case True
    then show ?thesis using 2 by simp
  next
    case False
    then have "fails_cleanly (pb_skip (Suc n) stack wt number r)" by (auto intro!: clean_reads)
    then show ?thesis by (rule within_clean)
  qed
next
  case (4 n stack number r)
  show ?case
  proof (cases "read_tag r")
    case (Inl e)
    then have "fails_cleanly (skip_group (Suc n) stack number r)"
      using clean_reader(2) [of r] by (auto intro: clean_reads simp: fails_cleanly_def pb_error_def)
    then show ?thesis by (rule within_clean)
  next
    case (Inr tr)
    then obtain tag r1 where t: "read_tag r = Inr (tag, r1)" by (cases tr) simp
    have less: "rd_remaining r1 < rd_remaining r" by (rule moved_remaining [OF movesD [OF read_moves(2) t]])
    show ?thesis
    proof (cases "rd_done r \<or> snd tag = 4")
      case True
      then have "fails_cleanly (skip_group (Suc n) stack number r)" using t by (auto intro: clean_reads)
      then show ?thesis by (rule within_clean)
    next
      case False
      then have nd: "\<not> rd_done r" "snd tag \<noteq> 4" by auto
      show ?thesis
      proof (cases "stack = 0")
        case True
        then show ?thesis using nd t less by (simp add: fails_within_def)
      next
        case s: False
        have "fails_within (stack - 1) (rd_remaining r1) (pb_skip n (stack - 1) (snd tag) (fst tag) r1)"
          using "4.IH"(1) [OF nd(1) t refl nd(2) s] "4.prems" less by simp
        then have "fails_within stack (rd_remaining r) (pb_skip n (stack - 1) (snd tag) (fst tag) r1)"
          by (rule within_mono) (use less s in simp)
        moreover have "fails_within stack (rd_remaining r) (skip_group n stack number r2)"
          if r2: "pb_skip n (stack - 1) (snd tag) (fst tag) r1 = Inr (u, r2)" for u r2
        proof (rule within_mono)
          have "rd_remaining r2 < rd_remaining r1" by (rule moved_remaining [OF skip_moved(1) [OF r2]])
          then show "fails_within stack (rd_remaining r2) (skip_group n stack number r2)" "stack < rd_remaining r2 \<Longrightarrow> stack < rd_remaining r"
            using "4.IH"(2) [OF nd(1) t refl nd(2) s r2 refl] "4.prems" less by simp_all
        qed
        ultimately show ?thesis using nd t s by (auto intro!: within_bind)
      qed
    qed
  qed
qed (simp_all add: fails_within_def)

lemma clean_values [clean_reads]: "fails_cleanly (decodeScalar s r)" "fails_cleanly (decode_plain s r)"
proof -
  show d: "fails_cleanly (decodeScalar s r)" by (cases s) (auto simp: decodeScalar_def intro!: clean_reads)
  show "fails_cleanly (decode_plain s r)" using d by (cases s) (auto simp: decode_plain_def intro!: clean_reads split: sum.splits)
qed

lemma within_skip: "rd_remaining r < k \<Longrightarrow> fails_within (Suc stack) k (skip_field stack wt number r)"
  unfolding skip_field_def by (rule within_mono [OF clean_skip(1)]) simp_all

lemma clean_packed [clean_reads]: "fails_cleanly (scalar_values type r)"
proof -
  have "fails_cleanly (packed_values s r)" for s
  proof (induction s r rule: packed_values.induct)
    case (1 s r)
    then show ?case by (subst packed_values.simps) (auto intro!: clean_reads)
  qed
  then show ?thesis by (cases type) (auto simp: scalar_values_def intro: clean_reads)
qed

lemma delimited_length: "read_delimited r = Inr (bs, r') \<Longrightarrow> length bs \<le> rd_remaining r"
proof -
  assume "read_delimited r = Inr (bs, r')"
  then obtain n r1 where n: "read_length r = Inr (n, r1)" "read_slice n r1 = Inr (bs, r')" by (auto simp: read_delimited_def result_simps)
  have "moved r r1" using movesD [OF read_moves(1)] n(1) by (auto simp: read_length_def result_simps pb_error_def split: if_splits)
  then have "rd_remaining r1 < rd_remaining r" by (rule moved_remaining)
  moreover have "length bs \<le> rd_remaining r1" using n(2) by (auto simp: read_slice_def result_simps rd_slice_def rd_remaining_def)
  ultimately show ?thesis by simp
qed

lemma within_fields: "fails_within (Suc stack) (rd_remaining r) (decode_fields stack fs ps r)"
proof (induction stack fs ps r rule: decode_fields.induct)
  case (1 stack fs ps r)
  consider "rd_done r" | e where "\<not> rd_done r" "read_tag r = Inl e" | tag r1 where "\<not> rd_done r" "read_tag r = Inr (tag, r1)"
    by (cases "read_tag r") auto
  then show ?case
  proof cases
    case 2
    then show ?thesis using clean_reader(2) [of r] by (simp add: decode_fields.simps fails_cleanly_def fails_within_def)
  next
    case (3 tag r1)
    note IH = "1.IH" [OF 3 refl] and step = decode_fields.simps [of stack fs ps r]
    have less: "rd_remaining r1 < rd_remaining r" by (rule moved_remaining [OF movesD [OF read_moves(2) 3(2)]])
    have on: "fails_within (Suc stack) (rd_remaining r2) res \<Longrightarrow> moved r1 r2 \<Longrightarrow> fails_within (Suc stack) (rd_remaining r) res"
      for r2 and res :: "js_error + properties"
      using moved_remaining [of r1 r2] less by (elim within_mono) simp
    have skip: "fails_within (Suc stack) (rd_remaining r) (skip_field stack wt n r1)" for wt n using less by (rule within_skip)
    show ?thesis
    proof (cases "find (\<lambda>f. rf_number f = fst tag) fs")
      case None
      then show ?thesis using 3 IH(1) [OF None _ refl] skip on movesD [OF skip_field_moves]
        by (auto simp: step intro!: within_bind)
    next
      case (Some f)
      show ?thesis
      proof (cases "rf_repeated f \<and> isPackable (rf_type f) \<and> snd tag = 2")
        case True
        then show ?thesis using 3 Some IH(2) [OF Some True _ refl] on movesD [OF read_moves(3)]
          by (auto simp: step intro!: within_bind within_clean [OF clean_reader(3)] within_clean [OF clean_packed]) blast
      next
        case False
        have sub: "fails_within (Suc stack) (rd_remaining r) (decode_fields stack sub (initial sub) (new_reader bs))"
          if "rf_type f = Message sub" "snd tag = wireType (rf_type f)" "read_delimited r1 = Inr (bs, r2)" for sub bs r2
        proof (rule within_mono)
          show "fails_within (Suc stack) (rd_remaining (new_reader bs)) (decode_fields stack sub (initial sub) (new_reader bs))"
            using IH(5) [OF Some False _ that(1,3) refl] that(2) by simp
          show "Suc stack < rd_remaining (new_reader bs) \<Longrightarrow> Suc stack < rd_remaining r"
            using delimited_length [OF that(3)] less by (simp add: rd_remaining_def new_reader_def)
        qed
        show ?thesis
        proof (cases "snd tag = wireType (rf_type f)")
          case w: False
          then show ?thesis using 3 Some False IH(3) [OF Some False w _ refl] skip on movesD [OF skip_field_moves]
            by (auto simp: step intro!: within_bind)
        next
          case w: True
          show ?thesis
          proof (cases "rf_type f")
            case (Scalar s)
            have "fails_within (Suc stack) (rd_remaining r) (decode_fields stack fs (store f x ps) r2)" if "decode_plain s r1 = Inr (x, r2)" for x r2
              using on [OF IH(4) [OF Some False _ Scalar that refl] movesD [OF decode_plain_moves that]] w by simp
            then show ?thesis using 3 Some False w Scalar within_clean [OF clean_values(2)] by (auto simp: step intro!: within_bind)
          next
            case (Message sub)
            have "fails_within (Suc stack) (rd_remaining r) (decode_fields stack fs (store f (PObject x) ps) r2)"
              if "read_delimited r1 = Inr (bs, r2)" "decode_fields stack sub (initial sub) (new_reader bs) = Inr x" for bs x r2
              using on [OF IH(6) [OF Some False _ Message that(1) refl that(2)] movesD [OF read_moves(3) that(1)]] w by simp
            then show ?thesis using 3 Some False w Message sub [OF Message w] within_clean [OF clean_reader(3)]
              by (auto simp: step intro!: within_bind)
          qed
        qed
      qed
    qed
  qed (simp add: decode_fields.simps within_clean clean_basic)
qed

text \<open>Groups nested deeper than the stack throw.\<close>

lemma read_group_tag: "read_tag (reader_at pre (11 # rest)) = Inr ((1, 3), reader_at (pre @ [11]) rest)"
  by (simp add: read_tag_def read_varint_def varint_from.simps [of 0] require_def maxFieldNumber_def Let_def)

lemma deep_group:
  "2 * stack + 2 \<le> n \<Longrightarrow> skip_group n stack number (reader_at pre (replicate (Suc stack) 11)) = Inl RangeError"
proof (induction stack arbitrary: n number pre)
  case 0
  then show ?case using read_group_tag [of pre "[]"] by (cases n) (simp_all add: rd_done_def)
next
  case (Suc stack)
  then obtain m where m: "n = Suc (Suc m)" "2 * stack + 2 \<le> m" by (cases n rule: nat.exhaust; cases "n - 1") auto
  then show ?case using read_group_tag [of pre "replicate (Suc stack) 11"] Suc.IH [OF m(2), of 1 "pre @ [11]"]
    by (simp add: rd_done_def)
qed

subsection \<open>Values that come back as they are\<close>

text \<open>Integers written as plain numbers, floats of single precision, and strings that are well-formed and do not begin with a
  byte order mark.\<close>

definition plain_scalar :: "ScalarType \<Rightarrow> pvalue \<Rightarrow> bool" where
  "plain_scalar s v \<longleftrightarrow>
     (s \<in> {Int32, Uint32, Sint32, Fixed32, Sfixed32, Enum} \<longrightarrow> (\<exists>n. \<bar>n\<bar> < 2 ^ 53 \<and> v = PNumber (number_of_int n))) \<and>
     (s = Float \<longrightarrow> (\<exists>b. \<not> is_nan32 b \<and> v = PNumber (number_of_float b))) \<and>
     (s = String \<longrightarrow> (\<exists>u. storable_string u \<and> v = PString u))"

lemma canonical_plain: "plain_scalar s v \<Longrightarrow> canonical_scalar s v = v"
  by (cases s) (auto simp: plain_scalar_def canonical_scalar_def integer_of_number float_of_number_float storable_string_def strip_bom_def)

subsection \<open>Properties\<close>

text \<open>C13: an object that a compiled schema encodes is decoded, also by another version of the schema, into its canonical form.
  The versions may use different numbers as long as a number that both use means the same field, packed or not: fields
  that the reader does not know are skipped, fields that only it knows have their default values, and what is read of the
  others is the value written, as long as the message takes fewer than \<open>2 ^ 53\<close> bytes. By \<open>canonical_plain\<close> plain scalars are
  unchanged.\<close>

theorem protobuf_roundtrip:
  assumes "compileSchema old = Inr fs" "declared old" "compileSchema new = Inr gs" "declared new" "agree fs gs"
    and "encodeMessage fs v = Inr bs" "own_properties v = Some ps" "length bs < 2 ^ 53"
  shows "decodeMessage stack gs bs = Inr (PObject (canonical_message gs (seen fs gs ps)))"
  using assms by (intro decoded_canonical compiled_schema_ok)

text \<open>C38: decoding any bytes with any schema ends: in a message, in a \<open>ProtobufError\<close>, or, when groups of unknown fields are
  nested more deeply than the call stack allows, in the engine's \<open>RangeError\<close>. The last needs more bytes than the stack
  has frames for nested calls of \<open>skip\<close>, so that every input shorter than that is decoded or rejected by the module
  itself; and it does happen: for every stack there is such an input, which no schema without field 1 survives.\<close>

theorem protobuf_decode_total:
  "((\<exists>v. decodeMessage stack fs bytes = Inr v) \<or> (\<exists>s. decodeMessage stack fs bytes = Inl (ProtobufError s)) \<or>
     decodeMessage stack fs bytes = Inl RangeError \<and> stack + 1 < length bytes) \<and>
   (1 \<notin> rf_number ` set fs \<longrightarrow> decodeMessage stack fs (replicate (stack + 2) 11) = Inl RangeError)"
proof (intro conjI impI)
  have "fails_within (Suc stack) (length bytes) (decode_fields stack fs (initial fs) (new_reader bytes))"
    using within_fields [of stack "new_reader bytes" fs "initial fs"] by (simp add: rd_remaining_def new_reader_def)
  then show "(\<exists>v. decodeMessage stack fs bytes = Inr v) \<or> (\<exists>s. decodeMessage stack fs bytes = Inl (ProtobufError s)) \<or>
     decodeMessage stack fs bytes = Inl RangeError \<and> stack + 1 < length bytes"
    by (cases "decode_fields stack fs (initial fs) (new_reader bytes)") (auto simp: decodeMessage_def fails_within_def)
next
  assume "1 \<notin> rf_number ` set fs"
  then have f: "find (\<lambda>f. rf_number f = 1) fs = None" by (auto simp: find_None_iff image_iff)
  have "skip_field stack 3 1 (reader_at [11] (replicate (Suc stack) 11)) = Inl RangeError"
    using deep_group [of stack "2 * Suc stack + 1" 1 "[11]"] by (simp add: skip_field_def rd_remaining_def reader_at_def)
  then show "decodeMessage stack fs (replicate (stack + 2) 11) = Inl RangeError"
    using read_group_tag [of "[]" "replicate (Suc stack) 11"] f
    by (simp add: decodeMessage_def new_reader_at decode_fields.simps rd_done_def)
qed

theorem protobuf_decode_total_witness: "decodeMessage 1000 [] (replicate (1000 + 2) 11) = Inl RangeError"
  using protobuf_decode_total [of 1000 "[]" "[]"] by simp

subsection \<open>Samples\<close>

definition point_schema :: "field_descriptor list" where
  "point_schema = [
     \<lparr>fd_name = [120], fd_number = 1, fd_type = Scalar Double, fd_repeated = False, fd_packed = None, fd_optional = False\<rparr>,
     \<lparr>fd_name = [121], fd_number = 2, fd_type = Scalar Int32, fd_repeated = False, fd_packed = None, fd_optional = True\<rparr>]"

definition point_fields :: "RuntimeField list" where
  "point_fields = map compile_field point_schema"

definition writer_schema :: "field_descriptor list" where
  "writer_schema = [
     \<lparr>fd_name = [105], fd_number = 1, fd_type = Scalar Uint32, fd_repeated = False, fd_packed = None, fd_optional = False\<rparr>,
     \<lparr>fd_name = [118], fd_number = 4, fd_type = Scalar Sint32, fd_repeated = True, fd_packed = None, fd_optional = False\<rparr>,
     \<lparr>fd_name = [116], fd_number = 3, fd_type = Scalar String, fd_repeated = True, fd_packed = None, fd_optional = False\<rparr>,
     \<lparr>fd_name = [112], fd_number = 5, fd_type = Message point_fields, fd_repeated = False, fd_packed = None, fd_optional = False\<rparr>]"

definition reader_schema :: "field_descriptor list" where
  "reader_schema = [
     \<lparr>fd_name = [98], fd_number = 7, fd_type = Scalar Bool, fd_repeated = False, fd_packed = None, fd_optional = False\<rparr>,
     \<lparr>fd_name = [118], fd_number = 4, fd_type = Scalar Sint32, fd_repeated = True, fd_packed = Some False, fd_optional = False\<rparr>,
     \<lparr>fd_name = [112], fd_number = 5, fd_type = Message point_fields, fd_repeated = False, fd_packed = None, fd_optional = False\<rparr>]"

definition sample_object :: properties where
  "sample_object = [([105], PNumber (number_of_int 7)), ([118], PArray [PNumber (number_of_int (- 1)), PNumber (number_of_int 1)]),
     ([116], PArray [PString [97]]), ([112], PObject [([120], PNumber 0x4000000000000000)])]"

definition sample_bytes :: "byte list" where
  "sample_bytes = [8, 7, 26, 1, 97, 34, 2, 1, 2, 42, 9, 9, 0, 0, 0, 0, 0, 0, 0, 64]"

lemma sample_schemas:
  "compileSchema writer_schema = Inr [
     RuntimeField [105] 1 (Scalar Uint32) False False False, RuntimeField [116] 3 (Scalar String) True False False,
     RuntimeField [118] 4 (Scalar Sint32) True True False, RuntimeField [112] 5 (Message point_fields) False False False]"
  "compileSchema reader_schema = Inr [
     RuntimeField [118] 4 (Scalar Sint32) True False False, RuntimeField [112] 5 (Message point_fields) False False False,
     RuntimeField [98] 7 (Scalar Bool) False False False]"
  "point_fields = [RuntimeField [120] 1 (Scalar Double) False False False, RuntimeField [121] 2 (Scalar Int32) False False True]"
  by (simp_all add: compileSchema_def writer_schema_def reader_schema_def point_fields_def point_schema_def maxFieldNumber_def compile_field_def isPackable_def)

lemmas encode_simps = encodeMessage.simps encodeValue.simps property_of_def isDefault_def isCodec_def encode_packed_def tagged_def wireType_def
  encode_plain_def lengthDelimited_def pb_tag_def pb_varint_def varint_groups.simps encodeScalar_def integer_in_def integer_of_number nonzero_number
  zigzag_value(1) numeral_eq_Suc

lemma be_bytes_numeral: "be_bytes (numeral k) n = be_bytes (pred_numeral k) (n div 256) @ [of_nat n]"
  unfolding numeral_eq_Suc [of k] by (rule be_bytes.simps(2))

lemmas wire_simps = property_of_def isDefault_def isCodec_def wireType_def encode_plain_def encodeScalar_def varint_groups.simps
  lengthDelimited_def pb_varint_def pb_tag_def tagged_def be_bytes_numeral

lemma sample_point: "encodeMessage point_fields (PObject [([120], PNumber 0x4000000000000000)]) = Inr [9, 0, 0, 0, 0, 0, 0, 0, 64]"
  by (simp add: sample_schemas(3) encodeMessage_fields encode_field_def encodeValue.simps wire_simps is_zero_def f64_exponent_def f64_fraction_def)

lemma utf8_letter: "encodeUtf8 [97] = [97]"
  by (simp add: encodeUtf8_loop encode_loop_def next_cp_def encode_cp_def)

lemma sample_encoded:
  "encode_field sample_object (RuntimeField [105] 1 (Scalar Uint32) False False False) = Inr [8, 7]"
  "encode_field sample_object (RuntimeField [116] 3 (Scalar String) True False False) = Inr [26, 1, 97]"
  "encode_field sample_object (RuntimeField [118] 4 (Scalar Sint32) True True False) = Inr [34, 2, 1, 2]"
  "encode_field sample_object (RuntimeField [112] 5 (Message point_fields) False False False) = Inr [42, 9, 9, 0, 0, 0, 0, 0, 0, 0, 64]"
  subgoal by (simp add: encode_field_def sample_object_def encodeValue.simps wire_simps nonzero_number integer_in_def integer_of_number)
  subgoal by (simp add: encode_field_def sample_object_def encodeValue.simps wire_simps utf8_letter)
  subgoal by (simp add: encode_field_def sample_object_def encode_packed_def wire_simps integer_in_def integer_of_number zigzag_value)
  subgoal by (simp add: encode_field_def sample_object_def encodeValue.simps wire_simps sample_point)
  done

lemma sample_seen:
  assumes "compileSchema writer_schema = Inr fs" "compileSchema reader_schema = Inr gs"
  shows "canonical_message gs (seen fs gs sample_object) =
    [([118], PArray [PNumber (number_of_int (- 1)), PNumber (number_of_int 1)]), ([98], PBoolean False), ([112], PObject [([120], PNumber 0x4000000000000000)])]"
  using assms by (auto simp: sample_schemas canonical_message_fields initialised_def isCodec_def seen_def sample_object_def property_of_def
    canonical_field_def isDefault_def implicit_default_def defaultValue_def canonical_scalar_def integer_of_number canonical_value.simps is_zero_def
    f64_exponent_def f64_fraction_def)

theorem protobuf_roundtrip_witness:
  "\<exists>fs gs. compileSchema writer_schema = Inr fs \<and> compileSchema reader_schema = Inr gs \<and> encodeMessage fs (PObject sample_object) = Inr sample_bytes \<and>
    decodeMessage 1000 gs sample_bytes = Inr (PObject
      [([118], PArray [PNumber (number_of_int (- 1)), PNumber (number_of_int 1)]), ([98], PBoolean False), ([112], PObject [([120], PNumber 0x4000000000000000)])])"
proof -
  obtain fs gs where c: "compileSchema writer_schema = Inr fs" "compileSchema reader_schema = Inr gs" by (auto simp: sample_schemas)
  have e: "encodeMessage fs (PObject sample_object) = Inr sample_bytes"
    using c(1) by (auto simp: sample_schemas(1) encodeMessage_fields sample_encoded sample_encoded(1) [unfolded One_nat_def] sample_bytes_def)
  have "type_ok (Message point_fields)" by (simp add: sample_schemas(3) number_ok_def maxFieldNumber_def)
  then have "declared writer_schema" "declared reader_schema" by (simp_all add: declared_def writer_schema_def reader_schema_def)
  moreover have "agree fs gs" using c by (auto simp: sample_schemas agree_def)
  ultimately have "decodeMessage 1000 gs sample_bytes = Inr (PObject (canonical_message gs (seen fs gs sample_object)))"
    using protobuf_roundtrip [OF c(1) _ c(2) _ _ e] by (simp add: sample_bytes_def)
  with c e show ?thesis by (auto simp: sample_seen [OF c])
qed

subsection \<open>Divergences\<close>

text \<open>A negative zero in a field of implicit presence is not written, since \<open>_isDefault\<close> compares with \<open>===\<close>, and is read as zero.\<close>

lemma negative_zero_lost:
  defines "fs \<equiv> [RuntimeField [120] 1 (Scalar Double) False False False]"
  shows "encodeMessage fs (PObject [([120], PNumber 0x8000000000000000)]) = Inr []"
    and "decodeMessage stack fs [] = Inr (PObject [([120], PNumber 0)])"
  by (simp_all add: fs_def encodeMessage_fields encode_field_def property_of_def isDefault_def is_zero_def f64_exponent_def f64_fraction_def
      decodeMessage_def decode_fields.simps initial_def defaultValue_def rd_done_def new_reader_def)


text \<open>A second occurrence of a nested message replaces the fields of the first that have implicit presence, even those it does not
  contain, because its decoded object already holds their defaults; protocol buffers ask for the two to be merged.\<close>

lemma read_byte_varint: "b < 128 \<Longrightarrow> read_varint (reader_at pre (of_nat b # rest)) = Inr (b, reader_at (pre @ [of_nat b]) rest)"
  using decodes_asD [OF decodes_varint [of b], of pre rest] by (simp add: varint_groups.simps)

lemma submessage_replaced:
  defines "sub \<equiv> [RuntimeField [97] 1 (Scalar Uint32) False False False, RuntimeField [98] 2 (Scalar Uint32) False False False]"
  shows "decodeMessage stack [RuntimeField [109] 1 (Message sub) False False False] [10, 2, 8, 1, 10, 2, 16, 2] =
    Inr (PObject [([109], PObject [([97], PNumber 0), ([98], PNumber (number_of_int 2))])])"
proof -
  have tag: "read_tag (reader_at pre (b # rest)) = Inr ((unat b div 8, unat b mod 8), reader_at (pre @ [b]) rest)"
    if "unat b < 128" "1 \<le> unat b div 8" "unat b mod 8 \<le> 5" for b pre rest
    using that read_byte_varint [of "unat b" pre rest] nat_and_exp_minus_1 [of "unat b" 3]
    by (auto simp: read_tag_def Let_def drop_bit_eq_div maxFieldNumber_def)
  have slice: "read_delimited (reader_at pre (2 # b # c # rest)) = Inr ([b, c], reader_at (pre @ [2, b, c]) rest)" for pre b c rest
    using decodes_asD [OF decodes_delimited [of "[b, c]"], of pre rest] by (simp add: varint_groups.simps)
  have num: "decode_plain Uint32 (reader_at pre (b # rest)) = Inr (PNumber (number_of_int (uint b)), reader_at (pre @ [b]) rest)"
    if "unat b < 128" for b pre rest
    using that read_byte_varint [of "unat b" pre rest] unsigned_less [of b, where ?'a = int]
    by (simp add: decode_plain_def decodeScalar_def take_bit_int_eq_self)
  have fields: "decode_fields stack sub ps (new_reader [b, c]) = Inr ps'"
    if "ps' = store (if b = 8 then sub ! 0 else sub ! 1) (PNumber (number_of_int (uint c))) ps" "b = 8 \<or> b = 16" "unat c < 128" for b c ps ps'
    using that tag [of b "[]" "[c]"] num [of c "[b]" "[]"]
    by (subst decode_fields.simps, auto simp: new_reader_at rd_done_def sub_def wireType_def isPackable_def)
      (subst decode_fields.simps, simp add: rd_done_def)+
  show ?thesis
    using tag [of 10 "[]" "[2, 8, 1, 10, 2, 16, 2]"] slice [of "[10]" 8 1 "[10, 2, 16, 2]"] tag [of 10 "[10, 2, 8, 1]" "[2, 16, 2]"]
      slice [of "[10, 2, 8, 1, 10]" 16 2 "[]"] fields [OF refl, of 8 1 "initial sub"] fields [OF refl, of 16 2 "initial sub"]
    apply (simp add: decodeMessage_def new_reader_at [of "[10, 2, 8, 1, 10, 2, 16, 2]"])
    apply (subst decode_fields.simps, simp add: rd_done_def wireType_def isPackable_def)
    apply (subst decode_fields.simps, simp add: rd_done_def wireType_def isPackable_def)
    apply (subst decode_fields.simps, simp add: rd_done_def sub_def initial_def defaultValue_def store_def isCodec_def property_of_def spread_def)
    done
qed

end
