(* ===== verification/Scanner.thy ===== *)
theory Scanner
  imports Thrift_Io Js_Number
begin

text \<open>
  \<open>parsing/scanner.ts\<close>: the cursor over bytes or text that the parsers of the library share.

  A scanner is the record of its private fields; \<open>#format\<close> and \<open>#filename\<close>, which only name the input in messages, are
  left out, and a \<open>ParseError\<close> carries its detail without the values in it and the mark it points at. The numbers \<open>-1\<close> for the
  end of the input are \<open>None\<close>. Positions and counts are natural numbers. A loop that need not end is an option.
\<close>

datatype Encoding = Enc_utf8 | Enc_ascii | Enc_latin1 | Enc_utf16le | Enc_utf16be

record ScannerMark =
  mark_offset :: nat
  mark_position :: "(nat \<times> nat) option"

record scanner =
  sc_buf :: "byte list"
  sc_encoding :: "Encoding option"
  sc_offset :: nat
  sc_line :: nat
  sc_col :: nat
  sc_lineColValid :: bool

datatype scan_error = ParseError string ScannerMark | TextError string | CodePointRange nat

type_synonym 'a scan = "scanner \<Rightarrow> scan_error + 'a \<times> scanner"

definition new_scanner :: "byte list \<Rightarrow> Encoding option \<Rightarrow> scanner" where
  "new_scanner bs enc = \<lparr>sc_buf = bs, sc_encoding = enc, sc_offset = 0, sc_line = 1, sc_col = 1, sc_lineColValid = True\<rparr>"

definition text_scanner :: "text_string \<Rightarrow> Encoding option \<Rightarrow> scanner" where
  "text_scanner source enc = new_scanner (encodeUtf8 source) (Some (case enc of Some e \<Rightarrow> e | None \<Rightarrow> Enc_utf8))"

definition sc_done :: "scanner \<Rightarrow> bool" where
  "sc_done sc \<longleftrightarrow> length (sc_buf sc) \<le> sc_offset sc"

definition remainingBytes :: "scanner \<Rightarrow> int" where
  "remainingBytes sc = int (length (sc_buf sc)) - int (sc_offset sc)"

definition mark :: "scanner \<Rightarrow> ScannerMark" where
  "mark sc = \<lparr>mark_offset = sc_offset sc,
     mark_position = (if sc_encoding sc \<noteq> None \<and> sc_lineColValid sc then Some (sc_line sc, sc_col sc) else None)\<rparr>"

definition restore :: "ScannerMark \<Rightarrow> scanner \<Rightarrow> scanner" where
  "restore s sc = (case mark_position s of
     Some (l, c) \<Rightarrow> sc\<lparr>sc_offset := mark_offset s, sc_line := l, sc_col := c, sc_lineColValid := True\<rparr>
   | None \<Rightarrow> sc\<lparr>sc_offset := mark_offset s, sc_lineColValid := False\<rparr>)"

definition parse_error :: "string \<Rightarrow> scanner \<Rightarrow> scan_error + 'a" where
  "parse_error detail sc = Inl (ParseError detail (mark sc))"

definition requireText :: "scanner \<Rightarrow> scan_error + Encoding" where
  "requireText sc = (case sc_encoding sc of None \<Rightarrow> Inl (TextError ''text ops require encoding'') | Some enc \<Rightarrow> Inr enc)"

definition get_line :: "scanner \<Rightarrow> scan_error + nat" where
  "get_line sc = bindR (requireText sc) (\<lambda>_.
     if sc_lineColValid sc then Inr (sc_line sc) else Inl (TextError ''position tracking invalidated by byte op''))"

definition get_column :: "scanner \<Rightarrow> scan_error + nat" where
  "get_column sc = bindR (requireText sc) (\<lambda>_.
     if sc_lineColValid sc then Inr (sc_col sc) else Inl (TextError ''position tracking invalidated by byte op''))"

subsection \<open>Byte operations\<close>

definition byte_moved :: "nat \<Rightarrow> scanner \<Rightarrow> scanner" where
  "byte_moved n sc = sc\<lparr>sc_offset := sc_offset sc + n, sc_lineColValid := (sc_lineColValid sc \<and> sc_encoding sc = None)\<rparr>"

definition peekByte :: "nat \<Rightarrow> scanner \<Rightarrow> nat option" where
  "peekByte at' sc = (let i = sc_offset sc + at' in if i < length (sc_buf sc) then Some (unat (sc_buf sc ! i)) else None)"

definition eatByte :: "nat scan" where
  "eatByte sc = (if sc_done sc then parse_error ''unexpected end of input'' sc
     else Inr (unat (sc_buf sc ! sc_offset sc), byte_moved 1 sc))"

definition bytes_from :: "nat \<Rightarrow> nat \<Rightarrow> scanner \<Rightarrow> byte list" where
  "bytes_from start stop sc = take (stop - start) (drop start (sc_buf sc))"

definition eatBytes :: "nat \<Rightarrow> byte list scan" where
  "eatBytes n sc = (if sc_offset sc + n > length (sc_buf sc) then parse_error ''not enough bytes'' sc
     else Inr (bytes_from (sc_offset sc) (sc_offset sc + n) sc, if n > 0 then byte_moved n sc else sc))"

definition matchBytes :: "nat list \<Rightarrow> scanner \<Rightarrow> bool \<times> scanner" where
  "matchBytes b sc =
     (let len = length b in
      if len = 0 then (True, sc)
      else if sc_offset sc + len > length (sc_buf sc) then (False, sc)
      else if map unat (bytes_from (sc_offset sc) (sc_offset sc + len) sc) \<noteq> b then (False, sc)
      else (True, byte_moved len sc))"

definition eatUntilByte :: "nat \<Rightarrow> nat option \<Rightarrow> scanner \<Rightarrow> byte list \<times> scanner" where
  "eatUntilByte c maxLen sc =
     (let limit = (case maxLen of Some m \<Rightarrow> min (length (sc_buf sc)) (sc_offset sc + m) | None \<Rightarrow> length (sc_buf sc));
        bs = takeWhile (\<lambda>b. unat b \<noteq> c) (bytes_from (sc_offset sc) limit sc) in
      (bs, if bs = [] then sc else byte_moved (length bs) sc))"

definition bytesSlice :: "ScannerMark \<Rightarrow> ScannerMark option \<Rightarrow> scanner \<Rightarrow> byte list" where
  "bytesSlice from till sc = bytes_from (mark_offset from) (case till of Some m \<Rightarrow> mark_offset m | None \<Rightarrow> sc_offset sc) sc"

datatype scan_number = FloatNumber number | IntegerNumber int | BigInteger int

definition readNum :: "nat \<Rightarrow> bool \<Rightarrow> bool \<Rightarrow> bool \<Rightarrow> bool \<Rightarrow> scan_number scan" where
  "readNum byteLen isFloat le sgnd big sc =
     (if sc_offset sc + byteLen > length (sc_buf sc) then parse_error ''unexpected end of input'' sc
      else
        let bs = bytes_from (sc_offset sc) (sc_offset sc + byteLen) sc; n = be_uint (if le then rev bs else bs);
          i = (if sgnd then signed_take_bit (8 * byteLen - 1) (int n) else int n) in
        Inr (if isFloat then FloatNumber (if byteLen = 4 then number_of_float (of_nat n) else of_nat n)
             else if big then BigInteger i else IntegerNumber i, byte_moved byteLen sc))"

definition sc_readU8 :: "scan_number scan" where "sc_readU8 = readNum 1 False False False False"
definition sc_readI8 :: "scan_number scan" where "sc_readI8 = readNum 1 False False True False"
definition sc_readU16BE :: "scan_number scan" where "sc_readU16BE = readNum 2 False False False False"
definition sc_readU16LE :: "scan_number scan" where "sc_readU16LE = readNum 2 False True False False"
definition sc_readI16BE :: "scan_number scan" where "sc_readI16BE = readNum 2 False False True False"
definition sc_readI16LE :: "scan_number scan" where "sc_readI16LE = readNum 2 False True True False"
definition sc_readU32BE :: "scan_number scan" where "sc_readU32BE = readNum 4 False False False False"
definition sc_readU32LE :: "scan_number scan" where "sc_readU32LE = readNum 4 False True False False"
definition sc_readI32BE :: "scan_number scan" where "sc_readI32BE = readNum 4 False False True False"
definition sc_readI32LE :: "scan_number scan" where "sc_readI32LE = readNum 4 False True True False"
definition sc_readF32BE :: "scan_number scan" where "sc_readF32BE = readNum 4 True False False False"
definition sc_readF32LE :: "scan_number scan" where "sc_readF32LE = readNum 4 True True False False"
definition sc_readF64BE :: "scan_number scan" where "sc_readF64BE = readNum 8 True False False False"
definition sc_readF64LE :: "scan_number scan" where "sc_readF64LE = readNum 8 True True False False"
definition sc_readU64BE :: "scan_number scan" where "sc_readU64BE = readNum 8 False False False True"
definition sc_readU64LE :: "scan_number scan" where "sc_readU64LE = readNum 8 False True False True"
definition sc_readI64BE :: "scan_number scan" where "sc_readI64BE = readNum 8 False False True True"
definition sc_readI64LE :: "scan_number scan" where "sc_readI64LE = readNum 8 False True True True"

definition readField :: "nat \<Rightarrow> 'a scan \<Rightarrow> 'a scan" where
  "readField byteLen f sc = (if sc_offset sc + byteLen > length (sc_buf sc) then parse_error ''unexpected end of input while reading a field'' sc else f sc)"

definition sc_readU16BEField :: "scan_number scan" where "sc_readU16BEField = readField 2 sc_readU16BE"
definition sc_readU32BEField :: "scan_number scan" where "sc_readU32BEField = readField 4 sc_readU32BE"

definition jump :: "nat \<Rightarrow> unit scan" where
  "jump offset sc = (if offset > length (sc_buf sc) then parse_error ''invalid jump offset'' sc
     else Inr ((), sc\<lparr>sc_offset := offset, sc_lineColValid := (sc_lineColValid sc \<and> sc_encoding sc = None)\<rparr>))"

definition subScanner :: "nat \<Rightarrow> Encoding option \<Rightarrow> scanner scan" where
  "subScanner byteLength enc sc = bindR (eatBytes byteLength sc) (\<lambda>(bs, sc).
     Inr (new_scanner bs (case enc of Some e \<Rightarrow> Some e | None \<Rightarrow> sc_encoding sc), sc))"

subsection \<open>Encodings\<close>

fun utf16_units :: "bool \<Rightarrow> byte list \<Rightarrow> text_string" where
  "utf16_units le (a # b # bs) = of_nat (be_uint (if le then [b, a] else [a, b])) # utf16_units le bs"
| "utf16_units le bs = []"

definition decodeBytes :: "byte list \<Rightarrow> Encoding \<Rightarrow> text_string" where
  "decodeBytes bs enc = (case enc of
     Enc_utf8 \<Rightarrow> (case decodeUtf8 bs False False of Inl _ \<Rightarrow> [] | Inr s \<Rightarrow> s)
   | Enc_ascii \<Rightarrow> map (\<lambda>b. of_nat (unat b)) bs
   | Enc_latin1 \<Rightarrow> map (\<lambda>b. of_nat (unat b)) bs
   | Enc_utf16le \<Rightarrow> utf16_units True bs
   | Enc_utf16be \<Rightarrow> utf16_units False bs)"

definition encodeForMatch :: "text_string \<Rightarrow> Encoding \<Rightarrow> byte list" where
  "encodeForMatch s enc = (case enc of
     Enc_utf8 \<Rightarrow> encodeUtf8 s
   | Enc_ascii \<Rightarrow> encodeUtf8 s
   | Enc_latin1 \<Rightarrow> map (\<lambda>u. of_nat (unat u AND 255)) s
   | Enc_utf16le \<Rightarrow> concat (map (\<lambda>u. [of_nat (unat u AND 255), of_nat (unat (drop_bit 8 u) AND 255)]) s)
   | Enc_utf16be \<Rightarrow> concat (map (\<lambda>u. [of_nat (unat (drop_bit 8 u) AND 255), of_nat (unat u AND 255)]) s))"

text \<open>The code point at an offset and its width; a sequence of UTF-8 is not validated beyond its first byte and its length.\<close>

definition peekCpAt :: "scanner \<Rightarrow> nat \<Rightarrow> (nat \<times> nat) option" where
  "peekCpAt sc offset =
     (let buf = sc_buf sc; len = length buf; byte = (\<lambda>i. unat (buf ! (offset + i)));
        b = byte 0 in
      if offset \<ge> len then None
      else if sc_encoding sc = Some Enc_utf16le \<or> sc_encoding sc = Some Enc_utf16be then
        (if offset + 1 \<ge> len then None
         else
           let word = (\<lambda>i. if sc_encoding sc = Some Enc_utf16le then byte i + 256 * byte (i + 1) else 256 * byte i + byte (i + 1)); w0 = word 0 in
           if 55296 \<le> w0 \<and> w0 \<le> 56319 \<and> offset + 3 < len \<and> 56320 \<le> word 2 \<and> word 2 \<le> 57343
           then Some (65536 + push_bit 10 (w0 - 55296) + (word 2 - 56320), 4)
           else Some (w0, 2))
      else if sc_encoding sc = Some Enc_ascii \<or> sc_encoding sc = Some Enc_latin1 then Some (b, 1)
      else if b < 128 then Some (b, 1)
      else if b AND 224 = 192 \<and> offset + 1 < len then Some (push_bit 6 (b AND 31) OR (byte 1 AND 63), 2)
      else if b AND 240 = 224 \<and> offset + 2 < len then
        Some (push_bit 12 (b AND 15) OR push_bit 6 (byte 1 AND 63) OR (byte 2 AND 63), 3)
      else if b AND 248 = 240 \<and> offset + 3 < len then
        Some (push_bit 18 (b AND 7) OR push_bit 12 (byte 1 AND 63) OR push_bit 6 (byte 2 AND 63) OR (byte 3 AND 63), 4)
      else Some (65533, 1))"

lemma peekCpAt_width: "peekCpAt sc offset = Some (cp, bw) \<Longrightarrow> 0 < bw \<and> offset + bw \<le> length (sc_buf sc)"
  by (auto simp: peekCpAt_def Let_def split: if_splits)

definition advanceText :: "nat \<Rightarrow> nat \<Rightarrow> scanner \<Rightarrow> scanner" where
  "advanceText cp bw sc =
     (if cp = 10 then sc\<lparr>sc_offset := sc_offset sc + bw, sc_line := sc_line sc + 1, sc_col := 1\<rparr>
      else sc\<lparr>sc_offset := sc_offset sc + bw, sc_col := sc_col sc + 1\<rparr>)"

lemma advanceText_fields [simp]:
  "sc_buf (advanceText cp bw sc) = sc_buf sc" "sc_encoding (advanceText cp bw sc) = sc_encoding sc"
  "sc_offset (advanceText cp bw sc) = sc_offset sc + bw" "sc_lineColValid (advanceText cp bw sc) = sc_lineColValid sc"
  by (simp_all add: advanceText_def)

definition fromCodePoint :: "nat \<Rightarrow> scan_error + text_string" where
  "fromCodePoint cp = (if cp > 1114111 then Inl (CodePointRange cp) else Inr (units_of_cp cp))"

subsection \<open>Text operations\<close>

fun peek_loop :: "nat \<Rightarrow> nat \<Rightarrow> scanner \<Rightarrow> scan_error + text_string" where
  "peek_loop 0 off sc = Inr []"
| "peek_loop (Suc n) off sc = (case peekCpAt sc off of
     None \<Rightarrow> Inr []
   | Some (cp, bw) \<Rightarrow> bindR (fromCodePoint cp) (\<lambda>s. bindR (peek_loop n (off + bw) sc) (\<lambda>rest. Inr (s @ rest))))"

definition peek :: "nat \<Rightarrow> scanner \<Rightarrow> scan_error + text_string" where
  "peek n sc = bindR (requireText sc) (\<lambda>_. peek_loop n (sc_offset sc) sc)"

fun code_ahead :: "nat \<Rightarrow> nat \<Rightarrow> scanner \<Rightarrow> nat option" where
  "code_ahead 0 off sc = map_option fst (peekCpAt sc off)"
| "code_ahead (Suc n) off sc = (case peekCpAt sc off of None \<Rightarrow> None | Some (cp, bw) \<Rightarrow> code_ahead n (off + bw) sc)"

definition peekCode :: "nat \<Rightarrow> scanner \<Rightarrow> scan_error + nat option" where
  "peekCode n sc = bindR (requireText sc) (\<lambda>_. Inr (code_ahead n (sc_offset sc) sc))"

fun eat_loop :: "nat \<Rightarrow> text_string scan" where
  "eat_loop 0 sc = Inr ([], sc)"
| "eat_loop (Suc n) sc = (case peekCpAt sc (sc_offset sc) of
     None \<Rightarrow> Inr ([], sc)
   | Some (cp, bw) \<Rightarrow> bindR (fromCodePoint cp) (\<lambda>s. bindR (eat_loop n (advanceText cp bw sc)) (\<lambda>(rest, sc). Inr (s @ rest, sc))))"

definition eat :: "nat \<Rightarrow> text_string scan" where
  "eat n sc = bindR (requireText sc) (\<lambda>_. eat_loop n sc)"

definition next_code :: "scanner \<Rightarrow> (nat \<times> nat) option" where
  "next_code sc =
     (let b = unat (sc_buf sc ! sc_offset sc) in
      if b < 128 \<and> sc_encoding sc \<noteq> Some Enc_utf16le \<and> sc_encoding sc \<noteq> Some Enc_utf16be then Some (b, 1)
      else peekCpAt sc (sc_offset sc))"

function while_loop :: "(nat \<Rightarrow> bool) \<Rightarrow> scanner \<Rightarrow> scanner" where
  "while_loop P sc =
     (if sc_offset sc < length (sc_buf sc) then (case next_code sc of
        None \<Rightarrow> sc
      | Some (cp, bw) \<Rightarrow> if P cp then while_loop P (advanceText cp bw sc) else sc)
      else sc)"
  by pat_completeness auto
termination
  by (relation "measure (\<lambda>(P, sc). length (sc_buf sc) - sc_offset sc)")
    (auto simp: next_code_def Let_def split: if_splits dest!: peekCpAt_width)

declare while_loop.simps [simp del]

definition eatWhile :: "(nat \<Rightarrow> bool) \<Rightarrow> text_string scan" where
  "eatWhile P sc = bindR (requireText sc) (\<lambda>enc.
     let sc' = while_loop P sc in Inr (decodeBytes (bytes_from (sc_offset sc) (sc_offset sc') sc) enc, sc'))"

definition eatUntil :: "(nat \<Rightarrow> bool) \<Rightarrow> text_string scan" where
  "eatUntil P = eatWhile (\<lambda>c. \<not> P c)"

definition skipSpaceTab :: "unit scan" where
  "skipSpaceTab sc = bindR (eatWhile (\<lambda>c. c = 32 \<or> c = 9) sc) (\<lambda>(_, sc). Inr ((), sc))"

definition skipWhitespace :: "unit scan" where
  "skipWhitespace sc = bindR (eatWhile (\<lambda>c. c = 32 \<or> c = 9 \<or> c = 10 \<or> c = 13) sc) (\<lambda>(_, sc). Inr ((), sc))"

partial_function (option) advance_over :: "nat \<Rightarrow> nat \<Rightarrow> scanner \<Rightarrow> scanner option" where
  "advance_over byteI len sc = (if byteI < len then (case peekCpAt sc (sc_offset sc) of
     None \<Rightarrow> advance_over byteI len sc
   | Some (cp, bw) \<Rightarrow> advance_over (byteI + bw) len (advanceText cp bw sc)) else Some sc)"

definition matchAndAdvance :: "text_string \<Rightarrow> Encoding \<Rightarrow> scanner \<Rightarrow> (bool \<times> scanner) option" where
  "matchAndAdvance s enc sc =
     (let encoded = encodeForMatch s enc in
      if sc_offset sc + length encoded > length (sc_buf sc) then Some (False, sc)
      else if bytes_from (sc_offset sc) (sc_offset sc + length encoded) sc \<noteq> encoded then Some (False, sc)
      else map_option (Pair True) (advance_over 0 (length encoded) sc))"

definition eatChar :: "text_string \<Rightarrow> scanner \<Rightarrow> (scan_error + bool \<times> scanner) option" where
  "eatChar s sc = (case requireText sc of Inl e \<Rightarrow> Some (Inl e) | Inr enc \<Rightarrow> map_option Inr (matchAndAdvance s enc sc))"

definition expect :: "text_string \<Rightarrow> scanner \<Rightarrow> (scan_error + unit \<times> scanner) option" where
  "expect s sc = (case requireText sc of Inl e \<Rightarrow> Some (Inl e)
     | Inr enc \<Rightarrow> map_option (\<lambda>(ok, sc). if ok then Inr ((), sc) else bindR (peek 1 sc) (\<lambda>_. parse_error ''unexpected text'' sc)) (matchAndAdvance s enc sc))"

definition scanned_text :: "ScannerMark \<Rightarrow> ScannerMark option \<Rightarrow> scanner \<Rightarrow> scan_error + text_string" where
  "scanned_text from till sc = bindR (requireText sc) (\<lambda>enc. Inr (decodeBytes (bytesSlice from till sc) enc))"

definition eatText :: "nat \<Rightarrow> Encoding option \<Rightarrow> text_string scan" where
  "eatText n enc sc = bindR (eatBytes n sc) (\<lambda>(bs, sc).
     Inr (decodeBytes bs (case enc of Some e \<Rightarrow> e | None \<Rightarrow> (case sc_encoding sc of Some e \<Rightarrow> e | None \<Rightarrow> Enc_utf8)), sc))"

subsection \<open>Lines, tokens and lists\<close>

function line_loop :: "nat \<Rightarrow> Encoding \<Rightarrow> text_string scan" where
  "line_loop start enc sc =
     (if sc_offset sc < length (sc_buf sc) then
        let b = unat (sc_buf sc ! sc_offset sc) in
        if b = 10 then Inl (ParseError ''expected CRLF line ending, got bare LF''
          \<lparr>mark_offset = sc_offset sc, mark_position = Some (sc_line sc, sc_col sc)\<rparr>)
        else if b = 13 then
          (if sc_offset sc + 1 \<ge> length (sc_buf sc) \<or> unat (sc_buf sc ! (sc_offset sc + 1)) \<noteq> 10 then parse_error ''expected CRLF line ending'' sc
           else Inr (decodeBytes (bytes_from start (sc_offset sc) sc) enc,
             sc\<lparr>sc_offset := sc_offset sc + 2, sc_line := sc_line sc + 1, sc_col := 1\<rparr>))
        else (case peekCpAt sc (sc_offset sc) of
            None \<Rightarrow> parse_error ''expected CRLF line ending before end of input'' sc
          | Some (cp, bw) \<Rightarrow> line_loop start enc (advanceText cp bw sc))
      else parse_error ''expected CRLF line ending before end of input'' sc)"
  by pat_completeness auto
termination
  by (relation "measure (\<lambda>(start, enc, sc). length (sc_buf sc) - sc_offset sc)") (auto dest!: peekCpAt_width)

declare line_loop.simps [simp del]

definition readLineCRLF :: "text_string scan" where
  "readLineCRLF sc = bindR (requireText sc) (\<lambda>enc. line_loop (sc_offset sc) enc sc)"

lemma line_loop_moves: "line_loop start enc sc = Inr (s, sc') \<Longrightarrow> sc_buf sc' = sc_buf sc \<and> sc_offset sc < sc_offset sc' \<and> sc_offset sc' \<le> length (sc_buf sc)"
proof (induction start enc sc rule: line_loop.induct)
  case (1 start enc sc)
  from "1.prems" "1.IH" show ?case
    by (subst (asm) line_loop.simps) (fastforce simp: Let_def parse_error_def split: if_splits option.splits dest: peekCpAt_width)
qed

function readHeaderBlock :: "text_string list scan" where
  "readHeaderBlock sc = bindR (readLineCRLF sc) (\<lambda>(line, sc).
     if line = [] then Inr ([], sc) else bindR (readHeaderBlock sc) (\<lambda>(rest, sc). Inr (line # rest, sc)))"
  by pat_completeness auto
termination
  by (relation "measure (\<lambda>sc. length (sc_buf sc) - sc_offset sc)")
    (auto simp: readLineCRLF_def result_simps dest!: line_loop_moves)

declare readHeaderBlock.simps [simp del]

definition readAsciiSpanUntilByte :: "nat \<Rightarrow> bool \<Rightarrow> byte list scan" where
  "readAsciiSpanUntilByte delimiter consume sc =
     (let span = takeWhile (\<lambda>b. unat b \<noteq> delimiter) (drop (sc_offset sc) (sc_buf sc)); k = length (takeWhile (\<lambda>b. unat b \<le> 127) span) in
      if k < length span then parse_error ''expected ASCII byte'' (sc\<lparr>sc_offset := sc_offset sc + k\<rparr>)
      else
        let n = length span + (if consume \<and> sc_offset sc + length span < length (sc_buf sc) then 1 else 0) in
        Inr (span, if n > 0 then byte_moved n sc else sc))"

definition isProtocolTokenCode :: "nat \<Rightarrow> bool" where
  "isProtocolTokenCode code \<longleftrightarrow> code > 32 \<and> code < 127 \<and> code \<noteq> 44 \<and> code \<noteq> 58 \<and> code \<noteq> 59"

definition readToken :: "text_string scan" where
  "readToken sc = bindR (eatWhile isProtocolTokenCode sc) (\<lambda>(token, sc).
     if token = [] then parse_error ''expected a token'' sc else Inr (token, sc))"

definition trimAscii :: "text_string \<Rightarrow> text_string" where
  "trimAscii s = (let blank = (\<lambda>u. u = 32 \<or> u = 9) in rev (dropWhile blank (rev (dropWhile blank s))))"

definition readDelimitedList :: "code_unit \<Rightarrow> text_string list scan" where
  "readDelimitedList delimiter sc = bindR (eatWhile (\<lambda>_. True) sc) (\<lambda>(raw, sc).
     Inr (filter (\<lambda>s. s \<noteq> []) (map trimAscii (split_char delimiter raw)), sc))"


definition ascii_lower :: "text_string \<Rightarrow> text_string" where
  "ascii_lower s = map (\<lambda>u. if 65 \<le> unat u \<and> unat u \<le> 90 then u + 32 else u) s"

text \<open>\<open>toLowerCase\<close> on the tokens of protocols, which are ASCII.\<close>

definition expectToken :: "text_string \<Rightarrow> bool \<Rightarrow> unit scan" where
  "expectToken expected caseInsensitive sc = bindR (readToken sc) (\<lambda>(actual, sc).
     if (if caseInsensitive then ascii_lower actual = ascii_lower expected else actual = expected) then Inr ((), sc)
     else parse_error ''unexpected token'' sc)"

definition radix_digit :: "nat \<Rightarrow> code_unit \<Rightarrow> nat option" where
  "radix_digit radix u =
     (let n = unat u in
      if 48 \<le> n \<and> n \<le> 57 then Some (n - 48)
      else if radix = 16 \<and> 65 \<le> n \<and> n \<le> 70 then Some (n - 55)
      else if radix = 16 \<and> 97 \<le> n \<and> n \<le> 102 then Some (n - 87)
      else None)"

text \<open>The regular expression of \<open>readStrictInt\<close> with the \<open>parseInt\<close> after it, for the radixes 10 and 16.\<close>

definition parse_strict :: "nat \<Rightarrow> bool \<Rightarrow> text_string \<Rightarrow> int option" where
  "parse_strict radix allowSign token =
     (let signed_token = allowSign \<and> token \<noteq> [] \<and> (hd token = 43 \<or> hd token = 45); ds = map (radix_digit radix) (if signed_token then List.tl token else token) in
      if ds = [] \<or> None \<in> set ds then None
      else
        let n = int (foldl (\<lambda>a d. a * radix + (case d of Some k \<Rightarrow> k | None \<Rightarrow> 0)) 0 ds) in
        Some (number_of_bigint (if signed_token \<and> hd token = 45 then - n else n)))"

definition readStrictInt :: "nat \<Rightarrow> bool \<Rightarrow> int option \<Rightarrow> int option \<Rightarrow> int scan" where
  "readStrictInt radix allowSign lo hi sc = bindR (requireText sc) (\<lambda>_. bindR (readToken sc) (\<lambda>(token, sc).
     case parse_strict radix allowSign token of
       None \<Rightarrow> parse_error ''invalid integer'' sc
     | Some v \<Rightarrow>
         if (case lo of Some l \<Rightarrow> v < l | None \<Rightarrow> False) then parse_error ''integer too small'' sc
         else if (case hi of Some h \<Rightarrow> v > h | None \<Rightarrow> False) then parse_error ''integer too large'' sc
         else Inr (v, sc)))"

subsection \<open>Scanning UTF-8 text\<close>

abbreviation (input) utf8_bytes :: "nat list \<Rightarrow> byte list" where "utf8_bytes cps \<equiv> concat (map encode_cp cps)"
abbreviation (input) utf16_text :: "nat list \<Rightarrow> text_string" where "utf16_text cps \<equiv> concat (map units_of_cp cps)"

text \<open>The scanner stands between the code points \<open>pre\<close> and \<open>post\<close> of its text and knows the line and column.\<close>

definition positioned :: "nat list \<Rightarrow> nat list \<Rightarrow> scanner \<Rightarrow> bool" where
  "positioned pre post sc \<longleftrightarrow> sc = \<lparr>sc_buf = utf8_bytes pre @ utf8_bytes post, sc_encoding = Some Enc_utf8, sc_offset = length (utf8_bytes pre),
     sc_line = 1 + count_list pre 10, sc_col = 1 + length (takeWhile (\<lambda>c. c \<noteq> 10) (rev pre)), sc_lineColValid = True\<rparr> \<and>
     (\<forall>cp \<in> set (pre @ post). scalar_value cp)"

lemma text_scanner_positioned: "positioned [] (code_points s) (text_scanner s None)"
  using code_points_scalar by (auto simp: positioned_def text_scanner_def new_scanner_def encodeUtf8_loop encode_loop_def)

lemma base64_digits:
  assumes "y < 64" "z < 64" "w < (64::nat)"
  shows "push_bit 12 x OR push_bit 6 y OR z = (x * 64 + y) * 64 + z"
    and "push_bit 18 x OR push_bit 12 y OR push_bit 6 z OR w = ((x * 64 + y) * 64 + z) * 64 + w"
proof -
  have two: "push_bit 6 b OR c = b * 64 + c" if "c < 64" for b c :: nat using that nat_or_low_bits [of c 6 b] by (simp add: push_bit_eq_mult)
  have three: "push_bit 12 a OR (b * 64 + c) = (a * 64 + b) * 64 + c" if "b < 64" "c < 64" for a b c :: nat
    using that nat_or_low_bits [of "b * 64 + c" 12 a] by (simp add: push_bit_eq_mult algebra_simps)
  show "push_bit 12 x OR push_bit 6 y OR z = (x * 64 + y) * 64 + z" using assms two [of z y] three [of y z x] by (simp add: or.assoc)
  show "push_bit 18 x OR push_bit 12 y OR push_bit 6 z OR w = ((x * 64 + y) * 64 + z) * 64 + w"
    using assms two [of w z] three [of z w y] nat_or_low_bits [of "(y * 64 + z) * 64 + w" 18 x] by (simp add: or.assoc push_bit_eq_mult algebra_simps)
qed

lemma peek_encoded:
  assumes "scalar_value cp" "sc_buf sc = a @ encode_cp cp @ b" "sc_encoding sc = Some Enc_utf8"
  shows "peekCpAt sc (length a) = Some (cp, length (encode_cp cp))"
proof -
  have nth: "sc_buf sc ! (length a + i) = encode_cp cp ! i" if "i < length (encode_cp cp)" for i
    using that by (simp add: assms(2) nth_append)
  have len: "length (sc_buf sc) = length a + length (encode_cp cp) + length b" by (simp add: assms(2))
  consider "cp < 128" | "128 \<le> cp" "cp < 2048" | "2048 \<le> cp" "cp < 65536" | "65536 \<le> cp" "cp < 2097152"
    using assms(1) by (fastforce simp: scalar_value_def)
  then show ?thesis
  proof cases
    case 1
    then have "encode_cp cp = [of_nat cp]" by (simp add: encode_cp_def)
    then show ?thesis using 1 nth [of 0] len assms(3) by (simp add: peekCpAt_def Let_def)
  next
    case 2
    define x y where "x = cp div 64" and "y = cp mod 64"
    have e: "cp = x * 64 + y" "2 \<le> x" "x < 32" "y < 64" using 2 by (auto simp: x_def y_def)
    from encode_cp_2 [OF e] obtain b0 b1 where b: "encode_cp cp = [b0, b1]" "unat b0 = 192 + x" "unat b1 = 128 + y" by auto
    show ?thesis using nth [of 0] nth [of 1] len assms(3) e b
      by (simp add: peekCpAt_def Let_def nat_and_mask lead_digits or_header header_masks)
  next
    case 3
    define p z where "p = cp div 64" and "z = cp mod 64"
    define x y where "x = p div 64" and "y = p mod 64"
    have e: "cp = p * 64 + z" "p = x * 64 + y" "x < 16" "y < 64" "z < 64" "32 \<le> p" using 3 by (auto simp: p_def z_def x_def y_def)
    from encode_cp_3 [OF e] obtain b0 b1 b2 where b: "encode_cp cp = [b0, b1, b2]" "unat b0 = 224 + x" "unat b1 = 128 + y" "unat b2 = 128 + z" by auto
    have "push_bit 12 x OR push_bit 6 y OR z = cp" using base64_digits(1) [of y z 0 x] e by simp
    then show ?thesis using nth [of 0] nth [of 1] nth [of 2] len assms(3) e b
      by (simp add: peekCpAt_def Let_def nat_and_mask lead_digits or_header header_masks)
  next
    case 4
    define q w where "q = cp div 64" and "w = cp mod 64"
    define p z where "p = q div 64" and "z = q mod 64"
    define x y where "x = p div 64" and "y = p mod 64"
    have e: "cp = q * 64 + w" "q = p * 64 + z" "p = x * 64 + y" "x < 8" "y < 64" "z < 64" "w < 64"
      using 4 by (auto simp: q_def w_def p_def z_def x_def y_def less_mult_imp_div_less)
    have "16 \<le> p" using 4(1) e(1,2,6,7) by linarith
    from encode_cp_4 [OF e this] obtain b0 b1 b2 b3 where
      b: "encode_cp cp = [b0, b1, b2, b3]" "unat b0 = 240 + x" "unat b1 = 128 + y" "unat b2 = 128 + z" "unat b3 = 128 + w" by auto
    have "push_bit 18 x OR push_bit 12 y OR push_bit 6 z OR w = cp" using base64_digits(2) [of y z w x] e by simp
    then show ?thesis using nth [of 0] nth [of 1] nth [of 2] nth [of 3] len assms(3) e(4-7) b
      by (simp add: peekCpAt_def Let_def nat_and_mask lead_digits or_header header_masks numeral_3_eq_3)
  qed
qed

lemma positioned_fields:
  assumes "positioned pre post sc"
  shows "sc_buf sc = utf8_bytes pre @ utf8_bytes post" "sc_encoding sc = Some Enc_utf8" "sc_offset sc = length (utf8_bytes pre)"
    "requireText sc = Inr Enc_utf8" "\<And>cp. cp \<in> set pre \<or> cp \<in> set post \<Longrightarrow> scalar_value cp" "sc_lineColValid sc"
    "sc_line sc = 1 + count_list pre 10" "sc_col sc = 1 + length (takeWhile (\<lambda>c. c \<noteq> 10) (rev pre))"
  using assms by (auto simp: positioned_def requireText_def)

lemma encode_cp_length_pos: "0 < length (encode_cp cp)"
  using encode_cp_nonempty by simp

lemma peek_at:
  assumes "positioned pre (mid @ post) sc"
  shows "peekCpAt sc (length (utf8_bytes (pre @ mid))) = (case post of [] \<Rightarrow> None | cp # _ \<Rightarrow> Some (cp, length (encode_cp cp)))"
proof (cases post)
  case Nil
  then show ?thesis using positioned_fields(1) [OF assms] by (simp add: peekCpAt_def)
next
  case (Cons cp post')
  then show ?thesis
    using peek_encoded [of cp sc "utf8_bytes (pre @ mid)" "utf8_bytes post'"] positioned_fields [OF assms] by simp
qed

lemma positioned_advance:
  assumes "positioned pre (cp # post) sc"
  shows "positioned (pre @ [cp]) post (advanceText cp (length (encode_cp cp)) sc)"
  using assms by (auto simp: positioned_def advanceText_def)

lemma next_code_at:
  assumes "positioned pre (cp # post) sc"
  shows "next_code sc = Some (cp, length (encode_cp cp))" "sc_offset sc < length (sc_buf sc)"
proof -
  note f = positioned_fields [OF assms] and p = peek_at [of pre "[]" "cp # post" sc, simplified, OF assms]
  show "sc_offset sc < length (sc_buf sc)" using f encode_cp_length_pos [of cp] by simp
  show "next_code sc = Some (cp, length (encode_cp cp))"
  proof (cases "unat (sc_buf sc ! sc_offset sc) < 128")
    case True
    with p f(2,3) \<open>sc_offset sc < length (sc_buf sc)\<close> show ?thesis by (simp add: next_code_def peekCpAt_def Let_def)
  next
    case False
    with p f(2,3) show ?thesis by (simp add: next_code_def)
  qed
qed

lemma while_at: "positioned pre post sc \<Longrightarrow> positioned (pre @ takeWhile P post) (dropWhile P post) (while_loop P sc)"
proof (induction post arbitrary: pre sc)
  case Nil
  then show ?case using positioned_fields [OF Nil] by (subst while_loop.simps) simp
next
  case (Cons cp post)
  note n = next_code_at [OF Cons.prems]
  show ?case
  proof (cases "P cp")
    case True
    with Cons.IH [OF positioned_advance [OF Cons.prems]] n show ?thesis by (subst while_loop.simps) simp
  next
    case False
    with Cons.prems n show ?thesis by (subst while_loop.simps) simp
  qed
qed

lemma decode_encoded: "(\<And>cp. cp \<in> set cps \<Longrightarrow> scalar_value cp) \<Longrightarrow> decodeBytes (utf8_bytes cps) Enc_utf8 = utf16_text cps"
  using decode_loop_encoded [of cps False False 0] decode_loop_no_bom [of False True 0 "utf8_bytes cps"] by (simp add: decodeBytes_def decodeUtf8_loop)

lemma bytes_between:
  assumes "positioned pre (mid @ post) sc"
  shows "bytes_from (length (utf8_bytes pre)) (length (utf8_bytes (pre @ mid))) sc = utf8_bytes mid"
  using positioned_fields(1) [OF assms] by (simp add: bytes_from_def)

lemma eatWhile_at:
  assumes "positioned pre post sc"
  shows "\<exists>sc'. eatWhile P sc = Inr (utf16_text (takeWhile P post), sc') \<and> positioned (pre @ takeWhile P post) (dropWhile P post) sc'"
proof -
  note f = positioned_fields [OF assms] and w = while_at [OF assms, of P]
  have "bytes_from (sc_offset sc) (sc_offset (while_loop P sc)) sc = utf8_bytes (takeWhile P post)"
    using bytes_between [of pre "takeWhile P post" "dropWhile P post" sc] assms f(3) positioned_fields(3) [OF w] by simp
  moreover have "decodeBytes (utf8_bytes (takeWhile P post)) Enc_utf8 = utf16_text (takeWhile P post)"
    using f(5) by (intro decode_encoded) (auto dest: set_takeWhileD)
  ultimately show ?thesis using f(4) w by (simp add: eatWhile_def Let_def)
qed

lemma fromCodePoint_scalar: "scalar_value cp \<Longrightarrow> fromCodePoint cp = Inr (units_of_cp cp)"
  by (simp add: fromCodePoint_def scalar_value_def)

lemma peek_loop_at:
  assumes "positioned pre (mid @ post) sc"
  shows "peek_loop n (length (utf8_bytes (pre @ mid))) sc = Inr (utf16_text (take n post))"
  using assms
proof (induction n arbitrary: mid post)
  case (Suc n)
  show ?case
  proof (cases post)
    case (Cons cp post')
    with Suc.IH [of "mid @ [cp]" post'] Suc.prems positioned_fields(5) [OF Suc.prems] peek_at [OF Suc.prems] show ?thesis
      by (simp add: fromCodePoint_scalar add.assoc)
  qed (use peek_at [OF Suc.prems] in simp)
qed simp

lemma code_ahead_at:
  assumes "positioned pre (mid @ post) sc"
  shows "code_ahead n (length (utf8_bytes (pre @ mid))) sc = (if n < length post then Some (post ! n) else None)"
  using assms
proof (induction n arbitrary: mid post)
  case 0
  with peek_at [OF 0] show ?case by (cases post) simp_all
next
  case (Suc n)
  show ?case
  proof (cases post)
    case (Cons cp post')
    with Suc.IH [of "mid @ [cp]" post'] Suc.prems peek_at [OF Suc.prems] show ?thesis by (simp add: add.assoc)
  qed (use peek_at [OF Suc.prems] in simp)
qed

lemma eat_loop_at:
  assumes "positioned pre post sc"
  shows "\<exists>sc'. eat_loop n sc = Inr (utf16_text (take n post), sc') \<and> positioned (pre @ take n post) (drop n post) sc'"
  using assms
proof (induction n arbitrary: pre post sc)
  case (Suc n)
  note p = peek_at [of pre "[]" post sc, simplified, OF Suc.prems] and f = positioned_fields [OF Suc.prems]
  show ?case
  proof (cases post)
    case (Cons cp post')
    from Suc.IH [OF positioned_advance [OF Suc.prems [unfolded Cons]]] f p Cons show ?thesis by (auto simp: fromCodePoint_scalar)
  qed (use p f Suc.prems in simp)
qed simp

text \<open>UTF-8 is prefix-free, so that bytes match where code points do.\<close>

lemma encode_cp_prefix_free:
  assumes "scalar_value c" "scalar_value d" "encode_cp c @ x = encode_cp d @ y"
  shows "c = d \<and> x = y"
proof -
  have "peekCpAt (new_scanner (encode_cp c @ x) (Some Enc_utf8)) 0 = Some (c, length (encode_cp c))"
    "peekCpAt (new_scanner (encode_cp d @ y) (Some Enc_utf8)) 0 = Some (d, length (encode_cp d))"
    using peek_encoded [of c "new_scanner (encode_cp c @ x) (Some Enc_utf8)" "[]" x]
      peek_encoded [of d "new_scanner (encode_cp d @ y) (Some Enc_utf8)" "[]" y] assms(1,2) by (simp_all add: new_scanner_def)
  with assms(3) have "c = d" by simp
  with assms(3) show ?thesis by simp
qed

lemma utf8_prefix:
  assumes "\<And>c. c \<in> set cs \<or> c \<in> set post \<Longrightarrow> scalar_value c"
  shows "take (length (utf8_bytes cs)) (utf8_bytes post) = utf8_bytes cs \<longleftrightarrow> take (length cs) post = cs"
  using assms
proof (induction cs arbitrary: post)
  case (Cons c cs)
  show ?case
  proof (cases post)
    case Nil
    then show ?thesis using encode_cp_nonempty [of c] by auto
  next
    case (Cons d post')
    have "take (length (utf8_bytes (c # cs))) (utf8_bytes post) = utf8_bytes (c # cs) \<longleftrightarrow> c = d \<and> take (length (utf8_bytes cs)) (utf8_bytes post') = utf8_bytes cs"
    proof
      assume t: "take (length (utf8_bytes (c # cs))) (utf8_bytes post) = utf8_bytes (c # cs)"
      have "utf8_bytes post = utf8_bytes (c # cs) @ drop (length (utf8_bytes (c # cs))) (utf8_bytes post)"
        using t by (metis append_take_drop_id)
      then have "encode_cp d @ utf8_bytes post' = encode_cp c @ (utf8_bytes cs @ drop (length (utf8_bytes (c # cs))) (utf8_bytes post))" using Cons by simp
      with encode_cp_prefix_free [of d c] Cons.prems Cons have "c = d" by auto
      with t Cons show "c = d \<and> take (length (utf8_bytes cs)) (utf8_bytes post') = utf8_bytes cs" by simp
    qed (use Cons in simp)
    with Cons Cons.IH [of post'] Cons.prems show ?thesis by auto
  qed
qed simp

lemma advance_over_at:
  assumes "positioned pre (cs @ post) sc"
  shows "\<exists>sc'. advance_over i (i + length (utf8_bytes cs)) sc = Some sc' \<and> positioned (pre @ cs) post sc'"
  using assms
proof (induction cs arbitrary: pre sc i)
  case Nil
  then show ?case by (subst advance_over.simps) simp
next
  case (Cons c cs)
  then have p: "positioned pre (c # cs @ post) sc" by simp
  note f = positioned_fields [OF p] and at' = peek_at [of pre "[]" "c # cs @ post" sc, simplified, OF p]
  from Cons.IH [OF positioned_advance [OF p], of "i + length (encode_cp c)"] f(3) at' encode_cp_length_pos [of c] show ?case
    by (subst advance_over.simps) (simp add: add.assoc)
qed

lemma match_at:
  assumes "positioned pre post sc"
  shows "\<exists>sc'. eatChar s sc = Some (Inr (take (length (code_points s)) post = code_points s, sc')) \<and>
    (if take (length (code_points s)) post = code_points s
     then positioned (pre @ code_points s) (drop (length (code_points s)) post) sc' else sc' = sc)"
proof -
  let ?cs = "code_points s"
  note f = positioned_fields [OF assms]
  have enc: "encodeForMatch s Enc_utf8 = utf8_bytes ?cs" by (simp add: encodeForMatch_def encodeUtf8_loop encode_loop_def)
  have iff: "take (length (utf8_bytes ?cs)) (utf8_bytes post) = utf8_bytes ?cs \<longleftrightarrow> take (length ?cs) post = ?cs"
    using f(5) code_points_scalar by (intro utf8_prefix) auto
  have slice: "bytes_from (sc_offset sc) (sc_offset sc + length (utf8_bytes ?cs)) sc = take (length (utf8_bytes ?cs)) (utf8_bytes post)"
    using f(1,3) by (simp add: bytes_from_def)
  show ?thesis
  proof (cases "take (length ?cs) post = ?cs")
    case True
    then have p: "positioned pre (?cs @ drop (length ?cs) post) sc" using assms by (metis append_take_drop_id)
    have "length (utf8_bytes ?cs) \<le> length (utf8_bytes post)" using True iff by (metis length_take min.cobounded1)
    moreover from advance_over_at [OF p, of 0] obtain sc' where
      "advance_over 0 (length (utf8_bytes ?cs)) sc = Some sc'" "positioned (pre @ ?cs) (drop (length ?cs) post) sc'" by auto
    ultimately show ?thesis using True iff slice f by (simp add: eatChar_def matchAndAdvance_def enc)
  next
    case False
    then show ?thesis using iff slice f by (auto simp: eatChar_def matchAndAdvance_def enc Let_def)
  qed
qed

subsection \<open>The text operations as operations on code points\<close>

datatype text_op = OpEatWhile "nat \<Rightarrow> bool" | OpMatch text_string | OpPeek nat | OpPeekCode nat | OpEat nat | OpDone | OpLine | OpColumn

datatype text_result = RText text_string | RBool bool | RCode "nat option" | RNumber nat

definition run_op :: "text_op \<Rightarrow> scanner \<Rightarrow> (scan_error + text_result \<times> scanner) option" where
  "run_op op sc = (case op of
     OpEatWhile P \<Rightarrow> Some (bindR (eatWhile P sc) (\<lambda>(s, sc). Inr (RText s, sc)))
   | OpMatch s \<Rightarrow> map_option (\<lambda>res. bindR res (\<lambda>(b, sc). Inr (RBool b, sc))) (eatChar s sc)
   | OpPeek n \<Rightarrow> Some (bindR (peek n sc) (\<lambda>s. Inr (RText s, sc)))
   | OpPeekCode n \<Rightarrow> Some (bindR (peekCode n sc) (\<lambda>c. Inr (RCode c, sc)))
   | OpEat n \<Rightarrow> Some (bindR (eat n sc) (\<lambda>(s, sc). Inr (RText s, sc)))
   | OpDone \<Rightarrow> Some (Inr (RBool (sc_done sc), sc))
   | OpLine \<Rightarrow> Some (bindR (get_line sc) (\<lambda>n. Inr (RNumber n, sc)))
   | OpColumn \<Rightarrow> Some (bindR (get_column sc) (\<lambda>n. Inr (RNumber n, sc))))"

text \<open>The same operations on the code points before and after the cursor.\<close>

fun text_step :: "text_op \<Rightarrow> nat list \<times> nat list \<Rightarrow> text_result \<times> nat list \<times> nat list" where
  "text_step (OpEatWhile P) (pre, post) = (RText (utf16_text (takeWhile P post)), pre @ takeWhile P post, dropWhile P post)"
| "text_step (OpMatch s) (pre, post) =
     (let cs = code_points s in
      if take (length cs) post = cs then (RBool True, pre @ cs, drop (length cs) post) else (RBool False, pre, post))"
| "text_step (OpPeek n) (pre, post) = (RText (utf16_text (take n post)), pre, post)"
| "text_step (OpPeekCode n) (pre, post) = (RCode (if n < length post then Some (post ! n) else None), pre, post)"
| "text_step (OpEat n) (pre, post) = (RText (utf16_text (take n post)), pre @ take n post, drop n post)"
| "text_step OpDone (pre, post) = (RBool (post = []), pre, post)"
| "text_step OpLine (pre, post) = (RNumber (1 + count_list pre 10), pre, post)"
| "text_step OpColumn (pre, post) = (RNumber (1 + length (takeWhile (\<lambda>c. c \<noteq> 10) (rev pre))), pre, post)"

text \<open>A sequence of operations on a state, and a cursor that an implementation refines.\<close>

fun cursor_steps :: "('o \<Rightarrow> 'c \<Rightarrow> 'x \<times> 'c) \<Rightarrow> 'o list \<Rightarrow> 'c \<Rightarrow> 'x list" where
  "cursor_steps astep [] c = []"
| "cursor_steps astep (op # ops) c = fst (astep op c) # cursor_steps astep ops (snd (astep op c))"

fun impl_steps :: "('o \<Rightarrow> 's \<Rightarrow> ('e + 'x \<times> 's) option) \<Rightarrow> 'o list \<Rightarrow> 's \<Rightarrow> ('e + 'x list) option" where
  "impl_steps cstep [] s = Some (Inr [])"
| "impl_steps cstep (op # ops) s = (case cstep op s of
     None \<Rightarrow> None | Some (Inl e) \<Rightarrow> Some (Inl e) | Some (Inr (x, s)) \<Rightarrow> map_option (map_sum id (Cons x)) (impl_steps cstep ops s))"

locale cursor_refinement =
  fixes rel :: "'c \<Rightarrow> 's \<Rightarrow> bool"
    and astep :: "'o \<Rightarrow> 'c \<Rightarrow> 'x \<times> 'c"
    and cstep :: "'o \<Rightarrow> 's \<Rightarrow> ('e + 'x \<times> 's) option"
  assumes simulated: "rel c s \<Longrightarrow> \<exists>s'. cstep op s = Some (Inr (fst (astep op c), s')) \<and> rel (snd (astep op c)) s'"
begin

lemma runs_alike: "rel c s \<Longrightarrow> impl_steps cstep ops s = Some (Inr (cursor_steps astep ops c))"
proof (induction ops arbitrary: c s)
  case (Cons op ops)
  from simulated [OF Cons.prems, of op] obtain s' where "cstep op s = Some (Inr (fst (astep op c), s'))" "rel (snd (astep op c)) s'" by blast
  with Cons.IH show ?case by simp
qed simp

end

interpretation text_cursor: cursor_refinement "\<lambda>(pre, post). positioned pre post" "text_step" run_op
proof
  fix c sc op assume "(\<lambda>(pre, post). positioned pre post) c sc"
  then obtain pre post where c: "c = (pre, post)" and p: "positioned pre post sc" by (cases c) simp
  note f = positioned_fields [OF p]
  show "\<exists>sc'. run_op op sc = Some (Inr (fst (text_step op c), sc')) \<and> (\<lambda>(pre, post). positioned pre post) (snd (text_step op c)) sc'"
  proof (cases op)
    case (OpEatWhile P)
    with eatWhile_at [OF p, of P] show ?thesis by (auto simp: run_op_def c)
  next
    case (OpMatch s)
    with match_at [OF p, of s] p show ?thesis by (auto simp: run_op_def c Let_def split: if_splits)
  next
    case (OpPeek n)
    with peek_loop_at [of pre "[]" post sc n] f p show ?thesis by (simp add: run_op_def c peek_def)
  next
    case (OpPeekCode n)
    with code_ahead_at [of pre "[]" post sc n] f p show ?thesis by (simp add: run_op_def c peekCode_def)
  next
    case (OpEat n)
    with eat_loop_at [OF p, of n] f show ?thesis by (auto simp: run_op_def c eat_def)
  next
    case OpDone
    have "utf8_bytes post = [] \<longleftrightarrow> post = []" using encode_cp_nonempty by (cases post) auto
    with OpDone f p show ?thesis by (simp add: run_op_def c sc_done_def)
  next
    case OpLine
    with f p show ?thesis by (simp add: run_op_def c get_line_def)
  next
    case OpColumn
    with f p show ?thesis by (simp add: run_op_def c get_column_def)
  qed
qed

subsection \<open>Header blocks\<close>

lemma line_at:
  assumes "positioned pre (l @ 13 # 10 # post) sc" "\<And>c. c \<in> set l \<Longrightarrow> c \<noteq> 10 \<and> c \<noteq> 13" "pre = start @ past"
  shows "\<exists>sc'. line_loop (length (utf8_bytes start)) Enc_utf8 sc = Inr (utf16_text (past @ l), sc') \<and> positioned (pre @ l @ [13, 10]) post sc'"
  using assms
proof (induction l arbitrary: pre past sc)
  case Nil
  note f = positioned_fields [OF Nil.prems(1)]
  have b: "encode_cp 13 = [13]" "encode_cp 10 = [10]" by (simp_all add: encode_cp_def)
  have "sc_buf sc ! sc_offset sc = 13" "sc_buf sc ! (sc_offset sc + 1) = 10" "sc_offset sc + 1 < length (sc_buf sc)"
    using f(1,3) by (simp_all add: b nth_append)
  moreover have "bytes_from (length (utf8_bytes start)) (sc_offset sc) sc = utf8_bytes past"
    using f(1,3) Nil.prems(3) by (simp add: bytes_from_def)
  moreover have "decodeBytes (utf8_bytes past) Enc_utf8 = utf16_text past" using f(5) Nil.prems(3) by (intro decode_encoded) auto
  moreover have "positioned (pre @ [13, 10]) post (sc\<lparr>sc_offset := sc_offset sc + 2, sc_line := sc_line sc + 1, sc_col := 1\<rparr>)"
    using Nil.prems(1) by (auto simp: positioned_def b)
  ultimately show ?case by (subst line_loop.simps) (simp add: Let_def)
next
  case (Cons c l)
  then have p: "positioned pre (c # l @ 13 # 10 # post) sc" by simp
  note f = positioned_fields [OF p] and n = next_code_at [OF p] and at' = peek_at [of pre "[]" "c # l @ 13 # 10 # post" sc, simplified, OF p]
  have "unat (sc_buf sc ! sc_offset sc) \<noteq> 10 \<and> unat (sc_buf sc ! sc_offset sc) \<noteq> 13"
    using n Cons.prems(2) [of c] f(2) by (auto simp: next_code_def Let_def split: if_splits)
  with Cons.IH [OF positioned_advance [OF p], of "past @ [c]"] Cons.prems(2,3) n(2) f(3) at' show ?case
    by (subst line_loop.simps) (simp add: Let_def)
qed

lemma header_block_at:
  assumes "positioned pre (concat (map (\<lambda>l. l @ [13, 10]) ls) @ 13 # 10 # post) sc"
    "\<And>l. l \<in> set ls \<Longrightarrow> l \<noteq> [] \<and> 10 \<notin> set l \<and> 13 \<notin> set l"
  shows "\<exists>sc'. readHeaderBlock sc = Inr (map utf16_text ls, sc') \<and> positioned (pre @ concat (map (\<lambda>l. l @ [13, 10]) ls) @ [13, 10]) post sc'"
  using assms
proof (induction ls arbitrary: pre sc)
  case Nil
  then have p: "positioned pre ([] @ 13 # 10 # post) sc" by simp
  note f = positioned_fields [OF p]
  from line_at [OF p, of pre "[]"] f(3,4) show ?case by (subst readHeaderBlock.simps) (auto simp: readLineCRLF_def)
next
  case (Cons l ls)
  then have p: "positioned pre (l @ 13 # 10 # concat (map (\<lambda>l. l @ [13, 10]) ls) @ 13 # 10 # post) sc" by simp
  note f = positioned_fields [OF p]
  have l: "l \<noteq> []" "\<And>c. c \<in> set l \<Longrightarrow> c \<noteq> 10 \<and> c \<noteq> 13" using Cons.prems(2) [of l] by auto
  from line_at [OF p l(2), of pre "[]"] f(3,4) obtain sc1 where
    r: "readLineCRLF sc = Inr (utf16_text l, sc1)" "positioned (pre @ l @ [13, 10]) (concat (map (\<lambda>l. l @ [13, 10]) ls) @ 13 # 10 # post) sc1"
    by (auto simp: readLineCRLF_def)
  have "utf16_text l \<noteq> []" using l(1) by (cases l) (auto simp: units_of_cp_def Let_def)
  with r Cons.IH [OF r(2)] Cons.prems(2) show ?case by (subst readHeaderBlock.simps) auto
qed

lemma code_points_append:
  assumes "b = [] \<or> \<not> low_surrogate (hd b)"
  shows "code_points (a @ b) = code_points a @ code_points b"
proof (induction a rule: code_points.induct)
  case (2 c rest)
  obtain cp rest' where n: "next_cp c rest = (cp, rest')" by (cases "next_cp c rest")
  have "next_cp c (rest @ b) = (cp, rest' @ b)"
    using n assms by (cases rest; cases b) (auto simp: next_cp_def Let_def split: if_splits)
  with n 2 show ?case by simp
qed simp

lemma code_points_small: "cp \<in> set (code_points s) \<Longrightarrow> cp < 128 \<Longrightarrow> of_nat cp \<in> set s"
proof (induction s rule: code_points.induct)
  case (2 c rest)
  obtain d rest' where n: "next_cp c rest = (d, rest')" by (cases "next_cp c rest")
  then have "set rest' \<subseteq> set rest" "d < 128 \<Longrightarrow> d = unat c"
    by (auto simp: next_cp_def Let_def surrogate_pair_def split: if_splits list.splits)
  with 2 n show ?case by auto
qed simp

lemma code_points_crlf: "code_points (l @ 13 # 10 # s) = code_points l @ 13 # 10 # code_points s"
  using code_points_append [of "13 # 10 # s" l] by (simp add: next_cp_def Let_def)

subsection \<open>Properties\<close>

text \<open>C15: on a text in UTF-8 the scanner is a cursor between code points. Any sequence of \<open>eatWhile\<close>, \<open>match\<close> or
  \<open>eatChar\<close>, \<open>peek\<close>, \<open>peekCode\<close>, \<open>eat\<close>, \<open>done\<close>, \<open>line\<close> and \<open>column\<close> returns, never throws, and gives what the same
  operations give on the list of code points, with one line more after every line feed and columns counted in code
  points.\<close>

theorem scanner_refines_text: "impl_steps run_op ops (text_scanner s None) = Some (Inr (cursor_steps text_step ops ([], code_points s)))"
  by (rule text_cursor.runs_alike) (simp add: text_scanner_positioned)

text \<open>The lines of a header block are read back: non-empty lines without carriage returns and line feeds, each ended by
  CRLF, and an empty line after them, whatever text follows, which is where the scanner stops.\<close>

theorem header_block_roundtrip:
  assumes "\<And>l. l \<in> set ls \<Longrightarrow> l \<noteq> [] \<and> 10 \<notin> set l \<and> 13 \<notin> set l"
  shows "\<exists>sc. readHeaderBlock (text_scanner (concat (map (\<lambda>l. l @ [13, 10]) ls) @ [13, 10] @ rest) None) = Inr (map toWellFormed ls, sc) \<and>
    drop (sc_offset sc) (sc_buf sc) = encodeUtf8 rest"
proof -
  let ?t = "concat (map (\<lambda>l. l @ [13, 10]) ls) @ [13, 10] @ rest"
  have cps: "code_points ?t = concat (map (\<lambda>l. l @ [13, 10]) (map code_points ls)) @ 13 # 10 # code_points rest"
    by (induction ls) (simp_all add: code_points_crlf next_cp_def)
  have lines: "l \<noteq> [] \<and> 10 \<notin> set l \<and> 13 \<notin> set l" if l: "l \<in> set (map code_points ls)" for l
  proof -
    obtain u where u: "u \<in> set ls" "l = code_points u" using l by auto
    have "of_nat (10::nat) \<notin> set u" "of_nat (13::nat) \<notin> set u" "u \<noteq> []" using assms [OF u(1)] by simp_all
    then show ?thesis using u(2) code_points_small [of 10 u] code_points_small [of 13 u] by (cases u) (auto split: prod.splits)
  qed
  have p: "positioned [] (concat (map (\<lambda>l. l @ [13, 10]) (map code_points ls)) @ 13 # 10 # code_points rest) (text_scanner ?t None)"
    using text_scanner_positioned [of ?t] unfolding cps .
  from header_block_at [OF p lines] obtain sc where sc: "readHeaderBlock (text_scanner ?t None) = Inr (map utf16_text (map code_points ls), sc)"
    "positioned ([] @ concat (map (\<lambda>l. l @ [13, 10]) (map code_points ls)) @ [13, 10]) (code_points rest) sc" by blast
  then have "drop (sc_offset sc) (sc_buf sc) = encodeUtf8 rest" using positioned_fields(1,3) [OF sc(2)] by (simp add: encodeUtf8_loop encode_loop_def)
  with sc(1) show ?thesis by (auto simp: units_of_code_points comp_def)
qed

theorem header_block_roundtrip_witness:
  "\<exists>sc. readHeaderBlock (text_scanner (concat (map (\<lambda>l. l @ [13, 10]) [[65, 58, 98], [67, 58, 8364]]) @ [13, 10] @ [120]) None) =
    Inr (map toWellFormed [[65, 58, 98], [67, 58, 8364]], sc) \<and> drop (sc_offset sc) (sc_buf sc) = encodeUtf8 [120]"
  by (rule header_block_roundtrip) auto

text \<open>The first byte of a sequence of UTF-8 is not checked against the end of Unicode: a scanner over such bytes throws a
  \<open>RangeError\<close> from \<open>String.fromCodePoint\<close>, which is no \<open>ParseError\<close>.\<close>

lemma eat_beyond_unicode: "eat 1 (new_scanner [0xF4, 0x90, 0x80, 0x80] (Some Enc_utf8)) = Inl (CodePointRange 1114112)"
  by (simp add: eat_def new_scanner_def requireText_def peekCpAt_def fromCodePoint_def nat_and_mask push_bit_eq_mult)

end
