(* ===== verification/Cluster_Registry.thy ===== *)
theory Cluster_Registry
  imports Fino_Prelude Js_Text
begin

text \<open>
  \<open>internal/cluster/registry.ts\<close>: the ownership tree of the ports of a cluster, which the seed keeps.

  A \<open>Map\<close> whose order is never used is a function; a \<open>Set\<close> of ports is a list in the order of insertion. A recursion of the code
  takes the depth that the call stack still allows; \<open>None\<close> is the \<open>RangeError\<close> of a stack that is exhausted.
\<close>

subsection \<open>State\<close>

record PortEntry =
  pe_portId :: text_string
  pe_parent :: "text_string option"
  pe_node :: text_string
  pe_children :: "text_string list"

record RealmRegistry =
  rg_ports :: "text_string \<Rightarrow> PortEntry option"
  rg_byNode :: "text_string \<Rightarrow> text_string list option"

definition new_registry :: RealmRegistry where
  "new_registry = \<lparr>rg_ports = (\<lambda>_. None), rg_byNode = (\<lambda>_. None)\<rparr>"

definition set_add :: "'a \<Rightarrow> 'a list \<Rightarrow> 'a list" where
  "set_add x xs = (if x \<in> set xs then xs else xs @ [x])"

definition set_delete :: "'a \<Rightarrow> 'a list \<Rightarrow> 'a list" where
  "set_delete x xs = filter (\<lambda>y. y \<noteq> x) xs"

text \<open>A port id as a condition: neither \<open>null\<close> nor the empty string.\<close>

definition names_port :: "text_string option \<Rightarrow> bool" where
  "names_port x \<longleftrightarrow> x \<noteq> None \<and> x \<noteq> Some []"

definition change_children :: "(text_string list \<Rightarrow> text_string list) \<Rightarrow> text_string option \<Rightarrow> (text_string \<Rightarrow> PortEntry option) \<Rightarrow> text_string \<Rightarrow> PortEntry option" where
  "change_children f parent ports =
     (if names_port parent then
        case ports (the parent) of None \<Rightarrow> ports | Some e \<Rightarrow> ports(the parent \<mapsto> e\<lparr>pe_children := f (pe_children e)\<rparr>)
      else ports)"

subsection \<open>Operations\<close>

definition register :: "text_string \<Rightarrow> text_string option \<Rightarrow> text_string \<Rightarrow> RealmRegistry \<Rightarrow> RealmRegistry" where
  "register portId parentPortId nodeId reg =
     (let entry = \<lparr>pe_portId = portId, pe_parent = parentPortId, pe_node = nodeId, pe_children = []\<rparr>;
        hosted = (case rg_byNode reg nodeId of None \<Rightarrow> [] | Some ps \<Rightarrow> ps) in
      reg\<lparr>rg_ports := change_children (set_add portId) parentPortId ((rg_ports reg)(portId \<mapsto> entry)),
        rg_byNode := (rg_byNode reg)(nodeId \<mapsto> set_add portId hosted)\<rparr>)"

text \<open>The end of \<open>#removeRecursive\<close>, after the children are gone.\<close>

definition forget_port :: "text_string \<Rightarrow> PortEntry \<Rightarrow> RealmRegistry \<Rightarrow> RealmRegistry" where
  "forget_port portId entry reg = reg\<lparr>
     rg_ports := (change_children (set_delete portId) (pe_parent entry) (rg_ports reg))(portId := None),
     rg_byNode := (case rg_byNode reg (pe_node entry) of None \<Rightarrow> rg_byNode reg | Some ps \<Rightarrow> (rg_byNode reg)(pe_node entry \<mapsto> set_delete portId ps))\<rparr>"

fun removeRecursive :: "(text_string \<Rightarrow> text_string option \<Rightarrow> 'a) \<Rightarrow> nat \<Rightarrow> text_string \<Rightarrow> RealmRegistry \<times> 'a list \<Rightarrow> (RealmRegistry \<times> 'a list) option"
  and remove_all :: "(text_string \<Rightarrow> text_string option \<Rightarrow> 'a) \<Rightarrow> nat \<Rightarrow> text_string list \<Rightarrow> RealmRegistry \<times> 'a list \<Rightarrow> (RealmRegistry \<times> 'a list) option" where
  "removeRecursive report 0 portId st = None"
| "removeRecursive report (Suc n) portId (reg, acc) = (case rg_ports reg portId of
     None \<Rightarrow> Some (reg, acc)
   | Some entry \<Rightarrow> map_option (\<lambda>(reg, acc). (forget_port portId entry reg, acc @ [report portId (pe_parent entry)]))
       (remove_all report n (pe_children entry) (reg, acc)))"
| "remove_all report n [] st = Some st"
| "remove_all report n (c # cs) st = Option.bind (removeRecursive report n c st) (remove_all report n cs)"

definition registry_exit :: "nat \<Rightarrow> text_string \<Rightarrow> RealmRegistry \<Rightarrow> (text_string list \<times> RealmRegistry) option" where
  "registry_exit n portId reg = map_option (\<lambda>(reg, removed). (removed, reg)) (removeRecursive (\<lambda>portId _. portId) n portId (reg, []))"

definition nodeDown :: "nat \<Rightarrow> text_string \<Rightarrow> RealmRegistry \<Rightarrow> ((text_string \<times> text_string option) list \<times> RealmRegistry) option" where
  "nodeDown n nodeId reg = (case rg_byNode reg nodeId of
     None \<Rightarrow> Some ([], reg)
   | Some hosted \<Rightarrow> map_option (\<lambda>(reg, removed). (removed, reg)) (remove_all Pair n hosted (reg, [])))"

definition getNodeId :: "text_string \<Rightarrow> RealmRegistry \<Rightarrow> text_string option" where
  "getNodeId portId reg = map_option pe_node (rg_ports reg portId)"

definition getParentPortId :: "text_string \<Rightarrow> RealmRegistry \<Rightarrow> text_string option option" where
  "getParentPortId portId reg = map_option pe_parent (rg_ports reg portId)"

definition getChildren :: "text_string \<Rightarrow> RealmRegistry \<Rightarrow> text_string list" where
  "getChildren portId reg = (case rg_ports reg portId of None \<Rightarrow> [] | Some e \<Rightarrow> pe_children e)"

subsection \<open>Ownership trees\<close>

datatype realm = Realm (realm_port: text_string) "realm list"

fun post_order :: "realm \<Rightarrow> text_string list" where
  "post_order (Realm p ts) = concat (map post_order ts) @ [p]"

fun is_tree :: "RealmRegistry \<Rightarrow> realm \<Rightarrow> bool" where
  "is_tree reg (Realm p ts) \<longleftrightarrow> (\<exists>e. rg_ports reg p = Some e \<and> pe_children e = map realm_port ts) \<and> (\<forall>t \<in> set ts. is_tree reg t)"

text \<open>The edges agree with the parents, the index with the nodes, and no port is its own ancestor.\<close>

definition parent_edge :: "RealmRegistry \<Rightarrow> text_string rel" where
  "parent_edge reg = {(c, q). \<exists>e. rg_ports reg c = Some e \<and> pe_parent e = Some q}"

definition registry_ok :: "RealmRegistry \<Rightarrow> bool" where
  "registry_ok reg \<longleftrightarrow> finite (dom (rg_ports reg)) \<and> rg_ports reg [] = None \<and>
     (\<forall>q e. rg_ports reg q = Some e \<longrightarrow> distinct (pe_children e) \<and> (\<forall>c \<in> set (pe_children e). (c, q) \<in> parent_edge reg)) \<and>
     (\<forall>n ps. rg_byNode reg n = Some ps \<longrightarrow> distinct ps) \<and>
     (\<forall>p n. (\<exists>ps. rg_byNode reg n = Some ps \<and> p \<in> set ps) \<longleftrightarrow> (\<exists>e. rg_ports reg p = Some e \<and> pe_node e = n)) \<and>
     (\<exists>rank :: text_string \<Rightarrow> nat. \<forall>(c, q) \<in> parent_edge reg. rank c < rank q)"

text \<open>The registry without a set of ports.\<close>

definition cut :: "text_string set \<Rightarrow> RealmRegistry \<Rightarrow> RealmRegistry" where
  "cut S reg = reg\<lparr>
     rg_ports := (\<lambda>p. if p \<in> S then None else map_option (\<lambda>e. e\<lparr>pe_children := filter (\<lambda>c. c \<notin> S) (pe_children e)\<rparr>) (rg_ports reg p)),
     rg_byNode := (\<lambda>n. map_option (filter (\<lambda>p. p \<notin> S)) (rg_byNode reg n))\<rparr>"

definition descending :: "RealmRegistry \<Rightarrow> text_string set \<Rightarrow> bool" where
  "descending reg S \<longleftrightarrow> (\<forall>q e. rg_ports reg q = Some e \<longrightarrow> q \<in> S \<longrightarrow> set (pe_children e) \<subseteq> S)"

lemma root_in_tree [simp]: "realm_port t \<in> set (post_order t)"
  by (cases t) simp

lemma descending_tree: "descending reg S \<Longrightarrow> is_tree reg t \<Longrightarrow> realm_port t \<in> S \<Longrightarrow> set (post_order t) \<subseteq> S"
proof (induction t)
  case (Realm p ts)
  then obtain e where e: "rg_ports reg p = Some e" "pe_children e = map realm_port ts" by auto
  from Realm.prems(1,3) e(1) have "set (pe_children e) \<subseteq> S" by (simp add: descending_def)
  with e(2) have "realm_port t \<in> S" if "t \<in> set ts" for t using that by auto
  with Realm show ?case by auto
qed

lemma tree_descending: "is_tree reg t \<Longrightarrow> descending reg (set (post_order t))"
proof (induction t)
  case (Realm p ts)
  then obtain e where e: "rg_ports reg p = Some e" "pe_children e = map realm_port ts" by auto
  have "set (pe_children f) \<subseteq> set (post_order (Realm p ts))" if f: "rg_ports reg q = Some f" "q \<in> set (post_order (Realm p ts))" for q f
  proof (cases "q = p")
    case True
    moreover have "realm_port t \<in> set (post_order (Realm p ts))" if "t \<in> set ts" for t using that by (simp) (blast intro: root_in_tree)
    ultimately show ?thesis using e f(1) by auto
  next
    case False
    with f obtain t where "t \<in> set ts" "q \<in> set (post_order t)" by auto
    with Realm f(1) have "set (pe_children f) \<subseteq> set (post_order t)" by (auto simp: descending_def)
    with \<open>t \<in> set ts\<close> show ?thesis by auto
  qed
  then show ?case by (simp add: descending_def)
qed

lemma descending_Un: "descending reg A \<Longrightarrow> descending reg B \<Longrightarrow> descending reg (A \<union> B)"
  by (fastforce simp: descending_def)

lemma post_order_registered: "is_tree reg t \<Longrightarrow> set (post_order t) \<subseteq> dom (rg_ports reg)"
  by (induction t) auto

text \<open>Forgetting a port whose children are gone cuts it out.\<close>

lemma registry_okD:
  assumes "registry_ok reg"
  shows "rg_ports reg q = Some e \<Longrightarrow> c \<in> set (pe_children e) \<Longrightarrow> \<exists>f. rg_ports reg c = Some f \<and> pe_parent f = Some q"
    "rg_ports reg q = Some e \<Longrightarrow> distinct (pe_children e)"
    "rg_ports reg [] = None"
    "rg_byNode reg n = Some ps \<Longrightarrow> p \<in> set ps \<Longrightarrow> \<exists>e. rg_ports reg p = Some e \<and> pe_node e = n"
    "rg_ports reg p = Some f \<Longrightarrow> \<exists>ps. rg_byNode reg (pe_node f) = Some ps \<and> p \<in> set ps"
    "finite (dom (rg_ports reg))"
  using assms unfolding registry_ok_def parent_edge_def by blast+

lemma filter_delete: "set_delete p (filter (\<lambda>c. c \<notin> S) cs) = filter (\<lambda>c. c \<noteq> p \<and> c \<notin> S) cs"
  by (simp add: set_delete_def conj_commute)

lemma filter_insert_absent: "p \<notin> set cs \<Longrightarrow> filter (\<lambda>c. c \<noteq> p \<and> c \<notin> S) cs = filter (\<lambda>c. c \<notin> S) cs"
  by (auto intro: filter_cong)

lemma forget_port_cut:
  assumes ok: "registry_ok reg" and e: "rg_ports reg p = Some e" "p \<notin> S" "pe_parent e' = pe_parent e" "pe_node e' = pe_node e"
  shows "forget_port p e' (cut S reg) = cut (insert p S) reg"
proof -
  have ports: "rg_ports (forget_port p e' (cut S reg)) q = rg_ports (cut (insert p S) reg) q" for q
  proof (cases "q = p \<or> rg_ports reg q = None \<or> q \<in> S")
    case True
    then show ?thesis by (auto simp: forget_port_def cut_def change_children_def split: option.splits)
  next
    case False
    then obtain f where f: "rg_ports reg q = Some f" "q \<noteq> p" "q \<notin> S" by auto
    show ?thesis
    proof (cases "pe_parent e = Some q")
      case True
      moreover have "names_port (Some q)" using f(1) registry_okD(3) [OF ok] by (auto simp: names_port_def)
      ultimately show ?thesis using f e(3) filter_delete [of p S] by (simp add: forget_port_def cut_def change_children_def)
    next
      case False
      then have "p \<notin> set (pe_children f)" using registry_okD(1) [OF ok f(1), of p] e(1) by auto
      moreover have "the (pe_parent e) \<noteq> q" if "names_port (pe_parent e)" using that False by (auto simp: names_port_def)
      ultimately show ?thesis using f e(3)
        by (auto simp: forget_port_def cut_def change_children_def filter_insert_absent split: option.splits)
    qed
  qed
  have nodes: "rg_byNode (forget_port p e' (cut S reg)) n = rg_byNode (cut (insert p S) reg) n" for n
  proof (cases "n = pe_node e")
    case True
    then show ?thesis using e(4) filter_delete [of p S] by (auto simp: forget_port_def cut_def split: option.splits)
  next
    case False
    then have "p \<notin> set ps" if "rg_byNode reg n = Some ps" for ps using registry_okD(4) [OF ok that, of p] e(1) by auto
    with False e(4) show ?thesis by (cases "rg_byNode reg n") (auto simp: forget_port_def cut_def filter_insert_absent split: option.splits)
  qed
  show ?thesis using ports nodes by (intro RealmRegistry.equality) (auto simp: fun_eq_iff forget_port_def cut_def)
qed

definition parent_of :: "RealmRegistry \<Rightarrow> text_string \<Rightarrow> text_string option" where
  "parent_of reg p = (case rg_ports reg p of None \<Rightarrow> None | Some e \<Rightarrow> pe_parent e)"

definition removal :: "RealmRegistry \<Rightarrow> (text_string \<Rightarrow> text_string option \<Rightarrow> 'a) \<Rightarrow> text_string list \<Rightarrow> text_string set \<Rightarrow> 'a list" where
  "removal reg report ps A = map (\<lambda>p. report p (parent_of reg p)) (filter (\<lambda>p. p \<notin> A) ps)"

lemma removal_simps [simp]: "removal reg report [] A = []" "removal reg report (xs @ ys) A = removal reg report xs A @ removal reg report ys A"
  by (simp_all add: removal_def)

lemma removal_covered: "set ps \<subseteq> A \<Longrightarrow> removal reg report ps A = []"
  by (auto simp: removal_def filter_empty_conv)

lemma removal_disjoint: "set ps \<inter> B = {} \<Longrightarrow> removal reg report ps (A \<union> B) = removal reg report ps A"
  by (auto simp: removal_def intro!: arg_cong [of _ _ "map _"] filter_cong)

lemma remove_trees:
  assumes step: "\<And>t A acc. t \<in> set ts \<Longrightarrow> descending reg A \<Longrightarrow> removeRecursive report n (realm_port t) (cut A reg, acc) =
      Some (cut (A \<union> set (post_order t)) reg, acc @ removal reg report (post_order t) A)"
    and trees: "\<And>t. t \<in> set ts \<Longrightarrow> is_tree reg t"
    and A: "descending reg A" "descending reg B" "A \<subseteq> B" and d: "distinct (concat (map post_order ts))"
  shows "remove_all report n (filter (\<lambda>c. c \<notin> A) (map realm_port ts)) (cut B reg, acc) =
    Some (cut (B \<union> set (concat (map post_order ts))) reg, acc @ removal reg report (concat (map post_order ts)) B)"
  using step trees A(2,3) d
proof (induction ts arbitrary: B acc)
  case (Cons t ts)
  have B: "descending reg (B \<union> set (post_order t))" using Cons.prems(2,3) by (intro descending_Un tree_descending) auto
  note IH = Cons.IH [OF Cons.prems(1,2) B]
  have disj: "removal reg report (concat (map post_order ts)) (B \<union> set (post_order t)) = removal reg report (concat (map post_order ts)) B"
    using Cons.prems(5) by (intro removal_disjoint) auto
  show ?case
  proof (cases "realm_port t \<in> A")
    case True
    then have sub: "set (post_order t) \<subseteq> B" using descending_tree [OF A(1), of t] Cons.prems(2,4) by auto
    then have "removal reg report (post_order t) B = []" "B \<union> set (post_order t) = B" by (auto intro: removal_covered)
    with True IH [of acc] Cons.prems(4,5) show ?thesis by (simp add: Un_assoc [symmetric])
  next
    case False
    with IH Cons.prems(1) [of t B acc] Cons.prems(3-5) disj show ?thesis by (simp add: Un_assoc subset_iff)
  qed
qed simp

lemma remove_tree:
  assumes ok: "registry_ok reg"
  shows "is_tree reg t \<Longrightarrow> distinct (post_order t) \<Longrightarrow> descending reg A \<Longrightarrow> length (post_order t) \<le> n \<Longrightarrow>
    removeRecursive report n (realm_port t) (cut A reg, acc) =
      Some (cut (A \<union> set (post_order t)) reg, acc @ removal reg report (post_order t) A)"
proof (induction t arbitrary: A acc n)
  case (Realm p ts)
  from Realm.prems(4) obtain m where n: "n = Suc m" by (cases n) auto
  from Realm.prems(1) obtain e where e: "rg_ports reg p = Some e" "pe_children e = map realm_port ts" by auto
  show ?case
  proof (cases "p \<in> A")
    case True
    then have "set (post_order (Realm p ts)) \<subseteq> A" using descending_tree [OF Realm.prems(3,1)] by simp
    then have "removal reg report (post_order (Realm p ts)) A = []" "A \<union> set (post_order (Realm p ts)) = A" using removal_covered by blast+
    with True show ?thesis unfolding n by (simp add: cut_def)
  next
    case False
    let ?D = "A \<union> set (concat (map post_order ts))"
    have len: "length (post_order t) \<le> m" if "t \<in> set ts" for t
    proof -
      have "length (post_order t) \<le> length (concat (map post_order ts))" using that by (simp add: length_concat member_le_sum_list)
      with Realm.prems(4) n show ?thesis by simp
    qed
    have step: "removeRecursive report m (realm_port t) (cut B reg, acc') =
        Some (cut (B \<union> set (post_order t)) reg, acc' @ removal reg report (post_order t) B)"
      if "t \<in> set ts" "descending reg B" for t B acc'
      using Realm.IH [OF that(1) _ _ that(2) len [OF that(1)]] Realm.prems(1,2) that(1) by (auto simp: distinct_concat_iff)
    have kids: "remove_all report m (filter (\<lambda>c. c \<notin> A) (map realm_port ts)) (cut A reg, acc) =
        Some (cut ?D reg, acc @ removal reg report (concat (map post_order ts)) A)"
      using remove_trees [of ts reg report m A A acc, OF step] Realm.prems by auto
    have "p \<notin> ?D" using False Realm.prems(2) by auto
    then have "forget_port p e' (cut ?D reg) = cut (insert p ?D) reg" if "pe_parent e' = pe_parent e" "pe_node e' = pe_node e" for e'
      using forget_port_cut [OF ok e(1)] that by blast
    with kids False e show ?thesis unfolding n by (simp add: cut_def [of A] removal_def parent_of_def Un_insert_right)
  qed
qed

subsection \<open>Every registered port owns a tree\<close>

lemma tree_path:
  assumes "registry_ok reg"
  shows "is_tree reg t \<Longrightarrow> x \<in> set (post_order t) \<Longrightarrow> (x, realm_port t) \<in> (parent_edge reg)\<^sup>*"
proof (induction t)
  case (Realm p ts)
  then obtain e where e: "rg_ports reg p = Some e" "pe_children e = map realm_port ts" by auto
  show ?case
  proof (cases "x = p")
    case False
    with Realm.prems obtain t where t: "t \<in> set ts" "x \<in> set (post_order t)" by auto
    with Realm have "(x, realm_port t) \<in> (parent_edge reg)\<^sup>*" by auto
    moreover have "(realm_port t, p) \<in> parent_edge reg" using registry_okD(1) [OF assms e(1), of "realm_port t"] e(2) t(1) by (auto simp: parent_edge_def)
    ultimately show ?thesis by simp
  qed simp
qed

lemma rank_path:
  assumes "\<forall>(c, q) \<in> R. rank c < (rank q :: nat)" "(a, b) \<in> R\<^sup>*"
  shows "rank a \<le> rank b"
  using assms(2,1) by (induction rule: rtrancl_induct) (auto intro: le_trans less_imp_le)

lemma parent_edge_single: "single_valued (parent_edge reg)"
  by (auto simp: single_valued_def parent_edge_def)

lemma siblings_disjoint:
  assumes ok: "registry_ok reg" and t: "is_tree reg t" "is_tree reg u" "realm_port t \<noteq> realm_port u"
    and p: "(realm_port t, p) \<in> parent_edge reg" "(realm_port u, p) \<in> parent_edge reg"
  shows "set (post_order t) \<inter> set (post_order u) = {}"
proof (rule ccontr)
  assume "set (post_order t) \<inter> set (post_order u) \<noteq> {}"
  then obtain x where "(x, realm_port t) \<in> (parent_edge reg)\<^sup>*" "(x, realm_port u) \<in> (parent_edge reg)\<^sup>*"
    using tree_path [OF ok t(1)] tree_path [OF ok t(2)] by blast
  then have "(realm_port t, realm_port u) \<in> (parent_edge reg)\<^sup>* \<or> (realm_port u, realm_port t) \<in> (parent_edge reg)\<^sup>*"
    by (rule single_valued_confluent [OF parent_edge_single])
  moreover obtain rank :: "text_string \<Rightarrow> nat" where r: "\<forall>(c, q) \<in> parent_edge reg. rank c < rank q" using ok by (auto simp: registry_ok_def)
  have no: "(a, b) \<notin> (parent_edge reg)\<^sup>*" if a: "(a, p) \<in> parent_edge reg" "(b, p) \<in> parent_edge reg" "a \<noteq> b" for a b
  proof
    assume "(a, b) \<in> (parent_edge reg)\<^sup>*"
    with a(3) obtain c where c: "(a, c) \<in> parent_edge reg" "(c, b) \<in> (parent_edge reg)\<^sup>*" by (auto elim: converse_rtranclE)
    have "c = p" using parent_edge_single a(1) c(1) by (auto simp: single_valued_def)
    with rank_path [OF r c(2)] a(2) r show False by fastforce
  qed
  ultimately show False using no [OF p t(3)] no [OF p(2,1) t(3) [symmetric]] by blast
qed

lemma tree_exists:
  assumes ok: "registry_ok reg"
  shows "rg_ports reg p = Some e \<Longrightarrow> \<exists>t. realm_port t = p \<and> is_tree reg t \<and> distinct (post_order t)"
proof -
  obtain rank :: "text_string \<Rightarrow> nat" where r: "\<forall>(c, q) \<in> parent_edge reg. rank c < rank q" using ok by (auto simp: registry_ok_def)
  show "rg_ports reg p = Some e \<Longrightarrow> \<exists>t. realm_port t = p \<and> is_tree reg t \<and> distinct (post_order t)"
  proof (induction "rank p" arbitrary: p e rule: less_induct)
    case less
    have edge: "(c, p) \<in> parent_edge reg" if "c \<in> set (pe_children e)" for c
      using registry_okD(1) [OF ok less.prems that] by (auto simp: parent_edge_def)
    then have "\<exists>t. realm_port t = c \<and> is_tree reg t \<and> distinct (post_order t)" if "c \<in> set (pe_children e)" for c
      using less.hyps [of c] r that by (fastforce simp: parent_edge_def)
    then obtain f where f: "\<And>c. c \<in> set (pe_children e) \<Longrightarrow> realm_port (f c) = c \<and> is_tree reg (f c) \<and> distinct (post_order (f c))" by metis
    let ?ts = "map f (pe_children e)"
    have disj: "set (post_order (f c)) \<inter> set (post_order (f d)) = {}" if "c \<in> set (pe_children e)" "d \<in> set (pe_children e)" "c \<noteq> d" for c d
      using siblings_disjoint [OF ok, of "f c" "f d" p] f that edge by auto
    have "p \<notin> set (post_order (f c))" if c: "c \<in> set (pe_children e)" for c
    proof
      assume "p \<in> set (post_order (f c))"
      then have "rank p \<le> rank c" using rank_path [OF r tree_path [OF ok, of "f c" p]] f [OF c] by auto
      with edge [OF c] r show False by fastforce
    qed
    moreover have "distinct (concat (map post_order ?ts))"
    proof (rule distinct_concat)
      have "inj_on (post_order \<circ> f) (set (pe_children e))"
        using disj root_in_tree by (intro inj_onI) (metis comp_apply disjoint_iff)
      then show "distinct (map post_order ?ts)" using registry_okD(2) [OF ok less.prems] by (simp add: distinct_map)
    next
      fix ys assume "ys \<in> set (map post_order ?ts)"
      then show "distinct ys" using f by auto
    next
      fix ys zs assume "ys \<in> set (map post_order ?ts)" "zs \<in> set (map post_order ?ts)" "ys \<noteq> zs"
      then show "set ys \<inter> set zs = {}" using disj by fastforce
    qed
    ultimately have "distinct (post_order (Realm p ?ts))" by auto
    moreover have "map (realm_port \<circ> f) (pe_children e) = pe_children e" using f by (simp add: map_idI)
    ultimately show ?case using f less.prems by (intro exI [of _ "Realm p ?ts"]) auto
  qed
qed

subsection \<open>The invariant\<close>

lemma cut_ok:
  assumes ok: "registry_ok reg" and S: "descending reg S"
  shows "registry_ok (cut S reg)"
proof -
  obtain rank :: "text_string \<Rightarrow> nat" where r: "\<forall>(c, q) \<in> parent_edge reg. rank c < rank q" using ok by (auto simp: registry_ok_def)
  have edges: "parent_edge (cut S reg) = {(c, q). (c, q) \<in> parent_edge reg \<and> c \<notin> S}" by (auto simp: parent_edge_def cut_def split: if_splits)
  have "dom (rg_ports (cut S reg)) \<subseteq> dom (rg_ports reg)" by (auto simp: cut_def split: if_splits)
  then have "finite (dom (rg_ports (cut S reg)))" using registry_okD(6) [OF ok] finite_subset by blast
  moreover have "(\<exists>ps. rg_byNode (cut S reg) n = Some ps \<and> p \<in> set ps) \<longleftrightarrow> (\<exists>e. rg_ports (cut S reg) p = Some e \<and> pe_node e = n)" for p n
  proof -
    have "(\<exists>ps. rg_byNode (cut S reg) n = Some ps \<and> p \<in> set ps) \<longleftrightarrow> (\<exists>ps. rg_byNode reg n = Some ps \<and> p \<in> set ps) \<and> p \<notin> S" by (auto simp: cut_def)
    moreover have "(\<exists>e. rg_ports (cut S reg) p = Some e \<and> pe_node e = n) \<longleftrightarrow> (\<exists>e. rg_ports reg p = Some e \<and> pe_node e = n) \<and> p \<notin> S" by (auto simp: cut_def)
    ultimately show ?thesis using ok by (auto simp: registry_ok_def)
  qed
  moreover have "distinct (pe_children e) \<and> (\<forall>c \<in> set (pe_children e). (c, q) \<in> parent_edge (cut S reg))"
    if "rg_ports (cut S reg) q = Some e" for q e
  proof -
    from that obtain f where f: "rg_ports reg q = Some f" "pe_children e = filter (\<lambda>c. c \<notin> S) (pe_children f)" by (auto simp: cut_def split: if_splits)
    then show ?thesis using registry_okD(2) [OF ok f(1)] registry_okD(1) [OF ok f(1)] unfolding edges by (auto simp: parent_edge_def)
  qed
  moreover have "distinct ps" if "rg_byNode (cut S reg) n = Some ps" for n ps
    using that ok by (auto simp: cut_def registry_ok_def)
  moreover have "rg_ports (cut S reg) [] = None" using registry_okD(3) [OF ok] by (simp add: cut_def)
  ultimately show ?thesis using r unfolding registry_ok_def by (auto simp: edges intro!: exI [of _ rank])
qed

text \<open>A port id is new when no port has it or names it as its parent.\<close>

definition new_port :: "text_string \<Rightarrow> RealmRegistry \<Rightarrow> bool" where
  "new_port p reg \<longleftrightarrow> p \<noteq> [] \<and> rg_ports reg p = None \<and> (\<forall>c. (c, p) \<notin> parent_edge reg)"

lemma register_ports:
  assumes "new_port p reg" "parent \<noteq> Some p"
  shows "rg_ports (register p parent n reg) q = (if q = p then Some \<lparr>pe_portId = p, pe_parent = parent, pe_node = n, pe_children = []\<rparr>
    else if parent = Some q \<and> q \<noteq> [] then map_option (\<lambda>e. e\<lparr>pe_children := set_add p (pe_children e)\<rparr>) (rg_ports reg q) else rg_ports reg q)"
  using assms by (cases parent) (auto simp: register_def change_children_def names_port_def Let_def split: option.splits)

lemma register_ok:
  assumes ok: "registry_ok reg" and new: "new_port p reg" "parent \<noteq> Some p"
  shows "registry_ok (register p parent n reg)"
proof -
  obtain rank :: "text_string \<Rightarrow> nat" where r: "\<forall>(c, q) \<in> parent_edge reg. rank c < rank q" using ok by (auto simp: registry_ok_def)
  note P = register_ports [OF new]
  have fresh: "p \<notin> set (pe_children e)" if "rg_ports reg q = Some e" for q e
    using registry_okD(1) [OF ok that, of p] new(1) by (auto simp: new_port_def)
  have edges: "parent_edge (register p parent n reg) = parent_edge reg \<union> {(p, q) |q. parent = Some q}"
    using new by (auto simp: parent_edge_def P new_port_def split: if_splits)
  have "dom (rg_ports (register p parent n reg)) \<subseteq> insert p (dom (rg_ports reg))" by (auto simp: P split: if_splits)
  then have "finite (dom (rg_ports (register p parent n reg)))" using registry_okD(6) [OF ok] by (meson finite_insert finite_subset)
  moreover have "rg_ports (register p parent n reg) [] = None" using new(1) registry_okD(3) [OF ok] by (auto simp: P new_port_def)
  moreover have "distinct (pe_children e) \<and> (\<forall>c \<in> set (pe_children e). (c, q) \<in> parent_edge (register p parent n reg))"
    if "rg_ports (register p parent n reg) q = Some e" for q e
    using that registry_okD(1,2) [OF ok] fresh
    by (fastforce simp: P edges set_add_def parent_edge_def split: if_splits)
  moreover have "distinct ps" if "rg_byNode (register p parent n reg) m = Some ps" for m ps
    using that ok by (auto simp: register_def Let_def set_add_def registry_ok_def split: if_splits option.splits)
  moreover have "(\<exists>ps. rg_byNode (register p parent n reg) m = Some ps \<and> x \<in> set ps) \<longleftrightarrow> (\<exists>e. rg_ports (register p parent n reg) x = Some e \<and> pe_node e = m)" for x m
  proof -
    have "(\<exists>ps. rg_byNode (register p parent n reg) m = Some ps \<and> x \<in> set ps) \<longleftrightarrow> (\<exists>ps. rg_byNode reg m = Some ps \<and> x \<in> set ps) \<or> x = p \<and> m = n"
      by (cases "rg_byNode reg n") (auto simp: register_def Let_def set_add_def)
    moreover have "(\<exists>ps. rg_byNode reg m = Some ps \<and> x \<in> set ps) \<longleftrightarrow> (\<exists>e. rg_ports reg x = Some e \<and> pe_node e = m)" using ok by (simp add: registry_ok_def)
    ultimately show ?thesis using new(1) by (auto simp: P new_port_def)
  qed
  moreover have rank: "\<forall>(c, q) \<in> parent_edge (register p parent n reg). (if c = p then 0 else Suc (rank c)) < (if q = p then 0 else Suc (rank q))"
  proof -
    have "(p, q) \<notin> parent_edge reg" "(q, p) \<notin> parent_edge reg" for q using new(1) by (auto simp: new_port_def parent_edge_def)
    then show ?thesis using r new(2) by (auto simp: edges)
  qed
  moreover have "\<exists>rank :: text_string \<Rightarrow> nat. \<forall>(c, q) \<in> parent_edge (register p parent n reg). rank c < rank q"
    using rank by (intro exI [of _ "\<lambda>x. if x = p then 0 else Suc (rank x)"])
  ultimately show ?thesis unfolding registry_ok_def by simp
qed

lemma new_registry_ok: "registry_ok new_registry"
  by (auto simp: registry_ok_def new_registry_def parent_edge_def)

subsection \<open>Removal\<close>

definition child_edge :: "RealmRegistry \<Rightarrow> text_string rel" where
  "child_edge reg = {(q, c). \<exists>e. rg_ports reg q = Some e \<and> c \<in> set (pe_children e)}"

definition owned :: "RealmRegistry \<Rightarrow> text_string \<Rightarrow> text_string set" where
  "owned reg p = {x. (p, x) \<in> (child_edge reg)\<^sup>*}"

lemma descending_owned: "descending reg A \<Longrightarrow> p \<in> A \<Longrightarrow> owned reg p \<subseteq> A"
proof -
  assume A: "descending reg A" "p \<in> A"
  have "x \<in> A" if "(p, x) \<in> (child_edge reg)\<^sup>*" for x
    using that A(2) by (induction rule: rtrancl_induct) (use A(1) in \<open>auto simp: descending_def child_edge_def\<close>)
  then show ?thesis by (auto simp: owned_def)
qed

lemma tree_owned: "is_tree reg t \<Longrightarrow> set (post_order t) = owned reg (realm_port t)"
proof
  show "is_tree reg t \<Longrightarrow> owned reg (realm_port t) \<subseteq> set (post_order t)" by (intro descending_owned tree_descending) simp_all
  show "is_tree reg t \<Longrightarrow> set (post_order t) \<subseteq> owned reg (realm_port t)"
  proof (induction t)
    case (Realm p ts)
    then obtain e where e: "rg_ports reg p = Some e" "pe_children e = map realm_port ts" by auto
    have "x \<in> owned reg p" if "t \<in> set ts" "x \<in> set (post_order t)" for t x
    proof -
      have "(p, realm_port t) \<in> child_edge reg" using e that(1) by (auto simp: child_edge_def)
      moreover have "(realm_port t, x) \<in> (child_edge reg)\<^sup>*" using Realm that by (auto simp: owned_def)
      ultimately show ?thesis by (simp add: owned_def converse_rtrancl_into_rtrancl)
    qed
    then show ?case by (auto simp: owned_def)
  qed
qed

lemma remove_owned:
  fixes report :: "text_string \<Rightarrow> text_string option \<Rightarrow> 'a"
  assumes ok: "registry_ok reg" and p: "rg_ports reg p \<noteq> None" and n: "card (dom (rg_ports reg)) \<le> n"
  obtains t where "realm_port t = p" "is_tree reg t" "distinct (post_order t)" "set (post_order t) = owned reg p"
    "\<And>A acc. descending reg A \<Longrightarrow> removeRecursive report n p (cut A reg, acc) = Some (cut (A \<union> owned reg p) reg, acc @ removal reg report (post_order t) A)"
proof -
  obtain t where t: "realm_port t = p" "is_tree reg t" "distinct (post_order t)" using tree_exists [OF ok] p by blast
  have "length (post_order t) \<le> card (dom (rg_ports reg))"
    using distinct_card [OF t(3)] card_mono [OF registry_okD(6) [OF ok] post_order_registered [OF t(2)]] by simp
  with n have l: "length (post_order t) \<le> n" by simp
  have o: "set (post_order t) = owned reg p" using tree_owned [OF t(2)] t(1) by simp
  show thesis by (rule that [OF t o]) (use remove_tree [OF ok t(2,3) _ l, of _ report] t(1) o in simp)
qed

lemma cut_empty [simp]: "cut {} reg = reg"
  by (intro RealmRegistry.equality) (auto simp: cut_def fun_eq_iff map_option_case split: option.splits)

lemma remove_list:
  assumes ok: "registry_ok reg" and n: "card (dom (rg_ports reg)) \<le> n"
  shows "descending reg A \<Longrightarrow> \<forall>p \<in> set ps. rg_ports reg p \<noteq> None \<Longrightarrow> \<exists>L. distinct L \<and> set L = (\<Union>p \<in> set ps. owned reg p) - A \<and>
    remove_all report n ps (cut A reg, acc) = Some (cut (A \<union> (\<Union>p \<in> set ps. owned reg p)) reg, acc @ map (\<lambda>p. report p (parent_of reg p)) L)"
proof (induction ps arbitrary: A acc)
  case (Cons p ps)
  obtain t where t: "is_tree reg t" "distinct (post_order t)" "set (post_order t) = owned reg p"
      "removeRecursive report n p (cut A reg, acc) = Some (cut (A \<union> owned reg p) reg, acc @ removal reg report (post_order t) A)"
    using remove_owned [OF ok _ n, of p report] Cons.prems by (metis list.set_intros(1))
  have "descending reg (A \<union> owned reg p)" using tree_descending [OF t(1)] t(3) Cons.prems(1) by (intro descending_Un) auto
  from Cons.IH [OF this, of "acc @ removal reg report (post_order t) A"] Cons.prems(2) obtain L where
    L: "distinct L" "set L = (\<Union>p \<in> set ps. owned reg p) - (A \<union> owned reg p)"
      "remove_all report n ps (cut (A \<union> owned reg p) reg, acc @ removal reg report (post_order t) A) =
        Some (cut (A \<union> owned reg p \<union> (\<Union>p \<in> set ps. owned reg p)) reg, (acc @ removal reg report (post_order t) A) @ map (\<lambda>p. report p (parent_of reg p)) L)"
    by auto
  show ?case using t L by (intro exI [of _ "filter (\<lambda>p. p \<notin> A) (post_order t) @ L"]) (auto simp: removal_def Un_assoc)
qed simp

subsection \<open>Removal from any registry\<close>

text \<open>The seed registers a port again each time it spawns, which resets its parent and its children but not the lists that name it, so
  its registry need not agree with itself. What is left of such a registry when ports are removed: an entry disappears from the
  children of the parent that it names and from the index of the node that it names, and stays in all other lists.\<close>

definition kept_children :: "text_string set \<Rightarrow> RealmRegistry \<Rightarrow> text_string \<Rightarrow> text_string list \<Rightarrow> text_string list" where
  "kept_children S reg q cs = filter (\<lambda>c. \<not> (c \<in> S \<and> parent_of reg c = Some q \<and> q \<noteq> [])) cs"

definition kept_hosted :: "text_string set \<Rightarrow> RealmRegistry \<Rightarrow> text_string \<Rightarrow> text_string list \<Rightarrow> text_string list" where
  "kept_hosted S reg n ps = filter (\<lambda>p. \<not> (p \<in> S \<and> getNodeId p reg = Some n)) ps"

definition detach :: "text_string set \<Rightarrow> RealmRegistry \<Rightarrow> RealmRegistry" where
  "detach S reg = reg\<lparr>
     rg_ports := (\<lambda>q. if q \<in> S then None else map_option (\<lambda>e. e\<lparr>pe_children := kept_children S reg q (pe_children e)\<rparr>) (rg_ports reg q)),
     rg_byNode := (\<lambda>n. map_option (kept_hosted S reg n) (rg_byNode reg n))\<rparr>"

lemma detach_empty [simp]: "detach {} reg = reg"
  by (intro RealmRegistry.equality) (auto simp: detach_def kept_children_def kept_hosted_def fun_eq_iff map_option_case split: option.splits)

lemma set_delete_filter: "set_delete p (filter P cs) = filter (\<lambda>c. c \<noteq> p \<and> P c) cs"
  by (simp add: set_delete_def conj_commute)

lemma kept_insert:
  assumes "rg_ports reg p = Some e"
  shows "kept_children (insert p S) reg q cs = (if pe_parent e = Some q \<and> q \<noteq> [] then set_delete p (kept_children S reg q cs) else kept_children S reg q cs)"
    "kept_hosted (insert p S) reg n cs = (if pe_node e = n then set_delete p (kept_hosted S reg n cs) else kept_hosted S reg n cs)"
  using assms by (auto simp: kept_children_def kept_hosted_def parent_of_def getNodeId_def set_delete_filter intro: filter_cong)

lemma forget_port_detach:
  assumes e: "rg_ports reg p = Some e" "p \<notin> S" "pe_parent e' = pe_parent e" "pe_node e' = pe_node e"
  shows "forget_port p e' (detach S reg) = detach (insert p S) reg"
proof -
  note k = kept_insert [OF e(1), of S]
  have ports: "rg_ports (forget_port p e' (detach S reg)) q = rg_ports (detach (insert p S) reg) q" for q
    using e by (cases "q \<in> insert p S"; cases "pe_parent e"; cases "rg_ports reg q")
      (auto simp: forget_port_def detach_def change_children_def names_port_def k split: option.splits)
  have nodes: "rg_byNode (forget_port p e' (detach S reg)) m = rg_byNode (detach (insert p S) reg) m" for m
    using e(4) by (cases "rg_byNode reg m") (auto simp: forget_port_def detach_def k split: option.splits)
  show ?thesis using ports nodes by (intro RealmRegistry.equality) (auto simp: fun_eq_iff forget_port_def detach_def)
qed

text \<open>The registered ports that a port owns, itself included.\<close>

definition realm_ports :: "RealmRegistry \<Rightarrow> text_string \<Rightarrow> text_string set" where
  "realm_ports reg p = owned reg p \<inter> dom (rg_ports reg)"

text \<open>Sets of registered ports that contain what their members own.\<close>

definition below :: "RealmRegistry \<Rightarrow> text_string set \<Rightarrow> bool" where
  "below reg S \<longleftrightarrow> S \<subseteq> dom (rg_ports reg) \<and> (\<forall>p \<in> S. realm_ports reg p \<subseteq> S)"

text \<open>A registry whose only cycles are ports that are their own children.\<close>

definition ports_nested :: "RealmRegistry \<Rightarrow> bool" where
  "ports_nested reg \<longleftrightarrow> finite (dom (rg_ports reg)) \<and> acyclic (child_edge reg - Id)"

definition own_child :: "RealmRegistry \<Rightarrow> text_string \<Rightarrow> bool" where
  "own_child reg p \<longleftrightarrow> (p, p) \<in> child_edge reg"

lemma child_owned:
  assumes "ports_nested reg" "rg_ports reg p = Some e" "c \<in> set (pe_children e)" "\<not> own_child reg p"
  shows "owned reg c \<subseteq> owned reg p" "p \<notin> owned reg c"
proof -
  have pc: "(p, c) \<in> child_edge reg" using assms by (auto simp: child_edge_def)
  then show "owned reg c \<subseteq> owned reg p" by (auto simp: owned_def intro: converse_rtrancl_into_rtrancl)
  show "p \<notin> owned reg c"
  proof
    assume "p \<in> owned reg c"
    then have "(c, p) \<in> (child_edge reg - Id)\<^sup>*" by (simp add: owned_def rtrancl_r_diff_Id)
    moreover have "(p, c) \<in> child_edge reg - Id" using pc assms(4) by (auto simp: own_child_def)
    ultimately have "(p, p) \<in> (child_edge reg - Id)\<^sup>+" by (metis rtrancl_into_trancl2)
    with assms(1) show False by (simp add: ports_nested_def acyclic_def)
  qed
qed

lemma child_realm:
  assumes "ports_nested reg" "rg_ports reg p = Some e" "c \<in> set (pe_children e)" "\<not> own_child reg p"
  shows "realm_ports reg c \<subset> realm_ports reg p"
  using child_owned [OF assms] assms(2) by (auto simp: realm_ports_def owned_def)

lemma realm_unfold:
  assumes "rg_ports reg p = Some e"
  shows "realm_ports reg p = insert p (\<Union>c \<in> set (pe_children e). realm_ports reg c)"
proof -
  have "x \<in> owned reg p \<longleftrightarrow> x = p \<or> (\<exists>c \<in> set (pe_children e). x \<in> owned reg c)" for x
    using assms by (subst owned_def) (auto simp: owned_def child_edge_def elim: converse_rtranclE intro: converse_rtrancl_into_rtrancl)
  then show ?thesis using assms by (auto simp: realm_ports_def)
qed


text \<open>No port twice, and each before the ports that own it.\<close>

definition before_owners :: "RealmRegistry \<Rightarrow> text_string list \<Rightarrow> bool" where
  "before_owners reg L \<longleftrightarrow> distinct L \<and> sorted_wrt (\<lambda>a b. b \<notin> owned reg a) L"

lemma below_Un: "below reg S \<Longrightarrow> below reg T \<Longrightarrow> below reg (S \<union> T)"
  by (auto simp: below_def)

lemma owned_trans: "q \<in> owned reg p \<Longrightarrow> owned reg q \<subseteq> owned reg p"
  by (auto simp: owned_def)

lemma below_realm: "below reg (realm_ports reg p)"
  using owned_trans by (fastforce simp: below_def realm_ports_def)

text \<open>A removal that takes out and reports what is left of a set of ports.\<close>

definition removes :: "RealmRegistry \<Rightarrow> (text_string \<Rightarrow> text_string option \<Rightarrow> 'a) \<Rightarrow> text_string set \<Rightarrow>
    (RealmRegistry \<times> 'a list \<Rightarrow> (RealmRegistry \<times> 'a list) option) \<Rightarrow> bool" where
  "removes reg report T f \<longleftrightarrow> (\<forall>S acc. below reg S \<longrightarrow> (\<exists>L. before_owners reg L \<and> set L = T - S \<and>
     f (detach S reg, acc) = Some (detach (S \<union> T) reg, acc @ map (\<lambda>p. report p (parent_of reg p)) L)))"

lemma removesE:
  assumes "removes reg report T f" "below reg S"
  obtains L where "before_owners reg L" "set L = T - S"
    "f (detach S reg, acc) = Some (detach (S \<union> T) reg, acc @ map (\<lambda>p. report p (parent_of reg p)) L)"
  using assms unfolding removes_def by blast

lemma removes_all:
  assumes "\<And>c. c \<in> set cs \<Longrightarrow> removes reg report (realm_ports reg c) (removeRecursive report n c)"
  shows "removes reg report (\<Union>c \<in> set cs. realm_ports reg c) (remove_all report n cs)"
  using assms
proof (induction cs)
  case Nil
  show ?case by (auto simp: removes_def before_owners_def intro: exI [of _ "[]"])
next
  case (Cons c cs)
  show ?case unfolding removes_def
  proof (intro allI impI)
    fix S acc assume S: "below reg S"
    obtain L where L: "before_owners reg L" "set L = realm_ports reg c - S"
        "removeRecursive report n c (detach S reg, acc) = Some (detach (S \<union> realm_ports reg c) reg, acc @ map (\<lambda>p. report p (parent_of reg p)) L)"
      by (rule removesE [OF Cons.prems S]) auto
    have b: "below reg (S \<union> realm_ports reg c)" by (intro below_Un S below_realm)
    have "removes reg report (\<Union>c \<in> set cs. realm_ports reg c) (remove_all report n cs)" using Cons by simp
    from this b obtain M where M: "before_owners reg M" "set M = (\<Union>c \<in> set cs. realm_ports reg c) - (S \<union> realm_ports reg c)"
        "remove_all report n cs (detach (S \<union> realm_ports reg c) reg, acc @ map (\<lambda>p. report p (parent_of reg p)) L) =
          Some (detach (S \<union> realm_ports reg c \<union> (\<Union>c \<in> set cs. realm_ports reg c)) reg,
            (acc @ map (\<lambda>p. report p (parent_of reg p)) L) @ map (\<lambda>p. report p (parent_of reg p)) M)"
      by (rule removesE)
    have "y \<notin> owned reg x" if "x \<in> set L" "y \<in> set M" for x y
      using that L(2) M(2) owned_trans [of x reg c] by (auto simp: realm_ports_def)
    with L(1,2) M(1,2) have "before_owners reg (L @ M)" by (auto simp: before_owners_def sorted_wrt_append)
    with L M show "\<exists>L. before_owners reg L \<and> set L = (\<Union>c \<in> set (c # cs). realm_ports reg c) - S \<and>
        remove_all report n (c # cs) (detach S reg, acc) =
          Some (detach (S \<union> (\<Union>c \<in> set (c # cs). realm_ports reg c)) reg, acc @ map (\<lambda>p. report p (parent_of reg p)) L)"
      by (intro exI [of _ "L @ M"]) (auto simp: Un_assoc)
  qed
qed


lemma removes_port:
  assumes ok: "ports_nested reg"
  shows "card (realm_ports reg p) < n \<Longrightarrow> \<forall>q \<in> owned reg p. \<not> own_child reg q \<Longrightarrow>
    removes reg report (realm_ports reg p) (removeRecursive report n p)"
proof (induction n arbitrary: p)
  case (Suc n)
  show ?case
  proof (cases "rg_ports reg p")
    case None
    have "x = p" if "x \<in> owned reg p" for x
      using that None unfolding owned_def by (auto simp: child_edge_def elim: converse_rtranclE)
    with None have "realm_ports reg p = {}" by (force simp: realm_ports_def)
    with None show ?thesis by (auto simp: removes_def before_owners_def detach_def)
  next
    case (Some e)
    let ?C = "\<Union>c \<in> set (pe_children e). realm_ports reg c"
    have p: "p \<in> owned reg p" by (simp add: owned_def)
    with Suc.prems(2) have s: "\<not> own_child reg p" by blast
    have fin: "finite (realm_ports reg p)" using ok by (simp add: ports_nested_def realm_ports_def)
    have child: "removes reg report (realm_ports reg c) (removeRecursive report n c)" if c: "c \<in> set (pe_children e)" for c
      using psubset_card_mono [OF fin child_realm [OF ok Some c s]] Suc.prems child_owned(1) [OF ok Some c s] by (intro Suc.IH) auto
    have pC: "p \<notin> ?C" using child_owned(2) [OF ok Some _ s] by (auto simp: realm_ports_def)
    show ?thesis unfolding removes_def
    proof (intro allI impI)
      fix S acc assume S: "below reg S"
      show "\<exists>L. before_owners reg L \<and> set L = realm_ports reg p - S \<and> removeRecursive report (Suc n) p (detach S reg, acc) =
        Some (detach (S \<union> realm_ports reg p) reg, acc @ map (\<lambda>p. report p (parent_of reg p)) L)"
      proof (cases "p \<in> S")
        case True
        then have "realm_ports reg p \<subseteq> S" using S by (auto simp: below_def)
        with True show ?thesis by (intro exI [of _ "[]"]) (auto simp: before_owners_def detach_def Un_absorb2)
      next
        case False
        let ?cs = "kept_children S reg p (pe_children e)"
        let ?K = "\<Union>c \<in> set ?cs. realm_ports reg c"
        have K: "S \<union> ?K = S \<union> ?C" "?K - S = ?C - S" using S by (auto simp: kept_children_def below_def)
        have "removes reg report ?K (remove_all report n ?cs)" by (intro removes_all child) (auto simp: kept_children_def)
        then obtain L where L: "before_owners reg L" "set L = ?C - S"
            "remove_all report n ?cs (detach S reg, acc) = Some (detach (S \<union> ?C) reg, acc @ map (\<lambda>p. report p (parent_of reg p)) L)"
          by (rule removesE [OF _ S]) (use K in auto)
        have "rg_ports (detach S reg) p = Some (e\<lparr>pe_children := ?cs\<rparr>)" using False Some by (simp add: detach_def)
        then have "removeRecursive report (Suc n) p (detach S reg, acc) =
            Some (detach (insert p (S \<union> ?C)) reg, (acc @ map (\<lambda>p. report p (parent_of reg p)) L) @ [report p (pe_parent e)])"
          using L(3) False pC Some by (simp add: forget_port_detach)
        moreover have "before_owners reg (L @ [p])"
          using L(1,2) pC child_owned(2) [OF ok Some _ s] owned_trans by (fastforce simp: before_owners_def sorted_wrt_append realm_ports_def)
        ultimately show ?thesis using L(2) False Some realm_unfold [OF Some]
          by (intro exI [of _ "L @ [p]"]) (auto simp: parent_of_def Un_commute Un_insert_left)
      qed
    qed
  qed
qed simp


text \<open>Every operation keeps this.\<close>

lemma nested_mono:
  assumes "ports_nested reg" "dom (rg_ports reg') \<subseteq> dom (rg_ports reg)" "child_edge reg' \<subseteq> child_edge reg"
  shows "ports_nested reg'"
  using assms unfolding ports_nested_def by (meson Diff_mono acyclic_subset finite_subset order_refl)

lemma forget_port_shrinks:
  "dom (rg_ports (forget_port p e reg)) \<subseteq> dom (rg_ports reg)" "child_edge (forget_port p e reg) \<subseteq> child_edge reg"
  by (auto simp: forget_port_def change_children_def child_edge_def set_delete_def split: option.splits if_splits)

lemma removal_nested:
  "removeRecursive report n p (reg, acc) = Some (reg', acc') \<Longrightarrow> ports_nested reg \<Longrightarrow> ports_nested reg'"
  "remove_all report n ps (reg, acc) = Some (reg', acc') \<Longrightarrow> ports_nested reg \<Longrightarrow> ports_nested reg'"
proof (induction report n p "(reg, acc)" and report n ps "(reg, acc)" arbitrary: reg acc reg' acc' and reg acc reg' acc' rule: removeRecursive_remove_all.induct)
  case (2 report n portId reg acc)
  then show ?case by (auto split: option.splits intro: nested_mono [OF _ forget_port_shrinks])
next
  case (4 report n c cs reg acc)
  then show ?case by (fastforce simp: bind_eq_Some_conv)
qed auto

lemma register_nested:
  assumes "ports_nested reg"
  shows "ports_nested (register p parent n reg)"
proof -
  have e: "child_edge (register p parent n reg) - Id \<subseteq> {(q, c) \<in> child_edge reg - Id. q \<noteq> p} \<union> {(q, p) |q. q \<noteq> p}"
    by (auto simp: child_edge_def register_def change_children_def set_add_def Let_def split: if_splits option.splits)
  have "acyclic ({(q, c) \<in> child_edge reg - Id. q \<noteq> p} \<union> {(q, p) |q. q \<noteq> p})"
  proof (rule acyclicI, rule allI, rule notI)
    fix x
    let ?R = "{(q, c) \<in> child_edge reg - Id. q \<noteq> p}" and ?N = "{(q, p) |q. q \<noteq> p}"
    assume "(x, x) \<in> (?R \<union> ?N)\<^sup>+"
    moreover have "x \<noteq> p \<and> ((x, y) \<in> (child_edge reg - Id)\<^sup>+ \<or> y = p)" if "(x, y) \<in> (?R \<union> ?N)\<^sup>+" for y
      using that by (induction rule: trancl_induct) (auto intro: trancl_into_trancl)
    ultimately show False using assms by (auto simp: ports_nested_def acyclic_def)
  qed
  then have "acyclic (child_edge (register p parent n reg) - Id)" by (rule acyclic_subset [OF _ e])
  moreover have "dom (rg_ports (register p parent n reg)) \<subseteq> insert p (dom (rg_ports reg))"
    by (auto simp: register_def change_children_def Let_def split: if_splits option.splits)
  ultimately show ?thesis using assms by (auto simp: ports_nested_def intro: finite_subset)
qed

lemma new_registry_nested: "ports_nested new_registry"
  by (simp add: ports_nested_def new_registry_def child_edge_def acyclic_def)

lemma registry_exit_nested: "ports_nested reg \<Longrightarrow> registry_exit n p reg = Some (removed, reg') \<Longrightarrow> ports_nested reg'"
  by (auto simp: registry_exit_def dest: removal_nested)

lemma nodeDown_nested: "ports_nested reg \<Longrightarrow> nodeDown n nodeId reg = Some (removed, reg') \<Longrightarrow> ports_nested reg'"
  by (auto simp: nodeDown_def split: option.splits dest: removal_nested)

lemma exit_detaches:
  assumes "ports_nested reg" "rg_ports reg p = Some e" "\<forall>q \<in> owned reg p. \<not> own_child reg q" "card (dom (rg_ports reg)) < n"
  obtains L where "before_owners reg (L @ [p])" "set (L @ [p]) = realm_ports reg p" "registry_exit n p reg = Some (L @ [p], detach (realm_ports reg p) reg)"
proof -
  have fin: "finite (dom (rg_ports reg))" using assms(1) by (simp add: ports_nested_def)
  then have "card (realm_ports reg p) \<le> card (dom (rg_ports reg))" by (intro card_mono) (auto simp: realm_ports_def)
  with assms have "removes reg (\<lambda>portId _. portId) (realm_ports reg p) (removeRecursive (\<lambda>portId _. portId) n p)"
    by (intro removes_port) auto
  moreover have "below reg {}" by (simp add: below_def)
  ultimately obtain M where M: "before_owners reg M" "set M = realm_ports reg p"
      "removeRecursive (\<lambda>portId _. portId) n p (reg, []) = Some (detach (realm_ports reg p) reg, M)"
    by (rule removesE [where S = "{}" and acc = "[]"]) (simp add: id_def)
  have "p \<in> set M" using M(2) assms(2) by (auto simp: realm_ports_def owned_def)
  then obtain L R where LR: "M = L @ p # R" by (auto dest: split_list)
  have "R = []"
  proof (rule ccontr)
    assume "R \<noteq> []"
    then have "hd R \<in> set M" "hd R \<notin> owned reg p" using M(1) LR by (auto simp: before_owners_def sorted_wrt_append)
    then show False using M(2) by (auto simp: realm_ports_def)
  qed
  then show thesis using that [of L] M LR by (simp add: registry_exit_def)
qed

subsection \<open>Properties\<close>

text \<open>C20: \<open>exit\<close> of a registered port ends on any registry with an acyclic ownership, given a call stack as deep as there are
  ports. It removes the port and everything it owns, directly or not, reports them once each with children before their
  parents, keeps all other ports, edges and index entries, and the invariant.\<close>

theorem exit_removes_subtree:
  assumes "registry_ok reg" "rg_ports reg p \<noteq> None" "card (dom (rg_ports reg)) \<le> n"
  shows "\<exists>t. realm_port t = p \<and> is_tree reg t \<and> distinct (post_order t) \<and> set (post_order t) = owned reg p \<and>
    registry_exit n p reg = Some (post_order t, cut (owned reg p) reg) \<and> registry_ok (cut (owned reg p) reg)"
proof -
  obtain t where t: "realm_port t = p" "is_tree reg t" "distinct (post_order t)" "set (post_order t) = owned reg p"
    "\<And>A acc. descending reg A \<Longrightarrow> removeRecursive (\<lambda>portId _. portId) n p (cut A reg, acc) =
      Some (cut (A \<union> owned reg p) reg, acc @ removal reg (\<lambda>portId _. portId) (post_order t) A)"
    using remove_owned [OF assms, of "\<lambda>portId _. portId"] by metis
  have "registry_ok (cut (owned reg p) reg)" using cut_ok [OF assms(1) tree_descending [OF t(2)]] t(4) by simp
  moreover have "registry_exit n p reg = Some (post_order t, cut (owned reg p) reg)"
    using t(5) [of "{}" "[]"] by (simp add: registry_exit_def removal_def descending_def)
  ultimately show ?thesis using t by blast
qed

text \<open>When a node goes down, its ports and all that they own are removed, each reported once with its parent.\<close>

lemma node_down_removes:
  fixes nodeId :: text_string
  assumes ok: "registry_ok reg" and n: "card (dom (rg_ports reg)) \<le> n"
  defines "S \<equiv> {x. \<exists>p e. rg_ports reg p = Some e \<and> pe_node e = nodeId \<and> x \<in> owned reg p}"
  shows "\<exists>L. distinct L \<and> set L = S \<and> nodeDown n nodeId reg = Some (map (\<lambda>p. (p, parent_of reg p)) L, cut S reg) \<and> registry_ok (cut S reg)"
proof (cases "rg_byNode reg nodeId")
  case None
  then have "S = {}" using registry_okD(5) [OF ok] by (fastforce simp: S_def)
  with None ok show ?thesis by (auto simp: nodeDown_def)
next
  case (Some ps)
  have "set ps = {p. \<exists>e. rg_ports reg p = Some e \<and> pe_node e = nodeId}"
    using registry_okD(4) [OF ok Some] registry_okD(5) [OF ok] Some by fastforce
  then have S: "S = (\<Union>p \<in> set ps. owned reg p)" by (auto simp: S_def)
  have reg: "\<forall>p \<in> set ps. rg_ports reg p \<noteq> None" using registry_okD(4) [OF ok Some] by auto
  have "descending reg (owned reg p)" if "p \<in> set ps" for p
    using remove_owned [OF ok _ n, of p Pair] tree_descending reg that by metis
  then have "descending reg S" by (fastforce simp: S descending_def)
  then have "registry_ok (cut S reg)" by (rule cut_ok [OF ok])
  moreover have "descending reg {}" by (simp add: descending_def)
  from remove_list [OF ok n this reg, of Pair "[]"] obtain L where "distinct L" "set L = S"
      "remove_all Pair n ps (reg, []) = Some (cut S reg, map (\<lambda>p. (p, parent_of reg p)) L)" by (auto simp: S)
  ultimately show ?thesis using Some by (auto simp: nodeDown_def)
qed

subsection \<open>Samples and divergences\<close>

definition sample_registry :: RealmRegistry where
  "sample_registry = register [98] (Some [97]) [50] (register [97] None [49] new_registry)"

lemma sample_registry_ok: "registry_ok sample_registry"
  unfolding sample_registry_def
  by (intro register_ok new_registry_ok) (auto simp: new_port_def new_registry_def register_def change_children_def names_port_def parent_edge_def)

theorem exit_removes_subtree_witness:
  "\<exists>t. realm_port t = [97] \<and> is_tree sample_registry t \<and> distinct (post_order t) \<and> set (post_order t) = owned sample_registry [97] \<and>
    registry_exit 2 [97] sample_registry = Some (post_order t, cut (owned sample_registry [97]) sample_registry) \<and>
    registry_ok (cut (owned sample_registry [97]) sample_registry)"
proof (rule exit_removes_subtree [OF sample_registry_ok])
  have "dom (rg_ports sample_registry) = {[97], [98]}"
    by (auto simp: sample_registry_def new_registry_def register_def change_children_def names_port_def split: if_splits)
  then show "card (dom (rg_ports sample_registry)) \<le> 2" "rg_ports sample_registry [97] \<noteq> None" by auto
qed

text \<open>A port that is registered again on another node stays in the index of its old node, so that the end of the old node removes
  it.\<close>

lemma stale_node_index:
  defines "reg \<equiv> register [97] None [50] (register [97] None [49] new_registry)"
  shows "getNodeId [97] reg = Some [50]"
    "map_option (\<lambda>(removed, reg'). (removed, rg_ports reg' [97])) (nodeDown 2 [49] reg) = Some ([([97], None)], None)"
  by (simp_all add: reg_def getNodeId_def nodeDown_def new_registry_def register_def change_children_def names_port_def set_add_def numeral_2_eq_2 forget_port_def set_delete_def)

text \<open>A port registered as its own child exhausts the call stack of \<open>exit\<close>, however deep it is.\<close>

lemma self_parent_overflows:
  defines "reg \<equiv> register [97] (Some [97]) [49] new_registry"
  shows "registry_exit n [97] reg = None"
proof -
  have p: "rg_ports reg [97] = Some \<lparr>pe_portId = [97], pe_parent = Some [97], pe_node = [49], pe_children = [[97]]\<rparr>"
    by (simp add: reg_def new_registry_def register_def change_children_def names_port_def set_add_def)
  have "removeRecursive (report :: _ \<Rightarrow> _ \<Rightarrow> text_string) n [97] (reg, acc) = None" for report acc
    by (induction n) (simp_all add: p)
  then show ?thesis by (simp add: registry_exit_def)
qed

end
