(* ===== verification/Cluster_Framing.thy ===== *)
theory Cluster_Framing
  imports Protobuf_Roundtrip Scanner
begin

text \<open>
  \<open>internal/cluster/webtransport-framing.ts\<close>: the frames and the metadata message of the streams between cluster nodes.

  A \<open>ClusterStreamFrameReader\<close> is its buffer; the metadata of a stream, whose version \<open>v\<close> is always 1, is a datatype of its
  two kinds. The exceptions of the cluster modules are \<open>ClusterError\<close>s, with the messages shortened; what the modules they call throw is kept as it is.
\<close>

datatype cluster_error = ClusterError string | Thrown js_error | ScanThrown scan_error | NoReturn

definition cluster_fail :: "string \<Rightarrow> cluster_error + 'a" where
  "cluster_fail s = Inl (ClusterError s)"

definition lift_error :: "js_error + 'a \<Rightarrow> cluster_error + 'a" where
  "lift_error res = (case res of Inl e \<Rightarrow> Inl (Thrown e) | Inr x \<Rightarrow> Inr x)"

lemma lift_error_Inr [simp]: "lift_error res = Inr x \<longleftrightarrow> res = Inr x" "lift_error (Inr x) = Inr x"
  by (simp_all add: lift_error_def split: sum.splits)

subsection \<open>Frames\<close>

definition encodeClusterStreamFrame :: "byte list \<Rightarrow> byte list" where
  "encodeClusterStreamFrame payload = be_bytes 4 (length payload mod 2 ^ 32) @ payload"

definition decodeClusterStreamFrame :: "byte list \<Rightarrow> cluster_error + byte list \<times> nat" where
  "decodeClusterStreamFrame bytes =
     (if length bytes < 4 then cluster_fail ''truncated cluster WebTransport frame length''
      else
        let last = 4 + be_uint (take 4 bytes) in
        if length bytes < last then cluster_fail ''truncated cluster WebTransport frame payload''
        else Inr (drop 4 (take last bytes), last))"

text \<open>The loop of \<open>push\<close>: the frames of a buffer and what is left of it.\<close>

function frames_of :: "byte list \<Rightarrow> cluster_error + byte list list \<times> byte list" where
  "frames_of buffer =
     (if length buffer \<ge> 4 then
        let last = 4 + be_uint (take 4 buffer) in
        if length buffer < last then Inr ([], buffer)
        else bindR (decodeClusterStreamFrame (take last buffer)) (\<lambda>(payload, bytesRead).
          if bytesRead = 0 then Inl NoReturn
          else bindR (frames_of (drop bytesRead buffer)) (\<lambda>(frames, rest). Inr (payload # frames, rest)))
      else Inr ([], buffer))"
  by pat_completeness auto
termination
  by (relation "measure length") auto

declare frames_of.simps [simp del]

definition push :: "byte list \<Rightarrow> byte list \<Rightarrow> cluster_error + byte list list \<times> byte list" where
  "push buffer chunk = (if chunk = [] then Inr ([], buffer) else frames_of (buffer @ chunk))"

definition assertComplete :: "byte list \<Rightarrow> cluster_error + unit" where
  "assertComplete buffer = (if buffer \<noteq> [] then cluster_fail ''truncated cluster WebTransport frame at stream end'' else Inr ())"

text \<open>A stream read chunk by chunk.\<close>

fun push_all :: "byte list \<Rightarrow> byte list list \<Rightarrow> cluster_error + byte list list \<times> byte list" where
  "push_all buffer [] = Inr ([], buffer)"
| "push_all buffer (chunk # chunks) = bindR (push buffer chunk) (\<lambda>(frames, buffer).
     bindR (push_all buffer chunks) (\<lambda>(beyond, buffer). Inr (frames @ beyond, buffer)))"

subsection \<open>Port pairs\<close>

fun text_less :: "text_string \<Rightarrow> text_string \<Rightarrow> bool" where
  "text_less [] t = (t \<noteq> [])"
| "text_less (u # s) [] = False"
| "text_less (u # s) (v # t) = (u < v \<or> u = v \<and> text_less s t)"

definition canonicalPortPair :: "text_string \<Rightarrow> text_string \<Rightarrow> text_string" where
  "canonicalPortPair a b = (if text_less a b then a @ [124] @ b else b @ [124] @ a)"

subsection \<open>Metadata\<close>

datatype ClusterStreamMetadata = Control | Port text_string text_string text_string

definition wire_field :: "string \<Rightarrow> int \<Rightarrow> FieldType \<Rightarrow> bool \<Rightarrow> bool \<Rightarrow> field_descriptor" where
  "wire_field name number type repeated opt =
     \<lparr>fd_name = text_of name, fd_number = number, fd_type = type, fd_repeated = repeated, fd_packed = None, fd_optional = opt\<rparr>"

definition MetadataMessage :: "field_descriptor list" where
  "MetadataMessage = [
     wire_field ''version'' 1 (Scalar Uint32) False False,
     wire_field ''kind'' 2 (Scalar Enum) False False,
     wire_field ''pair'' 3 (Scalar String) False True,
     wire_field ''a'' 4 (Scalar String) False True,
     wire_field ''b'' 5 (Scalar String) False True]"

abbreviation (input) num :: "int \<Rightarrow> pvalue" where "num n \<equiv> PNumber (number_of_int n)"

definition encodeClusterStreamMetadata :: "ClusterStreamMetadata \<Rightarrow> cluster_error + byte list" where
  "encodeClusterStreamMetadata metadata = bindR (lift_error (defineMessage MetadataMessage)) (\<lambda>codec. lift_error (codec_encode codec (PObject
     ([(text_of ''version'', num 1), (text_of ''kind'', num (if metadata = Control then 1 else 2))] @ (case metadata of
        Control \<Rightarrow> []
      | Port pair a b \<Rightarrow> [(text_of ''pair'', PString pair), (text_of ''a'', PString a), (text_of ''b'', PString b)])))))"

definition decodeClusterStreamMetadata :: "nat \<Rightarrow> byte list \<Rightarrow> cluster_error + ClusterStreamMetadata" where
  "decodeClusterStreamMetadata stack bytes = bindR (lift_error (defineMessage MetadataMessage)) (\<lambda>codec. bindR (lift_error (codec_decode codec stack bytes)) (\<lambda>v.
     let value = property_of (object_entries v) \<circ> text_of in
     if value ''version'' \<noteq> num 1 then cluster_fail ''unsupported cluster WebTransport metadata version''
     else if value ''kind'' = num 1 then Inr Control
     else case (value ''kind'' = num 2, value ''pair'', value ''a'', value ''b'') of
       (True, PString pair, PString a, PString b) \<Rightarrow> Inr (Port pair a b)
     | _ \<Rightarrow> cluster_fail ''invalid cluster WebTransport metadata''))"

subsection \<open>What a schema delivers\<close>

text \<open>What the decoder of a schema has for a field when the writer set it to \<open>v\<close>.\<close>

definition received :: "field_descriptor \<Rightarrow> pvalue \<Rightarrow> pvalue" where
  "received d v =
     (if fd_repeated d then PArray (map (canonical_value (fd_type d)) (list_items v))
      else if v = PUndefined \<or> \<not> fd_optional d \<and> isDefault (fd_type d) v
      then (if fd_optional d then PUndefined else implicit_default (fd_type d))
      else canonical_value (fd_type d) v)"

lemma compile_fields_set: "compile_fields fs ds = Inr gs \<Longrightarrow> set gs = set fs \<union> compile_field ` set ds"
  by (induction fs ds rule: compile_fields.induct) (auto simp: pb_error_def split: if_splits)

lemma property_of_map:
  assumes "distinct (map rf_name fs)" "f \<in> set fs"
  shows "property_of (map (\<lambda>g. (rf_name g, h g)) (filter P fs) @ map (\<lambda>g. (rf_name g, k g)) (filter Q fs)) (rf_name f) =
    (if P f then h f else if Q f then k f else PUndefined)"
proof -
  have none: "map_of (map (\<lambda>g. (rf_name g, m g)) (filter R fs)) (rf_name f) = None" if "\<not> R f" for m R
    using that assms by (auto simp: map_of_eq_None_iff distinct_map dest: inj_onD)
  have some: "map_of (map (\<lambda>g. (rf_name g, m g)) (filter R fs)) (rf_name f) = Some (m f)" if "R f" for m R
    using that assms by (intro map_of_is_SomeI) (auto simp: comp_def distinct_map_filter)
  show ?thesis using none [of P h] some [of P h] none [of Q k] some [of Q k]
    by (cases "P f"; cases "Q f") (simp_all add: property_of_def map_add_def)
qed

lemma canonical_delivers:
  assumes "compileSchema ds = Inr fs" "declared ds"
  shows "list_all (\<lambda>d. property_of (canonical_message fs look) (fd_name d) = received d (look (fd_name d))) ds"
proof -
  have ok: "schema_ok fs" by (rule compiled_schema_ok [OF assms])
  have "property_of (canonical_message fs look) (fd_name d) = received d (look (fd_name d))" if d: "d \<in> set ds" for d
  proof -
    obtain gs where "compile_fields [] ds = Inr gs" "fs = sort_key rf_number gs" using assms(1) by (auto simp: compileSchema_def result_simps)
    with compile_fields_set [of "[]" ds gs] d have f: "compile_field d \<in> set fs" by simp
    have n: "rf_name (compile_field d) = fd_name d" by (simp add: compile_field_def)
    have "isDefault (Message sub) v \<longleftrightarrow> v = PUndefined" for sub v by (simp add: isDefault_def)
    then show ?thesis
      using property_of_map [of fs "compile_field d"] ok f unfolding canonical_message_fields n [symmetric]
      by (cases "fd_type d") (auto simp: received_def canonical_field_def initialised_def compile_field_def isCodec_def implicit_default_def)
  qed
  then show ?thesis by (simp add: list_all_iff)
qed

lemma codec_delivers:
  assumes "defineMessage ds = Inr codec" "declared ds" "codec_encode codec (PObject ps) = Inr bs" "length bs < 2 ^ 53"
  obtains qs where "codec_decode codec stack bs = Inr (PObject qs)"
    "list_all (\<lambda>d. property_of qs (fd_name d) = received d (property_of ps (fd_name d))) ds"
proof -
  from assms(1) obtain fs where fs: "compileSchema ds = Inr fs" "codec = \<lparr>codec_encode = encodeMessage fs, codec_decode = (\<lambda>stack. decodeMessage stack fs)\<rparr>"
    by (auto simp: defineMessage_def result_simps)
  have ok: "schema_ok fs" by (rule compiled_schema_ok [OF fs(1) assms(2)])
  have agree: "agree fs fs" using ok by (auto simp: agree_def distinct_map dest: inj_onD)
  have "codec_decode codec stack bs = Inr (PObject (canonical_message fs (seen fs fs ps)))"
    using decoded_canonical [OF ok ok agree, of "PObject ps" bs ps] assms(3,4) fs(2) by simp
  moreover have "canonical_message fs (seen fs fs ps) = canonical_message fs (property_of ps)" by (rule canonical_message_look) (rule seen_self)
  ultimately show thesis using that canonical_delivers [OF fs(1) assms(2)] by simp
qed

subsection \<open>Frames survive any chunking\<close>

text \<open>One turn of the loop: the frame at the front of a buffer, if it is there as a whole.\<close>

lemma frames_of_step:
  "frames_of buffer = (if length buffer < 4 \<or> length buffer < 4 + be_uint (take 4 buffer) then Inr ([], buffer)
     else bindR (frames_of (drop (4 + be_uint (take 4 buffer)) buffer)) (\<lambda>(frames, rest).
       Inr (drop 4 (take (4 + be_uint (take 4 buffer)) buffer) # frames, rest)))"
  by (subst frames_of.simps) (simp add: decodeClusterStreamFrame_def Let_def min_def take_drop)

lemma frames_of_total: "\<exists>frames rest. frames_of buffer = Inr (frames, rest) \<and> frames_of rest = Inr ([], rest)"
proof (induction "length buffer" arbitrary: buffer rule: less_induct)
  case less
  have ind: "\<exists>frames rest. frames_of (drop (4 + n) buffer) = Inr (frames, rest) \<and> frames_of rest = Inr ([], rest)"
    if "4 \<le> length buffer" for n
    using less [of "drop (4 + n) buffer"] that by simp
  show ?case
  proof (cases "length buffer < 4 \<or> length buffer < 4 + be_uint (take 4 buffer)")
    case True
    then show ?thesis by (subst frames_of_step) (simp add: frames_of_step [of buffer])
  next
    case False
    with ind [of "be_uint (take 4 buffer)"] show ?thesis by (subst frames_of_step) auto
  qed
qed

lemma frames_of_append:
  assumes "frames_of buffer = Inr (frames, rest)"
  shows "frames_of (buffer @ beyond) = bindR (frames_of (rest @ beyond)) (\<lambda>(frames', rest'). Inr (frames @ frames', rest'))"
  using assms
proof (induction "length buffer" arbitrary: buffer frames rule: less_induct)
  case less
  let ?n = "4 + be_uint (take 4 buffer)"
  show ?case
  proof (cases "length buffer < 4 \<or> length buffer < ?n")
    case True
    then have "frames = []" "rest = buffer" using less.prems by (simp_all add: frames_of_step [of buffer])
    then show ?thesis by (cases "frames_of (buffer @ beyond)") auto
  next
    case False
    then have t: "take 4 (buffer @ beyond) = take 4 buffer" "take ?n (buffer @ beyond) = take ?n buffer" "drop ?n (buffer @ beyond) = drop ?n buffer @ beyond"
      by simp_all
    obtain frames' where f: "frames_of (drop ?n buffer) = Inr (frames', rest)" "frames = drop 4 (take ?n buffer) # frames'"
      using less.prems False by (simp add: frames_of_step [of buffer]) (auto simp: bindR_eq_Inr)
    have "frames_of (buffer @ beyond) = bindR (frames_of (drop ?n buffer @ beyond)) (\<lambda>(frames, rest). Inr (drop 4 (take ?n buffer) # frames, rest))"
      using False by (simp only: frames_of_step [of "buffer @ beyond"] t) simp
    moreover have "frames_of (drop ?n buffer @ beyond) = bindR (frames_of (rest @ beyond)) (\<lambda>(fs, r). Inr (frames' @ fs, r))"
    proof (rule less.hyps [OF _ f(1)])
      show "length (drop ?n buffer) < length buffer" using False by (cases buffer) auto
    qed
    ultimately show ?thesis by (cases "frames_of (rest @ beyond)") (auto simp: f(2))
  qed
qed

lemma push_all_concat:
  assumes "frames_of buffer = Inr ([], buffer)"
  shows "push_all buffer chunks = frames_of (buffer @ concat chunks)"
  using assms
proof (induction chunks arbitrary: buffer)
  case (Cons chunk chunks)
  obtain frames rest where f: "frames_of (buffer @ chunk) = Inr (frames, rest)" "frames_of rest = Inr ([], rest)"
    using frames_of_total by blast
  have "push buffer chunk = frames_of (buffer @ chunk)" using Cons.prems by (simp add: push_def)
  then show ?case using f Cons.IH [OF f(2)] frames_of_append [OF f(1), of "concat chunks"] by simp
qed simp

lemma frames_of_frame:
  assumes "length payload < 2 ^ 32"
  shows "frames_of (encodeClusterStreamFrame payload @ beyond) = bindR (frames_of beyond) (\<lambda>(frames, rest). Inr (payload # frames, rest))"
proof -
  have "be_uint (be_bytes 4 (length payload)) = length payload" using assms by (intro be_uint_be_bytes) simp
  then show ?thesis using assms by (subst frames_of_step) (simp add: encodeClusterStreamFrame_def)
qed

lemma frames_of_partial:
  assumes "length payload < 2 ^ 32" "encodeClusterStreamFrame payload = part @ beyond" "beyond \<noteq> []"
  shows "frames_of part = Inr ([], part)"
proof (cases "length part < 4")
  case False
  have e: "be_bytes 4 (length payload) @ payload = part @ beyond" using assms by (simp add: encodeClusterStreamFrame_def)
  have "take 4 part = be_bytes 4 (length payload)" using arg_cong [OF e, of "take 4"] False by simp
  moreover have "be_uint (be_bytes 4 (length payload)) = length payload" using assms(1) by (intro be_uint_be_bytes) simp
  moreover have "length part < 4 + length payload" using arg_cong [OF e, of length] assms(3) by (cases beyond) simp_all
  ultimately show ?thesis by (simp add: frames_of_step)
qed (simp add: frames_of_step)

lemma frames_of_prefix:
  assumes "\<forall>payload \<in> set payloads. length payload < 2 ^ 32" "bytes @ later = concat (map encodeClusterStreamFrame payloads)"
  shows "\<exists>k rest. frames_of bytes = Inr (take k payloads, rest) \<and> bytes = concat (map encodeClusterStreamFrame (take k payloads)) @ rest
    \<and> (later = [] \<longrightarrow> take k payloads = payloads)"
  using assms
proof (induction payloads arbitrary: bytes)
  case Nil
  then show ?case by (simp add: frames_of_step)
next
  case (Cons payload payloads)
  show ?case
  proof (cases "\<exists>bytes'. bytes = encodeClusterStreamFrame payload @ bytes'")
    case True
    then obtain bytes' where b: "bytes = encodeClusterStreamFrame payload @ bytes'" by blast
    with Cons.prems obtain k rest where k: "frames_of bytes' = Inr (take k payloads, rest)"
        "bytes' = concat (map encodeClusterStreamFrame (take k payloads)) @ rest" "later = [] \<longrightarrow> take k payloads = payloads"
      using Cons.IH [of bytes'] by auto
    have "frames_of bytes = Inr (payload # take k payloads, rest)" using frames_of_frame Cons.prems(1) k(1) b by simp
    then show ?thesis using k b by (intro exI [of _ "Suc k"] exI [of _ rest]) simp
  next
    case False
    from Cons.prems(2) obtain us where "bytes = encodeClusterStreamFrame payload @ us \<or> bytes @ us = encodeClusterStreamFrame payload"
      by (auto simp: append_eq_append_conv2)
    with False obtain beyond where m: "encodeClusterStreamFrame payload = bytes @ beyond" "beyond \<noteq> []" by (metis append_Nil2)
    then have "frames_of bytes = Inr ([], bytes)" using Cons.prems(1) by (intro frames_of_partial) auto
    moreover have "later \<noteq> []" using m Cons.prems(2) by auto
    ultimately show ?thesis by (intro exI [of _ 0] exI [of _ bytes]) simp
  qed
qed

text \<open>C16: A stream of frames, each payload shorter than 2^32 bytes, is read back from the chunks it arrives in, whatever their
  boundaries are: pushing the chunks received so far delivers exactly the payloads whose frames are complete, in order, and keeps
  the bytes after them; when the whole stream has arrived every payload has been delivered. At the end of the stream
  \<open>assertComplete\<close> accepts exactly a stream that ends on a frame boundary.\<close>

theorem frames_any_chunking:
  assumes "\<forall>payload \<in> set payloads. length payload < 2 ^ 32"
    and "concat chunks @ later = concat (map encodeClusterStreamFrame payloads)"
  shows "\<exists>k rest. push_all [] chunks = Inr (take k payloads, rest)
    \<and> concat chunks = concat (map encodeClusterStreamFrame (take k payloads)) @ rest
    \<and> (assertComplete rest = Inr () \<longleftrightarrow> concat chunks = concat (map encodeClusterStreamFrame (take k payloads)))
    \<and> (later = [] \<longrightarrow> take k payloads = payloads \<and> assertComplete rest = Inr ())"
proof -
  have "push_all [] chunks = frames_of (concat chunks)" using push_all_concat [of "[]" chunks] by (simp add: frames_of_step)
  moreover obtain k rest where k: "frames_of (concat chunks) = Inr (take k payloads, rest)"
      "concat chunks = concat (map encodeClusterStreamFrame (take k payloads)) @ rest" "later = [] \<longrightarrow> take k payloads = payloads"
    using frames_of_prefix [OF assms] by blast
  ultimately show ?thesis using assms(2)
    by (intro exI [of _ k] exI [of _ rest]) (auto simp: assertComplete_def cluster_fail_def)
qed

theorem frames_any_chunking_witness:
  "\<exists>k rest. push_all [] [[0, 0], [0, 1, 7, 0, 0], [0]] = Inr (take k [[7], [8, 9]], rest)
    \<and> concat [[0, 0], [0, 1, 7, 0, 0], [0]] = concat (map encodeClusterStreamFrame (take k [[7], [8, 9]])) @ rest"
  using frames_any_chunking [of "[[7], [8, 9]]" "[[0, 0], [0, 1, 7, 0, 0], [0]]" "[2, 8, 9]"]
  by (fastforce simp: encodeClusterStreamFrame_def be_bytes_numeral)

subsection \<open>Port pairs are unordered\<close>

lemma text_less_total: "s \<noteq> t \<Longrightarrow> text_less s t \<longleftrightarrow> \<not> text_less t s"
proof (induction s t rule: text_less.induct)
  case (1 t)
  then show ?case by (cases t) auto
qed auto

lemma separated_inject: "x \<notin> set a \<Longrightarrow> x \<notin> set c \<Longrightarrow> a @ x # b = c @ x # d \<longleftrightarrow> a = c \<and> b = d"
proof (induction a arbitrary: c)
  case Nil
  then show ?case by (cases c) auto
next
  case (Cons u a)
  then show ?case by (cases c) auto
qed

lemma port_pair_key:
  assumes "124 \<notin> set a" "124 \<notin> set b" "124 \<notin> set c" "124 \<notin> set d"
  shows "canonicalPortPair a b = canonicalPortPair c d \<longleftrightarrow> {a, b} = {c, d}"
  using assms text_less_total [of a b] text_less_total [of c d]
  by (cases "a = b"; cases "c = d") (auto simp: canonicalPortPair_def separated_inject doubleton_eq_iff)

subsection \<open>Stream metadata\<close>

lemma metadata_schema: "\<exists>codec. defineMessage MetadataMessage = Inr codec" "declared MetadataMessage"
  by (auto simp: defineMessage_def compileSchema_def MetadataMessage_def wire_field_def compile_field_def maxFieldNumber_def declared_def)

definition delivered_text :: "text_string \<Rightarrow> text_string" where
  "delivered_text s = strip_bom (toWellFormed s)"

lemma canonical_string [simp]: "canonical_scalar String (PString s) = PString (delivered_text s)"
  by (simp add: canonical_scalar_def delivered_text_def)

lemma canonical_number:
  "s \<in> {Int32, Uint32, Sint32, Fixed32, Sfixed32, Enum} \<Longrightarrow> \<bar>n\<bar> < 2 ^ 53 \<Longrightarrow> canonical_scalar s (num n) = num n"
  by (auto simp: canonical_scalar_def integer_of_number)

lemma stream_metadata_roundtrip:
  assumes "encodeClusterStreamMetadata metadata = Inr bytes" "length bytes < 2 ^ 53"
  shows "decodeClusterStreamMetadata stack bytes = Inr (case metadata of Control \<Rightarrow> Control
    | Port pair a b \<Rightarrow> Port (delivered_text pair) (delivered_text a) (delivered_text b))"
proof -
  obtain codec where c: "defineMessage MetadataMessage = Inr codec" using metadata_schema(1) by blast
  let ?ps = "[(text_of ''version'', num 1), (text_of ''kind'', num (if metadata = Control then 1 else 2))] @ (case metadata of
        Control \<Rightarrow> []
      | Port pair a b \<Rightarrow> [(text_of ''pair'', PString pair), (text_of ''a'', PString a), (text_of ''b'', PString b)])"
  from assms(1) c have "codec_encode codec (PObject ?ps) = Inr bytes" by (simp add: encodeClusterStreamMetadata_def)
  from codec_delivers [OF c metadata_schema(2) this assms(2)] obtain qs where q: "codec_decode codec stack bytes = Inr (PObject qs)"
    "list_all (\<lambda>d. property_of qs (fd_name d) = received d (property_of ?ps (fd_name d))) MetadataMessage"
    by blast
  have "num 2 \<noteq> num 1" using integer_of_number [of 1] integer_of_number [of 2] by auto
  then show ?thesis using c q
    by (cases metadata) (simp_all add: decodeClusterStreamMetadata_def MetadataMessage_def wire_field_def received_def property_of_def [of "_ # _"]
      isDefault_def nonzero_number integer_of_number canonical_number)
qed

end
