(* ===== verification/Cluster_Protocol.thy ===== *)
theory Cluster_Protocol
  imports Cluster_Framing
begin

text \<open>
  \<open>internal/cluster/protocol.ts\<close>: the messages between cluster nodes and their protobuf encoding.

  A message is a value of its TypeScript union, so that the checks of \<open>toWire\<close> that only a wrongly typed caller can fail are
  not branches here; a parameter of type \<open>unknown\<close> is a \<open>pvalue\<close> and keeps every check. The object handed to the codec is its
  list of properties. The messages of the errors are shortened: they name the field, not the value found.
\<close>

subsection \<open>Messages\<close>

record NodeLoad =
  nl_cpu :: number
  nl_memory :: number

record PeerInfo =
  pi_nodeId :: text_string
  pi_load :: NodeLoad

record SerializedSpawnConfig =
  sp_entry :: text_string
  sp_root :: text_string
  sp_rules :: "pvalue list"
  sp_bootstrapData :: "pvalue option"

datatype ClusterMessage =
    HELLO (msg_nodeId: text_string) NodeLoad
  | WELCOME text_string "PeerInfo list"
  | PEER_UP PeerInfo
  | PEER_DOWN text_string
  | HEARTBEAT number
  | SPAWN text_string text_string SerializedSpawnConfig
  | SPAWN_ACK text_string text_string bool "text_string option"
  | REALM_EXIT text_string number "text_string option"
  | TERMINATE text_string
  | PORT_MSG text_string text_string "byte list list" number "number option"

definition obj :: "(string \<times> pvalue) list \<Rightarrow> properties" where
  "obj = map (\<lambda>(k, v). (text_of k, v))"

definition strings :: "text_string list \<Rightarrow> pvalue" where
  "strings ss = PArray (map PString ss)"

definition optional :: "string \<Rightarrow> ('a \<Rightarrow> pvalue) \<Rightarrow> 'a option \<Rightarrow> (string \<times> pvalue) list" where
  "optional key f x = (case x of None \<Rightarrow> [] | Some y \<Rightarrow> [(key, f y)])"

definition load_value :: "NodeLoad \<Rightarrow> pvalue" where
  "load_value l = PObject (obj [(''cpu'', PNumber (nl_cpu l)), (''memory'', PNumber (nl_memory l))])"

definition peer_value :: "PeerInfo \<Rightarrow> pvalue" where
  "peer_value p = PObject (obj [(''nodeId'', PString (pi_nodeId p)), (''load'', load_value (pi_load p))])"

definition config_value :: "SerializedSpawnConfig \<Rightarrow> pvalue" where
  "config_value c = PObject (obj ([(''entry'', PString (sp_entry c)), (''root'', PString (sp_root c)), (''rules'', PArray (sp_rules c))]
     @ optional ''bootstrapData'' id (sp_bootstrapData c)))"

subsection \<open>The schema\<close>

abbreviation (input) req :: "string \<Rightarrow> int \<Rightarrow> FieldType \<Rightarrow> field_descriptor" where "req name n type \<equiv> wire_field name n type False False"
abbreviation (input) opt :: "string \<Rightarrow> int \<Rightarrow> FieldType \<Rightarrow> field_descriptor" where "opt name n type \<equiv> wire_field name n type False True"
abbreviation (input) many :: "string \<Rightarrow> int \<Rightarrow> FieldType \<Rightarrow> field_descriptor" where "many name n type \<equiv> wire_field name n type True False"

text \<open>A codec used as the type of a field. The schemas below are all accepted (\<open>schemas_compile\<close>).\<close>

definition codec_type :: "field_descriptor list \<Rightarrow> FieldType" where
  "codec_type ds = Message (case compileSchema ds of Inr fs \<Rightarrow> fs | Inl e \<Rightarrow> [])"

definition LoadMessage :: "field_descriptor list" where
  "LoadMessage = [opt ''cpu'' 1 (Scalar Double), opt ''memory'' 2 (Scalar Double)]"

definition PeerMessage :: "field_descriptor list" where
  "PeerMessage = [opt ''nodeId'' 1 (Scalar String), opt ''load'' 2 (codec_type LoadMessage)]"

definition DirectiveMessage :: "field_descriptor list" where
  "DirectiveMessage = [
     req ''kind'' 1 (Scalar Enum), opt ''target'' 2 (Scalar String), opt ''code'' 3 (Scalar String), opt ''sourceMap'' 4 (Scalar String),
     opt ''specifier'' 5 (Scalar String), many ''exports'' 6 (Scalar String), many ''streams'' 7 (Scalar String), many ''sinks'' 8 (Scalar String)]"

definition RuleMessage :: "field_descriptor list" where
  "RuleMessage = [opt ''from'' 1 (Scalar String), opt ''pattern'' 2 (Scalar String), opt ''directive'' 3 (codec_type DirectiveMessage)]"

definition CliOtelMessage :: "field_descriptor list" where
  "CliOtelMessage = [opt ''endpoint'' 1 (Scalar String), opt ''script'' 2 (Scalar String), opt ''debug'' 3 (Scalar Bool)]"

definition BootstrapDataMessage :: "field_descriptor list" where
  "BootstrapDataMessage = [opt ''cliOtel'' 1 (codec_type CliOtelMessage)]"

definition SpawnConfigMessage :: "field_descriptor list" where
  "SpawnConfigMessage = [
     opt ''entry'' 1 (Scalar String), opt ''root'' 2 (Scalar String), many ''rules'' 3 (codec_type RuleMessage),
     opt ''bootstrapData'' 4 (codec_type BootstrapDataMessage)]"

definition EnvelopeMessage :: "field_descriptor list" where
  "EnvelopeMessage = [
     req ''kind'' 1 (Scalar Enum), opt ''nodeId'' 2 (Scalar String), opt ''load'' 3 (codec_type LoadMessage),
     many ''peers'' 4 (codec_type PeerMessage), opt ''peer'' 5 (codec_type PeerMessage), opt ''ts'' 6 (Scalar Double),
     opt ''spawnReqId'' 7 (Scalar String), opt ''parentPortId'' 8 (Scalar String), opt ''config'' 9 (codec_type SpawnConfigMessage),
     opt ''childPortId'' 10 (Scalar String), opt ''ok'' 11 (Scalar Bool), opt ''error'' 12 (Scalar String), opt ''realmId'' 13 (Scalar String),
     opt ''lastPortSeq'' 14 (Scalar Uint64), opt ''fromPort'' 15 (Scalar String), opt ''toPort'' 16 (Scalar String),
     many ''payload'' 17 (Scalar Bytes), opt ''seq'' 18 (Scalar Uint64), opt ''payloadFormat'' 19 (Scalar Uint32)]"

subsection \<open>Checks\<close>

definition protocolError :: "string \<Rightarrow> cluster_error + 'a" where
  "protocolError s = cluster_fail (''cluster protocol: '' @ s)"

text \<open>The properties of a value for which \<open>isRecord\<close> holds.\<close>

definition isRecord :: "pvalue \<Rightarrow> properties option" where
  "isRecord v = (case v of PArray xs \<Rightarrow> None | _ \<Rightarrow> own_properties v)"

definition key_of :: "properties \<Rightarrow> string \<Rightarrow> pvalue" where
  "key_of ps key = property_of ps (text_of key)"

definition requireString :: "properties \<Rightarrow> string \<Rightarrow> cluster_error + text_string" where
  "requireString ps key = (case key_of ps key of PString s \<Rightarrow> Inr s | _ \<Rightarrow> protocolError (key @ '' must be a string''))"

definition requireBoolean :: "properties \<Rightarrow> string \<Rightarrow> cluster_error + bool" where
  "requireBoolean ps key = (case key_of ps key of PBoolean b \<Rightarrow> Inr b | _ \<Rightarrow> protocolError (key @ '' must be a boolean''))"

text \<open>Finite numbers and \<open><\<close> on numbers: the order of the magnitudes, negated below zero, where both zeros are equal.\<close>

definition is_finite :: "number \<Rightarrow> bool" where
  "is_finite b \<longleftrightarrow> f64_exponent b \<noteq> 2047"

definition is_nan :: "number \<Rightarrow> bool" where
  "is_nan b \<longleftrightarrow> f64_exponent b = 2047 \<and> f64_fraction b \<noteq> 0"

definition number_rank :: "number \<Rightarrow> int" where
  "number_rank b = (if f64_sign b then 2 ^ 63 - int (unat b) else int (unat b))"

definition number_less :: "number \<Rightarrow> number \<Rightarrow> bool" where
  "number_less a b \<longleftrightarrow> \<not> is_nan a \<and> \<not> is_nan b \<and> number_rank a < number_rank b"

definition requireFiniteNumber :: "properties \<Rightarrow> string \<Rightarrow> cluster_error + number" where
  "requireFiniteNumber ps key = (case key_of ps key of
     PNumber b \<Rightarrow> if is_finite b then Inr b else protocolError (key @ '' must be a finite number'')
   | _ \<Rightarrow> protocolError (key @ '' must be a finite number''))"

text \<open>\<open>requireSequence\<close> returns the number it read, here as the integer it is.\<close>

definition requireSequence :: "properties \<Rightarrow> string \<Rightarrow> bool \<Rightarrow> cluster_error + int" where
  "requireSequence ps key allowZero = bindR (requireFiniteNumber ps key) (\<lambda>b. case integer_of b of
     None \<Rightarrow> protocolError (key @ '' must be an integer'')
   | Some n \<Rightarrow> if n < (if allowZero then 0 else 1) then protocolError (key @ '' must be an integer'') else Inr n)"

definition parseLoad :: "pvalue \<Rightarrow> cluster_error + NodeLoad" where
  "parseLoad v = (case isRecord v of
     None \<Rightarrow> protocolError ''load must be an object''
   | Some ps \<Rightarrow> bindR (requireFiniteNumber ps ''cpu'') (\<lambda>cpu. bindR (requireFiniteNumber ps ''memory'') (\<lambda>memory.
       if number_less cpu (number_of_int 0) \<or> number_less (number_of_int 1) cpu then protocolError ''load.cpu must be in [0, 1]''
       else if number_less memory (number_of_int 0) then protocolError ''load.memory must be non-negative''
       else Inr \<lparr>nl_cpu = cpu, nl_memory = memory\<rparr>)))"

definition isIdCode :: "nat \<Rightarrow> bool" where
  "isIdCode code \<longleftrightarrow> (48 \<le> code \<and> code \<le> 57) \<or> (65 \<le> code \<and> code \<le> 90) \<or> (97 \<le> code \<and> code \<le> 122) \<or> code = 45 \<or> code = 95 \<or> code = 46"

definition lift_scan :: "scan_error + 'a \<Rightarrow> cluster_error + 'a" where
  "lift_scan res = (case res of Inl e \<Rightarrow> Inl (ScanThrown e) | Inr x \<Rightarrow> Inr x)"

definition lift_loop :: "(scan_error + 'a) option \<Rightarrow> cluster_error + 'a" where
  "lift_loop res = (case res of None \<Rightarrow> Inl NoReturn | Some r \<Rightarrow> lift_scan r)"

definition parseHandleId :: "text_string \<Rightarrow> string \<Rightarrow> cluster_error + text_string" where
  "parseHandleId ident key = bindR (lift_scan (eatWhile isIdCode (text_scanner ident (Some Enc_utf8)))) (\<lambda>(part, sc).
     if part = [] \<or> \<not> sc_done sc then protocolError (key @ '' is malformed'') else Inr ident)"

definition parseNodeId :: "text_string \<Rightarrow> cluster_error + text_string" where
  "parseNodeId ident = bindR (parseHandleId ident ''nodeId'') (\<lambda>_.
     if 47 \<in> set ident then protocolError ''nodeId must not contain a slash'' else Inr ident)"

definition parseClusterId :: "text_string \<Rightarrow> string \<Rightarrow> cluster_error + text_string" where
  "parseClusterId ident key = bindR (lift_scan (eatWhile isIdCode (text_scanner ident (Some Enc_utf8)))) (\<lambda>(nodeId, sc).
     if nodeId = [] then protocolError (key @ '' is malformed'')
     else bindR (lift_loop (eatChar (text_of ''/'') sc)) (\<lambda>(slash, sc).
       if \<not> slash then protocolError (key @ '' is malformed'')
       else bindR (lift_scan (eatWhile (\<lambda>code. isIdCode code \<or> code = 47) sc)) (\<lambda>(rest, sc).
         if rest = [] \<or> \<not> sc_done sc then protocolError (key @ '' is malformed'') else Inr ident)))"

definition nodeIdFromId :: "text_string \<Rightarrow> cluster_error + text_string" where
  "nodeIdFromId ident = (let sc = text_scanner ident (Some Enc_utf8) in
     lift_scan (bindR (eatWhile (\<lambda>code. code \<noteq> 47) sc) (\<lambda>(_, sc'). scanned_text (mark sc) None sc')))"

definition parsePeer :: "pvalue \<Rightarrow> string \<Rightarrow> cluster_error + PeerInfo" where
  "parsePeer v key = (case isRecord v of
     None \<Rightarrow> protocolError (key @ '' must be an object'')
   | Some ps \<Rightarrow> (case bindR (requireString ps ''nodeId'') (\<lambda>s. bindR (parseNodeId s) (\<lambda>nodeId.
         bindR (parseLoad (key_of ps ''load'')) (\<lambda>load. Inr \<lparr>pi_nodeId = nodeId, pi_load = load\<rparr>))) of
       Inl e \<Rightarrow> protocolError (key @ '' is malformed'')
     | Inr p \<Rightarrow> Inr p))"

definition parsePeers :: "pvalue \<Rightarrow> cluster_error + PeerInfo list" where
  "parsePeers v = (case v of PArray xs \<Rightarrow> mapR (\<lambda>x. parsePeer x ''peer'') xs | _ \<Rightarrow> protocolError ''peers must be an array'')"

definition parseSpawnConfig :: "pvalue \<Rightarrow> cluster_error + SerializedSpawnConfig" where
  "parseSpawnConfig v = (case isRecord v of
     None \<Rightarrow> protocolError ''config must be an object''
   | Some ps \<Rightarrow> (case key_of ps ''rules'' of
       PArray rules \<Rightarrow> bindR (requireString ps ''entry'') (\<lambda>entry. bindR (requireString ps ''root'') (\<lambda>root.
         Inr \<lparr>sp_entry = entry, sp_root = root, sp_rules = rules, sp_bootstrapData = map_of ps (text_of ''bootstrapData'')\<rparr>))
     | _ \<Rightarrow> protocolError ''config.rules must be an array''))"

subsection \<open>Spawn configurations on the wire\<close>

definition stringArray :: "pvalue \<Rightarrow> string \<Rightarrow> cluster_error + pvalue" where
  "stringArray v key = (case v of
     PArray xs \<Rightarrow> if list_ex (\<lambda>x. case x of PString s \<Rightarrow> False | _ \<Rightarrow> True) xs
       then protocolError (key @ '' must be an array of strings'') else Inr (PArray xs)
   | _ \<Rightarrow> protocolError (key @ '' must be an array of strings''))"

definition wire_directive :: "int \<Rightarrow> (string \<times> pvalue) list \<Rightarrow> properties" where
  "wire_directive kind ps = obj ((''kind'', num kind) # ps @ [(''exports'', PArray []), (''streams'', PArray []), (''sinks'', PArray [])])"

definition encodeDirective :: "pvalue \<Rightarrow> cluster_error + properties" where
  "encodeDirective v =
     (if v = PString (text_of ''inherit'') then Inr (wire_directive 1 [])
      else if v = PString (text_of ''block'') then Inr (wire_directive 2 [])
      else case isRecord v of
        None \<Rightarrow> protocolError ''rule directive must be an object''
      | Some ps \<Rightarrow> bindR (requireString ps ''type'') (\<lambda>type.
          if type = text_of ''inherit'' then Inr (wire_directive 1 [])
          else if type = text_of ''block'' then Inr (wire_directive 2 [])
          else if type = text_of ''remap'' then bindR (requireString ps ''target'') (\<lambda>target.
            Inr (wire_directive 3 [(''target'', PString target)]))
          else if type = text_of ''source'' then bindR (requireString ps ''code'') (\<lambda>code. bindR (requireString ps ''source_map'') (\<lambda>sourceMap.
            Inr (wire_directive 4 [(''code'', PString code), (''sourceMap'', PString sourceMap)])))
          else if type = text_of ''facade'' then bindR (requireString ps ''specifier'') (\<lambda>specifier.
            bindR (stringArray (key_of ps ''exports'') ''directive.exports'') (\<lambda>exports.
            bindR (if key_of ps ''streams'' = PUndefined then Inr (PArray []) else stringArray (key_of ps ''streams'') ''directive.streams'') (\<lambda>streams.
            bindR (if key_of ps ''sinks'' = PUndefined then Inr (PArray []) else stringArray (key_of ps ''sinks'') ''directive.sinks'') (\<lambda>sinks.
            Inr (obj [(''kind'', num 5), (''specifier'', PString specifier), (''exports'', exports), (''streams'', streams), (''sinks'', sinks)])))))
          else protocolError ''unknown rule directive''))"

text \<open>A string of a decoded message: its schema has the field as a string, so that it is one unless it is absent.\<close>

definition requiredWireString :: "pvalue \<Rightarrow> string \<Rightarrow> cluster_error + text_string" where
  "requiredWireString v key = (case v of PString s \<Rightarrow> Inr s | _ \<Rightarrow> protocolError (key @ '' must be a string''))"

definition decodeDirective :: "properties \<Rightarrow> cluster_error + pvalue" where
  "decodeDirective ps =
     (let kind = key_of ps ''kind'' in
      if kind = num 1 then Inr (PObject (obj [(''type'', PString (text_of ''inherit''))]))
      else if kind = num 2 then Inr (PObject (obj [(''type'', PString (text_of ''block''))]))
      else if kind = num 3 then bindR (requiredWireString (key_of ps ''target'') ''directive.target'') (\<lambda>target.
        Inr (PObject (obj [(''type'', PString (text_of ''remap'')), (''target'', PString target)])))
      else if kind = num 4 then bindR (requiredWireString (key_of ps ''code'') ''directive.code'') (\<lambda>code.
        bindR (requiredWireString (key_of ps ''sourceMap'') ''directive.source_map'') (\<lambda>sourceMap.
        Inr (PObject (obj [(''type'', PString (text_of ''source'')), (''code'', PString code), (''source_map'', PString sourceMap)]))))
      else if kind = num 5 then bindR (requiredWireString (key_of ps ''specifier'') ''directive.specifier'') (\<lambda>specifier.
        Inr (PObject (obj ([(''type'', PString (text_of ''facade'')), (''specifier'', PString specifier), (''exports'', key_of ps ''exports'')]
          @ (if list_items (key_of ps ''streams'') \<noteq> [] then [(''streams'', key_of ps ''streams'')] else [])
          @ (if list_items (key_of ps ''sinks'') \<noteq> [] then [(''sinks'', key_of ps ''sinks'')] else [])))))
      else protocolError ''unknown rule directive'')"

definition encodeRule :: "pvalue \<Rightarrow> cluster_error + pvalue" where
  "encodeRule v = (case isRecord v of
     None \<Rightarrow> protocolError ''config rule must be an object''
   | Some ps \<Rightarrow> bindR (if key_of ps ''from'' = PUndefined then Inr [] else bindR (requireString ps ''from'') (\<lambda>s. Inr [(''from'', PString s)])) (\<lambda>from.
       bindR (requireString ps ''pattern'') (\<lambda>pattern. bindR (encodeDirective (key_of ps ''directive'')) (\<lambda>directive.
         Inr (PObject (obj (from @ [(''pattern'', PString pattern), (''directive'', PObject directive)])))))))"

definition decodeRule :: "pvalue \<Rightarrow> cluster_error + pvalue" where
  "decodeRule v = (let ps = object_entries v in
     if key_of ps ''directive'' = PUndefined then protocolError ''rule directive is missing''
     else bindR (requiredWireString (key_of ps ''pattern'') ''rule.pattern'') (\<lambda>pattern.
       bindR (decodeDirective (object_entries (key_of ps ''directive''))) (\<lambda>directive.
         Inr (PObject (obj ((if key_of ps ''from'' = PUndefined then [] else [(''from'', key_of ps ''from'')])
           @ [(''pattern'', PString pattern), (''directive'', directive)]))))))"

definition encodeBootstrapData :: "pvalue \<Rightarrow> cluster_error + pvalue" where
  "encodeBootstrapData v = (case isRecord v of
     None \<Rightarrow> protocolError ''config.bootstrapData must be an object''
   | Some ps \<Rightarrow>
       if key_of ps ''cliOtel'' = PUndefined then Inr (PObject [])
       else case isRecord (key_of ps ''cliOtel'') of
         None \<Rightarrow> protocolError ''config.bootstrapData.cliOtel must be an object''
       | Some qs \<Rightarrow>
           bindR (if key_of qs ''endpoint'' = PUndefined then Inr [] else bindR (requireString qs ''endpoint'') (\<lambda>s. Inr [(''endpoint'', PString s)])) (\<lambda>endpoint.
           bindR (if key_of qs ''script'' = PUndefined then Inr [] else bindR (requireString qs ''script'') (\<lambda>s. Inr [(''script'', PString s)])) (\<lambda>script.
           bindR (if key_of qs ''debug'' = PUndefined then Inr [] else bindR (requireBoolean qs ''debug'') (\<lambda>b. Inr [(''debug'', PBoolean b)])) (\<lambda>debug.
             Inr (PObject (obj [(''cliOtel'', PObject (obj (endpoint @ script @ debug)))]))))))"

definition encodeSpawnConfig :: "pvalue \<Rightarrow> cluster_error + pvalue" where
  "encodeSpawnConfig v = bindR (parseSpawnConfig v) (\<lambda>config. bindR (mapR encodeRule (sp_rules config)) (\<lambda>rules.
     bindR (case sp_bootstrapData config of
         None \<Rightarrow> Inr []
       | Some d \<Rightarrow> if d = PUndefined then Inr [] else bindR (encodeBootstrapData d) (\<lambda>e. Inr [(''bootstrapData'', e)])) (\<lambda>bootstrapData.
     Inr (PObject (obj ([(''entry'', PString (sp_entry config)), (''root'', PString (sp_root config)), (''rules'', PArray rules)] @ bootstrapData))))))"

definition decodeSpawnConfig :: "pvalue \<Rightarrow> cluster_error + SerializedSpawnConfig" where
  "decodeSpawnConfig v = (let ps = object_entries v in
     bindR (requiredWireString (key_of ps ''entry'') ''config.entry'') (\<lambda>entry.
     bindR (requiredWireString (key_of ps ''root'') ''config.root'') (\<lambda>root.
     bindR (mapR decodeRule (list_items (key_of ps ''rules''))) (\<lambda>rules.
     Inr \<lparr>sp_entry = entry, sp_root = root, sp_rules = rules,
       sp_bootstrapData = (if key_of ps ''bootstrapData'' = PUndefined then None else Some (key_of ps ''bootstrapData''))\<rparr>))))"

subsection \<open>Encoding and decoding\<close>

definition encodeSequence :: "number \<Rightarrow> string \<Rightarrow> bool \<Rightarrow> cluster_error + pvalue" where
  "encodeSequence b key allowZero = bindR (requireSequence (obj [(key, PNumber b)]) key allowZero) (\<lambda>n.
     if n > 2 ^ 53 - 1 then protocolError (key @ '' exceeds the safe integer range'') else Inr (PBigInt n))"

definition decodeSequence :: "pvalue \<Rightarrow> string \<Rightarrow> bool \<Rightarrow> cluster_error + number" where
  "decodeSequence v key allowZero = (case v of
     PBigInt n \<Rightarrow> if n > 2 ^ 53 - 1 then protocolError (key @ '' exceeds the safe integer range'')
       else bindR (requireSequence (obj [(key, num n)]) key allowZero) (\<lambda>_. Inr (number_of_int n))
   | _ \<Rightarrow> protocolError (key @ '' is missing''))"

definition encodePeer :: "PeerInfo \<Rightarrow> cluster_error + pvalue" where
  "encodePeer p = bindR (parsePeer (peer_value p) ''peer'') (\<lambda>peer. Inr (peer_value peer))"

definition decodePeer :: "pvalue \<Rightarrow> string \<Rightarrow> cluster_error + PeerInfo" where
  "decodePeer = parsePeer"

definition toWire :: "ClusterMessage \<Rightarrow> cluster_error + properties" where
  "toWire msg = (let base = [(''peers'', PArray []), (''payload'', PArray [])] in case msg of
     HELLO nodeId load \<Rightarrow> bindR (parseNodeId nodeId) (\<lambda>nodeId. bindR (parseLoad (load_value load)) (\<lambda>load.
       Inr (obj ([(''kind'', num 1), (''nodeId'', PString nodeId), (''load'', load_value load)] @ base))))
   | WELCOME nodeId peers \<Rightarrow> bindR (parseNodeId nodeId) (\<lambda>nodeId. bindR (parsePeers (PArray (map peer_value peers))) (\<lambda>peers.
       bindR (mapR encodePeer peers) (\<lambda>peers.
       Inr (obj [(''kind'', num 2), (''nodeId'', PString nodeId), (''peers'', PArray peers), (''payload'', PArray [])]))))
   | PEER_UP peer \<Rightarrow> bindR (encodePeer peer) (\<lambda>peer. Inr (obj ([(''kind'', num 3), (''peer'', peer)] @ base)))
   | PEER_DOWN nodeId \<Rightarrow> bindR (parseNodeId nodeId) (\<lambda>nodeId. Inr (obj ([(''kind'', num 4), (''nodeId'', PString nodeId)] @ base)))
   | HEARTBEAT ts \<Rightarrow> bindR (requireFiniteNumber (obj [(''ts'', PNumber ts)]) ''ts'') (\<lambda>ts. Inr (obj ([(''kind'', num 5), (''ts'', PNumber ts)] @ base)))
   | SPAWN spawnReqId parentPortId config \<Rightarrow> bindR (parseHandleId spawnReqId ''spawnReqId'') (\<lambda>spawnReqId.
       bindR (parseClusterId parentPortId ''parentPortId'') (\<lambda>parentPortId. bindR (encodeSpawnConfig (config_value config)) (\<lambda>config.
       Inr (obj ([(''kind'', num 6), (''spawnReqId'', PString spawnReqId), (''parentPortId'', PString parentPortId), (''config'', config)] @ base)))))
   | SPAWN_ACK spawnReqId childPortId ok err \<Rightarrow> bindR (parseHandleId spawnReqId ''spawnReqId'') (\<lambda>spawnReqId.
       bindR (if childPortId = [] then Inr [] else parseClusterId childPortId ''childPortId'') (\<lambda>childPortId.
       Inr (obj ([(''kind'', num 7), (''spawnReqId'', PString spawnReqId), (''childPortId'', PString childPortId), (''ok'', PBoolean ok)]
         @ optional ''error'' PString err @ base))))
   | REALM_EXIT realmId lastPortSeq err \<Rightarrow> bindR (parseClusterId realmId ''realmId'') (\<lambda>realmId.
       bindR (encodeSequence lastPortSeq ''lastPortSeq'' True) (\<lambda>lastPortSeq.
       Inr (obj ([(''kind'', num 8), (''realmId'', PString realmId), (''lastPortSeq'', lastPortSeq)] @ optional ''error'' PString err @ base))))
   | TERMINATE realmId \<Rightarrow> bindR (parseClusterId realmId ''realmId'') (\<lambda>realmId. Inr (obj ([(''kind'', num 9), (''realmId'', PString realmId)] @ base)))
   | PORT_MSG fromPort toPort payload seq payloadFormat \<Rightarrow> bindR (parseClusterId fromPort ''fromPort'') (\<lambda>fromPort.
       bindR (parseClusterId toPort ''toPort'') (\<lambda>toPort. bindR (encodeSequence seq ''seq'' False) (\<lambda>seq.
       Inr (obj ([(''kind'', num 10), (''fromPort'', PString fromPort), (''toPort'', PString toPort), (''payload'', PArray (map PBytes payload)),
         (''seq'', seq)] @ optional ''payloadFormat'' PNumber payloadFormat @ [(''peers'', PArray [])]))))))"

definition encode_message :: "ClusterMessage \<Rightarrow> cluster_error + byte list" where
  "encode_message msg = bindR (lift_error (defineMessage EnvelopeMessage)) (\<lambda>codec. bindR (toWire msg) (\<lambda>w. lift_error (codec_encode codec (PObject w))))"

definition wire_option :: "pvalue \<Rightarrow> text_string option" where
  "wire_option v = (case v of PString s \<Rightarrow> Some s | _ \<Rightarrow> None)"

fun bytes_item :: "pvalue \<Rightarrow> byte list" where
  "bytes_item (PBytes bs) = bs"
| "bytes_item v = []"

definition fromWire :: "properties \<Rightarrow> cluster_error + ClusterMessage" where
  "fromWire ps = (let kind = key_of ps ''kind''; val = key_of ps in
     if kind = num 1 then bindR (requiredWireString (val ''nodeId'') ''nodeId'') (\<lambda>s. bindR (parseNodeId s) (\<lambda>nodeId.
       bindR (parseLoad (val ''load'')) (\<lambda>load. Inr (HELLO nodeId load))))
     else if kind = num 2 then bindR (requiredWireString (val ''nodeId'') ''nodeId'') (\<lambda>s. bindR (parseNodeId s) (\<lambda>nodeId.
       bindR (mapR (\<lambda>p. decodePeer p ''peer'') (list_items (val ''peers''))) (\<lambda>peers. Inr (WELCOME nodeId peers))))
     else if kind = num 3 then
       if val ''peer'' = PUndefined then protocolError ''peer is missing'' else bindR (decodePeer (val ''peer'') ''peer'') (\<lambda>p. Inr (PEER_UP p))
     else if kind = num 4 then bindR (requiredWireString (val ''nodeId'') ''nodeId'') (\<lambda>s. bindR (parseNodeId s) (\<lambda>nodeId. Inr (PEER_DOWN nodeId)))
     else if kind = num 5 then
       if val ''ts'' = PUndefined then protocolError ''ts must be a finite number''
       else bindR (requireFiniteNumber (obj [(''ts'', val ''ts'')]) ''ts'') (\<lambda>ts. Inr (HEARTBEAT ts))
     else if kind = num 6 then
       if val ''config'' = PUndefined then protocolError ''config is missing''
       else bindR (requiredWireString (val ''spawnReqId'') ''spawnReqId'') (\<lambda>s. bindR (parseHandleId s ''spawnReqId'') (\<lambda>spawnReqId.
         bindR (requiredWireString (val ''parentPortId'') ''parentPortId'') (\<lambda>s. bindR (parseClusterId s ''parentPortId'') (\<lambda>parentPortId.
         bindR (decodeSpawnConfig (val ''config'')) (\<lambda>config. Inr (SPAWN spawnReqId parentPortId config))))))
     else if kind = num 7 then bindR (requiredWireString (val ''childPortId'') ''childPortId'') (\<lambda>childPortId.
       case val ''ok'' of
         PBoolean ok \<Rightarrow> bindR (requiredWireString (val ''spawnReqId'') ''spawnReqId'') (\<lambda>s. bindR (parseHandleId s ''spawnReqId'') (\<lambda>spawnReqId.
           bindR (if childPortId = [] then Inr [] else parseClusterId childPortId ''childPortId'') (\<lambda>childPortId.
           Inr (SPAWN_ACK spawnReqId childPortId ok (wire_option (val ''error''))))))
       | _ \<Rightarrow> protocolError ''ok must be a boolean'')
     else if kind = num 8 then bindR (requiredWireString (val ''realmId'') ''realmId'') (\<lambda>s. bindR (parseClusterId s ''realmId'') (\<lambda>realmId.
       bindR (decodeSequence (val ''lastPortSeq'') ''lastPortSeq'' True) (\<lambda>lastPortSeq. Inr (REALM_EXIT realmId lastPortSeq (wire_option (val ''error''))))))
     else if kind = num 9 then bindR (requiredWireString (val ''realmId'') ''realmId'') (\<lambda>s. bindR (parseClusterId s ''realmId'') (\<lambda>realmId.
       Inr (TERMINATE realmId)))
     else if kind = num 10 then bindR (requiredWireString (val ''fromPort'') ''fromPort'') (\<lambda>s. bindR (parseClusterId s ''fromPort'') (\<lambda>fromPort.
       bindR (requiredWireString (val ''toPort'') ''toPort'') (\<lambda>s. bindR (parseClusterId s ''toPort'') (\<lambda>toPort.
       bindR (decodeSequence (val ''seq'') ''seq'' False) (\<lambda>seq.
       Inr (PORT_MSG fromPort toPort (map bytes_item (list_items (val ''payload''))) seq
         (case val ''payloadFormat'' of PNumber b \<Rightarrow> Some b | _ \<Rightarrow> None)))))))
     else protocolError ''unknown message type'')"

definition decode_message :: "nat \<Rightarrow> byte list \<Rightarrow> cluster_error + ClusterMessage" where
  "decode_message stack bytes = bindR (lift_error (defineMessage EnvelopeMessage)) (\<lambda>codec. case codec_decode codec stack bytes of
     Inl e \<Rightarrow> protocolError ''invalid protobuf''
   | Inr v \<Rightarrow> fromWire (object_entries v))"

end
