(* ===== verification/Cluster_Roundtrip.thy ===== *)
theory Cluster_Roundtrip
  imports Cluster_Protocol
begin

text \<open>
  What \<open>internal/cluster/protocol.ts\<close> accepts and what the receiver of an accepted message gets.
\<close>

subsection \<open>Identifiers\<close>

lemma code_points_small_iff: "(\<forall>cp \<in> set (code_points s). cp < 128) \<longleftrightarrow> list_all (\<lambda>u. unat u < 128) s"
proof
  show "\<forall>cp \<in> set (code_points s). cp < 128 \<Longrightarrow> list_all (\<lambda>u. unat u < 128) s"
  proof (induction s rule: code_points.induct)
    case (2 c rest)
    obtain d rest' where n: "next_cp c rest = (d, rest')" by (cases "next_cp c rest")
    with "2.prems" have "d < 128" by simp
    then have "unat c < 128 \<and> rest' = rest" using n
      by (auto simp: next_cp_def Let_def surrogate_pair_def split: if_splits list.splits)
    with 2 n show ?case by simp
  qed simp
next
  assume "list_all (\<lambda>u. unat u < 128) s"
  then show "\<forall>cp \<in> set (code_points s). cp < 128" by (simp add: code_points_ascii list_all_iff)
qed

lemma small_code_points:
  assumes "\<And>c. P c \<Longrightarrow> c < 128"
  shows "list_all P (code_points s) \<longleftrightarrow> list_all (\<lambda>u. P (unat u)) s"
proof
  assume a: "list_all P (code_points s)"
  then have "\<forall>cp \<in> set (code_points s). cp < 128" using assms by (auto simp: list_all_iff)
  then have "code_points s = map unat s" by (intro code_points_ascii) (simp only: code_points_small_iff)
  with a show "list_all (\<lambda>u. P (unat u)) s" by (simp add: list_all_iff)
next
  assume a: "list_all (\<lambda>u. P (unat u)) s"
  then have "list_all (\<lambda>u. unat u < 128) s" using assms by (auto simp: list_all_iff)
  with a show "list_all P (code_points s)" by (simp add: code_points_ascii list_all_iff)
qed

lemma ascii_units: "list_all (\<lambda>u. unat u < 128) s \<Longrightarrow> utf16_text (map unat s) = s"
  by (induction s) (auto simp: units_of_cp_def)

lemma delivered_ascii: "list_all (\<lambda>u. unat u < 128) s \<Longrightarrow> delivered_text s = s"
proof -
  assume a: "list_all (\<lambda>u. unat u < 128) s"
  have "toWellFormed s = s" using units_of_code_points [of s] code_points_ascii [OF a] ascii_units [OF a] by simp
  moreover have "take 1 s \<noteq> [65279]" using a by (cases s) auto
  ultimately show ?thesis by (simp add: delivered_text_def strip_bom_def)
qed

lemma positioned_done: "positioned pre post sc \<Longrightarrow> sc_done sc \<longleftrightarrow> post = []"
  using encode_cp_nonempty by (cases post) (auto simp: positioned_def sc_done_def)

lemma id_code_small: "isIdCode c \<Longrightarrow> c < 128" "isIdCode c \<or> c = 47 \<Longrightarrow> c < 128" "\<not> isIdCode 47"
  by (auto simp: isIdCode_def)

lemma scanner_at_start: "positioned [] (code_points s) (text_scanner s (Some Enc_utf8))"
  using text_scanner_positioned [of s] by (simp add: text_scanner_def)

lemma utf16_text_empty: "utf16_text cps = [] \<longleftrightarrow> cps = []"
  by (cases cps) (auto simp: units_of_cp_def Let_def)

lemma code_points_empty: "code_points s = [] \<longleftrightarrow> s = []"
  by (cases s) (auto split: prod.splits)

text \<open>A handle is one or more letters, digits, \<open>-\<close>, \<open>_\<close> and \<open>.\<close>; a cluster id is a handle, a slash and a path of them.\<close>

definition handle_id :: "text_string \<Rightarrow> bool" where
  "handle_id s \<longleftrightarrow> s \<noteq> [] \<and> list_all (\<lambda>u. isIdCode (unat u)) s"

definition cluster_id :: "text_string \<Rightarrow> bool" where
  "cluster_id s \<longleftrightarrow> (\<exists>node path. s = node @ 47 # path \<and> handle_id node \<and> path \<noteq> [] \<and> list_all (\<lambda>u. isIdCode (unat u) \<or> unat u = 47) path)"

lemma parseHandleId_iff: "parseHandleId s key = (if handle_id s then Inr s else protocolError (key @ '' is malformed''))"
proof -
  obtain sc where sc: "eatWhile isIdCode (text_scanner s (Some Enc_utf8)) = Inr (utf16_text (takeWhile isIdCode (code_points s)), sc)"
      "positioned (takeWhile isIdCode (code_points s)) (dropWhile isIdCode (code_points s)) sc"
    using eatWhile_at [OF scanner_at_start, of isIdCode s] by auto
  have "takeWhile isIdCode (code_points s) \<noteq> [] \<and> dropWhile isIdCode (code_points s) = [] \<longleftrightarrow> handle_id s"
    using small_code_points [of isIdCode s, OF id_code_small(1)] code_points_empty [of s]
    by (cases "code_points s") (auto simp: handle_id_def list_all_iff dropWhile_eq_Nil_conv)
  then show ?thesis using sc positioned_done [OF sc(2)] utf16_text_empty by (auto simp: parseHandleId_def lift_scan_def)
qed

lemma parseNodeId_iff: "parseNodeId s = (if handle_id s then Inr s else protocolError (''nodeId is malformed''))"
proof -
  have "47 \<notin> set s" if "handle_id s" using that by (auto simp: handle_id_def list_all_iff isIdCode_def)
  then show ?thesis by (auto simp: parseNodeId_def parseHandleId_iff protocolError_def cluster_fail_def)
qed

lemma slash_code_points: "text_of ''/'' = [47]" "code_points [47] = [47]"
  by (simp_all add: text_of_def next_cp_def)

lemma while_stops: "list_all P a \<Longrightarrow> \<not> P x \<Longrightarrow> takeWhile P (a @ x # b) = a \<and> dropWhile P (a @ x # b) = x # b"
  by (induction a) auto

text \<open>The code points of a cluster id, split where the scanner splits them.\<close>

lemma cluster_id_code_points:
  "cluster_id s \<longleftrightarrow> (let cps = code_points s; rest = dropWhile isIdCode cps in
     takeWhile isIdCode cps \<noteq> [] \<and> take 1 rest = [47] \<and> drop 1 rest \<noteq> [] \<and> list_all (\<lambda>c. isIdCode c \<or> c = 47) (drop 1 rest))"
  (is "_ \<longleftrightarrow> ?R")
proof
  assume "cluster_id s"
  then obtain node path where s: "s = node @ 47 # path" "handle_id node" "path \<noteq> []" "list_all (\<lambda>u. isIdCode (unat u) \<or> unat u = 47) path"
    by (auto simp: cluster_id_def)
  have "list_all (\<lambda>u. unat u < 128) s" using s id_code_small(1,2) by (auto simp: handle_id_def list_all_iff)
  then have "code_points s = map unat node @ 47 # map unat path" using s(1) by (simp add: code_points_ascii)
  moreover have "takeWhile isIdCode (map unat node @ 47 # map unat path) = map unat node"
    "dropWhile isIdCode (map unat node @ 47 # map unat path) = 47 # map unat path"
    using while_stops [of isIdCode "map unat node" 47 "map unat path"] s(2) id_code_small(3) by (simp_all add: handle_id_def list_all_iff)
  ultimately show ?R using s by (auto simp: handle_id_def list_all_iff Let_def)
next
  assume r: ?R
  define a b where "a = takeWhile isIdCode (code_points s)" and "b = drop 1 (dropWhile isIdCode (code_points s))"
  have c: "code_points s = a @ 47 # b" "a \<noteq> []" "b \<noteq> []" "list_all isIdCode a" "list_all (\<lambda>c. isIdCode c \<or> c = 47) b"
    using r by (auto simp: a_def b_def Let_def list_all_iff dest: set_takeWhileD)
      (metis append_Cons append_Nil append_take_drop_id takeWhile_dropWhile_id)
  have "\<forall>cp \<in> set (code_points s). cp < 128" using c(4,5) id_code_small(1,2) by (auto simp: c(1) list_all_iff)
  then have m: "code_points s = map unat s" by (intro code_points_ascii) (simp only: code_points_small_iff)
  with c(1) obtain node u path where u: "s = node @ u # path" "a = map unat node" "b = map unat path" "unat u = 47"
    by (auto simp: map_eq_append_conv map_eq_Cons_conv)
  moreover from u(4) have "u = 47" by (simp add: word_unat_eq_iff)
  ultimately have "s = node @ 47 # path" "a = map unat node" "b = map unat path" by simp_all
  then show "cluster_id s" using c by (auto simp: cluster_id_def handle_id_def list_all_iff)
qed

lemma parseClusterId_iff: "parseClusterId s key = (if cluster_id s then Inr s else protocolError (key @ '' is malformed''))"
proof -
  let ?t = "takeWhile isIdCode (code_points s)" and ?d = "dropWhile isIdCode (code_points s)" and ?Q = "\<lambda>c. isIdCode c \<or> c = 47"
  obtain sc where sc: "eatWhile isIdCode (text_scanner s (Some Enc_utf8)) = Inr (utf16_text ?t, sc)" "positioned ?t ?d sc"
    using eatWhile_at [OF scanner_at_start, of isIdCode s] by auto
  obtain sc1 where sc1: "eatChar [47] sc = Some (Inr (take 1 ?d = [47], sc1))" "take 1 ?d = [47] \<Longrightarrow> positioned (?t @ [47]) (drop 1 ?d) sc1"
    using match_at [OF sc(2), of "[47]", unfolded slash_code_points] by (auto split: if_splits)
  show ?thesis
  proof (cases "take 1 ?d = [47]")
    case True
    obtain sc2 where sc2: "eatWhile ?Q sc1 = Inr (utf16_text (takeWhile ?Q (drop 1 ?d)), sc2)"
        "positioned (?t @ [47] @ takeWhile ?Q (drop 1 ?d)) (dropWhile ?Q (drop 1 ?d)) sc2"
      using eatWhile_at [OF sc1(2) [OF True], of ?Q] by auto
    have "takeWhile ?Q (drop 1 ?d) \<noteq> [] \<and> dropWhile ?Q (drop 1 ?d) = [] \<longleftrightarrow> drop 1 ?d \<noteq> [] \<and> list_all ?Q (drop 1 ?d)"
      by (cases "drop 1 ?d") (auto simp: list_all_iff dropWhile_eq_Nil_conv)
    then show ?thesis using sc(1) sc1(1) sc2(1) positioned_done [OF sc2(2)] True utf16_text_empty
      by (auto simp: parseClusterId_def lift_scan_def lift_loop_def cluster_id_code_points Let_def slash_code_points)
  next
    case False
    then show ?thesis using sc(1) sc1(1) utf16_text_empty
      by (auto simp: parseClusterId_def lift_scan_def lift_loop_def cluster_id_code_points Let_def slash_code_points)
  qed
qed

lemma delivered_handle: "handle_id s \<Longrightarrow> delivered_text s = s"
  using id_code_small(1) by (intro delivered_ascii) (auto simp: handle_id_def list_all_iff)

lemma delivered_cluster_id: "cluster_id s \<Longrightarrow> delivered_text s = s"
  using id_code_small(1,2) by (intro delivered_ascii) (auto simp: cluster_id_def handle_id_def list_all_iff)

text \<open>The host of a realm or port is read off its id.\<close>

lemma node_of_id:
  assumes "handle_id node"
  shows "nodeIdFromId (node @ 47 # path) = Inr node"
proof -
  let ?s = "node @ 47 # path" and ?P = "\<lambda>c. c \<noteq> 47"
  have n: "code_points node = map unat node" using assms id_code_small(1) by (intro code_points_ascii) (auto simp: handle_id_def list_all_iff)
  then have c: "code_points ?s = map unat node @ 47 # code_points path" using code_points_append [of "47 # path" node] by (simp add: next_cp_def)
  have "list_all ?P (map unat node)" using assms id_code_small(3) by (auto simp: handle_id_def list_all_iff)
  then have w: "takeWhile ?P (code_points ?s) = map unat node" "dropWhile ?P (code_points ?s) = 47 # code_points path"
    using while_stops [of ?P "map unat node" 47] c by simp_all
  obtain sc where sc: "eatWhile ?P (text_scanner ?s (Some Enc_utf8)) = Inr (utf16_text (map unat node), sc)"
      "positioned (map unat node) (47 # code_points path) sc"
    using eatWhile_at [OF scanner_at_start, of ?P ?s] by (auto simp: w)
  note f = positioned_fields [OF sc(2)]
  have "bytes_from 0 (sc_offset sc) sc = utf8_bytes (map unat node)" using f(1,3) by (simp add: bytes_from_def)
  moreover have "decodeBytes (utf8_bytes (map unat node)) Enc_utf8 = utf16_text (map unat node)" using f(5) by (intro decode_encoded) auto
  moreover have "utf16_text (map unat node) = node" using assms id_code_small(1) by (intro ascii_units) (auto simp: handle_id_def list_all_iff)
  ultimately show ?thesis using sc(1) f(4)
    by (simp add: nodeIdFromId_def Let_def lift_scan_def scanned_text_def bytesSlice_def mark_def text_scanner_def new_scanner_def)
qed

subsection \<open>What the schema delivers\<close>

definition accepted_schema :: "field_descriptor list \<Rightarrow> bool" where
  "accepted_schema ds \<longleftrightarrow> declared ds \<and> (\<exists>fs. compileSchema ds = Inr fs)"

lemma accepted_type: "accepted_schema ds \<Longrightarrow> type_ok (codec_type ds)"
  using compiled_schema_ok by (auto simp: accepted_schema_def codec_type_def)

lemmas schema_simps = accepted_schema_def declared_def compileSchema_def wire_field_def compile_field_def maxFieldNumber_def

lemma schemas_compile:
  shows load_schema: "accepted_schema LoadMessage"
    and peer_schema: "accepted_schema PeerMessage"
    and directive_schema: "accepted_schema DirectiveMessage"
    and rule_schema: "accepted_schema RuleMessage"
    and cli_schema: "accepted_schema CliOtelMessage"
    and bootstrap_schema: "accepted_schema BootstrapDataMessage"
    and config_schema: "accepted_schema SpawnConfigMessage"
    and envelope_schema: "accepted_schema EnvelopeMessage"
proof -
  show 1: "accepted_schema LoadMessage" by (simp add: schema_simps LoadMessage_def)
  show 2: "accepted_schema PeerMessage" by (simp add: schema_simps PeerMessage_def accepted_type [OF 1])
  show 3: "accepted_schema DirectiveMessage" by (simp add: schema_simps DirectiveMessage_def)
  show 4: "accepted_schema RuleMessage" by (simp add: schema_simps RuleMessage_def accepted_type [OF 3])
  show 5: "accepted_schema CliOtelMessage" by (simp add: schema_simps CliOtelMessage_def)
  show 6: "accepted_schema BootstrapDataMessage" by (simp add: schema_simps BootstrapDataMessage_def accepted_type [OF 5])
  show 7: "accepted_schema SpawnConfigMessage" by (simp add: schema_simps SpawnConfigMessage_def accepted_type [OF 4] accepted_type [OF 6])
  show "accepted_schema EnvelopeMessage"
    by (simp add: schema_simps EnvelopeMessage_def accepted_type [OF 1] accepted_type [OF 2] accepted_type [OF 7])
qed

text \<open>The properties of a nested message as the receiver sees them.\<close>

definition nested :: "field_descriptor list \<Rightarrow> properties \<Rightarrow> properties" where
  "nested ds ps = object_entries (canonical_value (codec_type ds) (PObject ps))"

lemma codec_value [simp]: "canonical_value (codec_type ds) (PObject ps) = PObject (nested ds ps)"
  by (simp add: nested_def codec_type_def canonical_value.simps)

lemma nested_delivers:
  assumes "accepted_schema ds"
  shows "list_all (\<lambda>d. property_of (nested ds ps) (fd_name d) = received d (property_of ps (fd_name d))) ds"
proof -
  obtain fs where fs: "compileSchema ds = Inr fs" "declared ds" using assms by (auto simp: accepted_schema_def)
  then have "nested ds ps = canonical_message fs (property_of ps)" by (simp add: nested_def codec_type_def canonical_value.simps)
  with canonical_delivers [OF fs] show ?thesis by simp
qed

lemma field_name [simp]: "fd_name (wire_field name n type rep presence) = text_of name"
  by (simp add: wire_field_def)

lemma received_required: "received (wire_field name n (Scalar Enum) False False) (num k) = num k" if "k \<noteq> 0" "\<bar>k\<bar> < 2 ^ 53"
  using that by (simp add: received_def wire_field_def isDefault_def nonzero_number canonical_number)

lemma received_optional [simp]:
  "received (wire_field name n type False True) PUndefined = PUndefined"
  "received (wire_field name n (Scalar String) False True) (PString s) = PString (delivered_text s)"
  "received (wire_field name n (Scalar Double) False True) (PNumber b) = PNumber b"
  "received (wire_field name n (Scalar Bool) False True) (PBoolean c) = PBoolean c"
  "received (wire_field name n (Scalar Uint64) False True) (PBigInt i) = PBigInt i"
  "received (wire_field name n (codec_type ds) False True) (PObject ps) = PObject (nested ds ps)"
  "received (wire_field name n type True False) (PArray xs) = PArray (map (canonical_value type) xs)"
  by (simp_all add: received_def wire_field_def canonical_scalar_def delivered_text_def)

lemma key_of_obj [simp]:
  "key_of (obj []) k = PUndefined"
  "key_of (obj ((k', v) # ps)) k = (if k = k' then v else key_of (obj ps) k)"
  by (simp_all add: key_of_def obj_def property_of_def)

lemma key_of_optional [simp]:
  "key_of (obj (optional k' f x @ ps)) k = (if k = k' \<and> x \<noteq> None then f (the x) else key_of (obj ps) k)"
  by (cases x) (simp_all add: optional_def)

named_theorems wire_fields

lemma load_fields [wire_fields]:
  "key_of (nested LoadMessage ps) ''cpu'' = received (opt ''cpu'' 1 (Scalar Double)) (key_of ps ''cpu'')"
  "key_of (nested LoadMessage ps) ''memory'' = received (opt ''memory'' 2 (Scalar Double)) (key_of ps ''memory'')"
  using nested_delivers [OF load_schema, of ps] by (simp_all add: LoadMessage_def key_of_def)

lemma peer_fields [wire_fields]:
  "key_of (nested PeerMessage ps) ''nodeId'' = received (opt ''nodeId'' 1 (Scalar String)) (key_of ps ''nodeId'')"
  "key_of (nested PeerMessage ps) ''load'' = received (opt ''load'' 2 (codec_type LoadMessage)) (key_of ps ''load'')"
  using nested_delivers [OF peer_schema, of ps] by (simp_all add: PeerMessage_def key_of_def)

lemma directive_fields [wire_fields]:
  "key_of (nested DirectiveMessage ps) ''kind'' = received (req ''kind'' 1 (Scalar Enum)) (key_of ps ''kind'')"
  "key_of (nested DirectiveMessage ps) ''target'' = received (opt ''target'' 2 (Scalar String)) (key_of ps ''target'')"
  "key_of (nested DirectiveMessage ps) ''code'' = received (opt ''code'' 3 (Scalar String)) (key_of ps ''code'')"
  "key_of (nested DirectiveMessage ps) ''sourceMap'' = received (opt ''sourceMap'' 4 (Scalar String)) (key_of ps ''sourceMap'')"
  "key_of (nested DirectiveMessage ps) ''specifier'' = received (opt ''specifier'' 5 (Scalar String)) (key_of ps ''specifier'')"
  "key_of (nested DirectiveMessage ps) ''exports'' = received (many ''exports'' 6 (Scalar String)) (key_of ps ''exports'')"
  "key_of (nested DirectiveMessage ps) ''streams'' = received (many ''streams'' 7 (Scalar String)) (key_of ps ''streams'')"
  "key_of (nested DirectiveMessage ps) ''sinks'' = received (many ''sinks'' 8 (Scalar String)) (key_of ps ''sinks'')"
  using nested_delivers [OF directive_schema, of ps] by (simp_all add: DirectiveMessage_def key_of_def)

lemma rule_fields [wire_fields]:
  "key_of (nested RuleMessage ps) ''from'' = received (opt ''from'' 1 (Scalar String)) (key_of ps ''from'')"
  "key_of (nested RuleMessage ps) ''pattern'' = received (opt ''pattern'' 2 (Scalar String)) (key_of ps ''pattern'')"
  "key_of (nested RuleMessage ps) ''directive'' = received (opt ''directive'' 3 (codec_type DirectiveMessage)) (key_of ps ''directive'')"
  using nested_delivers [OF rule_schema, of ps] by (simp_all add: RuleMessage_def key_of_def)

lemma cli_fields [wire_fields]:
  "key_of (nested CliOtelMessage ps) ''endpoint'' = received (opt ''endpoint'' 1 (Scalar String)) (key_of ps ''endpoint'')"
  "key_of (nested CliOtelMessage ps) ''script'' = received (opt ''script'' 2 (Scalar String)) (key_of ps ''script'')"
  "key_of (nested CliOtelMessage ps) ''debug'' = received (opt ''debug'' 3 (Scalar Bool)) (key_of ps ''debug'')"
  using nested_delivers [OF cli_schema, of ps] by (simp_all add: CliOtelMessage_def key_of_def)

lemma bootstrap_fields [wire_fields]:
  "key_of (nested BootstrapDataMessage ps) ''cliOtel'' = received (opt ''cliOtel'' 1 (codec_type CliOtelMessage)) (key_of ps ''cliOtel'')"
  using nested_delivers [OF bootstrap_schema, of ps] by (simp_all add: BootstrapDataMessage_def key_of_def)

lemma config_fields [wire_fields]:
  "key_of (nested SpawnConfigMessage ps) ''entry'' = received (opt ''entry'' 1 (Scalar String)) (key_of ps ''entry'')"
  "key_of (nested SpawnConfigMessage ps) ''root'' = received (opt ''root'' 2 (Scalar String)) (key_of ps ''root'')"
  "key_of (nested SpawnConfigMessage ps) ''rules'' = received (many ''rules'' 3 (codec_type RuleMessage)) (key_of ps ''rules'')"
  "key_of (nested SpawnConfigMessage ps) ''bootstrapData'' = received (opt ''bootstrapData'' 4 (codec_type BootstrapDataMessage)) (key_of ps ''bootstrapData'')"
  using nested_delivers [OF config_schema, of ps] by (simp_all add: SpawnConfigMessage_def key_of_def)

subsection \<open>Loads and peers\<close>

lemma isRecord_object [simp]: "isRecord (PObject ps) = Some ps"
  by (simp add: isRecord_def)

lemma load_delivered:
  assumes "parseLoad (load_value l) = Inr l'"
  shows "l' = l" "parseLoad (PObject (nested LoadMessage (obj [(''cpu'', PNumber (nl_cpu l)), (''memory'', PNumber (nl_memory l))]))) = Inr l"
proof -
  show l: "l' = l" using assms
    by (auto simp: parseLoad_def load_value_def requireFiniteNumber_def protocolError_def cluster_fail_def split: if_splits)
  show "parseLoad (PObject (nested LoadMessage (obj [(''cpu'', PNumber (nl_cpu l)), (''memory'', PNumber (nl_memory l))]))) = Inr l"
    using assms unfolding l by (simp add: parseLoad_def load_value_def requireFiniteNumber_def wire_fields)
qed

lemma peer_delivered:
  assumes "parsePeer (peer_value p) key = Inr p'"
  shows "p' = p" "parsePeer (canonical_value (codec_type PeerMessage) (peer_value p)) key' = Inr p"
proof -
  from assms have h: "handle_id (pi_nodeId p)" and l: "parseLoad (load_value (pi_load p)) = Inr (pi_load p')" and n: "pi_nodeId p' = pi_nodeId p"
    by (auto simp: parsePeer_def peer_value_def requireString_def parseNodeId_iff protocolError_def cluster_fail_def result_simps
        split: if_splits sum.splits)
  show p: "p' = p" using n load_delivered(1) [OF l] by simp
  show "parsePeer (canonical_value (codec_type PeerMessage) (peer_value p)) key' = Inr p"
    using h load_delivered(2) [OF l]
    by (simp add: parsePeer_def peer_value_def requireString_def wire_fields parseNodeId_iff delivered_handle load_value_def)
qed

subsection \<open>Spawn configurations\<close>

text \<open>What a rule of a configuration means, whichever of its accepted forms it has.\<close>

datatype 's directive = Inherit | Block | Remap 's | Source 's 's | Facade 's "'s list" "'s list" "'s list"

datatype 's rule = Rule "'s option" 's "'s directive"

datatype 's cli_otel = CliOtel "'s option" "'s option" "bool option"

fun strings_of :: "pvalue list \<Rightarrow> text_string list option" where
  "strings_of [] = Some []"
| "strings_of (x # xs) = Option.bind (wire_option x) (\<lambda>s. map_option (Cons s) (strings_of xs))"

definition string_list :: "pvalue \<Rightarrow> text_string list option" where
  "string_list v = (case v of PArray xs \<Rightarrow> strings_of xs | _ \<Rightarrow> None)"

definition directive_meaning :: "pvalue \<Rightarrow> text_string directive option" where
  "directive_meaning v = (case v of
     PString s \<Rightarrow> if s = text_of ''inherit'' then Some Inherit else if s = text_of ''block'' then Some Block else None
   | _ \<Rightarrow> Option.bind (isRecord v) (\<lambda>ps. Option.bind (wire_option (key_of ps ''type'')) (\<lambda>type.
       if type = text_of ''inherit'' then Some Inherit
       else if type = text_of ''block'' then Some Block
       else if type = text_of ''remap'' then map_option Remap (wire_option (key_of ps ''target''))
       else if type = text_of ''source'' then Option.bind (wire_option (key_of ps ''code'')) (\<lambda>c. map_option (Source c) (wire_option (key_of ps ''source_map'')))
       else if type = text_of ''facade'' then Option.bind (wire_option (key_of ps ''specifier'')) (\<lambda>sp. Option.bind (string_list (key_of ps ''exports'')) (\<lambda>ex.
         Option.bind (if key_of ps ''streams'' = PUndefined then Some [] else string_list (key_of ps ''streams'')) (\<lambda>st.
         map_option (Facade sp ex st) (if key_of ps ''sinks'' = PUndefined then Some [] else string_list (key_of ps ''sinks'')))))
       else None)))"

fun directive_wire :: "text_string directive \<Rightarrow> properties" where
  "directive_wire Inherit = wire_directive 1 []"
| "directive_wire Block = wire_directive 2 []"
| "directive_wire (Remap t) = wire_directive 3 [(''target'', PString t)]"
| "directive_wire (Source c m) = wire_directive 4 [(''code'', PString c), (''sourceMap'', PString m)]"
| "directive_wire (Facade sp ex st si) =
     obj [(''kind'', num 5), (''specifier'', PString sp), (''exports'', strings ex), (''streams'', strings st), (''sinks'', strings si)]"

text \<open>The form in which the decoder gives a directive.\<close>

fun directive_value :: "text_string directive \<Rightarrow> pvalue" where
  "directive_value Inherit = PObject (obj [(''type'', PString (text_of ''inherit''))])"
| "directive_value Block = PObject (obj [(''type'', PString (text_of ''block''))])"
| "directive_value (Remap t) = PObject (obj [(''type'', PString (text_of ''remap'')), (''target'', PString t)])"
| "directive_value (Source c m) = PObject (obj [(''type'', PString (text_of ''source'')), (''code'', PString c), (''source_map'', PString m)])"
| "directive_value (Facade sp ex st si) = PObject (obj ([(''type'', PString (text_of ''facade'')), (''specifier'', PString sp), (''exports'', strings ex)]
     @ (if st \<noteq> [] then [(''streams'', strings st)] else []) @ (if si \<noteq> [] then [(''sinks'', strings si)] else [])))"

lemma fails_not_Inr [simp]: "protocolError e \<noteq> Inr x" "cluster_fail e \<noteq> Inr x"
  by (simp_all add: protocolError_def cluster_fail_def)

lemma requireString_Inr: "requireString ps k = Inr s \<longleftrightarrow> key_of ps k = PString s"
  by (auto simp: requireString_def split: pvalue.splits)

lemma wire_option_Some [simp]: "wire_option v = Some s \<longleftrightarrow> v = PString s" "wire_option (PString s) = Some s"
  by (auto simp: wire_option_def split: pvalue.splits)

lemma strings_of_map [simp]: "strings_of (map PString ss) = Some ss"
  by (induction ss) auto

lemma string_list_strings [simp]: "string_list (strings ss) = Some ss" "strings ss \<noteq> PUndefined"
  by (simp_all add: string_list_def strings_def)

lemma stringArray_Inr: "stringArray v key = Inr w \<Longrightarrow> \<exists>ss. w = strings ss \<and> v = strings ss"
proof -
  assume a: "stringArray v key = Inr w"
  then obtain xs where xs: "v = PArray xs" "w = PArray xs" "\<And>x. x \<in> set xs \<Longrightarrow> \<exists>s. x = PString s"
    by (auto simp: stringArray_def list_ex_iff split: pvalue.splits if_splits)
  from xs(3) have "\<exists>ss. xs = map PString ss" by (simp add: ex_map_conv)
  with xs show ?thesis by (auto simp: strings_def)
qed

lemma directive_accepted:
  assumes "encodeDirective v = Inr w"
  shows "\<exists>d. directive_meaning v = Some d \<and> w = directive_wire d"
proof (cases "v = PString (text_of ''inherit'') \<or> v = PString (text_of ''block'')")
  case True
  with assms show ?thesis by (auto simp: encodeDirective_def directive_meaning_def split: if_splits)
next
  case False
  then obtain ps type where ps: "isRecord v = Some ps" "key_of ps ''type'' = PString type"
    using assms by (auto simp: encodeDirective_def requireString_Inr result_simps split: option.splits)
  have m: "directive_meaning v = Option.bind (isRecord v) f" if "\<And>v. directive_meaning v = (case v of PString s \<Rightarrow> g s | _ \<Rightarrow> Option.bind (isRecord v) f)" for f g
    using ps(1) by (cases v) (simp_all add: that isRecord_def)
  have e: "PArray [] = strings []" by (simp add: strings_def)
  show ?thesis using assms False ps
    by (auto simp: encodeDirective_def e m [OF directive_meaning_def] requireString_Inr result_simps split: if_splits dest!: stringArray_Inr)
qed

lemma number_of_int_eq [simp]: "\<bar>a\<bar> < 2 ^ 53 \<Longrightarrow> \<bar>b\<bar> < 2 ^ 53 \<Longrightarrow> number_of_int a = number_of_int b \<longleftrightarrow> a = b"
  by (metis integer_of_number option.inject)

lemma strings_delivered [simp]:
  "received (wire_field name n (Scalar String) True False) (strings ss) = strings (map delivered_text ss)"
  "list_items (strings ss) = [] \<longleftrightarrow> ss = []"
  by (simp_all add: strings_def comp_def)

lemma directive_delivered: "decodeDirective (nested DirectiveMessage (directive_wire d)) = Inr (directive_value (map_directive delivered_text d))"
  by (cases d) (simp_all add: decodeDirective_def wire_directive_def wire_fields received_required requiredWireString_def)

lemma directive_value_meaning: "directive_meaning (directive_value d) = Some d"
  by (cases d) (simp_all add: directive_meaning_def)

definition rule_meaning :: "pvalue \<Rightarrow> text_string rule option" where
  "rule_meaning v = Option.bind (isRecord v) (\<lambda>ps.
     Option.bind (if key_of ps ''from'' = PUndefined then Some None else map_option Some (wire_option (key_of ps ''from''))) (\<lambda>src.
     Option.bind (wire_option (key_of ps ''pattern'')) (\<lambda>pattern.
     map_option (Rule src pattern) (directive_meaning (key_of ps ''directive'')))))"

fun rule_wire :: "text_string rule \<Rightarrow> pvalue" where
  "rule_wire (Rule src pattern d) = PObject (obj (optional ''from'' PString src @ [(''pattern'', PString pattern), (''directive'', PObject (directive_wire d))]))"

fun rule_value :: "text_string rule \<Rightarrow> pvalue" where
  "rule_value (Rule src pattern d) = PObject (obj (optional ''from'' PString src @ [(''pattern'', PString pattern), (''directive'', directive_value d)]))"

lemma rule_accepted:
  assumes "encodeRule v = Inr w"
  shows "\<exists>r. rule_meaning v = Some r \<and> w = rule_wire r"
  using assms by (auto simp: encodeRule_def rule_meaning_def requireString_Inr optional_def result_simps split: option.splits if_splits
      dest!: directive_accepted)

lemma rule_delivered: "decodeRule (canonical_value (codec_type RuleMessage) (rule_wire r)) = Inr (rule_value (map_rule delivered_text r))"
proof (cases r)
  case (Rule src pattern d)
  then show ?thesis by (cases src) (simp_all add: decodeRule_def wire_fields requiredWireString_def directive_delivered optional_def)
qed

lemma rule_value_meaning: "rule_meaning (rule_value r) = Some r"
proof (cases r)
  case (Rule src pattern d)
  then show ?thesis by (cases src) (simp_all add: rule_meaning_def directive_value_meaning optional_def)
qed

lemma rules_accepted: "mapR encodeRule vs = Inr ws \<Longrightarrow> \<exists>rs. list_all2 (\<lambda>v r. rule_meaning v = Some r) vs rs \<and> ws = map rule_wire rs"
proof (induction vs arbitrary: ws)
  case (Cons v vs)
  then obtain w ws' where w: "encodeRule v = Inr w" "mapR encodeRule vs = Inr ws'" "ws = w # ws'" by (auto simp: result_simps)
  from rule_accepted [OF w(1)] Cons.IH [OF w(2)] obtain r rs where
    "rule_meaning v = Some r" "w = rule_wire r" "list_all2 (\<lambda>v r. rule_meaning v = Some r) vs rs" "ws' = map rule_wire rs" by blast
  with w(3) show ?case by (intro exI [of _ "r # rs"]) simp
qed simp

lemma rules_delivered:
  "mapR decodeRule (map (canonical_value (codec_type RuleMessage)) (map rule_wire rs)) = Inr (map rule_value (map (map_rule delivered_text) rs))"
  by (induction rs) (simp_all add: rule_delivered)

definition bootstrap_meaning :: "pvalue \<Rightarrow> text_string cli_otel option option" where
  "bootstrap_meaning v = Option.bind (isRecord v) (\<lambda>ps.
     if key_of ps ''cliOtel'' = PUndefined then Some None
     else Option.bind (isRecord (key_of ps ''cliOtel'')) (\<lambda>qs.
       Option.bind (if key_of qs ''endpoint'' = PUndefined then Some None else map_option Some (wire_option (key_of qs ''endpoint''))) (\<lambda>endpoint.
       Option.bind (if key_of qs ''script'' = PUndefined then Some None else map_option Some (wire_option (key_of qs ''script''))) (\<lambda>script.
       case key_of qs ''debug'' of
         PUndefined \<Rightarrow> Some (Some (CliOtel endpoint script None))
       | PBoolean b \<Rightarrow> Some (Some (CliOtel endpoint script (Some b)))
       | _ \<Rightarrow> None))))"

fun bootstrap_wire :: "text_string cli_otel option \<Rightarrow> properties" where
  "bootstrap_wire None = []"
| "bootstrap_wire (Some (CliOtel endpoint script debug)) = obj [(''cliOtel'', PObject (obj
     (optional ''endpoint'' PString endpoint @ optional ''script'' PString script @ optional ''debug'' PBoolean debug)))]"

lemma requireBoolean_Inr: "requireBoolean ps k = Inr b \<longleftrightarrow> key_of ps k = PBoolean b"
  by (auto simp: requireBoolean_def split: pvalue.splits)

lemma key_of_Nil [simp]: "key_of [] k = PUndefined"
  by (simp add: key_of_def property_of_def)

lemma bootstrap_accepted:
  assumes "encodeBootstrapData v = Inr w"
  shows "\<exists>b. bootstrap_meaning v = Some b \<and> w = PObject (bootstrap_wire b)"
proof (cases "isRecord v")
  case (Some ps)
  show ?thesis
  proof (cases "key_of ps ''cliOtel'' = PUndefined")
    case True
    with Some assms show ?thesis by (auto simp: encodeBootstrapData_def bootstrap_meaning_def)
  next
    case False
    with Some assms obtain qs where qs: "isRecord (key_of ps ''cliOtel'') = Some qs" by (auto simp: encodeBootstrapData_def split: option.splits)
    define opt_string where "opt_string k = (if key_of qs k = PUndefined then Some None else map_option Some (wire_option (key_of qs k)))" for k
    have o: "\<exists>x. opt_string k = Some x \<and> l = optional k PString x"
      if "(if key_of qs k = PUndefined then Inr [] else bindR (requireString qs k) (\<lambda>s. Inr [(k, PString s)])) = Inr l" for k l
      using that by (auto simp: opt_string_def optional_def requireString_Inr result_simps split: if_splits)
    have b: "\<exists>x. (case key_of qs ''debug'' of PUndefined \<Rightarrow> Some (Some (CliOtel a c None)) | PBoolean b \<Rightarrow> Some (Some (CliOtel a c (Some b))) | _ \<Rightarrow> None) =
        Some (Some (CliOtel a c x)) \<and> l = optional ''debug'' PBoolean x"
      if "(if key_of qs ''debug'' = PUndefined then Inr [] else bindR (requireBoolean qs ''debug'') (\<lambda>b. Inr [(''debug'', PBoolean b)])) = Inr l" for l a c
      using that by (auto simp: optional_def requireBoolean_Inr result_simps split: if_splits)
    from assms Some False qs obtain l1 l2 l3 where
      l: "(if key_of qs ''endpoint'' = PUndefined then Inr [] else bindR (requireString qs ''endpoint'') (\<lambda>s. Inr [(''endpoint'', PString s)])) = Inr l1"
        "(if key_of qs ''script'' = PUndefined then Inr [] else bindR (requireString qs ''script'') (\<lambda>s. Inr [(''script'', PString s)])) = Inr l2"
        "(if key_of qs ''debug'' = PUndefined then Inr [] else bindR (requireBoolean qs ''debug'') (\<lambda>b. Inr [(''debug'', PBoolean b)])) = Inr l3"
        "w = PObject (obj [(''cliOtel'', PObject (obj (l1 @ l2 @ l3)))])"
      by (simp add: encodeBootstrapData_def) (auto simp only: bindR_eq_Inr)
    from o [OF l(1)] obtain x1 where "opt_string ''endpoint'' = Some x1" "l1 = optional ''endpoint'' PString x1" by blast
    moreover from o [OF l(2)] obtain x2 where "opt_string ''script'' = Some x2" "l2 = optional ''script'' PString x2" by blast
    moreover from b [OF l(3), of x1 x2] obtain x3 where "(case key_of qs ''debug'' of PUndefined \<Rightarrow> Some (Some (CliOtel x1 x2 None))
        | PBoolean b \<Rightarrow> Some (Some (CliOtel x1 x2 (Some b))) | _ \<Rightarrow> None) = Some (Some (CliOtel x1 x2 x3))" "l3 = optional ''debug'' PBoolean x3" by blast
    ultimately show ?thesis using Some False qs l(4)
      by (intro exI [of _ "Some (CliOtel x1 x2 x3)"]) (simp add: bootstrap_meaning_def opt_string_def)
  qed
qed (use assms in \<open>simp add: encodeBootstrapData_def\<close>)

lemma bootstrap_delivered:
  "bootstrap_meaning (PObject (nested BootstrapDataMessage (bootstrap_wire b))) = Some (map_option (map_cli_otel delivered_text) b)"
proof (cases b)
  case None
  then show ?thesis by (simp add: bootstrap_meaning_def wire_fields)
next
  case (Some c)
  then show ?thesis
  proof (cases c)
    case (CliOtel endpoint script debug)
    with Some show ?thesis
      by (cases endpoint; cases script; cases debug) (simp_all add: bootstrap_meaning_def wire_fields optional_def)
  qed
qed

text \<open>What the receiver gets of a configuration: its strings as the wire carries them, its rules in the form of the decoder, and
  bootstrap data of the same meaning.\<close>

definition same_config :: "SerializedSpawnConfig \<Rightarrow> SerializedSpawnConfig \<Rightarrow> bool" where
  "same_config sent got \<longleftrightarrow> sp_entry got = delivered_text (sp_entry sent) \<and> sp_root got = delivered_text (sp_root sent) \<and>
     (\<exists>rs. list_all2 (\<lambda>v r. rule_meaning v = Some r) (sp_rules sent) rs \<and> sp_rules got = map rule_value (map (map_rule delivered_text) rs)) \<and>
     (if sp_bootstrapData sent \<in> {None, Some PUndefined} then sp_bootstrapData got = None
      else \<exists>b d. bootstrap_meaning (the (sp_bootstrapData sent)) = Some b \<and> sp_bootstrapData got = Some d \<and>
        bootstrap_meaning d = Some (map_option (map_cli_otel delivered_text) b))"

lemma parse_config_value: "parseSpawnConfig (config_value c) = Inr c"
proof -
  have "map_of (obj ([(''entry'', a), (''root'', b), (''rules'', r)] @ optional ''bootstrapData'' id x)) (text_of ''bootstrapData'') = x" for a b r x
    by (cases x) (simp_all add: obj_def optional_def)
  then show ?thesis by (simp add: parseSpawnConfig_def config_value_def requireString_def)
qed

lemma config_accepted:
  assumes "encodeSpawnConfig (config_value c) = Inr w"
  obtains ps c' where "w = PObject ps" "decodeSpawnConfig (PObject (nested SpawnConfigMessage ps)) = Inr c'" "same_config c c'"
proof -
  from assms obtain ws bs where w: "mapR encodeRule (sp_rules c) = Inr ws"
      "(case sp_bootstrapData c of None \<Rightarrow> Inr [] | Some d \<Rightarrow> if d = PUndefined then Inr [] else bindR (encodeBootstrapData d) (\<lambda>e. Inr [(''bootstrapData'', e)])) = Inr bs"
      "w = PObject (obj ([(''entry'', PString (sp_entry c)), (''root'', PString (sp_root c)), (''rules'', PArray ws)] @ bs))"
    by (auto simp: encodeSpawnConfig_def parse_config_value result_simps)
  from rules_accepted [OF w(1)] obtain rs where rs: "list_all2 (\<lambda>v r. rule_meaning v = Some r) (sp_rules c) rs" "ws = map rule_wire rs" by blast
  show thesis
  proof (cases "sp_bootstrapData c \<in> {None, Some PUndefined}")
    case True
    then have "bs = []" using w(2) by auto
    then have "decodeSpawnConfig (PObject (nested SpawnConfigMessage (obj ([(''entry'', PString (sp_entry c)), (''root'', PString (sp_root c)), (''rules'', PArray ws)] @ bs)))) =
      Inr \<lparr>sp_entry = delivered_text (sp_entry c), sp_root = delivered_text (sp_root c), sp_rules = map rule_value (map (map_rule delivered_text) rs), sp_bootstrapData = None\<rparr>"
      using rules_delivered [of rs] by (simp add: decodeSpawnConfig_def wire_fields requiredWireString_def rs(2))
    with True w(3) rs show ?thesis by (intro that) (auto simp: same_config_def)
  next
    case False
    then obtain d e where d: "sp_bootstrapData c = Some d" "d \<noteq> PUndefined" "encodeBootstrapData d = Inr e" "bs = [(''bootstrapData'', e)]"
      using w(2) by (auto simp: result_simps split: option.splits)
    from bootstrap_accepted [OF d(3)] obtain b where b: "bootstrap_meaning d = Some b" "e = PObject (bootstrap_wire b)" by blast
    have "decodeSpawnConfig (PObject (nested SpawnConfigMessage (obj ([(''entry'', PString (sp_entry c)), (''root'', PString (sp_root c)), (''rules'', PArray ws)] @ bs)))) =
      Inr \<lparr>sp_entry = delivered_text (sp_entry c), sp_root = delivered_text (sp_root c), sp_rules = map rule_value (map (map_rule delivered_text) rs),
        sp_bootstrapData = Some (PObject (nested BootstrapDataMessage (bootstrap_wire b)))\<rparr>"
      using rules_delivered [of rs] by (simp add: decodeSpawnConfig_def wire_fields requiredWireString_def rs(2) d(4) b(2))
    with w(3) rs d(1,2) b show ?thesis using bootstrap_delivered [of b] by (intro that) (auto simp: same_config_def)
  qed
qed

subsection \<open>Messages\<close>

lemma sequence_accepted:
  assumes "encodeSequence b key z = Inr v"
  obtains n where "v = PBigInt n" "integer_of b = Some n" "decodeSequence (PBigInt n) key z = Inr (number_of_int n)"
proof -
  from assms obtain n where n: "v = PBigInt n" "integer_of b = Some n" "(if z then 0 else 1) \<le> n" "n \<le> 2 ^ 53 - 1"
    by (auto simp: encodeSequence_def requireSequence_def requireFiniteNumber_def result_simps split: option.splits if_splits)
  have i: "integer_of (number_of_int n) = Some n" using n(3,4) by (intro integer_of_number) (auto split: if_splits)
  then have "is_finite (number_of_int n)" by (auto simp: is_finite_def integer_of_def Let_def)
  with i n show ?thesis by (intro that) (auto simp: decodeSequence_def requireSequence_def requireFiniteNumber_def)
qed

definition plain_number :: "number \<Rightarrow> number" where
  "plain_number b = number_of_int (the_integer (PNumber b))"

definition delivered :: "ClusterMessage \<Rightarrow> ClusterMessage \<Rightarrow> bool" where
  "delivered sent got = (case sent of
     SPAWN spawnReqId parentPortId config \<Rightarrow> \<exists>config'. got = SPAWN spawnReqId parentPortId config' \<and> same_config config config'
   | SPAWN_ACK spawnReqId childPortId ok err \<Rightarrow> got = SPAWN_ACK spawnReqId childPortId ok (map_option delivered_text err)
   | REALM_EXIT realmId lastPortSeq err \<Rightarrow> got = REALM_EXIT realmId (plain_number lastPortSeq) (map_option delivered_text err)
   | PORT_MSG fromPort toPort payload seq payloadFormat \<Rightarrow>
       got = PORT_MSG fromPort toPort payload (plain_number seq) (map_option plain_number payloadFormat)
   | _ \<Rightarrow> got = sent)"

definition envelope :: "properties \<Rightarrow> properties \<Rightarrow> bool" where
  "envelope ps qs \<longleftrightarrow> list_all (\<lambda>d. property_of qs (fd_name d) = received d (property_of ps (fd_name d))) EnvelopeMessage"

lemma envelope_fields:
  assumes "envelope ps qs"
  shows "key_of qs ''kind'' = received (req ''kind'' 1 (Scalar Enum)) (key_of ps ''kind'')"
    "key_of qs ''nodeId'' = received (opt ''nodeId'' 2 (Scalar String)) (key_of ps ''nodeId'')"
    "key_of qs ''load'' = received (opt ''load'' 3 (codec_type LoadMessage)) (key_of ps ''load'')"
    "key_of qs ''peers'' = received (many ''peers'' 4 (codec_type PeerMessage)) (key_of ps ''peers'')"
    "key_of qs ''peer'' = received (opt ''peer'' 5 (codec_type PeerMessage)) (key_of ps ''peer'')"
    "key_of qs ''ts'' = received (opt ''ts'' 6 (Scalar Double)) (key_of ps ''ts'')"
    "key_of qs ''spawnReqId'' = received (opt ''spawnReqId'' 7 (Scalar String)) (key_of ps ''spawnReqId'')"
    "key_of qs ''parentPortId'' = received (opt ''parentPortId'' 8 (Scalar String)) (key_of ps ''parentPortId'')"
    "key_of qs ''config'' = received (opt ''config'' 9 (codec_type SpawnConfigMessage)) (key_of ps ''config'')"
    "key_of qs ''childPortId'' = received (opt ''childPortId'' 10 (Scalar String)) (key_of ps ''childPortId'')"
    "key_of qs ''ok'' = received (opt ''ok'' 11 (Scalar Bool)) (key_of ps ''ok'')"
    "key_of qs ''error'' = received (opt ''error'' 12 (Scalar String)) (key_of ps ''error'')"
    "key_of qs ''realmId'' = received (opt ''realmId'' 13 (Scalar String)) (key_of ps ''realmId'')"
    "key_of qs ''lastPortSeq'' = received (opt ''lastPortSeq'' 14 (Scalar Uint64)) (key_of ps ''lastPortSeq'')"
    "key_of qs ''fromPort'' = received (opt ''fromPort'' 15 (Scalar String)) (key_of ps ''fromPort'')"
    "key_of qs ''toPort'' = received (opt ''toPort'' 16 (Scalar String)) (key_of ps ''toPort'')"
    "key_of qs ''payload'' = received (many ''payload'' 17 (Scalar Bytes)) (key_of ps ''payload'')"
    "key_of qs ''seq'' = received (opt ''seq'' 18 (Scalar Uint64)) (key_of ps ''seq'')"
    "key_of qs ''payloadFormat'' = received (opt ''payloadFormat'' 19 (Scalar Uint32)) (key_of ps ''payloadFormat'')"
  using assms by (simp_all add: envelope_def EnvelopeMessage_def key_of_def)

lemma peers_accepted:
  assumes "mapR (\<lambda>x. parsePeer x key) (map peer_value ps) = Inr qs" "mapR encodePeer qs = Inr ws"
  shows "ws = map peer_value ps \<and> mapR (\<lambda>x. parsePeer x key') (map (canonical_value (codec_type PeerMessage)) ws) = Inr ps"
  using assms
proof (induction ps arbitrary: qs ws)
  case (Cons p ps)
  then obtain q qs' where q: "parsePeer (peer_value p) key = Inr q" "mapR (\<lambda>x. parsePeer x key) (map peer_value ps) = Inr qs'" "qs = q # qs'"
    by (auto simp: result_simps)
  with Cons.prems(2) peer_delivered(1) [OF q(1)] obtain w ws' where
    w: "encodePeer p = Inr w" "mapR encodePeer qs' = Inr ws'" "ws = w # ws'" by (auto simp: result_simps)
  from w(1) peer_delivered(1) have "w = peer_value p" by (auto simp: encodePeer_def result_simps)
  with Cons.IH [OF q(2) w(2)] w(3) peer_delivered(2) [OF q(1)] show ?case by (auto simp del: map_map)
qed simp

lemma bytes_delivered [simp]: "map bytes_item (map (canonical_scalar Bytes) (map PBytes payload)) = payload"
  by (induction payload) (simp_all add: canonical_scalar_def)

lemma wire_option_undefined [simp]: "wire_option PUndefined = None"
  by (simp add: wire_option_def)

lemma format_delivered [simp]: "received (wire_field name n (Scalar Uint32) False True) (PNumber b) = PNumber (plain_number b)"
  by (simp add: received_def wire_field_def canonical_scalar_def plain_number_def)

lemmas from_wire = fromWire_def requiredWireString_def received_required parseHandleId_iff parseNodeId_iff parseClusterId_iff
  delivered_handle delivered_cluster_id delivered_def

lemma hello_delivered:
  assumes "toWire (HELLO n l) = Inr ps" "envelope ps qs"
  shows "\<exists>m'. fromWire qs = Inr m' \<and> delivered (HELLO n l) m'"
proof -
  note f = envelope_fields [OF assms(2)]
  from assms(1) obtain l' where h: "handle_id n" "parseLoad (load_value l) = Inr l'"
      "ps = obj ([(''kind'', num 1), (''nodeId'', PString n), (''load'', load_value l')] @ [(''peers'', PArray []), (''payload'', PArray [])])"
    by (auto simp: toWire_def parseNodeId_iff result_simps split: if_splits)
  with load_delivered [OF h(2)] f show ?thesis by (simp add: from_wire load_value_def)
qed

lemma welcome_delivered:
  assumes "toWire (WELCOME n l) = Inr ps" "envelope ps qs"
  shows "\<exists>m'. fromWire qs = Inr m' \<and> delivered (WELCOME n l) m'"
proof -
  note f = envelope_fields [OF assms(2)]
  from assms(1) obtain l' ws where h: "handle_id n" "mapR (\<lambda>x. parsePeer x ''peer'') (map peer_value l) = Inr l'" "mapR encodePeer l' = Inr ws"
      "ps = obj [(''kind'', num 2), (''nodeId'', PString n), (''peers'', PArray ws), (''payload'', PArray [])]"
    by (auto simp: toWire_def parseNodeId_iff parsePeers_def result_simps split: if_splits)
  with peers_accepted [OF h(2,3), of "''peer''"] f show ?thesis by (auto simp: from_wire decodePeer_def simp del: map_map)
qed

lemma peer_up_delivered:
  assumes "toWire (PEER_UP p) = Inr ps" "envelope ps qs"
  shows "\<exists>m'. fromWire qs = Inr m' \<and> delivered (PEER_UP p) m'"
proof -
  note f = envelope_fields [OF assms(2)]
  from assms(1) obtain p' where h: "parsePeer (peer_value p) ''peer'' = Inr p'"
      "ps = obj ([(''kind'', num 3), (''peer'', peer_value p')] @ [(''peers'', PArray []), (''payload'', PArray [])])"
    by (auto simp: toWire_def encodePeer_def result_simps)
  with peer_delivered(1) [OF h(1)] peer_delivered(2) [OF h(1), of "''peer''"] f show ?thesis by (simp add: from_wire decodePeer_def peer_value_def)
qed

lemma peer_down_delivered:
  assumes "toWire (PEER_DOWN n) = Inr ps" "envelope ps qs"
  shows "\<exists>m'. fromWire qs = Inr m' \<and> delivered (PEER_DOWN n) m'"
proof -
  note f = envelope_fields [OF assms(2)]
  from assms(1) have h: "handle_id n" "ps = obj ([(''kind'', num 4), (''nodeId'', PString n)] @ [(''peers'', PArray []), (''payload'', PArray [])])"
    by (auto simp: toWire_def parseNodeId_iff result_simps split: if_splits)
  with f show ?thesis by (simp add: from_wire)
qed

lemma heartbeat_delivered:
  assumes "toWire (HEARTBEAT t) = Inr ps" "envelope ps qs"
  shows "\<exists>m'. fromWire qs = Inr m' \<and> delivered (HEARTBEAT t) m'"
proof -
  note f = envelope_fields [OF assms(2)]
  from assms(1) have h: "is_finite t" "ps = obj ([(''kind'', num 5), (''ts'', PNumber t)] @ [(''peers'', PArray []), (''payload'', PArray [])])"
    by (auto simp: toWire_def requireFiniteNumber_def result_simps split: if_splits)
  with f show ?thesis by (simp add: from_wire requireFiniteNumber_def)
qed

lemma spawn_delivered:
  assumes "toWire (SPAWN r p c) = Inr ps" "envelope ps qs"
  shows "\<exists>m'. fromWire qs = Inr m' \<and> delivered (SPAWN r p c) m'"
proof -
  note f = envelope_fields [OF assms(2)]
  from assms(1) obtain w where h: "handle_id r" "cluster_id p" "encodeSpawnConfig (config_value c) = Inr w"
      "ps = obj ([(''kind'', num 6), (''spawnReqId'', PString r), (''parentPortId'', PString p), (''config'', w)] @ [(''peers'', PArray []), (''payload'', PArray [])])"
    by (auto simp: toWire_def parseHandleId_iff parseClusterId_iff result_simps split: if_splits)
  obtain cs c' where "w = PObject cs" "decodeSpawnConfig (PObject (nested SpawnConfigMessage cs)) = Inr c'" "same_config c c'"
    using config_accepted [OF h(3)] by blast
  with h(1,2,4) f show ?thesis by (simp add: from_wire)
qed

lemma spawn_ack_delivered:
  assumes "toWire (SPAWN_ACK r c ok err) = Inr ps" "envelope ps qs"
  shows "\<exists>m'. fromWire qs = Inr m' \<and> delivered (SPAWN_ACK r c ok err) m'"
proof -
  note f = envelope_fields [OF assms(2)]
  from assms(1) have h: "handle_id r" "c = [] \<or> cluster_id c"
      "ps = obj ([(''kind'', num 7), (''spawnReqId'', PString r), (''childPortId'', PString c), (''ok'', PBoolean ok)] @ optional ''error'' PString err @ [(''peers'', PArray []), (''payload'', PArray [])])"
    by (auto simp: toWire_def parseHandleId_iff parseClusterId_iff result_simps split: if_splits)
  have "delivered_text c = c" using h(2) delivered_cluster_id by (auto intro: delivered_ascii)
  with h f show ?thesis by (cases err) (auto simp: from_wire)
qed

lemma realm_exit_delivered:
  assumes "toWire (REALM_EXIT r b err) = Inr ps" "envelope ps qs"
  shows "\<exists>m'. fromWire qs = Inr m' \<and> delivered (REALM_EXIT r b err) m'"
proof -
  note f = envelope_fields [OF assms(2)]
  from assms(1) obtain v where h: "cluster_id r" "encodeSequence b ''lastPortSeq'' True = Inr v"
      "ps = obj ([(''kind'', num 8), (''realmId'', PString r), (''lastPortSeq'', v)] @ optional ''error'' PString err @ [(''peers'', PArray []), (''payload'', PArray [])])"
    by (auto simp: toWire_def parseClusterId_iff result_simps split: if_splits)
  obtain i where "v = PBigInt i" "integer_of b = Some i" "decodeSequence (PBigInt i) ''lastPortSeq'' True = Inr (number_of_int i)"
    using sequence_accepted [OF h(2)] by blast
  with h(1,3) f show ?thesis by (cases err) (simp_all add: from_wire plain_number_def)
qed

lemma terminate_delivered:
  assumes "toWire (TERMINATE r) = Inr ps" "envelope ps qs"
  shows "\<exists>m'. fromWire qs = Inr m' \<and> delivered (TERMINATE r) m'"
proof -
  note f = envelope_fields [OF assms(2)]
  from assms(1) have h: "cluster_id r" "ps = obj ([(''kind'', num 9), (''realmId'', PString r)] @ [(''peers'', PArray []), (''payload'', PArray [])])"
    by (auto simp: toWire_def parseClusterId_iff result_simps split: if_splits)
  with f show ?thesis by (simp add: from_wire)
qed

lemma port_msg_delivered:
  assumes "toWire (PORT_MSG a b payload n fmt) = Inr ps" "envelope ps qs"
  shows "\<exists>m'. fromWire qs = Inr m' \<and> delivered (PORT_MSG a b payload n fmt) m'"
proof -
  note f = envelope_fields [OF assms(2)]
  from assms(1) obtain v where h: "cluster_id a" "cluster_id b" "encodeSequence n ''seq'' False = Inr v"
      "ps = obj ([(''kind'', num 10), (''fromPort'', PString a), (''toPort'', PString b), (''payload'', PArray (map PBytes payload)), (''seq'', v)]
        @ optional ''payloadFormat'' PNumber fmt @ [(''peers'', PArray [])])"
    by (auto simp: toWire_def parseClusterId_iff result_simps split: if_splits)
  obtain i where "v = PBigInt i" "integer_of n = Some i" "decodeSequence (PBigInt i) ''seq'' False = Inr (number_of_int i)"
    using sequence_accepted [OF h(3)] by blast
  with h(1,2,4) f show ?thesis using bytes_delivered [of payload] by (cases fmt) (simp_all add: from_wire plain_number_def)
qed

lemmas messages_delivered = hello_delivered welcome_delivered peer_up_delivered peer_down_delivered heartbeat_delivered spawn_delivered
  spawn_ack_delivered realm_exit_delivered terminate_delivered port_msg_delivered

subsection \<open>Properties\<close>

text \<open>C14: every cluster message that \<open>encode\<close> accepts, in fewer than \<open>2 ^ 53\<close> bytes, is decoded to the same message: identifiers,
  loads, payload bytes and sequence numbers are unchanged, free text arrives well-formed and without a leading byte
  order mark, and the rules and bootstrap data of a spawn mean the same, whichever accepted form they had.\<close>

theorem cluster_message_roundtrip:
  assumes "encode_message m = Inr bytes" "length bytes < 2 ^ 53"
  shows "\<exists>m'. decode_message stack bytes = Inr m' \<and> delivered m m'"
proof -
  obtain codec where c: "defineMessage EnvelopeMessage = Inr codec" "declared EnvelopeMessage"
    using envelope_schema by (auto simp: accepted_schema_def defineMessage_def)
  from assms(1) c(1) obtain ps where ps: "toWire m = Inr ps" "codec_encode codec (PObject ps) = Inr bytes"
    by (auto simp: encode_message_def result_simps)
  from codec_delivers [OF c ps(2) assms(2)] obtain qs where q: "codec_decode codec stack bytes = Inr (PObject qs)" "envelope ps qs"
    unfolding envelope_def by blast
  have "\<exists>m'. fromWire qs = Inr m' \<and> delivered m m'" using ps(1) q(2) by (cases m) (auto dest: messages_delivered)
  with c(1) q(1) show ?thesis by (simp add: decode_message_def)
qed

subsection \<open>A sample\<close>

definition sample_message :: ClusterMessage where
  "sample_message = PORT_MSG [97, 47, 98] [99, 47, 100] [[7]] (number_of_int 1) None"

definition sample_wire :: properties where
  "sample_wire = obj [(''kind'', num 10), (''fromPort'', PString [97, 47, 98]), (''toPort'', PString [99, 47, 100]),
     (''payload'', PArray [PBytes [7]]), (''seq'', PBigInt 1), (''peers'', PArray [])]"

lemma sample_ids: "cluster_id [97, 47, 98]" "cluster_id [99, 47, 100]"
proof -
  have "cluster_id [u, 47, v]" if "isIdCode (unat u)" "isIdCode (unat v)" for u v
    unfolding cluster_id_def using that by (intro exI [of _ "[u]"] exI [of _ "[v]"]) (simp add: handle_id_def)
  then show "cluster_id [97, 47, 98]" "cluster_id [99, 47, 100]" by (simp_all add: isIdCode_def)
qed

lemma finite_integer: "integer_of b = Some n \<Longrightarrow> is_finite b"
  by (auto simp: is_finite_def integer_of_def Let_def)

lemma sample_toWire: "toWire sample_message = Inr sample_wire"
  using finite_integer [OF integer_of_number, of 1]
  by (simp add: toWire_def sample_message_def sample_wire_def parseClusterId_iff sample_ids encodeSequence_def requireSequence_def
      requireFiniteNumber_def integer_of_number optional_def)

lemma envelope_fields_compiled: "compileSchema EnvelopeMessage = Inr (map compile_field EnvelopeMessage)"
  by (simp add: compileSchema_def EnvelopeMessage_def wire_field_def compile_field_def maxFieldNumber_def)

lemma absent_field:
  "property_of ps (text_of name) = PUndefined \<Longrightarrow> encode_field ps (compile_field (wire_field name n type False True)) = Inr []"
  "property_of ps (text_of name) = PArray [] \<Longrightarrow> encode_field ps (compile_field (wire_field name n type True False)) = Inr []"
  by (simp_all add: encode_field_def compile_field_def wire_field_def)

lemma sample_fields:
  "encode_field sample_wire (compile_field (req ''kind'' 1 (Scalar Enum))) = Inr [8, 10]"
  "encode_field sample_wire (compile_field (opt ''fromPort'' 15 (Scalar String))) = Inr [122, 3, 97, 47, 98]"
  "encode_field sample_wire (compile_field (opt ''toPort'' 16 (Scalar String))) = Inr [130, 1, 3, 99, 47, 100]"
  "encode_field sample_wire (compile_field (many ''payload'' 17 (Scalar Bytes))) = Inr [138, 1, 1, 7]"
  "encode_field sample_wire (compile_field (opt ''seq'' 18 (Scalar Uint64))) = Inr [144, 1, 1]"
  by (simp_all add: encode_field_def compile_field_def wire_field_def sample_wire_def obj_def encodeValue.simps wire_simps nonzero_number
      integer_in_def integer_of_number encodeUtf8_def isPackable_def)

definition sample_frame :: "byte list" where
  "sample_frame = [8, 10, 122, 3, 97, 47, 98, 130, 1, 3, 99, 47, 100, 138, 1, 1, 7, 144, 1, 1]"

lemma sample_encoded_message: "encode_message sample_message = Inr sample_frame"
proof -
  have k: "property_of sample_wire (text_of k) = PUndefined" if "k \<notin> {''kind'', ''fromPort'', ''toPort'', ''payload'', ''seq'', ''peers''}" for k
    using that by (auto simp: sample_wire_def obj_def property_of_def)
  have "property_of sample_wire (text_of ''peers'') = PArray []" by (simp add: sample_wire_def obj_def property_of_def)
  note a = absent_field(2) [OF this] absent_field(1) [OF k]
  have "mapR (encode_field sample_wire) (map compile_field EnvelopeMessage) = Inr [[8, 10], [], [], [], [], [], [], [], [], [], [], [], [], [],
      [122, 3, 97, 47, 98], [130, 1, 3, 99, 47, 100], [138, 1, 1, 7], [144, 1, 1], []]"
    unfolding EnvelopeMessage_def by (simp add: sample_fields a)
  then show ?thesis
    by (simp add: encode_message_def sample_toWire defineMessage_def envelope_fields_compiled encodeMessage_fields sample_frame_def)
qed

theorem cluster_message_roundtrip_witness: "\<exists>m'. decode_message 1000 sample_frame = Inr m' \<and> delivered sample_message m'"
  using cluster_message_roundtrip [OF sample_encoded_message] by (simp add: sample_frame_def)

end
