(* ===== verification/Cluster_Seed.thy ===== *)
theory Cluster_Seed
  imports Cluster_Registry Cluster_Roundtrip Event_System
begin

text \<open>
  \<open>internal/cluster/seed.ts\<close>: the seed of a cluster, which routes messages between nodes and owns the registry.

  A handler takes the depth \<open>stack\<close> of the call stack, the time and the state, and returns what it sends and the new state, or
  \<open>None\<close> when \<open>RealmRegistry\<close> exhausts the stack. A \<open>Map\<close> that is iterated is an association list in the order of insertion, the
  others are functions. Times are whole milliseconds. The sequence numbers of messages are the positive safe integers
  that \<open>decode\<close> lets through, here natural numbers.
\<close>

subsection \<open>State\<close>

record PortSequenceState =
  ps_next :: nat
  ps_pending :: "(nat \<times> ClusterMessage) list"

record pending_spawn =
  sp_requesterNodeId :: text_string
  sp_parentPortId :: text_string
  sp_targetNodeId :: text_string

record SeedServer =
  sd_registry :: RealmRegistry
  sd_peers :: "(text_string \<times> NodeLoad) list"
  sd_lastSeen :: "(text_string \<times> int) list"
  sd_pendingSpawns :: "(text_string \<times> pending_spawn) list"
  sd_portNodes :: "text_string \<Rightarrow> text_string option"
  sd_portSequences :: "text_string \<Rightarrow> PortSequenceState option"
  sd_pendingRealmExits :: "text_string \<Rightarrow> ClusterMessage option"

definition new_seed :: SeedServer where
  "new_seed = \<lparr>sd_registry = new_registry, sd_peers = [], sd_lastSeen = [], sd_pendingSpawns = [], sd_portNodes = (\<lambda>_. None),
     sd_portSequences = (\<lambda>_. None), sd_pendingRealmExits = (\<lambda>_. None)\<rparr>"

datatype seed_out = Send text_string ClusterMessage | BroadcastExcept text_string ClusterMessage

fun seed_map_set :: "'k \<Rightarrow> 'v \<Rightarrow> ('k \<times> 'v) list \<Rightarrow> ('k \<times> 'v) list" where
  "seed_map_set k v [] = [(k, v)]"
| "seed_map_set k v ((k', v') # m) = (if k' = k then (k, v) # m else (k', v') # seed_map_set k v m)"

definition seed_map_delete :: "'k \<Rightarrow> ('k \<times> 'v) list \<Rightarrow> ('k \<times> 'v) list" where
  "seed_map_delete k m = filter (\<lambda>(k', v). k' \<noteq> k) m"

definition seq_of :: "number \<Rightarrow> nat" where
  "seq_of b = nat (the_integer (PNumber b))"

subsection \<open>Ordering the messages of a port\<close>

lemma seed_delete_shorter: "map_of m k = Some v \<Longrightarrow> length (seed_map_delete k m) < length m"
  unfolding seed_map_delete_def by (rule length_filter_less [where x = "(k, v)"]) (auto dest: map_of_SomeD)

function take_ready :: "PortSequenceState \<Rightarrow> ClusterMessage list \<times> PortSequenceState" where
  "take_ready st = (case map_of (ps_pending st) (ps_next st) of
     None \<Rightarrow> ([], st)
   | Some msg \<Rightarrow> let (ready, st') = take_ready \<lparr>ps_next = ps_next st + 1, ps_pending = seed_map_delete (ps_next st) (ps_pending st)\<rparr> in (msg # ready, st'))"
  by pat_completeness auto
termination
  by (relation "measure (\<lambda>st. length (ps_pending st))") (auto intro: seed_delete_shorter)

declare take_ready.simps [simp del]

definition take_ordered :: "nat \<Rightarrow> ClusterMessage \<Rightarrow> PortSequenceState \<Rightarrow> ClusterMessage list \<times> PortSequenceState" where
  "take_ordered seq msg st =
     (if seq < ps_next st \<or> map_of (ps_pending st) seq \<noteq> None then ([], st)
      else take_ready (st\<lparr>ps_pending := seed_map_set seq msg (ps_pending st)\<rparr>))"

definition port_sequence :: "text_string \<Rightarrow> SeedServer \<Rightarrow> PortSequenceState" where
  "port_sequence port s = (case sd_portSequences s port of Some st \<Rightarrow> st | None \<Rightarrow> \<lparr>ps_next = 1, ps_pending = []\<rparr>)"

definition takeOrderedPortMessages :: "text_string \<Rightarrow> nat \<Rightarrow> ClusterMessage \<Rightarrow> SeedServer \<Rightarrow> ClusterMessage list \<times> SeedServer" where
  "takeOrderedPortMessages fromPort seq msg s =
     (let (ready, st) = take_ordered seq msg (port_sequence fromPort s) in
      (ready, s\<lparr>sd_portSequences := (sd_portSequences s)(fromPort \<mapsto> st)\<rparr>))"

definition routedPortSequence :: "text_string \<Rightarrow> SeedServer \<Rightarrow> nat" where
  "routedPortSequence fromPort s = ps_next (port_sequence fromPort s) - 1"

subsection \<open>Handlers\<close>

definition drop_port :: "text_string \<Rightarrow> SeedServer \<Rightarrow> SeedServer" where
  "drop_port p s = s\<lparr>sd_portNodes := (sd_portNodes s)(p := None), sd_portSequences := (sd_portSequences s)(p := None),
     sd_pendingRealmExits := (sd_pendingRealmExits s)(p := None)\<rparr>"

text \<open>A node id as a condition.\<close>

definition host_of :: "text_string \<Rightarrow> SeedServer \<Rightarrow> text_string option" where
  "host_of p s = (case sd_portNodes s p of Some n \<Rightarrow> if n = [] then None else Some n | None \<Rightarrow> None)"

fun terminate_removed :: "text_string \<Rightarrow> text_string list \<Rightarrow> SeedServer \<Rightarrow> seed_out list \<times> SeedServer" where
  "terminate_removed portId [] s = ([], s)"
| "terminate_removed portId (p # ps) s =
     (let (out, s') = terminate_removed portId ps (drop_port p s) in
      ((case host_of p s of Some n \<Rightarrow> if p \<noteq> portId then [Send n (TERMINATE p)] else [] | None \<Rightarrow> []) @ out, s'))"

definition handleRealmExit :: "nat \<Rightarrow> text_string \<Rightarrow> ClusterMessage \<Rightarrow> SeedServer \<Rightarrow> (seed_out list \<times> SeedServer) option" where
  "handleRealmExit stack realmId msg s =
     (let parent = (case getParentPortId realmId (sd_registry s) of Some p \<Rightarrow> p | None \<Rightarrow> None) in
      map_option (\<lambda>(removed, reg).
        let up = (if names_port parent then (case host_of (the parent) s of Some n \<Rightarrow> [Send n msg] | None \<Rightarrow> []) else []);
          (out, s') = terminate_removed realmId removed (s\<lparr>sd_registry := reg\<rparr>) in (up @ out, s'))
        (registry_exit stack realmId (sd_registry s)))"

fun fail_spawns :: "text_string \<Rightarrow> (text_string \<times> pending_spawn) list \<Rightarrow> SeedServer \<Rightarrow> seed_out list \<times> SeedServer" where
  "fail_spawns nodeId [] s = ([], s)"
| "fail_spawns nodeId ((spawnReqId, pending) # ps) s =
     (if sp_requesterNodeId pending = nodeId then fail_spawns nodeId ps (s\<lparr>sd_pendingSpawns := seed_map_delete spawnReqId (sd_pendingSpawns s)\<rparr>)
      else if sp_targetNodeId pending = nodeId then
        let (out, s') = fail_spawns nodeId ps (s\<lparr>sd_pendingSpawns := seed_map_delete spawnReqId (sd_pendingSpawns s)\<rparr>) in
        (Send (sp_requesterNodeId pending) (SPAWN_ACK spawnReqId [] False
          (Some (text_of ''target node '' @ nodeId @ text_of '' went down before spawn completed''))) # out, s')
      else fail_spawns nodeId ps s)"

fun orphans :: "text_string \<Rightarrow> (text_string \<times> text_string option) list \<Rightarrow> SeedServer \<Rightarrow> seed_out list \<times> SeedServer" where
  "orphans nodeId [] s = ([], s)"
| "orphans nodeId ((p, parent) # ps) s =
     (let s1 = drop_port p s; (out, s') = orphans nodeId ps s1 in
      ((if names_port parent then (case host_of (the parent) s1 of Some n \<Rightarrow> if n \<noteq> nodeId then [Send n (TERMINATE p)] else [] | None \<Rightarrow> []) else [])
       @ out, s'))"

definition handleNodeDown :: "nat \<Rightarrow> text_string \<Rightarrow> SeedServer \<Rightarrow> (seed_out list \<times> SeedServer) option" where
  "handleNodeDown stack nodeId s =
     (let (out, s1) = fail_spawns nodeId (sd_pendingSpawns s) s in
      map_option (\<lambda>(affected, reg). let (out', s2) = orphans nodeId affected (s1\<lparr>sd_registry := reg\<rparr>) in (out @ out', s2))
        (nodeDown stack nodeId (sd_registry s1)))"

fun select_best :: "text_string \<Rightarrow> (text_string \<times> NodeLoad) list \<Rightarrow> text_string option \<Rightarrow> number \<Rightarrow> text_string option" where
  "select_best excludeNodeId [] best bestLoad = best"
| "select_best excludeNodeId ((nId, load) # ps) best bestLoad =
     (if nId = excludeNodeId then select_best excludeNodeId ps best bestLoad
      else if number_less (nl_cpu load) bestLoad then select_best excludeNodeId ps (Some nId) (nl_cpu load)
      else select_best excludeNodeId ps best bestLoad)"

definition infinity :: number where "infinity = 0x7FF0000000000000"

definition selectTarget :: "text_string \<Rightarrow> SeedServer \<Rightarrow> text_string option" where
  "selectTarget excludeNodeId s = select_best excludeNodeId (sd_peers s) None infinity"

definition peer_gone :: "nat \<Rightarrow> text_string \<Rightarrow> SeedServer \<Rightarrow> (seed_out list \<times> SeedServer) option" where
  "peer_gone stack nodeId s = map_option (\<lambda>(out, s'). (BroadcastExcept nodeId (PEER_DOWN nodeId) # out, s'))
     (handleNodeDown stack nodeId (s\<lparr>sd_peers := seed_map_delete nodeId (sd_peers s), sd_lastSeen := seed_map_delete nodeId (sd_lastSeen s)\<rparr>))"

definition on_port_msg :: "nat \<Rightarrow> ClusterMessage \<Rightarrow> text_string \<Rightarrow> nat \<Rightarrow> SeedServer \<Rightarrow> (seed_out list \<times> SeedServer) option" where
  "on_port_msg stack msg fromPort seq s =
     (let (ready, s1) = takeOrderedPortMessages fromPort seq msg s;
        out = concat (map (\<lambda>m. case m of PORT_MSG a toPort b c d \<Rightarrow> (case host_of toPort s1 of Some n \<Rightarrow> [Send n m] | None \<Rightarrow> []) | _ \<Rightarrow> []) ready) in
      case sd_pendingRealmExits s1 fromPort of
        Some (REALM_EXIT realmId lastPortSeq err) \<Rightarrow>
          if routedPortSequence fromPort s1 \<ge> seq_of lastPortSeq
          then map_option (\<lambda>(out', s2). (out @ out', s2)) (handleRealmExit stack realmId (REALM_EXIT realmId lastPortSeq err)
            (s1\<lparr>sd_pendingRealmExits := (sd_pendingRealmExits s1)(fromPort := None)\<rparr>))
          else Some (out, s1)
      | _ \<Rightarrow> Some (out, s1))"

definition seed_handle :: "text_string \<Rightarrow> nat \<Rightarrow> int \<Rightarrow> text_string \<Rightarrow> ClusterMessage \<Rightarrow> SeedServer \<Rightarrow> (seed_out list \<times> SeedServer) option" where
  "seed_handle self stack now src msg s = (case msg of
     HELLO nodeId load \<Rightarrow>
       let s1 = s\<lparr>sd_peers := seed_map_set src load (sd_peers s), sd_lastSeen := seed_map_set src now (sd_lastSeen s)\<rparr> in
       Some ([Send src (WELCOME self (map (\<lambda>(n, l). \<lparr>pi_nodeId = n, pi_load = l\<rparr>) (sd_peers s1))),
         BroadcastExcept src (PEER_UP \<lparr>pi_nodeId = src, pi_load = load\<rparr>)], s1)
   | PEER_DOWN nodeId \<Rightarrow> peer_gone stack src s
   | HEARTBEAT ts \<Rightarrow> Some ([], s\<lparr>sd_lastSeen := seed_map_set src now (sd_lastSeen s)\<rparr>)
   | SPAWN spawnReqId parentPortId config \<Rightarrow> (case selectTarget src s of
       None \<Rightarrow> Some ([Send src (SPAWN_ACK spawnReqId [] False (Some (text_of ''no available worker node'')))], s)
     | Some target \<Rightarrow> Some ([Send target msg], s\<lparr>
         sd_pendingSpawns := seed_map_set spawnReqId \<lparr>sp_requesterNodeId = src, sp_parentPortId = parentPortId, sp_targetNodeId = target\<rparr> (sd_pendingSpawns s),
         sd_portNodes := (sd_portNodes s)(parentPortId \<mapsto> src),
         sd_registry := register parentPortId None src (sd_registry s)\<rparr>))
   | SPAWN_ACK spawnReqId childPortId ok err \<Rightarrow>
       let s1 = s\<lparr>sd_pendingSpawns := seed_map_delete spawnReqId (sd_pendingSpawns s)\<rparr> in
       (case map_of (sd_pendingSpawns s) spawnReqId of
          None \<Rightarrow> Some ([], s1)
        | Some info \<Rightarrow> Some ([Send (sp_requesterNodeId info) msg],
            if ok then s1\<lparr>sd_portNodes := (sd_portNodes s1)(childPortId \<mapsto> src),
              sd_registry := register childPortId (Some (sp_parentPortId info)) src (sd_registry s1)\<rparr>
            else s1))
   | REALM_EXIT realmId lastPortSeq err \<Rightarrow>
       if routedPortSequence realmId s < seq_of lastPortSeq then Some ([], s\<lparr>sd_pendingRealmExits := (sd_pendingRealmExits s)(realmId \<mapsto> msg)\<rparr>)
       else handleRealmExit stack realmId msg s
   | PORT_MSG fromPort toPort payload seq payloadFormat \<Rightarrow> on_port_msg stack msg fromPort (seq_of seq) s
   | _ \<Rightarrow> Some ([], s))"

fun sweep :: "nat \<Rightarrow> int \<Rightarrow> int \<Rightarrow> (text_string \<times> int) list \<Rightarrow> SeedServer \<Rightarrow> (seed_out list \<times> SeedServer) option" where
  "sweep stack timeout now [] s = Some ([], s)"
| "sweep stack timeout now ((nodeId, ts) # ns) s =
     (if now - ts > timeout then
        Option.bind (peer_gone stack nodeId s) (\<lambda>(out, s1). map_option (\<lambda>(out', s2). (out @ out', s2)) (sweep stack timeout now ns s1))
      else sweep stack timeout now ns s)"

definition checkHeartbeats :: "nat \<Rightarrow> int \<Rightarrow> int \<Rightarrow> SeedServer \<Rightarrow> (seed_out list \<times> SeedServer) option" where
  "checkHeartbeats stack timeout now s = sweep stack timeout now (sd_lastSeen s) s"

definition seed_stop :: "SeedServer \<Rightarrow> SeedServer" where
  "seed_stop s = s\<lparr>sd_portSequences := (\<lambda>_. None), sd_pendingRealmExits := (\<lambda>_. None)\<rparr>"

subsection \<open>Ports in order\<close>

lemma map_of_seed_set: "map_of (seed_map_set k v m) k' = (if k' = k then Some v else map_of m k')"
  by (induction k v m rule: seed_map_set.induct) auto

lemma map_of_seed_delete: "map_of (seed_map_delete k m) k' = (if k' = k then None else map_of m k')"
  by (induction m) (auto simp: seed_map_delete_def)

lemma take_ready_spec:
  "take_ready st = (ready, st') \<Longrightarrow> ps_next st \<le> ps_next st' \<and> ready = map (\<lambda>i. the (map_of (ps_pending st) i)) [ps_next st..<ps_next st'] \<and>
    (\<forall>i \<in> {ps_next st..<ps_next st'}. map_of (ps_pending st) i \<noteq> None) \<and> map_of (ps_pending st) (ps_next st') = None \<and>
    (\<forall>i. map_of (ps_pending st') i = (if ps_next st \<le> i \<and> i < ps_next st' then None else map_of (ps_pending st) i))"
proof (induction st arbitrary: ready rule: take_ready.induct)
  case (1 st)
  show ?case
  proof (cases "map_of (ps_pending st) (ps_next st)")
    case None
    with "1.prems" show ?thesis by (auto simp: take_ready.simps [of st])
  next
    case (Some msg)
    let ?st = "\<lparr>ps_next = ps_next st + 1, ps_pending = seed_map_delete (ps_next st) (ps_pending st)\<rparr>"
    obtain ready' where r: "take_ready ?st = (ready', st')" "ready = msg # ready'"
      using "1.prems" Some by (cases "take_ready ?st") (simp add: take_ready.simps [of st])
    note IH = "1.IH" [OF Some r(1)]
    from IH have n: "ps_next st < ps_next st'" by simp
    then have u: "[ps_next st..<ps_next st'] = ps_next st # [ps_next st + 1..<ps_next st']" by (simp add: upt_rec)
    have "ready' = map (\<lambda>i. the (map_of (ps_pending st) i)) [ps_next st + 1..<ps_next st']"
      using IH by (auto simp: map_of_seed_delete intro!: map_cong)
    then have "ready = map (\<lambda>i. the (map_of (ps_pending st) i)) [ps_next st..<ps_next st']" using r(2) Some u by simp
    moreover have "map_of (ps_pending st) i \<noteq> None" if "i \<in> {ps_next st..<ps_next st'}" for i
      using IH Some that by (cases "i = ps_next st") (auto simp: map_of_seed_delete)
    moreover have "map_of (ps_pending st') i = (if ps_next st \<le> i \<and> i < ps_next st' then None else map_of (ps_pending st) i)" for i
      using IH n by (cases "i = ps_next st") (auto simp: map_of_seed_delete)
    moreover have "map_of (ps_pending st) (ps_next st') = None" using IH n by (auto simp: map_of_seed_delete)
    ultimately show ?thesis using n by simp
  qed
qed

text \<open>The messages that arrived at the seed for one source port, by sequence number: the first of each number counts.\<close>

definition in_order :: "(nat \<times> ClusterMessage) list \<Rightarrow> ClusterMessage list \<Rightarrow> PortSequenceState \<Rightarrow> bool" where
  "in_order arrived out st \<longleftrightarrow> 1 \<le> ps_next st \<and> out = map (\<lambda>i. the (map_of arrived i)) [1..<ps_next st] \<and>
     (\<forall>i \<in> {1..<ps_next st}. map_of arrived i \<noteq> None) \<and> map_of arrived (ps_next st) = None \<and>
     (\<forall>i \<ge> 1. map_of (ps_pending st) i = (if i < ps_next st then None else map_of arrived i))"

lemma in_order_step:
  assumes "in_order arrived out st" "take_ordered seq msg st = (ready, st')"
  shows "in_order (arrived @ [(seq, msg)]) (out @ ready) st'"
proof (cases "seq < ps_next st \<or> map_of (ps_pending st) seq \<noteq> None")
  case True
  then have r: "ready = []" "st' = st" using assms(2) by (auto simp: take_ordered_def)
  have m: "map_of (arrived @ [(seq, msg)]) i = map_of arrived i" if "1 \<le> i" for i
    using True assms(1) that by (auto simp: in_order_def map_add_def split: option.splits if_splits)
  have "map (\<lambda>i. the (map_of (arrived @ [(seq, msg)]) i)) [1..<ps_next st] = map (\<lambda>i. the (map_of arrived i)) [1..<ps_next st]"
    using m by (intro map_cong) auto
  with r m assms(1) show ?thesis by (simp add: in_order_def)
next
  case False
  let ?st = "st\<lparr>ps_pending := seed_map_set seq msg (ps_pending st)\<rparr>"
  from False assms(2) have "take_ready ?st = (ready, st')" by (simp add: take_ordered_def)
  note t = take_ready_spec [OF this]
  have m: "map_of (arrived @ [(seq, msg)]) i = (if i = seq then Some msg else map_of arrived i)" if "1 \<le> i" for i
    using False assms(1) that by (auto simp: in_order_def map_add_def split: option.splits)
  have p: "map_of (ps_pending ?st) i = map_of (arrived @ [(seq, msg)]) i" if "ps_next st \<le> i" for i
    using that assms(1) m [of i] by (auto simp: in_order_def map_of_seed_set)
  have "[1..<ps_next st'] = [1..<ps_next st] @ [ps_next st..<ps_next st']" 
    using t assms(1) upt_add_eq_append [of 1 "ps_next st" "ps_next st' - ps_next st"] by (simp add: in_order_def)
  moreover have "map (\<lambda>i. the (map_of (arrived @ [(seq, msg)]) i)) [1..<ps_next st] = out"
    using assms(1) m False by (auto simp: in_order_def intro!: map_cong)
  moreover have "ready = map (\<lambda>i. the (map_of (arrived @ [(seq, msg)]) i)) [ps_next st..<ps_next st']"
    using t p by (auto intro!: map_cong)
  ultimately have out: "out @ ready = map (\<lambda>i. the (map_of (arrived @ [(seq, msg)]) i)) [1..<ps_next st']" by simp
  have seen: "map_of (arrived @ [(seq, msg)]) i \<noteq> None" if "i \<in> {1..<ps_next st'}" for i
  proof (cases "i < ps_next st")
    case True
    with that m [of i] assms(1) show ?thesis by (auto simp: in_order_def)
  next
    case False
    with that t have "map_of (ps_pending ?st) i \<noteq> None" by auto
    with p [of i] False show ?thesis by simp
  qed
  have rest: "map_of (ps_pending st') i = (if i < ps_next st' then None else map_of (arrived @ [(seq, msg)]) i)" if "1 \<le> i" for i
    using that t p [of i] assms(1) False by (cases "i < ps_next st") (auto simp: in_order_def map_of_seed_set)
  have "map_of (arrived @ [(seq, msg)]) (ps_next st') = None" using t p [of "ps_next st'"] by simp
  with out seen rest t assms(1) show ?thesis by (auto simp: in_order_def)
qed

text \<open>Messages of any ports, as they arrive, and what is taken out of them for routing.\<close>

fun take_all :: "(text_string \<times> nat \<times> ClusterMessage) list \<Rightarrow> SeedServer \<Rightarrow> (text_string \<times> ClusterMessage) list \<times> SeedServer" where
  "take_all [] s = ([], s)"
| "take_all ((port, seq, msg) # xs) s =
     (let (ready, s1) = takeOrderedPortMessages port seq msg s; (later, s2) = take_all xs s1 in (map (Pair port) ready @ later, s2))"

definition of_port :: "'p \<Rightarrow> ('p \<times> 'a) list \<Rightarrow> 'a list" where
  "of_port p xs = map snd (filter (\<lambda>(p', x). p' = p) xs)"

lemma of_port_simps [simp]:
  "of_port p [] = []" "of_port p ((p', x) # xs) = (if p' = p then x # of_port p xs else of_port p xs)" "of_port p (xs @ ys) = of_port p xs @ of_port p ys"
  by (auto simp: of_port_def)

lemma of_port_Pair [simp]: "of_port p (map (Pair q) ys) = (if q = p then ys else [])"
  by (induction ys) auto

lemma port_sequence_taken:
  assumes "takeOrderedPortMessages port seq msg s = (ready, s')"
  shows "port_sequence p s' = (if p = port then snd (take_ordered seq msg (port_sequence port s)) else port_sequence p s)"
    "ready = fst (take_ordered seq msg (port_sequence port s))"
  using assms by (auto simp: takeOrderedPortMessages_def port_sequence_def split: prod.splits)

lemma take_all_in_order:
  "take_all xs s = (out, s') \<Longrightarrow> in_order arrived before (port_sequence p s) \<Longrightarrow>
    in_order (arrived @ of_port p xs) (before @ of_port p out) (port_sequence p s')"
proof (induction xs arbitrary: s out arrived before)
  case (Cons x xs)
  obtain port seq msg where x: "x = (port, seq, msg)" by (cases x) auto
  obtain ready s1 where r: "takeOrderedPortMessages port seq msg s = (ready, s1)" by fastforce
  obtain out' where o: "take_all xs s1 = (out', s')" "out = map (Pair port) ready @ out'"
    using Cons.prems(1) r by (auto simp: x split: prod.splits)
  note t = port_sequence_taken(1) [OF r, of p] port_sequence_taken(2) [OF r]
  have "in_order (arrived @ (if port = p then [(seq, msg)] else [])) (before @ (if port = p then ready else [])) (port_sequence p s1)"
    using t Cons.prems(2) in_order_step [of arrived before "port_sequence p s" seq msg] by (auto simp: prod_eq_iff)
  from Cons.IH [OF o(1) this] show ?case by (simp add: x o(2) split: if_splits)
qed simp

text \<open>C17: however the messages of the ports of a cluster overtake each other on their streams, and however often one is repeated,
  the seed takes those of each source port for routing in the order of their sequence numbers, without a gap and each
  once: after any arrivals, exactly the numbers below the first that is missing, and of each the message that arrived
  first. This is of the calls of \<open>takeOrderedPortMessages\<close> from the first message of a port to its exit, which resets the
  sequence.\<close>

theorem ports_in_order:
  assumes "take_all arrivals s = (routed, s')" "sd_portSequences s p = None"
  shows "\<exists>k. of_port p routed = map (\<lambda>i. the (map_of (of_port p arrivals) i)) [1..<Suc k] \<and>
    (\<forall>i \<in> {1..k}. map_of (of_port p arrivals) i \<noteq> None) \<and> map_of (of_port p arrivals) (Suc k) = None \<and> routedPortSequence p s' = k"
proof -
  have "in_order [] [] (port_sequence p s)" using assms(2) by (simp add: in_order_def port_sequence_def)
  from take_all_in_order [OF assms(1) this] have i: "in_order (of_port p arrivals) (of_port p routed) (port_sequence p s')" by simp
  then have "Suc (routedPortSequence p s') = ps_next (port_sequence p s')" by (simp add: in_order_def routedPortSequence_def)
  with i show ?thesis by (intro exI [of _ "routedPortSequence p s'"]) (auto simp: in_order_def simp flip: less_Suc_eq_le)
qed

subsection \<open>Invariant\<close>

definition waiting :: "PortSequenceState \<Rightarrow> bool" where
  "waiting st \<longleftrightarrow> 1 \<le> ps_next st \<and> (\<forall>i. map_of (ps_pending st) i \<noteq> None \<longrightarrow> ps_next st < i)"

fun exit_of :: "text_string \<Rightarrow> ClusterMessage \<Rightarrow> bool" where
  "exit_of p (REALM_EXIT realmId lastPortSeq err) \<longleftrightarrow> realmId = p"
| "exit_of p msg \<longleftrightarrow> False"

fun exit_seq :: "ClusterMessage \<Rightarrow> nat" where
  "exit_seq (REALM_EXIT realmId lastPortSeq err) = seq_of lastPortSeq"
| "exit_seq msg = 0"

text \<open>The exits that are held wait for a message, except those of a set of ports.\<close>

definition exits_held :: "text_string set \<Rightarrow> SeedServer \<Rightarrow> bool" where
  "exits_held A s \<longleftrightarrow> (\<forall>p m. sd_pendingRealmExits s p = Some m \<longrightarrow> exit_of p m \<and> (p \<notin> A \<longrightarrow> routedPortSequence p s < exit_seq m))"

definition seed_inv :: "SeedServer \<Rightarrow> bool" where
  "seed_inv s \<longleftrightarrow> (\<forall>p. waiting (port_sequence p s)) \<and> exits_held {} s"

lemma take_ordered_waiting:
  assumes "waiting st"
  shows "waiting (snd (take_ordered seq msg st))"
proof (cases "seq < ps_next st \<or> map_of (ps_pending st) seq \<noteq> None")
  case True
  with assms show ?thesis by (auto simp: take_ordered_def)
next
  case False
  let ?st = "st\<lparr>ps_pending := seed_map_set seq msg (ps_pending st)\<rparr>"
  obtain ready st' where r: "take_ready ?st = (ready, st')" by fastforce
  note t = take_ready_spec [OF r]
  have "ps_next st' < i" if "map_of (ps_pending st') i \<noteq> None" for i
  proof -
    from that t have "map_of (ps_pending ?st) i \<noteq> None" "\<not> (ps_next st \<le> i \<and> i < ps_next st')" by (auto split: if_splits)
    moreover have "ps_next st \<le> i" using calculation(1) assms False by (auto simp: waiting_def map_of_seed_set split: if_splits)
    moreover have "i \<noteq> ps_next st'" using calculation(1) t by auto
    ultimately show ?thesis by simp
  qed
  then show ?thesis using t assms False r by (auto simp: waiting_def take_ordered_def)
qed

lemma seed_inv_cong:
  assumes "sd_portSequences s' = sd_portSequences s" "sd_pendingRealmExits s' = sd_pendingRealmExits s"
  shows "seed_inv s' \<longleftrightarrow> seed_inv s"
proof -
  have "port_sequence p s' = port_sequence p s" for p using assms(1) by (simp add: port_sequence_def)
  then show ?thesis using assms(2) by (simp add: seed_inv_def exits_held_def routedPortSequence_def)
qed

lemma drop_port_inv: "seed_inv s \<Longrightarrow> seed_inv (drop_port p s)"
  by (auto simp: seed_inv_def exits_held_def drop_port_def port_sequence_def routedPortSequence_def waiting_def)

lemma terminate_removed_inv: "seed_inv s \<Longrightarrow> seed_inv (snd (terminate_removed portId ps s))"
  by (induction portId ps s rule: terminate_removed.induct) (auto simp: drop_port_inv split: prod.splits)

lemma orphans_inv: "seed_inv s \<Longrightarrow> seed_inv (snd (orphans nodeId ps s))"
  by (induction nodeId ps s rule: orphans.induct) (auto simp: Let_def drop_port_inv split: prod.splits)

lemma fail_spawns_inv: "seed_inv s \<Longrightarrow> seed_inv (snd (fail_spawns nodeId ps s))"
proof (induction nodeId ps s rule: fail_spawns.induct)
  case (2 nodeId spawnReqId pending ps s)
  have "seed_inv (s\<lparr>sd_pendingSpawns := seed_map_delete spawnReqId (sd_pendingSpawns s)\<rparr>)" using "2.prems" by (subst seed_inv_cong [of _ s]) simp_all
  with 2 show ?case by (auto split: prod.splits)
qed simp

lemma handleRealmExit_inv: "seed_inv s \<Longrightarrow> handleRealmExit stack realmId msg s = Some (out, s') \<Longrightarrow> seed_inv s'"
proof -
  assume s: "seed_inv s" and h: "handleRealmExit stack realmId msg s = Some (out, s')"
  have "seed_inv (s\<lparr>sd_registry := reg\<rparr>)" for reg using s by (subst seed_inv_cong [of _ s]) simp_all
  then have "seed_inv (snd (terminate_removed realmId ps (s\<lparr>sd_registry := reg\<rparr>)))" for ps reg by (rule terminate_removed_inv)
  moreover from h obtain ps reg where "s' = snd (terminate_removed realmId ps (s\<lparr>sd_registry := reg\<rparr>))"
    by (auto simp: handleRealmExit_def Let_def case_prod_beta)
  ultimately show ?thesis by simp
qed

lemma handleNodeDown_inv: "seed_inv s \<Longrightarrow> handleNodeDown stack nodeId s = Some (out, s') \<Longrightarrow> seed_inv s'"
proof -
  assume s: "seed_inv s" and h: "handleNodeDown stack nodeId s = Some (out, s')"
  obtain out1 s1 where f: "fail_spawns nodeId (sd_pendingSpawns s) s = (out1, s1)" by fastforce
  with fail_spawns_inv [OF s] have s1: "seed_inv s1" by (metis snd_conv)
  have "seed_inv (s1\<lparr>sd_registry := reg\<rparr>)" for reg using s1 by (subst seed_inv_cong [of _ s1]) simp_all
  then have "seed_inv (snd (orphans nodeId ps (s1\<lparr>sd_registry := reg\<rparr>)))" for ps reg by (rule orphans_inv)
  moreover from h f obtain ps reg where "s' = snd (orphans nodeId ps (s1\<lparr>sd_registry := reg\<rparr>))"
    by (auto simp: handleNodeDown_def Let_def case_prod_beta)
  ultimately show ?thesis by simp
qed

lemma peer_gone_inv: "seed_inv s \<Longrightarrow> peer_gone stack nodeId s = Some (out, s') \<Longrightarrow> seed_inv s'"
proof -
  assume s: "seed_inv s" and h: "peer_gone stack nodeId s = Some (out, s')"
  have "seed_inv (s\<lparr>sd_peers := seed_map_delete nodeId (sd_peers s), sd_lastSeen := seed_map_delete nodeId (sd_lastSeen s)\<rparr>)"
    using s by (subst seed_inv_cong [of _ s]) simp_all
  with h show ?thesis by (auto simp: peer_gone_def dest: handleNodeDown_inv)
qed

lemma sweep_inv: "seed_inv s \<Longrightarrow> sweep stack timeout now ns s = Some (out, s') \<Longrightarrow> seed_inv s'"
proof (induction stack timeout now ns s arbitrary: out rule: sweep.induct)
  case (2 stack timeout now nodeId ts ns s)
  then show ?case by (auto simp: bind_eq_Some_conv dest: peer_gone_inv split: if_splits)
qed simp

lemma exits_held_all: "exits_held {q} s \<Longrightarrow> (\<And>m. sd_pendingRealmExits s q = Some m \<Longrightarrow> routedPortSequence q s < exit_seq m) \<Longrightarrow> exits_held {} s"
  unfolding exits_held_def by (metis singletonD)

lemma on_port_msg_inv:
  assumes s: "seed_inv s" and h: "on_port_msg stack msg fromPort seq s = Some (out, s')"
  shows "seed_inv s'"
proof -
  obtain ready s1 where r: "takeOrderedPortMessages fromPort seq msg s = (ready, s1)" by fastforce
  have e: "sd_pendingRealmExits s1 = sd_pendingRealmExits s" using r by (auto simp: takeOrderedPortMessages_def split: prod.splits)
  have w: "waiting (port_sequence p s1)" for p
    using port_sequence_taken(1) [OF r, of p] s take_ordered_waiting by (auto simp: seed_inv_def)
  have x: "exits_held {fromPort} s1"
    using s port_sequence_taken(1) [OF r] by (auto simp: seed_inv_def exits_held_def e routedPortSequence_def)
  show ?thesis
  proof (cases "sd_pendingRealmExits s1 fromPort")
    case None
    with x have "exits_held {} s1" by (intro exits_held_all) auto
    with w None h r show ?thesis by (auto simp: on_port_msg_def seed_inv_def)
  next
    case (Some m)
    with x have "exit_of fromPort m" by (auto simp: exits_held_def)
    then obtain n err where m: "m = REALM_EXIT fromPort n err" by (cases m) auto
    show ?thesis
    proof (cases "routedPortSequence fromPort s1 \<ge> seq_of n")
      case True
      let ?s = "s1\<lparr>sd_pendingRealmExits := (sd_pendingRealmExits s1)(fromPort := None)\<rparr>"
      have "port_sequence p ?s = port_sequence p s1" for p by (simp add: port_sequence_def)
      then have "seed_inv ?s" using w x by (auto simp: seed_inv_def exits_held_def routedPortSequence_def)
      with True Some m h r show ?thesis by (auto simp: on_port_msg_def dest: handleRealmExit_inv)
    next
      case False
      with x Some m have "exits_held {} s1" by (intro exits_held_all) auto
      with w False Some m h r show ?thesis by (auto simp: on_port_msg_def seed_inv_def)
    qed
  qed
qed

lemma seed_handle_inv:
  assumes s: "seed_inv s" and h: "seed_handle self stack now src msg s = Some (out, s')"
  shows "seed_inv s'"
proof (cases msg)
  case (REALM_EXIT realmId n err)
  show ?thesis
  proof (cases "routedPortSequence realmId s < seq_of n")
    case True
    have "port_sequence p (s\<lparr>sd_pendingRealmExits := (sd_pendingRealmExits s)(realmId \<mapsto> msg)\<rparr>) = port_sequence p s" for p by (simp add: port_sequence_def)
    with True h REALM_EXIT s show ?thesis by (auto simp: seed_handle_def seed_inv_def exits_held_def routedPortSequence_def split: if_splits)
  next
    case False
    with h REALM_EXIT s show ?thesis by (auto simp: seed_handle_def dest: handleRealmExit_inv)
  qed
next
  case (PORT_MSG a b c d e)
  with h s show ?thesis by (auto simp: seed_handle_def dest: on_port_msg_inv)
next
  case (PEER_DOWN n)
  with h s show ?thesis by (auto simp: seed_handle_def dest: peer_gone_inv)
qed (use h s in \<open>auto simp: seed_handle_def Let_def split: option.splits if_splits intro: seed_inv_cong [THEN iffD2, rotated 2]\<close>)

inductive seed_step :: "SeedServer \<Rightarrow> SeedServer \<Rightarrow> bool" where
  handled: "seed_handle self stack now src msg s = Some (out, s') \<Longrightarrow> seed_step s s'"
| swept: "checkHeartbeats stack timeout now s = Some (out, s') \<Longrightarrow> seed_step s s'"
| stopped: "seed_step s (seed_stop s)"

interpretation seed: event_system "\<lambda>s. s = new_seed" seed_step seed_inv
proof
  show "seed_inv s" if "s = new_seed" for s
    using that by (simp add: seed_inv_def exits_held_def new_seed_def port_sequence_def waiting_def)
  show "seed_inv t" if "seed_inv s" "seed_step s t" for s t
    using that(2,1)
  proof (induction rule: seed_step.induct)
    case (stopped s)
    then show ?case by (simp add: seed_inv_def exits_held_def seed_stop_def port_sequence_def waiting_def)
  qed (auto simp: checkHeartbeats_def dest: seed_handle_inv sweep_inv)
qed

text \<open>C18: in every state the seed can reach, nothing is held back that could go on: the messages that wait for their port are all
  behind a missing one, and a realm exit that is held is behind a message of its realm that has not been routed yet.\<close>

theorem seed_holds_nothing_ready:
  assumes "reachable (\<lambda>s. s = new_seed) seed_step s"
  shows "(\<forall>p i. map_of (ps_pending (port_sequence p s)) i \<noteq> None \<longrightarrow> ps_next (port_sequence p s) < i) \<and>
    (\<forall>p m. sd_pendingRealmExits s p = Some m \<longrightarrow> (\<exists>lastPortSeq err. m = REALM_EXIT p lastPortSeq err \<and> routedPortSequence p s < seq_of lastPortSeq))"
proof -
  have i: "seed_inv s" by (rule seed.inv_reachable [OF assms])
  have "\<exists>lastPortSeq err. m = REALM_EXIT p lastPortSeq err \<and> routedPortSequence p s < seq_of lastPortSeq" if "sd_pendingRealmExits s p = Some m" for p m
    using i that by (cases m) (force simp: seed_inv_def exits_held_def)+
  with i show ?thesis by (auto simp: seed_inv_def waiting_def)
qed

subsection \<open>The end of a realm\<close>

definition drop_ports :: "text_string set \<Rightarrow> SeedServer \<Rightarrow> SeedServer" where
  "drop_ports A s = s\<lparr>sd_portNodes := (\<lambda>p. if p \<in> A then None else sd_portNodes s p),
     sd_portSequences := (\<lambda>p. if p \<in> A then None else sd_portSequences s p),
     sd_pendingRealmExits := (\<lambda>p. if p \<in> A then None else sd_pendingRealmExits s p)\<rparr>"

lemma drop_ports_drop_port: "drop_ports A (drop_port p s) = drop_ports (insert p A) s"
  by (auto simp: drop_ports_def drop_port_def fun_eq_iff intro!: SeedServer.equality)

definition terminate_to :: "text_string \<Rightarrow> SeedServer \<Rightarrow> seed_out list" where
  "terminate_to p s = (case host_of p s of Some n \<Rightarrow> [Send n (TERMINATE p)] | None \<Rightarrow> [])"

lemma terminate_removed_spec:
  "distinct ps \<Longrightarrow> terminate_removed portId ps s = (concat (map (\<lambda>p. if p = portId then [] else terminate_to p s) ps), drop_ports (set ps) s)"
proof (induction ps arbitrary: s)
  case Nil
  show ?case by (auto simp: drop_ports_def intro!: SeedServer.equality)
next
  case (Cons p ps)
  have "terminate_to q (drop_port p s) = terminate_to q s" if "q \<in> set ps" for q
    using that Cons.prems by (auto simp: terminate_to_def host_of_def drop_port_def)
  then have "map (\<lambda>q. if q = portId then [] else terminate_to q (drop_port p s)) ps = map (\<lambda>q. if q = portId then [] else terminate_to q s) ps"
    by (intro map_cong) auto
  with Cons.IH [of "drop_port p s"] Cons.prems show ?case
    by (auto simp: drop_ports_drop_port terminate_to_def split: option.splits)
qed

text \<open>The registry of the seed keeps the nesting of ports in every state, although a nested spawn breaks the agreement of parents and
  children.\<close>

lemma terminate_removed_registry: "sd_registry (snd (terminate_removed portId ps s)) = sd_registry s"
  by (induction ps arbitrary: s) (auto simp: drop_port_def case_prod_beta Let_def)

lemma orphans_registry: "sd_registry (snd (orphans nodeId ps s)) = sd_registry s"
  by (induction nodeId ps s rule: orphans.induct) (auto simp: drop_port_def case_prod_beta Let_def)

lemma fail_spawns_registry: "sd_registry (snd (fail_spawns nodeId ps s)) = sd_registry s"
  by (induction nodeId ps s rule: fail_spawns.induct) (auto simp: case_prod_beta Let_def)

lemmas registry_kept = terminate_removed_registry orphans_registry fail_spawns_registry

lemma handleRealmExit_nested: "ports_nested (sd_registry s) \<Longrightarrow> handleRealmExit stack realmId msg s = Some (out, s') \<Longrightarrow> ports_nested (sd_registry s')"
  using registry_kept(1) by (auto simp: handleRealmExit_def Let_def case_prod_beta dest: registry_exit_nested)

lemma peer_gone_nested: "ports_nested (sd_registry s) \<Longrightarrow> peer_gone stack nodeId s = Some (out, s') \<Longrightarrow> ports_nested (sd_registry s')"
  using registry_kept(2,3) by (auto simp: peer_gone_def handleNodeDown_def Let_def case_prod_beta dest: nodeDown_nested)

lemma sweep_nested: "ports_nested (sd_registry s) \<Longrightarrow> sweep stack timeout now ns s = Some (out, s') \<Longrightarrow> ports_nested (sd_registry s')"
proof (induction stack timeout now ns s arbitrary: out rule: sweep.induct)
  case (2 stack timeout now nodeId ts ns s)
  then show ?case by (auto simp: bind_eq_Some_conv dest: peer_gone_nested split: if_splits)
qed simp

lemma on_port_msg_nested: "ports_nested (sd_registry s) \<Longrightarrow> on_port_msg stack msg fromPort seq s = Some (out, s') \<Longrightarrow> ports_nested (sd_registry s')"
  by (auto simp: on_port_msg_def takeOrderedPortMessages_def Let_def dest!: handleRealmExit_nested [rotated]
      split: prod.splits option.splits ClusterMessage.splits if_splits)

lemma seed_handle_nested: "ports_nested (sd_registry s) \<Longrightarrow> seed_handle self stack now src msg s = Some (out, s') \<Longrightarrow> ports_nested (sd_registry s')"
  by (cases msg) (auto simp: seed_handle_def Let_def register_nested dest: handleRealmExit_nested on_port_msg_nested peer_gone_nested
      split: option.splits if_splits)

interpretation seed_ports: event_system "\<lambda>s. s = new_seed" seed_step "\<lambda>s. ports_nested (sd_registry s)"
proof
  show "ports_nested (sd_registry s)" if "s = new_seed" for s using that by (simp add: new_seed_def new_registry_nested)
  show "ports_nested (sd_registry t)" if "ports_nested (sd_registry s)" "seed_step s t" for s t
    using that(2,1) by (induction rule: seed_step.induct) (auto simp: checkHeartbeats_def seed_stop_def dest: seed_handle_nested sweep_nested)
qed


subsection \<open>Choosing a node\<close>

text \<open>The spawn goes to a peer of the least load, other than the requester.\<close>

lemma select_best_least:
  assumes "\<forall>(m, l) \<in> set ps. \<not> is_nan (nl_cpu l)" "\<not> is_nan bound"
  shows "\<exists>least. number_rank least \<le> number_rank bound \<and> (\<forall>(m, l) \<in> set ps. m \<noteq> src \<longrightarrow> number_rank least \<le> number_rank (nl_cpu l)) \<and>
    (select_best src ps best bound = best \<and> least = bound \<or>
      (\<exists>m l. select_best src ps best bound = Some m \<and> (m, l) \<in> set ps \<and> m \<noteq> src \<and> least = nl_cpu l))"
  using assms
proof (induction src ps best bound rule: select_best.induct)
  case (2 src n l ps best bound)
  show ?case
  proof (cases "n \<noteq> src \<and> number_less (nl_cpu l) bound")
    case True
    with "2.IH"(2) "2.prems" obtain least where h: "number_rank least \<le> number_rank (nl_cpu l)"
        "\<forall>(m, l) \<in> set ps. m \<noteq> src \<longrightarrow> number_rank least \<le> number_rank (nl_cpu l)"
        "select_best src ps (Some n) (nl_cpu l) = Some n \<and> least = nl_cpu l \<or>
          (\<exists>m k. select_best src ps (Some n) (nl_cpu l) = Some m \<and> (m, k) \<in> set ps \<and> m \<noteq> src \<and> least = nl_cpu k)" by auto
    have "number_rank (nl_cpu l) < number_rank bound" using True by (simp add: number_less_def)
    with h True show ?thesis by (intro exI [of _ least]) auto
  next
    case False
    then have s: "select_best src ((n, l) # ps) best bound = select_best src ps best bound" by auto
    from False "2.IH"(1,3) "2.prems" obtain least where h: "number_rank least \<le> number_rank bound"
        "\<forall>(m, l) \<in> set ps. m \<noteq> src \<longrightarrow> number_rank least \<le> number_rank (nl_cpu l)"
        "select_best src ps best bound = best \<and> least = bound \<or>
          (\<exists>m k. select_best src ps best bound = Some m \<and> (m, k) \<in> set ps \<and> m \<noteq> src \<and> least = nl_cpu k)" by (cases "n = src") auto
    have "number_rank bound \<le> number_rank (nl_cpu l)" if "n \<noteq> src" using False that "2.prems" by (auto simp: number_less_def)
    with h show ?thesis unfolding s by (intro exI [of _ least]) auto
  qed
qed auto

lemma select_target_least:
  assumes "selectTarget src s = Some m" "\<forall>(m, l) \<in> set (sd_peers s). is_finite (nl_cpu l)"
  shows "\<exists>l. (m, l) \<in> set (sd_peers s) \<and> m \<noteq> src \<and> (\<forall>(m', l') \<in> set (sd_peers s). m' \<noteq> src \<longrightarrow> number_rank (nl_cpu l) \<le> number_rank (nl_cpu l'))"
proof -
  have "\<forall>(m, l) \<in> set (sd_peers s). \<not> is_nan (nl_cpu l)" using assms(2) by (auto simp: is_finite_def is_nan_def)
  moreover have "\<not> is_nan infinity" by (simp add: is_nan_def infinity_def f64_fraction_def)
  ultimately show ?thesis using select_best_least [of "sd_peers s" infinity src None] assms(1) by (auto simp: selectTarget_def)
qed

subsection \<open>Divergences\<close>

text \<open>A node that acknowledges a spawn with the port of the parent as the port of the child makes that port its own child; its exit
  then exhausts the call stack of the seed, however deep it is.\<close>

lemma cyclic_ack_overflows:
  assumes "map_of (sd_pendingSpawns s) r = Some info" "sp_parentPortId info = p" "p \<noteq> []"
    and "seed_handle self n now src (SPAWN_ACK r p True err) s = Some (out, s')"
  shows "handleRealmExit stack p msg s' = None"
proof -
  have reg: "sd_registry s' = register p (Some p) src (sd_registry s)" using assms by (auto simp: seed_handle_def)
  have e: "rg_ports (sd_registry s') p = Some \<lparr>pe_portId = p, pe_parent = Some p, pe_node = src, pe_children = [p]\<rparr>"
    using assms(3) by (simp add: reg register_def change_children_def names_port_def set_add_def Let_def)
  have "removeRecursive (report :: _ \<Rightarrow> _ \<Rightarrow> text_string) stack p (sd_registry s', acc) = None" for report acc
    by (induction stack) (simp_all add: e)
  then show ?thesis by (simp add: handleRealmExit_def registry_exit_def)
qed

subsection \<open>Samples\<close>

definition late_message :: "int \<Rightarrow> ClusterMessage" where
  "late_message n = PORT_MSG [97] [98] [] (number_of_int n) None"

definition late_arrivals :: "(text_string \<times> nat \<times> ClusterMessage) list" where
  "late_arrivals = [([97], 2, late_message 2), ([97], 1, late_message 1)]"

theorem ports_in_order_witness:
  "of_port [97] (fst (take_all late_arrivals new_seed)) = [late_message 1, late_message 2]"
proof -
  have "sd_portSequences new_seed [97] = None" by (simp add: new_seed_def)
  from ports_in_order [of late_arrivals, OF surjective_pairing this] obtain k where
    k: "of_port [97] (fst (take_all late_arrivals new_seed)) = map (\<lambda>i. the (map_of (of_port [97] late_arrivals) i)) [1..<Suc k]"
      "\<forall>i \<in> {1..k}. map_of (of_port [97] late_arrivals) i \<noteq> None" "map_of (of_port [97] late_arrivals) (Suc k) = None" by blast
  have m: "map_of (of_port [97] late_arrivals) i = (if i = 2 then Some (late_message 2) else if i = 1 then Some (late_message 1) else None)" for i
    by (simp add: late_arrivals_def)
  have "k \<le> 2"
  proof (rule ccontr)
    assume "\<not> k \<le> 2"
    with k(2) have "map_of (of_port [97] late_arrivals) 3 \<noteq> None" by simp
    then show False by (simp add: m)
  qed
  moreover have "k \<noteq> 0" "k \<noteq> 1" using k(3) by (auto simp: m numeral_2_eq_2 split: if_splits)
  ultimately have "k = 2" by simp
  with k(1) show ?thesis by (simp add: m upt_rec)
qed

definition late_seed :: SeedServer where
  "late_seed = new_seed\<lparr>sd_portSequences := [[97] \<mapsto> \<lparr>ps_next = 1, ps_pending = [(2, late_message 2)]\<rparr>]\<rparr>"

lemma late_seed_reachable: "reachable (\<lambda>s. s = new_seed) seed_step late_seed"
proof (rule reachable_step [OF reachable_init])
  have "seq_of (number_of_int 2) = 2" by (simp add: seq_of_def integer_of_number)
  then have "seed_handle [] 0 0 [] (late_message 2) new_seed = Some ([], late_seed)"
    by (simp add: seed_handle_def late_message_def on_port_msg_def takeOrderedPortMessages_def take_ordered_def take_ready.simps
        port_sequence_def new_seed_def late_seed_def)
  then show "seed_step new_seed late_seed" by (rule handled)
qed simp

theorem seed_holds_nothing_ready_witness:
  "map_of (ps_pending (port_sequence [97] late_seed)) 2 \<noteq> None \<and> ps_next (port_sequence [97] late_seed) < 2"
proof -
  have "map_of (ps_pending (port_sequence [97] late_seed)) 2 \<noteq> None" by (simp add: late_seed_def port_sequence_def)
  with seed_holds_nothing_ready [OF late_seed_reachable] show ?thesis by blast
qed

text \<open>A realm \<open>B\<close> that \<open>A\<close> has spawned spawns \<open>C\<close>.\<close>

fun seed_run :: "(text_string \<times> ClusterMessage) list \<Rightarrow> SeedServer \<Rightarrow> SeedServer option" where
  "seed_run [] s = Some s"
| "seed_run ((src, msg) # ms) s = Option.bind (seed_handle [] 9 0 src msg s) (\<lambda>(out, s'). seed_run ms s')"

lemma seed_run_reachable:
  "seed_run ms s = Some s' \<Longrightarrow> reachable (\<lambda>s. s = new_seed) seed_step s \<Longrightarrow> reachable (\<lambda>s. s = new_seed) seed_step s'"
proof (induction ms s rule: seed_run.induct)
  case (2 src msg ms s)
  then obtain out t where t: "seed_handle [] 9 0 src msg s = Some (out, t)" "seed_run ms t = Some s'" by (auto simp: bind_eq_Some_conv)
  have "reachable (\<lambda>s. s = new_seed) seed_step t" by (rule reachable_step [OF "2.prems"(2) handled [OF t(1)]])
  then show ?case by (rule "2.IH" [OF t(1) refl t(2)])
qed simp

definition idle :: NodeLoad where
  "idle = \<lparr>nl_cpu = 0, nl_memory = 0\<rparr>"

definition spawn_config :: SerializedSpawnConfig where
  "spawn_config = \<lparr>sp_entry = [97], sp_root = [], sp_rules = [], sp_bootstrapData = None\<rparr>"

definition nested_spawn :: "(text_string \<times> ClusterMessage) list" where
  "nested_spawn = [([1], HELLO [1] idle), ([2], HELLO [2] idle), ([1], SPAWN [11] [65] spawn_config), ([2], SPAWN_ACK [11] [66] True None),
    ([2], SPAWN [12] [66] spawn_config), ([3], SPAWN_ACK [12] [67] True None)]"

definition nested_registry :: RealmRegistry where
  "nested_registry = register [67] (Some [66]) [3] (register [66] None [2] (register [66] (Some [65]) [2] (register [65] None [1] new_registry)))"

definition nested_seed :: SeedServer where
  "nested_seed = new_seed\<lparr>sd_registry := nested_registry, sd_peers := [([1], idle), ([2], idle)], sd_lastSeen := [([1], 0), ([2], 0)],
     sd_portNodes := [[65] \<mapsto> [1], [66] \<mapsto> [2], [67] \<mapsto> [3]]\<rparr>"

lemma nested_seed_reachable: "reachable (\<lambda>s. s = new_seed) seed_step nested_seed"
proof (rule seed_run_reachable)
  have "number_less 0 infinity" by (simp add: number_less_def infinity_def is_nan_def number_rank_def f64_exponent_def f64_fraction_def f64_sign_def)
  then show "seed_run nested_spawn new_seed = Some nested_seed"
    by (simp add: nested_spawn_def seed_handle_def selectTarget_def idle_def new_seed_def nested_seed_def nested_registry_def seed_map_delete_def fun_upd_twist)
qed (simp add: reachable_init)

lemma nested_ports:
  "rg_ports nested_registry [65] = Some \<lparr>pe_portId = [65], pe_parent = None, pe_node = [1], pe_children = [[66]]\<rparr>"
  "rg_ports nested_registry [66] = Some \<lparr>pe_portId = [66], pe_parent = None, pe_node = [2], pe_children = [[67]]\<rparr>"
  "rg_ports nested_registry [67] = Some \<lparr>pe_portId = [67], pe_parent = Some [66], pe_node = [3], pe_children = []\<rparr>"
  "dom (rg_ports nested_registry) = {[65], [66], [67]}"
  by (auto simp: nested_registry_def new_registry_def register_def change_children_def names_port_def set_add_def Let_def split: if_splits)

lemma nested_edges: "child_edge nested_registry = {([65], [66]), ([66], [67])}"
proof -
  have "p \<in> {[65], [66], [67]}" if "rg_ports nested_registry p = Some e" for p e using that nested_ports(4) by blast
  then show ?thesis by (fastforce simp: child_edge_def nested_ports)
qed

lemma nested_owned: "owned nested_registry [66] = {[66], [67]}"
proof -
  have "x \<in> {[66], [67]}" if "([66], x) \<in> (child_edge nested_registry)\<^sup>*" for x
    using that by (induction rule: rtrancl_induct) (auto simp: nested_edges)
  then show ?thesis by (auto simp: owned_def nested_edges)
qed


text \<open>A realm that spawns is registered anew without its parent and its children: the parent hears nothing of its exit, and the realm
  that it spawned before is not terminated.\<close>

lemma spawn_forgets_family:
  assumes "seed_handle self stack now src (SPAWN r p config) s = Some (out, s')" "selectTarget src s = Some target"
    and "seq_of lastPortSeq \<le> routedPortSequence p s'"
  shows "map_option fst (seed_handle self (Suc n) now src' (REALM_EXIT p lastPortSeq err) s') = Some []"
proof -
  have "sd_registry s' = register p None src (sd_registry s)" using assms(1,2) by (auto simp: seed_handle_def)
  then have "rg_ports (sd_registry s') p = Some \<lparr>pe_portId = p, pe_parent = None, pe_node = src, pe_children = []\<rparr>"
    by (simp add: register_def change_children_def names_port_def Let_def)
  then show ?thesis using assms(3) by (auto simp: seed_handle_def handleRealmExit_def getParentPortId_def names_port_def registry_exit_def split: option.splits)
qed

end
