(* ===== verification/Spec2Isabelle.thy ===== *)
theory Spec2Isabelle
  imports Parquet_Roundtrip Thrift_Binary Virtual_Timers Task_Channel Keyed_Executor Cron Protobuf_Roundtrip Scanner Cluster_Seed
begin

text \<open>
  A verification development for fino, a JavaScript runtime whose standard library is written in TypeScript under
  \<open>src/js\<close>. It models the data formats of that library from the bytes up, ending in whole Parquet files and Arrow
  tables, the protocol buffers and the wire protocol of its clusters, and the scheduling primitives the runtime is built
  on. All paths below are relative to \<open>src/js\<close>.

  \<^bold>\<open>Conventions.\<close> A \<open>Uint8Array\<close> is a list of 8-bit words, a string a list of 16-bit code units, a double or float its
  bit pattern, a \<open>number\<close> that the code uses as an integer and a \<open>bigint\<close> are \<open>int\<close> or \<open>nat\<close>, with the wrap-around of the
  typed arrays, shifts and \<open>BigInt.asIntN\<close> written out where it happens. A thrown exception is \<open>Inl\<close> of a \<open>js_error\<close>, so that
  every operation returns \<open>js_error + 'a\<close>, sequenced by \<open>bindR\<close> and \<open>mapR\<close> of \<open>Fino_Prelude\<close>. Objects that change are records
  passed from call to call. Arguments of the model that the code cannot hold are the error \<open>outside_model\<close>; no theorem
  concludes anything from it.

  \<^bold>\<open>Parts and theories.\<close>
  \<^item> \<open>Fino_Prelude\<close>, \<open>Bit_Stream\<close>, \<open>Event_System\<close>: the result type, lists and words; bit streams as numbers in two
    bases; the locale \<open>event_system\<close> of components that react to events, with its invariant rule.
  \<^item> \<open>Utf8\<close>: \<open>internal/encoding.ts\<close>. Every string is decoded from its encoding in well-formed form, fatal decoding
    accepts exactly the canonical encodings, and the scratch buffer is large enough.
  \<^item> \<open>Thrift_Types\<close>, \<open>Thrift_Io\<close>: \<open>internal/format/thrift/types.ts\<close> and \<open>io.ts\<close>, the type codes and the byte cursor and
    buffer. The locale \<open>byte_codec\<close> states what a writer and a reader of one value owe each other; the integers, doubles,
    varints and zigzags interpret it.
  \<^item> \<open>Thrift_Protocol\<close>: \<open>protocol.ts\<close> and \<open>value.ts\<close>, the \<open>Protocol\<close> interface as a record of its methods and \<open>readValue\<close>,
    \<open>writeValue\<close> and \<open>skip\<close> over it. The locales \<open>thrift_reader\<close>, \<open>thrift_reader_progress\<close> and \<open>thrift_protocol\<close> are the
    contract of a protocol, under which the round trip, termination and the agreement of \<open>skip\<close> with \<open>readValue\<close> are proved
    once. \<open>Thrift_Compact\<close> and \<open>Thrift_Binary\<close> are \<open>compact.ts\<close> and \<open>binary.ts\<close> with the interpretations.
  \<^item> \<open>Thrift_Struct\<close>, \<open>Parquet_Metadata\<close>: \<open>data/parquet/metadata.ts\<close>. Generic field loops over the protocol contract,
    then every struct of the file footer and of the page headers; footers are read back, also with unknown fields.
  \<^item> \<open>Parquet_Levels\<close>, \<open>Parquet_Delta\<close>, \<open>Parquet_Plain\<close>, \<open>Parquet_Convert\<close>: \<open>levels.ts\<close>, \<open>delta.ts\<close>, \<open>encoding.ts\<close> and
    \<open>convert.ts\<close>, the encodings of levels and values, each with its round trip on the inputs where it holds and the
    inputs where it does not.
  \<^item> \<open>Parquet_Values\<close>, \<open>Parquet_Columns\<close>: page compression (\<open>compression.ts\<close>), the value section of a page, \<open>writeLeafChunk\<close>
    of \<open>writer.ts\<close>, \<open>readColumnPages\<close> of \<open>column-reader.ts\<close> and \<open>readLeafStream\<close> of \<open>reader.ts\<close>. A leaf stream written as a
    column chunk is read back.
  \<^item> \<open>Arrow_Types\<close>, \<open>Arrow_Vector\<close>, \<open>Arrow_Table\<close>: \<open>data/arrow/type.ts\<close>, \<open>schema.ts\<close>, \<open>vector.ts\<close>, \<open>batch.ts\<close> and \<open>table.ts\<close>.
    A vector class of the code is the type tag of one record of buffers, and \<open>getValue\<close> the method of every class. Built
    vectors read back as their values, slices as sublists, run ends are found, and the cursor of a chunked column is
    invisible.
  \<^item> \<open>Parquet_Types\<close>, \<open>Parquet_Schema\<close>, \<open>Parquet_Nested\<close>: the type mapping of \<open>data/parquet/schema.ts\<close>, the schema tree and its
    footer elements and the shredding and assembly of rows of \<open>nested.ts\<close>.
  \<^item> \<open>Parquet_File\<close>, \<open>Parquet_Assembly\<close>, \<open>Parquet_Roundtrip\<close>: \<open>writeParquet\<close>, \<open>parseFile\<close> and \<open>readParquet\<close> as the code composes
    them from all of the above, the way of one column through them, and the theorems on whole files: what is written is
    read back as one batch with the same rows, a projection selects columns, and damaged files and wrong options are
    rejected.
  \<^item> \<open>Virtual_Timers\<close>, \<open>Task_Channel\<close>, \<open>Serial_Executor\<close>, \<open>Keyed_Executor\<close>: \<open>internal/runtime/virtual-timers.ts\<close>,
    \<open>internal/concurrent-task-channel.ts\<close> and \<open>internal/serial-executor.ts\<close>. Each is a state record with one definition
    per method or microtask and an inductive step relation in which the environment chooses what happens next; the
    interpretations of \<open>event_system\<close> give the invariants, and order, exclusion and progress follow from them.
  \<^item> \<open>Js_Text\<close>, \<open>Js_Number\<close>, \<open>Js_Date\<close>: what the modules below use of strings, of numbers as IEEE-754 bit patterns, and of
    UTC dates.
  \<^item> \<open>Cron\<close>: \<open>internal/jobs/cron.ts\<close>. A printed schedule is parsed back, and \<open>nextOccurrence\<close> finds the least occurrence
    after a time or throws when there is none within its five years.
  \<^item> \<open>Protobuf\<close>, \<open>Protobuf_Scalars\<close>, \<open>Protobuf_Roundtrip\<close>: \<open>format/protobuf.ts\<close>, schemas, encoder and decoder over JavaScript
    values. Every accepted object is decoded in canonical form, also by another version of its schema, and decoding
    ends on every input.
  \<^item> \<open>Scanner\<close>: \<open>parsing/scanner.ts\<close>. On UTF-8 the text operations are those of a cursor between code points, by the
    locale \<open>cursor_refinement\<close>; header blocks are read back.
  \<^item> \<open>Cluster_Framing\<close>: \<open>internal/cluster/webtransport-framing.ts\<close>. Frames survive any chunking of a stream, stream
    metadata is read back, and the key of a port pair identifies the unordered pair.
  \<^item> \<open>Cluster_Protocol\<close>, \<open>Cluster_Roundtrip\<close>: \<open>internal/cluster/protocol.ts\<close>, the messages of a cluster, their checks and their
    codec on top of \<open>Protobuf\<close> and \<open>Scanner\<close>. The identifiers accepted are described without the scanner, and every message
    that is accepted is decoded to the same message.
  \<^item> \<open>Cluster_Registry\<close>, \<open>Cluster_Seed\<close>: \<open>internal/cluster/registry.ts\<close> and \<open>seed.ts\<close>, the ownership tree of the ports and the seed that
    routes between nodes, a state record with one definition per handler that returns what it sends. The messages of a
    port are routed in order and once, nothing that is ready is held back (an interpretation of \<open>event_system\<close>), and the end
    of a realm terminates exactly what it owned.

  \<^bold>\<open>Fuel.\<close> The readers of recursive formats take a fuel, and running out is an error of its own. On the compact protocol
  any input of \<open>n\<close> bytes is read or rejected within \<open>4 * n + 2\<close>, on the binary protocol within \<open>2 * n + 2\<close>; a written value
  needs \<open>value_fuel\<close>, a written footer 16. Parsing a schema takes its number of elements, a written chunk has at most two
  pages, assembling a stream takes at most its levels. \<open>readParquet\<close> hands one fuel to all of them; for a written file
  sixteen more than its schema elements and levels together is enough, which \<open>file_roundtrip\<close> states as a bound \<open>N\<close>. The
  recursions of the registry take the depth of the call stack, for which the number of registered ports is enough.

  \<^bold>\<open>Parameters.\<close> The codecs behind \<open>fino:compress\<close> are native. \<open>compressPage\<close> and \<open>decompressPage\<close> take them as a pair of
  functions, and the theorems that need it assume that decompression inverts compression.

  \<^bold>\<open>Not modelled.\<close> \<open>inferType\<close> of \<open>vector.ts\<close> and \<open>RecordBatch.from\<close> on plain arrays; \<open>inspectParquet\<close>, which reports
  statistics that \<open>writeParquet\<close> does not write; the Thrift JSON protocol, which prints and parses decimal doubles; Arrow
  IPC and the C data interface, which move buffers through FlatBuffers and native memory; the cluster client and its
  transports, which are promises, isolates and QUIC sessions around the parts that are modelled. The QUIC, HTTP and TLS stacks,
  databases, files, processes and the terminal are bindings to native libraries and I/O; the command line, documentation
  generator and user interface render text.
\<close>

subsection \<open>Transcoding between protocols\<close>

text \<open>C37: transcoding. A value that both protocols can carry, read with \<open>readValue\<close> from its compact
  encoding and handed straight to \<open>writeValue\<close> on the binary protocol, is read back from the binary
  bytes as the same value.\<close>

theorem transcode_compact_to_binary:
  assumes "storable compact_mapok v" "storable binary_mapok v" "value_fuel v \<le> n"
  shows "\<exists>w u r bs. writeValue compactProtocol v new_compact_writer = Inr w \<and>
    readValue compactProtocol n (tv_type v) (new_compact_reader (cw_out w)) = Inr (u, r) \<and>
    writeValue binaryProtocol u [] = Inr bs \<and>
    readValue binaryProtocol n (tv_type u) (new_reader bs) = Inr (v, reader_at bs [])"
proof -
  obtain w bs where w: "writeValue compactProtocol v new_compact_writer = Inr w"
    "cw_out w = cw_out new_compact_writer @ bs"
    "\<And>rest. readValue compactProtocol n (tv_type v) (compact_at new_compact_writer (bs @ rest)) =
      Inr (v, compact_at w rest)"
    by (rule compact.written_value [OF assms(1) compact_init(1) assms(3)]) blast
  obtain w' bs' where b: "writeValue binaryProtocol v [] = Inr w'" "id w' = id [] @ bs'"
    "\<And>rest. readValue binaryProtocol n (tv_type v) (reader_at [] (bs' @ rest)) = Inr (v, reader_at w' rest)"
    by (rule binary.written_value [OF assms(2) TrueI assms(3)]) blast
  show ?thesis
    using w(1,2) w(3) [of "[]"] b(1,2) b(3) [of "[]"] by (auto simp: compact_init new_reader_at)
qed

theorem transcode_compact_to_binary_witness:
  "\<exists>w u r bs. writeValue compactProtocol sample_value new_compact_writer = Inr w \<and>
    readValue compactProtocol 12 (tv_type sample_value) (new_compact_reader (cw_out w)) = Inr (u, r) \<and>
    writeValue binaryProtocol u [] = Inr bs \<and>
    readValue binaryProtocol 12 (tv_type u) (new_reader bs) = Inr (sample_value, reader_at bs [])"
  by (rule transcode_compact_to_binary [OF sample_value_storable(1) sample_value_binary])

end
